(* ===== verification/PyModules_Prelude.thy ===== *)
theory PyModules_Prelude
  imports Main "HOL-Library.Word"
begin

text \<open>
  What every component of the development shares: the faults a C program can run into, the
  result of running a piece of C code, Python objects and the outcome of a Python method, and
  the small library of lemmas about them.

  A run of C code is a value of \<open>fault + 'a\<close>. \<open>Inl f\<close> says that the run left what C defines
  (or never returned) and why; \<open>Inr x\<close> that it returned \<open>x\<close>. Nothing is assumed away: a read
  through a null pointer, a write past an array and a second \<open>free\<close> are values of the model.
\<close>

section \<open>Runs of C code\<close>

datatype fault =
    Null_Pointer        \<comment> \<open>a null pointer is read, written or handed to libc\<close>
  | Use_After_Free      \<comment> \<open>a block or a stream is used after it was released\<close>
  | Double_Free         \<comment> \<open>a block or a stream is released twice\<close>
  | Buffer_Overflow     \<comment> \<open>a write past the end of an array\<close>
  | Out_Of_Bounds_Read  \<comment> \<open>a read outside an array or a string\<close>
  | Division_By_Zero
  | Abort               \<comment> \<open>the code calls \<open>abort()\<close> or \<open>exit()\<close>\<close>
  | No_Return           \<comment> \<open>a loop that never ends\<close>

type_synonym 'a run = "fault + 'a"

named_theorems run_simps \<open>unfolding and inversion of runs\<close>

definition bind_run :: "'a run \<Rightarrow> ('a \<Rightarrow> 'b run) \<Rightarrow> 'b run" where
  "bind_run m f = (case m of Inl e \<Rightarrow> Inl e | Inr x \<Rightarrow> f x)"

lemma bind_run_simps [simp]:
  "bind_run (Inl e) f = Inl e"
  "bind_run (Inr x) f = f x"
  by (simp_all add: bind_run_def)

lemma bind_run_assoc: "bind_run (bind_run m f) g = bind_run m (\<lambda>x. bind_run (f x) g)"
  by (cases m) simp_all

lemma bind_run_Inr_iff [run_simps]:
  "bind_run m f = Inr y \<longleftrightarrow> (\<exists>x. m = Inr x \<and> f x = Inr y)"
  by (cases m) simp_all

lemma bind_run_Inl_iff [run_simps]:
  "bind_run m f = Inl e \<longleftrightarrow> m = Inl e \<or> (\<exists>x. m = Inr x \<and> f x = Inl e)"
  by (cases m) simp_all

text \<open>A run that is defined to return: no fault.\<close>

definition returns :: "'a run \<Rightarrow> bool" where
  "returns m \<longleftrightarrow> (\<exists>x. m = Inr x)"

lemma returns_simps [simp]:
  "returns (Inr x)" "\<not> returns (Inl e)"
  by (simp_all add: returns_def)

lemma returns_bind [run_simps]:
  "returns (bind_run m f) \<longleftrightarrow> (\<exists>x. m = Inr x \<and> returns (f x))"
  by (auto simp: returns_def bind_run_Inr_iff)

text \<open>
  A run all of whose faults satisfy \<open>E\<close> and whose result satisfies \<open>Q\<close>, and the rules that follow
  the structure of a definition.
\<close>

definition run_holds :: "(fault \<Rightarrow> bool) \<Rightarrow> ('a \<Rightarrow> bool) \<Rightarrow> 'a run \<Rightarrow> bool" where
  "run_holds E Q r = (case r of Inl e \<Rightarrow> E e | Inr x \<Rightarrow> Q x)"

lemma run_holds_simps [simp]:
  "run_holds E Q (Inl e) = E e" "run_holds E Q (Inr x) = Q x"
  by (simp_all add: run_holds_def)

lemma run_holds_bind:
  "run_holds E P m \<Longrightarrow> (\<And>x. P x \<Longrightarrow> run_holds E Q (f x)) \<Longrightarrow> run_holds E Q (bind_run m f)"
  by (cases m) simp_all

lemma run_holds_if:
  "(c \<Longrightarrow> run_holds E Q a) \<Longrightarrow> (\<not> c \<Longrightarrow> run_holds E Q b) \<Longrightarrow> run_holds E Q (if c then a else b)"
  by simp

lemma run_holds_mono:
  "run_holds E P r \<Longrightarrow> (\<And>x. P x \<Longrightarrow> Q x) \<Longrightarrow> run_holds E Q r"
  by (cases r) simp_all

lemma run_holds_Inr: "run_holds E Q r \<Longrightarrow> r = Inr x \<Longrightarrow> Q x"
  by simp

lemma run_holds_Inl: "run_holds E Q r \<Longrightarrow> r = Inl e \<Longrightarrow> E e"
  by simp

lemma run_holds_any [simp]: "run_holds (\<lambda>_. True) (\<lambda>_. True) r"
  by (cases r) simp_all

section \<open>Python objects\<close>

text \<open>
  The objects the modules build or receive. A float carries the bits the C code copied into it.
\<close>

datatype py_object =
    Py_True
  | Py_False
  | Py_None
  | PyLong int
  | PyUnicode string
  | PyFloat32 "32 word"
  | PyFloat64 "64 word"
  | PyList "py_object list"

text \<open>
  A method returns a \<open>PyObject*\<close>: \<open>None\<close> is the C value \<open>NULL\<close>. The interpreter asks of a
  method that it returns \<open>NULL\<close> exactly when it left an exception in the thread's error
  indicator.
\<close>

type_synonym py_result = "py_object option"

definition py_protocol :: "py_result \<Rightarrow> string option \<Rightarrow> bool" where
  "py_protocol r err \<longleftrightarrow> (r = None) = (err \<noteq> None)"

lemma py_protocol_simps [simp]:
  "py_protocol (Some x) None" "py_protocol None (Some m)"
  "\<not> py_protocol (Some x) (Some m)" "\<not> py_protocol None None"
  by (simp_all add: py_protocol_def)

text \<open>What the interpreter's caller sees: a breach of the rule surfaces as \<open>SystemError\<close>.\<close>

datatype py_outcome = Returned py_object | Raised string | SystemError

definition py_outcome_of :: "py_result \<Rightarrow> string option \<Rightarrow> py_outcome" where
  "py_outcome_of r err =
     (case (r, err) of
        (Some x, None) \<Rightarrow> Returned x
      | (None, Some m) \<Rightarrow> Raised m
      | _ \<Rightarrow> SystemError)"

lemma py_outcome_SystemError: "py_outcome_of r err = SystemError \<longleftrightarrow> \<not> py_protocol r err"
  by (auto simp: py_outcome_of_def py_protocol_def split: option.splits)

text \<open>
  A Python program calls the methods of a module one after the other; after each call the
  interpreter takes the exception out of the indicator.
\<close>

fun py_session ::
    "('c \<Rightarrow> 's \<Rightarrow> (py_result \<times> 's) run) \<Rightarrow> ('s \<Rightarrow> string option) \<Rightarrow> ('s \<Rightarrow> 's) \<Rightarrow>
     'c list \<Rightarrow> 's \<Rightarrow> (py_outcome list \<times> 's) run" where
  "py_session call err clear [] s = Inr ([], s)"
| "py_session call err clear (c # cs) s =
     bind_run (call c s) (\<lambda>(r, s1).
     bind_run (py_session call err clear cs (clear s1)) (\<lambda>(outs, s2).
     Inr (py_outcome_of r (err s1) # outs, s2)))"

text \<open>
  Interface of a module of methods: started with an empty indicator in a good state, a method
  that returns keeps the state good and obeys the interpreter's rule.
\<close>

locale py_module =
  fixes call :: "'c \<Rightarrow> 's \<Rightarrow> (py_result \<times> 's) run"
    and err :: "'s \<Rightarrow> string option"
    and clear :: "'s \<Rightarrow> 's"
    and inv :: "'s \<Rightarrow> bool"
  assumes err_clear: "err (clear s) = None"
    and inv_clear: "inv s \<Longrightarrow> inv (clear s)"
    and call_inv: "inv s \<Longrightarrow> err s = None \<Longrightarrow> call c s = Inr (r, s') \<Longrightarrow> inv s'"
    and call_protocol: "inv s \<Longrightarrow> err s = None \<Longrightarrow> call c s = Inr (r, s') \<Longrightarrow>
      py_protocol r (err s')"
begin

lemma session_sound:
  assumes "inv s" and "err s = None" and "py_session call err clear cs s = Inr (outs, s')"
  shows "inv s' \<and> length outs = length cs \<and> SystemError \<notin> set outs"
  using assms
proof (induction cs arbitrary: s outs)
  case Nil
  then show ?case by simp
next
  case (Cons c cs)
  from Cons.prems(3) obtain r s1 outs2 where call: "call c s = Inr (r, s1)"
    and rest: "py_session call err clear cs (clear s1) = Inr (outs2, s')"
    and outs: "outs = py_outcome_of r (err s1) # outs2"
    by (auto simp: run_simps)
  have "inv s1" and "py_protocol r (err s1)"
    using call_inv call_protocol Cons.prems(1,2) call by blast+
  moreover from this have "SystemError \<noteq> py_outcome_of r (err s1)"
    by (metis py_outcome_SystemError)
  ultimately show ?case
    using Cons.IH [OF inv_clear err_clear rest] by (simp add: outs)
qed

end

text \<open>What a module's initialiser puts into the module's dictionary.\<close>

datatype py_attr = Exception_Type string | Int_Constant int | Str_Constant string

section \<open>Signed machine integers\<close>

text \<open>
  The modules are built for \<open>arm-linux-gnueabihf\<close>: \<open>int\<close> and \<open>long\<close> have 32 bits. Signed
  arithmetic is written on \<open>int\<close> and brought back to the width by \<open>wrap32\<close>, the two's
  complement reading; where no intermediate value leaves the range it is the identity.
\<close>

definition wrap32 :: "int \<Rightarrow> int" where
  "wrap32 i = sint (word_of_int i :: 32 word)"

definition int32 :: "int \<Rightarrow> bool" where
  "int32 i \<longleftrightarrow> - (2 ^ 31) \<le> i \<and> i < 2 ^ 31"

lemma wrap32_alt: "wrap32 i = (i + 2 ^ 31) mod 2 ^ 32 - 2 ^ 31"
  by (simp add: wrap32_def sint_sbintrunc' signed_take_bit_eq_take_bit_shift take_bit_eq_mod)

lemma wrap32_0: "wrap32 0 = 0"
  by (simp add: wrap32_alt)

lemma wrap32_add: "wrap32 (wrap32 i + j) = wrap32 (i + j)"
proof -
  have "(i + 2 ^ 31) mod 2 ^ 32 - 2 ^ 31 + j + 2 ^ 31 = (i + 2 ^ 31) mod 2 ^ 32 + j" by simp
  moreover have "((i + 2 ^ 31) mod 2 ^ 32 + j) mod 2 ^ 32 = (i + j + 2 ^ 31) mod 2 ^ 32"
    using mod_add_left_eq [of "i + 2 ^ 31" "2 ^ 32" j] by (simp add: algebra_simps)
  ultimately show ?thesis by (simp only: wrap32_alt)
qed

lemma wrap32_id: "int32 i \<Longrightarrow> wrap32 i = i"
  by (simp add: wrap32_alt int32_def)

lemma wrap32_range: "int32 (wrap32 i)"
  by (auto simp: wrap32_alt int32_def intro: order.strict_trans2 [OF pos_mod_bound])

lemma int32_wrap_iff: "wrap32 i = i \<longleftrightarrow> int32 i"
  using wrap32_id wrap32_range by metis

section \<open>Lists\<close>

lemma take_Suc_eq_snoc: "k < length xs \<Longrightarrow> take (Suc k) xs = take k xs @ [xs ! k]"
  by (rule take_Suc_conv_app_nth)

lemma list_eq_take_drop_nth:
  "i < length xs \<Longrightarrow> xs = take i xs @ xs ! i # drop (Suc i) xs"
  by (rule id_take_nth_drop)

end
