(* ===== verification/C_Strings.thy ===== *)
theory C_Strings
  imports PyModules_Prelude
begin

text \<open>
  The part of the C library's string functions that the modules use: reading a NUL-terminated
  string, \<open>memcmp\<close> over a prefix, decimal formatting (\<open>%d\<close>, \<open>%ld\<close>), \<open>atoi\<close>, \<open>strtoul\<close> in
  base 16 and \<open>sprintf\<close> into a fixed array. A C string is the list of its characters without
  the terminating NUL; a character is a byte.
\<close>

named_theorems cstr_simps \<open>evaluation of string functions\<close>

section \<open>NUL-terminated strings\<close>

abbreviation NUL :: char where
  "NUL \<equiv> CHR 0x00"

abbreviation crlf :: string where
  "crlf \<equiv> [CHR 0x0D, CHR 0x0A]"

text \<open>The byte at an index up to the terminator.\<close>

definition cstr_at :: "string \<Rightarrow> nat \<Rightarrow> char" where
  "cstr_at s i = (if i < length s then s ! i else NUL)"

text \<open>\<open>*(string + p)\<close>: the terminator is the last byte that may be read.\<close>

definition byte_at :: "string \<Rightarrow> nat \<Rightarrow> char run" where
  "byte_at s p =
     (if p < length s then Inr (s ! p) else if p = length s then Inr NUL
      else Inl Out_Of_Bounds_Read)"

definition code_at :: "string \<Rightarrow> nat \<Rightarrow> int run" where
  "code_at s p = bind_run (byte_at s p) (\<lambda>c. Inr (of_char c))"

lemma byte_at_simps [cstr_simps]:
  "byte_at [] 0 = Inr NUL"
  "byte_at (c # s) 0 = Inr c"
  "byte_at (c # s) (Suc n) = byte_at s n"
  by (simp_all add: byte_at_def)

lemma byte_at_nth: "p < length s \<Longrightarrow> byte_at s p = Inr (s ! p)"
  by (simp add: byte_at_def)

lemma byte_at_end: "p = length s \<Longrightarrow> byte_at s p = Inr NUL"
  by (simp add: byte_at_def)

lemma byte_at_append: "byte_at (a @ s) (length a + p) = byte_at s p"
  by (simp add: byte_at_def nth_append)

lemma byte_at_Inl_iff: "byte_at s p = Inl e \<longleftrightarrow> length s < p \<and> e = Out_Of_Bounds_Read"
  by (auto simp: byte_at_def)

text \<open>The string that starts at the beginning of a byte buffer; \<open>None\<close> if no NUL ends it.\<close>

fun cstr_of :: "string \<Rightarrow> string option" where
  "cstr_of [] = None"
| "cstr_of (c # cs) = (if c = NUL then Some [] else map_option (Cons c) (cstr_of cs))"

lemma cstr_of_append_NUL: "NUL \<notin> set s \<Longrightarrow> cstr_of (s @ NUL # r) = Some s"
  by (induction s) auto

lemma cstr_of_None_iff: "cstr_of b = None \<longleftrightarrow> NUL \<notin> set b"
  by (induction b) auto

lemma cstr_of_Some: "cstr_of b = Some s \<Longrightarrow> NUL \<notin> set s \<and> (\<exists>r. b = s @ NUL # r)"
  by (induction b arbitrary: s) (auto split: if_splits)

text \<open>
  \<open>memcmp(a, s, strlen(a)) == 0\<close> for a NUL-free \<open>a\<close> and a C string \<open>s\<close>: the terminator of \<open>s\<close>
  differs from every byte of \<open>a\<close>, so the comparison is decided before the bytes after it.
\<close>

fun memcmp_prefix :: "string \<Rightarrow> string \<Rightarrow> bool" where
  "memcmp_prefix [] s = True"
| "memcmp_prefix (a # as) [] = False"
| "memcmp_prefix (a # as) (c # cs) = (a = c \<and> memcmp_prefix as cs)"

lemma memcmp_prefix_iff: "memcmp_prefix a s \<longleftrightarrow> take (length a) s = a"
  by (induction a s rule: memcmp_prefix.induct) auto

section \<open>Decimal numbers\<close>

definition digit_char :: "nat \<Rightarrow> char" where
  "digit_char d = char_of (48 + d)"

definition is_digit :: "char \<Rightarrow> bool" where
  "is_digit c \<longleftrightarrow> 48 \<le> (of_char c :: nat) \<and> (of_char c :: nat) \<le> 57"

definition digit_val :: "char \<Rightarrow> nat" where
  "digit_val c = of_char c - 48"

lemma of_char_digit_char: "d < 10 \<Longrightarrow> (of_char (digit_char d) :: nat) = 48 + d"
  by (simp add: digit_char_def)

lemma is_digit_digit_char [simp]: "d < 10 \<Longrightarrow> is_digit (digit_char d)"
  by (simp add: is_digit_def of_char_digit_char)

lemma digit_val_digit_char [simp]: "d < 10 \<Longrightarrow> digit_val (digit_char d) = d"
  by (simp add: digit_val_def of_char_digit_char)

text \<open>\<open>%d\<close> and \<open>%ld\<close>.\<close>

fun show_nat :: "nat \<Rightarrow> string" where
  "show_nat n = (if n < 10 then [digit_char n] else show_nat (n div 10) @ [digit_char (n mod 10)])"

declare show_nat.simps [simp del]

definition show_int :: "int \<Rightarrow> string" where
  "show_int i = (if i < 0 then CHR ''-'' # show_nat (nat (- i)) else show_nat (nat i))"

lemma show_nat_small: "n < 10 \<Longrightarrow> show_nat n = [digit_char n]"
  by (subst show_nat.simps) simp

lemma show_int_0_1 [simp]: "show_int 0 = ''0''" "show_int 1 = ''1''"
  by code_simp+

lemma show_nat_digits: "\<forall>c \<in> set (show_nat n). is_digit c"
proof (induction n rule: show_nat.induct)
  case (1 n)
  then show ?case by (subst show_nat.simps) auto
qed

lemma show_nat_nonempty [simp]: "show_nat n \<noteq> []"
  by (subst show_nat.simps) simp

lemma length_show_nat: "n < 10 ^ k \<Longrightarrow> 0 < k \<Longrightarrow> length (show_nat n) \<le> k"
proof (induction k arbitrary: n)
  case 0
  then show ?case by simp
next
  case (Suc k)
  show ?case
  proof (cases "n < 10")
    case True
    then show ?thesis by (subst show_nat.simps) simp
  next
    case False
    with Suc.prems have k: "0 < k" by (cases k) auto
    from Suc.prems have "n div 10 < 10 ^ k" by (simp add: div_less_iff_less_mult mult.commute)
    from Suc.IH [OF this k] False show ?thesis by (subst show_nat.simps) simp
  qed
qed

text \<open>The number a string begins with: white space, an optional sign, then digits up to the first other character.\<close>

definition is_space :: "char \<Rightarrow> bool" where
  "is_space c \<longleftrightarrow> c = CHR '' '' \<or> (9 \<le> (of_char c :: nat) \<and> (of_char c :: nat) \<le> 13)"

fun digits_val :: "nat \<Rightarrow> string \<Rightarrow> nat" where
  "digits_val acc [] = acc"
| "digits_val acc (c # cs) = (if is_digit c then digits_val (10 * acc + digit_val c) cs else acc)"

definition signed_digits :: "string \<Rightarrow> int" where
  "signed_digits s =
     (case s of
        [] \<Rightarrow> 0
      | c # cs \<Rightarrow>
          if c = CHR ''-'' then - int (digits_val 0 cs)
          else if c = CHR ''+'' then int (digits_val 0 cs)
          else int (digits_val 0 s))"

definition decimal_value :: "string \<Rightarrow> int" where
  "decimal_value s = signed_digits (dropWhile is_space s)"

text \<open>
  \<open>atoi\<close> gives an \<open>int\<close>. What it does with a number outside the range is not defined; the value here is that of \<open>strtol\<close>
  with a \<open>long\<close> of 32 bits, the nearest one in the range. The properties are about numbers in the range.
\<close>

definition atoi :: "string \<Rightarrow> int" where
  "atoi s = max (- (2 ^ 31)) (min (2 ^ 31 - 1) (decimal_value s))"

lemma digits_val_append:
  "\<forall>c \<in> set s. is_digit c \<Longrightarrow> digits_val acc (s @ r) = digits_val (digits_val acc s) r"
  by (induction s arbitrary: acc) auto

lemma digits_val_show_nat: "digits_val 0 (show_nat n) = n"
proof (induction n rule: show_nat.induct)
  case (1 n)
  show ?case
  proof (cases "n < 10")
    case True
    then show ?thesis by (subst show_nat.simps) simp
  next
    case False
    with 1 show ?thesis
      by (subst show_nat.simps) (simp add: digits_val_append show_nat_digits)
  qed
qed

lemma digits_val_ge: "acc \<le> digits_val acc ds"
proof (induction ds arbitrary: acc)
  case (Cons d ds)
  from Cons.IH [of "10 * acc + digit_val d"] show ?case by simp
qed simp

lemma digits_val_stop:
  "r = [] \<or> \<not> is_digit (hd r) \<Longrightarrow> digits_val acc r = acc"
  by (cases r) auto

lemma is_digit_not_space: "is_digit c \<Longrightarrow> \<not> is_space c"
  by (auto simp: is_digit_def is_space_def)

lemma is_digit_not_sign: "is_digit c \<Longrightarrow> c \<noteq> CHR ''-'' \<and> c \<noteq> CHR ''+''"
  by (auto simp: is_digit_def)

lemma decimal_show_nat:
  assumes "r = [] \<or> \<not> is_digit (hd r)"
  shows "decimal_value (show_nat n @ r) = int n"
proof -
  obtain c cs where s: "show_nat n = c # cs"
    using show_nat_nonempty [of n] by (cases "show_nat n") blast+
  then have c: "is_digit c" using show_nat_digits [of n] by simp
  have "digits_val 0 (show_nat n @ r) = n"
    by (simp add: digits_val_append show_nat_digits digits_val_show_nat digits_val_stop assms)
  with s c show ?thesis
    by (simp add: decimal_value_def signed_digits_def is_digit_not_space is_digit_not_sign)
qed

lemma decimal_minus: "decimal_value (CHR ''-'' # s) = - int (digits_val 0 s)"
  by (simp add: decimal_value_def signed_digits_def is_space_def)

text \<open>Formatting and reading back a number, whatever non-digit follows it.\<close>

lemma decimal_show_int:
  assumes "r = [] \<or> \<not> is_digit (hd r)"
  shows "decimal_value (show_int i @ r) = i"
  by (simp add: show_int_def decimal_minus decimal_show_nat assms digits_val_append
      show_nat_digits digits_val_show_nat digits_val_stop)

lemmas decimal_show_int' [simp] = decimal_show_int [where r = "[]", simplified]

lemma length_show_int:
  assumes "int32 i"
  shows "length (show_int i) \<le> 11"
proof -
  from assms have "nat i < 10 ^ 10" "nat (- i) < 10 ^ 10"
    by (auto simp: int32_def)
  then have "length (show_nat (nat i)) \<le> 10" "length (show_nat (nat (- i))) \<le> 10"
    by (simp_all add: length_show_nat del: power_numeral)
  then show ?thesis by (simp add: show_int_def)
qed

lemma show_int_inj: "show_int i = show_int j \<longleftrightarrow> i = j"
  by (metis decimal_show_int')

section \<open>Hexadecimal numbers\<close>

text \<open>
  \<open>strtoul(s, NULL, 16)\<close> with a 32-bit \<open>unsigned long\<close>: white space, an optional sign, an
  optional \<open>0x\<close>, hexadecimal digits; a value out of range gives \<open>ULONG_MAX\<close>.
\<close>

definition hex_val :: "char \<Rightarrow> nat option" where
  "hex_val c =
     (let n = of_char c :: nat in
      if 48 \<le> n \<and> n \<le> 57 then Some (n - 48)
      else if 97 \<le> n \<and> n \<le> 102 then Some (n - 87)
      else if 65 \<le> n \<and> n \<le> 70 then Some (n - 55)
      else None)"

fun hex_digits_val :: "nat \<Rightarrow> string \<Rightarrow> nat" where
  "hex_digits_val acc [] = acc"
| "hex_digits_val acc (c # cs) =
     (case hex_val c of None \<Rightarrow> acc | Some d \<Rightarrow> hex_digits_val (16 * acc + d) cs)"

fun hex_prefix :: "string \<Rightarrow> string" where
  "hex_prefix (a # b # c # cs) =
     (if a = CHR ''0'' \<and> (b = CHR ''x'' \<or> b = CHR ''X'') \<and> hex_val c \<noteq> None then c # cs
      else a # b # c # cs)"
| "hex_prefix s = s"

definition strtoul16 :: "string \<Rightarrow> nat" where
  "strtoul16 s =
     (let s' = dropWhile is_space s;
          neg = (s' \<noteq> [] \<and> hd s' = CHR ''-'');
          s'' = (if s' \<noteq> [] \<and> (hd s' = CHR ''-'' \<or> hd s' = CHR ''+'') then tl s' else s');
          v = hex_digits_val 0 (hex_prefix s'')
      in if v \<ge> 2 ^ 32 then 2 ^ 32 - 1
         else if neg then (2 ^ 32 - v) mod 2 ^ 32 else v)"

section \<open>sprintf into an array\<close>

text \<open>
  \<open>sprintf(buf, \<dots>)\<close> writes the text and its terminator: with an array of \<open>n\<close> bytes the text has
  at most \<open>n - 1\<close>.
\<close>

definition sprintf_buf :: "nat \<Rightarrow> string \<Rightarrow> string run" where
  "sprintf_buf n s = (if length s < n then Inr s else Inl Buffer_Overflow)"

lemma sprintf_buf_fits [simp]: "length s < n \<Longrightarrow> sprintf_buf n s = Inr s"
  by (simp add: sprintf_buf_def)

lemma sprintf_buf_Inr [run_simps]: "sprintf_buf n s = Inr t \<longleftrightarrow> length s < n \<and> t = s"
  by (auto simp: sprintf_buf_def)

section \<open>Writing into a block\<close>

text \<open>\<open>strncpy\<close>, \<open>strcpy\<close> and single stores at an index of a block of bytes.\<close>

definition put_bytes :: "nat \<Rightarrow> string \<Rightarrow> string \<Rightarrow> string run" where
  "put_bytes i bs blk =
     (if i + length bs \<le> length blk then Inr (take i blk @ bs @ drop (i + length bs) blk)
      else Inl Buffer_Overflow)"

lemma put_bytes_next:
  "put_bytes (length a) bs (a @ r) =
     (if length bs \<le> length r then Inr (a @ bs @ drop (length bs) r) else Inl Buffer_Overflow)"
  by (simp add: put_bytes_def)

lemma put_bytes_nil: "i \<le> length blk \<Longrightarrow> put_bytes i [] blk = Inr blk"
  by (simp add: put_bytes_def)

end
