(* ===== verification/Stdio.thy ===== *)
theory Stdio
  imports C_Strings
begin

text \<open>
  What the device modules (\<open>pwm\<close>, \<open>imx6_ixora_led\<close>) use of the C library and of the kernel:
  buffered streams opened for writing on sysfs attribute files, \<open>opendir\<close>, and the interpreter's
  error indicator. The kernel's answers are not under \<open>src/\<close>: they are the argument \<open>env\<close>, a
  family of answers indexed by the number of calls made so far, so that two calls with the same
  arguments may be answered differently.
\<close>

section \<open>The process and its environment\<close>

record io_env =
  env_fopen :: "nat \<Rightarrow> string \<Rightarrow> bool"    \<comment> \<open>does this \<open>fopen(path, "w")\<close> succeed?\<close>
  env_fwrite :: "nat \<Rightarrow> bool"             \<comment> \<open>does this \<open>fwrite\<close> store its item?\<close>
  env_opendir :: "nat \<Rightarrow> string \<Rightarrow> bool"  \<comment> \<open>does this \<open>opendir(path)\<close> succeed?\<close>
  env_strerror :: "nat \<Rightarrow> string"         \<comment> \<open>\<open>strerror(errno)\<close> after a failed call\<close>

text \<open>
  \<open>dev_log\<close> lists what was handed to the kernel, in order: the path of the attribute and the bytes
  of one \<open>write\<close>. A stream is its path and the bytes still in its buffer.
\<close>

record world =
  pyerr :: "string option"
  tick :: nat
  dev_log :: "(string \<times> string) list"
  streams :: "nat \<Rightarrow> (string \<times> string) option"
  next_stream :: nat
  open_dirs :: nat

definition wf_world :: "'a world_scheme \<Rightarrow> bool" where
  "wf_world w \<longleftrightarrow> (\<forall>h \<ge> next_stream w. streams w h = None)"

definition PyErr_SetString :: "string \<Rightarrow> 'a world_scheme \<Rightarrow> 'a world_scheme" where
  "PyErr_SetString msg w = w\<lparr>pyerr := Some msg\<rparr>"

definition open_faild :: "io_env \<Rightarrow> 'a world_scheme \<Rightarrow> string" where
  "open_faild env w = ''Open file faild ['' @ env_strerror env (tick w) @ '']''"

definition write_faild :: "io_env \<Rightarrow> 'a world_scheme \<Rightarrow> string" where
  "write_faild env w = ''Write file faild ['' @ env_strerror env (tick w) @ '']''"

section \<open>Streams\<close>

definition fopen_w :: "io_env \<Rightarrow> string \<Rightarrow> 'a world_scheme \<Rightarrow> nat option \<times> 'a world_scheme" where
  "fopen_w env path w =
     (if env_fopen env (tick w) path
      then (Some (next_stream w),
            w\<lparr>tick := Suc (tick w), next_stream := Suc (next_stream w),
              streams := (streams w)(next_stream w \<mapsto> (path, []))\<rparr>)
      else (None, w\<lparr>tick := Suc (tick w)\<rparr>))"

text \<open>
  \<open>fwrite(data, length data, 1, fp)\<close>: the number of items stored, 1 or 0 (and 0 for an item of
  size 0). A stored item is buffered; the kernel sees it when the stream is closed.
\<close>

definition fwrite1 ::
    "io_env \<Rightarrow> string \<Rightarrow> nat option \<Rightarrow> 'a world_scheme \<Rightarrow> (nat \<times> 'a world_scheme) run" where
  "fwrite1 env data fp w =
     (case fp of
        None \<Rightarrow> Inl Null_Pointer
      | Some h \<Rightarrow>
          (case streams w h of
             None \<Rightarrow> Inl Use_After_Free
           | Some (path, buf) \<Rightarrow>
               if data \<noteq> [] \<and> env_fwrite env (tick w)
               then Inr (1, w\<lparr>tick := Suc (tick w),
                              streams := (streams w)(h \<mapsto> (path, buf @ data))\<rparr>)
               else Inr (0, w\<lparr>tick := Suc (tick w)\<rparr>)))"

definition fclose :: "nat option \<Rightarrow> 'a world_scheme \<Rightarrow> 'a world_scheme run" where
  "fclose fp w =
     (case fp of
        None \<Rightarrow> Inl Null_Pointer
      | Some h \<Rightarrow>
          (case streams w h of
             None \<Rightarrow> Inl Use_After_Free
           | Some (path, buf) \<Rightarrow>
               Inr (w\<lparr>streams := (streams w)(h := None),
                      dev_log := (if buf = [] then dev_log w else dev_log w @ [(path, buf)])\<rparr>)))"

definition opendir :: "io_env \<Rightarrow> string \<Rightarrow> 'a world_scheme \<Rightarrow> bool \<times> 'a world_scheme" where
  "opendir env path w =
     (if env_opendir env (tick w) path
      then (True, w\<lparr>tick := Suc (tick w), open_dirs := Suc (open_dirs w)\<rparr>)
      else (False, w\<lparr>tick := Suc (tick w)\<rparr>))"

lemmas stdio_defs = fopen_w_def fwrite1_def fclose_def opendir_def PyErr_SetString_def

text \<open>\<open>sizeof("0")\<close> counts the terminator: the items written from literals end in a NUL.\<close>

definition lit :: "string \<Rightarrow> string" where
  "lit s = s @ [NUL]"

lemma lit_nonempty [simp]: "lit s \<noteq> []"
  by (simp add: lit_def)

lemma decimal_lit_0 [simp]: "decimal_value (lit ''0'') = 0"
  by (simp add: lit_def decimal_value_def signed_digits_def is_space_def is_digit_def digit_val_def)

section \<open>Writing one attribute\<close>

text \<open>
  The block the modules repeat for every attribute: open the file, store one item, report a failed
  store, close. \<open>checked\<close> says whether the block tests the result of \<open>fopen\<close>; where it does not, a
  failed \<open>fopen\<close> hands a null stream to \<open>fwrite\<close>. The Boolean is false where the enclosing method
  then returns \<open>NULL\<close>.
\<close>

definition put_attr ::
    "io_env \<Rightarrow> bool \<Rightarrow> string \<Rightarrow> string \<Rightarrow> 'a world_scheme \<Rightarrow> (bool \<times> 'a world_scheme) run" where
  "put_attr env checked path data w =
     (case fopen_w env path w of (fp, w) \<Rightarrow>
        if checked \<and> fp = None then Inr (False, PyErr_SetString (open_faild env w) w)
        else bind_run (fwrite1 env data fp w) (\<lambda>(ret, w).
          if ret < 1
          then bind_run (fclose fp (PyErr_SetString (write_faild env w) w)) (\<lambda>w. Inr (False, w))
          else bind_run (fclose fp w) (\<lambda>w. Inr (True, w))))"

text \<open>Its three outcomes, for a non-empty item.\<close>

lemma put_attr_eq:
  assumes "wf_world w" and "data \<noteq> []"
  shows "put_attr env checked path data w =
    (if \<not> env_fopen env (tick w) path
     then if checked
          then Inr (False, w\<lparr>tick := Suc (tick w),
                 pyerr := Some (open_faild env (w\<lparr>tick := Suc (tick w)\<rparr>))\<rparr>)
          else Inl Null_Pointer
     else if \<not> env_fwrite env (Suc (tick w))
     then Inr (False, w\<lparr>tick := Suc (Suc (tick w)), next_stream := Suc (next_stream w),
                 pyerr := Some (write_faild env (w\<lparr>tick := Suc (Suc (tick w))\<rparr>))\<rparr>)
     else Inr (True, w\<lparr>tick := Suc (Suc (tick w)), next_stream := Suc (next_stream w),
                 dev_log := dev_log w @ [(path, data)]\<rparr>))"
proof -
  have idem: "(streams w)(next_stream w := None) = streams w"
    using assms(1) by (simp add: wf_world_def fun_upd_idem)
  then show ?thesis
    using assms(2)
    by (simp add: put_attr_def stdio_defs open_faild_def write_faild_def idem)
qed

lemma put_attr_frame:
  assumes "put_attr env checked path data w = Inr (ok, w')" and "wf_world w" and "data \<noteq> []"
  shows "wf_world w'" and "streams w' = streams w" and "open_dirs w' = open_dirs w"
    and "dev_log w' = dev_log w @ (if ok then [(path, data)] else [])"
    and "pyerr w' \<noteq> None \<longleftrightarrow> \<not> ok \<or> pyerr w \<noteq> None"
    and "world.more w' = world.more w"
  using assms by (auto simp: put_attr_eq wf_world_def split: if_splits)

lemma put_attr_checked_returns:
  "wf_world w \<Longrightarrow> data \<noteq> [] \<Longrightarrow> \<exists>ok w'. put_attr env True path data w = Inr (ok, w')"
  by (auto simp: put_attr_eq)

section \<open>Interface: a writer of attributes\<close>

text \<open>
  What the device modules rely on: a write either appends its record to the log of the device
  and reports success, or leaves the log alone and reports a failure in the error indicator.
\<close>

fun put_seq ::
    "('p \<Rightarrow> 'd \<Rightarrow> 's \<Rightarrow> (bool \<times> 's) run) \<Rightarrow> ('p \<times> 'd) list \<Rightarrow> 's \<Rightarrow> (bool \<times> 's) run" where
  "put_seq put [] s = Inr (True, s)"
| "put_seq put ((p, d) # ops) s =
     bind_run (put p d s) (\<lambda>(ok, s). if ok then put_seq put ops s else Inr (False, s))"

locale attr_writer =
  fixes put :: "'p \<Rightarrow> 'd \<Rightarrow> 's \<Rightarrow> (bool \<times> 's) run"
    and log :: "'s \<Rightarrow> ('p \<times> 'd) list"
    and failed :: "'s \<Rightarrow> bool"
    and inv :: "'s \<Rightarrow> bool"
    and valid :: "'d \<Rightarrow> bool"
  assumes put_inv: "inv s \<Longrightarrow> valid d \<Longrightarrow> put p d s = Inr (ok, s') \<Longrightarrow> inv s'"
    and put_log: "inv s \<Longrightarrow> valid d \<Longrightarrow> put p d s = Inr (ok, s') \<Longrightarrow>
      log s' = log s @ (if ok then [(p, d)] else [])"
    and put_failed: "inv s \<Longrightarrow> valid d \<Longrightarrow> put p d s = Inr (ok, s') \<Longrightarrow>
      failed s' \<longleftrightarrow> \<not> ok \<or> failed s"
begin

text \<open>
  A sequence of writes leaves a prefix of the planned records, the whole plan iff it succeeds, and
  reports a failure iff it does not succeed.
\<close>

lemma put_seq_contract:
  assumes "inv s" and "\<forall>(p, d) \<in> set ops. valid d" and "put_seq put ops s = Inr (ok, s')"
  shows "inv s' \<and> (failed s' \<longleftrightarrow> \<not> ok \<or> failed s) \<and>
    (\<exists>k \<le> length ops. log s' = log s @ take k ops \<and> (ok \<longleftrightarrow> k = length ops))"
  using assms
proof (induction ops arbitrary: s)
  case Nil
  then show ?case by simp
next
  case (Cons op ops)
  obtain p d where op: "op = (p, d)" by (cases op)
  from Cons.prems(3) obtain ok1 s1 where put: "put p d s = Inr (ok1, s1)"
    and rest: "(if ok1 then put_seq put ops s1 else Inr (False, s1)) = Inr (ok, s')"
    by (auto simp: op run_simps)
  from Cons.prems(2) have valid: "valid d" and valids: "\<forall>(p, d) \<in> set ops. valid d"
    by (auto simp: op)
  note step = put_inv [OF Cons.prems(1) valid put] put_log [OF Cons.prems(1) valid put]
    put_failed [OF Cons.prems(1) valid put]
  show ?case
  proof (cases ok1)
    case True
    with rest have "put_seq put ops s1 = Inr (ok, s')" by simp
    from Cons.IH [OF step(1) valids this] obtain k where "k \<le> length ops"
      "log s' = log s1 @ take k ops" "ok \<longleftrightarrow> k = length ops"
      "inv s'" "failed s' \<longleftrightarrow> \<not> ok \<or> failed s1"
      by blast
    with True step show ?thesis by (intro conjI exI [of _ "Suc k"]) (simp_all add: op)
  next
    case False
    with rest step show ?thesis by (intro conjI exI [of _ 0]) simp_all
  qed
qed

end

interpretation sysfs: attr_writer "put_attr env checked"
    "dev_log :: 'a world_scheme \<Rightarrow> (string \<times> string) list" "\<lambda>w. pyerr w \<noteq> None" wf_world
    "\<lambda>d. d \<noteq> []" for env checked
  by unfold_locales (auto dest: put_attr_frame)

text \<open>The streams a sequence of writes opens are closed again.\<close>

lemma put_seq_streams:
  assumes "wf_world w" and "\<forall>(p, d) \<in> set ops. d \<noteq> []"
    and "put_seq (put_attr env checked) ops w = Inr (ok, w')"
  shows "streams w' = streams w \<and> open_dirs w' = open_dirs w \<and> world.more w' = world.more w"
  using assms
proof (induction ops arbitrary: w)
  case Nil
  then show ?case by simp
next
  case (Cons op ops)
  obtain p d where op: "op = (p, d)" by (cases op)
  from Cons.prems(3) obtain ok1 w1 where put: "put_attr env checked p d w = Inr (ok1, w1)"
    and rest: "(if ok1 then put_seq (put_attr env checked) ops w1 else Inr (False, w1)) = Inr (ok, w')"
    by (auto simp: op run_simps)
  from Cons.prems(2) have d: "d \<noteq> []" and ds: "\<forall>(p, d) \<in> set ops. d \<noteq> []"
    by (auto simp: op)
  note frame = put_attr_frame [OF put Cons.prems(1) d]
  show ?case
  proof (cases ok1)
    case True
    with Cons.IH [OF frame(1) ds] rest frame show ?thesis by simp
  next
    case False
    with rest frame show ?thesis by simp
  qed
qed

text \<open>With an environment that opens and stores every time, a sequence of writes runs to its end.\<close>

definition env_ok :: "io_env \<Rightarrow> bool" where
  "env_ok env \<longleftrightarrow> (\<forall>t p. env_fopen env t p) \<and> (\<forall>t. env_fwrite env t)"

lemma put_attr_ok:
  assumes "wf_world w" and "data \<noteq> []" and "env_ok env"
  shows "put_attr env checked path data w =
    Inr (True, w\<lparr>tick := Suc (Suc (tick w)), next_stream := Suc (next_stream w),
                 dev_log := dev_log w @ [(path, data)]\<rparr>)"
  using assms by (simp add: put_attr_eq env_ok_def)

lemma put_seq_ok:
  assumes "wf_world w" and "\<forall>(p, d) \<in> set ops. d \<noteq> []" and "env_ok env"
  shows "put_seq (put_attr env checked) ops w =
    Inr (True, w\<lparr>tick := tick w + 2 * length ops, next_stream := next_stream w + length ops,
                 dev_log := dev_log w @ ops\<rparr>)"
  using assms
proof (induction ops arbitrary: w)
  case Nil
  then show ?case by simp
next
  case (Cons op ops)
  obtain p d where op: "op = (p, d)" by (cases op)
  let ?w = "w\<lparr>tick := Suc (Suc (tick w)), next_stream := Suc (next_stream w),
              dev_log := dev_log w @ [(p, d)]\<rparr>"
  from Cons.prems have "wf_world ?w" by (simp add: wf_world_def)
  with Cons.IH [of ?w] Cons.prems show ?case
    by (simp add: op put_attr_ok)
qed

section \<open>Reading a log back\<close>

text \<open>
  The value of every numeric attribute after a log of writes, the number at the start of the last
  bytes written to it.
\<close>

definition dev_apply :: "(string \<Rightarrow> int) \<Rightarrow> (string \<times> string) list \<Rightarrow> string \<Rightarrow> int" where
  "dev_apply m ops = foldl (\<lambda>m (p, d). m(p := decimal_value d)) m ops"

lemma dev_apply_simps [simp]:
  "dev_apply m [] = m"
  "dev_apply m ((p, d) # ops) = dev_apply (m(p := decimal_value d)) ops"
  "dev_apply m (xs @ ys) = dev_apply (dev_apply m xs) ys"
  by (simp_all add: dev_apply_def)

end
