(* ===== verification/Pwm.thy ===== *)
theory Pwm
  imports Stdio
begin

text \<open>
  \<open>c_modules/pwm/pwm.c\<close>: the Python module that drives one of the two PWM outputs of the board
  through sysfs. Its state is the three static path buffers; its operations are the methods
  \<open>new_pwm\<close>, \<open>start\<close>, \<open>attrs\<close>, \<open>rate\<close>, \<open>stop\<close> and the module's destructor \<open>del_pwm\<close>. A method
  takes the result of \<open>PyArg_ParseTuple\<close> (\<open>None\<close> when parsing failed, leaving the variables as
  initialised) and returns the \<open>PyObject*\<close> and the new state.
\<close>

section \<open>State\<close>

record pwm_world = world +
  pwmdevpath :: string
  periodpath :: string
  cyclespath :: string

definition pwmchip_path :: "int \<Rightarrow> string \<Rightarrow> string" where
  "pwmchip_path n rest = ''/sys/class/pwm/pwmchip'' @ show_int n @ rest"

abbreviation FILE_WRITE_NMEMB :: nat where
  "FILE_WRITE_NMEMB \<equiv> 1"

section \<open>Operations\<close>

text \<open>
  \<open>new_pwm\<close> up to the exported channel: the Boolean is false where the method returns \<open>NULL\<close>.
\<close>

definition new_pwm_export ::
    "io_env \<Rightarrow> int \<Rightarrow> 'a world_scheme \<Rightarrow> (bool \<times> 'a world_scheme) run" where
  "new_pwm_export env devnum w =
     bind_run (sprintf_buf 64 (pwmchip_path (devnum - 1) ''/export'')) (\<lambda>pathname.
     case fopen_w env pathname w of (export_file, w) \<Rightarrow>
     if export_file = None then Inr (False, PyErr_SetString (open_faild env w) w)
     else
     bind_run (sprintf_buf 64 (pwmchip_path (devnum - 1) ''/unexport'')) (\<lambda>pathname.
     case fopen_w env pathname w of (unexport_file, w) \<Rightarrow>
     if unexport_file = None then Inr (False, PyErr_SetString (open_faild env w) w)
     else
     bind_run (sprintf_buf 64 (pwmchip_path (devnum - 1) ''/pwm0'')) (\<lambda>pathname.
     case opendir env pathname w of (dir, w) \<Rightarrow>
     bind_run
       (if dir then Inr (True, w)
        else bind_run (fwrite1 env (lit ''0'') export_file w) (\<lambda>(ret, w).
          if ret < FILE_WRITE_NMEMB then
            bind_run (fclose export_file (PyErr_SetString (write_faild env w) w)) (\<lambda>w.
            bind_run (fclose unexport_file w) (\<lambda>w. Inr (False, w)))
          else Inr (True, w)))
       (\<lambda>(go_on, w).
     if \<not> go_on then Inr (False, w)
     else
       bind_run (fclose export_file w) (\<lambda>w.
       bind_run (fclose unexport_file w) (\<lambda>w. Inr (True, w)))))))"

text \<open>The whole of \<open>new_pwm\<close>; the argument of the format \<open>"|i"\<close> is optional, with default 0.\<close>

definition new_pwm ::
    "io_env \<Rightarrow> int option option \<Rightarrow> pwm_world \<Rightarrow> (py_result \<times> pwm_world) run" where
  "new_pwm env args w =
     (case args of
        None \<Rightarrow> Inr (None, PyErr_SetString ''Invalid input parameter.'' w)
      | Some arg \<Rightarrow>
          let devnum = (case arg of None \<Rightarrow> 0 | Some d \<Rightarrow> d) in
          if devnum < 1 \<or> devnum > 2
          then Inr (None, PyErr_SetString ''Invalid PWM parameter.'' w)
          else
          bind_run (new_pwm_export env devnum w) (\<lambda>(ok, w).
          if \<not> ok then Inr (None, w)
          else
          bind_run (sprintf_buf 64 (pwmchip_path (devnum - 1) ''/pwm0/period'')) (\<lambda>path.
          let w = w\<lparr>periodpath := path\<rparr> in
          bind_run (put_attr env True (periodpath w) (lit ''1000000000'') w) (\<lambda>(ok, w).
          if \<not> ok then Inr (None, w)
          else
          bind_run (sprintf_buf 64 (pwmchip_path (devnum - 1) ''/pwm0/duty_cycle'')) (\<lambda>path.
          let w = w\<lparr>cyclespath := path\<rparr> in
          bind_run (put_attr env True (cyclespath w) (lit ''500000000'') w) (\<lambda>(ok, w).
          if \<not> ok then Inr (None, w)
          else
          bind_run (sprintf_buf 64 (pwmchip_path (devnum - 1) ''/pwm0/enable'')) (\<lambda>path.
          Inr (Some Py_True, w\<lparr>pwmdevpath := path\<rparr>))))))))"

definition start :: "io_env \<Rightarrow> pwm_world \<Rightarrow> (py_result \<times> pwm_world) run" where
  "start env w =
     bind_run (put_attr env False (pwmdevpath w) (lit ''1'') w) (\<lambda>(ok, w).
     Inr (if ok then Some Py_True else None, w))"

definition stop :: "io_env \<Rightarrow> pwm_world \<Rightarrow> (py_result \<times> pwm_world) run" where
  "stop env w =
     bind_run (put_attr env False (pwmdevpath w) (lit ''0'') w) (\<lambda>(ok, w).
     Inr (if ok then Some Py_True else None, w))"

text \<open>The destructor of the module returns nothing; a failed store still sets the error indicator.\<close>

definition del_pwm :: "io_env \<Rightarrow> pwm_world \<Rightarrow> pwm_world run" where
  "del_pwm env w = bind_run (put_attr env False (pwmdevpath w) (lit ''0'') w) (\<lambda>(ok, w). Inr w)"

text \<open>
  The format \<open>k\<close> stores the argument modulo \<open>2 ^ 32\<close> into an \<open>unsigned long\<close>; the variables are
  of type \<open>long\<close>. The products are computed at that width.
\<close>

definition attrs ::
    "io_env \<Rightarrow> (32 word \<times> 32 word) option \<Rightarrow> pwm_world \<Rightarrow> (py_result \<times> pwm_world) run" where
  "attrs env args w =
     (case args of
        None \<Rightarrow> Inr (None, PyErr_SetString ''Invalid input parameter.'' w)
      | Some (period, duty_cycle) \<Rightarrow>
          bind_run (put_attr env False (cyclespath w) (lit ''0'') w) (\<lambda>(ok, w).
          if \<not> ok then Inr (None, w)
          else
          bind_run (sprintf_buf 64 (show_int (sint (period * 1000 * 1000)))) (\<lambda>values.
          bind_run (put_attr env False (periodpath w) values w) (\<lambda>(ok, w).
          if \<not> ok then Inr (None, w)
          else
          bind_run (sprintf_buf 64 (show_int (sint (duty_cycle * 1000 * 1000)))) (\<lambda>values.
          bind_run (put_attr env False (cyclespath w) values w) (\<lambda>(ok, w).
          if \<not> ok then Inr (None, w)
          else Inr (Some Py_True, w)))))))"

definition rate ::
    "io_env \<Rightarrow> 32 word option \<Rightarrow> pwm_world \<Rightarrow> (py_result \<times> pwm_world) run" where
  "rate env args w =
     (case args of
        None \<Rightarrow> Inr (None, PyErr_SetString ''Invalid input parameter.'' w)
      | Some rate \<Rightarrow>
          if sint rate \<le> 0 then Inr (None, PyErr_SetString ''Invalid input parameter.'' w)
          else
          let period = (1000 * 1000 * 1000) div sint rate; duty_cycle = period div 2 in
          bind_run (put_attr env False (cyclespath w) (lit ''0'') w) (\<lambda>(ok, w).
          if \<not> ok then Inr (None, w)
          else
          bind_run (sprintf_buf 64 (show_int period)) (\<lambda>values.
          bind_run (put_attr env False (periodpath w) values w) (\<lambda>(ok, w).
          if \<not> ok then Inr (None, w)
          else
          bind_run (sprintf_buf 64 (show_int duty_cycle)) (\<lambda>values.
          bind_run (put_attr env False (cyclespath w) values w) (\<lambda>(ok, w).
          if \<not> ok then Inr (None, w)
          else Inr (Some Py_True, w)))))))"

text \<open>The method table: the calls a Python program can make.\<close>

datatype pwm_call =
    New_pwm "int option option"
  | Start
  | Attrs "(32 word \<times> 32 word) option"
  | Rate "32 word option"
  | Stop

fun pwm_methods :: "io_env \<Rightarrow> pwm_call \<Rightarrow> pwm_world \<Rightarrow> (py_result \<times> pwm_world) run" where
  "pwm_methods env (New_pwm args) = new_pwm env args"
| "pwm_methods env Start = start env"
| "pwm_methods env (Attrs args) = attrs env args"
| "pwm_methods env (Rate args) = rate env args"
| "pwm_methods env Stop = stop env"

text \<open>
  \<open>PyInit_pwm\<close>, given whether \<open>PyModule_Create\<close> and \<open>PyErr_NewException\<close> succeed: the
  dictionary of the module, \<open>None\<close> for \<open>NULL\<close>.
\<close>

definition PyInit_pwm :: "bool \<Rightarrow> bool \<Rightarrow> (string \<times> py_attr) list option" where
  "PyInit_pwm created exception_made =
     (if \<not> created then None
      else Some ((if exception_made then [(''error'', Exception_Type ''pwm.error'')] else []) @
        [(''__version__'', Str_Constant ''1.0''), (''__author__'', Str_Constant ''Heyn'')]))"

section \<open>The methods as plans of writes\<close>

definition rate_plan :: "int \<Rightarrow> pwm_world \<Rightarrow> (string \<times> string) list" where
  "rate_plan r w =
     [(cyclespath w, lit ''0''), (periodpath w, show_int (1000000000 div r)),
      (cyclespath w, show_int (1000000000 div r div 2))]"

definition attrs_plan :: "32 word \<Rightarrow> 32 word \<Rightarrow> pwm_world \<Rightarrow> (string \<times> string) list" where
  "attrs_plan p d w =
     [(cyclespath w, lit ''0''), (periodpath w, show_int (sint (p * 1000 * 1000))),
      (cyclespath w, show_int (sint (d * 1000 * 1000)))]"

lemma show_int_nonempty [simp]: "show_int i \<noteq> []"
  by (simp add: show_int_def)

lemma put_attr_paths:
  assumes "put_attr env checked path data w = Inr (ok, w')" and "wf_world w" and "data \<noteq> []"
  shows "periodpath w' = periodpath w" and "cyclespath w' = cyclespath w"
    and "pwmdevpath w' = pwmdevpath w"
  using assms by (auto simp: put_attr_eq split: if_splits)

lemma int32_sint: "int32 (sint (x :: 32 word))"
  using sint_greater_eq [of x] sint_less [of x] by (simp add: int32_def)

lemma sprintf_show_int [simp]: "int32 i \<Longrightarrow> sprintf_buf 64 (show_int i) = Inr (show_int i)"
  using length_show_int [of i] by simp

text \<open>
  The three stores that \<open>attrs\<close> and \<open>rate\<close> have in common, as one sequence of writes.
\<close>

definition finish :: "bool \<times> 's \<Rightarrow> (py_result \<times> 's) run" where
  "finish = (\<lambda>(ok, w). Inr (if ok then Some Py_True else None, w))"

lemma three_writes:
  assumes "wf_world w" and "d1 \<noteq> []" and "d2 \<noteq> []" and "d3 \<noteq> []"
  shows "bind_run (put_attr env c (cyclespath w) d1 w) (\<lambda>(ok, w).
         if \<not> ok then Inr (None, w)
         else bind_run (put_attr env c (periodpath w) d2 w) (\<lambda>(ok, w).
         if \<not> ok then Inr (None, w)
         else bind_run (put_attr env c (cyclespath w) d3 w) (\<lambda>(ok, w).
         if \<not> ok then Inr (None, w) else Inr (Some Py_True, w))))
    = bind_run (put_seq (put_attr env c)
        [(cyclespath w, d1), (periodpath w, d2), (cyclespath w, d3)] w) finish"
  using assms
  by (simp add: put_attr_eq wf_world_def finish_def del: split_paired_All)

lemma int32_div:
  assumes "int32 i" and "0 \<le> i" and "0 < r"
  shows "int32 (i div r)"
proof -
  have "i div r \<le> i" using zdiv_mono2 [of i 1 r] assms(2,3) by simp
  moreover have "0 \<le> i div r" using assms(2,3) by (simp add: pos_imp_zdiv_nonneg_iff)
  moreover have "i < 2147483648" using assms(1) by (simp add: int32_def)
  ultimately have "- 2147483648 \<le> i div r" "i div r < 2147483648" by linarith+
  then show ?thesis by (simp add: int32_def)
qed

lemma period_int32:
  assumes "0 < r"
  shows "int32 (1000000000 div r)" and "int32 (1000000000 div r div 2)"
proof -
  have *: "int32 (1000000000 div r)"
    using assms by (intro int32_div) (simp_all add: int32_def)
  then show "int32 (1000000000 div r)" .
  show "int32 (1000000000 div r div 2)"
    using assms by (intro int32_div [OF *]) (simp_all add: pos_imp_zdiv_nonneg_iff)
qed

lemma rate_as_plan:
  assumes "wf_world w" and "0 < sint r"
  shows "rate env (Some r) w =
    bind_run (put_seq (put_attr env False) (rate_plan (sint r) w) w) finish"
  unfolding rate_plan_def using assms
  by (subst three_writes [symmetric])
    (simp_all add: rate_def Let_def period_int32 cong: if_cong)

lemma attrs_as_plan:
  assumes "wf_world w"
  shows "attrs env (Some (p, d)) w =
    bind_run (put_seq (put_attr env False) (attrs_plan p d w) w) finish"
  unfolding attrs_plan_def using assms
  by (subst three_writes [symmetric]) (simp_all add: attrs_def int32_sint cong: if_cong)

text \<open>What a plan leaves behind, from the contract of the attribute writer.\<close>

lemma plan_outcome:
  assumes "wf_world w" and "\<forall>(p, d) \<in> set plan. d \<noteq> []"
    and "bind_run (put_seq (put_attr env c) plan w) finish = Inr (res, w')"
  shows "wf_world w'" and "streams w' = streams w" and "open_dirs w' = open_dirs w"
    and "world.more w' = world.more w"
    and "\<exists>k \<le> length plan. dev_log w' = dev_log w @ take k plan \<and>
      (res = (if k = length plan then Some Py_True else None))"
    and "pyerr w = None \<Longrightarrow> py_protocol res (pyerr w')"
proof -
  from assms(3) obtain ok where seq: "put_seq (put_attr env c) plan w = Inr (ok, w')"
    and res: "res = (if ok then Some Py_True else None)"
    by (auto simp: run_simps finish_def)
  note contract = sysfs.put_seq_contract [OF assms(1,2) seq]
  from contract show "wf_world w'" by simp
  from put_seq_streams [OF assms(1,2) seq]
  show "streams w' = streams w" "open_dirs w' = open_dirs w" "world.more w' = world.more w"
    by simp_all
  from contract res show "\<exists>k \<le> length plan. dev_log w' = dev_log w @ take k plan \<and>
      (res = (if k = length plan then Some Py_True else None))" by auto
  show "py_protocol res (pyerr w')" if "pyerr w = None"
    using contract that res by (auto simp: py_protocol_def)
qed

lemma plan_ok:
  assumes "wf_world w" and "\<forall>(p, d) \<in> set plan. d \<noteq> []" and "env_ok env"
  shows "bind_run (put_seq (put_attr env c) plan w) finish =
    Inr (Some Py_True, w\<lparr>tick := tick w + 2 * length plan,
      next_stream := next_stream w + length plan, dev_log := dev_log w @ plan\<rparr>)"
  using assms by (simp add: put_seq_ok finish_def)

lemma plans_nonempty [simp]:
  "\<forall>(p, d) \<in> set (rate_plan r w). d \<noteq> []"
  "\<forall>(p, d) \<in> set (attrs_plan p d w). d \<noteq> []"
  by (simp_all add: rate_plan_def attrs_plan_def)

lemma length_plans: "length (rate_plan r w) = 3" "length (attrs_plan p d w) = 3"
  by (simp_all add: rate_plan_def attrs_plan_def)

section \<open>Exporting a channel\<close>

text \<open>The five outcomes of the first half of \<open>new_pwm\<close>.\<close>

lemma new_pwm_export_eq:
  assumes "wf_world w" and "d = 1 \<or> d = 2"
  defines "E \<equiv> pwmchip_path (d - 1) ''/export''" and "U \<equiv> pwmchip_path (d - 1) ''/unexport''"
    and "P \<equiv> pwmchip_path (d - 1) ''/pwm0''" and "t \<equiv> tick w" and "n \<equiv> next_stream w"
  shows "new_pwm_export env d w =
   (if \<not> env_fopen env t E
    then Inr (False, w\<lparr>tick := t + 1,
           pyerr := Some (open_faild env (w\<lparr>tick := t + 1\<rparr>))\<rparr>)
    else if \<not> env_fopen env (t + 1) U
    then Inr (False, w\<lparr>tick := t + 2, next_stream := n + 1, streams := (streams w)(n \<mapsto> (E, [])),
           pyerr := Some (open_faild env (w\<lparr>tick := t + 2\<rparr>))\<rparr>)
    else if env_opendir env (t + 2) P
    then Inr (True, w\<lparr>tick := t + 3, next_stream := n + 2, open_dirs := open_dirs w + 1\<rparr>)
    else if \<not> env_fwrite env (t + 3)
    then Inr (False, w\<lparr>tick := t + 4, next_stream := n + 2,
           pyerr := Some (write_faild env (w\<lparr>tick := t + 4\<rparr>))\<rparr>)
    else Inr (True, w\<lparr>tick := t + 4, next_stream := n + 2,
           dev_log := dev_log w @ [(E, lit ''0'')]\<rparr>))"
proof -
  have len: "length E < 64" "length U < 64" "length P < 64"
    using assms(2) by (auto simp: E_def U_def P_def pwmchip_path_def)
  have idem: "(streams w)(n := None) = streams w" "(streams w)(Suc n := None) = streams w"
    using assms(1) by (simp_all add: wf_world_def n_def fun_upd_idem)
  then have idem2: "(streams w)(Suc n := None, n := None) = streams w"
    "(streams w)(n := None, Suc n := None) = streams w" by simp_all
  show ?thesis
    using len
    unfolding new_pwm_export_def E_def [symmetric] U_def [symmetric] P_def [symmetric]
    by (simp add: stdio_defs open_faild_def write_faild_def t_def [symmetric] n_def [symmetric]
        idem idem2 fun_upd_twist numeral_eq_Suc cong: if_cong)
qed

section \<open>The duty cycle never exceeds the period\<close>

text \<open>
  The kernel refuses a duty cycle above the period. \<open>duty_ok\<close> is that constraint on the two
  attributes; the methods keep it after every single write because they set the duty cycle to 0
  first.
\<close>

definition duty_ok :: "string \<Rightarrow> string \<Rightarrow> (string \<Rightarrow> int) \<Rightarrow> bool" where
  "duty_ok per cyc m \<longleftrightarrow> 0 \<le> m cyc \<and> m cyc \<le> m per"

lemma decimal_lit: "decimal_value (lit (show_int i)) = i"
  unfolding lit_def by (rule decimal_show_int) (simp add: is_digit_def)

lemma three_writes_duty_ok:
  assumes "duty_ok per cyc m" and "per \<noteq> cyc" and "0 \<le> d" and "d \<le> p"
  shows "duty_ok per cyc
    (dev_apply m (take k [(cyc, lit ''0''), (per, show_int p), (cyc, show_int d)]))"
proof -
  consider "k = 0" | "k = 1" | "k = 2" | "3 \<le> k" by linarith
  then show ?thesis
    using assms by cases (auto simp: duty_ok_def take_Cons' numeral_2_eq_2)
qed

text \<open>Every prefix of a log that grows by a prefix of such a plan satisfies the constraint.\<close>

lemma log_growth_duty_ok:
  assumes "duty_ok per cyc (dev_apply m l)" and "per \<noteq> cyc" and "0 \<le> d" and "d \<le> p"
    and "length l \<le> n"
  shows "duty_ok per cyc (dev_apply m (take n
    (l @ take k [(cyc, lit ''0''), (per, show_int p), (cyc, show_int d)])))"
  using three_writes_duty_ok [OF assms(1-4), of "min (n - length l) k"] assms(5)
  by (simp add: take_map)

section \<open>Properties\<close>

text \<open>
  C20: \<open>rate\<close> with a positive frequency. Whatever the kernel answers, if the method returns, the
  device saw a prefix of: duty cycle 0, period \<open>10^9 div rate\<close>, duty cycle half of that; the
  method returned \<open>True\<close> exactly when it saw all three and raised an exception otherwise; every
  stream it opened is closed; and the period is the largest whole number of nanoseconds whose
  frequency is at least the requested one.
\<close>
theorem rate_outcome:
  assumes "wf_world w" and "pyerr w = None" and "0 < sint r"
    and "rate env (Some r) w = Inr (res, w')"
  defines "period \<equiv> 1000000000 div sint r"
  shows "\<exists>k \<le> 3. dev_log w' = dev_log w @ take k
      [(cyclespath w, lit ''0''), (periodpath w, show_int period),
       (cyclespath w, show_int (period div 2))] \<and>
    (res = (if k = 3 then Some Py_True else None)) \<and>
    py_protocol res (pyerr w') \<and> streams w' = streams w \<and>
    period * sint r \<le> 1000000000 \<and> 1000000000 < (period + 1) * sint r"
proof -
  have plan: "bind_run (put_seq (put_attr env False) (rate_plan (sint r) w) w) finish = Inr (res, w')"
    using assms(4) by (simp add: rate_as_plan assms(1,3))
  note out = plan_outcome [OF assms(1) plans_nonempty(1) plan]
  have "1000000000 = period * sint r + 1000000000 mod sint r"
    unfolding period_def by simp
  moreover have "0 \<le> 1000000000 mod sint r" "1000000000 mod sint r < sint r"
    using assms(3) by simp_all
  ultimately have "period * sint r \<le> 1000000000" "1000000000 < (period + 1) * sint r"
    unfolding distrib_right by linarith+
  moreover from out(5) [unfolded length_plans] obtain k where "k \<le> 3"
    "dev_log w' = dev_log w @ take k (rate_plan (sint r) w)"
    "res = (if k = 3 then Some Py_True else None)"
    by blast
  ultimately show ?thesis
    using out(2,6) assms(2) unfolding rate_plan_def period_def by blast
qed

text \<open>
  \<open>rate\<close> never drives the device through a state in which the duty cycle exceeds the period:
  if the attributes satisfy \<open>0 \<le> duty \<le> period\<close> before the call, they do after every single
  write of it, also when a write fails half-way.
\<close>
theorem rate_duty_within_period:
  assumes "wf_world w" and "periodpath w \<noteq> cyclespath w"
    and "duty_ok (periodpath w) (cyclespath w) (dev_apply m (dev_log w))"
    and "rate env (Some r) w = Inr (res, w')" and "length (dev_log w) \<le> n"
  shows "duty_ok (periodpath w) (cyclespath w) (dev_apply m (take n (dev_log w')))"
proof (cases "0 < sint r")
  case True
  have "bind_run (put_seq (put_attr env False) (rate_plan (sint r) w) w) finish = Inr (res, w')"
    using assms(4) by (simp add: rate_as_plan assms(1) True)
  from plan_outcome(5) [OF assms(1) plans_nonempty(1) this] obtain k where
    "dev_log w' = dev_log w @ take k (rate_plan (sint r) w)" by blast
  moreover have "0 \<le> 1000000000 div sint r"
    using True by (simp add: pos_imp_zdiv_nonneg_iff)
  ultimately show ?thesis
    using log_growth_duty_ok [OF assms(3,2) _ _ assms(5)] by (simp add: rate_plan_def)
next
  case False
  with assms(4) have "dev_log w' = dev_log w"
    by (auto simp: rate_def PyErr_SetString_def)
  with assms(3,5) show ?thesis by simp
qed

text \<open>
  \<open>attrs\<close> keeps the same constraint after every single write when the two products, as computed
  in 32 bits, satisfy \<open>0 \<le> duty \<le> period\<close>.
\<close>
theorem attrs_duty_within_period:
  assumes "wf_world w" and "periodpath w \<noteq> cyclespath w"
    and "duty_ok (periodpath w) (cyclespath w) (dev_apply m (dev_log w))"
    and "0 \<le> sint (d * 1000 * 1000)" and "sint (d * 1000 * 1000) \<le> sint (p * 1000 * 1000)"
    and "attrs env (Some (p, d)) w = Inr (res, w')" and "length (dev_log w) \<le> n"
  shows "duty_ok (periodpath w) (cyclespath w) (dev_apply m (take n (dev_log w')))"
proof -
  have "bind_run (put_seq (put_attr env False) (attrs_plan p d w) w) finish = Inr (res, w')"
    using assms(6) by (simp add: attrs_as_plan assms(1))
  from plan_outcome(5) [OF assms(1) plans_nonempty(2) this] obtain k where
    "dev_log w' = dev_log w @ take k (attrs_plan p d w)" by blast
  then show ?thesis
    using log_growth_duty_ok [OF assms(3,2,4,5,7)] by (simp only: attrs_plan_def)
qed

lemma sint_times_million:
  "sint (p * 1000 * 1000 :: 32 word) = sint p * 1000000 \<longleftrightarrow> - 2147 \<le> sint p \<and> sint p \<le> 2147"
proof -
  have "sint (p * 1000 * 1000) = wrap32 (sint p * 1000000)"
    by (simp add: wrap32_def mult.commute)
  then show ?thesis
    by (auto simp: int32_wrap_iff int32_def)
qed

text \<open>
  \<open>attrs\<close> takes milliseconds and stores nanoseconds. When every call succeeds it returns
  \<open>True\<close> and the period attribute then holds the requested period exactly if the request is at
  most 2147 ms; above that the product overflows the 32-bit \<open>long\<close> and another number is stored.
\<close>
theorem attrs_period_exact_iff:
  assumes "wf_world w" and "env_ok env" and "periodpath w \<noteq> cyclespath w"
  shows "\<exists>w'. attrs env (Some (p, d)) w = Inr (Some Py_True, w') \<and>
    (dev_apply m (dev_log w') (periodpath w) = sint p * 1000000 \<longleftrightarrow>
      - 2147 \<le> sint p \<and> sint p \<le> 2147)"
  using assms
  by (simp add: attrs_as_plan plan_ok, simp add: attrs_plan_def sint_times_million [symmetric])

lemma new_pwm_paths_fit:
  assumes "d = 1 \<or> d = (2 :: int)" and "length rest < 30"
  shows "sprintf_buf 64 (pwmchip_path (d - 1) rest) = Inr (pwmchip_path (d - 1) rest)"
  using assms by (auto simp: pwmchip_path_def)

lemma wf_world_export:
  assumes "wf_world w" and "d = 1 \<or> d = 2" and "new_pwm_export env d w = Inr (ok, w')"
  shows "wf_world w'"
  using assms by (auto simp: new_pwm_export_eq wf_world_def split: if_splits)

text \<open>The second half of \<open>new_pwm\<close>, from the exported channel on.\<close>

definition new_pwm_setup :: "io_env \<Rightarrow> int \<Rightarrow> pwm_world \<Rightarrow> (py_result \<times> pwm_world) run" where
  "new_pwm_setup env d w =
     bind_run (put_attr env True (pwmchip_path (d - 1) ''/pwm0/period'') (lit ''1000000000'')
         (w\<lparr>periodpath := pwmchip_path (d - 1) ''/pwm0/period''\<rparr>)) (\<lambda>(ok, w).
     if \<not> ok then Inr (None, w)
     else
     bind_run (put_attr env True (pwmchip_path (d - 1) ''/pwm0/duty_cycle'') (lit ''500000000'')
         (w\<lparr>cyclespath := pwmchip_path (d - 1) ''/pwm0/duty_cycle''\<rparr>)) (\<lambda>(ok, w).
     if \<not> ok then Inr (None, w)
     else Inr (Some Py_True, w\<lparr>pwmdevpath := pwmchip_path (d - 1) ''/pwm0/enable''\<rparr>)))"

lemma new_pwm_split:
  assumes "d = 1 \<or> d = 2"
  shows "new_pwm env (Some (Some d)) w =
    bind_run (new_pwm_export env d w) (\<lambda>(ok, w). if ok then new_pwm_setup env d w else Inr (None, w))"
proof -
  have "\<not> (d < 1 \<or> d > 2)" using assms by auto
  then show ?thesis
    unfolding new_pwm_def new_pwm_setup_def
    by (auto simp: new_pwm_paths_fit [OF assms] Let_def intro!: arg_cong2 [where f = bind_run]
        cong: if_cong)
qed

lemma new_pwm_setup_frame:
  assumes "wf_world w"
  shows "\<exists>res w'. new_pwm_setup env d w = Inr (res, w') \<and> streams w' = streams w \<and> wf_world w' \<and>
    open_dirs w' = open_dirs w \<and> (pyerr w = None \<longrightarrow> py_protocol res (pyerr w'))"
  using assms by (simp add: new_pwm_setup_def put_attr_eq wf_world_def)

lemma new_pwm_returns:
  assumes "wf_world w" and "pyerr w = None"
  shows "\<exists>res w'. new_pwm env args w = Inr (res, w') \<and> wf_world w' \<and> py_protocol res (pyerr w')"
proof (cases "\<exists>d. args = Some (Some d) \<and> (d = 1 \<or> d = 2)")
  case True
  then obtain d where args: "args = Some (Some d)" and d: "d = 1 \<or> d = 2" by blast
  obtain ok w1 where export: "new_pwm_export env d w = Inr (ok, w1)"
    using new_pwm_export_eq [OF assms(1) d, of env] by (simp split: if_splits)
  have wf: "wf_world w1" by (rule wf_world_export [OF assms(1) d export])
  have err: "pyerr w1 \<noteq> None \<longleftrightarrow> \<not> ok"
    using export assms by (auto simp: new_pwm_export_eq [OF assms(1) d] split: if_splits)
  show ?thesis
  proof (cases ok)
    case True
    with new_pwm_setup_frame [OF wf, of env d] err show ?thesis
      by (auto simp: args new_pwm_split [OF d] export)
  next
    case False
    with wf err show ?thesis
      by (auto simp: args new_pwm_split [OF d] export py_protocol_def)
  qed
next
  case False
  then show ?thesis
    using assms by (auto simp: new_pwm_def PyErr_SetString_def wf_world_def split: option.splits)
qed

text \<open>
  \<open>new_pwm\<close> never leaves defined C, whatever the kernel answers: it returns \<open>True\<close> or raises an
  exception, by the interpreter's rule.
\<close>
theorem new_pwm_total:
  assumes "wf_world w" and "pyerr w = None"
  shows "\<exists>res w'. new_pwm env args w = Inr (res, w') \<and> wf_world w' \<and> py_protocol res (pyerr w')"
  using assms by (rule new_pwm_returns)

text \<open>
  with an environment that opens and stores every time, \<open>new_pwm\<close> on a valid number returns
  \<open>True\<close>; it exports the channel exactly when its directory is not there yet, then sets period and
  duty cycle to 1 s and 0.5 s, records the three paths of that chip and closes its streams - but the
  directory it probed stays open.
\<close>
theorem new_pwm_success:
  assumes "wf_world w" and "env_ok env" and "d = 1 \<or> d = 2"
  defines "chip \<equiv> pwmchip_path (d - 1)"
    and "exported \<equiv> env_opendir env (tick w + 2) (pwmchip_path (d - 1) ''/pwm0'')"
  shows "\<exists>w'. new_pwm env (Some (Some d)) w = Inr (Some Py_True, w') \<and>
    dev_log w' = dev_log w @ (if exported then [] else [(chip ''/export'', lit ''0'')]) @
      [(chip ''/pwm0/period'', lit ''1000000000''), (chip ''/pwm0/duty_cycle'', lit ''500000000'')] \<and>
    periodpath w' = chip ''/pwm0/period'' \<and> cyclespath w' = chip ''/pwm0/duty_cycle'' \<and>
    pwmdevpath w' = chip ''/pwm0/enable'' \<and> streams w' = streams w \<and>
    open_dirs w' = open_dirs w + (if exported then 1 else 0)"
proof -
  have fop: "env_fopen env t p" and fwr: "env_fwrite env t" for t p
    using assms(2) by (auto simp: env_ok_def)
  from assms(1) show ?thesis
    by (simp add: new_pwm_split [OF assms(3)] new_pwm_export_eq [OF assms(1,3)] fop fwr
        new_pwm_setup_def put_attr_eq wf_world_def exported_def chip_def)
qed

text \<open>
  the streams \<open>new_pwm\<close> opens are closed on every path but one: when \<open>export\<close> opens and
  \<open>unexport\<close> does not, the stream of \<open>export\<close> is never closed.
\<close>
theorem new_pwm_leaks_stream_iff:
  assumes "wf_world w" and "d = 1 \<or> d = 2" and "new_pwm env (Some (Some d)) w = Inr (res, w')"
  shows "streams w' \<noteq> streams w \<longleftrightarrow>
    env_fopen env (tick w) (pwmchip_path (d - 1) ''/export'') \<and>
    \<not> env_fopen env (tick w + 1) (pwmchip_path (d - 1) ''/unexport'')"
proof -
  have fresh: "streams w (next_stream w) = None" using assms(1) by (simp add: wf_world_def)
  obtain ok w1 where export: "new_pwm_export env d w = Inr (ok, w1)"
    using new_pwm_export_eq [OF assms(1,2), of env] by (simp split: if_splits)
  have "wf_world w1" by (rule wf_world_export [OF assms(1,2) export])
  from new_pwm_setup_frame [OF this, of env d] assms(3)
  have "streams w' = streams w1"
    by (auto simp: new_pwm_split [OF assms(2)] export split: if_splits)
  with export fresh show ?thesis
    by (auto simp: new_pwm_export_eq [OF assms(1,2)] fun_eq_iff split: if_splits)
qed

text \<open>
  C21: \<open>start\<close>, \<open>stop\<close> and the destructor do not test the result of \<open>fopen\<close>: each of them returns
  exactly when the \<open>enable\<close> attribute opens, and otherwise passes a null stream to \<open>fwrite\<close>. In
  particular they crash before \<open>new_pwm\<close> has set the path, since \<open>fopen("")\<close> fails.
\<close>
theorem unchecked_open_crashes_iff:
  assumes "wf_world w"
  shows "(start env w = Inl Null_Pointer \<longleftrightarrow> \<not> env_fopen env (tick w) (pwmdevpath w)) \<and>
    (stop env w = Inl Null_Pointer \<longleftrightarrow> \<not> env_fopen env (tick w) (pwmdevpath w)) \<and>
    (del_pwm env w = Inl Null_Pointer \<longleftrightarrow> \<not> env_fopen env (tick w) (pwmdevpath w)) \<and>
    (returns (start env w) \<longleftrightarrow> env_fopen env (tick w) (pwmdevpath w))"
  using assms by (auto simp: start_def stop_def del_pwm_def put_attr_eq)

lemma wf_world_clear: "wf_world (w\<lparr>pyerr := e\<rparr>) = wf_world w"
  by (simp add: wf_world_def)

text \<open>The interface of the interpreter, kept by every method of the table.\<close>

lemma pwm_methods_sound:
  assumes "wf_world w" and "pyerr w = None" and "pwm_methods env c w = Inr (res, w')"
  shows "wf_world w'" and "py_protocol res (pyerr w')"
proof -
  have simple: "wf_world w' \<and> py_protocol res (pyerr w')"
    if "bind_run (put_attr env False p (lit s) w) (\<lambda>(ok, w). Inr (if ok then Some Py_True else None, w))
          = Inr (res, w')" for p s
    using that put_attr_frame [OF _ assms(1) lit_nonempty, of env False p s] assms(2)
    by (auto simp: run_simps py_protocol_def split: if_splits)
  have raise: "wf_world (PyErr_SetString m w) \<and> py_protocol None (pyerr (PyErr_SetString m w))" for m
    using assms(1) by (simp add: PyErr_SetString_def wf_world_def)
  have "wf_world w' \<and> py_protocol res (pyerr w')"
  proof (cases c)
    case (New_pwm args)
    with new_pwm_returns [OF assms(1,2), of env args] assms(3) show ?thesis by auto
  next
    case (Attrs args)
    with assms(3) raise plan_outcome(1,6) [OF assms(1) plans_nonempty(2), of env False]
    show ?thesis
      by (cases args) (auto simp: attrs_as_plan assms(1,2), auto simp: attrs_def)
  next
    case (Rate args)
    with assms(3) raise plan_outcome(1,6) [OF assms(1) plans_nonempty(1), of env False]
    show ?thesis
      by (cases args; cases "0 < sint (the args)")
        (auto simp: rate_as_plan assms(1,2), auto simp: rate_def)
  qed (use assms(3) simple in \<open>auto simp: start_def stop_def\<close>)
  then show "wf_world w'" and "py_protocol res (pyerr w')" by simp_all
qed

interpretation pwm_module: py_module "pwm_methods env" pyerr "\<lambda>w. w\<lparr>pyerr := None\<rparr>" wf_world for env
  by unfold_locales (auto simp: wf_world_clear intro: pwm_methods_sound)

text \<open>
  C22: over any sequence of calls to the methods of \<open>pwm\<close>, every call that returns obeys the
  interpreter's rule (a result with no exception pending, or \<open>NULL\<close> with one), so the program never
  sees a \<open>SystemError\<close>.
\<close>
theorem pwm_session_sound:
  assumes "wf_world w" and "pyerr w = None"
    and "py_session (pwm_methods env) pyerr (\<lambda>w. w\<lparr>pyerr := None\<rparr>) cs w = Inr (outs, w')"
  shows "wf_world w' \<and> length outs = length cs \<and> SystemError \<notin> set outs"
  by (rule pwm_module.session_sound [OF assms])

section \<open>Concrete runs\<close>

text \<open>
  A world as the module starts, one after the paths were recorded, an environment in which every
  call succeeds and one in which only the first \<open>fopen\<close> does.
\<close>

definition pwm_start_world :: pwm_world where
  "pwm_start_world = \<lparr>pyerr = None, tick = 0, dev_log = [], streams = Map.empty, next_stream = 0,
     open_dirs = 0, pwmdevpath = [], periodpath = [], cyclespath = []\<rparr>"

definition pwm_open_world :: pwm_world where
  "pwm_open_world = pwm_start_world\<lparr>pwmdevpath := ''e'', periodpath := ''p'', cyclespath := ''c''\<rparr>"

definition good_env :: io_env where
  "good_env = \<lparr>env_fopen = (\<lambda>_ _. True), env_fwrite = (\<lambda>_. True), env_opendir = (\<lambda>_ _. False),
     env_strerror = (\<lambda>_. [])\<rparr>"

definition flaky_env :: io_env where
  "flaky_env = good_env\<lparr>env_fopen := (\<lambda>t _. t = 0)\<rparr>"

lemma pwm_worlds [simp]:
  "wf_world pwm_start_world" "wf_world pwm_open_world"
  "pyerr pwm_start_world = None" "pyerr pwm_open_world = None"
  "periodpath pwm_open_world \<noteq> cyclespath pwm_open_world"
  "env_ok good_env"
  "tick pwm_start_world = 0" "pwmdevpath pwm_start_world = []"
  "dev_log pwm_open_world = []" "periodpath pwm_open_world = ''p''" "cyclespath pwm_open_world = ''c''"
  "env_fopen flaky_env t p = (t = 0)"
  by (simp_all add: pwm_start_world_def pwm_open_world_def wf_world_def env_ok_def good_env_def
      flaky_env_def)

lemma rate_ok: "wf_world w \<Longrightarrow> env_ok env \<Longrightarrow> 0 < sint r \<Longrightarrow>
    \<exists>w'. rate env (Some r) w = Inr (Some Py_True, w')"
  by (simp add: rate_as_plan plan_ok)

lemma attrs_ok: "wf_world w \<Longrightarrow> env_ok env \<Longrightarrow>
    \<exists>w'. attrs env (Some (p, d)) w = Inr (Some Py_True, w')"
  by (simp add: attrs_as_plan plan_ok)

theorem rate_outcome_witness:
  "\<exists>res w' k. rate good_env (Some 7) pwm_open_world = Inr (res, w') \<and> k \<le> (3 :: nat) \<and>
    dev_log w' = dev_log pwm_open_world @ take k
      [(cyclespath pwm_open_world, lit ''0''),
       (periodpath pwm_open_world, show_int (1000000000 div sint (7 :: 32 word))),
       (cyclespath pwm_open_world, show_int (1000000000 div sint (7 :: 32 word) div 2))]"
proof -
  obtain w' where run: "rate good_env (Some 7) pwm_open_world = Inr (Some Py_True, w')"
    using rate_ok [of pwm_open_world good_env 7] by auto
  show ?thesis using rate_outcome [OF _ _ _ run] run by auto
qed

theorem rate_duty_within_period_witness:
  "\<exists>res w'. rate good_env (Some 7) pwm_open_world = Inr (res, w') \<and>
    duty_ok (periodpath pwm_open_world) (cyclespath pwm_open_world)
      (dev_apply (\<lambda>_. 5) (take 2 (dev_log w')))"
proof -
  obtain w' where run: "rate good_env (Some 7) pwm_open_world = Inr (Some Py_True, w')"
    using rate_ok [of pwm_open_world good_env 7] by auto
  show ?thesis
    using rate_duty_within_period [OF _ _ _ run, of "\<lambda>_. 5" 2] run
    by (auto simp: duty_ok_def)
qed

theorem attrs_duty_within_period_witness:
  "\<exists>res w'. attrs good_env (Some (20, 5)) pwm_open_world = Inr (res, w') \<and>
    duty_ok (periodpath pwm_open_world) (cyclespath pwm_open_world)
      (dev_apply (\<lambda>_. 5) (take 2 (dev_log w')))"
proof -
  obtain w' where run: "attrs good_env (Some (20, 5)) pwm_open_world = Inr (Some Py_True, w')"
    using attrs_ok [of pwm_open_world good_env 20 5] by auto
  show ?thesis
    using attrs_duty_within_period [OF _ _ _ _ _ run, of "\<lambda>_. 5" 2] run
    by (auto simp: duty_ok_def)
qed

theorem attrs_period_exact_iff_witness:
  "\<exists>w'. attrs good_env (Some (3000, 1500)) pwm_open_world = Inr (Some Py_True, w') \<and>
    dev_apply (\<lambda>_. 0) (dev_log w') (periodpath pwm_open_world) \<noteq> 3000000000"
  using attrs_period_exact_iff [of pwm_open_world good_env 3000 1500 "\<lambda>_. 0"] by auto

theorem new_pwm_total_witness:
  "\<exists>res w'. new_pwm flaky_env (Some (Some 1)) pwm_start_world = Inr (res, w') \<and>
    py_protocol res (pyerr w')"
  using new_pwm_total [of pwm_start_world flaky_env "Some (Some 1)"] by auto

theorem new_pwm_success_witness:
  "\<exists>w'. new_pwm good_env (Some (Some 2)) pwm_start_world = Inr (Some Py_True, w') \<and>
    periodpath w' = pwmchip_path 1 ''/pwm0/period''"
  using new_pwm_success [of pwm_start_world good_env 2] by auto

theorem new_pwm_leaks_stream_iff_witness:
  "\<exists>res w'. new_pwm flaky_env (Some (Some 1)) pwm_start_world = Inr (res, w') \<and>
    streams w' \<noteq> streams pwm_start_world"
proof -
  obtain res w' where run: "new_pwm flaky_env (Some (Some 1)) pwm_start_world = Inr (res, w')"
    using new_pwm_returns [of pwm_start_world flaky_env "Some (Some 1)"] by auto
  show ?thesis
    using new_pwm_leaks_stream_iff [OF _ _ run] run by auto
qed

theorem unchecked_open_crashes_iff_witness:
  "start (good_env\<lparr>env_fopen := (\<lambda>_ p. p \<noteq> [])\<rparr>) pwm_start_world = Inl Null_Pointer"
  using unchecked_open_crashes_iff [of pwm_start_world "good_env\<lparr>env_fopen := (\<lambda>_ p. p \<noteq> [])\<rparr>"]
  by simp

theorem pwm_session_sound_witness:
  "\<exists>outs w'. py_session (pwm_methods good_env) pyerr (\<lambda>w. w\<lparr>pyerr := None\<rparr>)
      [Rate (Some 0), Rate None] pwm_open_world = Inr (outs, w') \<and> SystemError \<notin> set outs"
proof -
  obtain outs w' where run: "py_session (pwm_methods good_env) pyerr (\<lambda>w. w\<lparr>pyerr := None\<rparr>)
      [Rate (Some 0), Rate None] pwm_open_world = Inr (outs, w')"
    by (auto simp: rate_def PyErr_SetString_def)
  show ?thesis using pwm_session_sound [OF _ _ run] run by auto
qed

end
