(* ===== verification/Ixora_Led.thy ===== *)
theory Ixora_Led
  imports Stdio
begin

text \<open>
  \<open>c_modules/ixora_led/imx6_ixora_led.c\<close>: the Python module that switches the two-colour LEDs of
  the carrier board through sysfs. It keeps no state of its own; its operations are the methods
  \<open>ioctl\<close> and \<open>clear\<close> and the destructor \<open>led_exit\<close>.
\<close>

section \<open>Constants\<close>

definition HIGH :: int where "HIGH = 1"
definition LOW :: int where "LOW = 0"

text \<open>\<open>enum LED_NUMBER\<close> and \<open>enum COLOR_TYPE\<close>.\<close>

definition IXORA_LED_UNDEF :: int where "IXORA_LED_UNDEF = -1"
definition IXORA_LED4 :: int where "IXORA_LED4 = 4"
definition IXORA_LED5 :: int where "IXORA_LED5 = IXORA_LED4 + 1"
definition IXORA_LED_MAX :: int where "IXORA_LED_MAX = IXORA_LED5 + 1"

definition COLOR_UNDEF :: int where "COLOR_UNDEF = -1"
definition RED :: int where "RED = 0"
definition GREEN :: int where "GREEN = RED + 1"
definition COLOR_MAX :: int where "COLOR_MAX = GREEN + 1"

lemmas led_consts = HIGH_def LOW_def IXORA_LED_UNDEF_def IXORA_LED4_def IXORA_LED5_def
  IXORA_LED_MAX_def COLOR_UNDEF_def RED_def GREEN_def COLOR_MAX_def

definition led_path :: "int \<Rightarrow> string \<Rightarrow> string" where
  "led_path num color = ''/sys/class/leds/LED_'' @ show_int num @ ''_'' @ color @ ''/brightness''"

section \<open>Operations\<close>

definition ioctl ::
    "io_env \<Rightarrow> (int \<times> int \<times> int option) option \<Rightarrow> 'a world_scheme \<Rightarrow>
     (py_result \<times> 'a world_scheme) run" where
  "ioctl env args w =
     (case args of
        None \<Rightarrow> Inr (None, PyErr_SetString ''Invalid input parameter.'' w)
      | Some (num, color, arg) \<Rightarrow>
          let status = (case arg of None \<Rightarrow> 0 | Some s \<Rightarrow> s) in
          if num \<le> IXORA_LED_UNDEF \<or> num \<ge> IXORA_LED_MAX
          then Inr (None, PyErr_SetString ''Invalid Port Number.'' w)
          else if color \<le> COLOR_UNDEF \<or> color \<ge> COLOR_MAX
          then Inr (None, PyErr_SetString ''Invalid color.'' w)
          else if status < LOW \<or> status > HIGH
          then Inr (None, PyErr_SetString ''Invalid status.'' w)
          else if color \<noteq> RED \<and> color \<noteq> GREEN
          then Inr (None, PyErr_SetString ''Invalid color.'' w)
          else
          bind_run (sprintf_buf 128 (led_path num (if color = RED then ''RED'' else ''GREEN'')))
            (\<lambda>path.
          bind_run (put_attr env True path (lit (if status = HIGH then ''1'' else ''0'')) w)
            (\<lambda>(ok, w).
          Inr (if ok then Some Py_True else None, w))))"

text \<open>
  The two nested loops of \<open>led_exit\<close>, over the pairs they visit in their order; a failed open or
  store ends both.
\<close>

definition led_exit_pairs :: "(int \<times> string) list" where
  "led_exit_pairs = [(IXORA_LED4 + i, c). i \<leftarrow> [0, 1], c \<leftarrow> [''RED'', ''GREEN'']]"

fun led_exit_loop ::
    "io_env \<Rightarrow> (int \<times> string) list \<Rightarrow> 'a world_scheme \<Rightarrow> 'a world_scheme run" where
  "led_exit_loop env [] w = Inr w"
| "led_exit_loop env ((num, color) # rest) w =
     bind_run (sprintf_buf 128 (led_path num color)) (\<lambda>path.
     bind_run (put_attr env True path (lit ''0'') w) (\<lambda>(ok, w).
     if \<not> ok then Inr w else led_exit_loop env rest w))"

definition led_exit :: "io_env \<Rightarrow> 'a world_scheme \<Rightarrow> 'a world_scheme run" where
  "led_exit env w = led_exit_loop env led_exit_pairs w"

definition clear :: "io_env \<Rightarrow> 'a world_scheme \<Rightarrow> (py_result \<times> 'a world_scheme) run" where
  "clear env w = bind_run (led_exit env w) (\<lambda>w. Inr (Some Py_True, w))"

text \<open>The method table, and the dictionary \<open>PyInit_imx6_ixora_led\<close> builds.\<close>

datatype led_call = Ioctl "(int \<times> int \<times> int option) option" | Clear

fun led_methods :: "io_env \<Rightarrow> led_call \<Rightarrow> 'a world_scheme \<Rightarrow> (py_result \<times> 'a world_scheme) run" where
  "led_methods env (Ioctl args) = ioctl env args"
| "led_methods env Clear = clear env"

definition PyInit_imx6_ixora_led :: "bool \<Rightarrow> bool \<Rightarrow> (string \<times> py_attr) list option" where
  "PyInit_imx6_ixora_led created exception_made =
     (if \<not> created then None
      else Some ((if exception_made then [(''error'', Exception_Type ''led.error'')] else []) @
        [(''IXORA_LED4'', Int_Constant IXORA_LED4), (''IXORA_LED5'', Int_Constant IXORA_LED5),
         (''RED'', Int_Constant RED), (''GREEN'', Int_Constant GREEN),
         (''HIGH'', Int_Constant HIGH), (''LOW'', Int_Constant LOW),
         (''__version__'', Str_Constant ''1.0''), (''__author__'', Str_Constant ''Heyn'')]))"

section \<open>Clearing as a plan of writes\<close>

definition clear_plan :: "(string \<times> string) list" where
  "clear_plan = map (\<lambda>(num, color). (led_path num color, lit ''0'')) led_exit_pairs"

lemma show_int_small: "0 \<le> i \<Longrightarrow> i < 10 \<Longrightarrow> length (show_int i) = 1"
  by (simp add: show_int_def show_nat_small)

lemma led_path_fits:
  assumes "0 \<le> num" and "num < 10" and "length color < 80"
  shows "sprintf_buf 128 (led_path num color) = Inr (led_path num color)"
  using assms by (simp add: led_path_def show_int_small)

lemma led_exit_pairs_eq:
  "led_exit_pairs = [(4, ''RED''), (4, ''GREEN''), (5, ''RED''), (5, ''GREEN'')]"
  by (simp add: led_exit_pairs_def led_consts)

lemma led_exit_loop_as_seq:
  assumes "\<forall>(num, color) \<in> set ps. 0 \<le> num \<and> num < 10 \<and> length color < 80"
  shows "led_exit_loop env ps w = bind_run (put_seq (put_attr env True)
      (map (\<lambda>(num, color). (led_path num color, lit ''0'')) ps) w) (\<lambda>(ok, w). Inr w)"
  using assms
proof (induction ps arbitrary: w)
  case Nil
  then show ?case by simp
next
  case (Cons q ps)
  obtain num color where q: "q = (num, color)" by (cases q)
  have "bind_run (put_attr env True (led_path num color) (lit ''0'') w)
        (\<lambda>(ok, w). if \<not> ok then Inr w else led_exit_loop env ps w)
      = bind_run (bind_run (put_attr env True (led_path num color) (lit ''0'') w)
          (\<lambda>(ok, w). if ok then put_seq (put_attr env True)
            (map (\<lambda>(num, color). (led_path num color, lit ''0'')) ps) w else Inr (False, w)))
          (\<lambda>(ok, w). Inr w)"
    using Cons by (auto simp: bind_run_assoc intro!: arg_cong2 [where f = bind_run])
  with Cons.prems show ?case by (simp add: q led_path_fits)
qed

lemma led_exit_as_plan:
  "led_exit env w = bind_run (put_seq (put_attr env True) clear_plan w) (\<lambda>(ok, w). Inr w)"
  unfolding led_exit_def clear_plan_def
  by (rule led_exit_loop_as_seq) (simp add: led_exit_pairs_eq)

lemma clear_plan_nonempty: "\<forall>(p, d) \<in> set clear_plan. d \<noteq> []"
  by (auto simp: clear_plan_def)

lemma length_clear_plan: "length clear_plan = 4"
  by (simp add: clear_plan_def led_exit_pairs_eq)

lemma put_seq_checked_returns:
  assumes "wf_world w" and "\<forall>(p, d) \<in> set ops. d \<noteq> []"
  shows "\<exists>ok w'. put_seq (put_attr env True) ops w = Inr (ok, w')"
  using assms
proof (induction ops arbitrary: w)
  case Nil
  then show ?case by auto
next
  case (Cons op ops)
  obtain p d where op: "op = (p, d)" by (cases op)
  obtain ok1 w1 where put: "put_attr env True p d w = Inr (ok1, w1)"
    using put_attr_checked_returns [of w d env p] Cons.prems by (auto simp: op)
  moreover have "wf_world w1"
    using put_attr_frame(1) [OF put] Cons.prems by (simp add: op)
  ultimately show ?case
    using Cons.IH [of w1] Cons.prems(2) by (auto simp: op)
qed

lemma clear_returns:
  assumes "wf_world w" and "pyerr w = None"
  shows "\<exists>w' k. clear env w = Inr (Some Py_True, w') \<and> wf_world w' \<and> streams w' = streams w \<and>
    k \<le> 4 \<and> dev_log w' = dev_log w @ take k clear_plan \<and> (pyerr w' = None \<longleftrightarrow> k = 4)"
proof -
  obtain ok w' where seq: "put_seq (put_attr env True) clear_plan w = Inr (ok, w')"
    using put_seq_checked_returns [OF assms(1) clear_plan_nonempty] by blast
  note contract = sysfs.put_seq_contract [OF assms(1) clear_plan_nonempty seq]
    put_seq_streams [OF assms(1) clear_plan_nonempty seq]
  have "clear env w = Inr (Some Py_True, w')"
    by (simp add: clear_def led_exit_as_plan seq)
  with contract assms(2) show ?thesis unfolding length_clear_plan by metis
qed

section \<open>Properties\<close>

text \<open>
  \<open>ioctl\<close> returns on every input and environment. It refuses a number outside 0 to 5, a colour
  other than red and green and a status other than 0 and 1 without touching the device; otherwise
  it either hands the kernel exactly one write, of the status to the file of that LED, and returns
  \<open>True\<close>, or raises an exception having written nothing. The stream it opens is closed, and the
  interpreter's rule holds.
\<close>
theorem ioctl_outcome:
  fixes num color status :: int
  assumes "wf_world w" and "pyerr w = None"
  defines "valid \<equiv> 0 \<le> num \<and> num \<le> 5 \<and> (color = RED \<or> color = GREEN) \<and> (status = 0 \<or> status = 1)"
    and "path \<equiv> led_path num (if color = RED then ''RED'' else ''GREEN'')"
  shows "\<exists>res w'. ioctl env (Some (num, color, Some status)) w = Inr (res, w') \<and>
    py_protocol res (pyerr w') \<and> streams w' = streams w \<and>
    dev_log w' = dev_log w @
      (if res = Some Py_True then [(path, lit (show_int status))] else []) \<and>
    (res = Some Py_True \<longleftrightarrow> valid \<and> env_fopen env (tick w) path \<and> env_fwrite env (tick w + 1))"
proof (cases valid)
  case True
  then have "sprintf_buf 128 path = Inr path"
    by (simp add: valid_def path_def led_path_fits)
  with True have "ioctl env (Some (num, color, Some status)) w =
      bind_run (put_attr env True path (lit (show_int status)) w) (\<lambda>(ok, w).
        Inr (if ok then Some Py_True else None, w))"
    unfolding path_def by (auto simp: ioctl_def valid_def led_consts)
  with True assms(1,2) show ?thesis
    by (simp add: put_attr_eq)
next
  case False
  then have "\<exists>m. ioctl env (Some (num, color, Some status)) w = Inr (None, PyErr_SetString m w)"
    by (auto simp: ioctl_def valid_def led_consts)
  with False assms(1,2) show ?thesis
    by (auto simp: PyErr_SetString_def)
qed

text \<open>
  \<open>clear\<close> always returns \<open>True\<close>; it writes 0 to a prefix of the four files of LED 4 and 5 and
  stops at the first failure. The result breaks the interpreter's rule - a value returned with an
  exception pending, a \<open>SystemError\<close> - exactly when not all four were written.
\<close>
theorem clear_outcome:
  assumes "wf_world w" and "pyerr w = None"
  shows "\<exists>w' k. clear env w = Inr (Some Py_True, w') \<and> streams w' = streams w \<and>
    k \<le> 4 \<and> dev_log w' = dev_log w @ take k
      [(led_path 4 ''RED'', lit ''0''), (led_path 4 ''GREEN'', lit ''0''),
       (led_path 5 ''RED'', lit ''0''), (led_path 5 ''GREEN'', lit ''0'')] \<and>
    (py_outcome_of (Some Py_True) (pyerr w') = SystemError \<longleftrightarrow> k < 4)"
proof -
  have plan: "clear_plan = [(led_path 4 ''RED'', lit ''0''), (led_path 4 ''GREEN'', lit ''0''),
       (led_path 5 ''RED'', lit ''0''), (led_path 5 ''GREEN'', lit ''0'')]"
    by (simp add: clear_plan_def led_exit_pairs_eq)
  from clear_returns [OF assms, of env] obtain w' k
    where run: "clear env w = Inr (Some Py_True, w') \<and> wf_world w' \<and> streams w' = streams w \<and>
      k \<le> 4 \<and> dev_log w' = dev_log w @ take k clear_plan \<and> (pyerr w' = None \<longleftrightarrow> k = 4)"
    by (elim exE)
  then have "py_outcome_of (Some Py_True) (pyerr w') = SystemError \<longleftrightarrow> k < 4"
    by (simp add: py_outcome_SystemError py_protocol_def order_less_le)
  with run show ?thesis
    unfolding plan by (intro exI [of _ w'] exI [of _ k]) simp
qed

lemma led_path_inj:
  assumes "0 \<le> a" "a < 10" "0 \<le> b" "b < 10"
  shows "led_path a c = led_path b d \<longleftrightarrow> a = b \<and> c = d"
proof -
  have "digit_char (nat a) = digit_char (nat b) \<longleftrightarrow> a = b"
    using assms digit_val_digit_char [of "nat a"] digit_val_digit_char [of "nat b"]
    by (metis eq_nat_nat_iff nat_less_iff numeral_nat(7) of_nat_numeral)
  with assms show ?thesis
    by (simp add: led_path_def show_int_def show_nat_small)
qed

text \<open>
  after a \<open>clear\<close> that left no exception, the files of LED 4 and 5 hold 0 in both colours,
  whatever was written before; the file of any other number is as it was. So an LED 0 to 3, which
  \<open>ioctl\<close> accepts although the enumeration names only 4 and 5, is not switched off.
\<close>
theorem clear_switches_off:
  assumes "wf_world w" and "pyerr w = None" and "clear env w = Inr (res, w')" and "pyerr w' = None"
    and "0 \<le> num" and "num \<le> 9"
  shows "dev_apply m (dev_log w') (led_path num color) =
    (if (num = 4 \<or> num = 5) \<and> (color = ''RED'' \<or> color = ''GREEN'') then 0
     else dev_apply m (dev_log w) (led_path num color))"
proof -
  obtain k where "dev_log w' = dev_log w @ take k clear_plan" "k = 4"
    using clear_returns [OF assms(1,2), of env] assms(3,4) by auto
  then have "dev_log w' = dev_log w @ clear_plan" by (simp add: length_clear_plan)
  with assms(5,6) show ?thesis
    by (auto simp: clear_plan_def led_exit_pairs_eq led_path_inj)
qed

section \<open>Concrete runs\<close>

definition led_world :: world where
  "led_world = \<lparr>pyerr = None, tick = 0, dev_log = [], streams = Map.empty, next_stream = 0,
     open_dirs = 0\<rparr>"

definition led_env :: io_env where
  "led_env = \<lparr>env_fopen = (\<lambda>_ _. True), env_fwrite = (\<lambda>_. True), env_opendir = (\<lambda>_ _. False),
     env_strerror = (\<lambda>_. [])\<rparr>"

lemma led_world_simps [simp]:
  "wf_world led_world" "pyerr led_world = None" "dev_log led_world = []"
  "env_fopen led_env t p" "env_fwrite led_env t" "env_ok led_env"
  by (simp_all add: led_world_def led_env_def wf_world_def env_ok_def)

theorem ioctl_outcome_witness:
  "\<exists>w'. ioctl led_env (Some (3, 0, Some 1)) led_world = Inr (Some Py_True, w') \<and>
    dev_log w' = [(led_path 3 ''RED'', lit ''1'')]"
  using ioctl_outcome [of led_world led_env 3 0 1] by (auto simp: RED_def)

theorem clear_outcome_witness:
  "\<exists>w'. clear (led_env\<lparr>env_fwrite := (\<lambda>t. t = 1)\<rparr>) led_world = Inr (Some Py_True, w') \<and>
    streams w' = streams led_world"
  using clear_outcome [of led_world "led_env\<lparr>env_fwrite := (\<lambda>t. t = 1)\<rparr>"] by auto

theorem clear_switches_off_witness:
  "\<exists>res w'. clear led_env led_world = Inr (res, w') \<and>
    dev_apply (\<lambda>_. 1) (dev_log w') (led_path 5 ''GREEN'') = 0 \<and>
    dev_apply (\<lambda>_. 1) (dev_log w') (led_path 3 ''GREEN'') = 1"
proof -
  obtain w' where run: "clear led_env led_world = Inr (Some Py_True, w')" and "pyerr w' = None"
    by (simp add: clear_def led_exit_as_plan put_seq_ok clear_plan_nonempty)
  then show ?thesis
    using clear_switches_off [OF _ _ run, of 5 "\<lambda>_. 1" "''GREEN''"]
      clear_switches_off [OF _ _ run, of 3 "\<lambda>_. 1" "''GREEN''"] by auto
qed

end
