(* ===== verification/Kmp.thy ===== *)
theory Kmp
  imports C_Strings "HOL-Library.Sublist"
begin

text \<open>
  \<open>KMP_GetNext\<close> and \<open>KMP_Match\<close> of \<open>c_modules/huawei_lte/me909s.c\<close>: the Knuth-Morris-Pratt search
  the LTE driver uses to look for a keyword in what the modem answered. The failure table is the
  fixed array \<open>next[MAX_RECV_BUF_SIZE]\<close>; reads and writes outside it, and a failure chain that never
  ends, are faults of the model.
\<close>

definition MAX_RECV_BUF_SIZE :: nat where
  "MAX_RECV_BUF_SIZE = 256"

section \<open>Definitions\<close>

text \<open>
  The inner loop \<open>while (k > 0 && c != des[k]) k = next[k - 1]\<close>, shared by the two functions. It may
  not end on an arbitrary table, so it is a partial function; \<open>None\<close> is a run that never returns.
\<close>

partial_function (option) kmp_fall :: "char \<Rightarrow> string \<Rightarrow> nat list \<Rightarrow> nat \<Rightarrow> nat run option" where
  "kmp_fall c des nxt k =
     (if k = 0 then Some (Inr k)
      else if length des < k then Some (Inl Out_Of_Bounds_Read)
      else if c = cstr_at des k then Some (Inr k)
      else if length nxt \<le> k - 1 then Some (Inl Out_Of_Bounds_Read)
      else kmp_fall c des nxt (nxt ! (k - 1)))"

definition run_fall :: "char \<Rightarrow> string \<Rightarrow> nat list \<Rightarrow> nat \<Rightarrow> nat run" where
  "run_fall c des nxt k = (case kmp_fall c des nxt k of None \<Rightarrow> Inl No_Return | Some r \<Rightarrow> r)"

function kmp_next_loop :: "string \<Rightarrow> nat \<Rightarrow> nat \<Rightarrow> nat list \<Rightarrow> nat list run" where
  "kmp_next_loop des j k nxt =
     (if j < length des
      then bind_run (run_fall (cstr_at des j) des nxt k) (\<lambda>k.
           let k = (if cstr_at des j = cstr_at des k then k + 1 else k) in
           if j < length nxt then kmp_next_loop des (j + 1) k (nxt[j := k])
           else Inl Buffer_Overflow)
      else Inr nxt)"
  by pat_completeness auto
termination
  by (relation "measure (\<lambda>(des, j, k, nxt). length des - j)") auto

definition KMP_GetNext :: "string \<Rightarrow> nat list \<Rightarrow> nat list run" where
  "KMP_GetNext des nxt =
     (if 0 < length nxt then kmp_next_loop des 1 0 (nxt[0 := 0]) else Inl Buffer_Overflow)"

function kmp_match_loop :: "string \<Rightarrow> string \<Rightarrow> nat list \<Rightarrow> int \<Rightarrow> nat \<Rightarrow> nat \<Rightarrow> int run" where
  "kmp_match_loop src des nxt len i j =
     (if int i < len
      then if i < length src
           then bind_run (run_fall (src ! i) des nxt j) (\<lambda>j.
                let j = (if src ! i = cstr_at des j then j + 1 else j) in
                if j = length des then Inr (int i - int (length des) + 1)
                else kmp_match_loop src des nxt len (i + 1) j)
           else Inl Out_Of_Bounds_Read
      else Inr (- 1))"
  by pat_completeness auto
termination
  by (relation "measure (\<lambda>(src, des, nxt, len, i, j). nat (len - int i))") auto

definition KMP_Match :: "string \<Rightarrow> string \<Rightarrow> int \<Rightarrow> int run" where
  "KMP_Match src des len =
     bind_run (KMP_GetNext des (replicate MAX_RECV_BUF_SIZE 0)) (\<lambda>nxt.
     kmp_match_loop src des nxt len 0 0)"

declare kmp_next_loop.simps [simp del] kmp_match_loop.simps [simp del]

section \<open>Specification\<close>

definition occurs_at :: "'a list \<Rightarrow> 'a list \<Rightarrow> nat \<Rightarrow> bool" where
  "occurs_at p s q \<longleftrightarrow> take (length p) (drop q s) = p"

text \<open>The naive search: the first position at which the pattern occurs, or -1.\<close>

definition first_occurrence :: "'a list \<Rightarrow> 'a list \<Rightarrow> int" where
  "first_occurrence p s =
     (case find (occurs_at p s) [0..<length s] of None \<Rightarrow> - 1 | Some q \<Rightarrow> int q)"

text \<open>
  \<open>matched p T m\<close>: the first \<open>m\<close> characters of the pattern are the last \<open>m\<close> of the text; the state
  of both loops is the longest such \<open>m\<close>.
\<close>

definition matched :: "'a list \<Rightarrow> 'a list \<Rightarrow> nat \<Rightarrow> bool" where
  "matched p T m \<longleftrightarrow> m \<le> length p \<and> suffix (take m p) T"

definition longest_match :: "'a list \<Rightarrow> 'a list \<Rightarrow> nat \<Rightarrow> bool" where
  "longest_match p T k \<longleftrightarrow> matched p T k \<and> (\<forall>m. matched p T m \<longrightarrow> m \<le> k)"

text \<open>
  The table up to \<open>n\<close>: entry \<open>i\<close> is the length of the longest proper border of the first \<open>i + 1\<close>
  characters, that is, the longest match of the pattern against those characters less the first.
\<close>

definition table_ok :: "'a list \<Rightarrow> nat list \<Rightarrow> nat \<Rightarrow> bool" where
  "table_ok p nxt n \<longleftrightarrow> n \<le> length nxt \<and>
     (\<forall>i < n. longest_match p (tl (take (Suc i) p)) (nxt ! i))"

section \<open>Matched prefixes\<close>

lemma matched_0 [simp]: "matched p T 0"
  by (simp add: matched_def)

lemma matched_snoc:
  "matched p (T @ [c]) (Suc m) \<longleftrightarrow> m < length p \<and> p ! m = c \<and> matched p T m"
  by (auto simp: matched_def take_Suc_conv_app_nth Suc_le_eq)

lemma suffix_tl_iff:
  "length xs < length ys \<Longrightarrow> suffix xs (tl ys) \<longleftrightarrow> suffix xs ys"
  by (cases ys) (auto simp: suffix_Cons)

lemma matched_border:
  assumes "matched p T k" and "m < k"
  shows "matched p T m \<longleftrightarrow> matched p (tl (take k p)) m"
proof -
  have "suffix (take m p) T \<longleftrightarrow> suffix (take m p) (take k p)"
    using assms
    by (auto simp: matched_def intro: suffix_length_suffix suffix_order.trans)
  with assms show ?thesis
    by (auto simp: matched_def suffix_tl_iff)
qed

lemma longest_match_tl_less:
  assumes "longest_match p (tl (take k p)) m" and "0 < k" and "k \<le> length p"
  shows "m < k"
proof -
  have "length (take m p) \<le> length (tl (take k p))" and "m \<le> length p"
    using assms(1) by (auto simp: longest_match_def matched_def dest: suffix_length_le)
  with assms(2,3) show ?thesis by simp
qed

section \<open>The failure chain\<close>

text \<open>
  Following the table from a match \<open>k\<close> finds the longest shorter match that the character extends,
  and it always ends.
\<close>

lemma run_fall_longest:
  assumes "table_ok des nxt n" and "k \<le> n" and "k < length des"
    and "matched des T k" and "\<forall>m. matched des (T @ [c]) (Suc m) \<longrightarrow> m \<le> k"
  shows "\<exists>k' \<le> k. run_fall c des nxt k = Inr k' \<and>
    longest_match des (T @ [c]) (if c = cstr_at des k' then k' + 1 else k')"
  using assms(2-5)
proof (induction k rule: less_induct)
  case (less k)
  consider (stop) "k = 0 \<or> c = cstr_at des k" | (chain) "0 < k" "c \<noteq> cstr_at des k"
    by blast
  then show ?case
  proof cases
    case stop
    then have "run_fall c des nxt k = Inr k"
      using less.prems(2) by (auto simp: run_fall_def kmp_fall.simps [of c des nxt k])
    moreover have "longest_match des (T @ [c]) (if c = cstr_at des k then k + 1 else k)"
      unfolding longest_match_def
    proof (intro conjI allI impI)
      show "matched des (T @ [c]) (if c = cstr_at des k then k + 1 else k)"
        using stop less.prems(2,3) by (auto simp: matched_snoc cstr_at_def)
      fix m assume m: "matched des (T @ [c]) m"
      show "m \<le> (if c = cstr_at des k then k + 1 else k)"
        using stop less.prems(2,4) m by (cases m) (auto simp: matched_snoc cstr_at_def)
    qed
    ultimately show ?thesis by blast
  next
    case chain
    let ?k = "nxt ! (k - 1)"
    have len: "k - 1 < length nxt"
      using assms(1) less.prems(1) chain by (auto simp: table_ok_def)
    have "k - 1 < n" using less.prems(1) chain by simp
    with assms(1) have "longest_match des (tl (take (Suc (k - 1)) des)) ?k"
      unfolding table_ok_def by blast
    with chain have longest: "longest_match des (tl (take k des)) ?k" by simp
    have lt: "?k < k"
      by (rule longest_match_tl_less [OF longest]) (use chain less.prems(2) in simp_all)
    have run: "run_fall c des nxt k = run_fall c des nxt ?k"
      using chain less.prems(2) len by (simp add: run_fall_def kmp_fall.simps [of c des nxt k])
    have "matched des T ?k"
      using longest matched_border [OF less.prems(3) lt] by (simp add: longest_match_def)
    moreover have "m \<le> ?k" if m: "matched des (T @ [c]) (Suc m)" for m
    proof -
      have "m \<le> k" "m \<noteq> k"
        using m less.prems(2,4) chain by (auto simp: matched_snoc cstr_at_def)
      then have "m < k" by simp
      with m longest matched_border [OF less.prems(3) this] show ?thesis
        by (auto simp: matched_snoc longest_match_def)
    qed
    ultimately obtain k' where "k' \<le> ?k" "run_fall c des nxt ?k = Inr k'"
      "longest_match des (T @ [c]) (if c = cstr_at des k' then k' + 1 else k')"
      using less.IH [OF lt] lt less.prems(1,2) by auto
    with run lt show ?thesis by (intro exI [of _ k']) simp
  qed
qed

lemma longest_match_candidates:
  "longest_match p T k \<Longrightarrow> \<forall>m. matched p (T @ [c]) (Suc m) \<longrightarrow> m \<le> k"
  by (auto simp: longest_match_def matched_snoc)

section \<open>The table\<close>

lemma tl_take_snoc: "0 < j \<Longrightarrow> j < length p \<Longrightarrow> tl (take (Suc j) p) = tl (take j p) @ [p ! j]"
  by (simp add: take_Suc_conv_app_nth) (metis gr_implies_not0 list.size(3) take_eq_Nil tl_append2)

text \<open>One turn of the loop: the next entry, and the table extended by it.\<close>

lemma kmp_next_step:
  assumes "table_ok des nxt j" and "0 < j" and "j < length des"
    and "longest_match des (tl (take j des)) k"
  obtains k' where "run_fall (cstr_at des j) des nxt k = Inr k'"
    and "longest_match des (tl (take (Suc j) des))
      (if cstr_at des j = cstr_at des k' then k' + 1 else k')"
    and "j < length nxt \<Longrightarrow>
      table_ok des (nxt[j := if cstr_at des j = cstr_at des k' then k' + 1 else k']) (Suc j)"
proof -
  let ?c = "cstr_at des j"
  have k: "k < j"
    by (rule longest_match_tl_less [OF assms(4,2)]) (use assms(3) in simp)
  from assms(4) have matched: "matched des (tl (take j des)) k"
    by (simp add: longest_match_def)
  obtain k' where k': "run_fall ?c des nxt k = Inr k'"
    "longest_match des (tl (take j des) @ [?c]) (if ?c = cstr_at des k' then k' + 1 else k')"
    using run_fall_longest [OF assms(1) _ _ matched longest_match_candidates [OF assms(4)]]
      k assms(3) by auto
  from k'(2) have longest: "longest_match des (tl (take (Suc j) des))
      (if ?c = cstr_at des k' then k' + 1 else k')"
    using assms(2,3) by (simp add: tl_take_snoc cstr_at_def)
  moreover have "j < length nxt \<Longrightarrow>
      table_ok des (nxt[j := if ?c = cstr_at des k' then k' + 1 else k']) (Suc j)"
    using longest assms(1) by (auto simp: table_ok_def nth_list_update less_Suc_eq)
  ultimately show ?thesis using that k'(1) by blast
qed

lemma kmp_next_loop_table:
  assumes "table_ok des nxt j" and "0 < j" and "j \<le> length des" and "j \<le> length nxt"
    and "longest_match des (tl (take j des)) k"
  shows "if length des \<le> length nxt
    then \<exists>nxt'. kmp_next_loop des j k nxt = Inr nxt' \<and> length nxt' = length nxt \<and>
      table_ok des nxt' (length des)
    else kmp_next_loop des j k nxt = Inl Buffer_Overflow"
  using assms
proof (induction des j k nxt rule: kmp_next_loop.induct)
  case (1 des j k nxt)
  show ?case
  proof (cases "j < length des")
    case True
    obtain k' where k': "run_fall (cstr_at des j) des nxt k = Inr k'"
      and longest: "longest_match des (tl (take (Suc j) des))
        (if cstr_at des j = cstr_at des k' then k' + 1 else k')"
      and table: "j < length nxt \<Longrightarrow>
        table_ok des (nxt[j := if cstr_at des j = cstr_at des k' then k' + 1 else k']) (Suc j)"
      using kmp_next_step [OF "1.prems"(1,2) True "1.prems"(5)] by blast
    show ?thesis
    proof (cases "j < length nxt")
      case j: True
      let ?k = "if cstr_at des j = cstr_at des k' then k' + 1 else k'"
      have "kmp_next_loop des j k nxt = kmp_next_loop des (j + 1) ?k (nxt[j := ?k])"
        using True j k' by (subst kmp_next_loop.simps) (simp add: Let_def)
      moreover have "if length des \<le> length (nxt[j := ?k])
          then \<exists>nxt'. kmp_next_loop des (j + 1) ?k (nxt[j := ?k]) = Inr nxt' \<and>
            length nxt' = length (nxt[j := ?k]) \<and> table_ok des nxt' (length des)
          else kmp_next_loop des (j + 1) ?k (nxt[j := ?k]) = Inl Buffer_Overflow"
        by (rule "1.IH" [OF True refl j]) (use longest table j True in simp_all)
      ultimately show ?thesis by (simp only: length_list_update)
    next
      case False
      then have "kmp_next_loop des j k nxt = Inl Buffer_Overflow"
        using True k' by (subst kmp_next_loop.simps) (simp add: Let_def)
      with False True "1.prems"(4) show ?thesis by simp
    qed
  next
    case False
    then have "kmp_next_loop des j k nxt = Inr nxt"
      by (simp add: kmp_next_loop.simps)
    with False "1.prems" show ?thesis by simp
  qed
qed

lemma longest_match_Nil: "longest_match p [] 0"
  by (auto simp: longest_match_def matched_def)

lemma KMP_GetNext_cases:
  assumes "0 < length des" and "0 < length nxt"
  shows "if length des \<le> length nxt
    then \<exists>nxt'. KMP_GetNext des nxt = Inr nxt' \<and> length nxt' = length nxt \<and>
      table_ok des nxt' (length des)
    else KMP_GetNext des nxt = Inl Buffer_Overflow"
proof -
  have tl1: "tl (take 1 des) = []" by (cases des) auto
  then have "table_ok des (nxt[0 := 0]) 1"
    using assms by (cases nxt) (auto simp: table_ok_def longest_match_Nil)
  then have "if length des \<le> length (nxt[0 := 0])
      then \<exists>nxt'. kmp_next_loop des 1 0 (nxt[0 := 0]) = Inr nxt' \<and>
        length nxt' = length (nxt[0 := 0]) \<and> table_ok des nxt' (length des)
      else kmp_next_loop des 1 0 (nxt[0 := 0]) = Inl Buffer_Overflow"
    by (rule kmp_next_loop_table) (use assms tl1 longest_match_Nil in \<open>simp_all add: Suc_le_eq\<close>)
  moreover have "KMP_GetNext des nxt = kmp_next_loop des 1 0 (nxt[0 := 0])"
    using assms(2) by (simp add: KMP_GetNext_def)
  ultimately show ?thesis by (simp only: length_list_update)
qed

lemma KMP_GetNext_table:
  assumes "0 < length des" and "length des \<le> length nxt"
  shows "\<exists>nxt'. KMP_GetNext des nxt = Inr nxt' \<and> length nxt' = length nxt \<and>
    table_ok des nxt' (length des)"
proof -
  from assms have "0 < length nxt" by linarith
  from KMP_GetNext_cases [OF assms(1) this] assms(2) show ?thesis by simp
qed

section \<open>The search\<close>

lemma occurs_at_suffix:
  assumes "e \<le> length s"
  shows "suffix p (take e s) \<longleftrightarrow> length p \<le> e \<and> occurs_at p s (e - length p)"
proof
  assume "suffix p (take e s)"
  then obtain u where u: "take e s = u @ p" by (auto elim: suffixE)
  have "length (take e s) = e" using assms by simp
  then have len: "e = length u + length p" by (simp add: u)
  have "take (length p) (drop (length u) s) = drop (length u) (take e s)"
    by (simp add: drop_take len)
  with u len show "length p \<le> e \<and> occurs_at p s (e - length p)"
    by (simp add: occurs_at_def)
next
  assume a: "length p \<le> e \<and> occurs_at p s (e - length p)"
  then have "drop (e - length p) (take e s) = p"
    by (simp add: occurs_at_def drop_take)
  then show "suffix p (take e s)"
    by (metis suffix_drop)
qed

lemma occurs_at_length: "occurs_at p s q \<Longrightarrow> p \<noteq> [] \<Longrightarrow> q + length p \<le> length s"
proof -
  assume "occurs_at p s q" "p \<noteq> []"
  then have "length (take (length p) (drop q s)) = length p" by (simp add: occurs_at_def)
  with \<open>p \<noteq> []\<close> show "q + length p \<le> length s" by (cases p) (auto simp: min_def split: if_splits)
qed

lemma find_upt_Some_iff:
  "find P [0..<n] = Some q \<longleftrightarrow> q < n \<and> P q \<and> (\<forall>i < q. \<not> P i)"
  by (auto simp: find_Some_iff)

lemma find_upt_None_iff: "find P [0..<n] = None \<longleftrightarrow> (\<forall>i < n. \<not> P i)"
  by (auto simp: find_None_iff)

lemma first_occurrenceI:
  assumes "occurs_at p s q" and "p \<noteq> []" and "\<forall>i < q. \<not> occurs_at p s i"
  shows "first_occurrence p s = int q"
proof -
  have "0 < length p" using assms(2) by simp
  with occurs_at_length [OF assms(1,2)] have "q < length s" by linarith
  with assms have "find (occurs_at p s) [0..<length s] = Some q"
    by (simp add: find_upt_Some_iff)
  then show ?thesis by (simp add: first_occurrence_def)
qed

lemma first_occurrence_none:
  "\<forall>i. \<not> occurs_at p s i \<Longrightarrow> first_occurrence p s = - 1"
  by (simp add: first_occurrence_def find_upt_None_iff split: option.splits)

text \<open>
  The invariant of the search: \<open>j\<close> is the longest match of the pattern against what was read, and
  no occurrence has ended so far.
\<close>

lemma kmp_match_loop_correct:
  assumes "table_ok des nxt (length des)" and "des \<noteq> []" and "len = int (length s)"
    and "src = s @ r" and "i \<le> length s" and "longest_match des (take i s) j" and "j < length des"
    and "\<forall>e \<le> i. \<not> suffix des (take e s)"
  shows "kmp_match_loop src des nxt len i j = Inr (first_occurrence des s)"
  using assms
proof (induction src des nxt len i j rule: kmp_match_loop.induct)
  case (1 src des nxt len i j)
  note prems = "1.prems"
  show ?case
  proof (cases "int i < len")
    case True
    then have i: "i < length s" "i < length src" and take: "take (Suc i) s = take i s @ [src ! i]"
      using prems(3,4) by (auto simp: nth_append take_Suc_conv_app_nth)
    from prems(6) have "matched des (take i s) j" by (simp add: longest_match_def)
    from run_fall_longest [OF prems(1) _ _ this longest_match_candidates [OF prems(6)], of "src ! i"]
    obtain k where k: "run_fall (src ! i) des nxt j = Inr k"
      "longest_match des (take (Suc i) s) (if src ! i = cstr_at des k then k + 1 else k)"
      using prems(7) by (auto simp: take)
    let ?j = "if src ! i = cstr_at des k then k + 1 else k"
    have le: "?j \<le> length des" using k(2) by (simp add: longest_match_def matched_def)
    have ended: "suffix des (take (Suc i) s) \<longleftrightarrow> ?j = length des"
      using k(2) le by (auto simp: longest_match_def matched_def dest: spec [of _ "length des"])
    show ?thesis
    proof (cases "?j = length des")
      case True
      with ended i have occ: "length des \<le> Suc i" "occurs_at des s (Suc i - length des)"
        by (simp_all add: occurs_at_suffix)
      have "\<not> occurs_at des s q" if "q < Suc i - length des" for q
        using prems(8) occurs_at_suffix [of "q + length des" s des] that i occ(1) by auto
      with occ prems(2) have "first_occurrence des s = int (Suc i - length des)"
        by (intro first_occurrenceI) auto
      moreover have "kmp_match_loop src des nxt len i j = Inr (int i - int (length des) + 1)"
        using True k(1) \<open>int i < len\<close> i(2) by (subst kmp_match_loop.simps) (simp add: Let_def)
      ultimately show ?thesis using occ(1) by (simp add: of_nat_diff)
    next
      case False
      with ended prems(8) have "\<forall>e \<le> Suc i. \<not> suffix des (take e s)"
        by (auto simp: le_Suc_eq)
      then have "kmp_match_loop src des nxt len (i + 1) ?j = Inr (first_occurrence des s)"
        by (intro "1.IH" [OF True i(2) refl False]) (use prems k le False i in simp_all)
      moreover have "kmp_match_loop src des nxt len i j = kmp_match_loop src des nxt len (i + 1) ?j"
        using False k(1) True i(2) by (subst kmp_match_loop.simps) (simp add: Let_def)
      ultimately show ?thesis by simp
    qed
  next
    case False
    with prems have "i = length s" by simp
    with prems(2,8) have "\<forall>q. \<not> occurs_at des s q"
      using occurs_at_length occurs_at_suffix [of _ s des]
      by (metis add_diff_cancel_right' le_add2)
    with False show ?thesis
      by (simp add: kmp_match_loop.simps [of src des nxt len i j] first_occurrence_none)
  qed
qed

text \<open>The two functions on a non-empty keyword that fits the table.\<close>

lemma KMP_Match_first_occurrence:
  assumes "des \<noteq> []" and "length des \<le> MAX_RECV_BUF_SIZE" and "len \<le> length src"
  shows "KMP_Match src des (int len) = Inr (first_occurrence des (take len src))"
proof -
  obtain nxt where nxt: "KMP_GetNext des (replicate MAX_RECV_BUF_SIZE 0) = Inr nxt"
    "table_ok des nxt (length des)"
    using KMP_GetNext_table [of des "replicate MAX_RECV_BUF_SIZE 0"] assms(1,2) by auto
  have "kmp_match_loop src des nxt (int len) 0 0 = Inr (first_occurrence des (take len src))"
    using nxt(2) assms longest_match_Nil [of des]
    by (intro kmp_match_loop_correct [where r = "drop len src"]) auto
  with nxt(1) show ?thesis by (simp add: KMP_Match_def)
qed

lemma KMP_Match_negative:
  assumes "des \<noteq> []" and "length des \<le> MAX_RECV_BUF_SIZE" and "len \<le> 0"
  shows "KMP_Match src des len = Inr (- 1)"
proof -
  obtain nxt where "KMP_GetNext des (replicate MAX_RECV_BUF_SIZE 0) = Inr nxt"
    using KMP_GetNext_table [of des "replicate MAX_RECV_BUF_SIZE 0"] assms(1,2) by auto
  with assms(3) show ?thesis by (simp add: KMP_Match_def kmp_match_loop.simps)
qed

lemma first_occurrence_nonneg:
  assumes "first_occurrence p s \<noteq> - 1"
  shows "\<exists>q. first_occurrence p s = int q \<and> occurs_at p s q"
  using assms by (auto simp: first_occurrence_def find_upt_Some_iff split: option.splits)

lemma first_occurrence_found_iff:
  assumes "p \<noteq> []"
  shows "first_occurrence p s \<noteq> - 1 \<longleftrightarrow> (\<exists>q. occurs_at p s q)"
proof
  show "\<exists>q. occurs_at p s q" if "first_occurrence p s \<noteq> - 1"
    using that first_occurrence_none by blast
  assume "\<exists>q. occurs_at p s q"
  then have "occurs_at p s (LEAST q. occurs_at p s q)" "\<forall>i < (LEAST q. occurs_at p s q). \<not> occurs_at p s i"
    by (auto intro: LeastI dest: not_less_Least)
  from first_occurrenceI [OF this(1) assms this(2)] show "first_occurrence p s \<noteq> - 1" by simp
qed

section \<open>Interface: a keyword search\<close>

text \<open>
  What the driver relies on when it looks for a keyword in the bytes it received: the search
  returns, and its answer is a position exactly when the keyword is among those bytes.
\<close>

locale keyword_search =
  fixes search :: "string \<Rightarrow> string \<Rightarrow> int \<Rightarrow> int run"
    and keyword :: "string \<Rightarrow> bool"
  assumes search_first: "keyword k \<Longrightarrow> n \<le> length buf \<Longrightarrow>
      search buf k (int n) = Inr (first_occurrence k (take n buf))"
    and search_empty: "keyword k \<Longrightarrow> m \<le> 0 \<Longrightarrow> search buf k m = Inr (- 1)"
    and keyword_nonempty: "keyword k \<Longrightarrow> k \<noteq> []"
begin

lemma search_returns:
  assumes "keyword k" and "n \<le> int (length buf)"
  shows "\<exists>r. search buf k n = Inr r \<and> - 1 \<le> r"
proof (cases "n \<le> 0")
  case True
  then show ?thesis using search_empty [OF assms(1) True] by auto
next
  case False
  then obtain m where n: "n = int m" by (metis nat_0_le not_le order_less_imp_le)
  with search_first [OF assms(1), of m buf] assms(2) show ?thesis
    by (auto simp: first_occurrence_def split: option.splits)
qed

lemma search_found_iff:
  assumes "keyword k" and "n \<le> length buf"
  shows "search buf k (int n) \<noteq> Inr (- 1) \<longleftrightarrow> (\<exists>q. occurs_at k (take n buf) q)"
  using search_first [OF assms] first_occurrence_found_iff [OF keyword_nonempty [OF assms(1)]]
  by simp

lemma search_position:
  assumes "keyword k" and "n \<le> length buf" and "search buf k (int n) = Inr r" and "r \<noteq> - 1"
  shows "\<exists>q. r = int q \<and> occurs_at k (take n buf) q \<and> q + length k \<le> n"
proof -
  have "r = first_occurrence k (take n buf)"
    using search_first [OF assms(1,2)] assms(3) by simp
  then obtain q where q: "r = int q" "occurs_at k (take n buf) q"
    using first_occurrence_nonneg assms(4) by blast
  then have "q + length k \<le> n"
    using occurs_at_length [OF q(2) keyword_nonempty [OF assms(1)]] assms(2) by simp
  with q show ?thesis by blast
qed

end

interpretation kmp: keyword_search KMP_Match "\<lambda>k. k \<noteq> [] \<and> length k \<le> MAX_RECV_BUF_SIZE"
  by unfold_locales (auto simp: KMP_Match_first_occurrence KMP_Match_negative)

section \<open>Properties\<close>

text \<open>
  on a non-empty keyword of at most 256 bytes \<open>KMP_GetNext\<close> returns, within its array, a table
  whose entry \<open>i\<close> is the length of the longest proper border of the first \<open>i + 1\<close> characters of the
  keyword.
\<close>
theorem KMP_GetNext_longest_borders:
  assumes "des \<noteq> []" and "length des \<le> MAX_RECV_BUF_SIZE"
  shows "\<exists>nxt. KMP_GetNext des (replicate MAX_RECV_BUF_SIZE 0) = Inr nxt \<and>
    length nxt = MAX_RECV_BUF_SIZE \<and>
    (\<forall>i < length des. nxt ! i \<le> i \<and> suffix (take (nxt ! i) des) (take (Suc i) des) \<and>
      (\<forall>m \<le> i. suffix (take m des) (take (Suc i) des) \<longrightarrow> m \<le> nxt ! i))"
proof -
  obtain nxt where nxt: "KMP_GetNext des (replicate MAX_RECV_BUF_SIZE 0) = Inr nxt"
    "length nxt = MAX_RECV_BUF_SIZE" "table_ok des nxt (length des)"
    using KMP_GetNext_table [of des "replicate MAX_RECV_BUF_SIZE 0"] assms by auto
  have "nxt ! i \<le> i \<and> suffix (take (nxt ! i) des) (take (Suc i) des) \<and>
      (\<forall>m \<le> i. suffix (take m des) (take (Suc i) des) \<longrightarrow> m \<le> nxt ! i)"
    if i: "i < length des" for i
  proof -
    have longest: "longest_match des (tl (take (Suc i) des)) (nxt ! i)"
      using nxt(3) i by (simp add: table_ok_def)
    have lt: "nxt ! i < Suc i"
      by (rule longest_match_tl_less [OF longest]) (use i in simp_all)
    have border: "matched des (tl (take (Suc i) des)) m \<longleftrightarrow> suffix (take m des) (take (Suc i) des)"
      if "m \<le> i" for m
      using that i by (simp add: matched_def suffix_tl_iff)
    from longest lt border show ?thesis
      by (auto simp: longest_match_def)
  qed
  with nxt(1,2) show ?thesis by blast
qed

text \<open>
  C19: \<open>KMP_Match\<close> equals the naive search: for a non-empty keyword of at most 256 bytes and \<open>len\<close>
  bytes of a buffer that has as many, it returns the first position of the keyword among them, and
  -1 if there is none. It neither leaves its arrays nor runs forever.
\<close>
theorem KMP_Match_is_naive_search:
  assumes "des \<noteq> []" and "length des \<le> MAX_RECV_BUF_SIZE" and "len \<le> length src"
  shows "KMP_Match src des (int len) = Inr (first_occurrence des (take len src))"
  using assms by (rule KMP_Match_first_occurrence)

theorem KMP_GetNext_longest_borders_witness:
  "\<exists>nxt. KMP_GetNext ''abab'' (replicate MAX_RECV_BUF_SIZE 0) = Inr nxt \<and> nxt ! 3 \<le> 3"
  using KMP_GetNext_longest_borders [of "''abab''"] by (auto simp: MAX_RECV_BUF_SIZE_def)

theorem KMP_Match_is_naive_search_witness:
  "KMP_Match ''ababac!'' ''abac'' (int 6) = Inr 2"
proof -
  have "first_occurrence ''abac'' (take 6 ''ababac!'') = 2" by code_simp
  then show ?thesis
    using KMP_Match_is_naive_search [of "''abac''" 6 "''ababac!''"]
    by (simp add: MAX_RECV_BUF_SIZE_def)
qed

text \<open>
  a keyword longer than the table is written past its end: \<open>KMP_GetNext\<close> overflows the array
  exactly when the keyword has more than 256 bytes.
\<close>
theorem KMP_GetNext_overflow_iff:
  assumes "des \<noteq> []"
  shows "KMP_GetNext des (replicate MAX_RECV_BUF_SIZE 0) = Inl Buffer_Overflow \<longleftrightarrow>
    MAX_RECV_BUF_SIZE < length des"
  using KMP_GetNext_cases [of des "replicate MAX_RECV_BUF_SIZE 0"] assms
  by (auto simp: MAX_RECV_BUF_SIZE_def split: if_splits)

theorem KMP_GetNext_overflow_iff_witness:
  "KMP_GetNext (replicate 300 CHR ''x'') (replicate MAX_RECV_BUF_SIZE 0) = Inl Buffer_Overflow"
  using KMP_GetNext_overflow_iff [of "replicate 300 CHR ''x''"]
  by (simp add: MAX_RECV_BUF_SIZE_def)

end
