(* ===== verification/Line_Config.thy ===== *)
theory Line_Config
  imports C_Strings
begin

unbundle bit_operations_syntax

text \<open>
  The line settings of \<open>_uarts_connect\<close> in \<open>c_modules/huawei_lte/CoraSerial.c\<close>: how the baud rate,
  the data bits, the stop bits and the parity of a \<open>cora_serial_t\<close> become a POSIX \<open>struct termios\<close>
  and, in the other branch of the same function, a Windows \<open>DCB\<close>. The numeric values of the flags
  are those of the platform headers (Linux \<open>asm-generic/termbits.h\<close>, \<open>winbase.h\<close>).
\<close>

section \<open>Flags of the platform\<close>

definition CSIZE :: "32 word" where "CSIZE = 0x30"
definition CS5 :: "32 word" where "CS5 = 0x00"
definition CS6 :: "32 word" where "CS6 = 0x10"
definition CS7 :: "32 word" where "CS7 = 0x20"
definition CS8 :: "32 word" where "CS8 = 0x30"
definition CSTOPB :: "32 word" where "CSTOPB = 0x40"
definition CREAD :: "32 word" where "CREAD = 0x80"
definition PARENB :: "32 word" where "PARENB = 0x100"
definition PARODD :: "32 word" where "PARODD = 0x200"
definition CLOCAL :: "32 word" where "CLOCAL = 0x800"
definition ISIG :: "32 word" where "ISIG = 0x01"
definition ICANON :: "32 word" where "ICANON = 0x02"
definition ECHO :: "32 word" where "ECHO = 0x08"
definition ECHOE :: "32 word" where "ECHOE = 0x10"
definition INPCK :: "32 word" where "INPCK = 0x10"
definition IXON :: "32 word" where "IXON = 0x400"
definition IXANY :: "32 word" where "IXANY = 0x800"
definition IXOFF :: "32 word" where "IXOFF = 0x1000"
definition OPOST :: "32 word" where "OPOST = 0x01"

lemmas termios_flags = CSIZE_def CS5_def CS6_def CS7_def CS8_def CSTOPB_def CREAD_def PARENB_def
  PARODD_def CLOCAL_def ISIG_def ICANON_def ECHO_def ECHOE_def INPCK_def IXON_def IXANY_def
  IXOFF_def OPOST_def

text \<open>A speed constant \<open>Bnnn\<close> is represented by its rate.\<close>

datatype speed_t = B nat

record termios =
  c_iflag :: "32 word"
  c_oflag :: "32 word"
  c_cflag :: "32 word"
  c_lflag :: "32 word"
  c_vmin :: "8 word"
  c_vtime :: "8 word"
  c_ispeed :: speed_t
  c_ospeed :: speed_t

text \<open>\<open>memset(&tios, 0, sizeof(struct termios))\<close>: \<open>B0\<close> is the zero speed.\<close>

definition termios_zero :: termios where
  "termios_zero = \<lparr>c_iflag = 0, c_oflag = 0, c_cflag = 0, c_lflag = 0, c_vmin = 0, c_vtime = 0,
     c_ispeed = B 0, c_ospeed = B 0\<rparr>"

section \<open>The POSIX branch\<close>

text \<open>The switch over the baud rate; every constant tested with \<open>#ifdef\<close> exists on Linux.\<close>

definition posix_bauds :: "int list" where
  "posix_bauds = [110, 300, 600, 1200, 2400, 4800, 9600, 19200, 38400, 57600, 115200, 230400,
     460800, 500000, 576000, 921600, 1000000, 1152000, 1500000, 2500000, 3000000, 3500000, 4000000]"

definition speed_of_baud :: "int \<Rightarrow> speed_t" where
  "speed_of_baud baud = (if baud \<in> set posix_bauds then B (nat baud) else B 9600)"

text \<open>From the control options to the end of the settings.\<close>

definition uarts_tios :: "8 word \<Rightarrow> 8 word \<Rightarrow> char \<Rightarrow> termios \<Rightarrow> termios" where
  "uarts_tios data_bit stop_bit parity tios =
    (let tios = tios\<lparr>c_cflag := c_cflag tios OR (CREAD OR CLOCAL)\<rparr>;
         tios = tios\<lparr>c_cflag := c_cflag tios AND NOT CSIZE\<rparr>;
         tios = tios\<lparr>c_cflag := c_cflag tios OR
           (if data_bit = 5 then CS5 else if data_bit = 6 then CS6
            else if data_bit = 7 then CS7 else CS8)\<rparr>;
         tios = (if stop_bit = 1 then tios\<lparr>c_cflag := c_cflag tios AND NOT CSTOPB\<rparr>
                 else tios\<lparr>c_cflag := c_cflag tios OR CSTOPB\<rparr>);
         tios = (if parity = CHR ''N'' then tios\<lparr>c_cflag := c_cflag tios AND NOT PARENB\<rparr>
                 else if parity = CHR ''E''
                 then tios\<lparr>c_cflag := (c_cflag tios OR PARENB) AND NOT PARODD\<rparr>
                 else tios\<lparr>c_cflag := (c_cflag tios OR PARENB) OR PARODD\<rparr>);
         tios = tios\<lparr>c_lflag := c_lflag tios AND NOT (ICANON OR ECHO OR ECHOE OR ISIG)\<rparr>;
         tios = (if parity = CHR ''N'' then tios\<lparr>c_iflag := c_iflag tios AND NOT INPCK\<rparr>
                 else tios\<lparr>c_iflag := c_iflag tios OR INPCK\<rparr>);
         tios = tios\<lparr>c_iflag := c_iflag tios AND NOT (IXON OR IXOFF OR IXANY)\<rparr>;
         tios = tios\<lparr>c_oflag := c_oflag tios AND NOT OPOST\<rparr>
     in tios\<lparr>c_vmin := 0, c_vtime := 0\<rparr>)"

section \<open>The Windows branch\<close>

record dcb =
  BaudRate :: nat
  ByteSize :: nat
  StopBits :: nat
  Parity :: nat
  fParity :: bool
  fTXContinueOnXoff :: bool
  fOutX :: bool
  fInX :: bool
  fBinary :: bool
  fAbortOnError :: bool

definition ONESTOPBIT :: nat where "ONESTOPBIT = 0"
definition TWOSTOPBITS :: nat where "TWOSTOPBITS = 2"
definition NOPARITY :: nat where "NOPARITY = 0"
definition ODDPARITY :: nat where "ODDPARITY = 1"
definition EVENPARITY :: nat where "EVENPARITY = 2"

lemmas dcb_consts = ONESTOPBIT_def TWOSTOPBITS_def NOPARITY_def ODDPARITY_def EVENPARITY_def

definition win32_bauds :: "int list" where
  "win32_bauds = [110, 300, 600, 1200, 2400, 4800, 9600, 14400, 19200, 38400, 57600, 115200, 230400,
     250000, 460800, 500000, 921600, 1000000]"

definition win32_dcb :: "int \<Rightarrow> 8 word \<Rightarrow> 8 word \<Rightarrow> char \<Rightarrow> dcb \<Rightarrow> dcb" where
  "win32_dcb baud data_bit stop_bit parity dcb =
    (let dcb = dcb\<lparr>BaudRate := (if baud \<in> set win32_bauds then nat baud else 9600)\<rparr>;
         dcb = dcb\<lparr>ByteSize := (if data_bit = 5 then 5 else if data_bit = 6 then 6
                               else if data_bit = 7 then 7 else 8)\<rparr>;
         dcb = dcb\<lparr>StopBits := (if stop_bit = 1 then ONESTOPBIT else TWOSTOPBITS)\<rparr>;
         dcb = (if parity = CHR ''N'' then dcb\<lparr>Parity := NOPARITY, fParity := False\<rparr>
                else if parity = CHR ''E'' then dcb\<lparr>Parity := EVENPARITY, fParity := True\<rparr>
                else dcb\<lparr>Parity := ODDPARITY, fParity := True\<rparr>);
         dcb = dcb\<lparr>fTXContinueOnXoff := True, fOutX := False, fInX := False\<rparr>;
         dcb = dcb\<lparr>fBinary := True\<rparr>
     in dcb\<lparr>fAbortOnError := False\<rparr>)"

section \<open>What a configuration says about the line\<close>

text \<open>An abstract frame format, and how each platform encodes it.\<close>

datatype parity_mode = No_Parity | Even_Parity | Odd_Parity

record frame =
  frame_baud :: nat
  frame_bits :: nat
  frame_stop :: nat
  frame_parity :: parity_mode

definition frame_of_termios :: "termios \<Rightarrow> frame" where
  "frame_of_termios t =
     \<lparr>frame_baud = (case c_ospeed t of B n \<Rightarrow> n),
      frame_bits = (let s = c_cflag t AND CSIZE in
        if s = CS5 then 5 else if s = CS6 then 6 else if s = CS7 then 7 else 8),
      frame_stop = (if c_cflag t AND CSTOPB = 0 then 1 else 2),
      frame_parity = (if c_cflag t AND PARENB = 0 then No_Parity
        else if c_cflag t AND PARODD = 0 then Even_Parity else Odd_Parity)\<rparr>"

definition frame_of_dcb :: "dcb \<Rightarrow> frame" where
  "frame_of_dcb d =
     \<lparr>frame_baud = BaudRate d, frame_bits = ByteSize d,
      frame_stop = (if StopBits d = ONESTOPBIT then 1 else 2),
      frame_parity = (if \<not> fParity d then No_Parity
        else if Parity d = EVENPARITY then Even_Parity else Odd_Parity)\<rparr>"

definition requested_frame :: "nat \<Rightarrow> 8 word \<Rightarrow> 8 word \<Rightarrow> char \<Rightarrow> frame" where
  "requested_frame baud data_bit stop_bit parity =
     \<lparr>frame_baud = baud,
      frame_bits = (if data_bit \<in> {5, 6, 7} then unat data_bit else 8),
      frame_stop = (if stop_bit = 1 then 1 else 2),
      frame_parity = (if parity = CHR ''N'' then No_Parity
        else if parity = CHR ''E'' then Even_Parity else Odd_Parity)\<rparr>"

text \<open>The mode a serial link needs: raw, receiver on, modem lines ignored, no software flow control.\<close>

definition raw_mode :: "termios \<Rightarrow> bool" where
  "raw_mode t \<longleftrightarrow> c_cflag t AND (CREAD OR CLOCAL) = CREAD OR CLOCAL \<and>
     c_lflag t AND (ICANON OR ECHO OR ECHOE OR ISIG) = 0 \<and>
     c_iflag t AND (IXON OR IXOFF OR IXANY) = 0 \<and> c_oflag t AND OPOST = 0 \<and>
     c_vmin t = 0 \<and> c_vtime t = 0"

definition posix_termios :: "int \<Rightarrow> 8 word \<Rightarrow> 8 word \<Rightarrow> char \<Rightarrow> termios" where
  "posix_termios baud data_bit stop_bit parity =
     uarts_tios data_bit stop_bit parity
       (termios_zero\<lparr>c_ispeed := speed_of_baud baud, c_ospeed := speed_of_baud baud\<rparr>)"

lemma frame_of_posix_termios:
  "frame_of_termios (posix_termios baud data_bit stop_bit parity) =
     requested_frame (case speed_of_baud baud of B n \<Rightarrow> n) data_bit stop_bit parity"
  by (cases "data_bit = 5"; cases "data_bit = 6"; cases "data_bit = 7"; cases "stop_bit = 1";
      cases "parity = CHR ''N''"; cases "parity = CHR ''E''")
    (simp_all add: frame_of_termios_def posix_termios_def uarts_tios_def requested_frame_def
      termios_zero_def Let_def termios_flags)

lemma posix_termios_raw:
  "raw_mode (posix_termios baud data_bit stop_bit parity) \<and>
   (c_iflag (posix_termios baud data_bit stop_bit parity) AND INPCK \<noteq> 0 \<longleftrightarrow> parity \<noteq> CHR ''N'')"
  by (cases "data_bit = 5"; cases "data_bit = 6"; cases "data_bit = 7"; cases "stop_bit = 1";
      cases "parity = CHR ''N''"; cases "parity = CHR ''E''")
    (simp_all add: raw_mode_def posix_termios_def uarts_tios_def
      termios_zero_def Let_def termios_flags)

lemma frame_of_win32_dcb:
  "frame_of_dcb (win32_dcb baud data_bit stop_bit parity d) =
     requested_frame (if baud \<in> set win32_bauds then nat baud else 9600) data_bit stop_bit parity"
  by (simp add: frame_of_dcb_def win32_dcb_def requested_frame_def Let_def dcb_consts)

section \<open>Properties\<close>

text \<open>
  the POSIX configuration encodes the requested frame: the rate of the table (9600 for a rate
  that is not in it), 5 to 7 data bits as asked and 8 otherwise, one stop bit or two, and the
  parity; and it puts the line in raw mode, with input parity checking exactly when there is parity.
\<close>
theorem posix_termios_frame:
  "frame_of_termios (posix_termios baud data_bit stop_bit parity) =
     requested_frame (if baud \<in> set posix_bauds then nat baud else 9600) data_bit stop_bit parity \<and>
   raw_mode (posix_termios baud data_bit stop_bit parity) \<and>
   (c_iflag (posix_termios baud data_bit stop_bit parity) AND INPCK \<noteq> 0 \<longleftrightarrow> parity \<noteq> CHR ''N'')"
  using posix_termios_raw by (simp add: frame_of_posix_termios speed_of_baud_def)

text \<open>
  the POSIX and the Windows branch of \<open>_uarts_connect\<close> set up the same frame, from any previous
  Windows configuration, for every rate that both tables or neither of them know.
\<close>
theorem platforms_agree:
  assumes "baud \<in> set posix_bauds \<longleftrightarrow> baud \<in> set win32_bauds"
  shows "frame_of_termios (posix_termios baud data_bit stop_bit parity) =
    frame_of_dcb (win32_dcb baud data_bit stop_bit parity old_dcb)"
  using assms by (simp add: frame_of_posix_termios frame_of_win32_dcb speed_of_baud_def)

theorem platforms_agree_witness:
  "frame_of_termios (posix_termios 115200 8 1 CHR ''E'') =
    frame_of_dcb (win32_dcb 115200 8 1 CHR ''E'' \<lparr>BaudRate = 0, ByteSize = 0, StopBits = 0,
      Parity = 0, fParity = False, fTXContinueOnXoff = False, fOutX = True, fInX = True,
      fBinary = False, fAbortOnError = True\<rparr>)"
  by (rule platforms_agree) (simp add: posix_bauds_def win32_bauds_def)

end
