(* ===== verification/Cora_Serial.thy ===== *)
theory Cora_Serial
  imports Line_Config Stdio
begin

text \<open>
  \<open>c_modules/huawei_lte/CoraSerial.c\<close> and \<open>CoraSerial.h\<close>: the serial layer of the LTE driver, as
  built for Linux (its Windows branch is in \<open>Line_Config\<close>; the RTS code is compiled out, since
  \<open>HAVE_DECL_TIOCM_RTS\<close> is not defined). The objects it allocates live in an explicit heap, so that
  sharing and lifetime are visible: reading a released block and releasing it again are faults.
  The kernel and \<open>malloc\<close> are the argument \<open>env\<close>, answers indexed by the number of calls so far.
  The debugging output is left out; \<open>ctx->debug\<close> is never set by this code.
\<close>

section \<open>State\<close>

type_synonym ptr = "nat option"  \<comment> \<open>\<open>None\<close> is \<open>NULL\<close>\<close>

record cora_serial_t =
  us_device :: ptr
  us_baud :: int
  us_data_bit :: "8 word"
  us_stop_bit :: "8 word"
  us_parity :: char
  us_old_tios :: "termios option"  \<comment> \<open>\<open>None\<close>: not filled in\<close>
  us_confirmation_to_ignore :: bool

text \<open>
  \<open>struct _modules\<close>. There is one backend, the table \<open>_module_backend\<close>; \<open>backend\<close> says whether the
  pointer to it has been set, and the calls through it are the \<open>uarts_\<close> functions.
\<close>

record module_t =
  sfd :: int  \<comment> \<open>the descriptor \<open>s\<close>\<close>
  debug :: bool
  marks :: int
  response_timeout :: "32 word \<times> 32 word"
  byte_timeout :: "32 word \<times> 32 word"
  backend :: bool
  backend_data :: ptr

datatype block = Module module_t | Serial cora_serial_t | Str string | Garbage

text \<open>What the serial layer asked of the kernel, in order.\<close>

datatype io_event =
    Ev_open string int
  | Ev_tcsetattr int "termios option"
  | Ev_close int
  | Ev_write int string
  | Ev_tcflush int
  | Ev_usleep nat
  | Ev_system string

datatype select_result = Sel_ready | Sel_timeout | Sel_EINTR | Sel_error

record serial_env =
  env_malloc :: "nat \<Rightarrow> bool"
  env_lsusb :: "nat \<Rightarrow> string option"       \<comment> \<open>output of the \<open>popen\<close>ed pipeline; \<open>None\<close>: \<open>NULL\<close>\<close>
  env_open :: "nat \<Rightarrow> string \<Rightarrow> int"
  env_tcgetattr :: "nat \<Rightarrow> termios option"
  env_cfsetspeed :: "nat \<Rightarrow> bool"
  env_tcsetattr :: "nat \<Rightarrow> bool"
  env_select :: "nat \<Rightarrow> select_result"
  env_read :: "nat \<Rightarrow> string option"        \<comment> \<open>\<open>None\<close>: \<open>read\<close> returns -1\<close>
  env_write :: "nat \<Rightarrow> string \<Rightarrow> int"
  env_tcflush :: "nat \<Rightarrow> int"

record serial_world = world +
  heap :: "nat \<Rightarrow> block option"
  next_addr :: nat
  errno :: int
  io_log :: "io_event list"

definition EINTR :: int where "EINTR = 4"
definition EINVAL :: int where "EINVAL = 22"
definition ETIMEDOUT :: int where "ETIMEDOUT = 110"

definition set_errno :: "int \<Rightarrow> 'a serial_world_scheme \<Rightarrow> 'a serial_world_scheme" where
  "set_errno e w = w\<lparr>errno := e\<rparr>"

definition tock :: "'a serial_world_scheme \<Rightarrow> 'a serial_world_scheme" where
  "tock w = w\<lparr>tick := Suc (tick w)\<rparr>"

definition emit :: "io_event \<Rightarrow> 'a serial_world_scheme \<Rightarrow> 'a serial_world_scheme" where
  "emit e w = w\<lparr>io_log := io_log w @ [e]\<rparr>"

section \<open>The heap\<close>

definition malloc ::
    "serial_env \<Rightarrow> 'a serial_world_scheme \<Rightarrow> ptr \<times> 'a serial_world_scheme" where
  "malloc env w =
     (if env_malloc env (tick w)
      then (Some (next_addr w), tock (w\<lparr>heap := (heap w)(next_addr w \<mapsto> Garbage),
              next_addr := Suc (next_addr w)\<rparr>))
      else (None, tock w))"

definition free :: "ptr \<Rightarrow> 'a serial_world_scheme \<Rightarrow> 'a serial_world_scheme run" where
  "free p w =
     (case p of
        None \<Rightarrow> Inr w
      | Some a \<Rightarrow> (if heap w a = None then Inl Double_Free else Inr (w\<lparr>heap := (heap w)(a := None)\<rparr>)))"

definition load :: "ptr \<Rightarrow> 'a serial_world_scheme \<Rightarrow> block run" where
  "load p w =
     (case p of
        None \<Rightarrow> Inl Null_Pointer
      | Some a \<Rightarrow> (case heap w a of None \<Rightarrow> Inl Use_After_Free | Some b \<Rightarrow> Inr b))"

definition load_module :: "ptr \<Rightarrow> 'a serial_world_scheme \<Rightarrow> module_t run" where
  "load_module p w =
     bind_run (load p w) (\<lambda>b. case b of Module m \<Rightarrow> Inr m | _ \<Rightarrow> Inl Use_After_Free)"

definition load_serial :: "ptr \<Rightarrow> 'a serial_world_scheme \<Rightarrow> cora_serial_t run" where
  "load_serial p w =
     bind_run (load p w) (\<lambda>b. case b of Serial u \<Rightarrow> Inr u | _ \<Rightarrow> Inl Use_After_Free)"

definition load_str :: "ptr \<Rightarrow> 'a serial_world_scheme \<Rightarrow> string run" where
  "load_str p w =
     bind_run (load p w) (\<lambda>b. case b of Str t \<Rightarrow> Inr t | _ \<Rightarrow> Inl Use_After_Free)"

definition store :: "ptr \<Rightarrow> block \<Rightarrow> 'a serial_world_scheme \<Rightarrow> 'a serial_world_scheme run" where
  "store p b w =
     (case p of
        None \<Rightarrow> Inl Null_Pointer
      | Some a \<Rightarrow> (if heap w a = None then Inl Use_After_Free
                   else Inr (w\<lparr>heap := (heap w)(a \<mapsto> b)\<rparr>)))"

section \<open>The backend\<close>

definition sys_close :: "int \<Rightarrow> 'a serial_world_scheme \<Rightarrow> 'a serial_world_scheme" where
  "sys_close fd w = emit (Ev_close fd) w"

text \<open>Close the descriptor and forget it: the error exits of \<open>_uarts_connect\<close>.\<close>

definition connect_fail ::
    "ptr \<Rightarrow> 'a serial_world_scheme \<Rightarrow> (int \<times> 'a serial_world_scheme) run" where
  "connect_fail ctx w =
     bind_run (load_module ctx w) (\<lambda>m.
     bind_run (store ctx (Module (m\<lparr>sfd := -1\<rparr>)) (sys_close (sfd m) w)) (\<lambda>w.
     Inr (-1, w)))"

definition uarts_connect ::
    "serial_env \<Rightarrow> ptr \<Rightarrow> 'a serial_world_scheme \<Rightarrow> (int \<times> 'a serial_world_scheme) run" where
  "uarts_connect env ctx w =
     bind_run (load_module ctx w) (\<lambda>m.
     bind_run (load_serial (backend_data m) w) (\<lambda>uart.
     bind_run (load_str (us_device uart) w) (\<lambda>dev.
     let fd = env_open env (tick w) dev; w = emit (Ev_open dev fd) (tock w) in
     bind_run (store ctx (Module (m\<lparr>sfd := fd\<rparr>)) w) (\<lambda>w.
     if fd = -1 then Inr (-1, w)
     else
     let old = env_tcgetattr env (tick w); w = tock w;
         uart = (case old of None \<Rightarrow> uart | Some t \<Rightarrow> uart\<lparr>us_old_tios := Some t\<rparr>) in
     bind_run (store (backend_data m) (Serial uart) w) (\<lambda>w.
     let speed = speed_of_baud (us_baud uart); tios = termios_zero;
         ok1 = env_cfsetspeed env (tick w); w = tock w in
     if \<not> ok1 then connect_fail ctx w
     else
     let tios = tios\<lparr>c_ispeed := speed\<rparr>; ok2 = env_cfsetspeed env (tick w); w = tock w in
     if \<not> ok2 then connect_fail ctx w
     else
     let tios = uarts_tios (us_data_bit uart) (us_stop_bit uart) (us_parity uart) (tios\<lparr>c_ospeed := speed\<rparr>);
         ok3 = env_tcsetattr env (tick w); w = emit (Ev_tcsetattr fd (Some tios)) (tock w) in
     if \<not> ok3 then connect_fail ctx w
     else Inr (0, w))))))"

definition uarts_free :: "ptr \<Rightarrow> 'a serial_world_scheme \<Rightarrow> 'a serial_world_scheme run" where
  "uarts_free ctx w =
     bind_run (load_module ctx w) (\<lambda>m.
     bind_run (load_serial (backend_data m) w) (\<lambda>u.
     bind_run (free (us_device u) w) (\<lambda>w.
     bind_run (free (backend_data m) w) (\<lambda>w.
     free ctx w))))"

definition uarts_close :: "ptr \<Rightarrow> 'a serial_world_scheme \<Rightarrow> 'a serial_world_scheme run" where
  "uarts_close ctx w =
     bind_run (load_module ctx w) (\<lambda>m.
     if sfd m \<noteq> -1
     then bind_run (load_serial (backend_data m) w) (\<lambda>u.
          let w = emit (Ev_tcsetattr (sfd m) (us_old_tios u)) (tock w); w = sys_close (sfd m) w in
          store ctx (Module (m\<lparr>sfd := -1\<rparr>)) w)
     else Inr w)"

definition uarts_send ::
    "serial_env \<Rightarrow> ptr \<Rightarrow> string \<Rightarrow> nat \<Rightarrow> 'a serial_world_scheme \<Rightarrow> (int \<times> 'a serial_world_scheme) run"
    where
  "uarts_send env ctx req req_length w =
     bind_run (load_module ctx w) (\<lambda>m.
     if length req < req_length then Inl Out_Of_Bounds_Read
     else Inr (env_write env (tick w) (take req_length req),
               emit (Ev_write (sfd m) (take req_length req)) (tock w)))"

text \<open>
  \<open>read(ctx->s, rsp, rsp_length)\<close> stores at most \<open>rsp_length\<close> bytes at the start of the buffer.
\<close>

definition uarts_recv ::
    "serial_env \<Rightarrow> ptr \<Rightarrow> string \<Rightarrow> nat \<Rightarrow> 'a serial_world_scheme \<Rightarrow>
     (int \<times> string \<times> 'a serial_world_scheme) run" where
  "uarts_recv env ctx rsp rsp_length w =
     bind_run (load_module ctx w) (\<lambda>m.
     case env_read env (tick w) of
       None \<Rightarrow> Inr (-1, rsp, tock w)
     | Some d \<Rightarrow>
         let d = take rsp_length d in
         if length rsp < length d then Inl Buffer_Overflow
         else Inr (int (length d), d @ drop (length d) rsp, tock w))"

text \<open>
  The loop over \<open>select\<close>: an interrupted call is repeated, so the loop ends only if some call is not
  interrupted. \<open>None\<close> is a run that never returns.
\<close>

partial_function (option) select_loop ::
    "serial_env \<Rightarrow> 'a serial_world_scheme \<Rightarrow> (int \<times> 'a serial_world_scheme) option" where
  "select_loop env w =
     (case env_select env (tick w) of
        Sel_EINTR \<Rightarrow> select_loop env (tock w)
      | Sel_error \<Rightarrow> Some (-1, tock w)
      | Sel_timeout \<Rightarrow> Some (-1, set_errno ETIMEDOUT (tock w))
      | Sel_ready \<Rightarrow> Some (1, tock w))"

text \<open>\<open>FD_SET(s, rset)\<close> writes inside the set only for a descriptor below \<open>FD_SETSIZE\<close>.\<close>

definition FD_SET_ok :: "int \<Rightarrow> bool" where
  "FD_SET_ok fd \<longleftrightarrow> 0 \<le> fd \<and> fd < 1024"

definition uarts_select ::
    "serial_env \<Rightarrow> ptr \<Rightarrow> 'a serial_world_scheme \<Rightarrow> (int \<times> 'a serial_world_scheme) run" where
  "uarts_select env ctx w =
     bind_run (load_module ctx w) (\<lambda>m.
     case select_loop env w of None \<Rightarrow> Inl No_Return | Some r \<Rightarrow> Inr r)"

definition uarts_flush ::
    "serial_env \<Rightarrow> ptr \<Rightarrow> 'a serial_world_scheme \<Rightarrow> (int \<times> 'a serial_world_scheme) run" where
  "uarts_flush env ctx w =
     bind_run (load_module ctx w) (\<lambda>m.
     Inr (env_tcflush env (tick w), emit (Ev_tcflush (sfd m)) (tock w)))"

section \<open>The interface of \<open>CoraSerial.h\<close>\<close>

definition module_init_common :: "module_t \<Rightarrow> module_t" where
  "module_init_common m = m\<lparr>sfd := -1, debug := False, marks := 315692481,
     response_timeout := (0, 300000), byte_timeout := (0, 300000)\<rparr>"

definition module_uninit :: module_t where
  "module_uninit = \<lparr>sfd = 0, debug = False, marks = 0, response_timeout = (0, 0),
     byte_timeout = (0, 0), backend = False, backend_data = None\<rparr>"

definition serial_uninit :: cora_serial_t where
  "serial_uninit = \<lparr>us_device = None, us_baud = 0, us_data_bit = 0, us_stop_bit = 0,
     us_parity = NUL, us_old_tios = None, us_confirmation_to_ignore = False\<rparr>"

text \<open>A call through \<open>ctx->backend\<close>: the pointer must have been set.\<close>

definition via_backend ::
    "ptr \<Rightarrow> (ptr \<Rightarrow> 'a serial_world_scheme \<Rightarrow> 'r run) \<Rightarrow> 'a serial_world_scheme \<Rightarrow> 'r run" where
  "via_backend ctx f w =
     bind_run (load_module ctx w) (\<lambda>m. if backend m then f ctx w else Inl Null_Pointer)"

definition module_free :: "ptr \<Rightarrow> 'a serial_world_scheme \<Rightarrow> 'a serial_world_scheme run" where
  "module_free ctx w = (if ctx = None then Inr w else via_backend ctx uarts_free w)"

definition module_close :: "ptr \<Rightarrow> 'a serial_world_scheme \<Rightarrow> 'a serial_world_scheme run" where
  "module_close ctx w = (if ctx = None then Inr w else via_backend ctx uarts_close w)"

definition module_set_byte_timeout ::
    "ptr \<Rightarrow> 32 word \<Rightarrow> 32 word \<Rightarrow> 'a serial_world_scheme \<Rightarrow> (int \<times> 'a serial_world_scheme) run" where
  "module_set_byte_timeout ctx to_sec to_usec w =
     (if ctx = None \<or> unat to_usec > 999999 then Inr (-1, set_errno EINVAL w)
      else bind_run (load_module ctx w) (\<lambda>m.
           bind_run (store ctx (Module (m\<lparr>byte_timeout := (to_sec, to_usec)\<rparr>)) w) (\<lambda>w.
           Inr (0, w))))"

text \<open>The two output parameters are the second component, \<open>None\<close> where they are not written.\<close>

definition module_get_byte_timeout ::
    "ptr \<Rightarrow> 'a serial_world_scheme \<Rightarrow>
     (int \<times> (32 word \<times> 32 word) option \<times> 'a serial_world_scheme) run" where
  "module_get_byte_timeout ctx w =
     (if ctx = None then Inr (-1, None, set_errno EINVAL w)
      else bind_run (load_module ctx w) (\<lambda>m. Inr (0, Some (byte_timeout m), w)))"

text \<open>
  \<open>fgets(buffer, n, fp)\<close> on the output of the pipeline: at most \<open>n - 1\<close> characters, up to and with
  the first newline.
\<close>

fun fgets_text :: "nat \<Rightarrow> string \<Rightarrow> string" where
  "fgets_text 0 out = []"
| "fgets_text (Suc n) [] = []"
| "fgets_text (Suc n) (c # cs) = (if c = CHR 0x0A then [c] else c # fgets_text n cs)"

text \<open>
  The part of \<open>module_new\<close> after the adapter has been recognised: allocating the backend data and
  filling it in. An invalid parity is noticed last, and gives everything back.
\<close>

definition module_new_serial ::
    "serial_env \<Rightarrow> ptr \<Rightarrow> module_t \<Rightarrow> string \<Rightarrow> int \<Rightarrow> char \<Rightarrow> int \<Rightarrow> int \<Rightarrow> 'a serial_world_scheme \<Rightarrow>
     (ptr \<times> 'a serial_world_scheme) run" where
  "module_new_serial env ctx m device baud parity data_bit stop_bit w =
     (let (data, w) = malloc env w in
      bind_run (store ctx (Module (m\<lparr>backend := True, backend_data := data\<rparr>)) w) (\<lambda>w.
      bind_run (store data (Serial serial_uninit) w) (\<lambda>w.
      let (dev, w) = malloc env w; u = serial_uninit\<lparr>us_device := dev\<rparr> in
      bind_run (store data (Serial u) w) (\<lambda>w.
      bind_run (store dev (Str device) w) (\<lambda>w.
      let u = u\<lparr>us_baud := baud\<rparr> in
      if parity = CHR ''N'' \<or> parity = CHR ''E'' \<or> parity = CHR ''O''
      then bind_run (store data (Serial (u\<lparr>us_parity := parity, us_data_bit := word_of_int data_bit,
             us_stop_bit := word_of_int stop_bit, us_confirmation_to_ignore := False\<rparr>)) w) (\<lambda>w.
           Inr (ctx, w))
      else bind_run (store data (Serial u) w) (\<lambda>w.
           bind_run (module_free ctx w) (\<lambda>w.
           Inr (None, set_errno EINVAL w))))))))"

definition module_new ::
    "serial_env \<Rightarrow> string option \<Rightarrow> int \<Rightarrow> char \<Rightarrow> int \<Rightarrow> int \<Rightarrow> 'a serial_world_scheme \<Rightarrow>
     (ptr \<times> 'a serial_world_scheme) run" where
  "module_new env device baud parity data_bit stop_bit w =
     (if device = None \<or> device = Some [] then Inr (None, set_errno EINVAL w)
      else if baud = 0 then Inr (None, set_errno EINVAL w)
      else
        (case env_lsusb env (tick w) of
           None \<Rightarrow> Inl Null_Pointer
         | Some out \<Rightarrow>
             (let buffer = fgets_text 9 out;
                  (ctx, w) = malloc env (tock w);
                  m = module_init_common module_uninit
              in bind_run (store ctx (Module m) w) (\<lambda>w.
                 if int (strtoul16 buffer) \<noteq> marks m then Inr (None, w)
                 else module_new_serial env ctx m (the device) baud parity data_bit stop_bit w))))"

definition module_connect ::
    "serial_env \<Rightarrow> ptr \<Rightarrow> 'a serial_world_scheme \<Rightarrow> (int \<times> 'a serial_world_scheme) run" where
  "module_connect env ctx w =
     (if ctx = None then Inr (-1, set_errno EINVAL w)
      else via_backend ctx (uarts_connect env) w)"

text \<open>\<open>rsp\<close> is the caller's buffer; the result carries its new contents.\<close>

definition module_recv ::
    "serial_env \<Rightarrow> ptr \<Rightarrow> string \<Rightarrow> nat \<Rightarrow> 'a serial_world_scheme \<Rightarrow>
     (int \<times> string \<times> 'a serial_world_scheme) run" where
  "module_recv env ctx rsp rsp_length w =
     (if ctx = None then Inr (-1, rsp, set_errno EINVAL w)
      else
      bind_run (load_module ctx w) (\<lambda>m.
      if \<not> FD_SET_ok (sfd m) then Inl Buffer_Overflow
      else
      bind_run (via_backend ctx (uarts_select env) w) (\<lambda>(rc, w).
      if rc = -1 then Inr (-1, rsp, w)
      else via_backend ctx (\<lambda>ctx w. uarts_recv env ctx rsp rsp_length w) w)))"

definition module_send ::
    "serial_env \<Rightarrow> ptr \<Rightarrow> string \<Rightarrow> nat \<Rightarrow> 'a serial_world_scheme \<Rightarrow>
     (int \<times> 'a serial_world_scheme) run" where
  "module_send env ctx req req_length w =
     (if ctx = None then Inr (-1, set_errno EINVAL w)
      else via_backend ctx (\<lambda>ctx w. uarts_send env ctx req req_length w) w)"

section \<open>Live contexts\<close>

text \<open>
  The object graph of a context: the module block points to its serial block, which points to the
  device name.
\<close>

definition ctx_graph ::
    "nat \<Rightarrow> module_t \<Rightarrow> nat \<Rightarrow> cora_serial_t \<Rightarrow> nat \<Rightarrow> string \<Rightarrow> (nat \<Rightarrow> block option) \<Rightarrow> bool" where
  "ctx_graph a m b u d t h \<longleftrightarrow>
     h a = Some (Module m) \<and> backend m \<and> backend_data m = Some b \<and>
     h b = Some (Serial u) \<and> us_device u = Some d \<and> h d = Some (Str t)"

definition live :: "ptr \<Rightarrow> 'a serial_world_scheme \<Rightarrow> bool" where
  "live ctx w \<longleftrightarrow> (\<exists>a m b u d t. ctx = Some a \<and> ctx_graph a m b u d t (heap w))"

definition wf_heap :: "'a serial_world_scheme \<Rightarrow> bool" where
  "wf_heap w \<longleftrightarrow> (\<forall>a \<ge> next_addr w. heap w a = None)"

lemma ctx_graph_distinct:
  "ctx_graph a m b u d t h \<Longrightarrow> a \<noteq> b \<and> a \<noteq> d \<and> b \<noteq> d"
  by (auto simp: ctx_graph_def)

lemmas heap_defs = load_module_def load_serial_def load_str_def load_def store_def free_def
  malloc_def tock_def emit_def sys_close_def set_errno_def

lemma tock_simps [simp]:
  "heap (tock w) = heap w" "next_addr (tock w) = next_addr w" "io_log (tock w) = io_log w"
  "tick (tock w) = Suc (tick w)" "pyerr (tock w) = pyerr w"
  "serial_world.more (tock w) = serial_world.more w" "errno (tock w) = errno w"
  by (simp_all add: tock_def)

lemma emit_simps [simp]:
  "heap (emit e w) = heap w" "next_addr (emit e w) = next_addr w"
  "io_log (emit e w) = io_log w @ [e]" "tick (emit e w) = tick w" "pyerr (emit e w) = pyerr w"
  "serial_world.more (emit e w) = serial_world.more w"
  by (simp_all add: emit_def)

lemma set_errno_simps [simp]:
  "heap (set_errno e w) = heap w" "next_addr (set_errno e w) = next_addr w"
  "io_log (set_errno e w) = io_log w" "tick (set_errno e w) = tick w"
  "pyerr (set_errno e w) = pyerr w"
  "serial_world.more (set_errno e w) = serial_world.more w" "errno (set_errno e w) = e"
  by (simp_all add: set_errno_def)

lemma graph_loads:
  assumes "ctx_graph a m b u d t (heap w)"
  shows "load_module (Some a) w = Inr m" and "load_serial (Some b) w = Inr u"
    and "load_str (Some d) w = Inr t"
  using assms by (simp_all add: ctx_graph_def heap_defs)

lemma store_live:
  assumes "heap w a \<noteq> None"
  shows "store (Some a) x w = Inr (w\<lparr>heap := (heap w)(a \<mapsto> x)\<rparr>)"
  using assms by (simp add: store_def)

lemma graph_update_module:
  assumes "ctx_graph a m b u d t h" and "backend m' = backend m" and "backend_data m' = backend_data m"
  shows "ctx_graph a m' b u d t (h(a \<mapsto> Module m'))"
  using assms by (auto simp: ctx_graph_def)

lemma graph_update_serial:
  assumes "ctx_graph a m b u d t h" and "us_device u' = us_device u"
  shows "ctx_graph a m b u' d t (h(b \<mapsto> Serial u'))"
  using assms by (auto simp: ctx_graph_def)

section \<open>Construction and release\<close>

definition huawei_found :: "serial_env \<Rightarrow> nat \<Rightarrow> bool" where
  "huawei_found env k \<longleftrightarrow>
     (\<exists>out. env_lsusb env k = Some out \<and> strtoul16 (fgets_text 9 out) = 315692481)"

definition valid_parity :: "char \<Rightarrow> bool" where
  "valid_parity p \<longleftrightarrow> p \<in> set ''NEO''"

definition new_module :: "ptr \<Rightarrow> module_t" where
  "new_module d = (module_init_common module_uninit)\<lparr>backend := True, backend_data := d\<rparr>"

definition new_serial :: "ptr \<Rightarrow> int \<Rightarrow> char \<Rightarrow> int \<Rightarrow> int \<Rightarrow> cora_serial_t" where
  "new_serial d baud parity data_bit stop_bit =
     \<lparr>us_device = d, us_baud = baud, us_data_bit = word_of_int data_bit,
      us_stop_bit = word_of_int stop_bit, us_parity = parity, us_old_tios = None,
      us_confirmation_to_ignore = False\<rparr>"

text \<open>The heap with a fresh context at \<open>n\<close>.\<close>

definition with_ctx ::
    "nat \<Rightarrow> string \<Rightarrow> int \<Rightarrow> char \<Rightarrow> int \<Rightarrow> int \<Rightarrow> (nat \<Rightarrow> block option) \<Rightarrow> (nat \<Rightarrow> block option)" where
  "with_ctx n device baud parity data_bit stop_bit h =
     h(n \<mapsto> Module (new_module (Some (n + 1))),
       n + 1 \<mapsto> Serial (new_serial (Some (n + 2)) baud parity data_bit stop_bit),
       n + 2 \<mapsto> Str device)"

lemma wf_heapD:
  assumes "wf_heap w"
  shows "heap w (next_addr w) = None" "heap w (Suc (next_addr w)) = None"
    "heap w (Suc (Suc (next_addr w))) = None" "heap w (next_addr w + k) = None"
  using assms by (simp_all add: wf_heap_def)

lemma malloc_ok:
  "\<forall>k. env_malloc env k \<Longrightarrow>
   malloc env w = (Some (next_addr w),
     w\<lparr>heap := (heap w)(next_addr w \<mapsto> Garbage), next_addr := Suc (next_addr w), tick := Suc (tick w)\<rparr>)"
  by (simp add: malloc_def tock_def)

lemma module_new_serial_good:
  assumes "heap w n \<noteq> None" "next_addr w = n + 1" "\<forall>k. env_malloc env k" "valid_parity parity"
  shows "module_new_serial env (Some n) (module_init_common module_uninit) t baud parity db sb w =
    Inr (Some n, w\<lparr>heap := with_ctx n t baud parity db sb (heap w), next_addr := n + 3,
      tick := tick w + 2\<rparr>)"
  using assms
  by (auto simp: module_new_serial_def malloc_ok store_def with_ctx_def new_module_def
      new_serial_def serial_uninit_def valid_parity_def fun_upd_twist)

lemma module_new_serial_bad:
  assumes "heap w n \<noteq> None" "next_addr w = n + 1" "\<forall>k. env_malloc env k" "\<not> valid_parity parity"
    "heap w (n + 1) = None" "heap w (n + 2) = None"
  shows "module_new_serial env (Some n) (module_init_common module_uninit) t baud parity db sb w =
    Inr (None, w\<lparr>heap := (heap w)(n := None), next_addr := n + 3, tick := tick w + 2, errno := EINVAL\<rparr>)"
proof -
  have p: "parity \<noteq> CHR ''N''" "parity \<noteq> CHR ''E''" "parity \<noteq> CHR ''O''"
    using assms(4) by (auto simp: valid_parity_def)
  have h: "(heap w)(Suc n := None) = heap w" "(heap w)(Suc (Suc n) := None) = heap w"
    using assms(5,6) by (auto simp: fun_upd_idem)
  show ?thesis
    using assms(1-3) p h assms(5,6)
    by (auto simp: module_new_serial_def malloc_ok store_def load_def load_module_def load_serial_def
        free_def module_free_def via_backend_def uarts_free_def serial_uninit_def set_errno_def
        fun_upd_twist[of "Suc n"] fun_eq_iff)
qed

text \<open>
  What \<open>module_new\<close> does with its arguments once the adapter list could be read and the allocations
  succeed: a complete context in three fresh blocks, or \<open>NULL\<close>. A bad parity gives everything back; an
  adapter that is not the expected one does not (the block of the context stays allocated).
\<close>

definition new_result ::
    "serial_env \<Rightarrow> string \<Rightarrow> int \<Rightarrow> char \<Rightarrow> int \<Rightarrow> int \<Rightarrow> 'a serial_world_scheme \<Rightarrow>
     ptr \<times> (nat \<Rightarrow> block option)" where
  "new_result env t baud parity db sb w =
     (if t = [] \<or> baud = 0 then (None, heap w)
      else if \<not> huawei_found env (tick w)
      then (None, (heap w)(next_addr w \<mapsto> Module (module_init_common module_uninit)))
      else if \<not> valid_parity parity then (None, heap w)
      else (Some (next_addr w), with_ctx (next_addr w) t baud parity db sb (heap w)))"

lemma module_init_common_marks [simp]: "marks (module_init_common m) = 315692481"
  by (simp add: module_init_common_def)

lemma module_new_runs:
  assumes "wf_heap w" and "\<forall>k. env_malloc env k" and "env_lsusb env (tick w) \<noteq> None"
  shows "\<exists>w'. module_new env (Some t) baud parity db sb w =
      Inr (fst (new_result env t baud parity db sb w), w') \<and>
      heap w' = snd (new_result env t baud parity db sb w) \<and> wf_heap w' \<and>
      next_addr w \<le> next_addr w' \<and> io_log w' = io_log w \<and> pyerr w' = pyerr w \<and>
      serial_world.more w' = serial_world.more w \<and>
      (fst (new_result env t baud parity db sb w) \<noteq> None \<longrightarrow> tick w' = tick w + 4)"
proof (cases "t = [] \<or> baud = 0")
  case True
  then show ?thesis
    using assms(1) by (auto simp: module_new_def new_result_def set_errno_def wf_heap_def)
next
  case False
  let ?n = "next_addr w" and ?m = "module_init_common module_uninit"
  obtain out where out: "env_lsusb env (tick w) = Some out"
    using assms(3) by auto
  define w1 where "w1 = w\<lparr>next_addr := Suc ?n, tick := Suc (Suc (tick w)),
    heap := (heap w)(?n \<mapsto> Module ?m)\<rparr>"
  have run: "module_new env (Some t) baud parity db sb w =
      (if int (strtoul16 (fgets_text 9 out)) \<noteq> 315692481 then Inr (None, w1)
       else module_new_serial env (Some ?n) ?m t baud parity db sb w1)"
    using False out assms(2) by (simp add: module_new_def malloc_ok store_def w1_def tock_def Let_def)
  have id: "huawei_found env (tick w) \<longleftrightarrow> int (strtoul16 (fgets_text 9 out)) = 315692481"
    using out by (auto simp: huawei_found_def)
  have pre: "heap w1 ?n \<noteq> None" "next_addr w1 = ?n + 1" "heap w1 (?n + 1) = None" "heap w1 (?n + 2) = None"
    using wf_heapD [OF assms(1)] by (simp_all add: w1_def)
  have hn: "heap w ?n = None" using wf_heapD [OF assms(1)] by simp
  have wf1: "wf_heap w1"
    using assms(1) by (auto simp: wf_heap_def w1_def)
  consider "\<not> huawei_found env (tick w)" | "huawei_found env (tick w)" "valid_parity parity"
    | "huawei_found env (tick w)" "\<not> valid_parity parity" by blast
  then show ?thesis
  proof cases
    case 1
    then show ?thesis
      using run id False wf1 by (simp add: new_result_def w1_def)
  next
    case 2
    have up: "with_ctx ?n t baud parity db sb (heap w1) = with_ctx ?n t baud parity db sb (heap w)"
      by (auto simp: with_ctx_def w1_def)
    show ?thesis
      using run id False 2 module_new_serial_good [OF pre(1,2) assms(2) 2(2)] assms(1)
      by (auto simp: new_result_def up wf_heap_def) (auto simp: w1_def with_ctx_def)
  next
    case 3
    have up: "(heap w1)(?n := None) = heap w" using hn by (auto simp: w1_def)
    show ?thesis
      using run id False 3 module_new_serial_bad [OF pre(1,2) assms(2) 3(2) pre(3,4)] assms(1) up
      by (auto simp: new_result_def wf_heap_def) (auto simp: w1_def)
  qed
qed

lemma with_ctx_graph:
  "ctx_graph n (new_module (Some (n + 1))) (n + 1) (new_serial (Some (n + 2)) baud parity db sb)
     (n + 2) t (with_ctx n t baud parity db sb h)"
  by (simp add: ctx_graph_def with_ctx_def new_module_def new_serial_def)

lemma module_free_graph:
  assumes "ctx_graph a m b u d t (heap w)"
  shows "module_free (Some a) w = Inr (w\<lparr>heap := (heap w)(d := None, b := None, a := None)\<rparr>)"
  using assms ctx_graph_distinct [OF assms]
  by (simp add: module_free_def via_backend_def uarts_free_def ctx_graph_def load_module_def
      load_serial_def load_def free_def)

lemma module_dead:
  assumes "heap w a = None"
  shows "load_module (Some a) w = Inl Use_After_Free"
  using assms by (simp add: load_module_def load_def)

text \<open>
  \<open>module_new\<close> (with a device name, memory and an answer of \<open>lsusb\<close>): no branch of it faults, and
  the context it returns and the heap it leaves are exactly those of \<open>new_result\<close>. A rejected parity
  leaves the heap as it was; an adapter with another id leaves one block allocated.
\<close>

theorem module_new_outcome:
  assumes "wf_heap w" and "\<forall>k. env_malloc env k" and "env_lsusb env (tick w) \<noteq> None"
  shows "\<exists>w'. module_new env (Some t) baud parity db sb w =
      Inr (fst (new_result env t baud parity db sb w), w') \<and>
      heap w' = snd (new_result env t baud parity db sb w) \<and> wf_heap w' \<and>
      (dom (heap w') = dom (heap w) \<union> {next_addr w} \<longleftrightarrow>
         t \<noteq> [] \<and> baud \<noteq> 0 \<and> \<not> huawei_found env (tick w))"
proof -
  have fresh: "heap w (next_addr w) = None" "heap w (Suc (next_addr w)) = None"
    using wf_heapD [OF assms(1)] by simp_all
  have ne: "dom (heap w) \<noteq> insert (next_addr w) (dom (heap w))"
    using fresh by blast
  have ne3: "dom (with_ctx (next_addr w) t baud parity db sb (heap w)) \<noteq> insert (next_addr w) (dom (heap w))"
  proof
    assume "dom (with_ctx (next_addr w) t baud parity db sb (heap w)) = insert (next_addr w) (dom (heap w))"
    moreover have "Suc (next_addr w) \<in> dom (with_ctx (next_addr w) t baud parity db sb (heap w))"
      by (simp add: with_ctx_def)
    ultimately show False using fresh(2) by (metis domIff insertE n_not_Suc_n)
  qed
  have "dom (snd (new_result env t baud parity db sb w)) = dom (heap w) \<union> {next_addr w} \<longleftrightarrow>
         t \<noteq> [] \<and> baud \<noteq> 0 \<and> \<not> huawei_found env (tick w)"
    using ne ne3 by (simp add: new_result_def)
  then show ?thesis
    using module_new_runs [OF assms, of t baud parity db sb] by (elim exE conjE) simp
qed

definition demo_env :: serial_env where
  "demo_env = \<lparr>env_malloc = (\<lambda>_. True),
     env_lsusb = (\<lambda>_. Some ''12d115c1''), env_open = (\<lambda>_ _. 3),
     env_tcgetattr = (\<lambda>_. Some termios_zero), env_cfsetspeed = (\<lambda>_. True),
     env_tcsetattr = (\<lambda>_. True), env_select = (\<lambda>k. if k < 3 then Sel_EINTR else Sel_ready),
     env_read = (\<lambda>_. Some ''OK''), env_write = (\<lambda>_ t. int (length t)), env_tcflush = (\<lambda>_. 0)\<rparr>"

definition demo_world :: serial_world where
  "demo_world = \<lparr>pyerr = None, tick = 0, dev_log = [], streams = (\<lambda>_. None),
     next_stream = 0, open_dirs = 0, heap = (\<lambda>_. None),
     next_addr = 0, errno = 0, io_log = []\<rparr>"

lemma huawei_id: "strtoul16 ''12d115c1'' = 315692481"
  by (simp add: strtoul16_def is_space_def hex_val_def)

lemma demo_lsusb: "fgets_text 9 ''12d115c1'' = ''12d115c1''"
  by (simp add: eval_nat_numeral)

lemma demo_facts:
  "wf_heap demo_world" "\<forall>k. env_malloc demo_env k" "env_lsusb demo_env k = Some ''12d115c1''"
  "heap demo_world = (\<lambda>_. None)" "next_addr demo_world = 0" "tick demo_world = 0"
  "io_log demo_world = []"
  by (simp_all add: demo_env_def demo_world_def wf_heap_def)

lemma demo_huawei: "huawei_found demo_env k"
  by (simp add: huawei_found_def demo_facts demo_lsusb huawei_id)

text \<open>
  Whatever context \<open>module_new\<close> returns, \<open>module_free\<close> releases it without a fault and the heap is
  then the one before the construction: each of the three blocks is given back exactly once. A second
  \<open>module_free\<close> of the same pointer is a use of released memory.
\<close>

theorem module_new_free:
  assumes "wf_heap w" and "\<forall>k. env_malloc env k" and "env_lsusb env (tick w) \<noteq> None"
    and "module_new env (Some t) baud parity db sb w = Inr (ctx, w1)" and "ctx \<noteq> None"
  shows "\<exists>w2. module_free ctx w1 = Inr w2 \<and> heap w2 = heap w \<and>
           module_free ctx w2 = Inl Use_After_Free"
proof -
  let ?n = "next_addr w"
  have r: "ctx = fst (new_result env t baud parity db sb w)"
    "heap w1 = snd (new_result env t baud parity db sb w)"
    using module_new_runs [OF assms(1-3), of t baud parity db sb] assms(4) by auto
  have ctx: "ctx = Some ?n" and h1: "heap w1 = with_ctx ?n t baud parity db sb (heap w)"
    using r assms(5) by (simp_all add: new_result_def split: if_splits)
  let ?w2 = "w1\<lparr>heap := (heap w1)(?n + 2 := None, ?n + 1 := None, ?n := None)\<rparr>"
  have run: "module_free ctx w1 = Inr ?w2"
    unfolding ctx by (rule module_free_graph) (unfold h1, rule with_ctx_graph)
  have undone: "heap ?w2 = heap w"
    using wf_heapD [OF assms(1)] by (auto simp: h1 with_ctx_def)
  have dead: "heap ?w2 ?n = None"
    by simp
  have "module_free ctx ?w2 = Inl Use_After_Free"
    unfolding ctx module_free_def via_backend_def module_dead [OF dead] by simp
  then show ?thesis
    using run undone by blast
qed

lemma demo_new:
  "\<exists>w1. module_new demo_env (Some ''ttyUSB0'') 9600 CHR ''N'' 8 1 demo_world = Inr (Some 0, w1) \<and>
     heap w1 = with_ctx 0 ''ttyUSB0'' 9600 CHR ''N'' 8 1 (\<lambda>_. None) \<and> io_log w1 = []"
  using module_new_runs [of demo_world demo_env "''ttyUSB0''" 9600 "CHR ''N''" 8 1]
  by (simp add: demo_facts demo_huawei new_result_def valid_parity_def) blast

theorem module_new_outcome_witness:
  "\<exists>w'. module_new demo_env (Some ''ttyUSB0'') 9600 CHR ''X'' 8 1 demo_world = Inr (None, w') \<and>
     heap w' = (\<lambda>_. None)"
  using module_new_outcome [OF demo_facts(1,2), of "''ttyUSB0''" 9600 "CHR ''X''" 8 1]
  by (simp add: demo_facts demo_huawei new_result_def valid_parity_def) blast

theorem module_new_free_witness:
  "\<exists>w1 w2. module_new demo_env (Some ''ttyUSB0'') 9600 CHR ''N'' 8 1 demo_world = Inr (Some 0, w1) \<and>
     module_free (Some 0) w1 = Inr w2 \<and> heap w2 = (\<lambda>_. None)"
proof -
  obtain w1 where w1: "module_new demo_env (Some ''ttyUSB0'') 9600 CHR ''N'' 8 1 demo_world = Inr (Some 0, w1)"
    using demo_new by blast
  then show ?thesis
    using module_new_free [OF demo_facts(1,2) _ w1] by (auto simp: demo_facts)
qed

section \<open>Connecting and closing\<close>

text \<open>The specification of a connection: which calls must succeed, and the two outcomes.\<close>

definition connect_ok :: "serial_env \<Rightarrow> string \<Rightarrow> nat \<Rightarrow> bool" where
  "connect_ok env t k \<longleftrightarrow>
     env_open env k t \<noteq> -1 \<and> env_cfsetspeed env (k + 2) \<and> env_cfsetspeed env (k + 3) \<and>
     env_tcsetattr env (k + 4)"

definition saved_line :: "serial_env \<Rightarrow> nat \<Rightarrow> cora_serial_t \<Rightarrow> cora_serial_t" where
  "saved_line env k u =
     (case env_tcgetattr env (k + 1) of None \<Rightarrow> u | Some t \<Rightarrow> u\<lparr>us_old_tios := Some t\<rparr>)"

definition line_termios :: "cora_serial_t \<Rightarrow> termios" where
  "line_termios u = posix_termios (us_baud u) (us_data_bit u) (us_stop_bit u) (us_parity u)"

lemma saved_line_simps [simp]:
  "us_device (saved_line env k u) = us_device u" "us_baud (saved_line env k u) = us_baud u"
  "us_data_bit (saved_line env k u) = us_data_bit u" "us_stop_bit (saved_line env k u) = us_stop_bit u"
  "us_parity (saved_line env k u) = us_parity u" "line_termios (saved_line env k u) = line_termios u"
  by (simp_all add: saved_line_def line_termios_def split: option.splits)

text \<open>The events of a connection attempt: on every failure after \<open>open\<close> the descriptor is closed.\<close>

definition connect_log :: "serial_env \<Rightarrow> string \<Rightarrow> cora_serial_t \<Rightarrow> nat \<Rightarrow> io_event list" where
  "connect_log env t u k =
     (let fd = env_open env k t in
      Ev_open t fd #
      (if fd = -1 then []
       else if \<not> env_cfsetspeed env (k + 2) \<or> \<not> env_cfsetspeed env (k + 3) then [Ev_close fd]
       else Ev_tcsetattr fd (Some (line_termios u)) #
         (if env_tcsetattr env (k + 4) then [] else [Ev_close fd])))"

lemma connect_fail_runs:
  assumes "heap w a = Some (Module m)"
  shows "connect_fail (Some a) w =
    Inr (-1, w\<lparr>io_log := io_log w @ [Ev_close (sfd m)], heap := (heap w)(a \<mapsto> Module (m\<lparr>sfd := -1\<rparr>))\<rparr>)"
  using assms by (simp add: connect_fail_def load_module_def load_def store_def sys_close_def emit_def)

lemma uarts_connect_runs:
  fixes env :: serial_env and w :: "'a serial_world_scheme" and t :: string
  assumes "ctx_graph a m b u d t (heap w)"
  defines "fd \<equiv> env_open env (tick w) t"
  shows "\<exists>w' u'. uarts_connect env (Some a) w = Inr (if connect_ok env t (tick w) then 0 else -1, w') \<and>
      heap w' = (heap w)(a \<mapsto> Module (m\<lparr>sfd := if connect_ok env t (tick w) then fd else -1\<rparr>),
                 b \<mapsto> Serial u') \<and>
      u' = (if fd = -1 then u else saved_line env (tick w) u) \<and>
      io_log w' = io_log w @ connect_log env t u (tick w) \<and>
      next_addr w' = next_addr w \<and> pyerr w' = pyerr w \<and> serial_world.more w' = serial_world.more w"
proof (cases "fd = -1")
  case True
  have "((heap w)(a \<mapsto> Module (m\<lparr>sfd := -1\<rparr>))) b = Some (Serial u)"
    using assms(1) by (auto simp: ctx_graph_def)
  then have idem: "(heap w)(a \<mapsto> Module (m\<lparr>sfd := -1\<rparr>), b \<mapsto> Serial u) =
      (heap w)(a \<mapsto> Module (m\<lparr>sfd := -1\<rparr>))"
    by (rule fun_upd_idem)
  show ?thesis
    using assms(1) True unfolding fd_def
    by (simp add: uarts_connect_def graph_loads [OF assms(1)] store_def ctx_graph_def connect_ok_def
        connect_log_def idem Let_def)
next
  case False
  let ?k = "tick w"
  have ab: "a \<noteq> b" using ctx_graph_distinct [OF assms(1)] by simp
  have g: "heap w a = Some (Module m)" "heap w b = Some (Serial u)" "backend_data m = Some b"
    "us_device u = Some d"
    using assms(1) by (simp_all add: ctx_graph_def)
  have sl: "(case env_tcgetattr env (Suc ?k) of None \<Rightarrow> u | Some t \<Rightarrow> u\<lparr>us_old_tios := Some t\<rparr>) =
      saved_line env ?k u"
    by (simp add: saved_line_def)
  have tw: "(heap w)(a \<mapsto> x, b \<mapsto> y, a \<mapsto> z) = (heap w)(a \<mapsto> z, b \<mapsto> y)" for x y z
    using ab by auto
  have num: "Suc (Suc ?k) = ?k + 2" "Suc (Suc (Suc ?k)) = ?k + 3" "Suc (Suc (Suc (Suc ?k))) = ?k + 4"
    by simp_all
  have fd: "env_open env ?k t \<noteq> -1" using False fd_def by simp
  have lt: "uarts_tios (us_data_bit u) (us_stop_bit u) (us_parity u)
      (termios_zero\<lparr>c_ispeed := speed_of_baud (us_baud u), c_ospeed := speed_of_baud (us_baud u)\<rparr>) = line_termios u"
    by (simp add: line_termios_def posix_termios_def)
  show ?thesis
    using ab g fd unfolding fd_def
    by (simp add: uarts_connect_def graph_loads [OF assms(1)] store_def connect_ok_def
        connect_log_def Let_def sl connect_fail_runs tw num lt del: add_2_eq_Suc add_2_eq_Suc')
      (simp add: add.commute)
qed

lemma live_graph:
  "ctx_graph a m b u d t (heap w) \<Longrightarrow> live (Some a) w"
  unfolding live_def by blast

lemma via_backend_graph:
  assumes "ctx_graph a m b u d t (heap w)"
  shows "via_backend (Some a) f w = f (Some a) w"
  using assms by (simp add: via_backend_def graph_loads [OF assms] ctx_graph_def)

lemma graph_connected:
  assumes "ctx_graph a m b u d t (heap w)" and "us_device u' = us_device u"
  shows "ctx_graph a (m\<lparr>sfd := fd\<rparr>) b u' d t ((heap w)(a \<mapsto> Module (m\<lparr>sfd := fd\<rparr>), b \<mapsto> Serial u'))"
  using assms by (auto simp: ctx_graph_def)

lemma module_connect_runs:
  assumes "ctx_graph a m b u d t (heap w)"
  shows "\<exists>w' m' u'. module_connect env (Some a) w =
      Inr (if connect_ok env t (tick w) then 0 else -1, w') \<and>
      ctx_graph a m' b u' d t (heap w') \<and>
      m' = m\<lparr>sfd := if connect_ok env t (tick w) then env_open env (tick w) t else -1\<rparr> \<and>
      u' = (if env_open env (tick w) t = -1 then u else saved_line env (tick w) u) \<and>
      io_log w' = io_log w @ connect_log env t u (tick w) \<and>
      dom (heap w') = dom (heap w) \<and> next_addr w' = next_addr w \<and> pyerr w' = pyerr w \<and> serial_world.more w' = serial_world.more w"
proof -
  let ?m = "m\<lparr>sfd := if connect_ok env t (tick w) then env_open env (tick w) t else -1\<rparr>"
  let ?u = "if env_open env (tick w) t = -1 then u else saved_line env (tick w) u"
  obtain w' where run: "uarts_connect env (Some a) w =
        Inr (if connect_ok env t (tick w) then 0 else -1, w')"
      "heap w' = (heap w)(a \<mapsto> Module ?m, b \<mapsto> Serial ?u)"
      "io_log w' = io_log w @ connect_log env t u (tick w)" "next_addr w' = next_addr w"
      "pyerr w' = pyerr w \<and> serial_world.more w' = serial_world.more w"
    using uarts_connect_runs [OF assms, of env] by (elim exE conjE) simp
  have g: "ctx_graph a ?m b ?u d t (heap w')"
    unfolding run(2) by (rule graph_connected [OF assms]) simp
  have d: "dom (heap w') = dom (heap w)"
    using assms by (auto simp: run(2) ctx_graph_def)
  have "module_connect env (Some a) w = Inr (if connect_ok env t (tick w) then 0 else -1, w')"
    by (simp add: module_connect_def via_backend_graph [OF assms] run(1))
  then show ?thesis
    using g d run(3-5) by blast
qed

lemma module_close_runs:
  assumes "ctx_graph a m b u d t (heap w)"
  shows "\<exists>w'. module_close (Some a) w = Inr w' \<and>
      ctx_graph a (m\<lparr>sfd := -1\<rparr>) b u d t (heap w') \<and>
      io_log w' = io_log w @
        (if sfd m = -1 then [] else [Ev_tcsetattr (sfd m) (us_old_tios u), Ev_close (sfd m)]) \<and>
      dom (heap w') = dom (heap w) \<and> next_addr w' = next_addr w \<and> pyerr w' = pyerr w \<and> serial_world.more w' = serial_world.more w"
proof (cases "sfd m = -1")
  case True
  then have m: "m\<lparr>sfd := -1\<rparr> = m" by simp
  show ?thesis
    using assms True by (simp add: module_close_def via_backend_graph [OF assms] uarts_close_def
        graph_loads [OF assms] m)
next
  case False
  have g: "ctx_graph a (m\<lparr>sfd := -1\<rparr>) b u d t ((heap w)(a \<mapsto> Module (m\<lparr>sfd := -1\<rparr>)))"
    by (rule graph_update_module [OF assms]) simp_all
  have h: "heap w a = Some (Module m)" "backend_data m = Some b"
    using assms by (simp_all add: ctx_graph_def)
  show ?thesis
    using g h False by (simp add: module_close_def via_backend_graph [OF assms] uarts_close_def
        graph_loads [OF assms] sys_close_def store_def insert_absorb domIff Let_def)
qed

text \<open>
  Descriptors: how many of the logged opens gave \<open>fd\<close>, less the logged closes of it.
\<close>

definition held :: "int \<Rightarrow> io_event list \<Rightarrow> int" where
  "held fd es = int (length (filter (\<lambda>e. \<exists>t. e = Ev_open t fd) es))
              - int (length (filter (\<lambda>e. e = Ev_close fd) es))"

lemma held_append [simp]: "held fd (es @ es') = held fd es + held fd es'"
  by (simp add: held_def)

lemma held_simps [simp]:
  "held fd [] = 0"
  "held fd (Ev_open t fd' # es) = held fd es + of_bool (fd' = fd)"
  "held fd (Ev_close fd' # es) = held fd es - of_bool (fd' = fd)"
  "held fd (Ev_tcsetattr fd' x # es) = held fd es"
  "held fd (Ev_write fd' y # es) = held fd es"
  "held fd (Ev_tcflush fd' # es) = held fd es"
  "held fd (Ev_usleep n # es) = held fd es"
  "held fd (Ev_system y # es) = held fd es"
  by (simp_all add: held_def)

lemma held_connect_log:
  "held fd (connect_log env t u k) =
     of_bool (env_open env k t = fd \<and> (fd = -1 \<or> connect_ok env t k))"
proof (cases "env_open env k t = -1")
  case True
  then show ?thesis by (simp add: connect_log_def)
next
  case False
  then show ?thesis
    by (simp add: connect_log_def connect_ok_def Let_def) blast
qed

text \<open>
  a connection attempt on a live context never faults. It succeeds exactly when \<open>open\<close>, both speed
  settings and \<open>tcsetattr\<close> do; the context then holds one more open descriptor, which is in \<open>sfd\<close> and
  carries the configured line; otherwise \<open>sfd\<close> is -1 and no descriptor stays open.
\<close>

theorem module_connect_outcome:
  assumes "ctx_graph a m b u d t (heap w)" and "fd \<noteq> -1"
  shows "\<exists>w' m' u'. module_connect env (Some a) w =
      Inr (if connect_ok env t (tick w) then 0 else -1, w') \<and>
      ctx_graph a m' b u' d t (heap w') \<and> dom (heap w') = dom (heap w) \<and>
      sfd m' = (if connect_ok env t (tick w) then env_open env (tick w) t else -1) \<and>
      held fd (io_log w') = held fd (io_log w) +
        of_bool (connect_ok env t (tick w) \<and> env_open env (tick w) t = fd) \<and>
      (connect_ok env t (tick w) \<longrightarrow>
         last (io_log w') = Ev_tcsetattr (sfd m')
           (Some (posix_termios (us_baud u) (us_data_bit u) (us_stop_bit u) (us_parity u))))"
proof -
  obtain w' where w': "module_connect env (Some a) w =
        Inr (if connect_ok env t (tick w) then 0 else -1, w')"
      "ctx_graph a (m\<lparr>sfd := if connect_ok env t (tick w) then env_open env (tick w) t else -1\<rparr>) b
        (if env_open env (tick w) t = -1 then u else saved_line env (tick w) u) d t (heap w')"
      "io_log w' = io_log w @ connect_log env t u (tick w)" "dom (heap w') = dom (heap w)"
    using module_connect_runs [OF assms(1), of env] by (elim exE conjE) simp
  have h: "held fd (io_log w') = held fd (io_log w) +
      of_bool (connect_ok env t (tick w) \<and> env_open env (tick w) t = fd)"
    using assms(2) by (auto simp: w'(3) held_connect_log)
  have l: "connect_ok env t (tick w) \<longrightarrow>
      last (io_log w') = Ev_tcsetattr (env_open env (tick w) t) (Some (line_termios u))"
    by (simp add: w'(3) connect_log_def connect_ok_def Let_def)
  show ?thesis
    by (intro exI [of _ w'] exI conjI, rule w'(1), rule w'(2), rule w'(4))
      (simp_all add: h l line_termios_def [symmetric])
qed

text \<open>
  Closing a context whose connection succeeded puts the saved line settings back on its descriptor
  and then closes that descriptor, once: the descriptors held are those from before the connection,
  the context stays live with \<open>sfd = -1\<close>, and closing it again does nothing.
\<close>

theorem module_connect_close:
  assumes "ctx_graph a m b u d t (heap w)" and "connect_ok env t (tick w)"
    and "env_tcgetattr env (tick w + 1) = Some old"
  shows "\<exists>w1 w2. module_connect env (Some a) w = Inr (0, w1) \<and> module_close (Some a) w1 = Inr w2 \<and>
      io_log w2 = io_log w1 @
        [Ev_tcsetattr (env_open env (tick w) t) (Some old), Ev_close (env_open env (tick w) t)] \<and>
      (\<forall>fd. held fd (io_log w2) = held fd (io_log w)) \<and>
      (\<exists>w3. module_close (Some a) w2 = Inr w3 \<and> io_log w3 = io_log w2 \<and> live (Some a) w3)"
proof -
  let ?fd = "env_open env (tick w) t"
  have fd: "?fd \<noteq> -1" using assms(2) by (simp add: connect_ok_def)
  obtain w1 where w1: "module_connect env (Some a) w = Inr (0, w1)"
      "ctx_graph a (m\<lparr>sfd := ?fd\<rparr>) b (saved_line env (tick w) u) d t (heap w1)"
      "io_log w1 = io_log w @ connect_log env t u (tick w)"
    using module_connect_runs [OF assms(1), of env] assms(2) fd by (elim exE conjE) simp
  have old: "us_old_tios (saved_line env (tick w) u) = Some old"
    using assms(3) by (simp add: saved_line_def)
  obtain w2 where w2: "module_close (Some a) w1 = Inr w2"
      "ctx_graph a (m\<lparr>sfd := -1\<rparr>) b (saved_line env (tick w) u) d t (heap w2)"
      "io_log w2 = io_log w1 @ [Ev_tcsetattr ?fd (Some old), Ev_close ?fd]"
    using module_close_runs [OF w1(2)] fd old by (elim exE conjE) simp
  obtain w3 where w3: "module_close (Some a) w2 = Inr w3" "io_log w3 = io_log w2"
      "live (Some a) w3"
    using module_close_runs [OF w2(2)] by (elim exE conjE) (simp add: live_graph)
  have h: "\<forall>fd. held fd (io_log w2) = held fd (io_log w)"
    using fd assms(2) by (auto simp: w2(3) w1(3) held_connect_log)
  show ?thesis
    using w1(1) w2(1,3) h w3 by blast
qed

section \<open>Waiting, receiving and sending\<close>

text \<open>The first call of \<open>select\<close> from the \<open>k\<close>th on that is not interrupted, if there is one.\<close>

definition settles_at :: "serial_env \<Rightarrow> nat \<Rightarrow> nat \<Rightarrow> bool" where
  "settles_at env k n \<longleftrightarrow>
     env_select env (k + n) \<noteq> Sel_EINTR \<and> (\<forall>i < n. env_select env (k + i) = Sel_EINTR)"

lemma settles_at_0: "settles_at env k 0 \<longleftrightarrow> env_select env k \<noteq> Sel_EINTR"
  by (simp add: settles_at_def)

lemma settles_at_Suc:
  "settles_at env k (Suc n) \<longleftrightarrow> env_select env k = Sel_EINTR \<and> settles_at env (Suc k) n"
  by (auto simp: settles_at_def less_Suc_eq_0_disj)

lemma settles_ex:
  assumes "env_select env (k + n) \<noteq> Sel_EINTR"
  shows "\<exists>n'. settles_at env k n'"
proof -
  define P where "P = (\<lambda>n. env_select env (k + n) \<noteq> Sel_EINTR)"
  have "P (LEAST n. P n)" using assms LeastI [of P n] by (simp add: P_def)
  moreover have "\<forall>i < (LEAST n. P n). \<not> P i" using not_less_Least by blast
  ultimately show ?thesis unfolding settles_at_def P_def by blast
qed

definition select_code :: "select_result \<Rightarrow> int" where
  "select_code r = (if r = Sel_ready then 1 else -1)"

lemma select_loop_settles:
  "settles_at env (tick w) n \<Longrightarrow>
   \<exists>w'. select_loop env w = Some (select_code (env_select env (tick w + n)), w') \<and>
     heap w' = heap w \<and> next_addr w' = next_addr w \<and> tick w' = tick w + n + 1 \<and>
     io_log w' = io_log w \<and> pyerr w' = pyerr w \<and> serial_world.more w' = serial_world.more w \<and>
     (env_select env (tick w + n) = Sel_timeout \<longrightarrow> errno w' = ETIMEDOUT)"
proof (induction n arbitrary: w)
  case 0
  then have ne: "env_select env (tick w) \<noteq> Sel_EINTR" by (simp add: settles_at_0)
  show ?case
    by (cases "env_select env (tick w)"; subst select_loop.simps)
      (use ne in \<open>simp_all add: select_code_def\<close>)
next
  case (Suc n)
  then have e: "env_select env (tick w) = Sel_EINTR" and s: "settles_at env (tick (tock w)) n"
    by (simp_all add: settles_at_Suc)
  have "select_loop env w = select_loop env (tock w)"
    by (subst select_loop.simps) (simp add: e)
  then show ?case using Suc.IH [OF s] by simp
qed

lemma select_loop_ready:
  assumes "select_loop env w = Some y"
  shows "\<exists>n. env_select env (tick w + n) \<noteq> Sel_EINTR"
proof (rule select_loop.raw_induct [where P = "\<lambda>env w y. \<exists>n. env_select env (tick w + n) \<noteq> Sel_EINTR",
    OF _ assms])
  fix f :: "serial_env \<Rightarrow> 'a serial_world_scheme \<Rightarrow> (int \<times> 'a serial_world_scheme) option"
    and env :: serial_env and w :: "'a serial_world_scheme" and y
  assume IH: "\<And>env w y. f env w = Some y \<Longrightarrow> \<exists>n. env_select env (tick w + n) \<noteq> Sel_EINTR"
    and step: "(case env_select env (tick w) of
        Sel_ready \<Rightarrow> Some (1, tock w)
      | Sel_timeout \<Rightarrow> Some (-1, set_errno ETIMEDOUT (tock w))
      | Sel_EINTR \<Rightarrow> f env (tock w)
      | Sel_error \<Rightarrow> Some (-1, tock w)) = Some y"
  show "\<exists>n. env_select env (tick w + n) \<noteq> Sel_EINTR"
  proof (cases "env_select env (tick w) = Sel_EINTR")
    case True
    then have "f env (tock w) = Some y" using step by simp
    from IH [OF this] obtain n where "env_select env (tick w + Suc n) \<noteq> Sel_EINTR" by auto
    then show ?thesis by blast
  next
    case False
    then show ?thesis by (intro exI [of _ 0]) simp
  qed
qed

text \<open>
  C17: the wait for the line returns exactly when some call of \<open>select\<close> is not interrupted by a signal;
  then the first such call decides: 1 when the line is readable, and -1 on an error or on a timeout,
  which also sets \<open>errno\<close>.
\<close>

theorem select_loop_returns_iff:
  "(select_loop env w \<noteq> None \<longleftrightarrow> (\<exists>n. env_select env (tick w + n) \<noteq> Sel_EINTR)) \<and>
   (\<forall>n. settles_at env (tick w) n \<longrightarrow>
      (\<exists>w'. select_loop env w = Some (select_code (env_select env (tick w + n)), w') \<and>
         heap w' = heap w \<and>
         (env_select env (tick w + n) = Sel_timeout \<longrightarrow> errno w' = ETIMEDOUT)))"
proof (intro conjI iffI allI impI)
  assume "select_loop env w \<noteq> None"
  then show "\<exists>n. env_select env (tick w + n) \<noteq> Sel_EINTR"
    using select_loop_ready [of env w] by (auto simp del: split_paired_Ex)
next
  assume "\<exists>n. env_select env (tick w + n) \<noteq> Sel_EINTR"
  then obtain n where n: "settles_at env (tick w) n"
    using settles_ex by blast
  show "select_loop env w \<noteq> None"
    using select_loop_settles [OF n] by (elim exE) simp
next
  fix n assume n: "settles_at env (tick w) n"
  show "\<exists>w'. select_loop env w = Some (select_code (env_select env (tick w + n)), w') \<and>
         heap w' = heap w \<and> (env_select env (tick w + n) = Sel_timeout \<longrightarrow> errno w' = ETIMEDOUT)"
    using select_loop_settles [OF n] by (elim exE) simp
qed

theorem select_loop_returns_iff_witness:
  "\<exists>w'. select_loop demo_env demo_world = Some (1, w')"
proof -
  have "settles_at demo_env (tick demo_world) 3"
    by (simp add: settles_at_def demo_facts) (simp add: demo_env_def)
  moreover have "env_select demo_env (tick demo_world + 3) = Sel_ready"
    by (simp add: demo_facts) (simp add: demo_env_def)
  ultimately show ?thesis
    using conjunct2 [OF select_loop_returns_iff [of demo_env demo_world]]
    by (auto simp: select_code_def)
qed

text \<open>What a read of at most \<open>n\<close> bytes puts into a buffer, and what it returns.\<close>

definition read_into :: "string option \<Rightarrow> nat \<Rightarrow> string \<Rightarrow> int \<times> string" where
  "read_into d n rsp =
     (case d of None \<Rightarrow> (-1, rsp)
      | Some d \<Rightarrow> (int (length (take n d)), take n d @ drop (length (take n d)) rsp))"

lemma length_read_into:
  "n \<le> length rsp \<Longrightarrow> length (snd (read_into d n rsp)) = length rsp"
  by (auto simp: read_into_def split: option.splits)

lemma read_into_bounds:
  "-1 \<le> fst (read_into d n rsp) \<and> fst (read_into d n rsp) \<le> int n"
  by (auto simp: read_into_def split: option.splits)

lemma module_recv_runs:
  assumes "ctx_graph a m b u d t (heap w)" and "FD_SET_ok (sfd m)"
    and "settles_at env (tick w) k" and "n \<le> length rsp"
  shows "\<exists>w'. module_recv env (Some a) rsp n w =
      (if env_select env (tick w + k) = Sel_ready
       then Inr (fst (read_into (env_read env (tick w + k + 1)) n rsp),
                 snd (read_into (env_read env (tick w + k + 1)) n rsp), w')
       else Inr (-1, rsp, w')) \<and>
      heap w' = heap w \<and> io_log w' = io_log w \<and> next_addr w' = next_addr w \<and> pyerr w' = pyerr w \<and> serial_world.more w' = serial_world.more w"
proof -
  obtain w1 where w1: "select_loop env w = Some (select_code (env_select env (tick w + k)), w1)"
      "heap w1 = heap w" "tick w1 = tick w + k + 1" "io_log w1 = io_log w"
      "next_addr w1 = next_addr w" "pyerr w1 = pyerr w \<and> serial_world.more w1 = serial_world.more w"
    using select_loop_settles [OF assms(3)] by (elim exE conjE) simp
  have g1: "ctx_graph a m b u d t (heap w1)"
    using assms(1) w1(2) by simp
  have run: "module_recv env (Some a) rsp n w =
      (if env_select env (tick w + k) = Sel_ready
       then uarts_recv env (Some a) rsp n w1 else Inr (-1, rsp, w1))"
    by (simp add: module_recv_def graph_loads [OF assms(1)] assms(2) via_backend_graph [OF assms(1)]
        via_backend_graph [OF g1] uarts_select_def w1(1) select_code_def)
  have rd: "uarts_recv env (Some a) rsp n w1 =
      Inr (fst (read_into (env_read env (tick w + k + 1)) n rsp),
           snd (read_into (env_read env (tick w + k + 1)) n rsp), tock w1)"
    using assms(4) by (auto simp: uarts_recv_def graph_loads [OF g1] w1(3) read_into_def
        Let_def split: option.splits)
  show ?thesis
    using w1 unfolding run rd by (cases "env_select env (tick w + k) = Sel_ready") auto
qed

lemma module_send_runs:
  assumes "ctx_graph a m b u d t (heap w)" and "n \<le> length req"
  shows "\<exists>w'. module_send env (Some a) req n w =
      Inr (env_write env (tick w) (take n req), w') \<and>
      heap w' = heap w \<and> io_log w' = io_log w @ [Ev_write (sfd m) (take n req)] \<and>
      next_addr w' = next_addr w \<and> pyerr w' = pyerr w \<and> serial_world.more w' = serial_world.more w"
  using assms(2) by (simp add: module_send_def via_backend_graph [OF assms(1)] uarts_send_def
      graph_loads [OF assms(1)])

text \<open>
  C18: receiving on a live, connected context into a buffer of at least \<open>n\<close> bytes returns as soon as
  one wait is not interrupted. If that wait finds the line readable, the result is between -1 and \<open>n\<close>,
  the buffer keeps its size, its first bytes are those read and the others are unchanged; otherwise
  the result is -1 and the buffer is untouched. On a context whose \<open>sfd\<close> is -1, one
  never connected or already closed, \<open>FD_SET\<close> is applied to -1, which is undefined.
\<close>

theorem module_recv_outcome:
  assumes "ctx_graph a m b u d t (heap w)" and "env_select env (tick w + j) \<noteq> Sel_EINTR"
    and "n \<le> length rsp"
  shows "if FD_SET_ok (sfd m)
    then \<exists>k w' rc rsp'. settles_at env (tick w) k \<and>
           read_into (env_read env (tick w + k + 1)) n rsp = (rc, rsp') \<and>
           -1 \<le> rc \<and> rc \<le> int n \<and> length rsp' = length rsp \<and> heap w' = heap w \<and>
           module_recv env (Some a) rsp n w =
             (if env_select env (tick w + k) = Sel_ready then Inr (rc, rsp', w')
              else Inr (-1, rsp, w'))
    else module_recv env (Some a) rsp n w = Inl Buffer_Overflow"
proof (cases "FD_SET_ok (sfd m)")
  case False
  then show ?thesis by (simp add: module_recv_def graph_loads [OF assms(1)])
next
  case True
  obtain k where k: "settles_at env (tick w) k" using settles_ex [OF assms(2)] by blast
  let ?r = "read_into (env_read env (tick w + k + 1)) n rsp"
  obtain w' where w': "module_recv env (Some a) rsp n w =
      (if env_select env (tick w + k) = Sel_ready then Inr (fst ?r, snd ?r, w') else Inr (-1, rsp, w'))"
      "heap w' = heap w"
    using module_recv_runs [OF assms(1) True k assms(3)] by (elim exE conjE) simp
  have "?r = (fst ?r, snd ?r)" by simp
  then have "\<exists>k w' rc rsp'. settles_at env (tick w) k \<and>
           read_into (env_read env (tick w + k + 1)) n rsp = (rc, rsp') \<and>
           -1 \<le> rc \<and> rc \<le> int n \<and> length rsp' = length rsp \<and> heap w' = heap w \<and>
           module_recv env (Some a) rsp n w =
             (if env_select env (tick w + k) = Sel_ready then Inr (rc, rsp', w')
              else Inr (-1, rsp, w'))"
    using k w' length_read_into [OF assms(3)] read_into_bounds by blast
  then show ?thesis by (simp only: True if_True)
qed

text \<open>
  the byte timeout of a live context: a value of up to 999999 microseconds is stored and read back
  as it was given, anything larger is refused with \<open>EINVAL\<close> and changes nothing; the object graph is
  kept either way.
\<close>

theorem byte_timeout_roundtrip:
  assumes "ctx_graph a m b u d t (heap w)"
  shows "if unat usec \<le> 999999
    then \<exists>w'. module_set_byte_timeout (Some a) sec usec w = Inr (0, w') \<and> live (Some a) w' \<and>
           module_get_byte_timeout (Some a) w' = Inr (0, Some (sec, usec), w')
    else module_set_byte_timeout (Some a) sec usec w = Inr (-1, set_errno EINVAL w)"
proof (cases "unat usec \<le> 999999")
  case True
  let ?m = "m\<lparr>byte_timeout := (sec, usec)\<rparr>"
  let ?w = "w\<lparr>heap := (heap w)(a \<mapsto> Module ?m)\<rparr>"
  have g: "ctx_graph a ?m b u d t (heap ?w)"
    using graph_update_module [OF assms, of ?m] by simp
  have "module_set_byte_timeout (Some a) sec usec w = Inr (0, ?w)"
    using True assms by (simp add: module_set_byte_timeout_def graph_loads [OF assms] store_def ctx_graph_def)
  moreover have "module_get_byte_timeout (Some a) ?w = Inr (0, Some (sec, usec), ?w)"
    using graph_loads(1) [OF g] by (simp add: module_get_byte_timeout_def)
  ultimately show ?thesis
    using True live_graph [OF g] by simp
next
  case False
  then show ?thesis by (simp add: module_set_byte_timeout_def)
qed

text \<open>The demonstration context, as \<open>module_new\<close> leaves it.\<close>

definition demo_serial :: cora_serial_t where
  "demo_serial = new_serial (Some 2) 9600 CHR ''N'' 8 1"

definition demo_ctx_world :: "int \<Rightarrow> serial_world" where
  "demo_ctx_world fd = demo_world\<lparr>heap := (with_ctx 0 ''ttyUSB0'' 9600 CHR ''N'' 8 1 (\<lambda>_. None))
     (0 \<mapsto> Module ((new_module (Some 1))\<lparr>sfd := fd\<rparr>)), next_addr := 3\<rparr>"

lemma demo_graph:
  "ctx_graph 0 ((new_module (Some 1))\<lparr>sfd := fd\<rparr>) 1 demo_serial 2 ''ttyUSB0'' (heap (demo_ctx_world fd))"
  by (simp add: ctx_graph_def with_ctx_def new_module_def demo_serial_def new_serial_def demo_ctx_world_def)

lemma demo_connect_ok: "connect_ok demo_env t k"
  by (simp add: connect_ok_def demo_env_def)

theorem module_connect_outcome_witness:
  "\<exists>w'. module_connect demo_env (Some 0) (demo_ctx_world (-1)) = Inr (0, w') \<and>
     held 3 (io_log w') = 1"
proof -
  have l: "held 3 (io_log (demo_ctx_world (-1))) = 0"
    by (simp add: demo_ctx_world_def demo_facts)
  have o: "env_open demo_env k t = 3" for k t by (simp add: demo_env_def)
  show ?thesis
    using module_connect_outcome [OF demo_graph [of "-1"], of 3 demo_env]
    by (simp add: demo_connect_ok l o) blast
qed

theorem module_connect_close_witness:
  "\<exists>w1 w2. module_connect demo_env (Some 0) (demo_ctx_world (-1)) = Inr (0, w1) \<and>
     module_close (Some 0) w1 = Inr w2 \<and>
     io_log w2 = io_log w1 @ [Ev_tcsetattr 3 (Some termios_zero), Ev_close 3]"
proof -
  have o: "env_open demo_env k t = 3" "env_tcgetattr demo_env k = Some termios_zero" for k t
    by (simp_all add: demo_env_def)
  show ?thesis
    using module_connect_close [OF demo_graph [of "-1"] demo_connect_ok o(2)]
    unfolding o by blast
qed

theorem module_recv_outcome_witness:
  "\<exists>k w'. settles_at demo_env 0 k \<and>
     module_recv demo_env (Some 0) (replicate 4 CHR ''x'') 4 (demo_ctx_world 3) =
       (if env_select demo_env k = Sel_ready then Inr (2, ''OKxx'', w') else Inr (-1, ''xxxx'', w'))"
proof -
  have e: "env_select demo_env (tick (demo_ctx_world 3) + 3) \<noteq> Sel_EINTR"
    and t: "tick (demo_ctx_world 3) = 0"
    by (simp_all add: demo_env_def demo_ctx_world_def demo_facts)
  have r: "read_into (env_read demo_env k) 4 ''xxxx'' = (2, ''OKxx'')" for k
    by (simp add: read_into_def demo_env_def eval_nat_numeral)
  have x: "replicate 4 CHR ''x'' = ''xxxx''" by (simp add: eval_nat_numeral)
  show ?thesis
    using module_recv_outcome [OF demo_graph [of 3] e, of 4 "replicate 4 CHR ''x''"]
    unfolding t x r by (simp add: FD_SET_ok_def split del: if_split) blast
qed

theorem byte_timeout_roundtrip_witness:
  "\<exists>w'. module_set_byte_timeout (Some 0) 2 500000 (demo_ctx_world 3) = Inr (0, w') \<and>
     module_get_byte_timeout (Some 0) w' = Inr (0, Some (2, 500000), w')"
  using byte_timeout_roundtrip [OF demo_graph [of 3], of 500000 2] by auto

end
