(* ===== verification/Me909s.thy ===== *)
theory Me909s
  imports Cora_Serial Kmp
begin

text \<open>
  \<open>c_modules/huawei_lte/me909s.c\<close>: the Python module of the Huawei ME909s LTE modem, on top of the
  serial layer of \<open>Cora_Serial\<close> and the keyword search of \<open>Kmp\<close>. Each method is one definition; its
  arguments are what \<open>PyArg_ParseTuple\<close> delivers, \<open>None\<close> when it rejects them.
\<close>

section \<open>State\<close>

record lte_world = serial_world +
  lte_ctx :: ptr  \<comment> \<open>the static variable \<open>ctx\<close>\<close>

definition LED_UNDEF :: int where "LED_UNDEF = -1"
definition LED_OFF :: int where "LED_OFF = 0"
definition LED_ON :: int where "LED_ON = 1"
definition LED_MAX :: int where "LED_MAX = 2"

definition Communication_faild :: string where
  "Communication_faild = ''Communication faild.''"

section \<open>Sending a command and reading an answer\<close>

text \<open>\<open>module_send(ctx, cmd, strlen(cmd))\<close>, and whether everything was sent.\<close>

definition send_text :: "serial_env \<Rightarrow> string \<Rightarrow> lte_world \<Rightarrow> (bool \<times> lte_world) run" where
  "send_text env cmd w =
     bind_run (module_send env (lte_ctx w) cmd (length cmd) w) (\<lambda>(ret, w).
     Inr (ret = int (length cmd), w))"

text \<open>\<open>uint8_t buffer[MAX_RECV_BUF_SIZE] = {0}; module_recv(ctx, buffer, MAX_RECV_BUF_SIZE)\<close>.\<close>

definition recv_buffer :: "serial_env \<Rightarrow> lte_world \<Rightarrow> (int \<times> string \<times> lte_world) run" where
  "recv_buffer env w =
     module_recv env (lte_ctx w) (replicate MAX_RECV_BUF_SIZE NUL) MAX_RECV_BUF_SIZE w"

text \<open>\<open>len > 0 && -1 != KMP_Match(buffer, key, len)\<close>; the search is run only on a positive length.\<close>

definition answered :: "string \<Rightarrow> string \<Rightarrow> int \<Rightarrow> bool run" where
  "answered key buffer len =
     (if len \<le> 0 then Inr False
      else bind_run (KMP_Match buffer key len) (\<lambda>pos. Inr (pos \<noteq> -1)))"

definition usleep_300 :: "lte_world \<Rightarrow> lte_world" where
  "usleep_300 w = emit (Ev_usleep 300000) w"

text \<open>
  The loop \<open>for (i = 0; i < n; i++) { recv; if (judge) return \<dots>; usleep; }\<close> of \<open>status\<close>, \<open>online\<close> and
  \<open>offline\<close>: \<open>judge buffer len\<close> says what to return on an answer, if anything.
\<close>

primrec poll ::
    "('w \<Rightarrow> (int \<times> string \<times> 'w) run) \<Rightarrow> ('w \<Rightarrow> 'w) \<Rightarrow> (string \<Rightarrow> int \<Rightarrow> 'r option run) \<Rightarrow>
     nat \<Rightarrow> 'w \<Rightarrow> ('r option \<times> 'w) run" where
  "poll recv wait judge 0 w = Inr (None, w)"
| "poll recv wait judge (Suc n) w =
     bind_run (recv w) (\<lambda>(len, buffer, w).
     bind_run (judge buffer len) (\<lambda>verdict.
     case verdict of
       Some r \<Rightarrow> Inr (Some r, w)
     | None \<Rightarrow> poll recv wait judge n (wait w)))"

section \<open>The methods\<close>

type_synonym new_lte_args = "string \<times> int \<times> char \<times> int \<times> int"

text \<open>The values of the optional parameters of \<open>new_lte\<close> that are not given.\<close>

definition new_lte_defaults :: "string \<Rightarrow> new_lte_args" where
  "new_lte_defaults device = (device, 3000000, CHR ''N'', 8, 1)"

definition new_lte ::
    "serial_env \<Rightarrow> new_lte_args option \<Rightarrow> lte_world \<Rightarrow> (py_result \<times> lte_world) run" where
  "new_lte env args w =
     (case args of
        None \<Rightarrow> Inr (None, PyErr_SetString ''Invalid input parameter.'' w)
      | Some (device, baud, parity, data_bit, stop_bit) \<Rightarrow>
          bind_run (module_new env (Some device) baud parity data_bit stop_bit w) (\<lambda>(ctx, w).
          let w = w\<lparr>lte_ctx := ctx\<rparr> in
          if lte_ctx w = None
          then Inr (None, PyErr_SetString ''Illegal function [module_new]'' w)
          else
          bind_run (module_connect env (lte_ctx w) w) (\<lambda>(rc, w).
          if rc = -1
          then bind_run (module_free (lte_ctx w) w) (\<lambda>w.
               Inr (None, PyErr_SetString ''Illegal function [module_connect]'' w))
          else Inr (Some Py_True, w))))"

text \<open>\<open>const uint8_t cmds[7][16]\<close>: each text in an array of 16 bytes, filled up with NUL.\<close>

definition pad16 :: "string \<Rightarrow> string" where
  "pad16 t = t @ replicate (16 - length t) NUL"

definition init_cmds :: "string list" where
  "init_cmds = map (\<lambda>t. pad16 (t @ crlf))
     [''AT'', ''ATE0'', ''AT^CURC=0'', ''AT^STSF=0'', ''ATS0=0'', ''AT+CGREG=2'', ''AT+CMEE=2'']"

fun init_loop :: "serial_env \<Rightarrow> string list \<Rightarrow> lte_world \<Rightarrow> (py_result \<times> lte_world) run" where
  "init_loop env [] w = Inr (Some Py_True, w)"
| "init_loop env (c # cs) w =
     bind_run (send_text env c w) (\<lambda>(sent, w).
     if \<not> sent then Inr (None, PyErr_SetString Communication_faild w)
     else
     bind_run (recv_buffer env w) (\<lambda>(len, buffer, w).
     bind_run (answered ''OK'' buffer len) (\<lambda>ok.
     if \<not> ok then Inr (Some Py_False, w) else init_loop env cs w)))"

definition init :: "serial_env \<Rightarrow> lte_world \<Rightarrow> (py_result \<times> lte_world) run" where
  "init env w = init_loop env init_cmds w"

text \<open>
  \<open>Py_BuildValue("s", buffer)\<close> reads up to the first NUL of the array and decodes UTF-8; \<open>utf8_ok\<close>
  stands for CPython's decoder accepting the text.
\<close>

definition build_s :: "(string \<Rightarrow> bool) \<Rightarrow> string \<Rightarrow> 'a world_scheme \<Rightarrow> (py_result \<times> 'a world_scheme) run"
    where
  "build_s utf8_ok buffer w =
     (case cstr_of buffer of
        None \<Rightarrow> Inl Out_Of_Bounds_Read
      | Some t \<Rightarrow>
          if utf8_ok t then Inr (Some (PyUnicode t), w)
          else Inr (None, PyErr_SetString ''UnicodeDecodeError'' w))"

definition cmd_lte ::
    "(string \<Rightarrow> bool) \<Rightarrow> serial_env \<Rightarrow> string option \<Rightarrow> lte_world \<Rightarrow> (py_result \<times> lte_world) run" where
  "cmd_lte utf8_ok env args w =
     (case args of
        None \<Rightarrow> Inr (None, PyErr_SetString ''Invalid input parameter.'' w)
      | Some cmd \<Rightarrow>
          bind_run (send_text env cmd w) (\<lambda>(sent, w).
          if \<not> sent then Inr (None, PyErr_SetString Communication_faild w)
          else
          bind_run (recv_buffer env w) (\<lambda>(len, buffer, w).
          bind_run (answered ''OK'' buffer len) (\<lambda>ok.
          if \<not> ok then Inr (Some (PyUnicode ''ERROR''), w) else build_s utf8_ok buffer w))))"

definition led :: "serial_env \<Rightarrow> int option \<Rightarrow> lte_world \<Rightarrow> (py_result \<times> lte_world) run" where
  "led env args w =
     (case args of
        None \<Rightarrow> Inr (None, PyErr_SetString ''Invalid input parameter.'' w)
      | Some status \<Rightarrow>
          if status \<le> LED_UNDEF \<or> status \<ge> LED_MAX
          then Inr (None, PyErr_SetString ''Invalid status.'' w)
          else
          bind_run (sprintf_buf 32 (''AT^LEDCTRL='' @ show_int status @ crlf)) (\<lambda>cmd.
          bind_run (send_text env cmd w) (\<lambda>(sent, w).
          if \<not> sent then Inr (Some Py_False, w)
          else
          bind_run (recv_buffer env w) (\<lambda>(len, buffer, w).
          bind_run (answered ''OK'' buffer len) (\<lambda>ok.
          Inr (Some (if ok then Py_True else Py_False), w))))))"

definition ndisstatqry :: string where
  "ndisstatqry = ''^NDISSTATQRY: ''"

text \<open>The judgement of \<open>status\<close>; here the search is run whatever the length is.\<close>

definition judge_status :: "string \<Rightarrow> int \<Rightarrow> py_object option run" where
  "judge_status buffer len =
     bind_run (KMP_Match buffer ndisstatqry len) (\<lambda>pos.
     if len > 0 \<and> pos \<noteq> -1
     then let i = nat pos + length ndisstatqry in
          if length buffer \<le> i then Inl Out_Of_Bounds_Read
          else Inr (if buffer ! i = CHR ''0'' then Some (PyUnicode ''offline'')
                    else if buffer ! i = CHR ''1'' then Some (PyUnicode ''online'')
                    else None)
     else Inr None)"

definition status :: "serial_env \<Rightarrow> lte_world \<Rightarrow> (py_result \<times> lte_world) run" where
  "status env w =
     bind_run (send_text env (''AT^NDISSTATQRY?'' @ crlf) w) (\<lambda>(sent, w).
     if \<not> sent then Inr (Some Py_False, w)
     else
     bind_run (poll (recv_buffer env) usleep_300 judge_status 3 w) (\<lambda>(verdict, w).
     Inr (case verdict of Some r \<Rightarrow> Some r | None \<Rightarrow> Some (PyUnicode ''ERROR''), w)))"

definition judge_keyword :: "string \<Rightarrow> string \<Rightarrow> int \<Rightarrow> py_object option run" where
  "judge_keyword key buffer len =
     bind_run (answered key buffer len) (\<lambda>ok. Inr (if ok then Some Py_True else None))"

definition online :: "serial_env \<Rightarrow> lte_world \<Rightarrow> (py_result \<times> lte_world) run" where
  "online env w =
     bind_run (send_text env (''AT^NDISDUP=1,1'' @ crlf) w) (\<lambda>(sent, w).
     if \<not> sent then Inr (Some Py_False, w)
     else
     bind_run (poll (recv_buffer env) usleep_300 (judge_keyword ''^NDISSTAT: 1'') 3 w)
       (\<lambda>(verdict, w).
     case verdict of
       Some r \<Rightarrow> Inr (Some r, emit (Ev_system ''udhcpc -n -i usb0'') w)
     | None \<Rightarrow> Inr (Some Py_False, w)))"

definition offline :: "serial_env \<Rightarrow> lte_world \<Rightarrow> (py_result \<times> lte_world) run" where
  "offline env w =
     bind_run (send_text env (''AT^NDISDUP=1,0'' @ crlf) w) (\<lambda>(sent, w).
     if \<not> sent then Inr (Some Py_False, w)
     else
     bind_run (poll (recv_buffer env) usleep_300 (judge_keyword ''^NDISSTAT: 0'') 3 w)
       (\<lambda>(verdict, w).
     Inr (case verdict of Some r \<Rightarrow> Some r | None \<Rightarrow> Some Py_False, w)))"

definition restart :: "serial_env \<Rightarrow> lte_world \<Rightarrow> (py_result \<times> lte_world) run" where
  "restart env w =
     bind_run (send_text env (''AT^RESET'' @ crlf) w) (\<lambda>(sent, w).
     Inr (Some (if sent then Py_True else Py_False), w))"

definition call :: "serial_env \<Rightarrow> string option \<Rightarrow> lte_world \<Rightarrow> (py_result \<times> lte_world) run" where
  "call env args w =
     (case args of
        None \<Rightarrow> Inr (None, PyErr_SetString ''Invalid input parameter.'' w)
      | Some num \<Rightarrow>
          bind_run (sprintf_buf 32 (''ATD'' @ num @ '';'' @ crlf)) (\<lambda>cmd.
          bind_run (send_text env cmd w) (\<lambda>(sent, w).
          Inr (Some (if sent then Py_True else Py_False), w))))"

definition hangup :: "serial_env \<Rightarrow> lte_world \<Rightarrow> (py_result \<times> lte_world) run" where
  "hangup env w =
     bind_run (send_text env (''AT+CHUP'' @ crlf) w) (\<lambda>(sent, w).
     Inr (Some (if sent then Py_True else Py_False), w))"

definition del_lte :: "lte_world \<Rightarrow> (py_result \<times> lte_world) run" where
  "del_lte w =
     bind_run (module_close (lte_ctx w) w) (\<lambda>w.
     bind_run (module_free (lte_ctx w) w) (\<lambda>w.
     Inr (Some Py_None, w)))"

text \<open>\<open>free_lte\<close> is the \<open>m_free\<close> slot of the module: it runs when the interpreter drops the module.\<close>

definition free_lte :: "lte_world \<Rightarrow> lte_world run" where
  "free_lte w =
     bind_run (module_close (lte_ctx w) w) (\<lambda>w. module_free (lte_ctx w) w)"

section \<open>The method table and the initialiser\<close>

datatype lte_call =
    Led "int option"
  | Init
  | Call_number "string option"
  | New_lte "new_lte_args option"
  | Cmd_lte "string option"
  | Del_lte
  | Status
  | Online
  | Offline
  | Restart
  | Hangup

fun lte_methods ::
    "(string \<Rightarrow> bool) \<Rightarrow> serial_env \<Rightarrow> lte_call \<Rightarrow> lte_world \<Rightarrow> (py_result \<times> lte_world) run" where
  "lte_methods utf8_ok env (Led args) = led env args"
| "lte_methods utf8_ok env Init = init env"
| "lte_methods utf8_ok env (Call_number args) = call env args"
| "lte_methods utf8_ok env (New_lte args) = new_lte env args"
| "lte_methods utf8_ok env (Cmd_lte args) = cmd_lte utf8_ok env args"
| "lte_methods utf8_ok env Del_lte = del_lte"
| "lte_methods utf8_ok env Status = status env"
| "lte_methods utf8_ok env Online = online env"
| "lte_methods utf8_ok env Offline = offline env"
| "lte_methods utf8_ok env Restart = restart env"
| "lte_methods utf8_ok env Hangup = hangup env"

definition PyInit_me909s :: "bool \<Rightarrow> bool \<Rightarrow> (string \<times> py_attr) list option" where
  "PyInit_me909s created exception_made =
     (if \<not> created then None
      else Some ((if exception_made then [(''error'', Exception_Type ''lte.error'')] else []) @
        [(''LED_ON'', Int_Constant LED_ON), (''LED_OFF'', Int_Constant LED_OFF),
         (''__version__'', Str_Constant ''1.0''), (''__author__'', Str_Constant ''Heyn'')]))"

section \<open>The interface to the serial layer\<close>

text \<open>
  What the commands need of a channel: \<open>inv\<close> is kept, and the Python error indicator \<open>err\<close> left
  alone, by every call that returns. \<open>live_channel\<close> adds that in a state that is \<open>up\<close> the calls do
  return, with a buffer of \<open>size\<close> bytes.
\<close>

locale at_channel =
  fixes send :: "string \<Rightarrow> 'w \<Rightarrow> (bool \<times> 'w) run"
    and recv :: "'w \<Rightarrow> (int \<times> string \<times> 'w) run"
    and wait :: "'w \<Rightarrow> 'w"
    and inv :: "'w \<Rightarrow> bool"
    and err :: "'w \<Rightarrow> string option"
  assumes send_keeps: "inv w \<Longrightarrow> send t w = Inr (b, w') \<Longrightarrow> inv w' \<and> err w' = err w"
    and recv_keeps: "inv w \<Longrightarrow> recv w = Inr (n, buf, w') \<Longrightarrow> inv w' \<and> err w' = err w"
    and wait_keeps: "inv w \<Longrightarrow> inv (wait w) \<and> err (wait w) = err w"
begin

lemma poll_keeps:
  "inv w \<Longrightarrow> poll recv wait judge n w = Inr (v, w') \<Longrightarrow> inv w' \<and> err w' = err w"
proof (induction n arbitrary: w)
  case 0
  then show ?case by simp
next
  case (Suc n)
  then obtain len buf w1 where recv: "recv w = Inr (len, buf, w1)"
    and rest: "bind_run (judge buf len) (\<lambda>verdict. case verdict of
       Some r \<Rightarrow> Inr (Some r, w1) | None \<Rightarrow> poll recv wait judge n (wait w1)) = Inr (v, w')"
    by (auto simp: bind_run_Inr_iff)
  have w1: "inv w1" "err w1 = err w" using recv_keeps [OF Suc.prems(1) recv] by simp_all
  obtain verdict where "judge buf len = Inr verdict"
    using rest by (auto simp: bind_run_Inr_iff)
  then show ?case
    using rest w1 wait_keeps [OF w1(1)] Suc.IH [of "wait w1"] by (cases verdict) auto
qed

end

locale live_channel = at_channel +
  fixes up :: "'w \<Rightarrow> bool" and size :: nat
  assumes up_inv: "up w \<Longrightarrow> inv w"
    and send_returns: "up w \<Longrightarrow> \<exists>b w'. send t w = Inr (b, w') \<and> up w'"
    and recv_returns: "up w \<Longrightarrow> \<exists>n buf w'. recv w = Inr (n, buf, w') \<and> up w' \<and>
      n \<le> int size \<and> length buf = size"
    and wait_up: "up w \<Longrightarrow> up (wait w)"
begin

text \<open>
  Polling in a state that is up either returns, and a verdict is one the judge gave on a buffer, or
  ends in a fault of the judge. With a judge that never faults it returns.
\<close>

lemma poll_outcome:
  "up w \<Longrightarrow>
   (\<exists>v w'. poll recv wait judge n w = Inr (v, w') \<and> up w' \<and>
      (v = None \<or> (\<exists>buf len. length buf = size \<and> len \<le> int size \<and> judge buf len = Inr v))) \<or>
   (\<exists>e buf len. poll recv wait judge n w = Inl e \<and> length buf = size \<and> len \<le> int size \<and>
      judge buf len = Inl e)"
proof (induction n arbitrary: w)
  case 0
  then show ?case by simp
next
  case (Suc n)
  obtain len buf w1 where r: "recv w = Inr (len, buf, w1)" "up w1" "len \<le> int size" "length buf = size"
    using recv_returns [OF Suc.prems] by blast
  show ?case
  proof (cases "judge buf len")
    case (Inl e)
    then show ?thesis using r by auto
  next
    case v: (Inr verdict)
    show ?thesis
    proof (cases verdict)
      case None
      then have "poll recv wait judge (Suc n) w = poll recv wait judge n (wait w1)"
        using r v by simp
      then show ?thesis using Suc.IH [OF wait_up [OF r(2)]] by simp
    next
      case (Some x)
      then have "poll recv wait judge (Suc n) w = Inr (verdict, w1)"
        using r v by simp
      then show ?thesis using r v by blast
    qed
  qed
qed

lemma poll_returns:
  assumes "up w" and "\<And>buf len. length buf = size \<Longrightarrow> len \<le> int size \<Longrightarrow> returns (judge buf len)"
  shows "\<exists>v w'. poll recv wait judge n w = Inr (v, w') \<and> up w' \<and>
      (v = None \<or> (\<exists>buf len. length buf = size \<and> len \<le> int size \<and> judge buf len = Inr v))"
  using poll_outcome [OF assms(1), of judge n] assms(2) by (metis returns_simps(2))

end

section \<open>The serial layer provides it\<close>

text \<open>
  The states of the static \<open>ctx\<close>: never assigned, a live context, or a pointer to a released one.
  \<open>connected\<close>: live, and with a descriptor \<open>select\<close> can watch.
\<close>

definition ctx_live :: "lte_world \<Rightarrow> bool" where
  "ctx_live w \<longleftrightarrow> live (lte_ctx w) w"

definition dangling :: "lte_world \<Rightarrow> bool" where
  "dangling w \<longleftrightarrow> (\<exists>a. lte_ctx w = Some a \<and> heap w a = None)"

definition connected :: "lte_world \<Rightarrow> bool" where
  "connected w \<longleftrightarrow> (\<exists>a m b u d t. lte_ctx w = Some a \<and> ctx_graph a m b u d t (heap w) \<and>
     FD_SET_ok (sfd m))"

definition lte_inv :: "lte_world \<Rightarrow> bool" where
  "lte_inv w \<longleftrightarrow> wf_heap w \<and> (lte_ctx w = None \<or> ctx_live w \<or> dangling w)"

definition responsive :: "serial_env \<Rightarrow> bool" where
  "responsive env \<longleftrightarrow> (\<forall>k. \<exists>n. env_select env (k + n) \<noteq> Sel_EINTR)"

lemma lte_ctx_more:
  fixes w w' :: lte_world
  shows "serial_world.more w' = serial_world.more w \<Longrightarrow> lte_ctx w' = lte_ctx w"
  by (cases w; cases w') simp

lemma lte_inv_frame:
  assumes "lte_inv w" and "heap w' = heap w" and "next_addr w' = next_addr w" and "lte_ctx w' = lte_ctx w"
  shows "lte_inv w'"
  using assms by (simp add: lte_inv_def ctx_live_def dangling_def live_def wf_heap_def)

lemma connected_frame:
  assumes "connected w" and "heap w' = heap w" and "lte_ctx w' = lte_ctx w"
  shows "connected w'"
  using assms by (simp add: connected_def)

lemma send_text_live:
  assumes "lte_ctx w = Some a" and "ctx_graph a m b u d t (heap w)"
  shows "\<exists>w'. send_text env cmd w = Inr (env_write env (tick w) cmd = int (length cmd), w') \<and>
    heap w' = heap w \<and> next_addr w' = next_addr w \<and> lte_ctx w' = lte_ctx w \<and> pyerr w' = pyerr w \<and>
    io_log w' = io_log w @ [Ev_write (sfd m) cmd]"
proof -
  obtain w' where "module_send env (Some a) cmd (length cmd) w = Inr (env_write env (tick w) cmd, w')"
      "heap w' = heap w" "io_log w' = io_log w @ [Ev_write (sfd m) cmd]"
      "next_addr w' = next_addr w" "pyerr w' = pyerr w" "serial_world.more w' = serial_world.more w"
    using module_send_runs [OF assms(2) order_refl, where req = cmd and env = env]
    by (elim exE conjE) simp
  then show ?thesis
    using assms(1) lte_ctx_more [of w' w] by (auto simp: send_text_def)
qed

lemma set_errno_lte [simp]: "lte_ctx (set_errno e w) = lte_ctx w"
  by (simp add: set_errno_def)

lemma send_text_null: "lte_ctx w = None \<Longrightarrow> send_text env cmd w = Inr (False, set_errno EINVAL w)"
  by (simp add: send_text_def module_send_def)

lemma recv_buffer_null:
  "lte_ctx w = None \<Longrightarrow> recv_buffer env w = Inr (-1, replicate MAX_RECV_BUF_SIZE NUL, set_errno EINVAL w)"
  by (simp add: recv_buffer_def module_recv_def)

lemma send_text_dangling: "dangling w \<Longrightarrow> send_text env cmd w = Inl Use_After_Free"
  by (auto simp: dangling_def send_text_def module_send_def via_backend_def module_dead)

lemma recv_buffer_dangling: "dangling w \<Longrightarrow> recv_buffer env w = Inl Use_After_Free"
  by (auto simp: dangling_def recv_buffer_def module_recv_def module_dead)

lemma recv_buffer_live:
  assumes "lte_ctx w = Some a" and "ctx_graph a m b u d t (heap w)" and "FD_SET_ok (sfd m)"
    and "settles_at env (tick w) k"
  shows "\<exists>n buf w'. recv_buffer env w = Inr (n, buf, w') \<and> n \<le> int MAX_RECV_BUF_SIZE \<and>
    length buf = MAX_RECV_BUF_SIZE \<and> heap w' = heap w \<and> next_addr w' = next_addr w \<and>
    lte_ctx w' = lte_ctx w \<and> pyerr w' = pyerr w \<and> io_log w' = io_log w"
proof -
  let ?z = "replicate MAX_RECV_BUF_SIZE NUL"
  let ?r = "read_into (env_read env (tick w + k + 1)) MAX_RECV_BUF_SIZE ?z"
  have z: "MAX_RECV_BUF_SIZE \<le> length ?z" by simp
  obtain w' where w': "module_recv env (Some a) ?z MAX_RECV_BUF_SIZE w =
      (if env_select env (tick w + k) = Sel_ready then Inr (fst ?r, snd ?r, w') else Inr (-1, ?z, w'))"
      "heap w' = heap w" "io_log w' = io_log w" "next_addr w' = next_addr w" "pyerr w' = pyerr w"
      "serial_world.more w' = serial_world.more w"
    using module_recv_runs [OF assms(2-4) z] by (elim exE conjE) simp
  have "length (snd ?r) = MAX_RECV_BUF_SIZE" "fst ?r \<le> int MAX_RECV_BUF_SIZE"
    using length_read_into [of MAX_RECV_BUF_SIZE ?z] read_into_bounds by simp_all
  then show ?thesis
    using w' assms(1) lte_ctx_more [OF w'(6)] by (cases "env_select env (tick w + k) = Sel_ready")
      (auto simp: recv_buffer_def)
qed

lemma select_returns_settles:
  assumes "select_loop env w = Some y"
  obtains k where "settles_at env (tick w) k"
  using select_loop_ready [OF assms] settles_ex by blast

lemma recv_needs_select:
  assumes "lte_ctx w = Some a" and "ctx_graph a m b u d t (heap w)"
    and "recv_buffer env w = Inr r"
  shows "FD_SET_ok (sfd m) \<and> (\<exists>k. settles_at env (tick w) k)"
proof -
  have ok: "FD_SET_ok (sfd m)"
    using assms by (auto simp: recv_buffer_def module_recv_def graph_loads [OF assms(2)] split: if_splits)
  have "select_loop env w \<noteq> None"
    using assms ok by (auto simp: recv_buffer_def module_recv_def graph_loads [OF assms(2)]
        via_backend_graph [OF assms(2)] uarts_select_def
        split: option.splits)
  then show ?thesis using ok select_returns_settles by (metis not_None_eq)
qed

lemma ctx_live_graph:
  assumes "ctx_live w"
  obtains a m b u d t where "lte_ctx w = Some a" "ctx_graph a m b u d t (heap w)"
  using assms unfolding ctx_live_def live_def by blast

lemma lte_cases:
  assumes "lte_inv w"
  obtains (Null) "lte_ctx w = None" | (Live) "ctx_live w" | (Dangling) "dangling w"
  using assms that unfolding lte_inv_def by blast

text \<open>The commands handed to the shell so far.\<close>

definition shell_log :: "lte_world \<Rightarrow> string list" where
  "shell_log w = List.map_filter (\<lambda>e. case e of Ev_system t \<Rightarrow> Some t | _ \<Rightarrow> None) (io_log w)"

lemma shell_log_append:
  "io_log w' = io_log w @ es \<Longrightarrow>
   shell_log w' = shell_log w @ List.map_filter (\<lambda>e. case e of Ev_system t \<Rightarrow> Some t | _ \<Rightarrow> None) es"
  by (simp add: shell_log_def map_filter_def)

lemma send_text_keeps:
  assumes "lte_inv w" and "send_text env cmd w = Inr (b, w')"
  shows "lte_inv w' \<and> pyerr w' = pyerr w \<and> shell_log w' = shell_log w"
  using assms(1)
proof (cases rule: lte_cases)
  case Null
  then have "w' = set_errno EINVAL w" using assms(2) by (simp add: send_text_null)
  then show ?thesis using lte_inv_frame [OF assms(1), of w'] by (simp add: shell_log_def)
next
  case Live
  then obtain a m b u d t where g: "lte_ctx w = Some a" "ctx_graph a m b u d t (heap w)"
    by (rule ctx_live_graph)
  then have "heap w' = heap w \<and> next_addr w' = next_addr w \<and> lte_ctx w' = lte_ctx w \<and> pyerr w' = pyerr w \<and>
      io_log w' = io_log w @ [Ev_write (sfd m) cmd]"
    using send_text_live [OF g, of env cmd] assms(2) by auto
  then show ?thesis
    using lte_inv_frame [OF assms(1), of w'] by (simp add: shell_log_def map_filter_def)
next
  case Dangling
  then show ?thesis using assms(2) by (simp add: send_text_dangling)
qed

lemma recv_buffer_keeps:
  assumes "lte_inv w" and "recv_buffer env w = Inr (n, buf, w')"
  shows "lte_inv w' \<and> pyerr w' = pyerr w \<and> shell_log w' = shell_log w"
  using assms(1)
proof (cases rule: lte_cases)
  case Null
  then have "w' = set_errno EINVAL w" using assms(2) by (simp add: recv_buffer_null)
  then show ?thesis using lte_inv_frame [OF assms(1), of w'] by (simp add: shell_log_def)
next
  case Live
  then obtain a m b u d t where g: "lte_ctx w = Some a" "ctx_graph a m b u d t (heap w)"
    by (rule ctx_live_graph)
  obtain k where k: "FD_SET_ok (sfd m)" "settles_at env (tick w) k"
    using recv_needs_select [OF g assms(2)] by blast
  have "heap w' = heap w \<and> next_addr w' = next_addr w \<and> lte_ctx w' = lte_ctx w \<and> pyerr w' = pyerr w \<and>
      io_log w' = io_log w"
    using recv_buffer_live [OF g k] assms(2) by auto
  then show ?thesis
    using lte_inv_frame [OF assms(1), of w'] by (simp add: shell_log_def map_filter_def)
next
  case Dangling
  then show ?thesis using assms(2) by (simp add: recv_buffer_dangling)
qed

lemma usleep_keeps [simp]:
  "heap (usleep_300 w) = heap w" "next_addr (usleep_300 w) = next_addr w"
  "lte_ctx (usleep_300 w) = lte_ctx w" "pyerr (usleep_300 w) = pyerr w"
  by (simp_all add: usleep_300_def) (simp add: emit_def)

interpretation serial_channel: at_channel "send_text env" "recv_buffer env" usleep_300 lte_inv pyerr
  for env
proof unfold_locales
  show "lte_inv w \<Longrightarrow> lte_inv (usleep_300 w) \<and> pyerr (usleep_300 w) = pyerr w" for w
    using lte_inv_frame [of w "usleep_300 w"] by simp
qed (use send_text_keeps recv_buffer_keeps in blast)+

lemma shell_log_usleep [simp]: "shell_log (usleep_300 w) = shell_log w"
  by (simp add: shell_log_def usleep_300_def map_filter_def)

text \<open>The same channel with the invariant that nothing is handed to the shell.\<close>

interpretation serial_quiet: at_channel "send_text env" "recv_buffer env" usleep_300
  "\<lambda>w. lte_inv w \<and> shell_log w = log" pyerr for env log
proof unfold_locales
  show "lte_inv w \<and> shell_log w = log \<Longrightarrow>
      (lte_inv (usleep_300 w) \<and> shell_log (usleep_300 w) = log) \<and> pyerr (usleep_300 w) = pyerr w" for w
    using lte_inv_frame [of w "usleep_300 w"] by simp
qed (use send_text_keeps recv_buffer_keeps in blast)+

definition lte_up :: "serial_env \<Rightarrow> lte_world \<Rightarrow> bool" where
  "lte_up env w \<longleftrightarrow> responsive env \<and> wf_heap w \<and> connected w"

lemma lte_up_frame:
  assumes "lte_up env w" and "heap w' = heap w" and "next_addr w' = next_addr w"
    and "lte_ctx w' = lte_ctx w"
  shows "lte_up env w'"
  using assms by (simp add: lte_up_def wf_heap_def connected_def)

lemma lte_upE:
  assumes "lte_up env w"
  obtains a m b u d t k where "lte_ctx w = Some a" "ctx_graph a m b u d t (heap w)"
    "FD_SET_ok (sfd m)" "settles_at env (tick w) k"
  using assms settles_ex unfolding lte_up_def connected_def responsive_def by metis

interpretation serial_live: live_channel "send_text env" "recv_buffer env" usleep_300 lte_inv pyerr
  "lte_up env" MAX_RECV_BUF_SIZE for env
proof unfold_locales
  fix w assume up: "lte_up env w"
  obtain a m b u d t k where g: "lte_ctx w = Some a" "ctx_graph a m b u d t (heap w)"
      "FD_SET_ok (sfd m)" "settles_at env (tick w) k"
    using up by (rule lte_upE)
  show "lte_inv w"
    using up live_graph [OF g(2)] g(1) by (simp add: lte_up_def lte_inv_def ctx_live_def)
  show "\<exists>b w'. send_text env t w = Inr (b, w') \<and> lte_up env w'" for t
    using send_text_live [OF g(1,2), of env t] lte_up_frame [OF up] by (elim exE conjE) simp
  show "\<exists>n buf w'. recv_buffer env w = Inr (n, buf, w') \<and> lte_up env w' \<and>
      n \<le> int MAX_RECV_BUF_SIZE \<and> length buf = MAX_RECV_BUF_SIZE"
    using recv_buffer_live [OF g] lte_up_frame [OF up] by (elim exE conjE) simp
  show "lte_up env (usleep_300 w)"
    by (rule lte_up_frame [OF up]) simp_all
qed

section \<open>Judging an answer\<close>

lemma key_fits: "length ndisstatqry \<le> MAX_RECV_BUF_SIZE" "ndisstatqry \<noteq> []" "length ndisstatqry = 14"
  by (simp_all add: ndisstatqry_def MAX_RECV_BUF_SIZE_def)

lemma answered_eq:
  assumes "key \<noteq> []" and "length key \<le> MAX_RECV_BUF_SIZE" and "len \<le> int (length buf)"
  shows "answered key buf len = Inr (\<exists>q. occurs_at key (take (nat len) buf) q)"
proof (cases "len \<le> 0")
  case True
  have "\<not> occurs_at key [] q" for q
    using occurs_at_length [of key "[]" q] assms(1) by auto
  with True show ?thesis by (simp add: answered_def)
next
  case False
  have "KMP_Match buf key (int (nat len)) = Inr (first_occurrence key (take (nat len) buf))"
    by (rule KMP_Match_first_occurrence [OF assms(1,2)]) (use assms(3) in simp)
  with False show ?thesis
    using first_occurrence_found_iff [OF assms(1), of "take (nat len) buf"] by (simp add: answered_def)
qed

lemma judge_keyword_eq:
  assumes "key \<noteq> []" and "length key \<le> MAX_RECV_BUF_SIZE" and "len \<le> int (length buf)"
  shows "judge_keyword key buf len =
    Inr (if \<exists>q. occurs_at key (take (nat len) buf) q then Some Py_True else None)"
  by (simp add: judge_keyword_def answered_eq [OF assms])

definition status_verdict :: "char \<Rightarrow> py_object option" where
  "status_verdict c =
     (if c = CHR ''0'' then Some (PyUnicode ''offline'')
      else if c = CHR ''1'' then Some (PyUnicode ''online'') else None)"

lemma judge_status_cases:
  assumes "length buf = MAX_RECV_BUF_SIZE" and "len \<le> int MAX_RECV_BUF_SIZE"
  shows "judge_status buf len =
    (if \<exists>q. occurs_at ndisstatqry (take (nat len) buf) q
     then if first_occurrence ndisstatqry (take (nat len) buf) = 242 then Inl Out_Of_Bounds_Read
          else Inr (status_verdict
            (buf ! (nat (first_occurrence ndisstatqry (take (nat len) buf)) + 14)))
     else Inr None)"
proof (cases "len \<le> 0")
  case True
  have "\<not> occurs_at ndisstatqry [] q" for q
    using occurs_at_length [of ndisstatqry "[]" q] key_fits(2) by auto
  with True show ?thesis
    by (simp add: judge_status_def KMP_Match_negative [OF key_fits(2,1) True])
next
  case False
  let ?s = "take (nat len) buf" let ?p = "first_occurrence ndisstatqry ?s"
  have m: "KMP_Match buf ndisstatqry len = Inr ?p"
    using KMP_Match_first_occurrence [OF key_fits(2,1), of "nat len" buf] assms False by simp
  show ?thesis
  proof (cases "?p = -1")
    case True
    then show ?thesis
      using first_occurrence_found_iff [OF key_fits(2), of ?s] by (simp add: judge_status_def m)
  next
    case found: False
    obtain q where q: "?p = int q" "occurs_at ndisstatqry ?s q"
      using first_occurrence_nonneg [OF found] by blast
    have "q + 14 \<le> length ?s"
      using occurs_at_length [OF q(2) key_fits(2)] key_fits(3) by simp
    then have "q \<le> 242" using assms by (simp add: MAX_RECV_BUF_SIZE_def)
    then show ?thesis
      using False q first_occurrence_found_iff [OF key_fits(2), of ?s] assms(1)
      by (auto simp: judge_status_def m key_fits(3) status_verdict_def MAX_RECV_BUF_SIZE_def)
  qed
qed

lemma judge_status_value:
  assumes "length buf = MAX_RECV_BUF_SIZE" and "len \<le> int MAX_RECV_BUF_SIZE"
    and "judge_status buf len = Inr (Some r)"
  shows "r = PyUnicode ''offline'' \<or> r = PyUnicode ''online''"
  using assms(3) judge_status_cases [OF assms(1,2)]
  by (auto simp: status_verdict_def split: if_splits)

lemma judge_status_fault:
  assumes "length buf = MAX_RECV_BUF_SIZE" and "len \<le> int MAX_RECV_BUF_SIZE"
    and "judge_status buf len = Inl e"
  shows "e = Out_Of_Bounds_Read \<and> len = 256 \<and> first_occurrence ndisstatqry buf = 242"
proof -
  have p: "\<exists>q. occurs_at ndisstatqry (take (nat len) buf) q" "e = Out_Of_Bounds_Read"
      "first_occurrence ndisstatqry (take (nat len) buf) = 242"
    using assms(3) judge_status_cases [OF assms(1,2)] by (auto split: if_splits)
  have "occurs_at ndisstatqry (take (nat len) buf) 242"
    using first_occurrence_nonneg [of ndisstatqry "take (nat len) buf"] p(3) by auto
  then have "256 \<le> length (take (nat len) buf)"
    using occurs_at_length [OF _ key_fits(2)] key_fits(3) by fastforce
  then have "len = 256" using assms(1,2) by (simp add: MAX_RECV_BUF_SIZE_def)
  then show ?thesis using p assms(1) by (simp add: MAX_RECV_BUF_SIZE_def)
qed

section \<open>Opening and closing the modem\<close>

lemma PyErr_SetString_simps [simp]:
  "heap (PyErr_SetString m w) = heap w" "next_addr (PyErr_SetString m w) = next_addr w"
  "lte_ctx (PyErr_SetString m v) = lte_ctx v" "pyerr (PyErr_SetString m w) = Some m"
  "io_log (PyErr_SetString m w) = io_log w"
  by (simp_all add: PyErr_SetString_def)

lemma lte_inv_PyErr [simp]: "lte_inv (PyErr_SetString m w) = lte_inv w"
  by (simp add: lte_inv_def ctx_live_def dangling_def live_def wf_heap_def)

definition may_open :: "serial_env \<Rightarrow> string \<Rightarrow> int \<Rightarrow> char \<Rightarrow> nat \<Rightarrow> bool" where
  "may_open env device baud parity k \<longleftrightarrow>
     device \<noteq> [] \<and> baud \<noteq> 0 \<and> huawei_found env k \<and> valid_parity parity"

lemma new_result_ctx:
  "fst (new_result env t baud parity db sb w) =
     (if may_open env t baud parity (tick w) then Some (next_addr w) else None)"
  by (auto simp: new_result_def may_open_def)

lemma new_result_heap:
  "may_open env t baud parity (tick w) \<Longrightarrow>
   snd (new_result env t baud parity db sb w) = with_ctx (next_addr w) t baud parity db sb (heap w)"
  by (simp add: new_result_def may_open_def)

lemma new_lte_refused:
  assumes "wf_heap w" and "\<forall>k. env_malloc env k" and "env_lsusb env (tick w) \<noteq> None"
    and "\<not> may_open env device baud parity (tick w)"
  shows "\<exists>w'. new_lte env (Some (device, baud, parity, db, sb)) w = Inr (None, w') \<and>
    pyerr w' = Some ''Illegal function [module_new]'' \<and> lte_ctx w' = None \<and> wf_heap w'"
proof -
  obtain w1 where w1: "module_new env (Some device) baud parity db sb w = Inr (None, w1)" "wf_heap w1"
    using module_new_runs [OF assms(1-3), of device baud parity db sb] assms(4)
    by (elim exE conjE) (simp add: new_result_ctx)
  then show ?thesis
    by (simp add: new_lte_def wf_heap_def)
qed

lemma free_connected:
  assumes "ctx_graph n m (n + 1) u (n + 2) t (heap w2)"
    and "heap w2 = (with_ctx n t baud parity db sb h)(n := x, n + 1 := y)"
    and "h n = None" "h (n + 1) = None" "h (n + 2) = None"
  shows "\<exists>w3. module_free (Some n) w2 = Inr w3 \<and> w3 = w2\<lparr>heap := h\<rparr>"
proof -
  have "(heap w2)(n + 2 := None, n + 1 := None, n := None) = h"
    using assms(2-5) by (auto simp: with_ctx_def fun_eq_iff)
  then show ?thesis using module_free_graph [OF assms(1)] by simp
qed

lemma new_lte_opened:
  assumes "wf_heap w" and "\<forall>k. env_malloc env k" and "env_lsusb env (tick w) \<noteq> None"
    and "may_open env device baud parity (tick w)"
  shows "if connect_ok env device (tick w + 4)
    then \<exists>w'. new_lte env (Some (device, baud, parity, db, sb)) w = Inr (Some Py_True, w') \<and>
           pyerr w' = pyerr w \<and> lte_ctx w' = Some (next_addr w) \<and> wf_heap w' \<and>
           (\<exists>m u. ctx_graph (next_addr w) m (next_addr w + 1) u (next_addr w + 2) device (heap w') \<and>
              sfd m = env_open env (tick w + 4) device)
    else \<exists>w'. new_lte env (Some (device, baud, parity, db, sb)) w = Inr (None, w') \<and>
           pyerr w' = Some ''Illegal function [module_connect]'' \<and>
           lte_ctx w' = Some (next_addr w) \<and> heap w' = heap w \<and> wf_heap w'"
proof -
  let ?n = "next_addr w"
  obtain w1 where w1: "module_new env (Some device) baud parity db sb w = Inr (Some ?n, w1)"
      "heap w1 = with_ctx ?n device baud parity db sb (heap w)" "wf_heap w1" "?n \<le> next_addr w1"
      "pyerr w1 = pyerr w" "tick w1 = tick w + 4"
    using module_new_runs [OF assms(1-3), of device baud parity db sb] assms(4)
    by (elim exE conjE) (simp add: new_result_ctx new_result_heap)
  let ?w = "w1\<lparr>lte_ctx := Some ?n\<rparr>"
  let ?m = "new_module (Some (?n + 1))" and ?u = "new_serial (Some (?n + 2)) baud parity db sb"
  have g: "ctx_graph ?n ?m (?n + 1) ?u (?n + 2) device (heap ?w)"
    using with_ctx_graph w1(2) by simp
  let ?ok = "connect_ok env device (tick w + 4)" and ?fd = "env_open env (tick w + 4) device"
  have tw: "tick ?w = tick w + 4" and pw: "pyerr ?w = pyerr w" and nw: "next_addr ?w = next_addr w1"
    using w1(5,6) by simp_all
  obtain w2 u' where w2: "uarts_connect env (Some ?n) ?w = Inr (if ?ok then 0 else -1, w2)"
      "heap w2 = (heap ?w)(?n \<mapsto> Module (?m\<lparr>sfd := if ?ok then ?fd else -1\<rparr>), ?n + 1 \<mapsto> Serial u')"
      "u' = (if ?fd = -1 then ?u else saved_line env (tick w + 4) ?u)"
      "next_addr w2 = next_addr w1" "pyerr w2 = pyerr w"
      "serial_world.more w2 = serial_world.more ?w"
    using uarts_connect_runs [OF g, of env] unfolding tw pw nw by (elim exE conjE)
  have w2u: "us_device u' = Some (?n + 2)" by (simp add: w2(3) new_serial_def)
  have ctx2: "lte_ctx w2 = Some ?n" using lte_ctx_more [OF w2(6)] by simp
  have conn: "module_connect env (Some ?n) ?w = Inr (if ?ok then 0 else -1, w2)"
    by (simp add: module_connect_def via_backend_graph [OF g] w2(1))
  have g2: "ctx_graph ?n (?m\<lparr>sfd := if ?ok then ?fd else -1\<rparr>) (?n + 1) u' (?n + 2) device (heap w2)"
    unfolding w2(2) by (rule graph_connected [OF g]) (simp add: w2u new_serial_def)
  have wf2: "wf_heap w2"
    using w1(3) w2(4) g by (auto simp: wf_heap_def w2(2) ctx_graph_def)
  have fresh: "heap w ?n = None" "heap w (?n + 1) = None" "heap w (?n + 2) = None"
    using wf_heapD [OF assms(1)] by simp_all
  have new: "new_lte env (Some (device, baud, parity, db, sb)) w =
      (if ?ok then Inr (Some Py_True, w2)
       else bind_run (module_free (Some ?n) w2) (\<lambda>w.
            Inr (None, PyErr_SetString ''Illegal function [module_connect]'' w)))"
    by (simp add: new_lte_def w1(1) conn ctx2)
  show ?thesis
  proof (cases ?ok)
    case True
    then show ?thesis using new w2(5) ctx2 wf2 g2 by auto
  next
    case False
    have h2: "heap w2 = (with_ctx ?n device baud parity db sb (heap w))
        (?n := Some (Module (?m\<lparr>sfd := if ?ok then ?fd else -1\<rparr>)), ?n + 1 := Some (Serial u'))"
      using w2(2) w1(2) by simp
    have fr: "module_free (Some ?n) w2 = Inr (w2\<lparr>heap := heap w\<rparr>)"
      using free_connected [OF g2 h2 fresh] by auto
    have "wf_heap (w2\<lparr>heap := heap w\<rparr>)"
      using assms(1) w1(4) w2(4) by (simp add: wf_heap_def)
    then show ?thesis
      using False new fr ctx2 by (simp add: wf_heap_def)
  qed
qed

lemma del_lte_live:
  assumes "lte_ctx w = Some a" and "ctx_graph a m b u d t (heap w)"
  shows "\<exists>w'. del_lte w = Inr (Some Py_None, w') \<and> free_lte w = Inr w' \<and>
    heap w' = (heap w)(d := None, b := None, a := None) \<and> next_addr w' = next_addr w \<and>
    lte_ctx w' = Some a \<and> pyerr w' = pyerr w \<and>
    io_log w' = io_log w @
      (if sfd m = -1 then [] else [Ev_tcsetattr (sfd m) (us_old_tios u), Ev_close (sfd m)])"
proof -
  have dist: "a \<noteq> b" "a \<noteq> d" "b \<noteq> d" using ctx_graph_distinct [OF assms(2)] by simp_all
  obtain w1 where w1: "module_close (Some a) w = Inr w1"
      "heap w1 = (heap w)(a \<mapsto> Module (m\<lparr>sfd := -1\<rparr>))"
      "ctx_graph a (m\<lparr>sfd := -1\<rparr>) b u d t (heap w1)"
      "io_log w1 = io_log w @
        (if sfd m = -1 then [] else [Ev_tcsetattr (sfd m) (us_old_tios u), Ev_close (sfd m)])"
      "next_addr w1 = next_addr w" "pyerr w1 = pyerr w"
      "serial_world.more w1 = serial_world.more w"
  proof -
    have g: "heap w a = Some (Module m)" "backend_data m = Some b"
      using assms(2) by (simp_all add: ctx_graph_def)
    have idem: "m\<lparr>sfd := -1\<rparr> = m" "(heap w)(a \<mapsto> Module m) = heap w" if "sfd m = -1"
      using that g by (simp_all add: fun_upd_idem)
    have g1: "ctx_graph a (m\<lparr>sfd := -1\<rparr>) b u d t ((heap w)(a \<mapsto> Module (m\<lparr>sfd := -1\<rparr>)))"
      by (rule graph_update_module [OF assms(2)]) simp_all
    show thesis
    proof (cases "sfd m = -1")
      case True
      have "module_close (Some a) w = Inr w"
        using True by (simp add: module_close_def via_backend_graph [OF assms(2)] uarts_close_def
            graph_loads [OF assms(2)])
      then show thesis
        using True g1 assms(2) by (intro that [of w]) (simp_all add: idem [OF True])
    next
      case False
      let ?w1 = "(sys_close (sfd m) (emit (Ev_tcsetattr (sfd m) (us_old_tios u)) (tock w)))
        \<lparr>heap := (heap w)(a \<mapsto> Module (m\<lparr>sfd := -1\<rparr>))\<rparr>"
      have "module_close (Some a) w = Inr ?w1"
        using False g by (simp add: module_close_def via_backend_graph [OF assms(2)] uarts_close_def
            graph_loads [OF assms(2)] store_def sys_close_def Let_def)
      then show thesis
        using False g1 by (intro that [of ?w1]) (simp_all add: sys_close_def)
    qed
  qed
  have c1: "lte_ctx w1 = Some a" using lte_ctx_more [OF w1(7)] assms(1) by simp
  let ?w' = "w1\<lparr>heap := (heap w1)(d := None, b := None, a := None)\<rparr>"
  have f: "module_free (Some a) w1 = Inr ?w'" by (rule module_free_graph [OF w1(3)])
  have h: "(heap w1)(d := None, b := None, a := None) = (heap w)(d := None, b := None, a := None)"
    using dist by (auto simp: w1(2) fun_eq_iff)
  show ?thesis
    using w1 c1 f h assms(1) by (simp add: del_lte_def free_lte_def)
qed

lemma dangling_module:
  assumes "dangling w"
  shows "module_close (lte_ctx w) w = Inl Use_After_Free" "module_free (lte_ctx w) w = Inl Use_After_Free"
  using assms by (auto simp: dangling_def module_close_def module_free_def via_backend_def module_dead)

lemma del_lte_keeps:
  assumes "lte_inv w" and "del_lte w = Inr (r, w')"
  shows "lte_inv w' \<and> pyerr w' = pyerr w \<and> r = Some Py_None"
  using assms(1)
proof (cases rule: lte_cases)
  case Null
  then show ?thesis using assms by (simp add: del_lte_def module_close_def module_free_def)
next
  case Live
  then obtain a m b u d t where g: "lte_ctx w = Some a" "ctx_graph a m b u d t (heap w)"
    by (rule ctx_live_graph)
  have "wf_heap w" using assms(1) by (simp add: lte_inv_def)
  moreover have "heap w' = (heap w)(d := None, b := None, a := None) \<and> next_addr w' = next_addr w \<and>
      lte_ctx w' = Some a \<and> pyerr w' = pyerr w \<and> r = Some Py_None"
    using del_lte_live [OF g] assms(2) by (elim exE conjE) simp
  ultimately show ?thesis by (simp add: lte_inv_def dangling_def wf_heap_def)
next
  case Dangling
  then show ?thesis using assms(2) by (simp add: del_lte_def dangling_module)
qed

lemma new_lte_keeps:
  assumes "lte_inv w" and "pyerr w = None" and "\<forall>k. env_malloc env k"
    and "new_lte env args w = Inr (r, w')"
  shows "lte_inv w' \<and> py_protocol r (pyerr w')"
proof (cases args)
  case None
  then show ?thesis using assms(1,4) by (auto simp: new_lte_def)
next
  case (Some x)
  obtain device baud parity db sb where args: "args = Some (device, baud, parity, db, sb)"
    using Some by (cases x) auto
  have wf: "wf_heap w" using assms(1) by (simp add: lte_inv_def)
  show ?thesis
  proof (cases "env_lsusb env (tick w) = None")
    case True
    then have new: "module_new env (Some device) baud parity db sb w =
        (if device = [] \<or> baud = 0 then Inr (None, set_errno EINVAL w) else Inl Null_Pointer)"
      by (simp add: module_new_def)
    then have "r = None \<and> w' = PyErr_SetString ''Illegal function [module_new]''
        ((set_errno EINVAL w)\<lparr>lte_ctx := None\<rparr>)"
      using assms(4) by (auto simp: args new_lte_def split: if_splits)
    then show ?thesis using wf by (simp add: lte_inv_def wf_heap_def)
  next
    case lsusb: False
    show ?thesis
    proof (cases "may_open env device baud parity (tick w)")
      case False
      have "r = None \<and> pyerr w' \<noteq> None \<and> lte_ctx w' = None \<and> wf_heap w'"
        using new_lte_refused [OF wf assms(3) lsusb False, of db sb] assms(4) unfolding args
        by (elim exE conjE) simp
      then show ?thesis by (auto simp: lte_inv_def py_protocol_def)
    next
      case True
      note o = new_lte_opened [OF wf assms(3) lsusb True, of db sb]
      show ?thesis
      proof (cases "connect_ok env device (tick w + 4)")
        case ok: True
        obtain m u where "r = Some Py_True" "pyerr w' = None" "lte_ctx w' = Some (next_addr w)" "wf_heap w'"
          "ctx_graph (next_addr w) m (next_addr w + 1) u (next_addr w + 2) device (heap w')"
          using o assms(2,4) unfolding args if_P [OF ok] by (elim exE conjE) simp
        then show ?thesis using live_graph by (auto simp: lte_inv_def ctx_live_def)
      next
        case False
        have "r = None \<and> pyerr w' \<noteq> None \<and> lte_ctx w' = Some (next_addr w) \<and> heap w' = heap w \<and> wf_heap w'"
          using o assms(4) unfolding args if_not_P [OF False] by (elim exE conjE) simp
        then show ?thesis
          using wf_heapD(1) [OF wf] by (auto simp: lte_inv_def dangling_def py_protocol_def)
      qed
    qed
  qed
qed

section \<open>Every method obeys the interpreter's rule\<close>

definition sound :: "(py_result \<times> lte_world) run \<Rightarrow> bool" where
  "sound r \<longleftrightarrow> (\<forall>x w'. r = Inr (x, w') \<longrightarrow> lte_inv w' \<and> py_protocol x (pyerr w'))"

lemma sound_Inl [simp]: "sound (Inl e)"
  by (simp add: sound_def)

lemma sound_value: "lte_inv w \<Longrightarrow> pyerr w = None \<Longrightarrow> sound (Inr (Some x, w))"
  by (simp add: sound_def)

lemma sound_error: "lte_inv w \<Longrightarrow> sound (Inr (None, PyErr_SetString m w))"
  by (simp add: sound_def)

lemma sound_send:
  assumes "lte_inv w" and "pyerr w = None"
    and "\<And>b w1. lte_inv w1 \<Longrightarrow> pyerr w1 = None \<Longrightarrow> sound (f (b, w1))"
  shows "sound (bind_run (send_text env t w) f)"
proof (cases "send_text env t w")
  case (Inr p)
  obtain b w1 where "p = (b, w1)" by (cases p)
  then show ?thesis
    using Inr assms serial_channel.send_keeps [OF assms(1), of env t b w1] by simp
qed simp

lemma sound_recv:
  assumes "lte_inv w" and "pyerr w = None"
    and "\<And>n buf w1. lte_inv w1 \<Longrightarrow> pyerr w1 = None \<Longrightarrow> sound (f (n, buf, w1))"
  shows "sound (bind_run (recv_buffer env w) f)"
proof (cases "recv_buffer env w")
  case (Inr p)
  obtain n buf w1 where "p = (n, buf, w1)" by (cases p)
  then show ?thesis
    using Inr assms serial_channel.recv_keeps [OF assms(1), of env n buf w1] by simp
qed simp

lemma sound_poll:
  assumes "lte_inv w" and "pyerr w = None"
    and "\<And>v w1. lte_inv w1 \<Longrightarrow> pyerr w1 = None \<Longrightarrow> sound (f (v, w1))"
  shows "sound (bind_run (poll (recv_buffer env) usleep_300 judge n w) f)"
proof (cases "poll (recv_buffer env) usleep_300 judge n w")
  case (Inr p)
  obtain v w1 where "p = (v, w1)" by (cases p)
  then show ?thesis
    using Inr assms serial_channel.poll_keeps [OF assms(1), of env judge n v w1] by simp
qed simp

lemma sound_pure: "(\<And>x. sound (f x)) \<Longrightarrow> sound (bind_run r f)"
  by (cases r) simp_all

lemma sound_answered: "(\<And>x. sound (f x)) \<Longrightarrow> sound (bind_run (answered key buf len) f)"
  by (rule sound_pure)

lemma sound_sprintf: "(\<And>x. sound (f x)) \<Longrightarrow> sound (bind_run (sprintf_buf n t) f)"
  by (rule sound_pure)

lemma sound_option: "(v = None \<Longrightarrow> sound a) \<Longrightarrow> (\<And>x. v = Some x \<Longrightarrow> sound (b x)) \<Longrightarrow>
    sound (case v of None \<Rightarrow> a | Some x \<Rightarrow> b x)"
  by (cases v) simp_all

lemma sound_if: "(c \<Longrightarrow> sound a) \<Longrightarrow> (\<not> c \<Longrightarrow> sound b) \<Longrightarrow> sound (if c then a else b)"
  by simp

lemmas sound_intros = sound_send sound_recv sound_poll sound_answered sound_sprintf sound_option
  sound_error sound_value

lemma lte_inv_emit [simp]: "lte_inv (emit e w) = lte_inv w"
  by (simp add: emit_def lte_inv_def ctx_live_def dangling_def live_def wf_heap_def)

lemma init_loop_sound: "lte_inv w \<Longrightarrow> pyerr w = None \<Longrightarrow> sound (init_loop env cs w)"
proof (induction cs arbitrary: w)
  case Nil
  then show ?case by (simp add: sound_value)
next
  case (Cons c cs)
  show ?case
    unfolding init_loop.simps
    by (intro sound_send Cons.prems)
      (auto intro!: sound_intros Cons.IH)
qed

lemma methods_sound:
  assumes "lte_inv w" and "pyerr w = None"
  shows "sound (init env w)" "sound (cmd_lte utf8_ok env t w)" "sound (led env s w)"
    "sound (status env w)" "sound (online env w)" "sound (offline env w)" "sound (restart env w)"
    "sound (call env t w)" "sound (hangup env w)" "sound (del_lte w)"
proof -
  show "sound (init env w)" by (simp add: init_def init_loop_sound assms)
  show "sound (cmd_lte utf8_ok env t w)"
    unfolding cmd_lte_def build_s_def using assms
    by (auto intro!: sound_intros)
  show "sound (led env s w)"
    unfolding led_def using assms
    by (auto intro!: sound_intros)
  show "sound (status env w)"
    unfolding status_def using assms
    by (auto intro!: sound_intros split: option.split)
  show "sound (online env w)"
    unfolding online_def using assms
    by (auto intro!: sound_intros split: option.split)
  show "sound (offline env w)"
    unfolding offline_def using assms
    by (auto intro!: sound_intros split: option.split)
  show "sound (restart env w)" "sound (hangup env w)"
    unfolding restart_def hangup_def using assms by (auto intro!: sound_intros)
  show "sound (call env t w)"
    unfolding call_def using assms
    by (auto intro!: sound_intros)
  show "sound (del_lte w)"
    using assms del_lte_keeps [OF assms(1)] by (auto simp: sound_def)
qed

lemma lte_methods_sound:
  assumes "lte_inv w" and "pyerr w = None" and "\<forall>k. env_malloc env k"
  shows "sound (lte_methods utf8_ok env c w)"
  using assms methods_sound [OF assms(1,2)] new_lte_keeps [OF assms]
  by (cases c) (simp_all add: sound_def)

definition clear_pyerr :: "lte_world \<Rightarrow> lte_world" where
  "clear_pyerr w = w\<lparr>pyerr := None\<rparr>"

interpretation lte_module: py_module "lte_methods utf8_ok env" pyerr clear_pyerr
  "\<lambda>w. lte_inv w \<and> (\<forall>k. env_malloc env k)" for utf8_ok env
proof unfold_locales
  show "pyerr (clear_pyerr s) = None" for s
    by (simp add: clear_pyerr_def)
  show "lte_inv s \<and> (\<forall>k. env_malloc env k) \<Longrightarrow>
      lte_inv (clear_pyerr s) \<and> (\<forall>k. env_malloc env k)" for s
    by (simp add: clear_pyerr_def lte_inv_def ctx_live_def dangling_def live_def wf_heap_def)
  show "lte_inv s \<and> (\<forall>k. env_malloc env k) \<Longrightarrow> pyerr s = None \<Longrightarrow>
      lte_methods utf8_ok env c s = Inr (r, s') \<Longrightarrow> lte_inv s' \<and> (\<forall>k. env_malloc env k)" for s c r s'
    using lte_methods_sound [of s env utf8_ok c] by (simp add: sound_def)
  show "lte_inv s \<and> (\<forall>k. env_malloc env k) \<Longrightarrow> pyerr s = None \<Longrightarrow>
      lte_methods utf8_ok env c s = Inr (r, s') \<Longrightarrow> py_protocol r (pyerr s')" for s c r s'
    using lte_methods_sound [of s env utf8_ok c] by (simp add: sound_def)
qed

section \<open>Properties\<close>

text \<open>
  \<open>new_lte\<close> (with memory and an answer of \<open>lsusb\<close>). It refuses an empty device, a zero rate, a
  foreign adapter or a bad parity, and leaves \<open>ctx\<close> at \<open>NULL\<close>; if the connection works it returns
  \<open>True\<close> with a live context on the opened descriptor; if it does not, everything allocated is
  released again, but \<open>ctx\<close> keeps the address of the released context.
\<close>

theorem new_lte_outcome:
  assumes "wf_heap w" and "\<forall>k. env_malloc env k" and "env_lsusb env (tick w) \<noteq> None"
  shows "\<exists>r w'. new_lte env (Some (device, baud, parity, db, sb)) w = Inr (r, w') \<and> wf_heap w' \<and>
    (if \<not> may_open env device baud parity (tick w)
     then r = None \<and> lte_ctx w' = None
     else if connect_ok env device (tick w + 4)
     then r = Some Py_True \<and> ctx_live w' \<and>
          (FD_SET_ok (env_open env (tick w + 4) device) \<longrightarrow> connected w')
     else r = None \<and> heap w' = heap w \<and> dangling w')"
proof (cases "may_open env device baud parity (tick w)")
  case False
  then show ?thesis
    using new_lte_refused [OF assms False, of db sb] by (elim exE conjE) simp
next
  case True
  show ?thesis
  proof (cases "connect_ok env device (tick w + 4)")
    case ok: True
    obtain w' m u where w': "new_lte env (Some (device, baud, parity, db, sb)) w = Inr (Some Py_True, w')"
        "lte_ctx w' = Some (next_addr w)" "wf_heap w'"
        "ctx_graph (next_addr w) m (next_addr w + 1) u (next_addr w + 2) device (heap w')"
        "sfd m = env_open env (tick w + 4) device"
      using new_lte_opened [OF assms True, of db sb] unfolding if_P [OF ok] by (elim exE conjE)
    have "ctx_live w'" using live_graph [OF w'(4)] w'(2) by (simp add: ctx_live_def)
    moreover have "FD_SET_ok (sfd m) \<longrightarrow> connected w'"
      using w'(2,4) unfolding connected_def by blast
    ultimately show ?thesis using True ok w'(1,3,5) by simp
  next
    case bad: False
    obtain w' where w': "new_lte env (Some (device, baud, parity, db, sb)) w = Inr (None, w')"
        "lte_ctx w' = Some (next_addr w)" "heap w' = heap w" "wf_heap w'"
      using new_lte_opened [OF assms True, of db sb] unfolding if_not_P [OF bad] by (elim exE conjE)
    have "dangling w'" using wf_heapD(1) [OF assms(1)] w'(2,3) by (simp add: dangling_def)
    then show ?thesis using True bad w'(1,3,4) by simp
  qed
qed

text \<open>
  \<open>del_lte\<close> on a live modem puts the saved line settings back, closes the descriptor and releases
  the three blocks of the context, each once. It does not reset \<open>ctx\<close>: calling it again, calling any
  method that talks to the modem, or letting the interpreter run \<open>free_lte\<close> at exit then uses the
  released context.
\<close>

theorem del_lte_outcome:
  assumes "lte_ctx w = Some a" and "ctx_graph a m b u d t (heap w)" and "sfd m \<noteq> -1"
  shows "\<exists>w'. del_lte w = Inr (Some Py_None, w') \<and>
    heap w' = (heap w)(a := None, b := None, d := None) \<and>
    io_log w' = io_log w @ [Ev_tcsetattr (sfd m) (us_old_tios u), Ev_close (sfd m)] \<and>
    free_lte w' = Inl Use_After_Free \<and>
    (\<forall>c \<in> {Init, Del_lte, Status, Online, Offline, Restart, Hangup, Cmd_lte (Some s)}.
       lte_methods utf8_ok env c w' = Inl Use_After_Free)"
proof -
  obtain w' where w': "del_lte w = Inr (Some Py_None, w')"
      "heap w' = (heap w)(d := None, b := None, a := None)" "lte_ctx w' = Some a"
      "io_log w' = io_log w @ [Ev_tcsetattr (sfd m) (us_old_tios u), Ev_close (sfd m)]"
    using del_lte_live [OF assms(1,2)] unfolding if_not_P [OF assms(3)] by (elim exE conjE)
  have d: "dangling w'" using w'(2,3) by (simp add: dangling_def)
  have h: "heap w' = (heap w)(a := None, b := None, d := None)"
    using ctx_graph_distinct [OF assms(2)] by (simp add: w'(2) fun_upd_twist)
  have f: "free_lte w' = Inl Use_After_Free" by (simp add: free_lte_def dangling_module [OF d])
  have i: "init_cmds = hd init_cmds # tl init_cmds" by (simp add: init_cmds_def)
  have "init env w' = Inl Use_After_Free"
    unfolding init_def by (subst i) (simp add: send_text_dangling [OF d])
  then have "\<forall>c \<in> {Init, Del_lte, Status, Online, Offline, Restart, Hangup, Cmd_lte (Some s)}.
       lte_methods utf8_ok env c w' = Inl Use_After_Free"
    by (simp add: status_def online_def offline_def restart_def hangup_def cmd_lte_def del_lte_def
        send_text_dangling [OF d] dangling_module [OF d])
  then show ?thesis using w'(1,4) h f by (intro exI [of _ w'] conjI)
qed

text \<open>
  C11: over any sequence of calls to the methods of \<open>me909s\<close>, started without a context, every call
  that returns obeys the interpreter's rule, and \<open>ctx\<close> is always \<open>NULL\<close>, a live context or the address
  of a released one: never a half-built or half-released object.
\<close>

theorem lte_session_sound:
  assumes "wf_heap w" and "lte_ctx w = None" and "pyerr w = None" and "\<forall>k. env_malloc env k"
    and "py_session (lte_methods utf8_ok env) pyerr clear_pyerr cs w = Inr (outs, w')"
  shows "length outs = length cs \<and> SystemError \<notin> set outs \<and>
    (lte_ctx w' = None \<or> ctx_live w' \<or> dangling w')"
proof -
  have "lte_inv w \<and> (\<forall>k. env_malloc env k)"
    using assms(1,2,4) by (simp add: lte_inv_def)
  from lte_module.session_sound [OF this assms(3,5)] show ?thesis
    by (simp add: lte_inv_def)
qed

lemma init_loop_runs:
  assumes "responsive env" and "ctx_graph a m b u d t h" and "FD_SET_ok (sfd m)"
  shows "lte_ctx w = Some a \<Longrightarrow> heap w = h \<Longrightarrow>
    \<exists>r w' k. init_loop env cs w = Inr (r, w') \<and> heap w' = h \<and> lte_ctx w' = Some a \<and> k \<le> length cs \<and>
      io_log w' = io_log w @ map (Ev_write (sfd m)) (take k cs) \<and>
      (r = Some Py_True \<and> k = length cs \<or> r = Some Py_False \<and> 0 < k \<or>
       r = None \<and> 0 < k \<and> pyerr w' = Some Communication_faild)"
proof (induction cs arbitrary: w)
  case Nil
  then show ?case by simp
next
  case (Cons c cs)
  have g: "ctx_graph a m b u d t (heap w)" using assms(2) Cons.prems(2) by simp
  obtain w1 where s: "send_text env c w = Inr (env_write env (tick w) c = int (length c), w1)"
      "heap w1 = heap w" "lte_ctx w1 = lte_ctx w" "io_log w1 = io_log w @ [Ev_write (sfd m) c]"
    using send_text_live [OF Cons.prems(1) g, of env c] by (elim exE conjE)
  show ?case
  proof (cases "env_write env (tick w) c = int (length c)")
    case False
    then show ?thesis
      using s Cons.prems by (intro exI [of _ None] exI [of _ "PyErr_SetString Communication_faild w1"]
          exI [of _ 1]) simp
  next
    case True
    have g1: "ctx_graph a m b u d t (heap w1)" "lte_ctx w1 = Some a"
      using g s Cons.prems by simp_all
    obtain k where k: "settles_at env (tick w1) k"
      using assms(1) settles_ex unfolding responsive_def by metis
    obtain n buf w2 where r: "recv_buffer env w1 = Inr (n, buf, w2)" "n \<le> int MAX_RECV_BUF_SIZE"
        "length buf = MAX_RECV_BUF_SIZE" "heap w2 = heap w1" "lte_ctx w2 = lte_ctx w1" "io_log w2 = io_log w1"
      using recv_buffer_live [OF g1(2,1) assms(3) k] by (elim exE conjE)
    obtain ok where ok: "answered ''OK'' buf n = Inr ok"
      using answered_eq [of "''OK''" n buf] r(2,3) by (auto simp: MAX_RECV_BUF_SIZE_def)
    have step: "init_loop env (c # cs) w = (if ok then init_loop env cs w2 else Inr (Some Py_False, w2))"
      using s True r ok by simp
    show ?thesis
    proof (cases ok)
      case False
      then show ?thesis
        using step s r Cons.prems by (intro exI [of _ "Some Py_False"] exI [of _ w2] exI [of _ 1]) simp
    next
      case True
      obtain r' w' k' where ih: "init_loop env cs w2 = Inr (r', w')" "heap w' = h" "lte_ctx w' = Some a"
          "k' \<le> length cs" "io_log w' = io_log w2 @ map (Ev_write (sfd m)) (take k' cs)"
          "r' = Some Py_True \<and> k' = length cs \<or> r' = Some Py_False \<and> 0 < k' \<or>
           r' = None \<and> 0 < k' \<and> pyerr w' = Some Communication_faild"
        using Cons.IH [of w2] s r Cons.prems by (elim meta_impE exE conjE) simp_all
      show ?thesis
        using step True s r ih by (intro exI [of _ r'] exI [of _ w'] exI [of _ "Suc k'"]) auto
    qed
  qed
qed

text \<open>
  \<open>init\<close> on a live modem with a line that answers returns. It writes a prefix of the seven
  commands, each as a whole array of 16 bytes (so the NULs that fill the array go on the line too);
  \<open>True\<close> means that all seven were written, and the context is unchanged.
\<close>

theorem init_outcome:
  assumes "responsive env" and "lte_ctx w = Some a" and "ctx_graph a m b u d t (heap w)"
    and "FD_SET_ok (sfd m)"
  shows "\<exists>r w' k. init env w = Inr (r, w') \<and> heap w' = heap w \<and> k \<le> 7 \<and>
    io_log w' = io_log w @ map (Ev_write (sfd m)) (take k init_cmds) \<and>
    (\<forall>c \<in> set init_cmds. length c = 16) \<and>
    (r = Some Py_True \<and> k = 7 \<or> r = Some Py_False \<and> 0 < k \<or>
     r = None \<and> 0 < k \<and> pyerr w' = Some Communication_faild)"
proof -
  have n: "length init_cmds = 7" by (simp add: init_cmds_def)
  have c: "\<forall>c \<in> set init_cmds. length c = 16" by (simp add: init_cmds_def pad16_def)
  show ?thesis
    unfolding init_def
    using init_loop_runs [OF assms(1,3,4,2) refl, of init_cmds] c unfolding n by blast
qed

text \<open>
  \<open>status\<close> on a live modem with a line that answers either returns one of its four values, keeping
  the context, or reads \<open>buffer[256]\<close>, one past the array: that happens only when an answer fills all
  256 bytes and the keyword stands at its very end.
\<close>

theorem status_outcome:
  assumes "lte_up env w"
  shows "(\<exists>r w'. status env w = Inr (Some r, w') \<and> lte_up env w' \<and>
       r \<in> {Py_False, PyUnicode ''ERROR'', PyUnicode ''offline'', PyUnicode ''online''}) \<or>
    (\<exists>buffer. status env w = Inl Out_Of_Bounds_Read \<and> length buffer = 256 \<and>
       occurs_at ndisstatqry buffer 242)"
proof -
  obtain sent w1 where s: "send_text env (''AT^NDISSTATQRY?'' @ crlf) w = Inr (sent, w1)" "lte_up env w1"
    using serial_live.send_returns [OF assms, of "''AT^NDISSTATQRY?'' @ crlf"] by (elim exE conjE)
  show ?thesis
  proof (cases sent)
    case False
    then have "status env w = Inr (Some Py_False, w1)" using s(1) by (simp add: status_def)
    then show ?thesis using s(2) by blast
  next
    case True
    let ?p = "poll (recv_buffer env) usleep_300 judge_status 3 w1"
    have st: "status env w = bind_run ?p (\<lambda>(verdict, w).
        Inr (case verdict of Some r \<Rightarrow> Some r | None \<Rightarrow> Some (PyUnicode ''ERROR''), w))"
      using True s(1) by (simp add: status_def del: poll.simps)
    from serial_live.poll_outcome [OF s(2), of judge_status 3]
    consider (ok) v w' where "?p = Inr (v, w')" "lte_up env w'"
        "v = None \<or> (\<exists>buf len. length buf = MAX_RECV_BUF_SIZE \<and> len \<le> int MAX_RECV_BUF_SIZE \<and>
           judge_status buf len = Inr v)"
      | (fault) e buf len where "?p = Inl e" "length buf = MAX_RECV_BUF_SIZE"
        "len \<le> int MAX_RECV_BUF_SIZE" "judge_status buf len = Inl e"
      by blast
    then show ?thesis
    proof cases
      case ok
      then show ?thesis
        using judge_status_value unfolding st by (cases v) fastforce+
    next
      case fault
      have "e = Out_Of_Bounds_Read" "first_occurrence ndisstatqry buf = 242"
        using judge_status_fault [OF fault(2-4)] by simp_all
      moreover have "occurs_at ndisstatqry buf 242"
        using first_occurrence_nonneg [of ndisstatqry buf] calculation(2) by auto
      ultimately show ?thesis
        using fault(1,2) unfolding st MAX_RECV_BUF_SIZE_def by (simp del: poll.simps) blast
    qed
  qed
qed

text \<open>
  \<open>online\<close> on a live modem with a line that answers never faults and keeps the context; it starts
  the DHCP client, once, exactly when it returns \<open>True\<close>.
\<close>

theorem online_outcome:
  assumes "lte_up env w"
  shows "\<exists>b w'. online env w = Inr (Some (if b then Py_True else Py_False), w') \<and> lte_up env w' \<and>
    shell_log w' = shell_log w @ (if b then [''udhcpc -n -i usb0''] else [])"
proof -
  let ?key = "''^NDISSTAT: 1''"
  have key: "?key \<noteq> []" "length ?key \<le> MAX_RECV_BUF_SIZE" by (simp_all add: MAX_RECV_BUF_SIZE_def)
  have judge: "returns (judge_keyword ?key buf len)" "judge_keyword ?key buf len \<noteq> Inr (Some Py_False)"
      "judge_keyword ?key buf len = Inr (Some r) \<Longrightarrow> r = Py_True"
    if "length buf = MAX_RECV_BUF_SIZE" "len \<le> int MAX_RECV_BUF_SIZE" for buf len r
    using judge_keyword_eq [OF key, of len buf] that by (auto split: if_splits)
  obtain sent w1 where s: "send_text env (''AT^NDISDUP=1,1'' @ crlf) w = Inr (sent, w1)" "lte_up env w1"
    using serial_live.send_returns [OF assms, of "''AT^NDISDUP=1,1'' @ crlf"] by (elim exE conjE)
  obtain v w2 where p: "poll (recv_buffer env) usleep_300 (judge_keyword ?key) 3 w1 = Inr (v, w2)"
      "lte_up env w2" "v = None \<or> v = Some Py_True"
    using serial_live.poll_returns [OF s(2), of "judge_keyword ?key" 3] judge by (metis option.exhaust)
  have on: "online env w = (if \<not> sent then Inr (Some Py_False, w1)
      else case v of Some r \<Rightarrow> Inr (Some r, emit (Ev_system ''udhcpc -n -i usb0'') w2)
         | None \<Rightarrow> Inr (Some Py_False, w2))"
    using s(1) p(1) by (simp add: online_def del: poll.simps)
  have inv: "lte_inv w \<and> shell_log w = shell_log w" using serial_live.up_inv [OF assms] by simp
  have q1: "lte_inv w1 \<and> shell_log w1 = shell_log w"
    using serial_quiet.send_keeps [OF inv s(1)] by simp
  have q2: "shell_log w2 = shell_log w"
    using serial_quiet.poll_keeps [OF q1 p(1)] by simp
  have sh: "shell_log (emit (Ev_system t) w2) = shell_log w @ [t]" for t
    using shell_log_append [of "emit (Ev_system t) w2" w2 "[Ev_system t]"] q2
    by (simp add: map_filter_def)
  have up: "lte_up env (emit e w2)" for e
    by (rule lte_up_frame [OF p(2)]) (simp_all, simp add: emit_def)
  show ?thesis
  proof (cases "sent \<and> v = Some Py_True")
    case True
    then show ?thesis
      using on up sh by (intro exI [of _ True] exI [of _ "emit (Ev_system ''udhcpc -n -i usb0'') w2"]) simp
  next
    case False
    then have "online env w = Inr (Some Py_False, if sent then w2 else w1)"
      using on p(3) by auto
    then show ?thesis
      using s(2) p(2) q1 q2 by (intro exI [of _ False]) auto
  qed
qed

text \<open>
  \<open>call\<close> on a live modem writes the dial command for the number it is given, and returns whether
  all of it was written; for a number of more than 25 characters \<open>sprintf\<close> writes past the end of the
  32-byte array on the stack, whatever the state of the modem.
\<close>

theorem call_outcome:
  assumes "lte_ctx w = Some a" and "ctx_graph a m b u d t (heap w)"
  shows "if length num \<le> 25
    then \<exists>r w'. call env (Some num) w = Inr (Some r, w') \<and> (r = Py_True \<or> r = Py_False) \<and>
           heap w' = heap w \<and> io_log w' = io_log w @ [Ev_write (sfd m) (''ATD'' @ num @ '';'' @ crlf)]
    else call env (Some num) v = Inl Buffer_Overflow"
  using send_text_live [OF assms, of env "''ATD'' @ num @ '';'' @ crlf"]
  by (auto simp: call_def sprintf_buf_def)

section \<open>Concrete runs\<close>

definition demo_lte :: "int \<Rightarrow> lte_world" where
  "demo_lte fd = \<lparr>pyerr = None, tick = 0, dev_log = [], streams = Map.empty, next_stream = 0,
     open_dirs = 0, heap = heap (demo_ctx_world fd), next_addr = 3, errno = 0, io_log = [],
     lte_ctx = Some 0\<rparr>"

definition start_lte :: lte_world where
  "start_lte = (demo_lte 0)\<lparr>heap := Map.empty, next_addr := 0, lte_ctx := None\<rparr>"

lemma demo_lte_simps [simp]:
  "lte_ctx (demo_lte fd) = Some 0" "io_log (demo_lte fd) = []" "tick (demo_lte fd) = 0"
  "pyerr (demo_lte fd) = None" "shell_log (demo_lte fd) = []"
  "wf_heap start_lte" "lte_ctx start_lte = None" "pyerr start_lte = None" "tick start_lte = 0"
  by (simp_all add: demo_lte_def start_lte_def wf_heap_def shell_log_def map_filter_def)

lemma demo_lte_graph:
  "ctx_graph 0 ((new_module (Some 1))\<lparr>sfd := fd\<rparr>) 1 demo_serial 2 ''ttyUSB0'' (heap (demo_lte fd))"
  using demo_graph [of fd] by (simp add: demo_lte_def)

lemma demo_responsive: "responsive demo_env"
  unfolding responsive_def
proof
  fix k :: nat
  have "env_select demo_env (k + 3) \<noteq> Sel_EINTR" by (simp add: demo_env_def)
  then show "\<exists>n. env_select demo_env (k + n) \<noteq> Sel_EINTR" by blast
qed

lemma demo_fd: "FD_SET_ok (sfd ((new_module (Some 1))\<lparr>sfd := 3\<rparr>))"
  by (simp add: FD_SET_ok_def)

lemma demo_up: "lte_up demo_env (demo_lte 3)"
proof -
  have "heap (demo_lte 3) a = None" if "a \<ge> 3" for a
    using that by (simp add: demo_lte_def demo_ctx_world_def with_ctx_def)
  moreover have "next_addr (demo_lte 3) = 3" by (simp add: demo_lte_def)
  ultimately have "wf_heap (demo_lte 3)" unfolding wf_heap_def by simp
  moreover have "connected (demo_lte 3)"
    unfolding connected_def using demo_lte_simps(1) demo_lte_graph [of 3] demo_fd by blast
  ultimately show ?thesis using demo_responsive by (simp add: lte_up_def)
qed

theorem new_lte_outcome_witness:
  "\<exists>r w'. new_lte demo_env (Some (''ttyUSB0'', 3000000, CHR ''N'', 8, 1)) start_lte = Inr (r, w') \<and>
     r = Some Py_True \<and> connected w'"
proof -
  have l: "env_lsusb demo_env (tick start_lte) \<noteq> None" by (simp add: demo_facts)
  have m: "may_open demo_env ''ttyUSB0'' 3000000 CHR ''N'' (tick start_lte)"
    by (simp add: may_open_def demo_huawei valid_parity_def)
  have fd: "FD_SET_ok (env_open demo_env k t)" for k t by (simp add: demo_env_def FD_SET_ok_def)
  show ?thesis
    using new_lte_outcome [OF demo_lte_simps(6) demo_facts(2) l, of "''ttyUSB0''" 3000000 "CHR ''N''" 8 1]
    by (simp only: m demo_connect_ok fd simp_thms if_True if_False) blast
qed

theorem del_lte_outcome_witness:
  "\<exists>w'. del_lte (demo_lte 3) = Inr (Some Py_None, w') \<and> free_lte w' = Inl Use_After_Free \<and>
     io_log w' = [Ev_tcsetattr 3 None, Ev_close 3]"
proof -
  have s: "sfd ((new_module (Some 1))\<lparr>sfd := 3\<rparr>) = 3" "sfd ((new_module (Some 1))\<lparr>sfd := 3\<rparr>) \<noteq> -1"
    by simp_all
  have o: "us_old_tios demo_serial = None" by (simp add: demo_serial_def new_serial_def)
  obtain w' where "del_lte (demo_lte 3) = Inr (Some Py_None, w')" "free_lte w' = Inl Use_After_Free"
      "io_log w' = io_log (demo_lte 3) @ [Ev_tcsetattr 3 None, Ev_close 3]"
    using del_lte_outcome [OF demo_lte_simps(1) demo_lte_graph s(2)] unfolding s(1) o by blast
  then show ?thesis by simp
qed

theorem lte_session_sound_witness:
  "\<exists>outs w'. py_session (lte_methods (\<lambda>_. True) demo_env) pyerr clear_pyerr
      [Led (Some 7), Restart, Del_lte] start_lte = Inr (outs, w') \<and> SystemError \<notin> set outs"
proof -
  obtain outs w' where run: "py_session (lte_methods (\<lambda>_. True) demo_env) pyerr clear_pyerr
      [Led (Some 7), Restart, Del_lte] start_lte = Inr (outs, w')"
    by (simp add: led_def restart_def del_lte_def send_text_def module_send_def module_close_def
        module_free_def LED_MAX_def clear_pyerr_def PyErr_SetString_def set_errno_def)
  show ?thesis
    using lte_session_sound [OF demo_lte_simps(6,7,8) demo_facts(2) run] run by blast
qed

theorem init_outcome_witness:
  "\<exists>r w' k. init demo_env (demo_lte 3) = Inr (r, w') \<and> k \<le> 7 \<and>
     io_log w' = map (Ev_write 3) (take k init_cmds)"
  using init_outcome [OF demo_responsive demo_lte_simps(1) demo_lte_graph demo_fd] by auto

theorem status_outcome_witness:
  "(\<exists>r w'. status demo_env (demo_lte 3) = Inr (Some r, w')) \<or>
   status demo_env (demo_lte 3) = Inl Out_Of_Bounds_Read"
  using status_outcome [OF demo_up] by blast

theorem online_outcome_witness:
  "\<exists>b w'. online demo_env (demo_lte 3) = Inr (Some (if b then Py_True else Py_False), w') \<and>
     shell_log w' = (if b then [''udhcpc -n -i usb0''] else [])"
proof -
  obtain b w' where "online demo_env (demo_lte 3) = Inr (Some (if b then Py_True else Py_False), w')"
      "shell_log w' = shell_log (demo_lte 3) @ (if b then [''udhcpc -n -i usb0''] else [])"
    using online_outcome [OF demo_up] by (elim exE conjE)
  then show ?thesis
    unfolding demo_lte_simps append_Nil by blast
qed

theorem call_outcome_witness:
  "\<exists>r w'. call demo_env (Some ''112'') (demo_lte 3) = Inr (Some r, w') \<and>
     io_log w' = [Ev_write 3 (''ATD112;'' @ crlf)]"
  using call_outcome [OF demo_lte_simps(1) demo_lte_graph [of 3], of "''112''" demo_env]
  by simp blast

end
