(* ===== verification/Py_Modbus.thy ===== *)
theory Py_Modbus
  imports Stdio C_Strings "HOL-Library.Word"
begin

text \<open>
  \<open>c_modules/modbus/pymodbus.c\<close>: the Python wrapper of libmodbus. The library is not part of the
  sources: its functions are the argument \<open>lib\<close>, answers indexed by the number of calls so far. Its
  contexts are kept in a table, so that the use of a released one is a fault; on a null context the
  library's functions do nothing but report an error, which is its documented behaviour.
\<close>

unbundle bit_operations_syntax

section \<open>State and the library\<close>

record modbus_ctx =
  ctx_slave :: int
  ctx_open :: bool
  ctx_timeout :: "32 word \<times> 32 word"

record modbus_world = world +
  mb :: "nat option"                      \<comment> \<open>the static variable \<open>mb\<close>\<close>
  slave_addr :: int
  mb_ctxs :: "nat \<Rightarrow> modbus_ctx option"   \<comment> \<open>the contexts of the library not yet released\<close>
  next_mb :: nat

datatype read_kind = Coils | Discrete_Inputs | Holding_Registers | Input_Registers

record modbus_lib =
  lib_new_rtu :: "nat \<Rightarrow> string \<Rightarrow> int \<Rightarrow> char \<Rightarrow> int \<Rightarrow> int \<Rightarrow> bool"  \<comment> \<open>a context, or \<open>NULL\<close>\<close>
  lib_new_tcp :: "nat \<Rightarrow> string \<Rightarrow> int \<Rightarrow> bool"
  lib_connect :: "nat \<Rightarrow> bool"
  lib_slave_ok :: "int \<Rightarrow> bool"
  lib_read_bits :: "nat \<Rightarrow> read_kind \<Rightarrow> int \<Rightarrow> int \<Rightarrow> 8 word list option"
  lib_read_regs :: "nat \<Rightarrow> read_kind \<Rightarrow> int \<Rightarrow> int \<Rightarrow> 16 word list option"
  lib_strerror :: "nat \<Rightarrow> string"
  py_int_of :: "py_object \<Rightarrow> int option"  \<comment> \<open>\<open>__int__\<close> of an object that is no integer\<close>

definition MODBUS_MAX_READ_REGISTERS :: nat where
  "MODBUS_MAX_READ_REGISTERS = 125"

definition mb_tock :: "modbus_world \<Rightarrow> modbus_world" where
  "mb_tock w = w\<lparr>tick := Suc (tick w)\<rparr>"

definition mb_error :: "modbus_lib \<Rightarrow> modbus_world \<Rightarrow> modbus_world" where
  "mb_error lib w = PyErr_SetString (lib_strerror lib (tick w)) w"

text \<open>A new context, or \<open>NULL\<close>.\<close>

definition modbus_alloc :: "bool \<Rightarrow> modbus_world \<Rightarrow> modbus_world" where
  "modbus_alloc ok w =
     (let w = mb_tock w in
      if ok then w\<lparr>mb := Some (next_mb w), next_mb := Suc (next_mb w),
        mb_ctxs := (mb_ctxs w)(next_mb w \<mapsto> \<lparr>ctx_slave = -1, ctx_open = False, ctx_timeout = (0, 500000)\<rparr>)\<rparr>
      else w\<lparr>mb := None\<rparr>)"

text \<open>An operation of the library on the context \<open>mb\<close>; \<open>null\<close> is what it returns for \<open>NULL\<close>.\<close>

definition on_ctx ::
    "'r \<Rightarrow> (modbus_ctx \<Rightarrow> 'r \<times> modbus_ctx) \<Rightarrow> modbus_world \<Rightarrow> ('r \<times> modbus_world) run" where
  "on_ctx null f w =
     (case mb w of
        None \<Rightarrow> Inr (null, w)
      | Some a \<Rightarrow>
          (case mb_ctxs w a of
             None \<Rightarrow> Inl Use_After_Free
           | Some c \<Rightarrow> (case f c of (r, c) \<Rightarrow> Inr (r, w\<lparr>mb_ctxs := (mb_ctxs w)(a \<mapsto> c)\<rparr>))))"

definition modbus_connect :: "modbus_lib \<Rightarrow> modbus_world \<Rightarrow> (bool \<times> modbus_world) run" where
  "modbus_connect lib w =
     on_ctx False (\<lambda>c. (lib_connect lib (tick w), c\<lparr>ctx_open := lib_connect lib (tick w)\<rparr>)) (mb_tock w)"

definition modbus_set_slave :: "modbus_lib \<Rightarrow> int \<Rightarrow> modbus_world \<Rightarrow> (unit \<times> modbus_world) run" where
  "modbus_set_slave lib a w =
     on_ctx () (\<lambda>c. ((), if lib_slave_ok lib a then c\<lparr>ctx_slave := a\<rparr> else c)) (mb_tock w)"

definition modbus_set_response_timeout ::
    "32 word \<Rightarrow> 32 word \<Rightarrow> modbus_world \<Rightarrow> (unit \<times> modbus_world) run" where
  "modbus_set_response_timeout sec usec w =
     on_ctx () (\<lambda>c. ((), if (sec = 0 \<and> usec = 0) \<or> unat usec > 999999 then c
                        else c\<lparr>ctx_timeout := (sec, usec)\<rparr>)) (mb_tock w)"

definition modbus_close :: "modbus_world \<Rightarrow> (unit \<times> modbus_world) run" where
  "modbus_close w = on_ctx () (\<lambda>c. ((), c\<lparr>ctx_open := False\<rparr>)) (mb_tock w)"

definition modbus_free :: "modbus_world \<Rightarrow> modbus_world run" where
  "modbus_free w =
     (case mb w of
        None \<Rightarrow> Inr w
      | Some a \<Rightarrow> if mb_ctxs w a = None then Inl Double_Free
                  else Inr (w\<lparr>mb_ctxs := (mb_ctxs w)(a := None)\<rparr>))"

section \<open>Connecting\<close>

text \<open>The part \<open>new_rtu\<close> and \<open>new_tcp\<close> share: from the test for \<open>NULL\<close> on.\<close>

definition new_connection :: "modbus_lib \<Rightarrow> modbus_world \<Rightarrow> (py_result \<times> modbus_world) run" where
  "new_connection lib w =
     (if mb w = None then Inr (None, mb_error lib w)
      else
      bind_run (modbus_connect lib w) (\<lambda>(ok, w).
      if \<not> ok
      then bind_run (modbus_free w) (\<lambda>w. Inr (None, mb_error lib w))
      else
      bind_run (modbus_set_slave lib (slave_addr w) w) (\<lambda>(_, w).
      Inr (Some Py_True, w))))"

type_synonym rtu_args = "string \<times> int \<times> char \<times> int \<times> int"

definition rtu_defaults :: "string \<Rightarrow> rtu_args" where
  "rtu_defaults device = (device, 9600, CHR ''N'', 8, 1)"

definition new_rtu ::
    "modbus_lib \<Rightarrow> rtu_args option \<Rightarrow> modbus_world \<Rightarrow> (py_result \<times> modbus_world) run" where
  "new_rtu lib args w =
     (case args of
        None \<Rightarrow> Inr (None, PyErr_SetString ''Invalid input parameter.'' w)
      | Some (device, baud, parity, data_bit, stop_bit) \<Rightarrow>
          new_connection lib
            (modbus_alloc (lib_new_rtu lib (tick w) device baud parity data_bit stop_bit) w))"

text \<open>The port is optional, with default 502.\<close>

definition new_tcp ::
    "modbus_lib \<Rightarrow> (string \<times> int option) option \<Rightarrow> modbus_world \<Rightarrow> (py_result \<times> modbus_world) run"
    where
  "new_tcp lib args w =
     (case args of
        None \<Rightarrow> Inr (None, PyErr_SetString ''Invalid input parameter.'' w)
      | Some (ip, port) \<Rightarrow>
          let port = (case port of None \<Rightarrow> 502 | Some p \<Rightarrow> p) in
          new_connection lib (modbus_alloc (lib_new_tcp lib (tick w) ip port) w))"

text \<open>\<open>PyArg_ParseTuple\<close> stores the argument in the static variable before it is checked.\<close>

definition set_slave ::
    "modbus_lib \<Rightarrow> int option \<Rightarrow> modbus_world \<Rightarrow> (py_result \<times> modbus_world) run" where
  "set_slave lib args w =
     (case args of
        None \<Rightarrow> Inr (None, PyErr_SetString ''Invalid input parameter.'' w)
      | Some a \<Rightarrow>
          let w = w\<lparr>slave_addr := a\<rparr> in
          if slave_addr w < 0 \<or> slave_addr w > 247
          then Inr (None, PyErr_SetString ''Invalid slave_addr = [0 .. 247]'' w)
          else
          bind_run (modbus_set_slave lib (slave_addr w) w) (\<lambda>(_, w).
          Inr (Some Py_True, w)))"

definition set_timeout ::
    "(int \<times> int option) option \<Rightarrow> modbus_world \<Rightarrow> (py_result \<times> modbus_world) run" where
  "set_timeout args w =
     (case args of
        None \<Rightarrow> Inr (None, PyErr_SetString ''Invalid input parameter.'' w)
      | Some (sec, usec) \<Rightarrow>
          let usec = (case usec of None \<Rightarrow> 0 | Some u \<Rightarrow> u) in
          bind_run (modbus_set_response_timeout (word_of_int sec) (word_of_int usec) w) (\<lambda>(_, w).
          Inr (Some Py_True, w)))"

section \<open>Reading registers\<close>

datatype data_type = U16 | U32 | S16 | S32 | F16 | D32 | B08

definition type_table :: "(string \<times> data_type) list" where
  "type_table = [(''U16'', U16), (''U32'', U32), (''S16'', S16), (''S32'', S32), (''F16'', F16),
     (''D32'', D32), (''B08'', B08)]"

text \<open>The search of the loop over \<open>type\<close>: the first entry that is a prefix of the name.\<close>

fun find_type :: "(string \<times> data_type) list \<Rightarrow> string \<Rightarrow> data_type option" where
  "find_type [] name = None"
| "find_type ((t, d) # ts) name = (if memcmp_prefix t name then Some d else find_type ts name)"

definition words_per_value :: "data_type \<Rightarrow> int" where
  "words_per_value d =
     (case d of U16 \<Rightarrow> 1 | S16 \<Rightarrow> 1 | B08 \<Rightarrow> 1 | U32 \<Rightarrow> 2 | S32 \<Rightarrow> 2 | F16 \<Rightarrow> 2 | D32 \<Rightarrow> 4)"

text \<open>\<open>PyLong_AsLong\<close> with a 32-bit \<open>long\<close>: -1 and an exception if there is no such value.\<close>

definition PyLong_AsLong :: "modbus_lib \<Rightarrow> py_object \<Rightarrow> modbus_world \<Rightarrow> int \<times> modbus_world" where
  "PyLong_AsLong lib x w =
     (case (case x of PyLong n \<Rightarrow> Some n | Py_True \<Rightarrow> Some 1 | Py_False \<Rightarrow> Some 0 | _ \<Rightarrow> py_int_of lib x) of
        None \<Rightarrow> (-1, PyErr_SetString ''TypeError'' w)
      | Some n \<Rightarrow> if int32 n then (n, w) else (-1, PyErr_SetString ''OverflowError'' w))"

text \<open>Joining registers, low word first, as the code does it: shifted and added up.\<close>

definition ieee32 :: "16 word list \<Rightarrow> nat \<Rightarrow> 32 word" where
  "ieee32 d i = foldl (\<lambda>acc j. acc + push_bit (j * 16) (ucast (d ! (j + i * 2)))) 0 [0, 1]"

definition ieee64 :: "16 word list \<Rightarrow> nat \<Rightarrow> 64 word" where
  "ieee64 d i = foldl (\<lambda>acc j. acc + push_bit (j * 16) (ucast (d ! (j + i * 4)))) 0 [0, 1, 2, 3]"

text \<open>
  The \<open>i\<close>th object of the result list, from the two arrays. \<open>Py_BuildValue("i", ...)\<close> takes an
  \<open>int\<close>, so the unsigned value of U32 is read as a signed one.
\<close>

definition build_item :: "data_type \<Rightarrow> 16 word list \<Rightarrow> 8 word list \<Rightarrow> nat \<Rightarrow> py_object" where
  "build_item d u16_dest u08_dest i =
     (case d of
        U16 \<Rightarrow> PyLong (uint (u16_dest ! i))
      | U32 \<Rightarrow> PyLong (sint (ieee32 u16_dest i))
      | S16 \<Rightarrow> PyLong (sint (u16_dest ! i))
      | S32 \<Rightarrow> PyLong (sint (ieee32 u16_dest i))
      | F16 \<Rightarrow> PyFloat32 (ieee32 u16_dest i)
      | D32 \<Rightarrow> PyFloat64 (ieee64 u16_dest i)
      | B08 \<Rightarrow> PyLong (uint (u08_dest ! i)))"

text \<open>The last register or byte the \<open>i\<close>th object needs must lie inside the array.\<close>

definition item_in_bounds :: "data_type \<Rightarrow> nat \<Rightarrow> bool" where
  "item_in_bounds d i \<longleftrightarrow> (i + 1) * nat (words_per_value d) \<le> MODBUS_MAX_READ_REGISTERS"

fun build_list :: "data_type \<Rightarrow> 16 word list \<Rightarrow> 8 word list \<Rightarrow> nat list \<Rightarrow> py_object list run" where
  "build_list d u16 u08 [] = Inr []"
| "build_list d u16 u08 (i # is) =
     (if \<not> item_in_bounds d i then Inl Out_Of_Bounds_Read
      else bind_run (build_list d u16 u08 is) (\<lambda>xs. Inr (build_item d u16 u08 i # xs)))"

text \<open>What a read of the library stores into one of the arrays.\<close>

definition fill :: "'a list \<Rightarrow> 'a list \<Rightarrow> 'a list run" where
  "fill dest vals =
     (if length dest < length vals then Inl Buffer_Overflow
      else Inr (vals @ drop (length vals) dest))"

text \<open>
  The switch over the function code: \<open>None\<close> for an unknown code, else the contents of the two
  arrays if the library returned something other than -1.
\<close>

definition read_code ::
    "modbus_lib \<Rightarrow> int \<Rightarrow> int \<Rightarrow> int \<Rightarrow> modbus_world \<Rightarrow>
     ((16 word list \<times> 8 word list) option option \<times> modbus_world) run" where
  "read_code lib code addr nb w =
     (let u16_dest = replicate MODBUS_MAX_READ_REGISTERS 0;
          u08_dest = replicate MODBUS_MAX_READ_REGISTERS 0;
          bits = (\<lambda>kind. bind_run (on_ctx None (\<lambda>c. (lib_read_bits lib (tick w) kind addr nb, c)) (mb_tock w))
            (\<lambda>(r, w). case r of None \<Rightarrow> Inr (Some None, w)
               | Some vals \<Rightarrow> bind_run (fill u08_dest vals) (\<lambda>u08. Inr (Some (Some (u16_dest, u08)), w))));
          regs = (\<lambda>kind. bind_run (on_ctx None (\<lambda>c. (lib_read_regs lib (tick w) kind addr nb, c)) (mb_tock w))
            (\<lambda>(r, w). case r of None \<Rightarrow> Inr (Some None, w)
               | Some vals \<Rightarrow> bind_run (fill u16_dest vals) (\<lambda>u16. Inr (Some (Some (u16, u08_dest)), w))))
      in if code = 1 then bits Coils
         else if code = 2 then bits Discrete_Inputs
         else if code = 3 then regs Holding_Registers
         else if code = 4 then regs Input_Registers
         else Inr (None, w))"

text \<open>
  The arguments: the objects of the list, and the optional number of values (default 1). A negative
  number makes \<open>PyList_New\<close> fail.
\<close>

definition read_registers ::
    "modbus_lib \<Rightarrow> (py_object list \<times> int option) option \<Rightarrow> modbus_world \<Rightarrow>
     (py_result \<times> modbus_world) run" where
  "read_registers lib args w =
     (case args of
        None \<Rightarrow> Inr (None, PyErr_SetString ''Invalid input parameter.'' w)
      | Some (listObj, pynb) \<Rightarrow>
          let pynb = (case pynb of None \<Rightarrow> 1 | Some n \<Rightarrow> n) in
          if length listObj \<noteq> 3
          then Inr (None, PyErr_SetString ''Invalid input data size.'' w)
          else
          case PyLong_AsLong lib (listObj ! 0) w of (code, w) \<Rightarrow>
          case PyLong_AsLong lib (listObj ! 1) w of (addr, w) \<Rightarrow>
          case listObj ! 2 of
            PyUnicode type_name \<Rightarrow>
              (case find_type type_table type_name of
                 None \<Rightarrow> Inr (None, PyErr_SetString ''Invalid data type'' w)
               | Some d \<Rightarrow>
                   let nb = wrap32 (words_per_value d * pynb) in
                   bind_run (read_code lib code addr nb w) (\<lambda>(r, w).
                   case r of
                     None \<Rightarrow> Inr (None, PyErr_SetString ''Invalid function code'' w)
                   | Some None \<Rightarrow> Inr (None, mb_error lib w)
                   | Some (Some (u16_dest, u08_dest)) \<Rightarrow>
                       if pynb < 0 then Inr (None, PyErr_SetString ''SystemError'' w)
                       else
                       bind_run (build_list d u16_dest u08_dest [0..<nat pynb]) (\<lambda>items.
                       Inr (Some (PyList items), w))))
          | _ \<Rightarrow> Inl Null_Pointer)"

definition free_rtu :: "modbus_world \<Rightarrow> (py_result \<times> modbus_world) run" where
  "free_rtu w =
     bind_run (modbus_close w) (\<lambda>(_, w).
     bind_run (modbus_free w) (\<lambda>w. Inr (Some Py_None, w)))"

definition free_tcp :: "modbus_world \<Rightarrow> (py_result \<times> modbus_world) run" where
  "free_tcp w =
     bind_run (modbus_close w) (\<lambda>(_, w).
     bind_run (modbus_free w) (\<lambda>w. Inr (Some Py_None, w)))"

section \<open>The method table and the initialiser\<close>

datatype modbus_call =
    New_rtu "rtu_args option"
  | New_tcp "(string \<times> int option) option"
  | Set_timeout "(int \<times> int option) option"
  | Set_slave "int option"
  | Read_registers "(py_object list \<times> int option) option"
  | Free_rtu
  | Free_tcp

fun pymodbus_methods ::
    "modbus_lib \<Rightarrow> modbus_call \<Rightarrow> modbus_world \<Rightarrow> (py_result \<times> modbus_world) run" where
  "pymodbus_methods lib (New_rtu args) = new_rtu lib args"
| "pymodbus_methods lib (New_tcp args) = new_tcp lib args"
| "pymodbus_methods lib (Set_timeout args) = set_timeout args"
| "pymodbus_methods lib (Set_slave args) = set_slave lib args"
| "pymodbus_methods lib (Read_registers args) = read_registers lib args"
| "pymodbus_methods lib Free_rtu = free_rtu"
| "pymodbus_methods lib Free_tcp = free_tcp"

text \<open>\<open>version\<close> is the library's version string, \<open>None\<close> if the string object cannot be made.\<close>

definition PyInit_pymodbus :: "bool \<Rightarrow> bool \<Rightarrow> string option \<Rightarrow> (string \<times> py_attr) list option" where
  "PyInit_pymodbus created exception_made version =
     (if \<not> created then None
      else Some ((if exception_made then [(''error'', Exception_Type ''pymodbus.error'')] else []) @
        (case version of None \<Rightarrow> [] | Some v \<Rightarrow> [(''LIBMODBUS_VERSION_STRING'', Str_Constant v)]) @
        [(''__version__'', Str_Constant ''1.0.2''), (''__author__'', Str_Constant ''Heyn'')]))"

section \<open>The values of registers\<close>

text \<open>The number that a list of registers stands for, low word first, and the registers of a number.\<close>

fun le_val :: "16 word list \<Rightarrow> int" where
  "le_val [] = 0"
| "le_val (x # xs) = uint x + 65536 * le_val xs"

primrec le_regs :: "nat \<Rightarrow> int \<Rightarrow> 16 word list" where
  "le_regs 0 v = []"
| "le_regs (Suc n) v = word_of_int v # le_regs n (v div 65536)"

lemma length_le_regs [simp]: "length (le_regs n v) = n"
  by (induction n arbitrary: v) simp_all

lemma le_val_regs: "0 \<le> v \<Longrightarrow> v < 65536 ^ n \<Longrightarrow> le_val (le_regs n v) = v"
proof (induction n arbitrary: v)
  case 0
  then show ?case by simp
next
  case (Suc n)
  have "v div 65536 < 65536 ^ n" using Suc.prems by (simp add: div_less_iff_less_mult mult.commute)
  then have "le_val (le_regs n (v div 65536)) = v div 65536"
    using Suc.IH [of "v div 65536"] Suc.prems(1) by (simp add: pos_imp_zdiv_nonneg_iff)
  moreover have "uint (word_of_int v :: 16 word) = v mod 65536"
    by (simp add: uint_word_of_int)
  ultimately show ?case by simp
qed

definition chunk :: "nat \<Rightarrow> 'a list \<Rightarrow> nat \<Rightarrow> 'a list" where
  "chunk k xs i = take k (drop (i * k) xs)"

lemma chunk_1: "i < length xs \<Longrightarrow> chunk 1 xs i = [xs ! i]"
  by (simp add: chunk_def take_Suc_conv_app_nth)

lemma chunk_2: "(i + 1) * 2 \<le> length xs \<Longrightarrow> chunk 2 xs i = [xs ! (i * 2), xs ! (1 + i * 2)]"
  by (simp add: chunk_def numeral_2_eq_2 take_Suc_conv_app_nth)

lemma chunk_4: "(i + 1) * 4 \<le> length xs \<Longrightarrow>
    chunk 4 xs i = [xs ! (i * 4), xs ! (1 + i * 4), xs ! (2 + i * 4), xs ! (3 + i * 4)]"
  by (simp add: chunk_def eval_nat_numeral take_Suc_conv_app_nth)

lemma shifted_reg:
  fixes x :: "16 word"
  shows "push_bit n (ucast x :: 'a::len word) = word_of_int (2 ^ n * uint x)"
  unfolding push_bit_eq_mult ucast_eq of_int_mult of_int_power of_int_numeral by (rule mult.commute)

lemma ieee32_eq:
  "(i + 1) * 2 \<le> length d \<Longrightarrow> ieee32 d i = word_of_int (le_val (chunk 2 d i))"
  using chunk_2 [of i d] shifted_reg [where 'a = 32, of 0] shifted_reg [where 'a = 32, of 16]
  by (simp add: ieee32_def wi_hom_add)

lemma ieee64_eq:
  "(i + 1) * 4 \<le> length d \<Longrightarrow> ieee64 d i = word_of_int (le_val (chunk 4 d i))"
  using chunk_4 [of i d] shifted_reg [where 'a = 64, of 0] shifted_reg [where 'a = 64, of 16]
    shifted_reg [where 'a = 64, of 32] shifted_reg [where 'a = 64, of 48]
  by (simp add: ieee64_def wi_hom_add algebra_simps)

text \<open>The \<open>i\<close>th value that registers encode in a type; a byte is the low one of its register.\<close>

definition encoded_value :: "data_type \<Rightarrow> 16 word list \<Rightarrow> nat \<Rightarrow> py_object" where
  "encoded_value d regs i =
     (let v = le_val (chunk (nat (words_per_value d)) regs i) in
      case d of
        U16 \<Rightarrow> PyLong v
      | S16 \<Rightarrow> PyLong (if v < 2 ^ 15 then v else v - 2 ^ 16)
      | U32 \<Rightarrow> PyLong v
      | S32 \<Rightarrow> PyLong (if v < 2 ^ 31 then v else v - 2 ^ 32)
      | F16 \<Rightarrow> PyFloat32 (word_of_int v)
      | D32 \<Rightarrow> PyFloat64 (word_of_int v)
      | B08 \<Rightarrow> PyLong (v mod 256))"

text \<open>What \<open>read_registers\<close> makes of them: \<open>U32\<close> is read as signed, and a byte is not taken from the registers.\<close>

definition returned_value :: "data_type \<Rightarrow> 16 word list \<Rightarrow> nat \<Rightarrow> py_object" where
  "returned_value d regs i =
     (let v = le_val (chunk (nat (words_per_value d)) regs i) in
      case d of
        U16 \<Rightarrow> PyLong v
      | S16 \<Rightarrow> PyLong (if v < 2 ^ 15 then v else v - 2 ^ 16)
      | U32 \<Rightarrow> PyLong (wrap32 v)
      | S32 \<Rightarrow> PyLong (wrap32 v)
      | F16 \<Rightarrow> PyFloat32 (word_of_int v)
      | D32 \<Rightarrow> PyFloat64 (word_of_int v)
      | B08 \<Rightarrow> PyLong 0)"

lemma le_val_bounds: "0 \<le> le_val xs \<and> le_val xs < 65536 ^ length xs"
proof (induction xs)
  case (Cons x xs)
  have "uint x < 65536" "0 \<le> uint x" using uint_lt2p [of x] by simp_all
  then show ?case using Cons by simp
qed simp

lemma wrap32_unsigned:
  assumes "0 \<le> v" and "v < 2 ^ 32"
  shows "wrap32 v = (if v < 2 ^ 31 then v else v - 2 ^ 32)"
proof (cases "v < 2 ^ 31")
  case True
  then show ?thesis using assms(1) by (simp add: wrap32_id int32_def)
next
  case False
  have "(v + 2 ^ 31) mod 2 ^ 32 = (v - 2 ^ 31) mod 2 ^ 32"
    using mod_add_self2 [of "v - 2 ^ 31" "2 ^ 32"] by (simp add: add.commute)
  then show ?thesis using False assms(2) by (simp add: wrap32_alt)
qed

lemma returned_encoded:
  "returned_value d regs i =
    (if d = B08 then PyLong 0
     else if d = U32 \<and> 2 ^ 31 \<le> le_val (chunk 2 regs i) then PyLong (le_val (chunk 2 regs i) - 2 ^ 32)
     else encoded_value d regs i)"
proof -
  have "length (chunk 2 regs i) \<le> 2" by (simp add: chunk_def)
  then have "(65536 :: int) ^ length (chunk 2 regs i) \<le> 65536 ^ 2" by (rule power_increasing) simp
  then have v: "le_val (chunk 2 regs i) < 2 ^ 32" "0 \<le> le_val (chunk 2 regs i)"
    using le_val_bounds [of "chunk 2 regs i"] by simp_all
  note w = wrap32_unsigned [OF v(2,1)]
  show ?thesis
    by (cases d) (simp_all add: returned_value_def encoded_value_def words_per_value_def Let_def w not_less del: power_numeral)
qed

lemma sint_16: "sint (x :: 16 word) = (if uint x < 2 ^ 15 then uint x else uint x - 2 ^ 16)"
proof -
  have s: "sint x = (uint x + 32768) mod 65536 - 32768"
    by (simp add: sint_uint signed_take_bit_eq_take_bit_shift take_bit_eq_mod)
  have u: "0 \<le> uint x" "uint x < 65536" using uint_lt2p [of x] by simp_all
  show ?thesis
  proof (cases "uint x < 32768")
    case True
    then show ?thesis using s u by simp
  next
    case False
    have "(uint x + 32768) mod 65536 = (uint x - 32768) mod 65536"
      using mod_add_self2 [of "uint x - 32768" 65536] by (simp add: add.commute)
    then show ?thesis using s u False by simp
  qed
qed

lemma chunk_append:
  "(i + 1) * k \<le> length xs \<Longrightarrow> chunk k (xs @ ys) i = chunk k xs i"
  by (simp add: chunk_def)

lemma build_item_value:
  assumes "(i + 1) * nat (words_per_value d) \<le> length regs" and "u08 = replicate n 0" and "i < n"
  shows "build_item d (regs @ rest) u08 i = returned_value d regs i"
proof (cases d)
  case U16
  then show ?thesis
    using assms(1) chunk_1 [of i regs]
    by (simp add: build_item_def returned_value_def words_per_value_def Let_def nth_append)
next
  case S16
  then show ?thesis
    using assms(1) chunk_1 [of i regs]
    by (simp add: build_item_def returned_value_def words_per_value_def Let_def nth_append sint_16)
next
  case B08
  then show ?thesis
    using assms(2,3) by (simp add: build_item_def returned_value_def Let_def)
qed (use assms(1) ieee32_eq [of i "regs @ rest"] ieee64_eq [of i "regs @ rest"] chunk_append [of i _ regs rest] in
    \<open>simp_all add: build_item_def returned_value_def words_per_value_def Let_def wrap32_def\<close>)

lemma build_list_value:
  assumes "\<And>i. i \<in> set is \<Longrightarrow> item_in_bounds d i"
  shows "build_list d u16 u08 is = Inr (map (build_item d u16 u08) is)"
  using assms by (induction "is") simp_all

lemma build_list_regs:
  assumes "nat (words_per_value d) * n \<le> length regs" and "length regs \<le> MODBUS_MAX_READ_REGISTERS"
    and "n \<le> m"
  shows "build_list d (regs @ rest) (replicate m 0) [0..<n] = Inr (map (returned_value d regs) [0..<n])"
proof -
  have bound: "(i + 1) * nat (words_per_value d) \<le> length regs" if "i < n" for i
  proof -
    have "(i + 1) * nat (words_per_value d) \<le> n * nat (words_per_value d)"
      using that by (intro mult_le_mono1) simp
    then show ?thesis using assms(1) by (simp add: mult.commute)
  qed
  have "build_list d (regs @ rest) (replicate m 0) [0..<n] =
      Inr (map (build_item d (regs @ rest) (replicate m 0)) [0..<n])"
  proof (rule build_list_value)
    fix i assume "i \<in> set [0..<n]"
    then have "(i + 1) * nat (words_per_value d) \<le> length regs" using bound by simp
    then show "item_in_bounds d i" using assms(2) unfolding item_in_bounds_def by linarith
  qed
  also have "map (build_item d (regs @ rest) (replicate m 0)) [0..<n] = map (returned_value d regs) [0..<n]"
    using build_item_value [OF bound refl] assms(3) by (intro map_cong) simp_all
  finally show ?thesis .
qed

section \<open>Properties\<close>

lemma on_ctx_const:
  assumes "mb w = Some a" and "mb_ctxs w a = Some c"
  shows "on_ctx null (\<lambda>c. (r, c)) w = Inr (r, w)"
  using assms by (simp add: on_ctx_def fun_upd_idem)

lemma mb_tock_simps [simp]:
  "mb (mb_tock w) = mb w" "mb_ctxs (mb_tock w) = mb_ctxs w" "pyerr (mb_tock w) = pyerr w"
  "slave_addr (mb_tock w) = slave_addr w" "next_mb (mb_tock w) = next_mb w"
  "tick (mb_tock w) = Suc (tick w)"
  by (simp_all add: mb_tock_def)

definition kind_of_code :: "int \<Rightarrow> read_kind" where
  "kind_of_code code =
     (if code = 1 then Coils else if code = 2 then Discrete_Inputs
      else if code = 3 then Holding_Registers else Input_Registers)"

lemma read_code_regs:
  assumes "mb w = Some a" and "mb_ctxs w a = Some c" and "code = 3 \<or> code = 4"
    and "lib_read_regs lib (tick w) (kind_of_code code) addr nb = Some regs"
    and "length regs \<le> MODBUS_MAX_READ_REGISTERS"
  shows "read_code lib code addr nb w =
    Inr (Some (Some (regs @ replicate (MODBUS_MAX_READ_REGISTERS - length regs) 0,
                     replicate MODBUS_MAX_READ_REGISTERS 0)), mb_tock w)"
proof -
  have k: "on_ctx None (\<lambda>c. (r, c)) (mb_tock w) = Inr (r, mb_tock w)" for r :: "16 word list option"
    using on_ctx_const [of "mb_tock w" a c] assms(1,2) by simp
  show ?thesis
    using assms(3-5) by (auto simp: read_code_def kind_of_code_def fill_def Let_def k)
qed

lemma read_code_bits:
  assumes "mb w = Some a" and "mb_ctxs w a = Some c" and "code = 1 \<or> code = 2"
    and "lib_read_bits lib (tick w) (kind_of_code code) addr nb = Some bits"
  shows "read_code lib code addr nb w =
    (if length bits \<le> MODBUS_MAX_READ_REGISTERS
     then Inr (Some (Some (replicate MODBUS_MAX_READ_REGISTERS 0,
                bits @ replicate (MODBUS_MAX_READ_REGISTERS - length bits) 0)), mb_tock w)
     else Inl Buffer_Overflow)"
proof -
  have k: "on_ctx None (\<lambda>c. (r, c)) (mb_tock w) = Inr (r, mb_tock w)" for r :: "8 word list option"
    using on_ctx_const [of "mb_tock w" a c] assms(1,2) by simp
  show ?thesis
    using assms(3,4) by (auto simp: read_code_def kind_of_code_def fill_def Let_def k)
qed

lemma AsLong_int: "int32 n \<Longrightarrow> PyLong_AsLong lib (PyLong n) w = (n, w)"
  by (simp add: PyLong_AsLong_def)

lemma words_per_value_bounds: "1 \<le> words_per_value d" "words_per_value d \<le> 4"
  by (cases d; simp add: words_per_value_def)+

lemma nb_no_wrap:
  assumes "words_per_value d * int n \<le> 125"
  shows "wrap32 (words_per_value d * int n) = words_per_value d * int n"
proof -
  have "0 \<le> words_per_value d * int n"
    using words_per_value_bounds [of d] by simp
  then show ?thesis using assms by (intro wrap32_id) (simp add: int32_def)
qed

text \<open>
  C23: reading registers (function codes 3 and 4) on a live context: when the library delivers the
  registers asked for - one, two or four per value, at most 125 - the result is a list of as many values as were asked
  for, and no exception is set. For U16, S16, S32, F16 and D32 each value is what its registers encode, low word first.
  It is so for U32 below 2^31, while a larger one comes out 2^32 less, as a negative number; and a B08 is 0 whatever
  the device holds, because it is taken from the array of bits.
\<close>

theorem read_registers_values:
  assumes "mb w = Some a" and "mb_ctxs w a = Some c" and "code = 3 \<or> code = 4" and "int32 addr"
    and "find_type type_table name = Some d" and "words_per_value d * int n \<le> 125"
    and "lib_read_regs lib (tick w) (kind_of_code code) addr (words_per_value d * int n) = Some regs"
    and "int (length regs) = words_per_value d * int n"
  shows "read_registers lib (Some ([PyLong code, PyLong addr, PyUnicode name], Some (int n))) w =
    Inr (Some (PyList (map (\<lambda>i.
      if d = B08 then PyLong 0
      else if d = U32 \<and> 2 ^ 31 \<le> le_val (chunk 2 regs i) then PyLong (le_val (chunk 2 regs i) - 2 ^ 32)
      else encoded_value d regs i) [0..<n])), mb_tock w)"
proof -
  have len: "length regs \<le> MODBUS_MAX_READ_REGISTERS"
    using assms(6,8) by (simp add: MODBUS_MAX_READ_REGISTERS_def)
  have "int (nat (words_per_value d) * n) \<le> int (length regs)"
    using assms(8) words_per_value_bounds [of d] by simp
  then have need: "nat (words_per_value d) * n \<le> length regs" by linarith
  have "int n \<le> words_per_value d * int n"
    using mult_right_mono [of 1 "words_per_value d" "int n"] words_per_value_bounds(1) [of d] by simp
  then have n: "n \<le> MODBUS_MAX_READ_REGISTERS"
    using assms(6) by (simp add: MODBUS_MAX_READ_REGISTERS_def)
  have code: "int32 code" using assms(3) by (auto simp: int32_def)
  show ?thesis
    using assms(3,5) read_code_regs [OF assms(1,2,3,7) len] build_list_regs [OF need len n]
    by (simp add: read_registers_def AsLong_int code assms(4) nb_no_wrap [OF assms(6)] Let_def)
      (auto simp: returned_encoded)
qed

text \<open>
  C24: a value stored in a device low word first, as two registers or four, is read back: exactly for
  S32, F16 and D32 (as the value, or as the bits of the float), and as the signed reading of its 32
  bits for U32, which differs from it by 2^32 from 2^31 on.
\<close>

theorem register_roundtrip:
  fixes rest :: "16 word list" and v s :: int
  assumes "0 \<le> v"
  defines "item \<equiv> \<lambda>d regs. build_item d (regs @ rest) (replicate 125 0) 0"
  shows "(v < 2 ^ 16 \<longrightarrow> item U16 (le_regs 1 v) = PyLong v) \<and>
    (v < 2 ^ 32 \<longrightarrow>
      item U32 (le_regs 2 v) = PyLong (if v < 2 ^ 31 then v else v - 2 ^ 32) \<and>
      item F16 (le_regs 2 v) = PyFloat32 (word_of_int v)) \<and>
    (int32 s \<longrightarrow> item S32 (le_regs 2 (s mod 2 ^ 32)) = PyLong s) \<and>
    (v < 2 ^ 64 \<longrightarrow> item D32 (le_regs 4 v) = PyFloat64 (word_of_int v))"
proof -
  have c: "chunk n (le_regs n x) 0 = le_regs n x" for n x by (simp add: chunk_def)
  have v1: "v < 2 ^ 16 \<Longrightarrow> le_val (le_regs 1 v) = v" using le_val_regs [OF assms(1), of 1] by simp
  have v2: "v < 2 ^ 32 \<Longrightarrow> le_val (le_regs 2 v) = v" using le_val_regs [OF assms(1), of 2] by simp
  have v4: "v < 2 ^ 64 \<Longrightarrow> le_val (le_regs 4 v) = v" using le_val_regs [OF assms(1), of 4] by simp
  have s2: "le_val (le_regs 2 (s mod 2 ^ 32)) = s mod 2 ^ 32"
    using le_val_regs [of "s mod 2 ^ 32" 2] by simp
  have wrap: "wrap32 v = (if v < 2 ^ 31 then v else v - 2 ^ 32)" if "v < 2 ^ 32"
    by (rule wrap32_unsigned [OF assms(1) that])
  have ws: "wrap32 (s mod 2 ^ 32) = wrap32 s"
    by (simp add: wrap32_alt mod_add_left_eq)
  have w: "nat (words_per_value U16) = 1" "nat (words_per_value U32) = 2" "nat (words_per_value F16) = 2"
    "nat (words_per_value S32) = 2" "nat (words_per_value D32) = 4"
    by (simp_all add: words_per_value_def)
  have it: "item d (le_regs (nat (words_per_value d)) x) = returned_value d (le_regs (nat (words_per_value d)) x) 0"
    for d x
    unfolding item_def using build_item_value [of 0 d "le_regs (nat (words_per_value d)) x" _ 125 rest]
    by simp
  have its: "item U16 (le_regs 1 x) = returned_value U16 (le_regs 1 x) 0"
    "item U32 (le_regs 2 x) = returned_value U32 (le_regs 2 x) 0"
    "item F16 (le_regs 2 x) = returned_value F16 (le_regs 2 x) 0"
    "item S32 (le_regs 2 x) = returned_value S32 (le_regs 2 x) 0"
    "item D32 (le_regs 4 x) = returned_value D32 (le_regs 4 x) 0" for x
    using it [of U16 x] it [of U32 x] it [of F16 x] it [of S32 x] it [of D32 x] unfolding w .
  show ?thesis
    unfolding its returned_value_def Let_def w c s2 ws using v1 v2 v4 wrap wrap32_id [of s] by simp
qed

text \<open>
  reading bits (function codes 1 and 2) into bytes: up to 125 bits give the list of them; more,
  which the protocol and the library allow (2000), are written past the end of the array.
\<close>

theorem read_bits_outcome:
  assumes "mb w = Some a" and "mb_ctxs w a = Some c" and "code = 1 \<or> code = 2" and "int32 addr"
    and "find_type type_table name = Some B08" and "int32 (int n)"
    and "lib_read_bits lib (tick w) (kind_of_code code) addr (int n) = Some bits" and "length bits = n"
  shows "read_registers lib (Some ([PyLong code, PyLong addr, PyUnicode name], Some (int n))) w =
    (if n \<le> 125 then Inr (Some (PyList (map (\<lambda>b. PyLong (uint b)) bits)), mb_tock w)
     else Inl Buffer_Overflow)"
proof -
  have code: "int32 code" using assms(3) by (auto simp: int32_def)
  have nb: "wrap32 (words_per_value B08 * int n) = int n"
    using assms(6) by (simp add: words_per_value_def wrap32_id)
  have items: "build_list B08 u16 (bits @ rest) [0..<n] = Inr (map (\<lambda>b. PyLong (uint b)) bits)"
    if "n \<le> 125" for u16 rest
  proof -
    have "build_list B08 u16 (bits @ rest) [0..<n] = Inr (map (build_item B08 u16 (bits @ rest)) [0..<n])"
      by (rule build_list_value)
        (use that in \<open>simp add: item_in_bounds_def words_per_value_def MODBUS_MAX_READ_REGISTERS_def\<close>)
    also have "map (build_item B08 u16 (bits @ rest)) [0..<n] = map (\<lambda>b. PyLong (uint b)) bits"
      by (rule nth_equalityI) (use assms(8) in \<open>simp_all add: build_item_def nth_append\<close>)
    finally show ?thesis .
  qed
  show ?thesis
    using assms(3,5,8) read_code_bits [OF assms(1,2,3,7)] items
    by (simp add: read_registers_def AsLong_int code assms(4) nb Let_def MODBUS_MAX_READ_REGISTERS_def)
qed

text \<open>
  an address that is no integer - here a string - is noticed by \<open>PyLong_AsLong\<close>, whose result -1 the
  code does not check: it reads at address -1, and if the device answers the method returns the list
  with the \<open>TypeError\<close> still pending, which the interpreter turns into a \<open>SystemError\<close>.
\<close>

theorem address_error_unchecked:
  assumes "mb w = Some a" and "mb_ctxs w a = Some c" and "pyerr w = None"
    and "py_int_of lib (PyUnicode s) = None"
    and "lib_read_regs lib (tick w) Holding_Registers (-1) 1 = Some [r]"
  shows "\<exists>w'. read_registers lib (Some ([PyLong 3, PyUnicode s, PyUnicode ''U16''], None)) w =
      Inr (Some (PyList [PyLong (uint r)]), w') \<and>
    py_outcome_of (Some (PyList [PyLong (uint r)])) (pyerr w') = SystemError"
proof -
  let ?w = "PyErr_SetString ''TypeError'' w"
  have addr: "PyLong_AsLong lib (PyUnicode s) w = (-1, ?w)"
    using assms(4) by (simp add: PyLong_AsLong_def)
  have live: "mb ?w = Some a" "mb_ctxs ?w a = Some c"
    "lib_read_regs lib (tick ?w) (kind_of_code 3) (-1) 1 = Some [r]"
    using assms by (simp_all add: PyErr_SetString_def kind_of_code_def)
  have rd: "read_code lib 3 (-1) 1 ?w = Inr (Some (Some ([r] @ replicate 124 0, replicate 125 0)), mb_tock ?w)"
    using read_code_regs [OF live(1,2) _ live(3)] by (simp add: MODBUS_MAX_READ_REGISTERS_def)
  have u16: "find_type type_table ''U16'' = Some U16" by (simp add: type_table_def)
  have "read_registers lib (Some ([PyLong 3, PyUnicode s, PyUnicode ''U16''], None)) w =
      Inr (Some (PyList [PyLong (uint r)]), mb_tock ?w)"
    using rd u16 by (simp add: read_registers_def AsLong_int int32_def addr words_per_value_def wrap32_id
        item_in_bounds_def MODBUS_MAX_READ_REGISTERS_def build_item_def Let_def)
  moreover have "pyerr (mb_tock ?w) = Some ''TypeError''" by (simp add: PyErr_SetString_def)
  ultimately show ?thesis by (simp add: py_outcome_SystemError)
qed

text \<open>
  the life of a connection. A successful \<open>new_rtu\<close> leaves an open context with the slave address of
  the module, if the library accepts that; \<open>free_rtu\<close> releases it, and nothing else changes in the
  library. A failed connection releases it too. In both cases \<open>mb\<close> keeps the address: the next
  \<open>free_rtu\<close>, and any other use, is a use of released memory.
\<close>

theorem connection_lifecycle:
  assumes "mb_ctxs w (next_mb w) = None" and "lib_new_rtu lib (tick w) device baud parity db sb"
  shows "if lib_connect lib (tick w + 1)
    then \<exists>w1 w2 c. new_rtu lib (Some (device, baud, parity, db, sb)) w = Inr (Some Py_True, w1) \<and>
           mb w1 = Some (next_mb w) \<and> mb_ctxs w1 (next_mb w) = Some c \<and> ctx_open c \<and>
           ctx_slave c = (if lib_slave_ok lib (slave_addr w) then slave_addr w else -1) \<and>
           free_rtu w1 = Inr (Some Py_None, w2) \<and> mb_ctxs w2 = mb_ctxs w \<and>
           free_rtu w2 = Inl Use_After_Free
    else \<exists>w1. new_rtu lib (Some (device, baud, parity, db, sb)) w = Inr (None, w1) \<and>
           pyerr w1 \<noteq> None \<and> mb_ctxs w1 = mb_ctxs w \<and> free_rtu w1 = Inl Use_After_Free"
  using assms
  by (auto simp: new_rtu_def new_connection_def modbus_alloc_def modbus_connect_def on_ctx_def
      modbus_set_slave_def modbus_free_def modbus_close_def free_rtu_def mb_error_def
      PyErr_SetString_def Let_def mb_tock_def fun_upd_idem_iff fun_upd_idem)

text \<open>
  \<open>set_slave\<close> accepts the addresses 0 to 247 and gives them to a live context; any other is refused
  with an exception, but is already stored in the module, where the next connection takes it from.
\<close>

theorem set_slave_outcome:
  assumes "mb w = Some a" and "mb_ctxs w a = Some c" and "pyerr w = None"
  shows "\<exists>r w'. set_slave lib (Some addr) w = Inr (r, w') \<and> slave_addr w' = addr \<and>
    (if 0 \<le> addr \<and> addr \<le> 247
     then r = Some Py_True \<and> pyerr w' = None \<and>
          mb_ctxs w' = (mb_ctxs w)(a \<mapsto> if lib_slave_ok lib addr then c\<lparr>ctx_slave := addr\<rparr> else c)
     else r = None \<and> pyerr w' \<noteq> None \<and> mb_ctxs w' = mb_ctxs w)"
  using assms
  by (auto simp: set_slave_def modbus_set_slave_def on_ctx_def Let_def mb_tock_def PyErr_SetString_def)

section \<open>Concrete runs\<close>

definition demo_lib :: modbus_lib where
  "demo_lib = \<lparr>lib_new_rtu = (\<lambda>_ _ _ _ _ _. True), lib_new_tcp = (\<lambda>_ _ _. True),
     lib_connect = (\<lambda>_. True), lib_slave_ok = (\<lambda>a. 0 \<le> a \<and> a \<le> 247),
     lib_read_bits = (\<lambda>_ _ _ n. if n \<le> 2000 then Some (replicate (nat n) 1) else None),
     lib_read_regs = (\<lambda>_ _ _ n. if n \<le> 125 then Some (replicate (nat n) 7) else None),
     lib_strerror = (\<lambda>_. []), py_int_of = (\<lambda>_. None)\<rparr>"

definition fresh_modbus :: modbus_world where
  "fresh_modbus = \<lparr>pyerr = None, tick = 0, dev_log = [], streams = Map.empty, next_stream = 0,
     open_dirs = 0, mb = None, slave_addr = 1, mb_ctxs = Map.empty, next_mb = 0\<rparr>"

definition open_modbus :: modbus_world where
  "open_modbus = fresh_modbus\<lparr>mb := Some 0, next_mb := 1,
     mb_ctxs := [0 \<mapsto> \<lparr>ctx_slave = 1, ctx_open = True, ctx_timeout = (0, 500000)\<rparr>]\<rparr>"

lemma open_modbus_simps [simp]:
  "mb open_modbus = Some 0"
  "mb_ctxs open_modbus 0 = Some \<lparr>ctx_slave = 1, ctx_open = True, ctx_timeout = (0, 500000)\<rparr>"
  "pyerr open_modbus = None" "tick open_modbus = 0"
  by (simp_all add: open_modbus_def fresh_modbus_def)

lemma demo_lib_reads:
  "n \<le> 125 \<Longrightarrow> lib_read_regs demo_lib t k ad n = Some (replicate (nat n) 7)"
  "n \<le> 2000 \<Longrightarrow> lib_read_bits demo_lib t k ad n = Some (replicate (nat n) 1)"
  "py_int_of demo_lib x = None"
  by (simp_all add: demo_lib_def)

theorem read_registers_values_witness:
  "\<exists>w'. read_registers demo_lib (Some ([PyLong 3, PyLong 0, PyUnicode ''U32''], Some (int 1))) open_modbus =
     Inr (Some (PyList [PyLong 458759]), w')"
proof -
  have r: "lib_read_regs demo_lib (tick open_modbus) (kind_of_code 3) 0 (words_per_value U32 * int 1) =
      Some [7, 7]"
    by (simp add: demo_lib_reads words_per_value_def eval_nat_numeral)
  have t: "find_type type_table ''U32'' = Some U32" by (simp add: type_table_def)
  have "chunk 2 [7, 7 :: 16 word] 0 = [7, 7]" by (simp add: chunk_def numeral_2_eq_2)
  then have c: "le_val (chunk 2 [7, 7] 0) = 458759" by simp
  then have v: "encoded_value U32 [7, 7] 0 = PyLong 458759"
    by (simp add: encoded_value_def words_per_value_def Let_def)
  show ?thesis
    using read_registers_values [OF open_modbus_simps(1,2) _ _ t _ r] c v
    by (simp add: int32_def words_per_value_def)
qed

theorem register_roundtrip_witness:
  "build_item U32 (le_regs 2 4294967295 @ []) (replicate 125 0) 0 = PyLong (-1)"
  using register_roundtrip [of 4294967295 "[]" 0] by simp

theorem read_bits_outcome_witness:
  "read_registers demo_lib (Some ([PyLong 1, PyLong 0, PyUnicode ''B08''], Some (int 126))) open_modbus =
     Inl Buffer_Overflow"
proof -
  have r: "lib_read_bits demo_lib (tick open_modbus) (kind_of_code 1) 0 (int 126) = Some (replicate 126 1)"
    using demo_lib_reads(2) [of "int 126"] by simp
  have t: "find_type type_table ''B08'' = Some B08" by (simp add: type_table_def)
  show ?thesis
    using read_bits_outcome [OF open_modbus_simps(1,2) _ _ t _ r] by (simp add: int32_def)
qed

theorem address_error_unchecked_witness:
  "\<exists>w'. read_registers demo_lib (Some ([PyLong 3, PyUnicode ''x'', PyUnicode ''U16''], None)) open_modbus =
     Inr (Some (PyList [PyLong 7]), w') \<and> pyerr w' \<noteq> None"
proof -
  have r: "lib_read_regs demo_lib (tick open_modbus) Holding_Registers (-1) 1 = Some [7]"
    by (simp add: demo_lib_reads)
  show ?thesis
    using address_error_unchecked [OF open_modbus_simps(1,2,3) demo_lib_reads(3) r, of "''x''"]
    by (auto simp: py_outcome_of_def split: option.splits)
qed

theorem connection_lifecycle_witness:
  "\<exists>w1 w2. new_rtu demo_lib (Some (''/dev/ttymxc1'', 9600, CHR ''N'', 8, 1)) fresh_modbus =
       Inr (Some Py_True, w1) \<and>
     free_rtu w1 = Inr (Some Py_None, w2) \<and> free_rtu w2 = Inl Use_After_Free"
proof -
  have a: "mb_ctxs fresh_modbus (next_mb fresh_modbus) = None"
    "lib_new_rtu demo_lib (tick fresh_modbus) ''/dev/ttymxc1'' 9600 CHR ''N'' 8 1"
    "lib_connect demo_lib (tick fresh_modbus + 1)"
    by (simp_all add: fresh_modbus_def demo_lib_def)
  show ?thesis
    using connection_lifecycle [OF a(1,2)] unfolding if_P [OF a(3)] by blast
qed

theorem set_slave_outcome_witness:
  "\<exists>w'. set_slave demo_lib (Some 300) open_modbus = Inr (None, w') \<and> slave_addr w' = 300"
  using set_slave_outcome [OF open_modbus_simps(1,2,3), of demo_lib 300] by auto

end
