(* ===== verification/Tparam.thy ===== *)
theory Tparam
  imports C_Strings "HOL-Library.Signed_Division"
begin

text \<open>
  \<open>termcap-1.3.1/tparam.c\<close>: the expansion of the \<open>%\<close> constructs of a termcap string. The state holds
  what has been written, the real size of the block it is written to (\<open>tp_cap\<close>) and the limit
  \<open>outend\<close> the code compares with (\<open>tp_lim\<close>), which is not always the same; every write is checked
  against the former. Reads of the string past its terminator, of arguments outside the array and
  divisions by zero are faults, and so is the call of \<open>abort\<close>. \<open>char\<close> is unsigned, as on ARM.
\<close>

section \<open>State\<close>

record tp_state =
  tp_out :: string
  tp_cap :: int
  tp_lim :: int
  tp_outlen :: int
  tp_args :: "int list"
  tp_argp :: int
  tp_old_argp :: int
  tp_doleft :: nat
  tp_doup :: nat

text \<open>\<open>argp[i]\<close>.\<close>

definition arg_get :: "int \<Rightarrow> tp_state \<Rightarrow> int run" where
  "arg_get i st =
     (let k = tp_argp st + i in
      if 0 \<le> k \<and> k < int (length (tp_args st)) then Inr (tp_args st ! nat k)
      else Inl Out_Of_Bounds_Read)"

definition arg_set :: "int \<Rightarrow> int \<Rightarrow> tp_state \<Rightarrow> tp_state run" where
  "arg_set i v st =
     (let k = tp_argp st + i in
      if 0 \<le> k \<and> k < int (length (tp_args st))
      then Inr (st\<lparr>tp_args := (tp_args st)[nat k := wrap32 v]\<rparr>)
      else Inl Out_Of_Bounds_Read)"

definition arg_update :: "int \<Rightarrow> (int \<Rightarrow> int) \<Rightarrow> tp_state \<Rightarrow> tp_state run" where
  "arg_update i f st = bind_run (arg_get i st) (\<lambda>v. arg_set i (f v) st)"

definition arg_step :: "int \<Rightarrow> tp_state \<Rightarrow> tp_state" where
  "arg_step d st = st\<lparr>tp_argp := tp_argp st + d\<rparr>"

text \<open>\<open>*op++ = v\<close>.\<close>

definition put_code :: "int \<Rightarrow> tp_state \<Rightarrow> tp_state run" where
  "put_code v st =
     (if int (length (tp_out st)) < tp_cap st
      then Inr (st\<lparr>tp_out := tp_out st @ [char_of (nat (v mod 256))]\<rparr>)
      else Inl Buffer_Overflow)"

section \<open>The constructs\<close>

definition onedigit :: "int \<Rightarrow> tp_state \<Rightarrow> tp_state run" where
  "onedigit tem st = bind_run (put_code (tem smod 10 + 48) st) (\<lambda>st. Inr (arg_step 1 st))"

definition twodigit :: "int \<Rightarrow> tp_state \<Rightarrow> tp_state run" where
  "twodigit tem st =
     (let tem = tem smod 100 in bind_run (put_code (tem sdiv 10 + 48) st) (onedigit tem))"

definition threedigit :: "int \<Rightarrow> tp_state \<Rightarrow> tp_state run" where
  "threedigit tem st =
     (if tem > 999
      then bind_run (put_code (tem sdiv 1000 + 48) st) (\<lambda>st.
           let tem = tem smod 1000 in bind_run (put_code (tem sdiv 100 + 48) st) (twodigit tem))
      else bind_run (put_code (tem sdiv 100 + 48) st) (twodigit tem))"

definition decimal :: "int \<Rightarrow> tp_state \<Rightarrow> tp_state run" where
  "decimal tem st =
     (if tem < 10 then onedigit tem st
      else if tem < 100 then twodigit tem st
      else threedigit tem st)"

text \<open>
  The loop that avoids 0, newline and tab: each time the value is increased, one move up or left is
  noted for later, and \<open>outend\<close> lowered by what that will take.
\<close>

definition note_move :: "string option \<Rightarrow> string option \<Rightarrow> tp_state \<Rightarrow> tp_state run" where
  "note_move up left st =
     (if tp_argp st = tp_old_argp st
      then (case up of
              None \<Rightarrow> Inl Null_Pointer
            | Some u \<Rightarrow> Inr (st\<lparr>tp_doup := Suc (tp_doup st), tp_lim := tp_lim st - int (length u)\<rparr>))
      else (case left of
              None \<Rightarrow> Inl Null_Pointer
            | Some l \<Rightarrow> Inr (st\<lparr>tp_doleft := Suc (tp_doleft st), tp_lim := tp_lim st - int (length l)\<rparr>)))"

function avoid_loop ::
    "string option \<Rightarrow> string option \<Rightarrow> int \<Rightarrow> tp_state \<Rightarrow> (int \<times> tp_state) run" where
  "avoid_loop up left tem st =
     (if tem = 0 \<or> tem = 10 \<or> tem = 9
      then (case note_move up left st of
              Inl e \<Rightarrow> Inl e
            | Inr st \<Rightarrow> avoid_loop up left (tem + 1) st)
      else Inr (tem, st))"
  by pat_completeness auto

termination
  by (relation "measure (\<lambda>(up, left, tem, st). if tem = 9 then 2 else if tem = 0 \<or> tem = 10 then 1 else 0)")
    auto

declare avoid_loop.simps [simp del]

definition output_char ::
    "string option \<Rightarrow> string option \<Rightarrow> int \<Rightarrow> tp_state \<Rightarrow> tp_state run" where
  "output_char up left tem st =
     bind_run (if left = None then Inr (tem, st) else avoid_loop up left tem st) (\<lambda>(tem, st).
     bind_run (put_code (if tem \<noteq> 0 then tem else 128) st) (\<lambda>st. Inr (arg_step 1 st)))"

definition add_char ::
    "string option \<Rightarrow> string option \<Rightarrow> string \<Rightarrow> nat \<Rightarrow> int \<Rightarrow> tp_state \<Rightarrow> (nat \<times> tp_state) run" where
  "add_char up left s p tem st =
     bind_run (code_at s p) (\<lambda>c.
     bind_run (output_char up left (wrap32 (tem + c)) st) (\<lambda>st. Inr (p + 1, st)))"

text \<open>\<open>%a\<close>: arithmetic on the argument with a constant or another argument.\<close>

definition arithmetic :: "string \<Rightarrow> nat \<Rightarrow> tp_state \<Rightarrow> (nat \<times> tp_state) run" where
  "arithmetic s p st =
     bind_run (code_at s (p + 2)) (\<lambda>c2. let tem = and c2 127 in
     bind_run (byte_at s (p + 1)) (\<lambda>c1.
     bind_run (if c1 = CHR ''p'' then arg_get (tem - 64) st else Inr tem) (\<lambda>tem.
     bind_run (byte_at s p) (\<lambda>c0.
     bind_run
       (if c0 = CHR ''-'' then arg_update 0 (\<lambda>v. v - tem) st
        else if c0 = CHR ''+'' then arg_update 0 (\<lambda>v. v + tem) st
        else if c0 = CHR ''*'' then arg_update 0 (\<lambda>v. v * tem) st
        else if c0 = CHR ''/''
        then if tem = 0 then Inl Division_By_Zero else arg_update 0 (\<lambda>v. v sdiv tem) st
        else arg_set 0 tem st) (\<lambda>st.
     Inr (p + 3, st))))))"

text \<open>
  The switch: \<open>p\<close> is the position after the \<open>%\<close>. Every construct, even \<open>%%\<close>, first reads the argument
  \<open>argp\<close> points to.
\<close>

definition percent ::
    "string option \<Rightarrow> string option \<Rightarrow> string \<Rightarrow> nat \<Rightarrow> tp_state \<Rightarrow> (nat \<times> tp_state) run" where
  "percent up left s p st =
     bind_run (byte_at s p) (\<lambda>c. let p = p + 1 in
     bind_run (arg_get 0 st) (\<lambda>tem.
     if c = CHR ''d'' then bind_run (decimal tem st) (\<lambda>st. Inr (p, st))
     else if c = CHR ''3'' then bind_run (threedigit tem st) (\<lambda>st. Inr (p, st))
     else if c = CHR ''2'' then bind_run (twodigit tem st) (\<lambda>st. Inr (p, st))
     else if c = CHR ''C''
     then if tem \<ge> 96
          then bind_run (put_code (tem sdiv 96) st) (add_char up left s p (tem smod 96))
          else add_char up left s p tem st
     else if c = CHR ''+'' then add_char up left s p tem st
     else if c = CHR ''.'' then bind_run (output_char up left tem st) (\<lambda>st. Inr (p, st))
     else if c = CHR ''f'' then Inr (p, arg_step 1 st)
     else if c = CHR ''b'' then Inr (p, arg_step (-1) st)
     else if c = CHR ''r''
     then bind_run (arg_get 1 st) (\<lambda>v.
          bind_run (arg_set 0 v st) (\<lambda>st.
          bind_run (arg_set 1 tem st) (\<lambda>st.
          Inr (p, st\<lparr>tp_old_argp := tp_old_argp st + 1\<rparr>))))
     else if c = CHR ''>''
     then bind_run (code_at s p) (\<lambda>x.
          if tem > x
          then bind_run (code_at s (p + 1)) (\<lambda>y.
               bind_run (arg_update 0 (\<lambda>v. v + y) st) (\<lambda>st. Inr (p + 2, st)))
          else Inr (p + 2, st))
     else if c = CHR ''a'' then arithmetic s p st
     else if c = CHR ''i''
     then bind_run (arg_update 0 (\<lambda>v. v + 1) st) (\<lambda>st.
          bind_run (arg_update 1 (\<lambda>v. v + 1) st) (\<lambda>st. Inr (p, st)))
     else if c = CHR ''%'' then bind_run (put_code 37 st) (\<lambda>st. Inr (p, st))
     else if c = CHR ''n''
     then bind_run (arg_update 0 (\<lambda>v. xor v 96) st) (\<lambda>st.
          bind_run (arg_update 1 (\<lambda>v. xor v 96) st) (\<lambda>st. Inr (p, st)))
     else if c = CHR ''m''
     then bind_run (arg_update 0 (\<lambda>v. xor v 127) st) (\<lambda>st.
          bind_run (arg_update 1 (\<lambda>v. xor v 127) st) (\<lambda>st. Inr (p, st)))
     else if c = CHR ''B''
     then bind_run (arg_update 0 (\<lambda>v. v + 6 * (tem sdiv 10)) st) (\<lambda>st. Inr (p, st))
     else if c = CHR ''D''
     then bind_run (arg_update 0 (\<lambda>v. v - 2 * (tem smod 16)) st) (\<lambda>st. Inr (p, st))
     else Inl Abort))"

section \<open>The loop\<close>

text \<open>
  Make the block bigger if it might be too short; \<open>mem n\<close> says whether \<open>n\<close> bytes can be had, and so also what becomes
  of a size that the \<open>int\<close> \<open>outlen\<close> cannot hold: it comes out negative, and the allocator, which takes it for a size
  of more than half of the address space, has no such block. The new limit is the size of the new block: what had been
  reserved for moves is forgotten.
\<close>

definition grow :: "(int \<Rightarrow> bool) \<Rightarrow> int \<Rightarrow> tp_state \<Rightarrow> tp_state run" where
  "grow mem len st =
     (if int (length (tp_out st)) + 5 \<ge> tp_lim st
      then let outlen = (if tp_outlen st = 0 then len + 40 else 2 * tp_outlen st) in
           if mem outlen
           then Inr (st\<lparr>tp_outlen := outlen, tp_cap := outlen, tp_lim := outlen\<rparr>)
           else Inl Abort
      else Inr st)"

lemma adv_Inr: "p < (p' :: nat) \<Longrightarrow> run_holds (\<lambda>_. True) (\<lambda>(p', st). p < p') (Inr (p', st))"
  by simp

lemma adv_bind:
  "(\<And>x. run_holds (\<lambda>_. True) Q (f x)) \<Longrightarrow> run_holds (\<lambda>_. True) Q (bind_run m f)"
  by (rule run_holds_bind [where P = "\<lambda>_. True"]) simp_all

lemma percent_advances:
  assumes "percent up left s p st = Inr (p', st')"
  shows "p < p'"
proof -
  have add: "run_holds (\<lambda>_. True) (\<lambda>(p', st). p < p') (add_char up left s (p + 1) tem st)" for tem st
    unfolding add_char_def by (intro adv_bind adv_Inr) simp
  have ari: "run_holds (\<lambda>_. True) (\<lambda>(p', st). p < p') (arithmetic s (p + 1) st)" for st
    unfolding arithmetic_def Let_def by (intro adv_bind adv_Inr) simp
  have "run_holds (\<lambda>_. True) (\<lambda>(p', st). p < p') (percent up left s p st)"
    unfolding percent_def Let_def
    by (intro adv_bind run_holds_if add ari; (rule adv_Inr)?; simp)
  then show ?thesis using assms by simp
qed

function tparam_loop ::
    "(int \<Rightarrow> bool) \<Rightarrow> int \<Rightarrow> string option \<Rightarrow> string option \<Rightarrow> string \<Rightarrow> nat \<Rightarrow> tp_state \<Rightarrow> tp_state run"
    where
  "tparam_loop mem len up left s p st =
     (case grow mem len st of
        Inl e \<Rightarrow> Inl e
      | Inr st \<Rightarrow>
     (case byte_at s p of
        Inl e \<Rightarrow> Inl e
      | Inr c \<Rightarrow>
          if c = NUL then Inr st
          else if c = CHR ''%''
          then (case percent up left s (p + 1) st of
                  Inl e \<Rightarrow> Inl e
                | Inr (p', st') \<Rightarrow> tparam_loop mem len up left s p' st')
          else (case put_code (of_char c) st of
                  Inl e \<Rightarrow> Inl e
                | Inr st' \<Rightarrow> tparam_loop mem len up left s (p + 1) st')))"
  by pat_completeness auto

termination
  by (relation "measure (\<lambda>(mem, len, up, left, s, p, st). length s + 1 - p)")
    (auto dest!: percent_advances simp: byte_at_def split: if_splits)

declare tparam_loop.simps [simp del]

text \<open>
  The end: the moves are appended behind the terminator, \<open>strcat\<close> by \<open>strcat\<close>. The result says
  whether the text is in a block of its own, which the caller is to free.
\<close>

definition tparam1 ::
    "(int \<Rightarrow> bool) \<Rightarrow> string \<Rightarrow> int \<Rightarrow> string option \<Rightarrow> string option \<Rightarrow> int list \<Rightarrow> (bool \<times> string) run"
    where
  "tparam1 mem s len up left args =
     bind_run (tparam_loop mem len up left s 0
       \<lparr>tp_out = [], tp_cap = len, tp_lim = len, tp_outlen = 0, tp_args = args, tp_argp = 0,
        tp_old_argp = 0, tp_doleft = 0, tp_doup = 0\<rparr>) (\<lambda>st.
     let moves = concat (replicate (tp_doup st) (case up of None \<Rightarrow> [] | Some u \<Rightarrow> u)) @
                 concat (replicate (tp_doleft st) (case left of None \<Rightarrow> [] | Some l \<Rightarrow> l));
         text = tp_out st @ moves in
     if int (length text) + 1 \<le> tp_cap st then Inr (tp_outlen st \<noteq> 0, text) else Inl Buffer_Overflow)"

definition tparam ::
    "(int \<Rightarrow> bool) \<Rightarrow> string \<Rightarrow> int \<Rightarrow> int \<Rightarrow> int \<Rightarrow> int \<Rightarrow> int \<Rightarrow> (bool \<times> string) run" where
  "tparam mem s len arg0 arg1 arg2 arg3 = tparam1 mem s len None None [arg0, arg1, arg2, arg3]"

text \<open>\<open>UP\<close> and \<open>BC\<close> are global variables; a null \<open>cm\<close> gives \<open>NULL\<close>, here \<open>None\<close>.\<close>

definition tgoto ::
    "(int \<Rightarrow> bool) \<Rightarrow> string option \<Rightarrow> string option \<Rightarrow> string option \<Rightarrow> int \<Rightarrow> int \<Rightarrow>
     (bool \<times> string) option run" where
  "tgoto mem UP BC cm hpos vpos =
     (case cm of
        None \<Rightarrow> Inr None
      | Some s \<Rightarrow> bind_run (tparam1 mem s 50 UP BC [vpos, hpos]) (\<lambda>r. Inr (Some r)))"

section \<open>The block is never overrun in the loop\<close>

text \<open>
  The invariant of the block: what is written fits it, the limit never exceeds its size, and a block
  of its own has at least 40 bytes. With \<open>q\<close> no move has been noted either. \<open>fits n\<close> leaves room
  for \<open>n\<close> more bytes.
\<close>

definition tp_inv :: "bool \<Rightarrow> int \<Rightarrow> tp_state \<Rightarrow> bool" where
  "tp_inv q len st \<longleftrightarrow>
     int (length (tp_out st)) \<le> tp_cap st \<and> tp_lim st \<le> tp_cap st \<and>
     (tp_outlen st = 0 \<and> tp_cap st = len \<or> 40 \<le> tp_outlen st \<and> tp_cap st = tp_outlen st) \<and>
     (q \<longrightarrow> tp_doup st = 0 \<and> tp_doleft st = 0)"

definition fits :: "int \<Rightarrow> bool \<Rightarrow> int \<Rightarrow> tp_state \<Rightarrow> bool" where
  "fits n q len st \<longleftrightarrow> tp_inv q len st \<and> int (length (tp_out st)) + n \<le> tp_cap st"

abbreviation in_block :: "('a \<Rightarrow> bool) \<Rightarrow> 'a run \<Rightarrow> bool" where
  "in_block Q r \<equiv> run_holds (\<lambda>e. e \<noteq> Buffer_Overflow) Q r"

lemma fits_mono: "fits n q len st \<Longrightarrow> m \<le> n \<Longrightarrow> fits m q len st"
  by (simp add: fits_def)

lemma fits_inv: "fits n q len st \<Longrightarrow> tp_inv q len st"
  by (simp add: fits_def)

lemma grow_fits: "0 \<le> len \<Longrightarrow> tp_inv q len st \<Longrightarrow> in_block (fits 6 q len) (grow mem len st)"
  by (auto simp: grow_def fits_def tp_inv_def Let_def)

lemma put_code_fits:
  "fits n q len st \<Longrightarrow> 1 \<le> n \<Longrightarrow> in_block (fits (n - 1) q len) (put_code v st)"
  by (auto simp: put_code_def fits_def tp_inv_def)

lemma arg_step_fits [simp]: "fits n q len (arg_step d st) = fits n q len st"
  by (simp add: arg_step_def fits_def tp_inv_def)

lemma read_in_block [simp]:
  "in_block (\<lambda>_. True) (byte_at s p)" "in_block (\<lambda>_. True) (code_at s p)" "in_block (\<lambda>_. True) (arg_get i st)"
  by (simp_all add: code_at_def byte_at_def arg_get_def Let_def)

lemma arg_set_fits: "fits n q len st \<Longrightarrow> in_block (fits n q len) (arg_set i v st)"
  by (simp add: arg_set_def fits_def tp_inv_def Let_def)

lemma arg_update_fits: "fits n q len st \<Longrightarrow> in_block (fits n q len) (arg_update i f st)"
  unfolding arg_update_def by (rule run_holds_bind [OF read_in_block(3)]) (rule arg_set_fits)

lemma bind_read:
  "in_block (\<lambda>_. True) r \<Longrightarrow> (\<And>x. in_block Q (f x)) \<Longrightarrow> in_block Q (bind_run r f)"
  by (rule run_holds_bind) simp_all

lemma onedigit_fits: "fits n q len st \<Longrightarrow> 1 \<le> n \<Longrightarrow> in_block (tp_inv q len) (onedigit tem st)"
  unfolding onedigit_def
  by (rule run_holds_bind [OF put_code_fits]) (auto dest: fits_inv simp: tp_inv_def arg_step_def)

lemma twodigit_fits: "fits n q len st \<Longrightarrow> 2 \<le> n \<Longrightarrow> in_block (tp_inv q len) (twodigit tem st)"
  unfolding twodigit_def Let_def
  by (rule run_holds_bind [OF put_code_fits]) (auto intro: onedigit_fits)

lemma threedigit_fits: "fits n q len st \<Longrightarrow> 4 \<le> n \<Longrightarrow> in_block (tp_inv q len) (threedigit tem st)"
  unfolding threedigit_def Let_def
  by (intro run_holds_if run_holds_bind [OF put_code_fits]) (auto intro: twodigit_fits)

lemma decimal_fits: "fits n q len st \<Longrightarrow> 4 \<le> n \<Longrightarrow> in_block (tp_inv q len) (decimal tem st)"
  unfolding decimal_def
  by (intro run_holds_if) (auto intro: onedigit_fits twodigit_fits threedigit_fits)

lemma note_move_fits: "\<not> q \<Longrightarrow> fits n q len st \<Longrightarrow> in_block (fits n q len) (note_move up left st)"
  by (auto simp: note_move_def fits_def tp_inv_def split: option.split)

lemma avoid_loop_fits:
  "\<not> q \<Longrightarrow> fits n q len st \<Longrightarrow> in_block (\<lambda>(tem', st'). fits n q len st') (avoid_loop up left tem st)"
proof (induction up left tem st rule: avoid_loop.induct)
  case (1 up left tem st)
  show ?case
  proof (cases "tem = 0 \<or> tem = 10 \<or> tem = 9")
    case True
    then have "avoid_loop up left tem st = bind_run (note_move up left st) (avoid_loop up left (tem + 1))"
      by (subst avoid_loop.simps) (simp add: bind_run_def)
    moreover have "in_block (\<lambda>(tem', st'). fits n q len st') \<dots>"
      using 1 True note_move_fits [OF 1(2,3), of up left] by (cases "note_move up left st") simp_all
    ultimately show ?thesis by simp
  next
    case False
    then show ?thesis using 1(3) by (simp add: avoid_loop.simps [of up left tem st])
  qed
qed

lemma output_char_fits:
  "(q \<Longrightarrow> left = None) \<Longrightarrow> fits n q len st \<Longrightarrow> 1 \<le> n \<Longrightarrow>
   in_block (tp_inv q len) (output_char up left tem st)"
  unfolding output_char_def
proof (rule run_holds_bind [where P = "\<lambda>(tem', st'). fits n q len st'"])
  assume f: "fits n q len st" and l: "q \<Longrightarrow> left = None"
  show "in_block (\<lambda>(tem', st'). fits n q len st') (if left = None then Inr (tem, st) else avoid_loop up left tem st)"
  proof (cases "left = None")
    case False
    then have "\<not> q" using l by blast
    from avoid_loop_fits [OF this f] False f show ?thesis by simp
  qed (use f in simp)
next
  fix x :: "int \<times> tp_state"
  assume n: "1 \<le> n" and x: "case x of (tem', st') \<Rightarrow> fits n q len st'"
  obtain tem' st' where [simp]: "x = (tem', st')" by (cases x)
  show "in_block (tp_inv q len) (case x of (tem, st) \<Rightarrow>
      bind_run (put_code (if tem \<noteq> 0 then tem else 128) st) (\<lambda>st. Inr (arg_step 1 st)))"
    unfolding \<open>x = (tem', st')\<close> prod.case
    by (rule run_holds_bind [OF put_code_fits]) (use n x in \<open>auto dest: fits_inv simp: tp_inv_def arg_step_def\<close>)
qed

lemma add_char_fits:
  "(q \<Longrightarrow> left = None) \<Longrightarrow> fits n q len st \<Longrightarrow> 1 \<le> n \<Longrightarrow> in_block (\<lambda>(p, st). tp_inv q len st) (add_char up left s p tem st)"
  unfolding add_char_def
  by (intro bind_read read_in_block run_holds_bind [OF output_char_fits]) simp_all

lemma arithmetic_fits:
  assumes "fits n q len st"
  shows "in_block (\<lambda>(p, st). tp_inv q len st) (arithmetic s p st)"
  unfolding arithmetic_def Let_def
  by (intro bind_read read_in_block run_holds_bind [where P = "fits n q len"] run_holds_if)
    (auto intro: assms arg_update_fits arg_set_fits dest: fits_inv)

lemma percent_in_block:
  assumes "fits 6 q len st" and left: "q \<Longrightarrow> left = None"
  shows "in_block (\<lambda>(p, st). tp_inv q len st) (percent up left s p st)"
proof -
  have pos: "in_block (\<lambda>(p, st). tp_inv q len st) (bind_run r (\<lambda>st. Inr (p', st)))"
    if "in_block (tp_inv q len) r" for r :: "tp_state run" and p' :: nat
    using that by (cases r) simp_all
  have upd: "in_block (\<lambda>(p, st). tp_inv q len st) (bind_run (arg_update i f st') (\<lambda>st. Inr (p', st)))"
    if "fits 6 q len st'" for i f st' and p' :: nat
    using arg_update_fits [OF that, of i f] fits_inv by (cases "arg_update i f st'") auto
  have upd2: "in_block (\<lambda>(p, st). tp_inv q len st)
      (bind_run (arg_update 0 f st) (\<lambda>st. bind_run (arg_update 1 g st) (\<lambda>st. Inr (p', st))))" for f g and p' :: nat
    by (rule run_holds_bind [OF arg_update_fits [OF assms(1)]]) (rule upd)
  have swap: "in_block (\<lambda>(p, st). tp_inv q len st)
      (bind_run (arg_set 0 v st) (\<lambda>st. bind_run (arg_set 1 tem st) (\<lambda>st.
        Inr (p', st\<lparr>tp_old_argp := tp_old_argp st + 1\<rparr>))))" for v tem and p' :: nat
    by (rule run_holds_bind [OF arg_set_fits [OF assms(1)]], rule run_holds_bind, erule arg_set_fits)
      (simp add: fits_def tp_inv_def)
  have put: "in_block (\<lambda>(p, st). tp_inv q len st) (bind_run (put_code v st) (add_char up left s p' tem))" for v tem p'
    by (rule run_holds_bind [OF put_code_fits [OF assms(1)]]) (auto intro: add_char_fits left)
  have inv: "tp_inv q len st" by (rule fits_inv [OF assms(1)])
  have put1: "in_block (tp_inv q len) (put_code v st)" for v
    by (rule run_holds_mono [OF put_code_fits [OF assms(1)]]) (auto dest: fits_inv)
  have step: "tp_inv q len (arg_step d st)" for d using inv by (simp add: tp_inv_def arg_step_def)
  show ?thesis
    unfolding percent_def Let_def
    apply (rule bind_read [OF read_in_block(1)], rule bind_read [OF read_in_block(3)])
    apply (rule run_holds_if, rule pos, rule decimal_fits [OF assms(1)], simp)
    apply (rule run_holds_if, rule pos, rule threedigit_fits [OF assms(1)], simp)
    apply (rule run_holds_if, rule pos, rule twodigit_fits [OF assms(1)], simp)
    apply (rule run_holds_if, rule run_holds_if, rule put, rule add_char_fits [OF left assms(1)], assumption, simp)
    apply (rule run_holds_if, rule add_char_fits [OF left assms(1)], assumption, simp)
    apply (rule run_holds_if, rule pos, rule output_char_fits [OF left assms(1)], assumption, simp)
    apply (rule run_holds_if, simp add: step)
    apply (rule run_holds_if, simp add: step)
    apply (rule run_holds_if, rule bind_read [OF read_in_block(3)], rule swap)
    apply (rule run_holds_if, rule bind_read [OF read_in_block(2)], rule run_holds_if,
        rule bind_read [OF read_in_block(2)], rule upd [OF assms(1)], simp add: inv)
    apply (rule run_holds_if, rule arithmetic_fits [OF assms(1)])
    apply (rule run_holds_if, rule upd2)
    apply (rule run_holds_if, rule pos, rule put1)
    apply (rule run_holds_if, rule upd2)
    apply (rule run_holds_if, rule upd2)
    apply (rule run_holds_if, rule upd [OF assms(1)])
    apply (rule run_holds_if, rule upd [OF assms(1)])
    apply simp
    done
qed

lemma tparam_loop_in_block:
  "0 \<le> len \<Longrightarrow> (q \<Longrightarrow> left = None) \<Longrightarrow> tp_inv q len st \<Longrightarrow>
   in_block (fits 6 q len) (tparam_loop mem len up left s p st)"
proof (induction mem len up left s p st rule: tparam_loop.induct)
  case (1 mem len up left s p st)
  have g: "in_block (fits 6 q len) (grow mem len st)" by (rule grow_fits [OF 1(3,5)])
  show ?case
  proof (cases "grow mem len st")
    case (Inl e)
    then show ?thesis using g by (simp add: tparam_loop.simps [of mem len up left s p st])
  next
    case st1: (Inr st1)
    have f1: "fits 6 q len st1" using g st1 by simp
    show ?thesis
    proof (cases "byte_at s p")
      case (Inl e)
      then show ?thesis
        using st1 read_in_block(1) [of s p] by (simp add: tparam_loop.simps [of mem len up left s p st])
    next
      case c: (Inr c)
      show ?thesis
      proof (cases "c = NUL")
        case True
        then show ?thesis using st1 c f1 by (simp add: tparam_loop.simps [of mem len up left s p st])
      next
        case nul: False
        show ?thesis
        proof (cases "c = CHR ''%''")
          case pc: True
          have pr: "in_block (\<lambda>(p, st). tp_inv q len st) (percent up left s (p + 1) st1)"
            by (rule percent_in_block [OF f1 1(4)])
          show ?thesis
          proof (cases "percent up left s (p + 1) st1")
            case (Inl e)
            then show ?thesis
              using st1 c pc pr by (simp add: tparam_loop.simps [of mem len up left s p st])
          next
            case (Inr r)
            obtain p' st' where r: "r = (p', st')" by (cases r)
            have "in_block (fits 6 q len) (tparam_loop mem len up left s p' st')"
              using 1(1) [OF st1 c nul pc Inr r [symmetric] 1(3,4)] pr Inr r r by simp
            then show ?thesis
              using st1 c nul pc Inr r by (simp add: tparam_loop.simps [of mem len up left s p st])
          qed
        next
          case pc: False
          have pr: "in_block (tp_inv q len) (put_code (of_char c) st1)"
            by (rule run_holds_mono [OF put_code_fits [OF f1]]) (auto dest: fits_inv)
          show ?thesis
          proof (cases "put_code (of_char c) st1")
            case (Inl e)
            then show ?thesis
              using st1 c nul pc pr by (simp add: tparam_loop.simps [of mem len up left s p st])
          next
            case (Inr st')
            have "in_block (fits 6 q len) (tparam_loop mem len up left s (p + 1) st')"
              using 1(2) [OF st1 c nul pc Inr 1(3,4)] pr Inr by simp
            then show ?thesis
              using st1 c nul pc Inr by (simp add: tparam_loop.simps [of mem len up left s p st])
          qed
        qed
      qed
    qed
  qed
qed

definition tp_start :: "int \<Rightarrow> int list \<Rightarrow> tp_state" where
  "tp_start len args = \<lparr>tp_out = [], tp_cap = len, tp_lim = len, tp_outlen = 0, tp_args = args,
     tp_argp = 0, tp_old_argp = 0, tp_doleft = 0, tp_doup = 0\<rparr>"

lemma tp_start_inv: "0 \<le> len \<Longrightarrow> tp_inv q len (tp_start len args)"
  by (simp add: tp_inv_def tp_start_def)

lemma loop_exit_room:
  assumes "in_block (fits 6 q len) r" and "r = Inr st"
  shows "int (length (tp_out st)) + 6 \<le> tp_cap st"
  using assms by (simp add: fits_def)

section \<open>Decimal output\<close>

definition add_out :: "string \<Rightarrow> tp_state \<Rightarrow> tp_state" where
  "add_out t st = st\<lparr>tp_out := tp_out st @ t\<rparr>"

lemma add_out_simps [simp]:
  "tp_out (add_out t st) = tp_out st @ t" "tp_cap (add_out t st) = tp_cap st"
  "tp_lim (add_out t st) = tp_lim st" "tp_outlen (add_out t st) = tp_outlen st"
  "tp_args (add_out t st) = tp_args st" "tp_argp (add_out t st) = tp_argp st"
  "tp_doup (add_out t st) = tp_doup st" "tp_doleft (add_out t st) = tp_doleft st"
  "add_out t (add_out u st) = add_out (u @ t) st"
  by (simp_all add: add_out_def)

definition room :: "nat \<Rightarrow> tp_state \<Rightarrow> bool" where
  "room n st \<longleftrightarrow> int (length (tp_out st)) + int n \<le> tp_cap st"

lemma room_add_out [simp]: "room n (add_out t st) \<longleftrightarrow> room (n + length t) st"
  by (auto simp: room_def)

lemma sdiv_nonneg: "0 \<le> a \<Longrightarrow> 0 < b \<Longrightarrow> a sdiv b = a div (b :: int)"
  by (auto simp: signed_divide_int_def sgn_if)

lemma smod_nonneg: "0 \<le> a \<Longrightarrow> 0 < b \<Longrightarrow> a smod b = a mod (b :: int)"
  by (cases "a = 0") (auto simp: signed_modulo_int_def sgn_if)

lemma mod_mult_div: "0 < b \<Longrightarrow> 0 < c \<Longrightarrow> n mod (b * c) div b = n div b mod (c :: int)"
  by (simp add: zmod_zmult2_eq)

lemma digit_facts:
  fixes n :: int
  shows "n mod 100 div 10 = n div 10 mod 10" "n mod 1000 div 10 = n div 10 mod 100"
    "n mod 1000 div 100 = n div 100 mod 10" "n mod 100 mod 10 = n mod 10" "n mod 1000 mod 10 = n mod 10"
proof -
  have h: "(100 :: int) = 10 * 10" by simp
  have t: "(1000 :: int) = 10 * 100" "(1000 :: int) = 100 * 10" by simp_all
  show "n mod 100 div 10 = n div 10 mod 10" unfolding h by (rule mod_mult_div) simp_all
  show "n mod 1000 div 10 = n div 10 mod 100" unfolding t(1) by (rule mod_mult_div) simp_all
  show "n mod 1000 div 100 = n div 100 mod 10" unfolding t(2) by (rule mod_mult_div) simp_all
  show "n mod 100 mod 10 = n mod 10" "n mod 1000 mod 10 = n mod 10"
    by (rule mod_mod_cancel, simp)+
qed

lemma put_code_room:
  "room 1 st \<Longrightarrow> put_code v st = Inr (add_out [char_of (nat (v mod 256))] st)"
  by (simp add: put_code_def room_def add_out_def)

lemma put_digit:
  assumes "room 1 st" and "0 \<le> d" and "d < 10"
  shows "put_code (d + 48) st = Inr (add_out [digit_char (nat d)] st)"
proof -
  have "nat ((d + 48) mod 256) = 48 + nat d" using assms(2,3) by simp
  then show ?thesis by (simp add: put_code_room [OF assms(1)] digit_char_def)
qed

lemma room_mono: "room n st \<Longrightarrow> m \<le> n \<Longrightarrow> room m st"
  by (simp add: room_def)

lemma onedigit_out:
  assumes "room 1 st" and "0 \<le> n"
  shows "onedigit n st = Inr (arg_step 1 (add_out [digit_char (nat (n mod 10))] st))"
  using assms put_digit [OF assms(1), of "n mod 10"] by (simp add: onedigit_def smod_nonneg)

lemma twodigit_out:
  assumes "room 2 st" and "0 \<le> n"
  shows "twodigit n st =
    Inr (arg_step 1 (add_out [digit_char (nat (n div 10 mod 10)), digit_char (nat (n mod 10))] st))"
proof -
  note e = digit_facts
  have "put_code (n div 10 mod 10 + 48) st = Inr (add_out [digit_char (nat (n div 10 mod 10))] st)"
    by (rule put_digit) (use assms in \<open>auto intro: room_mono\<close>)
  then show ?thesis
    using assms onedigit_out [of "add_out [digit_char (nat (n div 10 mod 10))] st" "n mod 100"]
    by (simp add: twodigit_def smod_nonneg sdiv_nonneg e numeral_2_eq_2 Let_def)
qed

lemma threedigit_out:
  assumes "room 3 st" and "0 \<le> n" and "n \<le> 999"
  shows "threedigit n st = Inr (arg_step 1 (add_out
    [digit_char (nat (n div 100)), digit_char (nat (n div 10 mod 10)), digit_char (nat (n mod 10))] st))"
proof -
  have "put_code (n div 100 + 48) st = Inr (add_out [digit_char (nat (n div 100))] st)"
    by (rule put_digit) (use assms in \<open>auto intro: room_mono\<close>)
  then show ?thesis
    using assms twodigit_out [of "add_out [digit_char (nat (n div 100))] st" n]
    by (simp add: threedigit_def sdiv_nonneg numeral_3_eq_3 numeral_2_eq_2 Let_def)
qed

lemma threedigit_thousands:
  assumes "room 4 st" and "1000 \<le> n" and "n \<le> 9999"
  shows "threedigit n st = Inr (arg_step 1 (add_out
    [digit_char (nat (n div 1000)), digit_char (nat (n div 100 mod 10)), digit_char (nat (n div 10 mod 10)),
     digit_char (nat (n mod 10))] st))"
proof -
  let ?d = "digit_char (nat (n div 1000))" and ?c = "digit_char (nat (n div 100 mod 10))"
  have e: "n mod 1000 div 100 = n div 100 mod 10" "n mod 1000 div 10 mod 10 = n div 10 mod 10"
    "n mod 1000 mod 10 = n mod 10"
    unfolding digit_facts by (rule refl)+
  have p1: "put_code (n div 1000 + 48) st = Inr (add_out [?d] st)"
    by (rule put_digit) (use assms in \<open>auto intro: room_mono\<close>)
  have p2: "put_code (n div 100 mod 10 + 48) (add_out [?d] st) = Inr (add_out [?c] (add_out [?d] st))"
    by (rule put_digit) (use assms in \<open>auto intro: room_mono\<close>)
  have p3: "twodigit (n mod 1000) (add_out [?c] (add_out [?d] st)) =
      Inr (arg_step 1 (add_out [digit_char (nat (n div 10 mod 10)), digit_char (nat (n mod 10))]
        (add_out [?c] (add_out [?d] st))))"
    using twodigit_out [of "add_out [?c] (add_out [?d] st)" "n mod 1000"] assms(1)
    by (simp add: e eval_nat_numeral)
  show ?thesis
    using assms(2) p1 p2 p3 by (simp add: threedigit_def sdiv_nonneg smod_nonneg e Let_def)
qed

lemma show_nat_cases:
  "n < 10 \<Longrightarrow> show_nat n = [digit_char n]"
  "10 \<le> n \<Longrightarrow> n < 100 \<Longrightarrow> show_nat n = [digit_char (n div 10), digit_char (n mod 10)]"
  "100 \<le> n \<Longrightarrow> n < 1000 \<Longrightarrow> show_nat n =
     [digit_char (n div 100), digit_char (n div 10 mod 10), digit_char (n mod 10)]"
  "1000 \<le> n \<Longrightarrow> n < 10000 \<Longrightarrow> show_nat n =
     [digit_char (n div 1000), digit_char (n div 100 mod 10), digit_char (n div 10 mod 10),
      digit_char (n mod 10)]"
proof -
  show "n < 10 \<Longrightarrow> show_nat n = [digit_char n]" by (rule show_nat_small)
  have two: "show_nat n = [digit_char (n div 10), digit_char (n mod 10)]" if "10 \<le> n" "n < 100" for n
    using that by (simp add: show_nat.simps [of n] show_nat_small)
  then show "10 \<le> n \<Longrightarrow> n < 100 \<Longrightarrow> show_nat n = [digit_char (n div 10), digit_char (n mod 10)]" .
  have three: "show_nat n = [digit_char (n div 100), digit_char (n div 10 mod 10), digit_char (n mod 10)]"
    if "100 \<le> n" "n < 1000" for n
  proof -
    have "10 \<le> n div 10" "n div 10 < 100" using that by presburger+
    from two [OF this] show ?thesis
      using that by (simp add: show_nat.simps [of n] div_mult2_eq [symmetric])
  qed
  then show "100 \<le> n \<Longrightarrow> n < 1000 \<Longrightarrow> show_nat n =
     [digit_char (n div 100), digit_char (n div 10 mod 10), digit_char (n mod 10)]" .
  show "show_nat n = [digit_char (n div 1000), digit_char (n div 100 mod 10),
      digit_char (n div 10 mod 10), digit_char (n mod 10)]" if "1000 \<le> n" "n < 10000"
  proof -
    have "100 \<le> n div 10" "n div 10 < 1000" using that by presburger+
    from three [OF this] show ?thesis
      using that by (simp add: show_nat.simps [of n] div_mult2_eq [symmetric])
  qed
qed

lemma decimal_out:
  assumes "room 4 st" and "0 \<le> n" and "n \<le> 9999"
  shows "decimal n st = Inr (arg_step 1 (add_out (show_nat (nat n)) st))"
proof -
  have r: "room 1 st" "room 2 st" "room 3 st" using assms(1) by (auto intro: room_mono)
  consider "n < 10" | "10 \<le> n" "n < 100" | "100 \<le> n" "n < 1000" | "1000 \<le> n"
    by linarith
  then show ?thesis
  proof cases
    case 1
    then show ?thesis
      using assms onedigit_out [OF r(1), of n] by (simp add: decimal_def show_nat_cases)
  next
    case 2
    then have "n div 10 mod 10 = n div 10" by simp
    then show ?thesis
      using 2 assms twodigit_out [OF r(2), of n]
      by (simp add: decimal_def show_nat_cases nat_div_distrib nat_mod_distrib)
  next
    case 3
    then show ?thesis
      using assms threedigit_out [OF r(3), of n]
      by (simp add: decimal_def show_nat_cases nat_div_distrib nat_mod_distrib)
  next
    case 4
    then show ?thesis
      using assms threedigit_thousands [OF assms(1), of n]
      by (simp add: decimal_def show_nat_cases nat_div_distrib nat_mod_distrib)
  qed
qed

section \<open>Properties\<close>

lemma tparam1_eq:
  "tparam1 mem s len up left args =
     bind_run (tparam_loop mem len up left s 0 (tp_start len args)) (\<lambda>st.
     let moves = concat (replicate (tp_doup st) (case up of None \<Rightarrow> [] | Some u \<Rightarrow> u)) @
                 concat (replicate (tp_doleft st) (case left of None \<Rightarrow> [] | Some l \<Rightarrow> l));
         text = tp_out st @ moves in
     if int (length text) + 1 \<le> tp_cap st then Inr (tp_outlen st \<noteq> 0, text) else Inl Buffer_Overflow)"
  by (simp add: tparam1_def tp_start_def)

text \<open>
  C25: \<open>tparam\<close> never writes outside its block: whatever the string, the arguments, the length it is
  given and the answers of \<open>malloc\<close>, its result, if it has one, fits the block, with six bytes to
  spare when that is still the caller's.
\<close>

theorem tparam_in_block:
  assumes "0 \<le> len"
  shows "tparam mem s len a0 a1 a2 a3 \<noteq> Inl Buffer_Overflow \<and>
    (\<forall>own t. tparam mem s len a0 a1 a2 a3 = Inr (own, t) \<longrightarrow> \<not> own \<longrightarrow> int (length t) + 6 \<le> len)"
proof -
  let ?r = "tparam_loop mem len None None s 0 (tp_start len [a0, a1, a2, a3])"
  have "in_block (fits 6 True len) ?r"
    by (rule tparam_loop_in_block [OF assms refl tp_start_inv [OF assms]])
  then show ?thesis
    by (cases ?r) (auto simp: tparam_def tparam1_eq Let_def fits_def tp_inv_def)
qed

lemma grow_total: "\<exists>st1. grow (\<lambda>_. True) len st = Inr st1"
  by (simp add: grow_def Let_def)

text \<open>One turn of the loop.\<close>

lemma loop_ordinary:
  assumes "p < length s" and "s ! p \<noteq> NUL" and "s ! p \<noteq> CHR ''%''"
    and "grow mem len st = Inr st1" and "room 1 st1"
  shows "tparam_loop mem len up left s p st = tparam_loop mem len up left s (p + 1) (add_out [s ! p] st1)"
proof -
  have "put_code (of_char (s ! p)) st1 = Inr (add_out [s ! p] st1)"
    by (simp add: put_code_room [OF assms(5)])
  then show ?thesis
    using assms(1-4) by (simp add: tparam_loop.simps [of mem len up left s p st] byte_at_def)
qed

lemma loop_end:
  assumes "grow mem len st = Inr st1"
  shows "tparam_loop mem len up left s (length s) st = Inr st1"
  using assms by (simp add: tparam_loop.simps [of mem len up left s "length s" st] byte_at_def)

definition plain :: "string \<Rightarrow> bool" where
  "plain s \<longleftrightarrow> (\<forall>c \<in> set s. c \<noteq> NUL \<and> c \<noteq> CHR ''%'')"

definition plain_inv :: "int \<Rightarrow> string \<Rightarrow> nat \<Rightarrow> tp_state \<Rightarrow> bool" where
  "plain_inv len s p st \<longleftrightarrow> p \<le> length s \<and> tp_out st = take p s \<and> tp_inv True len st \<and>
     (if tp_outlen st = 0 then tp_lim st = len \<and> int p \<le> len else len \<le> int p + 5)"

lemma plain_loop:
  assumes "plain s" and "0 \<le> len"
  shows "plain_inv len s p st \<Longrightarrow>
    \<exists>st'. tparam_loop (\<lambda>_. True) len up left s p st = Inr st' \<and> tp_out st' = s \<and> fits 6 True len st' \<and>
      (tp_outlen st' \<noteq> 0 \<longleftrightarrow> len \<le> int (length s) + 5)"
proof (induction "length s - p" arbitrary: p st)
  case 0
  then have p: "p = length s" by (simp add: plain_inv_def)
  obtain st1 where g: "grow (\<lambda>_. True) len st = Inr st1" using grow_total by blast
  have f: "fits 6 True len st1"
    using grow_fits [OF assms(2), of True st "\<lambda>_. True"] 0(2) g by (simp add: plain_inv_def)
  have "tp_out st1 = s" "tp_outlen st1 \<noteq> 0 \<longleftrightarrow> len \<le> int (length s) + 5"
    using g 0(2) assms(2) p by (auto simp: grow_def plain_inv_def tp_inv_def Let_def split: if_splits)
  then show ?case using loop_end [OF g] f p by blast
next
  case (Suc n)
  then have p: "p < length s" by simp
  have c: "s ! p \<noteq> NUL" "s ! p \<noteq> CHR ''%''" using assms(1) p by (simp_all add: plain_def)
  obtain st1 where g: "grow (\<lambda>_. True) len st = Inr st1" using grow_total by blast
  have f: "fits 6 True len st1"
    using grow_fits [OF assms(2), of True st "\<lambda>_. True"] Suc(3) g by (simp add: plain_inv_def)
  then have r: "room 1 st1" by (simp add: fits_def room_def)
  have out: "tp_out st1 = take p s"
    using g Suc(3) by (auto simp: grow_def plain_inv_def Let_def split: if_splits)
  have lim: "if tp_outlen st1 = 0 then tp_lim st1 = len \<and> int p + 6 \<le> len else len \<le> int p + 5"
    using g Suc(3) assms(2) p by (auto simp: grow_def plain_inv_def tp_inv_def Let_def split: if_splits)
  have "plain_inv len s (p + 1) (add_out [s ! p] st1)"
    using f out lim p by (auto simp: plain_inv_def take_Suc_conv_app_nth fits_def tp_inv_def split: if_splits)
  then show ?case
    using Suc(1) [of "p + 1" "add_out [s ! p] st1"] Suc(2) loop_ordinary [OF p c g r] by simp
qed

text \<open>
  a string without \<open>%\<close> is copied as it is, however long it is; it is put into a block of its own,
  to be released by the caller, exactly when the caller's block has not six bytes more than the string.
\<close>

theorem tparam_plain:
  assumes "plain s" and "0 \<le> len"
  shows "tparam (\<lambda>_. True) s len a0 a1 a2 a3 = Inr (len \<le> int (length s) + 5, s)"
proof -
  have "plain_inv len s 0 (tp_start len [a0, a1, a2, a3])"
    using assms(2) by (simp add: plain_inv_def tp_start_def tp_inv_def)
  from plain_loop [OF assms this] obtain st' where
    "tparam_loop (\<lambda>_. True) len None None s 0 (tp_start len [a0, a1, a2, a3]) = Inr st'"
    "tp_out st' = s" "fits 6 True len st'" "tp_outlen st' \<noteq> 0 \<longleftrightarrow> len \<le> int (length s) + 5"
    by blast
  then show ?thesis by (simp add: tparam_def tparam1_eq fits_def tp_inv_def)
qed

lemma grow_none:
  "int (length (tp_out st)) + 5 < tp_lim st \<Longrightarrow> grow mem len st = Inr st"
  by (simp add: grow_def)

lemma loop_ordinary_fits:
  assumes "p < length s" and "s ! p \<noteq> NUL" and "s ! p \<noteq> CHR ''%''"
    and "int (length (tp_out st)) + 5 < tp_lim st" and "tp_lim st \<le> tp_cap st"
  shows "tparam_loop mem len up left s p st = tparam_loop mem len up left s (p + 1) (add_out [s ! p] st)"
  by (rule loop_ordinary [OF assms(1-3) grow_none [OF assms(4)]]) (use assms(4,5) in \<open>simp add: room_def\<close>)

lemma loop_percent:
  assumes "p < length s" and "s ! p = CHR ''%''" and "int (length (tp_out st)) + 5 < tp_lim st"
    and "percent up left s (p + 1) st = Inr (p', st')"
  shows "tparam_loop mem len up left s p st = tparam_loop mem len up left s p' st'"
  using assms grow_none [OF assms(3)]
  by (simp add: tparam_loop.simps [of mem len up left s p st] byte_at_def)

text \<open>The cursor motion of ANSI terminals: \<open>ESC [ %i%d ; %d H\<close>.\<close>

definition ansi_cm :: string where
  "ansi_cm = [CHR 0x1B, CHR ''['', CHR ''%'', CHR ''i'', CHR ''%'', CHR ''d'', CHR '';'',
     CHR ''%'', CHR ''d'', CHR ''H'']"

lemma ansi_nth:
  "length ansi_cm = 10" "ansi_cm ! 0 = CHR 0x1B" "ansi_cm ! Suc 0 = CHR ''[''" "ansi_cm ! 2 = CHR ''%''"
  "ansi_cm ! 3 = CHR ''i''" "ansi_cm ! 4 = CHR ''%''" "ansi_cm ! 5 = CHR ''d''"
  "ansi_cm ! 6 = CHR '';''" "ansi_cm ! 7 = CHR ''%''" "ansi_cm ! 8 = CHR ''d''" "ansi_cm ! 9 = CHR ''H''"
  by (simp_all add: ansi_cm_def)

text \<open>A state in the middle of that string: the output, and the argument that is next.\<close>

definition ansi_state :: "string \<Rightarrow> int list \<Rightarrow> nat \<Rightarrow> tp_state \<Rightarrow> bool" where
  "ansi_state out args k s \<longleftrightarrow>
     tp_out s = out \<and> tp_args s = args \<and> tp_argp s = int k \<and> tp_lim s = 50 \<and> tp_cap s = 50 \<and>
     tp_doup s = 0 \<and> tp_doleft s = 0 \<and> tp_outlen s = 0"

lemma ansi_char:
  assumes "ansi_state out args k s" and "i < 10" and "ansi_cm ! i \<notin> {NUL, CHR ''%''}" and "length out < 40"
  shows "\<exists>s'. tparam_loop mem 50 up left ansi_cm i s = tparam_loop mem 50 up left ansi_cm (Suc i) s' \<and>
    ansi_state (out @ [ansi_cm ! i]) args k s'"
  using loop_ordinary_fits [of i ansi_cm s mem 50 up left] assms
  by (intro exI [of _ "add_out [ansi_cm ! i] s"]) (simp add: ansi_state_def ansi_nth(1))

lemma ansi_number:
  assumes "ansi_state out args k s" and "i \<in> {4, 7}" and "k < length args" and "0 \<le> args ! k" and "args ! k \<le> 9999"
    and "length out < 40"
  shows "\<exists>s'. tparam_loop mem 50 up left ansi_cm i s = tparam_loop mem 50 up left ansi_cm (i + 2) s' \<and>
    ansi_state (out @ show_nat (nat (args ! k))) args (Suc k) s'"
proof (intro exI conjI)
  let ?s = "arg_step 1 (add_out (show_nat (nat (args ! k))) s)"
  have "decimal (args ! k) s = Inr ?s"
    by (rule decimal_out) (use assms in \<open>simp_all add: room_def ansi_state_def\<close>)
  then have "percent up left ansi_cm (i + 1) s = Inr (i + 2, ?s)"
    using assms(1-3) by (auto simp: percent_def byte_at_def ansi_nth arg_get_def ansi_state_def Let_def)
  then show "tparam_loop mem 50 up left ansi_cm i s = tparam_loop mem 50 up left ansi_cm (i + 2) ?s"
    using assms(1,2,6) by (intro loop_percent) (auto simp: ansi_nth ansi_state_def)
  show "ansi_state (out @ show_nat (nat (args ! k))) args (Suc k) ?s"
    using assms(1) by (simp add: ansi_state_def arg_step_def)
qed

lemma ansi_increment:
  assumes "ansi_state out [m, n] 0 s" and "int32 (m + 1)" and "int32 (n + 1)" and "length out < 40"
  shows "\<exists>s'. tparam_loop mem 50 up left ansi_cm 2 s = tparam_loop mem 50 up left ansi_cm 4 s' \<and>
    ansi_state out [m + 1, n + 1] 0 s'"
proof (intro exI conjI)
  let ?s = "s\<lparr>tp_args := [m + 1, n + 1]\<rparr>"
  have "percent up left ansi_cm (2 + 1) s = Inr (4, ?s)"
    using assms(1-3)
    by (simp add: percent_def byte_at_def ansi_nth arg_get_def arg_update_def arg_set_def ansi_state_def Let_def wrap32_id)
  then show "tparam_loop mem 50 up left ansi_cm 2 s = tparam_loop mem 50 up left ansi_cm 4 ?s"
    using assms(1,4) by (intro loop_percent) (simp_all add: ansi_nth ansi_state_def)
  show "ansi_state out [m + 1, n + 1] 0 ?s" using assms(1) by (simp add: ansi_state_def)
qed

text \<open>
  for the cursor motion string of ANSI terminals \<open>tgoto\<close> gives the escape sequence with the row and
  the column counted from 1, in its own buffer, for every row and column below 9999.
\<close>

theorem tgoto_ansi:
  assumes "0 \<le> row" and "row < 9999" and "0 \<le> col" and "col < 9999"
  shows "tgoto mem up left (Some ansi_cm) col row =
    Inr (Some (False, [CHR 0x1B, CHR ''[''] @ show_int (row + 1) @ '';'' @ show_int (col + 1) @ ''H''))"
proof -
  let ?loop = "tparam_loop mem 50 up left ansi_cm" and ?esc = "[CHR 0x1B, CHR ''['']"
  let ?r = "show_nat (nat (row + 1))" and ?c = "show_nat (nat (col + 1))" and ?args = "[row + 1, col + 1]"
  have len: "length ?r \<le> 4" "length ?c \<le> 4" using assms by (intro length_show_nat, simp, simp)+
  have "ansi_state [] [row, col] 0 (tp_start 50 [row, col])" by (simp add: ansi_state_def tp_start_def)
  from ansi_char [OF this, of 0 mem up left] obtain s1 where
    s1: "?loop 0 (tp_start 50 [row, col]) = ?loop 1 s1" "ansi_state [CHR 0x1B] [row, col] 0 s1" by (auto simp: ansi_nth)
  from ansi_char [OF s1(2), of 1 mem up left] obtain s2 where
    s2: "?loop 1 s1 = ?loop 2 s2" "ansi_state ?esc [row, col] 0 s2" by (auto simp: ansi_nth numeral_2_eq_2)
  from ansi_increment [OF s2(2), of mem up left] assms obtain s4 where
    s4: "?loop 2 s2 = ?loop 4 s4" "ansi_state ?esc ?args 0 s4" by (auto simp: int32_def)
  from ansi_number [OF s4(2), of 4 mem up left] assms obtain s6 where
    s6: "?loop 4 s4 = ?loop 6 s6" "ansi_state (?esc @ ?r) ?args 1 s6" by auto
  from ansi_char [OF s6(2), of 6 mem up left] len obtain s7 where
    s7: "?loop 6 s6 = ?loop 7 s7" "ansi_state (?esc @ ?r @ '';'') ?args 1 s7" by (auto simp: ansi_nth)
  from ansi_number [OF s7(2), of 7 mem up left] assms len obtain s9 where
    s9: "?loop 7 s7 = ?loop 9 s9" "ansi_state (?esc @ ?r @ '';'' @ ?c) ?args 2 s9" by (auto simp: numeral_2_eq_2)
  from ansi_char [OF s9(2), of 9 mem up left] len obtain s where
    s: "?loop 9 s9 = ?loop 10 s" "ansi_state (?esc @ ?r @ '';'' @ ?c @ ''H'') ?args 2 s" by (auto simp: ansi_nth)
  have "?loop 10 s = Inr s"
    using loop_end [OF grow_none, of s mem 50 up left ansi_cm] s(2) len by (simp add: ansi_nth ansi_state_def)
  then have "?loop 0 (tp_start 50 [row, col]) = Inr s"
    using s1(1) s2(1) s4(1) s6(1) s7(1) s9(1) s(1) by simp
  then show ?thesis
    using s(2) len assms by (simp add: tgoto_def tparam1_eq ansi_state_def show_int_def Let_def)
qed

text \<open>
  the room \<open>tgoto\<close> reserves for cursor movements is lost when the block grows: expanding \<open>%.\<close> at
  line 0 of a terminal, whose 0 must be avoided, with an \<open>UP\<close> string of \<open>n\<close> characters appends that
  string to a block that has no room for it exactly when \<open>n\<close> exceeds 88.
\<close>

theorem tgoto_overflow_iff:
  "tgoto (\<lambda>_. True) (Some up) (Some left) (Some ''%.'') hpos 0 = Inl Buffer_Overflow \<longleftrightarrow>
   length up > 88"
proof -
  define s1 where "s1 = (tp_start 50 [0, hpos])
    \<lparr>tp_doup := 1, tp_lim := 50 - int (length up), tp_out := [CHR 0x01], tp_argp := 1\<rparr>"
  have a1: "avoid_loop (Some up) (Some left) 1 st = Inr (1, st)" for st
    by (simp add: avoid_loop.simps)
  have a0: "avoid_loop (Some up) (Some left) 0 (tp_start 50 [0, hpos]) =
      Inr (1, (tp_start 50 [0, hpos])\<lparr>tp_doup := 1, tp_lim := 50 - int (length up)\<rparr>)"
    by (subst avoid_loop.simps) (simp add: note_move_def tp_start_def a1)
  have c1: "char_of (Suc 0) = CHR 0x01" by code_simp
  have "percent (Some up) (Some left) ''%.'' (0 + 1) (tp_start 50 [0, hpos]) = Inr (2, s1)"
    using a0 by (simp add: percent_def byte_at_def arg_get_def output_char_def put_code_def arg_step_def
        tp_start_def s1_def Let_def c1 numeral_2_eq_2)
  then have "tparam_loop (\<lambda>_. True) 50 (Some up) (Some left) ''%.'' 0 (tp_start 50 [0, hpos]) =
      tparam_loop (\<lambda>_. True) 50 (Some up) (Some left) ''%.'' 2 s1"
    by (intro loop_percent) (simp_all add: tp_start_def)
  moreover obtain s2 where g: "grow (\<lambda>_. True) 50 s1 = Inr s2" using grow_total by blast
  ultimately have "tparam_loop (\<lambda>_. True) 50 (Some up) (Some left) ''%.'' 0 (tp_start 50 [0, hpos]) = Inr s2"
    using loop_end [OF g, of "Some up" "Some left" "''%.''"] by (simp add: numeral_2_eq_2)
  moreover have "tp_doup s2 = 1" "tp_doleft s2 = 0" "tp_out s2 = [CHR 0x01]"
      "tp_cap s2 = (if length up \<ge> 44 then 90 else 50)"
    using g by (auto simp: grow_def s1_def tp_start_def Let_def split: if_splits)
  ultimately show ?thesis
    by (simp add: tgoto_def tparam1_eq Let_def)
qed

section \<open>Concrete runs\<close>

theorem tparam_in_block_witness:
  "tparam (\<lambda>_. True) ''%a+cz%d'' 4 1 2 3 4 \<noteq> Inl Buffer_Overflow"
  using tparam_in_block [of 4 "\<lambda>_. True" "''%a+cz%d''" 1 2 3 4] by simp

theorem tparam_plain_witness:
  "tparam (\<lambda>_. True) ''clear'' 8 0 0 0 0 = Inr (True, ''clear'') \<and>
   tparam (\<lambda>_. True) ''clear'' 11 0 0 0 0 = Inr (False, ''clear'')"
  using tparam_plain [of "''clear''" 8 0 0 0 0] tparam_plain [of "''clear''" 11 0 0 0 0]
  by (simp add: plain_def)

theorem tgoto_ansi_witness:
  "tgoto (\<lambda>_. True) None None (Some ansi_cm) 0 1 =
    Inr (Some (False, [CHR 0x1B, CHR ''['', CHR ''2'', CHR '';'', CHR ''1'', CHR ''H'']))"
proof -
  have "show_int 2 = ''2''" by code_simp
  then show ?thesis using tgoto_ansi [of 1 0 "\<lambda>_. True" None None] by simp
qed

end
