(* ===== verification/Termcap_Entry.thy ===== *)
theory Termcap_Entry
  imports C_Strings "HOL-Library.Signed_Division"
begin

text \<open>
  The first half of \<open>termcap-1.3.1/termcap.c\<close>: the look-up of capabilities in a terminal's entry
  (\<open>find_capability\<close>, \<open>tgetnum\<close>, \<open>tgetflag\<close>, \<open>tgetstr\<close>), the decoding of a string value (\<open>tgetst1\<close>) and
  the output of a string with padding (\<open>tputs\<close>). An entry is a C string; a pointer into it is a
  position, or the rest of the string that starts there. \<open>mem n\<close> says whether \<open>malloc\<close> can give \<open>n\<close>
  bytes. \<open>char\<close> is unsigned, as on ARM.
\<close>

abbreviation NL :: char where "NL \<equiv> CHR 0x0A"
abbreviation TAB :: char where "TAB \<equiv> CHR 0x09"
abbreviation BACKSLASH :: char where "BACKSLASH \<equiv> CHR 0x5C"

section \<open>Looking up capabilities\<close>

text \<open>
  The test of \<open>find_capability\<close> at one place, with C's order of evaluation. The code compares two
  characters; \<open>&bp[4]\<close> is the position after the character that tells the kind of the value.
\<close>

definition capability_here :: "string \<Rightarrow> string \<Rightarrow> bool run" where
  "capability_here bp cap =
     bind_run (byte_at bp 0) (\<lambda>b0. if b0 \<noteq> CHR '':'' then Inr False else
     bind_run (byte_at bp 1) (\<lambda>b1. bind_run (byte_at cap 0) (\<lambda>c0. if b1 \<noteq> c0 then Inr False else
     bind_run (byte_at bp 2) (\<lambda>b2. bind_run (byte_at cap 1) (\<lambda>c1. Inr (b2 = c1))))))"

fun find_capability :: "string \<Rightarrow> string \<Rightarrow> nat option run" where
  "find_capability [] cap = Inr None"
| "find_capability (b # bp) cap =
     bind_run (capability_here (b # bp) cap) (\<lambda>hit.
     if hit then Inr (Some 4)
     else bind_run (find_capability bp cap) (\<lambda>r. Inr (map_option Suc r)))"

text \<open>\<open>term_entry\<close> is null until \<open>tgetent\<close> has set it.\<close>

definition in_entry :: "string option \<Rightarrow> (string \<Rightarrow> 'a run) \<Rightarrow> 'a run" where
  "in_entry term_entry f = (case term_entry of None \<Rightarrow> Inl Null_Pointer | Some e \<Rightarrow> f e)"

definition tgetnum :: "string option \<Rightarrow> string \<Rightarrow> int run" where
  "tgetnum term_entry cap =
     in_entry term_entry (\<lambda>e.
     bind_run (find_capability e cap) (\<lambda>r.
     case r of
       None \<Rightarrow> Inr (-1)
     | Some p \<Rightarrow>
         bind_run (byte_at e (p - 1)) (\<lambda>k.
         if k \<noteq> CHR ''#'' then Inr (-1) else Inr (atoi (drop p e)))))"

definition tgetflag :: "string option \<Rightarrow> string \<Rightarrow> bool run" where
  "tgetflag term_entry cap =
     in_entry term_entry (\<lambda>e.
     bind_run (find_capability e cap) (\<lambda>r.
     case r of
       None \<Rightarrow> Inr False
     | Some p \<Rightarrow> bind_run (byte_at e (p - 1)) (\<lambda>k. Inr (k = CHR '':''))))"

section \<open>Decoding a string value\<close>

definition esctab :: string where
  "esctab =
     [CHR '' '', CHR 0x07, CHR 0x08, CHR '' '', CHR '' '', CHR 0x1B, CHR 0x0C, CHR '' '',
      CHR '' '', CHR '' '', CHR '' '', CHR '' '', CHR '' '', CHR '' '', CHR 0x0A, CHR '' '',
      CHR '' '', CHR '' '', CHR 0x0D, CHR '' '', CHR 0x09, CHR '' '', CHR 0x0B, CHR '' '',
      CHR '' '', CHR '' '', CHR '' '', CHR '' '', CHR '' '', CHR '' '', CHR '' '', CHR '' '', NUL]"

abbreviation code :: "char \<Rightarrow> nat" where "code c \<equiv> of_char c"

definition is_octal :: "char \<Rightarrow> bool" where
  "is_octal c \<longleftrightarrow> 48 \<le> code c \<and> code c \<le> 55"

text \<open>Up to \<open>n\<close> further octal digits; the value of the character is stored modulo 256.\<close>

fun octal_digits :: "nat \<Rightarrow> string \<Rightarrow> nat \<Rightarrow> nat \<Rightarrow> (nat \<times> nat) run" where
  "octal_digits 0 s p c = Inr (c, p)"
| "octal_digits (Suc n) s p c =
     bind_run (byte_at s p) (\<lambda>c1.
     if is_octal c1 then octal_digits n s (p + 1) (8 * c + (code c1 - 48)) else Inr (c, p))"

definition ends_value :: "char \<Rightarrow> bool" where
  "ends_value c \<longleftrightarrow> c = NUL \<or> c = CHR '':'' \<or> c = NL"

text \<open>What a character read at \<open>p - 1\<close> stands for, and where the next one is.\<close>

definition value_char :: "string \<Rightarrow> nat \<Rightarrow> char \<Rightarrow> (nat \<times> nat) run" where
  "value_char s p c =
     (if c = CHR ''^''
      then bind_run (byte_at s p) (\<lambda>c. Inr (if c = CHR ''?'' then 127 else code c mod 32, p + 1))
      else if c = BACKSLASH
      then bind_run (byte_at s p) (\<lambda>c. let p = p + 1 in
           if is_octal c then octal_digits 2 s p (code c - 48)
           else if 64 \<le> code c \<and> code c < 128
           then let c1 = esctab ! (nat (and (int (code c)) (not 32)) - 64) in
                Inr (if c1 \<noteq> CHR '' '' then code c1 else code c, p)
           else Inr (code c, p))
      else Inr (code c, p))"

lemma octal_digits_advances: "octal_digits n s p c = Inr (c', p') \<Longrightarrow> p \<le> p'"
  by (induction n s p c rule: octal_digits.induct) (fastforce simp: run_simps split: if_splits)+

lemma value_char_advances: "value_char s p c = Inr (c', p') \<Longrightarrow> p \<le> p'"
  by (auto simp: value_char_def run_simps Let_def split: if_splits dest!: octal_digits_advances)

text \<open>The copying loop, into a block of \<open>room\<close> bytes; \<open>out\<close> is what it holds so far.\<close>

function copy_value :: "nat \<Rightarrow> string \<Rightarrow> nat \<Rightarrow> string \<Rightarrow> string run" where
  "copy_value room s p out =
     (case byte_at s p of
        Inl e \<Rightarrow> Inl e
      | Inr c \<Rightarrow>
          if ends_value c then if length out < room then Inr out else Inl Buffer_Overflow
          else
          (case value_char s (p + 1) c of
             Inl e \<Rightarrow> Inl e
           | Inr (v, p') \<Rightarrow>
               if length out < room then copy_value room s p' (out @ [char_of v])
               else Inl Buffer_Overflow))"
  by pat_completeness auto

termination
  by (relation "measure (\<lambda>(room, s, p, out). length s + 1 - p)")
    (auto dest!: value_char_advances simp: byte_at_def split: if_splits)

declare copy_value.simps [simp del]

text \<open>
  The loop that computes the size of the block: up to the first colon, newline or terminator,
  escaped or not. The result is \<open>p - ptr\<close>.
\<close>

fun value_span :: "string \<Rightarrow> nat" where
  "value_span [] = 1"
| "value_span (c # s) = (if ends_value c then 1 else Suc (value_span s))"

text \<open>
  \<open>area\<close> is the room left in the caller's block, \<open>None\<close> if the space is to be allocated. The result
  is what was stored, without the final terminator, and the room left after it.
\<close>

definition tgetst1 ::
    "(nat \<Rightarrow> bool) \<Rightarrow> string \<Rightarrow> nat option \<Rightarrow> nat option \<Rightarrow> (string \<times> nat option) option run" where
  "tgetst1 mem e ptr area =
     (case ptr of
        None \<Rightarrow> Inr None
      | Some p \<Rightarrow>
          if length e < p then Inl Out_Of_Bounds_Read
          else
          bind_run
            (case area of
               None \<Rightarrow>
                 let size = value_span (drop p e) + 1 in if mem size then Inr size else Inl Abort
             | Some room \<Rightarrow> Inr room) (\<lambda>room.
          bind_run (copy_value room e p []) (\<lambda>out.
          Inr (Some (out, map_option (\<lambda>room. room - (length out + 1)) area)))))"

definition tgetstr ::
    "(nat \<Rightarrow> bool) \<Rightarrow> string option \<Rightarrow> string \<Rightarrow> nat option \<Rightarrow> (string \<times> nat option) option run" where
  "tgetstr mem term_entry cap area =
     in_entry term_entry (\<lambda>e.
     bind_run (find_capability e cap) (\<lambda>r.
     case r of
       None \<Rightarrow> Inr None
     | Some p \<Rightarrow>
         bind_run (byte_at e (p - 1)) (\<lambda>k.
         if k \<noteq> CHR ''='' \<and> k \<noteq> CHR ''~'' then Inr None else tgetst1 mem e (Some p) area)))"

section \<open>Output with padding\<close>

definition speeds :: "int list" where
  "speeds = [0, 50, 75, 110, 135, 150, -2, -3, -6, -12, -18, -24, -48, -96, -192, -288, -384, -576, -1152]"

definition line_speed :: "int \<Rightarrow> int \<Rightarrow> int run" where
  "line_speed ospeed tputs_baud_rate =
     (if ospeed = 0 then Inr tputs_baud_rate
      else if 0 \<le> ospeed \<and> ospeed < int (length speeds) then Inr (speeds ! nat ospeed)
      else Inl Out_Of_Bounds_Read)"

fun pad_digits :: "int \<Rightarrow> string \<Rightarrow> int \<times> string" where
  "pad_digits n [] = (n, [])"
| "pad_digits n (c # s) =
     (if is_digit c then pad_digits (wrap32 (wrap32 (n + (of_char c - 48)) * 10)) s else (n, c # s))"

definition pad_tenth :: "int \<Rightarrow> string \<Rightarrow> (int \<times> string) run" where
  "pad_tenth n s =
     (case s of
        CHR ''.'' # [] \<Rightarrow> Inl Out_Of_Bounds_Read
      | CHR ''.'' # c # s' \<Rightarrow> Inr (wrap32 (n + (of_char c - 48)), s')
      | _ \<Rightarrow> Inr (n, s))"

definition pad_lines :: "int \<Rightarrow> int \<Rightarrow> string \<Rightarrow> int \<times> string" where
  "pad_lines nlines n s =
     (case s of CHR ''*'' # s' \<Rightarrow> (wrap32 (n * nlines), s') | _ \<Rightarrow> (n, s))"

definition pad_chars :: "int \<Rightarrow> int \<Rightarrow> int" where
  "pad_chars speed padcount =
     (let n = wrap32 (wrap32 (padcount * speed) + 500) sdiv 1000 in
      if speed < 0 then - n else wrap32 (n + 50) sdiv 100)"

definition tputs :: "int \<Rightarrow> int \<Rightarrow> char \<Rightarrow> string option \<Rightarrow> int \<Rightarrow> string run" where
  "tputs ospeed tputs_baud_rate PC str nlines =
     bind_run (line_speed ospeed tputs_baud_rate) (\<lambda>speed.
     case str of
       None \<Rightarrow> Inr []
     | Some s \<Rightarrow>
         (case pad_digits 0 s of (n, s) \<Rightarrow>
          bind_run (pad_tenth n s) (\<lambda>(n, s).
          case pad_lines nlines n s of (n, s) \<Rightarrow>
          Inr (s @ replicate (nat (pad_chars speed n)) PC))))"

section \<open>The first occurrence\<close>

lemma find_map: "find P (map f xs) = map_option f (find (\<lambda>x. P (f x)) xs)"
  by (induction xs) simp_all

lemma upt_Suc_map: "[0..<Suc n] = 0 # map Suc [0..<n]"
  by (simp add: upt_conv_Cons map_Suc_upt del: upt_Suc)

lemma capability_here_iff:
  assumes "a \<noteq> NUL" and "b \<noteq> NUL" and "bp \<noteq> []"
  shows "capability_here bp [a, b] = Inr (take 3 bp = [CHR '':'', a, b])"
proof -
  consider x where "bp = [x]" | x y where "bp = [x, y]" | x y z r where "bp = x # y # z # r"
    using assms(3) by (metis list.exhaust)
  then show ?thesis
    using assms(1,2)
    by cases (auto simp: capability_here_def cstr_simps numeral_2_eq_2 numeral_3_eq_3)
qed

text \<open>
  \<open>find_capability\<close> with a name of two characters gives the position of the value of the first
  occurrence of the name behind a colon, and null exactly when there is none; it never reads past the
  end of the entry.
\<close>

theorem find_capability_first:
  assumes "a \<noteq> NUL" and "b \<noteq> NUL"
  shows "find_capability e [a, b] =
    Inr (map_option (\<lambda>i. i + 4) (find (\<lambda>i. take 3 (drop i e) = [CHR '':'', a, b]) [0..<length e]))"
proof (induction e)
  case Nil
  then show ?case by simp
next
  case (Cons x e)
  show ?case
    by (simp add: capability_here_iff assms Cons.IH upt_Suc_map find_map option.map_comp comp_def
        del: upt_Suc)
qed

theorem find_capability_first_witness:
  "find_capability ''vt|x:am:co#80:'' ''co'' = Inr (Some 11)"
  using find_capability_first [of "CHR ''c''" "CHR ''o''" "''vt|x:am:co#80:''"]
  by (simp add: upt_rec)

section \<open>Entries written and read\<close>

text \<open>
  The entry of a list of capabilities, as the termcap manual describes it: the names, then after
  each colon a two-character name with a number, a string or nothing.
\<close>

datatype capval = Flag | Num nat | Str string

definition special :: "char \<Rightarrow> bool" where
  "special c \<longleftrightarrow> ends_value c \<or> c = CHR ''^'' \<or> c = BACKSLASH"

definition tc_quote :: "char \<Rightarrow> string" where
  "tc_quote c =
     (if special c
      then [BACKSLASH, digit_char (code c div 64), digit_char (code c div 8 mod 8), digit_char (code c mod 8)]
      else [c])"

definition value_text :: "capval \<Rightarrow> string" where
  "value_text v =
     (case v of
        Flag \<Rightarrow> []
      | Num n \<Rightarrow> CHR ''#'' # show_nat n
      | Str s \<Rightarrow> CHR ''='' # concat (map tc_quote s))"

definition caps_text :: "(string \<times> capval) list \<Rightarrow> string" where
  "caps_text caps = concat (map (\<lambda>(c, v). c @ value_text v @ '':'') caps)"

definition entry_text :: "string \<Rightarrow> (string \<times> capval) list \<Rightarrow> string" where
  "entry_text names caps = names @ CHR '':'' # caps_text caps"

definition cap_name :: "string \<Rightarrow> bool" where
  "cap_name c \<longleftrightarrow> length c = 2 \<and> NUL \<notin> set c \<and> CHR '':'' \<notin> set c"

lemma cap_name_cases:
  assumes "cap_name c"
  obtains a b where "c = [a, b]" "a \<noteq> NUL" "b \<noteq> NUL" "a \<noteq> CHR '':''" "b \<noteq> CHR '':''"
proof -
  from assms obtain a b where "c = [a, b]"
    by (auto simp: cap_name_def numeral_2_eq_2 length_Suc_conv)
  with assms that show thesis by (auto simp: cap_name_def)
qed

lemma find_skip:
  assumes "cap_name cap" and "CHR '':'' \<notin> set x"
  shows "find_capability (x @ e) cap = bind_run (find_capability e cap) (\<lambda>r. Inr (map_option ((+) (length x)) r))"
  using assms(2)
proof (induction x)
  case Nil
  then show ?case by (cases "find_capability e cap") (simp_all add: option.map_ident)
next
  case (Cons c x)
  from assms(1) obtain a b where "cap = [a, b]" "a \<noteq> NUL" "b \<noteq> NUL" by (rule cap_name_cases)
  with Cons show ?case
    by (simp add: capability_here_iff)
      (cases "find_capability e [a, b]"; auto simp: option.map_comp comp_def)
qed

lemma code_less: "code c < 256"
  using of_char_of [of 0] by simp

lemma colon_not_digit: "CHR '':'' \<noteq> digit_char d" if "d < 10"
proof
  assume "CHR '':'' = digit_char d"
  then have "is_digit (CHR '':'')" using that by simp
  then show False by (simp add: is_digit_def)
qed

lemma colon_notin_value: "CHR '':'' \<notin> set (value_text v)"
proof (cases v)
  case (Num n)
  have "\<not> is_digit (CHR '':'')" by (simp add: is_digit_def)
  with Num show ?thesis using show_nat_digits [of n] by (auto simp: value_text_def)
next
  case (Str s)
  have "CHR '':'' \<notin> set (tc_quote c)" for c
    using code_less [of c] by (auto simp: tc_quote_def special_def ends_value_def colon_not_digit)
  with Str show ?thesis by (simp add: value_text_def)
qed (simp add: value_text_def)

lemma find_caps:
  assumes "cap_name cap" and "\<forall>(c, v) \<in> set caps. cap_name c"
  shows "\<exists>r. find_capability (CHR '':'' # caps_text caps) cap = Inr r \<and>
    (case map_of caps cap of
       None \<Rightarrow> r = None
     | Some v \<Rightarrow> \<exists>p rest. r = Some (Suc p) \<and> drop p (CHR '':'' # caps_text caps) = value_text v @ CHR '':'' # rest)"
  using assms(2)
proof (induction caps)
  case Nil
  from assms(1) show ?case
    by (auto elim!: cap_name_cases simp: caps_text_def capability_here_iff)
next
  case (Cons cv caps)
  obtain c v where cv: "cv = (c, v)" by (cases cv)
  with Cons.prems have c: "cap_name c" and IH: "\<exists>r. find_capability (CHR '':'' # caps_text caps) cap = Inr r \<and>
    (case map_of caps cap of
       None \<Rightarrow> r = None
     | Some v \<Rightarrow> \<exists>p rest. r = Some (Suc p) \<and> drop p (CHR '':'' # caps_text caps) = value_text v @ CHR '':'' # rest)"
    using Cons.IH by auto
  have whole: "CHR '':'' # caps_text (cv # caps) = CHR '':'' # c @ value_text v @ CHR '':'' # caps_text caps"
    by (simp add: caps_text_def cv)
  have len: "length c = 2" using c by (simp add: cap_name_def)
  have here: "capability_here (CHR '':'' # c @ value_text v @ CHR '':'' # caps_text caps) cap = Inr (c = cap)"
    using len by (auto intro: cap_name_cases [OF assms(1)] simp: capability_here_iff)
  show ?case
  proof (cases "c = cap")
    case True
    have "drop 3 (CHR '':'' # caps_text (cv # caps)) = value_text v @ CHR '':'' # caps_text caps"
      by (simp add: whole len)
    then show ?thesis using here True unfolding whole
      by (auto simp: cv intro!: exI [of _ "3 :: nat"])
  next
    case False
    from IH obtain r where r: "find_capability (CHR '':'' # caps_text caps) cap = Inr r"
      and spec: "case map_of caps cap of
       None \<Rightarrow> r = None
     | Some v \<Rightarrow> \<exists>p rest. r = Some (Suc p) \<and> drop p (CHR '':'' # caps_text caps) = value_text v @ CHR '':'' # rest"
      by blast
    have "CHR '':'' \<notin> set (c @ value_text v)"
      using c colon_notin_value [of v] by (auto simp: cap_name_def)
    from find_skip [OF assms(1) this, of "CHR '':'' # caps_text caps"]
    have found: "find_capability (CHR '':'' # caps_text (cv # caps)) cap =
        Inr (map_option (\<lambda>p. Suc (length (c @ value_text v) + p)) r)"
      unfolding whole using here False r by (simp add: option.map_comp comp_def)
    have rest: "drop (length c + length (value_text v) + p) (caps_text (cv # caps)) =
        drop p (CHR '':'' # caps_text caps)" for p
      by (simp add: caps_text_def cv)
    show ?thesis using found spec False
      by (cases "map_of caps cap") (auto simp: cv rest [unfolded cv] simp del: find_capability.simps)
  qed
qed

lemma byte_at_drop: "drop p s = c # r \<Longrightarrow> byte_at s p = Inr c"
  by (metis Cons_nth_drop_Suc byte_at_nth drop_eq_Nil2 list.sel(1) list.simps(3) not_le)

lemma byte_at_drop_nth:
  assumes "drop p s = x @ r" and "i < length x"
  shows "byte_at s (p + i) = Inr (x ! i)"
proof -
  have "length s - p = length x + length r" by (metis assms(1) length_append length_drop)
  then have "p + i < length s" using assms(2) by linarith
  moreover from this have "s ! (p + i) = x ! i"
    using assms nth_drop [of p s i] by (simp add: nth_append)
  ultimately show ?thesis by (simp add: byte_at_nth)
qed

lemma drop_more: "drop p s = x @ r \<Longrightarrow> q = p + length x \<Longrightarrow> drop q s = r"
  using drop_drop [of "length x" p s] by (simp add: add.commute)

lemma octal_digit: "n mod 8 \<le> (7 :: nat)"
  using mod_less_divisor [of 8 n] by linarith

lemma octal_value: "8 * (8 * (n div 64) + n div 8 mod 8) + n mod 8 = (n :: nat)"
proof -
  have "n div 64 = n div 8 div 8" by (simp add: div_mult2_eq)
  then have "8 * (n div 64) + n div 8 mod 8 = n div 8" by simp
  then show ?thesis by simp
qed

lemma value_char_special:
  assumes "drop p s = [digit_char (code c div 64), digit_char (code c div 8 mod 8), digit_char (code c mod 8)] @ r"
  shows "value_char s p BACKSLASH = Inr (code c, p + 3)"
proof -
  have small: "code c div 64 < 8" by (simp add: div_less_iff_less_mult order.strict_trans2 [OF code_less])
  have "byte_at s p = Inr (digit_char (code c div 64))"
    "byte_at s (p + 1) = Inr (digit_char (code c div 8 mod 8))"
    "byte_at s (p + 2) = Inr (digit_char (code c mod 8))"
    using byte_at_drop_nth [OF assms, of 0] byte_at_drop_nth [OF assms, of 1]
      byte_at_drop_nth [OF assms, of 2] by simp_all
  with small octal_digit [of "code c"] octal_digit [of "code c div 8"] show ?thesis
    using octal_value [of "code c"]
    by (simp add: value_char_def is_octal_def of_char_digit_char numeral_2_eq_2 numeral_3_eq_3)
qed

lemma value_char_plain: "\<not> special c \<Longrightarrow> value_char s p c = Inr (code c, p)"
  by (simp add: value_char_def special_def)

lemma copy_end:
  "drop p e = c # r \<Longrightarrow> ends_value c \<Longrightarrow>
    copy_value room e p out = (if length out < room then Inr out else Inl Buffer_Overflow)"
  using byte_at_drop [of p e c r] by (subst copy_value.simps) simp

lemma copy_step:
  assumes "drop p e = tc_quote c @ r"
  shows "copy_value room e p out =
    (if length out < room then copy_value room e (p + length (tc_quote c)) (out @ [c]) else Inl Buffer_Overflow)"
proof (cases "special c")
  case True
  then have q: "tc_quote c =
      [BACKSLASH, digit_char (code c div 64), digit_char (code c div 8 mod 8), digit_char (code c mod 8)]"
    by (simp add: tc_quote_def)
  have "drop (p + 1) e =
      [digit_char (code c div 64), digit_char (code c div 8 mod 8), digit_char (code c mod 8)] @ r"
    by (rule drop_more [where p = p and x = "[BACKSLASH]"]) (simp_all add: q assms)
  from value_char_special [OF this] have v: "value_char e (p + 1) BACKSLASH = Inr (code c, Suc (Suc (Suc (Suc p))))"
    by (simp add: eval_nat_numeral)
  have "byte_at e p = Inr BACKSLASH" using assms by (intro byte_at_drop) (simp add: q)
  with v show ?thesis
    by (subst copy_value.simps) (simp add: q ends_value_def)
next
  case False
  then have "tc_quote c = [c]" "\<not> ends_value c" by (simp_all add: tc_quote_def special_def)
  moreover from this assms have "byte_at e p = Inr c" by (intro byte_at_drop) simp
  ultimately show ?thesis
    by (subst copy_value.simps) (simp add: value_char_plain False)
qed

lemma copy_quoted:
  assumes "drop p e = concat (map tc_quote s) @ c # rest" and "ends_value c"
  shows "copy_value room e p out =
    (if length out + length s < room then Inr (out @ s) else Inl Buffer_Overflow)"
  using assms(1)
proof (induction s arbitrary: p out)
  case Nil
  then show ?case using copy_end assms(2) by simp
next
  case (Cons x s)
  then have "drop p e = tc_quote x @ concat (map tc_quote s) @ c # rest" by simp
  from copy_step [OF this] Cons.IH [OF drop_more [OF this]] show ?case by simp
qed

lemma value_span_quoted: "length s \<le> value_span (concat (map tc_quote s) @ r)"
proof (induction s)
  case (Cons c s)
  have oct: "\<not> ends_value (digit_char d)" if "d < 8" for d
  proof
    assume "ends_value (digit_char d)"
    then have "\<not> is_digit (digit_char d)" by (auto simp: ends_value_def is_digit_def)
    with that show False by simp
  qed
  have "ends_value BACKSLASH = False" by (simp add: ends_value_def)
  moreover have "code c div 64 < 8"
    by (simp add: div_less_iff_less_mult order.strict_trans2 [OF code_less])
  moreover have "\<not> special c \<Longrightarrow> \<not> ends_value c" by (simp add: special_def)
  ultimately show ?case using Cons by (simp add: tc_quote_def oct)
qed simp

text \<open>What the three questions answer when the value is found.\<close>

lemma answer_value:
  assumes "find_capability e cap = Inr (Some (Suc q))" and "drop q e = value_text v @ CHR '':'' # rest"
    and "\<forall>n. mem n"
  shows "tgetnum (Some e) cap = Inr (case v of Num n \<Rightarrow> min (int n) (2 ^ 31 - 1) | _ \<Rightarrow> -1)"
    "tgetflag (Some e) cap = Inr (v = Flag)"
    "tgetstr mem (Some e) cap None = Inr (case v of Str s \<Rightarrow> Some (s, None) | _ \<Rightarrow> None)"
proof -
  have bounds: "Suc q \<le> length e"
    using assms(2) by (metis Suc_leI append_is_Nil_conv drop_eq_Nil2 list.distinct(1) not_le)
  have tail: "drop (Suc q) e = tl (value_text v @ CHR '':'' # rest)"
    using arg_cong [OF assms(2), of tl] by (simp add: drop_Suc tl_drop)
  have "tgetnum (Some e) cap = Inr (case v of Num n \<Rightarrow> min (int n) (2 ^ 31 - 1) | _ \<Rightarrow> -1) \<and>
    tgetflag (Some e) cap = Inr (v = Flag) \<and>
    tgetstr mem (Some e) cap None = Inr (case v of Str s \<Rightarrow> Some (s, None) | _ \<Rightarrow> None)"
  proof (cases v)
    case Flag
    then have "byte_at e q = Inr (CHR '':'')" using assms(2) by (intro byte_at_drop) (simp add: value_text_def)
    with assms(1) Flag show ?thesis by (simp add: tgetnum_def tgetflag_def tgetstr_def in_entry_def)
  next
    case (Num n)
    then have k: "byte_at e q = Inr (CHR ''#'')" using assms(2) by (intro byte_at_drop) (simp add: value_text_def)
    have "atoi (drop (Suc q) e) = min (int n) (2 ^ 31 - 1)"
      unfolding tail using Num by (simp add: value_text_def atoi_def decimal_show_nat is_digit_def)
    with k assms(1) Num show ?thesis by (simp add: tgetnum_def tgetflag_def tgetstr_def in_entry_def)
  next
    case (Str s)
    then have k: "byte_at e q = Inr (CHR ''='')" using assms(2) by (intro byte_at_drop) (simp add: value_text_def)
    have dr: "drop (Suc q) e = concat (map tc_quote s) @ CHR '':'' # rest" unfolding tail using Str by (simp add: value_text_def)
    have "length s < Suc (value_span (drop (Suc q) e))"
      unfolding dr using value_span_quoted [of s] by (simp add: le_imp_less_Suc)
    then have "tgetst1 mem e (Some (Suc q)) None = Inr (Some (s, None))"
      using copy_quoted [OF dr, of "Suc (value_span (drop (Suc q) e))" "[]"] bounds assms(3)
      by (simp add: tgetst1_def Let_def ends_value_def)
    with k assms(1) Str show ?thesis by (simp add: tgetnum_def tgetflag_def tgetstr_def in_entry_def)
  qed
  then show "tgetnum (Some e) cap = Inr (case v of Num n \<Rightarrow> min (int n) (2 ^ 31 - 1) | _ \<Rightarrow> -1)"
    "tgetflag (Some e) cap = Inr (v = Flag)"
    "tgetstr mem (Some e) cap None = Inr (case v of Str s \<Rightarrow> Some (s, None) | _ \<Rightarrow> None)" by simp_all
qed

text \<open>
  C12: an entry written from a list of capabilities, whose numbers an \<open>int\<close> can hold, answers every question as the list
  does: \<open>tgetnum\<close> gives the number, or -1, \<open>tgetflag\<close> whether the flag is there, \<open>tgetstr\<close> the string, decoded into a
  block of its own that is large enough, or null. A name given twice has its first value.
\<close>

theorem entry_roundtrip:
  assumes "cap_name cap" and "CHR '':'' \<notin> set names"
    and "\<forall>(c, v) \<in> set caps. cap_name c \<and> (\<forall>n. v = Num n \<longrightarrow> n < 2 ^ 31)" and "\<forall>n. mem n"
  defines "e \<equiv> Some (entry_text names caps)"
  shows "tgetnum e cap = Inr (case map_of caps cap of Some (Num n) \<Rightarrow> int n | _ \<Rightarrow> -1) \<and>
    tgetflag e cap = Inr (map_of caps cap = Some Flag) \<and>
    tgetstr mem e cap None = Inr (case map_of caps cap of Some (Str s) \<Rightarrow> Some (s, None) | _ \<Rightarrow> None)"
proof -
  let ?e = "entry_text names caps"
  obtain r where r: "find_capability (CHR '':'' # caps_text caps) cap = Inr r"
    and spec: "case map_of caps cap of
       None \<Rightarrow> r = None
     | Some v \<Rightarrow> \<exists>p rest. r = Some (Suc p) \<and> drop p (CHR '':'' # caps_text caps) = value_text v @ CHR '':'' # rest"
    using find_caps [OF assms(1), of caps] assms(3) by (auto simp: case_prod_unfold)
  have found: "find_capability ?e cap = Inr (map_option ((+) (length names)) r)"
    using find_skip [OF assms(1,2)] r by (simp add: entry_text_def)
  show ?thesis
  proof (cases "map_of caps cap")
    case None
    with spec found show ?thesis
      by (simp add: assms(5) tgetnum_def tgetflag_def tgetstr_def in_entry_def)
  next
    case (Some v)
    with spec obtain p rest where p: "r = Some (Suc p)"
      "drop p (CHR '':'' # caps_text caps) = value_text v @ CHR '':'' # rest" by auto
    have d: "drop (length names + p) ?e = value_text v @ CHR '':'' # rest"
      using p(2) by (simp add: entry_text_def)
    have "find_capability ?e cap = Inr (Some (Suc (length names + p)))" using found p(1) by simp
    note answer = answer_value [OF this d assms(4)]
    have "(cap, v) \<in> set caps" using Some by (rule map_of_SomeD)
    then have "int n \<le> 2 ^ 31 - 1" if "v = Num n" for n using assms(3) that by fastforce
    then have "(case v of Num n \<Rightarrow> min (int n) (2 ^ 31 - 1) | _ \<Rightarrow> -1) = (case v of Num n \<Rightarrow> int n | _ \<Rightarrow> -1)"
      by (simp add: min_def split: capval.split)
    then show ?thesis using answer Some by (simp add: assms(5) split: capval.split)
  qed
qed

theorem entry_roundtrip_witness:
  "tgetnum (Some (entry_text ''vt'' [(''am'', Flag), (''co'', Num 80), (''cl'', Str '':a'')])) ''co'' = Inr 80 \<and>
   tgetstr (\<lambda>_. True) (Some (entry_text ''vt'' [(''am'', Flag), (''co'', Num 80), (''cl'', Str '':a'')])) ''cl'' None =
     Inr (Some ('':a'', None))"
  using entry_roundtrip [of "''co''" "''vt''" "[(''am'', Flag), (''co'', Num 80), (''cl'', Str '':a'')]" "\<lambda>_. True"]
    entry_roundtrip [of "''cl''" "''vt''" "[(''am'', Flag), (''co'', Num 80), (''cl'', Str '':a'')]" "\<lambda>_. True"]
  by (simp add: cap_name_def)

text \<open>
  the size of the block is measured up to the first colon, but an escaped colon does not end the
  copying: of the value \<open>\:t\<close> the block holds three bytes, and \<open>tgetstr\<close> writes past it for every \<open>t\<close>
  of more than one character.
\<close>

theorem escaped_colon_overflow:
  assumes "\<forall>c \<in> set t. \<not> special c" and "\<forall>n. mem n"
  shows "tgetstr mem (Some (''vt:cl='' @ [BACKSLASH, CHR '':''] @ t @ '':'')) ''cl'' None =
    (if length t \<le> 1 then Inr (Some (CHR '':'' # t, None)) else Inl Buffer_Overflow)"
proof -
  let ?e = "''vt:cl='' @ [BACKSLASH, CHR '':''] @ t @ '':''"
  have f: "find_capability ?e ''cl'' = Inr (Some 6)" by (simp add: capability_here_iff)
  have k: "byte_at ?e 5 = Inr (CHR ''='')" by (simp add: byte_at_def eval_nat_numeral)
  have quoted: "concat (map tc_quote t) = t"
    using assms(1) by (induction t) (simp_all add: tc_quote_def)
  have d: "drop 8 ?e = concat (map tc_quote t) @ CHR '':'' # []" by (simp add: quoted eval_nat_numeral)
  have span: "value_span (drop 6 ?e) = 2" by (simp add: ends_value_def eval_nat_numeral)
  have b: "byte_at ?e 6 = Inr BACKSLASH" "byte_at ?e 7 = Inr (CHR '':'')"
    by (simp_all add: byte_at_def eval_nat_numeral)
  have v: "value_char ?e 7 BACKSLASH = Inr (58, 8)"
    by (simp only: value_char_def b) (simp add: is_octal_def Let_def)
  have ch: "char_of (58 :: nat) = CHR '':''" by code_simp
  have "copy_value 3 ?e 6 [] = copy_value 3 ?e 8 '':''"
    by (subst copy_value.simps) (simp only: b; simp add: ends_value_def v [simplified] ch)
  also have "\<dots> = (if length t \<le> 1 then Inr (CHR '':'' # t) else Inl Buffer_Overflow)"
    using copy_quoted [OF d, of 3 "'':''"] by (auto simp: ends_value_def)
  finally have "copy_value 3 ?e 6 [] = (if length t \<le> 1 then Inr (CHR '':'' # t) else Inl Buffer_Overflow)" .
  then have "tgetst1 mem ?e (Some 6) None =
      (if length t \<le> 1 then Inr (Some (CHR '':'' # t, None)) else Inl Buffer_Overflow)"
    unfolding tgetst1_def using span assms(2) by (simp add: Let_def)
  then show ?thesis
    unfolding tgetstr_def in_entry_def using f k by (simp del: find_capability.simps)
qed

theorem escaped_colon_overflow_witness:
  "tgetstr (\<lambda>_. True) (Some (''vt:cl='' @ [BACKSLASH, CHR '':''] @ ''ab'' @ '':'')) ''cl'' None =
    Inl Buffer_Overflow"
  using escaped_colon_overflow [of "''ab''" "\<lambda>_. True"] by (simp add: special_def ends_value_def)

section \<open>The number of padding characters\<close>

lemma pad_digits_value:
  assumes "\<forall>c \<in> set ds. is_digit c" and "r = [] \<or> \<not> is_digit (hd r)"
    and "10 * int (digits_val a ds) < 2 ^ 31"
  shows "pad_digits (10 * int a) (ds @ r) = (10 * int (digits_val a ds), r)"
  using assms(1,3)
proof (induction ds arbitrary: a)
  case Nil
  with assms(2) show ?case by (cases r) simp_all
next
  case (Cons c ds)
  let ?b = "10 * a + digit_val c"
  have b: "10 * int ?b < 2 ^ 31"
    using Cons.prems digits_val_ge [of ?b ds] by simp
  have v: "int (digit_val c) = of_char c - 48"
    using Cons.prems by (simp add: digit_val_def is_digit_def of_nat_diff of_nat_of_char)
  have "wrap32 (10 * int a + (of_char c - 48)) = int ?b"
    using b v by (subst wrap32_id) (simp_all add: int32_def)
  moreover have "wrap32 (int ?b * 10) = 10 * int ?b"
    using b by (subst wrap32_id) (simp_all add: int32_def)
  ultimately show ?case using Cons.IH [of ?b] Cons.prems by simp
qed

definition padded :: "nat \<Rightarrow> nat option \<Rightarrow> bool \<Rightarrow> string \<Rightarrow> string" where
  "padded n tenth per_line s =
     show_nat n @ (case tenth of None \<Rightarrow> [] | Some d \<Rightarrow> [CHR ''.'', digit_char d]) @
     (if per_line then ''*'' else []) @ s"

lemma pad_chars_value:
  assumes "0 \<le> D" and "D * \<bar>speed\<bar> < 2 ^ 31 - 600"
  shows "nat (pad_chars speed D) =
    nat (if speed < 0 then (D * \<bar>speed\<bar> - 500) div 1000 else (D * speed + 50500) div 100000)"
proof (cases "speed < 0")
  case True
  define X where "X = D * \<bar>speed\<bar>"
  have X: "0 \<le> X" "X < 2 ^ 31 - 600" "D * speed = - X"
    using assms True mult_nonneg_nonpos [of D speed] by (simp_all add: X_def)
  have w: "wrap32 (- X) = - X" "wrap32 (- X + 500) = - X + 500"
    using X by (simp_all add: wrap32_id int32_def)
  show ?thesis
  proof (cases "X \<le> 500")
    case less: True
    then have "(- X + 500) sdiv 1000 = (500 - X) div 1000"
      by (simp add: signed_divide_int_def sgn_if)
    moreover have "(500 - X) div 1000 = 0" using less X by (simp add: div_pos_pos_trivial)
    ultimately show ?thesis
      using True less X w by (simp add: pad_chars_def Let_def flip: X_def)
  next
    case False
    then have "(- X + 500) sdiv 1000 = - ((X - 500) div 1000)"
      by (simp add: signed_divide_int_def sgn_if)
    then show ?thesis using True X w by (simp add: pad_chars_def Let_def flip: X_def)
  qed
next
  case False
  define X where "X = D * speed"
  have X: "0 \<le> X" "X < 2 ^ 31 - 600" using assms False by (simp_all add: X_def)
  have w: "wrap32 X = X" "wrap32 (X + 500) = X + 500"
    using X by (simp_all add: wrap32_id int32_def)
  have q: "(X + 500) sdiv 1000 = (X + 500) div 1000"
    using X by (simp add: signed_divide_int_def sgn_if)
  define k where "k = (X + 500) div 1000"
  have k: "0 \<le> k" "k \<le> X + 500" using X by (simp_all add: k_def pos_imp_zdiv_nonneg_iff div_le_dividend int_div_less_self)
  then have "wrap32 (k + 50) = k + 50" using X by (simp add: wrap32_id int32_def)
  moreover have "(k + 50) sdiv 100 = (k + 50) div 100"
    using k by (simp add: signed_divide_int_def sgn_if)
  moreover have "(k + 50) div 100 = (X + 50500) div 100000"
  proof -
    have "k + 50 = (X + 50500) div 1000" by (simp add: k_def flip: div_add1_eq)
    then show ?thesis using zdiv_zmult2_eq [of 100 "X + 50500" 1000] by simp
  qed
  ultimately show ?thesis using False w q by (simp add: pad_chars_def Let_def k_def flip: X_def)
qed

lemma pad_tenth_value:
  assumes "0 \<le> n" and "n + 9 < 2 ^ 31" and "r = [] \<or> hd r \<noteq> CHR ''.''"
  shows "pad_tenth n ((case tenth of None \<Rightarrow> [] | Some d \<Rightarrow> [CHR ''.'', digit_char (d mod 10)]) @ r) =
    Inr (n + (case tenth of None \<Rightarrow> 0 | Some d \<Rightarrow> int (d mod 10)), r)"
proof (cases tenth)
  case None
  with assms(3) show ?thesis by (cases r) (auto simp: pad_tenth_def split: list.split char.split bool.split)
next
  case (Some d)
  have d: "d mod 10 < 10" by simp
  have "(of_char (digit_char (d mod 10)) :: int) = 48 + int (d mod 10)"
    using of_char_digit_char [OF d] by (metis of_nat_add of_nat_numeral of_nat_of_char)
  moreover have "wrap32 (n + int (d mod 10)) = n + int (d mod 10)"
  proof (rule wrap32_id)
    have "int (d mod 10) \<le> 9" using d by linarith
    with assms(1,2) show "int32 (n + int (d mod 10))" by (simp add: int32_def)
  qed
  ultimately show ?thesis using Some by (simp add: pad_tenth_def)
qed

text \<open>
  \<open>tputs\<close> writes the text after the padding specification - milliseconds, tenths, and a star to
  multiply by the lines affected - and then padding characters. With a delay of \<open>D\<close> tenths of
  milliseconds and a speed in characters per ten seconds it writes D * speed / 100000 rounded to the
  nearest number. For the fast lines, whose table entry is negative, the rounding goes the wrong way:
  it writes D * speed / 1000 less one half, rounded down, which is always less than the delay needs.
\<close>

theorem tputs_padding:
  fixes n :: nat and tenth :: "nat option" and per_line :: bool
  assumes "line_speed ospeed baud = Inr speed" and "0 \<le> nlines"
    and "s = [] \<or> \<not> is_digit (hd s) \<and> hd s \<noteq> CHR ''.'' \<and> hd s \<noteq> CHR ''*''"
  defines "D0 \<equiv> 10 * int n + (case tenth of None \<Rightarrow> 0 | Some d \<Rightarrow> int (d mod 10))"
  defines "D \<equiv> (if per_line then D0 * nlines else D0)"
  assumes "D0 + 9 < 2 ^ 31" and "D < 2 ^ 31" and "D * \<bar>speed\<bar> < 2 ^ 31 - 600"
  defines "k \<equiv> if speed < 0 then (D * \<bar>speed\<bar> - 500) div 1000 else (D * speed + 50500) div 100000"
  shows "tputs ospeed baud PC (Some (padded n (map_option (\<lambda>d. d mod 10) tenth) per_line s)) nlines =
      Inr (s @ replicate (nat k) PC) \<and>
    (speed < 0 \<longrightarrow> 0 < D \<longrightarrow> 1000 * int (nat k) < D * \<bar>speed\<bar>)"
proof
  let ?star = "(if per_line then ''*'' else []) @ s"
  let ?dot = "(case tenth of None \<Rightarrow> [] | Some d \<Rightarrow> [CHR ''.'', digit_char (d mod 10)]) @ ?star"
  have nn: "0 \<le> (case tenth of None \<Rightarrow> 0 | Some d \<Rightarrow> int (d mod 10))" by (cases tenth) simp_all
  have D: "0 \<le> D" using assms(2) nn by (simp add: D_def D0_def)
  have star: "?star = [] \<or> \<not> is_digit (hd ?star) \<and> hd ?star \<noteq> CHR ''.''"
    using assms(3) by (auto simp: is_digit_def)
  have "?dot = [] \<or> \<not> is_digit (hd ?dot)"
    using star by (cases tenth) (auto simp: is_digit_def)
  then have digits: "pad_digits 0 (show_nat n @ ?dot) = (10 * int n, ?dot)"
    using pad_digits_value [of "show_nat n" ?dot 0] assms(6) nn
    by (simp add: show_nat_digits digits_val_show_nat D0_def)
  have tenth: "pad_tenth (10 * int n) ?dot = Inr (D0, ?star)"
    using pad_tenth_value [of "10 * int n" ?star tenth] star assms(6) nn by (auto simp: D0_def)
  have lines: "pad_lines nlines D0 ?star = (D, s)"
  proof (cases per_line)
    case True
    then show ?thesis using D assms(7) by (simp add: pad_lines_def D_def wrap32_id int32_def)
  next
    case False
    then show ?thesis using assms(3)
      by (cases s) (auto simp: pad_lines_def D_def split: list.split char.split bool.split)
  qed
  have whole: "padded n (map_option (\<lambda>d. d mod 10) tenth) per_line s = show_nat n @ ?dot"
    by (cases tenth) (simp_all add: padded_def)
  show "tputs ospeed baud PC (Some (padded n (map_option (\<lambda>d. d mod 10) tenth) per_line s)) nlines =
      Inr (s @ replicate (nat k) PC)"
    unfolding tputs_def assms(1) whole
    using digits tenth lines pad_chars_value [OF D assms(8)] by (simp add: k_def)
  show "speed < 0 \<longrightarrow> 0 < D \<longrightarrow> 1000 * int (nat k) < D * \<bar>speed\<bar>"
  proof (intro impI)
    assume "speed < 0" "0 < D"
    then have "0 < D * \<bar>speed\<bar>" using mult_pos_neg [of D speed] by simp
    then show "1000 * int (nat k) < D * \<bar>speed\<bar>"
      unfolding k_def using \<open>speed < 0\<close> by (simp add: nat_mult_distrib) linarith
  qed
qed

theorem tputs_padding_witness:
  "tputs 13 0 NUL (Some ''20*ab'') 3 = Inr (''ab'' @ replicate 57 NUL)"
proof -
  have "show_nat 20 = ''20''" by code_simp
  then show ?thesis
    using tputs_padding [of 13 0 "-96" 3 "''ab''" 20 None True NUL]
    by (simp add: line_speed_def speeds_def is_digit_def padded_def)
qed

end
