(* ===== verification/Termcap_File.thy ===== *)
theory Termcap_File
  imports Termcap_Entry
begin

text \<open>
  The second half of \<open>termcap-1.3.1/termcap.c\<close>: the search of a terminal's entry in the termcap file
  (\<open>gobble_line\<close>, \<open>scan_file\<close>, \<open>name_match\<close>, \<open>compare_contin\<close>) and \<open>tgetent\<close>, which copies it, and
  those it refers to with \<open>tc=\<close>, into a block. The environment decides how many bytes each \<open>read\<close>
  delivers, which of them fail, and what memory can be had. Loops that may not end are option-valued:
  \<open>None\<close> is a run that never returns. \<open>bcopy\<close> of overlapping parts of the buffer is taken to move
  them, as the compiler's \<open>memcpy\<close> does for a move to a lower address.
\<close>

section \<open>The file and the buffer\<close>

definition BUFSIZE :: nat where "BUFSIZE = 2048"

text \<open>
  \<open>env_give k\<close> bounds what the \<open>k\<close>-th \<open>read\<close> delivers; \<open>env_fail k\<close> makes it fail; \<open>env_mem n\<close> says whether \<open>n\<close> bytes
  can be had; \<open>env_junk\<close> is what fresh memory holds. Sizes are numbers of bytes: for one that the \<open>int\<close>s of the code
  (\<open>size\<close>, \<open>malloc_size\<close>) cannot hold, the allocator is asked for a block of more than half of the address space, and
  \<open>env_mem\<close> is false for it on every machine.
\<close>

record tc_env =
  env_file :: "string \<Rightarrow> string option"
  env_TERMCAP :: "string option"
  env_TERM :: "string option"
  env_give :: "nat \<Rightarrow> nat"
  env_fail :: "nat \<Rightarrow> bool"
  env_mem :: "nat \<Rightarrow> bool"
  env_junk :: char

record tc_file =
  tc_bytes :: string
  tc_pos :: nat
  tc_reads :: nat

definition sys_read :: "tc_env \<Rightarrow> nat \<Rightarrow> tc_file \<Rightarrow> string option \<times> tc_file" where
  "sys_read env n w =
     (let w' = w\<lparr>tc_reads := Suc (tc_reads w)\<rparr> in
      if env_fail env (tc_reads w) then (None, w')
      else let bs = take (min n (max 1 (env_give env (tc_reads w)))) (drop (tc_pos w) (tc_bytes w)) in
           (Some bs, w'\<lparr>tc_pos := tc_pos w + length bs\<rparr>))"

text \<open>\<open>struct termcap_buffer\<close>; \<open>tb_data\<close> is the block at \<open>beg\<close>, of \<open>size + 1\<close> bytes.\<close>

record termcap_buffer =
  tb_data :: string
  tb_size :: nat
  tb_ptr :: nat
  tb_ateof :: bool
  tb_full :: nat

text \<open>\<open>while (*end && *end != '\n') end++\<close>.\<close>

definition line_end :: "string \<Rightarrow> nat \<Rightarrow> nat option" where
  "line_end data a = find (\<lambda>i. data ! i = NUL \<or> data ! i = NL) [a..<length data]"

text \<open>
  Making room in the buffer: by doubling it when the line starts at its beginning and fills it, or by
  discarding what is before the line. The result is the new \<open>append_end\<close>.
\<close>

definition make_room :: "tc_env \<Rightarrow> nat \<Rightarrow> termcap_buffer \<Rightarrow> (nat \<times> termcap_buffer) run" where
  "make_room env a b =
     (if tb_ptr b = 0
      then if tb_full b = tb_size b
           then let size = 2 * tb_size b in
                if env_mem env (size + 1)
                then Inr (a, b\<lparr>tb_size := size,
                       tb_data := tb_data b @ replicate (size - tb_size b) (env_junk env)\<rparr>)
                else Inl Abort
           else Inr (a, b)
      else if tb_full b < tb_ptr b then Inl Buffer_Overflow
      else let n = tb_full b - tb_ptr b in
           Inr (a - tb_ptr b, b\<lparr>tb_data := take n (drop (tb_ptr b) (tb_data b)) @ drop n (tb_data b),
                  tb_full := n, tb_ptr := 0\<rparr>))"

text \<open>
  Reading on. A failing \<open>read\<close> is not recognised: \<open>full\<close> becomes one less, and \<open>buf[full]\<close> is before
  the block when it was 0.
\<close>

definition read_on :: "tc_env \<Rightarrow> termcap_buffer \<Rightarrow> tc_file \<Rightarrow> (termcap_buffer \<times> tc_file) run" where
  "read_on env b w =
     (case sys_read env (tb_size b - tb_full b) w of
        (None, w) \<Rightarrow>
          if tb_full b = 0 then Inl Buffer_Overflow
          else Inr (b\<lparr>tb_full := tb_full b - 1, tb_data := (tb_data b)[tb_full b - 1 := NUL]\<rparr>, w)
      | (Some bs, w) \<Rightarrow>
          let full = tb_full b + length bs;
              data = take (tb_full b) (tb_data b) @ bs @ drop full (tb_data b) in
          Inr (b\<lparr>tb_ateof := tb_ateof b \<or> bs = [], tb_full := full, tb_data := data[full := NUL]\<rparr>, w))"

partial_function (option) gobble_from ::
    "tc_env \<Rightarrow> nat \<Rightarrow> termcap_buffer \<Rightarrow> tc_file \<Rightarrow> (nat \<times> termcap_buffer \<times> tc_file) run option" where
  "gobble_from env a b w =
     (case line_end (tb_data b) a of
        None \<Rightarrow> Some (Inl Out_Of_Bounds_Read)
      | Some e \<Rightarrow>
          if tb_data b ! e \<noteq> NUL then Some (Inr (e + 1, b, w))
          else if tb_ateof b then Some (Inr (tb_full b, b, w))
          else
          (case bind_run (make_room env a b) (\<lambda>(a, b).
                bind_run (read_on env b w) (\<lambda>(b, w). Inr (a, b, w))) of
             Inl f \<Rightarrow> Some (Inl f)
           | Inr (a, b, w) \<Rightarrow> gobble_from env a b w))"

definition gobble_line ::
    "tc_env \<Rightarrow> nat option \<Rightarrow> termcap_buffer \<Rightarrow> tc_file \<Rightarrow> (nat \<times> termcap_buffer \<times> tc_file) run option" where
  "gobble_line env append_end b w =
     gobble_from env (case append_end of None \<Rightarrow> tb_ptr b | Some a \<Rightarrow> a) b w"

section \<open>Matching names\<close>

text \<open>
  \<open>while ((c1 = *str1++) == ' ' || c1 == '\t')\<close>: the first other character and the position after
  it; then the loop over continuations.
\<close>

function skip_blanks :: "string \<Rightarrow> nat \<Rightarrow> (char \<times> nat) run" where
  "skip_blanks s p =
     (case byte_at s p of
        Inl e \<Rightarrow> Inl e
      | Inr c \<Rightarrow> if c = CHR '' '' \<or> c = TAB then skip_blanks s (p + 1) else Inr (c, p + 1))"
  by pat_completeness auto
termination
  by (relation "measure (\<lambda>(s, p). length s + 1 - p)") (auto simp: byte_at_def split: if_splits)

declare skip_blanks.simps [simp del]

lemma skip_blanks_advances: "skip_blanks s p = Inr (c, q) \<Longrightarrow> p < q"
proof (induction s p rule: skip_blanks.induct)
  case (1 s p)
  from 1(2) show ?case
    by (subst (asm) skip_blanks.simps)
      (auto split: sum.splits if_splits dest: 1(1) simp del: add_Suc_right)
qed

function skip_contin :: "string \<Rightarrow> char \<Rightarrow> nat \<Rightarrow> (char \<times> nat) run" where
  "skip_contin s c p =
     (if c = BACKSLASH
      then (case byte_at s p of
              Inl e \<Rightarrow> Inl e
            | Inr d \<Rightarrow>
                if d = NL
                then (case skip_blanks s (p + 1) of Inl e \<Rightarrow> Inl e | Inr (c, q) \<Rightarrow> skip_contin s c q)
                else Inr (c, p))
      else Inr (c, p))"
  by pat_completeness auto
termination
  by (relation "measure (\<lambda>(s, c, p). length s + 1 - p)")
    (auto dest!: skip_blanks_advances simp: byte_at_def split: if_splits)

declare skip_contin.simps [simp del]

text \<open>\<open>compare_contin (str1 + p, str2)\<close>: \<open>True\<close> is its result 1.\<close>

fun compare_contin :: "string \<Rightarrow> nat \<Rightarrow> string \<Rightarrow> bool run" where
  "compare_contin s p str2 =
     bind_run (byte_at s p) (\<lambda>c1.
     bind_run (skip_contin s c1 (p + 1)) (\<lambda>(c1, p).
     case str2 of
       [] \<Rightarrow> Inr (\<not> (c1 = CHR ''|'' \<or> c1 = CHR '':''))
     | c2 # str2 \<Rightarrow> if c1 \<noteq> c2 then Inr True else compare_contin s p str2))"

declare compare_contin.simps [simp del]

text \<open>The loop of \<open>name_match\<close> over the names, \<open>tem\<close> being a position.\<close>

function other_names :: "string \<Rightarrow> nat \<Rightarrow> string \<Rightarrow> bool run" where
  "other_names line tem name =
     (case byte_at line tem of
        Inl e \<Rightarrow> Inl e
      | Inr c \<Rightarrow>
          if c = NUL \<or> c = NL \<or> c = CHR '':'' then Inr False
          else if c = CHR ''|''
          then (case compare_contin line (tem + 1) name of
                  Inl e \<Rightarrow> Inl e
                | Inr differs \<Rightarrow> if \<not> differs then Inr True else other_names line (tem + 1) name)
          else other_names line (tem + 1) name)"
  by pat_completeness auto
termination
  by (relation "measure (\<lambda>(line, tem, name). length line + 1 - tem)")
    (auto simp: byte_at_def split: if_splits)

declare other_names.simps [simp del]

definition name_match :: "string \<Rightarrow> string \<Rightarrow> bool run" where
  "name_match line name =
     bind_run (compare_contin line 0 name) (\<lambda>differs.
     if \<not> differs then Inr True else other_names line 0 name)"

section \<open>Scanning the file\<close>

text \<open>
  \<open>end[-2] == '\\'\<close> asks whether the line is continued. When the line is empty and begins the buffer,
  that is a read before the block.
\<close>

partial_function (option) scan_line ::
    "tc_env \<Rightarrow> nat option \<Rightarrow> termcap_buffer \<Rightarrow> tc_file \<Rightarrow> (nat \<times> termcap_buffer \<times> tc_file) run option" where
  "scan_line env append_end b w =
     (case gobble_line env append_end b w of
        None \<Rightarrow> None
      | Some (Inl f) \<Rightarrow> Some (Inl f)
      | Some (Inr (e, b, w)) \<Rightarrow>
          if tb_ateof b then Some (Inr (e, b, w))
          else if e < 2 then Some (Inl Out_Of_Bounds_Read)
          else if tb_data b ! (e - 2) = BACKSLASH then scan_line env (Some e) b w
          else Some (Inr (e, b, w)))"

text \<open>The string that starts at \<open>bufp->ptr\<close>.\<close>

definition buffer_string :: "termcap_buffer \<Rightarrow> string run" where
  "buffer_string b =
     (case cstr_of (drop (tb_ptr b) (tb_data b)) of None \<Rightarrow> Inl Out_Of_Bounds_Read | Some s \<Rightarrow> Inr s)"

definition line_matches :: "string \<Rightarrow> string \<Rightarrow> bool run" where
  "line_matches s str =
     bind_run (byte_at s 0) (\<lambda>c. if c \<noteq> CHR ''#'' then name_match s str else Inr False)"

partial_function (option) scan_entries ::
    "tc_env \<Rightarrow> string \<Rightarrow> termcap_buffer \<Rightarrow> tc_file \<Rightarrow> (bool \<times> termcap_buffer \<times> tc_file) run option" where
  "scan_entries env str b w =
     (if tb_ateof b then Some (Inr (False, b, w))
      else
      (case scan_line env None b w of
         None \<Rightarrow> None
       | Some (Inl f) \<Rightarrow> Some (Inl f)
       | Some (Inr (e, b, w)) \<Rightarrow>
           (case bind_run (buffer_string b) (\<lambda>s. line_matches s str) of
              Inl f \<Rightarrow> Some (Inl f)
            | Inr m \<Rightarrow>
                if m then Some (Inr (True, b, w))
                else scan_entries env str (b\<lparr>tb_ptr := e\<rparr>) w)))"

definition scan_file ::
    "tc_env \<Rightarrow> string \<Rightarrow> termcap_buffer \<Rightarrow> tc_file \<Rightarrow> (bool \<times> termcap_buffer \<times> tc_file) run option" where
  "scan_file env str b w =
     scan_entries env str
       (b\<lparr>tb_ptr := 0, tb_full := 0, tb_ateof := False, tb_data := (tb_data b)[0 := NUL]\<rparr>)
       (w\<lparr>tc_pos := 0\<rparr>)"

section \<open>Finding an entry\<close>

text \<open>
  The loop that copies the entry from the buffer to \<open>bp1\<close>, without the backslash and newline of a
  continuation, and terminates it. \<open>out\<close> is what \<open>bp\<close> holds before \<open>bp1\<close>, \<open>room\<close> its size.
\<close>

function copy_entry :: "nat \<Rightarrow> string \<Rightarrow> nat \<Rightarrow> string \<Rightarrow> string run" where
  "copy_entry room data p out =
     (if length data \<le> p then Inl Out_Of_Bounds_Read
      else if room \<le> length out then Inl Buffer_Overflow
      else let c = data ! p in
        if c = NUL \<or> c = NL
        then if length out + 1 < room then Inr (out @ [c]) else Inl Buffer_Overflow
        else if c = BACKSLASH
        then if length data \<le> p + 1 then Inl Out_Of_Bounds_Read
             else if data ! (p + 1) = NL then copy_entry room data (p + 2) out
             else copy_entry room data (p + 1) (out @ [c])
        else copy_entry room data (p + 1) (out @ [c]))"
  by pat_completeness auto
termination by (relation "measure (\<lambda>(room, data, p, out). length data - p)") auto

declare copy_entry.simps [simp del]

definition c_string :: "string \<Rightarrow> string" where
  "c_string s = takeWhile (\<lambda>c. c \<noteq> NUL) s"

text \<open>
  The name behind the next \<open>tc=\<close>, as a string of its own. The value is decoded at the position
  \<open>find_capability\<close> gives, whatever kind it is of.
\<close>

definition tc_reference :: "tc_env \<Rightarrow> nat \<Rightarrow> string \<Rightarrow> (nat \<times> string) option run" where
  "tc_reference env search out =
     (let e = c_string (drop search out) in
      bind_run (find_capability e ''tc'') (\<lambda>r.
      bind_run (tgetst1 (env_mem env) e r None) (\<lambda>t.
      case (r, t) of
        (Some p, Some (s, _)) \<Rightarrow> Inr (Some (search + p, c_string s))
      | _ \<Rightarrow> Inr None)))"

text \<open>
  The loop over \<open>term\<close>: find its entry, append it to \<open>bp\<close>, look for a reference. \<open>own\<close> says that \<open>bp\<close>
  was allocated here, so that it is enlarged by the size of the buffer. The result \<open>None\<close> is an entry
  that was not found; \<open>bp\<close> holds \<open>out\<close> then as well.
\<close>

partial_function (option) tc_loop ::
    "tc_env \<Rightarrow> bool \<Rightarrow> string \<Rightarrow> nat \<Rightarrow> nat \<Rightarrow> string \<Rightarrow> termcap_buffer \<Rightarrow> tc_file \<Rightarrow>
     (bool \<times> string \<times> tc_file) run option" where
  "tc_loop env own term room search out b w =
     (case scan_file env term b w of
        None \<Rightarrow> None
      | Some (Inl f) \<Rightarrow> Some (Inl f)
      | Some (Inr (found, b, w)) \<Rightarrow>
          if \<not> found then Some (Inr (False, out, w))
          else
          (case (let room = (if own then length out + tb_size b else room) in
                 if own \<and> \<not> env_mem env room then Inl Abort
                 else
                 bind_run (copy_entry room (tb_data b) (tb_ptr b) out) (\<lambda>out.
                 bind_run (tc_reference env search out) (\<lambda>next.
                 Inr (room, out, next)))) of
             Inl f \<Rightarrow> Some (Inl f)
           | Inr (room, out, None) \<Rightarrow> Some (Inr (True, out, w))
           | Inr (room, out, Some (search, term)) \<Rightarrow> tc_loop env own term room search out b w))"

text \<open>
  \<open>tgetent\<close>: \<open>bp\<close> is \<open>None\<close> for null, otherwise the size of the caller's block and the string in it.
  The result is the value returned and \<open>term_entry\<close>.
\<close>

definition TERMCAP_FILE :: string where "TERMCAP_FILE = ''/etc/termcap''"

definition search_file ::
    "tc_env \<Rightarrow> (nat \<times> string) option \<Rightarrow> string \<Rightarrow> string \<Rightarrow> (string \<times> string) option \<Rightarrow>
     string option \<Rightarrow> (int \<times> string option) run option" where
  "search_file env bp file name indirect term_entry =
     (case env_file env file of
        None \<Rightarrow> Some (Inr (-1, term_entry))
      | Some bytes \<Rightarrow>
          let b = \<lparr>tb_data = replicate (BUFSIZE + 1) (env_junk env), tb_size = BUFSIZE, tb_ptr = 0,
                   tb_ateof = False, tb_full = 0\<rparr>;
              w = \<lparr>tc_bytes = bytes, tc_pos = 0, tc_reads = 0\<rparr>;
              term = (case indirect of None \<Rightarrow> name | Some (t, _) \<Rightarrow> t);
              start = (case indirect of None \<Rightarrow> [] | Some (_, tcenv) \<Rightarrow> tcenv);
              room = (case bp of
                        Some (room, _) \<Rightarrow> room
                      | None \<Rightarrow> if indirect \<noteq> None then length start + 1 else BUFSIZE) in
          if \<not> env_mem env (BUFSIZE + 1) \<or> bp = None \<and> \<not> env_mem env room then Some (Inl Abort)
          else if indirect \<noteq> None \<and> room \<le> length start then Some (Inl Buffer_Overflow)
          else
          (case tc_loop env (bp = None) term room 0 start b w of
             None \<Rightarrow> None
           | Some (Inl f) \<Rightarrow> Some (Inl f)
           | Some (Inr (found, out, w)) \<Rightarrow>
               if found
               then if bp = None \<and> \<not> env_mem env (length out + 1) then Some (Inl Abort)
                    else Some (Inr (1, Some (c_string out)))
               else Some (Inr (0, if bp \<noteq> None \<and> out \<noteq> [] then Some (c_string out) else term_entry))))"

definition tgetent ::
    "tc_env \<Rightarrow> (nat \<times> string) option \<Rightarrow> string \<Rightarrow> string option \<Rightarrow> (int \<times> string option) run option" where
  "tgetent env bp name term_entry =
     (let term_entry = (case bp of None \<Rightarrow> term_entry | Some (_, s) \<Rightarrow> Some s);
          termcap = (case env_TERMCAP env of None \<Rightarrow> None | Some t \<Rightarrow> if t = [] then None else Some t) in
      case termcap of
        None \<Rightarrow> search_file env bp TERMCAP_FILE name None term_entry
      | Some t \<Rightarrow>
          if hd t = CHR ''/'' then search_file env bp t name None term_entry
          else
          (case env_TERM env of
             None \<Rightarrow> Some (Inl Null_Pointer)
           | Some term \<Rightarrow>
               if name \<noteq> term then search_file env bp TERMCAP_FILE name None term_entry
               else
               (case tc_reference env 0 t of
                  Inl f \<Rightarrow> Some (Inl f)
                | Inr None \<Rightarrow>
                    (case bp of
                       None \<Rightarrow> Some (Inr (1, Some t))
                     | Some (room, _) \<Rightarrow>
                         if length t < room then Some (Inr (1, Some t)) else Some (Inl Buffer_Overflow))
                | Inr (Some (_, indirect)) \<Rightarrow>
                    search_file env bp TERMCAP_FILE name (Some (indirect, t)) term_entry)))"

section \<open>What matching means\<close>

definition blank :: "char \<Rightarrow> bool" where
  "blank c \<longleftrightarrow> c = CHR '' '' \<or> c = TAB"

text \<open>A line without its continuations: backslash, newline and the blanks after them.\<close>

function unfold_cont :: "string \<Rightarrow> string" where
  "unfold_cont [] = []"
| "unfold_cont (c # s) =
     (if c = BACKSLASH \<and> s \<noteq> [] \<and> hd s = NL then unfold_cont (dropWhile blank (tl s))
      else c # unfold_cont s)"
  by pat_completeness auto
termination
proof (relation "measure length"; simp)
  fix s :: string
  assume "s \<noteq> [] \<and> hd s = NL"
  then show "length (dropWhile blank (tl s)) < Suc (length s)"
    using length_dropWhile_le [of blank "tl s"] by (cases s) simp_all
qed

text \<open>The text begins with the name, and the name ends there.\<close>

fun name_prefix :: "string \<Rightarrow> string \<Rightarrow> bool" where
  "name_prefix [] n = False"
| "name_prefix (c # s) [] = (c = CHR ''|'' \<or> c = CHR '':'')"
| "name_prefix (c # s) (d # n) = (c = d \<and> name_prefix s n)"

lemma name_prefix_iff:
  "name_prefix s n \<longleftrightarrow> (\<exists>c r. s = n @ c # r \<and> (c = CHR ''|'' \<or> c = CHR '':''))"
  by (induction s n rule: name_prefix.induct) (auto simp: Cons_eq_append_conv)

lemma byte_at_cases:
  assumes "p \<le> length s"
  shows "drop p s = [] \<and> p = length s \<and> byte_at s p = Inr NUL \<or>
    (\<exists>c. drop p s = c # drop (Suc p) s \<and> byte_at s p = Inr c \<and> p < length s)"
  using assms by (cases "p = length s") (auto simp: byte_at_def Cons_nth_drop_Suc)

text \<open>The character read last, before position \<open>p\<close>, when what is left starts with it.\<close>

definition at_char :: "string \<Rightarrow> string \<Rightarrow> char \<Rightarrow> nat \<Rightarrow> bool" where
  "at_char s r c p \<longleftrightarrow>
     (r = [] \<and> c = NUL \<and> p = Suc (length s)) \<or> (r = c # drop p s \<and> p \<le> length s)"

lemma at_char_byte_at: "p \<le> length s \<Longrightarrow> \<exists>c. byte_at s p = Inr c \<and> at_char s (drop p s) c (Suc p)"
  using byte_at_cases [of p s] by (auto simp: at_char_def)

lemma skip_blanks_spec:
  "p \<le> length s \<Longrightarrow> \<exists>c q. skip_blanks s p = Inr (c, q) \<and> at_char s (dropWhile blank (drop p s)) c q"
proof (induction s p rule: skip_blanks.induct)
  case (1 s p)
  from byte_at_cases [OF 1(2)] show ?case
  proof (elim disjE exE conjE)
    assume "drop p s = []" "p = length s" "byte_at s p = Inr NUL"
    then show ?thesis by (subst skip_blanks.simps) (simp add: at_char_def)
  next
    fix c assume c: "drop p s = c # drop (Suc p) s" "byte_at s p = Inr c" "p < length s"
    show ?thesis
    proof (cases "blank c")
      case True
      then have "c = CHR '' '' \<or> c = TAB" by (simp add: blank_def)
      with True c 1(1) [of c] show ?thesis by (subst skip_blanks.simps) auto
    next
      case False
      with c show ?thesis by (subst skip_blanks.simps) (simp add: blank_def at_char_def)
    qed
  qed
qed

lemma skip_contin_spec:
  assumes "at_char s r c p"
  shows "\<exists>c' q. skip_contin s c p = Inr (c', q) \<and>
    (unfold_cont r = [] \<and> c' = NUL \<and> q = Suc (length s) \<or>
     unfold_cont r = c' # unfold_cont (drop q s) \<and> q \<le> length s)"
  using assms
proof (induction s c p arbitrary: r rule: skip_contin.induct)
  case (1 s c p)
  show ?case
  proof (cases "c = BACKSLASH \<and> p < length s \<and> s ! p = NL")
    case True
    then have b: "byte_at s p = Inr NL" by (simp add: byte_at_nth)
    from True 1(2) have r: "r = BACKSLASH # NL # drop (Suc p) s"
      by (auto simp: at_char_def) (metis Cons_nth_drop_Suc)
    obtain c' q where sk: "skip_blanks s (p + 1) = Inr (c', q)"
      "at_char s (dropWhile blank (drop (p + 1) s)) c' q"
      using skip_blanks_spec [of "p + 1" s] True by auto
    from 1(1) [OF _ b refl sk(1) refl sk(2)] True show ?thesis
      by (subst skip_contin.simps) (simp add: b sk(1) [simplified] r)
  next
    case False
    have "skip_contin s c p = Inr (c, p)"
    proof (cases "c = BACKSLASH")
      case True
      with 1(2) have "p \<le> length s" by (auto simp: at_char_def)
      with True False show ?thesis
        by (subst skip_contin.simps) (auto simp: byte_at_def)
    qed (subst skip_contin.simps, simp)
    moreover have "unfold_cont r = [] \<and> c = NUL \<and> p = Suc (length s) \<or>
        unfold_cont r = c # unfold_cont (drop p s) \<and> p \<le> length s"
    proof -
      from 1(2) consider "r = []" "c = NUL" "p = Suc (length s)" | "r = c # drop p s" "p \<le> length s"
        by (auto simp: at_char_def)
      then show ?thesis
      proof cases
        case 2
        have "\<not> (c = BACKSLASH \<and> drop p s \<noteq> [] \<and> hd (drop p s) = NL)"
          using False by (auto simp: hd_drop_conv_nth)
        with 2 show ?thesis by auto
      qed simp
    qed
    ultimately show ?thesis by blast
  qed
qed

lemma compare_contin_spec:
  assumes "p \<le> length s" and "NUL \<notin> set name"
  shows "compare_contin s p name = Inr (\<not> name_prefix (unfold_cont (drop p s)) name)"
  using assms
proof (induction name arbitrary: p)
  case Nil
  obtain c where "byte_at s p = Inr c" "at_char s (drop p s) c (Suc p)"
    using at_char_byte_at Nil by blast
  with skip_contin_spec [OF this(2)] show ?case
    by (subst compare_contin.simps) auto
next
  case (Cons d name)
  obtain c where "byte_at s p = Inr c" "at_char s (drop p s) c (Suc p)"
    using at_char_byte_at Cons by blast
  with skip_contin_spec [OF this(2)] Cons show ?case
    by (subst compare_contin.simps) auto
qed

text \<open>The names of an entry stand before its first colon, separated by bars, on its first line.\<close>

definition name_field :: "string \<Rightarrow> string" where
  "name_field s = takeWhile (\<lambda>c. c \<noteq> NUL \<and> c \<noteq> NL \<and> c \<noteq> CHR '':'') s"

definition has_name :: "string \<Rightarrow> string \<Rightarrow> bool" where
  "has_name s name \<longleftrightarrow>
     name_prefix (unfold_cont s) name \<or>
     (\<exists>i < length (name_field s). s ! i = CHR ''|'' \<and> name_prefix (unfold_cont (drop (Suc i) s)) name)"

lemma other_names_spec:
  assumes "tem \<le> length s" and "NUL \<notin> set name"
  shows "other_names s tem name = Inr (\<exists>i < length (name_field (drop tem s)).
    s ! (tem + i) = CHR ''|'' \<and> name_prefix (unfold_cont (drop (Suc (tem + i)) s)) name)"
  using assms
proof (induction s tem name rule: other_names.induct)
  case (1 s tem name)
  from byte_at_cases [OF 1(3)] show ?case
  proof (elim disjE exE conjE)
    assume "drop tem s = []" "byte_at s tem = Inr NUL"
    then show ?thesis by (subst other_names.simps) (simp add: name_field_def)
  next
    fix c assume c: "drop tem s = c # drop (Suc tem) s" "byte_at s tem = Inr c" "tem < length s"
    have nth: "s ! tem = c" using c(1,3) by (metis Cons_nth_drop_Suc list.inject)
    have step: "(\<exists>i < length (name_field (drop tem s)). P (tem + i)) \<longleftrightarrow>
        P tem \<or> (\<exists>i < length (name_field (drop (Suc tem) s)). P (Suc tem + i))"
      if "\<not> (c = NUL \<or> c = NL \<or> c = CHR '':'')" for P
    proof -
      have len: "length (name_field (drop tem s)) = Suc (length (name_field (drop (Suc tem) s)))"
        using that by (simp add: c(1) name_field_def)
      show ?thesis unfolding len
        by (metis Suc_less_eq add_Suc_right add_Suc add_0_right less_Suc_eq_0_disj)
    qed
    show ?thesis
    proof (cases "c = NUL \<or> c = NL \<or> c = CHR '':''")
      case True
      with c show ?thesis by (subst other_names.simps) (auto simp: name_field_def)
    next
      case ordinary: False
      note st = step [OF ordinary, of "\<lambda>t. s ! t = CHR ''|'' \<and> name_prefix (unfold_cont (drop (Suc t) s)) name"]
      note IH2 = 1(2) [OF c(2) ordinary _ _ 1(4)]
      show ?thesis
      proof (cases "c = CHR ''|''")
        case True
        have cmp: "compare_contin s (tem + 1) name = Inr (\<not> name_prefix (unfold_cont (drop (Suc tem) s)) name)"
          using compare_contin_spec [OF _ 1(4), of "tem + 1" s] c(3) by simp
        show ?thesis
          unfolding st using 1(1) [OF c(2) ordinary True cmp _ _ 1(4)] c(2,3) True nth cmp
          by (subst other_names.simps) simp
      next
        case False
        show ?thesis
          unfolding st using IH2 c(2,3) ordinary False nth
          by (subst other_names.simps) simp
      qed
    qed
  qed
qed

lemma name_match_has_name: "NUL \<notin> set name \<Longrightarrow> name_match s name = Inr (has_name s name)"
  using compare_contin_spec [of 0 s name] other_names_spec [of 0 s name]
  by (simp add: name_match_def has_name_def)

text \<open>
  \<open>name_match\<close> never reads outside the line and says whether the name is one of those the entry
  begins with: after the start or a bar on the first line, the line without its continuations goes on
  with the name and then a bar or a colon.
\<close>

theorem name_match_spec:
  assumes "NUL \<notin> set name"
  shows "name_match s name = Inr (\<exists>i. (i = 0 \<or> i \<le> length (name_field s) \<and> s ! (i - 1) = CHR ''|'') \<and>
    (\<exists>c r. unfold_cont (drop i s) = name @ c # r \<and> (c = CHR ''|'' \<or> c = CHR '':'')))"
proof -
  have "has_name s name \<longleftrightarrow> (\<exists>i. (i = 0 \<or> i \<le> length (name_field s) \<and> s ! (i - 1) = CHR ''|'') \<and>
    name_prefix (unfold_cont (drop i s)) name)"
  proof
    assume "has_name s name"
    then show "\<exists>i. (i = 0 \<or> i \<le> length (name_field s) \<and> s ! (i - 1) = CHR ''|'') \<and>
        name_prefix (unfold_cont (drop i s)) name"
      unfolding has_name_def
    proof (elim disjE exE conjE)
      assume "name_prefix (unfold_cont s) name"
      then show ?thesis by (intro exI [of _ 0]) simp
    next
      fix i assume "i < length (name_field s)" "s ! i = CHR ''|''"
        "name_prefix (unfold_cont (drop (Suc i) s)) name"
      then show ?thesis by (intro exI [of _ "Suc i"]) simp
    qed
  next
    assume "\<exists>i. (i = 0 \<or> i \<le> length (name_field s) \<and> s ! (i - 1) = CHR ''|'') \<and>
        name_prefix (unfold_cont (drop i s)) name"
    then obtain i where i: "i = 0 \<or> i \<le> length (name_field s) \<and> s ! (i - 1) = CHR ''|''"
      "name_prefix (unfold_cont (drop i s)) name" by blast
    then show "has_name s name"
      by (cases i) (auto simp: has_name_def Suc_le_eq)
  qed
  then show ?thesis by (simp add: name_match_has_name [OF assms] name_prefix_iff)
qed

theorem name_match_spec_witness:
  "name_match ''d0|vt100|DEC:co#80:'' ''vt100'' = Inr True"
  using name_match_spec [of "''vt100''" "''d0|vt100|DEC:co#80:''"]
  by (auto simp: name_field_def intro!: exI [of _ "3 :: nat"])

end
