(* ===== verification/Termcap_Scan.thy ===== *)
theory Termcap_Scan
  imports Termcap_File
begin

text \<open>
  What scanning the termcap file amounts to: whatever the sizes of the reads, \<open>scan_file\<close> goes
  through the entries of the file, lines with their continuations, in order and finds the first whose
  names match. The buffer is related to the rest of the file it stands for, its \<open>stream\<close>.
\<close>

section \<open>The buffer and the stream\<close>

definition stream :: "termcap_buffer \<Rightarrow> tc_file \<Rightarrow> string" where
  "stream b w =
     take (tb_full b - tb_ptr b) (drop (tb_ptr b) (tb_data b)) @ drop (tc_pos w) (tc_bytes w)"

definition buf_pre :: "termcap_buffer \<Rightarrow> tc_file \<Rightarrow> bool" where
  "buf_pre b w \<longleftrightarrow>
     tb_ptr b \<le> tb_full b \<and> tb_full b \<le> tb_size b \<and> length (tb_data b) = tb_size b + 1 \<and>
     NUL \<notin> set (take (tb_full b) (tb_data b)) \<and> 0 < tb_size b \<and>
     tc_pos w \<le> length (tc_bytes w) \<and> NUL \<notin> set (tc_bytes w) \<and>
     (tb_ateof b \<longrightarrow> tc_pos w = length (tc_bytes w))"

definition buf_ok :: "termcap_buffer \<Rightarrow> tc_file \<Rightarrow> bool" where
  "buf_ok b w \<longleftrightarrow> buf_pre b w \<and> tb_data b ! tb_full b = NUL"

text \<open>
  An environment in which no \<open>read\<close> fails, one in which there is memory of every size, and one in which nothing
  fails. Without memory the scan can end in \<open>memory_out\<close>.
\<close>

definition calm :: "tc_env \<Rightarrow> bool" where
  "calm env \<longleftrightarrow> (\<forall>k. \<not> env_fail env k)"

definition ample :: "tc_env \<Rightarrow> bool" where
  "ample env \<longleftrightarrow> (\<forall>n. env_mem env n)"

definition smooth :: "tc_env \<Rightarrow> bool" where
  "smooth env \<longleftrightarrow> (\<forall>k. \<not> env_fail env k) \<and> (\<forall>n. env_mem env n)"

lemma smooth_iff: "smooth env \<longleftrightarrow> calm env \<and> ample env"
  by (simp add: smooth_def calm_def ample_def)

definition out_of_memory :: "tc_env \<Rightarrow> 'a run \<Rightarrow> bool" where
  "out_of_memory env r \<longleftrightarrow> \<not> ample env \<and> r = Inl Abort"

lemma out_of_memory_fault: "out_of_memory env r \<Longrightarrow> r = Inl Abort" "out_of_memory env r \<Longrightarrow> out_of_memory env (Inl Abort)"
  by (simp_all add: out_of_memory_def)

definition remaining :: "tc_file \<Rightarrow> nat" where
  "remaining w = length (tc_bytes w) - tc_pos w"

lemma find_upt:
  assumes "a \<le> e" and "e < n" and "P e" and "\<And>i. a \<le> i \<Longrightarrow> i < e \<Longrightarrow> \<not> P i"
  shows "find P [a..<n] = Some e"
  unfolding find_Some_iff using assms by (intro exI [of _ "e - a"]) auto

definition window :: "nat \<Rightarrow> termcap_buffer \<Rightarrow> string" where
  "window a b = take (tb_full b - a) (drop a (tb_data b))"

lemma nth_window: "buf_pre b w \<Longrightarrow> a + i < tb_full b \<Longrightarrow> window a b ! i = tb_data b ! (a + i)"
  by (simp add: window_def buf_pre_def)

lemma length_window: "buf_pre b w \<Longrightarrow> length (window a b) = tb_full b - a"
  by (auto simp: window_def buf_pre_def)

lemma data_not_NUL: "buf_pre b w \<Longrightarrow> i < tb_full b \<Longrightarrow> tb_data b ! i \<noteq> NUL"
  by (auto simp: buf_pre_def in_set_conv_nth)

lemma length_before_NL: "NL \<in> set xs \<Longrightarrow> length (takeWhile (\<lambda>c. c \<noteq> NL) xs) < length xs"
  by (induction xs) auto

lemma line_end_window:
  assumes "buf_ok b w" and "a \<le> tb_full b"
  defines "t \<equiv> takeWhile (\<lambda>c. c \<noteq> NL) (window a b)"
  shows "line_end (tb_data b) a = Some (a + length t)"
    and "tb_data b ! (a + length t) = (if NL \<in> set (window a b) then NL else NUL)"
    and "a + length t \<le> tb_full b"
proof -
  have pre: "buf_pre b w" and end_NUL: "tb_data b ! tb_full b = NUL"
    using assms(1) by (simp_all add: buf_ok_def)
  have len: "length (window a b) = tb_full b - a" by (rule length_window [OF pre])
  have tw: "length t \<le> tb_full b - a"
    unfolding t_def len [symmetric] by (rule length_takeWhile_le)
  then show le: "a + length t \<le> tb_full b" using assms(2) by simp
  show at_end: "tb_data b ! (a + length t) = (if NL \<in> set (window a b) then NL else NUL)"
  proof (cases "NL \<in> set (window a b)")
    case True
    then have less: "length t < length (window a b)"
      unfolding t_def by (rule length_before_NL)
    then have "window a b ! length t = NL"
      unfolding t_def using nth_length_takeWhile by blast
    with True less len show ?thesis using nth_window [OF pre, of a "length t"] by simp
  next
    case False
    then have "t = window a b" unfolding t_def takeWhile_eq_all_conv by metis
    with False len assms(2) end_NUL show ?thesis by simp
  qed
  have before: "tb_data b ! i \<noteq> NUL \<and> tb_data b ! i \<noteq> NL" if "a \<le> i" "i < a + length t" for i
  proof -
    have "i - a < length t" using that by simp
    then have "t ! (i - a) \<in> set t" by (rule nth_mem)
    then have "t ! (i - a) \<noteq> NL" unfolding t_def by (blast dest: set_takeWhileD)
    moreover have "t ! (i - a) = window a b ! (i - a)"
      using \<open>i - a < length t\<close> unfolding t_def by (rule takeWhile_nth)
    moreover have "window a b ! (i - a) = tb_data b ! i"
      using nth_window [OF pre, of a "i - a"] that le by simp
    ultimately show ?thesis using data_not_NUL [OF pre] that le by simp
  qed
  show "line_end (tb_data b) a = Some (a + length t)"
    unfolding line_end_def
  proof (rule find_upt)
    show "a + length t < length (tb_data b)" using le pre by (simp add: buf_pre_def)
    show "tb_data b ! (a + length t) = NUL \<or> tb_data b ! (a + length t) = NL"
      using at_end by simp
  qed (use before in simp_all)
qed

lemma stream_window:
  assumes "buf_pre b w" and "tb_ptr b \<le> a" and "a \<le> tb_full b"
  shows "drop (a - tb_ptr b) (stream b w) = window a b @ drop (tc_pos w) (tc_bytes w)"
  using assms by (auto simp: stream_def window_def buf_pre_def drop_take min_def)

section \<open>Filling the buffer\<close>

lemma make_room_spec:
  assumes "buf_pre b w" and "tb_ptr b \<le> a" and "a \<le> tb_full b"
  shows "out_of_memory env (make_room env a b) \<or>
    (\<exists>a' b'. make_room env a b = Inr (a', b') \<and> buf_pre b' w \<and> stream b' w = stream b w \<and>
    tb_ptr b' \<le> a' \<and> a' \<le> tb_full b' \<and> a' - tb_ptr b' = a - tb_ptr b \<and> window a' b' = window a b \<and>
    tb_full b' < tb_size b' \<and> tb_ateof b' = tb_ateof b \<and> tb_size b \<le> tb_size b')"
proof -
  note pre = assms(1) [unfolded buf_pre_def]
  consider "tb_ptr b = 0" "tb_full b = tb_size b" | "tb_ptr b = 0" "tb_full b \<noteq> tb_size b" | "tb_ptr b \<noteq> 0"
    by blast
  then show ?thesis
  proof cases
    case 1
    show ?thesis
    proof (cases "env_mem env (2 * tb_size b + 1)")
      case True
      with 1 assms pre show ?thesis
        by (auto simp: make_room_def buf_pre_def stream_def window_def Let_def)
    next
      case False
      then have "\<not> ample env" unfolding ample_def by blast
      with 1 False show ?thesis by (simp add: make_room_def out_of_memory_def Let_def)
    qed
  next
    case 2
    with assms pre show ?thesis by (auto simp: make_room_def)
  next
    case 3
    let ?n = "tb_full b - tb_ptr b"
    have no_NUL: "NUL \<notin> set (take ?n (drop (tb_ptr b) (tb_data b)))"
    proof
      assume "NUL \<in> set (take ?n (drop (tb_ptr b) (tb_data b)))"
      then obtain i where "i < ?n" "tb_data b ! (tb_ptr b + i) = NUL"
        using pre by (auto simp: in_set_conv_nth)
      with data_not_NUL [OF assms(1), of "tb_ptr b + i"] show False by linarith
    qed
    define V where "V = take ?n (drop (tb_ptr b) (tb_data b))"
    define b' where "b' = b\<lparr>tb_data := V @ drop ?n (tb_data b), tb_full := ?n, tb_ptr := 0\<rparr>"
    have lV: "length V = ?n" using pre by (auto simp: V_def)
    have NV: "NUL \<notin> set V" using no_NUL unfolding V_def .
    have run: "make_room env a b = Inr (a - tb_ptr b, b')"
      using 3 pre by (simp add: make_room_def Let_def b'_def V_def)
    have ok: "buf_pre b' w"
      using pre lV NV 3 by (auto simp: buf_pre_def b'_def)
    have st: "stream b' w = stream b w" using lV by (simp add: stream_def b'_def V_def)
    have "window (a - tb_ptr b) b' = drop (a - tb_ptr b) V"
      using lV assms(2,3) by (simp add: window_def b'_def)
    also have "\<dots> = window a b"
      using assms(2) by (simp add: V_def window_def drop_take)
    finally have win: "window (a - tb_ptr b) b' = window a b" .
    have "?n < tb_size b" using pre 3 by linarith
    with run ok st win show ?thesis
      using assms(2,3) by (intro disjI2 exI conjI) (assumption | simp add: b'_def)+
  qed
qed

lemma drop_length_take: "drop (length (take m xs)) xs = drop m xs"
  by (cases "m \<le> length xs") simp_all

lemma read_on_spec:
  assumes "calm env" and "buf_pre b w" and "tb_full b < tb_size b" and "\<not> tb_ateof b"
  shows "\<exists>b' w'. read_on env b w = Inr (b', w') \<and> buf_ok b' w' \<and> stream b' w' = stream b w \<and>
    tb_ptr b' = tb_ptr b \<and> tb_size b' = tb_size b \<and> tc_bytes w' = tc_bytes w \<and> tb_full b \<le> tb_full b' \<and>
    (if remaining w = 0 then tb_ateof b' \<and> tb_full b' = tb_full b
     else \<not> tb_ateof b' \<and> remaining w' < remaining w)"
proof -
  note pre = assms(2) [unfolded buf_pre_def]
  define bs where "bs = take (min (tb_size b - tb_full b) (max 1 (env_give env (tc_reads w)))) (drop (tc_pos w) (tc_bytes w))"
  define w' where "w' = w\<lparr>tc_reads := Suc (tc_reads w), tc_pos := tc_pos w + length bs\<rparr>"
  define full where "full = tb_full b + length bs"
  define data where "data = (take (tb_full b) (tb_data b) @ bs @ drop full (tb_data b))[full := NUL]"
  define b' where "b' = b\<lparr>tb_ateof := bs = [], tb_full := full, tb_data := data\<rparr>"
  have run: "read_on env b w = Inr (b', w')"
    using assms(1,4) by (simp add: read_on_def sys_read_def calm_def Let_def b'_def w'_def bs_def full_def data_def)
  have lbs: "length bs \<le> tb_size b - tb_full b" by (simp add: bs_def)
  have empty: "bs = [] \<longleftrightarrow> remaining w = 0"
    using assms(3) by (auto simp: bs_def remaining_def)
  have suffix: "drop (tc_pos w) (tc_bytes w) = bs @ drop (tc_pos w + length bs) (tc_bytes w)"
    unfolding bs_def by (metis add.commute append_take_drop_id drop_drop drop_length_take)
  have fs: "full \<le> tb_size b" using pre lbs unfolding full_def by linarith
  have ld: "length data = tb_size b + 1"
    using pre fs by (simp add: data_def full_def)
  have td: "take full data = take (tb_full b) (tb_data b) @ bs"
    using pre fs by (simp add: data_def full_def)
  have dn: "data ! full = NUL" using pre fs by (simp add: data_def full_def)
  have "NUL \<notin> set bs" using pre by (auto simp: bs_def dest: in_set_takeD in_set_dropD)
  then have ok: "buf_ok b' w'"
    using pre fs ld td dn arg_cong [OF suffix, of length] empty
    by (auto simp: buf_ok_def buf_pre_def b'_def w'_def full_def remaining_def)
  have "take (full - tb_ptr b) (drop (tb_ptr b) data) = drop (tb_ptr b) (take full data)"
    by (simp add: drop_take)
  also have "\<dots> = take (tb_full b - tb_ptr b) (drop (tb_ptr b) (tb_data b)) @ bs"
    unfolding td using pre by (simp add: drop_take)
  finally have st: "stream b' w' = stream b w"
    using suffix by (simp add: stream_def b'_def w'_def)
  have "remaining w' < remaining w" if "bs \<noteq> []"
    using that empty by (simp add: w'_def remaining_def diff_less_mono2)
  then show ?thesis
    using run ok st empty assms(4) by (auto simp: b'_def w'_def full_def)
qed

section \<open>One line, one entry\<close>

text \<open>
  The end \<open>e\<close> of the line found from offset \<open>k\<close> of the stream \<open>S\<close>: behind its newline, or the end of
  the file.
\<close>

definition gobbled :: "string \<Rightarrow> nat \<Rightarrow> nat \<Rightarrow> termcap_buffer \<Rightarrow> tc_file \<Rightarrow> bool" where
  "gobbled S k e b w \<longleftrightarrow>
     buf_ok b w \<and> stream b w = S \<and> tb_ptr b \<le> e \<and> e \<le> tb_full b \<and>
     (let n = k + length (takeWhile (\<lambda>c. c \<noteq> NL) (drop k S)) in
      if n = length S then tb_ateof b \<and> e = tb_ptr b + length S
      else \<not> tb_ateof b \<and> e = tb_ptr b + Suc n)"

lemma length_stream:
  "buf_pre b w \<Longrightarrow> length (stream b w) = tb_full b - tb_ptr b + remaining w"
  by (auto simp: stream_def remaining_def buf_pre_def)

lemma gobble_from_calm:
  assumes "calm env" and "buf_ok b w" and "\<not> tb_ateof b" and "tb_ptr b \<le> a" and "a \<le> tb_full b"
  shows "\<exists>r. gobble_from env a b w = Some r \<and> (out_of_memory env r \<or>
    (\<exists>e b' w'. r = Inr (e, b', w') \<and>
      gobbled (stream b w) (a - tb_ptr b) e b' w' \<and> tc_bytes w' = tc_bytes w \<and> tb_size b \<le> tb_size b'))"
  using assms(2-5)
proof (induction "remaining w" arbitrary: a b w rule: less_induct)
  case less
  define k where "k = a - tb_ptr b"
  define S where "S = stream b w"
  define t where "t = takeWhile (\<lambda>c. c \<noteq> NL) (window a b)"
  have pre: "buf_pre b w" using less.prems(1) by (simp add: buf_ok_def)
  note at = line_end_window [OF less.prems(1,4), folded t_def]
  have S: "drop k S = window a b @ drop (tc_pos w) (tc_bytes w)"
    unfolding k_def S_def by (rule stream_window [OF pre less.prems(3,4)])
  have lw: "length (window a b) = tb_full b - a" by (rule length_window [OF pre])
  have lS: "length S = tb_full b - tb_ptr b + remaining w" unfolding S_def by (rule length_stream [OF pre])
  show ?case
  proof (cases "NL \<in> set (window a b)")
    case True
    have lt: "length t < length (window a b)" unfolding t_def by (rule length_before_NL [OF True])
    have tw: "takeWhile (\<lambda>c. c \<noteq> NL) (drop k S) = t"
      unfolding S t_def using True by (intro takeWhile_append1) auto
    have ka: "a = tb_ptr b + k" using less.prems(3) by (simp add: k_def)
    have "k + length t < length S" "a + length t < tb_full b"
      using lt lw lS ka less.prems(4) by linarith+
    then have "gobbled S k (a + length t + 1) b w"
      using less.prems ka by (simp add: gobbled_def tw Let_def S_def [symmetric])
    moreover have "gobble_from env a b w = Some (Inr (a + length t + 1, b, w))"
      by (subst gobble_from.simps) (simp add: at(1,2) True)
    ultimately show ?thesis unfolding k_def S_def by blast
  next
    case False
    show ?thesis
    proof (cases "out_of_memory env (make_room env a b)")
      case True
      then have "make_room env a b = Inl Abort" "out_of_memory env (Inl Abort :: (nat \<times> termcap_buffer \<times> tc_file) run)"
        by (simp_all add: out_of_memory_def)
      moreover from this(1) have "gobble_from env a b w = Some (Inl Abort)"
        by (subst gobble_from.simps) (simp add: at(1,2) False less.prems(2))
      ultimately show ?thesis by blast
    next
      case enough: False
      obtain a1 b1 where room: "make_room env a b = Inr (a1, b1)" "buf_pre b1 w" "stream b1 w = S"
        "tb_ptr b1 \<le> a1" "a1 \<le> tb_full b1" "a1 - tb_ptr b1 = k" "tb_full b1 < tb_size b1" "\<not> tb_ateof b1"
        "tb_size b \<le> tb_size b1"
        using make_room_spec [OF pre less.prems(3,4), of env] enough less.prems(2) by (auto simp: S_def k_def)
      obtain b2 w2 where rd: "read_on env b1 w = Inr (b2, w2)" "buf_ok b2 w2" "stream b2 w2 = S"
        "tb_ptr b2 = tb_ptr b1" "tb_size b2 = tb_size b1" "tc_bytes w2 = tc_bytes w" "tb_full b1 \<le> tb_full b2"
        "if remaining w = 0 then tb_ateof b2 \<and> tb_full b2 = tb_full b1
         else \<not> tb_ateof b2 \<and> remaining w2 < remaining w"
        using read_on_spec [OF assms(1) room(2,7,8)] room(3) by auto
      have step: "gobble_from env a b w = gobble_from env a1 b2 w2"
        by (subst gobble_from.simps) (simp add: at(1,2) False less.prems(2) room(1) rd(1))
      have pre2: "buf_pre b2 w2" using rd(2) by (simp add: buf_ok_def)
      have a1: "tb_ptr b2 \<le> a1" "a1 \<le> tb_full b2" using room rd by simp_all
      show ?thesis
      proof (cases "remaining w = 0")
        case eof: True
        then have e2: "tb_ateof b2" using rd(8) by simp
        then have r2: "drop (tc_pos w2) (tc_bytes w2) = []" "remaining w2 = 0"
          using pre2 by (simp_all add: buf_pre_def remaining_def)
        have win: "drop k S = window a1 b2"
          using stream_window [OF pre2 a1] r2 rd(3,4) room(6) by simp
        have "drop k S = window a b" using S eof by (simp add: remaining_def)
        with win False have no: "NL \<notin> set (window a1 b2)" by simp
        have tw: "takeWhile (\<lambda>c. c \<noteq> NL) (drop k S) = drop k S"
          unfolding takeWhile_eq_all_conv win using no by metis
        have l2: "length S = tb_full b2 - tb_ptr b2"
          using length_stream [OF pre2] r2 rd(3) by simp
        have "gobble_from env a1 b2 w2 = Some (Inr (tb_full b2, b2, w2))"
          using line_end_window [OF rd(2) a1(2)] no e2
          by (subst gobble_from.simps) simp
        moreover have "gobbled S k (tb_full b2) b2 w2"
          using rd(2,3) e2 l2 a1 room(4,6) rd(4) pre2
          by (simp add: gobbled_def Let_def tw buf_pre_def)
        ultimately show ?thesis
          using step rd(5,6) room(9) by (auto simp: k_def S_def)
      next
        case False
        with rd(8) have "remaining w2 < remaining w" "\<not> tb_ateof b2" by simp_all
        from less.hyps [OF this(1) rd(2) this(2) a1] show ?thesis
          using step rd(3-6) room(6,9) by (auto simp: k_def S_def)
      qed
    qed
  qed
qed

lemma gobble_from_spec:
  assumes "smooth env" and "buf_ok b w" and "\<not> tb_ateof b" and "tb_ptr b \<le> a" and "a \<le> tb_full b"
  shows "\<exists>e b' w'. gobble_from env a b w = Some (Inr (e, b', w')) \<and>
    gobbled (stream b w) (a - tb_ptr b) e b' w' \<and> tc_bytes w' = tc_bytes w \<and> tb_size b \<le> tb_size b'"
  using gobble_from_calm [OF _ assms(2-5), of env] assms(1) by (auto simp: smooth_iff out_of_memory_def)

text \<open>
  The reference: an entry is a line with those that continue it, where a line is continued when a
  backslash is before its newline. The last one may lack the newline, or be empty.
\<close>

function entry_end :: "string \<Rightarrow> nat \<Rightarrow> nat \<times> bool" where
  "entry_end S k =
     (let n = k + length (takeWhile (\<lambda>c. c \<noteq> NL) (drop k S)) in
      if length S \<le> n then (length S, True)
      else if 0 < n \<and> S ! (n - 1) = BACKSLASH then entry_end S (n + 1)
      else (n + 1, False))"
  by pat_completeness auto
termination by (relation "measure (\<lambda>(S, k). length S - k)") (auto simp: Let_def)

declare entry_end.simps [simp del]

lemma entry_end_bounds:
  "k \<le> length S \<Longrightarrow> k \<le> fst (entry_end S k) \<and> fst (entry_end S k) \<le> length S \<and>
    (snd (entry_end S k) \<longrightarrow> fst (entry_end S k) = length S) \<and>
    (\<not> snd (entry_end S k) \<longrightarrow> k < fst (entry_end S k) \<and> S ! (fst (entry_end S k) - 1) = NL \<and>
      (fst (entry_end S k) = 1 \<or> S ! (fst (entry_end S k) - 2) \<noteq> BACKSLASH))"
proof (induction S k rule: entry_end.induct)
  case (1 S k)
  define t where "t = takeWhile (\<lambda>c. c \<noteq> NL) (drop k S)"
  define n where "n = k + length t"
  have at_NL: "S ! n = NL" if "n < length S"
  proof -
    have "length t < length (drop k S)" using that 1(2) by (simp add: n_def)
    then have "drop k S ! length t = NL" unfolding t_def using nth_length_takeWhile by blast
    then show ?thesis using 1(2) by (simp add: n_def)
  qed
  note IH = 1(1) [OF n_def [unfolded t_def]]
  show ?case
  proof (cases "length S \<le> n")
    case True
    then show ?thesis using 1(2) by (subst (1 2 3 4 5 6 7 8 9) entry_end.simps) (simp add: Let_def flip: t_def n_def)
  next
    case False
    have e: "entry_end S k = (if 0 < n \<and> S ! (n - 1) = BACKSLASH then entry_end S (n + 1) else (n + 1, False))"
      using False by (subst entry_end.simps) (simp add: Let_def flip: t_def n_def)
    show ?thesis
    proof (cases "0 < n \<and> S ! (n - 1) = BACKSLASH")
      case True
      then have "entry_end S k = entry_end S (n + 1)" using e by simp
      moreover have "k \<le> n" by (simp add: n_def)
      ultimately show ?thesis using IH False True by auto
    next
      case noc: False
      then have "entry_end S k = (n + 1, False)" by (simp only: e if_False)
      moreover have "k \<le> n" by (simp add: n_def)
      ultimately show ?thesis using at_NL False noc by auto
    qed
  qed
qed

function entries :: "string \<Rightarrow> string list" where
  "entries S =
     (case entry_end S 0 of (e, eof) \<Rightarrow> if eof then [S] else take e S # entries (drop e S))"
  by pat_completeness auto
termination
proof (relation "measure length")
  fix S e eof assume "(e, eof) = entry_end S 0" "\<not> eof"
  then show "(drop e S, S) \<in> measure length"
    using entry_end_bounds [of 0 S] by (cases "entry_end S 0") auto
qed simp

declare entries.simps [simp del]

definition no_blank_line :: "string \<Rightarrow> bool" where
  "no_blank_line S \<longleftrightarrow> (\<forall>i < length S. S ! i = NL \<longrightarrow> 0 < i \<and> S ! (i - 1) \<noteq> NL)"

lemma stream_nth:
  "buf_pre b w \<Longrightarrow> tb_ptr b + i < tb_full b \<Longrightarrow> tb_data b ! (tb_ptr b + i) = stream b w ! i"
  by (auto simp: stream_def buf_pre_def nth_append)

definition scanned :: "string \<Rightarrow> nat \<Rightarrow> bool \<Rightarrow> nat \<Rightarrow> termcap_buffer \<Rightarrow> tc_file \<Rightarrow> bool" where
  "scanned S n eof e b w \<longleftrightarrow>
     buf_ok b w \<and> stream b w = S \<and> e = tb_ptr b + n \<and> e \<le> tb_full b \<and> tb_ateof b = eof"

lemma scan_line_calm:
  assumes "calm env" and "buf_ok b w" and "\<not> tb_ateof b"
    and "tb_ptr b + k \<le> tb_full b" and "k = 0 \<longrightarrow> no_blank_line (stream b w)"
  shows "\<exists>r. scan_line env (if k = 0 then None else Some (tb_ptr b + k)) b w = Some r \<and> (out_of_memory env r \<or>
    (\<exists>e b' w'. r = Inr (e, b', w') \<and>
      scanned (stream b w) (fst (entry_end (stream b w) k)) (snd (entry_end (stream b w) k)) e b' w' \<and>
      tc_bytes w' = tc_bytes w \<and> tb_size b \<le> tb_size b'))"
  using assms(2-5)
proof (induction "length (stream b w) - k" arbitrary: b w k rule: less_induct)
  case less
  define S where "S = stream b w"
  define n where "n = k + length (takeWhile (\<lambda>c. c \<noteq> NL) (drop k S))"
  let ?arg = "if k = 0 then None else Some (tb_ptr b + k)"
  obtain r where r: "gobble_from env (tb_ptr b + k) b w = Some r" "out_of_memory env r \<or> (\<exists>e b1 w1. r = Inr (e, b1, w1) \<and>
      gobbled S k e b1 w1 \<and> tc_bytes w1 = tc_bytes w \<and> tb_size b \<le> tb_size b1)"
    using gobble_from_calm [OF assms(1) less.prems(1,2), of "tb_ptr b + k"] less.prems(3)
    by (auto simp: S_def)
  show ?case
  proof (cases "out_of_memory env r")
    case True
    then have "r = Inl Abort" "out_of_memory env (Inl Abort :: (nat \<times> termcap_buffer \<times> tc_file) run)"
      by (simp_all add: out_of_memory_def)
    moreover from this(1) r(1) have "scan_line env ?arg b w = Some (Inl Abort)"
      by (cases "k = 0") (subst scan_line.simps, simp add: gobble_line_def)+
    ultimately show ?thesis by blast
  next
    case enough: False
    obtain e b1 w1 where g: "gobble_from env (tb_ptr b + k) b w = Some (Inr (e, b1, w1))"
      "gobbled S k e b1 w1" "tc_bytes w1 = tc_bytes w" "tb_size b \<le> tb_size b1" using r enough by blast
    have gl: "gobble_line env ?arg b w = Some (Inr (e, b1, w1))"
      using g(1) by (auto simp: gobble_line_def)
    have b1: "buf_ok b1 w1" "stream b1 w1 = S" "tb_ptr b1 \<le> e" "e \<le> tb_full b1"
      and eof: "n = length S \<longrightarrow> tb_ateof b1 \<and> e = tb_ptr b1 + length S"
      and noeof: "n \<noteq> length S \<longrightarrow> \<not> tb_ateof b1 \<and> e = tb_ptr b1 + Suc n"
      using g(2) by (auto simp: gobbled_def Let_def n_def split: if_splits)
    have pre1: "buf_pre b1 w1" using b1(1) by (simp add: buf_ok_def)
    have "k \<le> length S"
      using less.prems(1,3) length_stream [of b w] by (simp add: S_def buf_ok_def)
    then have nS: "n \<le> length S"
      unfolding n_def by (metis add_le_cancel_left length_drop length_takeWhile_le le_add_diff_inverse)
    show ?thesis
    proof (cases "n = length S")
      case True
      then have "entry_end S k = (length S, True)"
        by (subst entry_end.simps) (simp add: Let_def flip: n_def)
      moreover have "scan_line env ?arg b w = Some (Inr (e, b1, w1))"
        using gl eof True by (subst scan_line.simps) simp
      ultimately show ?thesis
        using b1 eof True g(3,4) by (auto simp: scanned_def S_def)
    next
      case False
      then have ne: "\<not> tb_ateof b1" "e = tb_ptr b1 + Suc n" using noeof by simp_all
      have pos: "0 < n"
      proof (rule ccontr)
        assume "\<not> 0 < n"
        then have "k = 0" "takeWhile (\<lambda>c. c \<noteq> NL) S = []" "S \<noteq> []"
          using False by (auto simp: n_def)
        then have "S ! 0 = NL" by (cases S) (auto split: if_splits)
        with less.prems(4) \<open>k = 0\<close> \<open>S \<noteq> []\<close> show False
          by (auto simp: no_blank_line_def S_def)
      qed
      have prev: "tb_data b1 ! (e - 2) = S ! (n - 1)"
        using stream_nth [OF pre1, of "n - 1"] pos ne(2) b1(2,4) by simp
      have e2: "\<not> e < 2" using ne(2) pos by simp
      have step: "scan_line env ?arg b w =
          (if S ! (n - 1) = BACKSLASH then scan_line env (Some e) b1 w1 else Some (Inr (e, b1, w1)))"
        using gl ne(1) e2 prev by (subst scan_line.simps) simp
      have ee: "entry_end S k = (if S ! (n - 1) = BACKSLASH then entry_end S (n + 1) else (n + 1, False))"
        using False nS pos by (subst entry_end.simps) (simp add: Let_def flip: n_def)
      show ?thesis
      proof (cases "S ! (n - 1) = BACKSLASH")
        case True
        have "length S - Suc n < length S - k" using False nS by (simp add: n_def)
        from less.hyps [of b1 w1 "Suc n"] this b1 ne True g(3,4)
        show ?thesis unfolding step ee S_def [symmetric] by auto
      next
        case noc: False
        then show ?thesis
          unfolding step ee S_def [symmetric] using b1 ne g(3,4) by (auto simp: scanned_def)
      qed
    qed
  qed
qed

section \<open>The first matching entry\<close>

text \<open>What follows an entry does not matter for its names.\<close>

lemma unfold_before_NL:
  "y = [] \<or> last y \<noteq> BACKSLASH \<Longrightarrow> unfold_cont (y @ NL # r) = unfold_cont y @ NL # unfold_cont r"
proof (induction y rule: unfold_cont.induct)
  case 1
  then show ?case by simp
next
  case (2 c y)
  show ?case
  proof (cases "c = BACKSLASH \<and> y \<noteq> [] \<and> hd y = NL")
    case True
    then obtain z where y: "y = NL # z" by (cases y) auto
    have dw: "dropWhile blank (z @ NL # r) = dropWhile blank z @ NL # r"
      by (induction z) (simp_all add: blank_def)
    have "dropWhile blank z = [] \<or> last (dropWhile blank z) \<noteq> BACKSLASH"
    proof (cases "dropWhile blank z = []")
      case ne: False
      have "last z = last (takeWhile blank z @ dropWhile blank z)" by simp
      also have "\<dots> = last (dropWhile blank z)" using ne by (simp only: last_append if_False)
      finally have "last (dropWhile blank z) = last z" by simp
      moreover have "z \<noteq> []" using ne by auto
      ultimately show ?thesis using 2(3) y by simp
    qed simp
    with 2(1) [OF True] True y dw show ?thesis by simp
  next
    case False
    then have "\<not> (c = BACKSLASH \<and> y @ NL # r \<noteq> [] \<and> hd (y @ NL # r) = NL)"
      using 2(3) by (cases y) auto
    moreover have "y = [] \<or> last y \<noteq> BACKSLASH" using 2(3) by (cases y) auto
    ultimately show ?thesis using 2(2) [OF False] False by auto
  qed
qed

lemma name_prefix_before_NL: "NL \<notin> set n \<Longrightarrow> name_prefix (u @ NL # v) n = name_prefix u n"
proof (induction u arbitrary: n)
  case Nil
  then show ?case by (cases n) auto
next
  case (Cons c u)
  then show ?case by (cases n) auto
qed

lemma has_name_before_NL:
  assumes "y = [] \<or> last y \<noteq> BACKSLASH" and "NL \<notin> set name"
  shows "has_name (y @ NL # r) name = has_name y name"
proof -
  have field: "name_field (y @ NL # r) = name_field y"
    by (induction y) (simp_all add: name_field_def)
  have le: "length (name_field y) \<le> length y" by (simp add: name_field_def length_takeWhile_le)
  have "name_prefix (unfold_cont (drop i (y @ NL # r))) name = name_prefix (unfold_cont (drop i y)) name"
    if "i \<le> length y" for i
  proof -
    have "drop i y = [] \<or> last (drop i y) \<noteq> BACKSLASH"
      using assms(1) by (cases "drop i y = []") auto
    then show ?thesis
      using that by (simp add: unfold_before_NL name_prefix_before_NL [OF assms(2)])
  qed
  note pre = this
  have later: "(\<exists>i < length (name_field y). (y @ NL # r) ! i = CHR ''|'' \<and>
        name_prefix (unfold_cont (drop (Suc i) (y @ NL # r))) name) =
      (\<exists>i < length (name_field y). y ! i = CHR ''|'' \<and> name_prefix (unfold_cont (drop (Suc i) y)) name)"
  proof (rule ex_cong1, rule conj_cong [OF refl])
    fix i assume "i < length (name_field y)"
    then have "(y @ NL # r) ! i = y ! i" "Suc i \<le> length y" using le by (simp_all add: nth_append)
    then show "((y @ NL # r) ! i = CHR ''|'' \<and> name_prefix (unfold_cont (drop (Suc i) (y @ NL # r))) name) =
        (y ! i = CHR ''|'' \<and> name_prefix (unfold_cont (drop (Suc i) y)) name)"
      by (simp only: pre)
  qed
  have "name_prefix (unfold_cont (y @ NL # r)) name = name_prefix (unfold_cont y) name"
    using pre [of 0] by (simp only: drop0 zero_le)
  then show ?thesis unfolding has_name_def field later by simp
qed

definition is_entry_of :: "string \<Rightarrow> string \<Rightarrow> bool" where
  "is_entry_of name x \<longleftrightarrow> x \<noteq> [] \<and> hd x \<noteq> CHR ''#'' \<and> has_name x name"

lemma line_matches_entry:
  assumes "NUL \<notin> set name"
  shows "line_matches s name = Inr (is_entry_of name s)"
proof (cases s)
  case Nil
  then show ?thesis
    using name_match_has_name [OF assms, of "[]"]
    by (simp add: line_matches_def is_entry_of_def cstr_simps has_name_def name_field_def)
next
  case (Cons c s')
  then show ?thesis
    using name_match_has_name [OF assms, of s]
    by (simp add: line_matches_def is_entry_of_def cstr_simps)
qed

lemma entry_tail:
  assumes "entry_end S 0 = (e, False)" and "NL \<notin> set name"
  shows "is_entry_of name (take e S @ r) = is_entry_of name (take e S)"
proof -
  define y where "y = take (e - 1) S"
  have e: "0 < e" "e \<le> length S" "S ! (e - 1) = NL" "e = 1 \<or> S ! (e - 2) \<noteq> BACKSLASH"
    using entry_end_bounds [of 0 S] assms(1) by auto
  have x: "take e S = y @ [NL]"
    using take_Suc_eq_snoc [of "e - 1" S] e by (simp add: y_def)
  have "y = [] \<or> last y \<noteq> BACKSLASH"
    using e by (auto simp: y_def last_conv_nth eval_nat_numeral)
  then have "has_name (y @ NL # r') name = has_name y name" for r'
    using has_name_before_NL assms(2) by blast
  moreover have "hd ((y @ [NL]) @ r) = hd (y @ [NL])" by (cases y) simp_all
  ultimately show ?thesis unfolding x is_entry_of_def by simp
qed

lemma buffer_string_window:
  assumes "buf_ok b w"
  shows "buffer_string b = Inr (window (tb_ptr b) b)"
proof -
  have pre: "buf_pre b w" and end_NUL: "tb_data b ! tb_full b = NUL"
    using assms by (simp_all add: buf_ok_def)
  note p = pre [unfolded buf_pre_def]
  have "drop (tb_ptr b) (tb_data b) = window (tb_ptr b) b @ drop (tb_full b - tb_ptr b) (drop (tb_ptr b) (tb_data b))"
    by (simp only: window_def append_take_drop_id)
  also have "drop (tb_full b - tb_ptr b) (drop (tb_ptr b) (tb_data b)) = drop (tb_full b) (tb_data b)"
    using p by (simp add: add.commute)
  also have "\<dots> = NUL # drop (Suc (tb_full b)) (tb_data b)"
    using p end_NUL by (metis Cons_nth_drop_Suc less_add_one order_le_less_trans)
  finally have d: "drop (tb_ptr b) (tb_data b) = window (tb_ptr b) b @ NUL # drop (Suc (tb_full b)) (tb_data b)" .
  have "NUL \<notin> set (window (tb_ptr b) b)"
  proof
    assume "NUL \<in> set (window (tb_ptr b) b)"
    then obtain i where "i < length (window (tb_ptr b) b)" "window (tb_ptr b) b ! i = NUL"
      by (auto simp: in_set_conv_nth)
    moreover from this(1) have "tb_ptr b + i < tb_full b" using length_window [OF pre, of "tb_ptr b"] by simp
    ultimately show False using nth_window [OF pre] data_not_NUL [OF pre] by metis
  qed
  then show ?thesis by (simp add: buffer_string_def d cstr_of_append_NUL)
qed

text \<open>The entry stands in the buffer, and what follows it does not belong to it.\<close>

definition holds_entry :: "string \<Rightarrow> termcap_buffer \<Rightarrow> bool" where
  "holds_entry x b \<longleftrightarrow>
     (\<exists>r. window (tb_ptr b) b = x @ r \<and>
       (r = [] \<or> (\<exists>y. x = y @ [NL] \<and> (y = [] \<or> last y \<noteq> BACKSLASH))))"

lemma no_blank_line_drop:
  assumes "no_blank_line S" and "0 < e" and "e \<le> length S" and "S ! (e - 1) = NL"
  shows "no_blank_line (drop e S)"
  unfolding no_blank_line_def
proof (intro allI impI)
  fix i assume i: "i < length (drop e S)" "drop e S ! i = NL"
  then have "S ! (e + i) = NL" by simp
  then have "S ! (e + i - 1) \<noteq> NL" using assms(1) i by (simp add: no_blank_line_def)
  then show "0 < i \<and> drop e S ! (i - 1) \<noteq> NL"
    using assms(2-4) i by (cases i) auto
qed

lemma scan_entries_calm:
  assumes "calm env" and "NUL \<notin> set name" and "NL \<notin> set name"
    and "buf_ok b w" and "\<not> tb_ateof b" and "no_blank_line (stream b w)"
  shows "\<exists>r. scan_entries env name b w = Some r \<and> (out_of_memory env r \<or>
    (\<exists>b' w'. r = Inr (find (is_entry_of name) (entries (stream b w)) \<noteq> None, b', w') \<and>
      buf_ok b' w' \<and> tc_bytes w' = tc_bytes w \<and> tb_size b \<le> tb_size b' \<and>
      (\<forall>x. find (is_entry_of name) (entries (stream b w)) = Some x \<longrightarrow> holds_entry x b')))"
  using assms(4-6)
proof (induction "length (stream b w)" arbitrary: b w rule: less_induct)
  case less
  define S where "S = stream b w"
  obtain n eof where ee: "entry_end S 0 = (n, eof)" by (cases "entry_end S 0")
  note bounds = entry_end_bounds [of 0 S, simplified ee, simplified]
  have ptr: "tb_ptr b + 0 \<le> tb_full b" using less.prems(1) by (simp add: buf_ok_def buf_pre_def)
  obtain r where r: "scan_line env None b w = Some r" "out_of_memory env r \<or> (\<exists>e b1 w1. r = Inr (e, b1, w1) \<and>
      scanned S n eof e b1 w1 \<and> tc_bytes w1 = tc_bytes w \<and> tb_size b \<le> tb_size b1)"
    using scan_line_calm [OF assms(1) less.prems(1,2) ptr] less.prems(3) ee by (auto simp: S_def)
  show ?case
  proof (cases "out_of_memory env r")
    case True
    then have "r = Inl Abort" "out_of_memory env (Inl Abort :: (bool \<times> termcap_buffer \<times> tc_file) run)"
      by (simp_all add: out_of_memory_def)
    moreover from this(1) r(1) have "scan_entries env name b w = Some (Inl Abort)"
      using less.prems(2) by (subst scan_entries.simps) simp
    ultimately show ?thesis by blast
  next
    case enough: False
    obtain e b1 w1 where sc: "scan_line env None b w = Some (Inr (e, b1, w1))"
      "scanned S n eof e b1 w1" "tc_bytes w1 = tc_bytes w" "tb_size b \<le> tb_size b1" using r enough by blast
    have b1: "buf_ok b1 w1" "stream b1 w1 = S" "e = tb_ptr b1 + n" "e \<le> tb_full b1" "tb_ateof b1 = eof"
      using sc(2) by (auto simp: scanned_def)
    have pre1: "buf_pre b1 w1" using b1(1) by (simp add: buf_ok_def)
    define V where "V = window (tb_ptr b1) b1"
    have SV: "S = V @ drop (tc_pos w1) (tc_bytes w1)"
      using stream_window [OF pre1, of "tb_ptr b1"] pre1 b1(2) by (simp add: V_def buf_pre_def)
    have lV: "length V = tb_full b1 - tb_ptr b1" unfolding V_def by (rule length_window [OF pre1])
    have VS: "take n V = take n S" using b1(3,4) lV by (simp add: SV)
    have match: "bind_run (buffer_string b1) (\<lambda>s. line_matches s name) = Inr (is_entry_of name V)"
      using buffer_string_window [OF b1(1)] line_matches_entry [OF assms(2)] by (simp add: V_def)
    define x where "x = (if eof then S else take n S)"
    have Vx: "is_entry_of name V = is_entry_of name x \<and> holds_entry x b1"
    proof (cases eof)
      case True
      then have "tc_pos w1 = length (tc_bytes w1)" using b1(5) pre1 by (simp add: buf_pre_def)
      then have "V = S" by (simp add: SV)
      with True show ?thesis by (auto simp: x_def holds_entry_def V_def)
    next
      case False
      have V: "V = take n S @ drop n V" using VS by (metis append_take_drop_id)
      have e: "0 < n" "n \<le> length S" "S ! (n - 1) = NL" "n = 1 \<or> S ! (n - 2) \<noteq> BACKSLASH"
        using bounds False by auto
      have "take n S = take (n - 1) S @ [NL]" using take_Suc_eq_snoc [of "n - 1" S] e by simp
      moreover have "take (n - 1) S = [] \<or> last (take (n - 1) S) \<noteq> BACKSLASH"
        using e by (auto simp: last_conv_nth eval_nat_numeral)
      ultimately have "holds_entry x b1"
        using V False unfolding holds_entry_def x_def V_def by (intro exI [of _ "drop n V"]) (auto simp: V_def)
      moreover have "is_entry_of name V = is_entry_of name x"
        using entry_tail [of S n name "drop n V"] ee False assms(3) V by (simp add: x_def)
      ultimately show ?thesis by blast
    qed
    have ent: "entries S = x # (if eof then [] else entries (drop n S))"
      by (subst entries.simps) (simp add: ee x_def)
    have run: "scan_entries env name b w =
        (if is_entry_of name x then Some (Inr (True, b1, w1))
         else scan_entries env name (b1\<lparr>tb_ptr := e\<rparr>) w1)"
      using less.prems(2) sc(1) match Vx by (subst scan_entries.simps) simp
    show ?thesis
    proof (cases "is_entry_of name x")
      case True
      then show ?thesis
        unfolding run S_def [symmetric] ent using b1(1) sc(3,4) Vx by auto
    next
      case no: False
      define b2 where "b2 = b1\<lparr>tb_ptr := e\<rparr>"
      have ok2: "buf_ok b2 w1" using b1 by (simp add: b2_def buf_ok_def buf_pre_def)
      show ?thesis
      proof (cases eof)
        case True
        then have "scan_entries env name b2 w1 = Some (Inr (False, b2, w1))"
          using b1(5) by (subst scan_entries.simps) (simp add: b2_def)
        with no True ok2 sc(3,4) show ?thesis
          unfolding run S_def [symmetric] ent by (auto simp: b2_def)
      next
        case False
        have "stream b2 w1 = window e b1 @ drop (tc_pos w1) (tc_bytes w1)"
          by (simp add: b2_def stream_def window_def)
        then have st2: "stream b2 w1 = drop n S"
          using stream_window [OF pre1, of e] b1(2-4) by simp
        have "0 < n" "n \<le> length S" "S ! (n - 1) = NL" using bounds False by auto
        then have nb: "no_blank_line (stream b2 w1)" and len: "length (stream b2 w1) < length S"
          using no_blank_line_drop less.prems(3) by (simp_all add: st2 S_def)
        have "\<not> tb_ateof b2" using b1(5) False by (simp add: b2_def)
        from less.hyps [of b2 w1] len ok2 this nb no False sc(3,4) show ?thesis
          unfolding run S_def [symmetric] ent st2 by (auto simp: b2_def)
      qed
    qed
  qed
qed

lemma scan_file_calm:
  assumes "calm env" and "NUL \<notin> set name" and "NL \<notin> set name"
    and "NUL \<notin> set (tc_bytes w)" and "no_blank_line (tc_bytes w)"
    and "length (tb_data b) = tb_size b + 1" and "0 < tb_size b"
  shows "\<exists>r. scan_file env name b w = Some r \<and> (out_of_memory env r \<or>
    (\<exists>b' w'. r = Inr (find (is_entry_of name) (entries (tc_bytes w)) \<noteq> None, b', w') \<and>
      buf_ok b' w' \<and> tc_bytes w' = tc_bytes w \<and> tb_size b \<le> tb_size b' \<and>
      (\<forall>x. find (is_entry_of name) (entries (tc_bytes w)) = Some x \<longrightarrow> holds_entry x b')))"
proof -
  define b0 where "b0 = b\<lparr>tb_ptr := 0, tb_full := 0, tb_ateof := False, tb_data := (tb_data b)[0 := NUL]\<rparr>"
  define w0 where "w0 = w\<lparr>tc_pos := 0\<rparr>"
  have ok: "buf_ok b0 w0"
    using assms(4,6,7) by (simp add: buf_ok_def buf_pre_def b0_def w0_def)
  have st: "stream b0 w0 = tc_bytes w" by (simp add: stream_def b0_def w0_def)
  have "\<not> tb_ateof b0" by (simp add: b0_def)
  from scan_entries_calm [OF assms(1-3) ok this] assms(5) show ?thesis
    unfolding scan_file_def b0_def [symmetric] w0_def [symmetric] st
    by (simp add: b0_def w0_def)
qed

lemma scan_file_spec:
  assumes "smooth env" and "NUL \<notin> set name" and "NL \<notin> set name"
    and "NUL \<notin> set (tc_bytes w)" and "no_blank_line (tc_bytes w)"
    and "length (tb_data b) = tb_size b + 1" and "0 < tb_size b"
  shows "\<exists>b' w'. scan_file env name b w =
      Some (Inr (find (is_entry_of name) (entries (tc_bytes w)) \<noteq> None, b', w')) \<and>
    buf_ok b' w' \<and> tc_bytes w' = tc_bytes w \<and> tb_size b \<le> tb_size b' \<and>
    (\<forall>x. find (is_entry_of name) (entries (tc_bytes w)) = Some x \<longrightarrow> holds_entry x b')"
  using scan_file_calm [OF _ assms(2-7), of env] assms(1) by (auto simp: smooth_iff out_of_memory_def)

text \<open>
  C10: \<open>scan_file\<close> implements the search of the file's entries in order. For a file without blank lines
  and NUL bytes, whatever the sizes in which it is read and wherever the buffer has to be moved or
  enlarged, it finds an entry exactly when one has the name, and then the first such entry stands at
  \<open>bufp->ptr\<close>.
\<close>

theorem scan_file_refines:
  assumes "smooth env" and "NUL \<notin> set name" and "NL \<notin> set name"
    and "NUL \<notin> set (tc_bytes w)" and "no_blank_line (tc_bytes w)"
    and "length (tb_data b) = tb_size b + 1" and "0 < tb_size b"
  shows "\<exists>b' w'. scan_file env name b w =
      Some (Inr (find (is_entry_of name) (entries (tc_bytes w)) \<noteq> None, b', w')) \<and>
    (\<forall>x. find (is_entry_of name) (entries (tc_bytes w)) = Some x \<longrightarrow> (\<exists>r. buffer_string b' = Inr (x @ r)))"
  using scan_file_spec [OF assms] buffer_string_window by (fastforce simp: holds_entry_def)

definition smooth_env :: "(string \<Rightarrow> string option) \<Rightarrow> nat \<Rightarrow> tc_env" where
  "smooth_env files n =
     \<lparr>env_file = files, env_TERMCAP = None, env_TERM = None, env_give = \<lambda>_. n, env_fail = \<lambda>_. False,
      env_mem = \<lambda>_. True, env_junk = CHR ''J''\<rparr>"

lemma smooth_smooth_env [simp]: "smooth (smooth_env files n)"
  by (simp add: smooth_def smooth_env_def)

theorem scan_file_refines_witness:
  "\<exists>b' w'. scan_file (smooth_env (\<lambda>_. None) 3) ''b''
      \<lparr>tb_data = replicate 5 (CHR ''J''), tb_size = 4, tb_ptr = 0, tb_ateof = False, tb_full = 0\<rparr>
      \<lparr>tc_bytes = ''a:'' @ [NL] @ ''b:x:'' @ [NL], tc_pos = 0, tc_reads = 0\<rparr> = Some (Inr (True, b', w'))"
proof -
  have en: "entries (''a:'' @ [NL] @ ''b:x:'' @ [NL]) = [''a:'' @ [NL], ''b:x:'' @ [NL], []]"
    by (simp add: entries.simps entry_end.simps Let_def)
  have "no_blank_line (''a:'' @ [NL] @ ''b:x:'' @ [NL])"
    by (simp add: no_blank_line_def All_less_Suc nth_Cons')
  moreover have "find (is_entry_of ''b'') (entries (''a:'' @ [NL] @ ''b:x:'' @ [NL])) = Some (''b:x:'' @ [NL])"
    unfolding en by (simp add: is_entry_of_def has_name_def name_field_def)
  ultimately show ?thesis
    using scan_file_refines [of "smooth_env (\<lambda>_. None) 3" "''b''"
        "\<lparr>tc_bytes = ''a:'' @ [NL] @ ''b:x:'' @ [NL], tc_pos = 0, tc_reads = 0\<rparr>"
        "\<lparr>tb_data = replicate 5 (CHR ''J''), tb_size = 4, tb_ptr = 0, tb_ateof = False, tb_full = 0\<rparr>"]
    by auto
qed

section \<open>The entry that is found\<close>

text \<open>An entry up to its newline, without the backslash and newline of each continuation.\<close>

fun joined :: "string \<Rightarrow> string" where
  "joined [] = []"
| "joined [c] = [c]"
| "joined (c # d # s) =
     (if c = NL then [NL] else if c = BACKSLASH \<and> d = NL then joined s else c # joined (d # s))"

lemma length_joined: "length (joined s) \<le> length s"
  by (induction s rule: joined.induct) auto

lemma set_joined: "set (joined s) \<subseteq> set s"
  by (induction s rule: joined.induct) auto

lemma joined_tail:
  "y = [] \<or> last y \<noteq> BACKSLASH \<Longrightarrow> joined ((y @ [NL]) @ r) = joined (y @ [NL])"
proof (induction y rule: joined.induct)
  case 1
  then show ?case by (cases r) simp_all
next
  case (2 c)
  then show ?case by (cases r) auto
next
  case (3 c d s)
  then show ?case by (auto split: if_splits)
qed

lemma drop_Cons_facts:
  assumes "drop p data = c # s"
  shows "p < length data" "data ! p = c" "drop (Suc p) data = s"
proof -
  show "p < length data" using assms by (metis drop_eq_Nil2 list.distinct(1) not_le)
  then show "data ! p = c" "drop (Suc p) data = s" using assms by (metis Cons_nth_drop_Suc list.inject)+
qed

lemma copy_entry_joined:
  assumes "drop p data = V @ NUL # rest" and "NUL \<notin> set V" and "length out + length (joined V) + 1 < room"
  shows "\<exists>z. copy_entry room data p out = Inr (out @ joined V @ z) \<and>
    (z = [] \<or> z = [NUL] \<and> (joined V = [] \<or> last (joined V) \<noteq> NL))"
  using assms
proof (induction V arbitrary: p out rule: joined.induct)
  case 1
  note d = drop_Cons_facts [of p data NUL rest]
  show ?case
    using 1 d by (subst copy_entry.simps) (simp add: Let_def)
next
  case (2 c)
  note d = drop_Cons_facts [of p data c "NUL # rest"]
  note d' = drop_Cons_facts [of "Suc p" data NUL rest]
  have e: "copy_entry room data (Suc p) (out @ [c]) = Inr (out @ [c] @ [NUL])"
    using 2 d d' by (subst copy_entry.simps) (simp add: Let_def)
  show ?case
    using 2 d d' e by (subst copy_entry.simps) (auto simp: Let_def)
next
  case (3 c d s)
  note f = drop_Cons_facts [of p data c "d # s @ NUL # rest"]
  have facts: "p < length data" "data ! p = c" "drop (Suc p) data = (d # s) @ NUL # rest"
    using 3(3) f by simp_all
  have facts2: "Suc p < length data" "data ! Suc p = d" "drop (Suc (Suc p)) data = s @ NUL # rest"
    using drop_Cons_facts [of "Suc p" data d "s @ NUL # rest"] facts(3) by simp_all
  show ?case
  proof (cases "c = NL")
    case True
    with 3(4,5) facts show ?thesis by (subst copy_entry.simps) (simp add: Let_def)
  next
    case no: False
    show ?thesis
    proof (cases "c = BACKSLASH \<and> d = NL")
      case True
      with 3(1) [OF no True facts2(3)] 3(4,5) facts facts2 no show ?thesis
        by (subst copy_entry.simps) (simp add: Let_def)
    next
      case False
      with 3(2) [OF no False facts(3), of "out @ [c]"] 3(4,5) facts facts2 no show ?thesis
        by (subst copy_entry.simps) (auto simp: Let_def)
    qed
  qed
qed

lemma window_drop:
  assumes "buf_ok b w"
  shows "drop (tb_ptr b) (tb_data b) = window (tb_ptr b) b @ NUL # drop (Suc (tb_full b)) (tb_data b)"
    and "NUL \<notin> set (window (tb_ptr b) b)"
proof -
  have b: "cstr_of (drop (tb_ptr b) (tb_data b)) = Some (window (tb_ptr b) b)"
    using buffer_string_window [OF assms] by (simp add: buffer_string_def split: option.splits)
  note c = cstr_of_Some [OF b]
  show "NUL \<notin> set (window (tb_ptr b) b)" by (rule conjunct1 [OF c])
  obtain r where r: "drop (tb_ptr b) (tb_data b) = window (tb_ptr b) b @ NUL # r"
    by (rule exE [OF conjunct2 [OF c]])
  have len: "tb_ptr b + length (window (tb_ptr b) b) = tb_full b"
    using assms length_window [of b w] by (simp add: buf_ok_def buf_pre_def)
  have "Suc (length (window (tb_ptr b) b)) + tb_ptr b = Suc (tb_full b)" using len by simp
  then have "drop (Suc (tb_full b)) (tb_data b) = drop (Suc (length (window (tb_ptr b) b))) (drop (tb_ptr b) (tb_data b))"
    by (simp only: drop_drop)
  also have "\<dots> = r" by (simp add: r)
  finally show "drop (tb_ptr b) (tb_data b) = window (tb_ptr b) b @ NUL # drop (Suc (tb_full b)) (tb_data b)"
    using r by simp
qed

lemma joined_window:
  assumes "holds_entry x b"
  shows "joined (window (tb_ptr b) b) = joined x"
proof -
  obtain r where r: "window (tb_ptr b) b = x @ r" "r = [] \<or> (\<exists>y. x = y @ [NL] \<and> (y = [] \<or> last y \<noteq> BACKSLASH))"
    using assms unfolding holds_entry_def by (elim exE conjE) (rule that)
  from r(2) show ?thesis
  proof (elim disjE exE conjE)
    fix y assume "x = y @ [NL]" "y = []"
    then show ?thesis using r(1) joined_tail [of y r] by simp
  next
    fix y assume "x = y @ [NL]" "last y \<noteq> BACKSLASH"
    then show ?thesis using r(1) joined_tail [of y r] by simp
  qed (simp add: r(1))
qed

lemma copy_found_entry:
  assumes "buf_ok b w" and "holds_entry x b" and "length out + length x + 1 < room"
  shows "\<exists>z. copy_entry room (tb_data b) (tb_ptr b) out = Inr (out @ joined x @ z) \<and>
    (z = [] \<or> z = [NUL] \<and> (joined x = [] \<or> last (joined x) \<noteq> NL)) \<and> NUL \<notin> set (joined x)"
proof -
  let ?V = "window (tb_ptr b) b"
  have j: "joined ?V = joined x" by (rule joined_window [OF assms(2)])
  have "length out + length (joined ?V) + 1 < room"
    unfolding j using assms(3) length_joined [of x] by linarith
  from copy_entry_joined [OF window_drop [OF assms(1)] this]
  obtain z where "copy_entry room (tb_data b) (tb_ptr b) out = Inr (out @ joined x @ z)"
    "z = [] \<or> z = [NUL] \<and> (joined x = [] \<or> last (joined x) \<noteq> NL)"
    unfolding j by blast
  moreover have "NUL \<notin> set (joined x)"
    using set_joined [of ?V] window_drop(2) [OF assms(1)] unfolding j by blast
  ultimately show ?thesis by blast
qed

lemma c_string_simps:
  assumes "NUL \<notin> set s"
  shows "c_string s = s" "c_string (s @ [NUL]) = s"
proof -
  have "\<forall>c \<in> set s. c \<noteq> NUL" using assms by metis
  then show "c_string s = s" "c_string (s @ [NUL]) = s"
    by (simp_all add: c_string_def takeWhile_append2)
qed

lemma c_string_NUL: "NUL \<notin> set s \<Longrightarrow> z = [] \<or> z = [NUL] \<Longrightarrow> c_string (s @ z) = s"
  using c_string_simps [of s] by (elim disjE) simp_all

text \<open>
  C26: \<open>tgetent\<close>, called with a null block and no \<open>TERMCAP\<close> variable, on a file without blank lines whose
  entries are short enough for the buffer: it returns 0 and leaves \<open>term_entry\<close> when no entry has the
  name; otherwise it returns 1 and \<open>term_entry\<close> is the first such entry, its continuations joined, when
  that does not refer to another entry. It always returns.
\<close>

theorem tgetent_file:
  assumes "smooth env" and "NUL \<notin> set name" and "NL \<notin> set name"
    and "env_TERMCAP env = None" and "env_file env TERMCAP_FILE = Some bytes"
    and "NUL \<notin> set bytes" and "no_blank_line bytes" and "\<forall>x \<in> set (entries bytes). length x + 1 < BUFSIZE"
    and "\<forall>x. find (is_entry_of name) (entries bytes) = Some x \<longrightarrow> find_capability (joined x) ''tc'' = Inr None"
  shows "tgetent env None name te = Some (Inr
    (case find (is_entry_of name) (entries bytes) of
       None \<Rightarrow> (0, te)
     | Some x \<Rightarrow> (1, Some (joined x))))"
proof -
  let ?b = "\<lparr>tb_data = replicate (BUFSIZE + 1) (env_junk env), tb_size = BUFSIZE, tb_ptr = 0,
    tb_ateof = False, tb_full = 0\<rparr>"
  let ?w = "\<lparr>tc_bytes = bytes, tc_pos = 0, tc_reads = 0\<rparr>"
  let ?find = "find (is_entry_of name) (entries bytes)"
  have mem: "env_mem env n" for n using assms(1) by (simp add: smooth_def)
  obtain b' w' where sc: "scan_file env name ?b ?w = Some (Inr (?find \<noteq> None, b', w'))"
    "buf_ok b' w'" "BUFSIZE \<le> tb_size b'" "\<forall>x. ?find = Some x \<longrightarrow> holds_entry x b'"
    using scan_file_spec [OF assms(1-3), of ?w ?b] assms(6,7) by (auto simp: BUFSIZE_def)
  have run: "tgetent env None name te = (case tc_loop env True name BUFSIZE 0 [] ?b ?w of
       None \<Rightarrow> None
     | Some (Inl f) \<Rightarrow> Some (Inl f)
     | Some (Inr (found, out, w)) \<Rightarrow>
         Some (Inr (if found then (1, Some (c_string out)) else (0, te))))"
    by (simp add: tgetent_def assms(4) search_file_def assms(5) mem Let_def split: option.splits sum.splits prod.splits)
  show ?thesis
  proof (cases ?find)
    case None
    with sc(1) have "tc_loop env True name BUFSIZE 0 [] ?b ?w = Some (Inr (False, [], w'))"
      by (subst tc_loop.simps) simp
    with None show ?thesis by (simp add: run)
  next
    case (Some x)
    then have "x \<in> set (entries bytes)" by (metis find_Some_iff nth_mem)
    then have "length ([] :: string) + length x + 1 < tb_size b'" using assms(8) sc(3) by fastforce
    from copy_found_entry [OF sc(2) _ this] sc(4) Some obtain z
      where cp: "copy_entry (tb_size b') (tb_data b') (tb_ptr b') [] = Inr (joined x @ z)"
        "z = [] \<or> z = [NUL]" "NUL \<notin> set (joined x)" by auto
    have cs: "c_string (joined x @ z) = joined x" by (rule c_string_NUL [OF cp(3,2)])
    have "tc_reference env 0 (joined x @ z) = Inr None"
      using assms(9) Some by (simp add: tc_reference_def cs Let_def tgetst1_def)
    with cp(1) sc(1) Some mem have "tc_loop env True name BUFSIZE 0 [] ?b ?w = Some (Inr (True, joined x @ z, w'))"
      by (subst tc_loop.simps) (simp add: Let_def)
    then show ?thesis using Some by (simp add: run cs)
  qed
qed

theorem tgetent_file_witness:
  "tgetent (smooth_env (\<lambda>f. if f = TERMCAP_FILE then Some (''a:x:'' @ [NL]) else None) 5) None ''a'' None =
    Some (Inr (1, Some (''a:x:'' @ [NL])))"
proof -
  have en: "entries (''a:x:'' @ [NL]) = [''a:x:'' @ [NL], []]"
    by (simp add: entries.simps entry_end.simps Let_def)
  have "no_blank_line (''a:x:'' @ [NL])"
    by (simp add: no_blank_line_def All_less_Suc nth_Cons')
  moreover have "find (is_entry_of ''a'') (entries (''a:x:'' @ [NL])) = Some (''a:x:'' @ [NL])"
    unfolding en by (simp add: is_entry_of_def has_name_def name_field_def)
  moreover have "\<forall>x \<in> set (entries (''a:x:'' @ [NL])). length x + 1 < BUFSIZE"
    unfolding en by (simp add: BUFSIZE_def)
  ultimately show ?thesis
    using tgetent_file [of "smooth_env (\<lambda>f. if f = TERMCAP_FILE then Some (''a:x:'' @ [NL]) else None) 5"
        "''a''" "''a:x:'' @ [NL]" None]
    by (simp add: smooth_env_def smooth_def capability_here_iff)
qed

section \<open>References in a circle\<close>



















section \<open>Two faults of the scan\<close>

lemma make_room_ptr: "make_room env a b = Inr (a', b') \<Longrightarrow> tb_ptr b' = 0"
  by (auto simp: make_room_def Let_def split: if_splits)

lemma read_on_ptr: "read_on env b w = Inr (b', w') \<Longrightarrow> tb_ptr b' = tb_ptr b"
  by (auto simp: read_on_def Let_def split: option.splits prod.splits if_splits)

lemma gobble_from_ptr:
  assumes "gobble_from env a b w = Some (Inr (e, b', w'))" and "tb_ptr b = 0"
  shows "tb_ptr b' = 0"
proof -
  have "\<forall>e b' w'. Inr (e, b', w') = r \<longrightarrow> tb_ptr b = 0 \<longrightarrow> tb_ptr b' = 0"
    if "gobble_from env a b w = Some r" for env a b w r
  proof (rule gobble_from.raw_induct
      [where P = "\<lambda>env a b w r. \<forall>e b' w'. Inr (e, b', w') = r \<longrightarrow> tb_ptr b = 0 \<longrightarrow> tb_ptr b' = 0",
        OF _ that], goal_cases)
    case (1 f env a b w y)
    show ?case
    proof (intro allI impI)
      fix e b' w' assume y: "Inr (e, b', w') = y" and ptr: "tb_ptr b = 0"
      show "tb_ptr b' = 0"
        using 1(2) ptr unfolding y [symmetric]
        by (auto split: option.splits if_splits sum.splits prod.splits simp: run_simps
            dest!: make_room_ptr read_on_ptr 1(1))
    qed
  qed
  with assms show ?thesis by blast
qed

text \<open>
  a file whose first read fails - a directory, say - or whose first line is blank makes \<open>scan_file\<close>
  leave the buffer: the failure is not recognised, so that the terminator is written before the block,
  and the character before the newline of a blank line is looked for there as well.
\<close>

theorem scan_file_faults:
  assumes "length (tb_data b) = tb_size b + 1" and "0 < tb_size b" and "\<forall>n. env_mem env n"
    and "NUL \<notin> set (tc_bytes w)"
  shows "(env_fail env (tc_reads w) \<longrightarrow> scan_file env name b w = Some (Inl Buffer_Overflow)) \<and>
    ((\<forall>k. \<not> env_fail env k) \<and> (\<exists>rest. tc_bytes w = NL # rest) \<longrightarrow>
      scan_file env name b w = Some (Inl Out_Of_Bounds_Read))"
proof (intro conjI impI)
  assume fail: "env_fail env (tc_reads w)"
  let ?b = "b\<lparr>tb_ptr := 0, tb_full := 0, tb_ateof := False, tb_data := (tb_data b)[0 := NUL]\<rparr>"
  have "line_end ((tb_data b)[0 := NUL]) 0 = Some 0"
    unfolding line_end_def using assms(1) by (intro find_upt) simp_all
  then have "gobble_line env None ?b (w\<lparr>tc_pos := 0\<rparr>) = Some (Inl Buffer_Overflow)"
    using assms(1,2) fail
    by (simp add: gobble_line_def, subst gobble_from.simps)
      (simp add: make_room_def read_on_def sys_read_def Let_def)
  then have "scan_line env None ?b (w\<lparr>tc_pos := 0\<rparr>) = Some (Inl Buffer_Overflow)"
    by (subst scan_line.simps) simp
  then show "scan_file env name b w = Some (Inl Buffer_Overflow)"
    unfolding scan_file_def by (subst scan_entries.simps) simp
next
  assume "(\<forall>k. \<not> env_fail env k) \<and> (\<exists>rest. tc_bytes w = NL # rest)"
  then obtain rest where env: "smooth env" and bytes: "tc_bytes w = NL # rest"
    using assms(3) by (auto simp: smooth_def)
  define b0 where "b0 = b\<lparr>tb_ptr := 0, tb_full := 0, tb_ateof := False, tb_data := (tb_data b)[0 := NUL]\<rparr>"
  define w0 where "w0 = w\<lparr>tc_pos := 0\<rparr>"
  have ok: "buf_ok b0 w0"
    using assms by (simp add: buf_ok_def buf_pre_def b0_def w0_def)
  have st: "stream b0 w0 = NL # rest" by (simp add: stream_def b0_def w0_def bytes)
  obtain e b1 w1 where g: "gobble_from env 0 b0 w0 = Some (Inr (e, b1, w1))"
    "gobbled (NL # rest) 0 e b1 w1"
    using gobble_from_spec [OF env ok, of 0] st by (auto simp: b0_def)
  then have e: "\<not> tb_ateof b1" "e = tb_ptr b1 + 1" by (simp_all add: gobbled_def)
  have "tb_ptr b1 = 0"
    using g(1) by (rule gobble_from_ptr) (simp add: b0_def)
  then have "scan_line env None b0 w0 = Some (Inl Out_Of_Bounds_Read)"
    using g(1) e by (subst scan_line.simps) (simp add: gobble_line_def b0_def)
  then show "scan_file env name b w = Some (Inl Out_Of_Bounds_Read)"
    unfolding scan_file_def b0_def [symmetric] w0_def [symmetric]
    by (subst scan_entries.simps) (simp add: b0_def)
qed

theorem scan_file_faults_witness:
  "scan_file (smooth_env (\<lambda>_. None) 5) ''x''
      \<lparr>tb_data = replicate 5 (CHR ''J''), tb_size = 4, tb_ptr = 0, tb_ateof = False, tb_full = 0\<rparr>
      \<lparr>tc_bytes = NL # ''x:'', tc_pos = 0, tc_reads = 0\<rparr> = Some (Inl Out_Of_Bounds_Read)"
  using scan_file_faults [of
      "\<lparr>tb_data = replicate 5 (CHR ''J''), tb_size = 4, tb_ptr = 0, tb_ateof = False, tb_full = 0\<rparr>"
      "smooth_env (\<lambda>_. None) 5" "\<lparr>tc_bytes = NL # ''x:'', tc_pos = 0, tc_reads = 0\<rparr>" "''x''"]
  by (simp add: smooth_env_def)

end
