(* ===== verification/Rl_Shell.thy ===== *)
theory Rl_Shell
  imports C_Strings
begin

text \<open>
  \<open>readline-6.2/shell.c\<close>: single quoting for the shell, the environment variables \<open>LINES\<close> and
  \<open>COLUMNS\<close>, the home directory and the blocking mode of a descriptor. What the code asks of the
  process - environment, password database, descriptor flags - is a record.
\<close>

section \<open>The process\<close>

record process =
  environ :: "string \<Rightarrow> string option"
  setenv_ok :: "string \<Rightarrow> bool"
  pw_of_user :: "string option"  \<comment> \<open>the home directory of \<open>getpwuid (getuid ())\<close>\<close>
  fd_flags :: "int \<Rightarrow> 32 word option"

definition setenv :: "string \<Rightarrow> string \<Rightarrow> process \<Rightarrow> process" where
  "setenv name val p =
     (if setenv_ok p name then p\<lparr>environ := (environ p)(name \<mapsto> val)\<rparr> else p)"

definition sh_get_env_value :: "string \<Rightarrow> process \<Rightarrow> string option" where
  "sh_get_env_value varname p = environ p varname"

definition sh_get_home_dir :: "process \<Rightarrow> string option" where
  "sh_get_home_dir p = pw_of_user p"

section \<open>sh_single_quote\<close>

text \<open>\<open>*r++ = c\<close> for the characters of a list, and the loop over the string.\<close>

fun store_chars :: "string \<Rightarrow> nat \<times> string \<Rightarrow> (nat \<times> string) run" where
  "store_chars [] (r, blk) = Inr (r, blk)"
| "store_chars (c # cs) (r, blk) =
     bind_run (put_bytes r [c] blk) (\<lambda>blk. store_chars cs (Suc r, blk))"

fun quote_loop :: "string \<Rightarrow> nat \<times> string \<Rightarrow> (nat \<times> string) run" where
  "quote_loop [] st = Inr st"
| "quote_loop (c # s) st =
     bind_run (store_chars [c] st) (\<lambda>st.
     bind_run (if c = CHR 0x27 then store_chars [CHR 0x5C, CHR 0x27, CHR 0x27] st else Inr st)
       (quote_loop s))"

definition sh_single_quote :: "char \<Rightarrow> string option \<Rightarrow> string run" where
  "sh_single_quote junk str =
     (case str of
        None \<Rightarrow> Inl Null_Pointer
      | Some s \<Rightarrow>
          bind_run (store_chars [CHR 0x27] (0, replicate (3 + 4 * length s) junk)) (\<lambda>st.
          bind_run (quote_loop s st) (\<lambda>st.
          bind_run (store_chars [CHR 0x27] st) (\<lambda>(r, blk).
          put_bytes r [NUL] blk))))"

section \<open>LINES and COLUMNS\<close>

text \<open>\<open>INT_STRLEN_BOUND (int)\<close>: 11.\<close>

definition INT_STRLEN_BOUND :: nat where
  "INT_STRLEN_BOUND = (4 * 8 - 1) * 302 div 1000 + 1 + 1"

definition sh_set_lines_and_columns :: "int \<Rightarrow> int \<Rightarrow> process \<Rightarrow> process run" where
  "sh_set_lines_and_columns lines cols p =
     bind_run (sprintf_buf (INT_STRLEN_BOUND + 1) (show_int lines)) (\<lambda>b.
     let p = setenv ''LINES'' b p in
     bind_run (sprintf_buf (INT_STRLEN_BOUND + 1) (show_int cols)) (\<lambda>b.
     Inr (setenv ''COLUMNS'' b p)))"

section \<open>sh_unset_nodelay_mode\<close>

unbundle bit_operations_syntax

text \<open>On Linux \<open>O_NDELAY\<close> is \<open>O_NONBLOCK\<close>.\<close>

definition O_NONBLOCK :: "32 word" where "O_NONBLOCK = 2048"

definition sh_unset_nodelay_mode :: "int \<Rightarrow> process \<Rightarrow> int \<times> process" where
  "sh_unset_nodelay_mode fd p =
     (case fd_flags p fd of
        None \<Rightarrow> (-1, p)
      | Some flags \<Rightarrow>
          if sint flags < 0 then (-1, p)
          else let bflags = O_NONBLOCK OR O_NONBLOCK in
          if flags AND bflags \<noteq> 0
          then (0, p\<lparr>fd_flags := (fd_flags p)(fd \<mapsto> flags AND NOT bflags)\<rparr>)
          else (0, p))"

section \<open>What a shell makes of the quoted string\<close>

text \<open>
  A shell's reading of one word with single quotes and backslashes: inside single quotes every
  character up to the next one stands for itself, outside a backslash quotes the next character.
  \<open>None\<close>: a quote is not closed, or the word ends at an unquoted character of another meaning.
\<close>

fun sh_word :: "bool \<Rightarrow> string \<Rightarrow> string option" where
  "sh_word True [] = None"
| "sh_word True (c # s) = (if c = CHR 0x27 then sh_word False s else map_option (Cons c) (sh_word True s))"
| "sh_word False [] = Some []"
| "sh_word False (c # s) =
     (if c = CHR 0x27 then sh_word True s
      else if c = CHR 0x5C then
        (case s of [] \<Rightarrow> None | d # s \<Rightarrow> map_option (Cons d) (sh_word False s))
      else None)"

definition quote_char :: "char \<Rightarrow> string" where
  "quote_char c = (if c = CHR 0x27 then [c, CHR 0x5C, CHR 0x27, CHR 0x27] else [c])"

lemma store_chars_next:
  "length cs \<le> length r \<Longrightarrow>
   store_chars cs (length a, a @ r) = Inr (length (a @ cs), (a @ cs) @ drop (length cs) r)"
proof (induction cs arbitrary: a r)
  case (Cons c cs)
  then obtain d r' where r: "r = d # r'" by (cases r) auto
  have "put_bytes (length a) [c] (a @ r) = Inr ((a @ [c]) @ r')"
    by (simp add: put_bytes_next r)
  moreover have "store_chars cs (length (a @ [c]), (a @ [c]) @ r') =
      Inr (length ((a @ [c]) @ cs), ((a @ [c]) @ cs) @ drop (length cs) r')"
    using Cons.IH [of r' "a @ [c]"] Cons.prems r by simp
  ultimately show ?case using r by simp
qed simp

lemma length_quote: "length (concat (map quote_char s)) \<le> 4 * length s"
  by (induction s) (simp_all add: quote_char_def)

lemma quote_loop_next:
  "length (concat (map quote_char s)) \<le> length r \<Longrightarrow>
   quote_loop s (length a, a @ r) =
     Inr (length (a @ concat (map quote_char s)),
          (a @ concat (map quote_char s)) @ drop (length (concat (map quote_char s))) r)"
proof (induction s arbitrary: a r)
  case (Cons c s)
  have q: "length (quote_char c) \<le> length r" using Cons.prems by simp
  have step: "quote_loop (c # s) (length a, a @ r) =
      bind_run (store_chars (quote_char c) (length a, a @ r)) (quote_loop s)"
    by (simp add: quote_char_def bind_run_assoc)
  have "store_chars (quote_char c) (length a, a @ r) =
      Inr (length (a @ quote_char c), (a @ quote_char c) @ drop (length (quote_char c)) r)"
    by (rule store_chars_next [OF q])
  then show ?case
    unfolding step using Cons.IH [of "drop (length (quote_char c)) r" "a @ quote_char c"] Cons.prems
    by (simp add: add.commute)
qed simp

lemma sh_word_quote: "sh_word True (concat (map quote_char s) @ r) = map_option ((@) s) (sh_word True r)"
proof (induction s)
  case Nil
  then show ?case by (cases "sh_word True r") simp_all
next
  case (Cons c s)
  then show ?case by (cases "sh_word True r") (simp_all add: quote_char_def)
qed

text \<open>
  C31: quoting for the shell. \<open>sh_single_quote\<close> never writes outside the block it allocates, and
  a shell reads the string it leaves there as the one word it was given, whatever characters it has.
\<close>

theorem sh_single_quote_roundtrip:
  assumes "NUL \<notin> set s"
  shows "\<exists>blk q. sh_single_quote junk (Some s) = Inr blk \<and> length blk = 3 + 4 * length s \<and>
    cstr_of blk = Some q \<and> sh_word False q = Some s"
proof -
  define qs where "qs = concat (map quote_char s)"
  have len: "length qs \<le> 4 * length s" unfolding qs_def by (rule length_quote)
  define n where "n = 4 * length s"
  have "store_chars [CHR 0x27] (0, replicate (3 + n) junk) = Inr (1, [CHR 0x27] @ replicate (2 + n) junk)"
    using store_chars_next [of "[CHR 0x27]" "replicate (3 + n) junk" "[]"] by simp
  moreover have "quote_loop s (1, [CHR 0x27] @ replicate (2 + n) junk) =
      Inr (length (CHR 0x27 # qs), (CHR 0x27 # qs) @ replicate (2 + n - length qs) junk)"
    using quote_loop_next [of s "replicate (2 + n) junk" "[CHR 0x27]"] len
    by (simp add: qs_def n_def drop_replicate del: replicate_Suc add_2_eq_Suc add_2_eq_Suc')
  moreover have "store_chars [CHR 0x27] (length (CHR 0x27 # qs), (CHR 0x27 # qs) @ replicate (2 + n - length qs) junk) =
      Inr (length (CHR 0x27 # qs @ [CHR 0x27]), (CHR 0x27 # qs @ [CHR 0x27]) @ replicate (1 + n - length qs) junk)"
    using store_chars_next [of "[CHR 0x27]" "replicate (2 + n - length qs) junk" "CHR 0x27 # qs"] len
    by (simp add: n_def)
  moreover have "put_bytes (length (CHR 0x27 # qs @ [CHR 0x27])) [NUL]
        ((CHR 0x27 # qs @ [CHR 0x27]) @ replicate (1 + n - length qs) junk) =
      Inr ((CHR 0x27 # qs @ [CHR 0x27]) @ [NUL] @ replicate (n - length qs) junk)"
    using len by (subst put_bytes_next) (simp add: n_def)
  ultimately have run: "sh_single_quote junk (Some s) =
      Inr ((CHR 0x27 # qs @ [CHR 0x27]) @ NUL # replicate (n - length qs) junk)"
    unfolding sh_single_quote_def n_def by simp
  have "set qs \<subseteq> set s \<union> {CHR 0x27, CHR 0x5C}" by (auto simp: qs_def quote_char_def)
  then have "NUL \<notin> set (CHR 0x27 # qs @ [CHR 0x27])" using assms by auto
  then have "cstr_of ((CHR 0x27 # qs @ [CHR 0x27]) @ NUL # replicate (n - length qs) junk) =
      Some (CHR 0x27 # qs @ [CHR 0x27])"
    by (rule cstr_of_append_NUL)
  moreover have "sh_word False (CHR 0x27 # qs @ [CHR 0x27]) = Some s"
    using sh_word_quote [of s "[CHR 0x27]"] by (simp add: qs_def)
  ultimately show ?thesis using run len by (simp add: n_def)
qed

theorem sh_single_quote_roundtrip_witness:
  "\<exists>blk q. sh_single_quote NUL (Some ''it~s'') = Inr blk \<and> length blk = 19 \<and>
    cstr_of blk = Some q \<and> sh_word False q = Some ''it~s''"
  using sh_single_quote_roundtrip [of "''it~s''" NUL] by simp

section \<open>The other functions\<close>

lemma lines_and_columns:
  assumes "int32 lines" and "int32 cols"
  shows "sh_set_lines_and_columns lines cols p =
    Inr (setenv ''COLUMNS'' (show_int cols) (setenv ''LINES'' (show_int lines) p))"
  using length_show_int [OF assms(1)] length_show_int [OF assms(2)]
  by (simp add: sh_set_lines_and_columns_def INT_STRLEN_BOUND_def)

lemma unset_nodelay:
  assumes "fd_flags p fd = Some flags" and "0 \<le> sint flags"
  shows "\<exists>p'. sh_unset_nodelay_mode fd p = (0, p') \<and>
    fd_flags p' = (fd_flags p)(fd \<mapsto> flags AND NOT O_NONBLOCK)"
proof (cases "flags AND O_NONBLOCK = 0")
  case True
  have "flags AND NOT O_NONBLOCK = flags"
  proof (rule bit_word_eqI)
    fix n assume "n < LENGTH(32)"
    with True have "\<not> bit (flags AND O_NONBLOCK) n" by simp
    then show "bit (flags AND NOT O_NONBLOCK) n = bit flags n"
      using \<open>n < LENGTH(32)\<close> by (auto simp: bit_and_iff bit_not_iff)
  qed
  with True assms show ?thesis by (auto simp: sh_unset_nodelay_mode_def)
next
  case False
  with assms show ?thesis by (simp add: sh_unset_nodelay_mode_def)
qed

end
