(* ===== verification/Tilde.thy ===== *)
theory Tilde
  imports Rl_Shell
begin

text \<open>
  \<open>readline-6.2/tilde.c\<close>: expansion of \<open>~\<close> and \<open>~user\<close>. The hooks, the password database and the
  additional prefixes and suffixes, which the calling program may set, are a record; a hook is a
  function of the user name. Blocks are lists of bytes, and every store is checked against their
  length. Sizes are natural numbers: strings are shorter than 2 GB. \<open>xmalloc\<close> and \<open>xrealloc\<close> always
  succeed, they end the process otherwise.
\<close>

section \<open>The environment\<close>

record tilde_env = process +
  pw_named :: "string \<Rightarrow> string option"  \<comment> \<open>the home directory of \<open>getpwnam\<close>\<close>
  preexpansion_hook :: "(string \<Rightarrow> string option) option"
  failure_hook :: "(string \<Rightarrow> string option) option"
  additional_prefixes :: "string list option"
  additional_suffixes :: "string list option"
  junk :: char  \<comment> \<open>what a new block holds\<close>

definition default_prefixes :: "string list" where
  "default_prefixes = ['' ~'', [CHR 0x09, CHR ''~'']]"

definition default_suffixes :: "string list" where
  "default_suffixes = ['' '', [CHR 0x0A]]"

section \<open>Where a tilde word begins and ends\<close>

text \<open>\<open>strncmp (string + i, p, strlen (p)) == 0\<close> for the first such \<open>p\<close>: its length.\<close>

fun match_any :: "string list \<Rightarrow> string \<Rightarrow> nat option" where
  "match_any [] s = None"
| "match_any (p # ps) s = (if take (length p) s = p then Some (length p) else match_any ps s)"

text \<open>The loop over \<open>i\<close>: the index and the length of the prefix found there.\<close>

fun scan_prefix :: "string list \<Rightarrow> string \<Rightarrow> nat \<Rightarrow> (nat \<times> nat) option" where
  "scan_prefix ps [] i = None"
| "scan_prefix ps (c # s) i =
     (case match_any ps (c # s) of Some n \<Rightarrow> Some (i, n) | None \<Rightarrow> scan_prefix ps s (Suc i))"

text \<open>The result and what is stored through \<open>len\<close>.\<close>

definition tilde_find_prefix :: "string list option \<Rightarrow> string \<Rightarrow> int \<times> int" where
  "tilde_find_prefix prefixes s =
     (if s = [] \<or> hd s = CHR ''~'' then (0, 0)
      else
        case prefixes of
          None \<Rightarrow> (int (length s), 0)
        | Some ps \<Rightarrow>
            (case scan_prefix ps s 0 of
               None \<Rightarrow> (int (length s), 0)
             | Some (i, n) \<Rightarrow> (int i + (int n - 1), int n - 1)))"

fun tilde_find_suffix :: "string list option \<Rightarrow> string \<Rightarrow> nat" where
  "tilde_find_suffix suffixes [] = 0"
| "tilde_find_suffix suffixes (c # s) =
     (if c = CHR ''/'' then 0
      else if (case suffixes of None \<Rightarrow> False | Some ps \<Rightarrow> match_any ps (c # s) \<noteq> None) then 0
      else Suc (tilde_find_suffix suffixes s))"

section \<open>The expansion of a word\<close>

text \<open>The string at the beginning of a block.\<close>

definition string_in :: "string \<Rightarrow> string run" where
  "string_in blk = (case cstr_of blk of None \<Rightarrow> Inl Out_Of_Bounds_Read | Some s \<Rightarrow> Inr s)"

text \<open>The user name in its block, and what is stored through \<open>lenp\<close>.\<close>

definition isolate_tilde_prefix :: "char \<Rightarrow> string \<Rightarrow> (string \<times> nat) run" where
  "isolate_tilde_prefix j fname =
     (let name = takeWhile (\<lambda>c. c \<noteq> CHR ''/'') (drop 1 fname) in
      bind_run (put_bytes 0 name (replicate (length fname) j)) (\<lambda>ret.
      bind_run (put_bytes (length name) [NUL] ret) (\<lambda>ret.
      Inr (ret, 1 + length name))))"

definition glue_prefix_and_suffix :: "char \<Rightarrow> string option \<Rightarrow> string \<Rightarrow> nat \<Rightarrow> string run" where
  "glue_prefix_and_suffix j prefix suffix suffind =
     (let pre = (case prefix of None \<Rightarrow> [] | Some p \<Rightarrow> p);
          plen = length pre; slen = length (drop suffind suffix) in
      bind_run
        (if plen > 0 then put_bytes 0 (pre @ [NUL]) (replicate (plen + slen + 1) j)
         else Inr (replicate (plen + slen + 1) j)) (\<lambda>ret.
      put_bytes plen (drop suffind suffix @ [NUL]) ret))"

definition call_hook :: "(string \<Rightarrow> string option) option \<Rightarrow> string \<Rightarrow> string option" where
  "call_hook hook name = (case hook of None \<Rightarrow> None | Some h \<Rightarrow> h name)"

text \<open>The new block; \<open>savestring\<close> is \<open>strcpy\<close> into a block of the string's size.\<close>

definition tilde_expand_word :: "'a tilde_env_scheme \<Rightarrow> string option \<Rightarrow> string option run" where
  "tilde_expand_word env filename =
     (case filename of
        None \<Rightarrow> Inr None
      | Some f \<Rightarrow>
          if f = [] \<or> hd f \<noteq> CHR ''~'' then Inr (Some (f @ [NUL]))
          else if length f = 1 \<or> f ! 1 = CHR ''/'' then
            let expansion = sh_get_env_value ''HOME'' (process.truncate env);
                expansion = (if expansion = None then sh_get_home_dir (process.truncate env) else expansion) in
            bind_run (glue_prefix_and_suffix (junk env) expansion f 1) (\<lambda>b. Inr (Some b))
          else
          bind_run (isolate_tilde_prefix (junk env) f) (\<lambda>(ret, user_len).
          bind_run (string_in ret) (\<lambda>username.
          case call_hook (preexpansion_hook env) username of
            Some e \<Rightarrow> bind_run (glue_prefix_and_suffix (junk env) (Some e) f user_len) (\<lambda>b. Inr (Some b))
          | None \<Rightarrow>
          case pw_named env username of
            Some dir \<Rightarrow> bind_run (glue_prefix_and_suffix (junk env) (Some dir) f user_len) (\<lambda>b. Inr (Some b))
          | None \<Rightarrow>
          case call_hook (failure_hook env) username of
            Some e \<Rightarrow> bind_run (glue_prefix_and_suffix (junk env) (Some e) f user_len) (\<lambda>b. Inr (Some b))
          | None \<Rightarrow> Inr (Some (f @ [NUL])))))"

section \<open>tilde\_expand\<close>

definition xrealloc :: "char \<Rightarrow> nat \<Rightarrow> string \<Rightarrow> string" where
  "xrealloc j n blk = take n blk @ replicate (n - length blk) j"

text \<open>
  \<open>if ((result_index + n + 1) > result_size) result = xrealloc (result, 1 + (result_size += (n + 20)))\<close>
\<close>

definition room_for :: "char \<Rightarrow> nat \<Rightarrow> nat \<Rightarrow> string \<times> nat \<Rightarrow> string \<times> nat" where
  "room_for j n index result =
     (case result of (blk, sz) \<Rightarrow>
      if index + n + 1 > sz then (xrealloc j (1 + (sz + (n + 20))) blk, sz + (n + 20))
      else (blk, sz))"

lemma bind_run_cong [fundef_cong]:
  "m = m' \<Longrightarrow> (\<And>x. m' = Inr x \<Longrightarrow> f x = f' x) \<Longrightarrow> bind_run m f = bind_run m' f'"
  by (cases m') auto

lemma tilde_progress:
  fixes s :: string and prefixes suffixes :: "string list option"
  defines "n \<equiv> nat (fst (tilde_find_prefix prefixes s))"
  assumes "n = 0 \<longrightarrow> 0 < tilde_find_suffix suffixes (drop n s)"
  shows "length (drop (tilde_find_suffix suffixes (drop n s)) (drop n s)) < length s"
proof (cases "s = []")
  case True
  then show ?thesis using assms(2) by (simp add: n_def tilde_find_prefix_def)
next
  case False
  with assms(2) show ?thesis by (cases "n = 0") (simp_all del: drop_drop)
qed

text \<open>
  The loop: the rest of the string, the block with its size, and \<open>result_index\<close>. \<open>strncpy\<close> with the
  length -1 converted to \<open>size_t\<close> writes outside any block.
\<close>

function tilde_loop :: "'a tilde_env_scheme \<Rightarrow> string \<Rightarrow> string \<times> nat \<Rightarrow> nat \<Rightarrow> (nat \<times> string) run" where
  "tilde_loop env s result index =
     (let start = fst (tilde_find_prefix (additional_prefixes env) s) in
      if start < 0 then Inl Buffer_Overflow
      else
      let n = nat start; result = room_for (junk env) n index result in
      bind_run (put_bytes index (take n s) (fst result)) (\<lambda>blk.
      let index = index + n; s = drop n s; e = tilde_find_suffix (additional_suffixes env) s in
      if n = 0 \<and> e = 0 then Inr (index, blk)
      else
      bind_run (tilde_expand_word env (Some (take e s))) (\<lambda>expansion.
      case expansion of
        None \<Rightarrow> Inl Null_Pointer
      | Some b \<Rightarrow>
      bind_run (string_in b) (\<lambda>x.
      let result' = room_for (junk env) (length x) index (blk, snd result) in
      bind_run (put_bytes index (x @ [NUL]) (fst result')) (\<lambda>blk.
      tilde_loop env (drop e s) (blk, snd result') (index + length x))))))"
  by pat_completeness auto
termination
  by (relation "measure (\<lambda>(_, s, _, _). length s)")
    (simp_all add: tilde_progress del: length_drop drop_drop)

declare tilde_loop.simps [simp del]

definition tilde_expand :: "'a tilde_env_scheme \<Rightarrow> string \<Rightarrow> string run" where
  "tilde_expand env s =
     (let sz = (if CHR ''~'' \<in> set s then length s + 16 else length s + 1) in
      bind_run (tilde_loop env s (replicate sz (junk env), sz) 0) (\<lambda>(index, blk).
      put_bytes index [NUL] blk))"

section \<open>What the expansion is\<close>

definition home_dir :: "'a tilde_env_scheme \<Rightarrow> string option" where
  "home_dir env = (case environ env ''HOME'' of Some h \<Rightarrow> Some h | None \<Rightarrow> pw_of_user env)"

definition user_dir :: "'a tilde_env_scheme \<Rightarrow> string \<Rightarrow> string option" where
  "user_dir env name =
     (case call_hook (preexpansion_hook env) name of
        Some e \<Rightarrow> Some e
      | None \<Rightarrow> (case pw_named env name of Some d \<Rightarrow> Some d | None \<Rightarrow> call_hook (failure_hook env) name))"

definition expanded :: "'a tilde_env_scheme \<Rightarrow> string \<Rightarrow> string" where
  "expanded env w =
     (case w of
        [] \<Rightarrow> []
      | c # u \<Rightarrow>
          if c \<noteq> CHR ''~'' then w
          else
          let name = takeWhile (\<lambda>c. c \<noteq> CHR ''/'') u; rest = dropWhile (\<lambda>c. c \<noteq> CHR ''/'') u in
          if name = [] then (case home_dir env of None \<Rightarrow> [] | Some h \<Rightarrow> h) @ rest
          else case user_dir env name of None \<Rightarrow> w | Some d \<Rightarrow> d @ rest)"

text \<open>The directories are C strings.\<close>

definition c_env :: "'a tilde_env_scheme \<Rightarrow> bool" where
  "c_env env \<longleftrightarrow>
     (\<forall>d. home_dir env = Some d \<longrightarrow> NUL \<notin> set d) \<and>
     (\<forall>name d. user_dir env name = Some d \<longrightarrow> NUL \<notin> set d)"

lemma string_in_end: "NUL \<notin> set x \<Longrightarrow> string_in (x @ [NUL]) = Inr x"
  using cstr_of_append_NUL [of x "[]"] by (simp add: string_in_def)

lemma put_bytes_start: "length bs \<le> length r \<Longrightarrow> put_bytes 0 bs r = Inr (bs @ drop (length bs) r)"
  by (simp add: put_bytes_def)

lemma glue_value:
  assumes "k \<le> length suffix"
  shows "glue_prefix_and_suffix j prefix suffix k =
    Inr ((case prefix of None \<Rightarrow> [] | Some p \<Rightarrow> p) @ drop k suffix @ [NUL])"
proof -
  define pre where "pre = (case prefix of None \<Rightarrow> [] | Some p \<Rightarrow> p)"
  define suf where "suf = drop k suffix"
  show ?thesis
  proof (cases "pre = []")
    case True
    then show ?thesis
      unfolding glue_prefix_and_suffix_def Let_def pre_def [symmetric] suf_def [symmetric]
      by (simp add: put_bytes_start)
  next
    case False
    have "put_bytes 0 (pre @ [NUL]) (replicate (length pre + length suf + 1) j) =
        Inr (pre @ NUL # replicate (length suf) j)"
      by (subst put_bytes_start) simp_all
    moreover have "put_bytes (length pre) (suf @ [NUL]) (pre @ NUL # replicate (length suf) j) =
        Inr (pre @ suf @ [NUL])"
      by (subst put_bytes_next) simp
    ultimately show ?thesis
      using False
      unfolding glue_prefix_and_suffix_def Let_def pre_def [symmetric] suf_def [symmetric] by simp
  qed
qed

lemma isolate_value:
  assumes "hd f = CHR ''~''" and "f \<noteq> []"
  shows "isolate_tilde_prefix j f =
    Inr (takeWhile (\<lambda>c. c \<noteq> CHR ''/'') (tl f) @ NUL # drop (1 + length (takeWhile (\<lambda>c. c \<noteq> CHR ''/'') (tl f))) (replicate (length f) j),
         1 + length (takeWhile (\<lambda>c. c \<noteq> CHR ''/'') (tl f)))"
proof -
  define name where "name = takeWhile (\<lambda>c. c \<noteq> CHR ''/'') (tl f)"
  have "length name \<le> length (tl f)" unfolding name_def by (rule length_takeWhile_le)
  then have len: "length name + 1 \<le> length f" using assms(2) by (cases f) simp_all
  have "put_bytes 0 name (replicate (length f) j) = Inr (name @ drop (length name) (replicate (length f) j))"
    using len by (intro put_bytes_start) simp
  moreover have "put_bytes (length name) [NUL] (name @ drop (length name) (replicate (length f) j)) =
      Inr (name @ NUL # drop (1 + length name) (replicate (length f) j))"
    using len by (subst put_bytes_next) (simp add: add.commute)
  moreover have "drop 1 f = tl f" by (simp add: drop_Suc)
  ultimately show ?thesis
    unfolding isolate_tilde_prefix_def by (simp add: name_def [symmetric])
qed

lemma expand_word_value:
  assumes env: "c_env env" and w: "NUL \<notin> set w"
  shows "tilde_expand_word env (Some w) = Inr (Some (expanded env w @ [NUL])) \<and> NUL \<notin> set (expanded env w)"
proof (cases w)
  case Nil
  then show ?thesis by (simp add: tilde_expand_word_def expanded_def)
next
  case (Cons c u)
  define name where "name = takeWhile (\<lambda>c. c \<noteq> CHR ''/'') u"
  define rest where "rest = dropWhile (\<lambda>c. c \<noteq> CHR ''/'') u"
  have u: "u = name @ rest" by (simp add: name_def rest_def)
  have nul: "NUL \<notin> set name" "NUL \<notin> set rest" using w Cons u by auto
  show ?thesis
  proof (cases "c = CHR ''~''")
    case False
    then show ?thesis using w Cons by (simp add: tilde_expand_word_def expanded_def)
  next
    case tilde: True
    show ?thesis
    proof (cases "name = []")
      case True
      then have short: "length w = 1 \<or> w ! 1 = CHR ''/''"
        using Cons by (cases u) (auto simp: name_def split: if_splits)
      have rest: "drop 1 w = rest" using True u Cons by simp
      have home: "(if sh_get_env_value ''HOME'' (process.truncate env) = None
          then sh_get_home_dir (process.truncate env)
          else sh_get_env_value ''HOME'' (process.truncate env)) = home_dir env"
        by (auto simp: home_dir_def sh_get_env_value_def sh_get_home_dir_def process.defs split: option.split)
      have ex: "expanded env w = (case home_dir env of None \<Rightarrow> [] | Some h \<Rightarrow> h) @ rest"
        using True tilde Cons by (simp add: expanded_def name_def [symmetric] rest_def [symmetric])
      then have "NUL \<notin> set (expanded env w)"
        using env nul by (simp add: c_env_def split: option.split)
      with ex show ?thesis
        using short tilde Cons rest home
        by (simp add: tilde_expand_word_def Let_def glue_value)
    next
      case named: False
      then have long: "\<not> (length w = 1 \<or> w ! 1 = CHR ''/'')"
        using Cons by (cases u) (auto simp: name_def split: if_splits)
      have user: "string_in (name @ NUL # r) = Inr name" for r
        using nul cstr_of_append_NUL [of name r] by (simp add: string_in_def)
      have w0: "w \<noteq> []" "hd w = CHR ''~''" using Cons tilde by simp_all
      have name: "takeWhile (\<lambda>c. c \<noteq> CHR ''/'') (tl w) = name" using Cons by (simp add: name_def)
      obtain r where iso: "isolate_tilde_prefix (junk env) w = Inr (name @ NUL # r, Suc (length name))"
        using isolate_value [OF w0(2,1), of "junk env"] unfolding name by auto
      have glue: "glue_prefix_and_suffix (junk env) (Some d) w (Suc (length name)) = Inr (d @ rest @ [NUL])" for d
        using Cons u by (subst glue_value) simp_all
      have ex: "expanded env w = (case user_dir env name of None \<Rightarrow> w | Some d \<Rightarrow> d @ rest)"
        using named tilde Cons
        by (simp add: expanded_def name_def [symmetric] rest_def [symmetric] split: option.split)
      have "NUL \<notin> set (expanded env w)"
        using w nul env by (auto simp: ex c_env_def split: option.split)
      moreover have "tilde_expand_word env (Some w) = Inr (Some (expanded env w @ [NUL]))"
        unfolding tilde_expand_word_def using long w0
        by (simp add: iso user glue ex user_dir_def split: option.split)
      ultimately show ?thesis by blast
    qed
  qed
qed

text \<open>The scan without its blocks.\<close>

function tilde_text :: "'a tilde_env_scheme \<Rightarrow> string \<Rightarrow> string" where
  "tilde_text env s =
     (let n = nat (fst (tilde_find_prefix (additional_prefixes env) s));
          e = tilde_find_suffix (additional_suffixes env) (drop n s) in
      if n = 0 \<and> e = 0 then []
      else take n s @ expanded env (take e (drop n s)) @ tilde_text env (drop e (drop n s)))"
  by pat_completeness auto
termination
  by (relation "measure (\<lambda>(_, s). length s)") (simp_all add: tilde_progress del: length_drop drop_drop)

declare tilde_text.simps [simp del]

section \<open>The loop\<close>

lemma room_for_ok:
  assumes "index \<le> sz" and "sz \<le> length blk"
  obtains blk' sz' where "room_for j n index (blk, sz) = (blk', sz')"
    and "index + n + 1 \<le> sz'" and "sz' \<le> length blk'" and "take index blk' = take index blk"
proof (cases "index + n + 1 > sz")
  case True
  then show ?thesis
    using assms that [of "xrealloc j (1 + (sz + (n + 20))) blk" "sz + (n + 20)"]
    by (auto simp: room_for_def xrealloc_def)
next
  case False
  then show ?thesis using assms that [of blk sz] by (simp add: room_for_def)
qed

lemma put_bytes_take:
  assumes "i + length bs \<le> length blk" and "k \<le> length bs"
  obtains blk' where "put_bytes i bs blk = Inr blk'" and "length blk' = length blk"
    and "take (i + k) blk' = take i blk @ take k bs"
proof -
  have i: "length (take i blk) = i" using assms(1) by simp
  have "take (i + k) (take i blk @ bs @ drop (i + length bs) blk) = take i blk @ take k bs"
    using assms(2) i by (simp add: take_append)
  then show ?thesis
    using assms(1) i by (intro that [of "take i blk @ bs @ drop (i + length bs) blk"]) (simp_all add: put_bytes_def)
qed

lemma find_prefix_bounds:
  assumes "\<forall>ps. prefixes = Some ps \<longrightarrow> [] \<notin> set ps"
  shows "0 \<le> fst (tilde_find_prefix prefixes s) \<and> fst (tilde_find_prefix prefixes s) \<le> int (length s)"
proof -
  have match: "match_any ps s = Some n \<Longrightarrow> [] \<notin> set ps \<Longrightarrow> 0 < n \<and> n \<le> length s" for ps s n
    by (induction ps) (auto split: if_splits dest!: arg_cong [of _ _ length])
  have "scan_prefix ps s i = Some (k, n) \<Longrightarrow> [] \<notin> set ps \<Longrightarrow> i \<le> k \<and> 0 < n \<and> k - i + n \<le> length s"
    for ps s i k n
  proof (induction s arbitrary: i)
    case (Cons c s)
    show ?case
    proof (cases "match_any ps (c # s)")
      case None
      with Cons.prems Cons.IH [of "Suc i"] show ?thesis by auto
    next
      case (Some m)
      with Cons.prems match [OF Some] show ?thesis by auto
    qed
  qed simp
  from this [of _ s 0] assms show ?thesis
    by (fastforce simp: tilde_find_prefix_def split: option.splits)
qed

lemma loop_text:
  assumes env: "c_env env" and pre: "\<forall>ps. additional_prefixes env = Some ps \<longrightarrow> [] \<notin> set ps"
    and "NUL \<notin> set s" and "index \<le> sz" and "sz \<le> length blk"
  shows "\<exists>blk'. tilde_loop env s (blk, sz) index = Inr (index + length (tilde_text env s), blk') \<and>
    index + length (tilde_text env s) < length blk' \<and>
    take (index + length (tilde_text env s)) blk' = take index blk @ tilde_text env s \<and>
    NUL \<notin> set (tilde_text env s)"
  using assms(3-5)
proof (induction "length s" arbitrary: s index blk sz rule: less_induct)
  case less
  define start where "start = fst (tilde_find_prefix (additional_prefixes env) s)"
  define n where "n = nat start"
  define e where "e = tilde_find_suffix (additional_suffixes env) (drop n s)"
  have text0: "tilde_text env s = (if n = 0 \<and> e = 0 then []
      else take n s @ expanded env (take e (drop n s)) @ tilde_text env (drop e (drop n s)))"
    by (subst tilde_text.simps) (simp only: Let_def n_def start_def e_def)
  have start: "0 \<le> start" and n: "n \<le> length s"
    using find_prefix_bounds [OF pre, of s] by (simp_all add: start_def n_def nat_le_iff)
  obtain blk1 sz1 where r1: "room_for (junk env) n index (blk, sz) = (blk1, sz1)"
    and i1: "index + n + 1 \<le> sz1" "sz1 \<le> length blk1" "take index blk1 = take index blk"
    using room_for_ok [OF less.prems(2,3)] .
  obtain blk2 where p2: "put_bytes index (take n s) blk1 = Inr blk2" and l2: "length blk2 = length blk1"
    and t2: "take (index + n) blk2 = take index blk1 @ take n (take n s)"
    using put_bytes_take [of index "take n s" blk1 n] i1 n by auto
  show ?case
  proof (cases "n = 0 \<and> e = 0")
    case True
    have n0: "n = 0" using True by simp
    have e0: "tilde_find_suffix (additional_suffixes env) s = 0"
      using True unfolding e_def n0 by simp
    have "tilde_text env s = []" unfolding text0 using True by simp
    moreover have "tilde_loop env s (blk, sz) index = Inr (index, blk2)"
      using n0 start r1 p2 e0
      by (subst tilde_loop.simps) (simp add: Let_def n_def [symmetric] start_def [symmetric])
    ultimately show ?thesis using True t2 l2 i1 by simp
  next
    case go: False
    define w where "w = take e (drop n s)"
    define x where "x = expanded env w"
    define r where "r = drop e (drop n s)"
    have nulw: "NUL \<notin> set w" and nulr: "NUL \<notin> set r"
      using less.prems(1) unfolding w_def r_def by (blast dest: in_set_takeD in_set_dropD)+
    have word: "tilde_expand_word env (Some w) = Inr (Some (x @ [NUL]))" and nulx: "NUL \<notin> set x"
      using expand_word_value [OF env nulw] by (simp_all add: x_def)
    obtain blk3 sz3 where r3: "room_for (junk env) (length x) (index + n) (blk2, sz1) = (blk3, sz3)"
      and i3: "index + n + length x + 1 \<le> sz3" "sz3 \<le> length blk3"
        "take (index + n) blk3 = take (index + n) blk2"
      using room_for_ok [of "index + n" sz1 blk2 "junk env" "length x"] i1 l2 by (metis Suc_eq_plus1 Suc_leD)
    obtain blk4 where p4: "put_bytes (index + n) (x @ [NUL]) blk3 = Inr blk4" and l4: "length blk4 = length blk3"
      and t4: "take (index + n + length x) blk4 = take (index + n) blk3 @ take (length x) (x @ [NUL])"
      using put_bytes_take [of "index + n" "x @ [NUL]" blk3 "length x"] i3 by auto
    have lr: "length r < length s"
      unfolding r_def e_def n_def start_def
      by (rule tilde_progress) (use go in \<open>simp add: e_def n_def start_def\<close>)
    have step: "tilde_text env s = take n s @ x @ tilde_text env r"
      unfolding text0 x_def w_def r_def using go by (simp only: if_False)
    have run: "tilde_loop env s (blk, sz) index = tilde_loop env r (blk4, sz3) (index + n + length x)"
      using start r1 p2 go word nulx r3 p4
      by (subst tilde_loop.simps)
        (auto simp add: Let_def n_def [symmetric] start_def [symmetric] e_def [symmetric] w_def [symmetric]
          r_def [symmetric] string_in_end simp del: drop_drop)
    obtain blk5 where
      "tilde_loop env r (blk4, sz3) (index + n + length x) =
        Inr (index + n + length x + length (tilde_text env r), blk5)"
      "index + n + length x + length (tilde_text env r) < length blk5"
      "take (index + n + length x + length (tilde_text env r)) blk5 =
        take (index + n + length x) blk4 @ tilde_text env r"
      "NUL \<notin> set (tilde_text env r)"
      using less.hyps [OF lr nulr, of "index + n + length x" sz3 blk4] i3 l4 by auto
    moreover have "length (tilde_text env s) = n + length x + length (tilde_text env r)"
      using n by (simp add: step)
    moreover have "NUL \<notin> set (take n s)" using less.prems(1) by (blast dest: in_set_takeD)
    ultimately show ?thesis
      using run t4 i3(3) t2 i1(3) nulx n by (simp add: step add.assoc)
  qed
qed

lemma tilde_expand_text:
  assumes "c_env env" and "\<forall>ps. additional_prefixes env = Some ps \<longrightarrow> [] \<notin> set ps" and "NUL \<notin> set s"
  shows "\<exists>blk. tilde_expand env s = Inr blk \<and> cstr_of blk = Some (tilde_text env s)"
proof -
  define sz where "sz = (if CHR ''~'' \<in> set s then length s + 16 else length s + 1)"
  let ?t = "tilde_text env s"
  obtain blk where run: "tilde_loop env s (replicate sz (junk env), sz) 0 = Inr (length ?t, blk)"
    and len: "length ?t < length blk" and t: "take (length ?t) blk = ?t" and nul: "NUL \<notin> set ?t"
    using loop_text [OF assms, of 0 sz "replicate sz (junk env)"] by auto
  have "put_bytes (length ?t) [NUL] blk = Inr (?t @ NUL # drop (length ?t + 1) blk)"
    using len t by (simp add: put_bytes_def)
  then show ?thesis
    using run cstr_of_append_NUL [OF nul] by (simp add: tilde_expand_def sz_def [symmetric])
qed

definition demo_env :: tilde_env where
  "demo_env =
     \<lparr>environ = (\<lambda>v. if v = ''HOME'' then Some ''/h'' else None), setenv_ok = (\<lambda>_. True), pw_of_user = None,
      fd_flags = (\<lambda>_. None), pw_named = (\<lambda>n. if n = ''bo'' then Some ''/b'' else None),
      preexpansion_hook = None, failure_hook = None, additional_prefixes = Some default_prefixes,
      additional_suffixes = Some default_suffixes, junk = NUL\<rparr>"

lemma demo_env_ok: "c_env demo_env" "additional_prefixes demo_env = Some default_prefixes"
  by (auto simp: c_env_def demo_env_def home_dir_def user_dir_def call_hook_def)

text \<open>
  C16: the expansion of any string, with whatever hooks, directories, prefixes and suffixes the program
  has set - only an empty prefix is excluded - returns, never writes outside its block however that
  grows, and leaves there the string the scan describes: the text up to each tilde word copied, each
  word replaced.
\<close>

theorem tilde_expand_refines:
  assumes "c_env env" and "\<forall>ps. additional_prefixes env = Some ps \<longrightarrow> [] \<notin> set ps" and "NUL \<notin> set s"
  shows "\<exists>blk. tilde_expand env s = Inr blk \<and> cstr_of blk = Some (tilde_text env s)"
  by (rule tilde_expand_text [OF assms])

theorem tilde_expand_refines_witness:
  "\<exists>blk. tilde_expand demo_env ''x ~bo'' = Inr blk \<and> cstr_of blk = Some (tilde_text demo_env ''x ~bo'')"
  using tilde_expand_refines [of demo_env "''x ~bo''"] demo_env_ok by (simp add: default_prefixes_def)

section \<open>Words\<close>

text \<open>With the default prefixes and suffixes the words of a line are expanded one by one.\<close>

definition blank_free :: "string \<Rightarrow> bool" where
  "blank_free w \<longleftrightarrow> CHR '' '' \<notin> set w \<and> CHR 0x09 \<notin> set w \<and> CHR 0x0A \<notin> set w"

definition tail_of :: "string list \<Rightarrow> string" where
  "tail_of ws = concat (map (\<lambda>w. CHR '' '' # w) ws)"

fun join_words :: "string list \<Rightarrow> string" where
  "join_words [] = []"
| "join_words (w # ws) = w @ tail_of ws"

definition default_env :: "'a tilde_env_scheme \<Rightarrow> bool" where
  "default_env env \<longleftrightarrow>
     additional_prefixes env = Some default_prefixes \<and> additional_suffixes env = Some default_suffixes"

text \<open>The scan from a tilde, and from inside a word, where a tilde at the front does not count.\<close>

definition at_tilde :: "'a tilde_env_scheme \<Rightarrow> string \<Rightarrow> string" where
  "at_tilde env s =
     (let e = tilde_find_suffix (additional_suffixes env) s in
      expanded env (take e s) @ tilde_text env (drop e s))"

definition inside :: "'a tilde_env_scheme \<Rightarrow> string \<Rightarrow> string" where
  "inside env s =
     (let k = (case scan_prefix default_prefixes s 0 of None \<Rightarrow> length s | Some (i, n) \<Rightarrow> i + (n - 1)) in
      take k s @ at_tilde env (drop k s))"

lemma match_default:
  "match_any default_prefixes (c # s) =
     (if (c = CHR '' '' \<or> c = CHR 0x09) \<and> s \<noteq> [] \<and> hd s = CHR ''~'' then Some 2 else None)"
  by (cases s) (auto simp: default_prefixes_def)

lemma scan_shift:
  "scan_prefix ps s (Suc i) = map_option (\<lambda>(k, n). (Suc k, n)) (scan_prefix ps s i)"
  by (induction s arbitrary: i) (simp_all split: option.split)

lemma inside_Nil: "inside env [] = at_tilde env []"
  by (simp add: inside_def)

lemma inside_Cons:
  "inside env (c # s) =
     (if (c = CHR '' '' \<or> c = CHR 0x09) \<and> s \<noteq> [] \<and> hd s = CHR ''~'' then c # at_tilde env s
      else c # inside env s)"
  by (auto simp: inside_def Let_def match_default scan_shift split: option.split)

lemma at_tilde_Nil: "at_tilde env [] = []"
  by (subst at_tilde_def, subst tilde_text.simps) (simp add: expanded_def tilde_find_prefix_def)

lemma tilde_text_inside:
  assumes "default_env env" and "s = [] \<or> hd s \<noteq> CHR ''~''"
  shows "tilde_text env s = inside env s"
proof (cases "s = []")
  case True
  then show ?thesis
    by (subst tilde_text.simps) (simp add: tilde_find_prefix_def inside_Nil at_tilde_Nil)
next
  case False
  define k where "k = (case scan_prefix default_prefixes s 0 of None \<Rightarrow> length s | Some (i, n) \<Rightarrow> i + (n - 1))"
  have two: "scan_prefix default_prefixes s i = Some (j, n) \<Longrightarrow> n = 2" for s i j n
    by (induction s arbitrary: i) (auto simp: match_default split: if_splits)
  have pre: "additional_prefixes env = Some default_prefixes" using assms(1) by (simp add: default_env_def)
  have start: "fst (tilde_find_prefix (additional_prefixes env) s) = int k"
    using False assms(2) two [of s 0]
    by (auto simp: pre tilde_find_prefix_def k_def split: option.split)
  have "0 < k" using False two [of s 0] by (auto simp: k_def split: option.split)
  then show ?thesis
    by (subst tilde_text.simps) (simp add: Let_def start inside_def at_tilde_def k_def [symmetric])
qed

lemma tilde_text_tilde:
  assumes "default_env env" and "s \<noteq> []" and "hd s = CHR ''~''"
  shows "tilde_text env s = at_tilde env s"
proof -
  obtain u where s: "s = CHR ''~'' # u" using assms(2,3) by (cases s) simp_all
  have "match_any default_suffixes s = None" by (simp add: s default_suffixes_def)
  then have "tilde_find_suffix (additional_suffixes env) s \<noteq> 0"
    using assms(1) by (simp add: s default_env_def)
  then show ?thesis
    by (subst tilde_text.simps) (simp add: tilde_find_prefix_def at_tilde_def s Let_def)
qed

lemma suffix_of_word:
  assumes "default_env env" and "blank_free w"
  shows "tilde_find_suffix (additional_suffixes env) (w @ tail_of ws) =
    length (takeWhile (\<lambda>c. c \<noteq> CHR ''/'') w)"
proof -
  have suf: "additional_suffixes env = Some default_suffixes" using assms(1) by (simp add: default_env_def)
  have match: "match_any default_suffixes (c # s) = (if c = CHR '' '' \<or> c = CHR 0x0A then Some 1 else None)" for c s
    by (auto simp: default_suffixes_def)
  show ?thesis unfolding suf using assms(2)
    by (induction w) (cases ws, auto simp: tail_of_def match blank_free_def)
qed

lemma expanded_front:
  "hd w = CHR ''~'' \<Longrightarrow> w \<noteq> [] \<Longrightarrow>
   expanded env (takeWhile (\<lambda>c. c \<noteq> CHR ''/'') w) @ dropWhile (\<lambda>c. c \<noteq> CHR ''/'') w = expanded env w"
proof (cases w)
  case (Cons c u)
  assume "hd w = CHR ''~''"
  moreover have "CHR ''/'' \<notin> set (takeWhile (\<lambda>c. c \<noteq> CHR ''/'') u)"
    by (blast dest: set_takeWhileD)
  then have "takeWhile (\<lambda>c. c \<noteq> CHR ''/'') (takeWhile (\<lambda>c. c \<noteq> CHR ''/'') u) =
      takeWhile (\<lambda>c. c \<noteq> CHR ''/'') u" "dropWhile (\<lambda>c. c \<noteq> CHR ''/'') (takeWhile (\<lambda>c. c \<noteq> CHR ''/'') u) = []"
    unfolding takeWhile_eq_all_conv dropWhile_eq_Nil_conv by blast+
  ultimately show ?thesis
    using Cons by (auto simp: expanded_def Let_def split: option.split)
qed simp

lemma inside_tail:
  assumes "default_env env" and "\<forall>w \<in> set ws. blank_free w" and "blank_free u"
  shows "inside env (u @ tail_of ws) = u @ tail_of (map (expanded env) ws)"
  using assms(2,3)
proof (induction ws arbitrary: u)
  case Nil
  then show ?case
    by (induction u) (auto simp: tail_of_def inside_Nil at_tilde_Nil inside_Cons blank_free_def)
next
  case (Cons w ws)
  then have bf: "blank_free w" and rest: "\<forall>w \<in> set ws. blank_free w" by simp_all
  have IH: "blank_free u \<Longrightarrow> inside env (u @ tail_of ws) = u @ tail_of (map (expanded env) ws)" for u
    using Cons.IH rest by blast
  have tail: "tail_of (w # ws) = CHR '' '' # w @ tail_of ws" by (simp add: tail_of_def)
  have not_tilde: "\<not> (tail_of ws \<noteq> [] \<and> hd (tail_of ws) = CHR ''~'')"
    by (cases ws) (simp_all add: tail_of_def)
  have first: "inside env (tail_of (w # ws)) = CHR '' '' # expanded env w @ tail_of (map (expanded env) ws)"
  proof (cases "w \<noteq> [] \<and> hd w = CHR ''~''")
    case False
    then have "expanded env w = w" by (cases w) (simp_all add: expanded_def)
    moreover have "\<not> (w @ tail_of ws \<noteq> [] \<and> hd (w @ tail_of ws) = CHR ''~'')"
      using False not_tilde by (cases w) simp_all
    then have "inside env (CHR '' '' # w @ tail_of ws) = CHR '' '' # inside env (w @ tail_of ws)"
      by (intro trans [OF inside_Cons] if_not_P) blast
    ultimately show ?thesis using IH [OF bf] unfolding tail by simp
  next
    case True
    define n where "n = length (takeWhile (\<lambda>c. c \<noteq> CHR ''/'') w)"
    define r where "r = dropWhile (\<lambda>c. c \<noteq> CHR ''/'') w"
    have n: "n \<le> length w" unfolding n_def by (rule length_takeWhile_le)
    have parts: "take n w = takeWhile (\<lambda>c. c \<noteq> CHR ''/'') w" "drop n w = r"
      unfolding n_def r_def by (simp_all add: takeWhile_eq_take [symmetric] dropWhile_eq_drop)
    have bfr: "blank_free r" using bf unfolding r_def blank_free_def by (blast dest: set_dropWhileD)
    have "r = [] \<or> hd r \<noteq> CHR ''~''" unfolding r_def using hd_dropWhile [of "\<lambda>c. c \<noteq> CHR ''/''" w] by auto
    then have "r @ tail_of ws = [] \<or> hd (r @ tail_of ws) \<noteq> CHR ''~''" using not_tilde by (cases r) auto
    then have "tilde_text env (r @ tail_of ws) = r @ tail_of (map (expanded env) ws)"
      using tilde_text_inside [OF assms(1)] IH [OF bfr] by simp
    then have "at_tilde env (w @ tail_of ws) =
        expanded env (take n w) @ r @ tail_of (map (expanded env) ws)"
      unfolding at_tilde_def suffix_of_word [OF assms(1) bf] n_def [symmetric] Let_def
      using n parts(2) by simp
    also have "\<dots> = expanded env w @ tail_of (map (expanded env) ws)"
      using expanded_front [of w env] True unfolding parts(1) r_def by simp
    finally show ?thesis using True unfolding tail by (simp add: inside_Cons)
  qed
  have "tail_of (w # ws) \<noteq> [] \<and> hd (tail_of (w # ws)) \<noteq> CHR ''~''" by (simp add: tail_of_def)
  then have "inside env (u @ tail_of (w # ws)) = u @ inside env (tail_of (w # ws))"
    using Cons.prems(2)
  proof (induction u)
    case (Cons c u)
    then have "\<not> (c = CHR '' '' \<or> c = CHR 0x09)" "blank_free u" by (auto simp: blank_free_def)
    with Cons show ?case by (simp add: inside_Cons)
  qed simp
  then show ?case using first by (simp add: tail_of_def)
qed

text \<open>
  C30: with the default prefixes and suffixes each word of a line is expanded on its own: the words,
  separated by single spaces, become the words that \<open>tilde_expand_word\<close> makes of them, in their order
  and separated the same way. So a word that does not begin with a tilde stays as it is.
\<close>

theorem tilde_expand_words:
  assumes "c_env env" and "default_env env" and "\<forall>w \<in> set ws. blank_free w \<and> NUL \<notin> set w"
  shows "\<exists>blk xs. tilde_expand env (join_words ws) = Inr blk \<and> cstr_of blk = Some (join_words xs) \<and>
    list_all2 (\<lambda>w x. tilde_expand_word env (Some w) = Inr (Some (x @ [NUL]))) ws xs"
proof -
  have "tilde_text env (join_words ws) = join_words (map (expanded env) ws)"
  proof (cases ws)
    case Nil
    then show ?thesis by (simp add: tilde_text_inside [OF assms(2)] inside_Nil at_tilde_Nil)
  next
    case (Cons w vs)
    have all: "\<forall>v \<in> set ([] # ws). blank_free v" using assms(3) by (simp add: blank_free_def)
    have sp: "tail_of ws = CHR '' '' # w @ tail_of vs" using Cons by (simp add: tail_of_def)
    have tl: "tilde_text env (tail_of ws) = tail_of (map (expanded env) ws)"
      using tilde_text_inside [OF assms(2), of "tail_of ws"] inside_tail [OF assms(2), of ws "[]"] all
      by (simp add: sp blank_free_def)
    have "inside env (tail_of ws) = CHR '' '' # tilde_text env (w @ tail_of vs)"
      using inside_Cons [of env "CHR '' ''" "w @ tail_of vs"]
        tilde_text_tilde [OF assms(2), of "w @ tail_of vs"] tilde_text_inside [OF assms(2), of "w @ tail_of vs"]
      by (auto simp: sp)
    then show ?thesis
      using inside_tail [OF assms(2), of ws "[]"] all by (simp add: Cons tail_of_def blank_free_def)
  qed
  moreover have "NUL \<notin> set (join_words ws)"
    using assms(3) by (cases ws) (auto simp: tail_of_def)
  moreover have "\<forall>ps. additional_prefixes env = Some ps \<longrightarrow> [] \<notin> set ps"
    using assms(2) by (simp add: default_env_def default_prefixes_def)
  moreover have "list_all2 (\<lambda>w x. tilde_expand_word env (Some w) = Inr (Some (x @ [NUL]))) ws (map (expanded env) ws)"
    using assms(3) expand_word_value [OF assms(1)] by (simp add: list_all2_conv_all_nth)
  ultimately show ?thesis
    using loop_text assms(1) by (metis tilde_expand_text)
qed

theorem tilde_expand_words_witness:
  "\<exists>blk. tilde_expand demo_env ''a~ ~/x ~bo ~zz'' = Inr blk \<and> cstr_of blk = Some ''a~ /h/x /b ~zz''"
proof -
  let ?ws = "[''a~'', ''~/x'', ''~bo'', ''~zz'']"
  have env: "default_env demo_env" by (simp add: default_env_def demo_env_def)
  have nul: "NUL \<notin> set w" if "w \<in> set ?ws" for w using that by auto
  obtain blk xs where run: "tilde_expand demo_env (join_words ?ws) = Inr blk" "cstr_of blk = Some (join_words xs)"
    and xs: "list_all2 (\<lambda>w x. tilde_expand_word demo_env (Some w) = Inr (Some (x @ [NUL]))) ?ws xs"
    using tilde_expand_words [OF demo_env_ok(1) env, of ?ws] nul by (auto simp: blank_free_def)
  have ex: "expanded demo_env ''a~'' = ''a~''" "expanded demo_env ''~/x'' = ''/h/x''"
    "expanded demo_env ''~bo'' = ''/b''" "expanded demo_env ''~zz'' = ''~zz''"
    by (simp_all add: expanded_def home_dir_def user_dir_def call_hook_def demo_env_def)
  have "xs = [''a~'', ''/h/x'', ''/b'', ''~zz'']"
    using xs expand_word_value [OF demo_env_ok(1) nul] ex by (auto simp: list_all2_Cons1)
  then show ?thesis using run by (simp add: tail_of_def)
qed

end
