(* ===== verification/Hist_Tokenize.thy ===== *)
theory Hist_Tokenize
  imports Tilde
begin

text \<open>
  The tokenizer of \<open>readline-6.2/histexpand.c\<close>, which splits a history line where a shell would, and
  the functions over its words. Characters are read with \<open>byte_at\<close>, so that a read behind the
  terminator is a fault. Lines are in a single-byte encoding (\<open>MB_CUR_MAX\<close> is 1). \<open>delims\<close> stands for
  \<open>history_word_delimiters\<close> and \<open>comment\<close> for \<open>history_comment_char\<close>, \<open>NUL\<close> when there is none.
\<close>

definition c_member :: "char \<Rightarrow> string \<Rightarrow> bool" where
  "c_member c s \<longleftrightarrow> c \<noteq> NUL \<and> c \<in> set s"

definition whitespace :: "char \<Rightarrow> bool" where
  "whitespace c \<longleftrightarrow> c = CHR '' '' \<or> c = CHR 0x09"

definition HISTORY_WORD_DELIMITERS :: string where
  "HISTORY_WORD_DELIMITERS = [CHR '' '', CHR 0x09, CHR 0x0A] @ '';&()|<>''"

definition HISTORY_QUOTE_CHARACTERS :: string where
  "HISTORY_QUOTE_CHARACTERS = [CHR 0x22, CHR 0x27, CHR 0x60]"

definition slashify_in_quotes :: string where
  "slashify_in_quotes = [CHR 0x5C, CHR 0x60, CHR 0x22, CHR ''$'']"

section \<open>history\_tokenize\_word\<close>

lemma byte_at_more: "byte_at s i = Inr c \<Longrightarrow> c \<noteq> NUL \<Longrightarrow> i < length s \<and> s ! i = c"
  by (auto simp: byte_at_def split: if_splits)

text \<open>
  The loop at \<open>get_word\<close>. \<open>delimopen\<close> is the opening parenthesis whenever \<open>nestdelim\<close> is positive.
\<close>

function word_loop :: "string \<Rightarrow> string \<Rightarrow> char \<Rightarrow> nat \<Rightarrow> nat \<Rightarrow> nat run" where
  "word_loop delims s delimiter nestdelim i =
     bind_run (byte_at s i) (\<lambda>c.
     if c = NUL then Inr i
     else
     bind_run (byte_at s (Suc i)) (\<lambda>d.
     if c = CHR 0x5C \<and> d = CHR 0x0A then word_loop delims s delimiter nestdelim (i + 2)
     else if c = CHR 0x5C \<and> delimiter \<noteq> CHR 0x27 \<and>
         (delimiter \<noteq> CHR 0x22 \<or> c_member c slashify_in_quotes)
     then word_loop delims s delimiter nestdelim (i + 2)
     else if nestdelim > 0 \<and> c = CHR ''('' then word_loop delims s delimiter (nestdelim + 1) (i + 1)
     else if nestdelim > 0 \<and> c = delimiter
     then word_loop delims s (if nestdelim = 1 then NUL else delimiter) (nestdelim - 1) (i + 1)
     else if delimiter \<noteq> NUL \<and> c = delimiter then word_loop delims s NUL nestdelim (i + 1)
     else if delimiter = NUL \<and> c_member c delims then Inr i
     else word_loop delims s
            (if delimiter = NUL \<and> c_member c HISTORY_QUOTE_CHARACTERS then c else delimiter)
            nestdelim (i + 1)))"
  by pat_completeness auto
termination
  by (relation "measure (\<lambda>(_, s, _, _, i). Suc (length s) - i)") (auto dest: byte_at_more)

declare word_loop.simps [simp del]

text \<open>What the tests on the first characters decide: the end of the word, or where to go on.\<close>

datatype word_start = Word_End nat | Get_Word nat char nat

definition operator_start :: "string \<Rightarrow> nat \<Rightarrow> char \<Rightarrow> word_start option run" where
  "operator_start s i c =
     bind_run (byte_at s (i + 1)) (\<lambda>peek.
     if peek = c \<and> peek \<noteq> CHR ''$'' then
       if peek = CHR ''<''
       then bind_run (byte_at s (i + 2)) (\<lambda>x.
            Inr (Some (Word_End (if x = CHR ''-'' \<or> x = CHR ''<'' then i + 3 else i + 2))))
       else Inr (Some (Word_End (i + 2)))
     else if peek = CHR ''&'' \<and> (c = CHR ''>'' \<or> c = CHR ''<'') \<or> peek = CHR ''>'' \<and> c = CHR ''&''
     then Inr (Some (Word_End (i + 2)))
     else if peek = CHR ''('' \<and> (c = CHR ''>'' \<or> c = CHR ''<'' \<or> c = CHR ''$'')
     then Inr (Some (Get_Word (i + 2) (CHR '')'') 1))
     else if c \<noteq> CHR ''$'' then Inr (Some (Word_End (i + 1)))
     else Inr None)"

definition glob_start :: "string \<Rightarrow> nat \<Rightarrow> char \<Rightarrow> word_start run" where
  "glob_start s i c =
     (if c_member c ''!@?+*'' then
        bind_run (byte_at s (i + 1)) (\<lambda>peek.
        Inr (if peek = CHR ''('' then Get_Word (i + 2) (CHR '')'') 1 else Get_Word i NUL 0))
      else Inr (Get_Word i NUL 0))"

definition history_tokenize_word :: "string \<Rightarrow> string \<Rightarrow> nat \<Rightarrow> nat run" where
  "history_tokenize_word delims s ind =
     bind_run (byte_at s ind) (\<lambda>c.
     if c_member c [CHR ''('', CHR '')'', CHR 0x0A] then Inr (ind + 1)
     else
     bind_run (if c_member c ''<>;&|$'' then operator_start s ind c else Inr None) (\<lambda>op.
     bind_run (case op of Some w \<Rightarrow> Inr w | None \<Rightarrow> glob_start s ind c) (\<lambda>w.
     case w of
       Word_End i \<Rightarrow> Inr i
     | Get_Word i delimiter nestdelim \<Rightarrow>
         bind_run (byte_at s i) (\<lambda>c.
         if delimiter = NUL \<and> c_member c HISTORY_QUOTE_CHARACTERS
         then word_loop delims s c nestdelim (i + 1)
         else word_loop delims s delimiter nestdelim i))))"

section \<open>history\_tokenize\_internal\<close>

definition skip_while :: "(char \<Rightarrow> bool) \<Rightarrow> string \<Rightarrow> nat \<Rightarrow> nat" where
  "skip_while p s i = i + length (takeWhile p (drop i s))"

definition history_substring :: "string \<Rightarrow> nat \<Rightarrow> nat \<Rightarrow> string" where
  "history_substring s start e = take (e - start) (drop start s)"

lemma word_loop_ge: "word_loop delims s delimiter nest i = Inr e \<Longrightarrow> i \<le> e"
proof (induction "Suc (length s) - i" arbitrary: delimiter nest i rule: less_induct)
  case less
  have next_: "i \<le> e" if "word_loop delims s d n j = Inr e" and "i < length s" and "i < j" for d n j
  proof -
    have "Suc (length s) - j < Suc (length s) - i" using that by linarith
    from less.hyps [OF this that(1)] that show ?thesis by simp
  qed
  obtain c where c: "byte_at s i = Inr c" using less.prems by (subst (asm) word_loop.simps) (auto simp: run_simps)
  show ?case
  proof (cases "c = NUL")
    case True
    then show ?thesis using less.prems c by (subst (asm) word_loop.simps) simp
  next
    case False
    then have "i < length s" using byte_at_more [OF c] by simp
    then obtain d where "byte_at s (Suc i) = Inr d" by (cases "byte_at s (Suc i)") (auto simp: byte_at_Inl_iff)
    then show ?thesis
      using less.prems c False next_ \<open>i < length s\<close>
      by (subst (asm) word_loop.simps) (fastforce split: if_splits)
  qed
qed

lemma operator_start_ge:
  "operator_start s i c = Inr (Some w) \<Longrightarrow> (case w of Word_End e \<Rightarrow> i < e | Get_Word j d n \<Rightarrow> i \<le> j)"
  by (auto simp: operator_start_def run_simps split: if_splits)

lemma glob_start_ge:
  "glob_start s i c = Inr w \<Longrightarrow> (case w of Word_End e \<Rightarrow> i < e | Get_Word j d n \<Rightarrow> i \<le> j)"
  by (auto simp: glob_start_def run_simps split: if_splits)

lemma tokenize_word_ge:
  assumes "history_tokenize_word delims s i = Inr e"
  shows "i \<le> e"
proof -
  obtain c where c: "byte_at s i = Inr c"
    using assms by (auto simp: history_tokenize_word_def run_simps)
  show ?thesis
  proof (cases "c_member c [CHR ''('', CHR '')'', CHR 0x0A]")
    case True
    then show ?thesis using assms c by (simp add: history_tokenize_word_def)
  next
    case False
    obtain op where op: "(if c_member c ''<>;&|$'' then operator_start s i c else Inr None) = Inr op"
      using assms c False by (auto simp: history_tokenize_word_def run_simps simp del: if_split)
    obtain w where w: "(case op of Some w \<Rightarrow> Inr w | None \<Rightarrow> glob_start s i c) = Inr w"
      using assms c False op by (auto simp: history_tokenize_word_def run_simps simp del: if_split)
    have ge: "case w of Word_End e \<Rightarrow> i < e | Get_Word j d n \<Rightarrow> i \<le> j"
      using w op operator_start_ge [of s i c] glob_start_ge [of s i c w]
      by (cases op) (auto split: if_splits)
    show ?thesis
    proof (cases w)
      case (Word_End k)
      then show ?thesis using assms c False op w ge by (simp add: history_tokenize_word_def)
    next
      case (Get_Word j d n)
      have "bind_run (byte_at s j) (\<lambda>c.
          if d = NUL \<and> c_member c HISTORY_QUOTE_CHARACTERS
          then word_loop delims s c n (j + 1) else word_loop delims s d n j) = Inr e"
        using assms c False op w Get_Word by (simp add: history_tokenize_word_def)
      then have "j \<le> e" by (auto simp: run_simps split: if_splits dest!: word_loop_ge)
      then show ?thesis using ge Get_Word by simp
    qed
  qed
qed

text \<open>
  The words, and where among them the one around the index \<open>wind\<close> is, -1 for none. The array grows by
  ten slots whenever its last two are reached.
\<close>

function tokenize_loop ::
    "string \<Rightarrow> char \<Rightarrow> string \<Rightarrow> nat option \<Rightarrow> nat \<Rightarrow> nat \<Rightarrow> int \<Rightarrow> (string list \<times> int) run" where
  "tokenize_loop delims comment s wind i result_index ind =
     bind_run (byte_at s i) (\<lambda>c.
     if c = NUL then Inr ([], ind)
     else
     let start = skip_while whitespace s i in
     bind_run (byte_at s start) (\<lambda>c.
     if c = NUL \<or> c = comment then Inr ([], ind)
     else
     bind_run (history_tokenize_word delims s start) (\<lambda>e.
     let e = (if e = start then skip_while (\<lambda>c. c_member c delims) s (e + 1) else e);
         ind = (case wind of None \<Rightarrow> ind
                | Some w \<Rightarrow> if start \<le> w \<and> w < e then int result_index else ind) in
     bind_run (tokenize_loop delims comment s wind e (result_index + 1) ind) (\<lambda>(ws, ind).
     Inr (history_substring s start e # ws, ind)))))"
  by pat_completeness auto
termination
  by (relation "measure (\<lambda>(_, _, s, _, i, _, _). Suc (length s) - i)")
    (auto simp: skip_while_def dest!: byte_at_more tokenize_word_ge)

declare tokenize_loop.simps [simp del]

text \<open>The empty list stands for \<open>NULL\<close>.\<close>

definition history_tokenize_internal :: "string \<Rightarrow> char \<Rightarrow> string \<Rightarrow> nat option \<Rightarrow> (string list \<times> int) run" where
  "history_tokenize_internal delims comment s wind = tokenize_loop delims comment s wind 0 0 (-1)"

definition history_tokenize :: "string \<Rightarrow> char \<Rightarrow> string \<Rightarrow> string list run" where
  "history_tokenize delims comment s =
     bind_run (history_tokenize_internal delims comment s None) (\<lambda>(ws, ind). Inr ws)"

definition history_find_word :: "string \<Rightarrow> char \<Rightarrow> string \<Rightarrow> nat \<Rightarrow> string option run" where
  "history_find_word delims comment line ind =
     bind_run (history_tokenize_internal delims comment line (Some ind)) (\<lambda>(ws, wind).
     Inr (if wind = -1 \<or> ws = [] then None else Some (ws ! nat wind)))"

section \<open>history\_arg\_extract\<close>

text \<open>The character \<open>$\<close>, used as a number.\<close>

definition DOLLAR :: int where "DOLLAR = 36"

fun join_args :: "string list \<Rightarrow> string" where
  "join_args [] = []"
| "join_args [w] = w"
| "join_args (w # v # ws) = w @ CHR '' '' # join_args (v # ws)"

definition history_arg_extract ::
    "char \<Rightarrow> string \<Rightarrow> char \<Rightarrow> int \<Rightarrow> int \<Rightarrow> string \<Rightarrow> string option run" where
  "history_arg_extract j delims comment first_arg last_arg s =
     bind_run (history_tokenize delims comment s) (\<lambda>ws.
     if ws = [] then Inr None
     else
     let len = int (length ws);
         last_arg = (if last_arg < 0 then len + last_arg - 1 else last_arg);
         first_arg = (if first_arg < 0 then len + first_arg - 1 else first_arg);
         last_arg = (if last_arg = DOLLAR then len - 1 else last_arg);
         first_arg = (if first_arg = DOLLAR then len - 1 else first_arg);
         last_arg = last_arg + 1 in
     if first_arg \<ge> len \<or> last_arg > len \<or> first_arg < 0 \<or> last_arg < 0 \<or> first_arg > last_arg
     then Inr None
     else
     let args = take (nat (last_arg - first_arg)) (drop (nat first_arg) ws) in
     bind_run (put_bytes 0 (join_args args @ [NUL])
        (replicate (sum_list (map (\<lambda>w. length w + 1) args) + 1) j)) (\<lambda>b.
     bind_run (string_in b) (\<lambda>r. Inr (Some r))))"

section \<open>Every line that does not end in a backslash is tokenized\<close>

definition ends_well :: "string \<Rightarrow> bool" where
  "ends_well s \<longleftrightarrow> s = [] \<or> last s \<noteq> CHR 0x5C"

lemma ends_well_backslash: "ends_well s \<Longrightarrow> i < length s \<Longrightarrow> s ! i = CHR 0x5C \<Longrightarrow> i + 2 \<le> length s"
proof (cases "i = length s - 1")
  case True
  moreover assume "ends_well s" and i: "i < length s" and "s ! i = CHR 0x5C"
  moreover from i have "s \<noteq> []" by auto
  ultimately show ?thesis using last_conv_nth [of s] by (simp add: ends_well_def)
qed simp

lemma byte_at_ex: "i \<le> length s \<Longrightarrow> \<exists>c. byte_at s i = Inr c \<and> (c \<noteq> NUL \<longrightarrow> i < length s)"
  by (auto simp: byte_at_def)

lemma word_loop_returns:
  assumes "ends_well s" and "i \<le> length s"
  shows "\<exists>e. word_loop delims s delimiter nest i = Inr e \<and> e \<le> length s"
  using assms(2)
proof (induction "Suc (length s) - i" arbitrary: delimiter nest i rule: less_induct)
  case less
  obtain c where c: "byte_at s i = Inr c" using byte_at_ex [OF less.prems] by blast
  show ?case
  proof (cases "c = NUL")
    case True
    then show ?thesis using less.prems c by (subst word_loop.simps) simp
  next
    case False
    have i: "i < length s" "s ! i = c" using byte_at_more [OF c False] by simp_all
    then obtain d where d: "byte_at s (Suc i) = Inr d" using byte_at_ex [of "Suc i" s] by auto
    have one: "\<exists>e. word_loop delims s x n (Suc i) = Inr e \<and> e \<le> length s" for x n
      using less.hyps [of "Suc i" x n] i by auto
    have two: "\<exists>e. word_loop delims s x n (Suc (Suc i)) = Inr e \<and> e \<le> length s" if "c = CHR 0x5C" for x n
      using less.hyps [of "Suc (Suc i)" x n] ends_well_backslash [OF assms(1), of i] i that by auto
    show ?thesis
      using c d False one two i
      by (subst word_loop.simps) auto
  qed
qed

lemma operator_start_returns:
  assumes "i < length s" and "s ! i = c" and "c \<noteq> NUL"
  shows "\<exists>w. operator_start s i c = Inr w \<and>
    (case w of Some (Word_End e) \<Rightarrow> e \<le> length s | Some (Get_Word j d n) \<Rightarrow> j \<le> length s | None \<Rightarrow> True)"
proof -
  obtain p where p: "byte_at s (i + 1) = Inr p" "p \<noteq> NUL \<longrightarrow> i + 1 < length s"
    using byte_at_ex [of "i + 1" s] assms by auto
  have x: "\<exists>x. byte_at s (i + 2) = Inr x \<and> (x \<noteq> NUL \<longrightarrow> i + 2 < length s)" if "p \<noteq> NUL"
    using byte_at_ex [of "i + 2" s] p that by auto
  show ?thesis
  proof (cases "p = NUL")
    case True
    with p assms show ?thesis by (auto simp: operator_start_def)
  next
    case False
    then obtain x where "byte_at s (i + 2) = Inr x" "x \<noteq> NUL \<longrightarrow> i + 2 < length s" using x by blast
    with p False assms show ?thesis by (auto simp: operator_start_def)
  qed
qed

lemma tokenize_word_returns:
  assumes "ends_well s" and "i < length s" and "s ! i \<noteq> NUL"
  shows "\<exists>e. history_tokenize_word delims s i = Inr e \<and> i \<le> e \<and> e \<le> length s"
proof -
  define c where "c = s ! i"
  have c: "byte_at s i = Inr c" using assms by (simp add: byte_at_def c_def)
  have start: "\<exists>op. (if c_member c ''<>;&|$'' then operator_start s i c else Inr None) = Inr op \<and>
      (case op of Some (Word_End e) \<Rightarrow> e \<le> length s | Some (Get_Word j d n) \<Rightarrow> j \<le> length s | None \<Rightarrow> True)"
    using operator_start_returns [OF assms(2) c_def [symmetric]] assms(3) by (auto simp: c_def)
  obtain p where p: "byte_at s (i + 1) = Inr p" "p \<noteq> NUL \<longrightarrow> i + 1 < length s"
    using byte_at_ex [of "i + 1" s] assms by auto
  then have glob: "\<exists>w. glob_start s i c = Inr w \<and>
      (case w of Word_End e \<Rightarrow> e \<le> length s | Get_Word j d n \<Rightarrow> j \<le> length s)"
    using assms by (auto simp: glob_start_def)
  have word: "\<exists>e. bind_run (byte_at s j) (\<lambda>c.
      if d = NUL \<and> c_member c HISTORY_QUOTE_CHARACTERS
      then word_loop delims s c n (j + 1) else word_loop delims s d n j) = Inr e \<and> e \<le> length s"
    if j: "j \<le> length s" for j d n
  proof -
    obtain x where x: "byte_at s j = Inr x" "x \<noteq> NUL \<longrightarrow> j < length s" using byte_at_ex [OF j] by blast
    then show ?thesis
      using word_loop_returns [OF assms(1), of "j + 1" delims x n] word_loop_returns [OF assms(1) j, of delims d n]
      by (auto simp: c_member_def)
  qed
  have "\<exists>e. history_tokenize_word delims s i = Inr e \<and> e \<le> length s"
    using start glob word assms(2) c
    unfolding history_tokenize_word_def
    by (fastforce split: option.splits word_start.splits)
  then show ?thesis using tokenize_word_ge by blast
qed

text \<open>
  What a list of words has to do with its line: the words stand in it in their order, none is empty,
  and what is left out is blank or the comment.
\<close>

fun covers :: "char \<Rightarrow> string list \<Rightarrow> string \<Rightarrow> bool" where
  "covers comment [] s =
     (let r = dropWhile whitespace s in r = [] \<or> hd r = comment)"
| "covers comment (w # ws) s =
     (let r = dropWhile whitespace s in
      w \<noteq> [] \<and> take (length w) r = w \<and> hd r \<noteq> comment \<and> covers comment ws (drop (length w) r))"

lemma drop_skip_while: "drop (skip_while p s i) s = dropWhile p (drop i s)"
  by (simp add: skip_while_def dropWhile_eq_drop add.commute)

lemma skip_while_le: "i \<le> length s \<Longrightarrow> i \<le> skip_while p s i \<and> skip_while p s i \<le> length s"
  using length_takeWhile_le [of p "drop i s"] by (simp add: skip_while_def)

lemma tokenize_step:
  assumes "byte_at s i = Inr c" and "c \<noteq> NUL" and "start = skip_while whitespace s i"
    and "byte_at s start = Inr d" and "d \<noteq> NUL" and "d \<noteq> comment"
    and "history_tokenize_word delims s start = Inr e0"
    and "e = (if e0 = start then skip_while (\<lambda>c. c_member c delims) s (e0 + 1) else e0)"
    and "ind1 = (case wind of None \<Rightarrow> ind | Some w \<Rightarrow> if start \<le> w \<and> w < e then int k else ind)"
  shows "tokenize_loop delims comment s wind i k ind =
    bind_run (tokenize_loop delims comment s wind e (k + 1) ind1) (\<lambda>(ws, ind).
    Inr (history_substring s start e # ws, ind))"
  unfolding assms(8,9) by (subst tokenize_loop.simps) (use assms(1-7) in \<open>simp add: Let_def cong: option.case_cong\<close>)

lemma tokenize_loop_covers:
  assumes "ends_well s" and "NUL \<notin> set s" and "i \<le> length s"
  shows "\<exists>ws ind'. tokenize_loop delims comment s wind i k ind = Inr (ws, ind') \<and>
    covers comment ws (drop i s)"
  using assms(3)
proof (induction "Suc (length s) - i" arbitrary: i k ind rule: less_induct)
  case less
  define start where "start = skip_while whitespace s i"
  have start: "i \<le> start" "start \<le> length s" using skip_while_le [OF less.prems] by (simp_all add: start_def)
  have rest: "dropWhile whitespace (drop i s) = drop start s" by (simp add: start_def drop_skip_while)
  show ?case
  proof (cases "start = length s \<or> s ! start = comment")
    case True
    then have "covers comment [] (drop i s)"
      using start by (cases "start = length s") (simp_all add: rest hd_drop_conv_nth)
    moreover have "\<exists>ind'. tokenize_loop delims comment s wind i k ind = Inr ([], ind')"
      using True start less.prems
      by (subst tokenize_loop.simps) (auto simp: byte_at_def start_def [symmetric] Let_def)
    ultimately show ?thesis by blast
  next
    case False
    with start have st: "start < length s" by simp
    then have c: "byte_at s start = Inr (s ! start)" "s ! start \<noteq> NUL"
      using assms(2) by (auto simp: byte_at_def dest: nth_mem)
    obtain e0 where e0: "history_tokenize_word delims s start = Inr e0" "start \<le> e0" "e0 \<le> length s"
      using tokenize_word_returns [OF assms(1) st c(2)] by blast
    define e where "e = (if e0 = start then skip_while (\<lambda>c. c_member c delims) s (e0 + 1) else e0)"
    have e: "start < e" "e \<le> length s"
      using e0 st skip_while_le [of "start + 1" s "\<lambda>c. c_member c delims"] by (auto simp: e_def)
    define ind1 where "ind1 = (case wind of None \<Rightarrow> ind
        | Some w \<Rightarrow> if start \<le> w \<and> w < e then int k else ind)"
    have "i < length s" using st start by simp
    then have i: "byte_at s i = Inr (s ! i)" "s ! i \<noteq> NUL" using assms(2) by (auto simp: byte_at_def dest: nth_mem)
    obtain ws ind2 where ws: "tokenize_loop delims comment s wind e (k + 1) ind1 = Inr (ws, ind2)"
        "covers comment ws (drop e s)"
    proof -
      have "Suc (length s) - e < Suc (length s) - i" using e start by linarith
      from less.hyps [OF this e(2), of "k + 1" ind1] that show thesis by blast
    qed
    define w where "w = history_substring s start e"
    have "tokenize_loop delims comment s wind i k ind = Inr (w # ws, ind2)"
      using i c e0 False ws(1)
      by (subst tokenize_step [OF i start_def c _ e0(1) e_def ind1_def]) (simp_all add: w_def)
    moreover have "covers comment (w # ws) (drop i s)"
    proof -
      have "length w = e - start" using e by (simp add: w_def history_substring_def)
      then show ?thesis
        using ws(2) e st False
        by (simp add: rest hd_drop_conv_nth) (auto simp: w_def history_substring_def)
    qed
    ultimately show ?thesis by blast
  qed
qed

section \<open>Plain words\<close>

definition plain :: "char \<Rightarrow> bool" where
  "plain c \<longleftrightarrow> c \<noteq> NUL \<and> c \<noteq> CHR 0x5C \<and> c \<notin> set HISTORY_WORD_DELIMITERS \<and> c \<notin> set HISTORY_QUOTE_CHARACTERS"

definition plain_word :: "string \<Rightarrow> bool" where
  "plain_word w \<longleftrightarrow> w \<noteq> [] \<and> (\<forall>c \<in> set w. plain c)"

lemma plain_facts:
  assumes "plain c"
  shows "c \<noteq> NUL" "\<not> whitespace c" "\<not> c_member c [CHR ''('', CHR '')'', CHR 0x0A]" "c \<noteq> CHR ''(''"
    "\<not> c_member c HISTORY_WORD_DELIMITERS" "\<not> c_member c HISTORY_QUOTE_CHARACTERS" "c \<noteq> CHR 0x5C"
    "c_member c ''<>;&|$'' \<longleftrightarrow> c = CHR ''$''"
  using assms by (auto simp: plain_def c_member_def whitespace_def HISTORY_WORD_DELIMITERS_def)

lemma word_loop_plain:
  assumes "i + n \<le> length s" and "\<forall>k. i \<le> k \<longrightarrow> k < i + n \<longrightarrow> plain (s ! k)"
  shows "word_loop HISTORY_WORD_DELIMITERS s NUL 0 i = word_loop HISTORY_WORD_DELIMITERS s NUL 0 (i + n)"
  using assms
proof (induction n arbitrary: i)
  case (Suc n)
  have "i < length s" "plain (s ! i)" using Suc.prems by auto
  moreover obtain d where "byte_at s (Suc i) = Inr d" using byte_at_ex [of "Suc i" s] Suc.prems by auto
  ultimately have "word_loop HISTORY_WORD_DELIMITERS s NUL 0 i = word_loop HISTORY_WORD_DELIMITERS s NUL 0 (Suc i)"
    by (subst word_loop.simps) (simp add: byte_at_def plain_facts)
  also have "\<dots> = word_loop HISTORY_WORD_DELIMITERS s NUL 0 (Suc i + n)"
    using Suc.prems by (intro Suc.IH) auto
  finally show ?case by simp
qed simp

lemma tokenize_word_plain:
  assumes "i < length s" and "plain (s ! i)" and "byte_at s (Suc i) = Inr d" and "d \<noteq> CHR ''(''"
  shows "history_tokenize_word HISTORY_WORD_DELIMITERS s i = word_loop HISTORY_WORD_DELIMITERS s NUL 0 i"
proof -
  have "byte_at s i = Inr (s ! i)" using assms(1) by (simp add: byte_at_def)
  then show ?thesis
    using assms(3,4) plain_facts [OF assms(2)]
    by (auto simp: history_tokenize_word_def operator_start_def glob_start_def)
qed

text \<open>A plain word, and what follows it, at the index \<open>i\<close>.\<close>

lemma plain_word_at:
  assumes "drop i s = w @ r" and "plain_word w" and "r = [] \<or> \<not> plain (hd r) \<and> hd r \<noteq> CHR ''(''"
  shows "i + length w \<le> length s" and "i < length s" and "s ! i = hd w" and "plain (s ! i)"
    and "byte_at s (i + length w) = Inr (if r = [] then NUL else hd r)"
    and "history_tokenize_word HISTORY_WORD_DELIMITERS s i =
      word_loop HISTORY_WORD_DELIMITERS s NUL 0 (i + length w)"
proof -
  have len: "length s - i = length w + length r" using arg_cong [OF assms(1), of length] by simp
  have w: "w \<noteq> []" "\<forall>c \<in> set w. plain c" using assms(2) by (simp_all add: plain_word_def)
  then show i: "i < length s" using len by (cases w) auto
  then show le: "i + length w \<le> length s" using len by linarith
  have nth: "s ! (i + k) = (w @ r) ! k" if "k < length w + length r" for k
    using nth_drop [of i s k] i assms(1) by simp
  show "s ! i = hd w" using nth [of 0] w(1) by (cases w) simp_all
  then show p: "plain (s ! i)" using w by (cases w) simp_all
  show at: "byte_at s (i + length w) = Inr (if r = [] then NUL else hd r)"
    using nth [of "length w"] len le by (cases r) (auto simp: byte_at_def)
  have pl: "\<forall>k. i \<le> k \<longrightarrow> k < i + length w \<longrightarrow> plain (s ! k)"
  proof (intro allI impI)
    fix k assume "i \<le> k" "k < i + length w"
    then show "plain (s ! k)" using nth [of "k - i"] w(2) by (simp add: nth_append)
  qed
  have "\<exists>d. byte_at s (Suc i) = Inr d \<and> d \<noteq> CHR ''(''"
  proof (cases "length w = 1")
    case True
    then show ?thesis using at assms(3) by auto
  next
    case False
    then have "1 < length w" using w(1) by (cases w) auto
    then have "plain (s ! Suc i)" "Suc i < length s" using pl le by auto
    then show ?thesis using plain_facts(4) [of "s ! Suc i"] by (simp add: byte_at_def)
  qed
  then show "history_tokenize_word HISTORY_WORD_DELIMITERS s i =
      word_loop HISTORY_WORD_DELIMITERS s NUL 0 (i + length w)"
    using tokenize_word_plain [OF i p] word_loop_plain [OF le pl] by auto
qed

lemma word_loop_stop:
  assumes "byte_at s i = Inr c" and "c = NUL \<or> c = CHR '' ''"
  shows "word_loop HISTORY_WORD_DELIMITERS s NUL n i = Inr i"
proof (cases "c = NUL")
  case False
  then have "i < length s" using byte_at_more [OF assms(1)] by simp
  then obtain d where "byte_at s (Suc i) = Inr d" using byte_at_ex [of "Suc i" s] by auto
  with assms False show ?thesis
    by (subst word_loop.simps) (simp add: c_member_def HISTORY_WORD_DELIMITERS_def)
qed (use assms in \<open>simp add: word_loop.simps\<close>)

lemma tokenize_loop_end: "tokenize_loop delims comment s wind (length s) k ind = Inr ([], ind)"
  by (subst tokenize_loop.simps) (simp add: byte_at_def)

lemma tokenize_plain_step:
  assumes "drop i s = b @ w @ r" and "b = [] \<or> b = '' ''" and "plain_word w" and "hd w \<noteq> comment"
    and "r = [] \<or> hd r = CHR '' ''"
  shows "tokenize_loop HISTORY_WORD_DELIMITERS comment s None i k ind =
      bind_run (tokenize_loop HISTORY_WORD_DELIMITERS comment s None (i + length b + length w) (k + 1) ind)
        (\<lambda>(ws, ind). Inr (w # ws, ind))"
    and "drop (i + length b + length w) s = r"
proof -
  define j where "j = i + length b"
  obtain c u where w: "w = c # u" "plain c" using assms(3) by (cases w) (auto simp: plain_word_def)
  have dj: "drop j s = w @ r" using assms(1) unfolding j_def
    by (metis add.commute append_eq_conv_conj drop_drop)
  have blank: "\<not> plain CHR '' ''" by (simp add: plain_def HISTORY_WORD_DELIMITERS_def)
  have r: "r = [] \<or> \<not> plain (hd r) \<and> hd r \<noteq> CHR ''(''" using assms(5) blank by auto
  note at = plain_word_at [OF dj assms(3) r]
  have start: "skip_while whitespace s i = j"
    using assms(1,2) plain_facts(2) [OF w(2)] by (auto simp: skip_while_def j_def w(1) whitespace_def)
  have i: "i < length s" using at(2) by (simp add: j_def)
  have "s ! i = hd (b @ w)" 
    unfolding hd_drop_conv_nth [OF i, symmetric] assms(1) using w(1) by (simp add: hd_append)
  then have si: "s ! i \<noteq> NUL" using assms(2) plain_facts(1) [OF w(2)] w(1) by auto
  have e: "history_tokenize_word HISTORY_WORD_DELIMITERS s j = Inr (j + length w)"
    using at(6) word_loop_stop [OF at(5)] assms(5) by auto
  have "history_substring s j (j + length w) = w" by (simp add: history_substring_def dj)
  then show "tokenize_loop HISTORY_WORD_DELIMITERS comment s None i k ind =
      bind_run (tokenize_loop HISTORY_WORD_DELIMITERS comment s None (i + length b + length w) (k + 1) ind)
        (\<lambda>(ws, ind). Inr (w # ws, ind))"
    using tokenize_step [of s i "s ! i" j "s ! j" comment HISTORY_WORD_DELIMITERS "j + length w"
        "j + length w" ind ind k None] i si start at(2,3) e w assms(4) plain_facts(1) [OF w(2)]
    by (simp add: byte_at_def j_def [symmetric])
  show "drop (i + length b + length w) s = r"
    using dj by (metis add.commute append_eq_conv_conj drop_drop j_def)
qed

lemma tokenize_loop_plain:
  assumes "drop i s = b @ w @ tail_of ws" and "b = [] \<or> b = '' ''"
    and "\<forall>v \<in> set (w # ws). plain_word v \<and> hd v \<noteq> comment" and "i \<le> length s"
  shows "tokenize_loop HISTORY_WORD_DELIMITERS comment s None i k ind = Inr (w # ws, ind)"
  using assms
proof (induction ws arbitrary: i k b w)
  case Nil
  have d: "drop i s = b @ w @ []" using Nil.prems(1) by (simp add: tail_of_def)
  note step = tokenize_plain_step [OF d Nil.prems(2)]
  have len: "length s - i = length b + length w" using arg_cong [OF d, of length] by simp
  then have "i + length b + length w = length s" using Nil.prems(4) by linarith
  then show ?case using step(1) [of comment k ind] Nil.prems(3) by (simp add: tokenize_loop_end)
next
  case (Cons v vs)
  have t: "tail_of (v # vs) = '' '' @ v @ tail_of vs" by (simp add: tail_of_def)
  note step = tokenize_plain_step [OF Cons.prems(1,2)]
  have r: "tail_of (v # vs) = [] \<or> hd (tail_of (v # vs)) = CHR '' ''" by (simp add: t)
  have pw: "plain_word w" "hd w \<noteq> comment" using Cons.prems(3) by simp_all
  have "drop (i + length b + length w) s = '' '' @ v @ tail_of vs" using step(2) [OF pw r] t by simp
  moreover from this have "i + length b + length w \<le> length s" by (metis append_is_Nil_conv drop_eq_Nil list.distinct(1) nat_le_linear)
  ultimately have "tokenize_loop HISTORY_WORD_DELIMITERS comment s None (i + length b + length w) (k + 1) ind =
      Inr (v # vs, ind)"
    using Cons.IH Cons.prems(3) by simp
  then show ?case using step(1) [OF pw r, of k ind] by simp
qed

lemma tokenize_plain:
  assumes "\<forall>w \<in> set ws. plain_word w \<and> hd w \<noteq> comment"
  shows "history_tokenize HISTORY_WORD_DELIMITERS comment (join_words ws) = Inr ws"
proof (cases ws)
  case Nil
  then show ?thesis
    using tokenize_loop_end [of _ _ "[]"] by (simp add: history_tokenize_def history_tokenize_internal_def)
next
  case (Cons w vs)
  then show ?thesis
    using tokenize_loop_plain [of 0 "join_words ws" "[]" w vs comment] assms
    by (simp add: history_tokenize_def history_tokenize_internal_def)
qed

text \<open>
  a line that does not end in a backslash is tokenized without a read outside it, whatever quotes,
  operators, parentheses and delimiters it has, and the words stand in the line one after the other,
  none of them empty, with only blanks between them and the comment, if any, behind them. A plain word
  that ends in a backslash, however, is read behind its terminator.
\<close>

theorem history_tokenize_covers:
  assumes "NUL \<notin> set s" and "plain_word w"
  shows "(s = [] \<or> last s \<noteq> CHR 0x5C \<longrightarrow>
      (\<exists>ws. history_tokenize delims comment s = Inr ws \<and> covers comment ws s)) \<and>
    history_tokenize HISTORY_WORD_DELIMITERS NUL (w @ [CHR 0x5C]) = Inl Out_Of_Bounds_Read"
proof (intro conjI impI)
  assume "s = [] \<or> last s \<noteq> CHR 0x5C"
  then have "ends_well s" by (simp add: ends_well_def)
  from tokenize_loop_covers [OF this assms(1), of 0 delims comment None 0 "-1"]
  show "\<exists>ws. history_tokenize delims comment s = Inr ws \<and> covers comment ws s"
    by (auto simp: history_tokenize_def history_tokenize_internal_def)
next
  let ?s = "w @ [CHR 0x5C]"
  have r: "[CHR 0x5C] = [] \<or> \<not> plain (hd [CHR 0x5C]) \<and> hd [CHR 0x5C] \<noteq> CHR ''(''" by (simp add: plain_def)
  note at = plain_word_at [of 0 ?s w "[CHR 0x5C]", OF _ assms(2) r, simplified]
  obtain c u where w: "w = c # u" "plain c" using assms(2) by (cases w) (auto simp: plain_word_def)
  have "word_loop HISTORY_WORD_DELIMITERS ?s NUL 0 (length w) = Inl Out_Of_Bounds_Read"
    by (subst word_loop.simps, subst word_loop.simps) (simp add: byte_at_def)
  then have "history_tokenize_word HISTORY_WORD_DELIMITERS ?s 0 = Inl Out_Of_Bounds_Read" using at by simp
  then show "history_tokenize HISTORY_WORD_DELIMITERS NUL ?s = Inl Out_Of_Bounds_Read"
    using w plain_facts [OF w(2)]
    unfolding history_tokenize_def history_tokenize_internal_def
    by (subst tokenize_loop.simps) (simp add: byte_at_def skip_while_def)
qed

theorem history_tokenize_covers_witness:
  "(\<exists>ws. history_tokenize HISTORY_WORD_DELIMITERS NUL ''ls >x'' = Inr ws \<and> covers NUL ws ''ls >x'') \<and>
    history_tokenize HISTORY_WORD_DELIMITERS NUL (''ls'' @ [CHR 0x5C]) = Inl Out_Of_Bounds_Read"
proof -
  have "plain_word ''ls''"
    by (simp add: plain_word_def plain_def HISTORY_WORD_DELIMITERS_def HISTORY_QUOTE_CHARACTERS_def)
  then show ?thesis
    using history_tokenize_covers [of "''ls >x''" "''ls''" HISTORY_WORD_DELIMITERS NUL] by simp
qed

section \<open>The arguments of a line\<close>

lemma join_args_words: "join_args ws = join_words ws"
  by (induction ws rule: join_args.induct) (simp_all add: tail_of_def)

lemma length_join_args: "length (join_args ws) \<le> sum_list (map (\<lambda>w. length w + 1) ws)"
  by (induction ws rule: join_args.induct) simp_all

lemma NUL_join_args: "\<forall>w \<in> set ws. NUL \<notin> set w \<Longrightarrow> NUL \<notin> set (join_args ws)"
  by (induction ws rule: join_args.induct) simp_all

definition word_number :: "nat \<Rightarrow> nat \<Rightarrow> nat" where
  "word_number n len = (if n = 36 then len - 1 else n)"

lemma arg_extract_value:
  fixes m n :: nat
  assumes "history_tokenize delims comment s = Inr ws" and "ws \<noteq> []" and "\<forall>w \<in> set ws. NUL \<notin> set w"
  defines "f \<equiv> word_number m (length ws)" and "l \<equiv> word_number n (length ws)"
  shows "history_arg_extract j delims comment (int m) (int n) s =
    Inr (if f < length ws \<and> l < length ws \<and> f \<le> l + 1
         then Some (join_words (take (l + 1 - f) (drop f ws))) else None)"
proof -
  define len where "len = length ws"
  have len: "0 < len" using assms(2) by (simp add: len_def)
  have idx: "(if int k = DOLLAR then int len - 1 else int k) = int (word_number k len)" for k
    using len by (auto simp: word_number_def DOLLAR_def of_nat_diff)
  define args where "args = take (l + 1 - f) (drop f ws)"
  have nul: "NUL \<notin> set (join_args args)"
    using assms(3) unfolding args_def by (intro NUL_join_args) (blast dest: in_set_takeD in_set_dropD)
  have block: "bind_run (put_bytes 0 (join_args args @ [NUL])
        (replicate (sum_list (map (\<lambda>w. length w + 1) args) + 1) j)) (\<lambda>b.
      bind_run (string_in b) (\<lambda>r. Inr (Some r))) = Inr (Some (join_args args))"
    using length_join_args [of args] cstr_of_append_NUL [OF nul]
    by (simp add: put_bytes_start string_in_def)
  have cond: "(int f \<ge> int len \<or> int l + 1 > int len \<or> int f < 0 \<or> int l + 1 < 0 \<or> int f > int l + 1) \<longleftrightarrow>
      \<not> (f < len \<and> l < len \<and> f \<le> l + 1)" by linarith
  have args: "take (nat (int l + 1 - int f)) (drop (nat (int f)) ws) = args"
  proof -
    have "nat (int l + 1 - int f) = l + 1 - f" by linarith
    then show ?thesis by (simp add: args_def)
  qed
  have fl: "(if int m = DOLLAR then int len - 1 else int m) = int f" "(if int n = DOLLAR then int len - 1 else int n) = int l"
    using idx by (simp_all add: f_def l_def len_def)
  have "\<not> int m < 0" "\<not> int n < 0" by simp_all
  then have "history_arg_extract j delims comment (int m) (int n) s =
      (if f < len \<and> l < len \<and> f \<le> l + 1 then Inr (Some (join_args args)) else Inr None)"
    unfolding history_arg_extract_def assms(1) bind_run_simps Let_def len_def [symmetric]
    by (simp only: fl cond args block assms(2) if_False not_not if_not_P simp_thms split: if_split) simp
  then show ?thesis by (simp add: join_args_words args_def len_def)
qed

text \<open>
  C32: what the word designators give. On a line of plain words the words number \<open>m\<close> to \<open>n\<close> are
  extracted, joined by single spaces; a number too large is an error; \<open>1\<close> to \<open>$\<close> are the arguments.
  But \<open>$\<close> is passed as its character code: the number 36 means the last word, and the word with
  that number cannot be asked for.
\<close>

theorem history_arg_extract_words:
  fixes j :: char
  assumes "\<forall>w \<in> set ws. plain_word w \<and> hd w \<noteq> comment" and "ws \<noteq> []"
  defines "extract \<equiv> \<lambda>m n. history_arg_extract j HISTORY_WORD_DELIMITERS comment (int m) (int n) (join_words ws)"
  shows "(\<forall>m n. m \<le> n \<and> n < length ws \<and> m \<noteq> 36 \<and> n \<noteq> 36 \<longrightarrow>
      extract m n = Inr (Some (join_words (take (n + 1 - m) (drop m ws))))) \<and>
    (\<forall>n. length ws \<le> n \<and> n \<noteq> 36 \<longrightarrow> extract n n = Inr None) \<and>
    extract 1 36 = Inr (if length ws = 1 then None else Some (join_words (tl ws))) \<and>
    extract 36 36 = Inr (Some (last ws))"
proof -
  have tok: "history_tokenize HISTORY_WORD_DELIMITERS comment (join_words ws) = Inr ws"
    by (rule tokenize_plain [OF assms(1)])
  have nul: "\<forall>w \<in> set ws. NUL \<notin> set w"
    using assms(1) by (fastforce simp: plain_word_def plain_def)
  note val = arg_extract_value [OF tok assms(2) nul, of j]
  have len: "0 < length ws" using assms(2) by simp
  have "drop (length ws - 1) ws = [last ws]"
    using assms(2) by (metis append_butlast_last_id append_eq_conv_conj length_butlast)
  moreover have last_one: "length ws - (length ws - Suc 0) = 1" using len by linarith
  ultimately have "extract 36 36 = Inr (Some (last ws))"
    using val [of 36 36] len last_one by (simp add: extract_def word_number_def tail_of_def)
  moreover have "extract 1 36 = Inr (if length ws = 1 then None else Some (join_words (tl ws)))"
    using val [of 1 36] assms(2) by (cases ws) (auto simp: extract_def word_number_def)
  ultimately show ?thesis using val by (auto simp: extract_def word_number_def)
qed

theorem history_arg_extract_words_witness:
  "history_arg_extract NUL HISTORY_WORD_DELIMITERS NUL 1 2 ''cp a b c'' = Inr (Some ''a b'') \<and>
    history_arg_extract NUL HISTORY_WORD_DELIMITERS NUL 36 36 ''cp a b c'' = Inr (Some ''c'')"
proof -
  let ?ws = "[''cp'', ''a'', ''b'', ''c'']"
  have pl: "\<forall>w \<in> set ?ws. plain_word w \<and> hd w \<noteq> NUL"
    by (simp add: plain_word_def plain_def HISTORY_WORD_DELIMITERS_def HISTORY_QUOTE_CHARACTERS_def)
  have j: "join_words ?ws = ''cp a b c''" "join_words (take (2 + 1 - 1) (drop 1 ?ws)) = ''a b''"
    by (simp_all add: tail_of_def)
  have ne: "?ws \<noteq> []" by simp
  note all = history_arg_extract_words [OF pl ne, of NUL, unfolded j(1)]
  have "history_arg_extract NUL HISTORY_WORD_DELIMITERS NUL (int 1) (int 2) ''cp a b c'' =
      Inr (Some (join_words (take (2 + 1 - 1) (drop 1 ?ws))))"
    using conjunct1 [OF all, rule_format, of 1 2] by (simp del: join_words.simps)
  then show ?thesis using all by (simp add: tail_of_def)
qed

end
