(* ===== verification/History.thy ===== *)
theory History
  imports C_Strings
begin

text \<open>
  \<open>readline-6.2/history.c\<close> and \<open>histsearch.c\<close>: the history list and the search in it. The state holds
  the file's variables, the array \<open>the_history\<close> as the list of its slots - entry addresses, 0 being
  \<open>NULL\<close> - and a heap of entries, so that an entry used after it was released, a slot outside the
  array and a null line are faults. A line is a C string; a time stamp is the block of bytes it is
  kept in, terminator included, for the code puts the comment character, by default \<open>NUL\<close>, in front of
  its digits. \<open>xmalloc\<close> always succeeds: it ends the process otherwise.
\<close>

section \<open>State\<close>

record hist_entry =
  he_line :: "string option"
  he_time :: "string option"
  he_data :: nat

record hist_state =
  hs_heap :: "nat \<Rightarrow> hist_entry option"
  hs_fresh :: nat
  hs_junk :: nat
  the_history :: "nat list option"
  history_stifled :: bool
  history_size :: int
  history_max_entries :: int
  max_input_history :: int
  history_offset :: int
  history_length :: int
  history_base :: int

definition DEFAULT_HISTORY_GROW_SIZE :: int where "DEFAULT_HISTORY_GROW_SIZE = 50"

definition slot :: "int \<Rightarrow> hist_state \<Rightarrow> nat run" where
  "slot i st =
     (case the_history st of
        None \<Rightarrow> Inl Null_Pointer
      | Some arr \<Rightarrow>
          if 0 \<le> i \<and> i < int (length arr) then Inr (arr ! nat i) else Inl Out_Of_Bounds_Read)"

definition set_slot :: "int \<Rightarrow> nat \<Rightarrow> hist_state \<Rightarrow> hist_state run" where
  "set_slot i a st =
     (case the_history st of
        None \<Rightarrow> Inl Null_Pointer
      | Some arr \<Rightarrow>
          if 0 \<le> i \<and> i < int (length arr) then Inr (st\<lparr>the_history := Some (arr[nat i := a])\<rparr>)
          else Inl Buffer_Overflow)"

definition entry :: "nat \<Rightarrow> hist_state \<Rightarrow> hist_entry run" where
  "entry a st =
     (if a = 0 then Inl Null_Pointer
      else case hs_heap st a of None \<Rightarrow> Inl Use_After_Free | Some e \<Rightarrow> Inr e)"

definition set_entry :: "nat \<Rightarrow> hist_entry \<Rightarrow> hist_state \<Rightarrow> hist_state" where
  "set_entry a e st = st\<lparr>hs_heap := (hs_heap st)(a \<mapsto> e)\<rparr>"

text \<open>\<open>savestring\<close> of a C string and of a block read as one; a block without terminator is overrun.\<close>

definition c_line :: "string option \<Rightarrow> string run" where
  "c_line s = (case s of None \<Rightarrow> Inl Null_Pointer | Some s \<Rightarrow> Inr s)"

definition block_string :: "string option \<Rightarrow> string run" where
  "block_string b =
     (case b of
        None \<Rightarrow> Inl Null_Pointer
      | Some b \<Rightarrow> (case cstr_of b of None \<Rightarrow> Inl Out_Of_Bounds_Read | Some s \<Rightarrow> Inr s))"

definition savestring :: "string \<Rightarrow> string" where
  "savestring s = s @ [NUL]"

section \<open>The functions of history.c\<close>

record history_state =
  st_entries :: "nat list option"
  st_offset :: int
  st_length :: int
  st_size :: int
  st_stifled :: bool

definition history_get_history_state :: "hist_state \<Rightarrow> history_state" where
  "history_get_history_state st =
     \<lparr>st_entries = the_history st, st_offset = history_offset st, st_length = history_length st,
      st_size = history_size st, st_stifled = history_stifled st\<rparr>"

text \<open>A state that is not stifled does not reset the flag.\<close>

definition history_set_history_state :: "history_state \<Rightarrow> hist_state \<Rightarrow> hist_state" where
  "history_set_history_state s st =
     st\<lparr>the_history := st_entries s, history_offset := st_offset s, history_length := st_length s,
       history_size := st_size s, history_stifled := st_stifled s \<or> history_stifled st\<rparr>"

definition using_history :: "hist_state \<Rightarrow> hist_state" where
  "using_history st = st\<lparr>history_offset := history_length st\<rparr>"

text \<open>The loop of \<open>history_total_bytes\<close> over the slots up to the null one.\<close>

fun total_bytes :: "hist_state \<Rightarrow> nat list \<Rightarrow> int \<Rightarrow> int run" where
  "total_bytes st [] n = Inl Out_Of_Bounds_Read"
| "total_bytes st (a # slots) n =
     (if a = 0 then Inr n
      else
      bind_run (entry a st) (\<lambda>e.
      bind_run (c_line (he_line e)) (\<lambda>l.
      bind_run (block_string (he_time e)) (\<lambda>t.
      total_bytes st slots (wrap32 (n + int (length l) + int (length t)))))))"

definition history_total_bytes :: "hist_state \<Rightarrow> int run" where
  "history_total_bytes st =
     (case the_history st of None \<Rightarrow> Inr 0 | Some arr \<Rightarrow> total_bytes st arr 0)"

definition where_history :: "hist_state \<Rightarrow> int" where
  "where_history st = history_offset st"

definition history_set_pos :: "int \<Rightarrow> hist_state \<Rightarrow> bool \<times> hist_state" where
  "history_set_pos pos st =
     (if pos > history_length st \<or> pos < 0 \<or> the_history st = None then (False, st)
      else (True, st\<lparr>history_offset := pos\<rparr>))"

definition history_list :: "hist_state \<Rightarrow> nat list option" where
  "history_list st = the_history st"

definition current_history :: "hist_state \<Rightarrow> nat run" where
  "current_history st =
     (if history_offset st = history_length st \<or> the_history st = None then Inr 0
      else slot (history_offset st) st)"

definition previous_history :: "hist_state \<Rightarrow> (nat \<times> hist_state) run" where
  "previous_history st =
     (if history_offset st \<noteq> 0
      then let st = st\<lparr>history_offset := history_offset st - 1\<rparr> in
           bind_run (slot (history_offset st) st) (\<lambda>a. Inr (a, st))
      else Inr (0, st))"

definition next_history :: "hist_state \<Rightarrow> (nat \<times> hist_state) run" where
  "next_history st =
     (if history_offset st = history_length st then Inr (0, st)
      else let st = st\<lparr>history_offset := history_offset st + 1\<rparr> in
           bind_run (slot (history_offset st) st) (\<lambda>a. Inr (a, st)))"

definition history_get :: "int \<Rightarrow> hist_state \<Rightarrow> nat run" where
  "history_get offset st =
     (let local_index = wrap32 (offset - history_base st) in
      if local_index \<ge> history_length st \<or> local_index < 0 \<or> the_history st = None then Inr 0
      else slot local_index st)"

definition alloc_history_entry ::
    "string option \<Rightarrow> string option \<Rightarrow> hist_state \<Rightarrow> nat \<times> hist_state" where
  "alloc_history_entry str ts st =
     (hs_fresh st,
      st\<lparr>hs_heap := (hs_heap st)(hs_fresh st \<mapsto> \<lparr>he_line = str, he_time = ts, he_data = 0\<rparr>),
        hs_fresh := Suc (hs_fresh st)\<rparr>)"

text \<open>\<open>atol\<close> with a \<open>long\<close> of 32 bits.\<close>

definition atol :: "string \<Rightarrow> int" where
  "atol s = max (- (2 ^ 31)) (min (2 ^ 31 - 1) (decimal_value s))"

text \<open>\<open>hist\<close> is an entry's address or 0; \<open>comment\<close> is \<open>history_comment_char\<close>.\<close>

definition history_get_time :: "char \<Rightarrow> nat \<Rightarrow> hist_state \<Rightarrow> int run" where
  "history_get_time comment hist st =
     (if hist = 0 then Inr 0
      else
      bind_run (entry hist st) (\<lambda>e.
      case he_time e of
        None \<Rightarrow> Inr 0
      | Some [] \<Rightarrow> Inl Out_Of_Bounds_Read
      | Some (c # ts) \<Rightarrow>
          if c \<noteq> comment then Inr 0
          else (case cstr_of ts of None \<Rightarrow> Inl Out_Of_Bounds_Read | Some s \<Rightarrow> Inr (atol s))))"

definition hist_inittime :: "char \<Rightarrow> nat \<Rightarrow> string" where
  "hist_inittime comment now = comment # show_nat now @ [NUL]"

text \<open>\<open>for (; i < \<dots>; i++) the_history[i] = the_history[i + 1]\<close>, \<open>n\<close> times.\<close>

fun shift_down :: "nat \<Rightarrow> int \<Rightarrow> hist_state \<Rightarrow> hist_state run" where
  "shift_down 0 i st = Inr st"
| "shift_down (Suc n) i st =
     bind_run (slot (i + 1) st) (\<lambda>a. bind_run (set_slot i a st) (shift_down n (i + 1)))"

definition free_history_entry :: "nat \<Rightarrow> hist_state \<Rightarrow> (nat \<times> hist_state) run" where
  "free_history_entry hist st =
     (if hist = 0 then Inr (0, st)
      else
      bind_run (entry hist st) (\<lambda>e. Inr (he_data e, st\<lparr>hs_heap := (hs_heap st)(hist := None)\<rparr>)))"

definition drop_oldest :: "hist_state \<Rightarrow> hist_state run" where
  "drop_oldest st =
     bind_run (slot 0 st) (\<lambda>a.
     bind_run (if a \<noteq> 0 then free_history_entry a st else Inr (0, st)) (\<lambda>(_, st).
     bind_run (shift_down (nat (history_length st)) 0 st) (\<lambda>st.
     Inr (st\<lparr>history_base := wrap32 (history_base st + 1)\<rparr>))))"

definition grow_array :: "hist_state \<Rightarrow> hist_state" where
  "grow_array st =
     (if history_size st = 0
      then st\<lparr>history_size := DEFAULT_HISTORY_GROW_SIZE,
             the_history := Some (replicate (nat DEFAULT_HISTORY_GROW_SIZE) (hs_junk st)),
             history_length := 1\<rparr>
      else
        (let st = (if history_length st = history_size st - 1
                   then st\<lparr>history_size := history_size st + DEFAULT_HISTORY_GROW_SIZE,
                          the_history := Some
                            (let arr = (case the_history st of None \<Rightarrow> [] | Some arr \<Rightarrow> arr);
                                 n = nat (history_size st + DEFAULT_HISTORY_GROW_SIZE) in
                             take n arr @ replicate (n - length arr) (hs_junk st))\<rparr>
                   else st)
         in st\<lparr>history_length := history_length st + 1\<rparr>))"

definition add_history :: "char \<Rightarrow> nat \<Rightarrow> string option \<Rightarrow> hist_state \<Rightarrow> hist_state run" where
  "add_history comment now str st =
     (if history_stifled st \<and> history_length st = history_max_entries st \<and> history_length st = 0
      then Inr st
      else
      bind_run (if history_stifled st \<and> history_length st = history_max_entries st
                then drop_oldest st else Inr (grow_array st)) (\<lambda>st.
      case alloc_history_entry str (Some (hist_inittime comment now)) st of (a, st) \<Rightarrow>
      bind_run (set_slot (history_length st) 0 st) (\<lambda>st.
      set_slot (history_length st - 1) a st)))"

definition add_history_time :: "string option \<Rightarrow> hist_state \<Rightarrow> hist_state run" where
  "add_history_time str st =
     (case str of
        None \<Rightarrow> Inr st
      | Some s \<Rightarrow>
          bind_run (slot (history_length st - 1) st) (\<lambda>a.
          bind_run (entry a st) (\<lambda>e.
          Inr (set_entry a (e\<lparr>he_time := Some (savestring s)\<rparr>) st))))"

definition copy_history_entry :: "nat \<Rightarrow> hist_state \<Rightarrow> (nat \<times> hist_state) run" where
  "copy_history_entry hist st =
     (if hist = 0 then Inr (0, st)
      else
      bind_run (entry hist st) (\<lambda>e.
      bind_run (case he_time e of
                  None \<Rightarrow> Inr None
                | Some t \<Rightarrow> bind_run (block_string (Some t)) (\<lambda>s. Inr (Some (savestring s)))) (\<lambda>ts.
      case alloc_history_entry (he_line e) None st of (a, st) \<Rightarrow>
      Inr (a, set_entry a \<lparr>he_line = he_line e, he_time = ts, he_data = he_data e\<rparr> st))))"

definition replace_history_entry ::
    "int \<Rightarrow> string option \<Rightarrow> nat \<Rightarrow> hist_state \<Rightarrow> (nat \<times> hist_state) run" where
  "replace_history_entry which line data st =
     (if which < 0 \<or> which \<ge> history_length st then Inr (0, st)
      else
      bind_run (slot which st) (\<lambda>old.
      bind_run (c_line line) (\<lambda>l.
      bind_run (entry old st) (\<lambda>e.
      bind_run (block_string (he_time e)) (\<lambda>t.
      case alloc_history_entry (Some l) (Some (savestring t)) st of (a, st) \<Rightarrow>
      bind_run (set_slot which a
        (set_entry a \<lparr>he_line = Some l, he_time = Some (savestring t), he_data = data\<rparr> st)) (\<lambda>st.
      Inr (old, st)))))))"

text \<open>
  The loop of \<open>replace_history_data\<close>, over the slots from \<open>i\<close> on; the result is the last match.
\<close>

fun replace_all :: "nat \<Rightarrow> int \<Rightarrow> bool \<Rightarrow> nat \<Rightarrow> nat \<Rightarrow> int \<Rightarrow> hist_state \<Rightarrow> (int \<times> hist_state) run" where
  "replace_all 0 i every old new last_match st = Inr (last_match, st)"
| "replace_all (Suc n) i every old new last_match st =
     bind_run (slot i st) (\<lambda>a.
     if a = 0 then replace_all n (i + 1) every old new last_match st
     else
     bind_run (entry a st) (\<lambda>e.
     if he_data e = old
     then replace_all n (i + 1) every old new i
            (if every then set_entry a (e\<lparr>he_data := new\<rparr>) st else st)
     else replace_all n (i + 1) every old new last_match st))"

definition replace_history_data :: "int \<Rightarrow> nat \<Rightarrow> nat \<Rightarrow> hist_state \<Rightarrow> hist_state run" where
  "replace_history_data which old new st =
     (if which < -2 \<or> which \<ge> history_length st \<or> history_length st = 0 \<or> the_history st = None then Inr st
      else if which \<ge> 0
      then bind_run (slot which st) (\<lambda>a.
           if a = 0 then Inr st
           else bind_run (entry a st) (\<lambda>e.
                Inr (if he_data e = old then set_entry a (e\<lparr>he_data := new\<rparr>) st else st)))
      else
      bind_run (replace_all (nat (history_length st)) 0 (which = -1) old new (-1) st) (\<lambda>(last_match, st).
      if which = -2 \<and> last_match \<ge> 0
      then bind_run (slot last_match st) (\<lambda>a.
           bind_run (entry a st) (\<lambda>e. Inr (set_entry a (e\<lparr>he_data := new\<rparr>) st)))
      else Inr st))"

definition remove_history :: "int \<Rightarrow> hist_state \<Rightarrow> (nat \<times> hist_state) run" where
  "remove_history which st =
     (if which < 0 \<or> which \<ge> history_length st \<or> history_length st = 0 \<or> the_history st = None
      then Inr (0, st)
      else
      bind_run (slot which st) (\<lambda>a.
      bind_run (shift_down (nat (history_length st - which)) which st) (\<lambda>st.
      Inr (a, st\<lparr>history_length := history_length st - 1\<rparr>))))"

text \<open>The two loops of \<open>stifle_history\<close>.\<close>

fun free_slots :: "nat \<Rightarrow> int \<Rightarrow> hist_state \<Rightarrow> hist_state run" where
  "free_slots 0 i st = Inr st"
| "free_slots (Suc n) i st =
     bind_run (slot i st) (\<lambda>a.
     bind_run (free_history_entry a st) (\<lambda>(_, st). free_slots n (i + 1) st))"

fun move_slots :: "nat \<Rightarrow> int \<Rightarrow> int \<Rightarrow> hist_state \<Rightarrow> hist_state run" where
  "move_slots 0 i j st = Inr st"
| "move_slots (Suc n) i j st =
     bind_run (slot i st) (\<lambda>a. bind_run (set_slot j a st) (move_slots n (i + 1) (j + 1)))"

definition stifle_history :: "int \<Rightarrow> hist_state \<Rightarrow> hist_state run" where
  "stifle_history max_entries st =
     (let max_entries = (if max_entries < 0 then 0 else max_entries) in
      bind_run
        (if history_length st > max_entries
         then let n = history_length st - max_entries in
              bind_run (free_slots (nat n) 0 st) (\<lambda>st.
              bind_run (move_slots (nat max_entries) n 0 (st\<lparr>history_base := n\<rparr>)) (\<lambda>st.
              bind_run (set_slot max_entries 0 st) (\<lambda>st.
              Inr (st\<lparr>history_length := max_entries\<rparr>))))
         else Inr st) (\<lambda>st.
      Inr (st\<lparr>history_stifled := True, max_input_history := max_entries, history_max_entries := max_entries\<rparr>)))"

definition unstifle_history :: "hist_state \<Rightarrow> int \<times> hist_state" where
  "unstifle_history st =
     (if history_stifled st then (history_max_entries st, st\<lparr>history_stifled := False\<rparr>)
      else (- history_max_entries st, st))"

definition history_is_stifled :: "hist_state \<Rightarrow> bool" where
  "history_is_stifled st = history_stifled st"

fun clear_slots :: "nat \<Rightarrow> int \<Rightarrow> hist_state \<Rightarrow> hist_state run" where
  "clear_slots 0 i st = Inr st"
| "clear_slots (Suc n) i st =
     bind_run (slot i st) (\<lambda>a.
     bind_run (free_history_entry a st) (\<lambda>(_, st).
     bind_run (set_slot i 0 st) (clear_slots n (i + 1))))"

definition clear_history :: "hist_state \<Rightarrow> hist_state run" where
  "clear_history st =
     bind_run (clear_slots (nat (history_length st)) 0 st) (\<lambda>st.
     Inr (st\<lparr>history_offset := 0, history_length := 0\<rparr>))"

section \<open>The functions of histsearch.c\<close>

text \<open>\<open>STREQN (string, line + p, strlen (string))\<close>: no byte after a terminator is compared.\<close>

definition streqn_at :: "string \<Rightarrow> string \<Rightarrow> nat \<Rightarrow> bool" where
  "streqn_at str line p \<longleftrightarrow> take (length str) (drop p line) = str"

text \<open>The two substring loops: from the right end and from the left.\<close>

fun find_backward :: "string \<Rightarrow> string \<Rightarrow> nat \<Rightarrow> nat option" where
  "find_backward str line 0 = (if streqn_at str line 0 then Some 0 else None)"
| "find_backward str line (Suc p) =
     (if streqn_at str line (Suc p) then Some (Suc p) else find_backward str line p)"

fun find_forward :: "string \<Rightarrow> string \<Rightarrow> nat \<Rightarrow> nat \<Rightarrow> nat option" where
  "find_forward str line 0 p = None"
| "find_forward str line (Suc n) p =
     (if streqn_at str line p then Some p else find_forward str line n (Suc p))"

definition search_line :: "string \<Rightarrow> bool \<Rightarrow> bool \<Rightarrow> string \<Rightarrow> nat option" where
  "search_line str reverse anchored line =
     (if length str > length line then None
      else if anchored then if streqn_at str line 0 then Some 0 else None
      else if reverse then find_backward str line (length line - length str)
      else find_forward str line (length line - length str + 1) 0)"

text \<open>
  The loop over the lines; \<open>n\<close> bounds the lines there still are, \<open>i + 1\<close> of them backward and
  \<open>history_length - i\<close> forward. The result is the line and the place in it.
\<close>

fun search_lines ::
    "(int \<Rightarrow> string run) \<Rightarrow> string \<Rightarrow> bool \<Rightarrow> bool \<Rightarrow> nat \<Rightarrow> int \<Rightarrow> (int \<times> nat) option run" where
  "search_lines line_at str reverse anchored 0 i = Inr None"
| "search_lines line_at str reverse anchored (Suc n) i =
     bind_run (line_at i) (\<lambda>line.
     case search_line str reverse anchored line of
       Some p \<Rightarrow> Inr (Some (i, p))
     | None \<Rightarrow> search_lines line_at str reverse anchored n (if reverse then i - 1 else i + 1))"

definition history_line :: "hist_state \<Rightarrow> int \<Rightarrow> string run" where
  "history_line st i = bind_run (slot i st) (\<lambda>a. bind_run (entry a st) (\<lambda>e. c_line (he_line e)))"

definition history_search_internal ::
    "string option \<Rightarrow> int \<Rightarrow> bool \<Rightarrow> hist_state \<Rightarrow> (int \<times> hist_state) run" where
  "history_search_internal str direction anchored st =
     (let i = history_offset st; reverse = direction < 0 in
      case str of
        None \<Rightarrow> Inr (-1, st)
      | Some s \<Rightarrow>
          if s = [] then Inr (-1, st)
          else if history_length st = 0 \<or> i \<ge> history_length st \<and> \<not> reverse then Inr (-1, st)
          else
          let i = (if reverse \<and> i \<ge> history_length st then history_length st - 1 else i);
              n = nat (if reverse then i + 1 else history_length st - i) in
          bind_run (search_lines (history_line st) s reverse anchored n i) (\<lambda>r.
          case r of
            None \<Rightarrow> Inr (-1, st)
          | Some (i, p) \<Rightarrow> Inr (int p, st\<lparr>history_offset := i\<rparr>)))"

definition history_search :: "string option \<Rightarrow> int \<Rightarrow> hist_state \<Rightarrow> (int \<times> hist_state) run" where
  "history_search str direction st = history_search_internal str direction False st"

definition history_search_prefix :: "string option \<Rightarrow> int \<Rightarrow> hist_state \<Rightarrow> (int \<times> hist_state) run" where
  "history_search_prefix str direction st = history_search_internal str direction True st"

definition history_search_pos :: "string option \<Rightarrow> int \<Rightarrow> int \<Rightarrow> hist_state \<Rightarrow> (int \<times> hist_state) run" where
  "history_search_pos str dir pos st =
     (let old = where_history st; st = snd (history_set_pos pos st) in
      bind_run (history_search str dir st) (\<lambda>(r, st).
      if r = -1 then Inr (-1, snd (history_set_pos old st))
      else let ret = where_history st in Inr (ret, snd (history_set_pos old st))))"

end
