(* ===== verification/History_Spec.thy ===== *)
theory History_Spec
  imports History
begin

text \<open>
  What the history list promises: a list of entries with a limit. The operations of \<open>history.c\<close>, which
  work on an array of addresses and a heap, refine the operations on that list, and keep an invariant
  under which none of them faults. The search finds the nearest line.
\<close>

section \<open>Simulation of sessions\<close>

text \<open>
  A component whose operations, where they are allowed, return, keep an invariant and do to the
  abstract state what the specification says; then so do all sequences of them.
\<close>

fun run_ops :: "('o \<Rightarrow> 's \<Rightarrow> 's run) \<Rightarrow> 'o list \<Rightarrow> 's \<Rightarrow> 's run" where
  "run_ops step [] s = Inr s"
| "run_ops step (c # cs) s = bind_run (step c s) (run_ops step cs)"

fun ops_allowed :: "('o \<Rightarrow> 'a \<Rightarrow> bool) \<Rightarrow> ('o \<Rightarrow> 'a \<Rightarrow> 'a) \<Rightarrow> 'o list \<Rightarrow> 'a \<Rightarrow> bool" where
  "ops_allowed allowed spec [] x = True"
| "ops_allowed allowed spec (c # cs) x = (allowed c x \<and> ops_allowed allowed spec cs (spec c x))"

locale refined_component =
  fixes step :: "'o \<Rightarrow> 's \<Rightarrow> 's run"
    and inv :: "'s \<Rightarrow> bool"
    and abst :: "'s \<Rightarrow> 'a"
    and spec :: "'o \<Rightarrow> 'a \<Rightarrow> 'a"
    and allowed :: "'o \<Rightarrow> 'a \<Rightarrow> bool"
  assumes step_refines: "inv s \<Longrightarrow> allowed c (abst s) \<Longrightarrow>
    \<exists>s'. step c s = Inr s' \<and> inv s' \<and> abst s' = spec c (abst s)"
begin

lemma session_refines:
  "inv s \<Longrightarrow> ops_allowed allowed spec cs (abst s) \<Longrightarrow>
    \<exists>s'. run_ops step cs s = Inr s' \<and> inv s' \<and> abst s' = fold spec cs (abst s)"
proof (induction cs arbitrary: s)
  case (Cons c cs)
  then obtain s1 where "step c s = Inr s1" "inv s1" "abst s1 = spec c (abst s)"
    using step_refines by fastforce
  with Cons.IH [of s1] Cons.prems show ?case by simp
qed simp

end

section \<open>The list\<close>

record hist_spec =
  sp_entries :: "hist_entry list"
  sp_limit :: "int option"
  sp_base :: int
  sp_offset :: int

datatype hist_op =
    Add nat string
  | Add_Time string
  | Replace int string nat
  | Replace_Data int nat nat
  | Remove int
  | Stifle int
  | Unstifle
  | Clear
  | Use
  | Set_Pos int

definition hist_step :: "char \<Rightarrow> hist_op \<Rightarrow> hist_state \<Rightarrow> hist_state run" where
  "hist_step comment c st =
     (case c of
        Add now s \<Rightarrow> add_history comment now (Some s) st
      | Add_Time s \<Rightarrow> add_history_time (Some s) st
      | Replace which line data \<Rightarrow> bind_run (replace_history_entry which (Some line) data st) (\<lambda>(_, st). Inr st)
      | Replace_Data which old new \<Rightarrow> replace_history_data which old new st
      | Remove which \<Rightarrow> bind_run (remove_history which st) (\<lambda>(_, st). Inr st)
      | Stifle n \<Rightarrow> stifle_history n st
      | Unstifle \<Rightarrow> Inr (snd (unstifle_history st))
      | Clear \<Rightarrow> clear_history st
      | Use \<Rightarrow> Inr (using_history st)
      | Set_Pos pos \<Rightarrow> Inr (snd (history_set_pos pos st)))"

definition last_match :: "nat \<Rightarrow> hist_entry list \<Rightarrow> nat option" where
  "last_match old xs = find (\<lambda>i. he_data (xs ! i) = old) (rev [0..<length xs])"

definition set_data :: "nat \<Rightarrow> nat \<Rightarrow> hist_entry \<Rightarrow> hist_entry" where
  "set_data old new e = (if he_data e = old then e\<lparr>he_data := new\<rparr> else e)"

definition hist_spec_step :: "char \<Rightarrow> hist_op \<Rightarrow> hist_spec \<Rightarrow> hist_spec" where
  "hist_spec_step comment c s =
     (let xs = sp_entries s; n = int (length xs) in
      case c of
        Add now l \<Rightarrow>
          let e = \<lparr>he_line = Some l, he_time = Some (hist_inittime comment now), he_data = 0\<rparr> in
          if sp_limit s = Some n
          then if xs = [] then s
               else s\<lparr>sp_entries := tl xs @ [e], sp_base := wrap32 (sp_base s + 1)\<rparr>
          else s\<lparr>sp_entries := xs @ [e]\<rparr>
      | Add_Time t \<Rightarrow> s\<lparr>sp_entries := butlast xs @ [(last xs)\<lparr>he_time := Some (savestring t)\<rparr>]\<rparr>
      | Replace which l d \<Rightarrow>
          if which < 0 \<or> which \<ge> n then s
          else s\<lparr>sp_entries := xs[nat which :=
                 \<lparr>he_line = Some l, he_time = Some (savestring (the (cstr_of (the (he_time (xs ! nat which)))))),
                  he_data = d\<rparr>]\<rparr>
      | Replace_Data which old new \<Rightarrow>
          if which < -2 \<or> which \<ge> n then s
          else if which \<ge> 0 then s\<lparr>sp_entries := xs[nat which := set_data old new (xs ! nat which)]\<rparr>
          else if which = -1 then s\<lparr>sp_entries := map (set_data old new) xs\<rparr>
          else (case last_match old xs of
                  None \<Rightarrow> s
                | Some i \<Rightarrow> s\<lparr>sp_entries := xs[i := (xs ! i)\<lparr>he_data := new\<rparr>]\<rparr>)
      | Remove which \<Rightarrow>
          if which < 0 \<or> which \<ge> n then s
          else s\<lparr>sp_entries := take (nat which) xs @ drop (Suc (nat which)) xs\<rparr>
      | Stifle m \<Rightarrow>
          let m = max 0 m in
          if n > m
          then s\<lparr>sp_entries := drop (nat (n - m)) xs, sp_base := n - m, sp_limit := Some m\<rparr>
          else s\<lparr>sp_limit := Some m\<rparr>
      | Unstifle \<Rightarrow> s\<lparr>sp_limit := None\<rparr>
      | Clear \<Rightarrow> s\<lparr>sp_entries := [], sp_offset := 0\<rparr>
      | Use \<Rightarrow> s\<lparr>sp_offset := n\<rparr>
      | Set_Pos pos \<Rightarrow> if pos > n \<or> pos < 0 then s else s\<lparr>sp_offset := pos\<rparr>)"

text \<open>The time of the last entry can only be set when there is one.\<close>

definition hist_allowed :: "hist_op \<Rightarrow> hist_spec \<Rightarrow> bool" where
  "hist_allowed c s = (case c of Add_Time t \<Rightarrow> sp_entries s \<noteq> [] \<and> NUL \<notin> set t | _ \<Rightarrow> True)"

definition live :: "hist_state \<Rightarrow> nat list" where
  "live st = (case the_history st of None \<Rightarrow> [] | Some arr \<Rightarrow> take (nat (history_length st)) arr)"

definition hist_abs :: "hist_state \<Rightarrow> hist_spec" where
  "hist_abs st =
     \<lparr>sp_entries = map (\<lambda>a. the (hs_heap st a)) (live st),
      sp_limit = (if history_stifled st then Some (history_max_entries st) else None),
      sp_base = history_base st, sp_offset = history_offset st\<rparr>"

definition good_entry :: "hist_entry \<Rightarrow> bool" where
  "good_entry e \<longleftrightarrow> he_line e \<noteq> None \<and> (\<exists>t. he_time e = Some t \<and> NUL \<in> set t)"

definition hist_inv :: "hist_state \<Rightarrow> bool" where
  "hist_inv st \<longleftrightarrow>
     (case the_history st of
        None \<Rightarrow> history_size st = 0 \<and> history_length st = 0 \<and> history_offset st = 0
      | Some arr \<Rightarrow> history_size st = int (length arr) \<and> history_length st < int (length arr) \<and>
          arr ! nat (history_length st) = 0) \<and>
     0 \<le> history_length st \<and> distinct (live st) \<and> 0 < hs_fresh st \<and>
     (\<forall>a \<in> set (live st). 0 < a \<and> a < hs_fresh st \<and> (\<exists>e. hs_heap st a = Some e \<and> good_entry e)) \<and>
     (history_stifled st \<longrightarrow> 0 \<le> history_max_entries st \<and> history_length st \<le> history_max_entries st)"

section \<open>The array\<close>

lemma slot_nth: "the_history st = Some arr \<Longrightarrow> k < length arr \<Longrightarrow> slot (int k) st = Inr (arr ! k)"
  by (simp add: slot_def)

lemma set_slot_nth:
  "the_history st = Some arr \<Longrightarrow> k < length arr \<Longrightarrow>
    set_slot (int k) a st = Inr (st\<lparr>the_history := Some (arr[k := a])\<rparr>)"
  by (simp add: set_slot_def)

lemma slot_live: "hist_inv st \<Longrightarrow> k < length (live st) \<Longrightarrow> slot (int k) st = Inr (live st ! k)"
  by (cases "the_history st") (auto simp: live_def slot_def)

lemma length_live: "hist_inv st \<Longrightarrow> length (live st) = nat (history_length st)"
  by (cases "the_history st") (auto simp: live_def hist_inv_def)

lemma live_entry:
  "hist_inv st \<Longrightarrow> a \<in> set (live st) \<Longrightarrow> \<exists>e. entry a st = Inr e \<and> hs_heap st a = Some e \<and> good_entry e"
  by (auto simp: hist_inv_def entry_def)

lemma shift_down_array:
  assumes "the_history st = Some arr" and "k + n < length arr"
  shows "shift_down n (int k) st =
    Inr (st\<lparr>the_history := Some (take k arr @ take n (drop (Suc k) arr) @ drop (k + n) arr)\<rparr>)"
  using assms
proof (induction n arbitrary: k arr st)
  case 0
  then have "st\<lparr>the_history := Some arr\<rparr> = st" by simp
  with 0 show ?case by simp
next
  case (Suc n)
  let ?arr = "arr[k := arr ! Suc k]"
  have s: "slot (int k + 1) st = Inr (arr ! Suc k)"
    using slot_nth [of st arr "Suc k"] Suc.prems by (simp add: add.commute)
  have w: "set_slot (int k) (arr ! Suc k) st = Inr (st\<lparr>the_history := Some ?arr\<rparr>)"
    using set_slot_nth Suc.prems by simp
  have "shift_down n (int k + 1) (st\<lparr>the_history := Some ?arr\<rparr>) =
      Inr (st\<lparr>the_history := Some (take (Suc k) ?arr @ take n (drop (Suc (Suc k)) ?arr) @ drop (Suc k + n) ?arr)\<rparr>)"
    using Suc.IH [of "st\<lparr>the_history := Some ?arr\<rparr>" ?arr "Suc k"] Suc.prems by (simp add: add.commute)
  moreover have "take (Suc k) ?arr @ take n (drop (Suc (Suc k)) ?arr) @ drop (Suc k + n) ?arr =
      take k arr @ take (Suc n) (drop (Suc k) arr) @ drop (k + Suc n) arr"
  proof -
    have "take (Suc k) ?arr = take k arr @ [arr ! Suc k]"
      using Suc.prems by (simp add: take_Suc_conv_app_nth)
    moreover have "drop (Suc k) arr = arr ! Suc k # drop (Suc (Suc k)) arr"
      using Suc.prems by (intro Cons_nth_drop_Suc [symmetric]) simp
    ultimately show ?thesis using Suc.prems by simp
  qed
  ultimately show ?case using s w by simp
qed

lemma move_slots_array:
  assumes "the_history st = Some arr" and "i + n \<le> length arr" and "j < i"
  shows "move_slots n (int i) (int j) st =
    Inr (st\<lparr>the_history := Some (take j arr @ take n (drop i arr) @ drop (j + n) arr)\<rparr>)"
  using assms
proof (induction n arbitrary: i j arr st)
  case 0
  then have "st\<lparr>the_history := Some arr\<rparr> = st" by simp
  with 0 show ?case by simp
next
  case (Suc n)
  let ?arr = "arr[j := arr ! i]"
  have s: "slot (int i) st = Inr (arr ! i)" using slot_nth Suc.prems by simp
  have w: "set_slot (int j) (arr ! i) st = Inr (st\<lparr>the_history := Some ?arr\<rparr>)"
    using set_slot_nth Suc.prems by simp
  have "move_slots n (int i + 1) (int j + 1) (st\<lparr>the_history := Some ?arr\<rparr>) =
      Inr (st\<lparr>the_history := Some (take (Suc j) ?arr @ take n (drop (Suc i) ?arr) @ drop (Suc j + n) ?arr)\<rparr>)"
    using Suc.IH [of "st\<lparr>the_history := Some ?arr\<rparr>" ?arr "Suc i" "Suc j"] Suc.prems by (simp add: add.commute)
  moreover have "take (Suc j) ?arr @ take n (drop (Suc i) ?arr) @ drop (Suc j + n) ?arr =
      take j arr @ take (Suc n) (drop i arr) @ drop (j + Suc n) arr"
  proof -
    have "take (Suc j) ?arr = take j arr @ [arr ! i]"
      using Suc.prems by (simp add: take_Suc_conv_app_nth)
    moreover have "drop i arr = arr ! i # drop (Suc i) arr"
      using Suc.prems by (intro Cons_nth_drop_Suc [symmetric]) simp
    ultimately show ?thesis using Suc.prems by simp
  qed
  ultimately show ?case using s w by simp
qed

lemma free_entry:
  "a \<noteq> 0 \<Longrightarrow> hs_heap st a = Some e \<Longrightarrow>
    free_history_entry a st = Inr (he_data e, st\<lparr>hs_heap := (hs_heap st)(a := None)\<rparr>)"
  by (simp add: free_history_entry_def entry_def)

lemma free_slots_heap:
  assumes "the_history st = Some arr" and "k + n \<le> length arr" and "distinct (take n (drop k arr))"
    and "\<forall>a \<in> set (take n (drop k arr)). a \<noteq> 0 \<and> hs_heap st a \<noteq> None"
  shows "free_slots n (int k) st = Inr (st\<lparr>hs_heap := hs_heap st |` (- set (take n (drop k arr)))\<rparr>)"
  using assms
proof (induction n arbitrary: k st)
  case 0
  then show ?case by simp
next
  case (Suc n)
  have d: "drop k arr = arr ! k # drop (Suc k) arr"
    using Suc.prems by (intro Cons_nth_drop_Suc [symmetric]) simp
  let ?st = "st\<lparr>hs_heap := (hs_heap st)(arr ! k := None)\<rparr>"
  from Suc.prems(4) obtain e where e: "arr ! k \<noteq> 0" "hs_heap st (arr ! k) = Some e" by (auto simp: d)
  have pre: "\<forall>a \<in> set (take n (drop (Suc k) arr)). a \<noteq> 0 \<and> hs_heap ?st a \<noteq> None"
    using Suc.prems(3,4) by (auto simp: d)
  have heap: "hs_heap ?st |` (- set (take n (drop (Suc k) arr))) = hs_heap st |` (- set (take (Suc n) (drop k arr)))"
    by (rule ext) (simp add: d restrict_map_def)
  have "free_slots n (int (Suc k)) ?st = Inr (?st\<lparr>hs_heap := hs_heap ?st |` (- set (take n (drop (Suc k) arr)))\<rparr>)"
    using Suc.prems by (intro Suc.IH pre) (simp_all add: d)
  then have "free_slots n (int k + 1) ?st = Inr (st\<lparr>hs_heap := hs_heap st |` (- set (take (Suc n) (drop k arr)))\<rparr>)"
    unfolding heap by (simp add: add.commute)
  then show ?case
    using slot_nth [of st arr k] Suc.prems free_entry [OF e] by simp
qed

lemma clear_slots_heap:
  assumes "the_history st = Some arr" and "k + n \<le> length arr" and "distinct (take n (drop k arr))"
    and "\<forall>a \<in> set (take n (drop k arr)). a \<noteq> 0 \<and> hs_heap st a \<noteq> None"
  shows "clear_slots n (int k) st = Inr (st\<lparr>hs_heap := hs_heap st |` (- set (take n (drop k arr))),
    the_history := Some (take k arr @ replicate n 0 @ drop (k + n) arr)\<rparr>)"
  using assms
proof (induction n arbitrary: k st arr)
  case 0
  then have "st\<lparr>the_history := Some arr\<rparr> = st" by simp
  with 0 show ?case by simp
next
  case (Suc n)
  have d: "drop k arr = arr ! k # drop (Suc k) arr"
    using Suc.prems by (intro Cons_nth_drop_Suc [symmetric]) simp
  let ?arr = "arr[k := 0]"
  let ?st = "st\<lparr>hs_heap := (hs_heap st)(arr ! k := None), the_history := Some ?arr\<rparr>"
  from Suc.prems(4) obtain e where e: "arr ! k \<noteq> 0" "hs_heap st (arr ! k) = Some e" by (auto simp: d)
  have pre: "\<forall>a \<in> set (take n (drop (Suc k) ?arr)). a \<noteq> 0 \<and> hs_heap ?st a \<noteq> None"
    using Suc.prems(3,4) by (auto simp: d)
  have heap: "hs_heap ?st |` (- set (take n (drop (Suc k) ?arr))) = hs_heap st |` (- set (take (Suc n) (drop k arr)))"
    by (rule ext) (simp add: d restrict_map_def)
  have arr: "take (Suc k) ?arr @ replicate n 0 @ drop (Suc k + n) ?arr = take k arr @ replicate (Suc n) 0 @ drop (k + Suc n) arr"
    using Suc.prems by (simp add: take_Suc_conv_app_nth)
  have "clear_slots n (int (Suc k)) ?st = Inr (?st\<lparr>hs_heap := hs_heap ?st |` (- set (take n (drop (Suc k) ?arr))),
      the_history := Some (take (Suc k) ?arr @ replicate n 0 @ drop (Suc k + n) ?arr)\<rparr>)"
    using Suc.prems by (intro Suc.IH pre) (simp_all add: d)
  then have "clear_slots n (int k + 1) ?st = Inr (st\<lparr>hs_heap := hs_heap st |` (- set (take (Suc n) (drop k arr))),
      the_history := Some (take k arr @ replicate (Suc n) 0 @ drop (k + Suc n) arr)\<rparr>)"
    unfolding heap arr by (simp add: add.commute)
  then show ?case
    using slot_nth [of st arr k] Suc.prems free_entry [OF e] set_slot_nth [of "st\<lparr>hs_heap := (hs_heap st)(arr ! k := None)\<rparr>" arr k 0]
    by simp
qed

section \<open>Each operation does what the list does\<close>

definition good_slots :: "hist_state \<Rightarrow> nat list \<Rightarrow> bool" where
  "good_slots st as \<longleftrightarrow>
     distinct as \<and> (\<forall>a \<in> set as. 0 < a \<and> a < hs_fresh st \<and> (\<exists>e. hs_heap st a = Some e \<and> good_entry e))"

definition within_limit :: "hist_state \<Rightarrow> bool" where
  "within_limit st \<longleftrightarrow>
     (history_stifled st \<longrightarrow> 0 \<le> history_max_entries st \<and> history_length st \<le> history_max_entries st)"

lemma hist_inv_Some:
  "the_history st = Some arr \<Longrightarrow>
    hist_inv st \<longleftrightarrow> (\<exists>n. history_length st = int n \<and> n < length arr \<and> arr ! n = 0 \<and>
      history_size st = int (length arr) \<and> good_slots st (take n arr) \<and> 0 < hs_fresh st \<and> within_limit st)"
  unfolding hist_inv_def good_slots_def within_limit_def live_def
  by (auto intro!: exI [of _ "nat (history_length st)"])

lemma hist_inv_None:
  "the_history st = None \<Longrightarrow>
    hist_inv st \<longleftrightarrow> history_length st = 0 \<and> history_size st = 0 \<and> history_offset st = 0 \<and>
      0 < hs_fresh st \<and> within_limit st"
  by (auto simp: hist_inv_def within_limit_def live_def)

lemma live_Some: "the_history st = Some arr \<Longrightarrow> history_length st = int n \<Longrightarrow> live st = take n arr"
  by (simp add: live_def)

lemma append_entry:
  fixes l ts :: string
  assumes "the_history st = Some arr" and "history_length st = int (Suc n)" and "Suc n < length arr"
    and "history_size st = int (length arr)" and "good_slots st (take n arr)" and "0 < hs_fresh st"
    and "within_limit st" and "NUL \<in> set ts"
  defines "e \<equiv> \<lparr>he_line = Some l, he_time = Some ts, he_data = 0\<rparr>"
  shows "\<exists>st'. (case alloc_history_entry (Some l) (Some ts) st of (a, st) \<Rightarrow>
      bind_run (set_slot (history_length st) 0 st) (\<lambda>st. set_slot (history_length st - 1) a st)) = Inr st' \<and>
    hist_inv st' \<and>
    hist_abs st' = \<lparr>sp_entries = map (\<lambda>a. the (hs_heap st a)) (take n arr) @ [e],
      sp_limit = (if history_stifled st then Some (history_max_entries st) else None),
      sp_base = history_base st, sp_offset = history_offset st\<rparr>"
proof -
  let ?a = "hs_fresh st"
  let ?arr = "arr[Suc n := 0, n := ?a]"
  define st' where "st' = st\<lparr>hs_heap := (hs_heap st)(?a \<mapsto> e), hs_fresh := Suc ?a, the_history := Some ?arr\<rparr>"
  have run: "(case alloc_history_entry (Some l) (Some ts) st of (a, st) \<Rightarrow>
      bind_run (set_slot (history_length st) 0 st) (\<lambda>st. set_slot (history_length st - 1) a st)) = Inr st'"
    using assms(1-3) by (simp add: alloc_history_entry_def set_slot_def st'_def e_def nat_add_distrib)
  have tk: "take (Suc n) ?arr = take n arr @ [?a]"
    using assms(3) by (simp add: take_Suc_conv_app_nth)
  have "good_slots st' (take n arr @ [?a])"
    using assms(5,6,8) by (auto simp: good_slots_def st'_def e_def good_entry_def)
  moreover have "?arr ! Suc n = 0" using assms(3) by simp
  ultimately have inv: "hist_inv st'"
    using assms(1-4,6,7) tk
    by (subst hist_inv_Some [of st' ?arr]) (auto simp: st'_def within_limit_def intro!: exI [of _ "Suc n"])
  have "map (\<lambda>a. the (hs_heap st' a)) (take n arr) = map (\<lambda>a. the (hs_heap st a)) (take n arr)"
    using assms(5) by (auto simp: st'_def good_slots_def)
  then have "hist_abs st' = \<lparr>sp_entries = map (\<lambda>a. the (hs_heap st a)) (take n arr) @ [e],
      sp_limit = (if history_stifled st then Some (history_max_entries st) else None),
      sp_base = history_base st, sp_offset = history_offset st\<rparr>"
    using live_Some [of st' ?arr "Suc n"] assms(2) tk by (simp add: hist_abs_def st'_def)
  with run inv show ?thesis by blast
qed

lemma grow_array_spec:
  assumes "hist_inv st" and "\<not> (history_stifled st \<and> history_length st = history_max_entries st)"
  shows "\<exists>arr n. the_history (grow_array st) = Some arr \<and> history_length (grow_array st) = int (Suc n) \<and>
    Suc n < length arr \<and> history_size (grow_array st) = int (length arr) \<and> take n arr = live st \<and>
    within_limit (grow_array st) \<and> hs_heap (grow_array st) = hs_heap st \<and> hs_fresh (grow_array st) = hs_fresh st \<and>
    history_stifled (grow_array st) = history_stifled st \<and> history_base (grow_array st) = history_base st \<and>
    history_max_entries (grow_array st) = history_max_entries st \<and> history_offset (grow_array st) = history_offset st"
proof (cases "the_history st")
  case None
  with assms show ?thesis
    unfolding hist_inv_None [OF None]
    by (intro exI [of _ "replicate (nat DEFAULT_HISTORY_GROW_SIZE) (hs_junk st)"] exI [of _ 0])
      (auto simp: grow_array_def DEFAULT_HISTORY_GROW_SIZE_def live_def within_limit_def)
next
  case (Some arr)
  from assms(1) obtain n where n: "history_length st = int n" "n < length arr" "arr ! n = 0"
      "history_size st = int (length arr)" "within_limit st"
    unfolding hist_inv_Some [OF Some] by blast
  have lv: "live st = take n arr" by (rule live_Some [OF Some n(1)])
  have lim: "history_stifled st \<Longrightarrow> int (Suc n) \<le> history_max_entries st"
    using assms(2) n(1,5) by (auto simp: within_limit_def)
  show ?thesis
  proof (cases "n = length arr - 1")
    case True
    then show ?thesis using Some n lv lim
      by (intro exI [of _ "arr @ replicate 50 (hs_junk st)"] exI [of _ n])
        (auto simp: grow_array_def DEFAULT_HISTORY_GROW_SIZE_def Let_def within_limit_def nat_add_distrib)
  next
    case False
    then show ?thesis using Some n lv lim
      by (intro exI [of _ arr] exI [of _ n])
        (auto simp: grow_array_def DEFAULT_HISTORY_GROW_SIZE_def Let_def within_limit_def)
  qed
qed

lemma hist_inittime_NUL: "NUL \<in> set (hist_inittime comment now)"
  by (simp add: hist_inittime_def)

lemma good_slots_live: "hist_inv st \<Longrightarrow> good_slots st (live st)"
  by (simp add: hist_inv_def good_slots_def)

lemma drop_oldest_spec:
  assumes "hist_inv st" and "history_length st \<noteq> 0"
  shows "\<exists>st1 arr n. drop_oldest st = Inr st1 \<and> the_history st1 = Some arr \<and> history_length st1 = int (Suc n) \<and>
    Suc n < length arr \<and> history_size st1 = int (length arr) \<and> take n arr = tl (live st) \<and>
    good_slots st1 (tl (live st)) \<and> hs_fresh st1 = hs_fresh st \<and> within_limit st1 \<and>
    (\<forall>a \<in> set (tl (live st)). hs_heap st1 a = hs_heap st a) \<and> live st \<noteq> [] \<and>
    history_stifled st1 = history_stifled st \<and> history_base st1 = wrap32 (history_base st + 1) \<and>
    history_max_entries st1 = history_max_entries st \<and> history_offset st1 = history_offset st"
proof -
  obtain arr where arr: "the_history st = Some arr"
    using assms by (cases "the_history st") (auto simp: hist_inv_def)
  from assms(1) obtain n where n: "history_length st = int n" "n < length arr" "arr ! n = 0"
      "history_size st = int (length arr)" "good_slots st (take n arr)" "within_limit st"
    unfolding hist_inv_Some [OF arr] by blast
  obtain m where m: "n = Suc m" using assms(2) n(1) by (cases n) auto
  have lv: "live st = take n arr" by (rule live_Some [OF arr n(1)])
  obtain a as where a: "arr = a # as" using n(2) by (cases arr) auto
  have as: "live st = a # take m as" by (simp add: lv a m)
  have e: "a \<noteq> 0" "hs_heap st a \<noteq> None" using n(5) by (auto simp: good_slots_def a m)
  then obtain e where he: "hs_heap st a = Some e" by auto
  define st0 where "st0 = st\<lparr>hs_heap := (hs_heap st)(a := None)\<rparr>"
  let ?arr = "take n (drop (Suc 0) arr) @ drop n arr"
  define st1 where "st1 = st0\<lparr>the_history := Some ?arr, history_base := wrap32 (history_base st + 1)\<rparr>"
  have "shift_down n (int 0) st0 = Inr (st0\<lparr>the_history := Some ?arr\<rparr>)"
    using shift_down_array [of st0 arr 0 n] arr n(2) by (simp add: st0_def)
  then have run: "drop_oldest st = Inr st1"
    using arr a e he n(1) free_entry [OF e(1) he]
    by (simp add: drop_oldest_def slot_def st0_def st1_def)
  have tk: "take m ?arr = tl (live st)" using n(2) by (simp add: a m as)
  have len: "length ?arr = length arr" using n(2) by simp
  have "a \<notin> set (tl (live st))" using n(5) by (simp add: good_slots_def lv [symmetric] as)
  then have heap: "\<forall>b \<in> set (tl (live st)). hs_heap st1 b = hs_heap st b"
    by (auto simp: st1_def st0_def)
  have "good_slots st1 (tl (live st))"
    using n(5) heap by (auto simp: good_slots_def lv [symmetric] as) (auto simp: st1_def st0_def)
  then show ?thesis
    using run arr n(1,2,4,6) m tk len heap as
    by (intro exI [of _ st1] exI [of _ ?arr] exI [of _ m])
      (auto simp: st1_def st0_def within_limit_def)
qed

lemma add_history_refines:
  assumes "hist_inv st"
  shows "\<exists>st'. hist_step comment (Add now l) st = Inr st' \<and> hist_inv st' \<and>
    hist_abs st' = hist_spec_step comment (Add now l) (hist_abs st)"
proof -
  have limit: "sp_limit (hist_abs st) = Some (int (length (sp_entries (hist_abs st)))) \<longleftrightarrow>
      history_stifled st \<and> history_length st = history_max_entries st"
    using length_live [OF assms] assms by (auto simp: hist_abs_def hist_inv_def)
  show ?thesis
  proof (cases "history_stifled st \<and> history_length st = history_max_entries st")
    case full: True
    show ?thesis
    proof (cases "history_length st = 0")
      case True
      then have "live st = []" using length_live [OF assms] by simp
      with full True assms show ?thesis
        by (simp add: hist_step_def add_history_def hist_spec_step_def hist_abs_def Let_def)
    next
      case False
      obtain st1 arr n where d: "drop_oldest st = Inr st1" "the_history st1 = Some arr"
          "history_length st1 = int (Suc n)" "Suc n < length arr" "history_size st1 = int (length arr)"
          "take n arr = tl (live st)" "good_slots st1 (tl (live st))" "hs_fresh st1 = hs_fresh st" "within_limit st1"
          "\<forall>a \<in> set (tl (live st)). hs_heap st1 a = hs_heap st a" "live st \<noteq> []"
          "history_stifled st1 = history_stifled st" "history_base st1 = wrap32 (history_base st + 1)"
          "history_max_entries st1 = history_max_entries st" "history_offset st1 = history_offset st"
        using drop_oldest_spec [OF assms False] by blast
      have fresh: "0 < hs_fresh st1" using d(8) assms by (simp add: hist_inv_def)
      from append_entry [OF d(2-5) _ fresh d(9) hist_inittime_NUL, of l comment now] d(6,7)
      obtain st' where a: "(case alloc_history_entry (Some l) (Some (hist_inittime comment now)) st1 of (a, st) \<Rightarrow>
            bind_run (set_slot (history_length st) 0 st) (\<lambda>st. set_slot (history_length st - 1) a st)) = Inr st'"
          "hist_inv st'" "hist_abs st' = \<lparr>sp_entries = map (\<lambda>a. the (hs_heap st1 a)) (take n arr) @
              [\<lparr>he_line = Some l, he_time = Some (hist_inittime comment now), he_data = 0\<rparr>],
            sp_limit = (if history_stifled st1 then Some (history_max_entries st1) else None),
            sp_base = history_base st1, sp_offset = history_offset st1\<rparr>"
        by auto
      have "hist_step comment (Add now l) st = Inr st'"
        using full False d(1) a(1) by (simp add: hist_step_def add_history_def)
      moreover have "map (\<lambda>a. the (hs_heap st1 a)) (take n arr) = tl (map (\<lambda>a. the (hs_heap st a)) (live st))"
        unfolding d(6) map_tl [symmetric] using d(10) by (intro map_cong) auto
      moreover have "sp_entries (hist_abs st) \<noteq> []" using d(11) by (simp add: hist_abs_def)
      ultimately show ?thesis
        using a(2,3) full limit d(12-15)
        by (auto simp: hist_spec_step_def Let_def) (simp add: hist_abs_def)
    qed
  next
    case False
    obtain arr n where g: "the_history (grow_array st) = Some arr" "history_length (grow_array st) = int (Suc n)"
        "Suc n < length arr" "history_size (grow_array st) = int (length arr)" "take n arr = live st"
        "within_limit (grow_array st)" "hs_heap (grow_array st) = hs_heap st" "hs_fresh (grow_array st) = hs_fresh st"
        "history_stifled (grow_array st) = history_stifled st" "history_base (grow_array st) = history_base st"
        "history_max_entries (grow_array st) = history_max_entries st"
        "history_offset (grow_array st) = history_offset st"
      using grow_array_spec [OF assms False] by blast
    have fresh: "0 < hs_fresh (grow_array st)" using g(8) assms by (simp add: hist_inv_def)
    have slots: "good_slots (grow_array st) (take n arr)"
      using good_slots_live [OF assms] g(5,7,8) by (simp add: good_slots_def)
    from append_entry [OF g(1-4) slots fresh g(6) hist_inittime_NUL, of l comment now]
    obtain st' where a: "(case alloc_history_entry (Some l) (Some (hist_inittime comment now)) (grow_array st) of (a, st) \<Rightarrow>
          bind_run (set_slot (history_length st) 0 st) (\<lambda>st. set_slot (history_length st - 1) a st)) = Inr st'"
        "hist_inv st'" "hist_abs st' = \<lparr>sp_entries = map (\<lambda>a. the (hs_heap (grow_array st) a)) (take n arr) @
            [\<lparr>he_line = Some l, he_time = Some (hist_inittime comment now), he_data = 0\<rparr>],
          sp_limit = (if history_stifled (grow_array st) then Some (history_max_entries (grow_array st)) else None),
          sp_base = history_base (grow_array st), sp_offset = history_offset (grow_array st)\<rparr>"
      by blast
    have "hist_step comment (Add now l) st = Inr st'"
      using False a(1) by (auto simp: hist_step_def add_history_def)
    then show ?thesis
      using a(2,3) False limit g(5,7,9-12)
      by (auto simp: hist_spec_step_def Let_def) (simp_all add: hist_abs_def)
  qed
qed

lemma set_entry_simps [simp]:
  "the_history (set_entry a e st) = the_history st" "hs_heap (set_entry a e st) = (hs_heap st)(a \<mapsto> e)"
  "hs_fresh (set_entry a e st) = hs_fresh st" "history_size (set_entry a e st) = history_size st"
  "history_length (set_entry a e st) = history_length st" "history_offset (set_entry a e st) = history_offset st"
  "history_base (set_entry a e st) = history_base st" "history_stifled (set_entry a e st) = history_stifled st"
  "history_max_entries (set_entry a e st) = history_max_entries st" "live (set_entry a e st) = live st"
  by (cases "the_history st"; simp add: set_entry_def live_def)+

lemma update_entry:
  assumes "hist_inv st" and "k < length (live st)" and "good_entry e"
  shows "hist_inv (set_entry (live st ! k) e st) \<and> live (set_entry (live st ! k) e st) = live st \<and>
    hist_abs (set_entry (live st ! k) e st) = (hist_abs st)\<lparr>sp_entries := (sp_entries (hist_abs st))[k := e]\<rparr>"
proof -
  let ?st = "set_entry (live st ! k) e st"
  have lv: "live ?st = live st" by simp
  have inv: "hist_inv ?st"
    using assms(1,3) unfolding hist_inv_def lv by (cases "the_history st") auto
  have "map (\<lambda>a. the (hs_heap ?st a)) (live st) = (map (\<lambda>a. the (hs_heap st a)) (live st))[k := e]"
  proof (rule nth_equalityI)
    fix i assume "i < length (map (\<lambda>a. the (hs_heap ?st a)) (live st))"
    then show "map (\<lambda>a. the (hs_heap ?st a)) (live st) ! i = (map (\<lambda>a. the (hs_heap st a)) (live st))[k := e] ! i"
      using assms(1,2) by (auto simp: nth_list_update hist_inv_def nth_eq_iff_index_eq)
  qed simp
  then show ?thesis using inv by (simp add: hist_abs_def)
qed

lemma entry_live:
  assumes "hist_inv st" and "k < length (live st)"
  shows "slot (int k) st = Inr (live st ! k)" "live st ! k \<noteq> 0"
    "entry (live st ! k) st = Inr (sp_entries (hist_abs st) ! k)" "good_entry (sp_entries (hist_abs st) ! k)"
proof -
  have m: "live st ! k \<in> set (live st)" using assms(2) by simp
  show "slot (int k) st = Inr (live st ! k)" by (rule slot_live [OF assms])
  show "live st ! k \<noteq> 0" using assms(1) m by (auto simp: hist_inv_def)
  from live_entry [OF assms(1) m] assms(2)
  show "entry (live st ! k) st = Inr (sp_entries (hist_abs st) ! k)" "good_entry (sp_entries (hist_abs st) ! k)"
    by (auto simp: hist_abs_def)
qed

lemma length_abs: "hist_inv st \<Longrightarrow> int (length (sp_entries (hist_abs st))) = history_length st"
  using length_live [of st] by (simp add: hist_abs_def hist_inv_def)

lemma length_abs_live: "length (sp_entries (hist_abs st)) = length (live st)"
  by (simp add: hist_abs_def)

lemma add_time_refines:
  assumes "hist_inv st" and "sp_entries (hist_abs st) \<noteq> []" and "NUL \<notin> set t"
  shows "\<exists>st'. hist_step comment (Add_Time t) st = Inr st' \<and> hist_inv st' \<and>
    hist_abs st' = hist_spec_step comment (Add_Time t) (hist_abs st)"
proof -
  define k where "k = length (live st) - 1"
  have k: "k < length (live st)" "history_length st - 1 = int k"
    using assms(2) length_abs [OF assms(1)] by (auto simp: k_def length_abs_live hist_abs_def Suc_le_eq)
  let ?e = "(sp_entries (hist_abs st) ! k)\<lparr>he_time := Some (savestring t)\<rparr>"
  have g: "good_entry ?e" using entry_live(4) [OF assms(1) k(1)] by (simp add: good_entry_def savestring_def)
  have "hist_step comment (Add_Time t) st = Inr (set_entry (live st ! k) ?e st)"
    using entry_live [OF assms(1) k(1)] by (simp add: hist_step_def add_history_time_def k(2))
  moreover have "hist_spec_step comment (Add_Time t) (hist_abs st) =
      (hist_abs st)\<lparr>sp_entries := (sp_entries (hist_abs st))[k := ?e]\<rparr>"
  proof -
    have "butlast xs @ [f (last xs)] = xs[length xs - 1 := f (xs ! (length xs - 1))]" if "xs \<noteq> []"
      for xs :: "hist_entry list" and f
      using that by (cases xs rule: rev_cases) simp_all
    from this [OF assms(2), of "\<lambda>e. e\<lparr>he_time := Some (savestring t)\<rparr>"] show ?thesis
      by (simp add: hist_spec_step_def Let_def k_def length_abs_live)
  qed
  ultimately show ?thesis using update_entry [OF assms(1) k(1) g] by simp
qed

text \<open>The entry at a position is exchanged for a new one with the same time stamp.\<close>

lemma replace_entry_run:
  fixes d :: nat and l :: string
  assumes "hist_inv st" and "k < length (live st)"
  defines "e \<equiv> \<lparr>he_line = Some l, he_time = map_option savestring (cstr_of (the (he_time (sp_entries (hist_abs st) ! k)))), he_data = d\<rparr>"
  shows "\<exists>st'. replace_history_entry (int k) (Some l) d st = Inr (live st ! k, st') \<and> hist_inv st' \<and>
    live st' = (live st)[k := hs_fresh st] \<and> hs_heap st' = (hs_heap st)(hs_fresh st \<mapsto> e) \<and> hs_fresh st' = Suc (hs_fresh st) \<and>
    history_length st' = history_length st \<and> history_offset st' = history_offset st \<and>
    hist_abs st' = (hist_abs st)\<lparr>sp_entries := (sp_entries (hist_abs st))[k := e]\<rparr>"
proof -
  obtain arr where arr: "the_history st = Some arr"
    using assms(1,2) by (cases "the_history st") (auto simp: hist_inv_def live_def)
  from assms(1) obtain n where n: "history_length st = int n" "n < length arr" "arr ! n = 0"
      "history_size st = int (length arr)" "good_slots st (take n arr)" "0 < hs_fresh st" "within_limit st"
    unfolding hist_inv_Some [OF arr] by blast
  have lv: "live st = take n arr" by (rule live_Some [OF arr n(1)])
  have kn: "k < n" "k < length arr" using assms(2) lv n(2) by simp_all
  obtain t where t: "he_time (sp_entries (hist_abs st) ! k) = Some t" "NUL \<in> set t"
    using entry_live(4) [OF assms(1,2)] by (auto simp: good_entry_def)
  obtain s where s: "cstr_of t = Some s" using t(2) cstr_of_None_iff [of t] by (cases "cstr_of t") auto
  let ?a = "hs_fresh st"
  have e: "e = \<lparr>he_line = Some l, he_time = Some (savestring s), he_data = d\<rparr>" by (simp add: e_def t(1) s)
  define st' where "st' = st\<lparr>hs_heap := (hs_heap st)(?a \<mapsto> e), hs_fresh := Suc ?a, the_history := Some (arr[k := ?a])\<rparr>"
  have run: "replace_history_entry (int k) (Some l) d st = Inr (live st ! k, st')"
    using entry_live [OF assms(1,2)] t(1) s arr kn n(1)
    by (simp add: replace_history_entry_def c_line_def block_string_def alloc_history_entry_def set_slot_def st'_def e)
      (simp add: set_entry_def)
  have fresh: "?a \<notin> set (take n arr)" using n(5) by (auto simp: good_slots_def)
  have old: "hs_heap st' a = hs_heap st a" "0 < a \<and> a < Suc ?a \<and> (\<exists>e. hs_heap st' a = Some e \<and> good_entry e)"
    if "a \<in> set (take n arr)" for a
    using n(5) that unfolding good_slots_def st'_def by (auto dest!: bspec simp: less_Suc_eq)
  have tk: "take n (arr[k := ?a]) = (take n arr)[k := ?a]" by (simp add: take_update_swap)
  have new: "hs_heap st' ?a = Some e" "good_entry e" "hs_fresh st' = Suc ?a" by (simp_all add: st'_def e good_entry_def savestring_def)
  have "good_slots st' ((take n arr)[k := ?a])"
    unfolding good_slots_def new(3)
    using set_update_subset_insert [of "take n arr" k ?a] old(2) new n(5,6) fresh
    by (auto simp: good_slots_def distinct_list_update)
  then have inv: "hist_inv st'"
    using n kn arr tk
    by (subst hist_inv_Some [of st' "arr[k := ?a]"]) (auto simp: st'_def within_limit_def)
  have "map (\<lambda>a. the (hs_heap st' a)) (take n arr) = map (\<lambda>a. the (hs_heap st a)) (take n arr)"
    using old(1) by simp
  then have m: "map (\<lambda>a. the (hs_heap st' a)) ((take n arr)[k := ?a]) = (map (\<lambda>a. the (hs_heap st a)) (take n arr))[k := e]"
    by (simp only: map_update new(1) option.sel)
  have lv': "live st' = (live st)[k := ?a]" using live_Some [of st' "arr[k := ?a]" n] n(1) tk lv by (simp add: st'_def)
  have "hist_abs st' = (hist_abs st)\<lparr>sp_entries := (sp_entries (hist_abs st))[k := e]\<rparr>"
    using m lv lv' by (simp add: hist_abs_def) (simp add: st'_def)
  with run inv lv' show ?thesis by (simp add: st'_def)
qed

lemma replace_refines:
  assumes "hist_inv st"
  shows "\<exists>st'. hist_step comment (Replace which l d) st = Inr st' \<and> hist_inv st' \<and>
    hist_abs st' = hist_spec_step comment (Replace which l d) (hist_abs st)"
proof (cases "which < 0 \<or> which \<ge> history_length st")
  case True
  then show ?thesis
    using assms by (auto simp: hist_step_def replace_history_entry_def hist_spec_step_def length_abs Let_def)
next
  case False
  define k where "k = nat which"
  have k: "which = int k" "k < length (live st)" using False length_live [OF assms] by (auto simp: k_def)
  obtain t where t: "he_time (sp_entries (hist_abs st) ! k) = Some t" "NUL \<in> set t"
    using entry_live(4) [OF assms k(2)] by (auto simp: good_entry_def)
  obtain s where s: "cstr_of t = Some s" using t(2) cstr_of_None_iff [of t] by (cases "cstr_of t") auto
  from replace_entry_run [OF assms k(2), of l d] obtain st' where
    "replace_history_entry (int k) (Some l) d st = Inr (live st ! k, st')" "hist_inv st'"
    "hist_abs st' = (hist_abs st)\<lparr>sp_entries := (sp_entries (hist_abs st))[k :=
      \<lparr>he_line = Some l, he_time = Some (savestring s), he_data = d\<rparr>]\<rparr>" by (auto simp: t(1) s)
  then show ?thesis
    using False k(1) t(1) s length_abs [OF assms]
    by (simp add: hist_step_def hist_spec_step_def Let_def)
qed

text \<open>The loops of \<open>replace_history_data\<close>: replacing every match, and finding the last one.\<close>

lemma good_set_data: "good_entry (set_data old new e) = good_entry e"
  by (simp add: set_data_def good_entry_def)

lemma set_data_slot:
  fixes old new :: nat
  assumes "hist_inv st" and "k < length (live st)"
  defines "e \<equiv> sp_entries (hist_abs st) ! k"
  defines "st' \<equiv> (if he_data e = old then set_entry (live st ! k) (e\<lparr>he_data := new\<rparr>) st else st)"
  shows "hist_inv st' \<and> live st' = live st \<and>
    hist_abs st' = (hist_abs st)\<lparr>sp_entries := (sp_entries (hist_abs st))[k := set_data old new e]\<rparr>"
proof (cases "he_data e = old")
  case True
  have "good_entry (e\<lparr>he_data := new\<rparr>)"
    using entry_live(4) [OF assms(1,2)] by (simp add: e_def good_entry_def)
  from update_entry [OF assms(1,2) this] True show ?thesis by (simp add: st'_def set_data_def)
next
  case False
  then show ?thesis using assms(1) by (simp add: st'_def set_data_def) (simp add: e_def)
qed

lemma replace_every:
  assumes "hist_inv st" and "k + n \<le> length (live st)"
  shows "\<exists>m st'. replace_all n (int k) True old new m0 st = Inr (m, st') \<and> hist_inv st' \<and> live st' = live st \<and>
    hist_abs st' = (hist_abs st)\<lparr>sp_entries :=
      take k (sp_entries (hist_abs st)) @ map (set_data old new) (take n (drop k (sp_entries (hist_abs st)))) @
      drop (k + n) (sp_entries (hist_abs st))\<rparr>"
  using assms
proof (induction n arbitrary: k st m0)
  case 0
  then show ?case by simp
next
  case (Suc n)
  let ?xs = "sp_entries (hist_abs st)"
  let ?e = "?xs ! k"
  let ?st = "if he_data ?e = old then set_entry (live st ! k) (?e\<lparr>he_data := new\<rparr>) st else st"
  let ?m = "if he_data ?e = old then int k else m0"
  have k: "k < length (live st)" using Suc.prems by simp
  then have kx: "k < length ?xs" by (simp add: length_abs_live)
  note el = entry_live [OF Suc.prems(1) k]
  have step: "replace_all (Suc n) (int k) True old new m0 st = replace_all n (int (Suc k)) True old new ?m ?st"
    using el by (simp add: add.commute)
  note sd = set_data_slot [OF Suc.prems(1) k, of old new]
  have "Suc k + n \<le> length (live ?st)" using sd Suc.prems(2) by simp
  from Suc.IH [OF conjunct1 [OF sd] this, of ?m] obtain m st'
    where r: "replace_all n (int (Suc k)) True old new ?m ?st = Inr (m, st')" "hist_inv st'" "live st' = live ?st"
      "hist_abs st' = (hist_abs ?st)\<lparr>sp_entries :=
        take (Suc k) (sp_entries (hist_abs ?st)) @ map (set_data old new) (take n (drop (Suc k) (sp_entries (hist_abs ?st)))) @
        drop (Suc k + n) (sp_entries (hist_abs ?st))\<rparr>"
    by blast
  have ab: "hist_abs ?st = (hist_abs st)\<lparr>sp_entries := ?xs[k := set_data old new ?e]\<rparr>" using sd by blast
  have d: "drop k ?xs = ?e # drop (Suc k) ?xs" using kx by (simp add: Cons_nth_drop_Suc)
  have "take (Suc k) (?xs[k := set_data old new ?e]) @ map (set_data old new) (take n (drop (Suc k) ?xs)) @ drop (Suc k + n) ?xs =
      take k ?xs @ map (set_data old new) (take (Suc n) (drop k ?xs)) @ drop (k + Suc n) ?xs"
    using kx by (simp add: take_Suc_conv_app_nth d)
  then show ?case using step r sd unfolding ab by (intro exI [of _ m] exI [of _ st']) simp
qed

lemma find_last:
  assumes "hist_inv st" and "k + n \<le> length (live st)"
  shows "replace_all n (int k) False old new m st =
    Inr (case find (\<lambda>i. he_data (sp_entries (hist_abs st) ! i) = old) (rev [k..<k + n]) of
           None \<Rightarrow> m | Some i \<Rightarrow> int i, st)"
  using assms(2)
proof (induction n arbitrary: k m)
  case 0
  then show ?case by simp
next
  case (Suc n)
  have k: "k < length (live st)" using Suc.prems by simp
  note el = entry_live [OF assms(1) k]
  let ?P = "\<lambda>i. he_data (sp_entries (hist_abs st) ! i) = old"
  have fa: "find P (xs @ [x]) = (case find P xs of None \<Rightarrow> if P x then Some x else None | Some y \<Rightarrow> Some y)"
    for P xs and x :: nat by (induction xs) simp_all
  have "rev [k..<k + Suc n] = rev [Suc k..<Suc k + n] @ [k]" by (simp add: upt_conv_Cons del: upt_Suc)
  then have f: "find ?P (rev [k..<k + Suc n]) =
      (case find ?P (rev [Suc k..<Suc k + n]) of None \<Rightarrow> if ?P k then Some k else None | Some y \<Rightarrow> Some y)"
    by (simp only: fa)
  have "replace_all (Suc n) (int k) False old new m st = replace_all n (int (Suc k)) False old new (if ?P k then int k else m) st"
    using el by (simp add: add.commute)
  also have "\<dots> = Inr (case find ?P (rev [Suc k..<Suc k + n]) of None \<Rightarrow> if ?P k then int k else m | Some i \<Rightarrow> int i, st)"
    by (rule Suc.IH) (use Suc.prems in simp)
  finally show ?case unfolding f by (simp split: option.splits)
qed

lemma replace_data_refines:
  assumes "hist_inv st"
  shows "\<exists>st'. hist_step comment (Replace_Data which old new) st = Inr st' \<and> hist_inv st' \<and>
    hist_abs st' = hist_spec_step comment (Replace_Data which old new) (hist_abs st)"
proof -
  let ?xs = "sp_entries (hist_abs st)"
  have len: "int (length ?xs) = history_length st" by (rule length_abs [OF assms])
  have ll: "length (live st) = nat (history_length st)" by (rule length_live [OF assms])
  show ?thesis
  proof (cases "which < -2 \<or> which \<ge> history_length st \<or> history_length st = 0")
    case True
    have "?xs = []" if "history_length st = 0" using that len by simp
    with True assms show ?thesis
      by (intro exI [of _ st])
        (auto simp: hist_step_def replace_history_data_def hist_spec_step_def len Let_def last_match_def split: option.split)
  next
    case ok: False
    then have arr: "the_history st \<noteq> None" using assms by (cases "the_history st") (auto simp: hist_inv_def)
    then obtain y where y: "the_history st = Some y" by blast
    consider (one) "which \<ge> 0" | (all) "which = -1" | (last) "which = -2" using ok by linarith
    then show ?thesis
    proof cases
      case one
      define k where "k = nat which"
      have k: "which = int k" "k < length (live st)" using one ok ll by (auto simp: k_def)
      note el = entry_live [OF assms k(2)]
      let ?st = "if he_data (?xs ! k) = old then set_entry (live st ! k) ((?xs ! k)\<lparr>he_data := new\<rparr>) st else st"
      have "hist_step comment (Replace_Data which old new) st = Inr ?st"
        using el ok k y by (auto simp: hist_step_def replace_history_data_def)
      moreover have "hist_spec_step comment (Replace_Data which old new) (hist_abs st) =
          (hist_abs st)\<lparr>sp_entries := ?xs[k := set_data old new (?xs ! k)]\<rparr>"
        using ok k length_abs_live [of st] by (simp add: hist_spec_step_def len Let_def)
      moreover note set_data_slot [OF assms k(2), of old new]
      ultimately show ?thesis by metis
    next
      case all
      from replace_every [OF assms, of 0 "nat (history_length st)" old new "-1"] ll
      obtain m st' where r: "replace_all (nat (history_length st)) 0 True old new (-1) st = Inr (m, st')" "hist_inv st'"
        "hist_abs st' = (hist_abs st)\<lparr>sp_entries := map (set_data old new) ?xs\<rparr>"
        by (auto simp: length_abs_live)
      then show ?thesis
        using ok y all by (simp add: hist_step_def replace_history_data_def hist_spec_step_def len Let_def)
    next
      case last
      have f: "replace_all (nat (history_length st)) 0 False old new (-1) st =
          Inr (case last_match old ?xs of None \<Rightarrow> -1 | Some i \<Rightarrow> int i, st)"
        using find_last [OF assms, of 0 "nat (history_length st)" old new "-1"] ll
        by (simp add: last_match_def length_abs_live)
      show ?thesis
      proof (cases "last_match old ?xs")
        case None
        with f ok y last assms show ?thesis
          by (simp add: hist_step_def replace_history_data_def hist_spec_step_def len Let_def)
      next
        case (Some i)
        then have i: "i < length (live st)"
          by (auto simp: last_match_def find_Some_iff rev_nth length_abs_live)
        note el = entry_live [OF assms i]
        have g: "good_entry ((?xs ! i)\<lparr>he_data := new\<rparr>)" using el(4) by (simp add: good_entry_def)
        from update_entry [OF assms i g] f ok y last el Some show ?thesis
          by (simp add: hist_step_def replace_history_data_def hist_spec_step_def len Let_def)
      qed
    qed
  qed
qed

lemma good_slots_subset:
  "good_slots st as \<Longrightarrow> distinct bs \<Longrightarrow> set bs \<subseteq> set as \<Longrightarrow> hs_fresh st' = hs_fresh st \<Longrightarrow>
    (\<And>a. a \<in> set bs \<Longrightarrow> hs_heap st' a = hs_heap st a) \<Longrightarrow> good_slots st' bs"
  unfolding good_slots_def by (metis subsetD)

lemma remove_refines:
  assumes "hist_inv st"
  shows "\<exists>st'. hist_step comment (Remove which) st = Inr st' \<and> hist_inv st' \<and>
    hist_abs st' = hist_spec_step comment (Remove which) (hist_abs st)"
proof (cases "which < 0 \<or> which \<ge> history_length st")
  case True
  with assms show ?thesis
    by (auto simp: hist_step_def remove_history_def hist_spec_step_def length_abs Let_def)
next
  case False
  obtain arr where arr: "the_history st = Some arr"
    using assms False by (cases "the_history st") (auto simp: hist_inv_def)
  from assms obtain n where n: "history_length st = int n" "n < length arr" "arr ! n = 0"
      "history_size st = int (length arr)" "good_slots st (take n arr)" "0 < hs_fresh st" "within_limit st"
    unfolding hist_inv_Some [OF arr] by blast
  define k where "k = nat which"
  have k: "which = int k" "k < n" using False n(1) by (auto simp: k_def)
  let ?arr = "take k arr @ take (n - k) (drop (Suc k) arr) @ drop n arr"
  define st' where "st' = st\<lparr>the_history := Some ?arr, history_length := int n - 1\<rparr>"
  have sd: "shift_down (n - k) (int k) st = Inr (st\<lparr>the_history := Some ?arr\<rparr>)"
    using shift_down_array [OF arr, of k "n - k"] k n(2) by simp
  have run: "hist_step comment (Remove which) st = Inr st'"
    using False sd arr k n(1,2)
    by (simp add: hist_step_def remove_history_def slot_def st'_def flip: of_nat_diff)
  have tk: "take (n - 1) ?arr = take k (take n arr) @ drop (Suc k) (take n arr)"
  proof -
    have le: "k \<le> n - 1" using k by simp
    have "take (n - 1) ?arr = take k arr @ take (n - 1 - k) (take (n - k) (drop (Suc k) arr))"
      using k n(2) le by (simp add: min_absorb2)
    also have "take (n - 1 - k) (take (n - k) (drop (Suc k) arr)) = drop (Suc k) (take n arr)"
      using k by (simp add: drop_take)
    finally show ?thesis using k n(2) by (simp add: min_absorb1)
  qed
  have last: "?arr ! (n - 1) = 0"
  proof -
    have "?arr ! (n - 1) = take (n - k) (drop (Suc k) arr) ! (n - 1 - k)"
      using k n(2) diff_less_mono2 [of k "Suc k" n] by (auto simp: nth_append)
    also have "\<dots> = arr ! n" using k n(2) by simp
    finally show ?thesis using n(3) by simp
  qed
  have len: "length ?arr = length arr" using k n(2) by simp
  have "good_slots st' (take k (take n arr) @ drop (Suc k) (take n arr))"
  proof (rule good_slots_subset [OF n(5)])
    have "distinct (take n arr)" using n(5) by (simp add: good_slots_def)
    moreover have "take n arr = take k (take n arr) @ take n arr ! k # drop (Suc k) (take n arr)"
      using k n(2) by (intro id_take_nth_drop) simp
    ultimately show "distinct (take k (take n arr) @ drop (Suc k) (take n arr))"
      by (metis distinct_append distinct.simps(2) Int_insert_right list.simps(15) insert_disjoint(1) inf_commute)
    show "set (take k (take n arr) @ drop (Suc k) (take n arr)) \<subseteq> set (take n arr)"
      using set_take_subset [of k "take n arr"] set_drop_subset [of "Suc k" "take n arr"]
      by (simp only: set_append Un_subset_iff simp_thms)
  qed (simp_all add: st'_def)
  then have inv: "hist_inv st'"
    using n k tk last len
    by (subst hist_inv_Some [of st' ?arr]) (auto simp: st'_def within_limit_def intro!: exI [of _ "n - 1"])
  have "live st' = take k (live st) @ drop (Suc k) (live st)"
    using live_Some [of st' ?arr "n - 1"] live_Some [OF arr n(1)] tk k by (simp add: st'_def)
  then have "hist_abs st' = hist_spec_step comment (Remove which) (hist_abs st)"
    using False k n(1) length_abs [OF assms]
    by (simp add: hist_spec_step_def Let_def) (simp add: hist_abs_def st'_def take_map drop_map)
  with run inv show ?thesis by blast
qed

lemma stifle_live:
  assumes "hist_inv st" and "0 \<le> m" and "m < history_length st"
  shows "\<exists>st'. stifle_history m st = Inr st' \<and> hist_inv st' \<and>
    live st' = drop (nat (history_length st - m)) (live st) \<and>
    history_base st' = history_length st - m \<and> (\<forall>a \<in> set (live st'). hs_heap st' a = hs_heap st a) \<and>
    history_length st' = m \<and> history_offset st' = history_offset st \<and> history_stifled st' \<and> history_max_entries st' = m \<and>
    (\<exists>arr arr'. the_history st = Some arr \<and> the_history st' = Some arr' \<and> length arr' = length arr \<and>
      (\<forall>i. nat m < i \<longrightarrow> i < length arr \<longrightarrow> arr' ! i = arr ! i))"
proof -
  define mm where "mm = nat m"
  have mm: "m = int mm" using assms(2) by (simp add: mm_def)
  obtain arr where arr: "the_history st = Some arr"
    using assms by (cases "the_history st") (auto simp: hist_inv_def)
  from assms(1) obtain n where n: "history_length st = int n" "n < length arr" "arr ! n = 0"
      "history_size st = int (length arr)" "good_slots st (take n arr)" "0 < hs_fresh st" "within_limit st"
    unfolding hist_inv_Some [OF arr] by blast
  have mn: "mm < n" using assms(3) mm n(1) by simp
  define j where "j = n - mm"
  have j: "history_length st - int mm = int j" "0 < j" "j + mm = n" using mn n(1) by (auto simp: j_def)
  have lv: "live st = take n arr" by (rule live_Some [OF arr n(1)])
  define st0 where "st0 = st\<lparr>hs_heap := hs_heap st |` (- set (take j arr))\<rparr>"
  have dist: "distinct (take n arr)" using n(5) by (simp add: good_slots_def)
  have tkj: "take n arr = take j arr @ take mm (drop j arr)" using j by (metis take_add)
  have fr: "free_slots j 0 st = Inr st0"
    using free_slots_heap [OF arr, of 0 j] n(5) dist j n(2) unfolding st0_def
    by (auto simp: good_slots_def tkj)
  let ?arr1 = "take mm (drop j arr) @ drop mm arr"
  have mv: "move_slots mm (int j) 0 (st0\<lparr>history_base := int j\<rparr>) =
      Inr (st0\<lparr>history_base := int j, the_history := Some ?arr1\<rparr>)"
    using move_slots_array [of "st0\<lparr>history_base := int j\<rparr>" arr j mm 0] arr j n(2) by (simp add: st0_def)
  let ?arr2 = "?arr1[mm := 0]"
  have len: "length ?arr1 = length arr" using j n(2) by simp
  define st' where "st' = st0\<lparr>history_base := int j, the_history := Some ?arr2, history_length := int mm,
    history_stifled := True, max_input_history := int mm, history_max_entries := int mm\<rparr>"
  have ss: "set_slot (int mm) 0 (st0\<lparr>history_base := int j, the_history := Some ?arr1\<rparr>) =
      Inr (st0\<lparr>history_base := int j, the_history := Some ?arr2\<rparr>)"
    using set_slot_nth [of "st0\<lparr>history_base := int j, the_history := Some ?arr1\<rparr>" ?arr1 mm 0] len mn n(2) by simp
  have run: "stifle_history m st = Inr st'"
    using assms(3) fr mv ss j(1) by (simp add: stifle_history_def mm Let_def st'_def)
  have tk: "take mm ?arr2 = take mm (drop j arr)" using j n(2) by simp
  have heap: "hs_heap st' a = hs_heap st a" if "a \<in> set (take mm (drop j arr))" for a
  proof -
    have "a \<notin> set (take j arr)" using dist that unfolding tkj by auto
    then show ?thesis by (simp add: st'_def st0_def)
  qed
  have "good_slots st' (take mm (drop j arr))"
    by (rule good_slots_subset [OF n(5)]) (use dist heap in \<open>auto simp: tkj st'_def st0_def\<close>)
  then have inv: "hist_inv st'"
    using n mn len tk
    by (subst hist_inv_Some [of st' ?arr2]) (auto simp: st'_def st0_def within_limit_def intro!: exI [of _ mm])
  have lv': "live st' = take mm (drop j arr)"
    using live_Some [of st' ?arr2 mm] tk by (simp add: st'_def)
  have dl: "take mm (drop j arr) = drop j (live st)" unfolding lv tkj using j n(2) by simp
  have far: "\<forall>i. mm < i \<longrightarrow> i < length arr \<longrightarrow> ?arr2 ! i = arr ! i"
    using j n(2) by (auto simp: nth_append nth_list_update)
  have "nat (history_length st - m) = j" using j(1) mm by simp
  then show ?thesis
    using run inv lv' dl heap far len arr mm j(1)
    by (intro exI [of _ st'] conjI exI [of _ arr] exI [of _ ?arr2]) (auto simp: st'_def st0_def)
qed

lemma stifle_refines:
  assumes "hist_inv st"
  shows "\<exists>st'. hist_step comment (Stifle m) st = Inr st' \<and> hist_inv st' \<and>
    hist_abs st' = hist_spec_step comment (Stifle m) (hist_abs st)"
proof -
  define M where "M = max 0 m"
  have mm: "(if m < 0 then 0 else m) = M" and M: "0 \<le> M" by (simp_all add: M_def)
  have same: "stifle_history M st = stifle_history m st"
    using M by (simp add: stifle_history_def Let_def mm)
  have spec: "hist_spec_step comment (Stifle m) s = (let n = int (length (sp_entries s)) in
      if n > M
      then s\<lparr>sp_entries := drop (nat (n - M)) (sp_entries s), sp_base := n - M, sp_limit := Some M\<rparr>
      else s\<lparr>sp_limit := Some M\<rparr>)" for s
    by (simp add: hist_spec_step_def Let_def flip: M_def)
  show ?thesis
  proof (cases "history_length st > M")
    case False
    define st' where "st' = st\<lparr>history_stifled := True, max_input_history := M, history_max_entries := M\<rparr>"
    have "hist_step comment (Stifle m) st = Inr st'"
      using False by (auto simp: hist_step_def stifle_history_def mm Let_def st'_def)
    moreover have lv: "live st' = live st" by (cases "the_history st") (simp_all add: live_def st'_def)
    moreover have "hist_inv st'"
      using assms False unfolding hist_inv_def lv by (cases "the_history st") (auto simp: st'_def)
    moreover have "hist_abs st' = hist_spec_step comment (Stifle m) (hist_abs st)"
      using False length_abs [OF assms] lv
      by (simp add: spec Let_def) (simp add: hist_abs_def st'_def)
    ultimately show ?thesis by blast
  next
    case True
    from stifle_live [OF assms M True] obtain st'
      where st': "stifle_history m st = Inr st'" "hist_inv st'"
        "live st' = drop (nat (history_length st - M)) (live st)"
        "history_base st' = history_length st - M" "\<forall>a \<in> set (live st'). hs_heap st' a = hs_heap st a"
        "history_offset st' = history_offset st" "history_stifled st'" "history_max_entries st' = M"
      unfolding same by blast
    have "map (\<lambda>a. the (hs_heap st' a)) (live st') =
        drop (nat (history_length st - M)) (map (\<lambda>a. the (hs_heap st a)) (live st))"
      unfolding drop_map st'(3) [symmetric] using st'(5) by (intro map_cong) auto
    then have "hist_abs st' = hist_spec_step comment (Stifle m) (hist_abs st)"
      using True length_abs [OF assms] st'(4,6-8)
      by (simp add: spec Let_def) (simp add: hist_abs_def)
    with st'(1,2) show ?thesis by (simp add: hist_step_def)
  qed
qed

lemma clear_refines:
  assumes "hist_inv st"
  shows "\<exists>st'. hist_step comment Clear st = Inr st' \<and> hist_inv st' \<and>
    hist_abs st' = hist_spec_step comment Clear (hist_abs st)"
proof (cases "the_history st")
  case None
  define st' where "st' = st\<lparr>history_offset := 0, history_length := 0\<rparr>"
  from assms have z: "history_length st = 0" "history_offset st = 0" by (simp_all add: hist_inv_def None)
  then have "hist_step comment Clear st = Inr st'"
    by (simp add: hist_step_def clear_history_def st'_def)
  moreover have "st' = st" using z by (simp add: st'_def)
  moreover have "hist_abs st = hist_spec_step comment Clear (hist_abs st)"
    using z by (simp add: hist_spec_step_def Let_def hist_abs_def live_def None)
  ultimately show ?thesis using assms by metis
next
  case arr: (Some arr)
  from assms obtain n where n: "history_length st = int n" "n < length arr" "arr ! n = 0"
      "history_size st = int (length arr)" "good_slots st (take n arr)" "0 < hs_fresh st" "within_limit st"
    unfolding hist_inv_Some [OF arr] by blast
  define st' where "st' = st\<lparr>hs_heap := hs_heap st |` (- set (take n arr)),
    the_history := Some (replicate n 0 @ drop n arr), history_offset := 0, history_length := 0\<rparr>"
  have "clear_slots n (int 0) st = Inr (st\<lparr>hs_heap := hs_heap st |` (- set (take n arr)),
      the_history := Some (replicate n 0 @ drop n arr)\<rparr>)"
    using clear_slots_heap [OF arr, of 0 n] n(2,5) by (auto simp: good_slots_def)
  then have run: "hist_step comment Clear st = Inr st'"
    by (simp add: hist_step_def clear_history_def n(1) st'_def)
  have "(replicate n 0 @ drop n arr) ! 0 = 0" using n(2,3) by (cases n) (simp_all add: nth_append)
  then have inv: "hist_inv st'"
    using n
    by (subst hist_inv_Some [of st' "replicate n 0 @ drop n arr"])
      (auto simp: st'_def within_limit_def good_slots_def)
  have "hist_abs st' = hist_spec_step comment Clear (hist_abs st)"
    by (simp add: hist_spec_step_def Let_def) (simp add: hist_abs_def live_def st'_def)
  with run inv show ?thesis by blast
qed

lemma hist_flags_refine:
  assumes "hist_inv st"
  shows "\<exists>st'. hist_step comment Unstifle st = Inr st' \<and> hist_inv st' \<and>
      hist_abs st' = hist_spec_step comment Unstifle (hist_abs st)"
    and "\<exists>st'. hist_step comment Use st = Inr st' \<and> hist_inv st' \<and>
      hist_abs st' = hist_spec_step comment Use (hist_abs st)"
    and "\<exists>st'. hist_step comment (Set_Pos pos) st = Inr st' \<and> hist_inv st' \<and>
      hist_abs st' = hist_spec_step comment (Set_Pos pos) (hist_abs st)"
proof -
  have len: "int (length (sp_entries (hist_abs st))) = history_length st" by (rule length_abs [OF assms])
  have lu: "live (st\<lparr>history_stifled := False\<rparr>) = live st" "live (st\<lparr>history_offset := x\<rparr>) = live st" for x
    by (cases "the_history st"; simp add: live_def)+
  have iu: "hist_inv (st\<lparr>history_stifled := False\<rparr>)"
    using assms unfolding hist_inv_def lu by (cases "the_history st") auto
  have io: "hist_inv (st\<lparr>history_offset := x\<rparr>)" if "the_history st = None \<longrightarrow> x = 0" for x
    using assms that unfolding hist_inv_def lu by (cases "the_history st") auto
  show "\<exists>st'. hist_step comment Unstifle st = Inr st' \<and> hist_inv st' \<and>
      hist_abs st' = hist_spec_step comment Unstifle (hist_abs st)"
    using iu assms by (auto simp: hist_step_def unstifle_history_def hist_spec_step_def Let_def hist_abs_def lu)
  have "the_history st = None \<longrightarrow> history_length st = 0" using assms by (auto simp: hist_inv_def)
  then show "\<exists>st'. hist_step comment Use st = Inr st' \<and> hist_inv st' \<and>
      hist_abs st' = hist_spec_step comment Use (hist_abs st)"
    using io len by (simp add: hist_step_def using_history_def hist_spec_step_def Let_def) (simp add: hist_abs_def lu)
  show "\<exists>st'. hist_step comment (Set_Pos pos) st = Inr st' \<and> hist_inv st' \<and>
      hist_abs st' = hist_spec_step comment (Set_Pos pos) (hist_abs st)"
  proof (cases "pos > history_length st \<or> pos < 0 \<or> the_history st = None")
    case True
    then have "hist_spec_step comment (Set_Pos pos) (hist_abs st) = hist_abs st"
    proof (cases "pos > history_length st \<or> pos < 0")
      case False
      with True assms have "pos = 0" "history_offset st = 0" by (auto simp: hist_inv_def)
      then show ?thesis using False by (simp add: hist_spec_step_def Let_def len) (simp add: hist_abs_def)
    qed (auto simp: hist_spec_step_def Let_def len)
    with True assms show ?thesis by (auto simp: hist_step_def history_set_pos_def)
  next
    case False
    then have "hist_spec_step comment (Set_Pos pos) (hist_abs st) = hist_abs (st\<lparr>history_offset := pos\<rparr>)"
      by (simp add: hist_spec_step_def Let_def len) (simp add: hist_abs_def lu)
    with False io [of pos] show ?thesis by (auto simp: hist_step_def history_set_pos_def)
  qed
qed

interpretation hist: refined_component "hist_step comment" hist_inv hist_abs "hist_spec_step comment" hist_allowed
proof
  fix st c assume inv: "hist_inv st" and ok: "hist_allowed c (hist_abs st)"
  show "\<exists>st'. hist_step comment c st = Inr st' \<and> hist_inv st' \<and> hist_abs st' = hist_spec_step comment c (hist_abs st)"
  proof (cases c)
    case (Add_Time t)
    with ok show ?thesis using add_time_refines [OF inv] by (simp add: hist_allowed_def)
  qed (use add_history_refines replace_refines replace_data_refines remove_refines stifle_refines clear_refines
      hist_flags_refine inv in \<open>simp_all\<close>)
qed

section \<open>Sessions\<close>

definition hist_start :: "nat \<Rightarrow> hist_state" where
  "hist_start junk =
     \<lparr>hs_heap = Map.empty, hs_fresh = 1, hs_junk = junk, the_history = None, history_stifled = False,
      history_size = 0, history_max_entries = 0, max_input_history = 0, history_offset = 0,
      history_length = 0, history_base = 1\<rparr>"

definition spec_start :: hist_spec where
  "spec_start = \<lparr>sp_entries = [], sp_limit = None, sp_base = 1, sp_offset = 0\<rparr>"

lemma hist_start: "hist_inv (hist_start junk)" "hist_abs (hist_start junk) = spec_start"
  by (simp_all add: hist_inv_def hist_abs_def live_def hist_start_def spec_start_def)

lemma session_from_start:
  "ops_allowed hist_allowed (hist_spec_step comment) cs spec_start \<Longrightarrow>
    \<exists>st. run_ops (hist_step comment) cs (hist_start junk) = Inr st \<and> hist_inv st \<and>
      hist_abs st = fold (hist_spec_step comment) cs spec_start"
  using hist.session_refines [OF hist_start(1), of comment cs junk] by (simp add: hist_start(2))

text \<open>
  C1: the history list is a list. Any sequence of additions, replacements, removals, limits and the rest,
  started with an empty history, returns without a fault, and what the array and the heap hold then is
  what the same operations make of a plain list; the one condition is that \<open>add_history_time\<close> needs an
  entry.
\<close>

theorem history_refines_list:
  assumes "ops_allowed hist_allowed (hist_spec_step comment) cs spec_start"
  shows "\<exists>st. run_ops (hist_step comment) cs (hist_start junk) = Inr st \<and>
    hist_abs st = fold (hist_spec_step comment) cs spec_start"
  using session_from_start [OF assms] by blast

theorem history_refines_list_witness:
  "\<exists>st. run_ops (hist_step NUL) [Add 5 ''ls'', Add 6 ''cd'', Stifle 1, Add 7 ''pwd''] (hist_start 9) = Inr st \<and>
    map he_line (sp_entries (hist_abs st)) = [Some ''pwd'']"
  using history_refines_list [of NUL "[Add 5 ''ls'', Add 6 ''cd'', Stifle 1, Add 7 ''pwd'']" 9]
  by (auto simp: hist_allowed_def hist_spec_step_def spec_start_def Let_def)

definition entry_bytes :: "hist_entry \<Rightarrow> int" where
  "entry_bytes e = int (length (the (he_line e))) + int (length (the (cstr_of (the (he_time e)))))"

lemma total_bytes_slots:
  assumes "\<forall>a \<in> set as. a \<noteq> 0 \<and> (\<exists>e. hs_heap st a = Some e \<and> good_entry e)" and "int32 n"
  shows "total_bytes st (as @ 0 # rest) n = Inr (wrap32 (n + sum_list (map (\<lambda>a. entry_bytes (the (hs_heap st a))) as)))"
  using assms
proof (induction as arbitrary: n)
  case (Cons a as)
  then obtain e where e: "hs_heap st a = Some e" "good_entry e" "a \<noteq> 0" by auto
  then obtain l t where lt: "he_line e = Some l" "he_time e = Some t" "NUL \<in> set t" by (auto simp: good_entry_def)
  then obtain s where "cstr_of t = Some s" using cstr_of_None_iff [of t] by (cases "cstr_of t") auto
  with Cons e lt show ?case
    by (simp add: entry_def c_line_def block_string_def entry_bytes_def wrap32_range wrap32_add algebra_simps)
qed (simp add: wrap32_id)

text \<open>
  C28: what every reachable state looks like: the array has a null slot behind its \<open>history_length\<close>
  entries, which are distinct, allocated and complete; a stifled history holds no more entries than its
  limit; so \<open>history_total_bytes\<close>, which walks the array up to the null slot, gives the bytes of the
  lines and time stamps of the list, as an \<open>int\<close> of 32 bits.
\<close>

theorem history_well_formed:
  assumes "ops_allowed hist_allowed (hist_spec_step comment) cs spec_start"
    and "run_ops (hist_step comment) cs (hist_start junk) = Inr st"
  shows "hist_inv st \<and>
    (history_stifled st \<longrightarrow> history_length st \<le> history_max_entries st) \<and>
    history_total_bytes st = Inr (wrap32 (sum_list (map entry_bytes (sp_entries (hist_abs st)))))"
proof -
  have inv: "hist_inv st" using session_from_start [OF assms(1), of junk] assms(2) by auto
  moreover have "history_total_bytes st = Inr (wrap32 (sum_list (map entry_bytes (sp_entries (hist_abs st)))))"
  proof (cases "the_history st")
    case None
    then show ?thesis by (simp add: history_total_bytes_def hist_abs_def live_def wrap32_0)
  next
    case (Some arr)
    with inv obtain n where n: "history_length st = int n" "n < length arr" "arr ! n = 0" "good_slots st (take n arr)"
      unfolding hist_inv_Some [OF Some] by blast
    have "arr = take n arr @ 0 # drop (Suc n) arr" using id_take_nth_drop [OF n(2)] n(3) by simp
    moreover have "total_bytes st (take n arr @ 0 # drop (Suc n) arr) 0 =
        Inr (wrap32 (0 + sum_list (map (\<lambda>a. entry_bytes (the (hs_heap st a))) (take n arr))))"
      by (rule total_bytes_slots) (use n(4) in \<open>auto simp: good_slots_def int32_def\<close>)
    ultimately show ?thesis
      using live_Some [OF Some n(1)] Some by (simp add: history_total_bytes_def hist_abs_def comp_def)
  qed
  ultimately show ?thesis by (simp add: hist_inv_def)
qed

theorem history_well_formed_witness:
  "\<exists>st. run_ops (hist_step NUL) [Stifle 2, Add 5 ''ls'', Add 6 ''cd'', Add 7 ''pwd''] (hist_start 9) = Inr st \<and>
    history_total_bytes st = Inr 5"
proof -
  let ?cs = "[Stifle 2, Add 5 ''ls'', Add 6 ''cd'', Add 7 ''pwd'']"
  have ok: "ops_allowed hist_allowed (hist_spec_step NUL) ?cs spec_start"
    by (simp add: hist_allowed_def hist_spec_step_def spec_start_def Let_def)
  obtain st where st: "run_ops (hist_step NUL) ?cs (hist_start 9) = Inr st"
    "hist_abs st = fold (hist_spec_step NUL) ?cs spec_start"
    using session_from_start [OF ok, of 9] by blast
  from history_well_formed [OF ok st(1)] st show ?thesis
    by (simp add: hist_spec_step_def spec_start_def Let_def entry_bytes_def hist_inittime_def wrap32_alt)
qed

section \<open>Two surprises of a stifled history\<close>

text \<open>
  limiting the history renumbers what is kept. \<open>history_base\<close> is set to the number of entries
  dropped, where it should grow by it: the entry with number \<open>n\<close> is afterwards the one with number
  \<open>n - history_base\<close>, one less with the initial base.
\<close>

theorem stifle_renumbers:
  assumes "hist_inv st" and "0 \<le> m" and "m < history_length st" and "int32 n" and "int32 (history_base st)"
    and "history_length st - m \<le> n - history_base st" and "n - history_base st < history_length st"
    and "history_length st < 2 ^ 31"
  shows "\<exists>a st'. history_get n st = Inr a \<and> a \<noteq> 0 \<and> stifle_history m st = Inr st' \<and>
    history_get (n - history_base st) st' = Inr a \<and> hs_heap st' a = hs_heap st a"
proof -
  define i where "i = nat (n - history_base st)"
  have i: "n - history_base st = int i" "i < length (live st)"
    using assms(2,3,6,7) length_live [OF assms(1)] by (auto simp: i_def)
  let ?j = "nat (history_length st - m)"
  have w: "wrap32 (int i) = int i" using assms(2,3,7,8) i(1) by (intro wrap32_id) (simp add: int32_def)
  obtain arr where arr: "the_history st = Some arr"
    using assms(1,2,3) by (cases "the_history st") (auto simp: hist_inv_def)
  obtain st' where s: "stifle_history m st = Inr st'" "hist_inv st'"
    "hist_abs st' = hist_spec_step NUL (Stifle m) (hist_abs st)"
    using stifle_refines [OF assms(1), of NUL m] by (auto simp: hist_step_def)
  have g: "history_get n st = Inr (live st ! i)"
    using slot_live [OF assms(1) i(2)] i arr w assms(7) by (simp add: history_get_def Let_def)
  obtain st'' where d: "stifle_history m st = Inr st''" "live st'' = drop ?j (live st)"
    "history_base st'' = history_length st - m" "\<forall>a \<in> set (live st''). hs_heap st'' a = hs_heap st a"
    using stifle_live [OF assms(1-3)] by blast
  with s have st': "st' = st''" by simp
  have k: "i - ?j < length (live st'')" using i(2) assms(6) d(2) i(1) by auto
  have base: "int i - history_base st'' = int (i - ?j)"
    using d(3) assms(3,6) i(1) by (simp add: of_nat_diff nat_le_iff)
  have "wrap32 (int (i - ?j)) = int (i - ?j)"
    using assms(2,3,7,8) i(1) by (intro wrap32_id) (simp add: int32_def)
  moreover obtain y where "the_history st'' = Some y" using k by (cases "the_history st''") (auto simp: live_def)
  moreover have "\<not> int (i - ?j) \<ge> history_length st''"
    using k length_live [OF s(2)] st' by auto
  ultimately have "history_get (int i) st'' = Inr (live st'' ! (i - ?j))"
    using slot_live [of st'' "i - ?j"] s(2) st' k base by (simp add: history_get_def Let_def)
  moreover have "live st'' ! (i - ?j) = live st ! i"
    using d(2) k assms(3,6) i by (simp add: nat_le_iff)
  moreover have "live st'' ! (i - ?j) \<in> set (live st'')" using k by (rule nth_mem)
  moreover have "live st ! i \<noteq> 0" using entry_live(2) [OF assms(1) i(2)] .
  ultimately show ?thesis using g s(1) st' d(4) i(1) by auto
qed

theorem stifle_renumbers_witness:
  "\<exists>st a st'. run_ops (hist_step NUL) [Add 5 ''a'', Add 6 ''b'', Add 7 ''c''] (hist_start 9) = Inr st \<and>
    history_get 3 st = Inr a \<and> stifle_history 2 st = Inr st' \<and> history_get 2 st' = Inr a"
proof -
  let ?cs = "[Add 5 ''a'', Add 6 ''b'', Add 7 ''c'']"
  have ok: "ops_allowed hist_allowed (hist_spec_step NUL) ?cs spec_start"
    by (simp add: hist_allowed_def hist_spec_step_def spec_start_def Let_def)
  obtain st where st: "run_ops (hist_step NUL) ?cs (hist_start 9) = Inr st" "hist_inv st"
    "hist_abs st = fold (hist_spec_step NUL) ?cs spec_start"
    using session_from_start [OF ok, of 9] by blast
  have "history_length st = 3" "history_base st = 1"
    using length_abs [OF st(2)] arg_cong [OF st(3), of sp_base] st(3)
    by (simp_all add: hist_spec_step_def spec_start_def Let_def) (simp add: hist_abs_def)
  with stifle_renumbers [OF st(2), of 2 3] st(1) show ?thesis by (auto simp: int32_def)
qed

text \<open>
  \<open>stifle_history\<close> does not adjust \<open>history_offset\<close>. Called at the prompt, with the offset behind
  the last entry, it leaves the offset behind the end of the shorter list; there is no end any more for
  \<open>next_history\<close>, which reads on in the array - a slot that never held an entry of this list - and, when
  the old list filled it, outside.
\<close>

theorem next_after_stifle:
  assumes "hist_inv st" and "0 \<le> m" and "m < history_length st" and "history_offset st = history_length st"
    and "the_history st = Some arr"
  shows "\<exists>st'. stifle_history m st = Inr st' \<and> history_length st' < history_offset st' \<and>
    (if history_length st + 1 < int (length arr)
     then \<exists>st''. next_history st' = Inr (arr ! nat (history_length st + 1), st'')
     else next_history st' = Inl Out_Of_Bounds_Read)"
proof -
  from stifle_live [OF assms(1-3)] assms(5) obtain st' arr'
    where s: "stifle_history m st = Inr st'" "history_length st' = m" "history_offset st' = history_length st"
      "the_history st' = Some arr'" "length arr' = length arr"
      "\<forall>i. nat m < i \<longrightarrow> i < length arr \<longrightarrow> arr' ! i = arr ! i"
    using assms(4) by auto
  have "nat m < nat (history_length st + 1)" using assms(2,3) by simp
  then have "arr' ! nat (history_length st + 1) = arr ! nat (history_length st + 1)"
    if "history_length st + 1 < int (length arr)" using s(6) that assms(2,3) by simp
  then show ?thesis
    using s assms(2,3) by (auto simp: next_history_def slot_def Let_def)
qed

theorem next_after_stifle_witness:
  "\<exists>st st'. run_ops (hist_step NUL) [Add 5 ''a'', Add 6 ''b'', Use] (hist_start 9) = Inr st \<and>
    stifle_history 1 st = Inr st' \<and> history_length st' < history_offset st'"
proof -
  let ?cs = "[Add 5 ''a'', Add 6 ''b'', Use]"
  have ok: "ops_allowed hist_allowed (hist_spec_step NUL) ?cs spec_start"
    by (simp add: hist_allowed_def hist_spec_step_def spec_start_def Let_def)
  obtain st where st: "run_ops (hist_step NUL) ?cs (hist_start 9) = Inr st" "hist_inv st"
    "hist_abs st = fold (hist_spec_step NUL) ?cs spec_start"
    using session_from_start [OF ok, of 9] by blast
  have l: "history_length st = 2" "history_offset st = 2"
    using length_abs [OF st(2)] arg_cong [OF st(3), of sp_offset] st(3)
    by (simp_all add: hist_spec_step_def spec_start_def Let_def) (simp add: hist_abs_def)
  obtain arr where "the_history st = Some arr"
    using st(2) l by (cases "the_history st") (auto simp: hist_inv_def)
  with next_after_stifle [OF st(2), of 1 arr] st(1) l show ?thesis by auto
qed

section \<open>Time stamps\<close>

text \<open>
  the time of a new entry is read back (up to 2038), whatever the comment character. After \<open>replace_history_entry\<close> it still is when the comment
  character is set; with the default, \<open>NUL\<close>, the copied stamp is an empty string and
  \<open>history_get_time\<close> reads behind it.
\<close>

theorem entry_time:
  assumes "hist_inv st" and "int now < 2 ^ 31" and "\<not> (history_stifled st \<and> history_max_entries st = 0)"
  shows "\<exists>st1 a. add_history comment now (Some l) st = Inr st1 \<and>
    slot (history_length st1 - 1) st1 = Inr a \<and> history_get_time comment a st1 = Inr (int now) \<and>
    (\<exists>old st2 b. replace_history_entry (history_length st1 - 1) (Some l') d st1 = Inr (old, st2) \<and>
      slot (history_length st1 - 1) st2 = Inr b \<and>
      history_get_time comment b st2 = (if comment = NUL then Inl Out_Of_Bounds_Read else Inr (int now)))"
proof -
  let ?ts = "hist_inittime comment now"
  let ?e = "\<lparr>he_line = Some l, he_time = Some ?ts, he_data = 0\<rparr>"
  obtain st1 where s1: "add_history comment now (Some l) st = Inr st1" "hist_inv st1"
    "hist_abs st1 = hist_spec_step comment (Add now l) (hist_abs st)"
    using add_history_refines [OF assms(1), of comment now l] by (auto simp: hist_step_def)
  have nz: "sp_limit (hist_abs st) \<noteq> Some 0" using assms(3) by (auto simp: hist_abs_def)
  have "\<exists>xs. sp_entries (hist_abs st1) = xs @ [?e]"
    unfolding s1(3) hist_spec_step_def Let_def using nz by (auto split: if_splits)
  then obtain xs where xs: "sp_entries (hist_abs st1) = xs @ [?e]" ..
  define k where "k = length xs"
  have k: "history_length st1 - 1 = int k" "k < length (live st1)" "sp_entries (hist_abs st1) ! k = ?e"
    using length_abs [OF s1(2)] length_abs_live [of st1] by (auto simp: xs k_def)
  note el = entry_live [OF s1(2) k(2)]
  have digits: "NUL \<notin> set (show_nat now)" using show_nat_digits [of now] by (auto simp: is_digit_def)
  then have cs: "cstr_of (show_nat now @ [NUL]) = Some (show_nat now)" by (rule cstr_of_append_NUL)
  have at: "atol (show_nat now) = int now"
    using decimal_show_nat [of "[]" now] assms(2) by (simp add: atol_def)
  have t1: "history_get_time comment (live st1 ! k) st1 = Inr (int now)"
    using el k(3) cs at by (simp add: history_get_time_def hist_inittime_def)
  obtain old st2 where r: "replace_history_entry (int k) (Some l') d st1 = Inr (old, st2)" "hist_inv st2"
    "hist_abs st2 = hist_spec_step comment (Replace (int k) l' d) (hist_abs st1)"
    using replace_refines [OF s1(2), of comment "int k" l' d] by (auto simp: hist_step_def run_simps)
  have k2: "k < length (live st2)"
    using arg_cong [OF r(3), of "\<lambda>s. length (sp_entries s)"] k(2)
    by (simp add: hist_spec_step_def Let_def length_abs_live split: if_splits)
  note el2 = entry_live [OF r(2) k2]
  define copied where "copied = the (cstr_of ?ts)"
  have e2: "he_time (sp_entries (hist_abs st2) ! k) = Some (savestring copied)"
    unfolding r(3) using k length_abs_live [of st1]
    by (simp add: hist_spec_step_def Let_def copied_def split: if_splits)
  have t2: "history_get_time comment (live st2 ! k) st2 = (if comment = NUL then Inl Out_Of_Bounds_Read else Inr (int now))"
  proof (cases "comment = NUL")
    case True
    then have "copied = []" by (simp add: copied_def hist_inittime_def)
    with True el2 e2 show ?thesis by (simp add: history_get_time_def savestring_def)
  next
    case False
    then have "copied = comment # show_nat now" using cs by (simp add: copied_def hist_inittime_def)
    with False el2 e2 cs at show ?thesis by (simp add: history_get_time_def savestring_def)
  qed
  show ?thesis using s1(1) k(1) el(1) t1 r(1) el2(1) t2 by auto
qed

theorem entry_time_witness:
  "\<exists>st1 a. add_history (CHR ''#'') 1500000000 (Some ''ls'') (hist_start 9) = Inr st1 \<and>
    slot (history_length st1 - 1) st1 = Inr a \<and> history_get_time (CHR ''#'') a st1 = Inr 1500000000"
  using entry_time [OF hist_start(1) [of 9], of 1500000000 "CHR ''#''" "''ls''" "''x''" 0]
  by (auto simp: hist_start_def)

end
