(* ===== verification/History_Search.thy ===== *)
theory History_Search
  imports History_Spec
begin

text \<open>
  The search of \<open>readline-6.2/histsearch.c\<close>: it finds the nearest line that contains, or begins with,
  the string, and in it the first or, backward, the last occurrence.
\<close>

section \<open>Occurrences in a line\<close>

definition occurs :: "string \<Rightarrow> bool \<Rightarrow> string \<Rightarrow> nat \<Rightarrow> bool" where
  "occurs str anchored line p \<longleftrightarrow>
     p + length str \<le> length line \<and> take (length str) (drop p line) = str \<and> (anchored \<longrightarrow> p = 0)"

definition best :: "bool \<Rightarrow> nat \<Rightarrow> nat \<Rightarrow> bool" where
  "best reverse p q \<longleftrightarrow> (if reverse then q \<le> p else p \<le> q)"

lemma find_backward_spec:
  "case find_backward str line n of
     None \<Rightarrow> \<forall>p \<le> n. \<not> streqn_at str line p
   | Some p \<Rightarrow> p \<le> n \<and> streqn_at str line p \<and> (\<forall>q \<le> n. streqn_at str line q \<longrightarrow> q \<le> p)"
proof (induction n)
  case (Suc n)
  then show ?case by (auto simp: le_Suc_eq split: option.splits)
qed simp

lemma find_forward_spec:
  "case find_forward str line n p of
     None \<Rightarrow> \<forall>q. p \<le> q \<longrightarrow> q < p + n \<longrightarrow> \<not> streqn_at str line q
   | Some r \<Rightarrow> p \<le> r \<and> r < p + n \<and> streqn_at str line r \<and>
       (\<forall>q. p \<le> q \<longrightarrow> q < p + n \<longrightarrow> streqn_at str line q \<longrightarrow> r \<le> q)"
proof (induction n arbitrary: p)
  case (Suc n)
  show ?case
  proof (cases "streqn_at str line p")
    case False
    have split: "p \<le> q \<and> q < p + Suc n \<longleftrightarrow> q = p \<or> Suc p \<le> q \<and> q < Suc p + n" for q by auto
    from Suc.IH [of "Suc p"] False show ?thesis
      by (auto split: option.splits simp: split) (metis Suc_leI le_neq_implies_less)+
  qed simp
qed simp

lemma search_line_spec:
  "case search_line str reverse anchored line of
     None \<Rightarrow> \<forall>p. \<not> occurs str anchored line p
   | Some p \<Rightarrow> occurs str anchored line p \<and> (\<forall>q. occurs str anchored line q \<longrightarrow> best reverse p q)"
proof (cases "length str > length line")
  case True
  then show ?thesis by (simp add: search_line_def occurs_def)
next
  case False
  define n where "n = length line - length str"
  have oc: "occurs str anchored line p \<longleftrightarrow> p \<le> n \<and> streqn_at str line p \<and> (anchored \<longrightarrow> p = 0)" for p
    using False by (auto simp: occurs_def streqn_at_def n_def)
  show ?thesis
  proof (cases anchored)
    case True
    with oc have oc': "occurs str True line p \<longleftrightarrow> p = 0 \<and> streqn_at str line 0" for p by auto
    show ?thesis using False True by (simp add: search_line_def oc' best_def)
  next
    case na: False
    with oc have oc: "occurs str False line p \<longleftrightarrow> p \<le> n \<and> streqn_at str line p" for p by auto
    show ?thesis
    proof (cases reverse)
      case True
      with False na have "search_line str reverse anchored line = find_backward str line n"
        by (simp add: search_line_def n_def)
      with find_backward_spec [of n str line] na True show ?thesis
        by (auto simp: oc best_def split: option.splits)
    next
      case fw: False
      with False na have "search_line str reverse anchored line = find_forward str line (n + 1) 0"
        by (simp add: search_line_def n_def)
      with find_forward_spec [of 0 "n + 1" str line] na fw show ?thesis
        by (auto simp: oc best_def less_Suc_eq_le split: option.splits)
    qed
  qed
qed

section \<open>The loop over the lines\<close>

text \<open>
  What the loop needs: reading the lines of an array within its bounds. The order of the visits is a
  list of indices.
\<close>

locale line_array =
  fixes read_line :: "'s \<Rightarrow> int \<Rightarrow> string run"
    and lines_of :: "'s \<Rightarrow> string list"
    and ok :: "'s \<Rightarrow> bool"
  assumes read_line: "ok s \<Longrightarrow> k < length (lines_of s) \<Longrightarrow> read_line s (int k) = Inr (lines_of s ! k)"
begin

definition hit :: "string \<Rightarrow> bool \<Rightarrow> bool \<Rightarrow> 's \<Rightarrow> nat \<Rightarrow> nat option" where
  "hit str reverse anchored s k = search_line str reverse anchored (lines_of s ! k)"

lemma backward:
  assumes "ok s" and "k < length (lines_of s)"
  shows "search_lines (read_line s) str True anchored (Suc k) (int k) =
    Inr (map_option (\<lambda>i. (int i, the (hit str True anchored s i)))
      (find (\<lambda>i. hit str True anchored s i \<noteq> None) (rev [0..<Suc k])))"
  using assms(2)
proof (induction k)
  case 0
  then show ?case using read_line [OF assms(1), of 0] by (simp add: hit_def split: option.splits)
next
  case (Suc k)
  have "search_lines (read_line s) str True anchored (Suc k) (int (Suc k) - 1) =
      Inr (map_option (\<lambda>i. (int i, the (hit str True anchored s i)))
        (find (\<lambda>i. hit str True anchored s i \<noteq> None) (rev [0..<Suc k])))"
    using Suc by simp
  then show ?case
    using read_line [OF assms(1) Suc.prems]
    by (subst search_lines.simps) (simp add: hit_def split: option.splits)
qed

lemma forward:
  assumes "ok s" and "k + n \<le> length (lines_of s)"
  shows "search_lines (read_line s) str False anchored n (int k) =
    Inr (map_option (\<lambda>i. (int i, the (hit str False anchored s i)))
      (find (\<lambda>i. hit str False anchored s i \<noteq> None) [k..<k + n]))"
  using assms(2)
proof (induction n arbitrary: k)
  case 0
  then show ?case by simp
next
  case (Suc n)
  have "search_lines (read_line s) str False anchored n (int k + 1) =
      Inr (map_option (\<lambda>i. (int i, the (hit str False anchored s i)))
        (find (\<lambda>i. hit str False anchored s i \<noteq> None) [Suc k..<Suc k + n]))"
    using Suc.IH [of "Suc k"] Suc.prems by (simp add: add.commute)
  moreover have "[k..<k + Suc n] = k # [Suc k..<Suc k + n]" by (simp add: upt_conv_Cons del: upt_Suc)
  ultimately show ?case
    using read_line [OF assms(1), of k] Suc.prems
    by (subst search_lines.simps) (simp add: hit_def del: upt_Suc split: option.splits)
qed

end

definition history_lines :: "hist_state \<Rightarrow> string list" where
  "history_lines st = map (\<lambda>e. the (he_line e)) (sp_entries (hist_abs st))"

interpretation hist_lines: line_array history_line history_lines hist_inv
proof
  fix st k assume inv: "hist_inv st" and k: "k < length (history_lines st)"
  then have kl: "k < length (live st)" by (simp add: history_lines_def hist_abs_def)
  from entry_live [OF inv kl] obtain l where "he_line (sp_entries (hist_abs st) ! k) = Some l"
    by (auto simp: good_entry_def)
  with entry_live [OF inv kl] k show "history_line st (int k) = Inr (history_lines st ! k)"
    by (simp add: history_line_def c_line_def history_lines_def)
qed

section \<open>The nearest line\<close>

definition visits :: "bool \<Rightarrow> nat \<Rightarrow> nat \<Rightarrow> nat list" where
  "visits reverse offset n = (if reverse then rev [0..<min n (Suc offset)] else [offset..<n])"

lemma hit_iff: "hist_lines.hit str reverse anchored st k \<noteq> None \<longleftrightarrow> (\<exists>p. occurs str anchored (history_lines st ! k) p)"
  using search_line_spec [of str anchored "history_lines st ! k" reverse]
  by (cases "search_line str reverse anchored (history_lines st ! k)") (auto simp: hist_lines.hit_def)

lemma search_visits:
  fixes direction :: int
  assumes "hist_inv st" and "history_offset st = int off" and "s \<noteq> []"
  defines "reverse \<equiv> direction < 0"
  shows "history_search_internal (Some s) direction anchored st =
    Inr (case find (\<lambda>k. hist_lines.hit s reverse anchored st k \<noteq> None) (visits reverse off (length (history_lines st))) of
           None \<Rightarrow> (-1, st)
         | Some k \<Rightarrow> (int (the (hist_lines.hit s reverse anchored st k)), st\<lparr>history_offset := int k\<rparr>))"
proof -
  define n where "n = length (history_lines st)"
  have len: "history_length st = int n"
    using length_abs [OF assms(1)] by (simp add: n_def history_lines_def)
  show ?thesis
  proof (cases "n = 0 \<or> off \<ge> n \<and> \<not> reverse")
    case True
    then have "visits reverse off n = []" by (auto simp: visits_def)
    moreover have "history_search_internal (Some s) direction anchored st = Inr (-1, st)"
      using True assms(2,3) len by (auto simp: history_search_internal_def Let_def reverse_def)
    ultimately show ?thesis by (simp add: n_def)
  next
    case go: False
    show ?thesis
    proof (cases reverse)
      case True
      define i where "i = min (n - 1) off"
      have i: "(if off \<ge> n then int n - 1 else int off) = int i" "Suc i = min n (Suc off)" "i < n"
        using go True by (auto simp: i_def)
      have v: "visits reverse off n = rev [0..<Suc i]" unfolding visits_def i(2) using True by simp
      have "history_search_internal (Some s) direction anchored st =
          bind_run (search_lines (history_line st) s True anchored (Suc i) (int i)) (\<lambda>r.
          case r of None \<Rightarrow> Inr (-1, st) | Some (i, p) \<Rightarrow> Inr (int p, st\<lparr>history_offset := i\<rparr>))"
      proof -
        have start: "(if reverse \<and> history_offset st \<ge> history_length st then history_length st - 1 else history_offset st) = int i"
          using i(1) True assms(2) len by auto
        have sc: "nat (int i + 1) = Suc i" by simp
        have go': "\<not> (history_length st = 0 \<or> history_offset st \<ge> history_length st \<and> direction \<ge> 0)"
          using go True assms(2) len by (auto simp: reverse_def)
        show ?thesis
          using go' assms(3) start True sc
          by (simp add: history_search_internal_def Let_def reverse_def del: search_lines.simps)
      qed
      also have "\<dots> = bind_run (Inr (map_option (\<lambda>i. (int i, the (hist_lines.hit s True anchored st i)))
          (find (\<lambda>i. hist_lines.hit s True anchored st i \<noteq> None) (rev [0..<Suc i])))) (\<lambda>r.
          case r of None \<Rightarrow> Inr (-1, st) | Some (i, p) \<Rightarrow> Inr (int p, st\<lparr>history_offset := i\<rparr>))"
        using hist_lines.backward [OF assms(1), of i s anchored] i(3) by (simp add: n_def)
      finally show ?thesis
        using True v by (simp add: n_def split: option.splits)
    next
      case False
      then have off: "off < n" using go by simp
      have v: "visits reverse off n = [off..<off + (n - off)]" using False off by (simp add: visits_def)
      have "history_search_internal (Some s) direction anchored st =
          bind_run (search_lines (history_line st) s False anchored (n - off) (int off)) (\<lambda>r.
          case r of None \<Rightarrow> Inr (-1, st) | Some (i, p) \<Rightarrow> Inr (int p, st\<lparr>history_offset := i\<rparr>))"
        using go False assms(2,3) len off
        by (simp add: history_search_internal_def Let_def reverse_def nat_diff_distrib)
      also have "\<dots> = bind_run (Inr (map_option (\<lambda>i. (int i, the (hist_lines.hit s False anchored st i)))
          (find (\<lambda>i. hist_lines.hit s False anchored st i \<noteq> None) [off..<off + (n - off)]))) (\<lambda>r.
          case r of None \<Rightarrow> Inr (-1, st) | Some (i, p) \<Rightarrow> Inr (int p, st\<lparr>history_offset := i\<rparr>))"
        using hist_lines.forward [OF assms(1), of off "n - off" s anchored] off by (simp add: n_def)
      finally show ?thesis
        using False v by (simp add: n_def split: option.splits)
    qed
  qed
qed

text \<open>
  C29: the search visits the lines from the current one on in the given direction, or from the last one
  backward, and stops at the first that contains the string (at its beginning, for an anchored search).
  It makes that line the current one and returns the place of the first occurrence in it, of the last
  one when searching backward; when no line has the string it returns -1 and changes nothing.
\<close>

theorem history_search_nearest:
  fixes direction :: int
  assumes "hist_inv st" and "history_offset st = int off" and "s \<noteq> []"
  defines "reverse \<equiv> direction < 0"
  shows "case find (\<lambda>k. \<exists>p. occurs s anchored (history_lines st ! k) p) (visits reverse off (length (history_lines st))) of
      None \<Rightarrow> history_search_internal (Some s) direction anchored st = Inr (-1, st)
    | Some k \<Rightarrow> \<exists>p. history_search_internal (Some s) direction anchored st =
          Inr (int p, st\<lparr>history_offset := int k\<rparr>) \<and>
        occurs s anchored (history_lines st ! k) p \<and>
        (\<forall>q. occurs s anchored (history_lines st ! k) q \<longrightarrow> best reverse p q)"
proof -
  let ?find = "find (\<lambda>k. \<exists>p. occurs s anchored (history_lines st ! k) p) (visits reverse off (length (history_lines st)))"
  note run = search_visits [OF assms(1-3), of direction anchored, folded reverse_def, unfolded hit_iff]
  show ?thesis
  proof (cases ?find)
    case None
    then show ?thesis using run by simp
  next
    case (Some k)
    then have "\<exists>p. occurs s anchored (history_lines st ! k) p" by (auto simp: find_Some_iff)
    then obtain p where p: "search_line s reverse anchored (history_lines st ! k) = Some p"
      using search_line_spec [of s anchored "history_lines st ! k" reverse]
      by (cases "search_line s reverse anchored (history_lines st ! k)") auto
    then have "history_search_internal (Some s) direction anchored st = Inr (int p, st\<lparr>history_offset := int k\<rparr>)"
      using run Some by (simp add: hist_lines.hit_def)
    moreover have "occurs s anchored (history_lines st ! k) p \<and>
        (\<forall>q. occurs s anchored (history_lines st ! k) q \<longrightarrow> best reverse p q)"
      using search_line_spec [of s anchored "history_lines st ! k" reverse] p by simp
    ultimately show ?thesis using Some by auto
  qed
qed

theorem history_search_nearest_witness:
  "\<exists>st st'. run_ops (hist_step NUL) [Add 5 ''make all'', Add 6 ''ls'', Use] (hist_start 9) = Inr st \<and>
    history_search_internal (Some ''a'') (-1) False st = Inr (5, st')"
proof -
  let ?cs = "[Add 5 ''make all'', Add 6 ''ls'', Use]"
  have ok: "ops_allowed hist_allowed (hist_spec_step NUL) ?cs spec_start"
    by (simp add: hist_allowed_def hist_spec_step_def spec_start_def Let_def)
  obtain st where st: "run_ops (hist_step NUL) ?cs (hist_start 9) = Inr st" "hist_inv st"
    "hist_abs st = fold (hist_spec_step NUL) ?cs spec_start"
    using session_from_start [OF ok, of 9] by blast
  have l: "history_lines st = [''make all'', ''ls'']" "history_offset st = 2"
    using arg_cong [OF st(3), of sp_offset] st(3)
    by (simp_all add: history_lines_def hist_spec_step_def spec_start_def Let_def) (simp add: hist_abs_def)
  have o1: "\<not> (\<exists>p. occurs ''a'' False ''ls'' p)"
  proof
    assume "\<exists>p. occurs ''a'' False ''ls'' p"
    then obtain p where p: "occurs ''a'' False ''ls'' p" ..
    then have "p = 0 \<or> p = 1" by (auto simp: occurs_def)
    with p show False by (auto simp: occurs_def)
  qed
  have o0: "occurs ''a'' False ''make all'' 5" by (simp add: occurs_def eval_nat_numeral)
  have "find (\<lambda>k. \<exists>p. occurs ''a'' False (history_lines st ! k) p) (visits True 2 (length (history_lines st))) = Some 0"
    using o0 o1 by (auto simp: visits_def l eval_nat_numeral)
  then obtain p where p: "history_search_internal (Some ''a'') (-1) False st = Inr (int p, st\<lparr>history_offset := 0\<rparr>)"
    "occurs ''a'' False ''make all'' p" "\<forall>q. occurs ''a'' False ''make all'' q \<longrightarrow> best True p q"
    using history_search_nearest [OF st(2), of 2 "''a''" "-1" False] l by auto
  have "5 \<le> p" using p(3) o0 by (simp add: best_def)
  moreover have "p \<le> 7" using p(2) by (simp add: occurs_def)
  ultimately have "p = 5 \<or> p = 6 \<or> p = 7" by linarith
  then have "p = 5" using p(2) by (auto simp: occurs_def eval_nat_numeral)
  with p(1) st(1) show ?thesis by auto
qed

end
