(* ===== verification/Hist_Subst.thy ===== *)
theory Hist_Subst
  imports Hist_Tokenize History_Search
begin

text \<open>
  Quoting, error messages and the substitution of \<open>readline-6.2/histexpand.c\<close>: the parts of the history
  expansion that work on strings alone. Blocks are lists of bytes, stores are checked against them.
\<close>

section \<open>Quoting and messages\<close>

text \<open>The index of the closing quote, or of the terminator; \<open>flags\<close> says whether a backslash quotes.\<close>

function hist_string_extract_single_quoted :: "string \<Rightarrow> nat \<Rightarrow> bool \<Rightarrow> nat run" where
  "hist_string_extract_single_quoted s i flags =
     bind_run (byte_at s i) (\<lambda>c.
     if c = NUL \<or> c = CHR 0x27 then Inr i
     else
     bind_run (byte_at s (i + 1)) (\<lambda>d.
     hist_string_extract_single_quoted s (if flags \<and> c = CHR 0x5C \<and> d \<noteq> NUL then i + 2 else i + 1) flags))"
  by pat_completeness auto
termination
  by (relation "measure (\<lambda>(s, i, _). Suc (length s) - i)") (auto dest: byte_at_more)

declare hist_string_extract_single_quoted.simps [simp del]

definition breaks :: "char \<Rightarrow> bool" where
  "breaks c \<longleftrightarrow> whitespace c \<or> c = CHR 0x0A"

fun break_len :: "string \<Rightarrow> nat" where
  "break_len [] = 3"
| "break_len (c # s) = (if c = CHR 0x27 then 4 else if breaks c then 3 else 1) + break_len s"

fun break_loop :: "string \<Rightarrow> nat \<times> string \<Rightarrow> (nat \<times> string) run" where
  "break_loop [] st = Inr st"
| "break_loop (c # s) st =
     bind_run
       (if c = CHR 0x27 then store_chars [CHR 0x27, CHR 0x5C, CHR 0x27, CHR 0x27] st
        else if breaks c then store_chars [CHR 0x27, c, CHR 0x27] st
        else store_chars [c] st)
       (break_loop s)"

definition quote_breaks :: "char \<Rightarrow> string option \<Rightarrow> string run" where
  "quote_breaks j str =
     (let s = (case str of None \<Rightarrow> [] | Some s \<Rightarrow> s) in
      bind_run (store_chars [CHR 0x27] (0, replicate (break_len s) j)) (\<lambda>st.
      bind_run (break_loop s st) (\<lambda>st.
      bind_run (store_chars [CHR 0x27] st) (\<lambda>(r, blk).
      put_bytes r [NUL] blk))))"

datatype hist_errtype =
  EVENT_NOT_FOUND | BAD_WORD_SPEC | SUBST_FAILED | BAD_MODIFIER | NO_PREV_SUBST | Other_Error

fun error_text :: "hist_errtype \<Rightarrow> string \<times> nat" where
  "error_text EVENT_NOT_FOUND = (''event not found'', 15)"
| "error_text BAD_WORD_SPEC = (''bad word specifier'', 18)"
| "error_text SUBST_FAILED = (''substitution failed'', 19)"
| "error_text BAD_MODIFIER = (''unrecognized history modifier'', 29)"
| "error_text NO_PREV_SUBST = (''no previous substitution'', 24)"
| "error_text Other_Error = (''unknown expansion error'', 23)"

text \<open>The message's block; \<open>strncpy\<close> fills up with \<open>NUL\<close> behind the end of the string.\<close>

definition hist_error :: "char \<Rightarrow> string \<Rightarrow> nat \<Rightarrow> nat \<Rightarrow> hist_errtype \<Rightarrow> string run" where
  "hist_error j s start current errtype =
     (let ll = current - start; emsg = fst (error_text errtype); elen = snd (error_text errtype) in
      if start > length s then Inl Out_Of_Bounds_Read
      else
      bind_run (put_bytes 0 (take ll (drop start s @ replicate ll NUL)) (replicate (ll + elen + 3) j)) (\<lambda>temp.
      bind_run (put_bytes ll '': '' temp) (\<lambda>temp.
      put_bytes (ll + 2) (emsg @ [NUL]) temp)))"

section \<open>The pattern and the replacement\<close>

text \<open>The end of a pattern: the delimiter, unless a backslash quotes it, or the end of the string.\<close>

function pattern_end :: "string \<Rightarrow> char \<Rightarrow> nat \<Rightarrow> nat run" where
  "pattern_end s delimiter si =
     bind_run (byte_at s si) (\<lambda>c.
     if c = NUL \<or> c = delimiter then Inr si
     else
     bind_run (byte_at s (si + 1)) (\<lambda>d.
     pattern_end s delimiter (if c = CHR 0x5C \<and> d = delimiter then si + 2 else si + 1)))"
  by pat_completeness auto
termination
  by (relation "measure (\<lambda>(s, _, si). Suc (length s) - si)") (auto dest: byte_at_more)

declare pattern_end.simps [simp del]

text \<open>The loop that copies it without the quoting backslashes.\<close>

function unquoted :: "string \<Rightarrow> char \<Rightarrow> nat \<Rightarrow> nat \<Rightarrow> string run" where
  "unquoted s delimiter k si =
     (if k < si then
        bind_run (byte_at s k) (\<lambda>c.
        bind_run (byte_at s (k + 1)) (\<lambda>d.
        if c = CHR 0x5C \<and> d = delimiter
        then bind_run (unquoted s delimiter (k + 2) si) (\<lambda>r. Inr (d # r))
        else bind_run (unquoted s delimiter (k + 1) si) (\<lambda>r. Inr (c # r))))
      else Inr [])"
  by pat_completeness auto
termination
  by (relation "measure (\<lambda>(_, _, k, si). si - k)") auto

declare unquoted.simps [simp del]

text \<open>The pattern, whose length is stored through \<open>lenptr\<close>, and what is stored through \<open>iptr\<close>.\<close>

definition get_subst_pattern :: "char \<Rightarrow> string \<Rightarrow> nat \<Rightarrow> char \<Rightarrow> bool \<Rightarrow> (string option \<times> nat) run" where
  "get_subst_pattern j str i delimiter is_rhs =
     bind_run (pattern_end str delimiter i) (\<lambda>si.
     bind_run
       (if si > i \<or> is_rhs then
          bind_run (unquoted str delimiter i si) (\<lambda>p.
          bind_run (put_bytes 0 (p @ [NUL]) (replicate (si - i + 1) j)) (\<lambda>_. Inr (Some p)))
        else Inr None) (\<lambda>p.
     bind_run (byte_at str si) (\<lambda>c. Inr (p, if c \<noteq> NUL then si + 1 else si))))"

text \<open>
  The loop of \<open>postproc_subst_rhs\<close> over the rest of \<open>subst_rhs\<close>, with the block \<open>new\<close>, \<open>new_size\<close> and \<open>j\<close>.
\<close>

function postproc_loop :: "char \<Rightarrow> string option \<Rightarrow> nat \<Rightarrow> string \<Rightarrow> string \<times> nat \<times> nat \<Rightarrow> (string \<times> nat) run" where
  "postproc_loop jk lhs lhs_len [] (blk, sz, j) = Inr (blk, j)"
| "postproc_loop jk lhs lhs_len (c # rhs) (blk, sz, j) =
     (if c = CHR ''&'' then
        let grow = j + lhs_len \<ge> sz;
            blk = (if grow then xrealloc jk (sz * 2 + lhs_len) blk else blk);
            sz = (if grow then sz * 2 + lhs_len else sz) in
        case lhs of
          None \<Rightarrow> Inl Null_Pointer
        | Some l \<Rightarrow>
            bind_run (put_bytes j (l @ [NUL]) blk) (\<lambda>blk.
            postproc_loop jk lhs lhs_len rhs (blk, sz, j + lhs_len))
      else
        let quoted = c = CHR 0x5C \<and> rhs \<noteq> [] \<and> hd rhs = CHR ''&'';
            grow = j \<ge> sz;
            blk = (if grow then xrealloc jk (sz * 2) blk else blk);
            sz = (if grow then sz * 2 else sz) in
        bind_run (put_bytes j [if quoted then hd rhs else c] blk) (\<lambda>blk.
        postproc_loop jk lhs lhs_len (if quoted then tl rhs else rhs) (blk, sz, j + 1)))"
  by pat_completeness auto
termination
  by (relation "measure (\<lambda>(_, _, _, rhs, _). length rhs)") auto

declare postproc_loop.simps [simp del]

text \<open>The new \<open>subst_rhs\<close>.\<close>

definition postproc_subst_rhs :: "char \<Rightarrow> string option \<Rightarrow> nat \<Rightarrow> string \<Rightarrow> string run" where
  "postproc_subst_rhs jk lhs lhs_len rhs =
     (let sz = length rhs + lhs_len in
      bind_run (postproc_loop jk lhs lhs_len rhs (replicate sz jk, sz, 0)) (\<lambda>(blk, j).
      bind_run (put_bytes j [NUL] blk) string_in))"

section \<open>The substitution\<close>

text \<open>
  The loop over \<open>si\<close>. \<open>replaced\<close> says whether anything was replaced; \<open>fuel\<close> bounds the passes, and its
  end is a loop that does not return.
\<close>

fun subst_loop ::
    "nat \<Rightarrow> string \<Rightarrow> string \<Rightarrow> string \<Rightarrow> bool \<Rightarrow> bool \<Rightarrow> string \<Rightarrow> nat \<Rightarrow> nat \<Rightarrow> bool \<Rightarrow> (bool \<times> string) run" where
  "subst_loop 0 delims lhs rhs globally bywords temp si we replaced = Inl No_Return"
| "subst_loop (Suc fuel) delims lhs rhs globally bywords temp si we replaced =
     (if si + length lhs \<le> length temp then
        bind_run
          (if bywords \<and> si > we then
             let si = skip_while whitespace temp si in
             bind_run (history_tokenize_word delims temp si) (\<lambda>we. Inr (si, we))
           else Inr (si, we)) (\<lambda>(si, we).
        if streqn_at lhs temp si then
          let temp = take si temp @ rhs @ drop (si + length lhs) temp in
          if globally then subst_loop fuel delims lhs rhs globally bywords temp (si + length rhs) we True
          else if bywords then subst_loop fuel delims lhs rhs globally bywords temp (we + 1) we True
          else Inr (True, temp)
        else subst_loop fuel delims lhs rhs globally bywords temp (si + 1) we replaced)
      else Inr (replaced, temp))"

declare subst_loop.simps(2) [simp del]

section \<open>What the substitution does\<close>

definition contains :: "string \<Rightarrow> string \<Rightarrow> bool" where
  "contains lhs s \<longleftrightarrow> (\<exists>a b. s = a @ lhs @ b)"

function replace_every :: "string \<Rightarrow> string \<Rightarrow> string \<Rightarrow> string" where
  "replace_every lhs rhs s =
     (if lhs = [] \<or> length s < length lhs then s
      else if take (length lhs) s = lhs then rhs @ replace_every lhs rhs (drop (length lhs) s)
      else hd s # replace_every lhs rhs (tl s))"
  by pat_completeness auto
termination
  by (relation "measure (\<lambda>(_, _, s). length s)") (auto simp: not_less Suc_le_eq neq_Nil_conv)

declare replace_every.simps [simp del]

lemma contains_short: "length s < length lhs \<Longrightarrow> \<not> contains lhs s"
  by (auto simp: contains_def)

lemma contains_here: "take (length lhs) s = lhs \<Longrightarrow> contains lhs s"
  by (metis append_take_drop_id append_Nil contains_def)

lemma contains_tl:
  assumes "take (length lhs) s \<noteq> lhs"
  shows "contains lhs s \<longleftrightarrow> s \<noteq> [] \<and> contains lhs (tl s)"
proof
  assume "contains lhs s"
  then obtain a b where s: "s = a @ lhs @ b" by (auto simp: contains_def)
  then have "a \<noteq> []" using assms by auto
  then show "s \<noteq> [] \<and> contains lhs (tl s)" using s by (cases a) (auto simp: contains_def)
next
  assume "s \<noteq> [] \<and> contains lhs (tl s)"
  then show "contains lhs s" by (cases s) (auto simp: contains_def, metis append_Cons)
qed

lemma drop_Suc_tl: "drop (Suc n) s = tl (drop n s)"
  by (simp add: drop_Suc drop_tl)

lemma subst_globally:
  assumes "lhs \<noteq> []"
  shows "si \<le> length temp \<Longrightarrow> length temp - si < fuel \<Longrightarrow>
    subst_loop fuel delims lhs rhs True False temp si we r =
      Inr (r \<or> contains lhs (drop si temp), take si temp @ replace_every lhs rhs (drop si temp))"
proof (induction fuel arbitrary: temp si r)
  case (Suc fuel)
  define L where "L = length lhs"
  have L: "0 < L" using assms by (simp add: L_def)
  show ?case
  proof (cases "si + L \<le> length temp")
    case False
    then have short: "length (drop si temp) < length lhs" using Suc.prems(1) unfolding L_def length_drop by linarith
    then have "replace_every lhs rhs (drop si temp) = drop si temp"
      by (subst replace_every.simps) simp
    then show ?thesis using False contains_short [OF short] by (simp add: subst_loop.simps(2) L_def)
  next
    case fits: True
    have unfold_: "replace_every lhs rhs (drop si temp) =
        (if take L (drop si temp) = lhs then rhs @ replace_every lhs rhs (drop L (drop si temp))
         else hd (drop si temp) # replace_every lhs rhs (tl (drop si temp)))"
      by (subst replace_every.simps) (use fits assms in \<open>auto simp: L_def\<close>)
    show ?thesis
    proof (cases "take L (drop si temp) = lhs")
      case True
      define t where "t = take si temp @ rhs @ drop (si + L) temp"
      have t: "take (si + length rhs) t = take si temp @ rhs" "drop (si + length rhs) t = drop (si + L) temp"
        "si + length rhs \<le> length t" "length t - (si + length rhs) < fuel"
        using fits Suc.prems L by (simp_all add: t_def)
      have "subst_loop (Suc fuel) delims lhs rhs True False temp si we r =
          subst_loop fuel delims lhs rhs True False t (si + length rhs) we True"
        using True fits by (simp add: subst_loop.simps(2) streqn_at_def L_def t_def)
      also have "\<dots> = Inr (True, (take si temp @ rhs) @ replace_every lhs rhs (drop (si + L) temp))"
        using Suc.IH [OF t(3,4), of True] t(1,2) by simp
      finally show ?thesis
        using contains_here [of lhs "drop si temp"] True unfold_ by (simp add: L_def add.commute)
    next
      case False
      have si: "Suc si \<le> length temp" using fits L by linarith
      then have "hd (drop si temp) = temp ! si" by (simp add: hd_drop_conv_nth)
      moreover have "contains lhs (drop si temp) \<longleftrightarrow> contains lhs (drop (Suc si) temp)"
        using contains_tl [of lhs "drop si temp"] False si by (simp add: L_def drop_Suc_tl)
      moreover have "subst_loop (Suc fuel) delims lhs rhs True False temp si we r =
          subst_loop fuel delims lhs rhs True False temp (Suc si) we r"
        using False fits by (simp add: subst_loop.simps(2) streqn_at_def L_def)
      moreover have "length temp - Suc si < fuel" using Suc.prems si by linarith
      ultimately show ?thesis
        using Suc.IH [OF si, of r] unfold_ False si
        by (simp add: drop_Suc_tl take_Suc_conv_app_nth)
    qed
  qed
qed simp

lemma subst_first:
  assumes "lhs \<noteq> []"
  shows "si \<le> length temp \<Longrightarrow> length temp - si < fuel \<Longrightarrow>
    (if contains lhs (drop si temp)
     then \<exists>a b. drop si temp = a @ lhs @ b \<and> (\<forall>a' b'. drop si temp = a' @ lhs @ b' \<longrightarrow> length a \<le> length a') \<and>
       subst_loop fuel delims lhs rhs False False temp si we False = Inr (True, take si temp @ a @ rhs @ b)
     else subst_loop fuel delims lhs rhs False False temp si we False = Inr (False, temp))"
proof (induction fuel arbitrary: si)
  case (Suc fuel)
  define L where "L = length lhs"
  have L: "0 < L" using assms by (simp add: L_def)
  show ?case
  proof (cases "si + L \<le> length temp")
    case False
    then have "length (drop si temp) < length lhs" using Suc.prems(1) unfolding L_def length_drop by linarith
    then show ?thesis using False contains_short [of "drop si temp" lhs] by (simp add: subst_loop.simps(2) L_def)
  next
    case fits: True
    show ?thesis
    proof (cases "take L (drop si temp) = lhs")
      case True
      then have split: "drop si temp = lhs @ drop (si + L) temp"
        by (metis add.commute append_take_drop_id drop_drop)
      have "subst_loop (Suc fuel) delims lhs rhs False False temp si we False =
          Inr (True, take si temp @ rhs @ drop (si + L) temp)"
        using True fits by (simp add: subst_loop.simps(2) streqn_at_def L_def)
      then have "\<exists>a b. drop si temp = a @ lhs @ b \<and> (\<forall>a' b'. drop si temp = a' @ lhs @ b' \<longrightarrow> length a \<le> length a') \<and>
          subst_loop (Suc fuel) delims lhs rhs False False temp si we False = Inr (True, take si temp @ a @ rhs @ b)"
        using split by (intro exI [of _ "[]"] exI [of _ "drop (si + L) temp"]) simp
      moreover have "contains lhs (drop si temp)"
        using contains_here [of lhs "drop si temp"] True by (simp add: L_def)
      ultimately show ?thesis by presburger
    next
      case False
      have si: "Suc si \<le> length temp" using fits L by linarith
      have cons: "drop si temp = temp ! si # drop (Suc si) temp" using si by (simp add: Cons_nth_drop_Suc)
      have step: "subst_loop (Suc fuel) delims lhs rhs False False temp si we False =
          subst_loop fuel delims lhs rhs False False temp (Suc si) we False"
        using False fits by (simp add: subst_loop.simps(2) streqn_at_def L_def)
      have c: "contains lhs (drop si temp) \<longleftrightarrow> contains lhs (drop (Suc si) temp)"
        using contains_tl [of lhs "drop si temp"] False si by (simp add: L_def drop_Suc_tl)
      have f: "length temp - Suc si < fuel" using Suc.prems si by linarith
      show ?thesis
      proof (cases "contains lhs (drop si temp)")
        case no: False
        then show ?thesis using Suc.IH [OF si f] c step by simp
      next
        case yes: True
        then obtain a b where ab: "drop (Suc si) temp = a @ lhs @ b"
          "\<forall>a' b'. drop (Suc si) temp = a' @ lhs @ b' \<longrightarrow> length a \<le> length a'"
          "subst_loop fuel delims lhs rhs False False temp (Suc si) we False = Inr (True, take (Suc si) temp @ a @ rhs @ b)"
          using Suc.IH [OF si f] c by auto
        have first: "length (temp ! si # a) \<le> length a'" if "drop si temp = a' @ lhs @ b'" for a' b'
        proof (cases a')
          case Nil
          then show ?thesis using that False by (simp add: L_def)
        next
          case (Cons x u)
          then have "drop (Suc si) temp = u @ lhs @ b'" using that cons by simp
          then show ?thesis using ab(2) Cons by auto
        qed
        have "drop si temp = (temp ! si # a) @ lhs @ b" using cons ab(1) by simp
        moreover have "subst_loop (Suc fuel) delims lhs rhs False False temp si we False =
            Inr (True, take si temp @ (temp ! si # a) @ rhs @ b)"
          using step ab(3) si by (simp add: take_Suc_conv_app_nth)
        ultimately show ?thesis using yes first by (metis (no_types, lifting))
      qed
    qed
  qed
qed simp

text \<open>A letter that is replaced by three of its kind word by word, at the end of a line.\<close>

lemma bywords_grows:
  assumes "plain c"
  shows "subst_loop fuel HISTORY_WORD_DELIMITERS [c] [c, c, c] False True (replicate (2 * k + 3) c) (2 * k + 2) (2 * k + 1) r =
    Inl No_Return"
proof (induction fuel arbitrary: k r)
  case (Suc fuel)
  define temp where "temp = replicate (2 * k + 3) c"
  have d: "drop (2 * k + 2) temp = [c] @ []" by (simp add: temp_def)
  have w: "plain_word [c]" using assms by (simp add: plain_word_def)
  note at = plain_word_at [OF d w]
  have skip: "skip_while whitespace temp (2 * k + 2) = 2 * k + 2"
    using plain_facts(2) [OF assms] d by (simp add: skip_while_def)
  have "history_tokenize_word HISTORY_WORD_DELIMITERS temp (2 * k + 2) = Inr (2 * k + 3)"
    using at(6) word_loop_stop [OF at(5)] by simp
  moreover have "take (2 * k + 2) temp @ [c, c, c] @ drop (2 * k + 2 + length [c]) temp = replicate (2 * Suc k + 3) c"
  proof -
    have n: "2 * Suc k + 3 = (2 * k + 2) + 3" by simp
    have "replicate (2 * Suc k + 3) c = replicate (2 * k + 2) c @ replicate 3 c" unfolding n by (rule replicate_add)
    moreover have "take (2 * k + 2) temp = replicate (2 * k + 2) c"
      by (simp add: temp_def del: replicate_Suc add_2_eq_Suc')
    moreover have "drop (2 * k + 2 + length [c]) temp = []" by (simp add: temp_def)
    moreover have "[c, c, c] = replicate 3 c" by (simp add: numeral_3_eq_3)
    ultimately show ?thesis by (simp only: append_Nil2)
  qed
  moreover have "streqn_at [c] temp (2 * k + 2)" using d by (simp add: streqn_at_def)
  moreover have "2 * k + 2 + length [c] \<le> length temp" by (simp add: temp_def)
  ultimately have "subst_loop (Suc fuel) HISTORY_WORD_DELIMITERS [c] [c, c, c] False True temp (2 * k + 2) (2 * k + 1) r =
      subst_loop fuel HISTORY_WORD_DELIMITERS [c] [c, c, c] False True (replicate (2 * Suc k + 3) c) (2 * k + 4) (2 * k + 3) True"
    using skip unfolding subst_loop.simps(2) by (simp add: Let_def add.commute del: replicate.simps replicate_Suc)
  also have "\<dots> = Inl No_Return" using Suc.IH [of "Suc k" True] by (simp del: replicate_Suc add: numeral_eq_Suc)
  finally show ?case by (simp only: temp_def)
qed simp

text \<open>
  C33: what \<open>s/lhs/rhs/\<close> does. Without a modifier the first occurrence is replaced, and it fails when
  there is none; with \<open>g\<close> every occurrence is, from left to right, what was put in not being looked
  at again; as many passes as the line has characters are enough. With \<open>G\<close>, word by word, the
  end of the word is not moved when the line grows: a letter replaced by three of its kind is replaced for
  ever.
\<close>

theorem subst_outcome:
  assumes "lhs \<noteq> []" and "length temp < fuel" and "plain c"
  shows "(if contains lhs temp
      then \<exists>a b. temp = a @ lhs @ b \<and> (\<forall>a' b'. temp = a' @ lhs @ b' \<longrightarrow> length a \<le> length a') \<and>
        subst_loop fuel delims lhs rhs False False temp 0 0 False = Inr (True, a @ rhs @ b)
      else subst_loop fuel delims lhs rhs False False temp 0 0 False = Inr (False, temp)) \<and>
    subst_loop fuel delims lhs rhs True False temp 0 0 False =
      Inr (contains lhs temp, replace_every lhs rhs temp) \<and>
    (\<forall>n. subst_loop n HISTORY_WORD_DELIMITERS [c] [c, c, c] False True [c] 0 0 False = Inl No_Return)"
proof (intro conjI allI)
  show "if contains lhs temp
      then \<exists>a b. temp = a @ lhs @ b \<and> (\<forall>a' b'. temp = a' @ lhs @ b' \<longrightarrow> length a \<le> length a') \<and>
        subst_loop fuel delims lhs rhs False False temp 0 0 False = Inr (True, a @ rhs @ b)
      else subst_loop fuel delims lhs rhs False False temp 0 0 False = Inr (False, temp)"
    by (rule subst_first [OF assms(1), of 0 temp fuel delims rhs 0, unfolded drop0 take0 append_Nil])
      (use assms(2) in simp_all)
  show "subst_loop fuel delims lhs rhs True False temp 0 0 False =
      Inr (contains lhs temp, replace_every lhs rhs temp)"
    using subst_globally [OF assms(1), of 0 temp fuel] assms(2) by simp
  fix n
  have first: "subst_loop (Suc m) HISTORY_WORD_DELIMITERS [c] [c, c, c] False True [c] 0 0 False =
      subst_loop m HISTORY_WORD_DELIMITERS [c] [c, c, c] False True [c, c, c] 1 0 True" for m
    by (simp add: subst_loop.simps(2) streqn_at_def)
  have second: "subst_loop (Suc m) HISTORY_WORD_DELIMITERS [c] [c, c, c] False True [c, c, c] 1 0 True =
      subst_loop m HISTORY_WORD_DELIMITERS [c] [c, c, c] False True [c, c, c, c, c] 4 3 True" for m
  proof -
    have w: "plain_word [c, c]" using assms(3) by (simp add: plain_word_def)
    note at = plain_word_at [of 1 "[c, c, c]" "[c, c]" "[]", OF _ w, simplified]
    have "history_tokenize_word HISTORY_WORD_DELIMITERS [c, c, c] 1 = Inr 3"
      using at word_loop_stop [of "[c, c, c]" 3 NUL] by (simp add: numeral_3_eq_3)
    then show ?thesis
      using plain_facts(2) [OF assms(3)] by (simp add: subst_loop.simps(2) streqn_at_def skip_while_def numeral_eq_Suc)
  qed
  show "subst_loop n HISTORY_WORD_DELIMITERS [c] [c, c, c] False True [c] 0 0 False = Inl No_Return"
  proof (cases n)
    case (Suc m)
    then show ?thesis
      using first [of m] second bywords_grows [OF assms(3), of _ 1 True]
      by (cases m) (simp_all add: numeral_eq_Suc)
  qed simp
qed

theorem subst_outcome_witness:
  "subst_loop 10 [] ''a'' ''xy'' True False ''banana'' 0 0 False = Inr (True, ''bxynxynxy'') \<and>
    subst_loop 99 HISTORY_WORD_DELIMITERS ''b'' ''bbb'' False True ''b'' 0 0 False = Inl No_Return"
proof -
  have p: "plain CHR ''b''" by (simp add: plain_def HISTORY_WORD_DELIMITERS_def HISTORY_QUOTE_CHARACTERS_def)
  have "contains ''a'' ''banana''" unfolding contains_def by (intro exI [of _ "''b''"] exI [of _ "''nana''"]) simp
  moreover have "replace_every ''a'' ''xy'' ''banana'' = ''bxynxynxy''"
    by (simp add: replace_every.simps)
  ultimately show ?thesis
    using subst_outcome [of "''a''" "''banana''" 10 "CHR ''b''" "[]" "''xy''"] p by simp
qed

section \<open>The ampersand in the replacement\<close>

function amp_text :: "string \<Rightarrow> string \<Rightarrow> string" where
  "amp_text l [] = []"
| "amp_text l (c # rhs) =
     (if c = CHR ''&'' then l @ amp_text l rhs
      else
      let quoted = c = CHR 0x5C \<and> rhs \<noteq> [] \<and> hd rhs = CHR ''&'' in
      (if quoted then hd rhs else c) # amp_text l (if quoted then tl rhs else rhs))"
  by pat_completeness auto
termination
  by (relation "measure (\<lambda>(_, rhs). length rhs)") auto

declare amp_text.simps [simp del]

lemma xrealloc_facts:
  "length (xrealloc jk n blk) = n" "j \<le> length blk \<Longrightarrow> j \<le> n \<Longrightarrow> take j (xrealloc jk n blk) = take j blk"
  by (simp_all add: xrealloc_def)

lemma postproc_loop_text:
  assumes "length blk = sz" and "j \<le> sz" and "0 < sz"
  shows "\<exists>blk'. postproc_loop jk (Some l) (length l) rhs (blk, sz, j) = Inr (blk', j + length (amp_text l rhs)) \<and>
    j + length (amp_text l rhs) \<le> length blk' \<and> take (j + length (amp_text l rhs)) blk' = take j blk @ amp_text l rhs"
  using assms
proof (induction "length rhs" arbitrary: rhs blk sz j rule: less_induct)
  case less
  show ?case
  proof (cases rhs)
    case Nil
    then show ?thesis using less.prems by (simp add: postproc_loop.simps amp_text.simps)
  next
    case (Cons c u)
    show ?thesis
    proof (cases "c = CHR ''&''")
      case True
      define grow where "grow \<longleftrightarrow> j + length l \<ge> sz"
      define blk1 where "blk1 = (if grow then xrealloc jk (sz * 2 + length l) blk else blk)"
      define sz1 where "sz1 = (if grow then sz * 2 + length l else sz)"
      have b1: "length blk1 = sz1" "j + length l + 1 \<le> sz1" "take j blk1 = take j blk"
        using less.prems by (auto simp: blk1_def sz1_def grow_def xrealloc_facts)
      obtain blk2 where p: "put_bytes j (l @ [NUL]) blk1 = Inr blk2" and l2: "length blk2 = sz1"
        and t: "take (j + length l) blk2 = take j blk1 @ l"
        using put_bytes_take [of j "l @ [NUL]" blk1 "length l"] b1 by auto
      have run: "postproc_loop jk (Some l) (length l) rhs (blk, sz, j) =
          postproc_loop jk (Some l) (length l) u (blk2, sz1, j + length l)"
        using p True
        by (simp add: Cons postproc_loop.simps Let_def grow_def [symmetric] blk1_def [symmetric] sz1_def [symmetric])
      have tail: "amp_text l rhs = l @ amp_text l u" using True by (simp add: Cons amp_text.simps)
      have "length u < length rhs" by (simp add: Cons)
      from less.hyps [OF this l2, of "j + length l"] b1(2) show ?thesis
        unfolding run tail using t b1(3) by (simp add: add.assoc)
    next
      case False
      define quoted where "quoted \<longleftrightarrow> c = CHR 0x5C \<and> u \<noteq> [] \<and> hd u = CHR ''&''"
      define d where "d = (if quoted then hd u else c)"
      define u' where "u' = (if quoted then tl u else u)"
      define grow where "grow \<longleftrightarrow> j \<ge> sz"
      define blk1 where "blk1 = (if grow then xrealloc jk (sz * 2) blk else blk)"
      define sz1 where "sz1 = (if grow then sz * 2 else sz)"
      have b1: "length blk1 = sz1" "j + 1 \<le> sz1" "take j blk1 = take j blk"
        using less.prems by (auto simp: blk1_def sz1_def grow_def xrealloc_facts)
      obtain blk2 where p: "put_bytes j [d] blk1 = Inr blk2" and l2: "length blk2 = sz1"
        and t: "take (j + 1) blk2 = take j blk1 @ [d]"
        using put_bytes_take [of j "[d]" blk1 1] b1 by auto
      have run: "postproc_loop jk (Some l) (length l) rhs (blk, sz, j) =
          postproc_loop jk (Some l) (length l) u' (blk2, sz1, j + 1)"
        using p False
        by (simp add: Cons postproc_loop.simps Let_def grow_def [symmetric] blk1_def [symmetric] sz1_def [symmetric]
            quoted_def [symmetric] d_def [symmetric] u'_def [symmetric])
      have tail: "amp_text l rhs = d # amp_text l u'"
        using False by (simp add: Cons amp_text.simps Let_def quoted_def [symmetric] d_def [symmetric] u'_def [symmetric])
      have "length u' < length rhs" by (auto simp: Cons u'_def)
      from less.hyps [OF this l2, of "j + 1"] b1(2) show ?thesis
        unfolding run tail using t b1(3) by (simp add: add.assoc)
    qed
  qed
qed

lemma postproc_loop_ordinary:
  assumes "CHR ''&'' \<notin> set u" and "CHR 0x5C \<notin> set u"
  shows "length blk = sz \<Longrightarrow> j + length u \<le> sz \<Longrightarrow>
    \<exists>blk'. postproc_loop jk lhs n (u @ r) (blk, sz, j) = postproc_loop jk lhs n r (blk', sz, j + length u) \<and>
      length blk' = sz"
  using assms
proof (induction u arbitrary: blk j)
  case (Cons c u)
  have "postproc_loop jk lhs n ((c # u) @ r) (blk, sz, j) =
      postproc_loop jk lhs n (u @ r) (take j blk @ c # drop (Suc j) blk, sz, Suc j)"
    using Cons.prems by (auto simp: postproc_loop.simps put_bytes_def)
  moreover have "length (take j blk @ c # drop (Suc j) blk) = sz" using Cons.prems by simp
  ultimately show ?case using Cons.IH [of "take j blk @ c # drop (Suc j) blk" "Suc j"] Cons.prems by simp
qed auto

lemma amp_text_ordinary:
  "CHR ''&'' \<notin> set u \<Longrightarrow> CHR 0x5C \<notin> set u \<Longrightarrow> amp_text l (u @ r) = u @ amp_text l r"
  by (induction u) (auto simp: amp_text.simps)

lemma set_amp_text: "set (amp_text l r) \<subseteq> set l \<union> set r"
proof (induction "length r" arbitrary: r rule: less_induct)
  case less
  show ?case
  proof (cases r)
    case (Cons c u)
    have sub: "hd u \<in> set u \<or> u = []" "set (tl u) \<subseteq> set u" by (cases u; auto)+
    have "set (amp_text l u) \<subseteq> set l \<union> set u" "set (amp_text l (tl u)) \<subseteq> set l \<union> set (tl u)"
      using less [of u] less [of "tl u"] by (auto simp: Cons)
    then show ?thesis using sub by (auto simp: Cons amp_text.simps(2) Let_def)
  qed (simp add: amp_text.simps)
qed

lemma postproc_run:
  assumes "r \<noteq> []" and "NUL \<notin> set l" and "NUL \<notin> set r"
    and "postproc_loop jk (Some l) (length l) r (replicate (length r + length l) jk, length r + length l, 0) = Inr (blk, j)"
  shows "postproc_subst_rhs jk (Some l) (length l) r =
    (if j < length blk then Inr (amp_text l r) else Inl Buffer_Overflow)"
proof -
  define t where "t = amp_text l r"
  have j: "j = length t" "j \<le> length blk" "take j blk = t"
    using postproc_loop_text [of "replicate (length r + length l) jk" "length r + length l" 0 jk l r] assms(1,4)
    by (auto simp: t_def)
  have "NUL \<notin> set t" using set_amp_text [of l r] assms(2,3) by (auto simp: t_def)
  then have "string_in (t @ NUL # x) = Inr t" for x using cstr_of_append_NUL by (simp add: string_in_def)
  moreover have "put_bytes j [NUL] blk = (if j < length blk then Inr (t @ NUL # drop (j + 1) blk) else Inl Buffer_Overflow)"
    using j by (simp add: put_bytes_def)
  ultimately show ?thesis using assms(4) by (simp add: postproc_subst_rhs_def t_def)
qed

lemma postproc_amp:
  assumes "length blk = sz" and "j + length l < sz"
  shows "\<exists>blk'. postproc_loop jk (Some l) (length l) (CHR ''&'' # r) (blk, sz, j) =
      postproc_loop jk (Some l) (length l) r (blk', sz, j + length l) \<and> length blk' = sz"
proof (intro exI conjI)
  let ?b = "take j blk @ l @ NUL # drop (Suc (j + length l)) blk"
  show "postproc_loop jk (Some l) (length l) (CHR ''&'' # r) (blk, sz, j) =
      postproc_loop jk (Some l) (length l) r (?b, sz, j + length l)"
    using assms by (simp add: postproc_loop.simps put_bytes_def)
  show "length ?b = sz" using assms by simp
qed

lemma postproc_one_amp:
  assumes "NUL \<notin> set l" and "CHR ''&'' \<notin> set (u @ v)" and "CHR 0x5C \<notin> set (u @ v)" and "NUL \<notin> set (u @ v)"
  shows "postproc_subst_rhs jk (Some l) (length l) (u @ ''&'' @ v) = Inr (u @ l @ v)"
proof -
  have ord: "CHR ''&'' \<notin> set u" "CHR 0x5C \<notin> set u" "CHR ''&'' \<notin> set v" "CHR 0x5C \<notin> set v"
    using assms(2,3) by simp_all
  define r where "r = u @ ''&'' @ v"
  define sz where "sz = length r + length l"
  obtain b1 where b1: "postproc_loop jk (Some l) (length l) r (replicate sz jk, sz, 0) =
      postproc_loop jk (Some l) (length l) (''&'' @ v) (b1, sz, length u)" "length b1 = sz"
    using postproc_loop_ordinary [OF ord(1,2), of "replicate sz jk" sz 0 jk "Some l" "length l" "''&'' @ v"]
    by (auto simp: r_def sz_def)
  obtain b2 where b2: "postproc_loop jk (Some l) (length l) (''&'' @ v) (b1, sz, length u) =
      postproc_loop jk (Some l) (length l) (v @ []) (b2, sz, length u + length l)" "length b2 = sz"
    using postproc_amp [OF b1(2), of "length u" l jk v] by (auto simp: r_def sz_def)
  obtain b3 where b3: "postproc_loop jk (Some l) (length l) (v @ []) (b2, sz, length u + length l) =
      postproc_loop jk (Some l) (length l) [] (b3, sz, length u + length l + length v)" "length b3 = sz"
    using postproc_loop_ordinary [OF ord(3,4) b2(2), of "length u + length l" jk "Some l" "length l" "[]"]
    by (auto simp: r_def sz_def)
  have run: "postproc_loop jk (Some l) (length l) r (replicate (length r + length l) jk, length r + length l, 0) =
      Inr (b3, length u + length l + length v)"
    using b1 b2 b3 by (simp add: postproc_loop.simps(1) sz_def)
  have "r \<noteq> []" "NUL \<notin> set r" "length u + length l + length v < length b3"
    using assms(4) b3(2) by (simp_all add: r_def sz_def)
  then have "postproc_subst_rhs jk (Some l) (length l) r = Inr (amp_text l r)"
    using postproc_run [OF _ assms(1) _ run] by simp
  moreover have "amp_text l r = u @ l @ v"
    using amp_text_ordinary [OF ord(1,2), of l "''&'' @ v"] amp_text_ordinary [OF ord(3,4), of l "[]"]
    by (simp add: r_def amp_text.simps)
  ultimately show "postproc_subst_rhs jk (Some l) (length l) (u @ ''&'' @ v) = Inr (u @ l @ v)"
    by (simp add: r_def)
qed

lemma postproc_two_amps:
  assumes "NUL \<notin> set l" and "CHR ''&'' \<notin> set u" and "CHR 0x5C \<notin> set u" and "NUL \<notin> set u"
    and two: "length l = 2 \<and> u \<noteq> []"
  shows "postproc_subst_rhs jk (Some l) 2 (''&&'' @ u) = Inl Buffer_Overflow"
proof -
  have ord: "CHR ''&'' \<notin> set u" "CHR 0x5C \<notin> set u" using assms(2,3) by simp_all
  define r where "r = ''&&'' @ u"
  define sz where "sz = length r + length l"
  have sz: "4 < sz" using two by (cases u) (simp_all add: sz_def r_def)
  obtain b1 where b1: "postproc_loop jk (Some l) (length l) r (replicate sz jk, sz, 0) =
      postproc_loop jk (Some l) (length l) (''&'' @ u) (b1, sz, 2)" "length b1 = sz"
    using postproc_amp [of "replicate sz jk" sz 0 l jk "''&'' @ u"] two sz by (auto simp: r_def numeral_2_eq_2)
  obtain b2 where b2: "postproc_loop jk (Some l) (length l) (''&'' @ u) (b1, sz, 2) =
      postproc_loop jk (Some l) (length l) (u @ []) (b2, sz, 4)" "length b2 = sz"
    using postproc_amp [OF b1(2), of 2 l jk u] two sz by auto
  obtain b3 where b3: "postproc_loop jk (Some l) (length l) (u @ []) (b2, sz, 4) =
      postproc_loop jk (Some l) (length l) [] (b3, sz, 4 + length u)" "length b3 = sz"
    using postproc_loop_ordinary [OF ord b2(2), of 4 jk "Some l" "length l" "[]"] two by (auto simp: r_def sz_def)
  have full: "4 + length u = sz" using two by (simp add: sz_def r_def)
  have run: "postproc_loop jk (Some l) (length l) r (replicate (length r + length l) jk, length r + length l, 0) =
      Inr (b3, sz)"
    using b1 b2 b3 full by (simp add: postproc_loop.simps(1) sz_def)
  have "r \<noteq> []" "NUL \<notin> set r" using assms(4) by (simp_all add: r_def)
  then have "postproc_subst_rhs jk (Some l) (length l) r = Inl Buffer_Overflow"
    using postproc_run [OF _ assms(1) _ run] b3(2) by simp
  then show "postproc_subst_rhs jk (Some l) 2 (''&&'' @ u) = Inl Buffer_Overflow"
    using two by (simp add: r_def)
qed

text \<open>
  the ampersands in a replacement stand for the pattern. Whenever the replacement is
  computed it has the pattern for each \<open>&\<close> and a plain \<open>&\<close> for each \<open>\&\<close>; the only write outside the
  block is that of the terminator, when the text fills the block exactly. One ampersand is always
  safe; two before some other text, with a pattern of two characters, are not; and without a pattern the code
  copies from a null pointer.
\<close>

theorem postproc_subst_rhs_outcome:
  assumes "NUL \<notin> set l" and "NUL \<notin> set rhs" and "rhs \<noteq> []"
    and "CHR ''&'' \<notin> set (u @ v)" and "CHR 0x5C \<notin> set (u @ v)" and "NUL \<notin> set (u @ v)"
  shows "postproc_subst_rhs jk (Some l) (length l) rhs \<in> {Inr (amp_text l rhs), Inl Buffer_Overflow} \<and>
    postproc_subst_rhs jk (Some l) (length l) (u @ ''&'' @ v) = Inr (u @ l @ v) \<and>
    (length l = 2 \<and> u \<noteq> [] \<longrightarrow> postproc_subst_rhs jk (Some l) 2 (''&&'' @ u) = Inl Buffer_Overflow) \<and>
    postproc_subst_rhs jk None 0 (''&'' @ u) = Inl Null_Pointer"
proof (intro conjI impI)
  show "postproc_subst_rhs jk (Some l) (length l) rhs \<in> {Inr (amp_text l rhs), Inl Buffer_Overflow}"
  proof -
    obtain blk where "postproc_loop jk (Some l) (length l) rhs
        (replicate (length rhs + length l) jk, length rhs + length l, 0) = Inr (blk, length (amp_text l rhs))"
      using postproc_loop_text [of "replicate (length rhs + length l) jk" "length rhs + length l" 0 jk l rhs]
        assms(3) by auto
    from postproc_run [OF assms(3,1,2) this] show ?thesis by simp
  qed
  show "postproc_subst_rhs jk (Some l) (length l) (u @ ''&'' @ v) = Inr (u @ l @ v)"
    by (rule postproc_one_amp [OF assms(1,4-6)])
  show "postproc_subst_rhs jk None 0 (''&'' @ u) = Inl Null_Pointer"
    by (simp add: postproc_subst_rhs_def postproc_loop.simps Let_def)
next
  assume "length l = 2 \<and> u \<noteq> []"
  then show "postproc_subst_rhs jk (Some l) 2 (''&&'' @ u) = Inl Buffer_Overflow"
    using postproc_two_amps [OF assms(1)] assms(4-6) by simp
qed

theorem postproc_subst_rhs_outcome_witness:
  "postproc_subst_rhs NUL (Some ''ab'') 2 ''x&y'' = Inr ''xaby'' \<and>
    postproc_subst_rhs NUL (Some ''ab'') 2 ''&&c'' = Inl Buffer_Overflow"
  using postproc_subst_rhs_outcome [of "''ab''" "''c''" "''x''" "''y''" NUL]
    postproc_subst_rhs_outcome [of "''ab''" "''c''" "''c''" "[]" NUL] by (simp add: numeral_2_eq_2)

end
