(* ===== verification/Hist_Expand.thy ===== *)
theory Hist_Expand
  imports Hist_Subst
begin

text \<open>
  History expansion, \<open>readline-6.2/histexpand.c\<close>: events, word designators, modifiers and
  \<open>history_expand\<close>, over the history list of theory \<open>History\<close>. The variables the calling program sets
  are \<open>hist_config\<close>, the static ones \<open>expand_vars\<close>; the lengths \<open>subst_lhs_len\<close> and \<open>subst_rhs_len\<close> are
  those of the strings, 0 for \<open>NULL\<close>. Lines are in a single-byte encoding.
\<close>

section \<open>Variables\<close>

record hist_config =
  expansion_char :: char
  subst_char :: char
  comment_char :: char
  no_expand_chars :: string
  quotes_inhibit :: bool
  word_delimiters :: string
  search_delimiters :: "string option"
  inhibit_function :: "(string \<Rightarrow> nat \<Rightarrow> bool) option"
  fresh_byte :: char

record expand_vars =
  search_string :: "string option"
  search_match :: "string option"
  subst_lhs :: "string option"
  subst_rhs :: "string option"

section \<open>get\_history\_event\<close>

text \<open>\<open>RETURN_ENTRY\<close>; a null line is no event either.\<close>

definition return_entry :: "int \<Rightarrow> hist_state \<Rightarrow> string option run" where
  "return_entry w hs =
     bind_run (history_get w hs) (\<lambda>a.
     if a = 0 then Inr None else bind_run (entry a hs) (\<lambda>e. Inr (he_line e)))"

text \<open>The loops over digits: the number, in 32 bits, and the index behind it.\<close>

definition read_number :: "string \<Rightarrow> nat \<Rightarrow> int \<times> nat" where
  "read_number s i =
     (let ds = takeWhile is_digit (drop i s) in
      (fold (\<lambda>d n. wrap32 (wrap32 (n * 10) + int (digit_val d))) ds 0, i + length ds))"

definition ends_search :: "hist_config \<Rightarrow> bool \<Rightarrow> char \<Rightarrow> char \<Rightarrow> bool" where
  "ends_search cfg substring_okay delimiting_quote c \<longleftrightarrow>
     \<not> substring_okay \<and>
       (whitespace c \<or> c = CHR '':'' \<or>
        (case search_delimiters cfg of None \<Rightarrow> False | Some d \<Rightarrow> c_member c d) \<or> c = delimiting_quote) \<or>
     c = CHR 0x0A \<or> substring_okay \<and> c = CHR ''?''"

text \<open>\<open>FAIL_SEARCH\<close>.\<close>

definition fail_search :: "hist_state \<Rightarrow> expand_vars \<Rightarrow> string option \<times> hist_state \<times> expand_vars" where
  "fail_search hs ev = (None, hs\<lparr>history_offset := history_length hs\<rparr>, ev)"

text \<open>The loop around the search; each further pass begins at an earlier entry.\<close>

fun search_loop ::
    "nat \<Rightarrow> hist_config \<Rightarrow> bool \<Rightarrow> string \<Rightarrow> hist_state \<Rightarrow> expand_vars \<Rightarrow>
     (string option \<times> hist_state \<times> expand_vars) run" where
  "search_loop 0 cfg substring_okay temp hs ev = Inl No_Return"
| "search_loop (Suc n) cfg substring_okay temp hs ev =
     bind_run (if substring_okay then history_search (Some temp) (-1) hs
               else history_search_prefix (Some temp) (-1) hs) (\<lambda>(local_index, hs).
     if local_index < 0 then Inr (fail_search hs ev)
     else if local_index = 0 \<or> substring_okay then
       bind_run (current_history hs) (\<lambda>a.
       if a = 0 then Inl Null_Pointer
       else
       bind_run (entry a hs) (\<lambda>e.
       let hs = hs\<lparr>history_offset := history_length hs\<rparr> in
       if substring_okay then
         bind_run (c_line (he_line e)) (\<lambda>line.
         bind_run (history_find_word (word_delimiters cfg) (comment_char cfg) line (nat local_index)) (\<lambda>w.
         Inr (he_line e, hs, ev\<lparr>search_string := Some temp, search_match := w\<rparr>)))
       else Inr (he_line e, hs, ev)))
     else if history_offset hs \<noteq> 0
     then search_loop n cfg substring_okay temp (hs\<lparr>history_offset := history_offset hs - 1\<rparr>) ev
     else Inr (fail_search hs ev))"

text \<open>The event, what is stored through \<open>caller_index\<close>, and the variables.\<close>

definition get_history_event ::
    "hist_config \<Rightarrow> string \<Rightarrow> nat \<Rightarrow> char \<Rightarrow> hist_state \<Rightarrow> expand_vars \<Rightarrow>
     (string option \<times> nat \<times> hist_state \<times> expand_vars) run" where
  "get_history_event cfg s caller_index delimiting_quote hs ev =
     bind_run (byte_at s caller_index) (\<lambda>c.
     if c \<noteq> expansion_char cfg then Inr (None, caller_index, hs, ev)
     else
     let i = caller_index + 1 in
     bind_run (byte_at s i) (\<lambda>c.
     if c = expansion_char cfg then
       bind_run (return_entry (wrap32 (history_base hs + (history_length hs - 1))) hs) (\<lambda>e.
       Inr (e, i + 1, hs, ev))
     else
     let negative = c = CHR ''-''; i = (if negative then i + 1 else i) in
     bind_run (byte_at s i) (\<lambda>c.
     if is_digit c then
       (case read_number s i of (n, i) \<Rightarrow>
        let which = (if negative then wrap32 (wrap32 (history_length hs + history_base hs) - n) else n) in
        bind_run (return_entry which hs) (\<lambda>e. Inr (e, i, hs, ev)))
     else
     let substring_okay = c = CHR ''?''; i = (if substring_okay then i + 1 else i);
         e = skip_while (\<lambda>c. c \<noteq> NUL \<and> \<not> ends_search cfg substring_okay delimiting_quote c) s i;
         temp = history_substring s i e in
     bind_run (byte_at s e) (\<lambda>c.
     let i = (if substring_okay \<and> c = CHR ''?'' then e + 1 else e) in
     bind_run
       (if temp = [] \<and> substring_okay then
          (case search_string ev of
             None \<Rightarrow> Inr (fail_search hs ev)
           | Some t \<Rightarrow> search_loop (nat (history_length hs) + 2) cfg substring_okay t hs ev)
        else search_loop (nat (history_length hs) + 2) cfg substring_okay temp hs ev) (\<lambda>(r, hs, ev).
     Inr (r, i, hs, ev))))))"

section \<open>get\_history\_word\_specifier\<close>

datatype word_spec = No_Spec | Spec_Error | Spec string

definition spec_of :: "string option \<Rightarrow> word_spec" where
  "spec_of r = (case r of None \<Rightarrow> No_Spec | Some w \<Rightarrow> Spec w)"

definition arg_extract :: "hist_config \<Rightarrow> int \<Rightarrow> int \<Rightarrow> string \<Rightarrow> string option run" where
  "arg_extract cfg = history_arg_extract (fresh_byte cfg) (word_delimiters cfg) (comment_char cfg)"

text \<open>\<open>last\<close> and the index behind it, once \<open>first\<close> is known.\<close>

definition last_spec :: "string \<Rightarrow> nat \<Rightarrow> int \<Rightarrow> (int \<times> nat) run" where
  "last_spec spec i first_arg =
     bind_run (byte_at spec i) (\<lambda>c.
     if c = CHR ''^'' then Inr (1, i + 1)
     else if c = CHR ''*'' then Inr (DOLLAR, i + 1)
     else if c \<noteq> CHR ''-'' then Inr (first_arg, i)
     else
     bind_run (byte_at spec (i + 1)) (\<lambda>c.
     if is_digit c then Inr (read_number spec (i + 1))
     else if c = CHR ''$'' then Inr (DOLLAR, i + 2)
     else Inr (-1, i + 1)))"

definition get_history_word_specifier ::
    "hist_config \<Rightarrow> string \<Rightarrow> string \<Rightarrow> nat \<Rightarrow> expand_vars \<Rightarrow> (word_spec \<times> nat) run" where
  "get_history_word_specifier cfg spec event caller_index ev =
     bind_run (byte_at spec caller_index) (\<lambda>c.
     let expecting = c = CHR '':''; i = (if expecting then caller_index + 1 else caller_index) in
     bind_run (byte_at spec i) (\<lambda>c.
     if c = CHR ''%''
     then Inr (Spec (case search_match ev of None \<Rightarrow> [] | Some m \<Rightarrow> m), i + 1)
     else if c = CHR ''*''
     then bind_run (arg_extract cfg 1 DOLLAR event) (\<lambda>r. Inr (Spec (case r of None \<Rightarrow> [] | Some w \<Rightarrow> w), i + 1))
     else if c = CHR ''$''
     then bind_run (arg_extract cfg DOLLAR DOLLAR event) (\<lambda>r. Inr (spec_of r, i + 1))
     else
     case (if c = CHR ''-'' then Some (0, i)
           else if c = CHR ''^'' then Some (1, i + 1)
           else if is_digit c \<and> expecting then Some (read_number spec i)
           else None) of
       None \<Rightarrow> Inr (No_Spec, caller_index)
     | Some (first_arg, i) \<Rightarrow>
         bind_run (last_spec spec i first_arg) (\<lambda>(last_arg, i).
         bind_run (if last_arg \<ge> first_arg \<or> last_arg = DOLLAR \<or> last_arg < 0
                   then arg_extract cfg first_arg last_arg event else Inr None) (\<lambda>r.
         Inr (case r of None \<Rightarrow> Spec_Error | Some w \<Rightarrow> Spec w, i)))))"

section \<open>The modifiers\<close>

text \<open>The local variables of the loop over the modifiers.\<close>

record mod_state =
  md_temp :: string
  md_quotes :: char
  md_globally :: bool
  md_bywords :: bool
  md_print :: nat
  md_vars :: expand_vars

datatype 'a mod_result = Mod_Error string "'a" | Mod_Next "mod_state" nat

definition error_result :: "hist_config \<Rightarrow> string \<Rightarrow> nat \<Rightarrow> nat \<Rightarrow> hist_errtype \<Rightarrow> expand_vars \<Rightarrow> expand_vars mod_result run" where
  "error_result cfg s start current errtype ev =
     bind_run (hist_error (fresh_byte cfg) s start current errtype) (\<lambda>b.
     bind_run (string_in b) (\<lambda>msg. Inr (Mod_Error msg ev)))"

text \<open>\<open>strrchr\<close>: the text up to the last such character, and the text behind it.\<close>

fun split_last :: "char \<Rightarrow> string \<Rightarrow> (string \<times> string) option" where
  "split_last c [] = None"
| "split_last c (d # s) =
     (case split_last c s of
        Some (a, b) \<Rightarrow> Some (d # a, b)
      | None \<Rightarrow> if d = c then Some ([], s) else None)"

text \<open>The pattern and the replacement of \<open>s\<close>, and the index behind them.\<close>

definition read_subst :: "hist_config \<Rightarrow> string \<Rightarrow> nat \<Rightarrow> expand_vars \<Rightarrow> (expand_vars \<times> nat) run" where
  "read_subst cfg s i ev =
     bind_run (byte_at s (i + 2)) (\<lambda>delimiter.
     bind_run (get_subst_pattern (fresh_byte cfg) s (i + 3) delimiter False) (\<lambda>(t, i).
     let ev = (case t of
                 Some p \<Rightarrow> ev\<lparr>subst_lhs := Some p\<rparr>
               | None \<Rightarrow>
                   if subst_lhs ev = None \<and> search_string ev \<noteq> None \<and> search_string ev \<noteq> Some []
                   then ev\<lparr>subst_lhs := search_string ev\<rparr> else ev) in
     bind_run (get_subst_pattern (fresh_byte cfg) s i delimiter True) (\<lambda>(t, i).
     case t of
       None \<Rightarrow> Inl Null_Pointer
     | Some rhs \<Rightarrow>
         bind_run
           (if c_member (CHR ''&'') rhs
            then postproc_subst_rhs (fresh_byte cfg) (subst_lhs ev)
                   (case subst_lhs ev of None \<Rightarrow> 0 | Some l \<Rightarrow> length l) rhs
            else Inr rhs) (\<lambda>rhs.
         Inr (ev\<lparr>subst_rhs := Some rhs\<rparr>, i)))))"

text \<open>The rest of the cases \<open>s\<close> and \<open>&\<close>: \<open>i\<close> is behind them.\<close>

definition substitute ::
    "nat \<Rightarrow> hist_config \<Rightarrow> string \<Rightarrow> nat \<Rightarrow> nat \<Rightarrow> mod_state \<Rightarrow> expand_vars mod_result run" where
  "substitute fuel cfg s starting_index i md =
     (let ev = md_vars md in
      case subst_lhs ev of
        None \<Rightarrow> error_result cfg s starting_index i NO_PREV_SUBST ev
      | Some lhs \<Rightarrow>
      if lhs = [] then error_result cfg s starting_index i NO_PREV_SUBST ev
      else if length lhs > length (md_temp md) then error_result cfg s starting_index i SUBST_FAILED ev
      else
      case subst_rhs ev of
        None \<Rightarrow> Inl Null_Pointer
      | Some rhs \<Rightarrow>
      bind_run (subst_loop fuel (word_delimiters cfg) lhs rhs (md_globally md) (md_bywords md)
          (md_temp md) 0 0 False) (\<lambda>(replaced, temp).
      if replaced then Inr (Mod_Next (md\<lparr>md_temp := temp, md_globally := False\<rparr>) i)
      else error_result cfg s starting_index i SUBST_FAILED ev))"

text \<open>One pass through the loop, with \<open>string[i]\<close> a colon.\<close>

definition modifier ::
    "nat \<Rightarrow> hist_config \<Rightarrow> string \<Rightarrow> nat \<Rightarrow> nat \<Rightarrow> mod_state \<Rightarrow> expand_vars mod_result run" where
  "modifier fuel cfg s starting_index i md =
     bind_run (byte_at s (i + 1)) (\<lambda>c.
     let global = c = CHR ''g'' \<or> c = CHR ''a''; bywords = c = CHR ''G'';
         md = (if global then md\<lparr>md_globally := True\<rparr> else if bywords then md\<lparr>md_bywords := True\<rparr> else md);
         i = (if global \<or> bywords then i + 1 else i) in
     bind_run (byte_at s (i + 1)) (\<lambda>c.
     if c = CHR ''q'' then Inr (Mod_Next (md\<lparr>md_quotes := CHR ''q''\<rparr>) (i + 2))
     else if c = CHR ''x'' then Inr (Mod_Next (md\<lparr>md_quotes := CHR ''x''\<rparr>) (i + 2))
     else if c = CHR ''p'' then Inr (Mod_Next (md\<lparr>md_print := md_print md + 1\<rparr>) (i + 2))
     else if c = CHR ''t'' then
       Inr (Mod_Next (case split_last (CHR ''/'') (md_temp md) of None \<Rightarrow> md | Some (a, b) \<Rightarrow> md\<lparr>md_temp := b\<rparr>) (i + 2))
     else if c = CHR ''h'' then
       Inr (Mod_Next (case split_last (CHR ''/'') (md_temp md) of None \<Rightarrow> md | Some (a, b) \<Rightarrow> md\<lparr>md_temp := a\<rparr>) (i + 2))
     else if c = CHR ''r'' then
       Inr (Mod_Next (case split_last (CHR ''.'') (md_temp md) of None \<Rightarrow> md | Some (a, b) \<Rightarrow> md\<lparr>md_temp := a\<rparr>) (i + 2))
     else if c = CHR ''e'' then
       Inr (Mod_Next (case split_last (CHR ''.'') (md_temp md) of None \<Rightarrow> md
                      | Some (a, b) \<Rightarrow> md\<lparr>md_temp := CHR ''.'' # b\<rparr>) (i + 2))
     else if c = CHR ''s'' then
       if i + 2 < length s then
         bind_run (read_subst cfg s i (md_vars md)) (\<lambda>(ev, i).
         substitute fuel cfg s starting_index i (md\<lparr>md_vars := ev\<rparr>))
       else Inr (Mod_Next md (i + 2))
     else if c = CHR ''&'' then substitute fuel cfg s starting_index (i + 2) md
     else error_result cfg s (i + 1) (i + 2) BAD_MODIFIER (md_vars md)))"

text \<open>
  The loop; \<open>n\<close> bounds the modifiers, each of which takes at least two characters of the line.
\<close>

fun modifier_loop ::
    "nat \<Rightarrow> nat \<Rightarrow> hist_config \<Rightarrow> string \<Rightarrow> nat \<Rightarrow> nat \<Rightarrow> mod_state \<Rightarrow> expand_vars mod_result run" where
  "modifier_loop 0 fuel cfg s starting_index i md = Inl No_Return"
| "modifier_loop (Suc n) fuel cfg s starting_index i md =
     bind_run (byte_at s i) (\<lambda>c.
     if c \<noteq> CHR '':'' then Inr (Mod_Next md i)
     else
     bind_run (modifier fuel cfg s starting_index i md) (\<lambda>r.
     case r of
       Mod_Error msg ev \<Rightarrow> Inr (Mod_Error msg ev)
     | Mod_Next md i \<Rightarrow> modifier_loop n fuel cfg s starting_index i md))"

section \<open>history\_expand\_internal\<close>

text \<open>An error message, or the text, \<open>end_index_ptr\<close> and how often \<open>p\<close> was given.\<close>

datatype expansion = Expand_Error string | Expanded string nat nat

definition choose_event ::
    "hist_config \<Rightarrow> string \<Rightarrow> nat \<Rightarrow> string \<Rightarrow> hist_state \<Rightarrow> expand_vars \<Rightarrow>
     (string option \<times> nat \<times> hist_state \<times> expand_vars) run" where
  "choose_event cfg s start current_line hs ev =
     bind_run (byte_at s (start + 1)) (\<lambda>c.
     if c_member c '':$*%^'' then
       bind_run (get_history_event cfg [expansion_char cfg, expansion_char cfg] 0 NUL hs ev) (\<lambda>(e, _, hs, ev).
       Inr (e, start + 1, hs, ev))
     else if c = CHR ''#'' then Inr (Some current_line, start + 2, hs, ev)
     else
     bind_run (if start > 0 then byte_at s (start - 1) else Inr NUL) (\<lambda>q.
     get_history_event cfg s start (if q = CHR 0x27 \<or> q = CHR 0x22 then q else NUL) hs ev))"

definition quoted_result :: "hist_config \<Rightarrow> char \<Rightarrow> string \<Rightarrow> string run" where
  "quoted_result cfg want_quotes temp =
     (if want_quotes = NUL then Inr temp
      else bind_run (if want_quotes = CHR ''q'' then sh_single_quote (fresh_byte cfg) (Some temp)
                     else quote_breaks (fresh_byte cfg) (Some temp)) string_in)"

definition history_expand_internal ::
    "nat \<Rightarrow> hist_config \<Rightarrow> string \<Rightarrow> nat \<Rightarrow> string \<Rightarrow> hist_state \<Rightarrow> expand_vars \<Rightarrow>
     (expansion \<times> hist_state \<times> expand_vars) run" where
  "history_expand_internal fuel cfg s start current_line hs ev =
     bind_run (choose_event cfg s start current_line hs ev) (\<lambda>(event, i, hs, ev).
     case event of
       None \<Rightarrow>
         bind_run (hist_error (fresh_byte cfg) s start i EVENT_NOT_FOUND) (\<lambda>b.
         bind_run (string_in b) (\<lambda>msg. Inr (Expand_Error msg, hs, ev)))
     | Some event \<Rightarrow>
         let starting_index = i in
         bind_run (get_history_word_specifier cfg s event i ev) (\<lambda>(spec, i).
         if spec = Spec_Error then
           bind_run (hist_error (fresh_byte cfg) s starting_index i BAD_WORD_SPEC) (\<lambda>b.
           bind_run (string_in b) (\<lambda>msg. Inr (Expand_Error msg, hs, ev)))
         else
         let temp = (case spec of Spec w \<Rightarrow> w | _ \<Rightarrow> event) in
         bind_run (modifier_loop (length s + 2) fuel cfg s i i
            \<lparr>md_temp = temp, md_quotes = NUL, md_globally = False, md_bywords = False, md_print = 0,
             md_vars = ev\<rparr>) (\<lambda>r.
         case r of
           Mod_Error msg ev \<Rightarrow> Inr (Expand_Error msg, hs, ev)
         | Mod_Next md i \<Rightarrow>
             bind_run (quoted_result cfg (md_quotes md) (md_temp md)) (\<lambda>temp.
             Inr (Expanded temp (i - 1) (md_print md), hs, md_vars md)))))"

section \<open>history\_expand\<close>

text \<open>The output: \<open>result\<close>, \<open>result_len\<close> and \<open>j\<close>.\<close>

type_synonym out_buf = "string \<times> nat \<times> nat"

definition ADD_STRING :: "char \<Rightarrow> string \<Rightarrow> out_buf \<Rightarrow> out_buf run" where
  "ADD_STRING jk s out =
     (case out of (result, result_len, j) \<Rightarrow>
      let sl = length s; j = j + sl;
          len = (if j \<ge> result_len then result_len + 128 * ((j - result_len) div 128 + 1) else result_len);
          result = (if j \<ge> result_len then xrealloc jk len result else result) in
      bind_run (put_bytes (j - sl) (s @ [NUL]) result) (\<lambda>result. Inr (result, len, j)))"

definition ADD_CHAR :: "char \<Rightarrow> char \<Rightarrow> out_buf \<Rightarrow> out_buf run" where
  "ADD_CHAR jk c out =
     (case out of (result, result_len, j) \<Rightarrow>
      let grow = j \<ge> result_len - 1;
          len = (if grow then result_len + 64 else result_len);
          result = (if grow then xrealloc jk len result else result) in
      bind_run (put_bytes j [c] result) (\<lambda>result.
      bind_run (put_bytes (j + 1) [NUL] result) (\<lambda>result.
      Inr (result, len, j + 1))))"

definition at_word_start :: "hist_config \<Rightarrow> string \<Rightarrow> nat \<Rightarrow> bool run" where
  "at_word_start cfg s i =
     (if i = 0 then Inr True
      else bind_run (byte_at s (i - 1)) (\<lambda>c. Inr (c_member c (word_delimiters cfg))))"

text \<open>Whether the expansion character at \<open>i\<close>, followed by \<open>cc\<close>, stands for itself.\<close>

definition no_expansion :: "hist_config \<Rightarrow> string \<Rightarrow> nat \<Rightarrow> char \<Rightarrow> bool" where
  "no_expansion cfg s i cc \<longleftrightarrow>
     cc = NUL \<or> c_member cc (no_expand_chars cfg) \<or>
     (case inhibit_function cfg of None \<Rightarrow> False | Some f \<Rightarrow> f s i)"

definition dollar_quote :: "string \<Rightarrow> nat \<Rightarrow> bool run" where
  "dollar_quote s i = (if i = 0 then Inr False else bind_run (byte_at s (i - 1)) (\<lambda>c. Inr (c = CHR ''$'')))"

lemma single_quoted_ge: "hist_string_extract_single_quoted s i flags = Inr e \<Longrightarrow> i \<le> e"
proof (induction s i flags arbitrary: e rule: hist_string_extract_single_quoted.induct)
  case (1 s i flags)
  obtain c where c: "byte_at s i = Inr c"
    using "1.prems" by (subst (asm) hist_string_extract_single_quoted.simps) (auto simp: run_simps)
  show ?case
  proof (cases "c = NUL \<or> c = CHR 0x27")
    case True
    then show ?thesis using "1.prems" c by (subst (asm) hist_string_extract_single_quoted.simps) auto
  next
    case False
    then obtain d where d: "byte_at s (i + 1) = Inr d"
      using "1.prems" c by (subst (asm) hist_string_extract_single_quoted.simps) (auto simp: run_simps)
    have "hist_string_extract_single_quoted s (if flags \<and> c = CHR 0x5C \<and> d \<noteq> NUL then i + 2 else i + 1) flags = Inr e"
      using "1.prems" c d False by (subst (asm) hist_string_extract_single_quoted.simps) auto
    from "1.IH" [OF c False d this] show ?thesis by (auto split: if_splits)
  qed
qed

lemma behind_byte:
  "byte_at s i = Inr c \<Longrightarrow> c \<noteq> NUL \<Longrightarrow> i < k \<Longrightarrow> Suc (length s) - k < Suc (length s) - i"
  by (drule (1) byte_at_more) auto

text \<open>The loop that looks for something to expand: the index where it stops.\<close>

function prescan :: "hist_config \<Rightarrow> string \<Rightarrow> nat \<Rightarrow> bool \<Rightarrow> nat run" where
  "prescan cfg s i dquote =
     bind_run (byte_at s i) (\<lambda>c.
     if c = NUL then Inr i
     else
     bind_run (byte_at s (i + 1)) (\<lambda>cc.
     bind_run (at_word_start cfg s i) (\<lambda>word_start.
     if comment_char cfg \<noteq> NUL \<and> c = comment_char cfg \<and> word_start then Inr (length s)
     else if c = expansion_char cfg then
       if no_expansion cfg s i cc then prescan cfg s (i + 1) dquote else Inr i
     else if dquote \<and> c = CHR 0x5C \<and> cc = CHR 0x22 then prescan cfg s (i + 2) dquote
     else if quotes_inhibit cfg \<and> c = CHR 0x22 then prescan cfg s (i + 1) (\<not> dquote)
     else if \<not> dquote \<and> quotes_inhibit cfg \<and> c = CHR 0x27 then
       bind_run (dollar_quote s i) (\<lambda>flag.
       bind_run (hist_string_extract_single_quoted s (i + 1) flag) (\<lambda>e.
       prescan cfg s (e + 1) dquote))
     else if quotes_inhibit cfg \<and> c = CHR 0x5C \<and> (cc = CHR 0x27 \<or> cc = expansion_char cfg)
     then prescan cfg s (i + 2) dquote
     else prescan cfg s (i + 1) dquote)))"
  by pat_completeness auto
termination
proof (relation "measure (\<lambda>(_, s, i, _). Suc (length s) - i)", goal_cases)
  case 1
  then show ?case by simp
next
  case (5 cfg s i dquote c cc word_start flag e)
  have "i < e + 1" using single_quoted_ge [OF 5(11)] by simp
  from behind_byte [OF 5(1,2) this] show ?case by simp
qed (simp_all only: in_measure prod.case, (erule (1) behind_byte, simp)+)

declare prescan.simps [simp del]

text \<open>
  The main loop. The result is the error message, or the output with \<open>modified\<close> and \<open>only_printing\<close>;
  \<open>n\<close> bounds the passes.
\<close>

datatype expand_result = Failed string | Output out_buf bool bool

record expand_flags =
  passc :: bool
  dquoted :: bool
  modified :: bool
  only_printing :: bool

fun expand_loop ::
    "nat \<Rightarrow> nat \<Rightarrow> hist_config \<Rightarrow> string \<Rightarrow> nat \<Rightarrow> out_buf \<Rightarrow> expand_flags \<Rightarrow> hist_state \<Rightarrow> expand_vars \<Rightarrow>
     (expand_result \<times> hist_state \<times> expand_vars) run" where
  "expand_loop 0 fuel cfg s i out fl hs ev = Inl No_Return"
| "expand_loop (Suc n) fuel cfg s i out fl hs ev =
     (if \<not> i < length s then Inr (Output out (modified fl) (only_printing fl), hs, ev)
      else
      let c = s ! i;
          plainly = bind_run (ADD_CHAR (fresh_byte cfg) c out) (\<lambda>out.
            expand_loop n fuel cfg s (i + 1) out fl hs ev) in
      if passc fl then
        bind_run (ADD_CHAR (fresh_byte cfg) c out) (\<lambda>out.
        expand_loop n fuel cfg s (i + 1) out (fl\<lparr>passc := False\<rparr>) hs ev)
      else if c = expansion_char cfg then
        bind_run (byte_at s (i + 1)) (\<lambda>cc.
        if no_expansion cfg s i cc then plainly
        else
        case out of (result, result_len, j) \<Rightarrow>
        bind_run (string_in result) (\<lambda>current_line.
        bind_run (history_expand_internal fuel cfg s i current_line hs ev) (\<lambda>(r, hs, ev).
        case r of
          Expand_Error msg \<Rightarrow> Inr (Failed msg, hs, ev)
        | Expanded temp eindex print_only \<Rightarrow>
            bind_run (if temp \<noteq> [] then ADD_STRING (fresh_byte cfg) temp out else Inr out) (\<lambda>out.
            expand_loop n fuel cfg s (eindex + 1) out
              (fl\<lparr>modified := True, only_printing := (print_only = 1)\<rparr>) hs ev))))
      else if c = comment_char cfg then
        bind_run (at_word_start cfg s i) (\<lambda>word_start.
        if word_start then
          bind_run (ADD_STRING (fresh_byte cfg) (drop i s) out) (\<lambda>out.
          expand_loop n fuel cfg s (length s + 1) out fl hs ev)
        else plainly)
      else if c = CHR 0x5C then
        bind_run (ADD_CHAR (fresh_byte cfg) c out) (\<lambda>out.
        expand_loop n fuel cfg s (i + 1) out (fl\<lparr>passc := True\<rparr>) hs ev)
      else if c = CHR 0x22 then
        bind_run (ADD_CHAR (fresh_byte cfg) c out) (\<lambda>out.
        expand_loop n fuel cfg s (i + 1) out (fl\<lparr>dquoted := \<not> dquoted fl\<rparr>) hs ev)
      else if c = CHR 0x27 \<and> \<not> dquoted fl \<and> quotes_inhibit cfg then
        bind_run (dollar_quote s i) (\<lambda>flag.
        bind_run (hist_string_extract_single_quoted s (i + 1) flag) (\<lambda>e.
        bind_run (ADD_STRING (fresh_byte cfg) (take (e - i + 1) (drop i s)) out) (\<lambda>out.
        expand_loop n fuel cfg s (e + 1) out fl hs ev)))
      else plainly)"

text \<open>
  The return value with what is stored through \<open>output\<close>: the expanded line, or the message when it is -1.
\<close>

definition history_expand ::
    "nat \<Rightarrow> hist_config \<Rightarrow> string \<Rightarrow> hist_state \<Rightarrow> expand_vars \<Rightarrow> ((int \<times> string) \<times> hist_state \<times> expand_vars) run" where
  "history_expand fuel cfg hstring hs ev =
     (if expansion_char cfg = NUL then Inr ((0, hstring), hs, ev)
      else
      let result = NUL # replicate 255 (fresh_byte cfg);
          run = (\<lambda>s.
            bind_run (expand_loop fuel fuel cfg s 0 (result, 256, 0)
               \<lparr>passc = False, dquoted = False, modified = False, only_printing = False\<rparr> hs ev) (\<lambda>(r, hs, ev).
            case r of
              Failed msg \<Rightarrow> Inr ((-1, msg), hs, ev)
            | Output (result, result_len, j) is_modified printing \<Rightarrow>
                bind_run (string_in result) (\<lambda>line.
                Inr ((if printing then 2 else if is_modified then 1 else 0, line), hs, ev)))) in
      bind_run (byte_at hstring 0) (\<lambda>c.
      if c = subst_char cfg
      then run ([expansion_char cfg, expansion_char cfg] @ '':s'' @ hstring)
      else
      bind_run (prescan cfg hstring 0 False) (\<lambda>i.
      bind_run (byte_at hstring i) (\<lambda>c.
      if c \<noteq> expansion_char cfg then Inr ((0, hstring), hs, ev) else run hstring))))"

end
