(* ===== verification/Hist_Event_Spec.thy ===== *)
theory Hist_Event_Spec
  imports Hist_Expand
begin

text \<open>
  What an event designator stands for: \<open>get_history_event\<close> and the words of the event, against the list
  of the lines that the history holds.
\<close>

section \<open>Lines by number\<close>

definition numbered :: "hist_state \<Rightarrow> int \<Rightarrow> string option" where
  "numbered hs k =
     (if 0 \<le> k \<and> k < int (length (history_lines hs)) then Some (history_lines hs ! nat k) else None)"

lemma lines_length: "hist_inv hs \<Longrightarrow> history_length hs = int (length (history_lines hs))"
  using length_abs [of hs] by (simp add: history_lines_def)

lemma lines_entry:
  assumes "hist_inv hs" and "k < length (history_lines hs)"
  obtains a e where "slot (int k) hs = Inr a" and "a \<noteq> 0" and "entry a hs = Inr e"
    and "he_line e = Some (history_lines hs ! k)"
proof -
  have k: "k < length (live hs)" using assms(2) by (simp add: history_lines_def length_abs_live)
  note e = entry_live [OF assms(1) k]
  have "he_line (sp_entries (hist_abs hs) ! k) = Some (history_lines hs ! k)"
    using e(4) assms(2) by (auto simp: good_entry_def history_lines_def)
  with e(1-3) that show thesis by blast
qed

lemma return_entry_numbered:
  assumes "hist_inv hs" and "int32 (w - history_base hs)"
  shows "return_entry w hs = Inr (numbered hs (w - history_base hs))"
proof -
  let ?k = "w - history_base hs"
  have k: "wrap32 ?k = ?k" by (rule wrap32_id [OF assms(2)])
  show ?thesis
  proof (cases "0 \<le> ?k \<and> ?k < int (length (history_lines hs))")
    case False
    then show ?thesis
      using k lines_length [OF assms(1)]
      by (auto simp: return_entry_def history_get_def Let_def numbered_def)
  next
    case True
    then have "nat ?k < length (history_lines hs)" by linarith
    from lines_entry [OF assms(1) this] obtain a e
      where a: "slot ?k hs = Inr a" "a \<noteq> 0" "entry a hs = Inr e" "he_line e = Some (history_lines hs ! nat ?k)"
      using True by auto
    then obtain arr where "the_history hs = Some arr" by (cases "the_history hs") (auto simp: slot_def)
    then have "history_get w hs = Inr a"
      using True a(1) lines_length [OF assms(1)] by (simp add: history_get_def k)
    then show ?thesis using True a by (simp add: return_entry_def numbered_def)
  qed
qed

section \<open>Numbers in the line\<close>

lemma fold_digits:
  "\<forall>d \<in> set ds. is_digit d \<Longrightarrow> digits_val acc ds < 2 ^ 31 \<Longrightarrow>
    fold (\<lambda>d n. wrap32 (wrap32 (n * 10) + int (digit_val d))) ds (int acc) = int (digits_val acc ds)"
proof (induction ds arbitrary: acc)
  case (Cons d ds)
  have "10 * acc + digit_val d < 2 ^ 31"
    using Cons.prems digits_val_ge [of "10 * acc + digit_val d" ds] by simp
  then have "wrap32 (int acc * 10) = int acc * 10" "wrap32 (int acc * 10 + int (digit_val d)) = int (10 * acc + digit_val d)"
    by (auto simp: wrap32_id int32_def)
  then show ?case using Cons.IH [of "10 * acc + digit_val d"] Cons.prems by simp
qed simp

lemma read_number_show:
  assumes "drop i s = show_nat n @ r" and "r = [] \<or> \<not> is_digit (hd r)" and "n < 2 ^ 31"
  shows "read_number s i = (int n, i + length (show_nat n))"
proof -
  have "takeWhile is_digit (show_nat n @ r) = show_nat n"
    using show_nat_digits [of n] assms(2) by (cases r) (simp_all add: takeWhile_append2 takeWhile_tail)
  then show ?thesis
    using fold_digits [of "show_nat n" 0] show_nat_digits [of n] assms(1,3)
    by (simp add: read_number_def digits_val_show_nat)
qed

lemma show_nat_head: "\<exists>d ds. show_nat n = d # ds \<and> is_digit d"
  using show_nat_digits [of n] show_nat_nonempty [of n] by (cases "show_nat n") auto

section \<open>The searches\<close>

text \<open>The line a search stops at, from the current one backward.\<close>

definition searched :: "bool \<Rightarrow> string \<Rightarrow> nat \<Rightarrow> hist_state \<Rightarrow> nat option" where
  "searched anchored str off hs =
     find (\<lambda>k. \<exists>p. occurs str anchored (history_lines hs ! k) p) (visits True off (length (history_lines hs)))"

lemma find_SomeD: "find P xs = Some x \<Longrightarrow> x \<in> set xs \<and> P x"
  by (induction xs) (auto split: if_splits)

lemma searched_Some: "searched anchored str off hs = Some k \<Longrightarrow>
    k < length (history_lines hs) \<and> (\<exists>p. occurs str anchored (history_lines hs ! k) p)"
  unfolding searched_def by (drule find_SomeD) (auto simp: visits_def)

lemma search_run:
  assumes "hist_inv hs" and "history_offset hs = int off" and "str \<noteq> []"
  shows "case searched anchored str off hs of
      None \<Rightarrow> history_search_internal (Some str) (-1) anchored hs = Inr (-1, hs)
    | Some k \<Rightarrow> \<exists>p. history_search_internal (Some str) (-1) anchored hs = Inr (int p, hs\<lparr>history_offset := int k\<rparr>) \<and>
        (anchored \<longrightarrow> p = 0)"
proof -
  note run = search_visits [OF assms, of "-1" anchored, unfolded hit_iff]
  show ?thesis
  proof (cases "searched anchored str off hs")
    case None
    then show ?thesis using run by (simp add: searched_def)
  next
    case (Some k)
    from searched_Some [OF this] obtain p
      where p: "search_line str True anchored (history_lines hs ! k) = Some p" "anchored \<longrightarrow> p = 0"
      using search_line_spec [of str anchored "history_lines hs ! k" True]
      by (cases "search_line str True anchored (history_lines hs ! k)") (auto simp: occurs_def)
    then show ?thesis using run Some by (simp add: hist_lines.hit_def searched_def)
  qed
qed

lemma current_line:
  assumes "hist_inv hs" and "k < length (history_lines hs)"
  obtains a e where "current_history (hs\<lparr>history_offset := int k\<rparr>) = Inr a" and "a \<noteq> 0"
    and "entry a (hs\<lparr>history_offset := int k\<rparr>) = Inr e" and "he_line e = Some (history_lines hs ! k)"
proof -
  from lines_entry [OF assms] obtain a e where a: "slot (int k) hs = Inr a" "a \<noteq> 0" "entry a hs = Inr e"
    "he_line e = Some (history_lines hs ! k)" .
  obtain arr where "the_history hs = Some arr" using a(1) by (cases "the_history hs") (auto simp: slot_def)
  then have "current_history (hs\<lparr>history_offset := int k\<rparr>) = Inr a"
    using a(1) assms(2) lines_length [OF assms(1)] by (simp add: current_history_def slot_def)
  with a that show thesis by (simp add: entry_def)
qed

lemma find_word_returns:
  assumes "ends_well line" and "NUL \<notin> set line"
  shows "\<exists>w. history_find_word delims comment line i = Inr w"
  using tokenize_loop_covers [OF assms, of 0 delims comment "Some i" 0 "-1"]
  by (auto simp: history_find_word_def history_tokenize_internal_def)

lemma prefix_event:
  assumes "hist_inv hs" and "history_offset hs = int off" and "str \<noteq> []"
  shows "search_loop (Suc n) cfg False str hs ev =
    Inr (map_option (\<lambda>k. history_lines hs ! k) (searched True str off hs),
         hs\<lparr>history_offset := history_length hs\<rparr>, ev)"
proof (cases "searched True str off hs")
  case None
  then show ?thesis using search_run [OF assms, of True] by (simp add: history_search_prefix_def fail_search_def)
next
  case (Some k)
  then have run: "history_search_internal (Some str) (-1) True hs = Inr (0, hs\<lparr>history_offset := int k\<rparr>)"
    using search_run [OF assms, of True] by auto
  from Some have "k < length (history_lines hs)" by (rule searched_Some [THEN conjunct1])
  from current_line [OF assms(1) this] obtain a e
    where "current_history (hs\<lparr>history_offset := int k\<rparr>) = Inr a" and "a \<noteq> 0"
      and "entry a (hs\<lparr>history_offset := int k\<rparr>) = Inr e" and "he_line e = Some (history_lines hs ! k)" .
  then show ?thesis using run Some by (simp add: history_search_prefix_def Let_def)
qed

lemma substring_event:
  assumes "hist_inv hs" and "history_offset hs = int off" and "str \<noteq> []"
    and "\<forall>l \<in> set (history_lines hs). ends_well l \<and> NUL \<notin> set l"
  shows "case searched False str off hs of
      None \<Rightarrow> search_loop (Suc n) cfg True str hs ev = Inr (None, hs\<lparr>history_offset := history_length hs\<rparr>, ev)
    | Some k \<Rightarrow> \<exists>w. search_loop (Suc n) cfg True str hs ev =
        Inr (Some (history_lines hs ! k), hs\<lparr>history_offset := history_length hs\<rparr>,
             ev\<lparr>search_string := Some str, search_match := w\<rparr>)"
proof (cases "searched False str off hs")
  case None
  then show ?thesis using search_run [OF assms(1-3), of False] by (simp add: history_search_def fail_search_def)
next
  case (Some k)
  then obtain p where run: "history_search_internal (Some str) (-1) False hs = Inr (int p, hs\<lparr>history_offset := int k\<rparr>)"
    using search_run [OF assms(1-3), of False] by auto
  from Some have k: "k < length (history_lines hs)" by (rule searched_Some [THEN conjunct1])
  from current_line [OF assms(1) k] obtain a e
    where a: "current_history (hs\<lparr>history_offset := int k\<rparr>) = Inr a" "a \<noteq> 0"
      "entry a (hs\<lparr>history_offset := int k\<rparr>) = Inr e" "he_line e = Some (history_lines hs ! k)" .
  have "ends_well (history_lines hs ! k)" "NUL \<notin> set (history_lines hs ! k)" using assms(4) k by simp_all
  from find_word_returns [OF this] obtain w
    where "history_find_word (word_delimiters cfg) (comment_char cfg) (history_lines hs ! k) p = Inr w" by blast
  then show ?thesis using run Some a by (simp add: history_search_def Let_def c_line_def) (rule exI [of _ w], simp)
qed

section \<open>The designators\<close>

text \<open>A string that can be searched for: what follows the expansion character up to the end of the event.\<close>

definition search_text :: "hist_config \<Rightarrow> char \<Rightarrow> bool \<Rightarrow> string \<Rightarrow> string \<Rightarrow> bool" where
  "search_text cfg q substring_okay str r \<longleftrightarrow>
     str \<noteq> [] \<and> (\<forall>c \<in> set str. c \<noteq> NUL \<and> \<not> ends_search cfg substring_okay q c) \<and>
     (r = [] \<or> ends_search cfg substring_okay q (hd r))"

lemma search_text_end:
  assumes "search_text cfg q sub str r"
  shows "skip_while (\<lambda>c. c \<noteq> NUL \<and> \<not> ends_search cfg sub q c) (a @ str @ r) (length a) = length a + length str"
    "history_substring (a @ str @ r) (length a) (length a + length str) = str"
proof -
  have "takeWhile (\<lambda>c. c \<noteq> NUL \<and> \<not> ends_search cfg sub q c) (str @ r) = str"
    using assms by (cases r) (simp_all add: search_text_def takeWhile_append2 takeWhile_tail)
  then show "skip_while (\<lambda>c. c \<noteq> NUL \<and> \<not> ends_search cfg sub q c) (a @ str @ r) (length a) = length a + length str"
    by (simp add: skip_while_def)
qed (simp add: history_substring_def)

text \<open>The designators that name a line by its number.\<close>

lemma event_last:
  assumes "hist_inv hs" and "0 \<le> history_base hs" and "history_base hs + history_length hs < 2 ^ 31"
    and "expansion_char cfg \<noteq> NUL"
  shows "get_history_event cfg (expansion_char cfg # expansion_char cfg # r) 0 q hs ev =
    Inr (numbered hs (history_length hs - 1), 2, hs, ev)"
proof -
  have len: "0 \<le> history_length hs" using lines_length [OF assms(1)] by simp
  then have w: "wrap32 (history_base hs + (history_length hs - 1)) - history_base hs = history_length hs - 1"
    using assms(2,3) by (simp add: wrap32_id int32_def)
  then have "int32 (wrap32 (history_base hs + (history_length hs - 1)) - history_base hs)"
    using assms(2,3) len by (simp add: int32_def)
  from return_entry_numbered [OF assms(1) this] w
  show ?thesis by (simp add: get_history_event_def Let_def byte_at_def)
qed

lemma event_number:
  assumes "hist_inv hs" and "0 \<le> history_base hs" and "history_base hs + history_length hs < 2 ^ 31"
    and "expansion_char cfg \<notin> {NUL, CHR ''-''}" and "\<not> is_digit (expansion_char cfg)"
    and "n < 2 ^ 31" and "r = [] \<or> \<not> is_digit (hd r)"
  shows "get_history_event cfg (expansion_char cfg # show_nat n @ r) 0 q hs ev =
      Inr (numbered hs (int n - history_base hs), 1 + length (show_nat n), hs, ev)"
    and "get_history_event cfg (expansion_char cfg # CHR ''-'' # show_nat n @ r) 0 q hs ev =
      Inr (numbered hs (history_length hs - int n), 2 + length (show_nat n), hs, ev)"
proof -
  obtain d ds where d: "show_nat n = d # ds" "is_digit d" using show_nat_head by blast
  then have dne: "d \<noteq> expansion_char cfg" "d \<noteq> CHR ''-''" using assms(5) is_digit_not_sign by auto
  have len: "0 \<le> history_length hs" using lines_length [OF assms(1)] by simp
  have r1: "read_number (expansion_char cfg # show_nat n @ r) 1 = (int n, 1 + length (show_nat n))"
    by (rule read_number_show [OF _ assms(7,6)]) simp
  have r2: "read_number (expansion_char cfg # CHR ''-'' # show_nat n @ r) 2 = (int n, 2 + length (show_nat n))"
    by (rule read_number_show [OF _ assms(7,6)]) simp
  have "int32 (int n - history_base hs)" using assms(2,3,6) len by (auto simp: int32_def)
  from return_entry_numbered [OF assms(1) this] r1
  show "get_history_event cfg (expansion_char cfg # show_nat n @ r) 0 q hs ev =
      Inr (numbered hs (int n - history_base hs), 1 + length (show_nat n), hs, ev)"
    using dne d(2) unfolding d(1) by (simp add: get_history_event_def Let_def byte_at_def)
  let ?w = "wrap32 (wrap32 (history_length hs + history_base hs) - int n)"
  have ne: "CHR ''-'' \<noteq> expansion_char cfg" using assms(4) by auto
  have "wrap32 (history_length hs + history_base hs) = history_length hs + history_base hs"
    using assms(2,3) len by (intro wrap32_id) (simp add: int32_def)
  moreover have "wrap32 (history_length hs + history_base hs - int n) = history_length hs + history_base hs - int n"
    using assms(2,3,6) len by (intro wrap32_id) (simp add: int32_def)
  ultimately have w: "?w - history_base hs = history_length hs - int n" by simp
  have "int32 (?w - history_base hs)" unfolding w using assms(2,3,6) len by (auto simp: int32_def)
  from return_entry_numbered [OF assms(1) this] r2
  show "get_history_event cfg (expansion_char cfg # CHR ''-'' # show_nat n @ r) 0 q hs ev =
      Inr (numbered hs (history_length hs - int n), 2 + length (show_nat n), hs, ev)"
    using dne d(2) ne w unfolding d(1) by (simp add: get_history_event_def Let_def byte_at_def numeral_2_eq_2)
qed

text \<open>The designators that search.\<close>

lemma event_prefix:
  assumes "hist_inv hs" and "history_offset hs = int off" and "search_text cfg q False str r"
    and "expansion_char cfg \<noteq> NUL" and "hd str \<notin> {expansion_char cfg, CHR ''-'', CHR ''?''}" and "\<not> is_digit (hd str)"
  shows "get_history_event cfg (expansion_char cfg # str @ r) 0 q hs ev =
    Inr (map_option (\<lambda>k. history_lines hs ! k) (searched True str off hs), 1 + length str,
         hs\<lparr>history_offset := history_length hs\<rparr>, ev)"
proof -
  obtain c u where str: "str = c # u" using assms(3) by (cases str) (auto simp: search_text_def)
  note e = search_text_end [OF assms(3), of "[expansion_char cfg]"]
  let ?s = "expansion_char cfg # str @ r"
  have i: "byte_at ?s 0 = Inr (expansion_char cfg)" "byte_at ?s 1 = Inr c"
    by (simp_all add: byte_at_def str)
  obtain x where x: "byte_at ?s (Suc (length str)) = Inr x"
    using byte_at_ex [of "Suc (length str)" ?s] by auto
  have "nat (history_length hs) + 2 = Suc (Suc (nat (history_length hs)))" by simp
  with prefix_event [OF assms(1,2), of str "Suc (nat (history_length hs))" cfg ev] str
  have loop: "search_loop (nat (history_length hs) + 2) cfg False str hs ev =
    Inr (map_option (\<lambda>k. history_lines hs ! k) (searched True str off hs), hs\<lparr>history_offset := history_length hs\<rparr>, ev)"
    by (simp del: search_loop.simps)
  show ?thesis
    using i e x loop assms(5,6)
    by (simp add: get_history_event_def Let_def str del: search_loop.simps)
qed

lemma event_substring:
  assumes "hist_inv hs" and "history_offset hs = int off" and "search_text cfg q True str (CHR ''?'' # r)"
    and "expansion_char cfg \<notin> {NUL, CHR ''?''}"
    and "\<forall>l \<in> set (history_lines hs). ends_well l \<and> NUL \<notin> set l"
  shows "\<exists>ev'. get_history_event cfg (expansion_char cfg # CHR ''?'' # str @ CHR ''?'' # r) 0 q hs ev =
    Inr (map_option (\<lambda>k. history_lines hs ! k) (searched False str off hs), 3 + length str,
         hs\<lparr>history_offset := history_length hs\<rparr>, ev') \<and>
    search_string ev' = (if searched False str off hs = None then search_string ev else Some str)"
proof -
  let ?s = "expansion_char cfg # CHR ''?'' # str @ CHR ''?'' # r"
  have str: "str \<noteq> []" using assms(3) by (simp add: search_text_def)
  have ne: "CHR ''?'' \<noteq> expansion_char cfg" using assms(4) by auto
  note e = search_text_end [OF assms(3), of "[expansion_char cfg, CHR ''?'']", simplified]
  have i: "byte_at ?s 0 = Inr (expansion_char cfg)" "byte_at ?s (Suc 0) = Inr (CHR ''?'')"
    "byte_at ?s (Suc (Suc (length str))) = Inr (CHR ''?'')"
    by (simp_all add: byte_at_def)
  have two: "nat (history_length hs) + 2 = Suc (Suc (nat (history_length hs)))" by simp
  have d: "\<not> is_digit (CHR ''?'')" by (simp add: is_digit_def)
  let ?run = "search_loop (nat (history_length hs) + 2) cfg True str hs ev"
  have run: "get_history_event cfg ?s 0 q hs ev =
      bind_run ?run (\<lambda>(t, hs, ev). Inr (t, Suc (Suc (Suc (length str))), hs, ev))"
    using i e ne d str assms(4)
    by (simp add: get_history_event_def Let_def del: search_loop.simps)
  note loop = substring_event [OF assms(1,2) str assms(5), of "Suc (nat (history_length hs))" cfg ev, folded two]
  show ?thesis
  proof (cases "searched False str off hs")
    case None
    then show ?thesis using loop run by (simp del: search_loop.simps)
  next
    case (Some k)
    then obtain w where "?run = Inr (Some (history_lines hs ! k), hs\<lparr>history_offset := history_length hs\<rparr>,
        ev\<lparr>search_string := Some str, search_match := w\<rparr>)"
      using loop by auto
    then show ?thesis using run Some
      by (intro exI [of _ "ev\<lparr>search_string := Some str, search_match := w\<rparr>"]) (simp del: search_loop.simps)
  qed
qed

text \<open>
  C15: what an event designator stands for. \<open>!!\<close> is the last line, \<open>!n\<close> the line number \<open>n\<close>, counted from
  the base, \<open>!-n\<close> the line \<open>n\<close> before the end; a number that no line has is no event. \<open>!text\<close> is the nearest
  line, from the current one backward, that begins with the text, and \<open>!?text?\<close> the nearest that contains
  it, provided that no line ends in a backslash; the position is moved behind the last line in both
  cases, whether or not a line is found. The index is left behind the designator.
\<close>

theorem history_event_designators:
  assumes "hist_inv hs" and "0 \<le> history_base hs" and "history_base hs + history_length hs < 2 ^ 31"
    and "history_offset hs = int off" and "n < 2 ^ 31"
    and "ec = expansion_char cfg" and "ec \<notin> {NUL, CHR ''-'', CHR ''?''}" and "\<not> is_digit ec"
    and "r = [] \<or> \<not> is_digit (hd r)"
    and "search_text cfg q False str u" and "hd str \<notin> {ec, CHR ''-'', CHR ''?''}" and "\<not> is_digit (hd str)"
    and "search_text cfg q True sub (CHR ''?'' # v)"
    and "\<forall>l \<in> set (history_lines hs). ends_well l \<and> NUL \<notin> set l"
  shows "get_history_event cfg (ec # ec # v) 0 q hs ev = Inr (numbered hs (history_length hs - 1), 2, hs, ev) \<and>
    get_history_event cfg (ec # show_nat n @ r) 0 q hs ev =
      Inr (numbered hs (int n - history_base hs), 1 + length (show_nat n), hs, ev) \<and>
    get_history_event cfg (ec # CHR ''-'' # show_nat n @ r) 0 q hs ev =
      Inr (numbered hs (history_length hs - int n), 2 + length (show_nat n), hs, ev) \<and>
    get_history_event cfg (ec # str @ u) 0 q hs ev =
      Inr (map_option (\<lambda>k. history_lines hs ! k) (searched True str off hs), 1 + length str,
           hs\<lparr>history_offset := history_length hs\<rparr>, ev) \<and>
    (\<exists>ev'. get_history_event cfg (ec # CHR ''?'' # sub @ CHR ''?'' # v) 0 q hs ev =
        Inr (map_option (\<lambda>k. history_lines hs ! k) (searched False sub off hs), 3 + length sub,
             hs\<lparr>history_offset := history_length hs\<rparr>, ev') \<and>
      search_string ev' = (if searched False sub off hs = None then search_string ev else Some sub))"
proof (intro conjI)
  show "get_history_event cfg (ec # ec # v) 0 q hs ev = Inr (numbered hs (history_length hs - 1), 2, hs, ev)"
    using event_last [OF assms(1-3)] assms(6,7) by simp
  show "get_history_event cfg (ec # show_nat n @ r) 0 q hs ev =
      Inr (numbered hs (int n - history_base hs), 1 + length (show_nat n), hs, ev)"
    and "get_history_event cfg (ec # CHR ''-'' # show_nat n @ r) 0 q hs ev =
      Inr (numbered hs (history_length hs - int n), 2 + length (show_nat n), hs, ev)"
    using event_number [OF assms(1-3) _ _ assms(5,9)] assms(6-8) by simp_all
  show "get_history_event cfg (ec # str @ u) 0 q hs ev =
      Inr (map_option (\<lambda>k. history_lines hs ! k) (searched True str off hs), 1 + length str,
           hs\<lparr>history_offset := history_length hs\<rparr>, ev)"
    using event_prefix [OF assms(1,4,10)] assms(6,7,11,12) by simp
  show "\<exists>ev'. get_history_event cfg (ec # CHR ''?'' # sub @ CHR ''?'' # v) 0 q hs ev =
        Inr (map_option (\<lambda>k. history_lines hs ! k) (searched False sub off hs), 3 + length sub,
             hs\<lparr>history_offset := history_length hs\<rparr>, ev') \<and>
      search_string ev' = (if searched False sub off hs = None then search_string ev else Some sub)"
    using event_substring [OF assms(1,4,13) _ assms(14)] assms(6,7) by simp
qed

text \<open>The variables as the library sets them, with the given value of the byte that \<open>malloc\<close> leaves.\<close>

definition default_config :: hist_config where
  "default_config =
     \<lparr>expansion_char = CHR ''!'', subst_char = CHR ''^'', comment_char = NUL,
      no_expand_chars = [CHR '' '', CHR 0x09, CHR 0x0A, CHR 0x0D, CHR ''=''], quotes_inhibit = False,
      word_delimiters = HISTORY_WORD_DELIMITERS, search_delimiters = None, inhibit_function = None,
      fresh_byte = CHR ''x''\<rparr>"

definition no_vars :: expand_vars where
  "no_vars = \<lparr>search_string = None, search_match = None, subst_lhs = None, subst_rhs = None\<rparr>"

lemma three_lines:
  obtains hs where "hist_inv hs" and "history_base hs = 1" and "history_offset hs = 3"
    and "history_lines hs = [''cc a.c'', ''ls'', ''cp a b'']"
proof -
  let ?cs = "[Add 5 ''cc a.c'', Add 6 ''ls'', Add 7 ''cp a b'', Use]"
  have ok: "ops_allowed hist_allowed (hist_spec_step NUL) ?cs spec_start"
    by (simp add: hist_allowed_def hist_spec_step_def spec_start_def Let_def)
  obtain st where st: "hist_inv st" "hist_abs st = fold (hist_spec_step NUL) ?cs spec_start"
    using session_from_start [OF ok, of 9] by blast
  have "history_lines st = [''cc a.c'', ''ls'', ''cp a b'']" "history_offset st = 3" "history_base st = 1"
    using arg_cong [OF st(2), of sp_offset] arg_cong [OF st(2), of sp_base] st(2)
    by (simp_all add: history_lines_def hist_spec_step_def spec_start_def Let_def) (simp_all add: hist_abs_def)
  with that st(1) show thesis by blast
qed

theorem history_event_designators_witness:
  "\<exists>hs hs'. get_history_event default_config ''!2'' 0 NUL hs no_vars = Inr (Some ''ls'', 2, hs, no_vars) \<and>
    get_history_event default_config ''!-4'' 0 NUL hs no_vars = Inr (None, 3, hs, no_vars) \<and>
    get_history_event default_config ''!cc'' 0 NUL hs no_vars = Inr (Some ''cc a.c'', 3, hs', no_vars)"
proof -
  obtain hs where hs: "hist_inv hs" "history_base hs = 1" "history_offset hs = 3"
    "history_lines hs = [''cc a.c'', ''ls'', ''cp a b'']" by (rule three_lines)
  have len: "history_length hs = 3" using lines_length [OF hs(1)] hs(4) by simp
  have ends: "\<forall>l \<in> set (history_lines hs). ends_well l \<and> NUL \<notin> set l" by (simp add: hs(4) ends_well_def)
  have nums: "show_nat 2 = ''2''" "show_nat 4 = ''4''" by (simp_all add: show_nat_small digit_char_def char_of_def bit_0)
  have occ: "occurs ''cc'' True ''cc a.c'' 0" "\<not> occurs ''cc'' True ''ls'' p" "\<not> occurs ''cc'' True ''cp a b'' p" for p
    by (simp add: occurs_def, (cases p; simp add: occurs_def)+)
  have found: "searched True ''cc'' 3 hs = Some 0"
    using occ by (auto simp: searched_def visits_def hs(4) eval_nat_numeral)
  have tx: "search_text default_config NUL False ''cc'' []" "search_text default_config NUL True ''cc'' ''?''"
    by (simp_all add: search_text_def ends_search_def default_config_def whitespace_def)
  have ec: "expansion_char default_config = CHR ''!''" by (simp add: default_config_def)
  have bounds: "0 \<le> history_base hs" "history_base hs + history_length hs < 2 ^ 31" "history_offset hs = int 3"
    by (simp_all add: hs len)
  have chars: "CHR ''!'' \<notin> {NUL, CHR ''-'', CHR ''?''}" "\<not> is_digit CHR ''!''"
    "hd ''cc'' \<notin> {CHR ''!'', CHR ''-'', CHR ''?''}" "\<not> is_digit (hd ''cc'')"
    by (simp_all add: is_digit_def)
  have small: "(2::nat) < 2 ^ 31" "(4::nat) < 2 ^ 31" "([]::string) = [] \<or> \<not> is_digit (hd [])" by simp_all
  note two = history_event_designators [OF hs(1) bounds small(1) ec [symmetric] chars(1,2) small(3) tx(1) chars(3,4) tx(2) ends]
  note four = history_event_designators [OF hs(1) bounds small(2) ec [symmetric] chars(1,2) small(3) tx(1) chars(3,4) tx(2) ends]
  have "get_history_event default_config ''!2'' 0 NUL hs no_vars = Inr (Some ''ls'', 2, hs, no_vars)"
    using two [THEN conjunct2, THEN conjunct1] by (simp add: nums hs(2,4) numbered_def)
  moreover have "get_history_event default_config ''!-4'' 0 NUL hs no_vars = Inr (None, 3, hs, no_vars)"
    using four [THEN conjunct2, THEN conjunct2, THEN conjunct1] by (simp add: nums len numbered_def)
  moreover have "get_history_event default_config ''!cc'' 0 NUL hs no_vars =
      Inr (Some ''cc a.c'', 3, hs\<lparr>history_offset := history_length hs\<rparr>, no_vars)"
    using two [THEN conjunct2, THEN conjunct2, THEN conjunct2, THEN conjunct1] by (simp add: found hs(4))
  ultimately show ?thesis by blast
qed

end
