(* ===== verification/Hist_Line_Spec.thy ===== *)
theory Hist_Line_Spec
  imports Hist_Event_Spec
begin

text \<open>
  What \<open>history_expand\<close> makes of a line: a line without an expansion is returned as it is, an event is
  replaced by its line, and the quick substitution edits the last line. The block for the output is followed
  through every growth.
\<close>

section \<open>Lines without an expansion\<close>

lemma at_word_start_returns: "i \<le> length s \<Longrightarrow> \<exists>b. at_word_start cfg s i = Inr b"
  by (auto simp: at_word_start_def byte_at_def)

lemma prescan_unexpanded:
  assumes "NUL \<notin> set s" and "\<not> quotes_inhibit cfg"
    and "\<forall>k < length s. s ! k = expansion_char cfg \<longrightarrow> no_expansion cfg s k (cstr_at s (k + 1))"
  shows "i \<le> length s \<Longrightarrow> prescan cfg s i False = Inr (length s)"
proof (induction "length s - i" arbitrary: i)
  case 0
  then show ?case by (subst prescan.simps) (simp add: byte_at_end)
next
  case (Suc m)
  then have i: "i < length s" by simp
  have c: "byte_at s i = Inr (s ! i)" "s ! i \<noteq> NUL" using i assms(1) by (auto simp: byte_at_nth in_set_conv_nth)
  have cc: "byte_at s (Suc i) = Inr (cstr_at s (i + 1))" using i by (auto simp: byte_at_def cstr_at_def)
  obtain b where b: "at_word_start cfg s i = Inr b" using at_word_start_returns [of i s] i by auto
  have "m = length s - Suc i" "Suc i \<le> length s" using Suc.hyps(2) i by simp_all
  note IH = Suc.hyps(1) [OF this]
  show ?case
    using c cc b IH assms(2) assms(3) i by (subst prescan.simps) auto
qed

lemma single_quoted_open:
  "NUL \<notin> set s \<Longrightarrow> CHR 0x27 \<notin> set (drop i s) \<Longrightarrow> i \<le> length s \<Longrightarrow>
    hist_string_extract_single_quoted s i False = Inr (length s)"
proof (induction "length s - i" arbitrary: i)
  case 0
  then show ?case by (subst hist_string_extract_single_quoted.simps) (simp add: byte_at_end)
next
  case (Suc m)
  then have i: "i < length s" by simp
  have d: "drop i s = s ! i # drop (Suc i) s" by (rule Cons_nth_drop_Suc [OF i, symmetric])
  obtain x where x: "byte_at s (Suc i) = Inr x" using byte_at_ex [of "Suc i" s] i by auto
  have "m = length s - Suc i" "Suc i \<le> length s" using Suc.hyps(2) i by simp_all
  note IH = Suc.hyps(1) [OF this(1) Suc.prems(1) _ this(2)]
  have "s ! i \<noteq> NUL" using Suc.prems(1) i by (metis nth_mem)
  moreover have "s ! i \<noteq> CHR 0x27" using Suc.prems(2) unfolding d by auto
  ultimately show ?case
    using Suc.prems(2) IH x i unfolding d
    by (subst hist_string_extract_single_quoted.simps) (simp add: byte_at_nth)
qed

text \<open>
  a line in which the expansion character stands only where it is not to be expanded (before a blank,
  an equals sign, the end of the line, or where the application's function says so) is returned as it is, with
  the result 0, and nothing else changes. With \<open>history_quotes_inhibit_expansion\<close>, however, a line
  with a single quote that is not closed is read behind its terminator.
\<close>

theorem history_expand_plain:
  assumes "NUL \<notin> set s" and "\<not> quotes_inhibit cfg" and "s = [] \<or> hd s \<noteq> subst_char cfg" and "subst_char cfg \<noteq> NUL"
    and "\<forall>k < length s. s ! k = expansion_char cfg \<longrightarrow> no_expansion cfg s k (cstr_at s (k + 1))"
    and "NUL \<notin> set u" and "CHR 0x27 \<notin> set u"
    and "quotes_inhibit bash" and "CHR 0x27 \<notin> {comment_char bash, expansion_char bash, subst_char bash}"
    and "expansion_char bash \<noteq> NUL"
  shows "history_expand fuel cfg s hs ev = Inr ((0, s), hs, ev) \<and>
    history_expand fuel bash (CHR 0x27 # u) hs ev = Inl Out_Of_Bounds_Read"
proof
  show "history_expand fuel cfg s hs ev = Inr ((0, s), hs, ev)"
  proof (cases "expansion_char cfg = NUL")
    case False
    have c: "byte_at s 0 = Inr (cstr_at s 0)" by (simp add: byte_at_def cstr_at_def)
    have "cstr_at s 0 \<noteq> subst_char cfg" using assms(3,4) by (cases s) (auto simp: cstr_at_def)
    then show ?thesis
      using False c prescan_unexpanded [OF assms(1,2,5), of 0]
      by (simp add: history_expand_def Let_def byte_at_end)
  qed (simp add: history_expand_def)
next
  let ?s = "CHR 0x27 # u"
  have c: "byte_at ?s 0 = Inr (CHR 0x27)" by (simp add: byte_at_def)
  obtain d where d: "byte_at ?s (Suc 0) = Inr d" using byte_at_ex [of 1 ?s] by auto
  have "hist_string_extract_single_quoted ?s (Suc 0) False = Inr (Suc (length u))"
    using single_quoted_open [of ?s 1] assms(6,7) by simp
  moreover have "prescan bash ?s (Suc (Suc (length u))) False = Inl Out_Of_Bounds_Read"
    by (subst prescan.simps) (simp add: byte_at_def)
  ultimately have "prescan bash ?s 0 False = Inl Out_Of_Bounds_Read"
    using c d assms(8,9) by (subst prescan.simps) (auto simp: at_word_start_def dollar_quote_def)
  then show "history_expand fuel bash ?s hs ev = Inl Out_Of_Bounds_Read"
    using c assms(9,10) by (auto simp: history_expand_def Let_def)
qed

theorem history_expand_plain_witness:
  "history_expand 9 default_config ''echo ! a'' (hist_start 0) no_vars = Inr ((0, ''echo ! a''), hist_start 0, no_vars) \<and>
    history_expand 9 (default_config\<lparr>quotes_inhibit := True\<rparr>) (CHR 0x27 # ''a'') (hist_start 0) no_vars =
      Inl Out_Of_Bounds_Read"
proof -
  have "\<forall>k < length ''echo ! a''. ''echo ! a'' ! k = expansion_char default_config \<longrightarrow>
      no_expansion default_config ''echo ! a'' k (cstr_at ''echo ! a'' (k + 1))"
    by (simp add: default_config_def no_expansion_def cstr_at_def c_member_def less_Suc_eq)
  then show ?thesis
    using history_expand_plain [of "''echo ! a''" default_config "''a''" "default_config\<lparr>quotes_inhibit := True\<rparr>" 9 "hist_start 0" no_vars]
    by (simp add: default_config_def)
qed

section \<open>The output block\<close>

text \<open>The block holds the text so far and its terminator.\<close>

definition holds :: "out_buf \<Rightarrow> string \<Rightarrow> bool" where
  "holds out t \<longleftrightarrow>
     (case out of (result, result_len, j) \<Rightarrow>
      length result = result_len \<and> j = length t \<and> j < result_len \<and> take (Suc j) result = t @ [NUL])"

lemma put_terminated:
  assumes "j + length bs < length blk" and "take j blk = t" and "length t = j"
  shows "put_bytes j (bs @ [NUL]) blk = Inr (t @ bs @ NUL # drop (Suc (j + length bs)) blk)"
  using assms by (simp add: put_bytes_def)

lemma ADD_STRING_holds:
  assumes "holds out t"
  shows "\<exists>out'. ADD_STRING jk s out = Inr out' \<and> holds out' (t @ s)"
proof -
  obtain result n j where out: "out = (result, n, j)" by (cases out)
  have h: "length result = n" "j = length t" "j < n" "take (Suc j) result = t @ [NUL]"
    using assms by (auto simp: holds_def out)
  have tj: "take j result = t" using h(2) arg_cong [OF h(4), of "take j"] by (simp add: min_def)
  define len where "len = (if j + length s \<ge> n then n + 128 * ((j + length s - n) div 128 + 1) else n)"
  define blk where "blk = (if j + length s \<ge> n then xrealloc jk len result else result)"
  have len: "j + length s < len" "n \<le> len" unfolding len_def by (auto split: if_splits)
  have blk: "length blk = len" "take j blk = t"
    using h tj len by (auto simp: blk_def len_def xrealloc_facts)
  let ?b = "t @ s @ NUL # drop (Suc (j + length s)) blk"
  have "put_bytes j (s @ [NUL]) blk = Inr ?b"
    by (rule put_terminated) (use len blk h in auto)
  moreover have "ADD_STRING jk s out = bind_run (put_bytes (j + length s - length s) (s @ [NUL]) blk)
      (\<lambda>result. Inr (result, len, j + length s))"
    unfolding out ADD_STRING_def Let_def prod.case len_def blk_def by (rule refl)
  ultimately have "ADD_STRING jk s out = Inr (?b, len, j + length s)" by simp
  moreover have "holds (?b, len, j + length s) (t @ s)"
    using len blk h by (simp add: holds_def)
  ultimately show ?thesis by blast
qed

lemma ADD_CHAR_holds:
  assumes "holds out t"
  shows "\<exists>out'. ADD_CHAR jk c out = Inr out' \<and> holds out' (t @ [c])"
proof -
  obtain result n j where out: "out = (result, n, j)" by (cases out)
  have h: "length result = n" "j = length t" "j < n" "take (Suc j) result = t @ [NUL]"
    using assms by (auto simp: holds_def out)
  have tj: "take j result = t" using h(2) arg_cong [OF h(4), of "take j"] by (simp add: min_def)
  define len where "len = (if j \<ge> n - 1 then n + 64 else n)"
  define blk where "blk = (if j \<ge> n - 1 then xrealloc jk len result else result)"
  have len: "Suc j < len" "n \<le> len" using h(3) unfolding len_def by auto
  have blk: "length blk = len" "take j blk = t"
    using h tj len by (auto simp: blk_def len_def xrealloc_facts)
  have p: "put_bytes j [c] blk = Inr (t @ c # drop (Suc j) blk)"
    "put_bytes (Suc j) [NUL] (t @ c # drop (Suc j) blk) = Inr (t @ c # NUL # drop (Suc (Suc j)) blk)"
    using len blk h(2) by (simp_all add: put_bytes_def)
  have "ADD_CHAR jk c out = bind_run (put_bytes j [c] blk) (\<lambda>result.
      bind_run (put_bytes (j + 1) [NUL] result) (\<lambda>result. Inr (result, len, j + 1)))"
    unfolding out ADD_CHAR_def Let_def prod.case len_def blk_def by (rule refl)
  then have "ADD_CHAR jk c out = Inr (t @ c # NUL # drop (Suc (Suc j)) blk, len, j + 1)" using p by simp
  moreover have "holds (t @ c # NUL # drop (Suc (Suc j)) blk, len, j + 1) (t @ [c])"
    using len blk h by (simp add: holds_def)
  ultimately show ?thesis by blast
qed

lemma holds_string: "holds (result, n, j) t \<Longrightarrow> NUL \<notin> set t \<Longrightarrow> string_in result = Inr t"
proof -
  assume h: "holds (result, n, j) t" and nul: "NUL \<notin> set t"
  have "take (Suc j) result = t @ [NUL]" using h by (auto simp: holds_def)
  then have "result = t @ NUL # drop (Suc j) result"
    by (metis append.assoc append_Cons append_Nil append_take_drop_id)
  then show ?thesis using cstr_of_append_NUL [OF nul, of "drop (Suc j) result"] by (simp add: string_in_def)
qed

lemma holds_start: "holds (NUL # replicate 255 jk, 256, 0) []"
  by (simp add: holds_def)

section \<open>Ordinary text\<close>

definition ordinary :: "hist_config \<Rightarrow> char \<Rightarrow> bool" where
  "ordinary cfg c \<longleftrightarrow> c \<notin> {NUL, expansion_char cfg, comment_char cfg, CHR 0x5C, CHR 0x27}"

lemma expand_loop_ordinary:
  assumes "\<forall>c \<in> set u. ordinary cfg c"
  shows "holds out t \<Longrightarrow> \<not> passc fl \<Longrightarrow> \<exists>out' fl'.
    expand_loop (length u + n) fuel cfg (a @ u @ r) (length a) out fl hs ev =
      expand_loop n fuel cfg (a @ u @ r) (length a + length u) out' fl' hs ev \<and>
    holds out' (t @ u) \<and> \<not> passc fl' \<and> modified fl' = modified fl \<and> only_printing fl' = only_printing fl"
  using assms
proof (induction u arbitrary: a out t fl)
  case (Cons c u)
  obtain out1 where out1: "ADD_CHAR (fresh_byte cfg) c out = Inr out1" "holds out1 (t @ [c])"
    using ADD_CHAR_holds [OF Cons.prems(1)] by blast
  define fl1 where "fl1 = (if c = CHR 0x22 then fl\<lparr>dquoted := \<not> dquoted fl\<rparr> else fl)"
  have fl1: "\<not> passc fl1" "modified fl1 = modified fl" "only_printing fl1 = only_printing fl"
    using Cons.prems(2) by (simp_all add: fl1_def)
  have c: "ordinary cfg c" using Cons.prems(3) by simp
  have "expand_loop (length (c # u) + n) fuel cfg (a @ (c # u) @ r) (length a) out fl hs ev =
      expand_loop (length u + n) fuel cfg (a @ (c # u) @ r) (Suc (length a)) out1 fl1 hs ev"
    using c out1(1) Cons.prems(2) by (auto simp: ordinary_def nth_append fl1_def Let_def)
  with Cons.IH [OF out1(2) fl1(1), of "a @ [c]"] Cons.prems(3) fl1(2,3) show ?case by simp
qed auto

lemma prescan_ordinary:
  assumes "\<forall>c \<in> set u. ordinary cfg c"
  shows "\<exists>dq. prescan cfg (a @ u @ r) (length a) dquote = prescan cfg (a @ u @ r) (length a + length u) dq"
  using assms
proof (induction u arbitrary: a dquote)
  case (Cons c u)
  let ?s = "a @ (c # u) @ r"
  have c: "ordinary cfg c" "byte_at ?s (length a) = Inr c" using Cons.prems by (simp_all add: byte_at_def nth_append)
  obtain d where d: "byte_at ?s (Suc (length a)) = Inr d" using byte_at_ex [of "Suc (length a)" ?s] by auto
  obtain b where b: "at_word_start cfg ?s (length a) = Inr b" using at_word_start_returns [of "length a" ?s] by auto
  have "\<exists>dq. prescan cfg ?s (length a) dquote = prescan cfg ?s (Suc (length a)) dq"
    using c d b by (subst prescan.simps) (auto simp: ordinary_def)
  then obtain dq where "prescan cfg ?s (length a) dquote = prescan cfg ?s (Suc (length a)) dq" ..
  with Cons.IH [of "a @ [c]" dq] Cons.prems show ?case by auto
qed auto

section \<open>One event in a line\<close>

definition event_search ::
    "hist_config \<Rightarrow> char \<Rightarrow> hist_state \<Rightarrow> expand_vars \<Rightarrow> string \<Rightarrow> nat \<Rightarrow> char \<Rightarrow>
     (string option \<times> nat \<times> hist_state \<times> expand_vars) run" where
  "event_search cfg q hs ev s i c =
     (let substring_okay = c = CHR ''?''; i = (if substring_okay then i + 1 else i);
          e = skip_while (\<lambda>c. c \<noteq> NUL \<and> \<not> ends_search cfg substring_okay q c) s i;
          temp = history_substring s i e in
     bind_run (byte_at s e) (\<lambda>c.
     let i = (if substring_okay \<and> c = CHR ''?'' then e + 1 else e) in
     bind_run
       (if temp = [] \<and> substring_okay then
          (case search_string ev of
             None \<Rightarrow> Inr (fail_search hs ev)
           | Some t \<Rightarrow> search_loop (nat (history_length hs) + 2) cfg substring_okay t hs ev)
        else search_loop (nat (history_length hs) + 2) cfg substring_okay temp hs ev) (\<lambda>(r, hs, ev).
     Inr (r, i, hs, ev))))"

definition moved :: "nat \<Rightarrow> string option \<times> nat \<times> hist_state \<times> expand_vars \<Rightarrow> (string option \<times> nat \<times> hist_state \<times> expand_vars) run" where
  "moved n r = (case r of (e, i, hs, ev) \<Rightarrow> Inr (e, n + i, hs, ev))"

lemma event_search_shift:
  "event_search cfg q hs ev (a @ s) (length a + i) c = bind_run (event_search cfg q hs ev s i c) (moved (length a))"
proof -
  define sub where "sub \<longleftrightarrow> c = CHR ''?''"
  define k where "k = (if sub then i + 1 else i)"
  define e where "e = skip_while (\<lambda>c. c \<noteq> NUL \<and> \<not> ends_search cfg sub q c) s k"
  define temp where "temp = history_substring s k e"
  define run where "run = (if temp = [] \<and> sub then
          (case search_string ev of
             None \<Rightarrow> Inr (fail_search hs ev)
           | Some t \<Rightarrow> search_loop (nat (history_length hs) + 2) cfg sub t hs ev)
        else search_loop (nat (history_length hs) + 2) cfg sub temp hs ev)"
  have k: "(if sub then length a + i + 1 else length a + i) = length a + k" by (simp add: k_def)
  have e: "skip_while (\<lambda>c. c \<noteq> NUL \<and> \<not> ends_search cfg sub q c) (a @ s) (length a + k) = length a + e"
    by (simp add: skip_while_def e_def)
  have temp: "history_substring (a @ s) (length a + k) (length a + e) = temp"
    by (simp add: history_substring_def temp_def)
  have left: "event_search cfg q hs ev (a @ s) (length a + i) c = bind_run (byte_at s e) (\<lambda>c.
      bind_run run (\<lambda>(r, hs, ev). Inr (r, if sub \<and> c = CHR ''?'' then length a + e + 1 else length a + e, hs, ev)))"
    unfolding event_search_def Let_def sub_def [symmetric] k e temp byte_at_append run_def [symmetric] by (rule refl)
  have right: "event_search cfg q hs ev s i c = bind_run (byte_at s e) (\<lambda>c.
      bind_run run (\<lambda>(r, hs, ev). Inr (r, if sub \<and> c = CHR ''?'' then e + 1 else e, hs, ev)))"
    unfolding event_search_def Let_def sub_def [symmetric] k_def [symmetric] e_def [symmetric] temp_def [symmetric]
      run_def [symmetric] by (rule refl)
  show ?thesis
    unfolding left right by (cases "byte_at s e"; cases run) (auto simp: moved_def)
qed

lemma event_shift:
  "get_history_event cfg (a @ s) (length a) q hs ev = bind_run (get_history_event cfg s 0 q hs ev) (moved (length a))"
proof -
  define after where "after u neg i c =
    (if is_digit c then
       (case read_number u i of (n, i) \<Rightarrow>
        let which = (if neg then wrap32 (wrap32 (history_length hs + history_base hs) - n) else n) in
        bind_run (return_entry which hs) (\<lambda>e. Inr (e, i, hs, ev)))
     else event_search cfg q hs ev u i c)" for u neg i c
  have num: "read_number (a @ s) (length a + k) = (fst (read_number s k), length a + snd (read_number s k))" for k
    by (simp add: read_number_def Let_def)
  have after: "after (a @ s) neg (length a + i) c = bind_run (after s neg i c) (moved (length a))" for neg i c
    unfolding after_def num event_search_shift Let_def bind_run_assoc
    by (simp add: bind_run_assoc moved_def case_prod_beta)
  have run: "get_history_event cfg u k q hs ev =
      bind_run (byte_at u k) (\<lambda>c.
      if c \<noteq> expansion_char cfg then Inr (None, k, hs, ev)
      else bind_run (byte_at u (k + 1)) (\<lambda>c.
      if c = expansion_char cfg then
        bind_run (return_entry (wrap32 (history_base hs + (history_length hs - 1))) hs) (\<lambda>e. Inr (e, k + 1 + 1, hs, ev))
      else bind_run (byte_at u (if c = CHR ''-'' then k + 1 + 1 else k + 1)) (\<lambda>d.
        after u (c = CHR ''-'') (if c = CHR ''-'' then k + 1 + 1 else k + 1) d)))" for u k
    unfolding get_history_event_def after_def event_search_def Let_def by (rule refl)
  have at: "byte_at (a @ s) (length a + 0) = byte_at s 0" "byte_at (a @ s) (length a + 0 + 1) = byte_at s (0 + 1)"
    "byte_at (a @ s) (length a + 0 + 1 + 1) = byte_at s (0 + 1 + 1)"
    using byte_at_append [of a s 0] byte_at_append [of a s 1] byte_at_append [of a s "Suc 1"] by simp_all
  note after' = after [of _ "Suc 0"] after [of _ "Suc (Suc 0)"]
  show ?thesis
    unfolding run [of "a @ s" "length a"] run [of s 0]
    using at after'
    by (cases "byte_at s 0"; cases "byte_at s (Suc 0)"; cases "byte_at s (Suc (Suc 0))")
      (simp_all add: bind_run_assoc, simp_all add: moved_def)
qed

lemma hist_error_text:
  assumes "drop start s = w @ r" and "start \<le> length s" and "NUL \<notin> set w"
  shows "\<exists>b. hist_error j s start (start + length w) et = Inr b \<and>
    string_in b = Inr (w @ '': '' @ fst (error_text et))"
proof -
  let ?m = "fst (error_text et)" and ?n = "length w"
  have el: "snd (error_text et) = length ?m" and nul: "NUL \<notin> set ?m" by (cases et; simp)+
  have p1: "put_bytes 0 (take ?n (drop start s @ replicate ?n NUL)) (replicate (?n + length ?m + 3) j) =
      Inr (w @ replicate (length ?m + 3) j)"
    unfolding assms(1) by (simp add: put_bytes_def)
  have p2: "put_bytes ?n '': '' (w @ replicate (length ?m + 3) j) = Inr (w @ '': '' @ replicate (length ?m + 1) j)"
    by (simp add: put_bytes_def drop_Cons' numeral_3_eq_3)
  have p3: "put_bytes (?n + 2) (?m @ [NUL]) (w @ '': '' @ replicate (length ?m + 1) j) = Inr (w @ '': '' @ ?m @ [NUL])"
    by (simp add: put_bytes_def)
  have "hist_error j s start (start + ?n) et = Inr (w @ '': '' @ ?m @ [NUL])"
    using assms(2) p1 p2 p3 by (simp add: hist_error_def Let_def el)
  moreover have "string_in (w @ '': '' @ ?m @ [NUL]) = Inr (w @ '': '' @ ?m)"
    using cstr_of_append_NUL [of "w @ '': '' @ ?m" "[]"] assms(3) nul by (simp add: string_in_def)
  ultimately show ?thesis by blast
qed

text \<open>What may follow an event so that no word designator and no modifier belongs to it.\<close>

definition ends_event :: "string \<Rightarrow> bool" where
  "ends_event b \<longleftrightarrow> b = [] \<or> hd b \<notin> set '':%*$-^''"

lemma ends_event_byte: "ends_event b \<Longrightarrow> \<exists>c. byte_at (p @ b) (length p) = Inr c \<and> c \<notin> set '':%*$-^''"
  by (cases b) (auto simp: ends_event_def byte_at_def)

lemma no_word_specifier:
  assumes "byte_at s i = Inr c" and "c \<notin> set '':%*$-^''"
  shows "get_history_word_specifier cfg s event i ev = Inr (No_Spec, i)"
    "modifier_loop (Suc n) fuel cfg s start i md = Inr (Mod_Next md i)"
  using assms by (simp_all add: get_history_word_specifier_def)

definition quote_before :: "string \<Rightarrow> char" where
  "quote_before a = (if a \<noteq> [] \<and> last a \<in> {CHR 0x27, CHR 0x22} then last a else NUL)"

lemma internal_event:
  assumes "d \<noteq> []" and "\<not> c_member (hd d) '':$*%^''" and "hd d \<noteq> CHR ''#''" and "ends_event b"
    and "get_history_event cfg (expansion_char cfg # d @ b) 0 (quote_before a) hs ev = Inr (e, 1 + length d, hs', ev')"
    and "NUL \<notin> set (expansion_char cfg # d)"
  shows "history_expand_internal fuel cfg (a @ expansion_char cfg # d @ b) (length a) cl hs ev =
    Inr (case e of None \<Rightarrow> Expand_Error ((expansion_char cfg # d) @ '': event not found'')
         | Some l \<Rightarrow> Expanded l (length a + length d) 0, hs', ev')"
proof -
  let ?s = "a @ expansion_char cfg # d @ b" and ?i = "length a + (1 + length d)"
  have hd: "byte_at ?s (Suc (length a)) = Inr (hd d)"
    using assms(1) by (cases d) (simp_all add: byte_at_def nth_append)
  have "(if length a > 0 then byte_at ?s (length a - 1) else Inr NUL) = Inr (if a = [] then NUL else last a)"
    by (cases a rule: rev_cases) (simp_all add: byte_at_def nth_append)
  then have q: "bind_run (if length a > 0 then byte_at ?s (length a - 1) else Inr NUL) (\<lambda>q.
      get_history_event cfg ?s (length a) (if q = CHR 0x27 \<or> q = CHR 0x22 then q else NUL) hs ev) =
      Inr (e, ?i, hs', ev')"
    using event_shift [of cfg a "expansion_char cfg # d @ b"] assms(5) by (auto simp: quote_before_def moved_def)
  have chosen: "choose_event cfg ?s (length a) cl hs ev = Inr (e, ?i, hs', ev')"
    using hd q assms(2,3) by (simp add: choose_event_def)
  show ?thesis
  proof (cases e)
    case None
    have "drop (length a) ?s = (expansion_char cfg # d) @ b" "length a \<le> length ?s" by simp_all
    from hist_error_text [OF this assms(6), of "fresh_byte cfg" EVENT_NOT_FOUND] obtain m
      where "hist_error (fresh_byte cfg) ?s (length a) ?i EVENT_NOT_FOUND = Inr m"
        "string_in m = Inr ((expansion_char cfg # d) @ '': event not found'')" by auto
    then show ?thesis using chosen None by (simp add: history_expand_internal_def)
  next
    case (Some l)
    obtain c where c: "byte_at ?s ?i = Inr c" "c \<notin> set '':%*$-^''"
      using ends_event_byte [OF assms(4), of "a @ expansion_char cfg # d"] by auto
    note spec = no_word_specifier [OF c]
    have two: "length ?s + 2 = Suc (length ?s + 1)" by simp
    show ?thesis
      using chosen Some spec(1) spec(2) [of "length ?s + 1"]
      unfolding history_expand_internal_def two
      by (simp add: quoted_result_def Let_def del: modifier_loop.simps)
  qed
qed

lemma expand_loop_event:
  assumes "holds out t" and "NUL \<notin> set t" and "\<not> passc fl" and "length a < length s" and "s ! length a = expansion_char cfg"
    and "\<not> no_expansion cfg s (length a) (cstr_at s (Suc (length a)))"
    and "history_expand_internal fuel cfg s (length a) t hs ev = Inr (r, hs', ev')"
  shows "case r of
      Expand_Error msg \<Rightarrow> expand_loop (Suc n) fuel cfg s (length a) out fl hs ev = Inr (Failed msg, hs', ev')
    | Expanded temp eindex k \<Rightarrow> \<exists>out'. holds out' (t @ temp) \<and>
        expand_loop (Suc n) fuel cfg s (length a) out fl hs ev =
          expand_loop n fuel cfg s (Suc eindex) out' (fl\<lparr>modified := True, only_printing := (k = 1)\<rparr>) hs' ev'"
proof -
  obtain result len j where out: "out = (result, len, j)" by (cases out)
  have str: "string_in result = Inr t" using holds_string assms(1,2) by (auto simp: out)
  have cc: "byte_at s (Suc (length a)) = Inr (cstr_at s (Suc (length a)))"
    using assms(4) by (auto simp: byte_at_def cstr_at_def)
  show ?thesis
  proof (cases r)
    case (Expand_Error msg)
    then show ?thesis using assms(3-7) str cc by (simp add: out Let_def)
  next
    case (Expanded temp eindex k)
    obtain out' where "(if temp \<noteq> [] then ADD_STRING (fresh_byte cfg) temp out else Inr out) = Inr out'" "holds out' (t @ temp)"
      using ADD_STRING_holds [OF assms(1), of "fresh_byte cfg" temp] assms(1) by (cases "temp = []") auto
    moreover from this(1) have "expand_loop (Suc n) fuel cfg s (length a) out fl hs ev =
        expand_loop n fuel cfg s (Suc eindex) out' (fl\<lparr>modified := True, only_printing := (k = 1)\<rparr>) hs' ev'"
      using assms(3-7) str cc Expanded by (auto simp: out Let_def)
    ultimately show ?thesis unfolding Expanded expansion.case by blast
  qed
qed

text \<open>A fault in the expansion at the start of the line.\<close>

lemma expand_loop_fault:
  assumes "s \<noteq> []" and "s ! 0 = expansion_char cfg" and "\<not> no_expansion cfg s 0 (cstr_at s 1)" and "\<not> passc fl"
    and "history_expand_internal fuel cfg s 0 [] hs ev = Inl f"
  shows "expand_loop (Suc n) fuel cfg s 0 (NUL # replicate 255 jk, 256, 0) fl hs ev = Inl f"
proof -
  have "string_in (NUL # replicate 255 jk) = Inr []" by (rule holds_string [OF holds_start]) simp
  moreover have "byte_at s (Suc 0) = Inr (cstr_at s (Suc 0))" using assms(1) by (cases s) (auto simp: byte_at_def cstr_at_def)
  ultimately show ?thesis using assms by (simp add: Let_def)
qed

text \<open>The whole line, once it is known what the expansion in it gives.\<close>

lemma expand_around:
  assumes "\<forall>c \<in> set a \<union> set b. ordinary cfg c" and "s = a @ expansion_char cfg # d @ b" and "length s < fuel"
    and "\<not> no_expansion cfg s (length a) (cstr_at s (Suc (length a)))"
    and "history_expand_internal fuel cfg s (length a) a hs ev = Inr (r, hs', ev')"
    and "\<forall>l k n. r = Expanded l k n \<longrightarrow> NUL \<notin> set l \<and> k = length a + length d \<and> n = 0"
    and "expansion_char cfg \<noteq> NUL"
  defines "run \<equiv> bind_run (expand_loop fuel fuel cfg s 0 (NUL # replicate 255 (fresh_byte cfg), 256, 0)
      \<lparr>passc = False, dquoted = False, modified = False, only_printing = False\<rparr> hs ev) (\<lambda>(r, hs, ev).
    case r of
      Failed msg \<Rightarrow> Inr ((-1, msg), hs, ev)
    | Output (result, result_len, j) is_modified printing \<Rightarrow>
        bind_run (string_in result) (\<lambda>line. Inr ((if printing then 2 else if is_modified then 1 else 0, line), hs, ev)))"
  shows "run = Inr ((case r of Expand_Error msg \<Rightarrow> (-1, msg) | Expanded l k n \<Rightarrow> (1, a @ l @ b)), hs', ev')"
proof -
  define m where "m = fuel - length s"
  have m: "fuel = length a + Suc (length d + (length b + m))" "0 < m"
    using assms(3) by (simp_all add: m_def assms(2))
  define fl where "fl = \<lparr>passc = False, dquoted = False, modified = False, only_printing = False\<rparr>"
  have ord: "\<forall>c \<in> set a. ordinary cfg c" "\<forall>c \<in> set b. ordinary cfg c" using assms(1) by auto
  then have nul: "NUL \<notin> set a" "NUL \<notin> set b" by (auto simp: ordinary_def)
  obtain out1 fl1 where one: "expand_loop fuel fuel cfg s 0 (NUL # replicate 255 (fresh_byte cfg), 256, 0) fl hs ev =
      expand_loop (Suc (length d + (length b + m))) fuel cfg s (length a) out1 fl1 hs ev"
    "holds out1 a" "\<not> passc fl1" "\<not> modified fl1" "\<not> only_printing fl1"
    using expand_loop_ordinary [OF ord(1) holds_start [of "fresh_byte cfg"], where fl = fl and n = "Suc (length d + (length b + m))" and fuel = fuel and a = "[]"
      and r = "expansion_char cfg # d @ b" and hs = hs and ev = ev, folded m(1)]
    by (auto simp: assms(2) fl_def simp del: expand_loop.simps)
  have at: "length a < length s" "s ! length a = expansion_char cfg" by (simp_all add: assms(2))
  note step = expand_loop_event [OF one(2) nul(1) one(3) at assms(4,5), of "length d + (length b + m)"]
  show ?thesis
  proof (cases r)
    case (Expand_Error msg)
    then show ?thesis using step one(1) by (simp add: run_def fl_def del: expand_loop.simps)
  next
    case (Expanded l k n)
    then have l: "NUL \<notin> set l" "k = length a + length d" "n = 0" using assms(6) by auto
    define fl2 where "fl2 = fl1\<lparr>modified := True, only_printing := False\<rparr>"
    obtain out2 where two: "holds out2 (a @ l)"
      "expand_loop (Suc (length d + (length b + m))) fuel cfg s (length a) out1 fl1 hs ev =
        expand_loop (length d + (length b + m)) fuel cfg s (Suc k) out2 fl2 hs' ev'"
      using step Expanded l by (auto simp: fl2_def simp del: expand_loop.simps)
    have s: "(a @ expansion_char cfg # d) @ b @ [] = s" "Suc k = length (a @ expansion_char cfg # d)"
      "length d + (length b + m) = length b + (length d + m)"
      by (simp_all add: assms(2) l)
    have "\<not> passc fl2" using one(3) by (simp add: fl2_def)
    with expand_loop_ordinary [OF ord(2) two(1), where fl = fl2 and n = "length d + m" and fuel = fuel
      and a = "a @ expansion_char cfg # d" and r = "[]" and hs = hs' and ev = ev'] s
    obtain out3 fl3 where three: "expand_loop (length d + (length b + m)) fuel cfg s (Suc k) out2 fl2 hs' ev' =
        expand_loop (length d + m) fuel cfg s (length s) out3 fl3 hs' ev'"
      "holds out3 ((a @ l) @ b)" "modified fl3" "\<not> only_printing fl3"
      by (auto simp: fl2_def assms(2) l add.assoc simp del: expand_loop.simps)
    obtain x where x: "length d + m = Suc x" using m(2) by (cases "length d + m") auto
    obtain result len j where out3: "out3 = (result, len, j)" by (cases out3)
    have "string_in result = Inr (a @ l @ b)"
      using holds_string [of result len j "(a @ l) @ b"] three(2) nul l(1) by (simp add: out3)
    then show ?thesis
      using one(1) two(2) three out3 Expanded x by (simp add: run_def fl_def [symmetric])
  qed
qed

lemma prescan_stops:
  assumes "\<forall>c \<in> set a. ordinary cfg c" and "s = a @ expansion_char cfg # r" and "expansion_char cfg \<notin> {NUL, comment_char cfg}"
    and "\<not> no_expansion cfg s (length a) (cstr_at s (Suc (length a)))"
  shows "prescan cfg s 0 False = Inr (length a)"
proof -
  obtain dq where dq: "prescan cfg s 0 False = prescan cfg s (length a) dq"
    using prescan_ordinary [OF assms(1), where a = "[]" and r = "expansion_char cfg # r" and dquote = False]
    by (auto simp: assms(2))
  have "byte_at s (length a) = Inr (expansion_char cfg)" by (simp add: assms(2) byte_at_def)
  moreover have "byte_at s (Suc (length a)) = Inr (cstr_at s (Suc (length a)))"
    by (auto simp: assms(2) byte_at_def cstr_at_def)
  moreover obtain b where "at_word_start cfg s (length a) = Inr b"
    using at_word_start_returns [of "length a" s] by (auto simp: assms(2))
  ultimately have "prescan cfg s (length a) dq = Inr (length a)"
    using assms(3,4) by (subst prescan.simps) auto
  with dq show ?thesis by simp
qed

text \<open>
  C14: an event in a line. When ordinary text stands around an event designator, the designator is
  replaced by the line it stands for, the text around it is kept, the output never leaves its block however
  long the line is, and the result is 1; when no line is found the result is -1 with the designator
  and the message. What the designator stands for does not depend on the text before it.
\<close>

theorem history_expand_event:
  assumes "s = a @ expansion_char cfg # d @ b" and "\<forall>c \<in> set a \<union> set b. ordinary cfg c" and "length s < fuel"
    and "d \<noteq> []" and "\<not> c_member (hd d) '':$*%^''" and "hd d \<noteq> CHR ''#''" and "NUL \<notin> set d" and "ends_event b"
    and "expansion_char cfg \<notin> {NUL, comment_char cfg}" and "hd s \<noteq> subst_char cfg"
    and "\<not> no_expansion cfg s (length a) (hd d)"
    and "get_history_event cfg (expansion_char cfg # d @ b) 0 (quote_before a) hs ev = Inr (e, 1 + length d, hs', ev')"
    and "\<forall>l. e = Some l \<longrightarrow> NUL \<notin> set l"
  shows "history_expand fuel cfg s hs ev =
    Inr (case e of None \<Rightarrow> (-1, expansion_char cfg # d @ '': event not found'') | Some l \<Rightarrow> (1, a @ l @ b), hs', ev')"
proof -
  have ne: "\<not> no_expansion cfg s (length a) (cstr_at s (Suc (length a)))"
    using assms(4,11) by (cases d) (auto simp: assms(1) cstr_at_def nth_append)
  have nul: "NUL \<notin> set (expansion_char cfg # d)" using assms(7,9) by auto
  define r where "r = (case e of None \<Rightarrow> Expand_Error ((expansion_char cfg # d) @ '': event not found'')
         | Some l \<Rightarrow> Expanded l (length a + length d) 0)"
  have int: "history_expand_internal fuel cfg s (length a) a hs ev = Inr (r, hs', ev')"
    unfolding assms(1) r_def by (rule internal_event [OF assms(4-6,8,12) nul])
  have exp: "\<forall>l k n. r = Expanded l k n \<longrightarrow> NUL \<notin> set l \<and> k = length a + length d \<and> n = 0"
    using assms(13) by (auto simp: r_def split: option.splits)
  have nz: "expansion_char cfg \<noteq> NUL" using assms(9) by simp
  have start: "byte_at s 0 = Inr (hd s)" by (cases s) (simp_all add: byte_at_def assms(1))
  have ord: "\<forall>c \<in> set a. ordinary cfg c" using assms(2) by simp
  have stop: "prescan cfg s 0 False = Inr (length a)" by (rule prescan_stops [OF ord assms(1,9) ne])
  have "byte_at s (length a) = Inr (expansion_char cfg)" by (simp add: assms(1) byte_at_def)
  then have "history_expand fuel cfg s hs ev =
      Inr ((case r of Expand_Error msg \<Rightarrow> (-1, msg) | Expanded l k n \<Rightarrow> (1, a @ l @ b)), hs', ev')"
    using start stop nz assms(10) expand_around [OF assms(2,1,3) ne int exp nz]
    unfolding history_expand_def Let_def by simp
  then show ?thesis by (cases e) (simp_all add: r_def)
qed

theorem history_expand_event_witness:
  "\<exists>hs. history_expand 99 default_config ''sudo !! &'' hs no_vars = Inr ((1, ''sudo cp a b &''), hs, no_vars)"
proof -
  obtain hs where hs: "hist_inv hs" "history_base hs = 1" "history_offset hs = 3"
    "history_lines hs = [''cc a.c'', ''ls'', ''cp a b'']" by (rule three_lines)
  have len: "history_length hs = 3" using lines_length [OF hs(1)] hs(4) by simp
  have ec: "expansion_char default_config = CHR ''!''" by (simp add: default_config_def)
  have "get_history_event default_config (CHR ''!'' # CHR ''!'' # '' &'') 0 NUL hs no_vars =
      Inr (numbered hs (history_length hs - 1), 2, hs, no_vars)"
    using event_last [OF hs(1), of default_config] by (simp add: ec hs len)
  then have ev: "get_history_event default_config (expansion_char default_config # ''!'' @ '' &'') 0
      (quote_before ''sudo '') hs no_vars = Inr (Some ''cp a b'', 1 + length ''!'', hs, no_vars)"
    by (simp add: ec len hs(4) numbered_def quote_before_def)
  have "history_expand 99 default_config ''sudo !! &'' hs no_vars =
      Inr (case Some ''cp a b'' of None \<Rightarrow> (-1, expansion_char default_config # ''!'' @ '': event not found'')
           | Some l \<Rightarrow> (1, ''sudo '' @ l @ '' &''), hs, no_vars)"
  proof (rule history_expand_event [OF _ _ _ _ _ _ _ _ _ _ _ ev])
    show "''sudo !! &'' = ''sudo '' @ expansion_char default_config # ''!'' @ '' &''" by (simp add: ec)
  qed (auto simp: default_config_def ordinary_def c_member_def ends_event_def no_expansion_def)
  then show ?thesis by auto
qed

end
