(* ===== verification/Hist_Quick_Spec.thy ===== *)
theory Hist_Quick_Spec
  imports Hist_Line_Spec
begin

text \<open>
  The quick substitution \<open>^old^new^\<close> of \<open>history_expand\<close>, from the typed line through the event, the
  modifier and the substitution loop to the output.
\<close>

section \<open>Reading the pattern\<close>

definition pattern_text :: "char \<Rightarrow> string \<Rightarrow> bool" where
  "pattern_text sc p \<longleftrightarrow> NUL \<notin> set p \<and> sc \<notin> set p \<and> CHR 0x5C \<notin> set p"

lemma drop_byte: "drop i s = c # u \<Longrightarrow> byte_at s i = Inr c \<and> drop (Suc i) s = u \<and> i < length s"
  using nth_via_drop [of i s c u] by (cases "i < length s") (auto simp: byte_at_nth drop_Suc_tl)

lemma drop_byte_end: "drop i s = [] \<Longrightarrow> i \<le> length s \<Longrightarrow> byte_at s i = Inr NUL"
  by (simp add: byte_at_end)

lemma pattern_end_text:
  "drop i s = p @ r \<Longrightarrow> i \<le> length s \<Longrightarrow> pattern_text sc p \<Longrightarrow> r = [] \<or> hd r = sc \<Longrightarrow>
    pattern_end s sc i = Inr (i + length p)"
proof (induction p arbitrary: i)
  case Nil
  then show ?case
    using drop_byte_end [of i s] drop_byte [of i s sc "tl r"] by (subst pattern_end.simps) (cases r; auto)
next
  case (Cons c p)
  have c: "byte_at s i = Inr c" "drop (Suc i) s = p @ r" "i < length s" using drop_byte [of i s c "p @ r"] Cons.prems by auto
  obtain d where d: "byte_at s (Suc i) = Inr d" using byte_at_ex [of "Suc i" s] c(3) by auto
  have "pattern_end s sc (Suc i) = Inr (Suc i + length p)"
    using Cons.IH [OF c(2)] c(3) Cons.prems by (simp add: pattern_text_def)
  then show ?case using c d Cons.prems(3) by (subst pattern_end.simps) (auto simp: pattern_text_def)
qed

lemma unquoted_text:
  "drop k s = p @ r \<Longrightarrow> pattern_text sc p \<Longrightarrow> unquoted s sc k (k + length p) = Inr p"
proof (induction p arbitrary: k)
  case Nil
  then show ?case by (subst unquoted.simps) simp
next
  case (Cons c p)
  have c: "byte_at s k = Inr c" "drop (Suc k) s = p @ r" "k < length s" using drop_byte [of k s c "p @ r"] Cons.prems by auto
  obtain d where d: "byte_at s (Suc k) = Inr d" using byte_at_ex [of "Suc k" s] c(3) by auto
  have "unquoted s sc (Suc k) (Suc k + length p) = Inr p"
    using Cons.IH [OF c(2)] Cons.prems by (simp add: pattern_text_def)
  then show ?case using c d Cons.prems(2) by (subst unquoted.simps) (auto simp: pattern_text_def)
qed

lemma get_pattern_text:
  assumes "drop i s = p @ r" and "i \<le> length s" and "pattern_text sc p" and "r = [] \<or> hd r = sc" and "sc \<noteq> NUL"
    and "p \<noteq> [] \<or> is_rhs"
  shows "get_subst_pattern j s i sc is_rhs = Inr (Some p, i + length p + length (take 1 r))"
proof -
  have len: "i + length p \<le> length s" using arg_cong [OF assms(1), of length] assms(2) by simp
  have d: "drop (i + length p) s = r" using arg_cong [OF assms(1), of "drop (length p)"] by (simp add: add.commute)
  have "\<exists>c. byte_at s (i + length p) = Inr c \<and> (if c = NUL then r = [] else r \<noteq> [])"
    using drop_byte_end [of "i + length p" s] drop_byte [of "i + length p" s sc "tl r"] d len assms(4,5)
    by (cases r) auto
  then obtain c where c: "byte_at s (i + length p) = Inr c" "if c = NUL then r = [] else r \<noteq> []" by blast
  have "\<exists>b. put_bytes 0 (p @ [NUL]) (replicate (length p + 1) j) = Inr b" by (simp add: put_bytes_def)
  then show ?thesis
    using pattern_end_text [OF assms(1-4)] unquoted_text [OF assms(1,3)] c assms(6)
    by (cases r) (auto simp: get_subst_pattern_def split: if_splits)
qed

section \<open>The new text\<close>

text \<open>Each \<open>&\<close> in it stands for the old text; several of them can make \<open>postproc_subst_rhs\<close> write behind its block.\<close>

definition with_old :: "string \<Rightarrow> string \<Rightarrow> string" where
  "with_old A B = concat (map (\<lambda>c. if c = CHR ''&'' then A else [c]) B)"

definition new_text :: "hist_config \<Rightarrow> string \<Rightarrow> string \<Rightarrow> string run" where
  "new_text cfg A B =
     (if CHR ''&'' \<in> set B then postproc_subst_rhs (fresh_byte cfg) (Some A) (length A) B else Inr B)"

lemma with_old_plain: "CHR ''&'' \<notin> set B \<Longrightarrow> with_old A B = B"
  by (induction B) (auto simp: with_old_def)

lemma amp_text_with_old: "CHR 0x5C \<notin> set B \<Longrightarrow> amp_text A B = with_old A B"
  by (induction B) (auto simp: with_old_def amp_text.simps)

lemma set_with_old: "set (with_old A B) \<subseteq> set A \<union> set B"
  by (induction B) (auto simp: with_old_def)

lemma new_text_outcome:
  assumes "pattern_text sc A" and "pattern_text sc B"
  shows "new_text cfg A B = Inr (with_old A B) \<or> new_text cfg A B = Inl Buffer_Overflow"
    and "length (filter (\<lambda>c. c = CHR ''&'') B) \<le> 1 \<Longrightarrow> new_text cfg A B = Inr (with_old A B)"
proof -
  have nul: "NUL \<notin> set A" "NUL \<notin> set B" "CHR 0x5C \<notin> set B" using assms by (simp_all add: pattern_text_def)
  show "new_text cfg A B = Inr (with_old A B) \<or> new_text cfg A B = Inl Buffer_Overflow"
  proof (cases "CHR ''&'' \<in> set B")
    case True
    then have "B \<noteq> []" by auto
    then obtain blk where "postproc_loop (fresh_byte cfg) (Some A) (length A) B
        (replicate (length B + length A) (fresh_byte cfg), length B + length A, 0) = Inr (blk, length (amp_text A B))"
      using postproc_loop_text [of "replicate (length B + length A) (fresh_byte cfg)" "length B + length A" 0] by fastforce
    from postproc_run [OF \<open>B \<noteq> []\<close> nul(1,2) this] show ?thesis
      using True amp_text_with_old [OF nul(3)] by (simp add: new_text_def)
  qed (simp add: new_text_def with_old_plain)
  assume one: "length (filter (\<lambda>c. c = CHR ''&'') B) \<le> 1"
  show "new_text cfg A B = Inr (with_old A B)"
  proof (cases "CHR ''&'' \<in> set B")
    case True
    then obtain u v where B: "B = u @ CHR ''&'' # v" by (meson split_list)
    with one have "CHR ''&'' \<notin> set (u @ v)" by (auto simp: filter_empty_conv)
    moreover have "CHR 0x5C \<notin> set (u @ v)" "NUL \<notin> set (u @ v)" using nul by (simp_all add: B)
    ultimately have "postproc_subst_rhs (fresh_byte cfg) (Some A) (length A) B = Inr (u @ A @ v)"
      using postproc_one_amp [OF nul(1), of u v] by (simp add: B)
    moreover have "with_old A B = u @ A @ v"
      using with_old_plain [of u A] with_old_plain [of v A] \<open>CHR ''&'' \<notin> set (u @ v)\<close> by (simp add: B with_old_def)
    ultimately show ?thesis using True by (simp add: new_text_def)
  qed (simp add: new_text_def with_old_plain)
qed

section \<open>The modifier\<close>

lemma read_subst_text:
  assumes "s = h @ sc # A @ sc # B @ t" and "length h = i + 2" and "pattern_text sc A" and "pattern_text sc B"
    and "A \<noteq> []" and "sc \<noteq> NUL" and "t = [] \<or> hd t = sc"
  shows "read_subst cfg s i ev =
    bind_run (new_text cfg A B) (\<lambda>B'.
    Inr (ev\<lparr>subst_lhs := Some A, subst_rhs := Some B'\<rparr>, i + 4 + length A + length B + length (take 1 t)))"
proof -
  have "byte_at s (i + 2) = Inr sc" using assms(2) by (simp add: assms(1) byte_at_def nth_append)
  moreover have "get_subst_pattern (fresh_byte cfg) s (i + 3) sc False = Inr (Some A, i + 4 + length A)"
    using get_pattern_text [of "i + 3" s A "sc # B @ t" sc False] assms(2,3,5,6) by (simp add: assms(1))
  moreover have "get_subst_pattern (fresh_byte cfg) s (i + 4 + length A) sc True =
      Inr (Some B, i + 4 + length A + length B + length (take 1 t))"
    using get_pattern_text [of "i + 4 + length A" s B t sc True] assms(2,4,6,7) by (simp add: assms(1))
  moreover have "c_member (CHR ''&'') B \<longleftrightarrow> CHR ''&'' \<in> set B" by (simp add: c_member_def)
  ultimately show ?thesis by (simp add: read_subst_def new_text_def)
qed

text \<open>The text with the first occurrence replaced, if there is one.\<close>

fun replace_first :: "string \<Rightarrow> string \<Rightarrow> string \<Rightarrow> string option" where
  "replace_first p q [] = (if p = [] then Some q else None)"
| "replace_first p q (c # s) =
     (if take (length p) (c # s) = p then Some (q @ drop (length p) (c # s))
      else map_option (Cons c) (replace_first p q s))"

lemma set_replace_first: "replace_first p q s = Some l \<Longrightarrow> set l \<subseteq> set q \<union> set s"
proof (induction s arbitrary: l)
  case (Cons c s)
  have "set (drop (length p) (c # s)) \<subseteq> set (c # s)" by (rule set_drop_subset)
  then show ?case using Cons by (auto split: if_splits)
qed (auto split: if_splits)

lemma replace_first_None: "p \<noteq> [] \<Longrightarrow> \<not> contains p s \<Longrightarrow> replace_first p q s = None"
proof (induction s)
  case (Cons c s)
  then have no: "take (length p) (c # s) \<noteq> p" using contains_here by blast
  then have "\<not> contains p s" using contains_tl [OF no] Cons.prems(2) by simp
  with Cons no show ?case by simp
qed simp

lemma replace_first_Some:
  "p \<noteq> [] \<Longrightarrow> \<forall>a' b'. x @ p @ y = a' @ p @ b' \<longrightarrow> length x \<le> length a' \<Longrightarrow>
    replace_first p q (x @ p @ y) = Some (x @ q @ y)"
proof (induction x)
  case Nil
  obtain c u where p: "p = c # u" using Nil.prems(1) by (cases p) auto
  then show ?case by simp
next
  case (Cons c x)
  have no: "take (length p) (c # x @ p @ y) \<noteq> p"
  proof
    assume "take (length p) (c # x @ p @ y) = p"
    then have "(c # x) @ p @ y = [] @ p @ drop (length p) (c # x @ p @ y)"
      by (metis append_Cons append_Nil append_take_drop_id)
    from Cons.prems(2) [rule_format, OF this] show False by simp
  qed
  have "\<forall>a' b'. x @ p @ y = a' @ p @ b' \<longrightarrow> length x \<le> length a'"
  proof (intro allI impI)
    fix a' b' assume "x @ p @ y = a' @ p @ b'"
    then have "(c # x) @ p @ y = (c # a') @ p @ b'" by simp
    from Cons.prems(2) [rule_format, OF this] show "length x \<le> length a'" by simp
  qed
  with Cons.IH [OF Cons.prems(1)] no show ?case by simp
qed

lemma substitute_text:
  assumes "md_vars md = ev" and "subst_lhs ev = Some A" and "subst_rhs ev = Some B" and "A \<noteq> []"
    and "\<not> md_globally md" and "\<not> md_bywords md" and "length (md_temp md) < fuel"
    and "drop start s = w @ r" and "start \<le> length s" and "NUL \<notin> set w"
  shows "substitute fuel cfg s start (start + length w) md =
    Inr (case replace_first A B (md_temp md) of
        None \<Rightarrow> Mod_Error (w @ '': substitution failed'') ev
      | Some t \<Rightarrow> Mod_Next (md\<lparr>md_temp := t\<rparr>) (start + length w))"
proof -
  let ?l = "md_temp md"
  note first = subst_first [OF assms(4), of 0 ?l fuel "word_delimiters cfg" B 0, unfolded drop0 take0 append_Nil]
  obtain b where b: "hist_error (fresh_byte cfg) s start (start + length w) SUBST_FAILED = Inr b"
    "string_in b = Inr (w @ '': substitution failed'')"
    using hist_error_text [OF assms(8-10), of "fresh_byte cfg" SUBST_FAILED] by auto
  show ?thesis
  proof (cases "contains A ?l")
    case True
    then obtain x y where xy: "?l = x @ A @ y" "\<forall>a' b'. ?l = a' @ A @ b' \<longrightarrow> length x \<le> length a'"
      "subst_loop fuel (word_delimiters cfg) A B False False ?l 0 0 False = Inr (True, x @ B @ y)"
      using first assms(7) by auto
    have "replace_first A B ?l = Some (x @ B @ y)"
      unfolding xy(1) by (rule replace_first_Some [OF assms(4)]) (use xy(1,2) in simp)
    moreover have "length A \<le> length ?l" by (simp add: xy(1))
    ultimately show ?thesis using xy(3) assms(1-6) by (simp add: substitute_def)
  next
    case False
    have "replace_first A B ?l = None" by (rule replace_first_None [OF assms(4) False])
    then show ?thesis using first False assms(1-7) b by (auto simp: substitute_def error_result_def)
  qed
qed

section \<open>The line\<close>

definition quick_text :: "char \<Rightarrow> string \<Rightarrow> string \<Rightarrow> string \<Rightarrow> bool" where
  "quick_text sc A B t \<longleftrightarrow>
     pattern_text sc A \<and> pattern_text sc B \<and> A \<noteq> [] \<and> sc \<noteq> NUL \<and>
     (t = [] \<or> hd t = sc) \<and> (drop 1 t = [] \<or> hd (drop 1 t) \<noteq> CHR '':'')"

lemma internal_quick:
  assumes "quick_text sc A B t" and "ec = expansion_char cfg" and "ec \<notin> {NUL, CHR ''#''}" and "\<not> c_member ec '':$*%^''"
    and "hist_inv hs" and "0 \<le> history_base hs" and "history_base hs + history_length hs < 2 ^ 31"
    and "history_lines hs \<noteq> []" and "length (last (history_lines hs)) < fuel"
    and "s = ec # ec # w @ drop 1 t" and "w = '':s'' @ sc # A @ sc # B @ take 1 t"
  shows "history_expand_internal fuel cfg s 0 cl hs ev =
    bind_run (new_text cfg A B) (\<lambda>B'.
    Inr (case replace_first A B' (last (history_lines hs)) of
        None \<Rightarrow> Expand_Error (w @ '': substitution failed'')
      | Some l \<Rightarrow> Expanded l (1 + length w) 0, hs, ev\<lparr>subst_lhs := Some A, subst_rhs := Some B'\<rparr>))"
proof -
  define l where "l = last (history_lines hs)"
  define md where "md = \<lparr>md_temp = l, md_quotes = NUL, md_globally = False, md_bywords = False, md_print = 0, md_vars = ev\<rparr>"
  have tx: "pattern_text sc A" "pattern_text sc B" "A \<noteq> []" "sc \<noteq> NUL" "t = [] \<or> hd t = sc"
    "drop 1 t = [] \<or> hd (drop 1 t) \<noteq> CHR '':''"
    using assms(1) by (auto simp: quick_text_def)
  have s: "s = [ec, ec, CHR '':'', CHR ''s''] @ sc # A @ sc # B @ t"
    unfolding assms(10,11) by simp
  have at: "byte_at s 1 = Inr ec" "byte_at s 2 = Inr (CHR '':'')" "byte_at s 3 = Inr (CHR ''s'')" "4 < length s"
    by (simp_all add: s byte_at_def)
  have pos: "0 < length (history_lines hs)" using assms(8) by simp
  have "nat (history_length hs - 1) = length (history_lines hs) - 1" "0 \<le> history_length hs - 1"
    using pos lines_length [OF assms(5)] by linarith+
  then have "numbered hs (history_length hs - 1) = Some l"
    using assms(8) lines_length [OF assms(5)] by (simp add: numbered_def l_def last_conv_nth)
  then have chosen: "choose_event cfg s 0 cl hs ev = Inr (Some l, 2, hs, ev)"
    using event_last [OF assms(5-7), of cfg "w @ drop 1 t" NUL ev] at(1) assms(2-4)
    by (simp add: choose_event_def assms(10))
  have spec: "get_history_word_specifier cfg s l 2 ev = Inr (No_Spec, 2)"
    using at(2,3) by (simp add: get_history_word_specifier_def is_digit_def numeral_2_eq_2 numeral_3_eq_3)
  have rd: "read_subst cfg s 2 ev =
      bind_run (new_text cfg A B) (\<lambda>B'. Inr (ev\<lparr>subst_lhs := Some A, subst_rhs := Some B'\<rparr>, 2 + length w))"
  proof -
    have "2 + 4 + length A + length B + length (take 1 t) = 2 + length w" by (simp add: assms(11))
    moreover have "length [ec, ec, CHR '':'', CHR ''s''] = 2 + 2" by simp
    ultimately show ?thesis using read_subst_text [OF s _ tx(1-5), of 2 cfg ev] by (simp only:)
  qed
  have md: "modifier fuel cfg s 2 2 md =
      bind_run (read_subst cfg s 2 ev) (\<lambda>(ev, i). substitute fuel cfg s 2 i (md\<lparr>md_vars := ev\<rparr>))"
    using at(3,4) by (simp add: modifier_def numeral_3_eq_3 numeral_2_eq_2 md_def)
  show ?thesis
  proof (cases "new_text cfg A B")
    case (Inl f)
    then have "modifier_loop (length s + 2) fuel cfg s 2 2 md = Inl f" using at(2) rd md by simp
    then show ?thesis
      using Inl chosen spec by (simp add: history_expand_internal_def md_def del: modifier_loop.simps)
  next
    case (Inr B')
    define ev' where "ev' = ev\<lparr>subst_lhs := Some A, subst_rhs := Some B'\<rparr>"
    have d: "drop 2 s = w @ drop 1 t" "2 \<le> length s" by (simp_all add: assms(10))
    have nul: "NUL \<notin> set w"
      using tx(1,2,4,5) by (cases t) (auto simp: assms(11) pattern_text_def)
    have sub: "substitute fuel cfg s 2 (2 + length w) (md\<lparr>md_vars := ev'\<rparr>) =
        Inr (case replace_first A B' l of
            None \<Rightarrow> Mod_Error (w @ '': substitution failed'') ev'
          | Some t \<Rightarrow> Mod_Next (md\<lparr>md_vars := ev', md_temp := t\<rparr>) (2 + length w))"
      by (subst substitute_text [OF _ _ _ tx(3) _ _ _ d nul])
        (use assms(9) in \<open>simp_all add: md_def ev'_def l_def split: option.split\<close>)
    have "modifier fuel cfg s 2 2 md = substitute fuel cfg s 2 (2 + length w) (md\<lparr>md_vars := ev'\<rparr>)"
      using md rd by (simp add: Inr ev'_def)
    moreover obtain c where c: "byte_at s (2 + length w) = Inr c" "c \<noteq> CHR '':''"
    proof (cases "drop 1 t")
      case Nil
      then have "byte_at s (2 + length w) = Inr NUL" by (simp add: assms(10) byte_at_def)
      then show thesis using that by simp
    next
      case (Cons c u)
      then have "byte_at s (2 + length w) = Inr c" by (simp add: assms(10) byte_at_def nth_append)
      moreover have "c \<noteq> CHR '':''" using tx(6) unfolding Cons by simp
      ultimately show thesis using that by simp
    qed
    moreover have "length s + 2 = Suc (Suc (length s))" by simp
    ultimately have "modifier_loop (length s + 2) fuel cfg s 2 2 md =
        Inr (case replace_first A B' l of
            None \<Rightarrow> Mod_Error (w @ '': substitution failed'') ev'
          | Some t \<Rightarrow> Mod_Next (md\<lparr>md_vars := ev', md_temp := t\<rparr>) (2 + length w))"
      using at(2) sub by (cases "replace_first A B' l") simp_all
    then show ?thesis
      using chosen spec Inr
      by (cases "replace_first A B' l")
        (simp_all add: history_expand_internal_def md_def quoted_result_def ev'_def l_def del: modifier_loop.simps)
  qed
qed


text \<open>
  C13: the quick substitution, for two texts without backslashes, of which the old one is not empty, and a history with
  at least one line, when no function inhibits the expansion. \<open>^old^new^\<close>, with or without the last delimiter and
  text behind it that has no special characters, gives the last line with the first occurrence of the old text replaced
  by the new one, in which each \<open>&\<close> stands for the old text, followed by the text behind, and the result 1; when the old
  text does not occur, the result is -1 with the modifier and the message. In both cases the two texts are remembered for
  the next substitution. With at most one \<open>&\<close> there is no fault; with more, the one possible is a write of the new
  text behind its block. As many passes as the two lines have characters are enough.
\<close>

theorem quick_substitution:
  assumes "quick_text (subst_char cfg) A B t" and "ec = expansion_char cfg" and "ec \<notin> {NUL, CHR ''#''}"
    and "\<not> c_member ec '':$*%^''" and "ec \<notin> set (no_expand_chars cfg)" and "inhibit_function cfg = None"
    and "hist_inv hs" and "0 \<le> history_base hs" and "history_base hs + history_length hs < 2 ^ 31"
    and "history_lines hs \<noteq> []" and "NUL \<notin> set (last (history_lines hs))"
    and "\<forall>c \<in> set (drop 1 t). ordinary cfg c"
    and "length (last (history_lines hs)) + length s + 4 < fuel"
    and "s = subst_char cfg # A @ subst_char cfg # B @ t"
    and "B' = with_old A B"
  shows "history_expand fuel cfg s hs ev =
    (if new_text cfg A B = Inl Buffer_Overflow then Inl Buffer_Overflow
     else Inr (case replace_first A B' (last (history_lines hs)) of
          None \<Rightarrow> (-1, '':s'' @ subst_char cfg # A @ subst_char cfg # B @ take 1 t @ '': substitution failed'')
        | Some l \<Rightarrow> (1, l @ drop 1 t), hs, ev\<lparr>subst_lhs := Some A, subst_rhs := Some B'\<rparr>)) \<and>
    (length (filter (\<lambda>c. c = CHR ''&'') B) \<le> 1 \<longrightarrow> new_text cfg A B = Inr B')"
proof -
  have tx: "pattern_text (subst_char cfg) A" "pattern_text (subst_char cfg) B" using assms(1) by (simp_all add: quick_text_def)
  define w where "w = '':s'' @ subst_char cfg # A @ subst_char cfg # B @ take 1 t"
  define full where "full = [ec, ec] @ '':s'' @ s"
  have full: "full = ec # ec # w @ drop 1 t" by (simp add: full_def w_def assms(14))
  define r where "r = (case replace_first A B' (last (history_lines hs)) of
        None \<Rightarrow> Expand_Error (w @ '': substitution failed'')
      | Some l \<Rightarrow> Expanded l (1 + length w) 0)"
  have fuel: "length (last (history_lines hs)) < fuel" "length full < fuel"
    using assms(13) by (simp_all add: full_def)
  note int = internal_quick [OF assms(1-4,7-10) fuel(1) full w_def, of "[]" ev]
  have "NUL \<notin> set B'" using tx set_with_old [of A B] by (auto simp: assms(15) pattern_text_def)
  then have nul: "NUL \<notin> set l" if "replace_first A B' (last (history_lines hs)) = Some l" for l
    using set_replace_first [OF that] assms(11) by auto
  have exp: "\<forall>l k n. r = Expanded l k n \<longrightarrow> NUL \<notin> set l \<and> k = length ([]::string) + length (ec # w) \<and> n = 0"
    using nul assms(11) by (auto simp: r_def split: option.splits)
  have ne: "\<not> no_expansion cfg full (length ([]::string)) (cstr_at full (Suc (length ([]::string))))"
    using assms(3,5,6) by (simp add: full_def no_expansion_def cstr_at_def c_member_def)
  have nz: "expansion_char cfg \<noteq> NUL" using assms(2,3) by simp
  have ord: "\<forall>c \<in> set [] \<union> set (drop 1 t). ordinary cfg c" using assms(12) by simp
  have split: "full = [] @ expansion_char cfg # (ec # w) @ drop 1 t" by (simp add: full assms(2))
  have at: "byte_at s 0 = Inr (subst_char cfg)" by (simp add: assms(14) byte_at_def)
  have "history_expand fuel cfg s hs ev =
      Inr (case replace_first A B' (last (history_lines hs)) of
          None \<Rightarrow> (-1, '':s'' @ subst_char cfg # A @ subst_char cfg # B @ take 1 t @ '': substitution failed'')
        | Some l \<Rightarrow> (1, l @ drop 1 t), hs, ev\<lparr>subst_lhs := Some A, subst_rhs := Some B'\<rparr>)"
    if "new_text cfg A B = Inr B'"
  proof -
    have "history_expand_internal fuel cfg full (length ([]::string)) [] hs ev =
        Inr (r, hs, ev\<lparr>subst_lhs := Some A, subst_rhs := Some B'\<rparr>)" using int that by (simp add: r_def)
    note run = expand_around [OF ord split fuel(2) ne this exp nz]
    have "history_expand fuel cfg s hs ev =
        Inr ((case r of Expand_Error msg \<Rightarrow> (-1, msg) | Expanded l k n \<Rightarrow> (1, [] @ l @ drop 1 t)),
             hs, ev\<lparr>subst_lhs := Some A, subst_rhs := Some B'\<rparr>)"
      using at nz run unfolding history_expand_def Let_def full_def assms(2) by simp
    then show ?thesis
      by (cases "replace_first A B' (last (history_lines hs))") (simp_all add: r_def w_def)
  qed
  moreover have "history_expand fuel cfg s hs ev = Inl Buffer_Overflow" if "new_text cfg A B = Inl Buffer_Overflow"
  proof -
    obtain n where n: "fuel = Suc n" using fuel(1) by (cases fuel) auto
    have "history_expand_internal fuel cfg full 0 [] hs ev = Inl Buffer_Overflow" using int that by simp
    then have "expand_loop fuel fuel cfg full 0 (NUL # replicate 255 (fresh_byte cfg), 256, 0)
        \<lparr>passc = False, dquoted = False, modified = False, only_printing = False\<rparr> hs ev = Inl Buffer_Overflow"
      using ne unfolding n by (intro expand_loop_fault) (simp_all add: full assms(2))
    then show ?thesis using at nz unfolding history_expand_def Let_def full_def assms(2) by simp
  qed
  ultimately show ?thesis using new_text_outcome [OF tx, of cfg] unfolding assms(15) by (metis sum.distinct(1))
qed

theorem quick_substitution_witness:
  "\<exists>hs. history_expand 99 default_config ''^a^x&y^ &'' hs no_vars =
      Inr ((1, ''cp xay b &''), hs, no_vars\<lparr>subst_lhs := Some ''a'', subst_rhs := Some ''xay''\<rparr>) \<and>
    history_expand 99 default_config ''^q^xy'' hs no_vars =
      Inr ((-1, '':s^q^xy: substitution failed''), hs, no_vars\<lparr>subst_lhs := Some ''q'', subst_rhs := Some ''xy''\<rparr>)"
proof -
  obtain hs where hs: "hist_inv hs" "history_base hs = 1" "history_offset hs = 3"
    "history_lines hs = [''cc a.c'', ''ls'', ''cp a b'']" by (rule three_lines)
  have len: "history_length hs = 3" using lines_length [OF hs(1)] hs(4) by simp
  have sc: "subst_char default_config = CHR ''^''" "CHR ''!'' = expansion_char default_config"
    by (simp_all add: default_config_def)
  have ends: "history_lines hs \<noteq> []" "NUL \<notin> set (last (history_lines hs))" "0 \<le> history_base hs"
    "history_base hs + history_length hs < 2 ^ 31"
    by (simp_all add: hs len)
  note chars = quick_text_def pattern_text_def ordinary_def c_member_def default_config_def
  have "history_expand 99 default_config ''^a^x&y^ &'' hs no_vars =
      (if new_text default_config ''a'' ''x&y'' = Inl Buffer_Overflow then Inl Buffer_Overflow
       else Inr (case replace_first ''a'' ''xay'' (last (history_lines hs)) of
          None \<Rightarrow> (-1, '':s'' @ subst_char default_config # ''a'' @ subst_char default_config # ''x&y'' @ take 1 ''^ &'' @ '': substitution failed'')
        | Some l \<Rightarrow> (1, l @ drop 1 ''^ &''), hs, no_vars\<lparr>subst_lhs := Some ''a'', subst_rhs := Some ''xay''\<rparr>)) \<and>
      (length (filter (\<lambda>c. c = CHR ''&'') ''x&y'') \<le> 1 \<longrightarrow> new_text default_config ''a'' ''x&y'' = Inr ''xay'')"
    by (rule quick_substitution [OF _ sc(2) _ _ _ _ hs(1) ends(3,4,1,2)]) (simp_all add: chars hs(4) with_old_def)
  moreover have "history_expand 99 default_config ''^q^xy'' hs no_vars =
      (if new_text default_config ''q'' ''xy'' = Inl Buffer_Overflow then Inl Buffer_Overflow
       else Inr (case replace_first ''q'' ''xy'' (last (history_lines hs)) of
          None \<Rightarrow> (-1, '':s'' @ subst_char default_config # ''q'' @ subst_char default_config # ''xy'' @ take 1 [] @ '': substitution failed'')
        | Some l \<Rightarrow> (1, l @ drop 1 []), hs, no_vars\<lparr>subst_lhs := Some ''q'', subst_rhs := Some ''xy''\<rparr>)) \<and>
      (length (filter (\<lambda>c. c = CHR ''&'') ''xy'') \<le> 1 \<longrightarrow> new_text default_config ''q'' ''xy'' = Inr ''xy'')"
    by (rule quick_substitution [OF _ sc(2) _ _ _ _ hs(1) ends(3,4,1,2)]) (simp_all add: chars hs(4) with_old_def)
  ultimately show ?thesis by (intro exI [of _ hs]) (simp add: hs(4) sc(1))
qed

end
