(* ===== verification/Rl_Line.thy ===== *)
theory Rl_Line
  imports Hist_Quick_Spec
begin

text \<open>
  The line that is edited: the buffer and the copies of its text (\<open>readline-6.2/util.c\<close>), insertion and
  deletion (\<open>text.c\<close>) and the list of what can be undone (\<open>undo.c\<close>). The build is that without
  \<open>HANDLE_MULTIBYTE\<close>, the editing mode that of Emacs, which is the initial one. Positions are
  integers, so that a negative one is seen; the buffer is a block of bytes, every access to which is
  checked. The undo entries are in a heap, linked by their \<open>next\<close>, as the history holds pointers to them.
\<close>

section \<open>State\<close>

datatype undo_code = UNDO_DELETE | UNDO_INSERT | UNDO_BEGIN | UNDO_END

text \<open>The commands that ask which command was run before them.\<close>

datatype command_func = No_Func | rl_yank_func | rl_yank_pop_func | rl_yank_last_arg_func | Other_Func

record undo_entry =
  ue_next :: nat
  ue_start :: int
  ue_end :: int
  ue_text :: "string option"
  ue_what :: undo_code

record rl_state =
  rl_line_buffer :: string
  rl_line_buffer_len :: int
  rl_point :: int
  rl_end :: int
  rl_mark :: int
  rl_undos :: "nat \<Rightarrow> undo_entry option"
  rl_fresh :: nat
  rl_undo_list :: nat
  rl_doing_an_undo :: bool
  rl_undo_group_level :: int
  rl_dings :: nat
  rl_history :: hist_state
  rl_junk :: char
  rl_explicit_arg :: bool
  rl_overwriting :: bool
  rl_typein :: string
  rl_inserts_itself :: "char \<Rightarrow> bool"
  rl_output_meta_chars :: bool
  rl_pathname_alphabetic :: bool
  rl_comment_begin :: "string option"
  rl_done :: bool
  rl_preserve_point :: bool
  rl_saved_point :: int
  rl_kill_ring :: "string option list option"
  rl_kill_index :: int
  rl_kill_ring_length :: int
  rl_last_command_was_kill :: int
  rl_last_func :: command_func
  rl_word_delimiters :: string
  rl_comment_char :: char
  yank_history_skip :: int
  yank_explicit_arg :: bool
  yank_count_passed :: int
  yank_direction :: int
  yank_undo_needed :: bool
  rl_saved_line :: nat
  rl_revert_all_at_newline :: bool

text \<open>
  The fields from \<open>rl_explicit_arg\<close> on are used by the commands: the numeric argument was given, the insert mode,
  the keys typed ahead and which keys insert themselves, the kill ring (a block of pointers) and the static variables of
  \<open>rl_yank_last_arg\<close>. \<open>rl_saved_line\<close> is \<open>_rl_saved_line_for_history\<close>, an address in the heap of history entries.
\<close>

definition rl_ding :: "rl_state \<Rightarrow> rl_state" where
  "rl_ding st = st\<lparr>rl_dings := rl_dings st + 1\<rparr>"

text \<open>\<open>rl_line_buffer[i]\<close>, read and written.\<close>

definition buf_get :: "int \<Rightarrow> rl_state \<Rightarrow> char run" where
  "buf_get i st =
     (if 0 \<le> i \<and> i < int (length (rl_line_buffer st)) then Inr (rl_line_buffer st ! nat i)
      else Inl Out_Of_Bounds_Read)"

definition buf_put :: "int \<Rightarrow> string \<Rightarrow> rl_state \<Rightarrow> rl_state run" where
  "buf_put i bs st =
     (if i < 0 then Inl Buffer_Overflow
      else bind_run (put_bytes (nat i) bs (rl_line_buffer st)) (\<lambda>b. Inr (st\<lparr>rl_line_buffer := b\<rparr>)))"

section \<open>util.c\<close>

text \<open>What \<open>strncpy\<close> copies from the buffer: up to \<open>n\<close> bytes, none behind a \<open>NUL\<close>.\<close>

fun copy_bytes :: "nat \<Rightarrow> int \<Rightarrow> rl_state \<Rightarrow> string run" where
  "copy_bytes 0 i st = Inr []"
| "copy_bytes (Suc n) i st =
     bind_run (buf_get i st) (\<lambda>c.
     if c = NUL then Inr []
     else bind_run (copy_bytes n (i + 1) st) (\<lambda>s. Inr (c # s)))"

definition rl_copy_text :: "int \<Rightarrow> int \<Rightarrow> rl_state \<Rightarrow> string run" where
  "rl_copy_text from_pos to_pos st =
     (case (if from_pos > to_pos then (to_pos, from_pos) else (from_pos, to_pos)) of (a, b) \<Rightarrow>
      copy_bytes (nat (b - a)) a st)"

definition DEFAULT_BUFFER_SIZE :: nat where "DEFAULT_BUFFER_SIZE = 256"

function rl_extend_line_buffer :: "int \<Rightarrow> rl_state \<Rightarrow> rl_state" where
  "rl_extend_line_buffer len st =
     (if len \<ge> rl_line_buffer_len st then
        let size = rl_line_buffer_len st + int DEFAULT_BUFFER_SIZE in
        rl_extend_line_buffer len
          (st\<lparr>rl_line_buffer_len := size,
             rl_line_buffer := xrealloc (rl_junk st) (nat size) (rl_line_buffer st)\<rparr>)
      else st)"
  by pat_completeness auto
termination
  by (relation "measure (\<lambda>(len, st). nat (len + 1 - rl_line_buffer_len st))") (auto simp: DEFAULT_BUFFER_SIZE_def)

declare rl_extend_line_buffer.simps [simp del]

section \<open>The list of undo entries\<close>

definition undo_at :: "nat \<Rightarrow> rl_state \<Rightarrow> undo_entry run" where
  "undo_at a st =
     (if a = 0 then Inl Null_Pointer
      else case rl_undos st a of None \<Rightarrow> Inl Use_After_Free | Some e \<Rightarrow> Inr e)"

definition free_undo :: "nat \<Rightarrow> rl_state \<Rightarrow> rl_state run" where
  "free_undo a st =
     bind_run (undo_at a st) (\<lambda>e. Inr (st\<lparr>rl_undos := (rl_undos st)(a := None)\<rparr>))"

definition alloc_undo_entry ::
    "undo_code \<Rightarrow> int \<Rightarrow> int \<Rightarrow> string option \<Rightarrow> rl_state \<Rightarrow> nat \<times> rl_state" where
  "alloc_undo_entry what start_pos end_pos txt_ptr st =
     (rl_fresh st,
      st\<lparr>rl_undos := (rl_undos st)(rl_fresh st \<mapsto>
           \<lparr>ue_next = 0, ue_start = start_pos, ue_end = end_pos, ue_text = txt_ptr, ue_what = what\<rparr>),
        rl_fresh := Suc (rl_fresh st)\<rparr>)"

definition set_undo :: "nat \<Rightarrow> undo_entry \<Rightarrow> rl_state \<Rightarrow> rl_state" where
  "set_undo a e st = st\<lparr>rl_undos := (rl_undos st)(a \<mapsto> e)\<rparr>"

definition rl_add_undo :: "undo_code \<Rightarrow> int \<Rightarrow> int \<Rightarrow> string option \<Rightarrow> rl_state \<Rightarrow> rl_state run" where
  "rl_add_undo what start_pos end_pos txt_ptr st =
     (case alloc_undo_entry what start_pos end_pos txt_ptr st of (temp, st) \<Rightarrow>
      bind_run (undo_at temp st) (\<lambda>e.
      Inr ((set_undo temp (e\<lparr>ue_next := rl_undo_list st\<rparr>) st)\<lparr>rl_undo_list := temp\<rparr>)))"

text \<open>The loop of \<open>rl_free_undo_list\<close>; as many passes as entries were ever made are enough.\<close>

fun free_undos :: "nat \<Rightarrow> rl_state \<Rightarrow> rl_state run" where
  "free_undos 0 st = (if rl_undo_list st = 0 then Inr st else Inl No_Return)"
| "free_undos (Suc n) st =
     (if rl_undo_list st = 0 then Inr st
      else
      bind_run (undo_at (rl_undo_list st) st) (\<lambda>e.
      bind_run (free_undo (rl_undo_list st) (st\<lparr>rl_undo_list := ue_next e\<rparr>)) (free_undos n)))"

definition rl_free_undo_list :: "rl_state \<Rightarrow> rl_state run" where
  "rl_free_undo_list st =
     (let orig_list = rl_undo_list st in
      bind_run (free_undos (rl_fresh st) st) (\<lambda>st.
      bind_run (replace_history_data (-1) orig_list 0 (rl_history st)) (\<lambda>h.
      Inr (st\<lparr>rl_undo_list := 0, rl_history := h\<rparr>))))"

definition copy_undo_entry :: "undo_entry \<Rightarrow> rl_state \<Rightarrow> nat \<times> rl_state" where
  "copy_undo_entry e st = alloc_undo_entry (ue_what e) (ue_start e) (ue_end e) (ue_text e) st"

text \<open>The loop of \<open>_rl_copy_undo_list\<close>: \<open>roving\<close> is the last copy, 0 before the first.\<close>

fun copy_undos :: "nat \<Rightarrow> nat \<Rightarrow> nat \<Rightarrow> nat \<Rightarrow> rl_state \<Rightarrow> (nat \<times> rl_state) run" where
  "copy_undos 0 list_ptr new roving st = (if list_ptr = 0 then Inr (new, st) else Inl No_Return)"
| "copy_undos (Suc n) list_ptr new roving st =
     (if list_ptr = 0 then Inr (new, st)
      else
      bind_run (undo_at list_ptr st) (\<lambda>e.
      case copy_undo_entry e st of (c, st) \<Rightarrow>
      if new = 0 then copy_undos n (ue_next e) c c st
      else
      bind_run (undo_at roving st) (\<lambda>r.
      copy_undos n (ue_next e) new c (set_undo roving (r\<lparr>ue_next := c\<rparr>) st))))"

definition copy_undo_list :: "nat \<Rightarrow> rl_state \<Rightarrow> (nat \<times> rl_state) run" where
  "copy_undo_list head st = copy_undos (rl_fresh st) head 0 0 st"

definition rl_begin_undo_group :: "rl_state \<Rightarrow> rl_state run" where
  "rl_begin_undo_group st =
     bind_run (rl_add_undo UNDO_BEGIN 0 0 None st) (\<lambda>st.
     Inr (st\<lparr>rl_undo_group_level := rl_undo_group_level st + 1\<rparr>))"

definition rl_end_undo_group :: "rl_state \<Rightarrow> rl_state run" where
  "rl_end_undo_group st =
     bind_run (rl_add_undo UNDO_END 0 0 None st) (\<lambda>st.
     Inr (st\<lparr>rl_undo_group_level := rl_undo_group_level st - 1\<rparr>))"

text \<open>\<open>_rl_fix_last_undo_of_type\<close>; the result is 1 when there is no such entry.\<close>

fun fix_undos :: "nat \<Rightarrow> nat \<Rightarrow> undo_code \<Rightarrow> int \<Rightarrow> int \<Rightarrow> rl_state \<Rightarrow> (int \<times> rl_state) run" where
  "fix_undos 0 rl type_code start_pos end_pos st = (if rl = 0 then Inr (1, st) else Inl No_Return)"
| "fix_undos (Suc n) rl type_code start_pos end_pos st =
     (if rl = 0 then Inr (1, st)
      else
      bind_run (undo_at rl st) (\<lambda>e.
      if ue_what e = type_code
      then Inr (0, set_undo rl (e\<lparr>ue_start := start_pos, ue_end := end_pos\<rparr>) st)
      else fix_undos n (ue_next e) type_code start_pos end_pos st))"

definition fix_last_undo_of_type :: "undo_code \<Rightarrow> int \<Rightarrow> int \<Rightarrow> rl_state \<Rightarrow> (int \<times> rl_state) run" where
  "fix_last_undo_of_type type_code start_pos end_pos st =
     fix_undos (rl_fresh st) (rl_undo_list st) type_code start_pos end_pos st"

section \<open>Insertion and deletion\<close>

text \<open>\<open>for (i = rl_end; i >= rl_point; i--) rl_line_buffer[i + l] = rl_line_buffer[i];\<close>\<close>

fun shift_up :: "nat \<Rightarrow> int \<Rightarrow> int \<Rightarrow> rl_state \<Rightarrow> rl_state run" where
  "shift_up 0 i l st = Inr st"
| "shift_up (Suc n) i l st =
     bind_run (buf_get i st) (\<lambda>c. bind_run (buf_put (i + l) [c] st) (shift_up n (i - 1) l))"

text \<open>\<open>for (i = from; i < rl_end - diff; i++) rl_line_buffer[i] = rl_line_buffer[i + diff];\<close>\<close>

fun shift_left :: "nat \<Rightarrow> int \<Rightarrow> int \<Rightarrow> rl_state \<Rightarrow> rl_state run" where
  "shift_left 0 i diff st = Inr st"
| "shift_left (Suc n) i diff st =
     bind_run (buf_get (i + diff) st) (\<lambda>c. bind_run (buf_put i [c] st) (shift_left n (i + 1) diff))"

text \<open>The undo entry for \<open>l\<close> characters inserted at the point: a single character prolongs the last one.\<close>

definition remember_insert :: "int \<Rightarrow> rl_state \<Rightarrow> rl_state run" where
  "remember_insert l st =
     (let add = rl_add_undo UNDO_INSERT (rl_point st) (rl_point st + l) None st in
      if l = 1 \<and> rl_undo_list st \<noteq> 0 then
        bind_run (undo_at (rl_undo_list st) st) (\<lambda>e.
        if ue_what e = UNDO_INSERT \<and> ue_end e = rl_point st \<and> ue_end e - ue_start e < 20
        then Inr (set_undo (rl_undo_list st) (e\<lparr>ue_end := ue_end e + 1\<rparr>) st)
        else add)
      else add)"

definition rl_insert_text :: "string option \<Rightarrow> rl_state \<Rightarrow> (int \<times> rl_state) run" where
  "rl_insert_text str st =
     (let s = (case str of None \<Rightarrow> [] | Some s \<Rightarrow> s); l = int (length s) in
      if l = 0 then Inr (0, st)
      else
      let st = (if rl_end st + l \<ge> rl_line_buffer_len st then rl_extend_line_buffer (rl_end st + l) st else st) in
      bind_run (shift_up (nat (rl_end st - rl_point st + 1)) (rl_end st) l st) (\<lambda>st.
      bind_run (buf_put (rl_point st) s st) (\<lambda>st.
      bind_run (if rl_doing_an_undo st then Inr st else remember_insert l st) (\<lambda>st.
      let st = st\<lparr>rl_point := rl_point st + l, rl_end := rl_end st + l\<rparr> in
      bind_run (buf_put (rl_end st) [NUL] st) (\<lambda>st.
      Inr (l, st))))))"

definition rl_delete_text :: "int \<Rightarrow> int \<Rightarrow> rl_state \<Rightarrow> (int \<times> rl_state) run" where
  "rl_delete_text from_pos to_pos st =
     (let (from_pos, to_pos) = (if from_pos > to_pos then (to_pos, from_pos) else (from_pos, to_pos));
          beyond = to_pos > rl_end st;
          to_pos = (if beyond then rl_end st else to_pos);
          from_pos = (if beyond \<and> from_pos > to_pos then to_pos else from_pos);
          from_pos = (if from_pos < 0 then 0 else from_pos) in
      bind_run (rl_copy_text from_pos to_pos st) (\<lambda>txt_copy.
      let diff = to_pos - from_pos in
      bind_run (shift_left (nat (rl_end st - diff - from_pos)) from_pos diff st) (\<lambda>st.
      bind_run (if rl_doing_an_undo st then Inr st
                else rl_add_undo UNDO_DELETE from_pos to_pos (Some txt_copy) st) (\<lambda>st.
      let st = st\<lparr>rl_end := rl_end st - diff\<rparr> in
      bind_run (buf_put (rl_end st) [NUL] st) (\<lambda>st.
      Inr (diff, st))))))"

definition fix_pos :: "rl_state \<Rightarrow> int \<Rightarrow> int" where
  "fix_pos st x = (if x > rl_end st then rl_end st else if x < 0 then 0 else x)"

definition rl_fix_point :: "bool \<Rightarrow> rl_state \<Rightarrow> rl_state" where
  "rl_fix_point fix_mark_too st =
     (let st = st\<lparr>rl_point := fix_pos st (rl_point st)\<rparr> in
      if fix_mark_too then st\<lparr>rl_mark := fix_pos st (rl_mark st)\<rparr> else st)"

definition rl_replace_text :: "string \<Rightarrow> int \<Rightarrow> int \<Rightarrow> rl_state \<Rightarrow> (int \<times> rl_state) run" where
  "rl_replace_text str start_pos end_pos st =
     bind_run (rl_begin_undo_group st) (\<lambda>st.
     bind_run (if start_pos \<le> end_pos then rl_delete_text start_pos (end_pos + 1) st else Inr (0, st)) (\<lambda>(_, st).
     bind_run (if str \<noteq> [] then rl_insert_text (Some str) (st\<lparr>rl_point := start_pos\<rparr>)
               else Inr (0, st\<lparr>rl_point := start_pos\<rparr>)) (\<lambda>(n, st).
     bind_run (rl_end_undo_group st) (\<lambda>st.
     Inr (n, st)))))"

definition rl_replace_line :: "string \<Rightarrow> bool \<Rightarrow> rl_state \<Rightarrow> rl_state run" where
  "rl_replace_line str clear_undo st =
     (let len = int (length str);
          st = (if len \<ge> rl_line_buffer_len st then rl_extend_line_buffer len st else st) in
      bind_run (buf_put 0 (str @ [NUL]) st) (\<lambda>st.
      let st = st\<lparr>rl_end := len\<rparr> in
      bind_run (if clear_undo then rl_free_undo_list st else Inr st) (\<lambda>st.
      Inr (rl_fix_point True st))))"

definition rl_modifying :: "int \<Rightarrow> int \<Rightarrow> rl_state \<Rightarrow> rl_state run" where
  "rl_modifying start_pos end_pos st =
     (let (start_pos, end_pos) = (if start_pos > end_pos then (end_pos, start_pos) else (start_pos, end_pos)) in
      if start_pos = end_pos then Inr st
      else
      bind_run (rl_copy_text start_pos end_pos st) (\<lambda>temp.
      bind_run (rl_begin_undo_group st) (\<lambda>st.
      bind_run (rl_add_undo UNDO_DELETE start_pos end_pos (Some temp) st) (\<lambda>st.
      bind_run (rl_add_undo UNDO_INSERT start_pos end_pos None st) (\<lambda>st.
      rl_end_undo_group st)))))"

section \<open>Undoing\<close>

definition TRANS :: "rl_state \<Rightarrow> int \<Rightarrow> int" where
  "TRANS st i = (if i = -1 then rl_point st else if i = -2 then rl_end st else i)"

text \<open>What one entry undoes; the second part is the new \<open>waiting_for_begin\<close>.\<close>

definition undo_entry_effect :: "undo_entry \<Rightarrow> nat \<Rightarrow> rl_state \<Rightarrow> (nat \<times> rl_state) run" where
  "undo_entry_effect e waiting_for_begin st =
     (case ue_what e of
        UNDO_DELETE \<Rightarrow>
          bind_run (rl_insert_text (ue_text e) (st\<lparr>rl_point := TRANS st (ue_start e)\<rparr>)) (\<lambda>(_, st).
          Inr (waiting_for_begin, st))
      | UNDO_INSERT \<Rightarrow>
          (let start_pos = TRANS st (ue_start e) in
           bind_run (rl_delete_text start_pos (TRANS st (ue_end e)) st) (\<lambda>(_, st).
           Inr (waiting_for_begin, st\<lparr>rl_point := start_pos\<rparr>)))
      | UNDO_END \<Rightarrow> Inr (waiting_for_begin + 1, st)
      | UNDO_BEGIN \<Rightarrow>
          Inr (if waiting_for_begin > 0 then (waiting_for_begin - 1, st) else (0, rl_ding st)))"

text \<open>The loop of \<open>rl_do_undo\<close>.\<close>

fun undo_loop :: "nat \<Rightarrow> nat \<Rightarrow> rl_state \<Rightarrow> (int \<times> rl_state) run" where
  "undo_loop 0 waiting_for_begin st = (if rl_undo_list st = 0 then Inr (0, st) else Inl No_Return)"
| "undo_loop (Suc n) waiting_for_begin st =
     (if rl_undo_list st = 0 then Inr (0, st)
      else
      bind_run (undo_at (rl_undo_list st) st) (\<lambda>e.
      bind_run (undo_entry_effect e waiting_for_begin (st\<lparr>rl_doing_an_undo := True\<rparr>)) (\<lambda>(waiting_for_begin, st).
      let st = st\<lparr>rl_doing_an_undo := False\<rparr>; release = rl_undo_list st in
      bind_run (undo_at release st) (\<lambda>e.
      let st = st\<lparr>rl_undo_list := ue_next e\<rparr> in
      bind_run (replace_history_data (-1) release (rl_undo_list st) (rl_history st)) (\<lambda>h.
      bind_run (free_undo release (st\<lparr>rl_history := h\<rparr>)) (\<lambda>st.
      if waiting_for_begin > 0 then undo_loop n waiting_for_begin st else Inr (1, st)))))))"

definition rl_do_undo :: "rl_state \<Rightarrow> (int \<times> rl_state) run" where
  "rl_do_undo st = undo_loop (rl_fresh st) 0 st"

text \<open>The loop of \<open>rl_revert_line\<close>.\<close>

fun revert_loop :: "nat \<Rightarrow> rl_state \<Rightarrow> rl_state run" where
  "revert_loop 0 st = (if rl_undo_list st = 0 then Inr st else Inl No_Return)"
| "revert_loop (Suc n) st =
     (if rl_undo_list st = 0 then Inr st
      else bind_run (rl_do_undo st) (\<lambda>(_, st). revert_loop n st))"

definition rl_revert_line :: "rl_state \<Rightarrow> (int \<times> rl_state) run" where
  "rl_revert_line st =
     (if rl_undo_list st = 0 then Inr (0, rl_ding st)
      else bind_run (revert_loop (rl_fresh st) st) (\<lambda>st. Inr (0, st)))"

fun undo_command_loop :: "nat \<Rightarrow> rl_state \<Rightarrow> rl_state run" where
  "undo_command_loop 0 st = Inr st"
| "undo_command_loop (Suc n) st =
     bind_run (rl_do_undo st) (\<lambda>(r, st).
     if r \<noteq> 0 then undo_command_loop n st else Inr (rl_ding st))"

definition rl_undo_command :: "int \<Rightarrow> rl_state \<Rightarrow> (int \<times> rl_state) run" where
  "rl_undo_command count st =
     (if count < 0 then Inr (0, st)
      else bind_run (undo_command_loop (nat count) st) (\<lambda>st. Inr (0, st)))"

end
