(* ===== verification/Rl_Line_Spec.thy ===== *)
theory Rl_Line_Spec
  imports Rl_Line
begin

text \<open>
  What the operations on the line do to its text, and that undoing is the inverse of editing: the undo
  list is a linked list in the heap whose entries, applied one after the other, lead back to the
  text the editing began with.
\<close>

section \<open>The buffer\<close>

text \<open>The text between the beginning of the buffer and \<open>rl_end\<close>, where the terminator is.\<close>

definition line_is :: "string \<Rightarrow> rl_state \<Rightarrow> bool" where
  "line_is t st \<longleftrightarrow>
     int (length (rl_line_buffer st)) = rl_line_buffer_len st \<and> rl_end st = int (length t) \<and>
     length t < length (rl_line_buffer st) \<and> take (Suc (length t)) (rl_line_buffer st) = t @ [NUL] \<and> NUL \<notin> set t"

lemma line_is_cong:
  "rl_line_buffer st' = rl_line_buffer st \<Longrightarrow> rl_line_buffer_len st' = rl_line_buffer_len st \<Longrightarrow>
    rl_end st' = rl_end st \<Longrightarrow> line_is t st' = line_is t st"
  by (simp add: line_is_def)

lemma line_get:
  assumes "line_is t st" and "i \<le> length t"
  shows "buf_get (int i) st = Inr (cstr_at t i)"
proof -
  have "rl_line_buffer st ! i = (t @ [NUL]) ! i"
    using assms by (metis le_imp_less_Suc line_is_def nth_take)
  then show ?thesis using assms by (auto simp: buf_get_def line_is_def cstr_at_def nth_append)
qed

lemma line_copy:
  "line_is t st \<Longrightarrow> i + n \<le> length t \<Longrightarrow> copy_bytes n (int i) st = Inr (take n (drop i t))"
proof (induction n arbitrary: i)
  case (Suc n)
  have i: "i < length t" using Suc.prems(2) by simp
  then have "t ! i \<noteq> NUL" using Suc.prems(1) by (auto simp: line_is_def in_set_conv_nth)
  moreover have "copy_bytes n (int i + 1) st = Inr (take n (drop (Suc i) t))"
    using Suc.IH [of "Suc i"] Suc.prems by (simp add: add.commute)
  ultimately show ?case
    using line_get [OF Suc.prems(1), of i] i Cons_nth_drop_Suc [OF i] by (simp add: cstr_at_def) (metis take_Suc_Cons)
qed simp

lemma copy_text:
  assumes "line_is t st" and "a \<le> b" and "b \<le> length t"
  shows "rl_copy_text (int a) (int b) st = Inr (take (b - a) (drop a t))"
    "rl_copy_text (int b) (int a) st = Inr (take (b - a) (drop a t))"
proof -
  have "nat (int b - int a) = b - a" by simp
  then show "rl_copy_text (int a) (int b) st = Inr (take (b - a) (drop a t))"
    "rl_copy_text (int b) (int a) st = Inr (take (b - a) (drop a t))"
    using line_copy [OF assms(1), of a "b - a"] assms(2,3) by (auto simp: rl_copy_text_def)
qed

lemma extend_buffer:
  assumes "int (length (rl_line_buffer st)) = rl_line_buffer_len st"
  shows "\<exists>b n. rl_extend_line_buffer len st = st\<lparr>rl_line_buffer := b, rl_line_buffer_len := n\<rparr> \<and>
    int (length b) = n \<and> len < n \<and> length (rl_line_buffer st) \<le> length b \<and>
    take (length (rl_line_buffer st)) b = rl_line_buffer st"
  using assms
proof (induction len st rule: rl_extend_line_buffer.induct)
  case (1 len st)
  show ?case
  proof (cases "len \<ge> rl_line_buffer_len st")
    case False
    then show ?thesis
      using 1(2) by (intro exI [of _ "rl_line_buffer st"] exI [of _ "rl_line_buffer_len st"])
        (simp add: rl_extend_line_buffer.simps)
  next
    case True
    define size where "size = rl_line_buffer_len st + int DEFAULT_BUFFER_SIZE"
    define blk where "blk = xrealloc (rl_junk st) (nat size) (rl_line_buffer st)"
    define st1 where "st1 = st\<lparr>rl_line_buffer_len := size, rl_line_buffer := blk\<rparr>"
    have blk: "int (length blk) = size" "length (rl_line_buffer st) \<le> length blk"
      "take (length (rl_line_buffer st)) blk = rl_line_buffer st"
      using 1(2) by (auto simp: blk_def size_def xrealloc_def DEFAULT_BUFFER_SIZE_def)
    have "int (length (rl_line_buffer st1)) = rl_line_buffer_len st1" using blk(1) by (simp add: st1_def)
    from 1(1) [OF True size_def] this obtain b n where b: "rl_extend_line_buffer len st1 = st1\<lparr>rl_line_buffer := b, rl_line_buffer_len := n\<rparr>"
      "int (length b) = n" "len < n" "length blk \<le> length b" "take (length blk) b = blk"
      by (auto simp: st1_def blk_def)
    have "take (length (rl_line_buffer st)) b = rl_line_buffer st"
      using b(5) blk(2,3) by (metis min.absorb1 take_take)
    moreover have "rl_extend_line_buffer len st = st\<lparr>rl_line_buffer := b, rl_line_buffer_len := n\<rparr>"
      using b(1) True by (subst rl_extend_line_buffer.simps)
        (simp add: Let_def st1_def size_def [symmetric] blk_def [symmetric])
    ultimately show ?thesis using b blk(2) by (metis le_trans)
  qed
qed

lemma shift_up_block:
  "k + n + l \<le> length b \<Longrightarrow> 0 < l \<Longrightarrow> rl_line_buffer st = b \<Longrightarrow>
    shift_up n (int (k + n) - 1) (int l) st =
      Inr (st\<lparr>rl_line_buffer := take (k + l) b @ take n (drop k b) @ drop (k + n + l) b\<rparr>)"
proof (induction n arbitrary: b st)
  case (Suc n)
  define c where "c = b ! (k + n)"
  define b1 where "b1 = take (k + n + l) b @ c # drop (Suc (k + n + l)) b"
  have len: "k + n + l < length b" "k + n < length b" using Suc.prems by simp_all
  have get: "buf_get (int (k + Suc n) - 1) st = Inr c"
    using len Suc.prems(3) by (simp add: buf_get_def c_def nat_add_distrib)
  have "nat (int (k + Suc n) - 1 + int l) = k + n + l" by simp
  then have put: "buf_put (int (k + Suc n) - 1 + int l) [c] st = Inr (st\<lparr>rl_line_buffer := b1\<rparr>)"
    using len Suc.prems(3) by (simp add: buf_put_def put_bytes_def b1_def)
  have l1: "length b1 = length b" using len by (simp add: b1_def)
  have "shift_up n (int (k + n) - 1) (int l) (st\<lparr>rl_line_buffer := b1\<rparr>) =
      Inr (st\<lparr>rl_line_buffer := take (k + l) b1 @ take n (drop k b1) @ drop (k + n + l) b1\<rparr>)"
    using Suc.IH [of b1 "st\<lparr>rl_line_buffer := b1\<rparr>"] Suc.prems l1 by simp
  moreover have "take (k + l) b1 = take (k + l) b" using len by (simp add: b1_def)
  moreover have "take n (drop k b1) = take n (drop k b)"
    using len Suc.prems(2) by (simp add: b1_def take_drop [symmetric] min_def) (simp add: drop_take)
  moreover have "drop (k + n + l) b1 = c # drop (Suc (k + n + l)) b" using len by (simp add: b1_def)
  moreover have "take (Suc n) (drop k b) = take n (drop k b) @ [c]"
    using len by (simp add: take_Suc_conv_app_nth c_def)
  ultimately show ?case using get put by (simp add: algebra_simps)
qed simp

lemma shift_left_block:
  "k + d + n \<le> length b \<Longrightarrow> rl_line_buffer st = b \<Longrightarrow>
    shift_left n (int k) (int d) st =
      Inr (st\<lparr>rl_line_buffer := take k b @ take n (drop (k + d) b) @ drop (k + n) b\<rparr>)"
proof (induction n arbitrary: k b st)
  case (Suc n)
  define c where "c = b ! (k + d)"
  define b1 where "b1 = take k b @ c # drop (Suc k) b"
  have len: "k + d < length b" "k < length b" using Suc.prems by simp_all
  have get: "buf_get (int k + int d) st = Inr c" using len Suc.prems(2) by (simp add: buf_get_def c_def nat_add_distrib)
  have put: "buf_put (int k) [c] st = Inr (st\<lparr>rl_line_buffer := b1\<rparr>)"
    using len Suc.prems(2) by (simp add: buf_put_def put_bytes_def b1_def)
  have l1: "length b1 = length b" using len by (simp add: b1_def)
  have "shift_left n (int (Suc k)) (int d) (st\<lparr>rl_line_buffer := b1\<rparr>) =
      Inr (st\<lparr>rl_line_buffer := take (Suc k) b1 @ take n (drop (Suc k + d) b1) @ drop (Suc k + n) b1\<rparr>)"
    using Suc.IH [of "Suc k" b1 "st\<lparr>rl_line_buffer := b1\<rparr>"] Suc.prems l1 by simp
  moreover have "take (Suc k) b1 = take k b @ [c]" "drop (Suc k + d) b1 = drop (Suc k + d) b"
    "drop (Suc k + n) b1 = drop (Suc k + n) b"
    using len by (simp_all add: b1_def Suc_diff_le add.commute)
  moreover have "take (Suc n) (drop (k + d) b) = c # take n (drop (Suc (k + d)) b)"
    using len by (metis Cons_nth_drop_Suc c_def take_Suc_Cons)
  ultimately show ?case using get put by (simp add: algebra_simps)
qed simp

section \<open>The undo list\<close>

text \<open>The entries from an address on. An entry is older than the one that points to it.\<close>

fun undo_chain :: "(nat \<Rightarrow> undo_entry option) \<Rightarrow> nat \<Rightarrow> undo_entry list \<Rightarrow> bool" where
  "undo_chain h a [] \<longleftrightarrow> a = 0"
| "undo_chain h a (e # es) \<longleftrightarrow> a \<noteq> 0 \<and> h a = Some e \<and> ue_next e < a \<and> undo_chain h (ue_next e) es"

lemma chain_update: "undo_chain h a es \<Longrightarrow> a < x \<Longrightarrow> undo_chain (h(x := v)) a es"
  by (induction h a es rule: undo_chain.induct) auto

lemma chain_length: "undo_chain h a es \<Longrightarrow> length es \<le> a"
  by (induction h a es rule: undo_chain.induct) auto

definition undo_is :: "undo_entry list \<Rightarrow> rl_state \<Rightarrow> bool" where
  "undo_is es st \<longleftrightarrow> undo_chain (rl_undos st) (rl_undo_list st) es \<and> rl_undo_list st < rl_fresh st"

text \<open>What undoing an entry makes of a text, and which texts it can be undone in.\<close>

definition undo_step :: "undo_entry \<Rightarrow> string \<Rightarrow> string" where
  "undo_step e t =
     (case ue_what e of
        UNDO_DELETE \<Rightarrow> take (nat (ue_start e)) t @ the (ue_text e) @ drop (nat (ue_start e)) t
      | UNDO_INSERT \<Rightarrow> take (nat (ue_start e)) t @ drop (nat (ue_end e)) t
      | _ \<Rightarrow> t)"

definition undo_valid :: "undo_entry \<Rightarrow> string \<Rightarrow> bool" where
  "undo_valid e t \<longleftrightarrow>
     (case ue_what e of
        UNDO_DELETE \<Rightarrow> 0 \<le> ue_start e \<and> ue_start e \<le> int (length t) \<and> (\<exists>x. ue_text e = Some x \<and> NUL \<notin> set x)
      | UNDO_INSERT \<Rightarrow> 0 \<le> ue_start e \<and> ue_start e \<le> ue_end e \<and> ue_end e \<le> int (length t)
      | _ \<Rightarrow> True)"

fun undo_gives :: "string \<Rightarrow> undo_entry list \<Rightarrow> string \<Rightarrow> bool" where
  "undo_gives base [] t \<longleftrightarrow> t = base"
| "undo_gives base (e # es) t \<longleftrightarrow> undo_valid e t \<and> undo_gives base es (undo_step e t)"

lemma add_undo_run:
  assumes "undo_is es st"
  shows "\<exists>h. rl_add_undo what a b x st = Inr (st\<lparr>rl_undos := h, rl_fresh := Suc (rl_fresh st), rl_undo_list := rl_fresh st\<rparr>) \<and>
    undo_is (\<lparr>ue_next = rl_undo_list st, ue_start = a, ue_end = b, ue_text = x, ue_what = what\<rparr> # es)
      (st\<lparr>rl_undos := h, rl_fresh := Suc (rl_fresh st), rl_undo_list := rl_fresh st\<rparr>)"
  using assms chain_update [of "rl_undos st" "rl_undo_list st" es "rl_fresh st"]
  by (intro exI [of _ "(rl_undos st)(rl_fresh st \<mapsto>
        \<lparr>ue_next = rl_undo_list st, ue_start = a, ue_end = b, ue_text = x, ue_what = what\<rparr>)"])
    (auto simp: undo_is_def rl_add_undo_def alloc_undo_entry_def undo_at_def set_undo_def)

section \<open>The invariant\<close>

definition line_text :: "rl_state \<Rightarrow> string" where
  "line_text st = take (nat (rl_end st)) (rl_line_buffer st)"

lemma line_text_is: "line_is t st \<Longrightarrow> line_text st = t"
proof -
  assume l: "line_is t st"
  then have "take (length t) (take (Suc (length t)) (rl_line_buffer st)) = take (length t) (t @ [NUL])"
    by (simp add: line_is_def)
  then show ?thesis using l by (simp add: line_text_def line_is_def min_def)
qed

text \<open>The lines of the history with their undo lists; the position is in the list or behind it.\<close>

definition hist_lines :: "hist_state \<Rightarrow> (string \<times> nat) list" where
  "hist_lines h = map (\<lambda>e. (the (he_line e), he_data e)) (sp_entries (hist_abs h))"

definition lines_ok :: "hist_state \<Rightarrow> bool" where
  "lines_ok h \<longleftrightarrow>
     hist_inv h \<and> (\<forall>l \<in> set (hist_lines h). NUL \<notin> set (fst l)) \<and>
     0 \<le> history_offset h \<and> history_offset h \<le> history_length h"

text \<open>The same texts, at the same position.\<close>

definition same_lines :: "hist_state \<Rightarrow> hist_state \<Rightarrow> bool" where
  "same_lines h h' \<longleftrightarrow> history_offset h' = history_offset h \<and> map fst (hist_lines h') = map fst (hist_lines h)"

lemma same_lines_refl [simp]: "same_lines h h"
  by (simp add: same_lines_def)

lemma same_lines_trans: "same_lines h1 h2 \<Longrightarrow> same_lines h2 h3 \<Longrightarrow> same_lines h1 h3"
  by (simp add: same_lines_def)

lemma replace_data_lines:
  assumes "lines_ok h"
  shows "\<exists>hs. replace_history_data (-1) old new h = Inr hs \<and> lines_ok hs \<and> history_offset hs = history_offset h \<and>
    hist_lines hs = map (\<lambda>l. if snd l = old then (fst l, new) else l) (hist_lines h)"
proof -
  have inv: "hist_inv h" using assms by (simp add: lines_ok_def)
  from replace_data_refines [OF inv, of NUL "-1" old new] obtain hs where
    hs: "replace_history_data (-1) old new h = Inr hs" "hist_inv hs"
      "hist_abs hs = (hist_abs h)\<lparr>sp_entries := map (set_data old new) (sp_entries (hist_abs h))\<rparr>"
    using length_abs [OF inv] by (auto simp: hist_step_def hist_spec_step_def Let_def)
  have l: "hist_lines hs = map (\<lambda>l. if snd l = old then (fst l, new) else l) (hist_lines h)"
    by (simp add: hist_lines_def hs(3) set_data_def)
  have "history_offset hs = history_offset h" using arg_cong [OF hs(3), of sp_offset] by (simp add: hist_abs_def)
  moreover have "history_length hs = history_length h"
    using length_abs [OF inv] length_abs [OF hs(2)] by (simp add: hs(3))
  ultimately show ?thesis using assms hs(1,2) l by (auto simp: lines_ok_def)
qed

text \<open>
  What editing goes back to: the text the undo list leads to, and the setting of the line, which no editing command
  changes: the texts of the history, the position in it, and whether all lines are reverted at the end.
\<close>

type_synonym line_setting = "string list \<times> int \<times> bool"
type_synonym edit_base = "string \<times> line_setting"

definition setting :: "rl_state \<Rightarrow> line_setting" where
  "setting st = (map fst (hist_lines (rl_history st)), history_offset (rl_history st), rl_revert_all_at_newline st)"

text \<open>A line whose undo list leads back to \<open>base\<close>; in the second, the point is in the line, too.\<close>

definition lined :: "edit_base \<Rightarrow> rl_state \<Rightarrow> bool" where
  "lined base st \<longleftrightarrow>
     line_is (line_text st) st \<and> (\<exists>es. undo_is es st \<and> undo_gives (fst base) es (line_text st)) \<and>
     lines_ok (rl_history st) \<and> setting st = snd base \<and> \<not> rl_doing_an_undo st"

definition editing :: "edit_base \<Rightarrow> rl_state \<Rightarrow> bool" where
  "editing base st \<longleftrightarrow> lined base st \<and> 0 \<le> rl_point st \<and> rl_point st \<le> rl_end st"

lemma line_text_frame [simp]:
  "line_text (st\<lparr>rl_point := i\<rparr>) = line_text st" "line_text (st\<lparr>rl_mark := i\<rparr>) = line_text st"
  "line_text (st\<lparr>rl_dings := k\<rparr>) = line_text st" "line_text (st\<lparr>rl_undo_group_level := l\<rparr>) = line_text st"
  "line_text (st\<lparr>rl_undos := h\<rparr>) = line_text st" "line_text (st\<lparr>rl_fresh := k\<rparr>) = line_text st"
  "line_text (st\<lparr>rl_undo_list := k\<rparr>) = line_text st" "line_text (st\<lparr>rl_doing_an_undo := d\<rparr>) = line_text st"
  "line_text (st\<lparr>rl_history := hs\<rparr>) = line_text st"
  by (simp_all add: line_text_def)

lemma line_is_frame [simp]:
  "line_is t (st\<lparr>rl_point := i\<rparr>) = line_is t st" "line_is t (st\<lparr>rl_mark := i\<rparr>) = line_is t st"
  "line_is t (st\<lparr>rl_dings := k\<rparr>) = line_is t st" "line_is t (st\<lparr>rl_undo_group_level := l\<rparr>) = line_is t st"
  "line_is t (st\<lparr>rl_undos := h\<rparr>) = line_is t st" "line_is t (st\<lparr>rl_fresh := k\<rparr>) = line_is t st"
  "line_is t (st\<lparr>rl_undo_list := k\<rparr>) = line_is t st" "line_is t (st\<lparr>rl_doing_an_undo := d\<rparr>) = line_is t st"
  "line_is t (st\<lparr>rl_history := hs\<rparr>) = line_is t st"
  by (simp_all add: line_is_def)

lemma undo_is_frame [simp]:
  "undo_is es (st\<lparr>rl_point := i\<rparr>) = undo_is es st" "undo_is es (st\<lparr>rl_mark := i\<rparr>) = undo_is es st"
  "undo_is es (st\<lparr>rl_dings := k\<rparr>) = undo_is es st" "undo_is es (st\<lparr>rl_undo_group_level := l\<rparr>) = undo_is es st"
  "undo_is es (st\<lparr>rl_end := i\<rparr>) = undo_is es st" "undo_is es (st\<lparr>rl_line_buffer := b\<rparr>) = undo_is es st"
  "undo_is es (st\<lparr>rl_line_buffer_len := i\<rparr>) = undo_is es st" "undo_is es (st\<lparr>rl_doing_an_undo := d\<rparr>) = undo_is es st"
  "undo_is es (st\<lparr>rl_history := hs\<rparr>) = undo_is es st"
  by (simp_all add: undo_is_def)

lemma setting_frame [simp]:
  "setting (st\<lparr>rl_point := i\<rparr>) = setting st" "setting (st\<lparr>rl_mark := i\<rparr>) = setting st"
  "setting (st\<lparr>rl_dings := k\<rparr>) = setting st" "setting (st\<lparr>rl_undo_group_level := l\<rparr>) = setting st"
  "setting (st\<lparr>rl_undos := h\<rparr>) = setting st" "setting (st\<lparr>rl_fresh := k\<rparr>) = setting st"
  "setting (st\<lparr>rl_undo_list := k\<rparr>) = setting st" "setting (st\<lparr>rl_doing_an_undo := d\<rparr>) = setting st"
  "setting (st\<lparr>rl_end := i\<rparr>) = setting st" "setting (st\<lparr>rl_line_buffer := b\<rparr>) = setting st"
  "setting (st\<lparr>rl_line_buffer_len := i\<rparr>) = setting st"
  by (simp_all add: setting_def)

lemma lined_frame [simp]:
  "lined base (st\<lparr>rl_point := i\<rparr>) = lined base st" "lined base (st\<lparr>rl_mark := i\<rparr>) = lined base st"
  "lined base (st\<lparr>rl_dings := k\<rparr>) = lined base st" "lined base (st\<lparr>rl_undo_group_level := l\<rparr>) = lined base st"
  by (simp_all add: lined_def)

lemma lined_cong:
  assumes "rl_line_buffer st' = rl_line_buffer st" "rl_line_buffer_len st' = rl_line_buffer_len st" "rl_end st' = rl_end st"
    "rl_undos st' = rl_undos st" "rl_undo_list st' = rl_undo_list st" "rl_fresh st' = rl_fresh st"
    "rl_history st' = rl_history st" "rl_doing_an_undo st' = rl_doing_an_undo st"
    "rl_revert_all_at_newline st' = rl_revert_all_at_newline st"
  shows "lined base st' = lined base st" "line_text st' = line_text st"
  using assms by (simp_all add: lined_def line_text_def line_is_def undo_is_def setting_def)

text \<open>What an operation leaves alone.\<close>

definition same_rest :: "rl_state \<Rightarrow> rl_state \<Rightarrow> bool" where
  "same_rest st st' \<longleftrightarrow>
     st' = st\<lparr>rl_line_buffer := rl_line_buffer st', rl_line_buffer_len := rl_line_buffer_len st', rl_point := rl_point st',
       rl_end := rl_end st', rl_undos := rl_undos st', rl_fresh := rl_fresh st', rl_undo_list := rl_undo_list st',
       rl_doing_an_undo := rl_doing_an_undo st', rl_undo_group_level := rl_undo_group_level st', rl_dings := rl_dings st',
       rl_history := rl_history st'\<rparr>"

lemma same_restI:
  "st' = st\<lparr>rl_line_buffer := b, rl_line_buffer_len := n, rl_point := p, rl_end := e, rl_undos := u, rl_fresh := f,
    rl_undo_list := l, rl_doing_an_undo := d, rl_undo_group_level := g, rl_dings := k, rl_history := h\<rparr> \<Longrightarrow> same_rest st st'"
  by (simp add: same_rest_def)

lemma same_restE:
  assumes "same_rest st st'"
  obtains b n p e u f l d g k h where
    "st' = st\<lparr>rl_line_buffer := b, rl_line_buffer_len := n, rl_point := p, rl_end := e, rl_undos := u, rl_fresh := f,
      rl_undo_list := l, rl_doing_an_undo := d, rl_undo_group_level := g, rl_dings := k, rl_history := h\<rparr>"
  using that assms unfolding same_rest_def by blast

lemma same_rest_refl [simp]: "same_rest st st"
  by (simp add: same_rest_def)

lemma setting_kept:
  "same_rest st st' \<Longrightarrow> same_lines (rl_history st) (rl_history st') \<Longrightarrow> lines_ok (rl_history st) \<Longrightarrow> lines_ok (rl_history st') \<Longrightarrow>
    setting st' = setting st"
  by (elim same_restE) (simp add: setting_def same_lines_def lines_ok_def)

lemma same_rest_trans: "same_rest st1 st2 \<Longrightarrow> same_rest st2 st3 \<Longrightarrow> same_rest st1 st3"
  by (cases st1; cases st2; cases st3) (simp add: same_rest_def)

section \<open>Insertion\<close>

definition insert_at :: "nat \<Rightarrow> string \<Rightarrow> string \<Rightarrow> string" where
  "insert_at p s t = take p t @ s @ drop p t"

definition cut_out :: "nat \<Rightarrow> nat \<Rightarrow> string \<Rightarrow> string" where
  "cut_out a b t = take a t @ drop b t"

lemma length_insert_at [simp]: "p \<le> length t \<Longrightarrow> length (insert_at p s t) = length t + length s"
  by (simp add: insert_at_def)

lemma length_cut_out [simp]: "a \<le> b \<Longrightarrow> b \<le> length t \<Longrightarrow> length (cut_out a b t) = length t - (b - a)"
  by (simp add: cut_out_def)

lemma cut_out_insert_at: "p \<le> length t \<Longrightarrow> cut_out p (p + length s) (insert_at p s t) = t"
  by (simp add: cut_out_def insert_at_def)

lemma insert_at_cut_out: "a \<le> b \<Longrightarrow> b \<le> length t \<Longrightarrow> insert_at a (take (b - a) (drop a t)) (cut_out a b t) = t"
  by (simp add: cut_out_def insert_at_def) (metis append_take_drop_id drop_drop le_add_diff_inverse2)

lemma put_terminator: "line_is t st \<Longrightarrow> buf_put (int (length t)) [NUL] st = Inr st"
proof -
  assume l: "line_is t st"
  then have len: "length t < length (rl_line_buffer st)" by (simp add: line_is_def)
  have "rl_line_buffer st ! length t = (t @ [NUL]) ! length t"
    using l by (metis lessI line_is_def nth_take)
  then have "take (length t) (rl_line_buffer st) @ NUL # drop (Suc (length t)) (rl_line_buffer st) = rl_line_buffer st"
    using id_take_nth_drop [OF len] by simp
  then show ?thesis using len by (simp add: buf_put_def put_bytes_def)
qed

text \<open>The buffer with room for the text, the tail moved up and the text put in.\<close>

lemma insert_buffer:
  assumes "line_is t st" and "rl_point st = int p" and "p \<le> length t" and "s \<noteq> []" and "NUL \<notin> set s"
  shows "\<exists>b n. line_is (insert_at p s t)
        (st\<lparr>rl_line_buffer := b, rl_line_buffer_len := n, rl_end := rl_end st + int (length s)\<rparr>) \<and>
    length (rl_line_buffer st) \<le> length b \<and>
    rl_insert_text (Some s) st =
      bind_run (if rl_doing_an_undo st then Inr (st\<lparr>rl_line_buffer := b, rl_line_buffer_len := n\<rparr>)
                else remember_insert (int (length s)) (st\<lparr>rl_line_buffer := b, rl_line_buffer_len := n\<rparr>)) (\<lambda>st1.
      bind_run (buf_put (rl_end st1 + int (length s)) [NUL]
        (st1\<lparr>rl_point := rl_point st1 + int (length s), rl_end := rl_end st1 + int (length s)\<rparr>)) (\<lambda>st2.
      Inr (int (length s), st2)))"
proof -
  let ?l = "length s"
  define st0 where "st0 = (if rl_end st + int ?l \<ge> rl_line_buffer_len st then rl_extend_line_buffer (rl_end st + int ?l) st else st)"
  have lo: "int (length (rl_line_buffer st)) = rl_line_buffer_len st" "rl_end st = int (length t)"
    "length t < length (rl_line_buffer st)" "take (Suc (length t)) (rl_line_buffer st) = t @ [NUL]" "NUL \<notin> set t"
    using assms(1) by (auto simp: line_is_def)
  have "\<exists>b n. st0 = st\<lparr>rl_line_buffer := b, rl_line_buffer_len := n\<rparr> \<and> int (length b) = n \<and> rl_end st + int ?l < n \<and>
      length (rl_line_buffer st) \<le> length b \<and> take (length (rl_line_buffer st)) b = rl_line_buffer st"
  proof (cases "rl_end st + int ?l \<ge> rl_line_buffer_len st")
    case True
    then show ?thesis using extend_buffer [OF lo(1), of "rl_end st + int ?l"] by (simp add: st0_def)
  next
    case False
    then show ?thesis using lo(1)
      by (intro exI [of _ "rl_line_buffer st"] exI [of _ "rl_line_buffer_len st"]) (simp add: st0_def)
  qed
  then obtain b n where b: "st0 = st\<lparr>rl_line_buffer := b, rl_line_buffer_len := n\<rparr>" "int (length b) = n"
    "length t + ?l < length b" "take (length (rl_line_buffer st)) b = rl_line_buffer st"
    "length (rl_line_buffer st) \<le> length b" using lo(2) by auto
  have tb: "take (Suc (length t)) b = t @ [NUL]"
    using lo(3,4) b(4) by (metis Suc_leI min.absorb1 take_take)
  have tp: "take p b = take p t"
    using arg_cong [OF tb, of "take p"] assms(3) by (simp add: min_def split: if_splits)
  have td: "take (length t - p + 1) (drop p b) = drop p t @ [NUL]"
    using arg_cong [OF tb, of "drop p"] assms(3) by (simp add: drop_take Suc_diff_le)
  define b1 where "b1 = take (p + ?l) b @ (drop p t @ [NUL]) @ drop (p + (length t - p + 1) + ?l) b"
  have "shift_up (length t - p + 1) (int (p + (length t - p + 1)) - 1) (int ?l) st0 = Inr (st0\<lparr>rl_line_buffer := b1\<rparr>)"
    using shift_up_block [of p "length t - p + 1" ?l b st0] b assms(3,4) td by (simp add: b1_def)
  moreover have "int (p + (length t - p + 1)) - 1 = rl_end st0" "nat (rl_end st0 - rl_point st0 + 1) = length t - p + 1"
    using assms(2,3) lo(2) b(1) by simp_all
  ultimately have up: "shift_up (nat (rl_end st0 - rl_point st0 + 1)) (rl_end st0) (int ?l) st0 = Inr (st0\<lparr>rl_line_buffer := b1\<rparr>)"
    by (metis (no_types))
  define b2 where "b2 = take p t @ s @ drop p t @ NUL # drop (Suc (length t + ?l)) b"
  have l1: "length b1 = length b" using b(3) assms(3) by (simp add: b1_def)
  have "take p b1 @ s @ drop (p + ?l) b1 = b2"
    using tp b(3) assms(3) by (simp add: b1_def b2_def min_def)
  then have put: "buf_put (rl_point st0) s (st0\<lparr>rl_line_buffer := b1\<rparr>) = Inr (st0\<lparr>rl_line_buffer := b2\<rparr>)"
    using b(1,3) l1 assms(2,3) by (simp add: buf_put_def put_bytes_def)
  have l2: "length b2 = length b" using b(3) assms(3) by (simp add: b2_def)
  have "line_is (insert_at p s t)
        (st\<lparr>rl_line_buffer := b2, rl_line_buffer_len := n, rl_end := rl_end st + int ?l\<rparr>)"
    using l2 b(2,3) assms(3,5) lo(2,5)
    by (auto simp: line_is_def b2_def insert_at_def dest: in_set_takeD in_set_dropD)
  moreover have "st0\<lparr>rl_line_buffer := b2\<rparr> = st\<lparr>rl_line_buffer := b2, rl_line_buffer_len := n\<rparr>" by (simp add: b(1))
  moreover have "rl_doing_an_undo (st\<lparr>rl_line_buffer := b2, rl_line_buffer_len := n\<rparr>) = rl_doing_an_undo st" by simp
  ultimately show ?thesis
    using up put assms(4) b(5) l2
    by (intro exI [of _ b2] exI [of _ n]) (simp add: rl_insert_text_def Let_def st0_def [symmetric] del: shift_up.simps)
qed

lemma remember_insert_run:
  assumes "undo_is es st" and "undo_gives base es t" and "rl_point st = int p" and "p \<le> length t" and "s \<noteq> []"
  shows "\<exists>h f u es'. remember_insert (int (length s)) st = Inr (st\<lparr>rl_undos := h, rl_fresh := f, rl_undo_list := u\<rparr>) \<and>
    undo_is es' (st\<lparr>rl_undos := h, rl_fresh := f, rl_undo_list := u\<rparr>) \<and> rl_fresh st \<le> f \<and>
    undo_gives base es' (insert_at p s t)"
proof -
  have add: "\<exists>h f u es'. rl_add_undo UNDO_INSERT (rl_point st) (rl_point st + int (length s)) None st =
        Inr (st\<lparr>rl_undos := h, rl_fresh := f, rl_undo_list := u\<rparr>) \<and>
      undo_is es' (st\<lparr>rl_undos := h, rl_fresh := f, rl_undo_list := u\<rparr>) \<and> rl_fresh st \<le> f \<and>
      undo_gives base es' (insert_at p s t)"
  proof -
    let ?e = "\<lparr>ue_next = rl_undo_list st, ue_start = rl_point st, ue_end = rl_point st + int (length s), ue_text = None,
      ue_what = UNDO_INSERT\<rparr>"
    have "undo_gives base (?e # es) (insert_at p s t)"
      using assms(2-4) cut_out_insert_at [OF assms(4), of s]
      by (simp add: undo_valid_def undo_step_def cut_out_def nat_add_distrib)
    then show ?thesis
      using add_undo_run [OF assms(1), of UNDO_INSERT "rl_point st" "rl_point st + int (length s)" None] by (metis le_SucI order_refl)
  qed
  show ?thesis
  proof (cases "length s = 1 \<and> rl_undo_list st \<noteq> 0")
    case False
    then have "remember_insert (int (length s)) st =
        rl_add_undo UNDO_INSERT (rl_point st) (rl_point st + int (length s)) None st"
      by (auto simp: remember_insert_def)
    then show ?thesis using add by simp
  next
    case True
    then obtain e es0 where es: "es = e # es0" "rl_undos st (rl_undo_list st) = Some e" "ue_next e < rl_undo_list st"
      "undo_chain (rl_undos st) (ue_next e) es0"
      using assms(1) by (cases es) (auto simp: undo_is_def)
    have at: "undo_at (rl_undo_list st) st = Inr e" using True es by (simp add: undo_at_def)
    show ?thesis
    proof (cases "ue_what e = UNDO_INSERT \<and> ue_end e = rl_point st \<and> ue_end e - ue_start e < 20")
      case no: False
      have "remember_insert (int (length s)) st =
          rl_add_undo UNDO_INSERT (rl_point st) (rl_point st + int (length s)) None st"
        using True at no by (auto simp: remember_insert_def)
      then show ?thesis using add by simp
    next
      case yes: True
      define e1 where "e1 = e\<lparr>ue_end := ue_end e + 1\<rparr>"
      define h where "h = (rl_undos st)(rl_undo_list st \<mapsto> e1)"
      have run: "remember_insert (int (length s)) st =
          Inr (st\<lparr>rl_undos := h, rl_fresh := rl_fresh st, rl_undo_list := rl_undo_list st\<rparr>)"
        using True at yes by (simp add: remember_insert_def set_undo_def h_def e1_def)
      have "undo_is (e1 # es0) (st\<lparr>rl_undos := h, rl_fresh := rl_fresh st, rl_undo_list := rl_undo_list st\<rparr>)"
        using assms(1) es True chain_update [OF es(4,3)] by (simp add: undo_is_def h_def e1_def)
      moreover have v: "undo_valid e t" "undo_gives base es0 (undo_step e t)" using assms(2) es(1) by auto
      have start: "0 \<le> ue_start e" "nat (ue_start e) \<le> p" using v(1) yes assms(3) by (auto simp: undo_valid_def nat_le_iff)
      have "undo_step e1 (insert_at p s t) = undo_step e t"
        using yes start assms(3,4) True
        by (simp add: undo_step_def e1_def insert_at_def nat_add_distrib)
      then have "undo_gives base (e1 # es0) (insert_at p s t)"
        using v yes start assms(3,4) True by (simp add: undo_valid_def e1_def)
      ultimately show ?thesis using run by blast
    qed
  qed
qed

text \<open>The insertion while an entry is undone, and one that is remembered.\<close>

lemma insert_undoing:
  assumes "line_is t st" and "rl_point st = int p" and "p \<le> length t" and "NUL \<notin> set s" and "rl_doing_an_undo st"
  shows "\<exists>b n. rl_insert_text (Some s) st = Inr (int (length s),
      st\<lparr>rl_line_buffer := b, rl_line_buffer_len := n, rl_point := rl_point st + int (length s),
         rl_end := rl_end st + int (length s)\<rparr>) \<and>
    line_is (insert_at p s t) (st\<lparr>rl_line_buffer := b, rl_line_buffer_len := n, rl_end := rl_end st + int (length s)\<rparr>) \<and>
    length (rl_line_buffer st) \<le> length b"
proof (cases "s = []")
  case True
  then show ?thesis using assms(1)
    by (intro exI [of _ "rl_line_buffer st"] exI [of _ "rl_line_buffer_len st"]) (simp add: rl_insert_text_def insert_at_def)
next
  case False
  from insert_buffer [OF assms(1-3) False assms(4)] obtain b n where
    l: "line_is (insert_at p s t) (st\<lparr>rl_line_buffer := b, rl_line_buffer_len := n, rl_end := rl_end st + int (length s)\<rparr>)"
    and g: "length (rl_line_buffer st) \<le> length b"
    and r: "rl_insert_text (Some s) st =
      bind_run (if rl_doing_an_undo st then Inr (st\<lparr>rl_line_buffer := b, rl_line_buffer_len := n\<rparr>)
                else remember_insert (int (length s)) (st\<lparr>rl_line_buffer := b, rl_line_buffer_len := n\<rparr>)) (\<lambda>st1.
      bind_run (buf_put (rl_end st1 + int (length s)) [NUL]
        (st1\<lparr>rl_point := rl_point st1 + int (length s), rl_end := rl_end st1 + int (length s)\<rparr>)) (\<lambda>st2.
      Inr (int (length s), st2)))" by blast
  let ?st2 = "st\<lparr>rl_line_buffer := b, rl_line_buffer_len := n, rl_point := rl_point st + int (length s),
     rl_end := rl_end st + int (length s)\<rparr>"
  have "line_is (insert_at p s t) ?st2" using l by (simp add: line_is_def)
  from put_terminator [OF this] have "buf_put (rl_end st + int (length s)) [NUL] ?st2 = Inr ?st2"
    using assms(1,3) by (simp add: line_is_def)
  then show ?thesis using l r g assms(5)
    by (intro exI [of _ b] exI [of _ n]) simp
qed

lemma editing_cases:
  assumes "editing base st"
  obtains t p es where "line_text st = t" "line_is t st" "rl_end st = int (length t)" "rl_point st = int p" "p \<le> length t"
    "undo_is es st" "undo_gives (fst base) es t" "lines_ok (rl_history st)" "\<not> rl_doing_an_undo st" "setting st = snd base"
proof -
  from assms have l: "line_is (line_text st) st" and p: "0 \<le> rl_point st" "rl_point st \<le> rl_end st"
    by (simp_all add: editing_def lined_def)
  have e: "rl_end st = int (length (line_text st))" using l by (simp add: line_is_def)
  moreover have "rl_point st = int (nat (rl_point st))" "nat (rl_point st) \<le> length (line_text st)" using p e by simp_all
  ultimately show thesis
    using that [of "line_text st" "nat (rl_point st)"] l assms unfolding editing_def lined_def by blast
qed

lemma editingI:
  "line_is t st \<Longrightarrow> 0 \<le> rl_point st \<Longrightarrow> rl_point st \<le> int (length t) \<Longrightarrow> undo_is es st \<Longrightarrow> undo_gives (fst base) es t \<Longrightarrow>
    lines_ok (rl_history st) \<Longrightarrow> \<not> rl_doing_an_undo st \<Longrightarrow> setting st = snd base \<Longrightarrow> editing base st \<and> line_text st = t"
  using line_text_is [of t st] by (auto simp: editing_def lined_def line_is_def)

lemma insert_editing:
  assumes "editing base st" and "NUL \<notin> set s"
  shows "\<exists>st'. rl_insert_text (Some s) st = Inr (int (length s), st') \<and> editing base st' \<and>
    line_text st' = insert_at (nat (rl_point st)) s (line_text st) \<and> rl_point st' = rl_point st + int (length s) \<and>
    same_rest st st'"
proof (cases "s = []")
  case True
  then show ?thesis using assms(1) by (intro exI [of _ st]) (simp add: rl_insert_text_def insert_at_def same_rest_def)
next
  case False
  from assms(1) obtain t p es where e: "line_text st = t" "line_is t st" "rl_end st = int (length t)"
    "rl_point st = int p" "p \<le> length t" "undo_is es st" "undo_gives (fst base) es t" "lines_ok (rl_history st)"
    "\<not> rl_doing_an_undo st" "setting st = snd base" by (rule editing_cases)
  from insert_buffer [OF e(2,4,5) False assms(2)] obtain b n where
    l: "line_is (insert_at p s t) (st\<lparr>rl_line_buffer := b, rl_line_buffer_len := n, rl_end := rl_end st + int (length s)\<rparr>)"
    and r: "rl_insert_text (Some s) st =
      bind_run (remember_insert (int (length s)) (st\<lparr>rl_line_buffer := b, rl_line_buffer_len := n\<rparr>)) (\<lambda>st1.
      bind_run (buf_put (rl_end st1 + int (length s)) [NUL]
        (st1\<lparr>rl_point := rl_point st1 + int (length s), rl_end := rl_end st1 + int (length s)\<rparr>)) (\<lambda>st2.
      Inr (int (length s), st2)))" using e(9) by auto
  let ?st1 = "st\<lparr>rl_line_buffer := b, rl_line_buffer_len := n\<rparr>"
  have "undo_is es ?st1" "rl_point ?st1 = int p" using e(4,6) by simp_all
  from remember_insert_run [OF this(1) e(7) this(2) e(5) False] obtain h f u es' where
    m: "remember_insert (int (length s)) ?st1 = Inr (?st1\<lparr>rl_undos := h, rl_fresh := f, rl_undo_list := u\<rparr>)"
    "undo_is es' (?st1\<lparr>rl_undos := h, rl_fresh := f, rl_undo_list := u\<rparr>)" "rl_fresh st \<le> f"
    "undo_gives (fst base) es' (insert_at p s t)" by auto
  define st2 where "st2 = ?st1\<lparr>rl_undos := h, rl_fresh := f, rl_undo_list := u, rl_point := rl_point st + int (length s),
    rl_end := rl_end st + int (length s)\<rparr>"
  have l2: "line_is (insert_at p s t) st2" using l by (simp add: line_is_def st2_def)
  have "rl_end st + int (length s) = int (length (insert_at p s t))" using e(3,5) by simp
  with put_terminator [OF l2] have "rl_insert_text (Some s) st = Inr (int (length s), st2)"
    using r m(1) by (simp add: st2_def)
  moreover have "undo_is es' st2" using m(2) by (simp add: st2_def undo_is_def)
  then have "editing base st2 \<and> line_text st2 = insert_at p s t"
    using l2 m(4) e(4,5,8-10) by (intro editingI [of _ _ es']) (simp_all add: st2_def)
  ultimately show ?thesis using e(1,4) by (intro exI [of _ st2]) (simp add: same_rest_def st2_def)
qed

section \<open>Deletion\<close>

lemma delete_buffer:
  assumes "line_is t st" and "a \<le> b" and "b \<le> length t"
  shows "\<exists>b1 b2. line_is (cut_out a b t) (st\<lparr>rl_line_buffer := b2, rl_end := rl_end st - int (b - a)\<rparr>) \<and>
    (\<forall>st1. rl_line_buffer st1 = b1 \<longrightarrow>
      buf_put (rl_end st - int (b - a)) [NUL] st1 = Inr (st1\<lparr>rl_line_buffer := b2\<rparr>)) \<and>
    rl_delete_text (int a) (int b) st =
      bind_run (if rl_doing_an_undo st then Inr (st\<lparr>rl_line_buffer := b1\<rparr>)
                else rl_add_undo UNDO_DELETE (int a) (int b) (Some (take (b - a) (drop a t))) (st\<lparr>rl_line_buffer := b1\<rparr>)) (\<lambda>st1.
      bind_run (buf_put (rl_end st1 - int (b - a)) [NUL] (st1\<lparr>rl_end := rl_end st1 - int (b - a)\<rparr>)) (\<lambda>st2.
      Inr (int (b - a), st2)))"
proof -
  let ?buf = "rl_line_buffer st"
  define n where "n = length t - (b - a)"
  define b1 where "b1 = take a t @ drop b t @ drop n ?buf"
  define b2 where "b2 = take a t @ drop b t @ NUL # drop (Suc n) ?buf"
  have lo: "int (length ?buf) = rl_line_buffer_len st" "rl_end st = int (length t)" "length t < length ?buf"
    "take (Suc (length t)) ?buf = t @ [NUL]" "NUL \<notin> set t"
    using assms(1) by (auto simp: line_is_def)
  have tp: "take a ?buf = take a t"
    using arg_cong [OF lo(4), of "take a"] assms(2,3) by (simp add: min_def split: if_splits)
  have "take (length t) ?buf = t" using arg_cong [OF lo(4), of "take (length t)"] by (simp add: min_def)
  then have td: "take (length t - b) (drop b ?buf) = drop b t" by (metis drop_take)
  have "shift_left (length t - b) (int a) (int (b - a)) st = Inr (st\<lparr>rl_line_buffer := b1\<rparr>)"
    using shift_left_block [of a "b - a" "length t - b" ?buf st] assms(2,3) lo(3) tp td by (simp add: b1_def n_def add.commute)
  moreover have "nat (rl_end st - (int b - int a) - int a) = length t - b" using lo(2) assms(3) by simp
  ultimately have sh: "shift_left (nat (rl_end st - (int b - int a) - int a)) (int a) (int b - int a) st =
      Inr (st\<lparr>rl_line_buffer := b1\<rparr>)" using assms(2) by (simp add: of_nat_diff)
  have len: "length b1 = length ?buf" "length b2 = length ?buf" "rl_end st - int (b - a) = int n"
    using lo(2,3) assms(2,3) by (simp_all add: b1_def b2_def n_def of_nat_diff)
  have nn: "n < length ?buf" "n = length (take a t @ drop b t)" using lo(3) assms(2,3) by (simp_all add: n_def)
  have b1: "b1 = (take a t @ drop b t) @ drop n ?buf" by (simp add: b1_def)
  have "take n b1 = take a t @ drop b t" "drop n b1 = drop n ?buf" unfolding b1
    using nn(2) by (metis append_eq_conv_conj)+
  then have parts: "take n b1 = take a t @ drop b t" "drop (Suc n) b1 = drop (Suc n) ?buf" by (simp_all add: drop_Suc tl_drop [symmetric])
  have put: "buf_put (rl_end st - int (b - a)) [NUL] st1 = Inr (st1\<lparr>rl_line_buffer := b2\<rparr>)"
    if "rl_line_buffer st1 = b1" for st1 :: rl_state
    unfolding len(3) using that len(1) nn(1) parts by (simp add: buf_put_def put_bytes_def b2_def)
  have "line_is (cut_out a b t) (st\<lparr>rl_line_buffer := b2, rl_end := rl_end st - int (b - a)\<rparr>)"
    using len lo assms(2,3) by (auto simp: line_is_def b2_def cut_out_def n_def dest: in_set_takeD in_set_dropD)
  moreover have "rl_delete_text (int a) (int b) st =
      bind_run (if rl_doing_an_undo st then Inr (st\<lparr>rl_line_buffer := b1\<rparr>)
                else rl_add_undo UNDO_DELETE (int a) (int b) (Some (take (b - a) (drop a t))) (st\<lparr>rl_line_buffer := b1\<rparr>)) (\<lambda>st1.
      bind_run (buf_put (rl_end st1 - int (b - a)) [NUL] (st1\<lparr>rl_end := rl_end st1 - int (b - a)\<rparr>)) (\<lambda>st2.
      Inr (int (b - a), st2)))"
    using assms(2,3) lo(2) copy_text(1) [OF assms] sh by (simp add: rl_delete_text_def Let_def of_nat_diff)
  ultimately show ?thesis using put by blast
qed

lemma delete_undoing:
  assumes "line_is t st" and "a \<le> b" and "b \<le> length t" and "rl_doing_an_undo st"
  shows "\<exists>b2. rl_delete_text (int a) (int b) st =
      Inr (int (b - a), st\<lparr>rl_line_buffer := b2, rl_end := rl_end st - int (b - a)\<rparr>) \<and>
    line_is (cut_out a b t) (st\<lparr>rl_line_buffer := b2, rl_end := rl_end st - int (b - a)\<rparr>)"
proof -
  from delete_buffer [OF assms(1-3)] obtain b1 b2 where
    l: "line_is (cut_out a b t) (st\<lparr>rl_line_buffer := b2, rl_end := rl_end st - int (b - a)\<rparr>)"
    and p: "\<forall>st1. rl_line_buffer st1 = b1 \<longrightarrow>
      buf_put (rl_end st - int (b - a)) [NUL] st1 = Inr (st1\<lparr>rl_line_buffer := b2\<rparr>)"
    and r: "rl_delete_text (int a) (int b) st =
      bind_run (if rl_doing_an_undo st then Inr (st\<lparr>rl_line_buffer := b1\<rparr>)
                else rl_add_undo UNDO_DELETE (int a) (int b) (Some (take (b - a) (drop a t))) (st\<lparr>rl_line_buffer := b1\<rparr>)) (\<lambda>st1.
      bind_run (buf_put (rl_end st1 - int (b - a)) [NUL] (st1\<lparr>rl_end := rl_end st1 - int (b - a)\<rparr>)) (\<lambda>st2.
      Inr (int (b - a), st2)))" by blast
  show ?thesis
    using l r p assms(4) by (intro exI [of _ b2]) simp
qed


text \<open>Where the deletion begins and ends, when the caller is confused.\<close>

definition clip :: "int \<Rightarrow> int \<Rightarrow> nat" where
  "clip len i = nat (min len (max 0 i))"

lemma delete_swapped: "rl_delete_text from_pos to_pos st = rl_delete_text (min from_pos to_pos) (max from_pos to_pos) st"
  by (simp add: rl_delete_text_def min_def max_def)

lemma delete_clipped:
  assumes "rl_end st \<ge> 0" and "0 \<le> max from_pos to_pos"
  shows "rl_delete_text from_pos to_pos st =
    rl_delete_text (int (clip (rl_end st) (min from_pos to_pos))) (int (clip (rl_end st) (max from_pos to_pos))) st"
proof -
  define a b where "a = min from_pos to_pos" and "b = max from_pos to_pos"
  have "a \<le> b" "0 \<le> b" using assms(2) by (simp_all add: a_def b_def)
  define a' b' where "a' = int (clip (rl_end st) a)" and "b' = int (clip (rl_end st) b)"
  have le: "a' \<le> b'" "b' \<le> rl_end st" "0 \<le> a'" using \<open>a \<le> b\<close> assms(1) by (auto simp: a'_def b'_def clip_def)
  have b': "(if b > rl_end st then rl_end st else b) = b'" using \<open>0 \<le> b\<close> assms(1) by (auto simp: b'_def clip_def)
  consider "rl_end st < a" "a' = b'" "b' = rl_end st" | "a \<le> rl_end st" "a < 0" "a' = 0" | "a \<le> rl_end st" "0 \<le> a" "a' = a"
  proof -
    have "a' = b' \<and> b' = rl_end st" if "rl_end st < a" using that \<open>a \<le> b\<close> assms(1) by (simp add: a'_def b'_def clip_def)
    moreover have "a' = (if a < 0 then 0 else a)" if "a \<le> rl_end st" using that assms(1) by (simp add: a'_def clip_def)
    ultimately show thesis using that by (metis linorder_not_le)
  qed
  then have "rl_delete_text a b st = rl_delete_text a' b' st"
    using \<open>a \<le> b\<close> le b' by cases (simp_all add: rl_delete_text_def Let_def cong: if_cong)
  then show ?thesis using delete_swapped [of from_pos to_pos st] by (simp add: a_def b_def a'_def b'_def)
qed

lemma delete_editing:
  assumes "lined base st" and "a \<le> b" and "b \<le> length (line_text st)"
  shows "\<exists>st'. rl_delete_text (int a) (int b) st = Inr (int (b - a), st') \<and> lined base st' \<and>
    line_text st' = cut_out a b (line_text st) \<and> rl_point st' = rl_point st \<and> same_rest st st'"
proof -
  define t where "t = line_text st"
  from assms(1) obtain es where e: "line_is t st" "undo_is es st" "undo_gives (fst base) es t" "lines_ok (rl_history st)"
    "\<not> rl_doing_an_undo st" "setting st = snd base" by (auto simp: lined_def t_def)
  have bt: "b \<le> length t" using assms(3) by (simp add: t_def)
  let ?e = "\<lparr>ue_next = rl_undo_list st, ue_start = int a, ue_end = int b, ue_text = Some (take (b - a) (drop a t)),
    ue_what = UNDO_DELETE\<rparr>"
  from delete_buffer [OF e(1) assms(2) bt] obtain b1 b2 where
    l: "line_is (cut_out a b t) (st\<lparr>rl_line_buffer := b2, rl_end := rl_end st - int (b - a)\<rparr>)"
    and p: "\<forall>st1. rl_line_buffer st1 = b1 \<longrightarrow>
      buf_put (rl_end st - int (b - a)) [NUL] st1 = Inr (st1\<lparr>rl_line_buffer := b2\<rparr>)"
    and r: "rl_delete_text (int a) (int b) st =
      bind_run (if rl_doing_an_undo st then Inr (st\<lparr>rl_line_buffer := b1\<rparr>)
                else rl_add_undo UNDO_DELETE (int a) (int b) (Some (take (b - a) (drop a t))) (st\<lparr>rl_line_buffer := b1\<rparr>)) (\<lambda>st1.
      bind_run (buf_put (rl_end st1 - int (b - a)) [NUL] (st1\<lparr>rl_end := rl_end st1 - int (b - a)\<rparr>)) (\<lambda>st2.
      Inr (int (b - a), st2)))" by blast
  have "undo_is es (st\<lparr>rl_line_buffer := b1\<rparr>)" using e(2) by simp
  from add_undo_run [OF this, of UNDO_DELETE "int a" "int b" "Some (take (b - a) (drop a t))"] obtain h where
    h: "rl_add_undo UNDO_DELETE (int a) (int b) (Some (take (b - a) (drop a t))) (st\<lparr>rl_line_buffer := b1\<rparr>) =
        Inr (st\<lparr>rl_line_buffer := b1, rl_undos := h, rl_fresh := Suc (rl_fresh st), rl_undo_list := rl_fresh st\<rparr>)"
    and u: "undo_is (?e # es) (st\<lparr>rl_undos := h, rl_fresh := Suc (rl_fresh st), rl_undo_list := rl_fresh st\<rparr>)"
    by (auto simp: undo_is_def)
  define st2 where "st2 = st\<lparr>rl_line_buffer := b2, rl_end := rl_end st - int (b - a), rl_undos := h,
    rl_fresh := Suc (rl_fresh st), rl_undo_list := rl_fresh st\<rparr>"
  have l2: "line_is (cut_out a b t) st2" using l by (simp add: line_is_def st2_def)
  have "undo_is (?e # es) st2" using u by (simp add: undo_is_def st2_def)
  moreover have "NUL \<notin> set (take (b - a) (drop a t))"
    using e(1) by (auto simp: line_is_def dest: in_set_takeD in_set_dropD)
  then have "undo_gives (fst base) (?e # es) (cut_out a b t)"
    using e(3) assms(2) bt insert_at_cut_out [OF assms(2) bt]
    by (simp add: undo_valid_def undo_step_def insert_at_def)
  ultimately have "lined base st2" "line_text st2 = cut_out a b t"
    using l2 line_text_is [OF l2] e(4-6) by (auto simp: lined_def st2_def)
  moreover have "rl_delete_text (int a) (int b) st = Inr (int (b - a), st2)"
    using r e(5) h p by (simp add: st2_def)
  ultimately show ?thesis by (intro exI [of _ st2]) (simp add: t_def same_rest_def st2_def)
qed

section \<open>Undoing\<close>

text \<open>Undoing leaves the texts of the history as they are, and the buffer does not become smaller.\<close>

definition undone :: "rl_state \<Rightarrow> rl_state \<Rightarrow> bool" where
  "undone st st' \<longleftrightarrow>
     same_lines (rl_history st) (rl_history st') \<and> length (rl_line_buffer st) \<le> length (rl_line_buffer st')"

lemma undone_refl [simp]: "undone st st"
  by (simp add: undone_def)

lemma undone_trans: "undone st1 st2 \<Longrightarrow> undone st2 st3 \<Longrightarrow> undone st1 st3"
  using same_lines_trans by (auto simp: undone_def)

text \<open>What \<open>rl_do_undo\<close> promises: it undoes entries until every group it entered is left; the result is 0
  when there was nothing left to undo.\<close>

fun undo_spec :: "nat \<Rightarrow> undo_entry list \<Rightarrow> string \<Rightarrow> int \<times> undo_entry list \<times> string" where
  "undo_spec w [] t = (0, [], t)"
| "undo_spec w (e # es) t =
     (let w' = (case ue_what e of UNDO_END \<Rightarrow> w + 1 | UNDO_BEGIN \<Rightarrow> w - 1 | _ \<Rightarrow> w); t' = undo_step e t in
      if w' > 0 then undo_spec w' es t' else (1, es, t'))"

lemma undo_effect_run:
  assumes "line_is t st" and "undo_valid e t" and "rl_doing_an_undo st"
  shows "\<exists>st'. undo_entry_effect e w st =
      Inr (case ue_what e of UNDO_END \<Rightarrow> w + 1 | UNDO_BEGIN \<Rightarrow> w - 1 | _ \<Rightarrow> w, st') \<and>
    line_is (undo_step e t) st' \<and> rl_undos st' = rl_undos st \<and> rl_undo_list st' = rl_undo_list st \<and>
    rl_fresh st' = rl_fresh st \<and> rl_history st' = rl_history st \<and> same_rest st st' \<and>
    length (rl_line_buffer st) \<le> length (rl_line_buffer st') \<and>
    (ue_what e = UNDO_DELETE \<or> ue_what e = UNDO_INSERT \<longrightarrow> 0 \<le> rl_point st' \<and> rl_point st' \<le> rl_end st') \<and>
    (ue_what e = UNDO_BEGIN \<or> ue_what e = UNDO_END \<longrightarrow> rl_point st' = rl_point st)"
proof (cases "ue_what e")
  case UNDO_DELETE
  then obtain x where x: "ue_text e = Some x" "NUL \<notin> set x" and s: "0 \<le> ue_start e" "ue_start e \<le> int (length t)"
    using assms(2) by (auto simp: undo_valid_def)
  let ?st = "st\<lparr>rl_point := ue_start e\<rparr>"
  have "line_is t ?st" "rl_point ?st = int (nat (ue_start e))" "nat (ue_start e) \<le> length t" "rl_doing_an_undo ?st"
    using assms s by simp_all
  from insert_undoing [OF this(1-3) x(2) this(4)] obtain b n where
    "rl_insert_text (Some x) ?st = Inr (int (length x), ?st\<lparr>rl_line_buffer := b, rl_line_buffer_len := n,
      rl_point := rl_point ?st + int (length x), rl_end := rl_end ?st + int (length x)\<rparr>)"
    "line_is (insert_at (nat (ue_start e)) x t)
      (?st\<lparr>rl_line_buffer := b, rl_line_buffer_len := n, rl_end := rl_end ?st + int (length x)\<rparr>)"
    "length (rl_line_buffer st) \<le> length b" by auto
  moreover have "TRANS st (ue_start e) = ue_start e" using s by (simp add: TRANS_def)
  moreover have "ue_start e \<le> rl_end st" using s assms(1) by (simp add: line_is_def)
  ultimately show ?thesis
    using UNDO_DELETE x s
    by (simp add: undo_entry_effect_def undo_step_def insert_at_def [symmetric]) (simp add: line_is_def same_rest_def)
next
  case UNDO_INSERT
  then have s: "0 \<le> ue_start e" "ue_start e \<le> ue_end e" "ue_end e \<le> int (length t)"
    using assms(2) by (auto simp: undo_valid_def)
  have "nat (ue_start e) \<le> nat (ue_end e)" "nat (ue_end e) \<le> length t" using s by simp_all
  from delete_undoing [OF assms(1) this assms(3)] obtain b where
    "rl_delete_text (ue_start e) (ue_end e) st = Inr (int (nat (ue_end e) - nat (ue_start e)),
      st\<lparr>rl_line_buffer := b, rl_end := rl_end st - int (nat (ue_end e) - nat (ue_start e))\<rparr>)"
    "line_is (cut_out (nat (ue_start e)) (nat (ue_end e)) t)
      (st\<lparr>rl_line_buffer := b, rl_end := rl_end st - int (nat (ue_end e) - nat (ue_start e))\<rparr>)" using s by auto
  moreover have "TRANS st (ue_start e) = ue_start e" "TRANS st (ue_end e) = ue_end e" using s by (simp_all add: TRANS_def)
  moreover have "ue_start e \<le> rl_end st - int (nat (ue_end e) - nat (ue_start e))"
    using s assms(1) by (simp add: line_is_def of_nat_diff nat_le_eq_zle)
  ultimately show ?thesis
    using UNDO_INSERT s assms(1)
    by (simp add: undo_entry_effect_def undo_step_def Let_def cut_out_def [symmetric] same_rest_def) (simp add: line_is_def)
next
  case UNDO_BEGIN
  then show ?thesis using assms(1) by (auto simp: undo_entry_effect_def undo_step_def rl_ding_def same_rest_def)
next
  case UNDO_END
  then show ?thesis using assms(1) by (auto simp: undo_entry_effect_def undo_step_def)
qed

lemma undo_loop_run:
  assumes "line_is t st" and "undo_is es st" and "undo_gives base es t" and "lines_ok (rl_history st)" and "\<not> rl_doing_an_undo st"
    and "length es \<le> n" and "undo_spec w es t = (r, es', t')"
  shows "\<exists>st'. undo_loop n w st = Inr (r, st') \<and> line_is t' st' \<and> undo_is es' st' \<and> undo_gives base es' t' \<and>
    lines_ok (rl_history st') \<and> \<not> rl_doing_an_undo st' \<and> same_rest st st' \<and> undone st st' \<and> rl_fresh st' = rl_fresh st \<and>
    (0 \<le> rl_point st \<and> rl_point st \<le> rl_end st \<longrightarrow> 0 \<le> rl_point st' \<and> rl_point st' \<le> rl_end st')"
  using assms
proof (induction es arbitrary: n w t st)
  case Nil
  have "rl_undo_list st = 0" using Nil.prems(2) by (simp add: undo_is_def)
  then have "undo_loop n w st = Inr (0, st)" by (cases n) simp_all
  then show ?case using Nil.prems by auto
next
  case (Cons e es)
  obtain m where n: "n = Suc m" "length es \<le> m" using Cons.prems(6) by (cases n) auto
  let ?a = "rl_undo_list st" and ?w = "case ue_what e of UNDO_END \<Rightarrow> w + 1 | UNDO_BEGIN \<Rightarrow> w - 1 | _ \<Rightarrow> w"
  have ch: "?a \<noteq> 0" "rl_undos st ?a = Some e" "ue_next e < ?a" "undo_chain (rl_undos st) (ue_next e) es" "?a < rl_fresh st"
    using Cons.prems(2) by (auto simp: undo_is_def)
  have v: "undo_valid e t" "undo_gives base es (undo_step e t)" using Cons.prems(3) by simp_all
  have ld: "line_is t (st\<lparr>rl_doing_an_undo := True\<rparr>)" using Cons.prems(1) by simp
  from undo_effect_run [OF ld v(1), where w = w] obtain st1 where st1:
    "undo_entry_effect e w (st\<lparr>rl_doing_an_undo := True\<rparr>) = Inr (?w, st1)" "line_is (undo_step e t) st1"
    "rl_undos st1 = rl_undos st" "rl_undo_list st1 = ?a" "rl_fresh st1 = rl_fresh st" "rl_history st1 = rl_history st"
    "same_rest (st\<lparr>rl_doing_an_undo := True\<rparr>) st1" "length (rl_line_buffer st) \<le> length (rl_line_buffer st1)"
    and pt: "ue_what e = UNDO_DELETE \<or> ue_what e = UNDO_INSERT \<longrightarrow> 0 \<le> rl_point st1 \<and> rl_point st1 \<le> rl_end st1"
      "ue_what e = UNDO_BEGIN \<or> ue_what e = UNDO_END \<longrightarrow> rl_point st1 = rl_point st" by auto
  from replace_data_lines [OF Cons.prems(4), of ?a "ue_next e"]
  obtain hs where hs: "replace_history_data (-1) ?a (ue_next e) (rl_history st) = Inr hs" "lines_ok hs"
      "same_lines (rl_history st) hs" by (fastforce simp: same_lines_def)
  define st2 where "st2 = st1\<lparr>rl_doing_an_undo := False, rl_undo_list := ue_next e, rl_history := hs,
    rl_undos := (rl_undos st)(?a := None)\<rparr>"
  have step: "undo_loop n w st = (if ?w > 0 then undo_loop m ?w st2 else Inr (1, st2))"
    using n(1) ch st1 hs(1) by (simp add: undo_at_def free_undo_def Let_def st2_def)
  have l2: "line_is (undo_step e t) st2" using st1(2) by (simp add: line_is_def st2_def)
  have u2: "undo_is es st2"
    using chain_update [OF ch(4,3), of None] ch(3,5) st1(5) by (simp add: undo_is_def st2_def)
  have p2: "0 \<le> rl_point st \<and> rl_point st \<le> rl_end st \<longrightarrow> 0 \<le> rl_point st2 \<and> rl_point st2 \<le> rl_end st2"
  proof (cases "ue_what e")
    case UNDO_BEGIN
    then show ?thesis using pt(2) l2 Cons.prems(1) by (auto simp: st2_def line_is_def undo_step_def)
  next
    case UNDO_END
    then show ?thesis using pt(2) l2 Cons.prems(1) by (auto simp: st2_def line_is_def undo_step_def)
  qed (use pt(1) in \<open>auto simp: st2_def\<close>)
  have rest: "lines_ok (rl_history st2)" "\<not> rl_doing_an_undo st2" "same_rest st st2" "rl_fresh st2 = rl_fresh st"
      "undone st st2"
    using hs(2,3) st1(5,7,8) by (simp_all add: st2_def same_rest_def undone_def) (cases st; cases st1; simp)
  show ?case
  proof (cases "?w > 0")
    case True
    then have "undo_spec ?w es (undo_step e t) = (r, es', t')" using Cons.prems(7) by (simp add: Let_def)
    from Cons.IH [OF l2 u2 v(2) rest(1,2) n(2) this] obtain st' where st': "undo_loop m ?w st2 = Inr (r, st')" "line_is t' st'"
      "undo_is es' st'" "undo_gives base es' t'" "lines_ok (rl_history st')" "\<not> rl_doing_an_undo st'" "same_rest st2 st'"
      "undone st2 st'" "rl_fresh st' = rl_fresh st2"
      "0 \<le> rl_point st2 \<and> rl_point st2 \<le> rl_end st2 \<longrightarrow> 0 \<le> rl_point st' \<and> rl_point st' \<le> rl_end st'" by blast
    have "same_rest st st'" "undone st st'"
      using same_rest_trans [OF rest(3) st'(7)] undone_trans [OF rest(5) st'(8)] by simp_all
    then show ?thesis using st' step True rest(4) p2 by (intro exI [of _ st']) simp
  next
    case False
    then have "r = 1" "es' = es" "t' = undo_step e t" using Cons.prems(7) by (simp_all add: Let_def)
    then show ?thesis using step False l2 u2 v(2) rest p2 by auto
  qed
qed

lemma undo_spec_shorter: "undo_spec w es t = (r, es', t') \<Longrightarrow> length es' \<le> length es - 1"
  by (induction w es t rule: undo_spec.induct) (auto simp: Let_def split: if_splits prod.splits, fastforce+)

lemma do_undo_run:
  assumes "lined base st"
  shows "\<exists>r st' es es'. rl_do_undo st = Inr (r, st') \<and> lined base st' \<and> same_rest st st' \<and>
    undone st st' \<and> rl_fresh st' = rl_fresh st \<and>
    (0 \<le> rl_point st \<and> rl_point st \<le> rl_end st \<longrightarrow> 0 \<le> rl_point st' \<and> rl_point st' \<le> rl_end st') \<and>
    undo_is es st \<and> undo_is es' st' \<and> length es' \<le> length es - 1"
proof -
  from assms obtain es where e: "line_is (line_text st) st" "undo_is es st" "undo_gives (fst base) es (line_text st)"
    "lines_ok (rl_history st)" "\<not> rl_doing_an_undo st" and b: "setting st = snd base" by (auto simp: lined_def)
  obtain r es' t' where s: "undo_spec 0 es (line_text st) = (r, es', t')" by (cases "undo_spec 0 es (line_text st)")
  have "length es \<le> rl_fresh st" using e(2) chain_length by (fastforce simp: undo_is_def)
  from undo_loop_run [OF e this s] obtain st' where st': "undo_loop (rl_fresh st) 0 st = Inr (r, st')" "line_is t' st'"
    "undo_is es' st'" "undo_gives (fst base) es' t'" "lines_ok (rl_history st')" "\<not> rl_doing_an_undo st'"
    and same: "same_rest st st'" "undone st st'" "rl_fresh st' = rl_fresh st"
    and pt: "0 \<le> rl_point st \<and> rl_point st \<le> rl_end st \<longrightarrow> 0 \<le> rl_point st' \<and> rl_point st' \<le> rl_end st'" by blast
  have "setting st' = snd base" using setting_kept [OF same(1) _ e(4) st'(5)] same(2) b by (simp add: undone_def)
  then have "lined base st'" using st'(2-6) line_text_is [OF st'(2)] by (auto simp: lined_def)
  then show ?thesis using st'(1,3) same pt e(2) undo_spec_shorter [OF s] unfolding rl_do_undo_def by blast
qed

lemma undo_chain_unique: "undo_chain h a es \<Longrightarrow> undo_chain h a es' \<Longrightarrow> es' = es"
proof (induction h a es arbitrary: es' rule: undo_chain.induct)
  case (1 h a)
  then show ?case by (cases es') auto
next
  case (2 h a e es)
  then show ?case by (cases es') auto
qed

lemma undo_is_unique: "undo_is es st \<Longrightarrow> undo_is es' st \<Longrightarrow> es' = es"
  unfolding undo_is_def using undo_chain_unique by blast

lemma revert_loop_run:
  "lined base st \<Longrightarrow> undo_is es st \<Longrightarrow> length es \<le> n \<Longrightarrow>
    \<exists>st'. revert_loop n st = Inr st' \<and> lined base st' \<and> same_rest st st' \<and> rl_undo_list st' = 0 \<and>
      undone st st' \<and>
      (0 \<le> rl_point st \<and> rl_point st \<le> rl_end st \<longrightarrow> 0 \<le> rl_point st' \<and> rl_point st' \<le> rl_end st')"
proof (induction n arbitrary: es st)
  case 0
  then have "rl_undo_list st = 0" by (simp add: undo_is_def)
  then show ?case using 0 by (intro exI [of _ st]) simp
next
  case (Suc n)
  show ?case
  proof (cases "rl_undo_list st = 0")
    case True
    then show ?thesis using Suc.prems by (intro exI [of _ st]) simp
  next
    case False
    from do_undo_run [OF Suc.prems(1)] obtain r st1 es0 es1 where st1: "rl_do_undo st = Inr (r, st1)" "lined base st1"
      "same_rest st st1" "undo_is es0 st" "undo_is es1 st1" "length es1 \<le> length es0 - 1"
      "undone st st1"
      and pt: "0 \<le> rl_point st \<and> rl_point st \<le> rl_end st \<longrightarrow> 0 \<le> rl_point st1 \<and> rl_point st1 \<le> rl_end st1" by blast
    have "es0 = es" using undo_is_unique Suc.prems(2) st1(4) by blast
    then have "length es1 \<le> n" using st1(6) Suc.prems(3) by simp
    from Suc.IH [OF st1(2,5) this] obtain st' where "revert_loop n st1 = Inr st'" "lined base st'" "same_rest st1 st'"
      "rl_undo_list st' = 0" "undone st1 st'"
      "0 \<le> rl_point st1 \<and> rl_point st1 \<le> rl_end st1 \<longrightarrow> 0 \<le> rl_point st' \<and> rl_point st' \<le> rl_end st'" by blast
    then show ?thesis using False st1(1) pt same_rest_trans [OF st1(3)] undone_trans [OF st1(7)] by (intro exI [of _ st']) auto
  qed
qed

lemma revert_run:
  assumes "editing base st"
  shows "\<exists>st'. rl_revert_line st = Inr (0, st') \<and> editing base st' \<and> line_text st' = fst base \<and> same_rest st st' \<and>
    rl_undo_list st' = 0 \<and> undone st st'"
proof (cases "rl_undo_list st = 0")
  case True
  from assms obtain es where "undo_is es st" "undo_gives (fst base) es (line_text st)" by (auto simp: editing_def lined_def)
  with True have "line_text st = fst base" by (cases es) (auto simp: undo_is_def)
  then show ?thesis
    using assms True by (intro exI [of _ "rl_ding st"]) (simp add: rl_revert_line_def rl_ding_def editing_def same_rest_def undone_def)
next
  case False
  from assms obtain es where es: "undo_is es st" and l: "lined base st" by (auto simp: editing_def lined_def)
  have "length es \<le> rl_fresh st" using es chain_length by (fastforce simp: undo_is_def)
  from revert_loop_run [OF l es this] obtain st' where st': "revert_loop (rl_fresh st) st = Inr st'" "lined base st'"
    "same_rest st st'" "rl_undo_list st' = 0" "undone st st'"
    and pt: "0 \<le> rl_point st \<and> rl_point st \<le> rl_end st \<longrightarrow> 0 \<le> rl_point st' \<and> rl_point st' \<le> rl_end st'" by blast
  from st'(2) obtain es' where "undo_is es' st'" "undo_gives (fst base) es' (line_text st')" by (auto simp: lined_def)
  with st'(4) have "line_text st' = fst base" by (cases es') (auto simp: undo_is_def)
  then show ?thesis using False st' pt assms by (intro exI [of _ st']) (auto simp: rl_revert_line_def editing_def)
qed

end
