(* ===== verification/Rl_Commands.thy ===== *)
theory Rl_Commands
  imports Rl_Line
begin

text \<open>
  The commands of \<open>readline-6.2/text.c\<close>: moving, inserting, deleting, changing case, transposing, searching for a
  character, and the mark; and \<open>rl_kill_text\<close> of \<open>kill.c\<close>, with which some of them delete. What a command displays
  is left out. A command with a negative count calls its opposite with the negated count, and this calls back when
  the negated count is negative as well: for the smallest integer, for ever.
\<close>

section \<open>Counts and characters\<close>

definition negated :: "int \<Rightarrow> int run" where
  "negated count = (if wrap32 (- count) < 0 then Inl No_Return else Inr (wrap32 (- count)))"

definition c_isupper :: "char \<Rightarrow> bool" where
  "c_isupper c \<longleftrightarrow> 65 \<le> (of_char c :: nat) \<and> (of_char c :: nat) \<le> 90"

definition c_islower :: "char \<Rightarrow> bool" where
  "c_islower c \<longleftrightarrow> 97 \<le> (of_char c :: nat) \<and> (of_char c :: nat) \<le> 122"

definition rl_to_upper :: "char \<Rightarrow> char" where
  "rl_to_upper c = (if c_islower c then char_of (of_char c - 32 :: nat) else c)"

definition rl_to_lower :: "char \<Rightarrow> char" where
  "rl_to_lower c = (if c_isupper c then char_of (of_char c + 32 :: nat) else c)"

text \<open>\<open>strchr\<close> finds the terminator of the list as well.\<close>

definition rl_alphabetic :: "rl_state \<Rightarrow> char \<Rightarrow> bool" where
  "rl_alphabetic st c \<longleftrightarrow>
     c_isupper c \<or> c_islower c \<or> is_digit c \<or>
     rl_pathname_alphabetic st \<and> (c = NUL \<or> c \<in> set ''/-_=~.#$'')"

definition rl_character_len :: "rl_state \<Rightarrow> char \<Rightarrow> int \<Rightarrow> int" where
  "rl_character_len st c pos =
     (let uc = (of_char c :: nat) in
      if uc > 127 then (if rl_output_meta_chars st then 1 else 4)
      else if uc = 9 then 8 - pos mod 8
      else if uc < 32 \<or> uc = 127 then 2
      else 1)"

section \<open>Movement\<close>

definition forward_bytes :: "int \<Rightarrow> rl_state \<Rightarrow> rl_state" where
  "forward_bytes count st =
     (let st =
        (if count > 0 then
           let end_pos = wrap32 (rl_point st + count); lend = rl_end st in
           if end_pos > lend then rl_ding (st\<lparr>rl_point := lend\<rparr>) else st\<lparr>rl_point := end_pos\<rparr>
         else st) in
      if rl_end st < 0 then st\<lparr>rl_end := 0\<rparr> else st)"

definition backward_bytes :: "int \<Rightarrow> rl_state \<Rightarrow> rl_state" where
  "backward_bytes count st =
     (let st =
        (if count > 0 then
           if rl_point st < count then rl_ding (st\<lparr>rl_point := 0\<rparr>) else st\<lparr>rl_point := rl_point st - count\<rparr>
         else st) in
      if rl_point st < 0 then st\<lparr>rl_point := 0\<rparr> else st)"

definition rl_forward_byte :: "int \<Rightarrow> rl_state \<Rightarrow> (int \<times> rl_state) run" where
  "rl_forward_byte count st =
     (if count < 0 then bind_run (negated count) (\<lambda>count. Inr (0, backward_bytes count st))
      else Inr (0, forward_bytes count st))"

definition rl_backward_byte :: "int \<Rightarrow> rl_state \<Rightarrow> (int \<times> rl_state) run" where
  "rl_backward_byte count st =
     (if count < 0 then bind_run (negated count) (\<lambda>count. Inr (0, forward_bytes count st))
      else Inr (0, backward_bytes count st))"

definition rl_forward_char :: "int \<Rightarrow> rl_state \<Rightarrow> (int \<times> rl_state) run" where
  "rl_forward_char count st = rl_forward_byte count st"

definition rl_backward_char :: "int \<Rightarrow> rl_state \<Rightarrow> (int \<times> rl_state) run" where
  "rl_backward_char count st = rl_backward_byte count st"

definition rl_beg_of_line :: "rl_state \<Rightarrow> rl_state" where
  "rl_beg_of_line st = st\<lparr>rl_point := 0\<rparr>"

definition rl_end_of_line :: "rl_state \<Rightarrow> rl_state" where
  "rl_end_of_line st = st\<lparr>rl_point := rl_end st\<rparr>"

text \<open>
  The point moved over the characters of which \<open>p\<close> holds: to the right while it is before \<open>rl_end\<close>, to the left
  while there is a character before it; there are as many passes as characters.
\<close>

fun skip_right :: "nat \<Rightarrow> (char \<Rightarrow> bool) \<Rightarrow> rl_state \<Rightarrow> rl_state run" where
  "skip_right 0 p st = Inr st"
| "skip_right (Suc n) p st =
     (if rl_point st < rl_end st then
        bind_run (buf_get (rl_point st) st) (\<lambda>c.
        if p c then skip_right n p (st\<lparr>rl_point := rl_point st + 1\<rparr>) else Inr st)
      else Inr st)"

fun skip_left :: "nat \<Rightarrow> (char \<Rightarrow> bool) \<Rightarrow> rl_state \<Rightarrow> rl_state run" where
  "skip_left 0 p st = Inr st"
| "skip_left (Suc n) p st =
     (if rl_point st > 0 then
        bind_run (buf_get (rl_point st - 1) st) (\<lambda>c.
        if p c then skip_left n p (st\<lparr>rl_point := rl_point st - 1\<rparr>) else Inr st)
      else Inr st)"

definition skip_forward :: "(char \<Rightarrow> bool) \<Rightarrow> rl_state \<Rightarrow> rl_state run" where
  "skip_forward p st = skip_right (nat (rl_end st - rl_point st)) p st"

definition skip_backward :: "(char \<Rightarrow> bool) \<Rightarrow> rl_state \<Rightarrow> rl_state run" where
  "skip_backward p st = skip_left (nat (rl_point st)) p st"

text \<open>The loops of \<open>rl_forward_word\<close> and \<open>rl_backward_word\<close>, \<open>count\<close> words long.\<close>

fun forward_words :: "nat \<Rightarrow> rl_state \<Rightarrow> rl_state run" where
  "forward_words 0 st = Inr st"
| "forward_words (Suc n) st =
     (if rl_point st = rl_end st then Inr st
      else
      bind_run (buf_get (rl_point st) st) (\<lambda>c.
      bind_run (if rl_alphabetic st c then Inr st
                else skip_forward (\<lambda>c. \<not> rl_alphabetic st c) (st\<lparr>rl_point := rl_point st + 1\<rparr>)) (\<lambda>st.
      if rl_point st = rl_end st then Inr st
      else
      bind_run (skip_forward (rl_alphabetic st) (st\<lparr>rl_point := rl_point st + 1\<rparr>)) (forward_words n))))"

fun backward_words :: "nat \<Rightarrow> rl_state \<Rightarrow> rl_state run" where
  "backward_words 0 st = Inr st"
| "backward_words (Suc n) st =
     (if rl_point st = 0 then Inr st
      else
      bind_run (buf_get (rl_point st - 1) st) (\<lambda>c.
      bind_run (if rl_alphabetic st c then Inr st
                else skip_backward (\<lambda>c. \<not> rl_alphabetic st c) (st\<lparr>rl_point := rl_point st - 1\<rparr>)) (\<lambda>st.
      bind_run (skip_backward (rl_alphabetic st) st) (backward_words n))))"

definition rl_forward_word :: "int \<Rightarrow> rl_state \<Rightarrow> rl_state run" where
  "rl_forward_word count st =
     (if count < 0 then bind_run (negated count) (\<lambda>count. backward_words (nat count) st)
      else forward_words (nat count) st)"

definition rl_backward_word :: "int \<Rightarrow> rl_state \<Rightarrow> rl_state run" where
  "rl_backward_word count st =
     (if count < 0 then bind_run (negated count) (\<lambda>count. forward_words (nat count) st)
      else backward_words (nat count) st)"

section \<open>Inserting characters\<close>

definition TEXT_COUNT_MAX :: nat where "TEXT_COUNT_MAX = 1024"

text \<open>The text a block of bytes holds.\<close>

definition c_text :: "string \<Rightarrow> string" where
  "c_text bs = takeWhile (\<lambda>c. c \<noteq> NUL) bs"

text \<open>
  The keys typed ahead are inserted with \<open>c\<close> as far as they insert themselves. They are collected in a block of
  \<open>ibuffer_len + 1\<close> = 512 bytes, which has no room for \<open>c\<close>, 511 keys and the \<open>NUL\<close>.
\<close>

definition rl_insert_typein :: "char \<Rightarrow> rl_state \<Rightarrow> (int \<times> rl_state) run" where
  "rl_insert_typein c st =
     (let s = c # takeWhile (rl_inserts_itself st) (rl_typein st) in
      if length s + 1 > 512 then Inl Buffer_Overflow
      else rl_insert_text (Some (c_text s)) (st\<lparr>rl_typein := dropWhile (rl_inserts_itself st) (rl_typein st)\<rparr>))"

fun insert_blocks :: "nat \<Rightarrow> nat \<Rightarrow> char \<Rightarrow> rl_state \<Rightarrow> rl_state run" where
  "insert_blocks 0 count c st = (if count = 0 then Inr st else Inl No_Return)"
| "insert_blocks (Suc n) count c st =
     (if count = 0 then Inr st
      else
      let decreaser = (if count > TEXT_COUNT_MAX then TEXT_COUNT_MAX else count) in
      bind_run (rl_insert_text (Some (c_text (replicate decreaser c))) st) (\<lambda>(_, st).
      insert_blocks n (count - decreaser) c st))"

definition rl_insert_char :: "int \<Rightarrow> char \<Rightarrow> rl_state \<Rightarrow> (int \<times> rl_state) run" where
  "rl_insert_char count c st =
     (if count \<le> 0 then Inr (0, st)
      else if count > 1 \<and> count \<le> int TEXT_COUNT_MAX
      then bind_run (rl_insert_text (Some (c_text (replicate (nat count) c))) st) (\<lambda>(_, st). Inr (0, st))
      else if count > int TEXT_COUNT_MAX
      then bind_run (insert_blocks (nat count) (nat count) c st) (\<lambda>st. Inr (0, st))
      else if rl_typein st \<noteq> [] then bind_run (rl_insert_typein c st) (\<lambda>(_, st). Inr (0, st))
      else bind_run (rl_insert_text (Some (c_text [c])) st) (\<lambda>(_, st). Inr (0, st)))"

text \<open>The next key typed, which \<open>rl_quoted_insert\<close> inserts, is negative when there is none.\<close>

definition rl_quoted_insert :: "int \<Rightarrow> int \<Rightarrow> rl_state \<Rightarrow> (int \<times> rl_state) run" where
  "rl_quoted_insert count c st =
     (if c < 0 then Inr (-1, st) else rl_insert_char count (char_of (nat c)) st)"

definition rl_tab_insert :: "int \<Rightarrow> rl_state \<Rightarrow> (int \<times> rl_state) run" where
  "rl_tab_insert count st = rl_insert_char count (CHR 0x09) st"

definition rl_newline :: "rl_state \<Rightarrow> rl_state" where
  "rl_newline st =
     (let st = st\<lparr>rl_done := True\<rparr> in
      if rl_preserve_point st
      then st\<lparr>rl_saved_point := (if rl_point st = rl_end st then -1 else rl_point st)\<rparr> else st)"

section \<open>The kill ring\<close>

definition rl_max_kills :: int where "rl_max_kills = 10"

text \<open>\<open>rl_kill_ring[i]\<close>, read and written; a slot without text is a null pointer.\<close>

definition ring_get :: "int \<Rightarrow> rl_state \<Rightarrow> string option run" where
  "ring_get i st =
     (case rl_kill_ring st of
        None \<Rightarrow> Inl Null_Pointer
      | Some b \<Rightarrow> if 0 \<le> i \<and> i < int (length b) then Inr (b ! nat i) else Inl Out_Of_Bounds_Read)"

definition ring_put :: "int \<Rightarrow> string option \<Rightarrow> rl_state \<Rightarrow> rl_state run" where
  "ring_put i v st =
     (case rl_kill_ring st of
        None \<Rightarrow> Inl Null_Pointer
      | Some b \<Rightarrow> if 0 \<le> i \<and> i < int (length b) then Inr (st\<lparr>rl_kill_ring := Some (b[nat i := v])\<rparr>)
                else Inl Buffer_Overflow)"

text \<open>\<open>for (i = 0; i < slot; i++) rl_kill_ring[i] = rl_kill_ring[i + 1];\<close>\<close>

fun shift_ring :: "nat \<Rightarrow> int \<Rightarrow> rl_state \<Rightarrow> rl_state run" where
  "shift_ring 0 i st = Inr st"
| "shift_ring (Suc n) i st = bind_run (ring_get (i + 1) st) (\<lambda>v. bind_run (ring_put i v st) (shift_ring n (i + 1)))"

definition ring_realloc :: "nat \<Rightarrow> string option list \<Rightarrow> string option list" where
  "ring_realloc n b = take n b @ replicate (n - length b) None"

text \<open>The slot for a new text, which is set to the null pointer.\<close>

definition new_kill_slot :: "rl_state \<Rightarrow> (int \<times> rl_state) run" where
  "new_kill_slot st =
     (case rl_kill_ring st of
        None \<Rightarrow> Inr (0, st\<lparr>rl_kill_ring := Some [None, None], rl_kill_ring_length := 1\<rparr>)
      | Some b \<Rightarrow>
          (let slot = rl_kill_ring_length st in
           bind_run
             (if slot = rl_max_kills then
                bind_run (ring_get 0 st) (\<lambda>_.
                bind_run (shift_ring (nat slot) 0 st) (\<lambda>st. Inr (slot, st)))
              else
                let slot = slot + 1 in
                Inr (slot, st\<lparr>rl_kill_ring_length := slot, rl_kill_ring := Some (ring_realloc (nat slot) b)\<rparr>)) (\<lambda>(slot, st).
           let slot = slot - 1 in
           bind_run (ring_put slot None st) (\<lambda>st. Inr (slot, st)))))"

definition copy_to_kill_ring :: "string \<Rightarrow> bool \<Rightarrow> rl_state \<Rightarrow> rl_state run" where
  "copy_to_kill_ring str appending st =
     bind_run (if rl_last_command_was_kill st = 0 then new_kill_slot st
               else Inr (rl_kill_ring_length st - 1, st)) (\<lambda>(slot, st).
     bind_run
       (if rl_last_command_was_kill st \<noteq> 0 then
          bind_run (ring_get slot st) (\<lambda>old.
          case old of
            None \<Rightarrow> Inl Null_Pointer
          | Some old \<Rightarrow> ring_put slot (Some (if appending then old @ str else str @ old)) st)
        else ring_put slot (Some str) st) (\<lambda>st.
     Inr (st\<lparr>rl_kill_index := slot\<rparr>)))"

definition command_was_kill :: "rl_state \<Rightarrow> rl_state" where
  "command_was_kill st = st\<lparr>rl_last_command_was_kill := rl_last_command_was_kill st + 1\<rparr>"

definition rl_kill_text :: "int \<Rightarrow> int \<Rightarrow> rl_state \<Rightarrow> rl_state run" where
  "rl_kill_text from_pos to_pos st =
     (if from_pos = to_pos then Inr (command_was_kill st)
      else
      bind_run (rl_copy_text from_pos to_pos st) (\<lambda>str.
      bind_run (rl_delete_text from_pos to_pos st) (\<lambda>(_, st).
      bind_run (copy_to_kill_ring str (from_pos < to_pos) st) (\<lambda>st.
      Inr (command_was_kill st)))))"

section \<open>Deleting characters\<close>

text \<open>\<open>_rl_rubout_char\<close> and \<open>rl_delete\<close> with a count that is not negative.\<close>

definition rubout_chars :: "int \<Rightarrow> rl_state \<Rightarrow> (int \<times> rl_state) run" where
  "rubout_chars count st =
     (if rl_point st = 0 then Inr (-1, rl_ding st)
      else
      let orig_point = rl_point st in
      if count > 1 \<or> rl_explicit_arg st then
        bind_run (rl_backward_char count st) (\<lambda>(_, st).
        bind_run (rl_kill_text orig_point (rl_point st) st) (\<lambda>st. Inr (0, st)))
      else
        let st = st\<lparr>rl_point := rl_point st - 1\<rparr> in
        bind_run (buf_get (rl_point st) st) (\<lambda>c.
        bind_run (rl_delete_text (rl_point st) orig_point st) (\<lambda>(_, st). Inr (0, st))))"

definition delete_chars :: "int \<Rightarrow> rl_state \<Rightarrow> (int \<times> rl_state) run" where
  "delete_chars count st =
     (if rl_point st = rl_end st then Inr (-1, rl_ding st)
      else if count > 1 \<or> rl_explicit_arg st then
        let xpoint = rl_point st in
        bind_run (rl_forward_byte count st) (\<lambda>(_, st).
        bind_run (rl_kill_text xpoint (rl_point st) st) (\<lambda>st. Inr (0, st\<lparr>rl_point := xpoint\<rparr>)))
      else
        let xpoint = rl_point st + 1 in
        bind_run (rl_delete_text (rl_point st) xpoint st) (\<lambda>(_, st). Inr (0, st)))"

definition rl_rubout_char :: "int \<Rightarrow> rl_state \<Rightarrow> (int \<times> rl_state) run" where
  "rl_rubout_char count st =
     (if count < 0 then bind_run (negated count) (\<lambda>count. delete_chars count st) else rubout_chars count st)"

definition rl_delete :: "int \<Rightarrow> rl_state \<Rightarrow> (int \<times> rl_state) run" where
  "rl_delete count st =
     (if count < 0 then bind_run (negated count) (\<lambda>count. rubout_chars count st) else delete_chars count st)"

text \<open>\<open>_rl_overwrite_char\<close>\<close>

fun overwrite_chars :: "nat \<Rightarrow> char \<Rightarrow> rl_state \<Rightarrow> rl_state run" where
  "overwrite_chars 0 c st = Inr st"
| "overwrite_chars (Suc n) c st =
     bind_run (rl_insert_char 1 c st) (\<lambda>(_, st).
     bind_run (if rl_point st < rl_end st then rl_delete 1 st else Inr (0, st)) (\<lambda>(_, st).
     overwrite_chars n c st))"

definition rl_overwrite_char :: "int \<Rightarrow> char \<Rightarrow> rl_state \<Rightarrow> (int \<times> rl_state) run" where
  "rl_overwrite_char count c st =
     bind_run (rl_begin_undo_group st) (\<lambda>st.
     bind_run (overwrite_chars (nat count) c st) (\<lambda>st.
     bind_run (rl_end_undo_group st) (\<lambda>st. Inr (0, st))))"

definition rl_insert :: "int \<Rightarrow> char \<Rightarrow> rl_state \<Rightarrow> (int \<times> rl_state) run" where
  "rl_insert count c st = (if \<not> rl_overwriting st then rl_insert_char count c st else rl_overwrite_char count c st)"

text \<open>The loop of \<open>_rl_overwrite_rubout\<close>: back over the characters, and the number of columns they take.\<close>

fun rubout_columns :: "nat \<Rightarrow> int \<Rightarrow> rl_state \<Rightarrow> (int \<times> rl_state) run" where
  "rubout_columns 0 l st = Inr (l, st)"
| "rubout_columns (Suc n) l st =
     bind_run (rl_backward_char 1 st) (\<lambda>(_, st).
     bind_run (buf_get (rl_point st) st) (\<lambda>c.
     rubout_columns n (l + rl_character_len st c (rl_point st)) st))"

definition rl_overwrite_rubout :: "int \<Rightarrow> rl_state \<Rightarrow> (int \<times> rl_state) run" where
  "rl_overwrite_rubout count st =
     (if rl_point st = 0 then Inr (1, rl_ding st)
      else
      let opoint = rl_point st in
      bind_run (rubout_columns (nat count) 0 st) (\<lambda>(l, st).
      bind_run (rl_begin_undo_group st) (\<lambda>st.
      bind_run (if count > 1 \<or> rl_explicit_arg st then rl_kill_text opoint (rl_point st) st
                else bind_run (rl_delete_text opoint (rl_point st) st) (\<lambda>(_, st). Inr st)) (\<lambda>st.
      bind_run (if rl_point st < rl_end st
                then let opoint = rl_point st in
                     bind_run (rl_insert_char l (CHR '' '') st) (\<lambda>(_, st). Inr (st\<lparr>rl_point := opoint\<rparr>))
                else Inr st) (\<lambda>st.
      bind_run (rl_end_undo_group st) (\<lambda>st. Inr (0, st)))))))"

definition rl_rubout :: "int \<Rightarrow> rl_state \<Rightarrow> (int \<times> rl_state) run" where
  "rl_rubout count st =
     (if count < 0 then bind_run (negated count) (\<lambda>count. rl_delete count st)
      else if rl_point st = 0 then Inr (-1, rl_ding st)
      else if rl_overwriting st then rl_overwrite_rubout count st
      else rl_rubout_char count st)"

definition rl_rubout_or_delete :: "int \<Rightarrow> rl_state \<Rightarrow> (int \<times> rl_state) run" where
  "rl_rubout_or_delete count st =
     (if rl_end st \<noteq> 0 \<and> rl_point st = rl_end st then rl_rubout_char count st else rl_delete count st)"

definition rl_delete_horizontal_space :: "rl_state \<Rightarrow> (int \<times> rl_state) run" where
  "rl_delete_horizontal_space st =
     bind_run (skip_backward whitespace st) (\<lambda>st.
     let start_pos = rl_point st in
     bind_run (skip_forward whitespace st) (\<lambda>st.
     bind_run (if start_pos \<noteq> rl_point st
               then bind_run (rl_delete_text start_pos (rl_point st) st) (\<lambda>(_, st). Inr (st\<lparr>rl_point := start_pos\<rparr>))
               else Inr st) (\<lambda>st.
     Inr (0, if rl_point st < 0 then st\<lparr>rl_point := 0\<rparr> else st))))"

text \<open>\<open>strncmp\<close> of a text and the buffer, up to \<open>n\<close> bytes.\<close>

fun strneq_buffer :: "string \<Rightarrow> int \<Rightarrow> rl_state \<Rightarrow> bool run" where
  "strneq_buffer [] i st = Inr True"
| "strneq_buffer (c # cs) i st =
     bind_run (buf_get i st) (\<lambda>d. if d \<noteq> c then Inr False else strneq_buffer cs (i + 1) st)"

definition rl_insert_comment :: "rl_state \<Rightarrow> (int \<times> rl_state) run" where
  "rl_insert_comment st =
     (let st = rl_beg_of_line st;
          rl_comment_text = (case rl_comment_begin st of None \<Rightarrow> ''#'' | Some s \<Rightarrow> s) in
      bind_run
        (if \<not> rl_explicit_arg st then rl_insert_text (Some rl_comment_text) st
         else
         bind_run (strneq_buffer rl_comment_text 0 st) (\<lambda>same.
         if same then rl_delete_text (rl_point st) (rl_point st + int (length rl_comment_text)) st
         else rl_insert_text (Some rl_comment_text) st)) (\<lambda>(_, st).
      Inr (0, rl_newline st)))"

section \<open>Changing case\<close>

datatype case_op = UpCase | DownCase | CapCase

fun change_chars :: "nat \<Rightarrow> case_op \<Rightarrow> bool \<Rightarrow> int \<Rightarrow> int \<Rightarrow> rl_state \<Rightarrow> rl_state run" where
  "change_chars 0 op inword start_pos end_pos st = Inr st"
| "change_chars (Suc n) op inword start_pos end_pos st =
     (if start_pos < end_pos then
        bind_run (buf_get start_pos st) (\<lambda>c.
        if \<not> rl_alphabetic st c then change_chars n op False (start_pos + 1) end_pos st
        else
        let nop = (if op = CapCase then (if inword then DownCase else UpCase) else op);
            inword = (if op = CapCase then True else inword);
            nc = (if nop = UpCase then rl_to_upper c else rl_to_lower c) in
        bind_run (buf_put start_pos [nc] st) (\<lambda>st.
        change_chars n op inword (start_pos + 1) end_pos st))
      else Inr st)"

definition rl_change_case :: "int \<Rightarrow> case_op \<Rightarrow> rl_state \<Rightarrow> (int \<times> rl_state) run" where
  "rl_change_case count op st =
     (let start_pos = rl_point st in
      bind_run (rl_forward_word count st) (\<lambda>st.
      let end_pos = rl_point st;
          (start_pos, end_pos) = (if count < 0 then (end_pos, start_pos) else (start_pos, end_pos)) in
      bind_run (rl_modifying start_pos end_pos st) (\<lambda>st.
      bind_run (change_chars (nat (end_pos - start_pos)) op False start_pos end_pos st) (\<lambda>st.
      Inr (0, st\<lparr>rl_point := end_pos\<rparr>)))))"

definition rl_upcase_word :: "int \<Rightarrow> rl_state \<Rightarrow> (int \<times> rl_state) run" where
  "rl_upcase_word count st = rl_change_case count UpCase st"

definition rl_downcase_word :: "int \<Rightarrow> rl_state \<Rightarrow> (int \<times> rl_state) run" where
  "rl_downcase_word count st = rl_change_case count DownCase st"

definition rl_capitalize_word :: "int \<Rightarrow> rl_state \<Rightarrow> (int \<times> rl_state) run" where
  "rl_capitalize_word count st = rl_change_case count CapCase st"

section \<open>Transposition\<close>

definition rl_transpose_words :: "int \<Rightarrow> rl_state \<Rightarrow> (int \<times> rl_state) run" where
  "rl_transpose_words count st =
     (let orig_point = rl_point st in
      if count = 0 then Inr (0, st)
      else
      bind_run (rl_forward_word count st) (\<lambda>st. let w2_end = rl_point st in
      bind_run (rl_backward_word 1 st) (\<lambda>st. let w2_beg = rl_point st in
      bind_run (rl_backward_word count st) (\<lambda>st. let w1_beg = rl_point st in
      bind_run (rl_forward_word 1 st) (\<lambda>st. let w1_end = rl_point st in
      if w1_beg = w2_beg \<or> w2_beg < w1_end then Inr (-1, (rl_ding st)\<lparr>rl_point := orig_point\<rparr>)
      else
      bind_run (rl_copy_text w1_beg w1_end st) (\<lambda>word1.
      bind_run (rl_copy_text w2_beg w2_end st) (\<lambda>word2.
      bind_run (rl_begin_undo_group st) (\<lambda>st.
      bind_run (rl_delete_text w2_beg w2_end (st\<lparr>rl_point := w2_beg\<rparr>)) (\<lambda>(_, st).
      bind_run (rl_insert_text (Some word1) st) (\<lambda>(_, st).
      bind_run (rl_delete_text w1_beg w1_end (st\<lparr>rl_point := w1_beg\<rparr>)) (\<lambda>(_, st).
      bind_run (rl_insert_text (Some word2) st) (\<lambda>(_, st).
      bind_run (rl_end_undo_group (st\<lparr>rl_point := w2_end\<rparr>)) (\<lambda>st.
      Inr (0, st))))))))))))))"

definition rl_transpose_chars :: "int \<Rightarrow> rl_state \<Rightarrow> (int \<times> rl_state) run" where
  "rl_transpose_chars count st =
     (if count = 0 then Inr (0, st)
      else if rl_point st = 0 \<or> rl_end st < 2 then Inr (-1, rl_ding st)
      else
      bind_run (rl_begin_undo_group st) (\<lambda>st.
      let at_end = (rl_point st = rl_end st);
          st = (if at_end then st\<lparr>rl_point := rl_point st - 1\<rparr> else st);
          count = (if at_end then 1 else count);
          st = st\<lparr>rl_point := rl_point st - 1\<rparr> in
      bind_run (buf_get (rl_point st) st) (\<lambda>c.
      bind_run (rl_delete_text (rl_point st) (rl_point st + 1) st) (\<lambda>(_, st).
      let st = rl_fix_point False (st\<lparr>rl_point := wrap32 (rl_point st + count)\<rparr>) in
      bind_run (rl_insert_text (Some (c_text [c])) st) (\<lambda>(_, st).
      bind_run (rl_end_undo_group st) (\<lambda>st.
      Inr (0, st)))))))"

section \<open>Searching for a character\<close>

datatype search_dir = FTO | BTO | FFIND | BFIND

definition backwards :: "search_dir \<Rightarrow> bool" where
  "backwards dir \<longleftrightarrow> dir = BTO \<or> dir = BFIND"

text \<open>The inner loop, from \<open>pos\<close> on; the result is where it stopped and whether the character is there.\<close>

fun scan_char :: "nat \<Rightarrow> search_dir \<Rightarrow> char \<Rightarrow> int \<Rightarrow> rl_state \<Rightarrow> (bool \<times> int) run" where
  "scan_char 0 dir schar pos st = Inl No_Return"
| "scan_char (Suc n) dir schar pos st =
     bind_run (buf_get pos st) (\<lambda>c.
     if c = schar then Inr (True, pos)
     else if backwards dir
     then (if pos \<noteq> 0 then scan_char n dir schar (pos - 1) st else Inr (False, pos - 1))
     else (if pos + 1 < rl_end st then scan_char n dir schar (pos + 1) st else Inr (False, pos + 1)))"

text \<open>One pass of the outer loop finds the character, or goes to where the next pass gives up.\<close>

fun char_search_loop :: "nat \<Rightarrow> int \<Rightarrow> search_dir \<Rightarrow> char \<Rightarrow> int \<Rightarrow> rl_state \<Rightarrow> (int \<times> rl_state) run" where
  "char_search_loop 0 count dir schar pos st = (if count = 0 then Inr (0, st) else Inl No_Return)"
| "char_search_loop (Suc n) count dir schar pos st =
     (if count = 0 then Inr (0, st)
      else if (backwards dir \<and> pos \<le> 0) \<or> (\<not> backwards dir \<and> pos \<ge> rl_end st) then Inr (-1, rl_ding st)
      else
      bind_run (scan_char (nat (rl_end st) + 1) dir schar (if backwards dir then pos - 1 else pos + 1) st) (\<lambda>(found, pos).
      if found
      then char_search_loop n (count - 1) dir schar pos
             (st\<lparr>rl_point := (if dir = BTO then pos + 1 else if dir = FTO \<and> pos \<noteq> 0 then pos - 1 else pos)\<rparr>)
      else char_search_loop n count dir schar pos st))"

definition rl_char_search_internal :: "int \<Rightarrow> search_dir \<Rightarrow> char \<Rightarrow> rl_state \<Rightarrow> (int \<times> rl_state) run" where
  "rl_char_search_internal count dir schar st =
     char_search_loop (nat (rl_end st) + 2) count dir schar (rl_point st) st"

text \<open>The key read is negative when there is none.\<close>

definition rl_char_search_key :: "int \<Rightarrow> search_dir \<Rightarrow> search_dir \<Rightarrow> int \<Rightarrow> rl_state \<Rightarrow> (int \<times> rl_state) run" where
  "rl_char_search_key count fdir bdir c st =
     (if c < 0 then Inr (-1, st)
      else if count < 0 then rl_char_search_internal (wrap32 (- count)) bdir (char_of (nat c)) st
      else rl_char_search_internal count fdir (char_of (nat c)) st)"

definition rl_char_search :: "int \<Rightarrow> int \<Rightarrow> rl_state \<Rightarrow> (int \<times> rl_state) run" where
  "rl_char_search count c st = rl_char_search_key count FFIND BFIND c st"

definition rl_backward_char_search :: "int \<Rightarrow> int \<Rightarrow> rl_state \<Rightarrow> (int \<times> rl_state) run" where
  "rl_backward_char_search count c st = rl_char_search_key count BFIND FFIND c st"

section \<open>The mark\<close>

definition rl_set_mark_at_pos :: "int \<Rightarrow> rl_state \<Rightarrow> (int \<times> rl_state)" where
  "rl_set_mark_at_pos position st =
     (if position > rl_end st then (-1, st) else (0, st\<lparr>rl_mark := position\<rparr>))"

definition rl_set_mark :: "int \<Rightarrow> rl_state \<Rightarrow> (int \<times> rl_state)" where
  "rl_set_mark count st = rl_set_mark_at_pos (if rl_explicit_arg st then count else rl_point st) st"

definition rl_exchange_point_and_mark :: "rl_state \<Rightarrow> (int \<times> rl_state)" where
  "rl_exchange_point_and_mark st =
     (let st = (if rl_mark st > rl_end st then st\<lparr>rl_mark := -1\<rparr> else st) in
      if rl_mark st = -1 then (-1, rl_ding st)
      else (0, st\<lparr>rl_point := rl_mark st, rl_mark := rl_point st\<rparr>))"

end
