(* ===== verification/Rl_Kill.thy ===== *)
theory Rl_Kill
  imports Rl_Commands
begin

text \<open>
  The commands of \<open>readline-6.2/kill.c\<close>, in the Emacs mode: killing words, lines and regions, and yanking from
  the kill ring or from the history. A command may leave by the jump back to the loop that reads keys.
\<close>

section \<open>Killing\<close>

text \<open>\<open>rl_kill_word\<close> and \<open>rl_backward_kill_word\<close> with a count that is not negative.\<close>

definition kill_words :: "int \<Rightarrow> rl_state \<Rightarrow> (int \<times> rl_state) run" where
  "kill_words count st =
     (let orig_point = rl_point st in
      bind_run (rl_forward_word count st) (\<lambda>st.
      bind_run (if rl_point st \<noteq> orig_point then rl_kill_text orig_point (rl_point st) st else Inr st) (\<lambda>st.
      Inr (0, st\<lparr>rl_point := orig_point, rl_mark := orig_point\<rparr>))))"

definition backward_kill_words :: "int \<Rightarrow> rl_state \<Rightarrow> (int \<times> rl_state) run" where
  "backward_kill_words count st =
     (let orig_point = rl_point st in
      bind_run (rl_backward_word count st) (\<lambda>st.
      bind_run (if rl_point st \<noteq> orig_point then rl_kill_text orig_point (rl_point st) st else Inr st) (\<lambda>st.
      Inr (0, st\<lparr>rl_mark := rl_point st\<rparr>))))"

definition rl_kill_word :: "int \<Rightarrow> rl_state \<Rightarrow> (int \<times> rl_state) run" where
  "rl_kill_word count st =
     (if count < 0 then bind_run (negated count) (\<lambda>count. backward_kill_words count st) else kill_words count st)"

definition rl_backward_kill_word :: "int \<Rightarrow> rl_state \<Rightarrow> (int \<times> rl_state) run" where
  "rl_backward_kill_word count st =
     (if count < 0 then bind_run (negated count) (\<lambda>count. kill_words count st) else backward_kill_words count st)"

definition kill_to_end :: "rl_state \<Rightarrow> (int \<times> rl_state) run" where
  "kill_to_end st =
     (let orig_point = rl_point st; st = rl_end_of_line st in
      bind_run (if orig_point \<noteq> rl_point st then rl_kill_text orig_point (rl_point st) st else Inr st) (\<lambda>st.
      Inr (0, st\<lparr>rl_point := orig_point, rl_mark := orig_point\<rparr>)))"

definition kill_to_start :: "rl_state \<Rightarrow> (int \<times> rl_state) run" where
  "kill_to_start st =
     (if rl_point st = 0 then Inr (0, rl_ding st)
      else
      let orig_point = rl_point st; st = rl_beg_of_line st in
      bind_run (if rl_point st \<noteq> orig_point then rl_kill_text orig_point (rl_point st) st else Inr st) (\<lambda>st.
      Inr (0, st\<lparr>rl_mark := rl_point st\<rparr>)))"

definition rl_kill_line :: "int \<Rightarrow> rl_state \<Rightarrow> (int \<times> rl_state) run" where
  "rl_kill_line direction st = (if direction < 0 then kill_to_start st else kill_to_end st)"

definition rl_backward_kill_line :: "int \<Rightarrow> rl_state \<Rightarrow> (int \<times> rl_state) run" where
  "rl_backward_kill_line direction st = (if direction < 0 then kill_to_end st else kill_to_start st)"

definition rl_kill_full_line :: "rl_state \<Rightarrow> (int \<times> rl_state) run" where
  "rl_kill_full_line st =
     bind_run (rl_begin_undo_group st) (\<lambda>st.
     let st = st\<lparr>rl_point := 0\<rparr> in
     bind_run (rl_kill_text (rl_point st) (rl_end st) st) (\<lambda>st.
     bind_run (rl_end_undo_group (st\<lparr>rl_mark := 0\<rparr>)) (\<lambda>st.
     Inr (0, st))))"

text \<open>The loop of \<open>rl_unix_word_rubout\<close>.\<close>

fun rubout_words :: "nat \<Rightarrow> rl_state \<Rightarrow> rl_state run" where
  "rubout_words 0 st = Inr st"
| "rubout_words (Suc n) st =
     bind_run (skip_backward whitespace st) (\<lambda>st.
     bind_run (skip_backward (\<lambda>c. \<not> whitespace c) st) (rubout_words n))"

definition rl_unix_word_rubout :: "int \<Rightarrow> rl_state \<Rightarrow> (int \<times> rl_state) run" where
  "rl_unix_word_rubout count st =
     (if rl_point st = 0 then Inr (0, rl_ding st)
      else
      let orig_point = rl_point st in
      bind_run (rubout_words (nat (if count \<le> 0 then 1 else count)) st) (\<lambda>st.
      bind_run (rl_kill_text orig_point (rl_point st) st) (\<lambda>st.
      Inr (0, st\<lparr>rl_mark := rl_point st\<rparr>))))"

text \<open>
  \<open>rl_unix_filename_rubout\<close> reads the character before the point each time it has moved it, before it looks whether
  there is one: \<open>rub_left\<close> moves while \<open>p\<close> holds of the character \<open>c\<close> it has read.
\<close>

fun rub_left :: "nat \<Rightarrow> (char \<Rightarrow> bool) \<Rightarrow> char \<Rightarrow> rl_state \<Rightarrow> (char \<times> rl_state) run" where
  "rub_left 0 p c st = Inr (c, st)"
| "rub_left (Suc n) p c st =
     (if rl_point st \<noteq> 0 \<and> p c then
        let st = st\<lparr>rl_point := rl_point st - 1\<rparr> in
        bind_run (buf_get (rl_point st - 1) st) (\<lambda>c. rub_left n p c st)
      else Inr (c, st))"

definition name_separator :: "char \<Rightarrow> bool" where
  "name_separator c \<longleftrightarrow> whitespace c \<or> c = CHR ''/''"

fun rubout_names :: "nat \<Rightarrow> rl_state \<Rightarrow> rl_state run" where
  "rubout_names 0 st = Inr st"
| "rubout_names (Suc n) st =
     bind_run (buf_get (rl_point st - 1) st) (\<lambda>c.
     bind_run (rub_left (nat (rl_point st)) name_separator c st) (\<lambda>(c, st).
     bind_run (rub_left (nat (rl_point st)) (\<lambda>c. \<not> name_separator c) c st) (\<lambda>(c, st).
     rubout_names n st)))"

definition rl_unix_filename_rubout :: "int \<Rightarrow> rl_state \<Rightarrow> (int \<times> rl_state) run" where
  "rl_unix_filename_rubout count st =
     (if rl_point st = 0 then Inr (0, rl_ding st)
      else
      let orig_point = rl_point st in
      bind_run (rubout_names (nat (if count \<le> 0 then 1 else count)) st) (\<lambda>st.
      bind_run (rl_kill_text orig_point (rl_point st) st) (\<lambda>st.
      Inr (0, st\<lparr>rl_mark := rl_point st\<rparr>))))"

definition rl_unix_line_discard :: "rl_state \<Rightarrow> (int \<times> rl_state) run" where
  "rl_unix_line_discard st =
     (if rl_point st = 0 then Inr (0, rl_ding st)
      else
      bind_run (rl_kill_text (rl_point st) 0 st) (\<lambda>st.
      Inr (0, st\<lparr>rl_point := 0, rl_mark := 0\<rparr>)))"

section \<open>The region\<close>

definition region_kill_internal :: "bool \<Rightarrow> rl_state \<Rightarrow> (int \<times> rl_state) run" where
  "region_kill_internal deleting st =
     bind_run
       (if rl_mark st \<noteq> rl_point st then
          bind_run (rl_copy_text (rl_point st) (rl_mark st) st) (\<lambda>str.
          bind_run (if deleting then rl_delete_text (rl_point st) (rl_mark st) st else Inr (0, st)) (\<lambda>(_, st).
          copy_to_kill_ring str (rl_point st < rl_mark st) st))
        else Inr st) (\<lambda>st.
     Inr (0, command_was_kill st))"

definition rl_copy_region_to_kill :: "rl_state \<Rightarrow> (int \<times> rl_state) run" where
  "rl_copy_region_to_kill st = region_kill_internal False st"

definition rl_kill_region :: "rl_state \<Rightarrow> (int \<times> rl_state) run" where
  "rl_kill_region st =
     (let npoint = (if rl_point st < rl_mark st then rl_point st else rl_mark st) in
      bind_run (region_kill_internal True st) (\<lambda>(r, st).
      Inr (r, (rl_fix_point True st)\<lparr>rl_point := npoint\<rparr>)))"

definition copy_word_as_kill :: "int \<Rightarrow> bool \<Rightarrow> rl_state \<Rightarrow> (int \<times> rl_state) run" where
  "copy_word_as_kill count forwards st =
     (let om = rl_mark st; op = rl_point st in
      bind_run (if forwards then rl_forward_word count st else rl_backward_word count st) (\<lambda>st.
      let st = st\<lparr>rl_mark := rl_point st\<rparr> in
      bind_run (if forwards then rl_backward_word count st else rl_forward_word count st) (\<lambda>st.
      bind_run (region_kill_internal False st) (\<lambda>(r, st).
      Inr (r, st\<lparr>rl_mark := om, rl_point := op\<rparr>)))))"

definition rl_copy_forward_word :: "int \<Rightarrow> rl_state \<Rightarrow> (int \<times> rl_state) run" where
  "rl_copy_forward_word count st =
     (if count < 0 then bind_run (negated count) (\<lambda>count. copy_word_as_kill count False st)
      else copy_word_as_kill count True st)"

definition rl_copy_backward_word :: "int \<Rightarrow> rl_state \<Rightarrow> (int \<times> rl_state) run" where
  "rl_copy_backward_word count st =
     (if count < 0 then bind_run (negated count) (\<lambda>count. copy_word_as_kill count True st)
      else copy_word_as_kill count False st)"

section \<open>Yanking\<close>

datatype outcome = Returned int | Long_Jump

text \<open>\<open>_rl_abort_internal\<close>, which jumps to \<open>_rl_top_level\<close>; the argument and the last command are forgotten.\<close>

definition rl_abort_internal :: "rl_state \<Rightarrow> outcome \<times> rl_state" where
  "rl_abort_internal st =
     (Long_Jump, (rl_ding st)\<lparr>rl_explicit_arg := False, rl_last_func := No_Func\<rparr>)"

definition returned :: "(int \<times> rl_state) run \<Rightarrow> (outcome \<times> rl_state) run" where
  "returned m = bind_run m (\<lambda>(r, st). Inr (Returned r, st))"

definition rl_yank :: "rl_state \<Rightarrow> (outcome \<times> rl_state) run" where
  "rl_yank st =
     (if rl_kill_ring st = None then Inr (rl_abort_internal st)
      else
      let st = snd (rl_set_mark_at_pos (rl_point st) st) in
      bind_run (ring_get (rl_kill_index st) st) (\<lambda>str.
      bind_run (rl_insert_text str st) (\<lambda>(_, st).
      Inr (Returned 0, st))))"

definition rl_yank_pop :: "rl_state \<Rightarrow> (outcome \<times> rl_state) run" where
  "rl_yank_pop st =
     (if rl_last_func st \<noteq> rl_yank_pop_func \<and> rl_last_func st \<noteq> rl_yank_func \<or> rl_kill_ring st = None
      then Inr (rl_abort_internal st)
      else
      bind_run (ring_get (rl_kill_index st) st) (\<lambda>cur.
      case cur of
        None \<Rightarrow> Inl Null_Pointer
      | Some cur \<Rightarrow>
          (let l = int (length cur); n = rl_point st - l in
           bind_run (if n \<ge> 0 then strneq_buffer cur n st else Inr False) (\<lambda>same.
           if same then
             bind_run (rl_delete_text n (rl_point st) st) (\<lambda>(_, st).
             let index = rl_kill_index st - 1;
                 index = (if index < 0 then rl_kill_ring_length st - 1 else index) in
             bind_run (rl_yank (st\<lparr>rl_point := n, rl_kill_index := index\<rparr>)) (\<lambda>(r, st).
             Inr (case r of Long_Jump \<Rightarrow> Long_Jump | Returned _ \<Rightarrow> Returned 0, st)))
           else Inr (rl_abort_internal st)))))"

section \<open>Yanking arguments of earlier lines\<close>

text \<open>The calls of \<open>previous_history\<close> that skip lines; the result is the last one's.\<close>

fun skip_history :: "nat \<Rightarrow> hist_state \<Rightarrow> hist_state run" where
  "skip_history 0 h = Inr h"
| "skip_history (Suc n) h = bind_run (previous_history h) (\<lambda>(_, h). skip_history n h)"

definition yank_nth_arg_internal :: "int \<Rightarrow> int \<Rightarrow> rl_state \<Rightarrow> (int \<times> rl_state) run" where
  "yank_nth_arg_internal count history_skip st =
     (let pos = where_history (rl_history st) in
      bind_run (skip_history (nat history_skip) (rl_history st)) (\<lambda>h.
      bind_run (previous_history h) (\<lambda>(a, h).
      let st = st\<lparr>rl_history := snd (history_set_pos pos h)\<rparr> in
      if a = 0 then Inr (-1, rl_ding st)
      else
      bind_run (entry a (rl_history st)) (\<lambda>e.
      bind_run (c_line (he_line e)) (\<lambda>line.
      bind_run (history_arg_extract (rl_junk st) (rl_word_delimiters st) (rl_comment_char st) count count line) (\<lambda>arg.
      if arg = None \<or> arg = Some [] then Inr (-1, rl_ding st)
      else
      bind_run (rl_begin_undo_group st) (\<lambda>st.
      let st = snd (rl_set_mark_at_pos (rl_point st) st) in
      bind_run (rl_insert_text arg st) (\<lambda>(_, st).
      bind_run (rl_end_undo_group st) (\<lambda>st.
      Inr (0, st))))))))))"

definition rl_yank_nth_arg :: "int \<Rightarrow> rl_state \<Rightarrow> (int \<times> rl_state) run" where
  "rl_yank_nth_arg count st = yank_nth_arg_internal count 0 st"

definition rl_yank_last_arg :: "int \<Rightarrow> rl_state \<Rightarrow> (int \<times> rl_state) run" where
  "rl_yank_last_arg count st =
     bind_run
       (if rl_last_func st \<noteq> rl_yank_last_arg_func
        then Inr (st\<lparr>yank_history_skip := 0, yank_explicit_arg := rl_explicit_arg st, yank_count_passed := count,
               yank_direction := 1\<rparr>)
        else
        bind_run (if yank_undo_needed st then rl_do_undo st else Inr (0, st)) (\<lambda>(_, st).
        let direction = (if count < 0 then - yank_direction st else yank_direction st);
            skip = yank_history_skip st + direction in
        Inr (st\<lparr>yank_direction := direction, yank_history_skip := (if skip < 0 then 0 else skip)\<rparr>))) (\<lambda>st.
     bind_run (yank_nth_arg_internal (if yank_explicit_arg st then yank_count_passed st else DOLLAR)
                 (yank_history_skip st) st) (\<lambda>(retval, st).
     Inr (retval, st\<lparr>yank_undo_needed := (retval = 0)\<rparr>)))"

section \<open>The loop that runs the commands\<close>

datatype command =
    Forward_Byte | Backward_Byte | Forward_Char | Backward_Char | Beg_Of_Line | End_Of_Line | Forward_Word | Backward_Word
  | Insert char | Quoted_Insert int | Tab_Insert | Newline | Rubout | Delete | Rubout_Or_Delete | Delete_Horizontal_Space
  | Insert_Comment | Upcase_Word | Downcase_Word | Capitalize_Word | Transpose_Words | Transpose_Chars
  | Char_Search int | Backward_Char_Search int | Set_Mark | Exchange_Point_And_Mark
  | Kill_Word | Backward_Kill_Word | Kill_Line | Backward_Kill_Line | Kill_Full_Line | Unix_Word_Rubout
  | Unix_Filename_Rubout | Unix_Line_Discard | Copy_Region_To_Kill | Kill_Region | Copy_Forward_Word | Copy_Backward_Word
  | Yank | Yank_Pop | Yank_Nth_Arg | Yank_Last_Arg | Undo_Command | Revert_Line

definition call_command :: "command \<Rightarrow> int \<Rightarrow> rl_state \<Rightarrow> (outcome \<times> rl_state) run" where
  "call_command cmd count st =
     (case cmd of
        Forward_Byte \<Rightarrow> returned (rl_forward_byte count st)
      | Backward_Byte \<Rightarrow> returned (rl_backward_byte count st)
      | Forward_Char \<Rightarrow> returned (rl_forward_char count st)
      | Backward_Char \<Rightarrow> returned (rl_backward_char count st)
      | Beg_Of_Line \<Rightarrow> Inr (Returned 0, rl_beg_of_line st)
      | End_Of_Line \<Rightarrow> Inr (Returned 0, rl_end_of_line st)
      | Forward_Word \<Rightarrow> bind_run (rl_forward_word count st) (\<lambda>st. Inr (Returned 0, st))
      | Backward_Word \<Rightarrow> bind_run (rl_backward_word count st) (\<lambda>st. Inr (Returned 0, st))
      | Insert c \<Rightarrow> returned (rl_insert count c st)
      | Quoted_Insert k \<Rightarrow> returned (rl_quoted_insert count k st)
      | Tab_Insert \<Rightarrow> returned (rl_tab_insert count st)
      | Newline \<Rightarrow> Inr (Returned 0, rl_newline st)
      | Rubout \<Rightarrow> returned (rl_rubout count st)
      | Delete \<Rightarrow> returned (rl_delete count st)
      | Rubout_Or_Delete \<Rightarrow> returned (rl_rubout_or_delete count st)
      | Delete_Horizontal_Space \<Rightarrow> returned (rl_delete_horizontal_space st)
      | Insert_Comment \<Rightarrow> returned (rl_insert_comment st)
      | Upcase_Word \<Rightarrow> returned (rl_upcase_word count st)
      | Downcase_Word \<Rightarrow> returned (rl_downcase_word count st)
      | Capitalize_Word \<Rightarrow> returned (rl_capitalize_word count st)
      | Transpose_Words \<Rightarrow> returned (rl_transpose_words count st)
      | Transpose_Chars \<Rightarrow> returned (rl_transpose_chars count st)
      | Char_Search k \<Rightarrow> returned (rl_char_search count k st)
      | Backward_Char_Search k \<Rightarrow> returned (rl_backward_char_search count k st)
      | Set_Mark \<Rightarrow> returned (Inr (rl_set_mark count st))
      | Exchange_Point_And_Mark \<Rightarrow> returned (Inr (rl_exchange_point_and_mark st))
      | Kill_Word \<Rightarrow> returned (rl_kill_word count st)
      | Backward_Kill_Word \<Rightarrow> returned (rl_backward_kill_word count st)
      | Kill_Line \<Rightarrow> returned (rl_kill_line count st)
      | Backward_Kill_Line \<Rightarrow> returned (rl_backward_kill_line count st)
      | Kill_Full_Line \<Rightarrow> returned (rl_kill_full_line st)
      | Unix_Word_Rubout \<Rightarrow> returned (rl_unix_word_rubout count st)
      | Unix_Filename_Rubout \<Rightarrow> returned (rl_unix_filename_rubout count st)
      | Unix_Line_Discard \<Rightarrow> returned (rl_unix_line_discard st)
      | Copy_Region_To_Kill \<Rightarrow> returned (rl_copy_region_to_kill st)
      | Kill_Region \<Rightarrow> returned (rl_kill_region st)
      | Copy_Forward_Word \<Rightarrow> returned (rl_copy_forward_word count st)
      | Copy_Backward_Word \<Rightarrow> returned (rl_copy_backward_word count st)
      | Yank \<Rightarrow> rl_yank st
      | Yank_Pop \<Rightarrow> rl_yank_pop st
      | Yank_Nth_Arg \<Rightarrow> returned (rl_yank_nth_arg count st)
      | Yank_Last_Arg \<Rightarrow> returned (rl_yank_last_arg count st)
      | Undo_Command \<Rightarrow> returned (rl_undo_command count st)
      | Revert_Line \<Rightarrow> returned (rl_revert_line st))"

definition func_of :: "command \<Rightarrow> command_func" where
  "func_of cmd =
     (case cmd of
        Yank \<Rightarrow> rl_yank_func
      | Yank_Pop \<Rightarrow> rl_yank_pop_func
      | Yank_Last_Arg \<Rightarrow> rl_yank_last_arg_func
      | _ \<Rightarrow> Other_Func)"

text \<open>
  A pass of \<open>readline_internal_charloop\<close> and the part of \<open>_rl_dispatch_subseq\<close> that runs the function bound to a key:
  \<open>call\<close> is the function with its numeric argument, \<open>f\<close> what is remembered of it, \<open>explicit\<close> whether the argument was
  typed. A long jump leaves the pass; the next one begins with the value \<open>_rl_last_command_was_kill\<close> has then.
\<close>

definition charloop_pass ::
    "(rl_state \<Rightarrow> (outcome \<times> rl_state) run) \<Rightarrow> command_func \<Rightarrow> bool \<Rightarrow> rl_state \<Rightarrow> rl_state run" where
  "charloop_pass call f explicit st =
     (let lk = rl_last_command_was_kill st in
      bind_run (call (st\<lparr>rl_explicit_arg := explicit\<rparr>)) (\<lambda>(r, st).
      case r of
        Long_Jump \<Rightarrow> Inr st
      | Returned _ \<Rightarrow>
          (let st = st\<lparr>rl_last_func := f\<rparr> in
           Inr (if lk = rl_last_command_was_kill st then st\<lparr>rl_last_command_was_kill := 0\<rparr> else st))))"

definition run_command :: "command \<Rightarrow> bool \<Rightarrow> int \<Rightarrow> rl_state \<Rightarrow> rl_state run" where
  "run_command cmd explicit count st = charloop_pass (call_command cmd count) (func_of cmd) explicit st"

fun run_commands :: "(command \<times> bool \<times> int) list \<Rightarrow> rl_state \<Rightarrow> rl_state run" where
  "run_commands [] st = Inr st"
| "run_commands ((cmd, explicit, count) # cs) st =
     (if rl_done st then Inr st else bind_run (run_command cmd explicit count st) (run_commands cs))"

end
