(* ===== verification/Rl_Command_Spec.thy ===== *)
theory Rl_Command_Spec
  imports Rl_Line_Spec Rl_Kill
begin

text \<open>
  The commands keep the point in the line, the line in its buffer and the undo list leading back to the text the
  editing began with, as long as the numeric argument is small and the kill ring has room.
\<close>

section \<open>The point\<close>

definition at_point :: "rl_state \<Rightarrow> bool" where
  "at_point st \<longleftrightarrow> 0 \<le> rl_point st \<and> rl_point st \<le> rl_end st"

text \<open>A movement changes only the point, and it may ring the bell.\<close>

definition point_moved :: "rl_state \<Rightarrow> rl_state \<Rightarrow> bool" where
  "point_moved st st' \<longleftrightarrow> st' = st\<lparr>rl_point := rl_point st', rl_dings := rl_dings st'\<rparr> \<and> at_point st'"

lemma moved_refl: "at_point st \<Longrightarrow> point_moved st st"
  by (simp add: point_moved_def)

lemma moved_trans: "point_moved st1 st2 \<Longrightarrow> point_moved st2 st3 \<Longrightarrow> point_moved st1 st3"
  by (cases st1; cases st2; cases st3) (simp add: point_moved_def)

lemma moved_facts:
  assumes "point_moved st st'"
  shows "at_point st'" "rl_end st' = rl_end st" "rl_line_buffer st' = rl_line_buffer st" "rl_mark st' = rl_mark st"
    "same_rest st st'" "line_is t st' = line_is t st" "line_text st' = line_text st" "lined base st' = lined base st"
    "rl_alphabetic st' = rl_alphabetic st" "rl_explicit_arg st' = rl_explicit_arg st"
proof -
  obtain p d where st': "st' = st\<lparr>rl_point := p, rl_dings := d\<rparr>" "at_point st'" using assms by (auto simp: point_moved_def)
  show "at_point st'" by (rule st'(2))
  show "rl_end st' = rl_end st" "rl_line_buffer st' = rl_line_buffer st" "rl_mark st' = rl_mark st"
    "line_is t st' = line_is t st" "line_text st' = line_text st" "lined base st' = lined base st"
    "rl_explicit_arg st' = rl_explicit_arg st" by (simp_all add: st'(1))
  show "rl_alphabetic st' = rl_alphabetic st" by (rule ext) (simp add: st'(1) rl_alphabetic_def)
  show "same_rest st st'" by (simp add: st'(1) same_rest_def)
qed

lemma moved_point: "at_point (st\<lparr>rl_point := p\<rparr>) \<Longrightarrow> point_moved st (st\<lparr>rl_point := p\<rparr>)"
  by (simp add: point_moved_def)

lemma moved_ding: "at_point st \<Longrightarrow> point_moved st (rl_ding st)"
  by (simp add: point_moved_def rl_ding_def at_point_def)

text \<open>Which counts a command of one line may be given.\<close>

definition small_count :: "int \<Rightarrow> rl_state \<Rightarrow> bool" where
  "small_count count st \<longleftrightarrow> rl_end st + \<bar>count\<bar> + 1 < 2 ^ 31"

lemma negated_small:
  "small_count count st \<Longrightarrow> 0 \<le> rl_end st \<Longrightarrow> count < 0 \<Longrightarrow> negated count = Inr (- count)"
  by (simp add: negated_def small_count_def wrap32_id int32_def)

lemma moved_small: "point_moved st st' \<Longrightarrow> small_count count st' = small_count count st"
  using moved_facts(2) by (simp add: small_count_def)

lemma forward_bytes_moved:
  "at_point st \<Longrightarrow> small_count count st \<Longrightarrow> point_moved st (forward_bytes count st)"
  by (auto simp: forward_bytes_def point_moved_def at_point_def small_count_def rl_ding_def Let_def wrap32_id int32_def)

lemma backward_bytes_moved: "at_point st \<Longrightarrow> point_moved st (backward_bytes count st)"
  by (auto simp: backward_bytes_def point_moved_def at_point_def rl_ding_def Let_def)

lemma small_minus: "small_count (- count) st = small_count count st"
  by (simp add: small_count_def)

lemma forward_byte_run:
  assumes "at_point st" and "small_count count st"
  shows "\<exists>st'. rl_forward_byte count st = Inr (0, st') \<and> point_moved st st' \<and>
    st' = (if count < 0 then backward_bytes (- count) st else forward_bytes count st)"
  using assms negated_small [OF assms(2)] forward_bytes_moved [OF assms] backward_bytes_moved [OF assms(1)]
  by (auto simp: rl_forward_byte_def at_point_def)

lemma backward_byte_run:
  assumes "at_point st" and "small_count count st"
  shows "\<exists>st'. rl_backward_byte count st = Inr (0, st') \<and> point_moved st st' \<and>
    st' = (if count < 0 then forward_bytes (- count) st else backward_bytes count st)"
  using assms negated_small [OF assms(2)] forward_bytes_moved [of st "- count"] backward_bytes_moved [OF assms(1)]
  by (auto simp: rl_backward_byte_def at_point_def small_minus)

text \<open>The loops over characters stop at the first one of which the predicate does not hold.\<close>

lemma line_buf_get:
  assumes "line_is t st" and "0 \<le> i" and "i < rl_end st"
  shows "buf_get i st = Inr (t ! nat i)" "t ! nat i \<noteq> NUL"
proof -
  have i: "nat i < length t" using assms by (simp add: line_is_def)
  then show "t ! nat i \<noteq> NUL" using assms(1) by (auto simp: line_is_def in_set_conv_nth)
  show "buf_get i st = Inr (t ! nat i)" using line_get [OF assms(1), of "nat i"] i assms(2) by (simp add: cstr_at_def)
qed

lemma skip_right_run:
  "line_is t st \<Longrightarrow> at_point st \<Longrightarrow> n = length t - nat (rl_point st) \<Longrightarrow>
    skip_right n p st = Inr (st\<lparr>rl_point := rl_point st + int (length (takeWhile p (drop (nat (rl_point st)) t)))\<rparr>)"
proof (induction n arbitrary: st)
  case (Suc n)
  have pt: "0 \<le> rl_point st" "nat (rl_point st) < length t" "rl_point st < rl_end st"
    using Suc.prems by (auto simp: at_point_def line_is_def)
  have dt: "drop (nat (rl_point st)) t = t ! nat (rl_point st) # drop (Suc (nat (rl_point st))) t"
    using Cons_nth_drop_Suc [OF pt(2)] by simp
  have nx: "nat (rl_point st + 1) = Suc (nat (rl_point st))" using pt(1) by simp
  let ?st = "st\<lparr>rl_point := rl_point st + 1\<rparr>"
  have "line_is t ?st" "at_point ?st" "n = length t - nat (rl_point ?st)" using Suc.prems pt by (simp_all add: at_point_def nx)
  from Suc.IH [OF this] show ?case
    using line_buf_get(1) [OF Suc.prems(1) pt(1,3)] pt(3) by (simp add: dt nx add.assoc)
qed simp

lemma skip_left_run:
  "line_is t st \<Longrightarrow> at_point st \<Longrightarrow> n = nat (rl_point st) \<Longrightarrow>
    skip_left n p st = Inr (st\<lparr>rl_point := rl_point st - int (length (takeWhile p (rev (take (nat (rl_point st)) t))))\<rparr>)"
proof (induction n arbitrary: st)
  case (Suc n)
  have pt: "rl_point st = int (Suc n)" "n < length t" "0 \<le> rl_point st - 1" "rl_point st - 1 < rl_end st" "nat (rl_point st - 1) = n"
    using Suc.prems by (auto simp: at_point_def line_is_def)
  have tt: "rev (take (nat (rl_point st)) t) = t ! n # rev (take n t)"
    using take_Suc_conv_app_nth [OF pt(2)] pt(1) by (simp add: nat_add_distrib)
  let ?st = "st\<lparr>rl_point := rl_point st - 1\<rparr>"
  have "line_is t ?st" "at_point ?st" "n = nat (rl_point ?st)" using Suc.prems(1) pt(3-5) by (simp_all add: at_point_def)
  from Suc.IH [OF this] have ih: "skip_left n p ?st =
      Inr (st\<lparr>rl_point := rl_point st - (1 + int (length (takeWhile p (rev (take n t)))))\<rparr>)" by (simp add: pt(5))
  have "rl_point st > 0" using pt(1) by simp
  then show ?case using line_buf_get(1) [OF Suc.prems(1) pt(3,4)] pt(5) ih by (simp add: tt)
qed simp

lemma skip_forward_run:
  assumes "line_is t st" and "at_point st"
  shows "skip_forward p st = Inr (st\<lparr>rl_point := rl_point st + int (length (takeWhile p (drop (nat (rl_point st)) t)))\<rparr>)"
    "point_moved st (st\<lparr>rl_point := rl_point st + int (length (takeWhile p (drop (nat (rl_point st)) t)))\<rparr>)"
proof -
  have "nat (rl_end st - rl_point st) = length t - nat (rl_point st)" using assms by (simp add: line_is_def at_point_def nat_diff_distrib)
  then show "skip_forward p st = Inr (st\<lparr>rl_point := rl_point st + int (length (takeWhile p (drop (nat (rl_point st)) t)))\<rparr>)"
    using skip_right_run [OF assms] by (simp add: skip_forward_def)
  have "length (takeWhile p (drop (nat (rl_point st)) t)) \<le> length t - nat (rl_point st)"
    using length_takeWhile_le [of p "drop (nat (rl_point st)) t"] by simp
  then show "point_moved st (st\<lparr>rl_point := rl_point st + int (length (takeWhile p (drop (nat (rl_point st)) t)))\<rparr>)"
    using assms by (intro moved_point) (auto simp: at_point_def line_is_def)
qed

lemma skip_backward_run:
  assumes "line_is t st" and "at_point st"
  shows "skip_backward p st = Inr (st\<lparr>rl_point := rl_point st - int (length (takeWhile p (rev (take (nat (rl_point st)) t))))\<rparr>)"
    "point_moved st (st\<lparr>rl_point := rl_point st - int (length (takeWhile p (rev (take (nat (rl_point st)) t))))\<rparr>)"
proof -
  show "skip_backward p st = Inr (st\<lparr>rl_point := rl_point st - int (length (takeWhile p (rev (take (nat (rl_point st)) t))))\<rparr>)"
    unfolding skip_backward_def by (rule skip_left_run [OF assms refl])
  have "length (takeWhile p (rev (take (nat (rl_point st)) t))) \<le> nat (rl_point st)"
    using length_takeWhile_le [of p "rev (take (nat (rl_point st)) t)"] by simp
  then show "point_moved st (st\<lparr>rl_point := rl_point st - int (length (takeWhile p (rev (take (nat (rl_point st)) t))))\<rparr>)"
    using assms(2) by (intro moved_point) (auto simp: at_point_def)
qed

section \<open>Words\<close>

text \<open>Where a word to the right of a position ends, and where one to the left begins.\<close>

definition word_right :: "(char \<Rightarrow> bool) \<Rightarrow> string \<Rightarrow> nat \<Rightarrow> nat" where
  "word_right alpha t i =
     (let j = i + length (takeWhile (\<lambda>c. \<not> alpha c) (drop i t)) in j + length (takeWhile alpha (drop j t)))"

definition word_left :: "(char \<Rightarrow> bool) \<Rightarrow> string \<Rightarrow> nat \<Rightarrow> nat" where
  "word_left alpha t i =
     (let j = i - length (takeWhile (\<lambda>c. \<not> alpha c) (rev (take i t))) in j - length (takeWhile alpha (rev (take j t))))"

lemma word_right_le: "i \<le> length t \<Longrightarrow> word_right alpha t i \<le> length t \<and> i \<le> word_right alpha t i"
proof -
  assume i: "i \<le> length t"
  define j where "j = i + length (takeWhile (\<lambda>c. \<not> alpha c) (drop i t))"
  have "j \<le> length t" using length_takeWhile_le [of "\<lambda>c. \<not> alpha c" "drop i t"] i by (simp add: j_def)
  then show ?thesis using length_takeWhile_le [of alpha "drop j t"] by (simp add: word_right_def j_def [symmetric] Let_def) (simp add: j_def)
qed

lemma word_left_le: "word_left alpha t i \<le> i"
  by (simp add: word_left_def Let_def)

text \<open>Skipping from the character behind one of which the predicate holds.\<close>

lemma skip_next_run:
  assumes "line_is t st" and "j < length t" and "p (t ! j)"
  shows "skip_forward p (st\<lparr>rl_point := int j + 1\<rparr>) = Inr (st\<lparr>rl_point := int (j + length (takeWhile p (drop j t)))\<rparr>)"
proof -
  have "line_is t (st\<lparr>rl_point := int j + 1\<rparr>)" "at_point (st\<lparr>rl_point := int j + 1\<rparr>)"
    using assms(1,2) by (simp_all add: at_point_def line_is_def)
  from skip_forward_run(1) [OF this, of p] show ?thesis
    using Cons_nth_drop_Suc [OF assms(2), symmetric] assms(3) by (simp add: nat_add_distrib)
qed

lemma skip_prev_run:
  assumes "line_is t st" and "j < length t" and "p (t ! j)"
  shows "skip_backward p (st\<lparr>rl_point := int j\<rparr>) =
    Inr (st\<lparr>rl_point := int (Suc j - length (takeWhile p (rev (take (Suc j) t))))\<rparr>)"
proof -
  have "line_is t (st\<lparr>rl_point := int j\<rparr>)" "at_point (st\<lparr>rl_point := int j\<rparr>)"
    using assms(1,2) by (simp_all add: at_point_def line_is_def)
  moreover have "length (takeWhile p (rev (take j t))) \<le> j" using length_takeWhile_le [of p "rev (take j t)"] assms(2) by simp
  ultimately show ?thesis
    using skip_backward_run(1) [of t "st\<lparr>rl_point := int j\<rparr>" p] assms(2,3) by (simp add: take_Suc_conv_app_nth of_nat_diff)
qed

lemma takeWhile_stops:
  assumes "j = i + length (takeWhile p (drop i t))" and "i \<le> length t" and "j \<noteq> length t"
  shows "j < length t" "\<not> p (t ! j)"
proof -
  have le: "length (takeWhile p (drop i t)) < length (drop i t)"
    using length_takeWhile_le [of p "drop i t"] assms by (cases "length (takeWhile p (drop i t)) = length t - i") auto
  then show "j < length t" using assms(1,2) by simp
  show "\<not> p (t ! j)" using nth_length_takeWhile [OF le] le assms(1,2) by simp
qed

lemma forward_words_run:
  "line_is t st \<Longrightarrow> at_point st \<Longrightarrow>
    forward_words n st = Inr (st\<lparr>rl_point := int ((word_right (rl_alphabetic st) t ^^ n) (nat (rl_point st)))\<rparr>)"
proof (induction n arbitrary: st)
  case 0
  then show ?case by (simp add: at_point_def)
next
  case (Suc n)
  let ?a = "rl_alphabetic st" and ?i = "nat (rl_point st)"
  let ?w = "word_right ?a t"
  have e: "rl_end st = int (length t)" using Suc.prems(1) by (simp add: line_is_def)
  have pi: "rl_point st = int ?i" "?i \<le> length t" using Suc.prems(2) e by (auto simp: at_point_def nat_le_iff)
  have stay: "(?w ^^ m) (length t) = length t" for m by (induction m) (simp_all add: word_right_def)
  have go: "forward_words n (st\<lparr>rl_point := int k\<rparr>) = Inr (st\<lparr>rl_point := int ((?w ^^ n) k)\<rparr>)" if "k \<le> length t" for k
  proof -
    have "rl_alphabetic (st\<lparr>rl_point := int k\<rparr>) = ?a" by (rule ext) (simp add: rl_alphabetic_def)
    then show ?thesis using Suc.IH [of "st\<lparr>rl_point := int k\<rparr>"] Suc.prems(1) that e by (simp add: at_point_def)
  qed
  define j where "j = ?i + length (takeWhile (\<lambda>c. \<not> ?a c) (drop ?i t))"
  have w: "?w ?i = j + length (takeWhile ?a (drop j t))" by (simp add: word_right_def j_def Let_def)
  show ?case
  proof (cases "rl_point st = rl_end st")
    case True
    then have "?i = length t" using e by simp
    then show ?thesis using True e stay [of "Suc n"] by (simp del: funpow.simps)
  next
    case False
    then have i: "?i < length t" using pi e by linarith
    have get: "buf_get (rl_point st) st = Inr (t ! ?i)" using line_get [OF Suc.prems(1), of ?i] i pi by (simp add: cstr_at_def)
    have "(if ?a (t ! ?i) then Inr st else skip_forward (\<lambda>c. \<not> ?a c) (st\<lparr>rl_point := rl_point st + 1\<rparr>)) =
        Inr (st\<lparr>rl_point := int j\<rparr>)"
      using skip_next_run [OF Suc.prems(1) i, of "\<lambda>c. \<not> ?a c"] pi(1) Cons_nth_drop_Suc [OF i, symmetric]
      by (auto simp: j_def)
    moreover have "rl_alphabetic (st\<lparr>rl_point := int j\<rparr>) = ?a" by (rule ext) (simp add: rl_alphabetic_def)
    ultimately have run: "forward_words (Suc n) st =
        (if int j = rl_end st then Inr (st\<lparr>rl_point := int j\<rparr>)
         else bind_run (skip_forward ?a (st\<lparr>rl_point := int j + 1\<rparr>)) (forward_words n))"
      using False get by (simp cong: if_cong)
    show ?thesis
    proof (cases "j = length t")
      case True
      then have "?w ?i = length t" using w by simp
      then show ?thesis using run True e stay [of n] by (simp add: funpow_swap1)
    next
      case no: False
      note j = takeWhile_stops [OF j_def pi(2) no]
      have "skip_forward ?a (st\<lparr>rl_point := int j + 1\<rparr>) = Inr (st\<lparr>rl_point := int (?w ?i)\<rparr>)"
        using skip_next_run [OF Suc.prems(1) j(1)] j(2) w by simp
      then show ?thesis using run no e go [of "?w ?i"] word_right_le [OF pi(2)] by (simp add: funpow_swap1)
    qed
  qed
qed

lemma backward_words_run:
  "line_is t st \<Longrightarrow> at_point st \<Longrightarrow>
    backward_words n st = Inr (st\<lparr>rl_point := int ((word_left (rl_alphabetic st) t ^^ n) (nat (rl_point st)))\<rparr>)"
proof (induction n arbitrary: st)
  case 0
  then show ?case by (simp add: at_point_def)
next
  case (Suc n)
  let ?a = "rl_alphabetic st" and ?i = "nat (rl_point st)"
  let ?w = "word_left ?a t"
  have e: "rl_end st = int (length t)" using Suc.prems(1) by (simp add: line_is_def)
  have pi: "rl_point st = int ?i" "?i \<le> length t" using Suc.prems(2) e by (auto simp: at_point_def nat_le_iff)
  have stay: "(?w ^^ m) 0 = 0" for m by (induction m) (simp_all add: word_left_def)
  have alpha: "rl_alphabetic (st\<lparr>rl_point := k\<rparr>) = ?a" for k by (rule ext) (simp add: rl_alphabetic_def)
  have go: "backward_words n (st\<lparr>rl_point := int k\<rparr>) = Inr (st\<lparr>rl_point := int ((?w ^^ n) k)\<rparr>)" if "k \<le> length t" for k
    using Suc.IH [of "st\<lparr>rl_point := int k\<rparr>"] Suc.prems(1) that e alpha [of "int k"] by (simp add: at_point_def)
  define j where "j = ?i - length (takeWhile (\<lambda>c. \<not> ?a c) (rev (take ?i t)))"
  have w: "?w ?i = j - length (takeWhile ?a (rev (take j t)))" by (simp add: word_left_def j_def Let_def)
  have jl: "j \<le> length t" using pi(2) by (simp add: j_def)
  show ?case
  proof (cases "rl_point st = 0")
    case True
    then show ?thesis using stay [of "Suc n"] by (simp del: funpow.simps)
  next
    case False
    then obtain k where k: "?i = Suc k" "k < length t" using pi by (cases ?i) auto
    have pk: "rl_point st - 1 = int k" using k(1) pi(1) by simp
    have get: "buf_get (rl_point st - 1) st = Inr (t ! k)"
      using line_get [OF Suc.prems(1), of k] k pk by (simp add: cstr_at_def)
    have "(if ?a (t ! k) then Inr st else skip_backward (\<lambda>c. \<not> ?a c) (st\<lparr>rl_point := rl_point st - 1\<rparr>)) =
        Inr (st\<lparr>rl_point := int j\<rparr>)"
      using skip_prev_run [OF Suc.prems(1) k(2), of "\<lambda>c. \<not> ?a c"] pk k pi(1)
      by (auto simp: j_def take_Suc_conv_app_nth)
    then have run: "backward_words (Suc n) st = bind_run (skip_backward ?a (st\<lparr>rl_point := int j\<rparr>)) (backward_words n)"
      using False get alpha [of "int j"] by (simp cong: if_cong)
    have "line_is t (st\<lparr>rl_point := int j\<rparr>)" "at_point (st\<lparr>rl_point := int j\<rparr>)"
      using Suc.prems(1) jl e by (simp_all add: at_point_def)
    moreover have "length (takeWhile ?a (rev (take j t))) \<le> j"
      using length_takeWhile_le [of ?a "rev (take j t)"] jl by simp
    ultimately have "skip_backward ?a (st\<lparr>rl_point := int j\<rparr>) = Inr (st\<lparr>rl_point := int (?w ?i)\<rparr>)"
      using skip_backward_run(1) [of t "st\<lparr>rl_point := int j\<rparr>" ?a] w by (simp add: of_nat_diff)
    then show ?thesis using run go [of "?w ?i"] word_left_le [of ?a t ?i] pi(2) by (simp add: funpow_swap1)
  qed
qed

text \<open>Words to the right, or to the left when the count is negative.\<close>

definition word_move :: "(char \<Rightarrow> bool) \<Rightarrow> string \<Rightarrow> int \<Rightarrow> nat \<Rightarrow> nat" where
  "word_move alpha t count i =
     (if count < 0 then (word_left alpha t ^^ nat (- count)) i else (word_right alpha t ^^ nat count) i)"

lemma words_right_le: "i \<le> length t \<Longrightarrow> (word_right alpha t ^^ n) i \<le> length t \<and> i \<le> (word_right alpha t ^^ n) i"
  using word_right_le [of _ t alpha] by (induction n) (auto intro: order_trans)

lemma words_left_le: "(word_left alpha t ^^ n) i \<le> i"
  using word_left_le [of alpha t] by (induction n) (auto intro: order_trans)

lemma word_move_le: "i \<le> length t \<Longrightarrow> word_move alpha t count i \<le> length t"
  using words_right_le [where alpha = alpha and n = "nat count"]
  by (auto simp: word_move_def intro: order_trans [OF words_left_le])

lemma at_point_nat: "line_is t st \<Longrightarrow> at_point st \<Longrightarrow> nat (rl_point st) \<le> length t \<and> rl_point st = int (nat (rl_point st))"
  by (auto simp: line_is_def at_point_def nat_le_iff)

lemma forward_word_run:
  assumes "line_is t st" and "at_point st" and "small_count count st"
  shows "rl_forward_word count st = Inr (st\<lparr>rl_point := int (word_move (rl_alphabetic st) t count (nat (rl_point st)))\<rparr>)"
  using forward_words_run [OF assms(1,2)] backward_words_run [OF assms(1,2)] negated_small [OF assms(3)] assms(1)
  by (auto simp: rl_forward_word_def word_move_def line_is_def)

lemma backward_word_run:
  assumes "line_is t st" and "at_point st" and "small_count count st"
  shows "rl_backward_word count st = Inr (st\<lparr>rl_point := int (word_move (rl_alphabetic st) t (- count) (nat (rl_point st)))\<rparr>)"
  using forward_words_run [OF assms(1,2), of "nat (- count)"] backward_words_run [OF assms(1,2), of "nat count"]
    negated_small [OF assms(3)] assms(1)
  by (cases "count = 0") (auto simp: rl_backward_word_def word_move_def line_is_def at_point_def)

lemma word_moved:
  assumes "line_is t st" and "at_point st"
  shows "point_moved st (st\<lparr>rl_point := int (word_move alpha t count (nat (rl_point st)))\<rparr>)"
  using word_move_le [of "nat (rl_point st)" t alpha count] at_point_nat [OF assms] assms(1)
  by (intro moved_point) (simp add: at_point_def line_is_def)

section \<open>The kill ring\<close>

definition ring_ok :: "rl_state \<Rightarrow> bool" where
  "ring_ok st \<longleftrightarrow>
     (case rl_kill_ring st of
        None \<Rightarrow> True
      | Some b \<Rightarrow>
          0 \<le> rl_kill_index st \<and> rl_kill_index st < rl_kill_ring_length st \<and> rl_kill_ring_length st \<le> rl_max_kills \<and>
          rl_kill_ring_length st \<le> int (length b) \<and>
          (\<forall>i < nat (rl_kill_ring_length st). \<exists>s. b ! i = Some s \<and> NUL \<notin> set s))"

text \<open>There is a slot for the text killed next.\<close>

definition kill_room :: "rl_state \<Rightarrow> bool" where
  "kill_room st \<longleftrightarrow>
     (if rl_last_command_was_kill st = 0 then rl_kill_ring st = None \<or> rl_kill_ring_length st < rl_max_kills
      else rl_kill_ring st \<noteq> None)"

lemma copy_ring_new:
  assumes "rl_last_command_was_kill st = 0" and "rl_kill_ring st = None" and "NUL \<notin> set str"
  shows "copy_to_kill_ring str app st =
    Inr (st\<lparr>rl_kill_ring := Some [Some str, None], rl_kill_ring_length := 1, rl_kill_index := 0\<rparr>)"
  using assms by (simp add: copy_to_kill_ring_def new_kill_slot_def ring_put_def)

lemma copy_ring_more:
  assumes "rl_last_command_was_kill st = 0" and "rl_kill_ring st = Some b" and "ring_ok st"
    and "rl_kill_ring_length st = int l" and "int l < rl_max_kills"
  shows "copy_to_kill_ring str app st =
    Inr (st\<lparr>rl_kill_ring := Some (take l b @ [Some str]), rl_kill_ring_length := int l + 1, rl_kill_index := int l\<rparr>)"
proof -
  have b: "l \<le> length b" "0 < l" using assms(2-4) by (simp_all add: ring_ok_def)
  have nl: "nat (int l + 1) = Suc l" by simp
  have r: "take l (ring_realloc (Suc l) b) = take l b" "length (ring_realloc (Suc l) b) = Suc l"
    using b by (auto simp: ring_realloc_def min_def)
  then have "(ring_realloc (Suc l) b)[l := v] = take l b @ [v]" for v by (simp add: upd_conv_take_nth_drop)
  moreover have "(take l b @ [None])[l := Some str] = take l b @ [Some str]" using b by (simp add: list_update_append)
  moreover have "length (take l b @ [None :: string option]) = Suc l" using b by simp
  ultimately show ?thesis
    using assms r(2) nl b(1) by (simp add: copy_to_kill_ring_def new_kill_slot_def ring_put_def Let_def min_def)
qed

lemma copy_ring_again:
  assumes "rl_last_command_was_kill st \<noteq> 0" and "rl_kill_ring st = Some b" and "ring_ok st"
    and "rl_kill_ring_length st = int (Suc l)"
  shows "\<exists>old. b ! l = Some old \<and> NUL \<notin> set old \<and> copy_to_kill_ring str app st =
    Inr (st\<lparr>rl_kill_ring := Some (b[l := Some (if app then old @ str else str @ old)]), rl_kill_index := int l\<rparr>)"
proof -
  have b: "l < length b" using assms(2-4) by (simp add: ring_ok_def)
  have "\<forall>i < Suc l. \<exists>s. b ! i = Some s \<and> NUL \<notin> set s" using assms(2-4) by (simp add: ring_ok_def nat_add_distrib)
  then obtain old where "b ! l = Some old" "NUL \<notin> set old" by blast
  then show ?thesis using assms(1,2,4) b by (simp add: copy_to_kill_ring_def ring_get_def ring_put_def)
qed

lemma copy_ring_run:
  assumes "ring_ok st" and "kill_room st" and "NUL \<notin> set str"
  shows "\<exists>b l i. copy_to_kill_ring str app st =
      Inr (st\<lparr>rl_kill_ring := Some b, rl_kill_ring_length := l, rl_kill_index := i\<rparr>) \<and>
    ring_ok (st\<lparr>rl_kill_ring := Some b, rl_kill_ring_length := l, rl_kill_index := i\<rparr>)"
proof (cases "rl_kill_ring st")
  case None
  then have "rl_last_command_was_kill st = 0" using assms(2) by (simp add: kill_room_def split: if_splits)
  from copy_ring_new [OF this None assms(3)] show ?thesis
    using assms(3)
    by (intro exI [of _ "[Some str, None]"] exI [of _ 1] exI [of _ 0]) (simp add: ring_ok_def rl_max_kills_def)
next
  case (Some b)
  then have ln: "0 < rl_kill_ring_length st" using assms(1) by (simp add: ring_ok_def)
  show ?thesis
  proof (cases "rl_last_command_was_kill st = 0")
    case True
    define l where "l = nat (rl_kill_ring_length st)"
    have l: "rl_kill_ring_length st = int l" "int l < rl_max_kills" "l \<le> length b"
      using ln True assms(1,2) Some by (auto simp: l_def kill_room_def ring_ok_def split: if_splits)
    moreover have "\<forall>i < Suc l. \<exists>s. (take l b @ [Some str]) ! i = Some s \<and> NUL \<notin> set s"
      using assms(1,3) Some l by (auto simp: ring_ok_def nth_append less_Suc_eq)
    ultimately show ?thesis
      using copy_ring_more [OF True Some assms(1) l(1,2), of str app]
      by (intro exI [of _ "take l b @ [Some str]"] exI [of _ "int l + 1"] exI [of _ "int l"]) (simp add: ring_ok_def nat_add_distrib)
  next
    case False
    define l where "l = nat (rl_kill_ring_length st) - 1"
    have l: "rl_kill_ring_length st = int (Suc l)" using ln by (simp add: l_def)
    from copy_ring_again [OF False Some assms(1) l, of str app] obtain old where o: "b ! l = Some old" "NUL \<notin> set old"
      "copy_to_kill_ring str app st =
        Inr (st\<lparr>rl_kill_ring := Some (b[l := Some (if app then old @ str else str @ old)]), rl_kill_index := int l\<rparr>)" by blast
    then show ?thesis
      using assms(1,3) Some l
      by (intro exI [of _ "b[l := Some (if app then old @ str else str @ old)]"] exI [of _ "int (Suc l)"] exI [of _ "int l"])
        (auto simp: ring_ok_def nth_list_update nat_add_distrib)
  qed
qed

section \<open>The invariant of the commands\<close>

text \<open>The mark is in the line, behind it, or -1.\<close>

definition rest_ok :: "rl_state \<Rightarrow> bool" where
  "rest_ok st \<longleftrightarrow>
     ring_ok st \<and> 0 \<le> rl_last_command_was_kill st \<and> -1 \<le> rl_mark st \<and>
     (\<forall>s. rl_comment_begin st = Some s \<longrightarrow> NUL \<notin> set s)"

lemma ring_ok_cong:
  "rl_kill_ring st' = rl_kill_ring st \<Longrightarrow> rl_kill_index st' = rl_kill_index st \<Longrightarrow>
    rl_kill_ring_length st' = rl_kill_ring_length st \<Longrightarrow> ring_ok st' = ring_ok st"
  by (simp add: ring_ok_def cong: option.case_cong)

definition line_inv :: "edit_base \<Rightarrow> rl_state \<Rightarrow> bool" where
  "line_inv base st \<longleftrightarrow> lined base st \<and> rest_ok st"

definition ready :: "edit_base \<Rightarrow> rl_state \<Rightarrow> bool" where
  "ready base st \<longleftrightarrow> line_inv base st \<and> at_point st"

lemma ready_editing: "ready base st \<Longrightarrow> editing base st"
  by (simp add: ready_def line_inv_def editing_def at_point_def)

lemma inv_line: "line_inv base st \<Longrightarrow> line_is (line_text st) st"
  by (simp add: line_inv_def lined_def)

lemma ready_line: "ready base st \<Longrightarrow> line_is (line_text st) st" "ready base st \<Longrightarrow> at_point st"
  "ready base st \<Longrightarrow> line_inv base st" "ready base st \<Longrightarrow> 0 \<le> rl_end st"
  by (auto simp: ready_def inv_line at_point_def)

lemma ready_setting: "ready (t, x) st \<Longrightarrow> setting st = x"
  by (simp add: ready_def line_inv_def lined_def)

lemma same_rest_fields:
  assumes "same_rest st st'"
  shows "rest_ok st' = rest_ok st" "kill_room st' = kill_room st" "rl_mark st' = rl_mark st"
    "rl_kill_ring st' = rl_kill_ring st" "rl_kill_index st' = rl_kill_index st"
    "rl_last_command_was_kill st' = rl_last_command_was_kill st" "rl_explicit_arg st' = rl_explicit_arg st"
    "rl_typein st' = rl_typein st" "rl_last_func st' = rl_last_func st"
proof -
  from assms obtain b n p e u f l d g k h where st':
    "st' = st\<lparr>rl_line_buffer := b, rl_line_buffer_len := n, rl_point := p, rl_end := e, rl_undos := u, rl_fresh := f,
      rl_undo_list := l, rl_doing_an_undo := d, rl_undo_group_level := g, rl_dings := k, rl_history := h\<rparr>" by (rule same_restE)
  then show "kill_room st' = kill_room st" "rl_mark st' = rl_mark st"
    "rl_kill_ring st' = rl_kill_ring st" "rl_kill_index st' = rl_kill_index st"
    "rl_last_command_was_kill st' = rl_last_command_was_kill st" "rl_explicit_arg st' = rl_explicit_arg st"
    "rl_typein st' = rl_typein st" "rl_last_func st' = rl_last_func st"
    by (simp_all add: kill_room_def)
  have "ring_ok st' = ring_ok st" by (rule ring_ok_cong) (simp_all add: st')
  then show "rest_ok st' = rest_ok st" by (simp add: rest_ok_def st')
qed

lemma inv_same: "line_inv base st \<Longrightarrow> same_rest st st' \<Longrightarrow> lined base st' \<Longrightarrow> line_inv base st'"
  using same_rest_fields(1) by (simp add: line_inv_def)

lemma inv_frame [simp]:
  "line_inv base (st\<lparr>rl_point := p\<rparr>) = line_inv base st" "line_inv base (st\<lparr>rl_dings := k\<rparr>) = line_inv base st"
  "line_inv base (st\<lparr>rl_undo_group_level := l\<rparr>) = line_inv base st"
proof -
  have "ring_ok (st\<lparr>rl_point := p\<rparr>) = ring_ok st" "ring_ok (st\<lparr>rl_dings := k\<rparr>) = ring_ok st"
    "ring_ok (st\<lparr>rl_undo_group_level := l\<rparr>) = ring_ok st" by (rule ring_ok_cong; simp)+
  then show "line_inv base (st\<lparr>rl_point := p\<rparr>) = line_inv base st" "line_inv base (st\<lparr>rl_dings := k\<rparr>) = line_inv base st"
    "line_inv base (st\<lparr>rl_undo_group_level := l\<rparr>) = line_inv base st" by (simp_all add: line_inv_def rest_ok_def)
qed

lemma moved_ready: "ready base st \<Longrightarrow> point_moved st st' \<Longrightarrow> ready base st'"
  using moved_facts(1,5,8) inv_same unfolding ready_def line_inv_def by blast

lemma insert_ready:
  assumes "ready base st" and "NUL \<notin> set s"
  shows "\<exists>st'. rl_insert_text (Some s) st = Inr (int (length s), st') \<and> ready base st' \<and> same_rest st st' \<and>
    line_text st' = insert_at (nat (rl_point st)) s (line_text st) \<and> rl_point st' = rl_point st + int (length s) \<and>
    rl_end st' = rl_end st + int (length s)"
proof -
  from insert_editing [OF ready_editing [OF assms(1)] assms(2)] obtain st' where st':
    "rl_insert_text (Some s) st = Inr (int (length s), st')" "editing base st'"
    "line_text st' = insert_at (nat (rl_point st)) s (line_text st)" "rl_point st' = rl_point st + int (length s)"
    "same_rest st st'" by blast
  have "line_inv base st'" using inv_same ready_line(3) [OF assms(1)] st'(2,5) by (simp add: editing_def)
  moreover have "rl_end st' = rl_end st + int (length s)"
    using inv_line [OF \<open>line_inv base st'\<close>] ready_line(1,2) [OF assms(1)] st'(3) at_point_nat [OF ready_line(1,2) [OF assms(1)]]
    by (simp add: line_is_def)
  ultimately show ?thesis using st' by (intro exI [of _ st']) (simp add: ready_def at_point_def editing_def)
qed

lemma copy_inv:
  assumes "line_inv base st" and "0 \<le> from_pos" "from_pos \<le> rl_end st" "0 \<le> to_pos" "to_pos \<le> rl_end st"
  shows "rl_copy_text from_pos to_pos st =
      Inr (take (nat \<bar>to_pos - from_pos\<bar>) (drop (nat (min from_pos to_pos)) (line_text st)))"
    "NUL \<notin> set (take n (drop m (line_text st)))"
proof -
  note l = inv_line [OF assms(1)]
  have e: "rl_end st = int (length (line_text st))" using l by (simp add: line_is_def)
  show "NUL \<notin> set (take n (drop m (line_text st)))" using l by (auto simp: line_is_def dest: in_set_takeD in_set_dropD)
  show "rl_copy_text from_pos to_pos st =
      Inr (take (nat \<bar>to_pos - from_pos\<bar>) (drop (nat (min from_pos to_pos)) (line_text st)))"
    using copy_text(1) [OF l, of "nat from_pos" "nat to_pos"] copy_text(2) [OF l, of "nat to_pos" "nat from_pos"] assms e
    by (cases "from_pos \<le> to_pos") (simp_all add: nat_diff_distrib nat_le_iff)
qed

lemma delete_inv:
  assumes "line_inv base st" and "0 \<le> from_pos" "from_pos \<le> rl_end st" "0 \<le> to_pos" "to_pos \<le> rl_end st"
  shows "\<exists>st'. rl_delete_text from_pos to_pos st = Inr (\<bar>to_pos - from_pos\<bar>, st') \<and> line_inv base st' \<and> same_rest st st' \<and>
    line_text st' = cut_out (nat (min from_pos to_pos)) (nat (max from_pos to_pos)) (line_text st) \<and>
    rl_point st' = rl_point st \<and> rl_end st' = rl_end st - \<bar>to_pos - from_pos\<bar>"
proof -
  define a b where "a = nat (min from_pos to_pos)" and "b = nat (max from_pos to_pos)"
  have e: "rl_end st = int (length (line_text st))" using inv_line [OF assms(1)] by (simp add: line_is_def)
  have ab: "a \<le> b" "b \<le> length (line_text st)" using assms e by (auto simp: a_def b_def nat_le_iff)
  have i: "int a = min from_pos to_pos" "int b = max from_pos to_pos" using assms by (auto simp: a_def b_def min_def max_def)
  have d: "int (b - a) = \<bar>to_pos - from_pos\<bar>" using i ab(1) by (simp add: of_nat_diff)
  from assms(1) have "lined base st" by (simp add: line_inv_def)
  from delete_editing [OF this ab] obtain st' where st': "rl_delete_text (int a) (int b) st = Inr (int (b - a), st')"
    "lined base st'" "line_text st' = cut_out a b (line_text st)" "rl_point st' = rl_point st" "same_rest st st'" by blast
  have "line_inv base st'" using inv_same assms(1) st' by blast
  moreover have "rl_end st' = rl_end st - \<bar>to_pos - from_pos\<bar>"
    using inv_line [OF \<open>line_inv base st'\<close>] st'(3) ab e d by (simp add: line_is_def of_nat_diff)
  ultimately show ?thesis
    using st' d i delete_swapped [of from_pos to_pos st] by (intro exI [of _ st']) (simp add: a_def b_def)
qed

lemma command_was_kill_frame:
  "line_inv base st \<Longrightarrow> line_inv base (command_was_kill st)" "line_text (command_was_kill st) = line_text st"
proof -
  have "lined base (command_was_kill st) = lined base st" "line_text (command_was_kill st) = line_text st"
    by (intro lined_cong; simp add: command_was_kill_def)+
  moreover have "ring_ok (command_was_kill st) = ring_ok st" by (rule ring_ok_cong) (simp_all add: command_was_kill_def)
  ultimately show "line_inv base st \<Longrightarrow> line_inv base (command_was_kill st)" "line_text (command_was_kill st) = line_text st"
    by (simp_all add: line_inv_def rest_ok_def) (simp add: command_was_kill_def)
qed

lemma ring_frame:
  "lined base (st\<lparr>rl_kill_ring := b, rl_kill_ring_length := l, rl_kill_index := i\<rparr>) = lined base st"
  "line_text (st\<lparr>rl_kill_ring := b, rl_kill_ring_length := l, rl_kill_index := i\<rparr>) = line_text st"
  by (intro lined_cong; simp)+

lemma kill_inv:
  assumes "line_inv base st" and "0 \<le> from_pos" "from_pos \<le> rl_end st" "0 \<le> to_pos" "to_pos \<le> rl_end st"
    and "from_pos = to_pos \<or> kill_room st"
  shows "\<exists>st'. rl_kill_text from_pos to_pos st = Inr st' \<and> line_inv base st' \<and>
    line_text st' = cut_out (nat (min from_pos to_pos)) (nat (max from_pos to_pos)) (line_text st) \<and>
    rl_point st' = rl_point st \<and> rl_end st' = rl_end st - \<bar>to_pos - from_pos\<bar> \<and> rl_mark st' = rl_mark st \<and>
    rl_explicit_arg st' = rl_explicit_arg st \<and> rl_typein st' = rl_typein st \<and> (from_pos \<noteq> to_pos \<longrightarrow> kill_room st')"
proof (cases "from_pos = to_pos")
  case True
  have "line_inv base (command_was_kill st)" "line_text (command_was_kill st) = line_text st"
    using assms(1) command_was_kill_frame by simp_all
  then show ?thesis
    using True by (intro exI [of _ "command_was_kill st"]) (simp add: rl_kill_text_def cut_out_def command_was_kill_def)
next
  case False
  from delete_inv [OF assms(1-5)] obtain st1 where st1: "rl_delete_text from_pos to_pos st = Inr (\<bar>to_pos - from_pos\<bar>, st1)"
    "line_inv base st1" "same_rest st st1"
    "line_text st1 = cut_out (nat (min from_pos to_pos)) (nat (max from_pos to_pos)) (line_text st)"
    "rl_point st1 = rl_point st" "rl_end st1 = rl_end st - \<bar>to_pos - from_pos\<bar>" by blast
  let ?x = "take (nat \<bar>to_pos - from_pos\<bar>) (drop (nat (min from_pos to_pos)) (line_text st))"
  note f = same_rest_fields [OF st1(3)]
  have "ring_ok st1" "kill_room st1" using st1(2) f(2) assms(6) False by (simp_all add: line_inv_def rest_ok_def)
  from copy_ring_run [OF this copy_inv(2) [OF assms(1-5)], of "nat \<bar>to_pos - from_pos\<bar>" "nat (min from_pos to_pos)" "from_pos < to_pos"]
  obtain b l i where b: "copy_to_kill_ring ?x (from_pos < to_pos) st1 =
      Inr (st1\<lparr>rl_kill_ring := Some b, rl_kill_ring_length := l, rl_kill_index := i\<rparr>)"
    "ring_ok (st1\<lparr>rl_kill_ring := Some b, rl_kill_ring_length := l, rl_kill_index := i\<rparr>)" by blast
  define st2 where "st2 = command_was_kill (st1\<lparr>rl_kill_ring := Some b, rl_kill_ring_length := l, rl_kill_index := i\<rparr>)"
  have "rl_kill_text from_pos to_pos st = Inr st2"
    using False copy_inv(1) [OF assms(1-5)] st1(1) b(1) by (simp add: rl_kill_text_def st2_def)
  moreover have "line_inv base (st1\<lparr>rl_kill_ring := Some b, rl_kill_ring_length := l, rl_kill_index := i\<rparr>)"
    using st1(2) b(2) ring_frame by (simp add: line_inv_def rest_ok_def)
  then have "line_inv base st2" "line_text st2 = line_text st1"
    unfolding st2_def by (simp_all add: command_was_kill_frame ring_frame)
  moreover have "kill_room st2" using st1(2) by (simp add: st2_def command_was_kill_def kill_room_def line_inv_def rest_ok_def)
  ultimately show ?thesis using st1 f by (intro exI [of _ st2]) (simp add: st2_def command_was_kill_def)
qed

lemma ready_cong:
  assumes "rl_line_buffer st' = rl_line_buffer st" "rl_line_buffer_len st' = rl_line_buffer_len st" "rl_end st' = rl_end st"
    "rl_undos st' = rl_undos st" "rl_undo_list st' = rl_undo_list st" "rl_fresh st' = rl_fresh st"
    "rl_history st' = rl_history st" "rl_doing_an_undo st' = rl_doing_an_undo st"
    "rl_kill_ring st' = rl_kill_ring st" "rl_kill_index st' = rl_kill_index st"
    "rl_kill_ring_length st' = rl_kill_ring_length st" "rl_mark st' = rl_mark st" "rl_comment_begin st' = rl_comment_begin st"
    "rl_point st' = rl_point st" "rl_last_command_was_kill st' = rl_last_command_was_kill st"
    "rl_revert_all_at_newline st' = rl_revert_all_at_newline st"
  shows "line_inv base st' = line_inv base st" "at_point st' = at_point st" "ready base st' = ready base st"
proof -
  have "lined base st' = lined base st" "ring_ok st' = ring_ok st"
    using lined_cong(1) [OF assms(1-8,16)] ring_ok_cong [OF assms(9-11)] by simp_all
  then show i: "line_inv base st' = line_inv base st" using assms by (simp add: line_inv_def rest_ok_def)
  show "at_point st' = at_point st" using assms by (simp add: at_point_def)
  then show "ready base st' = ready base st" using i by (simp add: ready_def)
qed

lemma mark_inv: "-1 \<le> m \<Longrightarrow> line_inv base st \<Longrightarrow> line_inv base (st\<lparr>rl_mark := m\<rparr>)"
proof -
  assume *: "-1 \<le> m" "line_inv base st"
  have "ring_ok (st\<lparr>rl_mark := m\<rparr>) = ring_ok st" by (rule ring_ok_cong) simp_all
  then show ?thesis using * by (simp add: line_inv_def rest_ok_def)
qed

lemma begin_group_inv:
  assumes "line_inv base st"
  shows "\<exists>st'. rl_begin_undo_group st = Inr st' \<and> line_inv base st' \<and> same_rest st st' \<and> line_text st' = line_text st \<and>
    rl_point st' = rl_point st \<and> rl_end st' = rl_end st"
    "\<exists>st'. rl_end_undo_group st = Inr st' \<and> line_inv base st' \<and> same_rest st st' \<and> line_text st' = line_text st \<and>
    rl_point st' = rl_point st \<and> rl_end st' = rl_end st"
proof -
  from assms obtain es where es: "undo_is es st" "undo_gives (fst base) es (line_text st)" "line_is (line_text st) st"
    "lines_ok (rl_history st)" "\<not> rl_doing_an_undo st" "setting st = snd base" by (auto simp: line_inv_def lined_def)
  have group: "\<exists>st'. rl_add_undo what 0 0 None st = Inr st' \<and> line_inv base (st'\<lparr>rl_undo_group_level := g\<rparr>) \<and>
      same_rest st (st'\<lparr>rl_undo_group_level := g\<rparr>) \<and> line_text st' = line_text st \<and>
      rl_point st' = rl_point st \<and> rl_end st' = rl_end st \<and> rl_undo_group_level st' = rl_undo_group_level st"
    if w: "what = UNDO_BEGIN \<or> what = UNDO_END" for what g
  proof -
    let ?e = "\<lparr>ue_next = rl_undo_list st, ue_start = 0, ue_end = 0, ue_text = None, ue_what = what\<rparr>"
    from add_undo_run [OF es(1), of what 0 0 None] obtain h where h:
      "rl_add_undo what 0 0 None st = Inr (st\<lparr>rl_undos := h, rl_fresh := Suc (rl_fresh st), rl_undo_list := rl_fresh st\<rparr>)"
      "undo_is (?e # es) (st\<lparr>rl_undos := h, rl_fresh := Suc (rl_fresh st), rl_undo_list := rl_fresh st\<rparr>)" by blast
    let ?st = "st\<lparr>rl_undos := h, rl_fresh := Suc (rl_fresh st), rl_undo_list := rl_fresh st\<rparr>"
    have "undo_gives (fst base) (?e # es) (line_text st)" using es(2) w by (auto simp: undo_valid_def undo_step_def)
    then have l: "lined base (?st\<lparr>rl_undo_group_level := g\<rparr>)"
      unfolding lined_def using h(2) es by (intro conjI exI [of _ "?e # es"]) simp_all
    have s: "same_rest st (?st\<lparr>rl_undo_group_level := g\<rparr>)" by (simp add: same_rest_def)
    show ?thesis using h(1) s inv_same [OF assms s l] by (intro exI [of _ ?st]) simp
  qed
  from group [of UNDO_BEGIN "rl_undo_group_level st + 1"] show
    "\<exists>st'. rl_begin_undo_group st = Inr st' \<and> line_inv base st' \<and> same_rest st st' \<and> line_text st' = line_text st \<and>
    rl_point st' = rl_point st \<and> rl_end st' = rl_end st" by (auto simp: rl_begin_undo_group_def)
  from group [of UNDO_END "rl_undo_group_level st - 1"] show
    "\<exists>st'. rl_end_undo_group st = Inr st' \<and> line_inv base st' \<and> same_rest st st' \<and> line_text st' = line_text st \<and>
    rl_point st' = rl_point st \<and> rl_end st' = rl_end st" by (auto simp: rl_end_undo_group_def)
qed

section \<open>Commands that move\<close>

text \<open>What a command keeps.\<close>

definition keeps :: "edit_base \<Rightarrow> (int \<times> rl_state) run \<Rightarrow> bool" where
  "keeps base m \<longleftrightarrow> (\<exists>r st'. m = Inr (r, st') \<and> ready base st')"

lemma keepsI: "ready base st' \<Longrightarrow> keeps base (Inr (r, st'))"
  by (simp add: keeps_def)

lemma keeps_bind: "keeps base m \<Longrightarrow> (\<And>r st'. ready base st' \<Longrightarrow> keeps base (f (r, st'))) \<Longrightarrow> keeps base (bind_run m f)"
  by (auto simp: keeps_def)

lemma ding_ready: "ready base st \<Longrightarrow> ready base (rl_ding st)"
  by (rule moved_ready [OF _ moved_ding [OF ready_line(2)]])

lemma forward_byte_keeps:
  assumes "ready base st" and "small_count count st"
  shows "keeps base (rl_forward_byte count st)"
proof -
  from forward_byte_run [OF ready_line(2) [OF assms(1)] assms(2)] obtain st' where
    "rl_forward_byte count st = Inr (0, st')" "point_moved st st'" by blast
  then show ?thesis using moved_ready [OF assms(1)] by (simp add: keepsI)
qed

lemma backward_byte_keeps:
  assumes "ready base st" and "small_count count st"
  shows "keeps base (rl_backward_byte count st)"
proof -
  from backward_byte_run [OF ready_line(2) [OF assms(1)] assms(2)] obtain st' where
    "rl_backward_byte count st = Inr (0, st')" "point_moved st st'" by blast
  then show ?thesis using moved_ready [OF assms(1)] by (simp add: keepsI)
qed

lemma point_ready: "ready base st \<Longrightarrow> 0 \<le> p \<Longrightarrow> p \<le> rl_end st \<Longrightarrow> ready base (st\<lparr>rl_point := p\<rparr>)"
  by (simp add: ready_def at_point_def)

lemma forward_word_ready:
  assumes "ready base st" and "small_count count st"
  shows "\<exists>st'. rl_forward_word count st = Inr st' \<and> ready base st' \<and> point_moved st st' \<and>
    rl_point st' = int (word_move (rl_alphabetic st) (line_text st) count (nat (rl_point st)))"
proof (intro exI conjI)
  let ?st = "st\<lparr>rl_point := int (word_move (rl_alphabetic st) (line_text st) (count) (nat (rl_point st)))\<rparr>"
  show "rl_forward_word count st = Inr ?st" by (rule forward_word_run [OF ready_line(1,2) [OF assms(1)] assms(2)])
  show "point_moved st ?st" by (rule word_moved [OF ready_line(1,2) [OF assms(1)]])
  then show "ready base ?st" by (rule moved_ready [OF assms(1)])
qed simp

lemma backward_word_ready:
  assumes "ready base st" and "small_count count st"
  shows "\<exists>st'. rl_backward_word count st = Inr st' \<and> ready base st' \<and> point_moved st st' \<and>
    rl_point st' = int (word_move (rl_alphabetic st) (line_text st) (- count) (nat (rl_point st)))"
proof (intro exI conjI)
  let ?st = "st\<lparr>rl_point := int (word_move (rl_alphabetic st) (line_text st) (- count) (nat (rl_point st)))\<rparr>"
  show "rl_backward_word count st = Inr ?st" by (rule backward_word_run [OF ready_line(1,2) [OF assms(1)] assms(2)])
  show "point_moved st ?st" by (rule word_moved [OF ready_line(1,2) [OF assms(1)]])
  then show "ready base ?st" by (rule moved_ready [OF assms(1)])
qed simp

section \<open>Commands that insert\<close>

lemma insert_keeps: "ready base st \<Longrightarrow> NUL \<notin> set s \<Longrightarrow> keeps base (rl_insert_text (Some s) st)"
  using insert_ready by (fastforce simp: keeps_def)

lemma c_text_no_NUL: "NUL \<notin> set (c_text bs)"
  by (auto simp: c_text_def dest: set_takeWhileD)

text \<open>An insertion makes the line longer and leaves the kill ring alone.\<close>

definition grows :: "edit_base \<Rightarrow> rl_state \<Rightarrow> rl_state \<Rightarrow> bool" where
  "grows base st st' \<longleftrightarrow>
     ready base st' \<and> rl_end st \<le> rl_end st' \<and> kill_room st' = kill_room st \<and> rl_explicit_arg st' = rl_explicit_arg st"

lemma grows_trans: "grows base st1 st2 \<Longrightarrow> grows base st2 st3 \<Longrightarrow> grows base st1 st3"
  by (simp add: grows_def)

lemma insert_grows:
  assumes "ready base st" and "NUL \<notin> set s"
  shows "\<exists>r st'. rl_insert_text (Some s) st = Inr (r, st') \<and> grows base st st' \<and> rl_typein st' = rl_typein st \<and>
    rl_end st' = rl_end st + int (length s)"
proof -
  from insert_ready [OF assms] obtain st' where st': "rl_insert_text (Some s) st = Inr (int (length s), st')" "ready base st'"
    "same_rest st st'" "rl_end st' = rl_end st + int (length s)" by blast
  then show ?thesis using same_rest_fields [OF st'(3)] by (simp add: grows_def)
qed

lemma insert_blocks_run:
  "ready base st \<Longrightarrow> count \<le> n \<Longrightarrow> \<exists>st'. insert_blocks n count c st = Inr st' \<and> grows base st st'"
proof (induction n arbitrary: count st)
  case (Suc n)
  show ?case
  proof (cases "count = 0")
    case False
    define k where "k = (if count > TEXT_COUNT_MAX then TEXT_COUNT_MAX else count)"
    from insert_grows [OF Suc.prems(1) c_text_no_NUL, of "replicate k c"] obtain r st1 where
      st1: "rl_insert_text (Some (c_text (replicate k c))) st = Inr (r, st1)" "grows base st st1" by blast
    have "count - k \<le> n" using Suc.prems(2) False by (auto simp: k_def TEXT_COUNT_MAX_def)
    with Suc.IH [of st1 "count - k"] st1(2) obtain st' where "insert_blocks n (count - k) c st1 = Inr st'" "grows base st1 st'"
      by (auto simp: grows_def)
    then show ?thesis using False st1 grows_trans by (simp add: k_def [symmetric] Let_def)
  qed (use Suc.prems(1) in \<open>simp add: grows_def\<close>)
qed (simp add: grows_def)

text \<open>The keys typed ahead fit into the block they are collected in.\<close>

definition typein_fits :: "rl_state \<Rightarrow> bool" where
  "typein_fits st \<longleftrightarrow> length (rl_typein st) \<le> 510"

lemma insert_char_run:
  assumes "ready base st" and "typein_fits st"
  shows "\<exists>r st'. rl_insert_char count c st = Inr (r, st') \<and> grows base st st' \<and>
    (count = 1 \<and> rl_typein st = [] \<longrightarrow> rl_typein st' = [] \<and> rl_end st' \<le> rl_end st + 1)"
proof -
  have fits: "length (takeWhile (rl_inserts_itself st) (rl_typein st)) \<le> 510"
    using length_takeWhile_le [of "rl_inserts_itself st" "rl_typein st"] assms(2) by (simp add: typein_fits_def)
  have one: "\<exists>st'. bind_run (rl_insert_text (Some (c_text bs)) st) (\<lambda>(_, st). Inr (0::int, st)) = Inr (0::int, st') \<and>
      grows base st st' \<and> rl_typein st' = rl_typein st \<and> rl_end st' = rl_end st + int (length (c_text bs))" for bs
    using insert_grows [OF assms(1) c_text_no_NUL, of bs] by auto
  let ?st = "st\<lparr>rl_typein := dropWhile (rl_inserts_itself st) (rl_typein st)\<rparr>"
  have r: "ready base ?st" using assms(1) by (subst ready_cong(3) [of _ st]) simp_all
  from insert_grows [OF r c_text_no_NUL, of "c # takeWhile (rl_inserts_itself st) (rl_typein st)"] obtain r1 st1 where
    "rl_insert_typein c st = Inr (r1, st1)" "grows base ?st st1" using fits by (auto simp: rl_insert_typein_def)
  then have typed: "\<exists>st'. bind_run (rl_insert_typein c st) (\<lambda>(_, st). Inr (0::int, st)) = Inr (0::int, st') \<and> grows base st st'"
    by (simp add: grows_def kill_room_def)
  from insert_blocks_run [OF assms(1) order_refl] obtain st2 where "insert_blocks (nat count) (nat count) c st = Inr st2"
    "grows base st st2" by blast
  then have blocks: "bind_run (insert_blocks (nat count) (nat count) c st) (\<lambda>st. Inr (0::int, st)) = Inr (0::int, st2) \<and> grows base st st2"
    by simp
  have none: "grows base st st" using assms(1) by (simp add: grows_def)
  have "length (c_text [c]) \<le> 1" by (simp add: c_text_def)
  then obtain st3 where single: "bind_run (rl_insert_text (Some (c_text [c])) st) (\<lambda>(_, st). Inr (0::int, st)) = Inr (0::int, st3)"
    "grows base st st3" "rl_typein st3 = rl_typein st" "rl_end st3 \<le> rl_end st + 1" using one [of "[c]"] by fastforce
  consider "count \<le> 0" | "count > 1 \<and> count \<le> int TEXT_COUNT_MAX" | "count > int TEXT_COUNT_MAX"
    | "count = 1" "rl_typein st \<noteq> []" | "count = 1" "rl_typein st = []" by linarith
  then show ?thesis
  proof cases
    case 2
    then show ?thesis using one [of "replicate (nat count) c"] by (auto simp: rl_insert_char_def)
  next
    case 3
    then show ?thesis using blocks by (auto simp: rl_insert_char_def TEXT_COUNT_MAX_def)
  next
    case 5
    then have "rl_insert_char count c st = Inr (0::int, st3)" using single(1) by (simp add: rl_insert_char_def TEXT_COUNT_MAX_def)
    then show ?thesis using single 5 by auto
  qed (use none typed single in \<open>auto simp: rl_insert_char_def TEXT_COUNT_MAX_def\<close>)
qed

lemma insert_char_keeps: "ready base st \<Longrightarrow> typein_fits st \<Longrightarrow> keeps base (rl_insert_char count c st)"
  using insert_char_run unfolding keeps_def grows_def by blast

lemma quoted_insert_keeps: "ready base st \<Longrightarrow> typein_fits st \<Longrightarrow> keeps base (rl_quoted_insert count k st)"
  by (simp add: rl_quoted_insert_def insert_char_keeps keepsI)

lemma tab_insert_keeps: "ready base st \<Longrightarrow> typein_fits st \<Longrightarrow> keeps base (rl_tab_insert count st)"
  by (simp add: rl_tab_insert_def insert_char_keeps)

lemma newline_ready: "ready base st \<Longrightarrow> ready base (rl_newline st)"
  by (subst ready_cong(3) [of _ st]) (simp_all add: rl_newline_def Let_def)

text \<open>A group of operations.\<close>

lemma end_group_keeps:
  assumes "line_inv base st" and "at_point st"
  shows "keeps base (bind_run (rl_end_undo_group st) (\<lambda>st. Inr (r, st)))"
proof -
  from begin_group_inv(2) [OF assms(1)] obtain st' where "rl_end_undo_group st = Inr st'" "line_inv base st'"
    "rl_point st' = rl_point st" "rl_end st' = rl_end st" by blast
  then show ?thesis using assms(2) by (simp add: keeps_def ready_def at_point_def)
qed

section \<open>Commands that delete\<close>

lemma rubout_chars_keeps:
  assumes "ready base st" and "small_count count st" and "0 \<le> count" and "count > 1 \<or> rl_explicit_arg st \<longrightarrow> kill_room st"
  shows "keeps base (rubout_chars count st)"
proof (cases "rl_point st = 0")
  case True
  then show ?thesis using ding_ready [OF assms(1)] by (simp add: rubout_chars_def keepsI)
next
  case False
  note at = ready_line(2) [OF assms(1)]
  then have pt: "0 < rl_point st" "rl_point st \<le> rl_end st" using False by (simp_all add: at_point_def)
  show ?thesis
  proof (cases "count > 1 \<or> rl_explicit_arg st")
    case True
    from backward_byte_run [OF at assms(2)] obtain st1 where st1: "rl_backward_char count st = Inr (0, st1)"
      "point_moved st st1" "st1 = backward_bytes count st" using assms(3) by (auto simp: rl_backward_char_def)
    have le: "rl_point st1 \<le> rl_point st" using st1(3) pt by (auto simp: backward_bytes_def rl_ding_def Let_def)
    note m = moved_facts [OF st1(2)]
    have r1: "ready base st1" by (rule moved_ready [OF assms(1) st1(2)])
    have "kill_room st1" using True assms(4) same_rest_fields(2) [OF m(5)] by simp
    from kill_inv [OF ready_line(3) [OF r1], of "rl_point st" "rl_point st1"] this m(1,2) pt obtain st2 where
      "rl_kill_text (rl_point st) (rl_point st1) st1 = Inr st2" "line_inv base st2" "rl_point st2 = rl_point st1"
      "rl_end st2 = rl_end st1 - \<bar>rl_point st1 - rl_point st\<bar>" by (auto simp: at_point_def)
    then show ?thesis
      using False True st1(1) m(1,2) le pt by (simp add: rubout_chars_def keeps_def ready_def at_point_def)
  next
    case no: False
    let ?st = "st\<lparr>rl_point := rl_point st - 1\<rparr>"
    have r1: "ready base ?st" using point_ready [OF assms(1)] pt by simp
    have "line_is (line_text st) ?st" using ready_line(1) [OF assms(1)] by simp
    from line_buf_get(1) [OF this, of "rl_point st - 1"] pt have
      "buf_get (rl_point st - 1) ?st = Inr (line_text st ! nat (rl_point st - 1))" by simp
    moreover from delete_inv [OF ready_line(3) [OF r1], of "rl_point st - 1" "rl_point st"] pt obtain st2 where
      "rl_delete_text (rl_point st - 1) (rl_point st) ?st = Inr (1, st2)" "line_inv base st2" "rl_point st2 = rl_point st - 1"
      "rl_end st2 = rl_end st - 1" by auto
    ultimately show ?thesis using False no pt by (simp add: rubout_chars_def keeps_def ready_def at_point_def)
  qed
qed

lemma delete_chars_keeps:
  assumes "ready base st" and "small_count count st" and "0 \<le> count" and "count > 1 \<or> rl_explicit_arg st \<longrightarrow> kill_room st"
  shows "keeps base (delete_chars count st)"
proof (cases "rl_point st = rl_end st")
  case True
  then show ?thesis using ding_ready [OF assms(1)] by (simp add: delete_chars_def keepsI)
next
  case False
  note at = ready_line(2) [OF assms(1)]
  then have pt: "0 \<le> rl_point st" "rl_point st < rl_end st" using False by (simp_all add: at_point_def)
  show ?thesis
  proof (cases "count > 1 \<or> rl_explicit_arg st")
    case True
    from forward_byte_run [OF at assms(2)] obtain st1 where st1: "rl_forward_byte count st = Inr (0, st1)"
      "point_moved st st1" "st1 = forward_bytes count st" using assms(3) by auto
    have ge: "rl_point st \<le> rl_point st1"
      using st1(3) pt assms(2,3) by (auto simp: forward_bytes_def rl_ding_def Let_def small_count_def wrap32_id int32_def)
    note m = moved_facts [OF st1(2)]
    have r1: "ready base st1" by (rule moved_ready [OF assms(1) st1(2)])
    have "kill_room st1" using True assms(4) same_rest_fields(2) [OF m(5)] by simp
    from kill_inv [OF ready_line(3) [OF r1], of "rl_point st" "rl_point st1"] this m(1,2) pt obtain st2 where
      "rl_kill_text (rl_point st) (rl_point st1) st1 = Inr st2" "line_inv base st2"
      "rl_end st2 = rl_end st1 - \<bar>rl_point st1 - rl_point st\<bar>" by (auto simp: at_point_def)
    then show ?thesis
      using False True st1(1) m(1,2) ge pt by (simp add: delete_chars_def keeps_def ready_def at_point_def Let_def)
  next
    case no: False
    from delete_inv [OF ready_line(3) [OF assms(1)], of "rl_point st" "rl_point st + 1"] pt obtain st2 where
      "rl_delete_text (rl_point st) (rl_point st + 1) st = Inr (1, st2)" "line_inv base st2" "rl_point st2 = rl_point st"
      "rl_end st2 = rl_end st - 1" by auto
    then show ?thesis using False no pt by (simp add: delete_chars_def keeps_def ready_def at_point_def Let_def)
  qed
qed

lemma delete_keeps:
  assumes "ready base st" and "small_count count st" and "kill_room st \<or> count \<in> {0, 1} \<and> \<not> rl_explicit_arg st"
  shows "keeps base (rl_delete count st)" "keeps base (rl_rubout_char count st)"
  using assms negated_small [OF assms(2) ready_line(4) [OF assms(1)]] rubout_chars_keeps [OF assms(1,2)]
    delete_chars_keeps [OF assms(1,2)] rubout_chars_keeps [OF assms(1), of "- count"] delete_chars_keeps [OF assms(1), of "- count"]
    small_minus [of count st]
  by (auto simp: rl_delete_def rl_rubout_char_def)

lemma rubout_or_delete_keeps:
  assumes "ready base st" and "small_count count st" and "kill_room st \<or> count \<in> {0, 1} \<and> \<not> rl_explicit_arg st"
  shows "keeps base (rl_rubout_or_delete count st)"
  using delete_keeps [OF assms] by (simp add: rl_rubout_or_delete_def)

end
