(* ===== verification/Rl_Text_Spec.thy ===== *)
theory Rl_Text_Spec
  imports Rl_Command_Spec
begin

text \<open>
  The remaining commands of \<open>text.c\<close> keep the invariant: those of the overwrite mode, changing case, transposing,
  searching for a character and the mark.
\<close>

section \<open>Overwriting\<close>

lemma keeps_run: "keeps base m \<Longrightarrow> \<exists>r st'. m = Inr (r, st') \<and> ready base st'"
  by (simp add: keeps_def)

text \<open>What \<open>delete_chars 1\<close> leaves when there is a character.\<close>

lemma delete_one_run:
  assumes "ready base st" and "rl_end st < 2 ^ 31" and "rl_point st < rl_end st" and "rl_explicit_arg st \<longrightarrow> kill_room st"
  shows "\<exists>r st'. rl_delete 1 st = Inr (r, st') \<and> ready base st' \<and> rl_end st' = rl_end st - 1 \<and>
    rl_explicit_arg st' = rl_explicit_arg st \<and> (rl_explicit_arg st' \<longrightarrow> kill_room st') \<and> rl_typein st' = rl_typein st"
proof -
  have pt: "0 \<le> rl_point st" "rl_point st < rl_end st" using ready_line(2) [OF assms(1)] assms(3) by (simp_all add: at_point_def)
  show ?thesis
  proof (cases "rl_explicit_arg st")
    case True
    have f: "rl_forward_byte 1 st = Inr (0, st\<lparr>rl_point := rl_point st + 1\<rparr>)"
      using pt assms(2) by (simp add: rl_forward_byte_def forward_bytes_def Let_def wrap32_id int32_def)
    let ?st = "st\<lparr>rl_point := rl_point st + 1\<rparr>"
    have r: "ready base ?st" using point_ready [OF assms(1)] pt by simp
    have k: "kill_room ?st" using assms(4) True by (simp add: kill_room_def)
    from kill_inv [OF ready_line(3) [OF r], of "rl_point st" "rl_point st + 1"] k pt obtain st2 where
      st2: "rl_kill_text (rl_point st) (rl_point st + 1) ?st = Inr st2" "line_inv base st2" "rl_end st2 = rl_end st - 1"
      "rl_explicit_arg st2 = rl_explicit_arg st" "rl_typein st2 = rl_typein st" "kill_room st2" by auto
    have "rl_delete 1 st = Inr (0, st2\<lparr>rl_point := rl_point st\<rparr>)"
      using True pt f st2(1) by (simp add: rl_delete_def delete_chars_def Let_def)
    moreover have "kill_room (st2\<lparr>rl_point := rl_point st\<rparr>)" using st2(6) by (simp add: kill_room_def)
    ultimately show ?thesis using st2 pt by (simp add: ready_def at_point_def)
  next
    case False
    from delete_inv [OF ready_line(3) [OF assms(1)], of "rl_point st" "rl_point st + 1"] pt obtain st2 where
      st2: "rl_delete_text (rl_point st) (rl_point st + 1) st = Inr (1, st2)" "line_inv base st2" "same_rest st st2"
      "rl_point st2 = rl_point st" "rl_end st2 = rl_end st - 1" by auto
    have "rl_delete 1 st = Inr (0, st2)" using False pt st2(1) by (simp add: rl_delete_def delete_chars_def Let_def)
    then show ?thesis using st2 pt False same_rest_fields [OF st2(3)] by (simp add: ready_def at_point_def)
  qed
qed

lemma overwrite_chars_ready:
  "ready base st \<Longrightarrow> small_count (int n) st \<Longrightarrow> rl_typein st = [] \<Longrightarrow> (rl_explicit_arg st \<longrightarrow> kill_room st) \<Longrightarrow>
    \<exists>st'. overwrite_chars n c st = Inr st' \<and> ready base st'"
proof (induction n arbitrary: st)
  case (Suc n)
  have "typein_fits st" using Suc.prems(3) by (simp add: typein_fits_def)
  from insert_char_run [OF Suc.prems(1) this, of 1 c] Suc.prems(3) obtain r st1 where st1: "rl_insert_char 1 c st = Inr (r, st1)"
    "grows base st st1" "rl_typein st1 = []" "rl_end st1 \<le> rl_end st + 1" by blast
  have r1: "ready base st1" "rl_explicit_arg st1 \<longrightarrow> kill_room st1" using st1(2) Suc.prems(4) by (simp_all add: grows_def)
  show ?case
  proof (cases "rl_point st1 < rl_end st1")
    case True
    have "rl_end st1 < 2 ^ 31" using Suc.prems(2) st1(4) by (simp add: small_count_def)
    from delete_one_run [OF r1(1) this True r1(2)] obtain r2 st2 where st2: "rl_delete 1 st1 = Inr (r2, st2)" "ready base st2"
      "rl_end st2 = rl_end st1 - 1" "rl_explicit_arg st2 \<longrightarrow> kill_room st2" "rl_typein st2 = []" using st1(3) by auto
    have "small_count (int n) st2" using Suc.prems(2) st1(4) st2(3) by (simp add: small_count_def)
    from Suc.IH [OF st2(2) this st2(5,4)] show ?thesis using st1(1) st2(1) True by simp
  next
    case False
    have "small_count (int n) st1" using Suc.prems(2) st1(4) by (simp add: small_count_def)
    from Suc.IH [OF r1(1) this st1(3) r1(2)] show ?thesis using st1(1) False by simp
  qed
qed simp

lemma begin_group_ready:
  assumes "ready base st"
  shows "\<exists>st'. rl_begin_undo_group st = Inr st' \<and> ready base st' \<and> same_rest st st' \<and> line_text st' = line_text st \<and>
    rl_point st' = rl_point st \<and> rl_end st' = rl_end st"
  using begin_group_inv(1) [OF ready_line(3) [OF assms]] ready_line(2) [OF assms] by (auto simp: ready_def at_point_def)

lemma end_group_ready:
  assumes "ready base st"
  shows "\<exists>st'. rl_end_undo_group st = Inr st' \<and> ready base st' \<and> same_rest st st' \<and> line_text st' = line_text st \<and>
    rl_point st' = rl_point st \<and> rl_end st' = rl_end st"
  using begin_group_inv(2) [OF ready_line(3) [OF assms]] ready_line(2) [OF assms] by (auto simp: ready_def at_point_def)

lemma overwrite_char_keeps:
  assumes "ready base st" and "small_count count st" and "rl_typein st = []" and "rl_explicit_arg st \<longrightarrow> kill_room st"
  shows "keeps base (rl_overwrite_char count c st)"
proof -
  from begin_group_ready [OF assms(1)] obtain st1 where st1: "rl_begin_undo_group st = Inr st1" "ready base st1"
    "same_rest st st1" "rl_end st1 = rl_end st" by blast
  note f = same_rest_fields [OF st1(3)]
  have "small_count (int (nat count)) st1" "rl_typein st1 = []" "rl_explicit_arg st1 \<longrightarrow> kill_room st1"
    using assms(2-4) st1(4) f by (auto simp: small_count_def)
  from overwrite_chars_ready [OF st1(2) this] obtain st2 where "overwrite_chars (nat count) c st1 = Inr st2" "ready base st2"
    by blast
  then show ?thesis
    using st1(1) end_group_keeps [OF ready_line(3,2)] by (simp add: rl_overwrite_char_def)
qed

lemma insert_key_keeps:
  assumes "ready base st" and "small_count count st" and "typein_fits st"
    and "rl_overwriting st \<longrightarrow> rl_typein st = [] \<and> (rl_explicit_arg st \<longrightarrow> kill_room st)"
  shows "keeps base (rl_insert count c st)"
  using insert_char_keeps [OF assms(1,3)] overwrite_char_keeps [OF assms(1,2)] assms(4) by (simp add: rl_insert_def)

lemma rubout_columns_run:
  "ready base st \<Longrightarrow> small_count 1 st \<Longrightarrow> \<exists>l' st'. rubout_columns n l st = Inr (l', st') \<and> point_moved st st' \<and>
    rl_point st' \<le> rl_point st"
proof (induction n arbitrary: l st)
  case 0
  then show ?case using moved_refl [OF ready_line(2) [OF 0(1)]] by auto
next
  case (Suc n)
  from backward_byte_run [OF ready_line(2) [OF Suc.prems(1)] Suc.prems(2)] obtain st1 where
    st1: "rl_backward_char 1 st = Inr (0, st1)" "point_moved st st1" "st1 = backward_bytes 1 st" by (auto simp: rl_backward_char_def)
  have le: "rl_point st1 \<le> rl_point st"
    using st1(3) ready_line(2) [OF Suc.prems(1)] by (auto simp: backward_bytes_def rl_ding_def Let_def at_point_def)
  have r1: "ready base st1" by (rule moved_ready [OF Suc.prems(1) st1(2)])
  have i: "nat (rl_point st1) \<le> length (line_text st1)" "rl_point st1 = int (nat (rl_point st1))"
    using at_point_nat [OF ready_line(1,2) [OF r1]] by simp_all
  then have get: "buf_get (rl_point st1) st1 = Inr (cstr_at (line_text st1) (nat (rl_point st1)))"
    using line_get [OF ready_line(1) [OF r1] i(1)] by simp
  have "small_count 1 st1" using Suc.prems(2) moved_small [OF st1(2)] by simp
  from Suc.IH [OF r1 this] obtain l' st' where
    "rubout_columns n (l + rl_character_len st1 (cstr_at (line_text st1) (nat (rl_point st1))) (rl_point st1)) st1 = Inr (l', st')"
    "point_moved st1 st'" "rl_point st' \<le> rl_point st1" by blast
  then show ?case using st1(1) get le moved_trans [OF st1(2)] by (intro exI [of _ l'] exI [of _ st']) simp
qed

text \<open>Spaces are put where characters before the end of the line were rubbed out.\<close>

lemma spaces_ready:
  assumes "ready base st" and "typein_fits st"
  shows "\<exists>st'. (if rl_point st < rl_end st
      then let opoint = rl_point st in
           bind_run (rl_insert_char l (CHR '' '') st) (\<lambda>(_, st). Inr (st\<lparr>rl_point := opoint\<rparr>))
      else Inr st) = Inr st' \<and> ready base st'"
proof (cases "rl_point st < rl_end st")
  case True
  from insert_char_run [OF assms] obtain r st1 where "rl_insert_char l (CHR '' '') st = Inr (r, st1)" "grows base st st1" by blast
  moreover from this have "ready base (st1\<lparr>rl_point := rl_point st\<rparr>)"
    using ready_line(2) [OF assms(1)] by (simp add: grows_def ready_def at_point_def)
  ultimately show ?thesis using True by (simp add: Let_def)
qed (use assms in simp)

lemma rub_region_run:
  assumes "ready base st" and "rl_point st \<le> a" "a \<le> rl_end st" and "k \<longrightarrow> kill_room st"
  shows "\<exists>st'. (if k then rl_kill_text a (rl_point st) st
      else bind_run (rl_delete_text a (rl_point st) st) (\<lambda>(_, st). Inr st)) = Inr st' \<and> ready base st' \<and> rl_typein st' = rl_typein st"
proof -
  have pos: "0 \<le> a" "a \<le> rl_end st" "0 \<le> rl_point st" "rl_point st \<le> rl_end st"
    using ready_line(2) [OF assms(1)] assms(2,3) by (simp_all add: at_point_def)
  show ?thesis
  proof (cases k)
    case True
    then have "kill_room st" using assms(4) by simp
    from kill_inv [OF ready_line(3) [OF assms(1)] pos] this obtain st3 where
      "rl_kill_text a (rl_point st) st = Inr st3" "line_inv base st3" "rl_point st3 = rl_point st"
      "rl_end st3 = rl_end st - \<bar>rl_point st - a\<bar>" "rl_typein st3 = rl_typein st" by blast
    then show ?thesis using True pos assms(2) by (simp add: ready_def at_point_def)
  next
    case False
    from delete_inv [OF ready_line(3) [OF assms(1)] pos] obtain st3 where
      "rl_delete_text a (rl_point st) st = Inr (\<bar>rl_point st - a\<bar>, st3)" "line_inv base st3" "same_rest st st3"
      "rl_point st3 = rl_point st" "rl_end st3 = rl_end st - \<bar>rl_point st - a\<bar>" by blast
    then show ?thesis using False pos assms(2) same_rest_fields(8) [of st st3] by (simp add: ready_def at_point_def)
  qed
qed

lemma overwrite_rubout_keeps:
  assumes "ready base st" and "small_count count st" "small_count 1 st"
    and "count > 1 \<or> rl_explicit_arg st \<longrightarrow> kill_room st" and "typein_fits st"
  shows "keeps base (rl_overwrite_rubout count st)"
proof (cases "rl_point st = 0")
  case True
  then show ?thesis using ding_ready [OF assms(1)] by (simp add: rl_overwrite_rubout_def keepsI)
next
  case False
  from rubout_columns_run [OF assms(1,3)] obtain l st1 where st1: "rubout_columns (nat count) 0 st = Inr (l, st1)"
    "point_moved st st1" "rl_point st1 \<le> rl_point st" by blast
  note m = moved_facts [OF st1(2)]
  have r1: "ready base st1" by (rule moved_ready [OF assms(1) st1(2)])
  from begin_group_ready [OF r1] obtain st2 where st2: "rl_begin_undo_group st1 = Inr st2" "ready base st2" "same_rest st1 st2"
    "rl_point st2 = rl_point st1" "rl_end st2 = rl_end st1" by blast
  have pos: "0 \<le> rl_point st" "rl_point st \<le> rl_end st2" "0 \<le> rl_point st2" "rl_point st2 \<le> rl_end st2" "rl_point st2 \<le> rl_point st"
    using ready_line(2) [OF assms(1)] m(1,2) st1(3) st2(4,5) by (simp_all add: at_point_def)
  have e: "rl_explicit_arg st2 = rl_explicit_arg st" "kill_room st2 = kill_room st" "rl_typein st2 = rl_typein st"
    using same_rest_fields(2,7,8) [OF st2(3)] same_rest_fields(2,7,8) [OF m(5)] by simp_all
  from rub_region_run [OF st2(2) pos(5,2), of "count > 1 \<or> rl_explicit_arg st2"] assms(4) e obtain st3 where
    st3: "(if count > 1 \<or> rl_explicit_arg st2 then rl_kill_text (rl_point st) (rl_point st2) st2
      else bind_run (rl_delete_text (rl_point st) (rl_point st2) st2) (\<lambda>(_, st). Inr st)) = Inr st3" "ready base st3"
    "typein_fits st3" using assms(5) by (auto simp: typein_fits_def)
  from spaces_ready [OF st3(2,3), of l] obtain st4 where "(if rl_point st3 < rl_end st3
      then let opoint = rl_point st3 in
           bind_run (rl_insert_char l (CHR '' '') st3) (\<lambda>(_, st). Inr (st\<lparr>rl_point := opoint\<rparr>))
      else Inr st3) = Inr st4" "ready base st4" by blast
  then show ?thesis
    using False st1(1) st2(1) st3(1) end_group_keeps [OF ready_line(3,2)] by (simp add: rl_overwrite_rubout_def Let_def)
qed

lemma rubout_keeps:
  assumes "ready base st" and "small_count count st" "small_count 1 st"
    and "kill_room st \<or> count \<in> {0, 1} \<and> \<not> rl_explicit_arg st" and "typein_fits st"
  shows "keeps base (rl_rubout count st)"
proof -
  have "keeps base (rl_delete (- count) st)" if "count < 0"
    using delete_keeps(1) [OF assms(1), of "- count"] assms that small_minus by auto
  then show ?thesis
    using assms negated_small [OF assms(2) ready_line(4) [OF assms(1)]] delete_keeps(2) [OF assms(1,2,4)]
      overwrite_rubout_keeps [OF assms(1-3)] ding_ready [OF assms(1)]
    by (auto simp: rl_rubout_def keepsI)
qed

lemma delete_space_keeps:
  assumes "ready base st"
  shows "keeps base (rl_delete_horizontal_space st)"
proof -
  obtain p where st1: "skip_backward whitespace st = Inr (st\<lparr>rl_point := p\<rparr>)" "point_moved st (st\<lparr>rl_point := p\<rparr>)"
    using skip_backward_run [OF ready_line(1,2) [OF assms]] by blast
  let ?st1 = "st\<lparr>rl_point := p\<rparr>"
  have r1: "ready base ?st1" by (rule moved_ready [OF assms st1(2)])
  obtain q where q: "skip_forward whitespace ?st1 = Inr (?st1\<lparr>rl_point := q\<rparr>)" "point_moved ?st1 (?st1\<lparr>rl_point := q\<rparr>)" "p \<le> q"
    using skip_forward_run [OF ready_line(1,2) [OF r1], of whitespace] by auto
  have pos: "0 \<le> p" "p \<le> rl_end st" "0 \<le> q" "q \<le> rl_end st"
    using moved_facts(1) [OF st1(2)] moved_facts(1) [OF q(2)] by (simp_all add: at_point_def)
  have r2: "ready base (st\<lparr>rl_point := q\<rparr>)" using point_ready [OF assms pos(3,4)] .
  show ?thesis
  proof (cases "p = q")
    case True
    then show ?thesis using st1(1) q(1) r2 pos by (simp add: rl_delete_horizontal_space_def Let_def keepsI)
  next
    case False
    from delete_inv [OF ready_line(3) [OF r2], of p q] pos q(3) obtain st3 where
      "rl_delete_text p q (st\<lparr>rl_point := q\<rparr>) = Inr (q - p, st3)" "line_inv base st3" "rl_end st3 = rl_end st - (q - p)" by auto
    moreover from this have "ready base (st3\<lparr>rl_point := p\<rparr>)" using pos by (simp add: ready_def at_point_def)
    ultimately show ?thesis
      using False st1(1) q(1) pos by (simp add: rl_delete_horizontal_space_def Let_def keepsI)
  qed
qed

lemma strneq_buffer_run:
  "line_is t st \<Longrightarrow> i + length cs \<le> length (rl_line_buffer st) \<or> NUL \<notin> set cs \<Longrightarrow> i \<le> length t \<Longrightarrow>
    NUL \<notin> set cs \<Longrightarrow> strneq_buffer cs (int i) st = Inr (take (length cs) (drop i t) = cs)"
proof (induction cs arbitrary: i)
  case (Cons c cs)
  have get: "buf_get (int i) st = Inr (cstr_at t i)" by (rule line_get [OF Cons.prems(1,3)])
  show ?case
  proof (cases "i < length t \<and> t ! i = c")
    case True
    then have "strneq_buffer cs (int i + 1) st = Inr (take (length cs) (drop (Suc i) t) = cs)"
      using Cons.IH [of "Suc i"] Cons.prems by (simp add: add.commute)
    then show ?thesis using True get Cons_nth_drop_Suc [of i t, symmetric] by (simp add: cstr_at_def)
  next
    case False
    then show ?thesis
      using get Cons.prems(3,4) Cons_nth_drop_Suc [of i t, symmetric] by (cases "i < length t") (auto simp: cstr_at_def)
  qed
qed simp

lemma insert_comment_keeps:
  assumes "ready base st"
  shows "keeps base (rl_insert_comment st)"
proof -
  let ?st = "rl_beg_of_line st" and ?c = "case rl_comment_begin st of None \<Rightarrow> ''#'' | Some s \<Rightarrow> s"
  have r: "ready base ?st" using point_ready [OF assms] ready_line(4) [OF assms] by (simp add: rl_beg_of_line_def)
  have c: "NUL \<notin> set ?c" using ready_line(3) [OF assms] by (auto simp: line_inv_def rest_ok_def split: option.split)
  have b: "(case rl_comment_begin ?st of None \<Rightarrow> ''#'' | Some s \<Rightarrow> s) = ?c" "rl_point ?st = 0" "rl_end ?st = rl_end st"
    "line_text ?st = line_text st" by (simp_all add: rl_beg_of_line_def)
  have ins: "keeps base (rl_insert_text (Some ?c) ?st)" by (rule insert_keeps [OF r c])
  have same: "strneq_buffer ?c 0 ?st = Inr (take (length ?c) (line_text st) = ?c)"
    using strneq_buffer_run [OF ready_line(1) [OF r], of 0 ?c] c b(4) by simp
  have del: "keeps base (rl_delete_text 0 (int (length ?c)) ?st)" if "take (length ?c) (line_text st) = ?c"
  proof -
    have "length ?c \<le> length (line_text st)" using arg_cong [OF that, of length] by simp
    then have "int (length ?c) \<le> rl_end ?st" using ready_line(1) [OF assms] b(3) by (simp add: line_is_def)
    from delete_inv [OF ready_line(3) [OF r], of 0 "int (length ?c)"] this ready_line(4) [OF assms] b(2,3) show ?thesis
      by (fastforce simp: keeps_def ready_def at_point_def)
  qed
  have fin: "keeps base (bind_run m (\<lambda>(_, st). Inr (0, rl_newline st)))" if "keeps base m" for m
    by (rule keeps_bind [OF that]) (simp add: keepsI newline_ready)
  show ?thesis
    unfolding rl_insert_comment_def Let_def b(1) using fin [OF ins] fin [OF del] same b(2) by (simp del: strneq_buffer.simps)
qed

section \<open>Changing case\<close>

fun recase :: "(char \<Rightarrow> bool) \<Rightarrow> case_op \<Rightarrow> bool \<Rightarrow> string \<Rightarrow> string" where
  "recase alpha op inword [] = []"
| "recase alpha op inword (c # cs) =
     (if \<not> alpha c then c # recase alpha op False cs
      else
      (if op = UpCase \<or> op = CapCase \<and> \<not> inword then rl_to_upper c else rl_to_lower c) #
      recase alpha op (op = CapCase \<or> inword) cs)"

lemma length_recase [simp]: "length (recase alpha op inword cs) = length cs"
  by (induction alpha op inword cs rule: recase.induct) auto

lemma change_letter_no_NUL:
  assumes "c \<noteq> NUL"
  shows "rl_to_upper c \<noteq> NUL" "rl_to_lower c \<noteq> NUL"
proof -
  have z: "x = (0::nat)" if "char_of x = NUL" "x < 256" for x
    using arg_cong [OF that(1), of "of_char :: char \<Rightarrow> nat"] that(2) by simp
  have "(of_char c :: nat) < 256" using of_char_mod_256 [of c, where ?'a = nat] by (metis mod_less_divisor zero_less_numeral)
  then show "rl_to_upper c \<noteq> NUL" "rl_to_lower c \<noteq> NUL"
    using assms z [of "of_char c - 32"] z [of "of_char c + 32"] less_imp_diff_less [of "of_char c" 256 32]
    by (auto simp: rl_to_upper_def rl_to_lower_def c_islower_def c_isupper_def)
qed

lemma put_char_line:
  assumes "line_is t st" and "s < length t" and "c \<noteq> NUL"
  shows "\<exists>b. buf_put (int s) [c] st = Inr (st\<lparr>rl_line_buffer := b\<rparr>) \<and> line_is (t[s := c]) (st\<lparr>rl_line_buffer := b\<rparr>)"
proof -
  let ?b = "(rl_line_buffer st)[s := c]"
  have l: "s < length (rl_line_buffer st)" "take (Suc (length t)) (rl_line_buffer st) = t @ [NUL]"
    using assms(1,2) by (auto simp: line_is_def)
  have "buf_put (int s) [c] st = Inr (st\<lparr>rl_line_buffer := ?b\<rparr>)"
    using l(1) by (simp add: buf_put_def put_bytes_def upd_conv_take_nth_drop)
  moreover have "take (Suc (length t)) ?b = t[s := c] @ [NUL]"
    using l(2) assms(2) by (simp add: take_update_swap list_update_append)
  moreover have "NUL \<notin> set (t[s := c])"
    using assms set_update_subset_insert [of t s c] by (auto simp: line_is_def)
  ultimately show ?thesis using assms(1) by (intro exI [of _ ?b]) (simp add: line_is_def)
qed

lemma change_run:
  "line_is t st \<Longrightarrow> s + n \<le> length t \<Longrightarrow> e = s + n \<Longrightarrow>
    \<exists>b. change_chars n op inword (int s) (int e) st = Inr (st\<lparr>rl_line_buffer := b\<rparr>) \<and>
      line_is (take s t @ recase (rl_alphabetic st) op inword (take n (drop s t)) @ drop e t) (st\<lparr>rl_line_buffer := b\<rparr>)"
proof (induction n arbitrary: s inword t st)
  case 0
  then show ?case by (intro exI [of _ "rl_line_buffer st"]) simp
next
  case (Suc n)
  have s: "s < length t" using Suc.prems(2) by simp
  have get: "buf_get (int s) st = Inr (t ! s)" using line_get [OF Suc.prems(1), of s] s by (simp add: cstr_at_def)
  have nz: "t ! s \<noteq> NUL" using Suc.prems(1) s by (auto simp: line_is_def in_set_conv_nth)
  have lt: "int s < int e" using Suc.prems(3) by simp
  have tk: "take (Suc n) (drop s t) = t ! s # take n (drop (Suc s) t)" using Cons_nth_drop_Suc [OF s, symmetric] by simp
  show ?case
  proof (cases "rl_alphabetic st (t ! s)")
    case False
    from Suc.IH [OF Suc.prems(1), of "Suc s" False] Suc.prems(2,3) obtain b where
      "change_chars n op False (int s + 1) (int e) st = Inr (st\<lparr>rl_line_buffer := b\<rparr>)"
      "line_is (take (Suc s) t @ recase (rl_alphabetic st) op False (take n (drop (Suc s) t)) @ drop e t) (st\<lparr>rl_line_buffer := b\<rparr>)"
      by (auto simp: add.commute)
    then show ?thesis using get lt False tk s by (intro exI [of _ b]) (simp add: take_Suc_conv_app_nth)
  next
    case True
    define c where "c = (if op = UpCase \<or> op = CapCase \<and> \<not> inword then rl_to_upper (t ! s) else rl_to_lower (t ! s))"
    have "c \<noteq> NUL" using change_letter_no_NUL [OF nz] by (simp add: c_def)
    from put_char_line [OF Suc.prems(1) s this] obtain b1 where b1: "buf_put (int s) [c] st = Inr (st\<lparr>rl_line_buffer := b1\<rparr>)"
      "line_is (t[s := c]) (st\<lparr>rl_line_buffer := b1\<rparr>)" by blast
    have alpha: "rl_alphabetic (st\<lparr>rl_line_buffer := b1\<rparr>) = rl_alphabetic st" by (rule ext) (simp add: rl_alphabetic_def)
    from Suc.IH [OF b1(2), of "Suc s" "op = CapCase \<or> inword"] Suc.prems(2,3) obtain b where
      b: "change_chars n op (op = CapCase \<or> inword) (int s + 1) (int e) (st\<lparr>rl_line_buffer := b1\<rparr>) = Inr (st\<lparr>rl_line_buffer := b\<rparr>)"
      "line_is (take (Suc s) (t[s := c]) @ recase (rl_alphabetic st) op (op = CapCase \<or> inword) (take n (drop (Suc s) (t[s := c]))) @
        drop e (t[s := c])) (st\<lparr>rl_line_buffer := b\<rparr>)"
      by (auto simp: add.commute alpha)
    have "change_chars (Suc n) op inword (int s) (int e) st =
        bind_run (buf_put (int s) [c] st) (change_chars n op (op = CapCase \<or> inword) (int s + 1) (int e))"
      using get lt True by (cases op) (simp_all add: c_def Let_def)
    moreover have "take (Suc s) (t[s := c]) = take s t @ [c]" using s by (simp add: take_Suc_conv_app_nth)
    moreover have "drop (Suc s) (t[s := c]) = drop (Suc s) t" "drop e (t[s := c]) = drop e t" using Suc.prems(3) by simp_all
    ultimately show ?thesis
      using b1(1) b tk True by (intro exI [of _ b]) (simp add: c_def [symmetric] del: change_chars.simps)
  qed
qed

text \<open>What adding undo entries changes.\<close>

definition undo_only :: "rl_state \<Rightarrow> rl_state \<Rightarrow> bool" where
  "undo_only st st' \<longleftrightarrow>
     st' = st\<lparr>rl_undos := rl_undos st', rl_fresh := rl_fresh st', rl_undo_list := rl_undo_list st',
       rl_undo_group_level := rl_undo_group_level st'\<rparr>"

lemma undo_only_trans: "undo_only st1 st2 \<Longrightarrow> undo_only st2 st3 \<Longrightarrow> undo_only st1 st3"
  by (cases st1; cases st2; cases st3) (simp add: undo_only_def)

lemma add_undo_only:
  assumes "undo_is es st"
  shows "\<exists>st' n. rl_add_undo what a b x st = Inr st' \<and> undo_only st st' \<and>
    undo_is (\<lparr>ue_next = n, ue_start = a, ue_end = b, ue_text = x, ue_what = what\<rparr> # es) st'"
proof -
  from add_undo_run [OF assms, of what a b x] obtain h where
    "rl_add_undo what a b x st = Inr (st\<lparr>rl_undos := h, rl_fresh := Suc (rl_fresh st), rl_undo_list := rl_fresh st\<rparr>)"
    "undo_is (\<lparr>ue_next = rl_undo_list st, ue_start = a, ue_end = b, ue_text = x, ue_what = what\<rparr> # es)
      (st\<lparr>rl_undos := h, rl_fresh := Suc (rl_fresh st), rl_undo_list := rl_fresh st\<rparr>)" by blast
  moreover have "undo_only st (st\<lparr>rl_undos := h, rl_fresh := Suc (rl_fresh st), rl_undo_list := rl_fresh st\<rparr>)"
    by (simp add: undo_only_def)
  ultimately show ?thesis by blast
qed

lemma group_undo_only:
  assumes "undo_is es st"
  shows "\<exists>st' n. rl_begin_undo_group st = Inr st' \<and> undo_only st st' \<and>
      undo_is (\<lparr>ue_next = n, ue_start = 0, ue_end = 0, ue_text = None, ue_what = UNDO_BEGIN\<rparr> # es) st'"
    "\<exists>st' n. rl_end_undo_group st = Inr st' \<and> undo_only st st' \<and>
      undo_is (\<lparr>ue_next = n, ue_start = 0, ue_end = 0, ue_text = None, ue_what = UNDO_END\<rparr> # es) st'"
proof -
  have level: "undo_only st (st'\<lparr>rl_undo_group_level := g\<rparr>)" if "undo_only st st'" for st' g
    using that by (cases st; cases st') (simp add: undo_only_def)
  from add_undo_only [OF assms, of UNDO_BEGIN 0 0 None] obtain st1 n1 where "rl_add_undo UNDO_BEGIN 0 0 None st = Inr st1"
    "undo_only st st1" "undo_is (\<lparr>ue_next = n1, ue_start = 0, ue_end = 0, ue_text = None, ue_what = UNDO_BEGIN\<rparr> # es) st1" by blast
  with level show "\<exists>st' n. rl_begin_undo_group st = Inr st' \<and> undo_only st st' \<and>
      undo_is (\<lparr>ue_next = n, ue_start = 0, ue_end = 0, ue_text = None, ue_what = UNDO_BEGIN\<rparr> # es) st'"
    by (simp add: rl_begin_undo_group_def) blast
  from add_undo_only [OF assms, of UNDO_END 0 0 None] obtain st2 n2 where "rl_add_undo UNDO_END 0 0 None st = Inr st2"
    "undo_only st st2" "undo_is (\<lparr>ue_next = n2, ue_start = 0, ue_end = 0, ue_text = None, ue_what = UNDO_END\<rparr> # es) st2" by blast
  with level show "\<exists>st' n. rl_end_undo_group st = Inr st' \<and> undo_only st st' \<and>
      undo_is (\<lparr>ue_next = n, ue_start = 0, ue_end = 0, ue_text = None, ue_what = UNDO_END\<rparr> # es) st'"
    by (simp add: rl_end_undo_group_def) blast
qed

text \<open>\<open>rl_modifying\<close> prepares for any change of the characters between the two positions.\<close>

lemma modifying_run:
  assumes "line_inv base st" and "a < b" and "b \<le> length (line_text st)"
  shows "\<exists>st' es. rl_modifying (int a) (int b) st = Inr st' \<and> undo_only st st' \<and> undo_is es st' \<and>
    (\<forall>x. length x = b - a \<longrightarrow> undo_gives (fst base) es (take a (line_text st) @ x @ drop b (line_text st)))"
proof -
  let ?t = "line_text st" and ?x = "take (b - a) (drop a (line_text st))"
  from assms(1) obtain es where es: "undo_is es st" "undo_gives (fst base) es ?t" "line_is ?t st"
    by (auto simp: line_inv_def lined_def)
  from group_undo_only(1) [OF es(1)] obtain st1 n1 where 1: "rl_begin_undo_group st = Inr st1" "undo_only st st1"
    "undo_is (\<lparr>ue_next = n1, ue_start = 0, ue_end = 0, ue_text = None, ue_what = UNDO_BEGIN\<rparr> # es) st1" by blast
  let ?es1 = "\<lparr>ue_next = n1, ue_start = 0, ue_end = 0, ue_text = None, ue_what = UNDO_BEGIN\<rparr> # es"
  from add_undo_only [OF 1(3), of UNDO_DELETE "int a" "int b" "Some ?x"] obtain st2 n2 where
    2: "rl_add_undo UNDO_DELETE (int a) (int b) (Some ?x) st1 = Inr st2" "undo_only st1 st2"
    "undo_is (\<lparr>ue_next = n2, ue_start = int a, ue_end = int b, ue_text = Some ?x, ue_what = UNDO_DELETE\<rparr> # ?es1) st2" by blast
  let ?es2 = "\<lparr>ue_next = n2, ue_start = int a, ue_end = int b, ue_text = Some ?x, ue_what = UNDO_DELETE\<rparr> # ?es1"
  from add_undo_only [OF 2(3), of UNDO_INSERT "int a" "int b" None] obtain st3 n3 where
    3: "rl_add_undo UNDO_INSERT (int a) (int b) None st2 = Inr st3" "undo_only st2 st3"
    "undo_is (\<lparr>ue_next = n3, ue_start = int a, ue_end = int b, ue_text = None, ue_what = UNDO_INSERT\<rparr> # ?es2) st3" by blast
  let ?es3 = "\<lparr>ue_next = n3, ue_start = int a, ue_end = int b, ue_text = None, ue_what = UNDO_INSERT\<rparr> # ?es2"
  from group_undo_only(2) [OF 3(3)] obtain st4 n4 where 4: "rl_end_undo_group st3 = Inr st4" "undo_only st3 st4"
    "undo_is (\<lparr>ue_next = n4, ue_start = 0, ue_end = 0, ue_text = None, ue_what = UNDO_END\<rparr> # ?es3) st4" by blast
  have run: "rl_modifying (int a) (int b) st = Inr st4"
    using assms(2,3) copy_text(1) [OF es(3), of a b] 1(1) 2(1) 3(1) 4(1) by (simp add: rl_modifying_def)
  have nz: "NUL \<notin> set ?x" using es(3) by (auto simp: line_is_def dest: in_set_takeD in_set_dropD)
  have whole: "take a ?t @ ?x @ drop b ?t = ?t"
    using insert_at_cut_out [of a b ?t] assms(2,3) by (simp add: insert_at_def cut_out_def)
  have "undo_gives (fst base) (\<lparr>ue_next = n4, ue_start = 0, ue_end = 0, ue_text = None, ue_what = UNDO_END\<rparr> # ?es3)
      (take a ?t @ x @ drop b ?t)" if "length x = b - a" for x
    using that assms(2,3) es(2) nz whole by (simp add: undo_valid_def undo_step_def)
  then show ?thesis using run 4(3) undo_only_trans 1(2) 2(2) 3(2) 4(2) by blast
qed

lemma undo_only_fields:
  assumes "undo_only st st'"
  shows "same_rest st st'" "rl_line_buffer st' = rl_line_buffer st" "rl_line_buffer_len st' = rl_line_buffer_len st"
    "rl_point st' = rl_point st" "rl_end st' = rl_end st" "rl_history st' = rl_history st"
    "rl_doing_an_undo st' = rl_doing_an_undo st" "rl_alphabetic st' = rl_alphabetic st"
    "rl_revert_all_at_newline st' = rl_revert_all_at_newline st"
proof -
  obtain h f l g where st': "st' = st\<lparr>rl_undos := h, rl_fresh := f, rl_undo_list := l, rl_undo_group_level := g\<rparr>"
    using assms unfolding undo_only_def by blast
  show "same_rest st st'" by (simp add: st' same_rest_def)
  show "rl_line_buffer st' = rl_line_buffer st" "rl_line_buffer_len st' = rl_line_buffer_len st"
    "rl_point st' = rl_point st" "rl_end st' = rl_end st" "rl_history st' = rl_history st"
    "rl_doing_an_undo st' = rl_doing_an_undo st"
    "rl_revert_all_at_newline st' = rl_revert_all_at_newline st" by (simp_all add: st')
  show "rl_alphabetic st' = rl_alphabetic st" by (rule ext) (simp add: st' rl_alphabetic_def)
qed

text \<open>Any change of the letters between two positions that was announced by \<open>rl_modifying\<close>.\<close>

lemma case_region_run:
  assumes "line_inv base st" and "a \<le> b" and "b \<le> length (line_text st)"
  shows "\<exists>st1 st2. rl_modifying (int a) (int b) st = Inr st1 \<and> change_chars (b - a) op False (int a) (int b) st1 = Inr st2 \<and>
    line_inv base st2 \<and> rl_end st2 = rl_end st \<and>
    line_text st2 = take a (line_text st) @ recase (rl_alphabetic st) op False (take (b - a) (drop a (line_text st))) @
      drop b (line_text st)"
proof (cases "a = b")
  case True
  then have "rl_modifying (int a) (int b) st = Inr st" by (simp add: rl_modifying_def)
  then show ?thesis using assms(1) True by (intro exI [of _ st]) simp
next
  case False
  let ?t = "line_text st" and ?x = "recase (rl_alphabetic st) op False (take (b - a) (drop a (line_text st)))"
  let ?t' = "take a ?t @ ?x @ drop b ?t"
  from modifying_run [OF assms(1) _ assms(3), of a] False assms(2) obtain st1 es where st1: "rl_modifying (int a) (int b) st = Inr st1"
    "undo_only st st1" "undo_is es st1" and g: "\<forall>x. length x = b - a \<longrightarrow> undo_gives (fst base) es (take a ?t @ x @ drop b ?t)"
    by auto
  note u = undo_only_fields [OF st1(2)]
  have "line_is ?t st1" using inv_line [OF assms(1)] u(2,3,5) by (simp add: line_is_def)
  moreover have "b = a + (b - a)" "a + (b - a) \<le> length ?t" using assms(2,3) by simp_all
  ultimately obtain buf where c: "change_chars (b - a) op False (int a) (int b) st1 = Inr (st1\<lparr>rl_line_buffer := buf\<rparr>)"
    "line_is ?t' (st1\<lparr>rl_line_buffer := buf\<rparr>)"
    using change_run [of ?t st1 a "b - a" b op False] u(8) by auto
  let ?st2 = "st1\<lparr>rl_line_buffer := buf\<rparr>"
  have t2: "line_text ?st2 = ?t'" by (rule line_text_is [OF c(2)])
  have "length ?x = b - a" using assms(2,3) by simp
  then have "lined base ?st2"
    using c(2) t2 st1(3) g assms(1) u(6,7) by (auto simp: lined_def line_inv_def setting_def u(9))
  moreover have "same_rest st ?st2"
    by (rule same_rest_trans [OF u(1)]) (simp add: same_rest_def)
  ultimately show ?thesis using inv_same [OF assms(1)] st1(1) c(1) t2 u(5) by (intro exI [of _ st1] exI [of _ ?st2]) simp
qed

lemma change_case_run:
  assumes "ready base st" and "small_count count st"
  defines "t \<equiv> line_text st" and "i \<equiv> nat (rl_point st)"
  defines "j \<equiv> word_move (rl_alphabetic st) t count i"
  defines "a \<equiv> if count < 0 then j else i" and "b \<equiv> if count < 0 then i else j"
  shows "\<exists>st'. rl_change_case count op st = Inr (0, st') \<and> ready base st' \<and> rl_point st' = int b \<and>
    line_text st' = take a t @ recase (rl_alphabetic st) op False (take (b - a) (drop a t)) @ drop b t"
proof -
  from forward_word_ready [OF assms(1,2)] obtain st1 where st1: "rl_forward_word count st = Inr st1" "ready base st1"
    "point_moved st st1" "rl_point st1 = int j" by (auto simp: j_def t_def i_def)
  note m = moved_facts [OF st1(3)]
  have i: "i \<le> length t" "rl_point st = int i" using at_point_nat [OF ready_line(1,2) [OF assms(1)]] by (simp_all add: i_def t_def)
  have jl: "j \<le> length t" unfolding j_def by (rule word_move_le [OF i(1)])
  have ab: "a \<le> b" using words_right_le [OF i(1)] words_left_le by (auto simp: a_def b_def j_def word_move_def)
  have bl: "b \<le> length (line_text st1)" using i(1) jl m(7) by (auto simp: b_def t_def)
  from case_region_run [OF ready_line(3) [OF st1(2)] ab bl, of op] obtain st2 st3 where
    st3: "rl_modifying (int a) (int b) st1 = Inr st2" "change_chars (b - a) op False (int a) (int b) st2 = Inr st3"
    "line_inv base st3" "rl_end st3 = rl_end st1"
    "line_text st3 = take a t @ recase (rl_alphabetic st) op False (take (b - a) (drop a t)) @ drop b t"
    using m(7,9) by (auto simp: t_def)
  have pos: "(if count < 0 then (rl_point st1, rl_point st) else (rl_point st, rl_point st1)) = (int a, int b)"
    by (simp add: a_def b_def st1(4) i(2))
  have "nat (int b - int a) = b - a" by simp
  then have "rl_change_case count op st = Inr (0, st3\<lparr>rl_point := int b\<rparr>)"
    using st1(1) st3(1,2) pos by (simp add: rl_change_case_def Let_def)
  moreover have "int b \<le> rl_end st1" using bl ready_line(1) [OF st1(2)] by (simp add: line_is_def)
  then have "ready base (st3\<lparr>rl_point := int b\<rparr>)" using st3(3,4) by (simp add: ready_def at_point_def)
  ultimately show ?thesis using st3(5) by (intro exI [of _ "st3\<lparr>rl_point := int b\<rparr>"]) simp
qed

lemma change_case_keeps: "ready base st \<Longrightarrow> small_count count st \<Longrightarrow> keeps base (rl_change_case count op st)"
  using change_case_run unfolding keeps_def by meson

section \<open>Transposition\<close>

text \<open>A text replaced by another: the deletion with the point where it begins, and the insertion there.\<close>

lemma swap_in_run:
  assumes "line_inv base st" and "a \<le> b" and "b \<le> length (line_text st)" and "NUL \<notin> set w"
  shows "\<exists>r1 st1 r2 st2. rl_delete_text (int a) (int b) (st\<lparr>rl_point := int a\<rparr>) = Inr (r1, st1) \<and>
    rl_insert_text (Some w) st1 = Inr (r2, st2) \<and> ready base st2 \<and>
    line_text st2 = take a (line_text st) @ w @ drop b (line_text st)"
proof -
  have e: "rl_end st = int (length (line_text st))" using inv_line [OF assms(1)] by (simp add: line_is_def)
  from delete_inv [of base "st\<lparr>rl_point := int a\<rparr>" "int a" "int b"] assms e obtain st1 where
    st1: "rl_delete_text (int a) (int b) (st\<lparr>rl_point := int a\<rparr>) = Inr (int b - int a, st1)" "line_inv base st1"
    "line_text st1 = cut_out a b (line_text st)" "rl_point st1 = int a" "rl_end st1 = rl_end st - (int b - int a)" by auto
  have "ready base st1" using st1(2,4,5) assms(2,3) e by (simp add: ready_def at_point_def)
  from insert_ready [OF this assms(4)] obtain st2 where "rl_insert_text (Some w) st1 = Inr (int (length w), st2)" "ready base st2"
    "line_text st2 = insert_at a w (line_text st1)" using st1(4) by auto
  then show ?thesis using st1(1,3) assms(2,3) by (auto simp: insert_at_def cut_out_def)
qed

text \<open>Two disjoint parts of a text exchanged, in one group.\<close>

definition exchange :: "nat \<Rightarrow> nat \<Rightarrow> nat \<Rightarrow> nat \<Rightarrow> string \<Rightarrow> string" where
  "exchange a b c d t = take a t @ take (d - c) (drop c t) @ take (c - b) (drop b t) @ take (b - a) (drop a t) @ drop d t"

lemma exchange_run:
  assumes "ready base st" and "a \<le> b" "b \<le> c" "c \<le> d" "d \<le> length (line_text st)"
  defines "w1 \<equiv> take (b - a) (drop a (line_text st))" and "w2 \<equiv> take (d - c) (drop c (line_text st))"
  shows "\<exists>st'. bind_run (rl_begin_undo_group st) (\<lambda>st.
      bind_run (rl_delete_text (int c) (int d) (st\<lparr>rl_point := int c\<rparr>)) (\<lambda>(_, st).
      bind_run (rl_insert_text (Some w1) st) (\<lambda>(_, st).
      bind_run (rl_delete_text (int a) (int b) (st\<lparr>rl_point := int a\<rparr>)) (\<lambda>(_, st).
      bind_run (rl_insert_text (Some w2) st) (\<lambda>(_, st).
      bind_run (rl_end_undo_group (st\<lparr>rl_point := int d\<rparr>)) (\<lambda>st. Inr (0::int, st))))))) = Inr (0, st') \<and>
    ready base st' \<and> line_text st' = exchange a b c d (line_text st) \<and> rl_point st' = int d"
proof -
  let ?t = "line_text st"
  have nz: "NUL \<notin> set w1" "NUL \<notin> set w2"
    using inv_line [OF ready_line(3) [OF assms(1)]] by (auto simp: w1_def w2_def line_is_def dest: in_set_takeD in_set_dropD)
  from begin_group_ready [OF assms(1)] obtain st1 where st1: "rl_begin_undo_group st = Inr st1" "ready base st1"
    "line_text st1 = ?t" by blast
  from swap_in_run [OF ready_line(3) [OF st1(2)] assms(4) _ nz(1)] assms(5) st1(3) obtain r2 st2 r3 st3 where
    st3: "rl_delete_text (int c) (int d) (st1\<lparr>rl_point := int c\<rparr>) = Inr (r2, st2)"
    "rl_insert_text (Some w1) st2 = Inr (r3, st3)" "ready base st3" "line_text st3 = take c ?t @ w1 @ drop d ?t" by auto
  have "b \<le> length (line_text st3)" using assms(3-5) st3(4) by simp
  from swap_in_run [OF ready_line(3) [OF st3(3)] assms(2) this nz(2)] obtain r4 st4 r5 st5 where
    st5: "rl_delete_text (int a) (int b) (st3\<lparr>rl_point := int a\<rparr>) = Inr (r4, st4)"
    "rl_insert_text (Some w2) st4 = Inr (r5, st5)" "ready base st5"
    "line_text st5 = take a (line_text st3) @ w2 @ drop b (line_text st3)" by blast
  have text5: "line_text st5 = exchange a b c d ?t"
    unfolding st5(4) st3(4) exchange_def w1_def [symmetric] w2_def [symmetric]
    using assms(2-5) by (simp add: min_def drop_take)
  have "length (exchange a b c d ?t) = length ?t" using assms(2-5) by (simp add: exchange_def)
  then have "int d \<le> rl_end st5" using ready_line(1) [OF st5(3)] text5 assms(5) by (simp add: line_is_def)
  then have r6: "ready base (st5\<lparr>rl_point := int d\<rparr>)" using point_ready [OF st5(3)] by simp
  from end_group_ready [OF this] obtain st6 where "rl_end_undo_group (st5\<lparr>rl_point := int d\<rparr>) = Inr st6" "ready base st6"
    "line_text st6 = line_text st5" "rl_point st6 = int d" by auto
  then show ?thesis using st1(1) st3(1,2) st5(1,2) text5 by simp
qed

lemma transpose_words_run:
  assumes "ready base st" and "small_count count st" "small_count 1 st"
  defines "t \<equiv> line_text st" and "alpha \<equiv> rl_alphabetic st"
  defines "d \<equiv> word_move alpha t count (nat (rl_point st))"
  defines "c \<equiv> word_move alpha t (-1) d"
  defines "a \<equiv> word_move alpha t (- count) c"
  defines "b \<equiv> word_move alpha t 1 a"
  shows "\<exists>r st'. rl_transpose_words count st = Inr (r, st') \<and> ready base st' \<and>
    (if count = 0 \<or> a = c \<or> c < b then line_text st' = t \<and> rl_point st' = rl_point st
     else line_text st' = exchange a b c d t \<and> rl_point st' = int d)"
proof (cases "count = 0")
  case True
  then show ?thesis using assms(1) by (simp add: rl_transpose_words_def t_def)
next
  case False
  have go: "\<exists>st2. rl_forward_word n st1 = Inr st2 \<and> ready base st2 \<and> point_moved st st2 \<and>
      rl_point st2 = int (word_move alpha t n (nat (rl_point st1)))"
    "\<exists>st2. rl_backward_word n st1 = Inr st2 \<and> ready base st2 \<and> point_moved st st2 \<and>
      rl_point st2 = int (word_move alpha t (- n) (nat (rl_point st1)))"
    if "ready base st1" "point_moved st st1" "n = count \<or> n = 1" for n st1
  proof -
    have "small_count n st1" using moved_small [OF that(2)] assms(2,3) that(3) by auto
    from forward_word_ready [OF that(1) this] backward_word_ready [OF that(1) this] moved_facts(7,9) [OF that(2)] moved_trans [OF that(2)]
    show "\<exists>st2. rl_forward_word n st1 = Inr st2 \<and> ready base st2 \<and> point_moved st st2 \<and>
      rl_point st2 = int (word_move alpha t n (nat (rl_point st1)))"
      "\<exists>st2. rl_backward_word n st1 = Inr st2 \<and> ready base st2 \<and> point_moved st st2 \<and>
      rl_point st2 = int (word_move alpha t (- n) (nat (rl_point st1)))" by (auto simp: t_def alpha_def)
  qed
  have il: "nat (rl_point st) \<le> length t" using at_point_nat [OF ready_line(1,2) [OF assms(1)]] by (simp add: t_def)
  from go(1) [OF assms(1) moved_refl [OF ready_line(2) [OF assms(1)]], of count] obtain st1 where
    st1: "rl_forward_word count st = Inr st1" "ready base st1" "point_moved st st1" "rl_point st1 = int d" by (auto simp: d_def)
  from go(2) [OF st1(2,3), of 1] st1(4) obtain st2 where
    st2: "rl_backward_word 1 st1 = Inr st2" "ready base st2" "point_moved st st2" "rl_point st2 = int c" by (auto simp: c_def)
  from go(2) [OF st2(2,3), of count] st2(4) obtain st3 where
    st3: "rl_backward_word count st2 = Inr st3" "ready base st3" "point_moved st st3" "rl_point st3 = int a" by (auto simp: a_def)
  from go(1) [OF st3(2,3), of 1] st3(4) obtain st4 where
    st4: "rl_forward_word 1 st3 = Inr st4" "ready base st4" "point_moved st st4" "rl_point st4 = int b" by (auto simp: b_def)
  note m = moved_facts [OF st4(3)]
  have dl: "d \<le> length t" unfolding d_def by (rule word_move_le [OF il])
  have cd: "c \<le> d" using words_left_le [where n = 1 and i = d] by (simp add: c_def word_move_def)
  then have "a \<le> length t" unfolding a_def using dl by (intro word_move_le) simp
  then have ab: "a \<le> b" using words_right_le [where n = 1 and i = a] by (simp add: b_def word_move_def)
  show ?thesis
  proof (cases "a = c \<or> c < b")
    case True
    then have "rl_transpose_words count st = Inr (-1, (rl_ding st4)\<lparr>rl_point := rl_point st\<rparr>)"
      using False st1(1,4) st2(1,4) st3(1,4) st4(1,4) by (auto simp: rl_transpose_words_def)
    moreover have "ready base ((rl_ding st4)\<lparr>rl_point := rl_point st\<rparr>)"
      using point_ready [OF ding_ready [OF st4(2)]] ready_line(2) [OF assms(1)] m(2) by (simp add: rl_ding_def at_point_def)
    ultimately show ?thesis using True m(7) by (simp add: t_def rl_ding_def)
  next
    case no: False
    have bc: "b \<le> c" and dt: "d \<le> length (line_text st4)" using no dl m(7) by (simp_all add: t_def)
    have e: "rl_end st4 = int (length t)" using ready_line(1) [OF st4(2)] m(7) by (simp add: line_is_def t_def)
    have "rl_copy_text (int a) (int b) st4 = Inr (take (b - a) (drop a t))"
      "rl_copy_text (int c) (int d) st4 = Inr (take (d - c) (drop c t))"
      using copy_text(1) [OF ready_line(1) [OF st4(2)]] ab bc cd dl m(7) by (auto simp: t_def)
    moreover from exchange_run [OF st4(2) ab bc cd dt] m(7) obtain st5 where
      "bind_run (rl_begin_undo_group st4) (\<lambda>st.
      bind_run (rl_delete_text (int c) (int d) (st\<lparr>rl_point := int c\<rparr>)) (\<lambda>(_, st).
      bind_run (rl_insert_text (Some (take (b - a) (drop a t))) st) (\<lambda>(_, st).
      bind_run (rl_delete_text (int a) (int b) (st\<lparr>rl_point := int a\<rparr>)) (\<lambda>(_, st).
      bind_run (rl_insert_text (Some (take (d - c) (drop c t))) st) (\<lambda>(_, st).
      bind_run (rl_end_undo_group (st\<lparr>rl_point := int d\<rparr>)) (\<lambda>st. Inr (0::int, st))))))) = Inr (0, st5)"
      "ready base st5" "line_text st5 = exchange a b c d t" "rl_point st5 = int d" by (auto simp: t_def)
    ultimately have "rl_transpose_words count st = Inr (0, st5)"
      using False no st1(1,4) st2(1,4) st3(1,4) st4(1,4) by (simp add: rl_transpose_words_def)
    then show ?thesis using \<open>ready base st5\<close> \<open>line_text st5 = exchange a b c d t\<close> \<open>rl_point st5 = int d\<close> False no by simp
  qed
qed

lemma fix_point_ready: "line_inv base st \<Longrightarrow> ready base (rl_fix_point False st)"
  using inv_line [of base st] by (simp add: rl_fix_point_def fix_pos_def ready_def at_point_def line_is_def)

lemma transpose_chars_keeps:
  assumes "ready base st"
  shows "keeps base (rl_transpose_chars count st)"
proof (cases "count = 0 \<or> rl_point st = 0 \<or> rl_end st < 2")
  case True
  then show ?thesis using assms ding_ready [OF assms] by (auto simp: rl_transpose_chars_def keepsI)
next
  case False
  from begin_group_ready [OF assms] obtain st1 where st1: "rl_begin_undo_group st = Inr st1" "ready base st1"
    "rl_point st1 = rl_point st" "rl_end st1 = rl_end st" by blast
  have pos: "0 < rl_point st1" "rl_point st1 \<le> rl_end st1" "2 \<le> rl_end st1"
    using False ready_line(2) [OF assms] st1(3,4) by (auto simp: at_point_def)
  define q where "q = (if rl_point st1 = rl_end st1 then rl_point st1 - 1 else rl_point st1) - 1"
  define n where "n = (if rl_point st1 = rl_end st1 then 1 else count)"
  have q: "0 \<le> q" "q < rl_end st1" using pos by (auto simp: q_def)
  let ?st2 = "st1\<lparr>rl_point := q\<rparr>"
  have r2: "ready base ?st2" using point_ready [OF st1(2)] q by simp
  define c where "c = line_text ?st2 ! nat q"
  have get: "buf_get q ?st2 = Inr c" using line_buf_get(1) [OF ready_line(1) [OF r2] q(1)] q(2) by (simp add: c_def)
  from delete_inv [OF ready_line(3) [OF r2], of q "q + 1"] q obtain st3 where
    st3: "rl_delete_text q (q + 1) ?st2 = Inr (1, st3)" "line_inv base st3" "rl_point st3 = q" by auto
  let ?st4 = "rl_fix_point False (st3\<lparr>rl_point := wrap32 (q + n)\<rparr>)"
  have "ready base ?st4" using st3(2) by (intro fix_point_ready) simp
  from insert_ready [OF this c_text_no_NUL, of "[c]"] obtain r5 st5 where
    st5: "rl_insert_text (Some (c_text [c])) ?st4 = Inr (r5, st5)" "ready base st5" by blast
  have "rl_transpose_chars count st = bind_run (rl_end_undo_group st5) (\<lambda>st. Inr (0, st))"
  proof (cases "rl_point st1 = rl_end st1")
    case True
    then show ?thesis using False st1(1) get st3 st5(1) by (simp add: rl_transpose_chars_def Let_def q_def n_def)
  next
    case inside: False
    then show ?thesis using False st1(1) get st3 st5(1) by (simp add: rl_transpose_chars_def Let_def q_def n_def)
  qed
  then show ?thesis using end_group_keeps [OF ready_line(3,2) [OF st5(2)]] by simp
qed

section \<open>Searching for a character\<close>

lemma line_read:
  assumes "line_is t st" and "0 \<le> i" and "i \<le> rl_end st"
  shows "\<exists>c. buf_get i st = Inr c"
  using line_get [OF assms(1), of "nat i"] assms by (auto simp: line_is_def nat_le_iff)

lemma scan_backward:
  "line_is t st \<Longrightarrow> backwards dir \<Longrightarrow> 0 \<le> pos \<Longrightarrow> pos \<le> rl_end st \<Longrightarrow> pos < int n \<Longrightarrow>
    \<exists>found pos'. scan_char n dir c pos st = Inr (found, pos') \<and> pos' \<le> pos \<and> (found \<longrightarrow> 0 \<le> pos') \<and> (\<not> found \<longrightarrow> pos' = -1)"
proof (induction n arbitrary: pos)
  case (Suc n)
  obtain d where d: "buf_get pos st = Inr d" using line_read [OF Suc.prems(1,3,4)] by blast
  show ?case
  proof (cases "d = c \<or> pos = 0")
    case True
    then show ?thesis using d Suc.prems by auto
  next
    case False
    then obtain found pos' where "scan_char n dir c (pos - 1) st = Inr (found, pos')" "pos' \<le> pos - 1"
      "found \<longrightarrow> 0 \<le> pos'" "\<not> found \<longrightarrow> pos' = -1" using Suc.IH [OF Suc.prems(1,2), of "pos - 1"] Suc.prems by auto
    then show ?thesis using False d Suc.prems(2) by auto
  qed
qed simp

lemma scan_forward:
  "line_is t st \<Longrightarrow> \<not> backwards dir \<Longrightarrow> 0 \<le> pos \<Longrightarrow> pos \<le> rl_end st \<Longrightarrow> rl_end st - pos < int n \<Longrightarrow>
    \<exists>found pos'. scan_char n dir c pos st = Inr (found, pos') \<and> pos \<le> pos' \<and> (found \<longrightarrow> pos' \<le> rl_end st) \<and>
      (\<not> found \<longrightarrow> rl_end st \<le> pos')"
proof (induction n arbitrary: pos)
  case (Suc n)
  obtain d where d: "buf_get pos st = Inr d" using line_read [OF Suc.prems(1,3,4)] by blast
  show ?case
  proof (cases "d = c \<or> \<not> pos + 1 < rl_end st")
    case True
    then show ?thesis using d Suc.prems by auto
  next
    case False
    then obtain found pos' where "scan_char n dir c (pos + 1) st = Inr (found, pos')" "pos + 1 \<le> pos'"
      "found \<longrightarrow> pos' \<le> rl_end st" "\<not> found \<longrightarrow> rl_end st \<le> pos'"
      using Suc.IH [OF Suc.prems(1,2), of "pos + 1"] Suc.prems by auto
    then show ?thesis using False d Suc.prems(2) by auto
  qed
qed simp

text \<open>Passes of the outer loop that are enough: each one leaves fewer characters to look at.\<close>

definition search_left :: "search_dir \<Rightarrow> int \<Rightarrow> rl_state \<Rightarrow> int" where
  "search_left dir pos st = (if backwards dir then pos else rl_end st - pos)"

lemma char_search_run:
  "ready base st \<Longrightarrow> search_left dir pos st < int n \<Longrightarrow> 0 < n \<Longrightarrow> pos \<le> rl_end st \<or> \<not> backwards dir \<Longrightarrow> 0 \<le> pos \<or> backwards dir \<Longrightarrow>
    \<exists>r st'. char_search_loop n count dir c pos st = Inr (r, st') \<and> ready base st'"
proof (induction n arbitrary: count pos st)
  case (Suc n)
  let ?stop = "(backwards dir \<and> pos \<le> 0) \<or> (\<not> backwards dir \<and> pos \<ge> rl_end st)"
  show ?case
  proof (cases "count = 0 \<or> ?stop")
    case True
    then show ?thesis using Suc.prems(1) ding_ready [OF Suc.prems(1)] by auto
  next
    case False
    note l = ready_line(1) [OF Suc.prems(1)]
    let ?p = "if backwards dir then pos - 1 else pos + 1" and ?N = "nat (rl_end st) + 1"
    have p: "0 \<le> ?p" "?p \<le> rl_end st" "0 \<le> rl_end st" using False Suc.prems(4,5) ready_line(4) [OF Suc.prems(1)] by auto
    have "\<exists>found pos'. scan_char ?N dir c ?p st = Inr (found, pos') \<and> (found \<longrightarrow> 0 \<le> pos' \<and> pos' \<le> rl_end st) \<and>
        (if backwards dir then pos' < pos else pos < pos') \<and>
        (\<not> found \<longrightarrow> (if backwards dir then pos' = -1 else rl_end st \<le> pos'))"
    proof (cases "backwards dir")
      case True
      from scan_backward [OF l True, of ?p ?N c] p True False obtain f pos' where "scan_char ?N dir c ?p st = Inr (f, pos')"
        "pos' \<le> pos - 1" "f \<longrightarrow> 0 \<le> pos'" "\<not> f \<longrightarrow> pos' = -1" by auto
      then show ?thesis using True p by auto
    next
      case no: False
      from scan_forward [OF l no, of ?p ?N c] p no False obtain f pos' where "scan_char ?N dir c ?p st = Inr (f, pos')"
        "pos + 1 \<le> pos'" "f \<longrightarrow> pos' \<le> rl_end st" "\<not> f \<longrightarrow> rl_end st \<le> pos'" by auto
      then show ?thesis using no p by auto
    qed
    then obtain f pos' where sc: "scan_char ?N dir c ?p st = Inr (f, pos')" and in_line: "f \<longrightarrow> 0 \<le> pos' \<and> pos' \<le> rl_end st"
      and further: "if backwards dir then pos' < pos else pos < pos'"
      and at_end: "\<not> f \<longrightarrow> (if backwards dir then pos' = -1 else rl_end st \<le> pos')" by blast
    have n: "0 < n" using False Suc.prems(2) by (cases n) (auto simp: search_left_def split: if_splits)
    let ?st = "if f then st\<lparr>rl_point := (if dir = BTO then pos' + 1 else if dir = FTO \<and> pos' \<noteq> 0 then pos' - 1 else pos')\<rparr> else st"
    have "backwards dir" if "dir = BTO" using that by (simp add: backwards_def)
    then have "f \<longrightarrow> ready base ?st" using in_line further Suc.prems(4) by (auto intro!: point_ready [OF Suc.prems(1)])
    then have r: "ready base ?st" using Suc.prems(1) by auto
    have "search_left dir pos' ?st < int n" "pos' \<le> rl_end ?st \<or> \<not> backwards dir" "0 \<le> pos' \<or> backwards dir"
      using further Suc.prems(2,4,5) p by (auto simp: search_left_def split: if_splits)
    from Suc.IH [OF r this(1) n this(2,3), of "if f then count - 1 else count"] show ?thesis
      using False sc by (cases f; cases "backwards dir") (simp_all del: scan_char.simps)
  qed
qed simp

lemma char_search_keeps:
  assumes "ready base st"
  shows "keeps base (rl_char_search count k st)" "keeps base (rl_backward_char_search count k st)"
proof -
  have pt: "0 \<le> rl_point st" "rl_point st \<le> rl_end st" "0 \<le> rl_end st" using ready_line(2,4) [OF assms] by (simp_all add: at_point_def)
  have "keeps base (rl_char_search_internal n dir c st)" for n dir c
    unfolding rl_char_search_internal_def keeps_def
    using pt by (intro char_search_run [OF assms]) (auto simp: search_left_def)
  then show "keeps base (rl_char_search count k st)" "keeps base (rl_backward_char_search count k st)"
    using assms by (simp_all add: rl_char_search_def rl_backward_char_search_def rl_char_search_key_def keepsI)
qed

section \<open>The mark\<close>

lemma set_mark_pos_ready:
  assumes "ready base st" and "-1 \<le> p"
  shows "ready base (snd (rl_set_mark_at_pos p st))"
  using mark_inv [OF assms(2) ready_line(3) [OF assms(1)]] assms(1)
  by (auto simp: rl_set_mark_at_pos_def ready_def at_point_def)

lemma set_mark_ready:
  "ready base st \<Longrightarrow> rl_explicit_arg st \<longrightarrow> -1 \<le> count \<Longrightarrow> ready base (snd (rl_set_mark count st))"
  using set_mark_pos_ready [of base st "if rl_explicit_arg st then count else rl_point st"] ready_line(2) [of base st]
  by (auto simp: rl_set_mark_def at_point_def)

lemma exchange_ready:
  assumes "ready base st"
  shows "ready base (snd (rl_exchange_point_and_mark st))"
proof (cases "rl_mark st > rl_end st \<or> rl_mark st = -1")
  case True
  have "ready base (st\<lparr>rl_mark := -1\<rparr>)"
    using mark_inv [OF _ ready_line(3) [OF assms], of "-1"] assms by (simp add: ready_def at_point_def)
  then have "ready base (rl_ding (st\<lparr>rl_mark := -1\<rparr>))" "ready base (rl_ding st)" using ding_ready assms by blast+
  then show ?thesis using True by (auto simp: rl_exchange_point_and_mark_def Let_def)
next
  case False
  have m: "-1 \<le> rl_mark st" using ready_line(3) [OF assms] by (simp add: line_inv_def rest_ok_def)
  have "ready base (st\<lparr>rl_point := rl_mark st\<rparr>)" using point_ready [OF assms] False m by simp
  moreover have "-1 \<le> rl_point st" using ready_line(2) [OF assms] by (simp add: at_point_def)
  ultimately have "line_inv base (st\<lparr>rl_point := rl_mark st, rl_mark := rl_point st\<rparr>)"
    using mark_inv ready_line(3) by blast
  then show ?thesis using False m by (auto simp: rl_exchange_point_and_mark_def Let_def ready_def at_point_def)
qed

end
