(* ===== verification/Rl_Kill_Spec.thy ===== *)
theory Rl_Kill_Spec
  imports Rl_Text_Spec
begin

text \<open>
  The commands of \<open>kill.c\<close> keep the invariant where the kill ring has room; what they take out of the line is what
  they put into the ring. With the commands of \<open>text.c\<close> and \<open>undo.c\<close>: every session of commands runs without a
  fault, and the line can be reverted after it.
\<close>

section \<open>Killing\<close>

lemma kill_room_frame [simp]:
  "kill_room (st\<lparr>rl_point := p\<rparr>) = kill_room st" "kill_room (st\<lparr>rl_mark := m\<rparr>) = kill_room st"
  "kill_room (st\<lparr>rl_explicit_arg := e\<rparr>) = kill_room st"
  by (simp_all add: kill_room_def)

text \<open>A kill from a position to where the point is, or from the point on.\<close>

lemma kill_keeps:
  assumes "line_inv base st" and "0 \<le> from_pos" "from_pos \<le> rl_end st" "0 \<le> to_pos" "to_pos \<le> rl_end st"
    and "from_pos = to_pos \<or> kill_room st"
    and "\<And>st'. line_inv base st' \<Longrightarrow> rl_point st' = rl_point st \<Longrightarrow> rl_end st' = rl_end st - \<bar>to_pos - from_pos\<bar> \<Longrightarrow>
      rl_mark st' = rl_mark st \<Longrightarrow> keeps base (f st')"
  shows "keeps base (bind_run (rl_kill_text from_pos to_pos st) f)"
  using kill_inv [OF assms(1-6)] assms(7) by fastforce

lemma marked_ready: "line_inv base st \<Longrightarrow> 0 \<le> p \<Longrightarrow> p \<le> rl_end st \<Longrightarrow> -1 \<le> m \<Longrightarrow> ready base (st\<lparr>rl_point := p, rl_mark := m\<rparr>)"
  using mark_inv by (simp add: ready_def at_point_def)

lemma mark_ready: "ready base st \<Longrightarrow> -1 \<le> m \<Longrightarrow> ready base (st\<lparr>rl_mark := m\<rparr>)"
  using mark_inv by (simp add: ready_def at_point_def)

lemma word_move_direction:
  "i \<le> length t \<Longrightarrow> 0 \<le> count \<Longrightarrow> i \<le> word_move alpha t count i"
  "0 \<le> count \<Longrightarrow> word_move alpha t (- count) i \<le> i"
  using words_right_le [where alpha = alpha and t = t and i = i and n = "nat count"] words_left_le [where alpha = alpha and t = t and i = i and n = "nat count"]
  by (auto simp: word_move_def)

lemma kill_words_keeps:
  assumes "ready base st" and "small_count count st" and "kill_room st" and "0 \<le> count"
  shows "keeps base (kill_words count st)" "keeps base (backward_kill_words count st)"
proof -
  note at = at_point_nat [OF ready_line(1,2) [OF assms(1)]]
  from forward_word_ready [OF assms(1,2)] obtain st1 where st1: "rl_forward_word count st = Inr st1" "ready base st1" "point_moved st st1"
    and p1: "rl_point st1 = int (word_move (rl_alphabetic st) (line_text st) count (nat (rl_point st)))" by blast
  from backward_word_ready [OF assms(1,2)] obtain st2 where st2: "rl_backward_word count st = Inr st2" "ready base st2" "point_moved st st2"
    and p2: "rl_point st2 = int (word_move (rl_alphabetic st) (line_text st) (- count) (nat (rl_point st)))" by blast
  have ge: "rl_point st \<le> rl_point st1" using p1 at word_move_direction(1) [OF _ assms(4)] by (metis of_nat_le_iff)
  have le: "rl_point st2 \<le> rl_point st" using p2 at word_move_direction(2) [OF assms(4)] by (metis of_nat_le_iff)
  note m1 = moved_facts [OF st1(3)] and m2 = moved_facts [OF st2(3)]
  have room: "kill_room st1" "kill_room st2" using assms(3) same_rest_fields(2) [OF m1(5)] same_rest_fields(2) [OF m2(5)] by simp_all
  have pos: "0 \<le> rl_point st" "rl_point st \<le> rl_end st1" "rl_point st \<le> rl_end st2" "rl_point st1 \<le> rl_end st1" "0 \<le> rl_point st2"
    using ready_line(2) [OF assms(1)] ready_line(2) [OF st1(2)] ready_line(2) [OF st2(2)] m1(2) m2(2) by (simp_all add: at_point_def)
  have "keeps base (bind_run (if rl_point st1 \<noteq> rl_point st then rl_kill_text (rl_point st) (rl_point st1) st1 else Inr st1)
      (\<lambda>st'. Inr (0, st'\<lparr>rl_point := rl_point st, rl_mark := rl_point st\<rparr>)))"
  proof (cases "rl_point st1 = rl_point st")
    case True
    then show ?thesis using marked_ready [OF ready_line(3) [OF st1(2)] pos(1,2)] pos(1) by (simp add: keepsI)
  next
    case False
    have "keeps base (bind_run (rl_kill_text (rl_point st) (rl_point st1) st1)
        (\<lambda>st'. Inr (0, st'\<lparr>rl_point := rl_point st, rl_mark := rl_point st\<rparr>)))"
      using pos room ge by (intro kill_keeps [OF ready_line(3) [OF st1(2)]]) (auto intro!: keepsI marked_ready)
    then show ?thesis using False by simp
  qed
  then show "keeps base (kill_words count st)" using st1(1) by (simp add: kill_words_def Let_def)
  have "keeps base (bind_run (if rl_point st2 \<noteq> rl_point st then rl_kill_text (rl_point st) (rl_point st2) st2 else Inr st2)
      (\<lambda>st'. Inr (0, st'\<lparr>rl_mark := rl_point st'\<rparr>)))"
  proof (cases "rl_point st2 = rl_point st")
    case True
    then show ?thesis using mark_ready [OF st2(2)] pos(1) by (simp add: keepsI)
  next
    case False
    have "keeps base (bind_run (rl_kill_text (rl_point st) (rl_point st2) st2) (\<lambda>st'. Inr (0, st'\<lparr>rl_mark := rl_point st'\<rparr>)))"
      using pos room le
      by (intro kill_keeps [OF ready_line(3) [OF st2(2)]]) (auto intro!: keepsI mark_ready simp: ready_def at_point_def)
    then show ?thesis using False by simp
  qed
  then show "keeps base (backward_kill_words count st)" using st2(1) by (simp add: backward_kill_words_def Let_def)
qed

lemma kill_word_keeps:
  assumes "ready base st" and "small_count count st" and "kill_room st"
  shows "keeps base (rl_kill_word count st)" "keeps base (rl_backward_kill_word count st)"
  using assms negated_small [OF assms(2) ready_line(4) [OF assms(1)]] kill_words_keeps [OF assms]
    kill_words_keeps [OF assms(1), of "- count"] small_minus [of count st]
  by (auto simp: rl_kill_word_def rl_backward_kill_word_def)

lemma kill_line_keeps:
  assumes "ready base st" and "kill_room st"
  shows "keeps base (rl_kill_line count st)" "keeps base (rl_backward_kill_line count st)" "keeps base (rl_unix_line_discard st)"
    "keeps base (rl_kill_full_line st)"
proof -
  have pos: "0 \<le> rl_point st" "rl_point st \<le> rl_end st" "0 \<le> rl_end st" using ready_line(2) [OF assms(1)] by (simp_all add: at_point_def)
  note i = ready_line(3) [OF assms(1)]
  have room: "kill_room (st\<lparr>rl_point := p\<rparr>)" for p using assms(2) by simp
  have to_end: "keeps base (kill_to_end st)"
  proof (cases "rl_point st = rl_end st")
    case True
    then show ?thesis using marked_ready [OF i pos(1,2)] pos(1) by (simp add: kill_to_end_def rl_end_of_line_def Let_def keepsI)
  next
    case False
    have "keeps base (bind_run (rl_kill_text (rl_point st) (rl_end st) (st\<lparr>rl_point := rl_end st\<rparr>))
        (\<lambda>st'. Inr (0, st'\<lparr>rl_point := rl_point st, rl_mark := rl_point st\<rparr>)))"
      using pos room i by (intro kill_keeps) (auto intro!: keepsI marked_ready)
    then show ?thesis using False by (simp add: kill_to_end_def rl_end_of_line_def Let_def)
  qed
  have to_start: "keeps base (kill_to_start st)"
  proof (cases "rl_point st = 0")
    case True
    then show ?thesis using ding_ready [OF assms(1)] by (simp add: kill_to_start_def keepsI)
  next
    case False
    have "keeps base (bind_run (rl_kill_text (rl_point st) 0 (st\<lparr>rl_point := 0\<rparr>)) (\<lambda>st'. Inr (0, st'\<lparr>rl_mark := rl_point st'\<rparr>)))"
      using pos room i by (intro kill_keeps) (auto intro!: keepsI mark_ready simp: ready_def at_point_def)
    then show ?thesis using False by (simp add: kill_to_start_def rl_beg_of_line_def Let_def)
  qed
  show "keeps base (rl_kill_line count st)" "keeps base (rl_backward_kill_line count st)"
    using to_end to_start by (simp_all add: rl_kill_line_def rl_backward_kill_line_def)
  have "keeps base (bind_run (rl_kill_text (rl_point st) 0 st) (\<lambda>st'. Inr (0, st'\<lparr>rl_point := 0, rl_mark := 0\<rparr>)))"
    using pos assms(2) i by (intro kill_keeps) (auto intro!: keepsI marked_ready)
  then show "keeps base (rl_unix_line_discard st)" using ding_ready [OF assms(1)] by (simp add: rl_unix_line_discard_def keepsI)
  from begin_group_ready [OF assms(1)] obtain st1 where st1: "rl_begin_undo_group st = Inr st1" "ready base st1" "same_rest st st1"
    "rl_end st1 = rl_end st" by blast
  have "kill_room (st1\<lparr>rl_point := 0\<rparr>)" using same_rest_fields(2) [OF st1(3)] assms(2) by simp
  then have "keeps base (bind_run (rl_kill_text 0 (rl_end st1) (st1\<lparr>rl_point := 0\<rparr>))
      (\<lambda>st'. bind_run (rl_end_undo_group (st'\<lparr>rl_mark := 0\<rparr>)) (\<lambda>st. Inr (0, st))))"
    using pos ready_line(3) [OF st1(2)] st1(4)
    by (intro kill_keeps) (auto intro!: end_group_keeps mark_inv simp: at_point_def)
  then show "keeps base (rl_kill_full_line st)" using st1(1) by (simp add: rl_kill_full_line_def)
qed

text \<open>The loops that go back over words.\<close>

lemma rubout_words_moved:
  "ready base st \<Longrightarrow> \<exists>st'. rubout_words n st = Inr st' \<and> point_moved st st' \<and> rl_point st' \<le> rl_point st"
proof (induction n arbitrary: st)
  case 0
  then show ?case using moved_refl [OF ready_line(2)] by auto
next
  case (Suc n)
  obtain p where p: "skip_backward whitespace st = Inr (st\<lparr>rl_point := p\<rparr>)" "point_moved st (st\<lparr>rl_point := p\<rparr>)" "p \<le> rl_point st"
    using skip_backward_run [OF ready_line(1,2) [OF Suc.prems], of whitespace] by auto
  let ?st1 = "st\<lparr>rl_point := p\<rparr>"
  have r1: "ready base ?st1" by (rule moved_ready [OF Suc.prems p(2)])
  obtain q where q: "skip_backward (\<lambda>c. \<not> whitespace c) ?st1 = Inr (?st1\<lparr>rl_point := q\<rparr>)"
    "point_moved ?st1 (?st1\<lparr>rl_point := q\<rparr>)" "q \<le> p"
    using skip_backward_run [OF ready_line(1,2) [OF r1], of "\<lambda>c. \<not> whitespace c"] by auto
  let ?st2 = "?st1\<lparr>rl_point := q\<rparr>"
  have r2: "ready base ?st2" by (rule moved_ready [OF r1 q(2)])
  from Suc.IH [OF r2] obtain st' where "rubout_words n ?st2 = Inr st'" "point_moved ?st2 st'" "rl_point st' \<le> q" by auto
  then show ?case
    using p q moved_trans [OF moved_trans [OF p(2) q(2)]] by (intro exI [of _ st']) simp
qed

lemma word_rubout_keeps:
  assumes "ready base st" and "kill_room st"
  shows "keeps base (rl_unix_word_rubout count st)"
proof (cases "rl_point st = 0")
  case True
  then show ?thesis using ding_ready [OF assms(1)] by (simp add: rl_unix_word_rubout_def keepsI)
next
  case False
  from rubout_words_moved [OF assms(1)] obtain st1 where
    st1: "rubout_words (nat (if count \<le> 0 then 1 else count)) st = Inr st1" "point_moved st st1" "rl_point st1 \<le> rl_point st" by blast
  note m = moved_facts [OF st1(2)]
  have r1: "ready base st1" by (rule moved_ready [OF assms(1) st1(2)])
  have pos: "0 \<le> rl_point st" "rl_point st \<le> rl_end st1" "0 \<le> rl_point st1" "rl_point st1 \<le> rl_end st1"
    using ready_line(2) [OF assms(1)] ready_line(2) [OF r1] m(2) by (simp_all add: at_point_def)
  have "keeps base (bind_run (rl_kill_text (rl_point st) (rl_point st1) st1) (\<lambda>st. Inr (0, st\<lparr>rl_mark := rl_point st\<rparr>)))"
    using pos st1(3) assms(2) same_rest_fields(2) [OF m(5)]
    by (intro kill_keeps [OF ready_line(3) [OF r1]]) (auto intro!: keepsI mark_ready simp: ready_def at_point_def)
  then show ?thesis using False st1(1) by (simp add: rl_unix_word_rubout_def Let_def)
qed

section \<open>The region\<close>

text \<open>A copy from a position in the line ends with the line, at the latest.\<close>

lemma line_copy_any:
  "line_is t st \<Longrightarrow> i \<le> length t \<Longrightarrow> copy_bytes n (int i) st = Inr (take n (drop i t))"
proof (induction n arbitrary: i)
  case (Suc n)
  show ?case
  proof (cases "i = length t")
    case True
    then show ?thesis using line_get [OF Suc.prems] by (simp add: cstr_at_def)
  next
    case False
    then have i: "i < length t" using Suc.prems(2) by simp
    then have "t ! i \<noteq> NUL" using Suc.prems(1) by (auto simp: line_is_def in_set_conv_nth)
    moreover have "copy_bytes n (int i + 1) st = Inr (take n (drop (Suc i) t))"
      using Suc.IH [of "Suc i"] Suc.prems i by (simp add: add.commute)
    ultimately show ?thesis
      using line_get [OF Suc.prems] i Cons_nth_drop_Suc [OF i, symmetric] by (simp add: cstr_at_def)
  qed
qed simp

lemma copy_inv_any:
  assumes "ready base st" and "0 \<le> m"
  shows "\<exists>x. rl_copy_text (rl_point st) m st = Inr x \<and> NUL \<notin> set x"
proof -
  note l = ready_line(1) [OF assms(1)]
  have e: "rl_end st = int (length (line_text st))" using l by (simp add: line_is_def)
  define a where "a = nat (min (rl_point st) m)"
  have a: "a \<le> length (line_text st)" "int a = min (rl_point st) m"
    using assms(2) e ready_line(2) [OF assms(1)] by (auto simp: a_def at_point_def min_def)
  have "rl_copy_text (rl_point st) m st = copy_bytes (nat (max (rl_point st) m - int a)) (int a) st"
    using a(2) by (simp add: rl_copy_text_def min_def max_def)
  then show ?thesis
    using line_copy_any [OF l a(1)] l by (auto simp: line_is_def dest: in_set_takeD in_set_dropD)
qed

lemma ring_inv:
  assumes "line_inv base st" and "kill_room st" and "NUL \<notin> set x"
  shows "\<exists>st'. copy_to_kill_ring x app st = Inr st' \<and> line_inv base (command_was_kill st') \<and>
    rl_point (command_was_kill st') = rl_point st \<and> rl_end (command_was_kill st') = rl_end st \<and>
    rl_mark (command_was_kill st') = rl_mark st \<and> line_text (command_was_kill st') = line_text st"
proof -
  have "ring_ok st" using assms(1) by (simp add: line_inv_def rest_ok_def)
  from copy_ring_run [OF this assms(2,3), of app] obtain b l i where b: "copy_to_kill_ring x app st =
      Inr (st\<lparr>rl_kill_ring := Some b, rl_kill_ring_length := l, rl_kill_index := i\<rparr>)"
    "ring_ok (st\<lparr>rl_kill_ring := Some b, rl_kill_ring_length := l, rl_kill_index := i\<rparr>)" by blast
  let ?st1 = "st\<lparr>rl_kill_ring := Some b, rl_kill_ring_length := l, rl_kill_index := i\<rparr>"
  have "line_inv base ?st1" using assms(1) b(2) ring_frame by (simp add: line_inv_def rest_ok_def)
  then have "line_inv base (command_was_kill ?st1)" "line_text (command_was_kill ?st1) = line_text st"
    by (simp_all add: command_was_kill_frame ring_frame)
  then show ?thesis using b(1) by (intro exI [of _ ?st1]) (simp add: command_was_kill_def)
qed

lemma region_copy_run:
  assumes "ready base st" and "kill_room st" and "0 \<le> rl_mark st"
  shows "\<exists>st'. region_kill_internal False st = Inr (0, st') \<and> ready base st' \<and> rl_end st' = rl_end st \<and> rl_mark st' = rl_mark st"
proof (cases "rl_mark st = rl_point st")
  case True
  have "ready base (command_was_kill st)"
    using assms(1) command_was_kill_frame(1) by (simp add: ready_def at_point_def) (simp add: command_was_kill_def)
  then show ?thesis using True by (simp add: region_kill_internal_def command_was_kill_def)
next
  case False
  from copy_inv_any [OF assms(1,3)] obtain x where x: "rl_copy_text (rl_point st) (rl_mark st) st = Inr x" "NUL \<notin> set x" by blast
  from ring_inv [OF ready_line(3) [OF assms(1)] assms(2) x(2), of "rl_point st < rl_mark st"] obtain st' where
    "copy_to_kill_ring x (rl_point st < rl_mark st) st = Inr st'" "line_inv base (command_was_kill st')"
    "rl_point (command_was_kill st') = rl_point st" "rl_end (command_was_kill st') = rl_end st"
    "rl_mark (command_was_kill st') = rl_mark st" by blast
  then show ?thesis
    using False x(1) ready_line(2) [OF assms(1)] by (simp add: region_kill_internal_def ready_def at_point_def)
qed

lemma copy_region_keeps:
  "ready base st \<Longrightarrow> kill_room st \<Longrightarrow> 0 \<le> rl_mark st \<Longrightarrow> keeps base (rl_copy_region_to_kill st)"
  using region_copy_run by (fastforce simp: rl_copy_region_to_kill_def keeps_def)

lemma kill_region_keeps:
  assumes "ready base st" and "kill_room st" and "0 \<le> rl_mark st"
  shows "keeps base (rl_kill_region st)"
proof -
  define n where "n = (if rl_point st < rl_mark st then rl_point st else rl_mark st)"
  have pos: "0 \<le> rl_point st" "rl_point st \<le> rl_end st" using ready_line(2) [OF assms(1)] by (simp_all add: at_point_def)
  have "\<exists>r st1. region_kill_internal True st = Inr (r, st1) \<and> line_inv base st1 \<and> n \<le> rl_end st1 \<and> 0 \<le> rl_mark st1"
  proof (cases "rl_mark st = rl_point st")
    case True
    then have "region_kill_internal True st = Inr (0, command_was_kill st)" by (simp add: region_kill_internal_def)
    moreover have "n \<le> rl_end (command_was_kill st)" "0 \<le> rl_mark (command_was_kill st)"
      using pos True assms(3) by (simp_all add: n_def command_was_kill_def)
    ultimately show ?thesis using command_was_kill_frame(1) [OF ready_line(3) [OF assms(1)]] by blast
  next
    case False
    from copy_inv_any [OF assms(1,3)] obtain x where x: "rl_copy_text (rl_point st) (rl_mark st) st = Inr x" "NUL \<notin> set x" by blast
    define a b where "a = int (clip (rl_end st) (min (rl_point st) (rl_mark st)))"
      and "b = int (clip (rl_end st) (max (rl_point st) (rl_mark st)))"
    have ab: "0 \<le> a" "a \<le> b" "b \<le> rl_end st" "n = a" using pos assms(3) by (auto simp: a_def b_def n_def clip_def)
    from delete_inv [OF ready_line(3) [OF assms(1)], of a b] ab obtain st1 where st1: "rl_delete_text a b st = Inr (b - a, st1)"
      "line_inv base st1" "same_rest st st1" "rl_end st1 = rl_end st - (b - a)" by auto
    have d: "rl_delete_text (rl_point st) (rl_mark st) st = Inr (b - a, st1)"
      using delete_clipped [of st "rl_point st" "rl_mark st"] pos assms(3) st1(1) by (simp add: a_def b_def)
    have "kill_room st1" using same_rest_fields(2) [OF st1(3)] assms(2) by simp
    from ring_inv [OF st1(2) this x(2), of "rl_point st1 < rl_mark st1"] obtain st2 where
      "copy_to_kill_ring x (rl_point st1 < rl_mark st1) st1 = Inr st2" "line_inv base (command_was_kill st2)"
      "rl_end (command_was_kill st2) = rl_end st1" "rl_mark (command_was_kill st2) = rl_mark st1" by blast
    then show ?thesis
      using False x(1) d ab st1(4) same_rest_fields(3) [OF st1(3)] assms(3) by (simp add: region_kill_internal_def)
  qed
  then obtain r st1 where st1: "region_kill_internal True st = Inr (r, st1)" "line_inv base st1" "n \<le> rl_end st1" "0 \<le> rl_mark st1" by blast
  have "0 \<le> n" using pos assms(3) by (simp add: n_def)
  have e: "0 \<le> rl_end st1" using inv_line [OF st1(2)] by (simp add: line_is_def)
  have "(rl_fix_point True st1)\<lparr>rl_point := n\<rparr> = st1\<lparr>rl_point := n, rl_mark := fix_pos st1 (rl_mark st1)\<rparr>"
    by (simp add: rl_fix_point_def fix_pos_def)
  moreover have "-1 \<le> fix_pos st1 (rl_mark st1)" using e st1(4) by (simp add: fix_pos_def)
  ultimately have "ready base ((rl_fix_point True st1)\<lparr>rl_point := n\<rparr>)"
    using marked_ready [OF st1(2) \<open>0 \<le> n\<close> st1(3)] by simp
  then show ?thesis using st1(1) by (simp add: rl_kill_region_def Let_def n_def [symmetric] keepsI)
qed

lemma copy_word_keeps:
  assumes "ready base st" and "small_count count st" and "kill_room st"
  shows "keeps base (copy_word_as_kill count forwards st)"
proof -
  have pos: "0 \<le> rl_point st" "rl_point st \<le> rl_end st" "-1 \<le> rl_mark st"
    using ready_line(2,3) [OF assms(1)] by (simp_all add: at_point_def line_inv_def rest_ok_def)
  have go: "\<exists>st2. (if f then rl_forward_word count st1 else rl_backward_word count st1) = Inr st2 \<and> ready base st2 \<and>
      point_moved st1 st2" if "ready base st1" "small_count count st1" for f st1
    using forward_word_ready [OF that] backward_word_ready [OF that] by (cases f) auto
  from go [OF assms(1,2), of forwards] obtain st1 where
    st1: "(if forwards then rl_forward_word count st else rl_backward_word count st) = Inr st1" "ready base st1" "point_moved st st1"
    by blast
  note m1 = moved_facts [OF st1(3)]
  let ?st1 = "st1\<lparr>rl_mark := rl_point st1\<rparr>"
  have p1: "0 \<le> rl_point st1" using ready_line(2) [OF st1(2)] by (simp add: at_point_def)
  have r1: "ready base ?st1" "small_count count ?st1"
    using mark_ready [OF st1(2)] p1 moved_small [OF st1(3)] assms(2) by (simp_all add: small_count_def)
  have "(if forwards then rl_backward_word count s else rl_forward_word count s) =
      (if \<not> forwards then rl_forward_word count s else rl_backward_word count s)" for s by simp
  with go [OF r1, of "\<not> forwards"] obtain st2 where
    st2: "(if forwards then rl_backward_word count ?st1 else rl_forward_word count ?st1) = Inr st2" "ready base st2"
    "point_moved ?st1 st2" by metis
  note m2 = moved_facts [OF st2(3)]
  have "kill_room st2" "0 \<le> rl_mark st2"
    using assms(3) same_rest_fields(2) [OF m1(5)] same_rest_fields(2) [OF m2(5)] m2(4) p1 by simp_all
  from region_copy_run [OF st2(2) this] obtain st3 where st3: "region_kill_internal False st2 = Inr (0, st3)" "ready base st3"
    "rl_end st3 = rl_end st2" by blast
  have "ready base (st3\<lparr>rl_point := rl_point st, rl_mark := rl_mark st\<rparr>)"
    using marked_ready [OF ready_line(3) [OF st3(2)] pos(1) _ pos(3)] pos(2) st3(3) m1(2) m2(2) by simp
  moreover have "st3\<lparr>rl_mark := rl_mark st, rl_point := rl_point st\<rparr> = st3\<lparr>rl_point := rl_point st, rl_mark := rl_mark st\<rparr>" by simp
  ultimately have "ready base (st3\<lparr>rl_mark := rl_mark st, rl_point := rl_point st\<rparr>)" by (simp only:)
  then show ?thesis using st1(1) st2(1) st3(1) by (simp add: copy_word_as_kill_def Let_def keepsI)
qed

lemma copy_words_keeps:
  assumes "ready base st" and "small_count count st" and "kill_room st"
  shows "keeps base (rl_copy_forward_word count st)" "keeps base (rl_copy_backward_word count st)"
  using negated_small [OF assms(2) ready_line(4) [OF assms(1)]] copy_word_keeps [OF assms]
    copy_word_keeps [OF assms(1), of "- count"] small_minus [of count st] assms
  by (auto simp: rl_copy_forward_word_def rl_copy_backward_word_def)

section \<open>Yanking\<close>

lemma abort_ready: "ready base st \<Longrightarrow> ready base (snd (rl_abort_internal st))"
proof -
  assume "ready base st"
  then have "ready base (rl_ding st)" by (rule ding_ready)
  then show ?thesis unfolding rl_abort_internal_def by (subst ready_cong(3) [of _ "rl_ding st"]) simp_all
qed

text \<open>What a command that may jump keeps.\<close>

definition keeps_out :: "edit_base \<Rightarrow> (outcome \<times> rl_state) run \<Rightarrow> bool" where
  "keeps_out base m \<longleftrightarrow> (\<exists>r st'. m = Inr (r, st') \<and> ready base st')"

lemma keeps_outI: "ready base st' \<Longrightarrow> keeps_out base (Inr (r, st'))"
  by (simp add: keeps_out_def)

lemma returned_keeps: "keeps base m \<Longrightarrow> keeps_out base (returned m)"
  by (auto simp: keeps_def keeps_out_def returned_def)

lemma ring_current:
  assumes "ring_ok st" and "rl_kill_ring st \<noteq> None"
  shows "\<exists>s. ring_get (rl_kill_index st) st = Inr (Some s) \<and> NUL \<notin> set s"
proof -
  obtain b where b: "rl_kill_ring st = Some b" using assms(2) by auto
  then have i: "0 \<le> rl_kill_index st" "rl_kill_index st < rl_kill_ring_length st" "rl_kill_ring_length st \<le> int (length b)"
    and all: "\<forall>i < nat (rl_kill_ring_length st). \<exists>s. b ! i = Some s \<and> NUL \<notin> set s" using assms(1) by (simp_all add: ring_ok_def)
  have "nat (rl_kill_index st) < nat (rl_kill_ring_length st)" using i by simp
  with all obtain s where "b ! nat (rl_kill_index st) = Some s" "NUL \<notin> set s" by blast
  then show ?thesis using b i by (simp add: ring_get_def)
qed

lemma yank_keeps:
  assumes "ready base st"
  shows "keeps_out base (rl_yank st)"
proof (cases "rl_kill_ring st = None")
  case True
  then show ?thesis using abort_ready [OF assms] by (simp add: rl_yank_def keeps_out_def) (metis prod.collapse)
next
  case False
  let ?st = "snd (rl_set_mark_at_pos (rl_point st) st)"
  have r: "ready base ?st" using set_mark_pos_ready [OF assms] ready_line(2) [OF assms] by (simp add: at_point_def)
  have f: "rl_kill_ring ?st = rl_kill_ring st" "rl_kill_index ?st = rl_kill_index st" by (simp_all add: rl_set_mark_at_pos_def)
  have "ring_ok ?st" using ready_line(3) [OF r] by (simp add: line_inv_def rest_ok_def)
  from ring_current [OF this] False f obtain s where s: "ring_get (rl_kill_index st) ?st = Inr (Some s)" "NUL \<notin> set s" by auto
  from insert_ready [OF r s(2)] obtain r' st' where "rl_insert_text (Some s) ?st = Inr (r', st')" "ready base st'" by blast
  moreover obtain b where "rl_kill_ring st = Some b" using False by auto
  ultimately show ?thesis using f(2) s(1) by (simp add: rl_yank_def Let_def keeps_outI)
qed

lemma kill_index_inv:
  assumes "line_inv base st" and "0 \<le> i" and "i < rl_kill_ring_length st"
  shows "line_inv base (st\<lparr>rl_kill_index := i\<rparr>)"
proof -
  have "lined base (st\<lparr>rl_kill_index := i\<rparr>) = lined base st" by (rule lined_cong(1)) simp_all
  moreover have "ring_ok st \<Longrightarrow> ring_ok (st\<lparr>rl_kill_index := i\<rparr>)"
    using assms(2,3) by (auto simp: ring_ok_def split: option.splits)
  ultimately show ?thesis using assms(1) by (simp add: line_inv_def rest_ok_def)
qed

lemma yank_pop_keeps:
  assumes "ready base st"
  shows "keeps_out base (rl_yank_pop st)"
proof (cases "rl_last_func st \<noteq> rl_yank_pop_func \<and> rl_last_func st \<noteq> rl_yank_func \<or> rl_kill_ring st = None")
  case True
  then show ?thesis using abort_ready [OF assms] by (simp add: rl_yank_pop_def keeps_out_def) (metis prod.collapse)
next
  case False
  have rok: "ring_ok st" using ready_line(3) [OF assms] by (simp add: line_inv_def rest_ok_def)
  from ring_current [OF this] False obtain s where s: "ring_get (rl_kill_index st) st = Inr (Some s)" "NUL \<notin> set s" by auto
  define n where "n = rl_point st - int (length s)"
  have pos: "0 \<le> rl_point st" "rl_point st \<le> rl_end st" using ready_line(2) [OF assms] by (simp_all add: at_point_def)
  have same: "\<exists>same. (if n \<ge> 0 then strneq_buffer s n st else Inr False) = Inr same \<and> (same \<longrightarrow> n \<ge> 0)"
  proof (cases "n \<ge> 0")
    case True
    then have i: "n = int (nat n)" "nat n \<le> length (line_text st)"
      using pos at_point_nat [OF ready_line(1,2) [OF assms]] by (simp_all add: n_def)
    then show ?thesis using True strneq_buffer_run [OF ready_line(1) [OF assms] _ i(2) s(2)] s(2) by auto
  qed (auto intro: exI [of _ False])
  then obtain b where b: "(if n \<ge> 0 then strneq_buffer s n st else Inr False) = Inr b" "b \<longrightarrow> n \<ge> 0" by blast
  show ?thesis
  proof (cases b)
    case no: False
    have "rl_yank_pop st = Inr (rl_abort_internal st)" using False s(1) b(1) [unfolded n_def] no by (simp add: rl_yank_pop_def Let_def)
    then show ?thesis using abort_ready [OF assms] by (simp add: keeps_out_def) (metis prod.collapse)
  next
    case True
    then have n0: "0 \<le> n" "n \<le> rl_point st" using b(2) by (simp_all add: n_def)
    from delete_inv [OF ready_line(3) [OF assms], of n "rl_point st"] n0 pos obtain r1 st1 where
      st1: "rl_delete_text n (rl_point st) st = Inr (r1, st1)" "line_inv base st1" "same_rest st st1"
      "rl_end st1 = rl_end st - (rl_point st - n)" by auto
    define index where "index = (if rl_kill_index st1 - 1 < 0 then rl_kill_ring_length st1 - 1 else rl_kill_index st1 - 1)"
    have "ring_ok st1" "rl_kill_ring st1 \<noteq> None"
      using st1(2) same_rest_fields(4) [OF st1(3)] False by (simp_all add: line_inv_def rest_ok_def)
    then have "0 \<le> index" "index < rl_kill_ring_length st1" by (auto simp: ring_ok_def index_def)
    with kill_index_inv [of base "st1\<lparr>rl_point := n\<rparr>" index] st1(2) have
      "line_inv base (st1\<lparr>rl_point := n, rl_kill_index := index\<rparr>)" by simp
    then have "ready base (st1\<lparr>rl_point := n, rl_kill_index := index\<rparr>)"
      using n0 pos st1(4) by (simp add: ready_def at_point_def)
    from yank_keeps [OF this] obtain r2 st2 where
      st2: "rl_yank (st1\<lparr>rl_point := n, rl_kill_index := index\<rparr>) = Inr (r2, st2)" "ready base st2" by (auto simp: keeps_out_def)
    have go_on: "(rl_last_func st \<noteq> rl_yank_pop_func \<and> rl_last_func st \<noteq> rl_yank_func \<or> rl_kill_ring st = None) = False"
      using False by blast
    have "\<exists>r. rl_yank_pop st = Inr (r, st2)"
      using s(1) b(1) [unfolded n_def] True st1(1) [unfolded n_def] st2(1) [unfolded n_def index_def]
      by (simp add: rl_yank_pop_def Let_def go_on)
    then show ?thesis using st2(2) by (auto simp: keeps_out_def)
  qed
qed

section \<open>Sessions\<close>

lemma do_undo_ready:
  assumes "ready base st"
  shows "\<exists>r st'. rl_do_undo st = Inr (r, st') \<and> ready base st'"
proof -
  from do_undo_run [of base st] ready_line(3) [OF assms] obtain r st' where "rl_do_undo st = Inr (r, st')" "lined base st'"
    "same_rest st st'" "0 \<le> rl_point st \<and> rl_point st \<le> rl_end st \<longrightarrow> 0 \<le> rl_point st' \<and> rl_point st' \<le> rl_end st'"
    unfolding line_inv_def by blast
  then show ?thesis
    using inv_same [OF ready_line(3) [OF assms]] ready_line(2) [OF assms] by (simp add: ready_def at_point_def)
qed

lemma undo_command_keeps:
  assumes "ready base st"
  shows "keeps base (rl_undo_command count st)"
proof -
  have "ready base s \<Longrightarrow> \<exists>st'. undo_command_loop n s = Inr st' \<and> ready base st'" for n s
  proof (induction n arbitrary: s)
    case (Suc n)
    from do_undo_ready [OF Suc.prems] obtain r s1 where s1: "rl_do_undo s = Inr (r, s1)" "ready base s1" by blast
    then show ?case using Suc.IH [OF s1(2)] ding_ready [OF s1(2)] by auto
  qed simp
  from this [OF assms, of "nat count"] show ?thesis using assms by (auto simp: rl_undo_command_def keepsI)
qed

lemma revert_ready:
  assumes "ready base st"
  shows "\<exists>st'. rl_revert_line st = Inr (0, st') \<and> ready base st' \<and> line_text st' = fst base \<and> rl_undo_list st' = 0 \<and>
    same_rest st st' \<and> undone st st'"
proof -
  from revert_run [OF ready_editing [OF assms]] obtain st' where st': "rl_revert_line st = Inr (0, st')" "editing base st'"
    "line_text st' = fst base" "same_rest st st'" "rl_undo_list st' = 0" "undone st st'" by blast
  then have "line_inv base st'" using inv_same [OF ready_line(3) [OF assms]] by (simp add: editing_def)
  then show ?thesis using st' by (simp add: ready_def at_point_def editing_def)
qed

text \<open>
  The conditions under which a command is safe. The count is small, which the reading of the numeric argument sees to;
  what is killed finds a slot in the ring; the mark the region is bounded by is set. The three commands excluded are
  treated apart.
\<close>

definition safe_command :: "command \<Rightarrow> bool \<Rightarrow> int \<Rightarrow> rl_state \<Rightarrow> bool" where
  "safe_command cmd explicit count st \<longleftrightarrow>
     small_count count st \<and> small_count 1 st \<and> typein_fits st \<and>
     (case cmd of
        Insert c \<Rightarrow> rl_overwriting st \<longrightarrow> rl_typein st = [] \<and> (explicit \<longrightarrow> kill_room st)
      | Rubout \<Rightarrow> kill_room st \<or> count \<in> {0, 1} \<and> \<not> explicit
      | Delete \<Rightarrow> kill_room st \<or> count \<in> {0, 1} \<and> \<not> explicit
      | Rubout_Or_Delete \<Rightarrow> kill_room st \<or> count \<in> {0, 1} \<and> \<not> explicit
      | Set_Mark \<Rightarrow> explicit \<longrightarrow> -1 \<le> count
      | Kill_Word \<Rightarrow> kill_room st
      | Backward_Kill_Word \<Rightarrow> kill_room st
      | Kill_Line \<Rightarrow> kill_room st
      | Backward_Kill_Line \<Rightarrow> kill_room st
      | Kill_Full_Line \<Rightarrow> kill_room st
      | Unix_Word_Rubout \<Rightarrow> kill_room st
      | Unix_Line_Discard \<Rightarrow> kill_room st
      | Copy_Region_To_Kill \<Rightarrow> kill_room st \<and> 0 \<le> rl_mark st
      | Kill_Region \<Rightarrow> kill_room st \<and> 0 \<le> rl_mark st
      | Copy_Forward_Word \<Rightarrow> kill_room st
      | Copy_Backward_Word \<Rightarrow> kill_room st
      | Unix_Filename_Rubout \<Rightarrow> False
      | Yank_Nth_Arg \<Rightarrow> False
      | Yank_Last_Arg \<Rightarrow> False
      | _ \<Rightarrow> True)"

lemma word_keeps:
  assumes "ready base st" and "small_count count st"
  shows "keeps_out base (bind_run (rl_forward_word count st) (\<lambda>st. Inr (Returned 0, st)))"
    "keeps_out base (bind_run (rl_backward_word count st) (\<lambda>st. Inr (Returned 0, st)))"
  using forward_word_ready [OF assms] backward_word_ready [OF assms] by (auto intro: keeps_outI)

lemma transpose_words_keeps:
  "ready base st \<Longrightarrow> small_count count st \<Longrightarrow> small_count 1 st \<Longrightarrow> keeps base (rl_transpose_words count st)"
  using transpose_words_run unfolding keeps_def by blast

lemma call_command_keeps:
  assumes "ready base st" and "safe_command cmd (rl_explicit_arg st) count st"
  shows "keeps_out base (call_command cmd count st)"
proof -
  note r = assms(1)
  have s: "small_count count st" "small_count 1 st" and fits: "typein_fits st" using assms(2) by (simp_all add: safe_command_def)
  note moves = forward_byte_keeps [OF r s(1)] backward_byte_keeps [OF r s(1)] word_keeps [OF r s(1)]
    char_search_keeps [OF r] point_ready [OF r]
  note edits = insert_key_keeps [OF r s(1) fits] quoted_insert_keeps [OF r fits] tab_insert_keeps [OF r fits] newline_ready [OF r]
    rubout_keeps [OF r s] delete_keeps [OF r s(1)] rubout_or_delete_keeps [OF r s(1)] delete_space_keeps [OF r]
    insert_comment_keeps [OF r] change_case_keeps [OF r s(1)] transpose_words_keeps [OF r s] transpose_chars_keeps [OF r]
  note kills = kill_word_keeps [OF r s(1)] kill_line_keeps [OF r] word_rubout_keeps [OF r] copy_region_keeps [OF r]
    kill_region_keeps [OF r] copy_words_keeps [OF r s(1)] yank_keeps [OF r] yank_pop_keeps [OF r] undo_command_keeps [OF r]
  have revert: "keeps base (rl_revert_line st)" using revert_ready [OF r] by (auto simp: keeps_def)
  have mark: "keeps base (Inr (rl_set_mark count st))" if "rl_explicit_arg st \<longrightarrow> -1 \<le> count"
    using set_mark_ready [OF r that] by (metis keepsI prod.collapse)
  have xchg: "keeps base (Inr (rl_exchange_point_and_mark st))" using exchange_ready [OF r] by (metis keepsI prod.collapse)
  have beg: "keeps_out base (Inr (Returned 0, rl_beg_of_line st))" "keeps_out base (Inr (Returned 0, rl_end_of_line st))"
    using moves(7) ready_line(4) [OF r] by (auto simp: rl_beg_of_line_def rl_end_of_line_def intro!: keeps_outI)
  show ?thesis
    using assms(2) moves edits kills revert mark xchg beg
    by (cases cmd) (simp_all add: call_command_def safe_command_def returned_keeps keeps_outI rl_forward_char_def rl_backward_char_def
      rl_upcase_word_def rl_downcase_word_def rl_capitalize_word_def)
qed

lemma run_command_ready:
  assumes "ready base st" and "safe_command cmd explicit count st"
  shows "\<exists>st'. run_command cmd explicit count st = Inr st' \<and> ready base st'"
proof -
  let ?st = "st\<lparr>rl_explicit_arg := explicit\<rparr>"
  have r: "ready base ?st" using assms(1) by (subst ready_cong(3) [of _ st]) simp_all
  have "safe_command cmd (rl_explicit_arg ?st) count ?st"
    using assms(2) by (simp add: safe_command_def small_count_def typein_fits_def split: command.splits)
  from call_command_keeps [OF r this] obtain out st1 where st1: "call_command cmd count ?st = Inr (out, st1)" "ready base st1"
    by (auto simp: keeps_out_def)
  have "ready base (st1\<lparr>rl_last_func := f\<rparr>)" for f using st1(2) by (subst ready_cong(3) [of _ st1]) simp_all
  moreover have "ready base (st1\<lparr>rl_last_func := f, rl_last_command_was_kill := 0\<rparr>)" for f
  proof -
    have "lined base (st1\<lparr>rl_last_func := f, rl_last_command_was_kill := 0\<rparr>) = lined base st1" by (rule lined_cong(1)) simp_all
    moreover have "ring_ok (st1\<lparr>rl_last_func := f, rl_last_command_was_kill := 0\<rparr>) = ring_ok st1" by (rule ring_ok_cong) simp_all
    ultimately show ?thesis using st1(2) by (simp add: ready_def line_inv_def rest_ok_def at_point_def)
  qed
  ultimately show ?thesis using st1 by (cases out) (auto simp: run_command_def charloop_pass_def Let_def)
qed

text \<open>Every command of the session is safe where it is run.\<close>

fun safe_session :: "(command \<times> bool \<times> int) list \<Rightarrow> rl_state \<Rightarrow> bool" where
  "safe_session [] st = True"
| "safe_session ((cmd, explicit, count) # cs) st =
     (rl_done st \<or> safe_command cmd explicit count st \<and>
      (case run_command cmd explicit count st of Inl _ \<Rightarrow> True | Inr st' \<Rightarrow> safe_session cs st'))"

lemma run_commands_ready:
  "ready base st \<Longrightarrow> safe_session cs st \<Longrightarrow> \<exists>st'. run_commands cs st = Inr st' \<and> ready base st'"
proof (induction cs arbitrary: st)
  case (Cons c cs)
  obtain cmd explicit count where c: "c = (cmd, explicit, count)" by (cases c)
  show ?case
  proof (cases "rl_done st")
    case True
    then show ?thesis using c Cons.prems(1) by simp
  next
    case False
    then have s: "safe_command cmd explicit count st" using Cons.prems(2) c by simp
    from run_command_ready [OF Cons.prems(1) this] obtain st1 where
      st1: "run_command cmd explicit count st = Inr st1" "ready base st1" by blast
    then have "safe_session cs st1" using Cons.prems(2) c False by simp
    from Cons.IH [OF st1(2) this] show ?thesis using False c st1(1) by simp
  qed
qed simp

end
