(* ===== verification/Rl_Readline.thy ===== *)
theory Rl_Readline
  imports Rl_Kill
begin

text \<open>
  The history commands of \<open>readline-6.2/misc.c\<close>, which exchange the edited line for one of the history, and what
  \<open>readline.c\<close> does before and after the loop that reads keys. An undo list belongs to a line: while the line is in the
  history, its entry's data points to it. \<open>_rl_set_the_line\<close> and the display are left out.
\<close>

section \<open>The line before the history\<close>

text \<open>\<open>savestring (rl_line_buffer)\<close>.\<close>

definition buffer_string :: "rl_state \<Rightarrow> string run" where
  "buffer_string st = block_string (Some (rl_line_buffer st))"

text \<open>\<open>_rl_free_history_entry\<close>.\<close>

definition free_entry :: "nat \<Rightarrow> rl_state \<Rightarrow> rl_state run" where
  "free_entry a st = bind_run (free_history_entry a (rl_history st)) (\<lambda>(_, h). Inr (st\<lparr>rl_history := h\<rparr>))"

definition free_saved_history_line :: "rl_state \<Rightarrow> rl_state run" where
  "free_saved_history_line st =
     bind_run (if rl_saved_line st \<noteq> 0 then free_entry (rl_saved_line st) st else Inr st) (\<lambda>st.
     Inr (st\<lparr>rl_saved_line := 0\<rparr>))"

definition rl_start_using_history :: "rl_state \<Rightarrow> rl_state run" where
  "rl_start_using_history st = free_saved_history_line (st\<lparr>rl_history := using_history (rl_history st)\<rparr>)"

definition rl_maybe_replace_line :: "rl_state \<Rightarrow> rl_state run" where
  "rl_maybe_replace_line st =
     bind_run (current_history (rl_history st)) (\<lambda>temp.
     if temp = 0 then Inr st
     else
     bind_run (entry temp (rl_history st)) (\<lambda>e.
     if he_data e = rl_undo_list st then Inr st
     else
     bind_run (buffer_string st) (\<lambda>line.
     bind_run (replace_history_entry (where_history (rl_history st)) (Some line) (rl_undo_list st) (rl_history st))
       (\<lambda>(temp, h).
     bind_run (entry temp h) (\<lambda>_.
     free_entry temp (st\<lparr>rl_history := h\<rparr>))))))"

definition rl_maybe_unsave_line :: "rl_state \<Rightarrow> rl_state run" where
  "rl_maybe_unsave_line st =
     (if rl_saved_line st = 0 then Inr (rl_ding st)
      else
      bind_run (entry (rl_saved_line st) (rl_history st)) (\<lambda>e.
      bind_run (c_line (he_line e)) (\<lambda>line.
      bind_run (rl_replace_line line False st) (\<lambda>st.
      bind_run (free_saved_history_line (st\<lparr>rl_undo_list := he_data e\<rparr>)) (\<lambda>st.
      Inr (st\<lparr>rl_point := rl_end st\<rparr>))))))"

definition rl_maybe_save_line :: "rl_state \<Rightarrow> rl_state run" where
  "rl_maybe_save_line st =
     (if rl_saved_line st \<noteq> 0 then Inr st
      else
      bind_run (buffer_string st) (\<lambda>line.
      case alloc_history_entry (Some line) None (rl_history st) of (a, h) \<Rightarrow>
      Inr (st\<lparr>rl_saved_line := a,
        rl_history := set_entry a \<lparr>he_line = Some line, he_time = None, he_data = rl_undo_list st\<rparr> h\<rparr>)))"

section \<open>Moving through the history\<close>

definition rl_history_set_point :: "rl_state \<Rightarrow> rl_state" where
  "rl_history_set_point st =
     (let p = (if rl_preserve_point st \<and> rl_saved_point st \<noteq> -1 then rl_saved_point st else rl_end st);
          p = (if p > rl_end st then rl_end st else p) in
      st\<lparr>rl_point := p, rl_mark := (if p = rl_end st then 0 else rl_end st)\<rparr>)"

definition rl_replace_from_history :: "nat \<Rightarrow> rl_state \<Rightarrow> rl_state run" where
  "rl_replace_from_history a st =
     bind_run (entry a (rl_history st)) (\<lambda>e.
     bind_run (c_line (he_line e)) (\<lambda>line.
     bind_run (rl_replace_line line False st) (\<lambda>st.
     Inr (st\<lparr>rl_undo_list := he_data e, rl_point := rl_end st, rl_mark := 0\<rparr>))))"

text \<open>The point is saved once a line has been left.\<close>

definition save_history_point :: "rl_state \<Rightarrow> rl_state" where
  "save_history_point st =
     (if rl_saved_point st = -1 \<and> (rl_point st \<noteq> 0 \<or> rl_end st \<noteq> 0)
      then st\<lparr>rl_saved_point := (if rl_point st = rl_end st then -1 else rl_point st)\<rparr> else st)"

text \<open>The loops over \<open>previous_history\<close> and \<open>next_history\<close>, with \<open>old_temp\<close> and \<open>temp\<close>.\<close>

fun previous_entries :: "nat \<Rightarrow> nat \<Rightarrow> nat \<Rightarrow> hist_state \<Rightarrow> (nat \<times> nat \<times> hist_state) run" where
  "previous_entries 0 temp old h = Inr (temp, old, h)"
| "previous_entries (Suc n) temp old h =
     bind_run (previous_history h) (\<lambda>(temp, h).
     if temp = 0 then Inr (0, old, h) else previous_entries n temp temp h)"

fun next_entries :: "nat \<Rightarrow> nat \<Rightarrow> hist_state \<Rightarrow> (nat \<times> hist_state) run" where
  "next_entries 0 temp h = Inr (temp, h)"
| "next_entries (Suc n) temp h =
     bind_run (next_history h) (\<lambda>(temp, h).
     if temp = 0 then Inr (0, h) else next_entries n temp h)"

definition next_lines :: "int \<Rightarrow> rl_state \<Rightarrow> (int \<times> rl_state) run" where
  "next_lines count st =
     (if count = 0 then Inr (0, st)
      else
      bind_run (rl_maybe_replace_line st) (\<lambda>st.
      let st = save_history_point st in
      bind_run (next_entries (nat count) 0 (rl_history st)) (\<lambda>(temp, h).
      let st = st\<lparr>rl_history := h\<rparr> in
      bind_run (if temp = 0 then rl_maybe_unsave_line st
                else bind_run (rl_replace_from_history temp st) (\<lambda>st. Inr (rl_history_set_point st))) (\<lambda>st.
      Inr (0, st)))))"

definition previous_lines :: "int \<Rightarrow> rl_state \<Rightarrow> (int \<times> rl_state) run" where
  "previous_lines count st =
     (if count = 0 then Inr (0, st)
      else
      bind_run (rl_maybe_save_line (save_history_point st)) (\<lambda>st.
      bind_run (rl_maybe_replace_line st) (\<lambda>st.
      bind_run (previous_entries (nat count) 0 0 (rl_history st)) (\<lambda>(temp, old_temp, h).
      let st = st\<lparr>rl_history := h\<rparr>; temp = (if temp = 0 \<and> old_temp \<noteq> 0 then old_temp else temp) in
      bind_run (if temp = 0 then Inr (rl_ding st)
                else bind_run (rl_replace_from_history temp st) (\<lambda>st. Inr (rl_history_set_point st))) (\<lambda>st.
      Inr (0, st))))))"

definition rl_get_next_history :: "int \<Rightarrow> rl_state \<Rightarrow> (int \<times> rl_state) run" where
  "rl_get_next_history count st =
     (if count < 0 then bind_run (negated count) (\<lambda>count. previous_lines count st) else next_lines count st)"

definition rl_get_previous_history :: "int \<Rightarrow> rl_state \<Rightarrow> (int \<times> rl_state) run" where
  "rl_get_previous_history count st =
     (if count < 0 then bind_run (negated count) (\<lambda>count. next_lines count st) else previous_lines count st)"

definition rl_beginning_of_history :: "rl_state \<Rightarrow> (int \<times> rl_state) run" where
  "rl_beginning_of_history st = rl_get_previous_history (wrap32 (1 + where_history (rl_history st))) st"

definition rl_end_of_history :: "rl_state \<Rightarrow> (int \<times> rl_state) run" where
  "rl_end_of_history st =
     bind_run (rl_maybe_replace_line st) (\<lambda>st.
     bind_run (rl_maybe_unsave_line (st\<lparr>rl_history := using_history (rl_history st)\<rparr>)) (\<lambda>st.
     Inr (0, st)))"

text \<open>The loop of \<open>_rl_revert_all_lines\<close>: \<open>a\<close> is the entry, \<open>saved\<close> the undo list to be restored.\<close>

fun revert_entries :: "nat \<Rightarrow> nat \<Rightarrow> nat \<Rightarrow> rl_state \<Rightarrow> (nat \<times> rl_state) run" where
  "revert_entries 0 a saved st = (if a = 0 then Inr (saved, st) else Inl No_Return)"
| "revert_entries (Suc n) a saved st =
     (if a = 0 then Inr (saved, st)
      else
      bind_run (entry a (rl_history st)) (\<lambda>e.
      bind_run
        (if he_data e = 0 then Inr (saved, st)
         else
         bind_run (rl_replace_from_history a st) (\<lambda>st.
         bind_run (revert_loop (rl_fresh st) st) (\<lambda>st.
         bind_run (entry a (rl_history st)) (\<lambda>e'.
         bind_run (buffer_string st) (\<lambda>line.
         Inr (if he_data e = saved then 0 else saved,
              st\<lparr>rl_history := set_entry a (e'\<lparr>he_line := Some line, he_data := 0\<rparr>) (rl_history st)\<rparr>)))))) (\<lambda>(saved, st).
      bind_run (previous_history (rl_history st)) (\<lambda>(a, h).
      revert_entries n a saved (st\<lparr>rl_history := h\<rparr>)))))"

definition rl_revert_all_lines :: "rl_state \<Rightarrow> rl_state run" where
  "rl_revert_all_lines st =
     bind_run (buffer_string st) (\<lambda>lbuf.
     let hpos = where_history (rl_history st) in
     bind_run (if hpos = history_length (rl_history st) then previous_history (rl_history st)
               else bind_run (current_history (rl_history st)) (\<lambda>a. Inr (a, rl_history st))) (\<lambda>(a, h).
     bind_run (revert_entries (Suc (nat hpos)) a (rl_undo_list st) (st\<lparr>rl_history := h\<rparr>)) (\<lambda>(saved, st).
     let st = st\<lparr>rl_undo_list := saved, rl_history := snd (history_set_pos hpos (rl_history st))\<rparr> in
     rl_replace_line lbuf False st)))"

definition rl_overwrite_mode :: "int \<Rightarrow> rl_state \<Rightarrow> rl_state" where
  "rl_overwrite_mode count st =
     st\<lparr>rl_overwriting := (if \<not> rl_explicit_arg st then \<not> rl_overwriting st else count > 0)\<rparr>"

section \<open>Reading a line\<close>

text \<open>
  The initial values of the variables. An empty block stands for the null pointer \<open>rl_line_buffer\<close> is at first;
  \<open>emacs_standard_keymap\<close> lets every printing character insert itself.
\<close>

definition emacs_self_insert :: "char \<Rightarrow> bool" where
  "emacs_self_insert c \<longleftrightarrow> 32 \<le> (of_char c :: nat) \<and> (of_char c :: nat) \<noteq> 127"

definition rl_static :: "char \<Rightarrow> hist_state \<Rightarrow> rl_state" where
  "rl_static filler h =
     \<lparr>rl_line_buffer = [], rl_line_buffer_len = 0, rl_point = 0, rl_end = 0, rl_mark = 0,
      rl_undos = Map.empty, rl_fresh = 1, rl_undo_list = 0, rl_doing_an_undo = False, rl_undo_group_level = 0,
      rl_dings = 0, rl_history = h, rl_junk = filler, rl_explicit_arg = False, rl_overwriting = False, rl_typein = [],
      rl_inserts_itself = emacs_self_insert, rl_output_meta_chars = False, rl_pathname_alphabetic = False,
      rl_comment_begin = None, rl_done = False, rl_preserve_point = False, rl_saved_point = -1, rl_kill_ring = None,
      rl_kill_index = 0, rl_kill_ring_length = 0, rl_last_command_was_kill = 0, rl_last_func = No_Func,
      rl_word_delimiters = HISTORY_WORD_DELIMITERS, rl_comment_char = NUL, yank_history_skip = 0,
      yank_explicit_arg = False, yank_count_passed = 1, yank_direction = 1, yank_undo_needed = False,
      rl_saved_line = 0, rl_revert_all_at_newline = False\<rparr>"

definition init_line_state :: "rl_state \<Rightarrow> rl_state run" where
  "init_line_state st = buf_put 0 [NUL] (st\<lparr>rl_point := 0, rl_end := 0, rl_mark := 0\<rparr>)"

definition rl_initialize :: "rl_state \<Rightarrow> rl_state run" where
  "rl_initialize st =
     (let st = (if rl_line_buffer st = []
                then st\<lparr>rl_line_buffer := replicate DEFAULT_BUFFER_SIZE (rl_junk st),
                       rl_line_buffer_len := int DEFAULT_BUFFER_SIZE\<rparr>
                else st) in
      bind_run (init_line_state st) (\<lambda>st.
      bind_run (rl_start_using_history (st\<lparr>rl_done := False\<rparr>)) (\<lambda>st.
      Inr (st\<lparr>rl_last_func := No_Func, rl_overwriting := False\<rparr>))))"

text \<open>The line is given back unless the input ended.\<close>

definition readline_internal_teardown :: "bool \<Rightarrow> rl_state \<Rightarrow> (string option \<times> rl_state) run" where
  "readline_internal_teardown eof st =
     bind_run (current_history (rl_history st)) (\<lambda>a.
     bind_run
       (if a \<noteq> 0 \<and> rl_undo_list st \<noteq> 0 then
          bind_run (buffer_string st) (\<lambda>temp.
          bind_run (rl_revert_line st) (\<lambda>(_, st).
          bind_run (buffer_string st) (\<lambda>line.
          bind_run (replace_history_entry (where_history (rl_history st)) (Some line) 0 (rl_history st)) (\<lambda>(a, h).
          bind_run (free_entry a (st\<lparr>rl_history := h\<rparr>)) (\<lambda>st.
          buf_put 0 (temp @ [NUL]) st)))))
        else Inr st) (\<lambda>st.
     bind_run (if rl_revert_all_at_newline st then rl_revert_all_lines st else Inr st) (\<lambda>st.
     bind_run (if rl_undo_list st \<noteq> 0 then rl_free_undo_list st else Inr st) (\<lambda>st.
     let st = st\<lparr>rl_overwriting := False\<rparr> in
     if eof then Inr (None, st) else bind_run (buffer_string st) (\<lambda>line. Inr (Some line, st))))))"

text \<open>The commands together with those of the history; what is typed ends with the input.\<close>

datatype action =
    Command command | Previous_History | Next_History | Beginning_Of_History | End_Of_History | Overwrite_Mode

definition call_action :: "action \<Rightarrow> int \<Rightarrow> rl_state \<Rightarrow> (outcome \<times> rl_state) run" where
  "call_action act count st =
     (case act of
        Command cmd \<Rightarrow> call_command cmd count st
      | Previous_History \<Rightarrow> returned (rl_get_previous_history count st)
      | Next_History \<Rightarrow> returned (rl_get_next_history count st)
      | Beginning_Of_History \<Rightarrow> returned (rl_beginning_of_history st)
      | End_Of_History \<Rightarrow> returned (rl_end_of_history st)
      | Overwrite_Mode \<Rightarrow> Inr (Returned 0, rl_overwrite_mode count st))"

definition run_action :: "action \<Rightarrow> bool \<Rightarrow> int \<Rightarrow> rl_state \<Rightarrow> rl_state run" where
  "run_action act explicit count st =
     charloop_pass (call_action act count) (case act of Command cmd \<Rightarrow> func_of cmd | _ \<Rightarrow> Other_Func) explicit st"

fun run_actions :: "(action \<times> bool \<times> int) list \<Rightarrow> rl_state \<Rightarrow> rl_state run" where
  "run_actions [] st = Inr st"
| "run_actions ((act, explicit, count) # acts) st =
     (if rl_done st then Inr st else bind_run (run_action act explicit count st) (run_actions acts))"

definition readline_internal :: "(action \<times> bool \<times> int) list \<Rightarrow> rl_state \<Rightarrow> (string option \<times> rl_state) run" where
  "readline_internal acts st =
     bind_run (run_actions acts st) (\<lambda>st. readline_internal_teardown (\<not> rl_done st) st)"

definition readline :: "(action \<times> bool \<times> int) list \<Rightarrow> rl_state \<Rightarrow> (string option \<times> rl_state) run" where
  "readline acts st = bind_run (rl_initialize st) (readline_internal acts)"

end
