(* ===== verification/Rl_Session.thy ===== *)
theory Rl_Session
  imports Rl_Kill_Spec Rl_Readline
begin

text \<open>
  Sessions of editing commands, from the initialisation of a line on: nothing is read or written outside the buffer, and
  the line can be reverted. With them the functional properties of the editing commands.
\<close>

section \<open>The initial line\<close>

lemma ready_start:
  assumes "line_is '''' st" and "rl_undo_list st = 0" and "lines_ok (rl_history st)" and "\<not> rl_doing_an_undo st"
    and "rest_ok st" and "rl_point st = 0" and "0 < rl_fresh st"
  shows "ready ('''', setting st) st"
proof -
  have "line_text st = ''''" by (rule line_text_is [OF assms(1)])
  moreover have "undo_is [] st" using assms(2,7) by (simp add: undo_is_def)
  moreover have "rl_end st = 0" using assms(1) by (simp add: line_is_def)
  ultimately show ?thesis
    using assms by (auto simp: ready_def line_inv_def lined_def at_point_def intro!: exI [of _ "[]"])
qed

lemma using_history_lines: "lines_ok h \<Longrightarrow> lines_ok (using_history h) \<and> hist_lines (using_history h) = hist_lines h"
proof -
  assume ok: "lines_ok h"
  then have inv: "hist_inv h" by (simp add: lines_ok_def)
  from hist_flags_refine(2) [OF inv, of NUL] have u: "hist_inv (using_history h)"
    "sp_entries (hist_abs (using_history h)) = sp_entries (hist_abs h)"
    by (auto simp: hist_step_def hist_spec_step_def Let_def)
  then have "hist_lines (using_history h) = hist_lines h" by (simp add: hist_lines_def)
  moreover have "history_offset (using_history h) = history_length h" "history_length (using_history h) = history_length h"
    by (simp_all add: using_history_def)
  ultimately show ?thesis using ok u(1) inv by (simp add: lines_ok_def hist_inv_def)
qed

definition started :: "char \<Rightarrow> hist_state \<Rightarrow> rl_state" where
  "started c h = (rl_static c h)\<lparr>rl_line_buffer := NUL # replicate 255 c, rl_line_buffer_len := 256,
     rl_history := using_history h\<rparr>"

lemma initialize_run: "rl_initialize (rl_static c h) = Inr (started c h)"
  by (simp add: rl_initialize_def init_line_state_def buf_put_def put_bytes_def DEFAULT_BUFFER_SIZE_def
      rl_start_using_history_def free_saved_history_line_def started_def rl_static_def numeral_nat)

lemma started_ready: "lines_ok h \<Longrightarrow> ready ('''', setting (started c h)) (started c h)"
  using using_history_lines [of h]
  by (intro ready_start) (simp_all add: started_def rl_static_def line_is_def rest_ok_def ring_ok_def)

text \<open>A line that can be reverted to the empty one.\<close>

definition from_empty :: "rl_state \<Rightarrow> bool" where
  "from_empty st \<longleftrightarrow> (\<exists>x. ready ('''', x) st)"

lemma from_empty_ready: "from_empty st \<Longrightarrow> ready ('''', setting st) st"
  unfolding from_empty_def using ready_setting by blast

lemma from_emptyI: "ready ('''', x) st \<Longrightarrow> from_empty st"
  unfolding from_empty_def by blast

lemma lines_ok_start: "lines_ok (hist_start k)"
  using hist_start by (simp add: lines_ok_def hist_lines_def spec_start_def) (simp add: hist_start_def)

section \<open>Sessions\<close>

text \<open>C2: Editing is safe and can be undone. After the initialisation, every session of editing commands whose counts
  are small, whose kills find room in the ring and whose regions have a mark runs without a fault; the point is in the
  line, and \<open>rl_revert_line\<close> takes the line back to the empty one. The lines of the history are as before.\<close>

theorem editing_session:
  assumes "lines_ok h" and "safe_session cs (started c h)"
  shows "\<exists>st st1 st2. rl_initialize (rl_static c h) = Inr st \<and> run_commands cs st = Inr st1 \<and>
    0 \<le> rl_point st1 \<and> rl_point st1 \<le> rl_end st1 \<and> buf_get (rl_end st1) st1 = Inr NUL \<and>
    rl_revert_line st1 = Inr (0, st2) \<and> line_text st2 = '''' \<and> rl_undo_list st2 = 0 \<and>
    map fst (hist_lines (rl_history st2)) = map fst (hist_lines h)"
proof -
  from run_commands_ready [OF started_ready [OF assms(1)] assms(2)] obtain st1 where
    st1: "run_commands cs (started c h) = Inr st1" "ready ('''', setting (started c h)) st1" by blast
  from revert_ready [OF st1(2)] obtain st2 where
    st2: "rl_revert_line st1 = Inr (0, st2)" "ready ('''', setting (started c h)) st2" "line_text st2 = ''''" "rl_undo_list st2 = 0"
    by auto
  have "setting st2 = setting (started c h)" by (rule ready_setting [OF st2(2)])
  then have "map fst (hist_lines (rl_history st2)) = map fst (hist_lines h)"
    using using_history_lines [OF assms(1)] by (simp add: setting_def started_def rl_static_def)
  moreover have "buf_get (rl_end st1) st1 = Inr NUL"
    using line_get [OF ready_line(1) [OF st1(2)] order_refl] ready_line(1) [OF st1(2)] by (simp add: line_is_def cstr_at_def)
  ultimately show ?thesis
    using initialize_run st1(1) ready_line(2) [OF st1(2)] st2 by (fastforce simp: at_point_def)
qed

theorem editing_session_witness:
  "\<exists>st st1 st2. rl_initialize (rl_static CHR ''?'' (hist_start 9)) = Inr st \<and>
    run_commands [(Insert CHR ''l'', False, 1), (Insert CHR ''s'', False, 1), (Unix_Line_Discard, False, 1), (Yank, False, 1)] st = Inr st1 \<and>
    0 \<le> rl_point st1 \<and> rl_point st1 \<le> rl_end st1 \<and> buf_get (rl_end st1) st1 = Inr NUL \<and>
    rl_revert_line st1 = Inr (0, st2) \<and> line_text st2 = '''' \<and> rl_undo_list st2 = 0 \<and>
    map fst (hist_lines (rl_history st2)) = map fst (hist_lines (hist_start 9))"
proof (rule editing_session [OF lines_ok_start])
  show "safe_session [(Insert CHR ''l'', False, 1), (Insert CHR ''s'', False, 1), (Unix_Line_Discard, False, 1), (Yank, False, 1)]
      (started CHR ''?'' (hist_start 9))"
    by code_simp
qed

text \<open>C34: Undoing implements its specification: \<open>rl_do_undo\<close> applies the entries of the linked list to the text, from
  the newest on, until every group it has entered is left, releases them, and returns 0 only for an empty list.\<close>

theorem do_undo_refines:
  assumes "line_is t st" and "undo_is es st" and "undo_gives base es t" and "lines_ok (rl_history st)" and "\<not> rl_doing_an_undo st"
    and "undo_spec 0 es t = (r, es', t')"
  shows "\<exists>st'. rl_do_undo st = Inr (r, st') \<and> line_is t' st' \<and> undo_is es' st' \<and> undo_gives base es' t' \<and>
    same_lines (rl_history st) (rl_history st')"
proof -
  have "length es \<le> rl_fresh st" using assms(2) chain_length by (fastforce simp: undo_is_def)
  from undo_loop_run [OF assms(1-5) this assms(6)] show ?thesis unfolding rl_do_undo_def undone_def by blast
qed

theorem do_undo_refines_witness:
  "\<exists>st st'. run_commands [(Insert CHR ''l'', False, 1), (Insert CHR ''s'', False, 1)] (started CHR ''?'' (hist_start 9)) = Inr st \<and>
    rl_do_undo st = Inr (1, st') \<and> line_is '''' st'"
proof -
  let ?cs = "[(Insert CHR ''l'', False, 1), (Insert CHR ''s'', False, 1)]"
  have "safe_session ?cs (started CHR ''?'' (hist_start 9))" by code_simp
  from run_commands_ready [OF started_ready [OF lines_ok_start] this] obtain st b where
    st: "run_commands ?cs (started CHR ''?'' (hist_start 9)) = Inr st" "ready b st" by blast
  let ?e = "\<lparr>ue_next = 0, ue_start = 0, ue_end = 2, ue_text = None, ue_what = UNDO_INSERT\<rparr>"
  have "(case run_commands ?cs (started CHR ''?'' (hist_start 9)) of Inl _ \<Rightarrow> False | Inr st \<Rightarrow>
      line_text st = ''ls'' \<and> rl_undo_list st = 1 \<and> rl_fresh st = 2 \<and> rl_undos st 1 = Some ?e)" by code_simp
  then have c: "line_text st = ''ls''" "rl_undo_list st = 1" "rl_fresh st = 2" "rl_undos st 1 = Some ?e" using st(1) by simp_all
  have u: "undo_is [?e] st" using c(2-4) by (simp add: undo_is_def)
  have i: "line_is ''ls'' st" "lines_ok (rl_history st)" "\<not> rl_doing_an_undo st"
    using ready_line(1) [OF st(2)] st(2) c(1) by (simp_all add: ready_def line_inv_def lined_def)
  have "undo_gives '''' [?e] ''ls''" "undo_spec 0 [?e] ''ls'' = (1, [], '''')"
    by (simp_all add: undo_valid_def undo_step_def undo_spec.simps)
  from do_undo_refines [OF i(1) u this(1) i(2,3) this(2)] st(1) show ?thesis by blast
qed

section \<open>Words and the kill ring\<close>

text \<open>A line on which the commands are shown at work.\<close>

definition typed :: "string \<Rightarrow> rl_state run" where
  "typed s = run_commands (map (\<lambda>c. (Insert c, False, 1)) s) (started CHR ''?'' (hist_start 9))"

lemma typed_line:
  "\<exists>st. typed ''ab cd'' = Inr st \<and> ready ('''', setting (started CHR ''?'' (hist_start 9))) st \<and> line_text st = ''ab cd'' \<and> rl_point st = 5 \<and> rl_end st = 5 \<and>
    \<not> rl_pathname_alphabetic st"
proof -
  have "safe_session (map (\<lambda>c. (Insert c, False, 1)) ''ab cd'') (started CHR ''?'' (hist_start 9))" by code_simp
  from run_commands_ready [OF started_ready [OF lines_ok_start] this] obtain st where st: "typed ''ab cd'' = Inr st"
    "ready ('''', setting (started CHR ''?'' (hist_start 9))) st" by (auto simp: typed_def)
  have "(case typed ''ab cd'' of Inl _ \<Rightarrow> False | Inr st \<Rightarrow> line_text st = ''ab cd'' \<and> rl_point st = 5 \<and> rl_end st = 5 \<and>
    \<not> rl_pathname_alphabetic st)" by code_simp
  then show ?thesis using st by simp
qed

lemma typed_alphabetic:
  "\<not> rl_pathname_alphabetic st \<Longrightarrow> rl_alphabetic st = rl_alphabetic (started CHR ''?'' (hist_start 9))"
  by (intro ext) (simp add: rl_alphabetic_def started_def rl_static_def)

text \<open>C35: The word commands move as their specification says: \<open>rl_forward_word\<close> and \<open>rl_backward_word\<close> go over
  the characters that are not in a word and then over the word, as often as the count says, in the other direction for a
  negative count, and stop at the ends of the line; nothing but the point changes.\<close>

theorem word_motion:
  assumes "line_is t st" and "at_point st" and "small_count count st"
  shows "rl_forward_word count st = Inr (st\<lparr>rl_point := int (word_move (rl_alphabetic st) t count (nat (rl_point st)))\<rparr>) \<and>
    rl_backward_word count st = Inr (st\<lparr>rl_point := int (word_move (rl_alphabetic st) t (- count) (nat (rl_point st)))\<rparr>)"
  using forward_word_run [OF assms] backward_word_run [OF assms] by simp

theorem word_motion_witness:
  "\<exists>st st'. typed ''ab cd'' = Inr st \<and> rl_backward_word 1 st = Inr st' \<and> rl_point st' = 3"
proof -
  from typed_line obtain st b where st: "typed ''ab cd'' = Inr st" "ready b st" "line_text st = ''ab cd''" "rl_point st = 5"
    "rl_end st = 5" "\<not> rl_pathname_alphabetic st" by blast
  have "word_move (rl_alphabetic (started CHR ''?'' (hist_start 9))) ''ab cd'' (- 1) 5 = 3" by code_simp
  then show ?thesis
    using word_motion [of "''ab cd''" st 1] ready_line(1,2) [OF st(2)] st
    by (simp add: small_count_def typed_alphabetic [OF st(6)])
qed

text \<open>C36: Changing case changes the words moved over and nothing else: between the point and where \<open>rl_forward_word\<close>
  goes, every letter gets the case of the operation - the first of a word for \<open>rl_capitalize_word\<close> in upper, the others
  in lower case - and the rest of the line stays. The change can be undone.\<close>

theorem change_case_words:
  assumes "ready base st" and "small_count count st"
  shows "\<exists>st'. rl_change_case count op st = Inr (0, st') \<and> ready base st' \<and>
    (let t = line_text st; i = nat (rl_point st); j = word_move (rl_alphabetic st) t count i; a = min i j; b = max i j in
     rl_point st' = int b \<and> line_text st' = take a t @ recase (rl_alphabetic st) op False (take (b - a) (drop a t)) @ drop b t)"
proof -
  let ?i = "nat (rl_point st)" and ?t = "line_text st"
  let ?j = "word_move (rl_alphabetic st) ?t count ?i"
  have i: "?i \<le> length ?t" using at_point_nat [OF ready_line(1,2) [OF assms(1)]] by simp
  have "min ?i ?j = (if count < 0 then ?j else ?i)" "max ?i ?j = (if count < 0 then ?i else ?j)"
    using words_right_le [OF i, where alpha = "rl_alphabetic st" and n = "nat count"]
      words_left_le [where alpha = "rl_alphabetic st" and t = ?t and n = "nat (- count)" and i = ?i]
    by (auto simp: word_move_def min_def max_def)
  then show ?thesis using change_case_run [OF assms, of op] by (simp add: Let_def)
qed

theorem change_case_words_witness:
  "\<exists>st st'. typed ''ab cd'' = Inr st \<and> rl_change_case (-1) CapCase st = Inr (0, st') \<and> line_text st' = ''ab Cd''"
proof -
  from typed_line obtain st b where st: "typed ''ab cd'' = Inr st" "ready b st" "line_text st = ''ab cd''" "rl_point st = 5"
    "rl_end st = 5" "\<not> rl_pathname_alphabetic st" by blast
  let ?a = "rl_alphabetic (started CHR ''?'' (hist_start 9))"
  have "word_move ?a ''ab cd'' (- 1) 5 = 3" "recase ?a CapCase False ''cd'' = ''Cd''" by code_simp+
  then show ?thesis
    using change_case_words [OF st(2), of "-1" CapCase] st by (auto simp: small_count_def typed_alphabetic [OF st(6)])
qed

text \<open>Two words \<open>w1\<close> and \<open>w2\<close> of a text, with \<open>s\<close> between them.\<close>

definition two_words :: "(char \<Rightarrow> bool) \<Rightarrow> string \<Rightarrow> string \<Rightarrow> string \<Rightarrow> string \<Rightarrow> string \<Rightarrow> bool" where
  "two_words alpha p w1 s w2 q \<longleftrightarrow>
     list_all alpha w1 \<and> w1 \<noteq> [] \<and> list_all alpha w2 \<and> w2 \<noteq> [] \<and> list_all (\<lambda>c. \<not> alpha c) s \<and> s \<noteq> [] \<and>
     (p = [] \<or> \<not> alpha (last p)) \<and> (q = [] \<or> \<not> alpha (hd q))"

lemma takeWhile_part: "list_all P u \<Longrightarrow> v = [] \<or> \<not> P (hd v) \<Longrightarrow> takeWhile P (u @ v) = u"
  by (cases v) (simp_all add: list_all_iff takeWhile_append2)

lemma word_right_at:
  assumes "drop i t = g @ w @ q" and "list_all (\<lambda>c. \<not> alpha c) g" and "list_all alpha w" and "q = [] \<or> \<not> alpha (hd q)"
    and "w \<noteq> [] \<or> q = []"
  shows "word_right alpha t i = i + length g + length w"
proof -
  have "takeWhile (\<lambda>c. \<not> alpha c) (drop i t) = g"
    unfolding assms(1) using assms(2,3,5) by (intro takeWhile_part) (cases w; auto)+
  moreover have "drop (i + length g) t = w @ q"
    using arg_cong [OF assms(1), of "drop (length g)"] by (simp add: add.commute)
  moreover have "takeWhile alpha (w @ q) = w" by (rule takeWhile_part [OF assms(3,4)])
  ultimately show ?thesis by (simp add: word_right_def Let_def)
qed

lemma word_left_at:
  assumes "take i t = x @ w @ g" and "i \<le> length t" and "list_all alpha w" "w \<noteq> []" and "list_all (\<lambda>c. \<not> alpha c) g"
    and "x = [] \<or> \<not> alpha (last x)"
  shows "word_left alpha t i = length x"
proof -
  have i: "i = length x + length w + length g" using arg_cong [OF assms(1), of length] assms(2) by simp
  have "takeWhile (\<lambda>c. \<not> alpha c) (rev (take i t)) = rev g"
    unfolding assms(1) using assms(3-5) takeWhile_part [of "\<lambda>c. \<not> alpha c" "rev g" "rev w @ rev x"]
    by (cases w rule: rev_cases) (auto simp: list_all_iff)
  moreover have "take (length x + length w) t = x @ w"
    using arg_cong [OF assms(1), of "take (length x + length w)"] i by (simp add: min_def)
  moreover have "takeWhile alpha (rev (x @ w)) = rev w"
    using assms(3,6) takeWhile_part [of alpha "rev w" "rev x"] by (cases x rule: rev_cases) (auto simp: list_all_iff)
  ultimately show ?thesis using i by (simp add: word_left_def Let_def)
qed

text \<open>The moves that find two words, from a point that is behind the first and that the forward move takes to \<open>d\<close>.\<close>

lemma words_found:
  assumes "two_words alpha p w1 s w2 q" and "word_right alpha t i = d" and "d \<le> length t"
    and "take d t = p @ w1 @ s @ w2 @ r" and "list_all (\<lambda>c. \<not> alpha c) r"
  shows "word_move alpha t 1 i = d" "word_move alpha t (-1) d = length (p @ w1 @ s)"
    "word_move alpha t (-1) (length (p @ w1 @ s)) = length p" "word_move alpha t 1 (length p) = length (p @ w1)"
proof -
  note w = assms(1) [unfolded two_words_def]
  have t: "t = p @ w1 @ s @ w2 @ r @ drop d t" using assms(4) append_take_drop_id [of d t] by simp
  show "word_move alpha t 1 i = d" using assms(2) by (simp add: word_move_def)
  have "s \<noteq> []" "\<not> alpha (last s)" using w by (auto simp: list_all_iff)
  then have "word_left alpha t d = length (p @ w1 @ s)"
    using w assms(3-5) by (intro word_left_at [where w = w2 and g = r]) (auto simp: last_append)
  then show "word_move alpha t (-1) d = length (p @ w1 @ s)" by (simp add: word_move_def)
  have "take (length (p @ w1 @ s)) t = p @ w1 @ s" by (subst t) simp
  moreover have "length (p @ w1 @ s) \<le> length t" using arg_cong [OF assms(4), of length] assms(3) by simp
  ultimately have "word_left alpha t (length (p @ w1 @ s)) = length p" using w by (intro word_left_at [where w = w1 and g = s]) auto
  then show "word_move alpha t (-1) (length (p @ w1 @ s)) = length p" by (simp add: word_move_def)
  have "drop (length p) t = [] @ w1 @ s @ w2 @ r @ drop d t" by (subst t) simp
  then have "word_right alpha t (length p) = length p + length ([] :: string) + length w1"
    using w by (intro word_right_at [where q = "s @ w2 @ r @ drop d t"]) (auto simp: list_all_iff hd_append)
  then show "word_move alpha t 1 (length p) = length (p @ w1)" by (simp add: word_move_def)
qed

lemma transpose_two_words:
  assumes "ready base st" and "small_count 1 st" and "two_words (rl_alphabetic st) p w1 s w2 q"
    and "line_text st = p @ w1 @ s @ w2 @ q" and "word_right (rl_alphabetic st) (line_text st) (nat (rl_point st)) = length (p @ w1 @ s @ w2 @ r)"
    and "q = r @ q'" and "list_all (\<lambda>c. \<not> rl_alphabetic st c) r"
    and "rl_transpose_words 1 st = Inr (x, st')"
  shows "line_text st' = p @ w2 @ r @ s @ w1 @ q' \<and> rl_point st' = int (length (p @ w1 @ s @ w2 @ r))"
proof -
  let ?t = "line_text st" and ?d = "length (p @ w1 @ s @ w2 @ r)"
  have t: "?t = (p @ w1 @ s @ w2 @ r) @ q'" using assms(4,6) by simp
  have "?d \<le> length ?t" "take ?d ?t = p @ w1 @ s @ w2 @ r" unfolding t by simp_all
  note w = words_found [OF assms(3,5) this assms(7)]
  from transpose_words_run [OF assms(1,2,2)] assms(8)
  have "line_text st' = exchange (length p) (length (p @ w1)) (length (p @ w1 @ s)) ?d ?t \<and> rl_point st' = int ?d"
    unfolding w using assms(3) by (auto simp: two_words_def)
  moreover have "exchange (length p) (length (p @ w1)) (length (p @ w1 @ s)) ?d ?t = p @ w2 @ r @ s @ w1 @ q'"
    by (simp add: exchange_def assms(4,6))
  ultimately show ?thesis by simp
qed

text \<open>C37: Transposing words exchanges two parts of the line and leaves the rest: \<open>rl_forward_word\<close> goes from the point to the
  end \<open>d\<close> of the second part, \<open>rl_backward_word\<close> from there to its beginning \<open>c\<close>, as many words back as the count to the
  beginning \<open>a\<close> of the first, and \<open>rl_forward_word\<close> from there to its end \<open>b\<close>; the point is behind both. Where they are not
  two disjoint parts the line and the point stay. With the argument 1, and the point behind one word but not behind the
  next, they are exactly the two words. At the end of the line, where \<open>rl_forward_word\<close> stays, the second part has whatever
  is behind the last word as well.\<close>

theorem transpose_words_exchange:
  assumes "ready base st" and "small_count count st" and "small_count 1 st"
  shows "\<exists>r st'. rl_transpose_words count st = Inr (r, st') \<and> ready base st' \<and>
    (let t = line_text st; move = word_move (rl_alphabetic st) t; d = move count (nat (rl_point st)); c = move (-1) d;
         a = move (- count) c; b = move 1 a in
     if count = 0 \<or> a = c \<or> c < b then line_text st' = t \<and> rl_point st' = rl_point st
     else line_text st' = exchange a b c d t \<and> rl_point st' = int d) \<and>
    (\<forall>p w1 s w2 q. count = 1 \<and> line_text st = p @ w1 @ s @ w2 @ q \<and> two_words (rl_alphabetic st) p w1 s w2 q \<longrightarrow>
      (length (p @ w1) \<le> nat (rl_point st) \<and> nat (rl_point st) < length (p @ w1 @ s @ w2) \<longrightarrow>
        line_text st' = p @ w2 @ s @ w1 @ q) \<and>
      (nat (rl_point st) = length (line_text st) \<and> list_all (\<lambda>c. \<not> rl_alphabetic st c) q \<longrightarrow>
        line_text st' = p @ w2 @ q @ s @ w1))"
proof -
  from transpose_words_run [OF assms] obtain x st' where run: "rl_transpose_words count st = Inr (x, st')" "ready base st'"
    "let t = line_text st; move = word_move (rl_alphabetic st) t; d = move count (nat (rl_point st)); c = move (-1) d;
         a = move (- count) c; b = move 1 a in
     if count = 0 \<or> a = c \<or> c < b then line_text st' = t \<and> rl_point st' = rl_point st
     else line_text st' = exchange a b c d t \<and> rl_point st' = int d"
    unfolding Let_def by blast
  let ?i = "nat (rl_point st)" and ?alpha = "rl_alphabetic st"
  have "(length (p @ w1) \<le> ?i \<and> ?i < length (p @ w1 @ s @ w2) \<longrightarrow> line_text st' = p @ w2 @ s @ w1 @ q) \<and>
      (?i = length (line_text st) \<and> list_all (\<lambda>c. \<not> ?alpha c) q \<longrightarrow> line_text st' = p @ w2 @ q @ s @ w1)"
    if w: "count = 1" "line_text st = p @ w1 @ s @ w2 @ q" "two_words ?alpha p w1 s w2 q" for p w1 s w2 q
  proof (intro conjI impI)
    note w' = w(3) [unfolded two_words_def]
    note two = transpose_two_words [OF assms(1,3) w(3,2) _ _ _ run(1) [unfolded w(1)]]
    assume i: "length (p @ w1) \<le> ?i \<and> ?i < length (p @ w1 @ s @ w2)"
    define k where "k = ?i - length (p @ w1)"
    have k1: "?i = length (p @ w1) + k" using i by (simp add: k_def)
    then have k: "?i = length (p @ w1) + k" "k < length s + length w2" using i unfolding length_append by linarith+
    have "drop ?i (line_text st) = drop k (s @ w2 @ q)"
      unfolding w(2) k(1) by simp
    then have d: "drop ?i (line_text st) = drop k s @ drop (k - length s) w2 @ q" using k(2) by simp
    have "drop (k - length s) w2 \<noteq> []" using k(2) w' by (cases "k \<le> length s") auto
    then have "word_right ?alpha (line_text st) ?i = ?i + length (drop k s) + length (drop (k - length s) w2)"
      using w' by (intro word_right_at [OF d]) (auto simp: list_all_iff dest: in_set_dropD)
    also have "\<dots> = length (p @ w1 @ s @ w2 @ [])" unfolding k1 using k(2) by (cases "k \<le> length s") simp_all
    finally show "line_text st' = p @ w2 @ s @ w1 @ q" using two [of "[]" q] by simp
  next
    note two = transpose_two_words [OF assms(1,3) w(3,2) _ _ _ run(1) [unfolded w(1)]]
    assume i: "?i = length (line_text st) \<and> list_all (\<lambda>c. \<not> ?alpha c) q"
    then have "word_right ?alpha (line_text st) ?i = length (p @ w1 @ s @ w2 @ q)"
      using word_right_at [of ?i "line_text st" "[]" "[]" "[]" ?alpha] by (simp add: w(2))
    then show "line_text st' = p @ w2 @ q @ s @ w1" using two [of q "[]"] i by simp
  qed
  then show ?thesis using run by blast
qed

theorem transpose_words_exchange_witness:
  "\<exists>st r st'. typed ''ab cd'' = Inr st \<and> rl_transpose_words 1 st = Inr (r, st') \<and> line_text st' = ''cd ab''"
proof -
  from typed_line obtain st b where st: "typed ''ab cd'' = Inr st" "ready b st" "line_text st = ''ab cd''" "rl_point st = 5"
    "rl_end st = 5" "\<not> rl_pathname_alphabetic st" by blast
  have "two_words (rl_alphabetic (started CHR ''?'' (hist_start 9))) [] ''ab'' '' '' ''cd'' []" by code_simp
  then have w: "two_words (rl_alphabetic st) [] ''ab'' '' '' ''cd'' []" by (simp add: typed_alphabetic [OF st(6)])
  have "small_count 1 st" using st by (simp add: small_count_def)
  from transpose_words_exchange [OF st(2) this this] obtain r st' where r: "rl_transpose_words 1 st = Inr (r, st')"
    "\<forall>p w1 s w2 q. (1::int) = 1 \<and> line_text st = p @ w1 @ s @ w2 @ q \<and> two_words (rl_alphabetic st) p w1 s w2 q \<longrightarrow>
      (length (p @ w1) \<le> nat (rl_point st) \<and> nat (rl_point st) < length (p @ w1 @ s @ w2) \<longrightarrow>
        line_text st' = p @ w2 @ s @ w1 @ q) \<and>
      (nat (rl_point st) = length (line_text st) \<and> list_all (\<lambda>c. \<not> rl_alphabetic st c) q \<longrightarrow>
        line_text st' = p @ w2 @ q @ s @ w1)" by blast
  from r(2) [rule_format, of "[]" "''ab''" "'' ''" "''cd''" "[]"] w st(3,4) have "line_text st' = ''cd ab''" by simp
  with r(1) have "\<exists>r st'. rl_transpose_words 1 st = Inr (r, st') \<and> line_text st' = ''cd ab''" by blast
  then show ?thesis using st(1) by blast
qed

text \<open>Moving the texts of a full ring down reads one slot too far.\<close>

lemma shift_ring_faults:
  "rl_kill_ring st = Some b \<Longrightarrow> length b = n + k \<Longrightarrow> 0 < n \<Longrightarrow> shift_ring n (int k) st = Inl Out_Of_Bounds_Read"
proof (induction n arbitrary: k st b)
  case (Suc n)
  show ?case
  proof (cases "n = 0")
    case True
    then show ?thesis using Suc.prems by (simp add: ring_get_def)
  next
    case False
    let ?st = "st\<lparr>rl_kill_ring := Some (b[k := b ! Suc k])\<rparr>"
    have "shift_ring n (int (Suc k)) ?st = Inl Out_Of_Bounds_Read" using Suc.prems False by (intro Suc.IH [where b = "b[k := b ! Suc k]"]) simp_all
    moreover have "nat (int k + 1) = Suc k" by simp
    ultimately show ?thesis using Suc.prems False by (simp add: ring_get_def ring_put_def add.commute)
  qed
qed simp

text \<open>C38: What the kill ring needs. In a ring as the commands keep it, killing a text returns if and only if there is room:
  the ring has fewer than 10 texts, or the last command was a kill and there is a ring. A full ring of 10 slots is read
  one slot behind its end when the texts are moved down; a kill after one that killed nothing, with no ring yet, follows
  the null pointer.\<close>

theorem kill_ring_room:
  assumes "ring_ok st" and "NUL \<notin> set str" and "rl_kill_ring_length st = rl_max_kills \<longrightarrow> length (the (rl_kill_ring st)) = 10"
  shows "((\<exists>st'. copy_to_kill_ring str app st = Inr st' \<and> ring_ok st') \<longleftrightarrow> kill_room st) \<and>
    (\<not> kill_room st \<longrightarrow> copy_to_kill_ring str app st =
      Inl (if rl_kill_ring st = None then Null_Pointer else Out_Of_Bounds_Read))"
proof (cases "kill_room st")
  case True
  then show ?thesis using copy_ring_run [OF assms(1) True assms(2)] by auto
next
  case False
  show ?thesis
  proof (cases "rl_kill_ring st")
    case None
    then have "rl_last_command_was_kill st \<noteq> 0" using False by (auto simp: kill_room_def split: if_splits)
    then show ?thesis using False None by (simp add: copy_to_kill_ring_def ring_get_def)
  next
    case (Some b)
    then have l: "rl_last_command_was_kill st = 0" "rl_kill_ring_length st = rl_max_kills" "length b = 10"
      using False assms(1,3) by (auto simp: kill_room_def ring_ok_def split: if_splits)
    have "shift_ring 10 0 st = Inl Out_Of_Bounds_Read" using shift_ring_faults [OF Some, of 10 0] l(3) by simp
    then show ?thesis
      using False Some l by (simp add: copy_to_kill_ring_def new_kill_slot_def rl_max_kills_def Let_def) (simp add: ring_get_def)
  qed
qed

theorem kill_ring_room_witness:
  "let st = (started CHR ''?'' (hist_start 9))\<lparr>rl_kill_ring := Some (replicate 10 (Some ''a'')), rl_kill_ring_length := 10\<rparr> in
    copy_to_kill_ring ''b'' True st = Inl Out_Of_Bounds_Read"
proof -
  let ?st = "(started CHR ''?'' (hist_start 9))\<lparr>rl_kill_ring := Some (replicate 10 (Some ''a'')), rl_kill_ring_length := 10\<rparr>"
  have "ring_ok ?st" by (simp add: ring_ok_def started_def rl_static_def rl_max_kills_def)
  moreover have "\<not> kill_room ?st" by (simp add: kill_room_def started_def rl_static_def rl_max_kills_def)
  ultimately show ?thesis using kill_ring_room [of ?st "''b''" True] by (simp add: Let_def)
qed

end
