(* ===== verification/Rl_Browse_Spec.thy ===== *)
theory Rl_Browse_Spec
  imports Rl_Session
begin

text \<open>
  What the history commands promise: the lines of the history are a list with a position behind or in it, and the edited
  line is exchanged for the one at the position. A line that is left keeps its text and its undo list; the line typed
  first is kept apart and comes back at the end. The commands, which work on the buffer and two heaps, refine this.
\<close>

section \<open>The list of lines\<close>

text \<open>A line is its text and its undo list.\<close>

record browse =
  br_lines :: "(string \<times> nat) list"
  br_pos :: nat
  br_saved :: "(string \<times> nat) option"
  br_line :: "string \<times> nat"

definition br_leave :: "browse \<Rightarrow> browse" where
  "br_leave b =
     (if br_pos b < length (br_lines b) \<and> snd (br_lines b ! br_pos b) \<noteq> snd (br_line b)
      then b\<lparr>br_lines := (br_lines b)[br_pos b := br_line b]\<rparr> else b)"

definition br_save :: "browse \<Rightarrow> browse" where
  "br_save b = b\<lparr>br_saved := Some (case br_saved b of None \<Rightarrow> br_line b | Some l \<Rightarrow> l)\<rparr>"

definition br_unsave :: "browse \<Rightarrow> browse" where
  "br_unsave b =
     (let b = b\<lparr>br_pos := length (br_lines b)\<rparr> in
      case br_saved b of None \<Rightarrow> b | Some l \<Rightarrow> b\<lparr>br_line := l, br_saved := None\<rparr>)"

definition br_show :: "nat \<Rightarrow> browse \<Rightarrow> browse" where
  "br_show p b = b\<lparr>br_pos := p, br_line := br_lines b ! p\<rparr>"

definition move_back :: "nat \<Rightarrow> browse \<Rightarrow> browse" where
  "move_back n b =
     (if n = 0 then b
      else let b = br_leave (br_save b) in if br_pos b = 0 then b else br_show (br_pos b - n) b)"

definition move_on :: "nat \<Rightarrow> browse \<Rightarrow> browse" where
  "move_on n b =
     (if n = 0 then b
      else let b = br_leave b in
           if br_pos b + n < length (br_lines b) then br_show (br_pos b + n) b else br_unsave b)"

section \<open>The state as such a list\<close>

definition saved_entry :: "rl_state \<Rightarrow> hist_entry" where
  "saved_entry st = the (hs_heap (rl_history st) (rl_saved_line st))"

definition browse_of :: "rl_state \<Rightarrow> browse" where
  "browse_of st =
     \<lparr>br_lines = hist_lines (rl_history st), br_pos = nat (history_offset (rl_history st)),
      br_saved = (if rl_saved_line st = 0 then None else Some (the (he_line (saved_entry st)), he_data (saved_entry st))),
      br_line = (line_text st, rl_undo_list st)\<rparr>"

definition saved_ok :: "rl_state \<Rightarrow> bool" where
  "saved_ok st \<longleftrightarrow>
     rl_saved_line st \<noteq> 0 \<longrightarrow>
       rl_saved_line st \<notin> set (live (rl_history st)) \<and> rl_saved_line st < hs_fresh (rl_history st) \<and>
       (\<exists>e l. hs_heap (rl_history st) (rl_saved_line st) = Some e \<and> he_line e = Some l \<and> NUL \<notin> set l)"

definition browsing :: "rl_state \<Rightarrow> bool" where
  "browsing st \<longleftrightarrow>
     lines_ok (rl_history st) \<and> saved_ok st \<and> line_is (line_text st) st \<and> at_point st \<and> -1 \<le> rl_saved_point st"

text \<open>What a move leaves alone.\<close>

definition line_swapped :: "rl_state \<Rightarrow> rl_state \<Rightarrow> bool" where
  "line_swapped st st' \<longleftrightarrow>
     st' = st\<lparr>rl_line_buffer := rl_line_buffer st', rl_line_buffer_len := rl_line_buffer_len st', rl_point := rl_point st',
       rl_end := rl_end st', rl_mark := rl_mark st', rl_undo_list := rl_undo_list st', rl_dings := rl_dings st',
       rl_history := rl_history st', rl_saved_line := rl_saved_line st', rl_saved_point := rl_saved_point st'\<rparr> \<and>
     (-1 \<le> rl_mark st \<longrightarrow> -1 \<le> rl_mark st')"

lemma swapped_refl [simp]: "line_swapped st st"
  by (simp add: line_swapped_def)

lemma swapped_trans: "line_swapped st1 st2 \<Longrightarrow> line_swapped st2 st3 \<Longrightarrow> line_swapped st1 st3"
  by (cases st1; cases st2; cases st3) (auto simp: line_swapped_def)

lemma swapped_simps [simp]:
  "line_swapped st (st\<lparr>rl_history := h\<rparr>)" "line_swapped st (st\<lparr>rl_saved_point := i\<rparr>)" "line_swapped st (st\<lparr>rl_dings := n\<rparr>)"
  "line_swapped st (st\<lparr>rl_saved_line := a, rl_history := h\<rparr>)"
  by (simp_all add: line_swapped_def)

section \<open>The heap of entries\<close>

lemma heap_other:
  assumes "a \<notin> set (live h)"
  shows "hist_inv (h\<lparr>hs_heap := (hs_heap h)(a := v)\<rparr>) = hist_inv h"
    "hist_abs (h\<lparr>hs_heap := (hs_heap h)(a := v)\<rparr>) = hist_abs h"
    "live (h\<lparr>hs_heap := (hs_heap h)(a := v)\<rparr>) = live h"
proof -
  show l: "live (h\<lparr>hs_heap := (hs_heap h)(a := v)\<rparr>) = live h" by (simp add: live_def cong: option.case_cong)
  show "hist_inv (h\<lparr>hs_heap := (hs_heap h)(a := v)\<rparr>) = hist_inv h"
    unfolding hist_inv_def l using assms by (auto cong: option.case_cong)
  have "map (\<lambda>b. the (((hs_heap h)(a := v)) b)) (live h) = map (\<lambda>b. the (hs_heap h b)) (live h)" using assms by auto
  then show "hist_abs (h\<lparr>hs_heap := (hs_heap h)(a := v)\<rparr>) = hist_abs h" by (simp add: hist_abs_def l)
qed

lemma heap_fresh:
  "hist_inv h \<Longrightarrow> hs_fresh h \<notin> set (live h)"
  "live (h\<lparr>hs_fresh := n\<rparr>) = live h" "hist_abs (h\<lparr>hs_fresh := n\<rparr>) = hist_abs h"
  by (auto simp: hist_inv_def hist_abs_def live_def cong: option.case_cong)

lemma hist_lines_nth:
  assumes "hist_inv h" and "k < length (hist_lines h)"
  shows "k < length (live h)" "slot (int k) h = Inr (live h ! k)" "live h ! k \<noteq> 0"
    "\<exists>e. entry (live h ! k) h = Inr e \<and> he_line e = Some (fst (hist_lines h ! k)) \<and> he_data e = snd (hist_lines h ! k)"
proof -
  show k: "k < length (live h)" using assms(2) by (simp add: hist_lines_def length_abs_live)
  note e = entry_live [OF assms(1) k]
  show "slot (int k) h = Inr (live h ! k)" "live h ! k \<noteq> 0" by (rule e(1), rule e(2))
  show "\<exists>e. entry (live h ! k) h = Inr e \<and> he_line e = Some (fst (hist_lines h ! k)) \<and> he_data e = snd (hist_lines h ! k)"
    using e(3,4) assms(2) by (auto simp: good_entry_def hist_lines_def)
qed

lemma length_lines: "hist_inv h \<Longrightarrow> history_length h = int (length (hist_lines h))"
  using length_abs by (simp add: hist_lines_def)

lemma end_slot:
  assumes "hist_inv h" and "the_history h \<noteq> None"
  shows "slot (history_length h) h = Inr 0"
  using assms by (auto simp: hist_inv_def slot_def)

section \<open>Taking lines out of the buffer and into it\<close>

lemma buffer_string_run: "line_is t st \<Longrightarrow> buffer_string st = Inr t"
proof -
  assume l: "line_is t st"
  then have "rl_line_buffer st = (t @ [NUL]) @ drop (Suc (length t)) (rl_line_buffer st)"
    by (metis append_take_drop_id line_is_def)
  then have "cstr_of (rl_line_buffer st) = Some t" using cstr_of_append_NUL l by (metis append.assoc append_Cons append_Nil line_is_def)
  then show ?thesis by (simp add: buffer_string_def block_string_def)
qed

lemma replace_line_run:
  assumes "line_is t st" and "NUL \<notin> set l"
  shows "\<exists>b n p m. rl_replace_line l False st =
      Inr (st\<lparr>rl_line_buffer := b, rl_line_buffer_len := n, rl_end := int (length l), rl_point := p, rl_mark := m\<rparr>) \<and>
    line_is l (st\<lparr>rl_line_buffer := b, rl_line_buffer_len := n, rl_end := int (length l), rl_point := p, rl_mark := m\<rparr>) \<and>
    0 \<le> p \<and> p \<le> int (length l) \<and> -1 \<le> m"
proof -
  have len: "int (length (rl_line_buffer st)) = rl_line_buffer_len st" using assms(1) by (simp add: line_is_def)
  define st1 where "st1 = (if int (length l) \<ge> rl_line_buffer_len st then rl_extend_line_buffer (int (length l)) st else st)"
  have "\<exists>b n. st1 = st\<lparr>rl_line_buffer := b, rl_line_buffer_len := n\<rparr> \<and> int (length b) = n \<and> length l < length b"
  proof (cases "int (length l) \<ge> rl_line_buffer_len st")
    case True
    then show ?thesis using extend_buffer [OF len, of "int (length l)"] by (auto simp: st1_def)
  next
    case False
    then show ?thesis using len
      by (intro exI [of _ "rl_line_buffer st"] exI [of _ "rl_line_buffer_len st"]) (simp add: st1_def)
  qed
  then obtain b n where st1: "st1 = st\<lparr>rl_line_buffer := b, rl_line_buffer_len := n\<rparr>" "int (length b) = n" "length l < length b"
    by blast
  let ?b = "l @ [NUL] @ drop (Suc (length l)) b"
  have put: "buf_put 0 (l @ [NUL]) st1 = Inr (st1\<lparr>rl_line_buffer := ?b\<rparr>)"
    using st1 by (simp add: buf_put_def put_bytes_def)
  let ?f = "\<lambda>x. if x > int (length l) then int (length l) else if x < 0 then 0 else x"
  have "rl_replace_line l False st = Inr (st\<lparr>rl_line_buffer := ?b, rl_line_buffer_len := n, rl_end := int (length l),
      rl_point := ?f (rl_point st), rl_mark := ?f (rl_mark st)\<rparr>)"
    using put by (simp add: rl_replace_line_def Let_def st1_def [symmetric] rl_fix_point_def fix_pos_def) (simp add: st1(1))
  moreover have "line_is l (st\<lparr>rl_line_buffer := ?b, rl_line_buffer_len := n, rl_end := int (length l),
      rl_point := ?f (rl_point st), rl_mark := ?f (rl_mark st)\<rparr>)"
    using assms(2) st1(2,3) by (auto simp: line_is_def)
  ultimately show ?thesis
    by (intro exI [of _ ?b] exI [of _ n] exI [of _ "?f (rl_point st)"] exI [of _ "?f (rl_mark st)"]) simp
qed

text \<open>An entry outside the list can be released.\<close>

lemma free_outside:
  assumes "hist_inv (rl_history st)" and "a \<notin> set (live (rl_history st))" and "a \<noteq> 0" and "hs_heap (rl_history st) a = Some e"
  defines "h \<equiv> rl_history st\<lparr>hs_heap := (hs_heap (rl_history st))(a := None)\<rparr>"
  shows "free_entry a st = Inr (st\<lparr>rl_history := h\<rparr>)" "hist_inv h" "hist_abs h = hist_abs (rl_history st)"
    "live h = live (rl_history st)"
  using History_Spec.free_entry [OF assms(3,4)] heap_other [OF assms(2)] assms(1) by (simp_all add: h_def free_entry_def)

lemma current_run:
  assumes "lines_ok h"
  shows "current_history h = Inr (if nat (history_offset h) < length (hist_lines h) then live h ! nat (history_offset h) else 0)"
proof (cases "nat (history_offset h) < length (hist_lines h)")
  case True
  have inv: "hist_inv h" and ge: "0 \<le> history_offset h" using assms by (simp_all add: lines_ok_def)
  have "the_history h \<noteq> None" using hist_lines_nth(1) [OF inv True] by (cases "the_history h") (auto simp: live_def)
  then show ?thesis
    using True ge hist_lines_nth(2) [OF inv True] length_lines [OF inv] by (auto simp: current_history_def)
next
  case False
  then have "history_offset h = history_length h" using assms length_lines [of h] by (auto simp: lines_ok_def)
  then show ?thesis using False by (simp add: current_history_def)
qed

section \<open>Leaving a line\<close>

lemma browse_frame:
  "browse_of (st\<lparr>rl_saved_point := i\<rparr>) = browse_of st" "browse_of (st\<lparr>rl_dings := n\<rparr>) = browse_of st"
  "browse_of (st\<lparr>rl_point := p\<rparr>) = browse_of st" "browse_of (st\<lparr>rl_mark := p\<rparr>) = browse_of st"
  by (simp_all add: browse_of_def saved_entry_def line_text_def)

lemma browsing_frame: "-1 \<le> i \<Longrightarrow> browsing (st\<lparr>rl_saved_point := i\<rparr>) = browsing (st\<lparr>rl_saved_point := -1\<rparr>)"
  by (simp add: browsing_def saved_ok_def line_text_def line_is_def at_point_def)

text \<open>The entry at a position is exchanged for a new one and released.\<close>

lemma replace_free_run:
  assumes "lines_ok (rl_history st)" and "k < length (hist_lines (rl_history st))" and "NUL \<notin> set l"
  shows "\<exists>h1 e h2. replace_history_entry (int k) (Some l) d (rl_history st) = Inr (live (rl_history st) ! k, h1) \<and>
    entry (live (rl_history st) ! k) h1 = Inr e \<and>
    free_entry (live (rl_history st) ! k) (st\<lparr>rl_history := h1\<rparr>) = Inr (st\<lparr>rl_history := h2\<rparr>) \<and> lines_ok h2 \<and>
    hist_lines h2 = (hist_lines (rl_history st))[k := (l, d)] \<and> history_offset h2 = history_offset (rl_history st) \<and>
    hs_fresh h2 = Suc (hs_fresh (rl_history st)) \<and> set (live h2) \<subseteq> insert (hs_fresh (rl_history st)) (set (live (rl_history st))) \<and>
    (\<forall>a. a \<notin> set (live (rl_history st)) \<longrightarrow> a < hs_fresh (rl_history st) \<longrightarrow> hs_heap h2 a = hs_heap (rl_history st) a)"
proof -
  let ?h = "rl_history st" and ?old = "live (rl_history st) ! k"
  have inv: "hist_inv ?h" using assms(1) by (simp add: lines_ok_def)
  note nth = hist_lines_nth [OF inv assms(2)]
  from nth(4) obtain e where e: "entry ?old ?h = Inr e" by blast
  from replace_entry_run [OF inv nth(1), of l d] obtain h1 e1 where
    h1: "replace_history_entry (int k) (Some l) d ?h = Inr (?old, h1)" "hist_inv h1"
      "live h1 = (live ?h)[k := hs_fresh ?h]" "hs_heap h1 = (hs_heap ?h)(hs_fresh ?h \<mapsto> e1)" "hs_fresh h1 = Suc (hs_fresh ?h)"
      "history_length h1 = history_length ?h" "history_offset h1 = history_offset ?h"
      "hist_abs h1 = (hist_abs ?h)\<lparr>sp_entries := (sp_entries (hist_abs ?h))[k := e1]\<rparr>"
    and e1: "he_line e1 = Some l" "he_data e1 = d" by auto
  have old: "?old \<in> set (live ?h)" "?old < hs_fresh ?h" "distinct (live ?h)" using inv nth(1) by (auto simp: hist_inv_def)
  have gone: "?old \<notin> set (live h1)"
    unfolding h1(3) using old nth(1) by (auto simp: in_set_conv_nth nth_list_update nth_eq_iff_index_eq split: if_splits)
  have heap: "hs_heap h1 ?old = Some e" using e old(2) nth(3) by (simp add: h1(4) entry_def split: option.splits)
  define h2 where "h2 = h1\<lparr>hs_heap := (hs_heap h1)(?old := None)\<rparr>"
  have free: "free_entry ?old (st\<lparr>rl_history := h1\<rparr>) = Inr (st\<lparr>rl_history := h2\<rparr>)" "hist_inv h2" "hist_abs h2 = hist_abs h1" "live h2 = live h1"
    using free_outside [of "st\<lparr>rl_history := h1\<rparr>" ?old e] h1(2) gone nth(3) heap by (simp_all add: h2_def)
  have ent: "entry ?old h1 = Inr e" using heap nth(3) by (simp add: entry_def)
  have lines: "hist_lines h2 = (hist_lines ?h)[k := (l, d)]"
    by (simp add: hist_lines_def free(3) h1(8) map_update e1)
  have "\<forall>l \<in> set (hist_lines h2). NUL \<notin> set (fst l)"
    unfolding lines using assms(1,3) set_update_subset_insert [of "hist_lines ?h" k "(l, d)"] by (auto simp: lines_ok_def)
  then have "lines_ok h2" using assms(1) free(2) h1(6,7) by (simp add: lines_ok_def h2_def)
  moreover have "set (live h2) \<subseteq> insert (hs_fresh ?h) (set (live ?h))" unfolding free(4) h1(3) by (rule set_update_subset_insert)
  moreover have "\<forall>a. a \<notin> set (live ?h) \<longrightarrow> a < hs_fresh ?h \<longrightarrow> hs_heap h2 a = hs_heap ?h a" using old(1) by (auto simp: h2_def h1(4))
  ultimately show ?thesis using h1(1,5,7) ent free(1) lines
    by (intro exI [of _ h1] exI [of _ e] exI [of _ h2]) (simp add: h2_def)
qed

lemma maybe_replace_run:
  assumes "browsing st"
  shows "\<exists>h. rl_maybe_replace_line st = Inr (st\<lparr>rl_history := h\<rparr>) \<and> browsing (st\<lparr>rl_history := h\<rparr>) \<and>
    browse_of (st\<lparr>rl_history := h\<rparr>) = br_leave (browse_of st)"
proof -
  let ?h = "rl_history st" and ?k = "nat (history_offset (rl_history st))"
  have ok: "lines_ok ?h" "saved_ok st" "line_is (line_text st) st" "at_point st" "-1 \<le> rl_saved_point st"
    using assms by (simp_all add: browsing_def)
  have inv: "hist_inv ?h" and off: "history_offset ?h = int ?k" using ok(1) by (simp_all add: lines_ok_def)
  show ?thesis
  proof (cases "?k < length (hist_lines ?h) \<and> snd (hist_lines ?h ! ?k) \<noteq> rl_undo_list st")
    case False
    have "rl_maybe_replace_line st = Inr st"
    proof (cases "?k < length (hist_lines ?h)")
      case True
      from hist_lines_nth(4) [OF inv True] show ?thesis
        using True False current_run [OF ok(1)] hist_lines_nth(3) [OF inv True] by (auto simp: rl_maybe_replace_line_def)
    qed (simp add: rl_maybe_replace_line_def current_run [OF ok(1)])
    then show ?thesis using False assms by (intro exI [of _ ?h]) (auto simp: br_leave_def browse_of_def)
  next
    case True
    then have k: "?k < length (hist_lines ?h)" by simp
    from hist_lines_nth(3,4) [OF inv k] obtain e where e: "live ?h ! ?k \<noteq> 0" "entry (live ?h ! ?k) ?h = Inr e"
      "he_data e = snd (hist_lines ?h ! ?k)" by blast
    have nul: "NUL \<notin> set (line_text st)" using ok(3) by (simp add: line_is_def)
    from replace_free_run [OF ok(1) k nul, of "rl_undo_list st"] obtain h1 e1 h2 where
      h1: "replace_history_entry (int ?k) (Some (line_text st)) (rl_undo_list st) ?h = Inr (live ?h ! ?k, h1)"
        "entry (live ?h ! ?k) h1 = Inr e1" "free_entry (live ?h ! ?k) (st\<lparr>rl_history := h1\<rparr>) = Inr (st\<lparr>rl_history := h2\<rparr>)"
      and h2: "lines_ok h2" "hist_lines h2 = (hist_lines ?h)[?k := (line_text st, rl_undo_list st)]"
        "history_offset h2 = history_offset ?h" "hs_fresh h2 = Suc (hs_fresh ?h)"
        "set (live h2) \<subseteq> insert (hs_fresh ?h) (set (live ?h))"
        "\<forall>a. a \<notin> set (live ?h) \<longrightarrow> a < hs_fresh ?h \<longrightarrow> hs_heap h2 a = hs_heap ?h a" by blast
    have run: "rl_maybe_replace_line st = Inr (st\<lparr>rl_history := h2\<rparr>)"
      using current_run [OF ok(1)] True e buffer_string_run [OF ok(3)] h1 off
      by (simp add: rl_maybe_replace_line_def where_history_def)
    have same: "hs_heap h2 (rl_saved_line st) = hs_heap ?h (rl_saved_line st)" if "rl_saved_line st \<noteq> 0"
      using ok(2) that h2(6) by (simp add: saved_ok_def)
    have sok: "saved_ok (st\<lparr>rl_history := h2\<rparr>)" using ok(2) same h2(4,5) by (auto simp: saved_ok_def)
    have "browsing (st\<lparr>rl_history := h2\<rparr>)" using h2(1) sok ok by (simp add: browsing_def at_point_def)
    moreover have "browse_of (st\<lparr>rl_history := h2\<rparr>) = br_leave (browse_of st)"
      using True same h2(2,3) by (simp add: browse_of_def br_leave_def saved_entry_def)
    ultimately show ?thesis using run by blast
  qed
qed

lemma maybe_save_run:
  assumes "browsing st"
  shows "\<exists>h a. rl_maybe_save_line st = Inr (st\<lparr>rl_saved_line := a, rl_history := h\<rparr>) \<and> a \<noteq> 0 \<and>
    browsing (st\<lparr>rl_saved_line := a, rl_history := h\<rparr>) \<and>
    browse_of (st\<lparr>rl_saved_line := a, rl_history := h\<rparr>) = br_save (browse_of st)"
proof (cases "rl_saved_line st = 0")
  case False
  then show ?thesis
    using assms
    by (intro exI [of _ "rl_history st"] exI [of _ "rl_saved_line st"]) (simp add: rl_maybe_save_line_def br_save_def browse_of_def)
next
  case True
  let ?h = "rl_history st" and ?a = "hs_fresh (rl_history st)"
  let ?e = "\<lparr>he_line = Some (line_text st), he_time = None, he_data = rl_undo_list st\<rparr>"
  have ok: "lines_ok ?h" "line_is (line_text st) st" "at_point st" "-1 \<le> rl_saved_point st" using assms by (simp_all add: browsing_def)
  have inv: "hist_inv ?h" using ok(1) by (simp add: lines_ok_def)
  note fresh = heap_fresh(1) [OF inv]
  define h where "h = ?h\<lparr>hs_heap := (hs_heap ?h)(?a \<mapsto> ?e), hs_fresh := Suc ?a\<rparr>"
  have run: "rl_maybe_save_line st = Inr (st\<lparr>rl_saved_line := ?a, rl_history := h\<rparr>)"
    using True buffer_string_run [OF ok(2)]
    by (simp add: rl_maybe_save_line_def alloc_history_entry_def set_entry_def h_def)
  have lv: "live h = live ?h" "hist_abs h = hist_abs ?h"
    using heap_other(2,3) [OF fresh] heap_fresh(2,3) by (simp_all add: h_def)
  have "hist_inv h" using inv fresh unfolding hist_inv_def lv(1) by (auto simp: h_def less_Suc_eq cong: option.case_cong)
  then have lok: "lines_ok h" using ok(1) lv(2) by (simp add: lines_ok_def hist_lines_def h_def)
  have nz: "?a \<noteq> 0" using inv by (simp add: hist_inv_def)
  have nul: "NUL \<notin> set (line_text st)" using ok(2) by (simp add: line_is_def)
  have "saved_ok (st\<lparr>rl_saved_line := ?a, rl_history := h\<rparr>)" using fresh lv(1) nul by (simp add: saved_ok_def) (simp add: h_def)
  moreover have "line_text (st\<lparr>rl_saved_line := ?a, rl_history := h\<rparr>) = line_text st" by (simp add: line_text_def)
  ultimately have "browsing (st\<lparr>rl_saved_line := ?a, rl_history := h\<rparr>)"
    using lok ok line_is_cong [of "st\<lparr>rl_saved_line := ?a, rl_history := h\<rparr>" st] by (simp add: browsing_def at_point_def)
  moreover have "browse_of (st\<lparr>rl_saved_line := ?a, rl_history := h\<rparr>) = br_save (browse_of st)"
    using True nz lv(2) by (simp add: browse_of_def br_save_def saved_entry_def hist_lines_def line_text_def)
      (simp add: h_def line_text_def)
  ultimately show ?thesis using run nz by blast
qed

section \<open>Moving\<close>

lemma offset_simps:
  "live (h\<lparr>history_offset := i\<rparr>) = live h" "hist_lines (h\<lparr>history_offset := i\<rparr>) = hist_lines h"
  "slot k (h\<lparr>history_offset := i\<rparr>) = slot k h"
  by (simp_all add: live_def hist_lines_def hist_abs_def slot_def cong: option.case_cong)

lemma offset_ok:
  assumes "lines_ok h" and "0 \<le> i" "i \<le> history_length h"
  shows "lines_ok (h\<lparr>history_offset := i\<rparr>)"
proof -
  have inv: "hist_inv h" using assms(1) by (simp add: lines_ok_def)
  have "the_history h = None \<longrightarrow> i = 0" using inv assms(2,3) by (auto simp: hist_inv_def)
  then have "hist_inv (h\<lparr>history_offset := i\<rparr>)"
    using inv unfolding hist_inv_def offset_simps by (cases "the_history h") auto
  then show ?thesis using assms by (simp add: lines_ok_def offset_simps)
qed

lemma previous_run:
  "lines_ok h \<Longrightarrow> history_offset h = int p \<Longrightarrow> 0 < p \<Longrightarrow> 0 < n \<Longrightarrow>
    \<exists>temp. previous_entries n t o' h = Inr (temp, live h ! (p - n), h\<lparr>history_offset := int (p - n)\<rparr>) \<and>
      (temp = 0 \<or> temp = live h ! (p - n))"
proof (induction n arbitrary: h p t o')
  case (Suc n)
  let ?h = "h\<lparr>history_offset := int (p - 1)\<rparr>" and ?a = "live h ! (p - 1)"
  have inv: "hist_inv h" and le: "p \<le> length (hist_lines h)" using Suc.prems(1,2) length_lines [of h] by (auto simp: lines_ok_def)
  have pl: "p - 1 < length (hist_lines h)" using Suc.prems(3) le by simp
  note nth = hist_lines_nth(2,3) [OF inv pl]
  have "previous_history h = Inr (?a, ?h)"
    using Suc.prems(2,3) nth(1) by (simp add: previous_history_def offset_simps of_nat_diff)
  then have run: "previous_entries (Suc n) t o' h = previous_entries n ?a ?a ?h" using nth(2) by simp
  consider (one) "n = 0" | (first) "n \<noteq> 0" "p = 1" | (more) "n \<noteq> 0" "1 < p" using Suc.prems(3) by linarith
  then show ?case
  proof cases
    case one
    then show ?thesis unfolding run by simp
  next
    case first
    then have "previous_entries n ?a ?a ?h = Inr (0, ?a, ?h)" by (cases n) (simp_all add: previous_history_def)
    then show ?thesis unfolding run using first by simp
  next
    case more
    have "lines_ok ?h" using offset_ok [OF Suc.prems(1), of "int (p - 1)"] le length_lines [OF inv] by simp
    from Suc.IH [OF this, of "p - 1" ?a ?a] more show ?thesis unfolding run by (simp add: offset_simps)
  qed
qed simp

lemma next_run:
  "lines_ok h \<Longrightarrow> history_offset h = int p \<Longrightarrow> 0 < n \<Longrightarrow>
    next_entries n t h =
      (if p + n < length (hist_lines h) then Inr (live h ! (p + n), h\<lparr>history_offset := int (p + n)\<rparr>)
       else Inr (0, h\<lparr>history_offset := history_length h\<rparr>))"
proof (induction n arbitrary: h p t)
  case (Suc n)
  let ?L = "length (hist_lines h)"
  have inv: "hist_inv h" and le: "p \<le> ?L" using Suc.prems(1,2) length_lines [of h] by (auto simp: lines_ok_def)
  note len = length_lines [OF inv]
  show ?case
  proof (cases "p = ?L")
    case True
    then have "history_offset h = history_length h" using Suc.prems(2) len by simp
    then show ?thesis using True by (simp add: next_history_def)
  next
    case False
    let ?h = "h\<lparr>history_offset := int (Suc p)\<rparr>"
    have th: "the_history h \<noteq> None" using False le inv len by (cases "the_history h") (auto simp: hist_inv_def)
    have "next_history h = Inr (if Suc p < ?L then live h ! Suc p else 0, ?h)"
    proof (cases "Suc p < ?L")
      case True
      then show ?thesis
        using hist_lines_nth(2) [OF inv True] Suc.prems(2) len by (simp add: next_history_def offset_simps add.commute)
    next
      case last: False
      then have "history_length h = int p + 1" using False le len by simp
      then show ?thesis using end_slot [OF inv th] last Suc.prems(2) len by (simp add: next_history_def offset_simps add.commute)
    qed
    then have run: "next_entries (Suc n) t h = (if Suc p < ?L then next_entries n (live h ! Suc p) ?h else Inr (0, ?h))"
      using hist_lines_nth(3) [OF inv, of "Suc p"] by (cases "Suc p < ?L") simp_all
    show ?thesis
    proof (cases "Suc p < ?L \<and> n \<noteq> 0")
      case True
      have "lines_ok ?h" using offset_ok [OF Suc.prems(1), of "int (Suc p)"] True len by simp
      from Suc.IH [OF this, of "Suc p"] True run show ?thesis by (simp add: offset_simps)
    next
      case stop: False
      have "\<not> Suc p < ?L \<Longrightarrow> history_length h = int (Suc p)" using False le len by simp
      then show ?thesis using run stop by (auto simp: offset_simps)
    qed
  qed
qed simp

section \<open>Putting a line into the buffer\<close>

text \<open>The parts of a state the moves are about, without the edited line.\<close>

lemma saved_ok_cong:
  "rl_saved_line st' = rl_saved_line st \<Longrightarrow> rl_history st' = rl_history st \<Longrightarrow> saved_ok st' = saved_ok st"
  by (simp add: saved_ok_def)

lemma show_run:
  assumes "lines_ok (rl_history st)" and "saved_ok st" and "line_is t st" and "-1 \<le> rl_saved_point st"
    and "history_offset (rl_history st) = int p" and "p < length (hist_lines (rl_history st))"
  shows "\<exists>st'. bind_run (rl_replace_from_history (live (rl_history st) ! p) st) (\<lambda>st. Inr (rl_history_set_point st)) = Inr st' \<and>
    line_swapped st st' \<and> browsing st' \<and> browse_of st' = br_show p (browse_of st)"
proof -
  let ?h = "rl_history st" and ?l = "hist_lines (rl_history st) ! p"
  have inv: "hist_inv ?h" using assms(1) by (simp add: lines_ok_def)
  from hist_lines_nth(4) [OF inv assms(6)] obtain e where e: "entry (live ?h ! p) ?h = Inr e" "he_line e = Some (fst ?l)"
    "he_data e = snd ?l" by blast
  have nul: "NUL \<notin> set (fst ?l)" using assms(1,6) by (simp add: lines_ok_def)
  from replace_line_run [OF assms(3) nul] obtain b n q m where
    b: "rl_replace_line (fst ?l) False st =
        Inr (st\<lparr>rl_line_buffer := b, rl_line_buffer_len := n, rl_end := int (length (fst ?l)), rl_point := q, rl_mark := m\<rparr>)"
      "line_is (fst ?l) (st\<lparr>rl_line_buffer := b, rl_line_buffer_len := n, rl_end := int (length (fst ?l)), rl_point := q, rl_mark := m\<rparr>)"
    by blast
  define st' where "st' = rl_history_set_point (st\<lparr>rl_line_buffer := b, rl_line_buffer_len := n, rl_end := int (length (fst ?l)),
    rl_undo_list := snd ?l, rl_point := int (length (fst ?l)), rl_mark := 0\<rparr>)"
  have run: "bind_run (rl_replace_from_history (live ?h ! p) st) (\<lambda>st. Inr (rl_history_set_point st)) = Inr st'"
    using e b(1) by (simp add: rl_replace_from_history_def c_line_def st'_def)
  have f: "rl_history st' = ?h" "rl_saved_line st' = rl_saved_line st" "rl_undo_list st' = snd ?l"
    "rl_saved_point st' = rl_saved_point st" "rl_end st' = int (length (fst ?l))" "rl_line_buffer st' = b" "rl_line_buffer_len st' = n"
    by (simp_all add: st'_def rl_history_set_point_def Let_def)
  have l: "line_is (fst ?l) st'" using b(2) f(5-7) by (simp add: line_is_def)
  note t = line_text_is [OF l]
  have at: "at_point st'" "-1 \<le> rl_mark st'"
    using assms(4) by (auto simp: st'_def rl_history_set_point_def Let_def at_point_def)
  then have sw: "line_swapped st st'" by (simp add: line_swapped_def st'_def rl_history_set_point_def Let_def)
  have "browsing st'" using assms(1,2,4) f at l t saved_ok_cong [OF f(2,1)] by (simp add: browsing_def)
  moreover have "browse_of st' = br_show p (browse_of st)"
    using assms(5) by (simp add: browse_of_def br_show_def saved_entry_def f t)
  ultimately show ?thesis using run sw by blast
qed

lemma unsave_run:
  assumes "lines_ok (rl_history st)" and "saved_ok st" and "line_is (line_text st) st" and "-1 \<le> rl_saved_point st" and "at_point st"
    and "history_offset (rl_history st) = history_length (rl_history st)"
  shows "\<exists>st'. rl_maybe_unsave_line st = Inr st' \<and> line_swapped st st' \<and> browsing st' \<and>
    browse_of st' = br_unsave (browse_of st)"
proof (cases "rl_saved_line st = 0")
  case True
  have inv: "hist_inv (rl_history st)" using assms(1) by (simp add: lines_ok_def)
  have "browsing (rl_ding st)"
    using assms line_is_cong [of "rl_ding st" st] by (simp add: browsing_def rl_ding_def at_point_def saved_ok_def)
  moreover have "browse_of (rl_ding st) = br_unsave (browse_of st)"
    using True assms(6) length_lines [OF inv] by (simp add: browse_of_def br_unsave_def rl_ding_def)
  ultimately show ?thesis using True by (simp add: rl_maybe_unsave_line_def rl_ding_def)
next
  case False
  let ?h = "rl_history st" and ?a = "rl_saved_line st"
  have inv: "hist_inv ?h" using assms(1) by (simp add: lines_ok_def)
  from assms(2) False obtain e l where e: "?a \<notin> set (live ?h)" "hs_heap ?h ?a = Some e" "he_line e = Some l" "NUL \<notin> set l"
    by (auto simp: saved_ok_def)
  from replace_line_run [OF assms(3) e(4)] obtain b n q m where
    b: "rl_replace_line l False st =
        Inr (st\<lparr>rl_line_buffer := b, rl_line_buffer_len := n, rl_end := int (length l), rl_point := q, rl_mark := m\<rparr>)"
      "line_is l (st\<lparr>rl_line_buffer := b, rl_line_buffer_len := n, rl_end := int (length l), rl_point := q, rl_mark := m\<rparr>)"
      "-1 \<le> m" by blast
  let ?st = "st\<lparr>rl_line_buffer := b, rl_line_buffer_len := n, rl_end := int (length l), rl_point := q, rl_mark := m,
    rl_undo_list := he_data e\<rparr>"
  define h where "h = ?h\<lparr>hs_heap := (hs_heap ?h)(?a := None)\<rparr>"
  have free: "free_entry ?a ?st = Inr (?st\<lparr>rl_history := h\<rparr>)" "hist_inv h" "hist_abs h = hist_abs ?h"
    using free_outside [of ?st ?a e] inv e(1,2) False by (simp_all add: h_def)
  define st' where "st' = ?st\<lparr>rl_history := h, rl_saved_line := 0, rl_point := int (length l)\<rparr>"
  have run: "rl_maybe_unsave_line st = Inr st'"
    using False e(2,3) b(1) free(1)
    by (simp add: rl_maybe_unsave_line_def entry_def c_line_def free_saved_history_line_def st'_def)
  have l: "line_is l st'" using b(2) by (simp add: line_is_def st'_def)
  note t = line_text_is [OF l]
  have lok: "lines_ok h" using assms(1) free(2,3) by (simp add: lines_ok_def hist_lines_def h_def)
  have "browsing st'" using lok l t assms(4) by (simp add: browsing_def saved_ok_def) (simp add: st'_def at_point_def)
  moreover have "browse_of st' = br_unsave (browse_of st)"
    using False assms(6) length_lines [OF inv] e(2,3) free(3) t
    by (simp add: browse_of_def br_unsave_def saved_entry_def hist_lines_def) (simp add: st'_def h_def)
  moreover have "line_swapped st st'" using b(3) by (simp add: line_swapped_def st'_def)
  ultimately show ?thesis using run by blast
qed

section \<open>The commands\<close>

lemma save_point_run:
  assumes "browsing st"
  shows "browsing (save_history_point st)" "browse_of (save_history_point st) = browse_of st"
    "line_swapped st (save_history_point st)"
proof -
  obtain i where i: "save_history_point st = st\<lparr>rl_saved_point := i\<rparr>" "-1 \<le> i"
  proof (cases "rl_saved_point st = -1 \<and> (rl_point st \<noteq> 0 \<or> rl_end st \<noteq> 0)")
    case True
    then show ?thesis
      using assms by (intro that [of "if rl_point st = rl_end st then -1 else rl_point st"])
        (auto simp: save_history_point_def browsing_def at_point_def)
  next
    case False
    then have "save_history_point st = st" by (auto simp: save_history_point_def)
    then show ?thesis using assms by (intro that [of "rl_saved_point st"]) (simp_all add: browsing_def)
  qed
  have l: "line_text (st\<lparr>rl_saved_point := i\<rparr>) = line_text st" by (simp add: line_text_def)
  show "browsing (save_history_point st)"
    unfolding i(1) using assms i(2) l line_is_cong [of "st\<lparr>rl_saved_point := i\<rparr>" st] by (simp add: browsing_def saved_ok_def at_point_def)
  show "browse_of (save_history_point st) = browse_of st" unfolding i(1) by (rule browse_frame(1))
  show "line_swapped st (save_history_point st)" unfolding i(1) by simp
qed

lemma browsing_facts:
  assumes "browsing st"
  shows "lines_ok (rl_history st)" "saved_ok st" "line_is (line_text st) st" "at_point st" "-1 \<le> rl_saved_point st"
    "history_offset (rl_history st) = int (br_pos (browse_of st))" "br_lines (browse_of st) = hist_lines (rl_history st)"
  using assms by (simp_all add: browsing_def browse_of_def lines_ok_def)

text \<open>The state after the loop over the history has set the position.\<close>

lemma at_offset:
  assumes "browsing st" and "p \<le> length (hist_lines (rl_history st))"
  defines "st' \<equiv> st\<lparr>rl_history := (rl_history st)\<lparr>history_offset := int p\<rparr>\<rparr>"
  shows "lines_ok (rl_history st')" "saved_ok st'" "line_is (line_text st') st'" "at_point st'" "-1 \<le> rl_saved_point st'"
    "live (rl_history st') = live (rl_history st)" "hist_lines (rl_history st') = hist_lines (rl_history st)"
    "browse_of st' = (browse_of st)\<lparr>br_pos := p\<rparr>"
proof -
  note f = browsing_facts [OF assms(1)]
  have len: "history_length (rl_history st) = int (length (hist_lines (rl_history st)))"
    using f(1) by (simp add: lines_ok_def length_lines)
  show "lines_ok (rl_history st')" using offset_ok [OF f(1), of "int p"] assms(2) len by (simp add: st'_def)
  show "live (rl_history st') = live (rl_history st)" "hist_lines (rl_history st') = hist_lines (rl_history st)"
    by (simp_all add: st'_def offset_simps)
  show "saved_ok st'" using f(2) by (simp add: saved_ok_def st'_def offset_simps)
  have "line_text st' = line_text st" by (simp add: line_text_def st'_def)
  then show "line_is (line_text st') st'" "at_point st'" "-1 \<le> rl_saved_point st'"
    using f(3-5) line_is_cong [of st' st] by (simp_all add: st'_def at_point_def)
  show "browse_of st' = (browse_of st)\<lparr>br_pos := p\<rparr>"
    by (simp add: browse_of_def st'_def offset_simps saved_entry_def line_text_def)
qed

lemma show_frame: "br_show p (b\<lparr>br_pos := q\<rparr>) = br_show p b" "br_unsave (b\<lparr>br_pos := q\<rparr>) = br_unsave b"
  by (simp_all add: br_show_def br_unsave_def Let_def split: option.splits)

lemma previous_lines_run:
  assumes "browsing st" and "0 < count"
  shows "\<exists>st'. previous_lines count st = Inr (0, st') \<and> line_swapped st st' \<and> browsing st' \<and>
    browse_of st' = move_back (nat count) (browse_of st)"
proof -
  note sp = save_point_run [OF assms(1)]
  from maybe_save_run [OF sp(1)] obtain h1 a where s: "rl_maybe_save_line (save_history_point st) =
      Inr (save_history_point st\<lparr>rl_saved_line := a, rl_history := h1\<rparr>)"
    "browsing (save_history_point st\<lparr>rl_saved_line := a, rl_history := h1\<rparr>)"
    "browse_of (save_history_point st\<lparr>rl_saved_line := a, rl_history := h1\<rparr>) = br_save (browse_of st)" by (auto simp: sp(2))
  let ?st1 = "save_history_point st\<lparr>rl_saved_line := a, rl_history := h1\<rparr>"
  from maybe_replace_run [OF s(2)] obtain h2 where r: "rl_maybe_replace_line ?st1 = Inr (?st1\<lparr>rl_history := h2\<rparr>)"
    "browsing (?st1\<lparr>rl_history := h2\<rparr>)" "browse_of (?st1\<lparr>rl_history := h2\<rparr>) = br_leave (br_save (browse_of st))"
    by (auto simp only: s(3))
  define st2 where "st2 = ?st1\<lparr>rl_history := h2\<rparr>"
  have h2: "rl_history st2 = h2" by (simp add: st2_def)
  define b where "b = br_leave (br_save (browse_of st))"
  have b2: "browsing st2" "browse_of st2 = b" using r(2,3) by (simp_all only: st2_def b_def)
  have sw: "line_swapped st st2"
    by (rule swapped_trans [OF sp(3) swapped_trans [OF swapped_simps(4) [where a = a and h = h1]]]) (simp only: st2_def swapped_simps)
  note f = browsing_facts [OF b2(1), unfolded h2 b2(2)]
  have run: "previous_lines count st = bind_run (previous_entries (nat count) 0 0 h2) (\<lambda>(temp, old_temp, h).
      let st = st2\<lparr>rl_history := h\<rparr>; temp = (if temp = 0 \<and> old_temp \<noteq> 0 then old_temp else temp) in
      bind_run (if temp = 0 then Inr (rl_ding st)
                else bind_run (rl_replace_from_history temp st) (\<lambda>st. Inr (rl_history_set_point st))) (\<lambda>st. Inr (0, st)))"
    using assms(2) s(1) r(1) by (simp add: previous_lines_def st2_def)
  show ?thesis
  proof (cases "br_pos b = 0")
    case True
    obtain m where m: "nat count = Suc m" using assms(2) by (cases "nat count") auto
    have "previous_history h2 = Inr (0, h2)" using f(6) True by (simp add: previous_history_def)
    then have "previous_lines count st = Inr (0, rl_ding st2)" unfolding run m by (simp add: h2 [symmetric])
    moreover have "browsing (rl_ding st2)"
      using b2(1) line_is_cong [of "rl_ding st2" st2] by (simp add: browsing_def saved_ok_def at_point_def rl_ding_def)
    moreover have "browse_of (rl_ding st2) = move_back (nat count) (browse_of st)"
      using True b2(2) browse_frame(2) assms(2) by (simp add: rl_ding_def move_back_def b_def [symmetric])
    moreover have "line_swapped st (rl_ding st2)" using swapped_trans [OF sw] by (simp add: rl_ding_def)
    ultimately show ?thesis by blast
  next
    case False
    let ?p = "br_pos b - nat count"
    have pl: "?p < length (hist_lines h2)"
      using f(1,6) False assms(2) length_lines [of h2] by (auto simp: lines_ok_def)
    from previous_run [OF f(1,6), of "nat count" 0 0] False assms(2) obtain temp where
      t: "previous_entries (nat count) 0 0 h2 = Inr (temp, live h2 ! ?p, h2\<lparr>history_offset := int ?p\<rparr>)"
        "temp = 0 \<or> temp = live h2 ! ?p" by auto
    have nz: "live h2 ! ?p \<noteq> 0" using hist_lines_nth(3) [OF _ pl] f(1) by (simp add: lines_ok_def)
    define st3 where "st3 = st2\<lparr>rl_history := h2\<lparr>history_offset := int ?p\<rparr>\<rparr>"
    note a = at_offset [OF b2(1), unfolded h2, OF less_imp_le [OF pl], folded st3_def]
    have o: "history_offset (rl_history st3) = int ?p" by (simp add: st3_def)
    from show_run [OF a(1-3,5) o] pl obtain st4 where
      st4: "bind_run (rl_replace_from_history (live h2 ! ?p) st3) (\<lambda>st. Inr (rl_history_set_point st)) = Inr st4"
        "line_swapped st3 st4" "browsing st4" "browse_of st4 = br_show ?p b" by (auto simp: a(6-8) b2(2) show_frame)
    have "previous_lines count st = Inr (0, st4)"
      unfolding run t(1) using t(2) nz st4(1) by (auto simp: Let_def st3_def [symmetric])
    moreover have "line_swapped st st4" using swapped_trans [OF sw swapped_trans [OF _ st4(2)]] by (simp add: st3_def)
    moreover have "br_show ?p b = move_back (nat count) (browse_of st)"
      using False assms(2) by (simp add: move_back_def b_def [symmetric])
    ultimately show ?thesis using st4(3,4) by metis
  qed
qed

lemma next_lines_run:
  assumes "browsing st" and "0 < count"
  shows "\<exists>st'. next_lines count st = Inr (0, st') \<and> line_swapped st st' \<and> browsing st' \<and>
    browse_of st' = move_on (nat count) (browse_of st)"
proof -
  from maybe_replace_run [OF assms(1)] obtain h1 where r: "rl_maybe_replace_line st = Inr (st\<lparr>rl_history := h1\<rparr>)"
    "browsing (st\<lparr>rl_history := h1\<rparr>)" "browse_of (st\<lparr>rl_history := h1\<rparr>) = br_leave (browse_of st)" by blast
  note sp = save_point_run [OF r(2)]
  define st2 where "st2 = save_history_point (st\<lparr>rl_history := h1\<rparr>)"
  define b where "b = br_leave (browse_of st)"
  have b2: "browsing st2" "browse_of st2 = b" using sp(1,2) r(3) by (simp_all only: st2_def b_def)
  have sw: "line_swapped st st2" unfolding st2_def by (rule swapped_trans [OF _ sp(3)]) simp
  define h2 where "h2 = rl_history st2"
  note f = browsing_facts [OF b2(1), unfolded h2_def [symmetric] b2(2)]
  have len: "history_length h2 = int (length (hist_lines h2))" using f(1) by (simp add: lines_ok_def length_lines)
  have run: "next_lines count st = bind_run (next_entries (nat count) 0 h2) (\<lambda>(temp, h).
      let st = st2\<lparr>rl_history := h\<rparr> in
      bind_run (if temp = 0 then rl_maybe_unsave_line st
                else bind_run (rl_replace_from_history temp st) (\<lambda>st. Inr (rl_history_set_point st))) (\<lambda>st. Inr (0, st)))"
    using assms(2) r(1) by (simp add: next_lines_def st2_def h2_def Let_def)
  have c: "0 < nat count" using assms(2) by simp
  show ?thesis
  proof (cases "br_pos b + nat count < length (hist_lines h2)")
    case True
    let ?p = "br_pos b + nat count"
    have nz: "live h2 ! ?p \<noteq> 0" using hist_lines_nth(3) [OF _ True] f(1) by (simp add: lines_ok_def)
    define st3 where "st3 = st2\<lparr>rl_history := h2\<lparr>history_offset := int ?p\<rparr>\<rparr>"
    note a = at_offset [OF b2(1), folded h2_def, OF less_imp_le [OF True], folded st3_def]
    have o: "history_offset (rl_history st3) = int ?p" by (simp add: st3_def)
    from show_run [OF a(1-3,5) o] True obtain st4 where
      st4: "bind_run (rl_replace_from_history (live h2 ! ?p) st3) (\<lambda>st. Inr (rl_history_set_point st)) = Inr st4"
        "line_swapped st3 st4" "browsing st4" "browse_of st4 = br_show ?p b" by (auto simp: a(6-8) b2(2) show_frame)
    have "next_lines count st = Inr (0, st4)"
      unfolding run next_run [OF f(1,6) c] using True nz st4(1) assms(2) by (simp add: Let_def st3_def)
    moreover have "line_swapped st st4" using swapped_trans [OF sw swapped_trans [OF _ st4(2)]] by (simp add: st3_def)
    moreover have "br_show ?p b = move_on (nat count) (browse_of st)"
      using True c f(7) by (simp add: move_on_def b_def [symmetric])
    ultimately show ?thesis using st4(3,4) by metis
  next
    case False
    let ?n = "length (hist_lines h2)"
    define st3 where "st3 = st2\<lparr>rl_history := h2\<lparr>history_offset := int ?n\<rparr>\<rparr>"
    note a = at_offset [OF b2(1), folded h2_def, OF order_refl, folded st3_def]
    have o: "history_offset (rl_history st3) = history_length (rl_history st3)" by (simp add: st3_def len)
    from unsave_run [OF a(1-3,5,4) o] obtain st4 where st4: "rl_maybe_unsave_line st3 = Inr st4" "line_swapped st3 st4"
      "browsing st4" "browse_of st4 = br_unsave b" by (auto simp: a(8) b2(2) show_frame)
    have "next_lines count st = Inr (0, st4)"
      unfolding run next_run [OF f(1,6) c] using False st4(1) by (simp add: Let_def st3_def len)
    moreover have "line_swapped st st4" using swapped_trans [OF sw swapped_trans [OF _ st4(2)]] by (simp add: st3_def)
    moreover have "br_unsave b = move_on (nat count) (browse_of st)"
      using False c f(7) by (simp add: move_on_def b_def [symmetric])
    ultimately show ?thesis using st4(3,4) by metis
  qed
qed

lemma end_of_history_run:
  assumes "browsing st"
  shows "\<exists>st'. rl_end_of_history st = Inr (0, st') \<and> line_swapped st st' \<and> browsing st' \<and>
    browse_of st' = br_unsave (br_leave (browse_of st))"
proof -
  from maybe_replace_run [OF assms] obtain h1 where r: "rl_maybe_replace_line st = Inr (st\<lparr>rl_history := h1\<rparr>)"
    "browsing (st\<lparr>rl_history := h1\<rparr>)" "browse_of (st\<lparr>rl_history := h1\<rparr>) = br_leave (browse_of st)" by blast
  define st1 where "st1 = st\<lparr>rl_history := h1\<rparr>"
  let ?n = "length (hist_lines h1)"
  have h1: "rl_history st1 = h1" by (simp add: st1_def)
  have len: "history_length h1 = int ?n" using r(2) by (simp add: browsing_def lines_ok_def length_lines)
  define st2 where "st2 = st1\<lparr>rl_history := h1\<lparr>history_offset := int ?n\<rparr>\<rparr>"
  note a = at_offset [OF r(2) [folded st1_def], unfolded h1, OF order_refl, folded st2_def]
  have o: "history_offset (rl_history st2) = history_length (rl_history st2)" by (simp add: st2_def len)
  from unsave_run [OF a(1-3,5,4) o] obtain st4 where st4: "rl_maybe_unsave_line st2 = Inr st4" "line_swapped st2 st4"
    "browsing st4" "browse_of st4 = br_unsave (br_leave (browse_of st))" by (auto simp: a(8) r(3) [folded st1_def] show_frame)
  have "using_history h1 = h1\<lparr>history_offset := int ?n\<rparr>" by (simp add: using_history_def len)
  then have "rl_end_of_history st = Inr (0, st4)" using r(1) st4(1) by (simp add: rl_end_of_history_def st2_def st1_def)
  moreover have "line_swapped st st4" by (rule swapped_trans [OF _ st4(2)]) (simp add: st2_def st1_def)
  ultimately show ?thesis using st4(3,4) by blast
qed

section \<open>Sessions of moves\<close>

datatype browse_op = Go_Back int | Go_On int | Go_First | Go_End

definition browse_step :: "browse_op \<Rightarrow> rl_state \<Rightarrow> rl_state run" where
  "browse_step op st =
     bind_run (case op of
         Go_Back n \<Rightarrow> rl_get_previous_history n st
       | Go_On n \<Rightarrow> rl_get_next_history n st
       | Go_First \<Rightarrow> rl_beginning_of_history st
       | Go_End \<Rightarrow> rl_end_of_history st) (\<lambda>(_, st). Inr st)"

definition browse_spec :: "browse_op \<Rightarrow> browse \<Rightarrow> browse" where
  "browse_spec op b =
     (case op of
        Go_Back n \<Rightarrow> if n < 0 then move_on (nat (- n)) b else move_back (nat n) b
      | Go_On n \<Rightarrow> if n < 0 then move_back (nat (- n)) b else move_on (nat n) b
      | Go_First \<Rightarrow> move_back (Suc (br_pos b)) b
      | Go_End \<Rightarrow> br_unsave (br_leave b))"

definition browse_allowed :: "browse_op \<Rightarrow> browse \<Rightarrow> bool" where
  "browse_allowed op b \<longleftrightarrow>
     (case op of
        Go_Back n \<Rightarrow> \<bar>n\<bar> < 2 ^ 31
      | Go_On n \<Rightarrow> \<bar>n\<bar> < 2 ^ 31
      | Go_First \<Rightarrow> int (br_pos b) + 1 < 2 ^ 31
      | Go_End \<Rightarrow> True)"

lemma negated_count: "\<bar>n\<bar> < 2 ^ 31 \<Longrightarrow> n < 0 \<Longrightarrow> negated n = Inr (- n)"
  by (simp add: negated_def wrap32_id int32_def)

lemma previous_history_run:
  assumes "browsing st" and "\<bar>n\<bar> < 2 ^ 31"
  shows "\<exists>st'. rl_get_previous_history n st = Inr (0, st') \<and> line_swapped st st' \<and> browsing st' \<and>
      browse_of st' = browse_spec (Go_Back n) (browse_of st)"
    "\<exists>st'. rl_get_next_history n st = Inr (0, st') \<and> line_swapped st st' \<and> browsing st' \<and>
      browse_of st' = browse_spec (Go_On n) (browse_of st)"
proof -
  consider "n < 0" | "n = 0" | "0 < n" by linarith
  then show "\<exists>st'. rl_get_previous_history n st = Inr (0, st') \<and> line_swapped st st' \<and> browsing st' \<and>
      browse_of st' = browse_spec (Go_Back n) (browse_of st)"
  proof cases
    case 2
    then show ?thesis using assms(1) by (simp add: rl_get_previous_history_def previous_lines_def browse_spec_def move_back_def)
  qed (use previous_lines_run [OF assms(1), of n] next_lines_run [OF assms(1), of "- n"] negated_count [OF assms(2)]
      in \<open>auto simp: rl_get_previous_history_def browse_spec_def\<close>)
  consider "n < 0" | "n = 0" | "0 < n" by linarith
  then show "\<exists>st'. rl_get_next_history n st = Inr (0, st') \<and> line_swapped st st' \<and> browsing st' \<and>
      browse_of st' = browse_spec (Go_On n) (browse_of st)"
  proof cases
    case 2
    then show ?thesis using assms(1) by (simp add: rl_get_next_history_def next_lines_def browse_spec_def move_on_def)
  qed (use next_lines_run [OF assms(1), of n] previous_lines_run [OF assms(1), of "- n"] negated_count [OF assms(2)]
      in \<open>auto simp: rl_get_next_history_def browse_spec_def\<close>)
qed

lemma browse_step_run:
  assumes "browsing st" and "browse_allowed op (browse_of st)"
  shows "\<exists>st'. browse_step op st = Inr st' \<and> line_swapped st st' \<and> browsing st' \<and> browse_of st' = browse_spec op (browse_of st)"
proof (cases op)
  case Go_First
  have "history_offset (rl_history st) = int (br_pos (browse_of st))" by (rule browsing_facts(6) [OF assms(1)])
  then have "wrap32 (1 + where_history (rl_history st)) = int (Suc (br_pos (browse_of st)))"
    using assms(2) Go_First by (simp add: browse_allowed_def where_history_def wrap32_id int32_def)
  moreover have "\<bar>int (Suc (br_pos (browse_of st)))\<bar> < 2 ^ 31" using assms(2) Go_First by (simp add: browse_allowed_def)
  ultimately show ?thesis
    using previous_history_run(1) [OF assms(1), of "int (Suc (br_pos (browse_of st)))"] Go_First
    by (auto simp: browse_step_def browse_spec_def rl_beginning_of_history_def nat_add_distrib)
qed (use previous_history_run [OF assms(1)] end_of_history_run [OF assms(1)] assms(2)
    in \<open>fastforce simp: browse_step_def browse_allowed_def browse_spec_def\<close>)+

interpretation browse: refined_component browse_step browsing browse_of browse_spec browse_allowed
  using browse_step_run by unfold_locales blast

text \<open>C3: The history commands implement the list of lines. Every sequence of moves, with counts of 32 bits, runs without a
  fault, and what it does to the edited line, the lines of the history, the position and the line kept apart is what the
  moves do on the list; a line that is left takes its text and its undo list along.\<close>

theorem history_moves_refine:
  assumes "browsing st" and "ops_allowed browse_allowed browse_spec ops (browse_of st)"
  shows "\<exists>st'. run_ops browse_step ops st = Inr st' \<and> browsing st' \<and> browse_of st' = fold browse_spec ops (browse_of st)"
  by (rule browse.session_refines [OF assms])

text \<open>A history of two lines, before anything is typed.\<close>

lemma two_lines:
  "\<exists>h. run_ops (hist_step NUL) [Add 5 ''ls'', Add 6 ''cd''] (hist_start 9) = Inr h \<and> lines_ok h \<and>
    hist_lines h = [(''ls'', 0), (''cd'', 0)]"
proof -
  let ?cs = "[Add 5 ''ls'', Add 6 ''cd'']"
  have "ops_allowed hist_allowed (hist_spec_step NUL) ?cs spec_start" by (simp add: hist_allowed_def)
  from session_from_start [OF this, of 9] obtain h where h: "run_ops (hist_step NUL) ?cs (hist_start 9) = Inr h" "hist_inv h"
    "hist_abs h = fold (hist_spec_step NUL) ?cs spec_start" by blast
  have l: "hist_lines h = [(''ls'', 0), (''cd'', 0)]"
    by (simp add: hist_lines_def h(3) hist_spec_step_def spec_start_def Let_def)
  have "history_offset h = 0" using arg_cong [OF h(3), of sp_offset]
    by (simp add: hist_spec_step_def spec_start_def Let_def) (simp add: hist_abs_def)
  moreover have "NUL \<notin> set ''ls''" "NUL \<notin> set ''cd''" by code_simp+
  ultimately have "lines_ok h" using h(2) l by (simp add: lines_ok_def length_lines)
  then show ?thesis using h(1) l by blast
qed

lemma started_browsing:
  assumes "lines_ok h"
  shows "browsing (started c h)" "rl_saved_line (started c h) = 0" "line_text (started c h) = ''''"
    "rl_history (started c h) = using_history h" "rl_undo_list (started c h) = 0"
proof -
  show "rl_saved_line (started c h) = 0" "rl_history (started c h) = using_history h" "rl_undo_list (started c h) = 0"
    by (simp_all add: started_def rl_static_def)
  show "line_text (started c h) = ''''" by (simp add: started_def rl_static_def line_text_def)
  moreover have "rl_saved_point (started c h) = -1" "rl_saved_line (started c h) = 0" "rl_history (started c h) = using_history h"
    by (simp_all add: started_def rl_static_def)
  ultimately show "browsing (started c h)"
    using ready_line(1,2) [OF started_ready [OF assms, of c]] using_history_lines [OF assms]
    by (simp add: browsing_def saved_ok_def)
qed

lemma started_browse:
  assumes "lines_ok h"
  shows "browse_of (started c h) = \<lparr>br_lines = hist_lines h, br_pos = length (hist_lines h), br_saved = None, br_line = ('''', 0)\<rparr>"
  using started_browsing [OF assms] using_history_lines [OF assms] assms
  by (simp add: browse_of_def) (simp add: using_history_def lines_ok_def length_lines)

theorem history_moves_refine_witness:
  "\<exists>h st. lines_ok h \<and> hist_lines h = [(''ls'', 0), (''cd'', 0)] \<and>
    run_ops browse_step [Go_Back 1, Go_Back 5, Go_On 1] (started CHR ''?'' h) = Inr st \<and> line_text st = ''cd''"
proof -
  from two_lines obtain h where h: "lines_ok h" "hist_lines h = [(''ls'', 0), (''cd'', 0)]" by blast
  note b = started_browse [OF h(1), of "CHR ''?''"]
  let ?ops = "[Go_Back 1, Go_Back 5, Go_On 1]"
  have "ops_allowed browse_allowed browse_spec ?ops (browse_of (started CHR ''?'' h))"
    by (simp add: browse_allowed_def)
  from history_moves_refine [OF started_browsing(1) [OF h(1)] this] obtain st where
    st: "run_ops browse_step ?ops (started CHR ''?'' h) = Inr st"
    "browse_of st = fold browse_spec ?ops (browse_of (started CHR ''?'' h))" by blast
  have "br_line (browse_of st) = (''cd'', 0)"
    unfolding st(2) b h(2)
    by (simp add: browse_spec_def move_back_def move_on_def br_leave_def br_save_def br_show_def Let_def)
  then show ?thesis using h st(1) by (auto simp: browse_of_def)
qed

text \<open>Only moves: the line typed comes back, and the history stays.\<close>

definition kept :: "string \<times> nat \<Rightarrow> (string \<times> nat) list \<Rightarrow> browse \<Rightarrow> bool" where
  "kept l ls b \<longleftrightarrow>
     br_lines b = ls \<and> br_pos b \<le> length ls \<and>
     (if br_pos b = length ls then br_line b = l \<and> br_saved b = None
      else br_line b = ls ! br_pos b \<and> br_saved b = Some l)"

lemma kept_leave: "kept l ls b \<Longrightarrow> br_leave b = b"
  by (auto simp: kept_def br_leave_def)

lemma kept_save: "kept l ls b \<Longrightarrow> br_leave (br_save b) = br_save b \<and> br_saved (br_save b) = Some l"
  by (auto simp: kept_def br_leave_def br_save_def split: if_splits)

lemma kept_back:
  assumes "ls \<noteq> []" and "kept l ls b"
  shows "kept l ls (move_back n b)"
proof -
  note s = kept_save [OF assms(2)]
  have p: "br_pos (br_save b) = br_pos b" "br_lines (br_save b) = ls" "br_line (br_save b) = br_line b" "br_pos b \<le> length ls"
    using assms(2) by (simp_all add: kept_def br_save_def)
  show ?thesis
  proof (cases "n = 0 \<or> br_pos b = 0")
    case True
    then have "br_pos b = 0 \<Longrightarrow> br_line b = ls ! 0" using assms by (simp add: kept_def)
    then show ?thesis using True assms s p by (auto simp: move_back_def kept_def Let_def)
  next
    case False
    then have "move_back n b = br_show (br_pos b - n) (br_save b)" using s p(1) by (simp add: move_back_def)
    moreover have "br_pos b - n < length ls" using False p(4) by linarith
    ultimately show ?thesis using False s p by (simp add: kept_def br_show_def)
  qed
qed

lemma kept_end: "kept l ls b \<Longrightarrow> br_unsave b = b\<lparr>br_pos := length ls, br_line := l, br_saved := None\<rparr>"
  by (auto simp: kept_def br_unsave_def Let_def split: if_splits)

lemma kept_on: "kept l ls b \<Longrightarrow> kept l ls (move_on n b)"
  using kept_leave [of l ls b] kept_end [of l ls b] by (auto simp: kept_def move_on_def br_show_def Let_def)

lemma kept_step: "ls \<noteq> [] \<Longrightarrow> kept l ls b \<Longrightarrow> kept l ls (browse_spec op b)"
  using kept_leave [of l ls b] kept_end [of l ls b]
  by (cases op) (auto simp: browse_spec_def kept_back kept_on, simp add: kept_def)

lemma kept_steps: "ls \<noteq> [] \<Longrightarrow> kept l ls b \<Longrightarrow> kept l ls (fold browse_spec ops b)"
  by (induction ops arbitrary: b) (simp_all add: kept_step)

text \<open>Looking through the history loses nothing. From the line that is typed, with a history that is not empty, every
  sequence of moves shows the line of the history at the position, changes no line of the history, and
  \<open>rl_end_of_history\<close> brings back the typed line with its undo list.\<close>

theorem history_round_trip:
  assumes "browsing st" and "rl_saved_line st = 0" and "hist_lines (rl_history st) \<noteq> []"
    and "history_offset (rl_history st) = history_length (rl_history st)"
    and "ops_allowed browse_allowed browse_spec ops (browse_of st)"
  shows "\<exists>st1 st2. run_ops browse_step ops st = Inr st1 \<and> hist_lines (rl_history st1) = hist_lines (rl_history st) \<and>
    (history_offset (rl_history st1) < history_length (rl_history st1) \<longrightarrow>
      line_text st1 = fst (hist_lines (rl_history st) ! nat (history_offset (rl_history st1)))) \<and>
    rl_end_of_history st1 = Inr (0, st2) \<and> line_text st2 = line_text st \<and> rl_undo_list st2 = rl_undo_list st \<and>
    hist_lines (rl_history st2) = hist_lines (rl_history st)"
proof -
  let ?l = "(line_text st, rl_undo_list st)" and ?ls = "hist_lines (rl_history st)"
  have inv: "hist_inv (rl_history st)" using assms(1) by (simp add: browsing_def lines_ok_def)
  have k: "kept ?l ?ls (browse_of st)" using assms(2,4) length_lines [OF inv] by (simp add: kept_def browse_of_def)
  from browse.session_refines [OF assms(1,5)] obtain st1 where st1: "run_ops browse_step ops st = Inr st1" "browsing st1"
    "browse_of st1 = fold browse_spec ops (browse_of st)" by blast
  have k1: "kept ?l ?ls (browse_of st1)" unfolding st1(3) by (rule kept_steps [OF assms(3) k])
  note f = browsing_facts(1,6,7) [OF st1(2)]
  have l1: "hist_lines (rl_history st1) = ?ls" using k1 f(3) by (simp add: kept_def)
  have len1: "history_length (rl_history st1) = int (length ?ls)" using f(1) l1 by (simp add: lines_ok_def length_lines)
  have "br_line (browse_of st1) = ?ls ! br_pos (browse_of st1)" if "br_pos (browse_of st1) < length ?ls"
    using k1 that by (simp add: kept_def)
  moreover have "line_text st1 = fst (br_line (browse_of st1))" by (simp add: browse_of_def)
  ultimately have shown: "history_offset (rl_history st1) < history_length (rl_history st1) \<longrightarrow>
      line_text st1 = fst (?ls ! nat (history_offset (rl_history st1)))"
    unfolding len1 f(2) by simp
  from end_of_history_run [OF st1(2)] obtain st2 where st2: "rl_end_of_history st1 = Inr (0, st2)"
    "browse_of st2 = br_unsave (browse_of st1)" by (auto simp: kept_leave [OF k1])
  have "br_line (browse_of st2) = ?l" "br_lines (browse_of st2) = ?ls"
    unfolding st2(2) kept_end [OF k1] using k1 by (simp_all add: kept_def)
  then show ?thesis using st1(1) l1 shown st2(1) by (auto simp: browse_of_def)
qed

theorem history_round_trip_witness:
  "\<exists>h st1 st2. lines_ok h \<and> hist_lines h = [(''ls'', 0), (''cd'', 0)] \<and>
    run_ops browse_step [Go_First, Go_On 1] (started CHR ''?'' h) = Inr st1 \<and> rl_end_of_history st1 = Inr (0, st2) \<and>
    line_text st2 = '''' \<and> hist_lines (rl_history st2) = [(''ls'', 0), (''cd'', 0)]"
proof -
  from two_lines obtain h where h: "lines_ok h" "hist_lines h = [(''ls'', 0), (''cd'', 0)]" by blast
  let ?st = "started CHR ''?'' h"
  have inv: "hist_inv h" using h(1) by (simp add: lines_ok_def)
  note s = started_browsing [OF h(1), of "CHR ''?''"] and u = using_history_lines [OF h(1)]
  have "hist_lines (rl_history ?st) \<noteq> []" "history_offset (rl_history ?st) = history_length (rl_history ?st)"
    using s(4) u h(2) by (simp_all add: using_history_def)
  moreover have "ops_allowed browse_allowed browse_spec [Go_First, Go_On 1] (browse_of ?st)"
    by (simp add: browse_allowed_def started_browse [OF h(1)] h(2))
  ultimately show ?thesis
    using history_round_trip [OF s(1,2), of "[Go_First, Go_On 1]"] h s(3,4) u by auto
qed

end
