(* ===== verification/Rl_Accept_Spec.thy ===== *)
theory Rl_Accept_Spec
  imports Rl_Browse_Spec
begin

text \<open>
  Accepting a line, and where history and editing do not fit together: what is typed between two moves with an empty
  history, and a character that prolongs the last undo entry of a line of the history, are lost.
\<close>

section \<open>Accepting a line\<close>

lemma free_undos_run:
  "undo_chain (rl_undos st) (rl_undo_list st) es \<Longrightarrow> length es \<le> n \<Longrightarrow>
    \<exists>u. free_undos n st = Inr (st\<lparr>rl_undos := u, rl_undo_list := 0\<rparr>)"
proof (induction es arbitrary: n st)
  case Nil
  then have "rl_undo_list st = 0" by simp
  then have "free_undos n st = Inr (st\<lparr>rl_undos := rl_undos st, rl_undo_list := 0\<rparr>)" by (cases n) simp_all
  then show ?case by blast
next
  case (Cons e es)
  obtain m where n: "n = Suc m" "length es \<le> m" using Cons.prems(2) by (cases n) auto
  let ?a = "rl_undo_list st"
  let ?st = "st\<lparr>rl_undo_list := ue_next e, rl_undos := (rl_undos st)(?a := None)\<rparr>"
  have "undo_chain (rl_undos ?st) (rl_undo_list ?st) es" using Cons.prems(1) chain_update by simp
  from Cons.IH [OF this n(2)] obtain u where "free_undos m ?st = Inr (?st\<lparr>rl_undos := u, rl_undo_list := 0\<rparr>)" by blast
  then show ?case using Cons.prems(1) n(1) by (intro exI [of _ u]) (simp add: undo_at_def free_undo_def)
qed

lemma free_undo_list_run:
  assumes "lined base st"
  shows "\<exists>u hs. rl_free_undo_list st = Inr (st\<lparr>rl_undos := u, rl_undo_list := 0, rl_history := hs\<rparr>) \<and>
    lines_ok hs \<and> same_lines (rl_history st) hs"
proof -
  from assms obtain es where es: "undo_is es st" and ok: "lines_ok (rl_history st)" by (auto simp: lined_def)
  have "length es \<le> rl_fresh st" using es chain_length by (fastforce simp: undo_is_def)
  with free_undos_run [of st es "rl_fresh st"] es obtain u where
    u: "free_undos (rl_fresh st) st = Inr (st\<lparr>rl_undos := u, rl_undo_list := 0\<rparr>)" by (auto simp: undo_is_def)
  from replace_data_lines [OF ok, of "rl_undo_list st" 0] obtain hs where
    "replace_history_data (-1) (rl_undo_list st) 0 (rl_history st) = Inr hs" "lines_ok hs" "same_lines (rl_history st) hs"
    by (fastforce simp: same_lines_def)
  then show ?thesis using u by (intro exI [of _ u] exI [of _ hs]) (simp add: rl_free_undo_list_def Let_def)
qed

text \<open>A line of the history that was edited is put back before the text is given to the caller.\<close>

lemma restore_run:
  assumes "ready base st" and "nat (history_offset (rl_history st)) < length (hist_lines (rl_history st))" and "NUL \<notin> set (fst base)"
  shows "\<exists>st'. bind_run (buffer_string st) (\<lambda>temp.
      bind_run (rl_revert_line st) (\<lambda>(_, st).
      bind_run (buffer_string st) (\<lambda>line.
      bind_run (replace_history_entry (where_history (rl_history st)) (Some line) 0 (rl_history st)) (\<lambda>(a, h).
      bind_run (free_entry a (st\<lparr>rl_history := h\<rparr>)) (\<lambda>st.
      buf_put 0 (temp @ [NUL]) st))))) = Inr st' \<and> buffer_string st' = Inr (line_text st) \<and> rl_undo_list st' = 0 \<and>
    lines_ok (rl_history st') \<and> rl_revert_all_at_newline st' = rl_revert_all_at_newline st \<and>
    map fst (hist_lines (rl_history st')) = (map fst (hist_lines (rl_history st)))[nat (history_offset (rl_history st)) := fst base]"
proof -
  let ?t = "line_text st" and ?k = "nat (history_offset (rl_history st))"
  have l: "line_is ?t st" by (rule ready_line(1) [OF assms(1)])
  from revert_ready [OF assms(1)] obtain st1 where st1: "rl_revert_line st = Inr (0, st1)" "ready base st1" "line_text st1 = fst base"
    "rl_undo_list st1 = 0" "same_rest st st1" "undone st st1" by blast
  have ok1: "lines_ok (rl_history st1)" using st1(2) by (simp add: ready_def line_inv_def lined_def)
  have off: "history_offset (rl_history st1) = int ?k"
    and lines: "map fst (hist_lines (rl_history st1)) = map fst (hist_lines (rl_history st))"
    using st1(6) ok1 by (simp_all add: undone_def same_lines_def lines_ok_def)
  have k: "?k < length (hist_lines (rl_history st1))" using assms(2) arg_cong [OF lines, of length] by simp
  from replace_free_run [OF ok1 k assms(3), of 0] obtain h1 h2 where
    h: "replace_history_entry (int ?k) (Some (fst base)) 0 (rl_history st1) = Inr (live (rl_history st1) ! ?k, h1)"
      "free_entry (live (rl_history st1) ! ?k) (st1\<lparr>rl_history := h1\<rparr>) = Inr (st1\<lparr>rl_history := h2\<rparr>)" "lines_ok h2"
      "hist_lines h2 = (hist_lines (rl_history st1))[?k := (fst base, 0)]" by blast
  let ?b = "?t @ NUL # drop (Suc (length ?t)) (rl_line_buffer st1)"
  have len: "length ?t < length (rl_line_buffer st1)" using l st1(6) by (simp add: line_is_def undone_def)
  then have put: "buf_put 0 (?t @ [NUL]) (st1\<lparr>rl_history := h2\<rparr>) = Inr (st1\<lparr>rl_history := h2, rl_line_buffer := ?b\<rparr>)"
    by (simp add: buf_put_def put_bytes_def)
  have "NUL \<notin> set ?t" using l by (simp add: line_is_def)
  then have "buffer_string (st1\<lparr>rl_history := h2, rl_line_buffer := ?b\<rparr>) = Inr ?t"
    using cstr_of_append_NUL by (simp add: buffer_string_def block_string_def)
  moreover have "buffer_string st1 = Inr (fst base)" using buffer_string_run [OF ready_line(1) [OF st1(2)]] st1(3) by simp
  moreover have "rl_revert_all_at_newline st1 = rl_revert_all_at_newline st" using st1(5) by (elim same_restE) simp
  ultimately show ?thesis
    using buffer_string_run [OF l] st1(1,4) h put off lines
    by (intro exI [of _ "st1\<lparr>rl_history := h2, rl_line_buffer := ?b\<rparr>"]) (simp add: where_history_def map_update)
qed

lemma teardown_edited:
  assumes "ready base st" and "NUL \<notin> set (fst base)" and "\<not> rl_revert_all_at_newline st"
    and "rl_undo_list st \<noteq> 0" and "nat (history_offset (rl_history st)) < length (hist_lines (rl_history st))"
  shows "\<exists>st'. readline_internal_teardown False st = Inr (Some (line_text st), st') \<and> rl_undo_list st' = 0 \<and>
    lines_ok (rl_history st') \<and>
    map fst (hist_lines (rl_history st')) = (map fst (hist_lines (rl_history st)))[nat (history_offset (rl_history st)) := fst base]"
proof -
  have ok: "lines_ok (rl_history st)" using assms(1) by (simp add: ready_def line_inv_def lined_def)
  then have inv: "hist_inv (rl_history st)" by (simp add: lines_ok_def)
  from restore_run [OF assms(1,5,2)] obtain st1 where
    st1: "bind_run (buffer_string st) (\<lambda>temp.
      bind_run (rl_revert_line st) (\<lambda>(_, st).
      bind_run (buffer_string st) (\<lambda>line.
      bind_run (replace_history_entry (where_history (rl_history st)) (Some line) 0 (rl_history st)) (\<lambda>(a, h).
      bind_run (free_entry a (st\<lparr>rl_history := h\<rparr>)) (\<lambda>st.
      buf_put 0 (temp @ [NUL]) st))))) = Inr st1" "buffer_string st1 = Inr (line_text st)" "rl_undo_list st1 = 0"
    "lines_ok (rl_history st1)" "rl_revert_all_at_newline st1 = rl_revert_all_at_newline st"
    "map fst (hist_lines (rl_history st1)) = (map fst (hist_lines (rl_history st)))[nat (history_offset (rl_history st)) := fst base]"
    by blast
  have "buffer_string (st1\<lparr>rl_overwriting := False\<rparr>) = buffer_string st1" by (simp add: buffer_string_def)
  then have "readline_internal_teardown False st = Inr (Some (line_text st), st1\<lparr>rl_overwriting := False\<rparr>)"
    using assms(3-5) current_run [OF ok] hist_lines_nth(3) [OF inv assms(5)] st1(1,2,3,5)
    by (simp add: readline_internal_teardown_def)
  then show ?thesis using st1(3,4,6) by simp
qed

lemma teardown_typed:
  assumes "ready base st" and "\<not> rl_revert_all_at_newline st"
    and "\<not> (rl_undo_list st \<noteq> 0 \<and> nat (history_offset (rl_history st)) < length (hist_lines (rl_history st)))"
  shows "\<exists>st'. readline_internal_teardown False st = Inr (Some (line_text st), st') \<and> rl_undo_list st' = 0 \<and>
    lines_ok (rl_history st') \<and> map fst (hist_lines (rl_history st')) = map fst (hist_lines (rl_history st))"
proof -
  have ln: "lined base st" using assms(1) by (simp add: ready_def line_inv_def)
  then have ok: "lines_ok (rl_history st)" by (simp add: lined_def)
  note cur = current_run [OF ok]
  have "\<not> (current_history (rl_history st) \<noteq> Inr 0 \<and> rl_undo_list st \<noteq> 0)" using cur assms(3) by auto
  then have skip: "readline_internal_teardown False st =
      bind_run (if rl_undo_list st \<noteq> 0 then rl_free_undo_list st else Inr st) (\<lambda>st.
      bind_run (buffer_string (st\<lparr>rl_overwriting := False\<rparr>)) (\<lambda>line. Inr (Some line, st\<lparr>rl_overwriting := False\<rparr>)))"
    using cur assms(2) by (auto simp: readline_internal_teardown_def Let_def)
  from free_undo_list_run [OF ln] obtain u hs where f: "rl_free_undo_list st = Inr (st\<lparr>rl_undos := u, rl_undo_list := 0, rl_history := hs\<rparr>)"
    "lines_ok hs" "same_lines (rl_history st) hs" by blast
  have b: "buffer_string (st'\<lparr>rl_overwriting := False\<rparr>) = Inr (line_text st)" if "rl_line_buffer st' = rl_line_buffer st" for st'
    using buffer_string_run [OF ready_line(1) [OF assms(1)]] that by (simp add: buffer_string_def)
  show ?thesis
    unfolding skip using f b ok by (cases "rl_undo_list st = 0") (auto simp: same_lines_def)
qed

text \<open>Moves alone leave every line of the history as it is, and show it, or the empty line at the end.\<close>

definition untouched :: "(string \<times> nat) list \<Rightarrow> browse \<Rightarrow> bool" where
  "untouched ls b \<longleftrightarrow>
     (if ls = [] then br_lines b = [] \<and> br_pos b = 0 \<and> br_line b = ('''', 0) \<and> (br_saved b = None \<or> br_saved b = Some ('''', 0))
      else kept ('''', 0) ls b)"

lemma untouched_step: "untouched ls b \<Longrightarrow> untouched ls (browse_spec op b)"
proof (cases "ls = []")
  case True
  assume "untouched ls b"
  with True have b: "br_lines b = []" "br_pos b = 0" "br_line b = ('''', 0)" "br_saved b = None \<or> br_saved b = Some ('''', 0)"
    by (auto simp: untouched_def)
  have "untouched ls (move_on n b)" "untouched ls (move_back n b)" "untouched ls (br_unsave (br_leave b))" for n
    using b True by (auto simp: untouched_def move_on_def move_back_def br_leave_def br_save_def br_unsave_def Let_def)
  then show ?thesis by (cases op) (simp_all add: browse_spec_def)
qed (simp add: untouched_def kept_step)

lemma moves_run:
  "browsing st \<Longrightarrow> ops_allowed browse_allowed browse_spec ops (browse_of st) \<Longrightarrow> untouched ls (browse_of st) \<Longrightarrow>
    \<exists>st'. run_ops browse_step ops st = Inr st' \<and> line_swapped st st' \<and> browsing st' \<and> untouched ls (browse_of st')"
proof (induction ops arbitrary: st)
  case (Cons op ops)
  from browse_step_run [OF Cons.prems(1), of op] Cons.prems(2) obtain st1 where st1: "browse_step op st = Inr st1"
    "line_swapped st st1" "browsing st1" "browse_of st1 = browse_spec op (browse_of st)" by auto
  have "ops_allowed browse_allowed browse_spec ops (browse_of st1)" "untouched ls (browse_of st1)"
    using Cons.prems(2,3) st1(4) untouched_step by simp_all
  from Cons.IH [OF st1(3) this] obtain st' where "run_ops browse_step ops st1 = Inr st'" "line_swapped st1 st'" "browsing st'"
    "untouched ls (browse_of st')" by blast
  then show ?case using st1(1) swapped_trans [OF st1(2)] by (intro exI [of _ st']) simp
qed auto

lemma swapped_ready:
  assumes "line_swapped st st'" and "browsing st'" and "rest_ok st" and "0 < rl_fresh st" and "\<not> rl_doing_an_undo st"
    and "rl_undo_list st' = 0"
  shows "ready (line_text st', setting st') st'"
proof -
  from assms(1) obtain b n p e m u d h s q where
    st': "st' = st\<lparr>rl_line_buffer := b, rl_line_buffer_len := n, rl_point := p, rl_end := e, rl_mark := m, rl_undo_list := u,
      rl_dings := d, rl_history := h, rl_saved_line := s, rl_saved_point := q\<rparr>"
    and m: "-1 \<le> rl_mark st \<longrightarrow> -1 \<le> rl_mark st'" unfolding line_swapped_def by blast
  have f: "rl_fresh st' = rl_fresh st" "rl_doing_an_undo st' = rl_doing_an_undo st" "rl_comment_begin st' = rl_comment_begin st"
    "rl_last_command_was_kill st' = rl_last_command_was_kill st" by (simp_all add: st')
  have "ring_ok st' = ring_ok st" by (rule ring_ok_cong) (simp_all add: st')
  moreover have "rl_kill_ring st' = rl_kill_ring st" by (simp add: st')
  ultimately have "rest_ok st'" using assms(3) m f by (simp add: rest_ok_def)
  moreover have "undo_is [] st'" using assms(4,6) f by (simp add: undo_is_def)
  ultimately show ?thesis
    using assms(2,5) f(2) by (auto simp: browsing_def ready_def line_inv_def lined_def intro!: exI [of _ "[]"])
qed

text \<open>A line that is shown as it is in the history, and the empty line behind it.\<close>

definition shown :: "string list \<Rightarrow> rl_state \<Rightarrow> bool" where
  "shown ls st \<longleftrightarrow>
     ready (line_text st, setting st) st \<and> map fst (hist_lines (rl_history st)) = ls \<and> \<not> rl_revert_all_at_newline st \<and>
     (let k = nat (history_offset (rl_history st)) in line_text st = (if k < length ls then ls ! k else ''''))"

lemma moves_shown:
  assumes "lines_ok h" and "\<forall>l \<in> set (hist_lines h). snd l = 0"
    and "ops_allowed browse_allowed browse_spec ops (browse_of (started c h))"
  shows "\<exists>st. run_ops browse_step ops (started c h) = Inr st \<and> shown (map fst (hist_lines h)) st"
proof -
  let ?st = "started c h" and ?ls = "hist_lines h"
  note s = started_browsing [OF assms(1), of c]
  have "untouched ?ls (browse_of ?st)" by (simp add: started_browse [OF assms(1)] untouched_def kept_def)
  from moves_run [OF s(1) assms(3) this] obtain st where st: "run_ops browse_step ops ?st = Inr st" "line_swapped ?st st"
    "browsing st" "untouched ?ls (browse_of st)" by blast
  let ?k = "br_pos (browse_of st)"
  have l: "br_lines (browse_of st) = ?ls" "br_line (browse_of st) = (if ?k < length ?ls then ?ls ! ?k else ('''', 0))"
    using st(4) by (auto simp: untouched_def kept_def split: if_splits)
  then have "snd (br_line (browse_of st)) = 0" using assms(2) by auto
  then have "rl_undo_list st = 0" by (simp add: browse_of_def)
  moreover have "rest_ok ?st" "0 < rl_fresh ?st" "\<not> rl_doing_an_undo ?st"
    using started_ready [OF assms(1), of c] by (simp_all add: ready_def line_inv_def lined_def) (simp add: started_def rl_static_def)
  ultimately have "ready (line_text st, setting st) st" using swapped_ready [OF st(2,3)] by blast
  moreover have "rl_revert_all_at_newline st = rl_revert_all_at_newline ?st"
    using st(2) unfolding line_swapped_def by (elim conjE) (erule ssubst, simp)
  then have "\<not> rl_revert_all_at_newline st" by (simp add: started_def rl_static_def)
  moreover have "line_text st = (if ?k < length ?ls then map fst ?ls ! ?k else '''')"
  proof -
    have "line_text st = fst (br_line (browse_of st))" by (simp add: browse_of_def)
    then show ?thesis unfolding l(2) by (cases "?k < length ?ls") simp_all
  qed
  moreover have "?k = nat (history_offset (rl_history st))" "hist_lines (rl_history st) = ?ls"
    using l(1) by (simp_all add: browse_of_def)
  ultimately show ?thesis
    using st(1) unfolding shown_def Let_def length_map by metis
qed

lemma edited_accepted:
  assumes "shown ls st" and "safe_session cs st"
  shows "\<exists>st1 st2. run_commands cs st = Inr st1 \<and> readline_internal_teardown False st1 = Inr (Some (line_text st1), st2) \<and>
    rl_undo_list st2 = 0 \<and> lines_ok (rl_history st2) \<and> map fst (hist_lines (rl_history st2)) = ls"
proof -
  have s: "ready (line_text st, setting st) st" "map fst (hist_lines (rl_history st)) = ls" "\<not> rl_revert_all_at_newline st"
    using assms(1) by (simp_all add: shown_def)
  let ?k = "nat (history_offset (rl_history st))"
  from run_commands_ready [OF s(1) assms(2)] obtain st1 where st1: "run_commands cs st = Inr st1"
    "ready (line_text st, setting st) st1" by blast
  have "setting st1 = setting st" by (rule ready_setting [OF st1(2)])
  then have g: "map fst (hist_lines (rl_history st1)) = ls" "history_offset (rl_history st1) = history_offset (rl_history st)"
    "\<not> rl_revert_all_at_newline st1" using s(2,3) by (simp_all add: setting_def)
  have len: "length (hist_lines (rl_history st1)) = length ls" using g(1) by (metis length_map)
  show ?thesis
  proof (cases "rl_undo_list st1 \<noteq> 0 \<and> ?k < length ls")
    case True
    then have "line_text st = ls ! ?k" using assms(1) by (simp add: shown_def Let_def)
    then have "ls[?k := line_text st] = ls" by simp
    moreover have "NUL \<notin> set (line_text st)" using ready_line(1) [OF s(1)] by (simp add: line_is_def)
    ultimately show ?thesis using teardown_edited [OF st1(2) _ g(3)] True st1(1) len g(1,2) by auto
  next
    case False
    then show ?thesis using teardown_typed [OF st1(2) g(3)] st1(1) len g(1,2) by auto
  qed
qed

text \<open>C4: Accepting a line gives the caller the edited text and keeps the history as it was. \<open>readline\<close> starts on a history
  whose lines have no undo lists; after any moves through the history the line at the position is shown; after any safe
  session of editing commands on that line, accepting it returns the text as edited, leaves no undo list, and the texts of
  the history are those of the start: a line of the history that was edited in place is back at its original. The line
  accepted is the only one edited: a line that is left in the middle of an edit and shown again comes with its undo list,
  and for it the last theorem of this theory shows that the history can lose text.\<close>

theorem accept_line:
  assumes "lines_ok h" and "\<forall>l \<in> set (hist_lines h). snd l = 0"
    and "ops_allowed browse_allowed browse_spec ops (browse_of (started c h))"
  shows "\<exists>st. rl_initialize (rl_static c h) = Inr (started c h) \<and> run_ops browse_step ops (started c h) = Inr st \<and>
    (safe_session cs st \<longrightarrow>
      (\<exists>st1 st2. run_commands cs st = Inr st1 \<and> readline_internal_teardown False st1 = Inr (Some (line_text st1), st2) \<and>
        rl_undo_list st2 = 0 \<and> lines_ok (rl_history st2) \<and>
        map fst (hist_lines (rl_history st2)) = map fst (hist_lines h)))"
  using moves_shown [OF assms] edited_accepted initialize_run by blast

text \<open>Back to \<open>cd\<close>, the last line of the history, whose first character is deleted.\<close>

theorem accept_line_witness:
  "\<exists>h st st1 st2. map fst (hist_lines h) = [''ls'', ''cd''] \<and> run_ops browse_step [Go_Back 1] (started CHR ''?'' h) = Inr st \<and>
    run_commands [(Beg_Of_Line, False, 1), (Delete, False, 1)] st = Inr st1 \<and>
    readline_internal_teardown False st1 = Inr (Some ''d'', st2) \<and> map fst (hist_lines (rl_history st2)) = [''ls'', ''cd'']"
proof -
  from two_lines obtain h where r: "run_ops (hist_step NUL) [Add 5 ''ls'', Add 6 ''cd''] (hist_start 9) = Inr h"
    and h: "lines_ok h" "hist_lines h = [(''ls'', 0), (''cd'', 0)]" by blast
  let ?cs = "[(Beg_Of_Line, False, 1), (Delete, False, 1)]"
  have "ops_allowed browse_allowed browse_spec [Go_Back 1] (browse_of (started CHR ''?'' h))"
    by (simp add: browse_allowed_def)
  moreover have "\<forall>l \<in> set (hist_lines h). snd l = 0" by (simp add: h(2))
  moreover have "map fst (hist_lines h) = [''ls'', ''cd'']" by (simp add: h(2))
  ultimately obtain st where
    st: "run_ops browse_step [Go_Back 1] (started CHR ''?'' h) = Inr st"
    "safe_session ?cs st \<longrightarrow> (\<exists>st1 st2. run_commands ?cs st = Inr st1 \<and>
      readline_internal_teardown False st1 = Inr (Some (line_text st1), st2) \<and> rl_undo_list st2 = 0 \<and> lines_ok (rl_history st2) \<and>
      map fst (hist_lines (rl_history st2)) = [''ls'', ''cd''])" using accept_line [OF h(1), of "[Go_Back 1]" _ ?cs] by metis
  have "(case run_ops (hist_step NUL) [Add 5 ''ls'', Add 6 ''cd''] (hist_start 9) of Inl _ \<Rightarrow> False | Inr h \<Rightarrow>
      case run_ops browse_step [Go_Back 1] (started CHR ''?'' h) of Inl _ \<Rightarrow> False | Inr st \<Rightarrow>
      safe_session ?cs st \<and> (case run_commands ?cs st of Inl _ \<Rightarrow> False | Inr st1 \<Rightarrow> line_text st1 = ''d''))" by code_simp
  then have s: "safe_session ?cs st" and d: "\<And>st1. run_commands ?cs st = Inr st1 \<Longrightarrow> line_text st1 = ''d''"
    unfolding r st(1) sum.case by simp_all
  from mp [OF st(2) s] obtain st1 st2 where "run_commands ?cs st = Inr st1"
    "readline_internal_teardown False st1 = Inr (Some (line_text st1), st2)"
    "map fst (hist_lines (rl_history st2)) = [''ls'', ''cd'']" by (elim exE conjE) (rule that)
  moreover from this have "line_text st1 = ''d''" by (intro d)
  moreover have "map fst (hist_lines h) = [''ls'', ''cd'']" by (simp add: h(2))
  ultimately show ?thesis using st(1) by metis
qed

section \<open>What is lost\<close>

text \<open>C39: With an empty history, moving back and on again loses what was typed in between: \<open>rl_get_previous_history\<close> keeps
  the line apart before it finds that there is no other line, and whatever the line has become by the next
  \<open>rl_get_next_history\<close>, that call puts the old text and the old undo list back.\<close>

theorem empty_history_forgets:
  assumes "browsing st" and "rl_saved_line st = 0" and "hist_lines (rl_history st) = []"
  shows "\<exists>st1. rl_get_previous_history 1 st = Inr (0, st1) \<and> browsing st1 \<and> line_text st1 = line_text st \<and>
    rl_undo_list st1 = rl_undo_list st \<and>
    (\<forall>st2. browsing st2 \<and> rl_history st2 = rl_history st1 \<and> rl_saved_line st2 = rl_saved_line st1 \<longrightarrow>
      (\<exists>st3. rl_get_next_history 1 st2 = Inr (0, st3) \<and> line_text st3 = line_text st \<and> rl_undo_list st3 = rl_undo_list st))"
proof -
  let ?l = "(line_text st, rl_undo_list st)"
  from previous_history_run(1) [OF assms(1), of 1] obtain st1 where st1: "rl_get_previous_history 1 st = Inr (0, st1)" "browsing st1"
    "browse_of st1 = browse_spec (Go_Back 1) (browse_of st)" by auto
  have pos: "br_pos (browse_of st) = 0"
    using browsing_facts(1,6) [OF assms(1)] assms(3) length_lines [of "rl_history st"] by (simp add: lines_ok_def)
  have b1: "browse_of st1 = (browse_of st)\<lparr>br_saved := Some ?l\<rparr>"
    unfolding st1(3) using pos assms(2,3) by (simp add: browse_spec_def move_back_def br_leave_def br_save_def) (simp add: browse_of_def)
  have "\<exists>st3. rl_get_next_history 1 st2 = Inr (0, st3) \<and> line_text st3 = line_text st \<and> rl_undo_list st3 = rl_undo_list st"
    if "browsing st2" "rl_history st2 = rl_history st1" "rl_saved_line st2 = rl_saved_line st1" for st2
  proof -
    from previous_history_run(2) [OF that(1), of 1] obtain st3 where st3: "rl_get_next_history 1 st2 = Inr (0, st3)"
      "browse_of st3 = browse_spec (Go_On 1) (browse_of st2)" by auto
    have "browse_of st2 = (browse_of st1)\<lparr>br_line := (line_text st2, rl_undo_list st2)\<rparr>"
      using that(2,3) by (simp add: browse_of_def saved_entry_def)
    then have "br_line (browse_of st3) = ?l"
      unfolding st3(2) b1 using assms(3)
      by (simp add: browse_spec_def move_on_def br_leave_def br_unsave_def browse_of_def)
    then show ?thesis using st3(1) by (simp add: browse_of_def)
  qed
  moreover have "br_line (browse_of st1) = ?l" unfolding b1 by (simp add: browse_of_def)
  ultimately show ?thesis using st1(1,2) by (auto simp: browse_of_def)
qed

theorem empty_history_forgets_witness:
  "\<exists>st1 st2 st3. rl_get_previous_history 1 (started CHR ''?'' (hist_start 9)) = Inr (0, st1) \<and>
    rl_history st2 = rl_history st1 \<and> line_text st2 = ''x'' \<and> rl_get_next_history 1 st2 = Inr (0, st3) \<and> line_text st3 = ''''"
proof -
  let ?st = "started CHR ''?'' (hist_start 9)"
  note s = started_browsing [OF lines_ok_start [of 9], of "CHR ''?''"] and u = using_history_lines [OF lines_ok_start [of 9]]
  have "hist_lines (rl_history ?st) = []"
    using u s(4) hist_start(2) by (simp add: hist_lines_def spec_start_def)
  from empty_history_forgets [OF s(1,2) this] obtain st1 where st1: "rl_get_previous_history 1 ?st = Inr (0, st1)" "browsing st1"
    "\<forall>st2. browsing st2 \<and> rl_history st2 = rl_history st1 \<and> rl_saved_line st2 = rl_saved_line st1 \<longrightarrow>
      (\<exists>st3. rl_get_next_history 1 st2 = Inr (0, st3) \<and> line_text st3 = line_text ?st \<and> rl_undo_list st3 = rl_undo_list ?st)"
    by blast
  have "NUL \<notin> set ''x''" by code_simp
  from replace_line_run [OF browsing_facts(3) [OF st1(2)] this] obtain b n p m where
    r: "line_is ''x'' (st1\<lparr>rl_line_buffer := b, rl_line_buffer_len := n, rl_end := int (length ''x''), rl_point := p, rl_mark := m\<rparr>)"
      "0 \<le> p" "p \<le> int (length ''x'')" by blast
  let ?st2 = "st1\<lparr>rl_line_buffer := b, rl_line_buffer_len := n, rl_end := int (length ''x''), rl_point := p, rl_mark := m\<rparr>"
  note t = line_text_is [OF r(1)]
  have "browsing ?st2" using r t browsing_facts(1,2,5) [OF st1(2)] by (simp add: browsing_def at_point_def saved_ok_def)
  then obtain st3 where "rl_get_next_history 1 ?st2 = Inr (0, st3)" "line_text st3 = ''''" using st1(3) s(3) by auto
  then show ?thesis using st1(1) t by (intro exI [of _ st1] exI [of _ ?st2] exI [of _ st3]) simp
qed

text \<open>C40: A character that prolongs the last undo entry of a line of the history is not kept when the line is left. Where the
  list of the entry is the one being edited and its last insertion ends at the point, \<open>rl_insert_text\<close> puts the character
  into the line but changes the entry in place; every move to another line takes the list for unchanged and leaves the
  history without the character, while the undo entry counts it.\<close>

theorem prolonged_insert_lost:
  assumes "browsing st" and "undo_is (e # es) st" and "ue_what e = UNDO_INSERT" and "ue_end e = rl_point st"
    and "ue_end e - ue_start e < 20" and "\<not> rl_doing_an_undo st" and "c \<noteq> NUL"
    and "br_pos (browse_of st) < length (hist_lines (rl_history st))"
    and "snd (hist_lines (rl_history st) ! br_pos (browse_of st)) = rl_undo_list st" and "\<bar>n\<bar> < 2 ^ 31"
  shows "\<exists>st1 st2. rl_insert_text (Some [c]) st = Inr (1, st1) \<and>
    line_text st1 = insert_at (nat (rl_point st)) [c] (line_text st) \<and>
    undo_is (e\<lparr>ue_end := ue_end e + 1\<rparr> # es) st1 \<and>
    rl_get_previous_history n st1 = Inr (0, st2) \<and> hist_lines (rl_history st2) = hist_lines (rl_history st)"
proof -
  let ?t = "line_text st" and ?e = "e\<lparr>ue_end := ue_end e + 1\<rparr>"
  note f = browsing_facts [OF assms(1)]
  obtain p where p: "rl_point st = int p" "p \<le> length ?t" using at_point_nat [OF f(3,4)] by (metis)
  have "[c] \<noteq> []" "NUL \<notin> set [c]" using assms(7) by auto
  from insert_buffer [OF f(3) p this] obtain b k where
    b: "line_is (insert_at p [c] ?t) (st\<lparr>rl_line_buffer := b, rl_line_buffer_len := k, rl_end := rl_end st + 1\<rparr>)"
      "rl_insert_text (Some [c]) st =
        bind_run (remember_insert 1 (st\<lparr>rl_line_buffer := b, rl_line_buffer_len := k\<rparr>)) (\<lambda>st1.
        bind_run (buf_put (rl_end st1 + 1) [NUL] (st1\<lparr>rl_point := rl_point st1 + 1, rl_end := rl_end st1 + 1\<rparr>)) (\<lambda>st2.
        Inr (1, st2)))" using assms(6) by auto
  let ?a = "rl_undo_list st"
  have u: "?a \<noteq> 0" "rl_undos st ?a = Some e" "ue_next e < ?a" "undo_chain (rl_undos st) (ue_next e) es" "?a < rl_fresh st"
    using assms(2) by (auto simp: undo_is_def)
  define st1 where "st1 = st\<lparr>rl_line_buffer := b, rl_line_buffer_len := k, rl_undos := (rl_undos st)(?a \<mapsto> ?e),
    rl_point := rl_point st + 1, rl_end := rl_end st + 1\<rparr>"
  have l1: "line_is (insert_at p [c] ?t) st1" using b(1) by (simp add: line_is_def st1_def)
  note t1 = line_text_is [OF l1]
  have "remember_insert 1 (st\<lparr>rl_line_buffer := b, rl_line_buffer_len := k\<rparr>) =
      Inr (st\<lparr>rl_line_buffer := b, rl_line_buffer_len := k, rl_undos := (rl_undos st)(?a \<mapsto> ?e)\<rparr>)"
    using assms(3-5) u by (simp add: remember_insert_def undo_at_def set_undo_def)
  moreover have "rl_end st + 1 = int (length (insert_at p [c] ?t))" using l1 by (simp add: line_is_def st1_def)
  then have "buf_put (rl_end st + 1) [NUL] st1 = Inr st1" using put_terminator [OF l1] by simp
  ultimately have run: "rl_insert_text (Some [c]) st = Inr (1, st1)" using b(2) by (simp add: st1_def)
  have same: "rl_history st1 = rl_history st" "rl_undo_list st1 = ?a" "rl_saved_line st1 = rl_saved_line st"
    "rl_saved_point st1 = rl_saved_point st" by (simp_all add: st1_def)
  have br1: "browsing st1"
    using f(1,2,4,5) l1 t1 same saved_ok_cong [OF same(3,1)] by (simp add: browsing_def) (simp add: at_point_def st1_def)
  have u1: "undo_is (?e # es) st1" using u chain_update [OF u(4,3)] by (simp add: undo_is_def st1_def)
  from previous_history_run(1) [OF br1 assms(10)] obtain st2 where st2: "rl_get_previous_history n st1 = Inr (0, st2)"
    "browse_of st2 = browse_spec (Go_Back n) (browse_of st1)" by blast
  have b1: "browse_of st1 = (browse_of st)\<lparr>br_line := (insert_at p [c] ?t, ?a)\<rparr>"
    by (simp add: browse_of_def same t1 saved_entry_def)
  have leave: "br_leave (browse_of st1) = browse_of st1" "br_leave (br_save (browse_of st1)) = br_save (browse_of st1)"
    using assms(9) f(7) by (simp_all add: b1 br_leave_def br_save_def)
  have "br_lines (browse_of st2) = br_lines (browse_of st1)"
    unfolding st2(2) browse_spec_def move_back_def move_on_def Let_def browse_op.case leave
    by (simp add: br_show_def br_save_def br_unsave_def Let_def split: option.splits)
  then show ?thesis using run t1 u1 st2(1) p(1) b1 by (auto simp: browse_of_def)
qed

text \<open>The line \<open>lxs\<close> of the history, in which the \<open>x\<close> has been inserted and kept, with the point behind it.\<close>

theorem prolonged_insert_lost_witness:
  "\<exists>st st1 st2. line_text st = ''lxs'' \<and> rl_insert_text (Some ''y'') st = Inr (1, st1) \<and> line_text st1 = ''lxys'' \<and>
    rl_get_previous_history (-1) st1 = Inr (0, st2) \<and> map fst (hist_lines (rl_history st2)) = [''lxs'']"
proof -
  let ?cs = "[Add 5 ''lxs'', Replace 0 ''lxs'' 1]"
  have "ops_allowed hist_allowed (hist_spec_step NUL) ?cs spec_start" by (simp add: hist_allowed_def)
  from session_from_start [OF this, of 9] obtain h where h: "hist_inv h" "hist_abs h = fold (hist_spec_step NUL) ?cs spec_start" by blast
  have l: "hist_lines h = [(''lxs'', 1)]"
    by (simp add: hist_lines_def h(2) hist_spec_step_def spec_start_def Let_def)
  have o: "history_offset h = 0"
    using arg_cong [OF h(2), of sp_offset] by (simp add: hist_spec_step_def spec_start_def Let_def) (simp add: hist_abs_def)
  have nul: "NUL \<notin> set ''lxs''" by code_simp
  have ok: "lines_ok h" using h(1) l o nul by (simp add: lines_ok_def length_lines)
  let ?e = "\<lparr>ue_next = 0, ue_start = 1, ue_end = 2, ue_text = None, ue_what = UNDO_INSERT\<rparr>"
  define st where "st = (rl_static CHR ''?'' h)\<lparr>rl_line_buffer := ''lxs'' @ NUL # replicate 252 CHR ''?'', rl_line_buffer_len := 256,
    rl_point := 2, rl_end := 3, rl_undos := [1 \<mapsto> ?e], rl_undo_list := 1, rl_fresh := 2\<rparr>"
  have t: "line_is ''lxs'' st" using nul by (simp add: st_def rl_static_def line_is_def)
  note lt = line_text_is [OF t]
  have h': "rl_history st = h" by (simp add: st_def rl_static_def)
  have "browsing st"
    using ok t lt by (simp add: browsing_def h') (simp add: st_def rl_static_def saved_ok_def at_point_def)
  moreover have "undo_is [?e] st" "\<not> rl_doing_an_undo st" "rl_point st = 2" "rl_undo_list st = 1"
    by (simp_all add: st_def rl_static_def undo_is_def)
  moreover have "br_pos (browse_of st) = 0" using o by (simp add: browse_of_def h')
  moreover have "CHR ''y'' \<noteq> NUL" by code_simp
  ultimately obtain st1 st2 where "rl_insert_text (Some ''y'') st = Inr (1, st1)" "line_text st1 = insert_at 2 ''y'' ''lxs''"
    "rl_get_previous_history (-1) st1 = Inr (0, st2)" "hist_lines (rl_history st2) = hist_lines h"
    using prolonged_insert_lost [of st ?e "[]" "CHR ''y''" "-1"] l lt by (auto simp: h')
  then show ?thesis using lt l by (intro exI [of _ st] exI [of _ st1] exI [of _ st2]) (simp add: insert_at_def)
qed

end
