(* ===== verification/Rl_Input.thy ===== *)
theory Rl_Input
  imports Rl_Kill
begin

text \<open>
  Where the keys come from (\<open>readline-6.2/input.c\<close>, \<open>macro.c\<close>): a key made the next one by \<open>rl_execute_next\<close>, the
  keyboard macros that are executed, the buffer of keys read ahead and the terminal. No event hook is installed, which is
  the initial state. Whether a \<open>char\<close> is signed depends on the platform and is a part of the state, \<open>char_is_signed\<close>. The
  \<open>RL_STATE\<close> bits are booleans of the state.
\<close>

section \<open>State\<close>

record kbd_state =
  pop_index :: int
  push_index :: int
  ibuffer :: "8 word list"
  rl_pending_input :: int
  rl_executing_macro :: "string option"
  executing_macro_index :: nat
  macro_list :: "(string option \<times> nat) list"
  current_macro :: "string option"
  current_macro_size :: int
  current_macro_index :: int
  rl_key_sequence_length :: int
  rl_numeric_arg :: int
  rl_arg_sign :: int
  arg_explicit :: bool
  saw_minus :: bool
  saw_digits :: bool
  state_callback :: bool
  state_readcmd :: bool
  state_moreinput :: bool
  state_macroinput :: bool
  state_macrodef :: bool
  state_inputpending :: bool
  state_numericarg :: bool
  kbd_dings :: nat
  kbd_junk :: char
  char_is_signed :: bool
  kbd_stream :: "int list"

text \<open>
  \<open>arg_explicit\<close> is \<open>rl_explicit_arg\<close>, \<open>saw_minus\<close> and \<open>saw_digits\<close> the bits of \<open>_rl_argcxt\<close>, \<open>kbd_stream\<close> what is
  still to be read from \<open>rl_instream\<close>. \<open>current_macro\<close> is a block of \<open>current_macro_size\<close> bytes, the strings of the
  executed macros are C strings of their own.
\<close>

definition EOF :: int where "EOF = -1"
definition READERR :: int where "READERR = -2"
definition ESC :: int where "ESC = 27"
definition NEWLINE :: int where "NEWLINE = 10"
definition RETURN :: int where "RETURN = 13"

definition kbd_static :: "char \<Rightarrow> bool \<Rightarrow> int list \<Rightarrow> kbd_state" where
  "kbd_static filler char_sign keys =
     \<lparr>pop_index = 0, push_index = 0, ibuffer = replicate 512 0, rl_pending_input = 0, rl_executing_macro = None,
      executing_macro_index = 0, macro_list = [], current_macro = None, current_macro_size = 0, current_macro_index = 0,
      rl_key_sequence_length = 0, rl_numeric_arg = 1, rl_arg_sign = 1, arg_explicit = False, saw_minus = False,
      saw_digits = False, state_callback = False, state_readcmd = False, state_moreinput = False,
      state_macroinput = False, state_macrodef = False, state_inputpending = False, state_numericarg = False,
      kbd_dings = 0, kbd_junk = filler, char_is_signed = char_sign, kbd_stream = keys\<rparr>"

section \<open>The buffer of keys read ahead\<close>

definition ibuffer_len :: int where "ibuffer_len = 511"

definition any_typein :: "kbd_state \<Rightarrow> bool" where
  "any_typein st \<longleftrightarrow> push_index st \<noteq> pop_index st"

definition ibuffer_space :: "kbd_state \<Rightarrow> int" where
  "ibuffer_space st =
     (if pop_index st > push_index st then pop_index st - push_index st - 1
      else ibuffer_len - (push_index st - pop_index st))"

definition ibuffer_get :: "int \<Rightarrow> kbd_state \<Rightarrow> int run" where
  "ibuffer_get i st =
     (if 0 \<le> i \<and> i < int (length (ibuffer st)) then Inr (uint (ibuffer st ! nat i)) else Inl Out_Of_Bounds_Read)"

definition ibuffer_put :: "int \<Rightarrow> int \<Rightarrow> kbd_state \<Rightarrow> kbd_state run" where
  "ibuffer_put i key st =
     (if 0 \<le> i \<and> i < int (length (ibuffer st))
      then Inr (st\<lparr>ibuffer := (ibuffer st)[nat i := word_of_int key]\<rparr>) else Inl Buffer_Overflow)"

definition rl_get_char :: "kbd_state \<Rightarrow> (int option \<times> kbd_state) run" where
  "rl_get_char st =
     (if push_index st = pop_index st then Inr (None, st)
      else
      bind_run (ibuffer_get (pop_index st) st) (\<lambda>key.
      let i = pop_index st + 1 in
      Inr (Some key, st\<lparr>pop_index := (if i > ibuffer_len then 0 else i)\<rparr>)))"

definition rl_unget_char :: "int \<Rightarrow> kbd_state \<Rightarrow> (bool \<times> kbd_state) run" where
  "rl_unget_char key st =
     (if ibuffer_space st \<noteq> 0 then
        let i = pop_index st - 1; i = (if i < 0 then ibuffer_len else i) in
        bind_run (ibuffer_put i key st) (\<lambda>st. Inr (True, st\<lparr>pop_index := i\<rparr>))
      else Inr (False, st))"

definition rl_stuff_char :: "int \<Rightarrow> kbd_state \<Rightarrow> (bool \<times> kbd_state) run" where
  "rl_stuff_char key st =
     (if ibuffer_space st = 0 then Inr (False, st)
      else
      let st' = (if key = EOF then st\<lparr>rl_pending_input := EOF, state_inputpending := True\<rparr> else st);
          key' = (if key = EOF then NEWLINE else key) in
      bind_run (ibuffer_put (push_index st') key' st') (\<lambda>st.
      let i = push_index st + 1 in
      Inr (True, st\<lparr>push_index := (if i > ibuffer_len then 0 else i)\<rparr>)))"

definition rl_execute_next :: "int \<Rightarrow> kbd_state \<Rightarrow> kbd_state" where
  "rl_execute_next c st = st\<lparr>rl_pending_input := c, state_inputpending := True\<rparr>"

definition rl_clear_pending_input :: "kbd_state \<Rightarrow> kbd_state" where
  "rl_clear_pending_input st = st\<lparr>rl_pending_input := 0, state_inputpending := False\<rparr>"

section \<open>The macros that are executed\<close>

text \<open>A \<open>char\<close> that is assigned to an \<open>int\<close>.\<close>

definition char_value :: "bool \<Rightarrow> char \<Rightarrow> int" where
  "char_value char_sign c = (if char_sign \<and> int (of_char c) \<ge> 128 then int (of_char c) - 256 else int (of_char c))"

definition rl_push_executing_macro :: "kbd_state \<Rightarrow> kbd_state" where
  "rl_push_executing_macro st =
     st\<lparr>macro_list := (rl_executing_macro st, executing_macro_index st) # macro_list st\<rparr>"

definition rl_with_macro_input :: "string \<Rightarrow> kbd_state \<Rightarrow> kbd_state" where
  "rl_with_macro_input str st =
     (rl_push_executing_macro st)\<lparr>rl_executing_macro := Some str, executing_macro_index := 0, state_macroinput := True\<rparr>"

definition rl_pop_executing_macro :: "kbd_state \<Rightarrow> kbd_state" where
  "rl_pop_executing_macro st =
     (let st = st\<lparr>rl_executing_macro := None, executing_macro_index := 0\<rparr>;
          st = (case macro_list st of
                  [] \<Rightarrow> st
                | (str, sindex) # saved \<Rightarrow>
                    st\<lparr>rl_executing_macro := str, executing_macro_index := sindex, macro_list := saved\<rparr>) in
      if rl_executing_macro st = None then st\<lparr>state_macroinput := False\<rparr> else st)"

definition macro_depth :: "kbd_state \<Rightarrow> nat" where
  "macro_depth st = length (macro_list st) + (if rl_executing_macro st = None then 0 else 1)"

lemma pop_macro_depth: "rl_executing_macro st = Some s \<Longrightarrow> macro_depth (rl_pop_executing_macro st) < macro_depth st"
  by (auto simp: rl_pop_executing_macro_def macro_depth_def Let_def split: list.splits)

text \<open>The characters of the innermost macro that has any left; 0 when there are none.\<close>

function rl_next_macro_key :: "kbd_state \<Rightarrow> (int \<times> kbd_state) run" where
  "rl_next_macro_key st =
     (case rl_executing_macro st of
        None \<Rightarrow> Inr (0, st)
      | Some str \<Rightarrow>
          bind_run (byte_at str (executing_macro_index st)) (\<lambda>c.
          if c = NUL then rl_next_macro_key (rl_pop_executing_macro st)
          else
            let st = st\<lparr>executing_macro_index := executing_macro_index st + 1\<rparr> in
            if state_callback st \<and> (state_readcmd st \<or> state_moreinput st)
            then bind_run (byte_at str (executing_macro_index st)) (\<lambda>c2.
                 Inr (char_value (char_is_signed st) c, if c2 = NUL then rl_pop_executing_macro st else st))
            else Inr (char_value (char_is_signed st) c, st)))"
  by pat_completeness auto
termination
  by (relation "measure macro_depth") (simp_all add: pop_macro_depth)

declare rl_next_macro_key.simps [simp del]

section \<open>Reading a key\<close>

text \<open>\<open>rl_getc\<close>, and what it returns at the end of the input.\<close>

definition rl_getc :: "kbd_state \<Rightarrow> int \<times> kbd_state" where
  "rl_getc st = (case kbd_stream st of [] \<Rightarrow> (EOF, st) | c # cs \<Rightarrow> (c, st\<lparr>kbd_stream := cs\<rparr>))"

definition rl_read_key :: "kbd_state \<Rightarrow> (int \<times> kbd_state) run" where
  "rl_read_key st =
     (let st = st\<lparr>rl_key_sequence_length := rl_key_sequence_length st + 1\<rparr> in
      if rl_pending_input st \<noteq> 0 then Inr (rl_pending_input st, rl_clear_pending_input st)
      else
      bind_run (rl_next_macro_key st) (\<lambda>(c, st).
      if c \<noteq> 0 then Inr (c, st)
      else
      bind_run (rl_get_char st) (\<lambda>(key, st).
      case key of Some c \<Rightarrow> Inr (c, st) | None \<Rightarrow> Inr (rl_getc st))))"

section \<open>Leaving a command\<close>

definition rl_reset_argument :: "kbd_state \<Rightarrow> kbd_state" where
  "rl_reset_argument st =
     st\<lparr>rl_numeric_arg := 1, rl_arg_sign := 1, arg_explicit := False, saw_minus := False, saw_digits := False\<rparr>"

function pop_macros :: "kbd_state \<Rightarrow> kbd_state" where
  "pop_macros st = (if rl_executing_macro st = None then st else pop_macros (rl_pop_executing_macro st))"
  by pat_completeness auto
termination
  by (relation "measure macro_depth") (auto simp: pop_macro_depth)

declare pop_macros.simps [simp del]

text \<open>What \<open>_rl_abort_internal\<close> does to the input before it jumps; the bell is counted with the line.\<close>

definition kbd_abort_internal :: "kbd_state \<Rightarrow> outcome \<times> kbd_state" where
  "kbd_abort_internal st =
     (let st = rl_clear_pending_input (rl_reset_argument st) in
      (Long_Jump, pop_macros (st\<lparr>state_macrodef := False\<rparr>)))"

section \<open>Defining a keyboard macro\<close>

definition macro_put :: "int \<Rightarrow> string \<Rightarrow> kbd_state \<Rightarrow> kbd_state run" where
  "macro_put i bs st =
     (case current_macro st of
        None \<Rightarrow> Inl Null_Pointer
      | Some blk \<Rightarrow>
          if i < 0 then Inl Buffer_Overflow
          else bind_run (put_bytes (nat i) bs blk) (\<lambda>b. Inr (st\<lparr>current_macro := Some b\<rparr>)))"

text \<open>An \<open>int\<close> that is assigned to a \<open>char\<close>.\<close>

definition key_char :: "int \<Rightarrow> char" where
  "key_char c = char_of (nat (c mod 256))"

definition rl_add_macro_char :: "int \<Rightarrow> kbd_state \<Rightarrow> kbd_state run" where
  "rl_add_macro_char c st =
     (let st =
        (if current_macro_index st + 1 \<ge> current_macro_size st then
           case current_macro st of
             None \<Rightarrow> st\<lparr>current_macro_size := 25, current_macro := Some (replicate 25 (kbd_junk st))\<rparr>
           | Some blk \<Rightarrow>
               let size = current_macro_size st + 25 in
               st\<lparr>current_macro_size := size, current_macro := Some (xrealloc (kbd_junk st) (nat size) blk)\<rparr>
         else st) in
      bind_run (macro_put (current_macro_index st) [key_char c] st) (\<lambda>st.
      let st = st\<lparr>current_macro_index := current_macro_index st + 1\<rparr> in
      macro_put (current_macro_index st) [NUL] st))"

definition rl_kill_kbd_macro :: "kbd_state \<Rightarrow> kbd_state" where
  "rl_kill_kbd_macro st =
     st\<lparr>current_macro := None, current_macro_size := 0, current_macro_index := 0, rl_executing_macro := None,
        executing_macro_index := 0, state_macrodef := False\<rparr>"

text \<open>\<open>savestring (current_macro)\<close>\<close>

definition saved_macro :: "string \<Rightarrow> string run" where
  "saved_macro blk = (case cstr_of blk of None \<Rightarrow> Inl Out_Of_Bounds_Read | Some str \<Rightarrow> Inr str)"

definition rl_start_kbd_macro :: "kbd_state \<Rightarrow> (outcome \<times> kbd_state) run" where
  "rl_start_kbd_macro st =
     (if state_macrodef st then Inr (kbd_abort_internal st)
      else
      bind_run
        (if arg_explicit st then
           case current_macro st of
             None \<Rightarrow> Inr st
           | Some blk \<Rightarrow> bind_run (saved_macro blk) (\<lambda>str. Inr (rl_with_macro_input str st))
         else Inr (st\<lparr>current_macro_index := 0\<rparr>)) (\<lambda>st.
      Inr (Returned 0, st\<lparr>state_macrodef := True\<rparr>)))"

fun with_macro_inputs :: "nat \<Rightarrow> string \<Rightarrow> kbd_state \<Rightarrow> kbd_state" where
  "with_macro_inputs 0 str st = st"
| "with_macro_inputs (Suc n) str st = with_macro_inputs n str (rl_with_macro_input str st)"

text \<open>\<open>while (count--)\<close> does not end with a negative count.\<close>

definition rl_call_last_kbd_macro :: "int \<Rightarrow> kbd_state \<Rightarrow> (outcome \<times> kbd_state) run" where
  "rl_call_last_kbd_macro count st =
     (case current_macro st of
        None \<Rightarrow> Inr (kbd_abort_internal st)
      | Some blk \<Rightarrow>
          if state_macrodef st then
            let st = st\<lparr>kbd_dings := kbd_dings st + 1, current_macro_index := current_macro_index st - 1\<rparr> in
            bind_run (macro_put (current_macro_index st) [NUL] st) (\<lambda>st. Inr (Returned 0, st))
          else if count < 0 then Inl No_Return
          else if count = 0 then Inr (Returned 0, st)
          else bind_run (saved_macro blk) (\<lambda>str. Inr (Returned 0, with_macro_inputs (nat count) str st)))"

definition rl_end_kbd_macro :: "int \<Rightarrow> kbd_state \<Rightarrow> (outcome \<times> kbd_state) run" where
  "rl_end_kbd_macro count st =
     (if \<not> state_macrodef st then Inr (kbd_abort_internal st)
      else
      let st = st\<lparr>current_macro_index := current_macro_index st - (rl_key_sequence_length st - 1)\<rparr> in
      bind_run (macro_put (current_macro_index st) [NUL] st) (\<lambda>st.
      rl_call_last_kbd_macro (count - 1) (st\<lparr>state_macrodef := False\<rparr>)))"

end
