(* ===== verification/Rl_Dispatch.thy ===== *)
theory Rl_Dispatch
  imports Rl_Readline Rl_Input
begin

text \<open>
  From keys to commands (\<open>readline-6.2/readline.c\<close>, \<open>misc.c\<close>, \<open>emacs_keymap.c\<close>): the keymaps, the dispatcher that follows
  a sequence of keys through them, the numeric argument, the keyboard macros as commands and the loop that reads a line.
  The callback interface and the vi mode are not in use. The functions that are not modelled - completion, searches,
  tilde expansion, the screen - are the parameter \<open>foreign\<close>.
\<close>

section \<open>Keymaps\<close>

datatype key_func =
    Self_Insert | Quoted_Insert_Key | Char_Search_Key | Backward_Char_Search_Key | Edit action
  | Abort_Func | Start_Kbd_Macro | End_Kbd_Macro | Call_Last_Kbd_Macro | Digit_Argument | Universal_Argument
  | Do_Lowercase_Version | Foreign string

datatype keymap_id = Emacs_Standard | Emacs_Meta | Emacs_Ctlx | User_Map nat

text \<open>The three types of an entry, with a null pointer as \<open>None\<close>.\<close>

datatype keymap_entry = ISFUNC "key_func option" | ISKMAP "keymap_id option" | ISMACR "string option"

type_synonym keymaps = "keymap_id \<Rightarrow> int \<Rightarrow> keymap_entry"

definition ANYOTHERKEY :: int where "ANYOTHERKEY = 256"

definition has_function :: "keymap_entry \<Rightarrow> bool" where
  "has_function e \<longleftrightarrow> e \<noteq> ISFUNC None \<and> e \<noteq> ISKMAP None \<and> e \<noteq> ISMACR None"

definition emacs_standard_keymap :: "int \<Rightarrow> keymap_entry" where
  "emacs_standard_keymap k =
     (if k = 24 then ISKMAP (Some Emacs_Ctlx)
      else if k = 27 then ISKMAP (Some Emacs_Meta)
      else if 32 \<le> k \<and> k \<le> 126 \<or> 128 \<le> k \<and> k \<le> 255 then ISFUNC (Some Self_Insert)
      else ISFUNC (map_of
        [(0, Edit (Command Set_Mark)), (1, Edit (Command Beg_Of_Line)), (2, Edit (Command Backward_Char)),
         (4, Edit (Command Delete)), (5, Edit (Command End_Of_Line)), (6, Edit (Command Forward_Char)), (7, Abort_Func),
         (8, Edit (Command Rubout)), (9, Foreign ''rl_complete''), (10, Edit (Command Newline)),
         (11, Edit (Command Kill_Line)), (12, Foreign ''rl_clear_screen''), (13, Edit (Command Newline)),
         (14, Edit Next_History), (16, Edit Previous_History), (17, Quoted_Insert_Key),
         (18, Foreign ''rl_reverse_search_history''), (19, Foreign ''rl_forward_search_history''),
         (20, Edit (Command Transpose_Chars)), (21, Edit (Command Unix_Line_Discard)), (22, Quoted_Insert_Key),
         (23, Edit (Command Unix_Word_Rubout)), (25, Edit (Command Yank)), (29, Char_Search_Key),
         (31, Edit (Command Undo_Command)), (127, Edit (Command Rubout))] k))"

definition emacs_meta_keymap :: "int \<Rightarrow> keymap_entry" where
  "emacs_meta_keymap k =
     (if 48 \<le> k \<and> k \<le> 57 then ISFUNC (Some Digit_Argument)
      else if 65 \<le> k \<and> k \<le> 90 then ISFUNC (Some Do_Lowercase_Version)
      else ISFUNC (map_of
        [(7, Abort_Func), (8, Edit (Command Backward_Kill_Word)), (9, Edit (Command Tab_Insert)),
         (10, Foreign ''rl_vi_editing_mode''), (13, Foreign ''rl_vi_editing_mode''), (18, Edit (Command Revert_Line)),
         (25, Edit (Command Yank_Nth_Arg)), (27, Foreign ''rl_complete''), (29, Backward_Char_Search_Key),
         (32, Edit (Command Set_Mark)), (35, Edit (Command Insert_Comment)), (38, Foreign ''rl_tilde_expand''),
         (42, Foreign ''rl_insert_completions''), (45, Digit_Argument), (46, Edit (Command Yank_Last_Arg)),
         (60, Edit Beginning_Of_History), (61, Foreign ''rl_possible_completions''), (62, Edit End_Of_History),
         (63, Foreign ''rl_possible_completions''), (92, Edit (Command Delete_Horizontal_Space)),
         (95, Edit (Command Yank_Last_Arg)), (98, Edit (Command Backward_Word)), (99, Edit (Command Capitalize_Word)),
         (100, Edit (Command Kill_Word)), (102, Edit (Command Forward_Word)), (108, Edit (Command Downcase_Word)),
         (110, Foreign ''rl_noninc_forward_search''), (112, Foreign ''rl_noninc_reverse_search''),
         (114, Edit (Command Revert_Line)), (116, Edit (Command Transpose_Words)), (117, Edit (Command Upcase_Word)),
         (121, Edit (Command Yank_Pop)), (126, Foreign ''rl_tilde_expand''), (127, Edit (Command Backward_Kill_Word))] k))"

definition emacs_ctlx_keymap :: "int \<Rightarrow> keymap_entry" where
  "emacs_ctlx_keymap k =
     (if 65 \<le> k \<and> k \<le> 90 then ISFUNC (Some Do_Lowercase_Version)
      else ISFUNC (map_of
        [(7, Abort_Func), (18, Foreign ''rl_re_read_init_file''), (21, Edit (Command Undo_Command)),
         (24, Edit (Command Exchange_Point_And_Mark)), (40, Start_Kbd_Macro), (41, End_Kbd_Macro),
         (101, Call_Last_Kbd_Macro), (127, Edit (Command Backward_Kill_Line))] k))"

definition emacs_keymaps :: keymaps where
  "emacs_keymaps m =
     (case m of Emacs_Standard \<Rightarrow> emacs_standard_keymap | Emacs_Meta \<Rightarrow> emacs_meta_keymap
      | Emacs_Ctlx \<Rightarrow> emacs_ctlx_keymap | User_Map _ \<Rightarrow> (\<lambda>_. ISFUNC None))"

section \<open>State\<close>

record session =
  kbd :: kbd_state
  line :: rl_state
  rl_dispatching_keymap :: keymap_id
  rl_convert_meta :: bool
  rl_eof_char :: int

type_synonym 'r result = "('r \<times> session) run"

type_synonym foreign = "string \<Rightarrow> int \<Rightarrow> int \<Rightarrow> session \<Rightarrow> outcome result"

text \<open>\<open>_rl_dispatch_subseq\<close> as a value, which the functions that read further keys call.\<close>

type_synonym dispatcher = "keymaps \<Rightarrow> int \<Rightarrow> keymap_id \<Rightarrow> bool \<Rightarrow> session \<Rightarrow> outcome result"

definition map_kbd :: "(kbd_state \<Rightarrow> kbd_state) \<Rightarrow> session \<Rightarrow> session" where
  "map_kbd f s = s\<lparr>kbd := f (kbd s)\<rparr>"

definition abort_session :: "session \<Rightarrow> outcome \<times> session" where
  "abort_session s = (Long_Jump, s\<lparr>kbd := snd (kbd_abort_internal (kbd s)), line := snd (rl_abort_internal (line s))\<rparr>)"

text \<open>A function of \<open>macro.c\<close> that may abort.\<close>

definition kbd_func :: "(kbd_state \<Rightarrow> (outcome \<times> kbd_state) run) \<Rightarrow> session \<Rightarrow> outcome result" where
  "kbd_func f s =
     bind_run (f (kbd s)) (\<lambda>(out, k).
     Inr (out, case out of
       Long_Jump \<Rightarrow> s\<lparr>kbd := k, line := snd (rl_abort_internal (line s))\<rparr>
     | Returned _ \<Rightarrow> s\<lparr>kbd := k\<rparr>))"

definition session_read_key :: "session \<Rightarrow> int result" where
  "session_read_key s = bind_run (rl_read_key (kbd s)) (\<lambda>(c, k). Inr (c, s\<lparr>kbd := k\<rparr>))"

definition read_more :: "session \<Rightarrow> int result" where
  "read_more s =
     bind_run (session_read_key (map_kbd (\<lambda>k. k\<lparr>state_moreinput := True\<rparr>) s)) (\<lambda>(c, s).
     Inr (c, map_kbd (\<lambda>k. k\<lparr>state_moreinput := False\<rparr>) s))"

section \<open>Commands on the line\<close>

text \<open>
  The keys typed ahead, which \<open>_rl_insert_typein\<close> takes from the buffer of keys unless a macro is executed, and what is
  left of them.
\<close>

fun typed_ahead :: "nat \<Rightarrow> kbd_state \<Rightarrow> string run" where
  "typed_ahead 0 k = Inr []"
| "typed_ahead (Suc n) k =
     bind_run (rl_get_char k) (\<lambda>(r, k).
     case r of
       None \<Rightarrow> Inr []
     | Some c \<Rightarrow> bind_run (typed_ahead n k) (\<lambda>cs. Inr (char_of (nat c) # cs)))"

fun skip_typed :: "nat \<Rightarrow> kbd_state \<Rightarrow> kbd_state run" where
  "skip_typed 0 k = Inr k"
| "skip_typed (Suc n) k = bind_run (rl_get_char k) (\<lambda>(_, k). skip_typed n k)"

definition call_edit :: "keymaps \<Rightarrow> action \<Rightarrow> int \<Rightarrow> session \<Rightarrow> outcome result" where
  "call_edit maps act count s =
     bind_run (if state_macroinput (kbd s) then Inr [] else typed_ahead 512 (kbd s)) (\<lambda>ahead.
     bind_run (call_action act count ((line s)\<lparr>rl_explicit_arg := arg_explicit (kbd s), rl_typein := ahead,
       rl_inserts_itself := (\<lambda>c. maps Emacs_Standard (int (of_char c)) = ISFUNC (Some Self_Insert))\<rparr>)) (\<lambda>(out, st).
     bind_run (skip_typed (length ahead - length (rl_typein st)) (kbd s)) (\<lambda>k.
     Inr (out, s\<lparr>line := st\<lparr>rl_typein := []\<rparr>,
       kbd := (case out of Long_Jump \<Rightarrow> snd (kbd_abort_internal k) | Returned _ \<Rightarrow> k)\<rparr>))))"

section \<open>The numeric argument\<close>

definition rl_arg_overflow :: "kbd_state \<Rightarrow> (bool \<times> kbd_state)" where
  "rl_arg_overflow k =
     (if rl_numeric_arg k > 1000000
      then (True, k\<lparr>saw_minus := False, saw_digits := False, arg_explicit := False, rl_numeric_arg := 0,
              kbd_dings := kbd_dings k + 1, state_numericarg := False\<rparr>)
      else (False, k))"

definition rl_arg_init :: "kbd_state \<Rightarrow> kbd_state" where
  "rl_arg_init k = k\<lparr>saw_minus := False, saw_digits := False, state_numericarg := True\<rparr>"

text \<open>A digit or a sign; anything else ends the argument.\<close>

definition arg_key :: "int \<Rightarrow> kbd_state \<Rightarrow> kbd_state option" where
  "arg_key c k =
     (if 48 \<le> c mod 128 \<and> c mod 128 \<le> 57 then
        Some (k\<lparr>rl_numeric_arg := (if arg_explicit k then rl_numeric_arg k * 10 + (c mod 128 - 48) else c mod 128 - 48),
               arg_explicit := True, saw_digits := True\<rparr>)
      else if c mod 128 = 45 \<and> \<not> arg_explicit k then
        Some (k\<lparr>rl_numeric_arg := 1, saw_minus := True, rl_arg_sign := -1\<rparr>)
      else None)"

definition rl_dispatch :: "dispatcher \<Rightarrow> keymaps \<Rightarrow> int \<Rightarrow> keymap_id \<Rightarrow> session \<Rightarrow> outcome result" where
  "rl_dispatch d maps key m s = d maps key m False (s\<lparr>rl_dispatching_keymap := m\<rparr>)"

definition rl_arg_dispatch :: "dispatcher \<Rightarrow> keymaps \<Rightarrow> int \<Rightarrow> session \<Rightarrow> outcome result" where
  "rl_arg_dispatch d maps c s =
     (if maps Emacs_Standard c = ISFUNC (Some Universal_Argument) then
        if \<not> saw_digits (kbd s) then Inr (Returned 1, map_kbd (\<lambda>k. k\<lparr>rl_numeric_arg := rl_numeric_arg k * 4\<rparr>) s)
        else
        bind_run (read_more s) (\<lambda>(key, s).
        let s = map_kbd (\<lambda>k. k\<lparr>state_numericarg := False\<rparr>) s in
        if key < 0 then Inr (Returned (-1), s) else rl_dispatch d maps key Emacs_Standard s)
      else
      case arg_key c (kbd s) of
        Some k \<Rightarrow> Inr (Returned 1, s\<lparr>kbd := k\<rparr>)
      | None \<Rightarrow>
          rl_dispatch d maps c Emacs_Standard
            (map_kbd (\<lambda>k. k\<lparr>arg_explicit := arg_explicit k \<or> saw_minus k \<and> rl_numeric_arg k = 1, state_numericarg := False\<rparr>) s))"

fun rl_digit_loop :: "nat \<Rightarrow> dispatcher \<Rightarrow> keymaps \<Rightarrow> session \<Rightarrow> outcome result" where
  "rl_digit_loop 0 d maps s = Inl No_Return"
| "rl_digit_loop (Suc n) d maps s =
     (case rl_arg_overflow (kbd s) of (over, k) \<Rightarrow>
      if over then Inr (Returned 1, s\<lparr>kbd := k\<rparr>)
      else
      bind_run (read_more s) (\<lambda>(c, s).
      if c < 0 then Inr (abort_session s)
      else
      bind_run (rl_arg_dispatch d maps c s) (\<lambda>(out, s).
      case out of
        Long_Jump \<Rightarrow> Inr (Long_Jump, s)
      | Returned r \<Rightarrow>
          if r \<le> 0 \<or> \<not> state_numericarg (kbd s) then Inr (Returned r, s) else rl_digit_loop n d maps s)))"

definition rl_digit_argument :: "nat \<Rightarrow> dispatcher \<Rightarrow> keymaps \<Rightarrow> int \<Rightarrow> session \<Rightarrow> outcome result" where
  "rl_digit_argument n d maps key s =
     rl_digit_loop n d maps (map_kbd (\<lambda>k. rl_execute_next key (rl_arg_init k)) s)"

definition rl_universal_argument :: "nat \<Rightarrow> dispatcher \<Rightarrow> keymaps \<Rightarrow> session \<Rightarrow> outcome result" where
  "rl_universal_argument n d maps s =
     rl_digit_loop n d maps (map_kbd (\<lambda>k. (rl_arg_init k)\<lparr>rl_numeric_arg := rl_numeric_arg k * 4\<rparr>) s)"

section \<open>Dispatching a key\<close>

definition call_func :: "foreign \<Rightarrow> nat \<Rightarrow> dispatcher \<Rightarrow> keymaps \<Rightarrow> key_func \<Rightarrow> int \<Rightarrow> int \<Rightarrow> session \<Rightarrow> outcome result" where
  "call_func ff n d maps f count key s =
     (case f of
        Self_Insert \<Rightarrow> call_edit maps (Command (Insert (key_char key))) count s
      | Quoted_Insert_Key \<Rightarrow>
          bind_run (read_more s) (\<lambda>(c, s). call_edit maps (Command (Quoted_Insert c)) count s)
      | Char_Search_Key \<Rightarrow>
          bind_run (read_more s) (\<lambda>(c, s). call_edit maps (Command (Char_Search c)) count s)
      | Backward_Char_Search_Key \<Rightarrow>
          bind_run (read_more s) (\<lambda>(c, s). call_edit maps (Command (Backward_Char_Search c)) count s)
      | Edit act \<Rightarrow> call_edit maps act count s
      | Abort_Func \<Rightarrow> Inr (abort_session s)
      | Start_Kbd_Macro \<Rightarrow> kbd_func rl_start_kbd_macro s
      | End_Kbd_Macro \<Rightarrow> kbd_func (rl_end_kbd_macro count) s
      | Call_Last_Kbd_Macro \<Rightarrow> kbd_func (rl_call_last_kbd_macro count) s
      | Digit_Argument \<Rightarrow> rl_digit_argument n d maps key s
      | Universal_Argument \<Rightarrow> rl_universal_argument n d maps s
      | Do_Lowercase_Version \<Rightarrow> Inr (Returned 0, s)
      | Foreign name \<Rightarrow> ff name count key s)"

text \<open>What \<open>rl_last_func\<close> remembers of a function.\<close>

definition last_func_of :: "key_func \<Rightarrow> command_func" where
  "last_func_of f = (case f of Edit (Command cmd) \<Rightarrow> func_of cmd | _ \<Rightarrow> Other_Func)"

definition lower_key :: "int \<Rightarrow> int" where
  "lower_key key = int (of_char (rl_to_lower (key_char key)))"

definition record_key :: "int \<Rightarrow> session \<Rightarrow> session run" where
  "record_key key s =
     (if state_macrodef (kbd s)
      then bind_run (rl_add_macro_char key (kbd s)) (\<lambda>k. Inr (s\<lparr>kbd := k\<rparr>)) else Inr s)"

definition unget_key :: "int \<Rightarrow> session \<Rightarrow> session run" where
  "unget_key key s = bind_run (rl_unget_char key (kbd s)) (\<lambda>(_, k). Inr (s\<lparr>kbd := k\<rparr>))"

definition rl_subseq_result ::
    "dispatcher \<Rightarrow> keymaps \<Rightarrow> int \<Rightarrow> keymap_id \<Rightarrow> int \<Rightarrow> bool \<Rightarrow> session \<Rightarrow> outcome result" where
  "rl_subseq_result d maps r m key got_subseq s =
     (if r = -2 then
        let dm = rl_dispatching_keymap s; e = maps dm ANYOTHERKEY in
        if e = ISFUNC (Some Do_Lowercase_Version) then rl_dispatch d maps (lower_key key) m s
        else if e = ISFUNC (Some Self_Insert) then rl_dispatch d (maps(dm := (maps dm)(key := e))) key dm s
        else rl_dispatch d maps ANYOTHERKEY dm s
      else if r \<noteq> 0 \<and> has_function (maps m ANYOTHERKEY) then
        bind_run (unget_key key s) (\<lambda>s. Inr (Returned (-2), s\<lparr>rl_dispatching_keymap := m\<rparr>))
      else if r \<noteq> 0 \<and> got_subseq then
        bind_run (unget_key key s) (\<lambda>s. Inr (Returned (-1), s\<lparr>rl_dispatching_keymap := m\<rparr>))
      else Inr (Returned r, s))"

definition run_func :: "foreign \<Rightarrow> nat \<Rightarrow> dispatcher \<Rightarrow> keymaps \<Rightarrow> key_func \<Rightarrow> int \<Rightarrow> session \<Rightarrow> outcome result" where
  "run_func ff n d maps f key s =
     bind_run (call_func ff n d maps f (rl_numeric_arg (kbd s) * rl_arg_sign (kbd s)) key s) (\<lambda>(out, s).
     case out of
       Long_Jump \<Rightarrow> Inr (Long_Jump, s)
     | Returned _ \<Rightarrow>
         Inr (Returned 0,
           if rl_pending_input (kbd s) = 0 \<and> f \<noteq> Digit_Argument
           then s\<lparr>line := (line s)\<lparr>rl_last_func := last_func_of f\<rparr>\<rparr> else s))"

fun rl_dispatch_subseq :: "foreign \<Rightarrow> nat \<Rightarrow> dispatcher" where
  "rl_dispatch_subseq ff 0 maps key m got_subseq s = Inl No_Return"
| "rl_dispatch_subseq ff (Suc n) maps key m got_subseq s =
     (let d = rl_dispatch_subseq ff n in
      if 127 < key \<and> key \<le> 255 \<and> rl_convert_meta s then
        (case maps m ESC of
           ISKMAP esc \<Rightarrow>
             bind_run (record_key ESC s) (\<lambda>s.
             case esc of
               None \<Rightarrow> Inl Null_Pointer
             | Some em \<Rightarrow>
                 rl_dispatch d maps (key mod 128) em
                   (map_kbd (\<lambda>k. k\<lparr>rl_key_sequence_length := rl_key_sequence_length k + 2\<rparr>) s))
         | _ \<Rightarrow> Inr (Returned 0, s\<lparr>line := rl_ding (line s)\<rparr>))
      else
      bind_run (record_key key s) (\<lambda>s.
      case maps m key of
        ISFUNC (Some f) \<Rightarrow>
          if f = Do_Lowercase_Version then rl_dispatch d maps (lower_key key) m s else run_func ff n d maps f key s
      | ISFUNC None \<Rightarrow>
          if has_function (maps m ANYOTHERKEY) then bind_run (unget_key key s) (\<lambda>s. Inr (Returned (-2), s))
          else if got_subseq then bind_run (unget_key key s) (\<lambda>s. Inr (Returned (-1), s))
          else Inr (abort_session s)
      | ISKMAP None \<Rightarrow> Inr (abort_session s)
      | ISKMAP (Some sub) \<Rightarrow>
          bind_run (read_more (map_kbd (\<lambda>k. k\<lparr>rl_key_sequence_length := rl_key_sequence_length k + 1\<rparr>)
            (s\<lparr>rl_dispatching_keymap := sub\<rparr>))) (\<lambda>(newkey, s).
          if newkey < 0 then Inr (abort_session s)
          else
          bind_run (d maps newkey sub (got_subseq \<or> has_function (maps m ANYOTHERKEY)) s) (\<lambda>(out, s).
          case out of
            Long_Jump \<Rightarrow> Inr (Long_Jump, s)
          | Returned r \<Rightarrow> rl_subseq_result d maps r m key got_subseq s))
      | ISMACR macro \<Rightarrow>
          Inr (Returned 0, case macro of None \<Rightarrow> s | Some str \<Rightarrow> map_kbd (rl_with_macro_input str) s)))"

section \<open>The loop that reads a line\<close>

text \<open>
  \<open>readline_internal_char\<close>: whether the input ended. It begins with \<open>lastc = -1\<close>; after a long jump it reads on, with the
  key it has dispatched as \<open>lastc\<close> and the value \<open>lk\<close> it began with.
\<close>

fun rl_char :: "foreign \<Rightarrow> nat \<Rightarrow> nat \<Rightarrow> keymaps \<Rightarrow> int \<Rightarrow> int \<Rightarrow> session \<Rightarrow> bool result" where
  "rl_char ff 0 n maps lastc lk s = Inl No_Return"
| "rl_char ff (Suc j) n maps lastc lk s =
     (let s = (if rl_pending_input (kbd s) = 0
               then map_kbd (\<lambda>k. (rl_reset_argument k)\<lparr>rl_key_sequence_length := 0\<rparr>) s else s) in
      bind_run (session_read_key (map_kbd (\<lambda>k. k\<lparr>state_readcmd := True\<rparr>) s)) (\<lambda>(c, s).
      let s = map_kbd (\<lambda>k. k\<lparr>state_readcmd := False\<rparr>) s;
          c' = (if c = EOF \<and> rl_end (line s) \<noteq> 0 then NEWLINE else c) in
      if c = READERR \<or> (c' = rl_eof_char s \<and> lastc \<noteq> c' \<or> c' = EOF) \<and> rl_end (line s) = 0
      then Inr (True, s\<lparr>line := (line s)\<lparr>rl_done := True\<rparr>\<rparr>)
      else
      bind_run (rl_dispatch (rl_dispatch_subseq ff n) maps (c' mod 256) Emacs_Standard s) (\<lambda>(out, s).
      case out of
        Long_Jump \<Rightarrow> rl_char ff j n maps c' lk s
      | Returned _ \<Rightarrow>
          Inr (False,
            if rl_pending_input (kbd s) = 0 \<and> lk = rl_last_command_was_kill (line s)
            then s\<lparr>line := (line s)\<lparr>rl_last_command_was_kill := 0\<rparr>\<rparr> else s))))"

fun rl_charloop :: "foreign \<Rightarrow> nat \<Rightarrow> nat \<Rightarrow> keymaps \<Rightarrow> bool \<Rightarrow> session \<Rightarrow> bool result" where
  "rl_charloop ff 0 n maps eof s = (if rl_done (line s) then Inr (eof, s) else Inl No_Return)"
| "rl_charloop ff (Suc j) n maps eof s =
     (if rl_done (line s) then Inr (eof, s)
      else bind_run (rl_char ff n n maps (-1) (rl_last_command_was_kill (line s)) s) (\<lambda>(eof, s). rl_charloop ff j n maps eof s))"

definition readline_keys :: "foreign \<Rightarrow> nat \<Rightarrow> keymaps \<Rightarrow> session \<Rightarrow> string option result" where
  "readline_keys ff n maps s =
     (if rl_pending_input (kbd s) = EOF then Inr (None, map_kbd rl_clear_pending_input s)
      else
      bind_run (rl_initialize (line s)) (\<lambda>st.
      bind_run (rl_charloop ff n n maps True (s\<lparr>line := st\<rparr>)) (\<lambda>(eof, s).
      bind_run (readline_internal_teardown eof (line s)) (\<lambda>(r, st).
      Inr (r, s\<lparr>line := st\<rparr>)))))"

end
