(* ===== verification/Rl_Input_Spec.thy ===== *)
theory Rl_Input_Spec
  imports Rl_Input
begin

text \<open>
  What the sources of keys promise: the buffer of keys read ahead is a bounded double-ended queue, the macros are read in
  order, the innermost first, a key is taken from the first source that has one, and what was recorded is what a keyboard
  macro plays.
\<close>

section \<open>The buffer of keys read ahead\<close>

definition ring_inv :: "kbd_state \<Rightarrow> bool" where
  "ring_inv st \<longleftrightarrow> length (ibuffer st) = 512 \<and> 0 \<le> pop_index st \<and> pop_index st < 512 \<and> 0 \<le> push_index st \<and> push_index st < 512"

definition ring_size :: "kbd_state \<Rightarrow> nat" where
  "ring_size st = nat (if pop_index st \<le> push_index st then push_index st - pop_index st else push_index st - pop_index st + 512)"

text \<open>The place of the \<open>k\<close>th key.\<close>

definition ring_pos :: "kbd_state \<Rightarrow> nat \<Rightarrow> nat" where
  "ring_pos st k = (if nat (pop_index st) + k < 512 then nat (pop_index st) + k else nat (pop_index st) + k - 512)"

definition ring_keys :: "kbd_state \<Rightarrow> int list" where
  "ring_keys st = map (\<lambda>k. uint (ibuffer st ! ring_pos st k)) [0..<ring_size st]"

lemma ring_size_less: "ring_inv st \<Longrightarrow> ring_size st < 512"
  by (auto simp: ring_size_def ring_inv_def)

lemma length_ring_keys [simp]: "length (ring_keys st) = ring_size st"
  by (simp add: ring_keys_def)

lemma ring_space: "ring_inv st \<Longrightarrow> ibuffer_space st = 511 - int (ring_size st)"
  by (auto simp: ring_inv_def ibuffer_space_def ibuffer_len_def ring_size_def)

lemma ring_empty: "ring_inv st \<Longrightarrow> ring_size st = 0 \<longleftrightarrow> push_index st = pop_index st"
  by (auto simp: ring_inv_def ring_size_def)

lemma ring_pos_end: "ring_inv st \<Longrightarrow> ring_pos st (ring_size st) = nat (push_index st)"
  by (auto simp: ring_inv_def ring_pos_def ring_size_def)

lemma ring_pos_other: "ring_inv st \<Longrightarrow> k < ring_size st \<Longrightarrow> ring_pos st k \<noteq> nat (push_index st)"
  by (auto simp: ring_inv_def ring_pos_def ring_size_def split: if_splits)

lemma ring_get:
  assumes "ring_inv st"
  shows "\<exists>r st'. rl_get_char st = Inr (r, st') \<and> ring_inv st' \<and> st' = st\<lparr>pop_index := pop_index st'\<rparr> \<and>
    (case ring_keys st of [] \<Rightarrow> r = None \<and> st' = st | k # ks \<Rightarrow> r = Some k \<and> ring_keys st' = ks)"
proof (cases "ring_size st = 0")
  case True
  then show ?thesis using assms by (simp add: rl_get_char_def ring_empty ring_keys_def)
next
  case False
  let ?i = "if pop_index st + 1 > ibuffer_len then 0 else pop_index st + 1"
  let ?st = "st\<lparr>pop_index := ?i\<rparr>"
  have ne: "push_index st \<noteq> pop_index st" using False assms by (simp add: ring_empty)
  then have run: "rl_get_char st = Inr (Some (uint (ibuffer st ! nat (pop_index st))), ?st)"
    using assms by (simp add: rl_get_char_def ring_inv_def ibuffer_get_def Let_def)
  have inv: "ring_inv ?st" using assms by (auto simp: ring_inv_def ibuffer_len_def)
  have size: "ring_size st = Suc (ring_size ?st)"
    using ne assms by (auto simp: ring_size_def ring_inv_def ibuffer_len_def)
  have pos: "ring_pos ?st k = ring_pos st (Suc k)" if "k < 512" for k
    using assms that by (cases "pop_index st = 511") (auto simp: ring_pos_def ring_inv_def ibuffer_len_def)
  have "ring_pos st 0 = nat (pop_index st)" using assms by (auto simp: ring_pos_def ring_inv_def)
  moreover have "map (\<lambda>k. uint (ibuffer st ! ring_pos st (Suc k))) [0..<ring_size ?st] = ring_keys ?st"
    using ring_size_less [OF inv] pos by (simp add: ring_keys_def)
  ultimately have "ring_keys st = uint (ibuffer st ! nat (pop_index st)) # ring_keys ?st"
    unfolding ring_keys_def [of st] size map_upt_Suc by simp
  then show ?thesis using run inv by simp
qed

lemma ring_stuff_room:
  fixes key :: int
  assumes "ring_inv st" and "ring_size st < 511"
  defines "st' \<equiv> st\<lparr>ibuffer := (ibuffer st)[nat (push_index st) := word_of_int key],
    push_index := (if push_index st + 1 > ibuffer_len then 0 else push_index st + 1)\<rparr>"
  shows "ring_inv st'" "ring_keys st' = ring_keys st @ [key mod 256]"
proof -
  show inv: "ring_inv st'" using assms(1) by (auto simp: ring_inv_def st'_def ibuffer_len_def)
  have size: "ring_size st' = Suc (ring_size st)"
    using assms(1,2) by (auto simp: ring_size_def ring_inv_def st'_def ibuffer_len_def split: if_splits)
  have pos: "ring_pos st' k = ring_pos st k" for k by (simp add: ring_pos_def st'_def)
  have "uint (ibuffer st' ! ring_pos st k) = uint (ibuffer st ! ring_pos st k)" if "k < ring_size st" for k
    using ring_pos_other [OF assms(1) that] by (simp add: st'_def)
  moreover have "uint (ibuffer st' ! ring_pos st (ring_size st)) = key mod 256"
    using assms(1) by (auto simp: ring_pos_end [OF assms(1)] st'_def ring_inv_def uint_word_of_int)
  ultimately show "ring_keys st' = ring_keys st @ [key mod 256]"
    unfolding ring_keys_def size pos by simp
qed

lemma ring_unget_room:
  fixes key :: int
  assumes "ring_inv st" and "ring_size st < 511"
  defines "i \<equiv> (if pop_index st - 1 < 0 then ibuffer_len else pop_index st - 1)"
  defines "st' \<equiv> st\<lparr>ibuffer := (ibuffer st)[nat i := word_of_int key], pop_index := i\<rparr>"
  shows "ring_inv st'" "ring_keys st' = key mod 256 # ring_keys st"
proof -
  show inv: "ring_inv st'" using assms(1) by (auto simp: ring_inv_def st'_def i_def ibuffer_len_def)
  have size: "ring_size st' = Suc (ring_size st)"
    using assms(1,2) by (auto simp: ring_size_def ring_inv_def st'_def i_def ibuffer_len_def split: if_splits)
  have pos: "ring_pos st' (Suc k) = ring_pos st k" if "k < 512" for k
    using assms(1) that by (cases "pop_index st = 0") (auto simp: ring_pos_def ring_inv_def st'_def i_def ibuffer_len_def)
  have other: "ring_pos st k \<noteq> nat i" if "k < ring_size st" for k
    using assms(1,2) that by (auto simp: ring_pos_def ring_inv_def i_def ibuffer_len_def ring_size_def split: if_splits)
  have "map (\<lambda>k. uint (ibuffer st' ! ring_pos st' (Suc k))) [0..<ring_size st] = ring_keys st"
    using other [THEN not_sym] assms(2) pos by (auto simp: ring_keys_def st'_def)
  moreover have "uint (ibuffer st' ! ring_pos st' 0) = key mod 256"
    using assms(1) by (auto simp: st'_def ring_inv_def ring_pos_def uint_word_of_int i_def ibuffer_len_def)
  ultimately show "ring_keys st' = key mod 256 # ring_keys st"
    unfolding ring_keys_def [of st'] size map_upt_Suc by simp
qed

text \<open>The operations with what they returned, and those on a queue of at most 511 keys with the pending key.\<close>

datatype ring_op = Stuff_Char int | Unget_Char int | Get_Char | Execute_Next int | Clear_Pending

datatype ring_result = Stored bool | Got "int option" | Done

definition ring_step :: "ring_op \<Rightarrow> kbd_state \<times> ring_result list \<Rightarrow> (kbd_state \<times> ring_result list) run" where
  "ring_step oper s = (case s of (st, out) \<Rightarrow>
     (case oper of
        Stuff_Char key \<Rightarrow> bind_run (rl_stuff_char key st) (\<lambda>(b, st). Inr (st, out @ [Stored b]))
      | Unget_Char key \<Rightarrow> bind_run (rl_unget_char key st) (\<lambda>(b, st). Inr (st, out @ [Stored b]))
      | Get_Char \<Rightarrow> bind_run (rl_get_char st) (\<lambda>(r, st). Inr (st, out @ [Got r]))
      | Execute_Next c \<Rightarrow> Inr (rl_execute_next c st, out @ [Done])
      | Clear_Pending \<Rightarrow> Inr (rl_clear_pending_input st, out @ [Done])))"

type_synonym key_queue = "int list \<times> int \<times> ring_result list"

definition queue_step :: "ring_op \<Rightarrow> key_queue \<Rightarrow> key_queue" where
  "queue_step oper q = (case q of (keys, pending, out) \<Rightarrow>
     let room = length keys < 511 in
     (case oper of
        Stuff_Char key \<Rightarrow>
          (if room then keys @ [if key = EOF then NEWLINE else key mod 256] else keys,
           if room \<and> key = EOF then EOF else pending, out @ [Stored room])
      | Unget_Char key \<Rightarrow> (if room then key mod 256 # keys else keys, pending, out @ [Stored room])
      | Get_Char \<Rightarrow> (tl keys, pending, out @ [Got (if keys = [] then None else Some (hd keys))])
      | Execute_Next c \<Rightarrow> (keys, c, out @ [Done])
      | Clear_Pending \<Rightarrow> (keys, 0, out @ [Done])))"

definition ring_abs :: "kbd_state \<times> ring_result list \<Rightarrow> key_queue" where
  "ring_abs s = (case s of (st, out) \<Rightarrow> (ring_keys st, rl_pending_input st, out))"

lemma ring_cong:
  "ibuffer st' = ibuffer st \<Longrightarrow> pop_index st' = pop_index st \<Longrightarrow> push_index st' = push_index st \<Longrightarrow>
    ring_keys st' = ring_keys st \<and> ring_inv st' = ring_inv st \<and> ring_size st' = ring_size st"
  by (simp add: ring_keys_def ring_inv_def ring_size_def ring_pos_def)

lemma stuff_run:
  assumes "ring_inv st"
  shows "\<exists>st'. rl_stuff_char key st = Inr (ring_size st < 511, st') \<and> ring_inv st' \<and>
    ring_keys st' = (if ring_size st < 511 then ring_keys st @ [if key = EOF then NEWLINE else key mod 256] else ring_keys st) \<and>
    rl_pending_input st' = (if ring_size st < 511 \<and> key = EOF then EOF else rl_pending_input st)"
proof (cases "ring_size st < 511")
  case True
  define st1 where "st1 = (if key = EOF then st\<lparr>rl_pending_input := EOF, state_inputpending := True\<rparr> else st)"
  define k where "k = (if key = EOF then NEWLINE else key)"
  have same: "ring_keys st1 = ring_keys st" "ring_inv st1" "ring_size st1 < 511"
    using ring_cong [of st1 st] assms True by (auto simp: st1_def)
  have i: "0 \<le> push_index st1" "push_index st1 < int (length (ibuffer st1))" using same(2) by (auto simp: ring_inv_def)
  show ?thesis
    using ring_stuff_room [OF same(2,3), of k] True assms i same(1) ring_space [OF assms]
    by (auto simp: rl_stuff_char_def st1_def [symmetric] k_def [symmetric] ibuffer_put_def Let_def)
      (auto simp: k_def st1_def NEWLINE_def)
next
  case False
  then have "ring_size st = 511" using ring_size_less [OF assms] by simp
  then show ?thesis using assms by (simp add: rl_stuff_char_def ring_space)
qed

lemma unget_run:
  assumes "ring_inv st"
  shows "\<exists>st'. rl_unget_char key st = Inr (ring_size st < 511, st') \<and> ring_inv st' \<and>
    ring_keys st' = (if ring_size st < 511 then key mod 256 # ring_keys st else ring_keys st) \<and>
    rl_pending_input st' = rl_pending_input st"
proof (cases "ring_size st < 511")
  case True
  then show ?thesis using ring_unget_room [OF assms True, of key] assms
    by (simp add: rl_unget_char_def ring_space ibuffer_put_def Let_def) (auto simp: ring_inv_def ibuffer_len_def)
next
  case False
  then have "ring_size st = 511" using ring_size_less [OF assms] by simp
  then show ?thesis using assms by (simp add: rl_unget_char_def ring_space)
qed

lemma ring_step_refines:
  assumes "ring_inv st"
  shows "\<exists>st' out'. ring_step oper (st, out) = Inr (st', out') \<and> ring_inv st' \<and>
    ring_abs (st', out') = queue_step oper (ring_abs (st, out))"
proof (cases oper)
  case (Stuff_Char key)
  from stuff_run [OF assms, of key] obtain st' where "rl_stuff_char key st = Inr (ring_size st < 511, st')" "ring_inv st'"
    "ring_keys st' = (if ring_size st < 511 then ring_keys st @ [if key = EOF then NEWLINE else key mod 256] else ring_keys st)"
    "rl_pending_input st' = (if ring_size st < 511 \<and> key = EOF then EOF else rl_pending_input st)" by blast
  then show ?thesis using Stuff_Char by (simp add: ring_step_def ring_abs_def queue_step_def Let_def)
next
  case (Unget_Char key)
  from unget_run [OF assms, of key] obtain st' where "rl_unget_char key st = Inr (ring_size st < 511, st')" "ring_inv st'"
    "ring_keys st' = (if ring_size st < 511 then key mod 256 # ring_keys st else ring_keys st)"
    "rl_pending_input st' = rl_pending_input st" by blast
  then show ?thesis using Unget_Char by (simp add: ring_step_def ring_abs_def queue_step_def Let_def)
next
  case Get_Char
  from ring_get [OF assms] obtain r st' where "rl_get_char st = Inr (r, st')" "ring_inv st'"
    "st' = st\<lparr>pop_index := pop_index st'\<rparr>"
    "case ring_keys st of [] \<Rightarrow> r = None \<and> st' = st | k # ks \<Rightarrow> r = Some k \<and> ring_keys st' = ks" by blast
  moreover from this(3) have "rl_pending_input st' = rl_pending_input st" by (metis kbd_state.select_convs(4) kbd_state.surjective kbd_state.update_convs(1))
  ultimately show ?thesis using Get_Char
    by (cases "ring_keys st") (simp_all add: ring_step_def ring_abs_def queue_step_def Let_def)
next
  case (Execute_Next c)
  then show ?thesis using assms ring_cong [of "rl_execute_next c st" st]
    by (simp add: ring_step_def ring_abs_def queue_step_def rl_execute_next_def)
next
  case Clear_Pending
  then show ?thesis using assms ring_cong [of "rl_clear_pending_input st" st]
    by (simp add: ring_step_def ring_abs_def queue_step_def rl_clear_pending_input_def)
qed

interpretation key_ring: refined_component ring_step "\<lambda>(st, out). ring_inv st" ring_abs queue_step "\<lambda>_ _. True"
  by unfold_locales (use ring_step_refines in fastforce)

lemma all_allowed [simp]: "ops_allowed (\<lambda>_ _. True) spec cs x"
  by (induction cs arbitrary: x) simp_all

section \<open>The macros\<close>

text \<open>What is left of the executed macros, the innermost first.\<close>

fun macro_rest :: "string option \<times> nat \<Rightarrow> string" where
  "macro_rest (None, i) = []"
| "macro_rest (Some str, i) = drop i str"

definition macro_text :: "kbd_state \<Rightarrow> string" where
  "macro_text st = concat (map macro_rest ((rl_executing_macro st, executing_macro_index st) # macro_list st))"

text \<open>The saved macros end with the one that stands for none, which is below every macro.\<close>

fun macros_ok :: "string option \<times> nat \<Rightarrow> (string option \<times> nat) list \<Rightarrow> bool" where
  "macros_ok (None, i) ms = (ms = [])"
| "macros_ok (Some str, i) [] = False"
| "macros_ok (Some str, i) (m # ms) = (NUL \<notin> set str \<and> i \<le> length str \<and> macros_ok m ms)"

definition macro_inv :: "kbd_state \<Rightarrow> bool" where
  "macro_inv st \<longleftrightarrow> macros_ok (rl_executing_macro st, executing_macro_index st) (macro_list st) \<and>
     (state_macroinput st \<longleftrightarrow> rl_executing_macro st \<noteq> None)"

text \<open>The rest of the state.\<close>

definition but_macros :: "kbd_state \<Rightarrow> kbd_state" where
  "but_macros st =
     st\<lparr>rl_executing_macro := None, executing_macro_index := 0, macro_list := [], state_macroinput := False\<rparr>"

lemma but_macros_fields:
  assumes "but_macros st' = but_macros st"
  shows "char_is_signed st' = char_is_signed st" "ring_keys st' = ring_keys st" "ring_inv st' = ring_inv st"
    "kbd_stream st' = kbd_stream st" "rl_pending_input st' = rl_pending_input st"
    "rl_key_sequence_length st' = rl_key_sequence_length st"
proof -
  have fields: "f (but_macros st') = f (but_macros st)" for f :: "kbd_state \<Rightarrow> 'b" using assms by simp
  show "char_is_signed st' = char_is_signed st" using fields [of char_is_signed] by (simp add: but_macros_def)
  show "kbd_stream st' = kbd_stream st" using fields [of kbd_stream] by (simp add: but_macros_def)
  show "rl_pending_input st' = rl_pending_input st" using fields [of rl_pending_input] by (simp add: but_macros_def)
  show "rl_key_sequence_length st' = rl_key_sequence_length st"
    using fields [of rl_key_sequence_length] by (simp add: but_macros_def)
  show "ring_keys st' = ring_keys st" "ring_inv st' = ring_inv st"
    using fields [of ibuffer] fields [of pop_index] fields [of push_index] ring_cong [of st' st] by (simp_all add: but_macros_def)
qed

lemma with_macro_text:
  "macro_inv st \<Longrightarrow> NUL \<notin> set str \<Longrightarrow>
    macro_inv (rl_with_macro_input str st) \<and> macro_text (rl_with_macro_input str st) = str @ macro_text st"
  by (simp add: macro_inv_def rl_with_macro_input_def rl_push_executing_macro_def macro_text_def)

lemma pop_macro_text:
  assumes "macro_inv st" and "rl_executing_macro st = Some str" and "executing_macro_index st = length str"
  shows "macro_inv (rl_pop_executing_macro st)" "macro_text (rl_pop_executing_macro st) = macro_text st"
proof -
  obtain m i ms where ms: "macro_list st = (m, i) # ms" "macros_ok (m, i) ms"
    using assms by (cases "macro_list st") (auto simp: macro_inv_def)
  then show "macro_inv (rl_pop_executing_macro st)" "macro_text (rl_pop_executing_macro st) = macro_text st"
    using assms by (cases m; simp add: macro_inv_def macro_text_def rl_pop_executing_macro_def Let_def)+
qed

lemma pop_macro_same [simp]: "but_macros (rl_pop_executing_macro st) = but_macros st"
  by (simp add: rl_pop_executing_macro_def Let_def but_macros_def split: list.split)

definition next_char :: "bool \<Rightarrow> string \<Rightarrow> int" where
  "next_char b cs = (case cs of [] \<Rightarrow> 0 | c # cs \<Rightarrow> char_value b c)"

lemma next_char_simps [simp]: "next_char b [] = 0" "next_char b (c # cs) = char_value b c"
  by (simp_all add: next_char_def)

lemma pop_macro_sign [simp]: "char_is_signed (rl_pop_executing_macro st) = char_is_signed st"
  by (rule but_macros_fields(1)) simp

lemma next_macro_key:
  "macro_inv st \<Longrightarrow>
    \<exists>st'. rl_next_macro_key st = Inr (next_char (char_is_signed st) (macro_text st), st') \<and>
      macro_inv st' \<and> macro_text st' = tl (macro_text st) \<and> but_macros st' = but_macros st"
proof (induction st rule: rl_next_macro_key.induct)
  case (1 st)
  show ?case
  proof (cases "rl_executing_macro st")
    case None
    then show ?thesis using "1.prems" by (subst rl_next_macro_key.simps) (simp add: macro_text_def macro_inv_def)
  next
    case (Some str)
    let ?i = "executing_macro_index st"
    have i: "?i \<le> length str" "NUL \<notin> set str" "state_macroinput st"
      using "1.prems" Some by (cases "macro_list st"; simp add: macro_inv_def)+
    show ?thesis
    proof (cases "?i = length str")
      case True
      from "1.IH" [OF Some, of NUL] pop_macro_text [OF "1.prems" Some True] i(1) True obtain st' where
        "rl_next_macro_key (rl_pop_executing_macro st) =
          Inr (next_char (char_is_signed st) (macro_text st), st')"
        "macro_inv st'" "macro_text st' = tl (macro_text st)" "but_macros st' = but_macros st"
        by (auto simp: byte_at_def)
      then show ?thesis using Some True by (subst rl_next_macro_key.simps) (auto simp: byte_at_def)
    next
      case False
      then have lt: "?i < length str" using i by simp
      let ?st = "st\<lparr>executing_macro_index := Suc ?i\<rparr>"
      have chars: "macro_text st = str ! ?i # macro_text ?st"
        using Some lt by (simp add: macro_text_def Cons_nth_drop_Suc [symmetric])
      have inv: "macro_inv ?st" using "1.prems" Some lt by (cases "macro_list st") (auto simp: macro_inv_def)
      have same: "but_macros ?st = but_macros st" by (simp add: but_macros_def)
      have c: "str ! ?i \<noteq> NUL" "Suc ?i < length str \<Longrightarrow> str ! Suc ?i \<noteq> NUL" using i(2) lt nth_mem by metis+
      have last: "macro_inv (rl_pop_executing_macro ?st)" "macro_text (rl_pop_executing_macro ?st) = macro_text ?st"
        if "Suc ?i = length str" using pop_macro_text [OF inv, of str] that Some by simp_all
      show ?thesis
      proof (cases "Suc ?i = length str")
        case True
        then have "byte_at str (Suc ?i) = Inr NUL" "byte_at str ?i = Inr (str ! ?i)" by (simp_all add: byte_at_def)
        with Some c(1) chars inv same last [OF True] show ?thesis
          by (subst rl_next_macro_key.simps) (simp add: Let_def)
      next
        case False
        then have "byte_at str (Suc ?i) = Inr (str ! Suc ?i)" "byte_at str ?i = Inr (str ! ?i)" "str ! Suc ?i \<noteq> NUL"
          using lt c(2) by (simp_all add: byte_at_def)
        with Some c(1) chars inv same show ?thesis by (subst rl_next_macro_key.simps) (simp add: Let_def)
      qed
    qed
  qed
qed

lemma macros_ok_NUL: "macros_ok m ms \<Longrightarrow> NUL \<notin> set (concat (map macro_rest (m # ms)))"
  by (induction m ms rule: macros_ok.induct) (auto dest: in_set_dropD)

lemma macro_text_NUL: "macro_inv st \<Longrightarrow> NUL \<notin> set (macro_text st)"
  using macros_ok_NUL unfolding macro_inv_def macro_text_def by blast

section \<open>Reading keys\<close>

definition key_source :: "kbd_state \<Rightarrow> int list" where
  "key_source st =
     (if rl_pending_input st = 0 then [] else [rl_pending_input st]) @
     map (char_value (char_is_signed st)) (macro_text st) @ ring_keys st @ kbd_stream st"

definition key_inv :: "kbd_state \<Rightarrow> bool" where
  "key_inv st \<longleftrightarrow> ring_inv st \<and> macro_inv st"

lemma char_value_eq_0: "c \<noteq> NUL \<Longrightarrow> char_value b c \<noteq> 0"
proof -
  assume "c \<noteq> NUL"
  then have "of_char c \<noteq> (0::nat)" using of_char_eq_iff [of c NUL, where ?'a = nat] by simp
  moreover have "of_char c \<noteq> (256::nat)" using nat_of_char_less_256 [of c] by linarith
  ultimately show ?thesis by (auto simp: char_value_def)
qed

text \<open>The state without the sources of keys, and what reading a key does.\<close>

definition but_source :: "kbd_state \<Rightarrow> kbd_state" where
  "but_source st = (but_macros st)\<lparr>pop_index := 0, rl_pending_input := 0, state_inputpending := False,
     rl_key_sequence_length := 0, kbd_stream := []\<rparr>"

definition key_taken :: "kbd_state \<Rightarrow> kbd_state \<Rightarrow> bool" where
  "key_taken st st' \<longleftrightarrow> key_inv st' \<and> key_source st' = tl (key_source st) \<and> rl_pending_input st' = 0 \<and>
     rl_key_sequence_length st' = rl_key_sequence_length st + 1 \<and> but_source st' = but_source st \<and>
     (ring_keys st = [] \<longrightarrow> ring_keys st' = [])"

definition first_key :: "kbd_state \<Rightarrow> int" where
  "first_key st = (case key_source st of [] \<Rightarrow> EOF | k # ks \<Rightarrow> k)"

lemma but_source_sources [simp]:
  "but_source (st\<lparr>rl_key_sequence_length := n\<rparr>) = but_source st" "but_source (st\<lparr>pop_index := i\<rparr>) = but_source st"
  "but_source (st\<lparr>kbd_stream := t\<rparr>) = but_source st" "but_source (rl_clear_pending_input st) = but_source st"
  by (simp_all add: but_source_def but_macros_def rl_clear_pending_input_def)

lemma but_macros_source: "but_macros st' = but_macros st \<Longrightarrow> but_source st' = but_source st"
  by (simp add: but_source_def)

lemma read_pending:
  assumes "key_inv st" and "rl_pending_input st \<noteq> 0"
  shows "\<exists>st'. rl_read_key st = Inr (first_key st, st') \<and> key_taken st st'"
proof -
  let ?st = "rl_clear_pending_input (st\<lparr>rl_key_sequence_length := rl_key_sequence_length st + 1\<rparr>)"
  have "key_inv ?st" "key_source ?st = tl (key_source st)" "ring_keys ?st = ring_keys st"
    using assms ring_cong [of ?st st]
    by (simp_all add: key_inv_def macro_inv_def key_source_def macro_text_def rl_clear_pending_input_def)
  moreover have "rl_pending_input ?st = 0" "rl_key_sequence_length ?st = rl_key_sequence_length st + 1"
    by (simp_all add: rl_clear_pending_input_def)
  ultimately have "key_taken st ?st" by (simp add: key_taken_def)
  moreover have "rl_read_key st = Inr (first_key st, ?st)"
    using assms(2) by (simp add: rl_read_key_def Let_def first_key_def key_source_def)
  ultimately show ?thesis by blast
qed

lemma read_ring:
  assumes "ring_inv st1" and "macro_inv st1" and "macro_text st1 = []" and "rl_pending_input st1 = 0"
  shows "\<exists>r st2. rl_get_char st1 = Inr (r, st2) \<and>
    (case r of Some c \<Rightarrow> key_source st1 = c # key_source st2 | None \<Rightarrow> st2 = st1 \<and> ring_keys st1 = []) \<and>
    key_inv st2 \<and> rl_pending_input st2 = 0 \<and> rl_key_sequence_length st2 = rl_key_sequence_length st1 \<and>
    but_source st2 = but_source st1 \<and> (ring_keys st1 = [] \<longrightarrow> ring_keys st2 = [])"
proof -
  from ring_get [OF assms(1)] obtain r st2 where st2: "rl_get_char st1 = Inr (r, st2)" "ring_inv st2"
    "st2 = st1\<lparr>pop_index := pop_index st2\<rparr>"
    "case ring_keys st1 of [] \<Rightarrow> r = None \<and> st2 = st1 | k # ks \<Rightarrow> r = Some k \<and> ring_keys st2 = ks" by blast
  obtain i where i: "st2 = st1\<lparr>pop_index := i\<rparr>" using st2(3) by blast
  have "macro_text st2 = []" "macro_inv st2" "kbd_stream st2 = kbd_stream st1" "rl_pending_input st2 = 0"
    "but_source st2 = but_source st1" "rl_key_sequence_length st2 = rl_key_sequence_length st1"
    using assms(2-4) by (simp_all add: i macro_text_def macro_inv_def)
  then show ?thesis using st2(1,2,4) assms
    by (cases "ring_keys st1") (simp_all add: key_source_def key_inv_def)
qed

lemma read_key_run:
  assumes "key_inv st"
  shows "\<exists>st'. rl_read_key st = Inr (first_key st, st') \<and> key_taken st st'"
proof (cases "rl_pending_input st = 0")
  case False
  then show ?thesis using read_pending [OF assms] by simp
next
  case True
  let ?st = "st\<lparr>rl_key_sequence_length := rl_key_sequence_length st + 1\<rparr>"
  have inv: "key_inv ?st" "macro_text ?st = macro_text st" "ring_keys ?st = ring_keys st"
    using assms ring_cong [of ?st st] by (simp_all add: key_inv_def macro_inv_def macro_text_def)
  from next_macro_key [of ?st] inv(1) obtain st1 where st1:
    "rl_next_macro_key ?st = Inr (next_char (char_is_signed st) (macro_text st), st1)"
    "macro_inv st1" "macro_text st1 = tl (macro_text st)" "but_macros st1 = but_macros ?st"
    unfolding key_inv_def inv(2) by auto
  have same: "kbd_stream st1 = kbd_stream st" "ring_keys st1 = ring_keys st" "ring_inv st1" "rl_pending_input st1 = 0"
    "rl_key_sequence_length st1 = rl_key_sequence_length st + 1" "char_is_signed st1 = char_is_signed st"
    "but_source st1 = but_source st"
    using but_macros_fields [OF st1(4)] but_macros_source [OF st1(4)] inv(1,3) True by (simp_all add: key_inv_def)
  show ?thesis
  proof (cases "macro_text st")
    case (Cons c cs)
    have "NUL \<notin> set (macro_text st)" using assms by (simp add: key_inv_def macro_text_NUL)
    then have "char_value (char_is_signed st) c \<noteq> 0" using Cons char_value_eq_0 [of c] by auto
    then have "rl_read_key st = Inr (first_key st, st1)"
      using True Cons st1(1) by (simp add: rl_read_key_def Let_def first_key_def key_source_def)
    moreover have "key_taken st st1" using True Cons same st1(2,3) by (simp add: key_taken_def key_inv_def key_source_def)
    ultimately show ?thesis by blast
  next
    case Nil
    then have none: "macro_text st1 = []" using st1(3) by simp
    have src: "key_source st1 = key_source st" using True Nil none same by (simp add: key_source_def)
    from read_ring [OF same(3) st1(2) none same(4)] obtain r st2 where st2: "rl_get_char st1 = Inr (r, st2)"
      "case r of Some c \<Rightarrow> key_source st1 = c # key_source st2 | None \<Rightarrow> st2 = st1 \<and> ring_keys st1 = []"
      "key_inv st2" "rl_pending_input st2 = 0" "rl_key_sequence_length st2 = rl_key_sequence_length st1"
      "but_source st2 = but_source st1" "ring_keys st1 = [] \<longrightarrow> ring_keys st2 = []" by blast
    have run: "rl_read_key st = (case r of Some c \<Rightarrow> Inr (c, st2) | None \<Rightarrow> Inr (rl_getc st2))"
      using True Nil st1(1) st2(1) by (simp add: rl_read_key_def Let_def)
    show ?thesis
    proof (cases r)
      case (Some c)
      then show ?thesis using run st2 src same by (simp add: key_taken_def first_key_def)
    next
      case None
      have "key_inv (st1\<lparr>kbd_stream := t\<rparr>) \<and> ring_keys (st1\<lparr>kbd_stream := t\<rparr>) = [] \<and> macro_text (st1\<lparr>kbd_stream := t\<rparr>) = []" for t
        using ring_cong [of "st1\<lparr>kbd_stream := t\<rparr>" st1] st2(2) same(3) st1(2) none None
        by (simp add: key_inv_def macro_inv_def macro_text_def)
      then show ?thesis using run None st2 same none True Nil
        by (cases "kbd_stream st") (simp_all add: rl_getc_def key_taken_def first_key_def key_source_def)
    qed
  qed
qed

text \<open>Reading a number of keys.\<close>

fun read_keys :: "nat \<Rightarrow> kbd_state \<Rightarrow> (int list \<times> kbd_state) run" where
  "read_keys 0 st = Inr ([], st)"
| "read_keys (Suc n) st =
     bind_run (rl_read_key st) (\<lambda>(k, st). bind_run (read_keys n st) (\<lambda>(ks, st). Inr (k # ks, st)))"

lemma read_keys_run:
  "key_inv st \<Longrightarrow>
    \<exists>st'. read_keys n st = Inr (take n (key_source st) @ replicate (n - length (key_source st)) EOF, st') \<and> key_inv st' \<and>
      key_source st' = drop n (key_source st) \<and> rl_key_sequence_length st' = rl_key_sequence_length st + int n"
proof (induction n arbitrary: st)
  case (Suc n)
  from read_key_run [OF Suc.prems] obtain st1 where st1:
    "rl_read_key st = Inr (first_key st, st1)" "key_inv st1"
    "key_source st1 = tl (key_source st)" "rl_key_sequence_length st1 = rl_key_sequence_length st + 1"
    by (auto simp: key_taken_def)
  from Suc.IH [OF st1(2)] st1 show ?case by (cases "key_source st") (auto simp: first_key_def)
qed simp

section \<open>Recording a macro\<close>

text \<open>The bytes in the macro that is being defined.\<close>

definition recorded :: "string \<Rightarrow> kbd_state \<Rightarrow> bool" where
  "recorded bs st \<longleftrightarrow> current_macro_index st = int (length bs) \<and>
     (case current_macro st of
        None \<Rightarrow> bs = [] \<and> current_macro_size st = 0
      | Some blk \<Rightarrow> int (length blk) = current_macro_size st \<and> length bs < length blk \<and> take (length bs) blk = bs)"

definition but_record :: "kbd_state \<Rightarrow> kbd_state" where
  "but_record st = st\<lparr>current_macro := None, current_macro_size := 0, current_macro_index := 0\<rparr>"

lemma put_recorded:
  assumes "current_macro st = Some blk" and "n < length blk" and "int (length blk) = current_macro_size st" and "take n blk = bs" and "length bs = n"
  shows "\<exists>st'. macro_put (int n) [c] st = Inr st' \<and> current_macro st' = Some (bs @ c # drop (Suc n) blk) \<and>
    current_macro_index st' = current_macro_index st \<and> current_macro_size st' = current_macro_size st \<and> but_record st' = but_record st"
  using assms by (simp add: macro_put_def put_bytes_def but_record_def)

lemma add_recorded:
  assumes "recorded bs st"
  shows "\<exists>st' r. rl_add_macro_char c st = Inr st' \<and> recorded (bs @ [key_char c]) st' \<and> but_record st' = but_record st \<and>
    current_macro st' = Some (bs @ key_char c # NUL # r)"
proof -
  define st1 where "st1 = (if current_macro_index st + 1 \<ge> current_macro_size st then
           case current_macro st of
             None \<Rightarrow> st\<lparr>current_macro_size := 25, current_macro := Some (replicate 25 (kbd_junk st))\<rparr>
           | Some blk \<Rightarrow>
               let size = current_macro_size st + 25 in
               st\<lparr>current_macro_size := size, current_macro := Some (xrealloc (kbd_junk st) (nat size) blk)\<rparr>
         else st)"
  have "\<exists>blk. current_macro st1 = Some blk \<and> int (length blk) = current_macro_size st1 \<and> Suc (length bs) < length blk \<and>
    take (length bs) blk = bs \<and> current_macro_index st1 = int (length bs) \<and> but_record st1 = but_record st"
  proof (cases "current_macro st")
    case None
    then show ?thesis using assms by (simp add: recorded_def st1_def but_record_def)
  next
    case (Some blk)
    then show ?thesis using assms
      by (cases "current_macro_index st + 1 \<ge> current_macro_size st")
        (auto simp: recorded_def st1_def Let_def xrealloc_facts but_record_def)
  qed
  then obtain blk where blk: "current_macro st1 = Some blk" "int (length blk) = current_macro_size st1" "Suc (length bs) < length blk"
    "take (length bs) blk = bs" "current_macro_index st1 = int (length bs)" "but_record st1 = but_record st" by blast
  then have "length bs < length blk" by simp
  from put_recorded [OF blk(1) this blk(2,4), of "key_char c"] obtain st2 where st2:
    "macro_put (int (length bs)) [key_char c] st1 = Inr st2" "current_macro st2 = Some (bs @ key_char c # drop (Suc (length bs)) blk)"
    "current_macro_index st2 = int (length bs)" "current_macro_size st2 = current_macro_size st1" "but_record st2 = but_record st"
    using blk(5,6) by auto
  let ?st = "st2\<lparr>current_macro_index := int (Suc (length bs))\<rparr>"
  have room: "length bs < length blk - Suc 0" using blk(3) by linarith
  have "current_macro ?st = Some (bs @ key_char c # drop (Suc (length bs)) blk)"
    "int (length (bs @ key_char c # drop (Suc (length bs)) blk)) = current_macro_size ?st" using st2 blk by auto
  from put_recorded [OF this(1) _ this(2), of "Suc (length bs)" "bs @ [key_char c]" NUL] room obtain st3 where st3:
    "macro_put (int (Suc (length bs))) [NUL] ?st = Inr st3"
    "current_macro st3 = Some (bs @ key_char c # NUL # drop (Suc (Suc (length bs))) blk)"
    "current_macro_index st3 = int (Suc (length bs))" "current_macro_size st3 = current_macro_size st1" "but_record st3 = but_record ?st"
    using st2(4) by auto
  have "rl_add_macro_char c st = Inr st3"
    using st2(1,3) st3(1) blk(5) unfolding rl_add_macro_char_def st1_def [symmetric]
    by (simp add: Let_def add.commute)
  moreover have "recorded (bs @ [key_char c]) st3" using st3(2-4) blk(2,3) by (simp add: recorded_def)
  moreover have "but_record st3 = but_record st" using st3(5) st2(5) by (simp add: but_record_def)
  ultimately show ?thesis using st3(2) by blast
qed

lemma end_recorded:
  assumes "recorded bs st" and "current_macro st \<noteq> None" and "n \<le> length bs" and "NUL \<notin> set (take n bs)"
  shows "\<exists>st' blk. macro_put (int n) [NUL] (st\<lparr>current_macro_index := int n\<rparr>) = Inr st' \<and> recorded (take n bs) st' \<and>
    but_record st' = but_record st \<and> current_macro st' = Some blk \<and> saved_macro blk = Inr (take n bs)"
proof -
  let ?st = "st\<lparr>current_macro_index := int n\<rparr>"
  from assms(1,2) obtain blk where blk: "current_macro st = Some blk" "int (length blk) = current_macro_size st"
    "length bs < length blk" "take (length bs) blk = bs" by (auto simp: recorded_def)
  then have t: "take n blk = take n bs" using assms(3) by (metis min_absorb2 take_take min.commute)
  from put_recorded [of ?st blk n "take n bs" NUL] blk t assms(3) obtain st' where
    "macro_put (int n) [NUL] ?st = Inr st'" "current_macro st' = Some (take n bs @ NUL # drop (Suc n) blk)"
    "current_macro_index st' = int n" "current_macro_size st' = current_macro_size st" "but_record st' = but_record ?st" by auto
  moreover have "saved_macro (take n bs @ NUL # drop (Suc n) blk) = Inr (take n bs)"
    using assms(4) by (simp add: saved_macro_def cstr_of_append_NUL)
  ultimately show ?thesis using blk assms(3) by (simp add: recorded_def but_record_def)
qed

text \<open>The keys that are recorded.\<close>

fun add_macro_chars :: "int list \<Rightarrow> kbd_state \<Rightarrow> kbd_state run" where
  "add_macro_chars [] st = Inr st"
| "add_macro_chars (k # ks) st = bind_run (rl_add_macro_char k st) (add_macro_chars ks)"

lemma add_chars_recorded:
  "recorded bs st \<Longrightarrow> \<exists>st'. add_macro_chars ks st = Inr st' \<and> recorded (bs @ map key_char ks) st' \<and>
    but_record st' = but_record st \<and> (ks \<noteq> [] \<longrightarrow> current_macro st' \<noteq> None)"
proof (induction ks arbitrary: bs st)
  case (Cons k ks)
  from add_recorded [OF Cons.prems, of k] obtain st1 r where st1: "rl_add_macro_char k st = Inr st1"
    "recorded (bs @ [key_char k]) st1" "but_record st1 = but_record st" "current_macro st1 = Some r" by blast
  from Cons.IH [OF st1(2)] st1 show ?case by (cases ks) auto
qed simp

section \<open>The properties\<close>

text \<open>C6: The buffer of keys read ahead is a bounded double-ended queue. Whatever sequence of \<open>rl_stuff_char\<close>,
  \<open>_rl_unget_char\<close>, \<open>rl_get_char\<close>, \<open>rl_execute_next\<close> and \<open>rl_clear_pending_input\<close> is run on the ring of 512 bytes, no access
  is out of bounds, the keys come out in the order in which the queue has them, and every call returns what the
  specification says: a key is refused exactly when 511 are held.\<close>

theorem key_queue_refines:
  assumes "ring_inv st"
  shows "\<exists>st' out. run_ops ring_step ops (st, []) = Inr (st', out) \<and> ring_inv st' \<and>
    (ring_keys st', rl_pending_input st', out) = fold queue_step ops (ring_keys st, rl_pending_input st, [])"
  using key_ring.session_refines [of "(st, [])" ops] assms by (auto simp: ring_abs_def)

theorem key_queue_refines_witness:
  "\<exists>st' out. run_ops ring_step [Stuff_Char 97, Unget_Char 98, Get_Char, Stuff_Char EOF, Get_Char] (kbd_static CHR ''?'' True [], []) =
      Inr (st', out) \<and> (ring_keys st', rl_pending_input st', out) =
      ([10], -1, [Stored True, Stored True, Got (Some 98), Stored True, Got (Some 97)])"
proof -
  have i: "ring_inv (kbd_static CHR ''?'' True [])" "ring_keys (kbd_static CHR ''?'' True []) = []"
    by (simp_all add: ring_inv_def kbd_static_def ring_keys_def ring_size_def)
  have "fold queue_step [Stuff_Char 97, Unget_Char 98, Get_Char, Stuff_Char EOF, Get_Char] ([], 0, []) =
      ([10], -1, [Stored True, Stored True, Got (Some 98), Stored True, Got (Some 97)])" by code_simp
  moreover have "rl_pending_input (kbd_static CHR ''?'' True []) = 0" by (simp add: kbd_static_def)
  ultimately show ?thesis
    using key_queue_refines [OF i(1), of "[Stuff_Char 97, Unget_Char 98, Get_Char, Stuff_Char EOF, Get_Char]"] i(2) by auto
qed

text \<open>C8: Keys are read in order. \<open>rl_read_key\<close> delivers first the pending key, then the characters of the macros that are
  executed, the innermost macro first, then the keys read ahead and then those of the terminal; none is lost, none comes
  twice, and at the end \<open>EOF\<close> is returned, as often as it is asked for. Every key counts in \<open>rl_key_sequence_length\<close>.\<close>

theorem keys_in_order:
  assumes "key_inv st"
  shows "\<exists>st'. read_keys n st = Inr (take n (key_source st) @ replicate (n - length (key_source st)) EOF, st') \<and> key_inv st' \<and>
    key_source st' = drop n (key_source st) \<and> rl_key_sequence_length st' = rl_key_sequence_length st + int n"
  by (rule read_keys_run [OF assms])

theorem keys_in_order_witness:
  "\<exists>st'. read_keys 6 (rl_execute_next 120 (rl_with_macro_input ''ab'' (kbd_static CHR ''?'' True [99, 100]))) =
    Inr ([120, 97, 98, 99, 100, -1], st')"
proof -
  let ?st = "rl_execute_next 120 (rl_with_macro_input ''ab'' (kbd_static CHR ''?'' True [99, 100]))"
  have "ring_keys ?st = []" "rl_pending_input ?st = 120" "macro_text ?st = ''ab''" "kbd_stream ?st = [99, 100]"
    by (simp_all add: ring_keys_def ring_size_def kbd_static_def rl_execute_next_def rl_with_macro_input_def
        rl_push_executing_macro_def macro_text_def)
  then have "key_source ?st = [120, 97, 98, 99, 100]" by (simp add: key_source_def char_value_def)
  moreover have "key_inv ?st"
    by (simp add: key_inv_def ring_inv_def macro_inv_def kbd_static_def rl_execute_next_def rl_with_macro_input_def
        rl_push_executing_macro_def)
  ultimately show ?thesis using keys_in_order [of ?st 6] by (auto simp: EOF_def)
qed

end
