(* ===== verification/Rl_Dispatch_Spec.thy ===== *)
theory Rl_Dispatch_Spec
  imports Rl_Accept_Spec Rl_Dispatch Rl_Input_Spec
begin

text \<open>
  What the keys typed do: a key runs the command it is bound to, a line that is typed is the line that is returned, and the
  keyboard macros and the numeric argument on top of that.
\<close>

declare rl_dispatch_subseq.simps [simp del] rl_char.simps [simp del]

section \<open>Keys to come\<close>

text \<open>The keys that come from the macros and the terminal, when nothing is pending and nothing was read ahead.\<close>

definition quiet :: "kbd_state \<Rightarrow> int list \<Rightarrow> bool" where
  "quiet k ks \<longleftrightarrow> key_inv k \<and> rl_pending_input k = 0 \<and> ring_keys k = [] \<and> key_source k = ks \<and>
     \<not> state_moreinput k \<and> \<not> state_readcmd k"

lemma key_cong:
  assumes "ibuffer k' = ibuffer k" "pop_index k' = pop_index k" "push_index k' = push_index k"
    "rl_pending_input k' = rl_pending_input k" "rl_executing_macro k' = rl_executing_macro k"
    "executing_macro_index k' = executing_macro_index k" "macro_list k' = macro_list k"
    "state_macroinput k' = state_macroinput k" "kbd_stream k' = kbd_stream k" "char_is_signed k' = char_is_signed k"
  shows "key_inv k' = key_inv k" "key_source k' = key_source k" "ring_keys k' = ring_keys k"
  using assms ring_cong [OF assms(1-3)] by (simp_all add: key_inv_def macro_inv_def key_source_def macro_text_def)

lemma quiet_frame [simp]:
  "quiet (k\<lparr>rl_key_sequence_length := n\<rparr>) ks = quiet k ks" "quiet (k\<lparr>state_macrodef := b\<rparr>) ks = quiet k ks"
  "quiet (k\<lparr>state_numericarg := b\<rparr>) ks = quiet k ks" "quiet (rl_reset_argument k) ks = quiet k ks"
  "quiet (k\<lparr>current_macro_index := i\<rparr>) ks = quiet k ks" "quiet (k\<lparr>kbd_dings := d\<rparr>) ks = quiet k ks"
  "quiet (k\<lparr>current_macro := m\<rparr>) ks = quiet k ks" "quiet (k\<lparr>current_macro_size := i\<rparr>) ks = quiet k ks"
  using key_cong [of "k\<lparr>rl_key_sequence_length := n\<rparr>" k] key_cong [of "k\<lparr>state_macrodef := b\<rparr>" k]
    key_cong [of "k\<lparr>state_numericarg := b\<rparr>" k] key_cong [of "rl_reset_argument k" k]
    key_cong [of "k\<lparr>current_macro_index := i\<rparr>" k] key_cong [of "k\<lparr>kbd_dings := d\<rparr>" k]
    key_cong [of "k\<lparr>current_macro := m\<rparr>" k] key_cong [of "k\<lparr>current_macro_size := i\<rparr>" k]
  by (simp_all add: quiet_def rl_reset_argument_def)

text \<open>Taking a key.\<close>

definition took :: "kbd_state \<Rightarrow> int list \<Rightarrow> kbd_state \<Rightarrow> bool" where
  "took k ks k' \<longleftrightarrow> quiet k' ks \<and> rl_key_sequence_length k' = rl_key_sequence_length k + 1 \<and> but_source k' = but_source k"

lemma but_source_frame:
  "but_source k' = but_source k \<Longrightarrow> but_source (k'\<lparr>state_moreinput := b\<rparr>) = but_source (k\<lparr>state_moreinput := b\<rparr>)"
  "but_source k' = but_source k \<Longrightarrow> but_source (k'\<lparr>state_readcmd := b\<rparr>) = but_source (k\<lparr>state_readcmd := b\<rparr>)"
proof -
  have "but_source (k\<lparr>state_moreinput := b\<rparr>) = (but_source k)\<lparr>state_moreinput := b\<rparr>"
    "but_source (k\<lparr>state_readcmd := b\<rparr>) = (but_source k)\<lparr>state_readcmd := b\<rparr>" for k
    by (simp_all add: but_source_def but_macros_def)
  then show "but_source k' = but_source k \<Longrightarrow> but_source (k'\<lparr>state_moreinput := b\<rparr>) = but_source (k\<lparr>state_moreinput := b\<rparr>)"
    "but_source k' = but_source k \<Longrightarrow> but_source (k'\<lparr>state_readcmd := b\<rparr>) = but_source (k\<lparr>state_readcmd := b\<rparr>)" by simp_all
qed

lemma but_source_fields:
  assumes "but_source k' = but_source k"
  shows "state_macrodef k' = state_macrodef k" "state_moreinput k' = state_moreinput k" "state_readcmd k' = state_readcmd k"
    "state_numericarg k' = state_numericarg k" "rl_numeric_arg k' = rl_numeric_arg k" "rl_arg_sign k' = rl_arg_sign k"
    "arg_explicit k' = arg_explicit k" "saw_minus k' = saw_minus k" "saw_digits k' = saw_digits k"
    "current_macro k' = current_macro k" "current_macro_size k' = current_macro_size k"
    "current_macro_index k' = current_macro_index k" "char_is_signed k' = char_is_signed k" "state_callback k' = state_callback k"
proof -
  have e: "f (but_source k') = f (but_source k)" for f :: "kbd_state \<Rightarrow> 'a" using assms by simp
  show "state_macrodef k' = state_macrodef k" using e [of state_macrodef] by (simp add: but_source_def but_macros_def)
  show "state_moreinput k' = state_moreinput k" using e [of state_moreinput] by (simp add: but_source_def but_macros_def)
  show "state_readcmd k' = state_readcmd k" using e [of state_readcmd] by (simp add: but_source_def but_macros_def)
  show "state_numericarg k' = state_numericarg k" using e [of state_numericarg] by (simp add: but_source_def but_macros_def)
  show "rl_numeric_arg k' = rl_numeric_arg k" using e [of rl_numeric_arg] by (simp add: but_source_def but_macros_def)
  show "rl_arg_sign k' = rl_arg_sign k" using e [of rl_arg_sign] by (simp add: but_source_def but_macros_def)
  show "arg_explicit k' = arg_explicit k" using e [of arg_explicit] by (simp add: but_source_def but_macros_def)
  show "saw_minus k' = saw_minus k" using e [of saw_minus] by (simp add: but_source_def but_macros_def)
  show "saw_digits k' = saw_digits k" using e [of saw_digits] by (simp add: but_source_def but_macros_def)
  show "current_macro k' = current_macro k" using e [of current_macro] by (simp add: but_source_def but_macros_def)
  show "current_macro_size k' = current_macro_size k" using e [of current_macro_size] by (simp add: but_source_def but_macros_def)
  show "current_macro_index k' = current_macro_index k" using e [of current_macro_index] by (simp add: but_source_def but_macros_def)
  show "char_is_signed k' = char_is_signed k" using e [of char_is_signed] by (simp add: but_source_def but_macros_def)
  show "state_callback k' = state_callback k" using e [of state_callback] by (simp add: but_source_def but_macros_def)
qed

lemma unset_flag: "\<not> state_moreinput k \<Longrightarrow> k\<lparr>state_moreinput := False\<rparr> = k" "\<not> state_readcmd k \<Longrightarrow> k\<lparr>state_readcmd := False\<rparr> = k"
  by (cases k; simp)+

lemma read_flagged:
  assumes "quiet k (c # ks)" and "f = (\<lambda>b k. k\<lparr>state_moreinput := b\<rparr>) \<or> f = (\<lambda>b k. k\<lparr>state_readcmd := b\<rparr>)"
  shows "\<exists>k'. rl_read_key (f True k) = Inr (c, k') \<and> took k ks (f False k')"
proof -
  have f: "key_inv (f b k) = key_inv k" "key_source (f b k) = key_source k" "ring_keys (f b k) = ring_keys k"
    "rl_key_sequence_length (f b k) = rl_key_sequence_length k" "rl_pending_input (f b k) = rl_pending_input k" for b k
    using key_cong [of "k\<lparr>state_moreinput := b\<rparr>" k] key_cong [of "k\<lparr>state_readcmd := b\<rparr>" k] assms(2) by auto
  have "key_inv (f True k)" using assms(1) f by (simp add: quiet_def)
  from read_key_run [OF this] obtain k' where k': "rl_read_key (f True k) = Inr (c, k')" "key_taken (f True k) k'"
    using assms(1) f by (auto simp: quiet_def first_key_def)
  have same: "but_source (f False (f True k)) = but_source k" using assms by (auto simp: quiet_def unset_flag)
  have "but_source (f False k') = but_source k"
    using k'(2) but_source_frame [of k' "f True k" False] assms(2) same by (auto simp: key_taken_def)
  moreover have "\<not> state_moreinput (f False k')" "\<not> state_readcmd (f False k')"
    using but_source_fields(2,3) [OF calculation] assms(1) by (simp_all add: quiet_def)
  ultimately show ?thesis using k' f assms(1) by (simp add: took_def quiet_def key_taken_def)
qed

lemma read_more_run:
  assumes "quiet (kbd s) (c # ks)"
  shows "\<exists>k. read_more s = Inr (c, s\<lparr>kbd := k\<rparr>) \<and> took (kbd s) ks k"
proof -
  from read_flagged [OF assms, of "\<lambda>b k. k\<lparr>state_moreinput := b\<rparr>"] obtain k where
    "rl_read_key ((kbd s)\<lparr>state_moreinput := True\<rparr>) = Inr (c, k)" "took (kbd s) ks (k\<lparr>state_moreinput := False\<rparr>)" by auto
  then show ?thesis
    by (intro exI [of _ "k\<lparr>state_moreinput := False\<rparr>"]) (simp add: read_more_def session_read_key_def map_kbd_def)
qed

lemma read_command_run:
  assumes "quiet (kbd s) (c # ks)"
  shows "\<exists>k. session_read_key (map_kbd (\<lambda>k. k\<lparr>state_readcmd := True\<rparr>) s) = Inr (c, s\<lparr>kbd := k\<rparr>) \<and>
    took (kbd s) ks (k\<lparr>state_readcmd := False\<rparr>)"
proof -
  from read_flagged [OF assms, of "\<lambda>b k. k\<lparr>state_readcmd := b\<rparr>"] obtain k where
    "rl_read_key ((kbd s)\<lparr>state_readcmd := True\<rparr>) = Inr (c, k)" "took (kbd s) ks (k\<lparr>state_readcmd := False\<rparr>)" by auto
  then show ?thesis by (intro exI [of _ k]) (simp add: session_read_key_def map_kbd_def)
qed

section \<open>Recording\<close>

text \<open>What a macro that is being defined holds; \<open>None\<close> when none is.\<close>

definition recording :: "string option \<Rightarrow> kbd_state \<Rightarrow> bool" where
  "recording r k \<longleftrightarrow> (case r of None \<Rightarrow> \<not> state_macrodef k | Some bs \<Rightarrow> state_macrodef k \<and> recorded bs k)"

definition and_key :: "string option \<Rightarrow> int \<Rightarrow> string option" where
  "and_key r key = map_option (\<lambda>bs. bs @ [key_char key]) r"

text \<open>The rest of the state, and what of it a step of the dispatcher leaves alone.\<close>

lemma but_record_fields:
  assumes "but_record k' = but_record k"
  shows "quiet k' ks = quiet k ks" "state_macrodef k' = state_macrodef k" "state_numericarg k' = state_numericarg k"
    "rl_numeric_arg k' = rl_numeric_arg k" "rl_arg_sign k' = rl_arg_sign k" "arg_explicit k' = arg_explicit k"
    "saw_minus k' = saw_minus k" "saw_digits k' = saw_digits k" "rl_key_sequence_length k' = rl_key_sequence_length k"
    "rl_pending_input k' = rl_pending_input k"
proof -
  have e: "f (but_record k') = f (but_record k)" for f :: "kbd_state \<Rightarrow> 'a" using assms by simp
  have "quiet (but_record k) ks = quiet k ks" for k by (simp add: but_record_def)
  then show "quiet k' ks = quiet k ks" using e [of "\<lambda>k. quiet k ks"] by simp
  show "state_macrodef k' = state_macrodef k" using e [of state_macrodef] by (simp add: but_record_def)
  show "state_numericarg k' = state_numericarg k" using e [of state_numericarg] by (simp add: but_record_def)
  show "rl_numeric_arg k' = rl_numeric_arg k" using e [of rl_numeric_arg] by (simp add: but_record_def)
  show "rl_arg_sign k' = rl_arg_sign k" using e [of rl_arg_sign] by (simp add: but_record_def)
  show "arg_explicit k' = arg_explicit k" using e [of arg_explicit] by (simp add: but_record_def)
  show "saw_minus k' = saw_minus k" using e [of saw_minus] by (simp add: but_record_def)
  show "saw_digits k' = saw_digits k" using e [of saw_digits] by (simp add: but_record_def)
  show "rl_key_sequence_length k' = rl_key_sequence_length k" using e [of rl_key_sequence_length] by (simp add: but_record_def)
  show "rl_pending_input k' = rl_pending_input k" using e [of rl_pending_input] by (simp add: but_record_def)
qed

lemma record_run:
  assumes "recording r (kbd s)"
  shows "\<exists>k. record_key key s = Inr (s\<lparr>kbd := k\<rparr>) \<and> recording (and_key r key) k \<and> but_record k = but_record (kbd s) \<and>
    (r = None \<longrightarrow> k = kbd s) \<and> (r \<noteq> None \<longrightarrow> current_macro k \<noteq> None)"
proof (cases r)
  case None
  then show ?thesis using assms by (intro exI [of _ "kbd s"]) (simp add: record_key_def recording_def and_key_def)
next
  case (Some bs)
  then have "recorded bs (kbd s)" "state_macrodef (kbd s)" using assms by (simp_all add: recording_def)
  from add_recorded [OF this(1), of key] obtain k x where "rl_add_macro_char key (kbd s) = Inr k"
    "recorded (bs @ [key_char key]) k" "but_record k = but_record (kbd s)" "current_macro k = Some x" by blast
  then show ?thesis using Some \<open>state_macrodef (kbd s)\<close> but_record_fields(2) [of k "kbd s"]
    by (intro exI [of _ k]) (simp add: record_key_def recording_def and_key_def)
qed

lemma recording_source:
  "but_source k' = but_source k \<Longrightarrow> recording r k' = recording r k"
  using but_source_fields [of k' k] by (cases r) (simp_all add: recording_def recorded_def cong: option.case_cong)

lemma recording_frame [simp]:
  "recording r (k\<lparr>rl_key_sequence_length := n\<rparr>) = recording r k" "recording r (rl_reset_argument k) = recording r k"
  "recording r (k\<lparr>state_numericarg := b\<rparr>) = recording r k"
  by (simp_all add: recording_def recorded_def rl_reset_argument_def split: option.split)

section \<open>Commands on the line\<close>

lemma quiet_no_char: "quiet k ks \<Longrightarrow> rl_get_char k = Inr (None, k)"
proof -
  assume q: "quiet k ks"
  then have "ring_inv k" "ring_size k = 0" using length_ring_keys [of k] by (auto simp: quiet_def key_inv_def)
  then show ?thesis using ring_empty by (simp add: rl_get_char_def)
qed

text \<open>The line as a command finds it.\<close>

definition edit_line :: "keymaps \<Rightarrow> session \<Rightarrow> rl_state" where
  "edit_line maps s = (line s)\<lparr>rl_explicit_arg := arg_explicit (kbd s), rl_typein := [],
     rl_inserts_itself := (\<lambda>c. maps Emacs_Standard (int (of_char c)) = ISFUNC (Some Self_Insert))\<rparr>"

lemma call_edit_run:
  assumes "quiet (kbd s) ks" and "call_action act count (edit_line maps s) = Inr (Returned r, st)"
  shows "call_edit maps act count s = Inr (Returned r, s\<lparr>line := st\<lparr>rl_typein := []\<rparr>\<rparr>)"
proof -
  have "typed_ahead 512 (kbd s) = Inr []" by (simp add: numeral_eq_Suc quiet_no_char [OF assms(1)])
  then show ?thesis using assms(2) by (simp add: call_edit_def edit_line_def)
qed

definition edit_action :: "key_func \<Rightarrow> int \<Rightarrow> action option" where
  "edit_action f c =
     (case f of Edit act \<Rightarrow> Some act | Self_Insert \<Rightarrow> Some (Command (Insert (key_char c))) | _ \<Rightarrow> None)"

definition plain_key :: "int \<Rightarrow> session \<Rightarrow> bool" where
  "plain_key c s \<longleftrightarrow> 0 \<le> c \<and> c \<le> 255 \<and> (rl_convert_meta s \<longrightarrow> c \<le> 127)"

lemma quiet_pending: "quiet k ks \<Longrightarrow> rl_pending_input k = 0"
  by (simp add: quiet_def)

lemma dispatch_plain:
  assumes "plain_key c s"
  shows "rl_dispatch_subseq ff (Suc n) maps c m got s =
    (let d = rl_dispatch_subseq ff n in
      bind_run (record_key c s) (\<lambda>s.
      case maps m c of
        ISFUNC (Some f) \<Rightarrow>
          if f = Do_Lowercase_Version then rl_dispatch d maps (lower_key c) m s else run_func ff n d maps f c s
      | ISFUNC None \<Rightarrow>
          if has_function (maps m ANYOTHERKEY) then bind_run (unget_key c s) (\<lambda>s. Inr (Returned (-2), s))
          else if got then bind_run (unget_key c s) (\<lambda>s. Inr (Returned (-1), s))
          else Inr (abort_session s)
      | ISKMAP None \<Rightarrow> Inr (abort_session s)
      | ISKMAP (Some sub) \<Rightarrow>
          bind_run (read_more (map_kbd (\<lambda>k. k\<lparr>rl_key_sequence_length := rl_key_sequence_length k + 1\<rparr>)
            (s\<lparr>rl_dispatching_keymap := sub\<rparr>))) (\<lambda>(newkey, s).
          if newkey < 0 then Inr (abort_session s)
          else
          bind_run (d maps newkey sub (got \<or> has_function (maps m ANYOTHERKEY)) s) (\<lambda>(out, s).
          case out of
            Long_Jump \<Rightarrow> Inr (Long_Jump, s)
          | Returned r \<Rightarrow> rl_subseq_result d maps r m c got s))
      | ISMACR macro \<Rightarrow>
          Inr (Returned 0, case macro of None \<Rightarrow> s | Some str \<Rightarrow> map_kbd (rl_with_macro_input str) s)))"
proof -
  have no: "\<not> (127 < c \<and> c \<le> 255 \<and> rl_convert_meta s)" using assms by (auto simp: plain_key_def)
  show ?thesis unfolding rl_dispatch_subseq.simps Let_def if_not_P [OF no] ..
qed

lemma dispatch_edit:
  assumes "quiet (kbd s) ks" and "recording r (kbd s)" and "maps m c = ISFUNC (Some f)" and "edit_action f c = Some act"
    and "plain_key c s"
    and "call_action act (rl_numeric_arg (kbd s) * rl_arg_sign (kbd s)) (edit_line maps s) = Inr (Returned x, st)"
  shows "\<exists>k. rl_dispatch_subseq ff (Suc n) maps c m got s =
      Inr (Returned 0, s\<lparr>kbd := k, line := st\<lparr>rl_typein := [], rl_last_func := last_func_of f\<rparr>\<rparr>) \<and>
    quiet k ks \<and> recording (and_key r c) k \<and> but_record k = but_record (kbd s) \<and> (r = None \<longrightarrow> k = kbd s)"
proof -
  from record_run [OF assms(2), of c] obtain k where k: "record_key c s = Inr (s\<lparr>kbd := k\<rparr>)" "recording (and_key r c) k"
    "but_record k = but_record (kbd s)" "r = None \<longrightarrow> k = kbd s" by blast
  note f = but_record_fields [OF k(3)]
  have q: "quiet (kbd (s\<lparr>kbd := k\<rparr>)) ks" using f(1) assms(1) by simp
  have "edit_line maps (s\<lparr>kbd := k\<rparr>) = edit_line maps s" using f(6) by (simp add: edit_line_def)
  then have "call_edit maps act (rl_numeric_arg k * rl_arg_sign k) (s\<lparr>kbd := k\<rparr>) =
      Inr (Returned x, s\<lparr>kbd := k, line := st\<lparr>rl_typein := []\<rparr>\<rparr>)"
    using call_edit_run [OF q, of act _ maps x st] assms(6) f(4,5) by simp
  moreover have "call_func ff n d maps f count c s' = call_edit maps act count s'" for d count s'
    using assms(4) by (cases f) (simp_all add: edit_action_def call_func_def)
  moreover have "f \<noteq> Do_Lowercase_Version" "f \<noteq> Digit_Argument" using assms(4) by (auto simp: edit_action_def)
  ultimately have "rl_dispatch_subseq ff (Suc n) maps c m got s =
      Inr (Returned 0, s\<lparr>kbd := k, line := st\<lparr>rl_typein := [], rl_last_func := last_func_of f\<rparr>\<rparr>)"
    using k(1) assms(3) quiet_pending [OF q] unfolding dispatch_plain [OF assms(5)] by (simp add: run_func_def)
  then show ?thesis using q k by (intro exI [of _ k]) simp
qed

text \<open>A pass of the loop around a dispatch that returns.\<close>

definition end_pass :: "int \<Rightarrow> session \<Rightarrow> session" where
  "end_pass lk s =
     (if rl_pending_input (kbd s) = 0 \<and> lk = rl_last_command_was_kill (line s)
      then s\<lparr>line := (line s)\<lparr>rl_last_command_was_kill := 0\<rparr>\<rparr> else s)"

lemma char_pass:
  assumes "quiet (kbd s) (c # ks)" and "0 \<le> c" "c \<le> 255" and "c \<noteq> rl_eof_char s \<or> rl_end (line s) \<noteq> 0"
    and "\<And>k. quiet k ks \<Longrightarrow> rl_key_sequence_length k = 1 \<Longrightarrow> but_source k = but_source (rl_reset_argument (kbd s)) \<Longrightarrow>
      \<exists>r s'. rl_dispatch_subseq ff n maps c Emacs_Standard False (s\<lparr>kbd := k, rl_dispatching_keymap := Emacs_Standard\<rparr>) =
        Inr (Returned r, s') \<and> P s'"
  shows "\<exists>s'. rl_char ff (Suc j) n maps lastc lk s = Inr (False, end_pass lk s') \<and> P s'"
proof -
  let ?s = "map_kbd (\<lambda>k. (rl_reset_argument k)\<lparr>rl_key_sequence_length := 0\<rparr>) s"
  have q: "quiet (kbd ?s) (c # ks)" using assms(1) by (simp add: map_kbd_def)
  from read_command_run [OF q] obtain k where k:
    "session_read_key (map_kbd (\<lambda>k. k\<lparr>state_readcmd := True\<rparr>) ?s) = Inr (c, ?s\<lparr>kbd := k\<rparr>)"
    "took (kbd ?s) ks (k\<lparr>state_readcmd := False\<rparr>)" by blast
  let ?k = "k\<lparr>state_readcmd := False\<rparr>"
  have took: "quiet ?k ks" "rl_key_sequence_length ?k = 1" "but_source ?k = but_source (rl_reset_argument (kbd s))"
    using k(2) by (simp_all add: took_def map_kbd_def)
  from assms(5) [OF this] obtain r s' where s':
    "rl_dispatch_subseq ff n maps c Emacs_Standard False (s\<lparr>kbd := ?k, rl_dispatching_keymap := Emacs_Standard\<rparr>) =
      Inr (Returned r, s')" "P s'" by blast
  have e: "c \<noteq> EOF" "c \<noteq> READERR" "c mod 256 = c" using assms(2,3) by (simp_all add: EOF_def READERR_def)
  have s: "(if rl_pending_input (kbd s) = 0 then ?s else s) = ?s" using quiet_pending [OF assms(1)] by simp
  have "rl_char ff (Suc j) n maps lastc lk s = Inr (False, end_pass lk s')"
    unfolding rl_char.simps Let_def s k(1) using e assms(4) s'(1)
    by (simp add: map_kbd_def rl_dispatch_def end_pass_def)
  then show ?thesis using s'(2) by blast
qed

section \<open>A key runs its command\<close>

text \<open>The line as \<open>run_action\<close> finds it.\<close>

definition idle_line :: "keymaps \<Rightarrow> session \<Rightarrow> rl_state" where
  "idle_line maps s = (line s)\<lparr>rl_typein := [],
     rl_inserts_itself := (\<lambda>c. maps Emacs_Standard (int (of_char c)) = ISFUNC (Some Self_Insert))\<rparr>"

lemma run_action_returned:
  assumes "call_action act 1 (st\<lparr>rl_explicit_arg := False\<rparr>) = Inr (Returned x, st1)" and "edit_action f c = Some act"
    and "lk = rl_last_command_was_kill st"
  shows "run_action act False 1 st =
    Inr (if lk = rl_last_command_was_kill st1 then st1\<lparr>rl_last_func := last_func_of f, rl_last_command_was_kill := 0\<rparr>
         else st1\<lparr>rl_last_func := last_func_of f\<rparr>)"
proof -
  have "(case act of Command cmd \<Rightarrow> func_of cmd | _ \<Rightarrow> Other_Func) = last_func_of f"
    using assms(2) by (cases f) (auto simp: edit_action_def last_func_of_def func_of_def split: action.splits)
  then show ?thesis using assms(1,3) by (simp add: run_action_def charloop_pass_def Let_def)
qed

lemma pass_edit:
  assumes "quiet (kbd s) (c # ks)" and "recording r (kbd s)" and "maps Emacs_Standard c = ISFUNC (Some f)"
    and "edit_action f c = Some act" and "plain_key c s" and "c \<noteq> rl_eof_char s \<or> rl_end (line s) \<noteq> 0"
    and "call_action act 1 ((idle_line maps s)\<lparr>rl_explicit_arg := False\<rparr>) = Inr (Returned x, st1)"
  shows "\<exists>k st'. run_action act False 1 (idle_line maps s) = Inr st' \<and>
    rl_char ff (Suc j) (Suc n) maps lastc (rl_last_command_was_kill (line s)) s =
      Inr (False, s\<lparr>kbd := k, rl_dispatching_keymap := Emacs_Standard, line := st'\<lparr>rl_typein := []\<rparr>\<rparr>) \<and>
    quiet k ks \<and> recording (and_key r c) k \<and> (r = None \<longrightarrow> but_source k = but_source (rl_reset_argument (kbd s)))"
proof -
  let ?lk = "rl_last_command_was_kill (line s)"
  let ?P = "\<lambda>s'. \<exists>k. s' = s\<lparr>kbd := k, rl_dispatching_keymap := Emacs_Standard,
      line := st1\<lparr>rl_typein := [], rl_last_func := last_func_of f\<rparr>\<rparr> \<and>
    quiet k ks \<and> recording (and_key r c) k \<and> (r = None \<longrightarrow> but_source k = but_source (rl_reset_argument (kbd s)))"
  have c: "0 \<le> c" "c \<le> 255" using assms(5) by (simp_all add: plain_key_def)
  have "\<exists>x s'. rl_dispatch_subseq ff (Suc n) maps c Emacs_Standard False
      (s\<lparr>kbd := k, rl_dispatching_keymap := Emacs_Standard\<rparr>) = Inr (Returned x, s') \<and> ?P s'"
    if k: "quiet k ks" "but_source k = but_source (rl_reset_argument (kbd s))" for k
  proof -
    let ?s = "s\<lparr>kbd := k, rl_dispatching_keymap := Emacs_Standard\<rparr>"
    note f = but_source_fields [OF k(2)]
    have a: "rl_numeric_arg k = 1" "rl_arg_sign k = 1" "\<not> arg_explicit k" using f(5-7) by (simp_all add: rl_reset_argument_def)
    have r: "recording r (kbd ?s)" using recording_source [OF k(2)] assms(2) by simp
    have "edit_line maps ?s = (idle_line maps s)\<lparr>rl_explicit_arg := False\<rparr>"
      using a(3) by (simp add: edit_line_def idle_line_def)
    then have act: "call_action act (rl_numeric_arg (kbd ?s) * rl_arg_sign (kbd ?s)) (edit_line maps ?s) = Inr (Returned x, st1)"
      using assms(7) a by simp
    have q: "quiet (kbd ?s) ks" "plain_key c ?s" using k(1) assms(5) by (simp_all add: plain_key_def)
    from dispatch_edit [of ?s ks r maps Emacs_Standard c f act x st1 ff n False, OF q(1) r assms(3,4) q(2) act] obtain k' where
      run: "rl_dispatch_subseq ff (Suc n) maps c Emacs_Standard False ?s =
        Inr (Returned 0, ?s\<lparr>kbd := k', line := st1\<lparr>rl_typein := [], rl_last_func := last_func_of f\<rparr>\<rparr>)"
      and "quiet k' ks" "recording (and_key r c) k'" "r = None \<longrightarrow> k' = k" by auto
    then have "?P (?s\<lparr>kbd := k', line := st1\<lparr>rl_typein := [], rl_last_func := last_func_of f\<rparr>\<rparr>)"
      using k(2) by (intro exI [of _ k']) (cases s; auto)
    with run show ?thesis by blast
  qed
  from char_pass [OF assms(1) c assms(6), of ff "Suc n" maps ?P, OF this] obtain s' where s':
    "rl_char ff (Suc j) (Suc n) maps lastc ?lk s = Inr (False, end_pass ?lk s')" "?P s'" by blast
  from s'(2) obtain k where k: "s' = s\<lparr>kbd := k, rl_dispatching_keymap := Emacs_Standard,
      line := st1\<lparr>rl_typein := [], rl_last_func := last_func_of f\<rparr>\<rparr>" "quiet k ks" "recording (and_key r c) k"
      "r = None \<longrightarrow> but_source k = but_source (rl_reset_argument (kbd s))" by blast
  have "rl_last_command_was_kill (idle_line maps s) = ?lk" by (simp add: idle_line_def)
  from run_action_returned [OF assms(7,4) this [symmetric]] s'(1) k quiet_pending [OF k(2)] show ?thesis
    by (intro exI [of _ k]) (auto simp: end_pass_def)
qed

section \<open>Typing a line\<close>

lemma buf_put_history: "buf_put i bs st = Inr st' \<Longrightarrow> rl_history st' = rl_history st"
  by (auto simp: buf_put_def bind_run_Inr_iff split: if_splits)

lemma shift_up_history: "shift_up n i l st = Inr st' \<Longrightarrow> rl_history st' = rl_history st"
  by (induction n i l st rule: shift_up.induct) (auto simp: bind_run_Inr_iff dest: buf_put_history)

lemma extend_history: "rl_history (rl_extend_line_buffer n st) = rl_history st"
  by (induction n st rule: rl_extend_line_buffer.induct) (subst rl_extend_line_buffer.simps, simp add: Let_def)

lemma remember_history: "remember_insert l st = Inr st' \<Longrightarrow> rl_history st' = rl_history st"
  by (auto simp: remember_insert_def rl_add_undo_def alloc_undo_entry_def set_undo_def bind_run_Inr_iff Let_def split: if_splits)

lemma insert_history:
  assumes "rl_insert_text s st = Inr (r, st')"
  shows "rl_history st' = rl_history st"
proof -
  define st0 where "st0 = (if rl_end st + int (length (case s of None \<Rightarrow> [] | Some s \<Rightarrow> s)) \<ge> rl_line_buffer_len st
    then rl_extend_line_buffer (rl_end st + int (length (case s of None \<Rightarrow> [] | Some s \<Rightarrow> s))) st else st)"
  have "rl_history st0 = rl_history st" by (simp add: st0_def extend_history)
  then show ?thesis using assms unfolding rl_insert_text_def Let_def st0_def [symmetric]
    by (auto simp: bind_run_Inr_iff split: if_splits dest!: buf_put_history shift_up_history remember_history)
qed

text \<open>A line that is typed: the point at its end, and no line of the history shown.\<close>

definition typing :: "string \<Rightarrow> rl_state \<Rightarrow> bool" where
  "typing t st \<longleftrightarrow> from_empty st \<and> line_text st = t \<and> rl_point st = rl_end st \<and> \<not> rl_overwriting st \<and> \<not> rl_done st \<and>
     \<not> rl_revert_all_at_newline st \<and> length (hist_lines (rl_history st)) \<le> nat (history_offset (rl_history st))"

lemma typing_end: "typing t st \<Longrightarrow> rl_end st = int (length t)"
  using ready_line(1) [OF from_empty_ready, of st] by (simp add: typing_def line_is_def)

lemma typing_frame [simp]:
  "typing t (st\<lparr>rl_typein := a\<rparr>) = typing t st" "typing t (st\<lparr>rl_inserts_itself := p\<rparr>) = typing t st"
  "typing t (st\<lparr>rl_explicit_arg := b\<rparr>) = typing t st" "typing t (st\<lparr>rl_last_func := f\<rparr>) = typing t st"
proof -
  have "ready base (st\<lparr>rl_typein := a\<rparr>) = ready base st" "ready base (st\<lparr>rl_inserts_itself := p\<rparr>) = ready base st"
    "ready base (st\<lparr>rl_explicit_arg := b\<rparr>) = ready base st" "ready base (st\<lparr>rl_last_func := f\<rparr>) = ready base st" for base
    by (rule ready_cong(3); simp)+
  then have "from_empty (st\<lparr>rl_typein := a\<rparr>) = from_empty st" "from_empty (st\<lparr>rl_inserts_itself := p\<rparr>) = from_empty st"
    "from_empty (st\<lparr>rl_explicit_arg := b\<rparr>) = from_empty st" "from_empty (st\<lparr>rl_last_func := f\<rparr>) = from_empty st"
    unfolding from_empty_def by simp_all
  then show "typing t (st\<lparr>rl_typein := a\<rparr>) = typing t st" "typing t (st\<lparr>rl_inserts_itself := p\<rparr>) = typing t st"
    "typing t (st\<lparr>rl_explicit_arg := b\<rparr>) = typing t st" "typing t (st\<lparr>rl_last_func := f\<rparr>) = typing t st"
    by (simp_all add: typing_def line_text_def)
qed

lemma typing_kill_flag: "typing t st \<Longrightarrow> typing t (st\<lparr>rl_last_command_was_kill := 0\<rparr>)"
proof -
  assume t: "typing t st"
  have "lined b (st\<lparr>rl_last_command_was_kill := 0\<rparr>) = lined b st" for b by (rule lined_cong(1)) simp_all
  moreover have "ring_ok (st\<lparr>rl_last_command_was_kill := 0\<rparr>) = ring_ok st" by (rule ring_ok_cong) simp_all
  ultimately have "ready b st \<Longrightarrow> ready b (st\<lparr>rl_last_command_was_kill := 0\<rparr>)" for b
    by (simp add: ready_def line_inv_def rest_ok_def at_point_def)
  then have "from_empty (st\<lparr>rl_last_command_was_kill := 0\<rparr>)" using t from_emptyI from_empty_ready by (simp add: typing_def) blast
  then show ?thesis using t by (simp add: typing_def line_text_def)
qed

lemma insert_action:
  assumes "typing t st" and "c \<noteq> NUL" and "rl_typein st = []"
  shows "\<exists>st'. call_action (Command (Insert c)) 1 st = Inr (Returned 0, st') \<and> typing (t @ [c]) st'"
proof -
  let ?x = "setting st"
  have r: "ready ('''', ?x) st" "\<not> rl_overwriting st" "nat (rl_point st) = length t" "line_text st = t"
    using assms(1) typing_end [OF assms(1)] from_empty_ready by (simp_all add: typing_def)
  have "NUL \<notin> set [c]" using assms(2) by simp
  from insert_ready [OF r(1) this] obtain st' where st': "rl_insert_text (Some [c]) st = Inr (1, st')" "ready ('''', ?x) st'" "same_rest st st'"
    "line_text st' = insert_at (length t) [c] t" "rl_point st' = rl_point st + 1" "rl_end st' = rl_end st + 1"
    using r(3,4) by auto
  have "call_action (Command (Insert c)) 1 st = Inr (Returned 0, st')"
    using st'(1) r(2) assms(2,3)
    by (simp add: call_action_def call_command_def rl_insert_def rl_insert_char_def TEXT_COUNT_MAX_def c_text_def returned_def)
  moreover have "rl_overwriting st' = rl_overwriting st" "rl_done st' = rl_done st"
    "rl_revert_all_at_newline st' = rl_revert_all_at_newline st" using st'(3) by (elim same_restE; simp)+
  ultimately show ?thesis
    using assms(1) st'(2,4-6) insert_history [OF st'(1)] from_emptyI [OF st'(2)]
    by (simp add: typing_def insert_at_def)
qed

text \<open>A character that inserts itself.\<close>

definition printing :: "char \<Rightarrow> bool" where
  "printing c \<longleftrightarrow> 32 \<le> (of_char c :: nat) \<and> (of_char c :: nat) \<le> 126"

definition key_of :: "char \<Rightarrow> int" where
  "key_of c = int (of_char c)"

lemma printing_key:
  assumes "printing c"
  shows "32 \<le> key_of c" "key_of c \<le> 126" "key_char (key_of c) = c" "c \<noteq> NUL"
    "emacs_keymaps Emacs_Standard (key_of c) = ISFUNC (Some Self_Insert)"
proof -
  show k: "32 \<le> key_of c" "key_of c \<le> 126" using assms by (simp_all add: printing_def key_of_def)
  have "nat (key_of c mod 256) = of_char c" using k by (simp add: key_of_def)
  then show "key_char (key_of c) = c" by (simp add: key_char_def)
  show "c \<noteq> NUL" using assms by (auto simp: printing_def)
  show "emacs_keymaps Emacs_Standard (key_of c) = ISFUNC (Some Self_Insert)"
    using k by (simp add: emacs_keymaps_def emacs_standard_keymap_def)
qed

lemma pass_insert:
  assumes "quiet (kbd s) (key_of c # ks)" and "recording r (kbd s)" and "typing t (line s)" and "printing c" and "rl_eof_char s = 4"
  shows "\<exists>k st'. rl_char ff (Suc j) (Suc n) emacs_keymaps lastc (rl_last_command_was_kill (line s)) s =
      Inr (False, s\<lparr>kbd := k, rl_dispatching_keymap := Emacs_Standard, line := st'\<rparr>) \<and>
    quiet k ks \<and> recording (and_key r (key_of c)) k \<and> typing (t @ [c]) st' \<and>
    (r = None \<longrightarrow> but_source k = but_source (rl_reset_argument (kbd s)))"
proof -
  note p = printing_key [OF assms(4)]
  let ?st = "(idle_line emacs_keymaps s)\<lparr>rl_explicit_arg := False\<rparr>"
  have "typing t ?st" "rl_typein ?st = []" using assms(3) by (simp_all add: idle_line_def)
  from insert_action [OF this(1) p(4) this(2)] obtain st1 where st1: "call_action (Command (Insert c)) 1 ?st = Inr (Returned 0, st1)"
    "typing (t @ [c]) st1" by blast
  have e: "edit_action Self_Insert (key_of c) = Some (Command (Insert c))" using p(3) by (simp add: edit_action_def)
  have k: "plain_key (key_of c) s" "key_of c \<noteq> rl_eof_char s" using p(1,2) assms(5) by (simp_all add: plain_key_def)
  from pass_edit [OF assms(1,2) p(5) e k(1) disjI1 [OF k(2)] st1(1), of ff j n lastc] obtain k st' where
    run: "run_action (Command (Insert c)) False 1 (idle_line emacs_keymaps s) = Inr st'" and
    pass: "rl_char ff (Suc j) (Suc n) emacs_keymaps lastc (rl_last_command_was_kill (line s)) s =
      Inr (False, s\<lparr>kbd := k, rl_dispatching_keymap := Emacs_Standard, line := st'\<lparr>rl_typein := []\<rparr>\<rparr>)"
    "quiet k ks" "recording (and_key r (key_of c)) k" "r = None \<longrightarrow> but_source k = but_source (rl_reset_argument (kbd s))" by blast
  have "rl_last_command_was_kill (line s) = rl_last_command_was_kill (idle_line emacs_keymaps s)" by (simp add: idle_line_def)
  from run_action_returned [OF st1(1) e this] run have "typing (t @ [c]) (st'\<lparr>rl_typein := []\<rparr>)"
    using st1(2) typing_kill_flag by (auto split: if_splits)
  with pass show ?thesis by blast
qed

end
