(* ===== verification/Rl_Macro_Spec.thy ===== *)
theory Rl_Macro_Spec
  imports Rl_Dispatch_Spec
begin

text \<open>
  Sessions of keys: a line that is typed, keyboard macros that are defined and called, numeric arguments, and what the count
  of the keys of a sequence does to a macro.
\<close>

section \<open>Passes of the loop\<close>

text \<open>In \<open>i\<close> passes, with the fuel \<open>d\<close> for each of them, the loop gets from \<open>s\<close> to a state with \<open>Q\<close>.\<close>

definition reaches :: "foreign \<Rightarrow> nat \<Rightarrow> nat \<Rightarrow> session \<Rightarrow> (session \<Rightarrow> bool) \<Rightarrow> bool" where
  "reaches ff d i s Q \<longleftrightarrow>
     (\<forall>j n e. d \<le> n \<longrightarrow>
       (\<exists>s'. rl_charloop ff (i + j) n emacs_keymaps e s = rl_charloop ff j n emacs_keymaps (e \<and> i = 0) s' \<and> Q s'))"

lemma reaches_refl: "Q s \<Longrightarrow> reaches ff d 0 s Q"
  by (auto simp: reaches_def)

lemma reaches_trans:
  assumes "reaches ff d i s Q" and "\<And>s'. Q s' \<Longrightarrow> reaches ff d j s' R"
  shows "reaches ff d (i + j) s R"
  unfolding reaches_def
proof (intro allI impI)
  fix l n e
  assume n: "d \<le> n"
  then obtain s' where s': "rl_charloop ff (i + (j + l)) n emacs_keymaps e s = rl_charloop ff (j + l) n emacs_keymaps (e \<and> i = 0) s'" "Q s'"
    using assms(1) unfolding reaches_def by blast
  from assms(2) [OF s'(2)] n obtain s'' where
    "rl_charloop ff (j + l) n emacs_keymaps (e \<and> i = 0) s' = rl_charloop ff l n emacs_keymaps ((e \<and> i = 0) \<and> j = 0) s''" "R s''"
    unfolding reaches_def by blast
  with s'(1) show "\<exists>s'. rl_charloop ff (i + j + l) n emacs_keymaps e s = rl_charloop ff l n emacs_keymaps (e \<and> i + j = 0) s' \<and> R s'"
    by (intro exI [of _ s'']) (simp add: add.assoc)
qed

lemma reaches_pass:
  assumes "\<not> rl_done (line s)"
    and "\<And>n. d \<le> n \<Longrightarrow> \<exists>s'. rl_char ff n n emacs_keymaps (-1) (rl_last_command_was_kill (line s)) s = Inr (False, s') \<and> Q s'"
  shows "reaches ff d 1 s Q"
  using assms by (fastforce simp: reaches_def)

text \<open>
  Between two passes: the keys to come, the macro that is being defined, the one that was defined, and the line.
\<close>

definition stored :: "string option \<Rightarrow> kbd_state \<Rightarrow> bool" where
  "stored m k \<longleftrightarrow> (\<forall>bs. m = Some bs \<longrightarrow> (\<exists>blk. current_macro k = Some blk \<and> saved_macro blk = Inr bs))"

definition at_line :: "session \<Rightarrow> int list \<Rightarrow> string option \<Rightarrow> string option \<Rightarrow> string \<Rightarrow> bool" where
  "at_line s ks r m t \<longleftrightarrow> quiet (kbd s) ks \<and> recording r (kbd s) \<and> (r = None \<longrightarrow> stored m (kbd s)) \<and> typing t (line s) \<and>
     rl_eof_char s = 4"

lemma stored_source: "but_source k' = but_source k \<Longrightarrow> stored m k' = stored m k"
  using but_source_fields [of k' k] by (simp add: stored_def)

lemma stored_frame [simp]:
  "stored m (rl_reset_argument k) = stored m k" "stored m (k\<lparr>state_numericarg := b\<rparr>) = stored m k"
  "stored m (k\<lparr>rl_key_sequence_length := i\<rparr>) = stored m k"
  by (simp_all add: stored_def rl_reset_argument_def)

lemma reaches_key:
  assumes "at_line s (key_of c # ks) r m t" and "printing c"
  shows "reaches ff 1 1 s (\<lambda>s'. at_line s' ks (and_key r (key_of c)) m (t @ [c]))"
proof (rule reaches_pass)
  have a: "quiet (kbd s) (key_of c # ks)" "recording r (kbd s)" "typing t (line s)" "rl_eof_char s = 4" "r = None \<longrightarrow> stored m (kbd s)"
    using assms(1) by (simp_all add: at_line_def)
  show "\<not> rl_done (line s)" using a(3) by (simp add: typing_def)
  fix n :: nat
  assume "1 \<le> n"
  then obtain j where n: "n = Suc j" by (cases n) auto
  from pass_insert [OF a(1-3) assms(2) a(4), of ff j j "-1"] obtain k st' where p:
    "rl_char ff n n emacs_keymaps (- 1) (rl_last_command_was_kill (line s)) s =
      Inr (False, s\<lparr>kbd := k, rl_dispatching_keymap := Emacs_Standard, line := st'\<rparr>)" "quiet k ks"
    "recording (and_key r (key_of c)) k" "typing (t @ [c]) st'" "r = None \<longrightarrow> but_source k = but_source (rl_reset_argument (kbd s))"
    unfolding n by blast
  have "and_key r (key_of c) = None \<longrightarrow> stored m k" using p(5) a(5) stored_source [of k "rl_reset_argument (kbd s)" m]
    by (simp add: and_key_def)
  then show "\<exists>s'. rl_char ff n n emacs_keymaps (- 1) (rl_last_command_was_kill (line s)) s = Inr (False, s') \<and>
      at_line s' ks (and_key r (key_of c)) m (t @ [c])"
    using p a(4) by (intro exI conjI) (auto simp: at_line_def)
qed

lemma reaches_text:
  "at_line s (map key_of u @ ks) r m t \<Longrightarrow> list_all printing u \<Longrightarrow>
    reaches ff 1 (length u) s (\<lambda>s'. at_line s' ks (map_option (\<lambda>bs. bs @ u) r) m (t @ u))"
proof (induction u arbitrary: s r t)
  case Nil
  then show ?case by (auto intro!: reaches_refl simp: option.map_ident)
next
  case (Cons c u)
  then have c: "printing c" "list_all printing u" by simp_all
  have "reaches ff 1 1 s (\<lambda>s'. at_line s' (map key_of u @ ks) (and_key r (key_of c)) m (t @ [c]))"
    using Cons.prems(1) c(1) by (intro reaches_key) simp_all
  then have "reaches ff 1 (1 + length u) s
      (\<lambda>s'. at_line s' ks (map_option (\<lambda>bs. bs @ u) (and_key r (key_of c))) m ((t @ [c]) @ u))"
    using Cons.IH [OF _ c(2)] by (rule reaches_trans)
  moreover have "map_option (\<lambda>bs. bs @ u) (and_key r (key_of c)) = map_option (\<lambda>bs. bs @ c # u) r"
    using printing_key(3) [OF c(1)] by (cases r) (simp_all add: and_key_def)
  ultimately show ?case by simp
qed

section \<open>The line that is returned\<close>

definition accepted :: "string \<Rightarrow> int list \<Rightarrow> session \<Rightarrow> bool" where
  "accepted t ks s \<longleftrightarrow> quiet (kbd s) ks \<and> rl_done (line s) \<and> from_empty (line s) \<and> line_text (line s) = t \<and>
     \<not> rl_revert_all_at_newline (line s) \<and> length (hist_lines (rl_history (line s))) \<le> nat (history_offset (rl_history (line s)))"

lemma newline_accepts:
  assumes "typing t st"
  shows "from_empty (rl_newline st) \<and> line_text (rl_newline st) = t \<and> rl_done (rl_newline st) \<and>
    \<not> rl_revert_all_at_newline (rl_newline st) \<and> rl_history (rl_newline st) = rl_history st \<and>
    rl_last_command_was_kill (rl_newline st) = rl_last_command_was_kill st"
proof -
  have "from_empty (rl_newline st)"
    using assms newline_ready from_empty_ready from_emptyI unfolding typing_def by blast
  then show ?thesis using assms by (simp add: typing_def rl_newline_def Let_def line_text_def)
qed

lemma reaches_newline:
  assumes "at_line s (13 # ks) r m t"
  shows "reaches ff 1 1 s (accepted t ks)"
proof (rule reaches_pass)
  have a: "quiet (kbd s) (13 # ks)" "recording r (kbd s)" "typing t (line s)" "rl_eof_char s = 4"
    using assms by (simp_all add: at_line_def)
  show "\<not> rl_done (line s)" using a(3) by (simp add: typing_def)
  fix n :: nat
  assume "1 \<le> n"
  then obtain j where n: "n = Suc j" by (cases n) auto
  let ?st = "(idle_line emacs_keymaps s)\<lparr>rl_explicit_arg := False\<rparr>"
  have t: "typing t ?st" using a(3) by (simp add: idle_line_def)
  have c: "call_action (Command Newline) 1 ?st = Inr (Returned 0, rl_newline ?st)"
    by (simp add: call_action_def call_command_def)
  have e: "edit_action (Edit (Command Newline)) 13 = Some (Command Newline)" by (simp add: edit_action_def)
  have k: "emacs_keymaps Emacs_Standard 13 = ISFUNC (Some (Edit (Command Newline)))" "plain_key 13 s" "13 \<noteq> rl_eof_char s"
    using a(4) by (simp_all add: emacs_keymaps_def emacs_standard_keymap_def plain_key_def)
  from pass_edit [OF a(1,2) k(1) e k(2) disjI1 [OF k(3)] c, of ff j j "-1"] obtain k st' where p:
    "run_action (Command Newline) False 1 (idle_line emacs_keymaps s) = Inr st'"
    "rl_char ff n n emacs_keymaps (- 1) (rl_last_command_was_kill (line s)) s =
      Inr (False, s\<lparr>kbd := k, rl_dispatching_keymap := Emacs_Standard, line := st'\<lparr>rl_typein := []\<rparr>\<rparr>)" "quiet k ks"
    unfolding n by blast
  note nl = newline_accepts [OF t]
  have "st' = (rl_newline ?st)\<lparr>rl_last_func := Other_Func, rl_last_command_was_kill := 0\<rparr>"
    using p(1) run_action_returned [OF c e refl] nl by (simp add: last_func_of_def func_of_def idle_line_def)
  moreover have "ready b (st\<lparr>rl_last_func := f, rl_last_command_was_kill := 0, rl_typein := []\<rparr>) = ready b (st\<lparr>rl_last_command_was_kill := 0\<rparr>)"
    for b st f by (rule ready_cong(3)) simp_all
  moreover have "ready b ((rl_newline st)\<lparr>rl_last_command_was_kill := 0\<rparr>) = ready b (st\<lparr>rl_last_command_was_kill := 0\<rparr>)" for b st
    by (rule ready_cong(3)) (simp_all add: rl_newline_def Let_def)
  then have "from_empty ((rl_newline ?st)\<lparr>rl_last_command_was_kill := 0\<rparr>)"
    using typing_kill_flag [OF t] by (simp add: typing_def from_empty_def)
  ultimately have "st' = (rl_newline ?st)\<lparr>rl_last_func := Other_Func, rl_last_command_was_kill := 0\<rparr>"
    "from_empty (st'\<lparr>rl_typein := []\<rparr>)" by (simp_all add: from_empty_def)
  then show "\<exists>s'. rl_char ff n n emacs_keymaps (- 1) (rl_last_command_was_kill (line s)) s = Inr (False, s') \<and> accepted t ks s'"
    using p(2,3) nl t by (intro exI conjI) (auto simp: accepted_def line_text_def typing_def)
qed

lemma started_typing: "lines_ok h \<Longrightarrow> typing '''' (started c h)"
proof -
  assume ok: "lines_ok h"
  have "history_offset (using_history h) = history_length (using_history h)" by (simp add: using_history_def)
  moreover have "lines_ok (using_history h)" using using_history_lines [OF ok] by simp
  ultimately have "length (hist_lines (rl_history (started c h))) \<le> nat (history_offset (rl_history (started c h)))"
    using length_lines [of "using_history h"] started_browsing(4) [OF ok] by (simp add: lines_ok_def)
  then show ?thesis
    using from_emptyI [OF started_ready [OF ok, of c]] started_browsing(3) [OF ok, of c]
    by (simp add: typing_def) (simp add: started_def rl_static_def)
qed

lemma readline_returns:
  assumes "lines_ok h" and "line s = rl_static c h" and "rl_pending_input (kbd s) = 0"
    and "reaches ff d i (s\<lparr>line := started c h\<rparr>) (accepted t ks)" and "0 < i" "i \<le> n" "d \<le> n"
  shows "\<exists>s'. readline_keys ff n emacs_keymaps s = Inr (Some t, s') \<and> quiet (kbd s') ks"
proof -
  obtain j where j: "n = i + j" using assms(6) le_iff_add by blast
  from assms(4,5,7) obtain s1 where
    "rl_charloop ff (i + j) n emacs_keymaps True (s\<lparr>line := started c h\<rparr>) = rl_charloop ff j n emacs_keymaps False s1"
    "accepted t ks s1" unfolding reaches_def by fastforce
  then have run: "rl_charloop ff n n emacs_keymaps True (s\<lparr>line := started c h\<rparr>) = Inr (False, s1)" and a: "accepted t ks s1"
    using j by (cases j; simp add: accepted_def)+
  from a teardown_typed [OF from_empty_ready, of "line s1"] obtain st where
    "readline_internal_teardown False (line s1) = Inr (Some t, st)" by (auto simp: accepted_def)
  then show ?thesis using assms(2,3) initialize_run [of c h] run a by (auto simp: readline_keys_def accepted_def EOF_def)
qed

section \<open>Sequences of two keys\<close>

definition after_func :: "key_func \<Rightarrow> session \<Rightarrow> session" where
  "after_func f s =
     (if rl_pending_input (kbd s) = 0 \<and> f \<noteq> Digit_Argument
      then s\<lparr>line := (line s)\<lparr>rl_last_func := last_func_of f\<rparr>\<rparr> else s)"

lemma at_line_after: "at_line s ks r m t \<Longrightarrow> at_line (end_pass lk (after_func f s)) ks r m t"
  using typing_kill_flag [of t "line s"] typing_kill_flag [of t "(line s)\<lparr>rl_last_func := last_func_of f\<rparr>"]
  by (auto simp: at_line_def end_pass_def after_func_def)

lemma no_other_key [simp]: "emacs_keymaps m ANYOTHERKEY = ISFUNC None" "has_function (ISFUNC None) = False"
  by (cases m) (simp_all add: emacs_keymaps_def emacs_standard_keymap_def emacs_meta_keymap_def emacs_ctlx_keymap_def
      ANYOTHERKEY_def has_function_def)

lemma dispatch_func:
  assumes "recording r (kbd s)" and "maps m c = ISFUNC (Some f)" and "f \<noteq> Do_Lowercase_Version" and "plain_key c s"
    and "\<And>k. recording (and_key r c) k \<Longrightarrow> but_record k = but_record (kbd s) \<Longrightarrow> (r = None \<longrightarrow> k = kbd s) \<Longrightarrow>
      \<exists>x s'. call_func ff n (rl_dispatch_subseq ff n) maps f (rl_numeric_arg k * rl_arg_sign k) c (s\<lparr>kbd := k\<rparr>) =
        Inr (Returned x, s') \<and> Q s'"
  shows "\<exists>s'. rl_dispatch_subseq ff (Suc n) maps c m got s = Inr (Returned 0, after_func f s') \<and> Q s'"
proof -
  from record_run [OF assms(1), of c] obtain k where k: "record_key c s = Inr (s\<lparr>kbd := k\<rparr>)" "recording (and_key r c) k"
    "but_record k = but_record (kbd s)" "r = None \<longrightarrow> k = kbd s" by blast
  from assms(5) [OF k(2-4)] obtain x s' where
    "call_func ff n (rl_dispatch_subseq ff n) maps f (rl_numeric_arg k * rl_arg_sign k) c (s\<lparr>kbd := k\<rparr>) = Inr (Returned x, s')"
    "Q s'" by blast
  then show ?thesis using k(1) assms(2,3)
    unfolding dispatch_plain [OF assms(4)] by (intro exI [of _ s']) (simp add: run_func_def after_func_def Let_def)
qed

text \<open>What a function is called with, after the keys \<open>c1\<close> and \<open>c2\<close>.\<close>

definition called :: "string option \<Rightarrow> int \<Rightarrow> int \<Rightarrow> int list \<Rightarrow> kbd_state \<Rightarrow> kbd_state \<Rightarrow> bool" where
  "called r c1 c2 ks k0 k \<longleftrightarrow> quiet k ks \<and> rl_key_sequence_length k = rl_key_sequence_length k0 + 2 \<and>
     recording (and_key (and_key r c1) c2) k \<and> rl_numeric_arg k = rl_numeric_arg k0 \<and> rl_arg_sign k = rl_arg_sign k0 \<and>
     arg_explicit k = arg_explicit k0 \<and> (r = None \<longrightarrow> but_source k = but_source k0)"

lemma dispatch_prefix:
  assumes "quiet (kbd s) (c2 # ks)" and "recording r (kbd s)" and "plain_key c1 s" "plain_key c2 s"
    and "emacs_keymaps m c1 = ISKMAP (Some sub)" and "emacs_keymaps sub c2 = ISFUNC (Some f)" and "f \<noteq> Do_Lowercase_Version"
    and "\<And>k. called r c1 c2 ks (kbd s) k \<Longrightarrow>
      \<exists>x s'. call_func ff n (rl_dispatch_subseq ff n) emacs_keymaps f (rl_numeric_arg (kbd s) * rl_arg_sign (kbd s)) c2
        (s\<lparr>kbd := k, rl_dispatching_keymap := sub\<rparr>) = Inr (Returned x, s') \<and> Q s'"
  shows "\<exists>s'. rl_dispatch_subseq ff (Suc (Suc n)) emacs_keymaps c1 m False s = Inr (Returned 0, after_func f s') \<and> Q s'"
proof -
  from record_run [OF assms(2), of c1] obtain k1 where k1: "record_key c1 s = Inr (s\<lparr>kbd := k1\<rparr>)" "recording (and_key r c1) k1"
    "but_record k1 = but_record (kbd s)" "r = None \<longrightarrow> k1 = kbd s" by blast
  note f1 = but_record_fields [OF k1(3)]
  let ?s1 = "map_kbd (\<lambda>k. k\<lparr>rl_key_sequence_length := rl_key_sequence_length k + 1\<rparr>)
    (s\<lparr>kbd := k1, rl_dispatching_keymap := sub\<rparr>)"
  have "quiet (kbd ?s1) (c2 # ks)" using f1(1) assms(1) by (simp add: map_kbd_def)
  from read_more_run [OF this] obtain k2 where k2: "read_more ?s1 = Inr (c2, ?s1\<lparr>kbd := k2\<rparr>)" "took (kbd ?s1) ks k2" by blast
  note f2 = but_source_fields [of k2 "kbd ?s1"]
  have src2: "but_source k2 = but_source k1" using k2(2) by (simp add: took_def map_kbd_def)
  note f2 = but_source_fields [OF src2]
  have rec2: "recording (and_key r c1) k2" using recording_source [OF src2] k1(2) by simp
  let ?s2 = "s\<lparr>kbd := k2, rl_dispatching_keymap := sub\<rparr>"
  have s2: "?s1\<lparr>kbd := k2\<rparr> = ?s2" by (simp add: map_kbd_def)
  have r2: "recording (and_key r c1) (kbd ?s2)" using rec2 by simp
  have p2: "plain_key c2 ?s2" using assms(4) by (simp add: plain_key_def)
  have "\<exists>x s'. call_func ff n (rl_dispatch_subseq ff n) emacs_keymaps f (rl_numeric_arg k * rl_arg_sign k) c2 (?s2\<lparr>kbd := k\<rparr>) =
      Inr (Returned x, s') \<and> Q s'"
    if k: "recording (and_key (and_key r c1) c2) k" "but_record k = but_record (kbd ?s2)" "and_key r c1 = None \<longrightarrow> k = kbd ?s2" for k
  proof -
    note f3 = but_record_fields [OF k(2)]
    have "r = None \<longrightarrow> but_source k = but_source (kbd s)" using k(3) k1(4) src2 by (simp add: and_key_def)
    then have "called r c1 c2 ks (kbd s) k"
      using f1 f2 f3 k(1) k2(2) by (simp add: called_def took_def map_kbd_def)
    moreover have "rl_numeric_arg k = rl_numeric_arg (kbd s)" "rl_arg_sign k = rl_arg_sign (kbd s)" using f1 f2 f3 by simp_all
    moreover have swap: "?s2\<lparr>kbd := k\<rparr> = s\<lparr>kbd := k, rl_dispatching_keymap := sub\<rparr>" by (cases s) simp
    ultimately show ?thesis unfolding swap using assms(8) [of k] by simp
  qed
  from dispatch_func [of "and_key r c1" ?s2 emacs_keymaps sub c2 f ff n Q False, OF r2 assms(6,7) p2 this] obtain s' where
    "rl_dispatch_subseq ff (Suc n) emacs_keymaps c2 sub False ?s2 = Inr (Returned 0, after_func f s')" "Q s'" by blast
  moreover have "\<not> c2 < 0" using assms(4) by (simp add: plain_key_def)
  ultimately show ?thesis using k1(1) k2(1) assms(5) unfolding dispatch_plain [OF assms(3)]
    by (intro exI [of _ s']) (simp add: s2 rl_subseq_result_def Let_def)
qed

text \<open>A pass in which two keys run a function with the argument 1.\<close>

lemma pass_prefix:
  assumes "quiet (kbd s) (c1 # c2 # ks)" and "recording r (kbd s)" and "plain_key c1 s" "plain_key c2 s" and "c1 \<noteq> rl_eof_char s"
    and "emacs_keymaps Emacs_Standard c1 = ISKMAP (Some sub)" and "emacs_keymaps sub c2 = ISFUNC (Some f)" and "f \<noteq> Do_Lowercase_Version"
    and "\<And>k. quiet k ks \<Longrightarrow> rl_key_sequence_length k = 3 \<Longrightarrow> recording (and_key (and_key r c1) c2) k \<Longrightarrow> \<not> arg_explicit k \<Longrightarrow>
      rl_numeric_arg k = 1 \<and> rl_arg_sign k = 1 \<Longrightarrow> (r = None \<longrightarrow> but_source k = but_source (rl_reset_argument (kbd s))) \<Longrightarrow>
      \<exists>x s'. call_func ff n (rl_dispatch_subseq ff n) emacs_keymaps f 1 c2 (s\<lparr>kbd := k, rl_dispatching_keymap := sub\<rparr>) =
        Inr (Returned x, s') \<and> Q s'"
  shows "\<exists>s'. rl_char ff (Suc j) (Suc (Suc n)) emacs_keymaps lastc lk s = Inr (False, end_pass lk (after_func f s')) \<and> Q s'"
proof -
  have c1: "0 \<le> c1" "c1 \<le> 255" using assms(3) by (simp_all add: plain_key_def)
  have "\<exists>x s''. rl_dispatch_subseq ff (Suc (Suc n)) emacs_keymaps c1 Emacs_Standard False
      (s\<lparr>kbd := k, rl_dispatching_keymap := Emacs_Standard\<rparr>) = Inr (Returned x, s'') \<and> (\<exists>s'. s'' = after_func f s' \<and> Q s')"
    if k: "quiet k (c2 # ks)" "rl_key_sequence_length k = 1" "but_source k = but_source (rl_reset_argument (kbd s))" for k
  proof -
    let ?s = "s\<lparr>kbd := k, rl_dispatching_keymap := Emacs_Standard\<rparr>"
    note f = but_source_fields [OF k(3)]
    have a: "rl_numeric_arg k = 1" "rl_arg_sign k = 1" "\<not> arg_explicit k" using f(5-7) by (simp_all add: rl_reset_argument_def)
    have r: "recording r (kbd ?s)" using recording_source [OF k(3)] assms(2) by simp
    have p: "plain_key c1 ?s" "plain_key c2 ?s" "quiet (kbd ?s) (c2 # ks)" using assms(3,4) k(1) by (simp_all add: plain_key_def)
    have "\<exists>x s'. call_func ff n (rl_dispatch_subseq ff n) emacs_keymaps f (rl_numeric_arg (kbd ?s) * rl_arg_sign (kbd ?s)) c2
        (?s\<lparr>kbd := k', rl_dispatching_keymap := sub\<rparr>) = Inr (Returned x, s') \<and> Q s'" if k': "called r c1 c2 ks (kbd ?s) k'" for k'
    proof -
      have swap: "?s\<lparr>kbd := k', rl_dispatching_keymap := sub\<rparr> = s\<lparr>kbd := k', rl_dispatching_keymap := sub\<rparr>" by (cases s) simp
      show ?thesis unfolding swap using assms(9) [of k'] k' a k(2,3) by (simp add: called_def)
    qed
    from dispatch_prefix [of ?s c2 ks r c1 Emacs_Standard sub f ff n Q, OF p(3) r p(1,2) assms(6-8) this] show ?thesis by blast
  qed
  from char_pass [of s c1 "c2 # ks" ff "Suc (Suc n)" emacs_keymaps "\<lambda>s''. \<exists>s'. s'' = after_func f s' \<and> Q s'" j lastc lk,
      OF assms(1) c1 disjI1 [OF assms(5)] this]
  show ?thesis by blast
qed

section \<open>Playing a macro\<close>

lemma with_macro_quiet:
  assumes "quiet k ks" and "NUL \<notin> set m"
  shows "quiet (rl_with_macro_input m k) (map (char_value (char_is_signed k)) m @ ks)"
proof -
  have i: "macro_inv k" "ring_inv k" "rl_pending_input k = 0" "ring_keys k = []" "\<not> state_moreinput k" "\<not> state_readcmd k"
    "map (char_value (char_is_signed k)) (macro_text k) @ kbd_stream k = ks"
    using assms(1) by (auto simp: quiet_def key_inv_def key_source_def)
  let ?k = "rl_with_macro_input m k"
  have same: "ibuffer ?k = ibuffer k" "pop_index ?k = pop_index k" "push_index ?k = push_index k"
    "rl_pending_input ?k = rl_pending_input k" "kbd_stream ?k = kbd_stream k" "char_is_signed ?k = char_is_signed k"
    "state_moreinput ?k = state_moreinput k" "state_readcmd ?k = state_readcmd k"
    by (simp_all add: rl_with_macro_input_def rl_push_executing_macro_def)
  then show ?thesis
    using with_macro_text [OF i(1) assms(2)] ring_cong [OF same(1-3)] i by (simp add: quiet_def key_inv_def key_source_def)
qed

lemma with_macro_other [simp]:
  "current_macro (rl_with_macro_input m k) = current_macro k" "state_macrodef (rl_with_macro_input m k) = state_macrodef k"
  "char_is_signed (rl_with_macro_input m k) = char_is_signed k" "recording None (rl_with_macro_input m k) = recording None k"
  "stored m' (rl_with_macro_input m k) = stored m' k"
  by (simp_all add: rl_with_macro_input_def rl_push_executing_macro_def recording_def stored_def)

lemma with_macros_quiet:
  "quiet k ks \<Longrightarrow> NUL \<notin> set m \<Longrightarrow>
    quiet (with_macro_inputs n m k) (map (char_value (char_is_signed k)) (concat (replicate n m)) @ ks) \<and>
    recording None (with_macro_inputs n m k) = recording None k \<and> stored m' (with_macro_inputs n m k) = stored m' k"
proof (induction n arbitrary: k ks)
  case (Suc n)
  have "replicate n m @ [m] = m # replicate n m" by (metis replicate_append_same)
  then have c: "concat (replicate n m) @ m = m @ concat (replicate n m)"
    using concat_append [of "replicate n m" "[m]"] by simp
  let ?v = "map (char_value (char_is_signed k))"
  have e: "?v (concat (replicate (Suc n) m)) @ ks = ?v (concat (replicate n m)) @ ?v m @ ks"
    by (metis append_assoc c concat.simps(2) map_append replicate_Suc)
  show ?case unfolding e with_macro_inputs.simps
    using Suc.IH [OF with_macro_quiet [OF Suc.prems] Suc.prems(2)] by simp
qed simp

lemma call_run:
  assumes "quiet k ks" and "recording None k" and "stored (Some m) k" and "NUL \<notin> set m" and "0 \<le> count"
  shows "\<exists>k'. rl_call_last_kbd_macro count k = Inr (Returned 0, k') \<and>
    quiet k' (map (char_value (char_is_signed k)) (concat (replicate (nat count) m)) @ ks) \<and> recording None k' \<and> stored (Some m) k'"
proof -
  from assms(3) obtain blk where blk: "current_macro k = Some blk" "saved_macro blk = Inr m" by (auto simp: stored_def)
  have d: "\<not> state_macrodef k" using assms(2) by (simp add: recording_def)
  have "rl_call_last_kbd_macro count k = Inr (Returned 0, with_macro_inputs (nat count) m k)"
    using blk d assms(5) by (simp add: rl_call_last_kbd_macro_def)
  then show ?thesis using with_macros_quiet [OF assms(1,4), of "nat count" "Some m"] assms(2,3) by simp
qed

section \<open>Defining a macro\<close>

text \<open>The block a macro is recorded in.\<close>

definition block_ok :: "kbd_state \<Rightarrow> bool" where
  "block_ok k \<longleftrightarrow>
     (case current_macro k of
        None \<Rightarrow> current_macro_size k = 0
      | Some blk \<Rightarrow> int (length blk) = current_macro_size k \<and> blk \<noteq> [])"

lemma start_run:
  assumes "quiet k ks" and "recording None k" and "\<not> arg_explicit k" and "block_ok k"
  shows "\<exists>k'. rl_start_kbd_macro k = Inr (Returned 0, k') \<and> quiet k' ks \<and> recording (Some []) k'"
proof -
  have "\<not> state_macrodef k" using assms(2) by (simp add: recording_def)
  then have "rl_start_kbd_macro k = Inr (Returned 0, k\<lparr>current_macro_index := 0, state_macrodef := True\<rparr>)"
    using assms(3) by (simp add: rl_start_kbd_macro_def)
  moreover have "recording (Some []) (k\<lparr>current_macro_index := 0, state_macrodef := True\<rparr>)"
    using assms(4) by (simp add: recording_def recorded_def block_ok_def split: option.splits)
  ultimately show ?thesis using assms(1) by simp
qed

text \<open>The end of a macro takes as many bytes back as the count of the keys says.\<close>

lemma end_run:
  assumes "quiet k ks" and "recording (Some bs) k" and "bs \<noteq> []" and "rl_key_sequence_length k = int l + 1" and "l \<le> length bs"
    and "NUL \<notin> set (take (length bs - l) bs)" and "1 \<le> count"
  shows "\<exists>k'. rl_end_kbd_macro count k = Inr (Returned 0, k') \<and>
    quiet k' (map (char_value (char_is_signed k)) (concat (replicate (nat (count - 1)) (take (length bs - l) bs))) @ ks) \<and>
    recording None k' \<and> stored (Some (take (length bs - l) bs)) k'"
proof -
  let ?n = "length bs - l"
  let ?bs = "take ?n bs"
  have r: "recorded bs k" "state_macrodef k" using assms(2) by (simp_all add: recording_def)
  have "current_macro k \<noteq> None" using r(1) assms(3) by (auto simp: recorded_def split: option.splits)
  from end_recorded [OF r(1) this _ assms(6)] obtain k1 blk where k1: "macro_put (int ?n) [NUL] (k\<lparr>current_macro_index := int ?n\<rparr>) = Inr k1"
    "but_record k1 = but_record k" "current_macro k1 = Some blk" "saved_macro blk = Inr ?bs" by auto
  have i: "current_macro_index k - (rl_key_sequence_length k - 1) = int ?n"
    using r(1) assms(4,5) by (simp add: recorded_def)
  have e: "rl_end_kbd_macro count k = rl_call_last_kbd_macro (count - 1) (k1\<lparr>state_macrodef := False\<rparr>)"
    unfolding rl_end_kbd_macro_def Let_def i using r(2) k1(1) by simp
  have q: "quiet (k1\<lparr>state_macrodef := False\<rparr>) ks" using assms(1) but_record_fields(1) [OF k1(2)] by simp
  moreover have "recording None (k1\<lparr>state_macrodef := False\<rparr>)" "stored (Some ?bs) (k1\<lparr>state_macrodef := False\<rparr>)"
    using k1(3,4) by (simp_all add: recording_def stored_def)
  moreover have "char_is_signed k1 = char_is_signed k"
    using arg_cong [OF k1(2), of char_is_signed] by (simp add: but_record_def)
  ultimately show ?thesis using call_run [of "k1\<lparr>state_macrodef := False\<rparr>" ks ?bs "count - 1"] assms(6,7) e by auto
qed

section \<open>The commands of the keyboard macros\<close>

lemma reaches_kbd:
  assumes "at_line s (24 # c2 # ks) r m t" and "0 \<le> c2" "c2 \<le> 127" and "emacs_ctlx_keymap c2 = ISFUNC (Some f)" and "f \<noteq> Do_Lowercase_Version"
    and "\<And>n d s'. call_func ff n d emacs_keymaps f 1 c2 s' = kbd_func g s'"
    and "\<And>k. quiet k ks \<Longrightarrow> rl_key_sequence_length k = 3 \<Longrightarrow> recording (and_key (and_key r 24) c2) k \<Longrightarrow> \<not> arg_explicit k \<Longrightarrow>
      (r = None \<longrightarrow> stored m k \<and> (block_ok (kbd s) \<longrightarrow> block_ok k)) \<Longrightarrow>
      \<exists>k'. g k = Inr (Returned 0, k') \<and> quiet k' ks' \<and> recording r' k' \<and> (r' = None \<longrightarrow> stored m' k')"
  shows "reaches ff 2 1 s (\<lambda>s'. at_line s' ks' r' m' t)"
proof (rule reaches_pass)
  have a: "quiet (kbd s) (24 # c2 # ks)" "recording r (kbd s)" "typing t (line s)" "rl_eof_char s = 4" "r = None \<longrightarrow> stored m (kbd s)"
    using assms(1) by (simp_all add: at_line_def)
  show "\<not> rl_done (line s)" using a(3) by (simp add: typing_def)
  fix n :: nat
  assume "2 \<le> n"
  then obtain j where n: "n = Suc (Suc j)" by (metis Suc_le_D numeral_2_eq_2 Suc_le_mono)
  have p: "plain_key 24 s" "plain_key c2 s" "24 \<noteq> rl_eof_char s" using assms(2,3) a(4) by (simp_all add: plain_key_def)
  have m: "emacs_keymaps Emacs_Standard 24 = ISKMAP (Some Emacs_Ctlx)" "emacs_keymaps Emacs_Ctlx c2 = ISFUNC (Some f)"
    using assms(4) by (simp_all add: emacs_keymaps_def emacs_standard_keymap_def)
  have "\<exists>x s'. call_func ff j (rl_dispatch_subseq ff j) emacs_keymaps f 1 c2 (s\<lparr>kbd := k, rl_dispatching_keymap := Emacs_Ctlx\<rparr>) =
      Inr (Returned x, s') \<and> at_line s' ks' r' m' t"
    if k: "quiet k ks" "rl_key_sequence_length k = 3" "recording (and_key (and_key r 24) c2) k" "\<not> arg_explicit k"
      "r = None \<longrightarrow> but_source k = but_source (rl_reset_argument (kbd s))" for k
  proof -
    have "block_ok k = block_ok (kbd s)" if "but_source k = but_source (rl_reset_argument (kbd s))"
      using but_source_fields(10,11) [OF that] by (simp add: block_ok_def rl_reset_argument_def cong: option.case_cong)
    then have "r = None \<longrightarrow> stored m k \<and> (block_ok (kbd s) \<longrightarrow> block_ok k)"
      using k(5) a(5) stored_source [of k "rl_reset_argument (kbd s)" m] by simp
    from assms(7) [OF k(1-4) this] obtain k' where
      "g k = Inr (Returned 0, k')" "quiet k' ks'" "recording r' k'" "r' = None \<longrightarrow> stored m' k'" by blast
    then show ?thesis using a(3,4) by (simp add: assms(6) kbd_func_def at_line_def)
  qed
  from pass_prefix [of s 24 c2 ks r Emacs_Ctlx f ff j "\<lambda>s'. at_line s' ks' r' m' t", OF a(1,2) p m assms(5) this] obtain s' where
    "rl_char ff n n emacs_keymaps (- 1) (rl_last_command_was_kill (line s)) s =
      Inr (False, end_pass (rl_last_command_was_kill (line s)) (after_func f s'))" "at_line s' ks' r' m' t"
    unfolding n by blast
  then show "\<exists>s'. rl_char ff n n emacs_keymaps (- 1) (rl_last_command_was_kill (line s)) s = Inr (False, s') \<and> at_line s' ks' r' m' t"
    using at_line_after by blast
qed

lemma reaches_start:
  assumes "at_line s (24 # 40 # ks) None m t" and "block_ok (kbd s)"
  shows "reaches ff 2 1 s (\<lambda>s'. at_line s' ks (Some []) None t)"
proof (rule reaches_kbd [OF assms(1)])
  show "emacs_ctlx_keymap 40 = ISFUNC (Some Start_Kbd_Macro)" by (simp add: emacs_ctlx_keymap_def)
  show "call_func ff n d emacs_keymaps Start_Kbd_Macro 1 40 s' = kbd_func rl_start_kbd_macro s'" for n d s'
    by (simp add: call_func_def)
qed (use assms(2) start_run in \<open>auto simp: and_key_def\<close>)

lemma printing_chars:
  assumes "list_all printing t"
  shows "map (char_value b) t = map key_of t" "NUL \<notin> set t"
proof -
  have v: "char_value b c = key_of c" "c \<noteq> NUL" if "c \<in> set t" for c
    using assms that printing_key(2,4) [of c] by (simp_all add: list_all_iff char_value_def key_of_def)
  then show "map (char_value b) t = map key_of t" "NUL \<notin> set t" by auto
qed

lemma reaches_end:
  assumes "at_line s (24 # 41 # ks) (Some bs) m t" and "list_all printing bs"
  shows "reaches ff 2 1 s (\<lambda>s'. at_line s' ks None (Some bs) t)"
proof (rule reaches_kbd [OF assms(1)])
  show "emacs_ctlx_keymap 41 = ISFUNC (Some End_Kbd_Macro)" by (simp add: emacs_ctlx_keymap_def)
  show "call_func ff n d emacs_keymaps End_Kbd_Macro 1 41 s' = kbd_func (rl_end_kbd_macro 1) s'" for n d s'
    by (simp add: call_func_def)
  fix k
  assume k: "quiet k ks" "rl_key_sequence_length k = 3" "recording (and_key (and_key (Some bs) 24) 41) k"
  have r: "recording (Some (bs @ [key_char 24, key_char 41])) k" using k(3) by (simp add: and_key_def)
  from end_run [OF k(1) r, of 2 1] k(2) printing_chars(2) [OF assms(2)]
  show "\<exists>k'. rl_end_kbd_macro 1 k = Inr (Returned 0, k') \<and> quiet k' ks \<and> recording None k' \<and>
      (None = None \<longrightarrow> stored (Some bs) k')" by auto
qed simp_all

lemma reaches_call:
  assumes "at_line s (24 # 101 # ks) None (Some bs) t" and "list_all printing bs"
  shows "reaches ff 2 1 s (\<lambda>s'. at_line s' (map key_of bs @ ks) None (Some bs) t)"
proof (rule reaches_kbd [OF assms(1)])
  show "emacs_ctlx_keymap 101 = ISFUNC (Some Call_Last_Kbd_Macro)" by (simp add: emacs_ctlx_keymap_def)
  show "call_func ff n d emacs_keymaps Call_Last_Kbd_Macro 1 101 s' = kbd_func (rl_call_last_kbd_macro 1) s'" for n d s'
    by (simp add: call_func_def)
  fix k
  assume k: "quiet k ks" "recording (and_key (and_key None 24) 101) k"
    "None = None \<longrightarrow> stored (Some bs) k \<and> (block_ok (kbd s) \<longrightarrow> block_ok k)"
  from call_run [OF k(1), of bs 1] k(2,3) printing_chars [OF assms(2)]
  show "\<exists>k'. rl_call_last_kbd_macro 1 k = Inr (Returned 0, k') \<and> quiet k' (map key_of bs @ ks) \<and> recording None k' \<and>
      (None = None \<longrightarrow> stored (Some bs) k')" by (auto simp: and_key_def)
qed simp_all

section \<open>The properties of typing and of macros\<close>

text \<open>A session whose line is not initialised yet.\<close>

definition fresh_session :: "session \<Rightarrow> hist_state \<Rightarrow> int list \<Rightarrow> bool" where
  "fresh_session s h ks \<longleftrightarrow> lines_ok h \<and> line s = rl_static (rl_junk (line s)) h \<and> rl_eof_char s = 4 \<and> quiet (kbd s) ks \<and>
     \<not> state_macrodef (kbd s)"

lemma fresh_at_line:
  assumes "fresh_session s h ks"
  shows "at_line (s\<lparr>line := started (rl_junk (line s)) h\<rparr>) ks None None ''''"
  using assms started_typing by (simp add: fresh_session_def at_line_def recording_def stored_def)

lemma fresh_returns:
  assumes "fresh_session s h ks" and "reaches ff d i (s\<lparr>line := started (rl_junk (line s)) h\<rparr>) (accepted t ks')" and "0 < i" "i \<le> n" "d \<le> n"
  shows "\<exists>s'. readline_keys ff n emacs_keymaps s = Inr (Some t, s') \<and> quiet (kbd s') ks'"
  using assms(1) readline_returns [OF _ _ _ assms(2-5)] by (auto simp: fresh_session_def dest: quiet_pending)

lemma reaches_mono: "reaches ff d i s Q \<Longrightarrow> d \<le> d' \<Longrightarrow> reaches ff d' i s Q"
  unfolding reaches_def by (meson order_trans)

text \<open>A session before its first line, with the keys \<open>ks\<close> to come.\<close>

definition first_session :: "int list \<Rightarrow> session" where
  "first_session ks = \<lparr>kbd = kbd_static CHR ''?'' True ks, line = rl_static CHR ''?'' (hist_start 9),
     rl_dispatching_keymap = Emacs_Standard, rl_convert_meta = True, rl_eof_char = 4\<rparr>"

lemma first_session:
  "fresh_session (first_session ks) (hist_start 9) ks" "block_ok (kbd (first_session ks))"
proof -
  have "lines_ok (hist_start 9)" by (rule lines_ok_start)
  moreover have "quiet (kbd_static filler b ks) ks" for filler b
    by (simp add: quiet_def kbd_static_def key_inv_def ring_inv_def macro_inv_def key_source_def macro_text_def ring_keys_def ring_size_def)
  ultimately show "fresh_session (first_session ks) (hist_start 9) ks"
    by (simp add: fresh_session_def first_session_def) (simp add: kbd_static_def rl_static_def)
  show "block_ok (kbd (first_session ks))" by (simp add: first_session_def kbd_static_def block_ok_def)
qed

definition no_foreign :: foreign where
  "no_foreign name count key s = Inr (Returned 0, s)"

text \<open>C7: What is typed is what the caller gets. From the terminal or from a macro, the keys of a printable text followed by
  a return make \<open>readline\<close> return exactly this text, whatever its length, and leave the keys behind the return to be read;
  as many passes and calls as the text is long, and one more, are enough.\<close>

theorem typed_line_returned:
  assumes "fresh_session s h (map key_of t @ 13 # ks)" and "list_all printing t" and "length t + 1 \<le> n"
  shows "\<exists>s'. readline_keys ff n emacs_keymaps s = Inr (Some t, s') \<and> quiet (kbd s') ks"
proof (rule fresh_returns [OF assms(1)])
  have "reaches ff 1 (length t) (s\<lparr>line := started (rl_junk (line s)) h\<rparr>) (\<lambda>s'. at_line s' (13 # ks) None None t)"
    using reaches_text [OF fresh_at_line [OF assms(1)] assms(2)] by simp
  then show "reaches ff 1 (length t + 1) (s\<lparr>line := started (rl_junk (line s)) h\<rparr>) (accepted t ks)"
    by (rule reaches_trans) (rule reaches_newline)
qed (use assms(3) in simp_all)

theorem typed_line_returned_witness:
  "\<exists>s'. readline_keys no_foreign 6 emacs_keymaps (first_session (map key_of ''ls -l'' @ [13, 65])) = Inr (Some ''ls -l'', s') \<and>
    quiet (kbd s') [65]"
  by (rule typed_line_returned [OF first_session(1)]) (simp_all add: printing_def)

text \<open>C5: A keyboard macro repeats what was typed. When \<open>C-x (\<close>, a printable text, \<open>C-x )\<close>, \<open>C-x e\<close> and a return are typed,
  the macro that is recorded is exactly the text - the keys of \<open>C-x )\<close> are taken out again - and the line that is returned
  is the text twice. The block the macro is recorded in grows as it has to.\<close>

theorem macro_repeats_text:
  assumes "fresh_session s h (24 # 40 # map key_of t @ 24 # 41 # 24 # 101 # 13 # ks)" and "list_all printing t"
    and "block_ok (kbd s)" and "2 * length t + 4 \<le> n"
  shows "\<exists>s'. readline_keys ff n emacs_keymaps s = Inr (Some (t @ t), s') \<and> quiet (kbd s') ks"
proof (rule fresh_returns [OF assms(1)])
  let ?s = "s\<lparr>line := started (rl_junk (line s)) h\<rparr>"
  have "reaches ff 2 1 ?s (\<lambda>s'. at_line s' (map key_of t @ 24 # 41 # 24 # 101 # 13 # ks) (Some []) None '''')"
    using fresh_at_line [OF assms(1)] assms(3) by (intro reaches_start) simp_all
  then have "reaches ff 2 (1 + length t) ?s (\<lambda>s'. at_line s' (24 # 41 # 24 # 101 # 13 # ks) (Some t) None t)"
    by (rule reaches_trans) (use reaches_mono [OF reaches_text [OF _ assms(2)]] in fastforce)
  then have "reaches ff 2 (1 + length t + 1) ?s (\<lambda>s'. at_line s' (24 # 101 # 13 # ks) None (Some t) t)"
    by (rule reaches_trans) (rule reaches_end [OF _ assms(2)])
  then have "reaches ff 2 (1 + length t + 1 + 1) ?s (\<lambda>s'. at_line s' (map key_of t @ 13 # ks) None (Some t) t)"
    by (rule reaches_trans) (rule reaches_call [OF _ assms(2)])
  then have "reaches ff 2 (1 + length t + 1 + 1 + length t) ?s (\<lambda>s'. at_line s' (13 # ks) None (Some t) (t @ t))"
    by (rule reaches_trans) (use reaches_mono [OF reaches_text [OF _ assms(2)]] in fastforce)
  then show "reaches ff 2 (1 + length t + 1 + 1 + length t + 1) ?s (accepted (t @ t) ks)"
    by (rule reaches_trans) (use reaches_mono [OF reaches_newline] in fastforce)
qed (use assms(4) in simp_all)

theorem macro_repeats_text_witness:
  "\<exists>s'. readline_keys no_foreign 8 emacs_keymaps (first_session (24 # 40 # map key_of ''ab'' @ 24 # 41 # 24 # 101 # 13 # [])) =
    Inr (Some (''ab'' @ ''ab''), s') \<and> quiet (kbd s') []"
  by (rule macro_repeats_text [OF first_session(1) _ first_session(2)]) (simp_all add: printing_def)

section \<open>A key that is bound to a command\<close>

text \<open>C9: A key runs the command it is bound to. In a pass of the loop that reads a line, a key that the keymap binds to a
  command on the line changes the line exactly as the command does between two other commands - with the argument 1, the
  command remembered as the last one and the flag of a kill that was not repeated cleared - and, while a macro is defined, is
  recorded as one byte. The keys behind it are still to be read.\<close>

theorem key_runs_action:
  assumes "quiet (kbd s) (c # ks)" and "recording r (kbd s)" and "maps Emacs_Standard c = ISFUNC (Some f)"
    and "edit_action f c = Some act" and "plain_key c s" and "c \<noteq> rl_eof_char s \<or> rl_end (line s) \<noteq> 0"
    and "call_action act 1 ((idle_line maps s)\<lparr>rl_explicit_arg := False\<rparr>) = Inr (Returned x, st1)"
  shows "\<exists>k st'. run_action act False 1 (idle_line maps s) = Inr st' \<and>
    rl_char ff (Suc j) (Suc n) maps lastc (rl_last_command_was_kill (line s)) s =
      Inr (False, s\<lparr>kbd := k, rl_dispatching_keymap := Emacs_Standard, line := st'\<lparr>rl_typein := []\<rparr>\<rparr>) \<and>
    quiet k ks \<and> recording (and_key r c) k"
  using pass_edit [OF assms] by blast

theorem key_runs_action_witness:
  "\<exists>k st'. rl_char no_foreign 1 1 emacs_keymaps (-1) (rl_last_command_was_kill (started CHR ''?'' (hist_start 9)))
      ((first_session [13, 65])\<lparr>line := started CHR ''?'' (hist_start 9)\<rparr>) =
    Inr (False, (first_session [13, 65])\<lparr>kbd := k, rl_dispatching_keymap := Emacs_Standard, line := st'\<lparr>rl_typein := []\<rparr>\<rparr>) \<and>
    quiet k [65]"
proof -
  let ?s = "(first_session [13, 65])\<lparr>line := started CHR ''?'' (hist_start 9)\<rparr>"
  have s: "quiet (kbd ?s) (13 # [65])" "recording None (kbd ?s)"
    using first_session(1) [of "[13, 65]"] by (simp_all add: fresh_session_def recording_def)
  have m: "emacs_keymaps Emacs_Standard 13 = ISFUNC (Some (Edit (Command Newline)))"
    by (simp add: emacs_keymaps_def emacs_standard_keymap_def)
  have e: "edit_action (Edit (Command Newline)) 13 = Some (Command Newline)" by (simp add: edit_action_def)
  have p: "plain_key 13 ?s" "13 \<noteq> rl_eof_char ?s \<or> rl_end (line ?s) \<noteq> 0" by (simp_all add: plain_key_def first_session_def)
  let ?st = "(idle_line emacs_keymaps ?s)\<lparr>rl_explicit_arg := False\<rparr>"
  have c: "call_action (Command Newline) 1 ?st = Inr (Returned 0, rl_newline ?st)"
    by (simp add: call_action_def call_command_def)
  from key_runs_action [OF s m e p c, of no_foreign 0 0 "-1"] show ?thesis by auto
qed

end
